(* ===== verification/Prelude.thy ===== *)
theory Prelude
  imports Main "HOL-Library.Word"
begin

unbundle bit_operations_syntax

text \<open>
  What every component shares.  A C function that returns \<open>hpatch_BOOL\<close> is modelled by a
  value of type \<open>'a res\<close>: \<open>Ok x\<close> is \<open>hpatch_TRUE\<close> with the new values of its out
  parameters, \<open>Fail\<close> is \<open>hpatch_FALSE\<close> (or a null result), and \<open>Fault\<close> is what must
  never happen: an \<open>assert\<close> of the source is false, or memory outside a buffer is touched.
  A pair of pointers \<open>(p, end)\<close> into a buffer that is only read is the list of the bytes
  between them; a buffer that is written is a list of fixed length.
  \<open>hpatch_StreamPos_t\<close> and \<open>hpatch_size_t\<close> are natural numbers below \<open>2 ^ 64\<close> (an LP64
  machine) with the wrap-around of \<open>+\<close> and \<open>-\<close> written as \<open>add64\<close> and \<open>sub64\<close>.
\<close>

named_theorems safe_rules "rules that establish hoare triples of the operations"
named_theorems wrap_simps "wrap-around arithmetic that does not wrap"
named_theorems eval_simps "definitions unfolded to run the model on concrete input"

section \<open>Results\<close>

datatype 'a res = Ok 'a | Fail | Fault

fun rbind :: "'a res \<Rightarrow> ('a \<Rightarrow> 'b res) \<Rightarrow> 'b res" where
  "rbind (Ok x) f = f x"
| "rbind Fail f = Fail"
| "rbind Fault f = Fault"

lemma rbind_cong [fundef_cong]:
  "m = m' \<Longrightarrow> (\<And>x. m' = Ok x \<Longrightarrow> f x = f' x) \<Longrightarrow> rbind m f = rbind m' f'"
  by (cases m') auto

lemma rbind_eq_Ok: "rbind m f = Ok y \<longleftrightarrow> (\<exists>x. m = Ok x \<and> f x = Ok y)"
  by (cases m) auto

lemma rbind_eq_Fault: "rbind m f = Fault \<longleftrightarrow> m = Fault \<or> (\<exists>x. m = Ok x \<and> f x = Fault)"
  by (cases m) auto

lemma rbind_assoc: "rbind (rbind m f) g = rbind m (\<lambda>x. rbind (f x) g)"
  by (cases m) auto

text \<open>\<open>check\<close> is the code's \<open>if (!c) return hpatch_FALSE\<close>, \<open>require\<close> its \<open>assert(c)\<close>.\<close>

definition check :: "bool \<Rightarrow> unit res" where
  "check c = (if c then Ok () else Fail)"

definition require :: "bool \<Rightarrow> unit res" where
  "require c = (if c then Ok () else Fault)"

lemma check_simps [simp]: "check True = Ok ()" "check False = Fail"
  by (simp_all add: check_def)

lemma require_simps [simp]: "require True = Ok ()" "require False = Fault"
  by (simp_all add: require_def)

text \<open>
  \<open>hoare S m Q\<close>: \<open>m\<close> does not fault; when it succeeds its result satisfies \<open>Q\<close>; and it
  succeeds if \<open>S\<close> holds.  With \<open>S = False\<close> it is partial correctness with memory safety,
  with \<open>S = True\<close> total correctness.
\<close>

definition hoare :: "bool \<Rightarrow> 'a res \<Rightarrow> ('a \<Rightarrow> bool) \<Rightarrow> bool" where
  "hoare S m Q \<longleftrightarrow> (case m of Ok x \<Rightarrow> Q x | Fail \<Rightarrow> \<not> S | Fault \<Rightarrow> False)"

lemma hoare_simps [simp]:
  "hoare S (Ok x) Q \<longleftrightarrow> Q x" "hoare S Fail Q \<longleftrightarrow> \<not> S" "\<not> hoare S Fault Q"
  by (simp_all add: hoare_def)

lemma hoare_bind:
  "hoare S m P \<Longrightarrow> (\<And>x. m = Ok x \<Longrightarrow> P x \<Longrightarrow> hoare S (f x) Q) \<Longrightarrow> hoare S (rbind m f) Q"
  by (cases m) auto

lemma hoare_bindI: "hoare S m (\<lambda>x. hoare S (f x) Q) \<Longrightarrow> hoare S (rbind m f) Q"
  by (cases m) auto

lemma hoare_mono: "hoare S m P \<Longrightarrow> (\<And>x. P x \<Longrightarrow> Q x) \<Longrightarrow> hoare S m Q"
  by (cases m) auto

lemma hoare_weaken: "hoare S m P \<Longrightarrow> (S' \<Longrightarrow> S) \<Longrightarrow> (\<And>x. P x \<Longrightarrow> Q x) \<Longrightarrow> hoare S' m Q"
  by (cases m) auto

lemma hoare_Ok: "hoare S m Q \<Longrightarrow> m = Ok x \<Longrightarrow> Q x"
  by simp

lemma hoare_not_Fault: "hoare S m Q \<Longrightarrow> m \<noteq> Fault"
  by auto

lemma hoare_success: "hoare S m Q \<Longrightarrow> S \<Longrightarrow> \<exists>x. m = Ok x \<and> Q x"
  by (cases m) auto

lemma hoare_check: "(S \<Longrightarrow> c) \<Longrightarrow> hoare S (check c) (\<lambda>_. c)"
  by (auto simp: check_def)

lemma hoare_require: "c \<Longrightarrow> hoare S (require c) (\<lambda>_. c)"
  by simp

lemma hoare_if:
  "(b \<Longrightarrow> hoare S m Q) \<Longrightarrow> (\<not> b \<Longrightarrow> hoare S m' Q) \<Longrightarrow> hoare S (if b then m else m') Q"
  by simp

lemma hoare_prod: "hoare S (f a b) Q \<Longrightarrow> hoare S (case (a, b) of (x, y) \<Rightarrow> f x y) Q"
  by simp

section \<open>Bytes and machine integers\<close>

type_synonym byte = "8 word"

definition add64 :: "nat \<Rightarrow> nat \<Rightarrow> nat" where
  "add64 a b = (a + b) mod 2 ^ 64"

definition sub64 :: "nat \<Rightarrow> nat \<Rightarrow> nat" where
  "sub64 a b = (a + 2 ^ 64 - b) mod 2 ^ 64"

lemma add64_less [simp]: "add64 a b < 2 ^ 64" "add64 a b < 18446744073709551616"
  by (simp_all add: add64_def)

lemma sub64_less [simp]: "sub64 a b < 2 ^ 64" "sub64 a b < 18446744073709551616"
  by (simp_all add: sub64_def)

lemma add64_eq [wrap_simps]: "a + b < 2 ^ 64 \<Longrightarrow> add64 a b = a + b"
  by (simp add: add64_def)

lemma sub64_eq [wrap_simps]:
  assumes "b \<le> a" "a < 2 ^ 64"
  shows "sub64 a b = a - b"
proof -
  have "a + 2 ^ 64 - b = (a - b) + 2 ^ 64" using assms(1) by simp
  moreover have "a - b < 2 ^ 64" using assms(2) by linarith
  ultimately show ?thesis unfolding sub64_def by (simp only: mod_add_self2 mod_less)
qed

lemma sub64_self [simp]: "a < 2 ^ 64 \<Longrightarrow> sub64 a a = 0"
  by (simp add: sub64_def)

lemma sub64_wrap: "a < b \<Longrightarrow> b \<le> 2 ^ 64 \<Longrightarrow> sub64 a b = a + 2 ^ 64 - b"
  by (simp add: sub64_def)

text \<open>A forward step and the backward step that undoes it agree modulo the width.\<close>

lemma sub64_add64:
  assumes "a < 2 ^ 64" "b < 2 ^ 64"
  shows "sub64 (add64 a b) b = a"
proof (cases "a + b < 2 ^ 64")
  case True
  then show ?thesis by (simp add: add64_eq sub64_eq)
next
  case False
  then have "add64 a b = a + b - 2 ^ 64"
    using assms by (simp add: add64_def mod_if)
  then show ?thesis using False assms by (simp add: sub64_wrap)
qed

lemma add64_sub64:
  assumes "a < 2 ^ 64" "b < 2 ^ 64"
  shows "add64 (sub64 a b) b = a"
proof (cases "b \<le> a")
  case True
  then show ?thesis using assms by (simp add: add64_eq sub64_eq)
next
  case False
  then show ?thesis using assms by (simp add: sub64_wrap add64_def)
qed

lemma unat_byte_less [simp]: "unat (b :: byte) < 256"
  using unsigned_less [of b] by simp

section \<open>Buffers\<close>

text \<open>\<open>memcpy\<close> out of a buffer and into it; touching anything outside is a fault.\<close>

definition mem_read :: "byte list \<Rightarrow> nat \<Rightarrow> nat \<Rightarrow> byte list res" where
  "mem_read buf i n = (if i + n \<le> length buf then Ok (take n (drop i buf)) else Fault)"

definition mem_write :: "byte list \<Rightarrow> nat \<Rightarrow> byte list \<Rightarrow> byte list res" where
  "mem_write buf i d =
     (if i + length d \<le> length buf then Ok (take i buf @ d @ drop (i + length d) buf) else Fault)"

lemma hoare_mem_read [safe_rules]:
  "i + n \<le> length buf \<Longrightarrow>
   hoare S (mem_read buf i n) (\<lambda>d. d = take n (drop i buf) \<and> length d = n)"
  by (simp add: mem_read_def)

lemma hoare_mem_write [safe_rules]:
  "i + length d \<le> length buf \<Longrightarrow>
   hoare S (mem_write buf i d)
     (\<lambda>buf'. buf' = take i buf @ d @ drop (i + length d) buf \<and> length buf' = length buf)"
  by (simp add: mem_write_def)

lemma mem_write_Ok:
  "mem_write buf i d = Ok buf' \<longleftrightarrow>
   i + length d \<le> length buf \<and> buf' = take i buf @ d @ drop (i + length d) buf"
  by (auto simp: mem_write_def)

lemma mem_read_Ok:
  "mem_read buf i n = Ok d \<longleftrightarrow> i + n \<le> length buf \<and> d = take n (drop i buf)"
  by (auto simp: mem_read_def)

text \<open>Reading \<open>n\<close> bytes at a pointer and advancing it: the bytes read and the bytes left.\<close>

definition mem_take :: "nat \<Rightarrow> byte list \<Rightarrow> (byte list \<times> byte list) res" where
  "mem_take n p = (if n \<le> length p then Ok (take n p, drop n p) else Fault)"

lemma hoare_mem_take [safe_rules]:
  "n \<le> length p \<Longrightarrow>
   hoare S (mem_take n p) (\<lambda>(d, r). d = take n p \<and> r = drop n p \<and> p = d @ r \<and> length d = n)"
  by (simp add: mem_take_def)

lemma mem_take_append [simp]: "n = length d \<Longrightarrow> mem_take n (d @ r) = Ok (d, r)"
  by (simp add: mem_take_def)

text \<open>\<open>*dst++ += *src++\<close> for \<open>length\<close> bytes.\<close>

definition bytes_add :: "byte list \<Rightarrow> byte list \<Rightarrow> byte list" where
  "bytes_add xs ys = map2 (+) xs ys"

lemma length_bytes_add [simp]: "length (bytes_add xs ys) = min (length xs) (length ys)"
  by (simp add: bytes_add_def)

lemma nth_bytes_add [simp]:
  "i < length xs \<Longrightarrow> i < length ys \<Longrightarrow> bytes_add xs ys ! i = xs ! i + ys ! i"
  by (simp add: bytes_add_def)

lemma bytes_add_append:
  "length xs = length ys \<Longrightarrow> bytes_add (xs @ xs') (ys @ ys') = bytes_add xs ys @ bytes_add xs' ys'"
  by (simp add: bytes_add_def)

lemma bytes_add_comm: "bytes_add xs ys = bytes_add ys xs"
  unfolding bytes_add_def
  by (rule nth_equalityI) (auto simp: add.commute)

lemma bytes_add_zero [simp]: "length xs \<le> n \<Longrightarrow> bytes_add xs (replicate n 0) = xs"
  by (rule nth_equalityI) auto

lemma bytes_add_Nil [simp]: "bytes_add [] ys = []" "bytes_add xs [] = []"
  by (simp_all add: bytes_add_def)

lemma take_bytes_add: "take n (bytes_add xs ys) = bytes_add (take n xs) (take n ys)"
  by (simp add: bytes_add_def take_map take_zip)

lemma drop_bytes_add: "drop n (bytes_add xs ys) = bytes_add (drop n xs) (drop n ys)"
  by (simp add: bytes_add_def drop_map drop_zip)

lemmas buffer_evals [eval_simps] =
  mem_read_def mem_write_def mem_take_def bytes_add_def check_def require_def add64_def sub64_def Let_def

section \<open>Lists\<close>

lemma take_drop_append_middle:
  "i + length d \<le> length buf \<Longrightarrow> take (i + length d) (take i buf @ d @ drop (i + length d) buf) = take i buf @ d"
  by simp

lemma drop_after_write:
  "i + length d \<le> length buf \<Longrightarrow> drop (i + length d) (take i buf @ d @ drop (i + length d) buf) = drop (i + length d) buf"
  by simp

lemma take_add_drop: "take n (drop i xs) @ drop (i + n) xs = drop i xs"
  by (metis append_take_drop_id drop_drop add.commute)

lemma take_take_drop: "take i xs @ take n (drop i xs) = take (i + n) xs"
  by (simp add: take_add)

end
