(* ===== verification/PackUInt.thy ===== *)
theory PackUInt
  imports Prelude
begin

text \<open>
  The variable-length integers of every format of the program: \<open>hpatch_packUIntWithTag\<close>,
  \<open>hpatch_packUIntWithTag_size\<close> and \<open>hpatch_unpackUIntWithTag\<close> of
  \<open>libHDiffPatch/HPatch/patch.c\<close>.  The first byte holds \<open>kTagBit\<close> tag bits, a bit that
  says whether more bytes follow and \<open>7 - kTagBit\<close> value bits; every other byte a
  more-follows bit and 7 value bits, the highest bits first.
\<close>

section \<open>The code\<close>

text \<open>\<open>hpatch_kMaxPackedUIntBytes\<close>: \<open>(sizeof(hpatch_StreamPos_t)*8+6)/7+1\<close>.\<close>

definition hpatch_kMaxPackedUIntBytes :: nat where
  "hpatch_kMaxPackedUIntBytes = (8 * 8 + 6) div 7 + 1"

text \<open>
  The first loop of \<open>hpatch_packUIntWithTag\<close>: low 7-bit groups go to \<open>codeBuf\<close> until the
  rest fits the first byte.  \<open>codeBuf\<close> has \<open>hpatch_kMaxPackedUIntBytes\<close> bytes.
\<close>

function pack_groups :: "nat \<Rightarrow> nat \<Rightarrow> byte list \<Rightarrow> (nat \<times> byte list) res" where
  "pack_groups kMaxValueWithTag uValue codeBuf =
     (if uValue > kMaxValueWithTag then
        (if length codeBuf \<ge> hpatch_kMaxPackedUIntBytes then Fault
         else pack_groups kMaxValueWithTag (drop_bit 7 uValue)
                (codeBuf @ [of_nat (uValue AND (2 ^ 7 - 1))]))
      else Ok (uValue, codeBuf))"
  by pat_completeness auto
termination
  by (relation "measure (\<lambda>(k, v, buf). v)") (auto simp: drop_bit_eq_div)

declare pack_groups.simps [simp del]

text \<open>The second loop: the groups are emitted from the last one, all but the last marked.\<close>

fun emit_groups :: "byte list \<Rightarrow> byte list" where
  "emit_groups [] = []"
| "emit_groups (c # codes) =
     (c OR of_nat (push_bit 7 (if codes \<noteq> [] then 1 else 0))) # emit_groups codes"

text \<open>
  \<open>hpatch_packUIntWithTag(&out_code,out_code_end,uValue,highTag,kTagBit)\<close>: the bytes it
  writes at \<open>out_code\<close>, where \<open>room\<close> is \<open>out_code_end-out_code\<close>.
\<close>

definition hpatch_packUIntWithTag :: "nat \<Rightarrow> nat \<Rightarrow> nat \<Rightarrow> nat \<Rightarrow> byte list res" where
  "hpatch_packUIntWithTag room uValue highTag kTagBit =
     (let kMaxValueWithTag = 2 ^ (7 - kTagBit) - 1 in
      rbind (pack_groups kMaxValueWithTag uValue []) (\<lambda>(uValue, codeBuf).
      rbind (check (\<not> room < 1 + length codeBuf)) (\<lambda>_.
      Ok (of_nat (uValue OR push_bit (8 - kTagBit) highTag
                  OR push_bit (7 - kTagBit) (if codeBuf \<noteq> [] then 1 else 0))
          # emit_groups (rev codeBuf)))))"

function pack_size_loop :: "nat \<Rightarrow> nat \<Rightarrow> nat \<Rightarrow> nat" where
  "pack_size_loop kMaxValueWithTag uValue sz =
     (if uValue > kMaxValueWithTag then pack_size_loop kMaxValueWithTag (drop_bit 7 uValue) (sz + 1)
      else sz)"
  by pat_completeness auto
termination
  by (relation "measure (\<lambda>(k, v, s). v)") (auto simp: drop_bit_eq_div)

declare pack_size_loop.simps [simp del]

definition hpatch_packUIntWithTag_size :: "nat \<Rightarrow> nat \<Rightarrow> nat" where
  "hpatch_packUIntWithTag_size uValue kTagBit =
     (let kMaxValueWithTag = 2 ^ (7 - kTagBit) - 1 in pack_size_loop kMaxValueWithTag uValue 0 + 1)"

text \<open>
  The \<open>do\<close> loop of \<open>hpatch_unpackUIntWithTag\<close>, over the bytes from \<open>pcode\<close> to
  \<open>src_code_end\<close>: a value whose top 7 bits are used cannot take another group, and the
  bytes must not run out.
\<close>

fun unpack_groups :: "nat \<Rightarrow> byte list \<Rightarrow> (nat \<times> byte list) res" where
  "unpack_groups value pcode =
     (if drop_bit (8 * 8 - 7) value \<noteq> 0 then Fail
      else (case pcode of
         [] \<Rightarrow> Fail
       | code # pcode' \<Rightarrow>
           (let value' = take_bit 64 (push_bit 7 value) OR (unat code AND (2 ^ 7 - 1)) in
            if unat code AND 2 ^ 7 \<noteq> 0 then unpack_groups value' pcode' else Ok (value', pcode'))))"

declare unpack_groups.simps [simp del]

text \<open>
  \<open>hpatch_unpackUIntWithTag(&src_code,src_code_end,&result,kTagBit)\<close>: the value and the
  bytes left.
\<close>

definition hpatch_unpackUIntWithTag :: "byte list \<Rightarrow> nat \<Rightarrow> (nat \<times> byte list) res" where
  "hpatch_unpackUIntWithTag src_code kTagBit =
     (case src_code of
        [] \<Rightarrow> Fail
      | code # pcode \<Rightarrow>
          (let value = unat code AND (2 ^ (7 - kTagBit) - 1) in
           if unat code AND 2 ^ (7 - kTagBit) \<noteq> 0 then unpack_groups value pcode
           else Ok (value, pcode)))"

definition hpatch_packUInt :: "nat \<Rightarrow> nat \<Rightarrow> byte list res" where
  "hpatch_packUInt room uValue = hpatch_packUIntWithTag room uValue 0 0"

definition hpatch_packUInt_size :: "nat \<Rightarrow> nat" where
  "hpatch_packUInt_size uValue = hpatch_packUIntWithTag_size uValue 0"

definition hpatch_unpackUInt :: "byte list \<Rightarrow> (nat \<times> byte list) res" where
  "hpatch_unpackUInt src_code = hpatch_unpackUIntWithTag src_code 0"

section \<open>Bits as arithmetic\<close>

lemma and_low_mask: "(n :: nat) AND (2 ^ k - 1) = n mod 2 ^ k"
  using take_bit_eq_mask [of k n] by (simp add: take_bit_eq_mod mask_eq_exp_minus_1)

lemma and_127: "(n :: nat) AND 127 = n mod 128"
  using and_low_mask [of n 7] by simp

lemma or_shifted:
  assumes "(r :: nat) < 2 ^ k"
  shows "r OR push_bit k v = r + v * 2 ^ k"
proof -
  have "r AND push_bit k v = 0"
  proof (rule bit_eqI)
    fix n
    have "\<not> bit r n" if "k \<le> n"
    proof -
      have "r < 2 ^ n" using assms that by (meson less_le_trans one_le_numeral power_increasing)
      then show ?thesis by (simp add: bit_iff_odd)
    qed
    then show "bit (r AND push_bit k v) n = bit (0 :: nat) n" by (auto simp: bit_simps)
  qed
  then have "r OR push_bit k v = r + push_bit k v" by (simp add: disjunctive_add_eq_or)
  then show ?thesis by (simp add: push_bit_eq_mult)
qed

lemma or_shifted': "(r :: nat) < 2 ^ k \<Longrightarrow> push_bit k v OR r = r + v * 2 ^ k"
  using or_shifted [of r k v] by (simp add: or.commute)

lemma bit_test: "((n :: nat) AND 2 ^ k \<noteq> 0) = odd (n div 2 ^ k)"
  by (simp add: and_exp_eq_0_iff_not_bit bit_iff_odd)

lemma unat_byte_of_nat: "n < 256 \<Longrightarrow> unat (of_nat n :: byte) = n"
  by (simp add: unat_of_nat)

text \<open>One step of the decoder's shift-and-or, when the top seven bits are free.\<close>

lemma shift_in_group:
  assumes "drop_bit 57 (v :: nat) = 0"
  shows "take_bit 64 (push_bit 7 v) OR (c AND 127) = v * 128 + c mod 128"
    and "v * 128 + c mod 128 < 2 ^ 64"
proof -
  have v: "v < 2 ^ 57"
    using assms by (simp add: drop_bit_eq_div div_eq_0_iff)
  then have "take_bit 64 (push_bit 7 v) = push_bit 7 v"
    by (simp add: take_bit_eq_mod push_bit_eq_mult)
  moreover have "push_bit 7 v OR c mod 128 = c mod 128 + v * 2 ^ 7"
    by (rule or_shifted') simp
  ultimately show "take_bit 64 (push_bit 7 v) OR (c AND 127) = v * 128 + c mod 128"
    by (simp add: and_127)
  show "v * 128 + c mod 128 < 2 ^ 64" using v by simp
qed

section \<open>The groups of a number\<close>

text \<open>The number that a first-byte value and a list of 7-bit groups stand for.\<close>

definition groups_value :: "nat \<Rightarrow> byte list \<Rightarrow> nat" where
  "groups_value v gs = foldl (\<lambda>a g. a * 128 + unat g) v gs"

lemma groups_value_simps [simp]:
  "groups_value v [] = v"
  "groups_value v (g # gs) = groups_value (v * 128 + unat g) gs"
  "groups_value v (gs @ gs') = groups_value (groups_value v gs) gs'"
  by (simp_all add: groups_value_def)

lemma groups_value_ge: "v * 128 ^ length gs \<le> groups_value v gs"
proof (induction gs arbitrary: v)
  case (Cons g gs)
  have "v * 128 ^ length (g # gs) \<le> (v * 128 + unat g) * 128 ^ length gs"
    by (simp add: algebra_simps)
  also have "\<dots> \<le> groups_value v (g # gs)" using Cons.IH by simp
  finally show ?case .
qed simp

text \<open>The first loop splits the number; ten groups are always enough.\<close>

lemma pack_groups_split:
  "v < 128 ^ n \<Longrightarrow> length buf + n \<le> hpatch_kMaxPackedUIntBytes \<Longrightarrow>
   \<exists>v' gs. pack_groups k v buf = Ok (v', buf @ gs) \<and> v' \<le> k \<and> length gs \<le> n \<and>
     (\<forall>g \<in> set gs. unat g < 128) \<and> groups_value v' (rev gs) = v \<and>
     pack_size_loop k v (length buf) = length buf + length gs"
proof (induction k v buf arbitrary: n rule: pack_groups.induct)
  case (1 k v buf)
  show ?case
  proof (cases "v > k")
    case False
    then show ?thesis
      by (intro exI [of _ v] exI [of _ "[]"]) (simp add: pack_groups.simps [of k v buf] pack_size_loop.simps)
  next
    case True
    with "1.prems"(1) obtain m where n: "n = Suc m" by (cases n) auto
    let ?g = "of_nat (v AND (2 ^ 7 - 1)) :: byte"
    have g: "unat ?g = v mod 128" by (simp add: and_127 unat_of_nat)
    have room: "\<not> length buf \<ge> hpatch_kMaxPackedUIntBytes" using "1.prems"(2) n by simp
    have "drop_bit 7 v < 128 ^ m"
      using "1.prems"(1) n by (simp add: drop_bit_eq_div less_mult_imp_div_less mult.commute)
    moreover have "length (buf @ [?g]) + m \<le> hpatch_kMaxPackedUIntBytes"
      using "1.prems"(2) n by simp
    ultimately obtain v' gs where IH: "pack_groups k (drop_bit 7 v) (buf @ [?g]) = Ok (v', (buf @ [?g]) @ gs)"
      "v' \<le> k" "length gs \<le> m" "\<forall>g \<in> set gs. unat g < 128" "groups_value v' (rev gs) = drop_bit 7 v"
      "pack_size_loop k (drop_bit 7 v) (length (buf @ [?g])) = length (buf @ [?g]) + length gs"
      using "1.IH" [OF True room] by blast
    have "groups_value v' (rev (?g # gs)) = v"
      using IH(5) g by (simp add: drop_bit_eq_div)
    then show ?thesis
      using True room IH g n
      by (intro exI [of _ v'] exI [of _ "?g # gs"])
        (simp add: pack_groups.simps [of k v buf] pack_size_loop.simps [of k v])
  qed
qed

lemma u64_groups: "(v :: nat) < 2 ^ 64 \<Longrightarrow> v < 128 ^ 10"
  by simp

lemma length_emit_groups [simp]: "length (emit_groups cs) = length cs"
  by (induction cs) auto

text \<open>Decoding what the second loop emits.\<close>

lemma unat_marked_group:
  assumes "unat (c :: byte) < 128"
  shows "unat (c OR of_nat (push_bit 7 (if b then 1 else 0))) = unat c + (if b then 128 else 0)"
proof -
  have "c OR of_nat (push_bit 7 (if b then 1 else 0))
      = of_nat (unat c OR push_bit 7 (if b then 1 else 0))"
    by (simp add: of_nat_or_eq)
  also have "unat c OR push_bit 7 (if b then 1 else 0) = unat c + (if b then 1 else 0) * 2 ^ 7"
    by (rule or_shifted) (use assms in simp)
  also have "\<dots> = unat c + (if b then 128 else 0)" by simp
  finally show ?thesis
    using assms unat_byte_of_nat [of "unat c + (if b then 128 else 0)"] by (simp split: if_splits)
qed

lemma unpack_emit_groups:
  assumes "\<forall>c \<in> set cs. unat c < 128" "cs \<noteq> []" "groups_value v cs < 2 ^ 64"
  shows "unpack_groups v (emit_groups cs @ rest) = Ok (groups_value v cs, rest)"
  using assms
proof (induction cs arbitrary: v)
  case (Cons c cs)
  let ?b = "c OR of_nat (push_bit 7 (if cs \<noteq> [] then 1 else 0))"
  have c: "unat c < 128" using Cons.prems by simp
  have ub: "unat ?b = unat c + (if cs \<noteq> [] then 128 else 0)" by (rule unat_marked_group [OF c])
  have "v * 128 ^ length (c # cs) \<le> groups_value v (c # cs)" by (rule groups_value_ge)
  then have "v * 128 ^ length (c # cs) < 2 ^ 64" using Cons.prems(3) by linarith
  moreover have "v * 128 \<le> v * 128 ^ length (c # cs)" by simp
  ultimately have "v * 128 < 2 ^ 64" by linarith
  then have top: "drop_bit 57 v = 0" by (simp add: drop_bit_eq_div div_eq_0_iff)
  have mod: "unat ?b mod 128 = unat c" using ub c by simp
  have step: "take_bit 64 (push_bit 7 v) OR (unat ?b AND 127) = v * 128 + unat c"
    using shift_in_group(1) [OF top, of "unat ?b"] mod by simp
  have bit: "(unat ?b AND 128 \<noteq> 0) = (cs \<noteq> [])"
    using bit_test [of "unat ?b" 7] c unfolding ub by (simp add: div_add_self2)
  show ?case
  proof (cases "cs = []")
    case True
    then show ?thesis using top step bit by (simp add: unpack_groups.simps)
  next
    case False
    then show ?thesis
      using top step bit Cons.IH [of "v * 128 + unat c"] Cons.prems by (simp add: unpack_groups.simps)
  qed
qed simp

text \<open>The first byte.\<close>

lemma unat_first_byte:
  assumes "v < 2 ^ (7 - t)" "tag < 2 ^ t" "t \<le> 7"
  shows "unat (of_nat (v OR push_bit (8 - t) tag OR push_bit (7 - t) (if b then 1 else 0)) :: byte)
       = v + (if b then 2 ^ (7 - t) else 0) + tag * 2 ^ (8 - t)"
    and "v + (if b then 2 ^ (7 - t) else 0) < 2 ^ (8 - t)"
proof -
  have t8: "(2 :: nat) ^ (8 - t) = 2 * 2 ^ (7 - t)"
    using assms(3) by (simp add: Suc_diff_le flip: power_Suc)
  let ?w = "v + (if b then 1 else 0) * 2 ^ (7 - t)"
  have w: "v OR push_bit (7 - t) (if b then 1 else 0) = ?w" by (rule or_shifted [OF assms(1)])
  have w_less: "?w < 2 ^ (8 - t)" using assms(1) t8 by simp
  have "v OR push_bit (8 - t) tag OR push_bit (7 - t) (if b then 1 else 0) = ?w OR push_bit (8 - t) tag"
    using w by (metis or.assoc or.commute)
  also have "\<dots> = ?w + tag * 2 ^ (8 - t)" by (rule or_shifted [OF w_less])
  finally have eq: "v OR push_bit (8 - t) tag OR push_bit (7 - t) (if b then 1 else 0)
      = ?w + tag * 2 ^ (8 - t)" .
  have "Suc tag * 2 ^ (8 - t) \<le> 2 ^ t * 2 ^ (8 - t)"
    by (rule mult_le_mono1) (use assms(2) in simp)
  also have "\<dots> = (2 :: nat) ^ 8" using assms(3) by (simp flip: power_add)
  finally have "?w + tag * 2 ^ (8 - t) < 256" using w_less by simp
  then show "unat (of_nat (v OR push_bit (8 - t) tag OR push_bit (7 - t) (if b then 1 else 0)) :: byte)
       = v + (if b then 2 ^ (7 - t) else 0) + tag * 2 ^ (8 - t)"
    unfolding eq using unat_byte_of_nat [of "?w + tag * 2 ^ (8 - t)"]
    by (simp only: if_distrib [of "\<lambda>x. x * _"] mult_1 mult_zero_left if_cancel)
  show "v + (if b then 2 ^ (7 - t) else 0) < 2 ^ (8 - t)" using w_less by (cases b) simp_all
qed

section \<open>Correctness\<close>

text \<open>What packing returns: a code that every decoder of the formats reads back.\<close>

definition packed_as :: "byte list \<Rightarrow> nat \<Rightarrow> nat \<Rightarrow> nat \<Rightarrow> bool" where
  "packed_as bs v tag t \<longleftrightarrow>
     bs \<noteq> [] \<and> drop_bit (8 - t) (unat (hd bs)) = tag \<and>
     length bs = hpatch_packUIntWithTag_size v t \<and>
     (\<forall>rest. hpatch_unpackUIntWithTag (bs @ rest) t = Ok (v, rest))"

lemma packUIntWithTag_result:
  assumes "v < 2 ^ 64" "tag < 2 ^ t" "t \<le> 7"
  shows "\<exists>bs. packed_as bs v tag t \<and> length bs \<le> 11 \<and>
    hpatch_packUIntWithTag room v tag t = (if length bs \<le> room then Ok bs else Fail)"
proof -
  let ?k = "2 ^ (7 - t) - 1 :: nat"
  have "v < 128 ^ 10" by (rule u64_groups [OF assms(1)])
  then obtain v' gs where pg: "pack_groups ?k v [] = Ok (v', gs)" "v' \<le> ?k" "length gs \<le> 10"
    "\<forall>g \<in> set gs. unat g < 128" "groups_value v' (rev gs) = v"
    "pack_size_loop ?k v 0 = length gs"
    using pack_groups_split [of v 10 "[]" ?k] by (auto simp: hpatch_kMaxPackedUIntBytes_def)
  have v': "v' < 2 ^ (7 - t)" by (rule le_less_trans [OF pg(2)]) simp
  define h where "h = (of_nat (v' OR push_bit (8 - t) tag OR push_bit (7 - t) (if gs \<noteq> [] then 1 else 0)) :: byte)"
  have uh: "unat h = v' + (if gs \<noteq> [] then 2 ^ (7 - t) else 0) + tag * 2 ^ (8 - t)"
    and small: "v' + (if gs \<noteq> [] then 2 ^ (7 - t) else 0) < 2 ^ (8 - t)"
    unfolding h_def using unat_first_byte [OF v' assms(2,3), of "gs \<noteq> []"] by simp_all
  have t8: "(2 :: nat) ^ (8 - t) = 2 * 2 ^ (7 - t)"
    using assms(3) by (simp add: Suc_diff_le flip: power_Suc)
  have tag: "drop_bit (8 - t) (unat h) = tag" using uh small by (simp add: drop_bit_eq_div)
  have mod: "unat h AND (2 ^ (7 - t) - 1) = v'"
    unfolding and_low_mask uh t8 using v' by (auto simp: mult.assoc [symmetric] mod_add_right_eq)
  have "unat h = v' + ((if gs \<noteq> [] then 1 else 0) + 2 * tag) * 2 ^ (7 - t)"
    unfolding uh t8 by (simp add: algebra_simps)
  then have "unat h div 2 ^ (7 - t) = (if gs \<noteq> [] then 1 else 0) + 2 * tag"
    using v' by (simp only: div_mult_self1) simp
  then have more: "(unat h AND 2 ^ (7 - t) \<noteq> 0) = (gs \<noteq> [])"
    unfolding bit_test by simp
  let ?bs = "h # emit_groups (rev gs)"
  have "hpatch_unpackUIntWithTag (?bs @ rest) t = Ok (v, rest)" for rest
  proof (cases "gs = []")
    case True
    then show ?thesis using mod more pg(5) by (simp add: hpatch_unpackUIntWithTag_def)
  next
    case False
    then have "unpack_groups v' (emit_groups (rev gs) @ rest) = Ok (v, rest)"
      using unpack_emit_groups [of "rev gs" v' rest] pg(4,5) assms(1) by simp
    then show ?thesis using False mod more by (simp add: hpatch_unpackUIntWithTag_def)
  qed
  then have "packed_as ?bs v tag t"
    using tag pg(6) by (simp add: packed_as_def hpatch_packUIntWithTag_size_def)
  moreover have "hpatch_packUIntWithTag room v tag t = (if length ?bs \<le> room then Ok ?bs else Fail)"
    using pg(1) by (simp add: hpatch_packUIntWithTag_def Let_def h_def)
  ultimately show ?thesis using pg(3) by (intro exI [of _ ?bs]) simp
qed

text \<open>Decoding never reads past the end, and what it returns fits \<open>hpatch_StreamPos_t\<close>.\<close>

lemma hoare_unpack_groups:
  "v < 2 ^ 64 \<Longrightarrow> hoare False (unpack_groups v p)
     (\<lambda>(r, p'). r < 2 ^ 64 \<and> (\<exists>used. p = used @ p' \<and> used \<noteq> []))"
proof (induction v p rule: unpack_groups.induct)
  case (1 v p)
  show ?case
  proof (cases "drop_bit (8 * 8 - 7) v \<noteq> 0 \<or> p = []")
    case True
    then show ?thesis by (auto simp: unpack_groups.simps [of v p])
  next
    case False
    then obtain c p' where p: "p = c # p'" and top: "drop_bit 57 v = 0" by (cases p) auto
    note step = shift_in_group [OF top, of "unat c"]
    have less: "take_bit 64 (push_bit 7 v) OR (unat c AND (2 ^ 7 - 1)) < 2 ^ 64"
      using step by simp
    show ?thesis
    proof (cases "unat c AND 2 ^ 7 \<noteq> 0")
      case True
      have "hoare False (unpack_groups (take_bit 64 (push_bit 7 v) OR (unat c AND (2 ^ 7 - 1))) p')
        (\<lambda>(r, q). r < 2 ^ 64 \<and> (\<exists>used. p' = used @ q \<and> used \<noteq> []))"
        by (rule "1.IH") (use False p True less in auto)
      then show ?thesis
        unfolding p unpack_groups.simps [of v "c # p'"] using True top
        by (auto simp: Let_def elim!: hoare_mono intro!: exI [of _ "c # _"])
    next
      case False
      then show ?thesis
        unfolding p unpack_groups.simps [of v "c # p'"] using top less
        by (auto simp: Let_def intro!: exI [of _ "[c]"])
    qed
  qed
qed

lemma hoare_unpackUIntWithTag [safe_rules]:
  "hoare False (hpatch_unpackUIntWithTag p t)
     (\<lambda>(r, p'). r < 2 ^ 64 \<and> (\<exists>used. p = used @ p' \<and> used \<noteq> []))"
proof (cases p)
  case (Cons c p')
  let ?v = "unat c AND (2 ^ (7 - t) - 1)"
  have "?v \<le> unat c" unfolding and_low_mask by simp
  then have "?v < 256" using unat_byte_less [of c] by (rule le_less_trans)
  then have v: "?v < 2 ^ 64" by simp
  have "hoare False (unpack_groups ?v p')
    (\<lambda>(r, q). r < 2 ^ 64 \<and> (\<exists>used. c # p' = used @ q \<and> used \<noteq> []))"
    by (rule hoare_mono [OF hoare_unpack_groups [OF v]]) (auto intro!: exI [of _ "c # _"])
  then show ?thesis
    unfolding Cons hpatch_unpackUIntWithTag_def using v by (simp add: Let_def)
qed (simp add: hpatch_unpackUIntWithTag_def)

lemma unpackUIntWithTag_Ok:
  "hpatch_unpackUIntWithTag p t = Ok (r, p') \<Longrightarrow> r < 2 ^ 64 \<and> length p' < length p \<and> (\<exists>used. p = used @ p')"
  using hoare_Ok [OF hoare_unpackUIntWithTag] by fastforce

lemma unpackUIntWithTag_no_Fault [simp]: "hpatch_unpackUIntWithTag p t \<noteq> Fault"
  by (rule hoare_not_Fault [OF hoare_unpackUIntWithTag])

text \<open>The value decoded is exact: it is never the truncation of a larger one.\<close>

lemma unpack_groups_exact:
  "unpack_groups v p = Ok (r, p') \<Longrightarrow>
   \<exists>gs. p = gs @ p' \<and> gs \<noteq> [] \<and> r = groups_value v (map (\<lambda>b. b AND 127) gs)"
proof (induction v p rule: unpack_groups.induct)
  case (1 v p)
  from "1.prems" obtain c q where p: "p = c # q" and top: "drop_bit 57 v = 0"
    by (cases p; cases "drop_bit 57 v = 0") (auto simp: unpack_groups.simps)
  have u: "unat (c AND 127) = unat c mod 128"
    using and_127 [of "unat c"] by (simp add: unsigned_and_eq)
  have step: "take_bit 64 (push_bit 7 v) OR (unat c AND (2 ^ 7 - 1)) = v * 128 + unat (c AND 127)"
    using shift_in_group(1) [OF top, of "unat c"] u by simp
  show ?case
  proof (cases "unat c AND 2 ^ 7 \<noteq> 0")
    case True
    with "1.prems" p top have "unpack_groups (take_bit 64 (push_bit 7 v) OR (unat c AND (2 ^ 7 - 1))) q = Ok (r, p')"
      by (simp add: unpack_groups.simps [of v "c # q"] Let_def)
    then obtain gs where "q = gs @ p'" "r = groups_value (v * 128 + unat (c AND 127)) (map (\<lambda>b. b AND 127) gs)"
      using "1.IH" p True top step by fastforce
    then show ?thesis using p by (intro exI [of _ "c # gs"]) simp
  next
    case False
    with "1.prems" p top step have "r = v * 128 + unat (c AND 127)" "q = p'"
      by (auto simp: unpack_groups.simps [of v "c # q"] Let_def)
    then show ?thesis using p by (intro exI [of _ "[c]"]) simp
  qed
qed

lemmas pack_evals [eval_simps] =
  hpatch_packUInt_def hpatch_packUIntWithTag_def pack_groups.simps hpatch_kMaxPackedUIntBytes_def
  hpatch_packUInt_size_def hpatch_packUIntWithTag_size_def pack_size_loop.simps
  hpatch_unpackUInt_def hpatch_unpackUIntWithTag_def unpack_groups.simps

section \<open>Properties\<close>

text \<open>C1: what \<open>hpatch_packUIntWithTag\<close> writes for any 64-bit value and any tag that
  fits its tag bits, \<open>hpatch_unpackUIntWithTag\<close> reads back whatever follows it; the tag is in
  the top bits of the first byte, and the length is what \<open>hpatch_packUIntWithTag_size\<close> says.\<close>

theorem pack_unpack_roundtrip:
  assumes "v < 2 ^ 64" "tag < 2 ^ t" "t \<le> 7" "hpatch_packUIntWithTag room v tag t = Ok bs"
  shows "hpatch_unpackUIntWithTag (bs @ rest) t = Ok (v, rest) \<and>
    drop_bit (8 - t) (unat (hd bs)) = tag \<and> length bs = hpatch_packUIntWithTag_size v t"
  using packUIntWithTag_result [OF assms(1-3), of room] assms(4) by (auto simp: packed_as_def split: if_splits)

theorem pack_unpack_roundtrip_witness:
  "hpatch_packUIntWithTag 2 556 3 3 = Ok [0x74, 0x2C] \<and>
   hpatch_unpackUIntWithTag ([0x74, 0x2C] @ [7]) 3 = Ok (556, [7])"
proof -
  have "hpatch_packUIntWithTag 2 556 3 3 = Ok [0x74, 0x2C]" by (simp add: eval_simps)
  then show ?thesis using pack_unpack_roundtrip [of 556 3 3 2 _ "[7]"] by simp
qed

text \<open>C2: \<open>hpatch_packUIntWithTag\<close> never overruns its code buffer, for any 64-bit
  value; it fails exactly when the output has less room than the size that
  \<open>hpatch_packUIntWithTag_size\<close> announces, and that size is at most \<open>hpatch_kMaxPackedUIntBytes\<close>.\<close>

theorem pack_fails_iff_no_room:
  assumes "v < 2 ^ 64" "tag < 2 ^ t" "t \<le> 7"
  shows "hpatch_packUIntWithTag room v tag t \<noteq> Fault \<and>
    (hpatch_packUIntWithTag room v tag t = Fail \<longleftrightarrow> room < hpatch_packUIntWithTag_size v t) \<and>
    hpatch_packUIntWithTag_size v t \<le> hpatch_kMaxPackedUIntBytes"
  using packUIntWithTag_result [OF assms, of room]
  by (auto simp: packed_as_def hpatch_kMaxPackedUIntBytes_def split: if_splits)

theorem pack_fails_iff_no_room_witness:
  "hpatch_packUIntWithTag 1 128 0 0 = Fail \<and> hpatch_packUIntWithTag_size 128 0 = 2"
  using pack_fails_iff_no_room [of 128 0 0 1] by (simp add: eval_simps)

text \<open>C3: on any bytes at all, \<open>hpatch_unpackUIntWithTag\<close> stays inside them; a value
  it returns is below \<open>2 ^ 64\<close> and is the exact number that the groups it consumed stand for:
  an overlong code is refused, not wrapped.\<close>

theorem unpack_safe_and_exact:
  "hoare False (hpatch_unpackUIntWithTag p t)
     (\<lambda>(r, rest). r < 2 ^ 64 \<and>
       (\<exists>c gs. p = c # gs @ rest \<and>
          r = groups_value (unat c mod 2 ^ (7 - t)) (map (\<lambda>b. b AND 127) gs)))"
proof (cases "hpatch_unpackUIntWithTag p t")
  case (Ok x)
  then obtain r rest where x: "hpatch_unpackUIntWithTag p t = Ok (r, rest)" by (cases x) auto
  then obtain c q where p: "p = c # q" by (cases p) (auto simp: hpatch_unpackUIntWithTag_def)
  have "\<exists>gs. q = gs @ rest \<and> r = groups_value (unat c mod 2 ^ (7 - t)) (map (\<lambda>b. b AND 127) gs)"
  proof (cases "unat c AND 2 ^ (7 - t) \<noteq> 0")
    case True
    with x p have "unpack_groups (unat c mod 2 ^ (7 - t)) q = Ok (r, rest)"
      unfolding hpatch_unpackUIntWithTag_def Let_def and_low_mask by simp
    from unpack_groups_exact [OF this] show ?thesis by blast
  next
    case False
    with x p show ?thesis
      unfolding hpatch_unpackUIntWithTag_def Let_def and_low_mask by (intro exI [of _ "[]"]) simp
  qed
  then show ?thesis using x p unpackUIntWithTag_Ok [OF x] by auto
qed simp_all

end
