(* ===== verification/DiffSpec.thy ===== *)
theory DiffSpec
  imports PackUInt
begin

text \<open>
  The meaning of a serialized diff, free of buffers and streams: a list of covers (ranges of
  the new data that are copied from the old data), the bytes of the new data that no cover
  produces, and a run-length coded string that is added to what the covers copy.  Both patch
  engines of \<open>patch.c\<close>, the one on memory (theory \<open>MemPatch\<close>) and the one on streams
  (theory \<open>PatchStream\<close>), are proved against these definitions.

  The two engines do not read every byte string alike.  The one on streams looks at no more
  than \<open>hpatch_kMaxPackedUIntBytes\<close> bytes for one number, so it refuses a number with more
  leading zero groups than any encoder writes; and it increments a run length in 64 bits, so
  a run of \<open>2 ^ 64\<close> bytes, which the one on memory refuses, is an empty run to it.  The
  argument of type \<open>engine\<close> says whose reading is meant.
\<close>

section \<open>Engines\<close>

datatype engine = Memory | Streaming

definition unpack_by :: "engine \<Rightarrow> byte list \<Rightarrow> nat \<Rightarrow> (nat \<times> byte list) res" where
  "unpack_by e p t =
     (if e = Memory then hpatch_unpackUIntWithTag p t
      else rbind (hpatch_unpackUIntWithTag (take hpatch_kMaxPackedUIntBytes p) t)
             (\<lambda>(v, r). Ok (v, r @ drop hpatch_kMaxPackedUIntBytes p)))"

lemma unpack_by_Memory [simp]: "unpack_by Memory p t = hpatch_unpackUIntWithTag p t"
  by (simp add: unpack_by_def)

lemma unpack_by_Ok:
  assumes "unpack_by e p t = Ok (r, p')"
  shows "r < 2 ^ 64 \<and> length p' < length p \<and> p \<noteq> []"
proof (cases e)
  case Memory
  then show ?thesis using assms unpackUIntWithTag_Ok [of p t r p'] by auto
next
  case Streaming
  with assms obtain q where q: "hpatch_unpackUIntWithTag (take hpatch_kMaxPackedUIntBytes p) t = Ok (r, q)"
    "p' = q @ drop hpatch_kMaxPackedUIntBytes p" by (auto simp: unpack_by_def rbind_eq_Ok)
  from unpackUIntWithTag_Ok [OF q(1)] q(2) show ?thesis by auto
qed

lemma unpack_by_no_Fault [simp]: "unpack_by e p t \<noteq> Fault"
  by (simp add: unpack_by_def rbind_eq_Fault split_beta)

text \<open>Codes of one byte.\<close>

lemma unpack_by_small:
  assumes "t \<le> 7" "unat b < 2 ^ (7 - t)"
  shows "unpack_by e (b # p) t = Ok (unat b, p)"
proof -
  have "unat b AND (2 ^ (7 - t) - 1) = unat b" using assms(2) by (metis mask_eq_exp_minus_1 take_bit_eq_mask take_bit_nat_eq_self)
  moreover have "unat b AND 2 ^ (7 - t) = 0"
    using assms(2) by (metis and_exp_eq_0_iff_not_bit bit_take_bit_iff less_irrefl take_bit_nat_eq_self)
  ultimately have "hpatch_unpackUIntWithTag (b # q) t = Ok (unat b, q)" for q
    by (simp add: hpatch_unpackUIntWithTag_def Let_def)
  then show ?thesis by (simp add: unpack_by_def hpatch_kMaxPackedUIntBytes_def)
qed

section \<open>Covers\<close>

text \<open>\<open>hpatch_TCover\<close> of \<open>patch_types.h\<close>.\<close>

record hpatch_TCover =
  oldPos :: nat
  newPos :: nat
  coverLength :: nat

text \<open>
  The covers that the three code streams hold: the increment of \<open>oldPos\<close> with its sign in
  the top bit, the increment of \<open>newPos\<close> over the end of the last cover and the length.
  \<open>parse_covers e n old new len oldBack newBack\<close> reads \<open>n\<close> of them, and the streams
  must be used up.
\<close>

definition oldPos_step :: "nat \<Rightarrow> bool \<Rightarrow> nat \<Rightarrow> nat" where
  "oldPos_step oldPosBack neg inc = (if neg then sub64 oldPosBack inc else add64 oldPosBack inc)"

fun parse_covers ::
  "engine \<Rightarrow> nat \<Rightarrow> byte list \<Rightarrow> byte list \<Rightarrow> byte list \<Rightarrow> nat \<Rightarrow> nat \<Rightarrow> hpatch_TCover list option" where
  "parse_covers e 0 olds news lens oldBack newBack =
     (if olds = [] \<and> news = [] \<and> lens = [] then Some [] else None)"
| "parse_covers e (Suc n) olds news lens oldBack newBack =
     (case unpack_by e olds 1 of
        Ok (inc, olds') \<Rightarrow>
          (case unpack_by e news 0 of
             Ok (copyLength, news') \<Rightarrow>
               (case unpack_by e lens 0 of
                  Ok (len, lens') \<Rightarrow>
                    (let op = oldPos_step oldBack (drop_bit 7 (unat (hd olds)) \<noteq> 0) inc;
                         np = add64 newBack copyLength
                     in map_option ((#) \<lparr>oldPos = op, newPos = np, coverLength = len\<rparr>)
                          (parse_covers e n olds' news' lens' op (add64 np len)))
                | _ \<Rightarrow> None)
           | _ \<Rightarrow> None)
      | _ \<Rightarrow> None)"

section \<open>Run-length code\<close>

text \<open>\<open>TByteRleType\<close> of \<open>patch_private.h\<close>; the type is the top two bits of a control byte.\<close>

datatype TByteRleType =
  kByteRleType_rle0 | kByteRleType_rle255 | kByteRleType_rle | kByteRleType_unrle

definition kByteRleType_bit :: nat where
  "kByteRleType_bit = 2"

definition rle_type :: "byte \<Rightarrow> TByteRleType" where
  "rle_type ctrl =
     (let v = drop_bit (8 - kByteRleType_bit) (unat ctrl) in
      if v = 0 then kByteRleType_rle0 else if v = 1 then kByteRleType_rle255
      else if v = 2 then kByteRleType_rle else kByteRleType_unrle)"

text \<open>
  The string that a control stream and a code stream stand for.  The streaming engine, where a
  run of \<open>2 ^ 64\<close> bytes is empty, goes on to the next one only when bytes are still wanted.
\<close>

definition rle_run :: "engine \<Rightarrow> byte list option \<Rightarrow> nat \<Rightarrow> byte list \<Rightarrow> byte list option" where
  "rle_run e rest len d =
     (if e = Streaming \<and> len = 2 ^ 64 - 1 then (if rest = Some [] then None else rest)
      else map_option ((@) d) rest)"

function rle_spec :: "engine \<Rightarrow> byte list \<Rightarrow> byte list \<Rightarrow> byte list option" where
  "rle_spec e ctrl code =
     (if ctrl = [] then (if code = [] then Some [] else None)
      else (case unpack_by e ctrl kByteRleType_bit of
        Ok (len, ctrl') \<Rightarrow>
          (case rle_type (hd ctrl) of
             kByteRleType_rle0 \<Rightarrow> rle_run e (rle_spec e ctrl' code) len (replicate (len + 1) 0)
           | kByteRleType_rle255 \<Rightarrow> rle_run e (rle_spec e ctrl' code) len (replicate (len + 1) 255)
           | kByteRleType_rle \<Rightarrow>
               (case code of [] \<Rightarrow> None
                | c # code' \<Rightarrow> rle_run e (rle_spec e ctrl' code') len (replicate (len + 1) c))
           | kByteRleType_unrle \<Rightarrow>
               (let n = (if e = Streaming then add64 len 1 else len + 1) in
                if length code < n then None
                else rle_run e (rle_spec e ctrl' (drop n code)) len (take n code)))
      | _ \<Rightarrow> None))"
  by pat_completeness auto
termination
  by (relation "measure (\<lambda>(e, ctrl, code). length ctrl)") (auto dest: unpack_by_Ok)

declare rle_spec.simps [simp del]

lemma rle_spec_Memory_induct [consumes 0, case_names step]:
  assumes "\<And>ctrl code. (\<And>len ctrl' code'. ctrl \<noteq> [] \<Longrightarrow>
      hpatch_unpackUIntWithTag ctrl kByteRleType_bit = Ok (len, ctrl') \<Longrightarrow> P ctrl' code') \<Longrightarrow> P ctrl code"
  shows "P ctrl code"
proof (induction "length ctrl" arbitrary: ctrl code rule: less_induct)
  case less
  show ?case by (rule assms, rule less) (use unpackUIntWithTag_Ok in blast)
qed

lemma rle_spec_Nil [simp]: "rle_spec e [] code = (if code = [] then Some [] else None)"
  by (simp add: rle_spec.simps)

lemma rle_run_Memory [simp]: "rle_run Memory rest len d = map_option ((@) d) rest"
  by (simp add: rle_run_def)

section \<open>Applying a diff\<close>

text \<open>
  The new data from \<open>newBack\<close> on: for each cover the uncovered bytes before it, then the
  old bytes it names with the run-length bytes of its place added.
\<close>

fun apply_covers ::
  "byte list \<Rightarrow> byte list \<Rightarrow> nat \<Rightarrow> hpatch_TCover list \<Rightarrow> byte list \<Rightarrow> nat \<Rightarrow> byte list option" where
  "apply_covers old rle newSize [] diff newBack =
     (if newBack + length diff = newSize then Some diff else None)"
| "apply_covers old rle newSize (c # cs) diff newBack =
     (let gap = newPos c - newBack; len = coverLength c in
      if newBack \<le> newPos c \<and> newPos c + len \<le> newSize \<and> oldPos c + len \<le> length old \<and> gap \<le> length diff
      then map_option
             (\<lambda>r. take gap diff @ bytes_add (take len (drop (newPos c) rle)) (take len (drop (oldPos c) old)) @ r)
             (apply_covers old rle newSize cs (drop gap diff) (newPos c + len))
      else None)"

text \<open>The head: five numbers, then the sections they size.\<close>

record diff_parts =
  dp_coverCount :: nat
  dp_lengths :: "byte list"
  dp_inc_newPos :: "byte list"
  dp_inc_oldPos :: "byte list"
  dp_newDataDiff :: "byte list"
  dp_rle :: "byte list"

definition parse_head :: "engine \<Rightarrow> byte list \<Rightarrow> diff_parts res" where
  "parse_head e d =
     rbind (unpack_by e d 0) (\<lambda>(coverCount, d).
     rbind (unpack_by e d 0) (\<lambda>(lengthSize, d).
     rbind (unpack_by e d 0) (\<lambda>(inc_newPosSize, d).
     rbind (unpack_by e d 0) (\<lambda>(inc_oldPosSize, d).
     rbind (unpack_by e d 0) (\<lambda>(newDataDiffSize, d).
     rbind (check (lengthSize + inc_newPosSize + inc_oldPosSize + newDataDiffSize \<le> length d)) (\<lambda>_.
     Ok \<lparr>dp_coverCount = coverCount,
         dp_lengths = take lengthSize d,
         dp_inc_newPos = take inc_newPosSize (drop lengthSize d),
         dp_inc_oldPos = take inc_oldPosSize (drop (lengthSize + inc_newPosSize) d),
         dp_newDataDiff = take newDataDiffSize (drop (lengthSize + inc_newPosSize + inc_oldPosSize) d),
         dp_rle = drop (lengthSize + inc_newPosSize + inc_oldPosSize + newDataDiffSize) d\<rparr>))))))"

definition rle_section :: "engine \<Rightarrow> byte list \<Rightarrow> byte list option" where
  "rle_section e d =
     (case unpack_by e d 0 of
        Ok (ctrlSize, d') \<Rightarrow>
          (if ctrlSize \<le> length d' then rle_spec e (take ctrlSize d') (drop ctrlSize d') else None)
      | _ \<Rightarrow> None)"

text \<open>The new data of size \<open>newSize\<close> that a serialized diff makes of the old data.\<close>

definition diff_spec :: "engine \<Rightarrow> nat \<Rightarrow> byte list \<Rightarrow> byte list \<Rightarrow> byte list option" where
  "diff_spec e newSize old d =
     (case parse_head e d of
        Ok p \<Rightarrow>
          (case rle_section e (dp_rle p) of
             Some rle \<Rightarrow>
               (if length rle = newSize then
                  Option.bind (parse_covers e (dp_coverCount p) (dp_inc_oldPos p) (dp_inc_newPos p) (dp_lengths p) 0 0)
                    (\<lambda>cs. apply_covers old rle newSize cs (dp_newDataDiff p) 0)
                else None)
           | None \<Rightarrow> None)
      | _ \<Rightarrow> None)"

lemma apply_covers_length:
  "apply_covers old rle newSize cs diff newBack = Some new \<Longrightarrow> length rle = newSize \<Longrightarrow>
   newBack + length new = newSize"
proof (induction cs arbitrary: diff newBack new)
  case (Cons c cs)
  let ?d = "drop (newPos c - newBack) diff"
  from Cons.prems obtain r where
    r: "apply_covers old rle newSize cs ?d (newPos c + coverLength c) = Some r"
    and new: "new = take (newPos c - newBack) diff
      @ bytes_add (take (coverLength c) (drop (newPos c) rle)) (take (coverLength c) (drop (oldPos c) old)) @ r"
    by (auto simp: Let_def split: if_splits)
  from Cons.IH [OF r Cons.prems(2)] show ?case
    using Cons.prems new by (auto simp: Let_def split: if_splits)
qed (auto split: if_splits)

lemma diff_spec_length: "diff_spec e newSize old d = Some new \<Longrightarrow> length new = newSize"
  by (auto simp: diff_spec_def split: res.splits option.splits if_splits bind_splits
      dest!: apply_covers_length)

end
