(* ===== verification/MemPatch.thy ===== *)
theory MemPatch
  imports DiffSpec
begin

text \<open>
  The patch engine on memory of \<open>libHDiffPatch/HPatch/patch.c\<close>: \<open>patch\<close>, \<open>addData\<close>
  and \<open>_bytesRle_load\<close>.  The new data is one buffer of fixed length that is written at
  positions; the code pointers are the bytes between a pointer and its end.
\<close>

section \<open>The code\<close>

text \<open>\<open>addData(dst,src,length)\<close> with \<open>dst\<close> at \<open>i\<close> in the new data, \<open>src\<close> at \<open>j\<close> in the old.\<close>

definition addData :: "byte list \<Rightarrow> nat \<Rightarrow> byte list \<Rightarrow> nat \<Rightarrow> nat \<Rightarrow> byte list res" where
  "addData out i src j n =
     rbind (mem_read out i n) (\<lambda>d. rbind (mem_read src j n) (\<lambda>s. mem_write out i (bytes_add d s)))"

text \<open>
  The loop of \<open>_bytesRle_load\<close>: \<open>pos\<close> is \<open>out_data\<close> as an index of the buffer, so
  \<open>out_dataEnd-out_data\<close> is \<open>length out - pos\<close>.
\<close>

function bytesRle_loop :: "byte list \<Rightarrow> nat \<Rightarrow> byte list \<Rightarrow> byte list \<Rightarrow> byte list res" where
  "bytesRle_loop out pos ctrlBuf rle_code =
     (if ctrlBuf = [] then (if rle_code = [] \<and> pos = length out then Ok out else Fail)
      else
        let type = rle_type (hd ctrlBuf) in
        rbind (hpatch_unpackUIntWithTag ctrlBuf kByteRleType_bit) (\<lambda>(len, ctrlBuf').
        rbind (check (\<not> len \<ge> length out - pos)) (\<lambda>_.
        let len = len + 1 in
        (case type of
           kByteRleType_rle0 \<Rightarrow>
             rbind (mem_write out pos (replicate len 0)) (\<lambda>out.
             bytesRle_loop out (pos + len) ctrlBuf' rle_code)
         | kByteRleType_rle255 \<Rightarrow>
             rbind (mem_write out pos (replicate len 255)) (\<lambda>out.
             bytesRle_loop out (pos + len) ctrlBuf' rle_code)
         | kByteRleType_rle \<Rightarrow>
             rbind (check (\<not> 1 > length rle_code)) (\<lambda>_.
             rbind (mem_take 1 rle_code) (\<lambda>(v, rle_code').
             rbind (mem_write out pos (replicate len (hd v))) (\<lambda>out.
             bytesRle_loop out (pos + len) ctrlBuf' rle_code')))
         | kByteRleType_unrle \<Rightarrow>
             rbind (check (\<not> len > length rle_code)) (\<lambda>_.
             rbind (mem_take len rle_code) (\<lambda>(v, rle_code').
             rbind (mem_write out pos v) (\<lambda>out.
             bytesRle_loop out (pos + len) ctrlBuf' rle_code')))))))"
  by pat_completeness auto
termination
  by (relation "measure (\<lambda>(out, pos, ctrl, code). length ctrl)") (auto dest: unpackUIntWithTag_Ok)

declare bytesRle_loop.simps [simp del]

definition bytesRle_load :: "byte list \<Rightarrow> byte list \<Rightarrow> byte list res" where
  "bytesRle_load out rle_code =
     rbind (hpatch_unpackUInt rle_code) (\<lambda>(ctrlSize, rle_code).
     rbind (check (\<not> ctrlSize > length rle_code)) (\<lambda>_.
     rbind (mem_take ctrlSize rle_code) (\<lambda>(ctrlBuf, rle_code).
     bytesRle_loop out 0 ctrlBuf rle_code)))"

text \<open>The variables of the cover loop of \<open>patch\<close>.\<close>

record patch_state =
  p_out :: "byte list"
  p_oldPosBack :: nat
  p_newPosBack :: nat
  p_code_lengths :: "byte list"
  p_code_inc_newPos :: "byte list"
  p_code_inc_oldPos :: "byte list"
  p_code_newDataDiff :: "byte list"

definition patch_copy :: "patch_state \<Rightarrow> nat \<Rightarrow> patch_state res" where
  "patch_copy s copyLength =
     rbind (mem_take copyLength (p_code_newDataDiff s)) (\<lambda>(d, newDataDiff).
     rbind (mem_write (p_out s) (p_newPosBack s) d) (\<lambda>out.
     Ok (s\<lparr>p_out := out, p_code_newDataDiff := newDataDiff, p_newPosBack := p_newPosBack s + copyLength\<rparr>)))"

definition patch_cover :: "byte list \<Rightarrow> patch_state \<Rightarrow> patch_state res" where
  "patch_cover oldData s =
     (let newDataSize = length (p_out s) in
      rbind (hpatch_unpackUInt (p_code_inc_newPos s)) (\<lambda>(copyLength, inc_newPos).
      rbind (hpatch_unpackUInt (p_code_lengths s)) (\<lambda>(addLength, lengths).
      rbind (check (\<not> p_code_inc_oldPos s = [])) (\<lambda>_.
      let inc_oldPos_sign = drop_bit (8 - 1) (unat (hd (p_code_inc_oldPos s))) in
      rbind (hpatch_unpackUIntWithTag (p_code_inc_oldPos s) 1) (\<lambda>(inc_oldPos, inc_oldPos').
      let oldPos = (if inc_oldPos_sign = 0 then add64 (p_oldPosBack s) inc_oldPos
                    else sub64 (p_oldPosBack s) inc_oldPos);
          s = s\<lparr>p_code_inc_newPos := inc_newPos, p_code_lengths := lengths, p_code_inc_oldPos := inc_oldPos'\<rparr> in
      rbind (if copyLength > 0 then
               rbind (check (\<not> copyLength > newDataSize - p_newPosBack s)) (\<lambda>_.
               rbind (check (\<not> copyLength > length (p_code_newDataDiff s))) (\<lambda>_.
               patch_copy s copyLength))
             else Ok s) (\<lambda>s.
      rbind (check (\<not> addLength > newDataSize - p_newPosBack s)) (\<lambda>_.
      rbind (check (\<not> (oldPos > length oldData \<or> addLength > length oldData - oldPos))) (\<lambda>_.
      rbind (addData (p_out s) (p_newPosBack s) oldData oldPos addLength) (\<lambda>out.
      Ok (s\<lparr>p_out := out, p_oldPosBack := oldPos, p_newPosBack := p_newPosBack s + addLength\<rparr>))))))))))"

fun patch_loop :: "nat \<Rightarrow> byte list \<Rightarrow> patch_state \<Rightarrow> patch_state res" where
  "patch_loop 0 oldData s = Ok s"
| "patch_loop (Suc i) oldData s = rbind (patch_cover oldData s) (patch_loop i oldData)"

text \<open>\<open>patch(out_newData,out_newData_end,oldData,oldData_end,serializedDiff,serializedDiff_end)\<close>.\<close>

definition patch :: "byte list \<Rightarrow> byte list \<Rightarrow> byte list \<Rightarrow> byte list res" where
  "patch out_newData oldData serializedDiff =
     rbind (hpatch_unpackUInt serializedDiff) (\<lambda>(coverCount, d).
     rbind (hpatch_unpackUInt d) (\<lambda>(lengthSize, d).
     rbind (hpatch_unpackUInt d) (\<lambda>(inc_newPosSize, d).
     rbind (hpatch_unpackUInt d) (\<lambda>(inc_oldPosSize, d).
     rbind (hpatch_unpackUInt d) (\<lambda>(newDataDiffSize, d).
     rbind (check (\<not> lengthSize > length d)) (\<lambda>_.
     rbind (mem_take lengthSize d) (\<lambda>(code_lengths, d).
     rbind (check (\<not> inc_newPosSize > length d)) (\<lambda>_.
     rbind (mem_take inc_newPosSize d) (\<lambda>(code_inc_newPos, d).
     rbind (check (\<not> inc_oldPosSize > length d)) (\<lambda>_.
     rbind (mem_take inc_oldPosSize d) (\<lambda>(code_inc_oldPos, d).
     rbind (check (\<not> newDataDiffSize > length d)) (\<lambda>_.
     rbind (mem_take newDataDiffSize d) (\<lambda>(code_newDataDiff, d).
     rbind (bytesRle_load out_newData d) (\<lambda>out.
     rbind (patch_loop coverCount oldData
              \<lparr>p_out = out, p_oldPosBack = 0, p_newPosBack = 0, p_code_lengths = code_lengths,
               p_code_inc_newPos = code_inc_newPos, p_code_inc_oldPos = code_inc_oldPos,
               p_code_newDataDiff = code_newDataDiff\<rparr>) (\<lambda>s.
     let newDataSize = length out_newData in
     rbind (if p_newPosBack s < newDataSize then
              (let copyLength = newDataSize - p_newPosBack s in
               rbind (check (\<not> copyLength > length (p_code_newDataDiff s))) (\<lambda>_.
               patch_copy s copyLength))
            else Ok s) (\<lambda>s.
     if p_code_lengths s = [] \<and> p_code_inc_newPos s = [] \<and> p_code_inc_oldPos s = []
        \<and> p_code_newDataDiff s = []
     then Ok (p_out s) else Fail))))))))))))))))"

section \<open>The run-length bytes\<close>

text \<open>A buffer whose tail from \<open>pos\<close> on is to become exactly \<open>bs\<close>.\<close>

definition fill_rest :: "byte list \<Rightarrow> nat \<Rightarrow> byte list option \<Rightarrow> byte list res" where
  "fill_rest out pos r =
     (case r of Some bs \<Rightarrow> if pos + length bs = length out then Ok (take pos out @ bs) else Fail
      | None \<Rightarrow> Fail)"

lemma fill_rest_step:
  assumes "pos + length d \<le> length out"
  shows "fill_rest (take pos out @ d @ drop (pos + length d) out) (pos + length d) r
       = fill_rest out pos (map_option ((@) d) r)"
  using assms by (cases r) (auto simp: fill_rest_def)

lemma fill_rest_too_long:
  "length out - pos < length d \<Longrightarrow> pos \<le> length out \<Longrightarrow> fill_rest out pos (map_option ((@) d) r) = Fail"
  by (cases r) (auto simp: fill_rest_def)

lemma fill_rest_None [simp]: "fill_rest out pos None = Fail"
  by (simp add: fill_rest_def)

text \<open>Writing one run and going on, against putting the run in front of the rest.\<close>

lemma bytesRle_run:
  assumes "pos \<le> length out" "d \<noteq> []"
    and "\<And>out'. length out' = length out \<Longrightarrow> pos + length d \<le> length out \<Longrightarrow>
      loop out' (pos + length d) = fill_rest out' (pos + length d) r"
  shows "(if length d - 1 < length out - pos
          then rbind (mem_write out pos d) (\<lambda>out'. loop out' (pos + length d)) else Fail)
       = fill_rest out pos (map_option ((@) d) r)"
proof (cases "length d - 1 < length out - pos")
  case True
  then have fits: "pos + length d \<le> length out" by linarith
  then show ?thesis using True assms(3) by (simp add: mem_write_def fill_rest_step)
next
  case False
  then have "length out - pos < length d" using assms(2) by (cases d) auto
  then show ?thesis using False assms(1) by (simp add: fill_rest_too_long)
qed

lemma bytesRle_loop_spec:
  "pos \<le> length out \<Longrightarrow> bytesRle_loop out pos ctrl code = fill_rest out pos (rle_spec Memory ctrl code)"
proof (induction ctrl code arbitrary: out pos rule: rle_spec_Memory_induct)
  case (step ctrl code)
  show ?case
  proof (cases "ctrl = []")
    case True
    then show ?thesis using step.prems by (auto simp: bytesRle_loop.simps fill_rest_def)
  next
    case False
    note IH = step.IH [OF False]
    show ?thesis
    proof (cases "hpatch_unpackUIntWithTag ctrl kByteRleType_bit")
      case (Ok p)
      then obtain len ctrl' where up: "hpatch_unpackUIntWithTag ctrl kByteRleType_bit = Ok (len, ctrl')"
        by (cases p) auto
      note unf = bytesRle_loop.simps [of out pos ctrl code] rle_spec.simps [of Memory ctrl code]
      show ?thesis
      proof (cases "rle_type (hd ctrl)")
        case kByteRleType_rle0
        then show ?thesis
          using bytesRle_run [OF step.prems, of "replicate (len + 1) 0" "\<lambda>out pos. bytesRle_loop out pos ctrl' code"
              "rle_spec Memory ctrl' code"] IH [OF up] False up
          by (auto simp add: unf check_def not_le split: if_splits)
      next
        case kByteRleType_rle255
        then show ?thesis
          using bytesRle_run [OF step.prems, of "replicate (len + 1) 255" "\<lambda>out pos. bytesRle_loop out pos ctrl' code"
              "rle_spec Memory ctrl' code"] IH [OF up] False up
          by (auto simp add: unf check_def not_le split: if_splits)
      next
        case kByteRleType_rle
        then show ?thesis
        proof (cases code)
          case Nil
          then show ?thesis using kByteRleType_rle False up by (auto simp add: unf [unfolded Nil] check_def)
        next
          case (Cons c code')
          then show ?thesis
            using bytesRle_run [OF step.prems, of "replicate (len + 1) c" "\<lambda>out pos. bytesRle_loop out pos ctrl' code'"
                "rle_spec Memory ctrl' code'"] IH [OF up] False up kByteRleType_rle
            by (auto simp add: unf [unfolded Cons] check_def not_le mem_take_def split: if_splits)
        qed
      next
        case kByteRleType_unrle
        then show ?thesis
        proof (cases "length code < len + 1")
          case True
          then show ?thesis using kByteRleType_unrle False up by (auto simp add: unf check_def)
        next
          case F: False
          have "length (take (len + 1) code) = len + 1" "code \<noteq> []" using F by auto
          then show ?thesis
            using bytesRle_run [OF step.prems, of "take (len + 1) code" "\<lambda>out pos. bytesRle_loop out pos ctrl' (drop (len + 1) code)"
                "rle_spec Memory ctrl' (drop (len + 1) code)"] IH [OF up] False up kByteRleType_unrle F
            by (auto simp add: unf check_def not_le mem_take_def split: if_splits)
        qed
      qed
    qed (use False in \<open>simp_all add: bytesRle_loop.simps [of out pos ctrl code] rle_spec.simps [of Memory ctrl code]\<close>)
  qed
qed

lemma bytesRle_load_spec:
  "bytesRle_load out d =
     (case rle_section Memory d of Some bs \<Rightarrow> if length bs = length out then Ok bs else Fail | None \<Rightarrow> Fail)"
proof (cases "hpatch_unpackUInt d")
  case (Ok p)
  then show ?thesis
    by (cases p) (auto simp: bytesRle_load_def rle_section_def hpatch_unpackUInt_def bytesRle_loop_spec mem_take_def fill_rest_def check_def
        split: option.splits)
qed (use unpackUIntWithTag_no_Fault [of d 0] in \<open>simp_all add: bytesRle_load_def rle_section_def hpatch_unpackUInt_def\<close>)


section \<open>The cover loop\<close>

text \<open>
  The state of the loop against the specification: the buffer holds what is produced so far
  and then the run-length bytes that the covers to come are added to.
\<close>

definition finish :: "byte list \<Rightarrow> byte list option \<Rightarrow> byte list res" where
  "finish done r = (case r of Some bs \<Rightarrow> Ok (done @ bs) | None \<Rightarrow> Fail)"

definition patch_tail :: "nat \<Rightarrow> patch_state \<Rightarrow> byte list res" where
  "patch_tail newDataSize s =
     rbind (if p_newPosBack s < newDataSize then
              (let copyLength = newDataSize - p_newPosBack s in
               rbind (check (\<not> copyLength > length (p_code_newDataDiff s))) (\<lambda>_.
               patch_copy s copyLength))
            else Ok s) (\<lambda>s.
      if p_code_lengths s = [] \<and> p_code_inc_newPos s = [] \<and> p_code_inc_oldPos s = []
         \<and> p_code_newDataDiff s = []
      then Ok (p_out s) else Fail)"

definition patch_inv :: "byte list \<Rightarrow> patch_state \<Rightarrow> bool" where
  "patch_inv rle s \<longleftrightarrow>
     length (p_out s) = length rle \<and> p_newPosBack s \<le> length rle \<and>
     drop (p_newPosBack s) (p_out s) = drop (p_newPosBack s) rle"

text \<open>What is left to do from a state, by the specification.\<close>

definition patch_rest :: "nat \<Rightarrow> byte list \<Rightarrow> byte list \<Rightarrow> patch_state \<Rightarrow> byte list option" where
  "patch_rest n old rle s =
     Option.bind (parse_covers Memory n (p_code_inc_oldPos s) (p_code_inc_newPos s) (p_code_lengths s)
                   (p_oldPosBack s) (p_newPosBack s))
       (\<lambda>cs. apply_covers old rle (length rle) cs (p_code_newDataDiff s) (p_newPosBack s))"

lemma patch_tail_spec:
  assumes "patch_inv rle s"
  shows "patch_tail (length rle) s = finish (take (p_newPosBack s) (p_out s)) (patch_rest 0 old rle s)"
proof -
  let ?d = "p_code_newDataDiff s" let ?n = "p_newPosBack s"
  have out: "length (p_out s) = length rle" "?n \<le> length rle"
    using assms by (simp_all add: patch_inv_def)
  show ?thesis
  proof (cases "?n < length rle")
    case False
    then have "?n = length rle" using out(2) by simp
    then show ?thesis
      using out by (auto simp: patch_tail_def patch_rest_def finish_def)
  next
    case True
    then show ?thesis
      using out
      by (auto simp: patch_tail_def patch_rest_def finish_def check_def patch_copy_def mem_take_def
          mem_write_def Let_def not_less)
  qed
qed


lemma unpackUInt_cases:
  "hpatch_unpackUIntWithTag p t = Fail \<or> (\<exists>r p'. hpatch_unpackUIntWithTag p t = Ok (r, p'))"
  using unpackUIntWithTag_no_Fault [of p t] by (cases "hpatch_unpackUIntWithTag p t") auto

lemma finish_append: "finish (done @ d @ d') r = finish done (map_option (\<lambda>r. d @ d' @ r) r)"
  by (cases r) (simp_all add: finish_def)

lemma patch_copy_inv:
  assumes "patch_inv rle s" "n \<le> length (p_code_newDataDiff s)" "p_newPosBack s + n \<le> length rle"
  shows "\<exists>s'. patch_copy s n = Ok s' \<and> patch_inv rle s' \<and>
    p_newPosBack s' = p_newPosBack s + n \<and>
    take (p_newPosBack s') (p_out s') = take (p_newPosBack s) (p_out s) @ take n (p_code_newDataDiff s) \<and>
    p_code_newDataDiff s' = drop n (p_code_newDataDiff s) \<and>
    p_code_lengths s' = p_code_lengths s \<and> p_code_inc_newPos s' = p_code_inc_newPos s \<and>
    p_code_inc_oldPos s' = p_code_inc_oldPos s \<and> p_oldPosBack s' = p_oldPosBack s"
proof -
  let ?b = "p_newPosBack s" and ?d = "take n (p_code_newDataDiff s)"
  have inv: "length (p_out s) = length rle" "drop ?b (p_out s) = drop ?b rle"
    using assms(1) by (simp_all add: patch_inv_def)
  have "drop (?b + n) (p_out s) = drop (?b + n) rle"
    using arg_cong [OF inv(2), of "drop n"] by (simp add: add.commute)
  then show ?thesis
    using assms inv by (auto simp: patch_copy_def mem_take_def mem_write_def patch_inv_def)
qed

lemma addData_step:
  assumes "length out = length rle" "drop i out = drop i rle" "i + n \<le> length rle" "j + n \<le> length old"
  shows "\<exists>out'. addData out i old j n = Ok out' \<and> length out' = length rle \<and>
    take (i + n) out' = take i out @ bytes_add (take n (drop i rle)) (take n (drop j old)) \<and>
    drop (i + n) out' = drop (i + n) rle"
proof -
  have "drop (i + n) out = drop (i + n) rle"
    using arg_cong [OF assms(2), of "drop n"] by (simp add: add.commute)
  then show ?thesis using assms by (simp add: addData_def mem_read_def mem_write_def)
qed

lemma patch_gap:
  assumes inv: "patch_inv rle s"
  shows "\<exists>s'. (if n > 0 then
            rbind (check (\<not> n > length rle - p_newPosBack s)) (\<lambda>_.
            rbind (check (\<not> n > length (p_code_newDataDiff s))) (\<lambda>_. patch_copy s n))
          else Ok s)
       = (if n \<le> length rle - p_newPosBack s \<and> n \<le> length (p_code_newDataDiff s) then Ok s' else Fail) \<and>
    (n \<le> length rle - p_newPosBack s \<and> n \<le> length (p_code_newDataDiff s) \<longrightarrow>
      patch_inv rle s' \<and> p_newPosBack s' = p_newPosBack s + n \<and>
      take (p_newPosBack s') (p_out s') = take (p_newPosBack s) (p_out s) @ take n (p_code_newDataDiff s) \<and>
      p_code_newDataDiff s' = drop n (p_code_newDataDiff s) \<and>
      p_code_lengths s' = p_code_lengths s \<and> p_code_inc_newPos s' = p_code_inc_newPos s \<and>
      p_code_inc_oldPos s' = p_code_inc_oldPos s \<and> p_oldPosBack s' = p_oldPosBack s)"
proof (cases "0 < n \<and> n \<le> length rle - p_newPosBack s \<and> n \<le> length (p_code_newDataDiff s)")
  case True
  then have "p_newPosBack s + n \<le> length rle" using inv by (auto simp: patch_inv_def)
  from patch_copy_inv [OF inv _ this] True show ?thesis by (auto simp: check_def)
next
  case False
  then show ?thesis using inv by (cases "n = 0") (auto simp: check_def not_le)
qed

text \<open>The checks of one cover are exactly what the specification asks of it.\<close>

definition cover_ok :: "byte list \<Rightarrow> byte list \<Rightarrow> patch_state \<Rightarrow> nat \<Rightarrow> nat \<Rightarrow> nat \<Rightarrow> bool" where
  "cover_ok old rle s op np len \<longleftrightarrow>
     p_newPosBack s \<le> np \<and> np + len \<le> length rle \<and> op + len \<le> length old \<and>
     np - p_newPosBack s \<le> length (p_code_newDataDiff s)"

lemma patch_cover_step:
  assumes inv: "patch_inv rle s" and N: "length rle < 2 ^ 64"
    and news: "hpatch_unpackUInt (p_code_inc_newPos s) = Ok (copyLength, news)"
    and lens: "hpatch_unpackUInt (p_code_lengths s) = Ok (len, lens)"
    and olds: "hpatch_unpackUIntWithTag (p_code_inc_oldPos s) 1 = Ok (inc, olds)"
  defines "neg \<equiv> drop_bit 7 (unat (hd (p_code_inc_oldPos s))) \<noteq> 0"
  defines "op \<equiv> oldPos_step (p_oldPosBack s) neg inc"
  defines "np \<equiv> add64 (p_newPosBack s) copyLength"
  shows "if cover_ok old rle s op np len then
      \<exists>s'. patch_cover old s = Ok s' \<and> patch_inv rle s' \<and>
        p_oldPosBack s' = op \<and> p_newPosBack s' = np + len \<and>
        p_code_inc_oldPos s' = olds \<and> p_code_inc_newPos s' = news \<and> p_code_lengths s' = lens \<and>
        p_code_newDataDiff s' = drop (np - p_newPosBack s) (p_code_newDataDiff s) \<and>
        take (p_newPosBack s') (p_out s') = take (p_newPosBack s) (p_out s)
          @ take (np - p_newPosBack s) (p_code_newDataDiff s)
          @ bytes_add (take len (drop np rle)) (take len (drop op old))
    else patch_cover old s = Fail"
proof -
  let ?s1 = "s\<lparr>p_code_inc_newPos := news, p_code_lengths := lens, p_code_inc_oldPos := olds\<rparr>"
  let ?gap = "copyLength \<le> length rle - p_newPosBack s \<and> copyLength \<le> length (p_code_newDataDiff s)"
  have ne: "p_code_inc_oldPos s \<noteq> []" using olds by (auto simp: hpatch_unpackUIntWithTag_def)
  have nb: "p_newPosBack s \<le> length rle" "length (p_out s) = length rle" using inv by (simp_all add: patch_inv_def)
  have cl: "copyLength < 2 ^ 64" using unpackUIntWithTag_Ok news by (simp add: hpatch_unpackUInt_def)
  have np: "p_newPosBack s \<le> np \<and> np \<le> length rle \<longleftrightarrow> copyLength \<le> length rle - p_newPosBack s"
    "copyLength \<le> length rle - p_newPosBack s \<Longrightarrow> np = p_newPosBack s + copyLength"
    using nb(1) N cl unfolding np_def add64_def by (auto simp: mod_if split: if_splits)
  have "patch_inv rle ?s1" using inv by (simp add: patch_inv_def)
  have sel: "p_newPosBack ?s1 = p_newPosBack s" "p_out ?s1 = p_out s" "p_code_lengths ?s1 = lens"
    "p_code_inc_newPos ?s1 = news" "p_code_inc_oldPos ?s1 = olds" "p_oldPosBack ?s1 = p_oldPosBack s"
    "p_code_newDataDiff ?s1 = p_code_newDataDiff s" by simp_all
  from patch_gap [OF \<open>patch_inv rle ?s1\<close>, of copyLength, unfolded sel] obtain s2 where
    s2: "(if copyLength > 0 then
            rbind (check (\<not> copyLength > length rle - p_newPosBack s)) (\<lambda>_.
            rbind (check (\<not> copyLength > length (p_code_newDataDiff s))) (\<lambda>_. patch_copy ?s1 copyLength))
          else Ok ?s1) = (if ?gap then Ok s2 else Fail)"
    and gap: "?gap \<Longrightarrow> patch_inv rle s2 \<and> p_newPosBack s2 = p_newPosBack s + copyLength \<and>
      take (p_newPosBack s2) (p_out s2) = take (p_newPosBack s) (p_out s) @ take copyLength (p_code_newDataDiff s) \<and>
      p_code_newDataDiff s2 = drop copyLength (p_code_newDataDiff s) \<and>
      p_code_lengths s2 = lens \<and> p_code_inc_newPos s2 = news \<and>
      p_code_inc_oldPos s2 = olds \<and> p_oldPosBack s2 = p_oldPosBack s"
    by blast
  have unf: "patch_cover old s = rbind (if ?gap then Ok s2 else Fail) (\<lambda>s.
      rbind (check (\<not> len > length rle - p_newPosBack s)) (\<lambda>_.
      rbind (check (\<not> (op > length old \<or> len > length old - op))) (\<lambda>_.
      rbind (addData (p_out s) (p_newPosBack s) old op len) (\<lambda>out.
      Ok (s\<lparr>p_out := out, p_oldPosBack := op, p_newPosBack := p_newPosBack s + len\<rparr>)))))"
    unfolding patch_cover_def news lens olds Let_def rbind.simps prod.case s2 [symmetric]
    using ne nb(2) by (simp add: op_def oldPos_step_def neg_def)
  show ?thesis
  proof (cases "cover_ok old rle s op np len")
    case True
    then have ok: "?gap" "np = p_newPosBack s + copyLength" "np + len \<le> length rle" "op + len \<le> length old"
      using np by (auto simp: cover_ok_def)
    note g = gap [OF ok(1)]
    have "length (p_out s2) = length rle" "drop np (p_out s2) = drop np rle"
      using g ok(2) by (auto simp: patch_inv_def)
    from addData_step [OF this ok(3,4)] obtain out' where
      "addData (p_out s2) np old op len = Ok out'" "length out' = length rle"
      "take (np + len) out' = take np (p_out s2) @ bytes_add (take len (drop np rle)) (take len (drop op old))"
      "drop (np + len) out' = drop (np + len) rle" by blast
    then show ?thesis
      using True g ok unfolding unf by (auto simp: check_def patch_inv_def)
  next
    case False
    then have "\<not> ?gap \<or> ?gap \<and> (len > length rle - (p_newPosBack s + copyLength) \<or> op > length old \<or> len > length old - op)"
      using np by (auto simp: cover_ok_def)
    then show ?thesis using False gap unfolding unf by (auto simp: check_def)
  qed
qed

lemma patch_rest_Suc:
  "patch_rest (Suc n) old rle s =
     (case hpatch_unpackUIntWithTag (p_code_inc_oldPos s) 1 of
        Ok (inc, olds) \<Rightarrow> (case hpatch_unpackUInt (p_code_inc_newPos s) of
          Ok (copyLength, news) \<Rightarrow> (case hpatch_unpackUInt (p_code_lengths s) of
            Ok (len, lens) \<Rightarrow>
              (let op = oldPos_step (p_oldPosBack s) (drop_bit 7 (unat (hd (p_code_inc_oldPos s))) \<noteq> 0) inc;
                   np = add64 (p_newPosBack s) copyLength;
                   gap = np - p_newPosBack s
               in if cover_ok old rle s op np len then
                    map_option (\<lambda>r. take gap (p_code_newDataDiff s)
                        @ bytes_add (take len (drop np rle)) (take len (drop op old)) @ r)
                      (Option.bind (parse_covers Memory n olds news lens op (add64 np len))
                        (\<lambda>cs. apply_covers old rle (length rle) cs (drop gap (p_code_newDataDiff s)) (np + len)))
                  else None)
            | _ \<Rightarrow> None)
          | _ \<Rightarrow> None)
      | _ \<Rightarrow> None)"
  by (auto simp: patch_rest_def cover_ok_def hpatch_unpackUInt_def Let_def split: res.splits option.splits bind_splits)

lemma patch_loop_spec:
  assumes "patch_inv rle s" "length rle < 2 ^ 64"
  shows "rbind (patch_loop n old s) (patch_tail (length rle))
       = finish (take (p_newPosBack s) (p_out s)) (patch_rest n old rle s)"
  using assms
proof (induction n arbitrary: s)
  case 0
  then show ?case using patch_tail_spec [OF 0(1), of old] by simp
next
  case (Suc n)
  show ?case
  proof (cases "\<exists>inc olds cl news len lens.
      hpatch_unpackUIntWithTag (p_code_inc_oldPos s) 1 = Ok (inc, olds) \<and>
      hpatch_unpackUInt (p_code_inc_newPos s) = Ok (cl, news) \<and>
      hpatch_unpackUInt (p_code_lengths s) = Ok (len, lens)")
    case True
    then obtain inc olds cl news len lens where
      u: "hpatch_unpackUIntWithTag (p_code_inc_oldPos s) 1 = Ok (inc, olds)"
      "hpatch_unpackUInt (p_code_inc_newPos s) = Ok (cl, news)"
      "hpatch_unpackUInt (p_code_lengths s) = Ok (len, lens)" by blast
    note step = patch_cover_step [OF Suc.prems u(2,3,1), of old]
    let ?op = "oldPos_step (p_oldPosBack s) (drop_bit 7 (unat (hd (p_code_inc_oldPos s))) \<noteq> 0) inc"
    let ?np = "add64 (p_newPosBack s) cl"
    show ?thesis
    proof (cases "cover_ok old rle s ?op ?np len")
      case ok: True
      with step obtain s' where s': "patch_cover old s = Ok s'" "patch_inv rle s'"
        "p_oldPosBack s' = ?op" "p_newPosBack s' = ?np + len" "p_code_inc_oldPos s' = olds"
        "p_code_inc_newPos s' = news" "p_code_lengths s' = lens"
        "p_code_newDataDiff s' = drop (?np - p_newPosBack s) (p_code_newDataDiff s)"
        "take (p_newPosBack s') (p_out s') = take (p_newPosBack s) (p_out s)
          @ take (?np - p_newPosBack s) (p_code_newDataDiff s)
          @ bytes_add (take len (drop ?np rle)) (take len (drop ?op old))" by auto
      have "?np + len < 2 ^ 64" using ok Suc.prems(2) by (simp add: cover_ok_def)
      then have "patch_rest (Suc n) old rle s = map_option (\<lambda>r. take (?np - p_newPosBack s) (p_code_newDataDiff s)
          @ bytes_add (take len (drop ?np rle)) (take len (drop ?op old)) @ r) (patch_rest n old rle s')"
        unfolding patch_rest_Suc patch_rest_def [of n] using ok u s'(3-8) by (simp add: Let_def add64_eq)
      then show ?thesis
        using Suc.IH [OF s'(2) Suc.prems(2)] s'(1,9) by (simp add: finish_append [symmetric])
    next
      case False
      then show ?thesis using step u by (simp add: patch_rest_Suc Let_def finish_def)
    qed
  next
    case False
    have "patch_rest (Suc n) old rle s = None"
      using False by (auto simp: patch_rest_Suc split: res.splits)
    moreover have "patch_cover old s = Fail"
      using False unpackUInt_cases [of "p_code_inc_newPos s" 0] unpackUInt_cases [of "p_code_lengths s" 0]
        unpackUInt_cases [of "p_code_inc_oldPos s" 1]
      by (elim disjE exE) (simp_all add: patch_cover_def hpatch_unpackUInt_def check_def)
    ultimately show ?thesis by (simp add: finish_def)
  qed
qed


lemma finish_Nil: "finish [] r = (case r of Some new \<Rightarrow> Ok new | None \<Rightarrow> Fail)"
  by (cases r) (simp_all add: finish_def)

text \<open>The head of \<open>patch\<close> cuts the sections one after the other.\<close>

lemma take_section:
  "rbind (check (\<not> n > length d)) (\<lambda>_. rbind (mem_take n d) f)
   = (if n \<le> length d then f (take n d, drop n d) else Fail)"
  by (simp add: check_def mem_take_def)

lemma patch_unfold:
  "patch out old d =
     rbind (parse_head Memory d) (\<lambda>p.
     rbind (bytesRle_load out (dp_rle p)) (\<lambda>out'.
     rbind (patch_loop (dp_coverCount p) old
         \<lparr>p_out = out', p_oldPosBack = 0, p_newPosBack = 0, p_code_lengths = dp_lengths p,
          p_code_inc_newPos = dp_inc_newPos p, p_code_inc_oldPos = dp_inc_oldPos p,
          p_code_newDataDiff = dp_newDataDiff p\<rparr>)
       (patch_tail (length out))))"
proof -
  show ?thesis
    unfolding patch_def parse_head_def take_section rbind_assoc hpatch_unpackUInt_def unpack_by_Memory
    apply ((intro rbind_cong refl, clarsimp simp only: split_beta rbind_assoc)+)
    subgoal for n d0 a d1 b d2 c d3 e d4
      by (cases "a + b + c + e \<le> length d4")
        (auto simp: check_def add_ac patch_tail_def [abs_def] Let_def)
    done
qed

lemma patch_eq_spec:
  assumes "length out < 2 ^ 64"
  shows "patch out old d = (case diff_spec Memory (length out) old d of Some new \<Rightarrow> Ok new | None \<Rightarrow> Fail)"
proof -
  have "parse_head Memory d \<noteq> Fault" 
    by (auto simp: parse_head_def rbind_eq_Fault hpatch_unpackUInt_def check_def split: if_splits)
  then show ?thesis
  proof (cases "parse_head Memory d")
    case (Ok p)
    show ?thesis
    proof (cases "rle_section Memory (dp_rle p)")
      case None
      then show ?thesis using Ok by (simp add: patch_unfold bytesRle_load_spec diff_spec_def)
    next
      case (Some rle)
      let ?s = "\<lparr>p_out = rle, p_oldPosBack = 0, p_newPosBack = 0, p_code_lengths = dp_lengths p,
               p_code_inc_newPos = dp_inc_newPos p, p_code_inc_oldPos = dp_inc_oldPos p,
               p_code_newDataDiff = dp_newDataDiff p\<rparr>"
      have "patch_inv rle ?s" by (simp add: patch_inv_def)
      note loop = patch_loop_spec [OF this, of "dp_coverCount p" old]
      show ?thesis
        using Ok Some loop assms
        by (auto simp: patch_unfold bytesRle_load_spec diff_spec_def patch_rest_def finish_Nil)
    qed
  qed (simp_all add: patch_unfold diff_spec_def)
qed

lemma patch_loop_unfold:
  "patch_loop n old s = (if n = 0 then Ok s else rbind (patch_cover old s) (patch_loop (n - 1) old))"
  by (cases n) simp_all

lemmas patch_evals [eval_simps] =
  patch_def patch_loop_unfold bytesRle_load_def bytesRle_loop.simps patch_copy_def patch_cover_def addData_def
  rle_type_def kByteRleType_bit_def

section \<open>Properties\<close>

text \<open>C4: \<open>patch\<close> implements the meaning of a serialized diff: on every input, it writes
  the new data that \<open>diff_spec\<close> assigns to the diff and the old data, and it returns
  \<open>hpatch_FALSE\<close> exactly where that meaning is undefined.  It never touches memory outside the
  three buffers, and what the output buffer held before does not matter.\<close>

theorem patch_refines_spec:
  assumes "length out < 2 ^ 64"
  shows "patch out old d = (case diff_spec Memory (length out) old d of Some new \<Rightarrow> Ok new | None \<Rightarrow> Fail)"
  by (rule patch_eq_spec [OF assms])

theorem patch_refines_spec_witness:
  "diff_spec Memory (length [0, 0, 0, 0 :: byte]) [1, 2, 3] [1, 1, 1, 1, 1, 3, 1, 0, 9, 1, 3] = Some [9, 1, 2, 3]"
proof -
  have "patch [0, 0, 0, 0] [1, 2, 3] [1, 1, 1, 1, 1, 3, 1, 0, 9, 1, 3] = Ok [9, 1, 2, 3]"
    by (simp add: eval_simps)
  then show ?thesis
    using patch_refines_spec [of "[0, 0, 0, 0]" "[1, 2, 3]" "[1, 1, 1, 1, 1, 3, 1, 0, 9, 1, 3]"]
    by (auto split: option.splits)
qed

text \<open>C5: \<open>_bytesRle_load\<close> fills its buffer with exactly the string that the run-length
  sections stand for, and refuses sections that stand for none, for a shorter or for a longer
  one; a control byte whose run does not fit the buffer is refused before anything is written.\<close>

theorem bytesRle_load_refines_spec:
  "bytesRle_load out d =
     (case rle_section Memory d of
        Some bs \<Rightarrow> (if length bs = length out then Ok bs else Fail)
      | None \<Rightarrow> Fail)"
  by (rule bytesRle_load_spec)

end
