(* ===== verification/Streams.thy ===== *)
theory Streams
  imports Prelude
begin

text \<open>
  \<open>hpatch_TStreamInput\<close> and \<open>hpatch_TStreamOutput\<close> of \<open>patch_types.h\<close>, the two interfaces
  through which the program reads and writes everything, and their providers in \<open>patch.c\<close>:
  memory and clips of another stream.  A stream is a record that holds its function
  pointers, as in C; reading returns the bytes and the stream as it is then, because a stream
  may have a state of its own (a decompressor has).  What the code relies on is the laws of
  the locales below.
\<close>

section \<open>The interfaces\<close>

record 's hpatch_TStreamInput =
  streamImport :: 's
  streamSize :: nat
  read :: "'s \<Rightarrow> nat \<Rightarrow> nat \<Rightarrow> nat \<Rightarrow> (byte list \<times> 's) res"

text \<open>\<open>stream->read(stream,readFromPos,out_data,out_data+len)\<close>.\<close>

definition sread :: "'s hpatch_TStreamInput \<Rightarrow> nat \<Rightarrow> nat \<Rightarrow> (byte list \<times> 's hpatch_TStreamInput) res" where
  "sread st pos len =
     rbind (read st (streamImport st) (streamSize st) pos len) (\<lambda>(d, s). Ok (d, st\<lparr>streamImport := s\<rparr>))"

record 'o hpatch_TStreamOutput =
  ostreamImport :: 'o
  ostreamSize :: nat
  read_writed :: "('o \<Rightarrow> nat \<Rightarrow> nat \<Rightarrow> nat \<Rightarrow> (byte list \<times> 'o) res) option"
  o_write :: "'o \<Rightarrow> nat \<Rightarrow> nat \<Rightarrow> byte list \<Rightarrow> 'o res"

definition swrite :: "'o hpatch_TStreamOutput \<Rightarrow> nat \<Rightarrow> byte list \<Rightarrow> 'o hpatch_TStreamOutput res" where
  "swrite st pos d =
     rbind (o_write st (ostreamImport st) (ostreamSize st) pos d) (\<lambda>s. Ok (st\<lparr>ostreamImport := s\<rparr>))"

text \<open>Reading back what was written, where the stream can: a call through a null pointer faults.\<close>

definition sread_writed ::
  "'o hpatch_TStreamOutput \<Rightarrow> nat \<Rightarrow> nat \<Rightarrow> (byte list \<times> 'o hpatch_TStreamOutput) res" where
  "sread_writed st pos len =
     (case read_writed st of
        None \<Rightarrow> Fault
      | Some rd \<Rightarrow> rbind (rd (ostreamImport st) (ostreamSize st) pos len)
                      (\<lambda>(d, s). Ok (d, st\<lparr>ostreamImport := s\<rparr>)))"

text \<open>
  An input stream that is read onwards: \<open>avail st pos\<close> are the bytes it has from \<open>pos\<close> on.
  A read of no more than those, inside the size of the stream, succeeds; a read that succeeds
  returns them.
\<close>

locale input_stream =
  fixes ok :: "'s hpatch_TStreamInput \<Rightarrow> bool"
    and avail :: "'s hpatch_TStreamInput \<Rightarrow> nat \<Rightarrow> byte list"
  assumes sread_law: "ok st \<Longrightarrow> pos + len \<le> streamSize st \<Longrightarrow>
      hoare (len \<le> length (avail st pos)) (sread st pos len)
        (\<lambda>(d, st'). ok st' \<and> streamSize st' = streamSize st \<and>
           len \<le> length (avail st pos) \<and> d = take len (avail st pos) \<and>
           avail st' (pos + len) = drop len (avail st pos))"
    and size_law: "ok st \<Longrightarrow> streamSize st < 2 ^ 64"
begin

lemma sread_rule:
  assumes "ok st" "pos + len \<le> streamSize st"
    and "S \<Longrightarrow> len \<le> length (avail st pos)"
    and "\<And>d st'. d = take len (avail st pos) \<Longrightarrow> length d = len \<Longrightarrow> len \<le> length (avail st pos) \<Longrightarrow>
      ok st' \<Longrightarrow> streamSize st' = streamSize st \<Longrightarrow> avail st' (pos + len) = drop len (avail st pos) \<Longrightarrow>
      Q (d, st')"
  shows "hoare S (sread st pos len) Q"
  by (rule hoare_weaken [OF sread_law [OF assms(1,2)]]) (use assms(3,4) in auto)

lemma sread_no_Fault: "ok st \<Longrightarrow> pos + len \<le> streamSize st \<Longrightarrow> sread st pos len \<noteq> Fault"
  using hoare_not_Fault [OF sread_law] by blast

text \<open>Reading in two steps is reading at once.\<close>

lemma sread_split:
  assumes "ok st" "pos + (m + n) \<le> streamSize st" "sread st pos (m + n) = Ok (d, st1)"
  shows "\<exists>d1 d2 st2 st3. sread st pos m = Ok (d1, st2) \<and> sread st2 (pos + m) n = Ok (d2, st3) \<and> d = d1 @ d2"
proof -
  from hoare_Ok [OF sread_law [OF assms(1,2)] assms(3)]
  have d: "m + n \<le> length (avail st pos)" "d = take (m + n) (avail st pos)" by auto
  have "hoare True (sread st pos m) (\<lambda>(d1, st2). d1 = take m (avail st pos) \<and> ok st2 \<and>
      streamSize st2 = streamSize st \<and> avail st2 (pos + m) = drop m (avail st pos))"
    by (rule sread_rule) (use assms d in auto)
  then obtain d1 st2 where 1: "sread st pos m = Ok (d1, st2)" "d1 = take m (avail st pos)" "ok st2"
    "streamSize st2 = streamSize st"
    "avail st2 (pos + m) = drop m (avail st pos)" by (auto dest: hoare_success)
  have "hoare True (sread st2 (pos + m) n) (\<lambda>(d2, st3). d2 = take n (avail st2 (pos + m)))"
    by (rule sread_rule) (use assms d 1 in auto)
  then obtain d2 st3 where 2: "sread st2 (pos + m) n = Ok (d2, st3)" "d2 = take n (avail st2 (pos + m))"
    by (auto dest: hoare_success)
  have "d = d1 @ d2" unfolding d 1(2) 2(2) 1(5) by (simp add: take_add)
  then show ?thesis using 1 2 by blast
qed

end

text \<open>A stream of fixed contents, read anywhere.\<close>

locale random_stream =
  fixes rok :: "'s hpatch_TStreamInput \<Rightarrow> bool"
    and contents :: "'s hpatch_TStreamInput \<Rightarrow> byte list"
  assumes random_law: "rok st \<Longrightarrow> pos + len < 2 ^ 64 \<Longrightarrow>
      hoare (pos + len \<le> length (contents st)) (sread st pos len)
        (\<lambda>(d, st'). rok st' \<and> streamSize st' = streamSize st \<and> contents st' = contents st \<and>
           pos + len \<le> length (contents st) \<and> d = take len (drop pos (contents st)))"
    and contents_size: "rok st \<Longrightarrow> streamSize st = length (contents st) \<and> length (contents st) < 2 ^ 64"
begin

lemma random_rule:
  assumes "rok st" "pos + len < 2 ^ 64" "S \<Longrightarrow> pos + len \<le> length (contents st)"
    and "\<And>d st'. d = take len (drop pos (contents st)) \<Longrightarrow> length d = len \<Longrightarrow>
      pos + len \<le> length (contents st) \<Longrightarrow> rok st' \<Longrightarrow> streamSize st' = streamSize st \<Longrightarrow>
      contents st' = contents st \<Longrightarrow> Q (d, st')"
  shows "hoare S (sread st pos len) Q"
  by (rule hoare_weaken [OF random_law [OF assms(1,2)]]) (use assms(3,4) in auto)

end

sublocale random_stream \<subseteq> input_stream rok "\<lambda>st pos. drop pos (contents st)"
proof
  fix st pos len
  assume ok: "rok st" and le: "pos + len \<le> streamSize st"
  show "hoare (len \<le> length (drop pos (contents st))) (sread st pos len)
        (\<lambda>(d, st'). rok st' \<and> streamSize st' = streamSize st \<and> len \<le> length (drop pos (contents st)) \<and>
           d = take len (drop pos (contents st)) \<and>
           drop (pos + len) (contents st') = drop len (drop pos (contents st)))"
    by (rule random_rule [OF ok]) (use contents_size [OF ok] le in \<open>auto simp: add.commute\<close>)
qed (use contents_size in auto)

text \<open>
  An output stream: \<open>written st pos\<close> are the first \<open>pos\<close> bytes it holds.  Writing at
  \<open>pos\<close> appends to those; a stream that can be read back returns them.
\<close>

locale output_stream =
  fixes ook :: "'o hpatch_TStreamOutput \<Rightarrow> bool"
    and written :: "'o hpatch_TStreamOutput \<Rightarrow> nat \<Rightarrow> byte list"
  assumes swrite_law: "ook st \<Longrightarrow> pos + length d < 2 ^ 64 \<Longrightarrow>
      hoare (pos + length d \<le> ostreamSize st) (swrite st pos d)
        (\<lambda>st'. ook st' \<and> ostreamSize st' = ostreamSize st \<and> read_writed st' = read_writed st \<and>
           pos + length d \<le> ostreamSize st \<and> written st' (pos + length d) = written st pos @ d)"
    and osize_law: "ook st \<Longrightarrow> ostreamSize st < 2 ^ 63"
    and written_length: "ook st \<Longrightarrow> pos \<le> ostreamSize st \<Longrightarrow> length (written st pos) = pos"
begin

lemma swrite_rule:
  assumes "ook st" "pos + length d < 2 ^ 64" "S \<Longrightarrow> pos + length d \<le> ostreamSize st"
    and "\<And>st'. ook st' \<Longrightarrow> ostreamSize st' = ostreamSize st \<Longrightarrow> read_writed st' = read_writed st \<Longrightarrow>
      pos + length d \<le> ostreamSize st \<Longrightarrow> written st' (pos + length d) = written st pos @ d \<Longrightarrow> Q st'"
  shows "hoare S (swrite st pos d) Q"
  by (rule hoare_weaken [OF swrite_law [OF assms(1,2)]]) (use assms(3,4) in auto)

text \<open>Writing in two steps leaves what writing at once leaves.\<close>

lemma swrite_append:
  assumes "ook st" "pos + length (d1 @ d2) \<le> ostreamSize st"
  shows "\<exists>st1 st2 st'. swrite st pos d1 = Ok st1 \<and> swrite st1 (pos + length d1) d2 = Ok st2 \<and>
    swrite st pos (d1 @ d2) = Ok st' \<and>
    written st2 (pos + length (d1 @ d2)) = written st' (pos + length (d1 @ d2))"
proof -
  have less: "pos + length (d1 @ d2) < 2 ^ 64" using assms osize_law [OF assms(1)] by simp
  have "hoare True (swrite st pos d1) (\<lambda>st1. ook st1 \<and> ostreamSize st1 = ostreamSize st \<and>
      written st1 (pos + length d1) = written st pos @ d1)"
    by (rule swrite_rule) (use assms less in auto)
  then obtain st1 where 1: "swrite st pos d1 = Ok st1" "ook st1" "ostreamSize st1 = ostreamSize st"
    "written st1 (pos + length d1) = written st pos @ d1" by (auto dest: hoare_success)
  have "hoare True (swrite st1 (pos + length d1) d2)
      (\<lambda>st2. written st2 (pos + length d1 + length d2) = written st pos @ d1 @ d2)"
    by (rule swrite_rule) (use assms 1 less in auto)
  moreover have "hoare True (swrite st pos (d1 @ d2))
      (\<lambda>st'. written st' (pos + length (d1 @ d2)) = written st pos @ d1 @ d2)"
    by (rule swrite_rule) (use assms less in auto)
  ultimately show ?thesis using 1 by (fastforce dest: hoare_success simp: add.assoc)
qed

end

locale rw_stream = output_stream ook written
  for ook :: "'o hpatch_TStreamOutput \<Rightarrow> bool"
    and written :: "'o hpatch_TStreamOutput \<Rightarrow> nat \<Rightarrow> byte list" +
  assumes sread_writed_law: "ook st \<Longrightarrow> read_writed st \<noteq> None \<Longrightarrow> pos + len \<le> wpos \<Longrightarrow>
      wpos \<le> ostreamSize st \<Longrightarrow>
      hoare True (sread_writed st pos len)
        (\<lambda>(d, st'). ook st' \<and> ostreamSize st' = ostreamSize st \<and> read_writed st' = read_writed st \<and>
           written st' wpos = written st wpos \<and> d = take len (drop pos (written st wpos)))"

section \<open>Memory\<close>

text \<open>\<open>_read_mem_stream\<close>, \<open>mem_as_hStreamInput\<close>, \<open>_write_mem_stream\<close>, \<open>mem_as_hStreamOutput\<close>.\<close>

definition read_mem_stream :: "byte list \<Rightarrow> nat \<Rightarrow> nat \<Rightarrow> nat \<Rightarrow> (byte list \<times> byte list) res" where
  "read_mem_stream src streamSz readFromPos readLen =
     rbind (check (\<not> readFromPos > streamSz)) (\<lambda>_.
     rbind (check (\<not> readLen > sub64 streamSz readFromPos)) (\<lambda>_.
     rbind (mem_read src readFromPos readLen) (\<lambda>d. Ok (d, src))))"

definition mem_as_hStreamInput :: "byte list \<Rightarrow> byte list hpatch_TStreamInput" where
  "mem_as_hStreamInput mem = \<lparr>streamImport = mem, streamSize = length mem, read = read_mem_stream\<rparr>"

definition write_mem_stream :: "byte list \<Rightarrow> nat \<Rightarrow> nat \<Rightarrow> byte list \<Rightarrow> byte list res" where
  "write_mem_stream out_dst streamSz writeToPos data =
     rbind (check (\<not> writeToPos > streamSz)) (\<lambda>_.
     rbind (check (\<not> length data > sub64 streamSz writeToPos)) (\<lambda>_.
     mem_write out_dst writeToPos data))"

definition mem_as_hStreamOutput :: "byte list \<Rightarrow> byte list hpatch_TStreamOutput" where
  "mem_as_hStreamOutput mem =
     \<lparr>ostreamImport = mem, ostreamSize = length mem, read_writed = Some read_mem_stream,
      o_write = write_mem_stream\<rparr>"

definition mem_in_ok :: "byte list hpatch_TStreamInput \<Rightarrow> bool" where
  "mem_in_ok st \<longleftrightarrow> st = mem_as_hStreamInput (streamImport st) \<and> length (streamImport st) < 2 ^ 64"

definition mem_out_ok :: "byte list hpatch_TStreamOutput \<Rightarrow> bool" where
  "mem_out_ok st \<longleftrightarrow> st = mem_as_hStreamOutput (ostreamImport st) \<and> length (ostreamImport st) < 2 ^ 63"

definition mem_written :: "byte list hpatch_TStreamOutput \<Rightarrow> nat \<Rightarrow> byte list" where
  "mem_written st pos = take pos (ostreamImport st)"

lemma mem_in_fields:
  "mem_in_ok st \<Longrightarrow> streamSize st = length (streamImport st) \<and> read st = read_mem_stream \<and>
     length (streamImport st) < 2 ^ 64"
  by (metis hpatch_TStreamInput.select_convs(2,3) mem_as_hStreamInput_def mem_in_ok_def)

lemma mem_out_fields:
  "mem_out_ok st \<Longrightarrow> ostreamSize st = length (ostreamImport st) \<and> o_write st = write_mem_stream \<and>
     read_writed st = Some read_mem_stream \<and> length (ostreamImport st) < 2 ^ 63"
  by (metis hpatch_TStreamOutput.select_convs(2,3,4) mem_as_hStreamOutput_def mem_out_ok_def)

lemma mem_in_update [simp]: "mem_in_ok st \<Longrightarrow> st\<lparr>streamImport := streamImport st\<rparr> = st"
  by simp

lemma mem_out_update:
  "mem_out_ok st \<Longrightarrow> length s = length (ostreamImport st) \<Longrightarrow> mem_out_ok (st\<lparr>ostreamImport := s\<rparr>)"
  by (cases st) (simp add: mem_out_ok_def mem_as_hStreamOutput_def)

lemma mem_as_in_ok [simp]: "length mem < 2 ^ 64 \<Longrightarrow> mem_in_ok (mem_as_hStreamInput mem)"
  by (simp add: mem_in_ok_def mem_as_hStreamInput_def)

lemma mem_as_out_ok [simp]: "length mem < 2 ^ 63 \<Longrightarrow> mem_out_ok (mem_as_hStreamOutput mem)"
  by (simp add: mem_out_ok_def mem_as_hStreamOutput_def)

lemma read_mem_stream_eq:
  assumes "length src < 2 ^ 64" "pos < 2 ^ 64"
  shows "read_mem_stream src (length src) pos len =
    (if pos + len \<le> length src then Ok (take len (drop pos src), src) else Fail)"
  using assms by (auto simp: read_mem_stream_def check_def mem_read_def sub64_eq)

lemma write_mem_stream_eq:
  assumes "length dst < 2 ^ 64" "pos < 2 ^ 64"
  shows "write_mem_stream dst (length dst) pos d =
    (if pos + length d \<le> length dst then Ok (take pos dst @ d @ drop (pos + length d) dst) else Fail)"
  using assms by (auto simp: write_mem_stream_def check_def mem_write_def sub64_eq)

interpretation mem_in: random_stream mem_in_ok streamImport
proof
  fix st :: "byte list hpatch_TStreamInput" and pos len :: nat
  assume ok: "mem_in_ok st" and less: "pos + len < 2 ^ 64"
  note f = mem_in_fields [OF ok]
  show "hoare (pos + len \<le> length (streamImport st)) (sread st pos len)
        (\<lambda>(d, st'). mem_in_ok st' \<and> streamSize st' = streamSize st \<and> streamImport st' = streamImport st \<and>
           pos + len \<le> length (streamImport st) \<and> d = take len (drop pos (streamImport st)))"
    using f ok less by (auto simp: sread_def read_mem_stream_eq)
qed (use mem_in_fields in auto)

interpretation mem_out: rw_stream mem_out_ok mem_written
proof
  fix st :: "byte list hpatch_TStreamOutput" and pos :: nat and d :: "byte list"
  assume ok: "mem_out_ok st" and pos: "pos + length d < 2 ^ 64"
  note f = mem_out_fields [OF ok]
  show "hoare (pos + length d \<le> ostreamSize st) (swrite st pos d)
        (\<lambda>st'. mem_out_ok st' \<and> ostreamSize st' = ostreamSize st \<and> read_writed st' = read_writed st \<and>
           pos + length d \<le> ostreamSize st \<and> mem_written st' (pos + length d) = mem_written st pos @ d)"
    using f pos mem_out_update [OF ok]
    by (auto simp: swrite_def write_mem_stream_eq mem_written_def)
next
  fix st :: "byte list hpatch_TStreamOutput" and pos len wpos :: nat
  assume ok: "mem_out_ok st" and le: "pos + len \<le> wpos" "wpos \<le> ostreamSize st"
  note f = mem_out_fields [OF ok]
  have "take len (drop pos (ostreamImport st)) = take len (drop pos (take wpos (ostreamImport st)))"
    using le by (simp add: drop_take)
  then show "hoare True (sread_writed st pos len)
        (\<lambda>(d, st'). mem_out_ok st' \<and> ostreamSize st' = ostreamSize st \<and> read_writed st' = read_writed st \<and>
           mem_written st' wpos = mem_written st wpos \<and> d = take len (drop pos (mem_written st wpos)))"
    using f le ok by (auto simp: sread_writed_def read_mem_stream_eq mem_written_def)
qed (auto dest!: mem_out_fields simp: mem_written_def)

section \<open>Clips\<close>

text \<open>
  \<open>TStreamInputClip\<close>: the part of a stream between two positions, as a stream.  The guard of
  \<open>_TStreamInputClip_read\<close> adds in 64 bits.
\<close>

record 's TStreamInputClip =
  ic_srcStream :: "'s hpatch_TStreamInput"
  ic_clipBeginPos :: nat

definition TStreamInputClip_read ::
  "'s TStreamInputClip \<Rightarrow> nat \<Rightarrow> nat \<Rightarrow> nat \<Rightarrow> (byte list \<times> 's TStreamInputClip) res" where
  "TStreamInputClip_read self streamSz readFromPos len =
     rbind (check (\<not> add64 readFromPos len > streamSz)) (\<lambda>_.
     rbind (sread (ic_srcStream self) (add64 readFromPos (ic_clipBeginPos self)) len) (\<lambda>(d, src).
     Ok (d, self\<lparr>ic_srcStream := src\<rparr>)))"

definition TStreamInputClip_init ::
  "'s hpatch_TStreamInput \<Rightarrow> nat \<Rightarrow> nat \<Rightarrow> 's TStreamInputClip hpatch_TStreamInput res" where
  "TStreamInputClip_init srcStream clipBeginPos clipEndPos =
     rbind (require (clipBeginPos \<le> clipEndPos)) (\<lambda>_.
     rbind (require (clipEndPos \<le> streamSize srcStream)) (\<lambda>_.
     Ok \<lparr>streamImport = \<lparr>ic_srcStream = srcStream, ic_clipBeginPos = clipBeginPos\<rparr>,
         streamSize = clipEndPos - clipBeginPos, read = TStreamInputClip_read\<rparr>))"

record 'o TStreamOutputClip =
  oc_srcStream :: "'o hpatch_TStreamOutput"
  oc_clipBeginPos :: nat

definition TStreamOutputClip_write ::
  "'o TStreamOutputClip \<Rightarrow> nat \<Rightarrow> nat \<Rightarrow> byte list \<Rightarrow> 'o TStreamOutputClip res" where
  "TStreamOutputClip_write self streamSz writePos data =
     rbind (check (\<not> add64 writePos (length data) > streamSz)) (\<lambda>_.
     rbind (swrite (oc_srcStream self) (add64 writePos (oc_clipBeginPos self)) data) (\<lambda>dst.
     Ok (self\<lparr>oc_srcStream := dst\<rparr>)))"

text \<open>\<open>((TStreamInputClip*)self)->base.read=_TStreamInputClip_read\<close> puts the clip's reader into
  \<open>read_writed\<close>; it calls the source's \<open>read_writed\<close>.\<close>

definition TStreamOutputClip_read ::
  "'o TStreamOutputClip \<Rightarrow> nat \<Rightarrow> nat \<Rightarrow> nat \<Rightarrow> (byte list \<times> 'o TStreamOutputClip) res" where
  "TStreamOutputClip_read self streamSz readFromPos len =
     rbind (check (\<not> add64 readFromPos len > streamSz)) (\<lambda>_.
     rbind (sread_writed (oc_srcStream self) (add64 readFromPos (oc_clipBeginPos self)) len) (\<lambda>(d, src).
     Ok (d, self\<lparr>oc_srcStream := src\<rparr>)))"

definition TStreamOutputClip_init ::
  "'o hpatch_TStreamOutput \<Rightarrow> nat \<Rightarrow> nat \<Rightarrow> 'o TStreamOutputClip hpatch_TStreamOutput res" where
  "TStreamOutputClip_init srcStream clipBeginPos clipEndPos =
     rbind (require (clipBeginPos \<le> clipEndPos)) (\<lambda>_.
     rbind (require (clipEndPos \<le> ostreamSize srcStream)) (\<lambda>_.
     Ok \<lparr>ostreamImport = \<lparr>oc_srcStream = srcStream, oc_clipBeginPos = clipBeginPos\<rparr>,
         ostreamSize = clipEndPos - clipBeginPos, read_writed = Some TStreamOutputClip_read,
         o_write = TStreamOutputClip_write\<rparr>))"

section \<open>Clips keep the contract\<close>

context input_stream begin

definition clip_ok :: "'s TStreamInputClip hpatch_TStreamInput \<Rightarrow> bool" where
  "clip_ok st \<longleftrightarrow>
     (let src = ic_srcStream (streamImport st) in
      ok src \<and> read st = TStreamInputClip_read \<and>
      ic_clipBeginPos (streamImport st) + streamSize st \<le> streamSize src)"

definition clip_avail :: "'s TStreamInputClip hpatch_TStreamInput \<Rightarrow> nat \<Rightarrow> byte list" where
  "clip_avail st pos =
     take (streamSize st - pos) (avail (ic_srcStream (streamImport st)) (ic_clipBeginPos (streamImport st) + pos))"

lemma clip_input_stream: "input_stream clip_ok clip_avail"
proof
  fix st :: "'s TStreamInputClip hpatch_TStreamInput" and pos len :: nat
  let ?src = "ic_srcStream (streamImport st)" and ?b = "ic_clipBeginPos (streamImport st)"
  assume st: "clip_ok st" and le: "pos + len \<le> streamSize st"
  then have c: "ok ?src" "read st = TStreamInputClip_read" "?b + streamSize st \<le> streamSize ?src"
    by (auto simp: clip_ok_def Let_def)
  have w: "add64 pos len = pos + len" "add64 pos ?b = pos + ?b"
    using size_law [OF c(1)] c(3) le by (simp_all add: add64_eq)
  have "hoare (len \<le> length (clip_avail st pos)) (sread ?src (pos + ?b) len)
    (\<lambda>(d, src). ok src \<and> streamSize src = streamSize ?src \<and> len \<le> length (avail ?src (pos + ?b)) \<and>
       d = take len (avail ?src (pos + ?b)) \<and> avail src (pos + ?b + len) = drop len (avail ?src (pos + ?b)))"
    by (rule sread_rule [OF c(1)]) (use c(3) le in \<open>auto simp: clip_avail_def add.commute\<close>)
  then show "hoare (len \<le> length (clip_avail st pos)) (sread st pos len)
        (\<lambda>(d, st'). clip_ok st' \<and> streamSize st' = streamSize st \<and> len \<le> length (clip_avail st pos) \<and>
           d = take len (clip_avail st pos) \<and> clip_avail st' (pos + len) = drop len (clip_avail st pos))"
    using c le
    by (cases "sread ?src (pos + ?b) len")
      (auto simp: sread_def [of st] TStreamInputClip_read_def w clip_ok_def clip_avail_def Let_def
        add_ac min_def drop_take)
next
  fix st :: "'s TStreamInputClip hpatch_TStreamInput"
  assume "clip_ok st"
  then show "streamSize st < 2 ^ 64" using size_law by (fastforce simp: clip_ok_def Let_def)
qed

lemma clip_init:
  assumes "ok src" "b \<le> e" "e \<le> streamSize src"
  shows "\<exists>st. TStreamInputClip_init src b e = Ok st \<and> clip_ok st \<and> streamSize st = e - b \<and>
    clip_avail st 0 = take (e - b) (avail src b)"
  using assms by (simp add: TStreamInputClip_init_def clip_ok_def clip_avail_def)

end

interpretation mem_clip: input_stream mem_in.clip_ok mem_in.clip_avail
  by (rule mem_in.clip_input_stream)

context output_stream begin

definition oclip_ok :: "'o TStreamOutputClip hpatch_TStreamOutput \<Rightarrow> bool" where
  "oclip_ok st \<longleftrightarrow>
     (let dst = oc_srcStream (ostreamImport st) in
      ook dst \<and> o_write st = TStreamOutputClip_write \<and>
      oc_clipBeginPos (ostreamImport st) + ostreamSize st \<le> ostreamSize dst)"

definition oclip_written :: "'o TStreamOutputClip hpatch_TStreamOutput \<Rightarrow> nat \<Rightarrow> byte list" where
  "oclip_written st pos =
     drop (oc_clipBeginPos (ostreamImport st))
       (written (oc_srcStream (ostreamImport st)) (pos + oc_clipBeginPos (ostreamImport st)))"

lemma oclip_output_stream: "output_stream oclip_ok oclip_written"
proof
  fix st :: "'o TStreamOutputClip hpatch_TStreamOutput" and pos :: nat and d :: "byte list"
  let ?dst = "oc_srcStream (ostreamImport st)" and ?b = "oc_clipBeginPos (ostreamImport st)"
  assume st: "oclip_ok st" and less: "pos + length d < 2 ^ 64"
  then have c: "ook ?dst" "o_write st = TStreamOutputClip_write" "?b + ostreamSize st \<le> ostreamSize ?dst"
    by (auto simp: oclip_ok_def Let_def)
  have w: "add64 pos (length d) = pos + length d" using less by (simp add: add64_eq)
  show "hoare (pos + length d \<le> ostreamSize st) (swrite st pos d)
        (\<lambda>st'. oclip_ok st' \<and> ostreamSize st' = ostreamSize st \<and> read_writed st' = read_writed st \<and>
           pos + length d \<le> ostreamSize st \<and> oclip_written st' (pos + length d) = oclip_written st pos @ d)"
  proof (cases "pos + length d \<le> ostreamSize st")
    case False
    then show ?thesis by (simp add: swrite_def c TStreamOutputClip_write_def w)
  next
    case True
    have fit: "pos + ?b + length d \<le> ostreamSize ?dst" using True c(3) by simp
    then have w': "add64 pos ?b = pos + ?b" using osize_law [OF c(1)] by (simp add: add64_eq)
    have b: "?b \<le> length (written ?dst (pos + ?b))" using written_length [OF c(1), of "pos + ?b"] fit by simp
    have "hoare True (swrite ?dst (pos + ?b) d)
      (\<lambda>dst. ook dst \<and> ostreamSize dst = ostreamSize ?dst \<and>
         written dst (pos + ?b + length d) = written ?dst (pos + ?b) @ d)"
      by (rule swrite_rule [OF c(1)]) (use fit osize_law [OF c(1)] in auto)
    then show ?thesis
      using c True b
      by (cases "swrite ?dst (pos + ?b) d")
        (auto simp: swrite_def [of st] TStreamOutputClip_write_def w w' oclip_ok_def oclip_written_def Let_def add_ac)
  qed
next
  fix st :: "'o TStreamOutputClip hpatch_TStreamOutput"
  assume "oclip_ok st"
  then show "ostreamSize st < 2 ^ 63" using osize_law by (fastforce simp: oclip_ok_def Let_def)
next
  fix st :: "'o TStreamOutputClip hpatch_TStreamOutput" and pos
  assume "oclip_ok st" "pos \<le> ostreamSize st"
  then show "length (oclip_written st pos) = pos"
    using written_length by (simp add: oclip_ok_def oclip_written_def Let_def)
qed

end

interpretation mem_oclip: output_stream mem_out.oclip_ok mem_out.oclip_written
  by (rule mem_out.oclip_output_stream)

section \<open>Properties\<close>

text \<open>C12: a clip of a stream checks the end of a read in 64 bits, so a position near \<open>2 ^ 64\<close>
  passes the check: in every clip that does not begin where its stream does, a read of \<open>k\<close> bytes from
  \<open>2 ^ 64 - j\<close> succeeds, for \<open>j\<close> up to the beginning of the clip and \<open>k\<close> from \<open>j\<close> to \<open>j\<close> and the size of
  the clip, and gives bytes from \<open>j\<close> before the clip on.\<close>

theorem clip_read_wraps:
  assumes "length src < 2 ^ 64" "b + n \<le> length src" "0 < j" "j \<le> b" "j \<le> k" "k \<le> j + n"
  shows "\<exists>st. TStreamInputClip_init (mem_as_hStreamInput src) b (b + n) = Ok st \<and>
    sread st (2 ^ 64 - j) k = Ok (take k (drop (b - j) src), st)"
proof -
  let ?st = "\<lparr>streamImport = \<lparr>ic_srcStream = mem_as_hStreamInput src, ic_clipBeginPos = b\<rparr>, streamSize = n, read = TStreamInputClip_read\<rparr>"
  have wrap: "add64 (2 ^ 64 - j) x = x - j" if "j \<le> x" "x - j < 2 ^ 64" for x
  proof -
    have "2 ^ 64 - j + x = (x - j) + 2 ^ 64" using that(1) assms by simp
    then show ?thesis using that(2) by (simp only: add64_def mod_add_self2 mod_less)
  qed
  have w: "add64 (2 ^ 64 - j) k = k - j" "add64 (2 ^ 64 - j) b = b - j" by (rule wrap; use assms in linarith)+
  have "sread (mem_as_hStreamInput src) (b - j) k = Ok (take k (drop (b - j) src), mem_as_hStreamInput src)"
    using assms by (simp add: sread_def mem_as_hStreamInput_def read_mem_stream_eq)
  moreover have "\<not> n < k - j" using assms(6) by simp
  ultimately have "sread ?st (2 ^ 64 - j) k = Ok (take k (drop (b - j) src), ?st)"
    using assms w by (simp add: sread_def [of ?st] TStreamInputClip_read_def)
  moreover have "TStreamInputClip_init (mem_as_hStreamInput src) b (b + n) = Ok ?st"
    using assms by (simp add: TStreamInputClip_init_def) (simp add: mem_as_hStreamInput_def)
  ultimately show ?thesis by blast
qed

theorem clip_read_wraps_witness:
  "\<exists>st. TStreamInputClip_init (mem_as_hStreamInput [1, 2, 3, 4]) 1 (1 + 2) = Ok st \<and>
    sread st (2 ^ 64 - 1) 2 = Ok (take 2 (drop (1 - 1) [1, 2, 3, 4]), st)"
  by (rule clip_read_wraps) simp_all

end
