(* ===== verification/CacheClip.thy ===== *)
theory CacheClip
  imports MemPatch Streams
begin

text \<open>
  \<open>TStreamCacheClip\<close> of \<open>patch_private.h\<close> and \<open>patch.c\<close>: a range of an input stream read
  through a buffer.  The unread bytes in the buffer are \<open>cacheBuf[cacheBegin..cacheEnd)\<close>; the
  bytes of the range after them start at \<open>streamPos\<close>.  A pointer into the buffer that an
  operation returns is modelled by the bytes it points to at that time.  A loop that would not
  end (a buffer of no bytes) is a fault.
\<close>

section \<open>The code\<close>

record 's TStreamCacheClip =
  streamPos :: nat
  streamPos_end :: nat
  srcStream :: "'s hpatch_TStreamInput"
  cacheBuf :: "byte list"
  cacheBegin :: nat
  cacheEnd :: nat

definition TStreamCacheClip_init ::
  "'s hpatch_TStreamInput \<Rightarrow> nat \<Rightarrow> nat \<Rightarrow> byte list \<Rightarrow> nat \<Rightarrow> 's TStreamCacheClip res" where
  "TStreamCacheClip_init src pos pos_end aCache cacheSize =
     rbind (require (pos \<le> pos_end \<and> pos_end \<le> streamSize src)) (\<lambda>_.
     Ok \<lparr>streamPos = pos, streamPos_end = pos_end, srcStream = src, cacheBuf = aCache,
         cacheBegin = cacheSize, cacheEnd = cacheSize\<rparr>)"

definition TStreamCacheClip_isCacheEmpty :: "'s TStreamCacheClip \<Rightarrow> bool" where
  "TStreamCacheClip_isCacheEmpty c = (cacheBegin c = cacheEnd c)"

definition TStreamCacheClip_cachedSize :: "'s TStreamCacheClip \<Rightarrow> nat" where
  "TStreamCacheClip_cachedSize c = sub64 (cacheEnd c) (cacheBegin c)"

definition TStreamCacheClip_leaveSize :: "'s TStreamCacheClip \<Rightarrow> nat" where
  "TStreamCacheClip_leaveSize c =
     add64 (sub64 (streamPos_end c) (streamPos c)) (TStreamCacheClip_cachedSize c)"

definition TStreamCacheClip_isFinish :: "'s TStreamCacheClip \<Rightarrow> bool" where
  "TStreamCacheClip_isFinish c = (0 = TStreamCacheClip_leaveSize c)"

definition TStreamCacheClip_readPosOfSrcStream :: "'s TStreamCacheClip \<Rightarrow> nat" where
  "TStreamCacheClip_readPosOfSrcStream c = sub64 (streamPos c) (TStreamCacheClip_cachedSize c)"

definition TStreamCacheClip_updateCache :: "'s TStreamCacheClip \<Rightarrow> 's TStreamCacheClip res" where
  "TStreamCacheClip_updateCache c =
     (let stream_left = sub64 (streamPos_end c) (streamPos c);
          readSize = cacheBegin c;
          readSize = (if readSize > stream_left then stream_left else readSize) in
      if readSize = 0 then Ok c
      else
        rbind (if \<not> TStreamCacheClip_isCacheEmpty c then
                 rbind (mem_read (cacheBuf c) (cacheBegin c) (TStreamCacheClip_cachedSize c)) (\<lambda>d.
                 mem_write (cacheBuf c) (cacheBegin c - readSize) d)
               else Ok (cacheBuf c)) (\<lambda>buf.
        rbind (sread (srcStream c) (streamPos c) readSize) (\<lambda>(d, src).
        rbind (mem_write buf (sub64 (cacheEnd c) readSize) d) (\<lambda>buf.
        Ok (c\<lparr>cacheBuf := buf, srcStream := src, cacheBegin := cacheBegin c - readSize,
              streamPos := add64 (streamPos c) readSize\<rparr>)))))"

text \<open>The bytes at the pointer that \<open>_TStreamCacheClip_accessData(sclip,readSize)\<close> returns.\<close>

definition TStreamCacheClip_accessData ::
  "'s TStreamCacheClip \<Rightarrow> nat \<Rightarrow> (byte list \<times> 's TStreamCacheClip) res" where
  "TStreamCacheClip_accessData c readSize =
     rbind (if readSize > TStreamCacheClip_cachedSize c then
              rbind (TStreamCacheClip_updateCache c) (\<lambda>c.
              rbind (check (\<not> readSize > TStreamCacheClip_cachedSize c)) (\<lambda>_. Ok c))
            else Ok c) (\<lambda>c.
     rbind (mem_read (cacheBuf c) (cacheBegin c) readSize) (\<lambda>d. Ok (d, c)))"

definition TStreamCacheClip_skipData_noCheck :: "'s TStreamCacheClip \<Rightarrow> nat \<Rightarrow> 's TStreamCacheClip" where
  "TStreamCacheClip_skipData_noCheck c skipSize = c\<lparr>cacheBegin := cacheBegin c + skipSize\<rparr>"

definition TStreamCacheClip_readData ::
  "'s TStreamCacheClip \<Rightarrow> nat \<Rightarrow> (byte list \<times> 's TStreamCacheClip) res" where
  "TStreamCacheClip_readData c readSize =
     rbind (TStreamCacheClip_accessData c readSize) (\<lambda>(d, c).
     Ok (d, TStreamCacheClip_skipData_noCheck c readSize))"

function TStreamCacheClip_skipData :: "'s TStreamCacheClip \<Rightarrow> nat \<Rightarrow> 's TStreamCacheClip res" where
  "TStreamCacheClip_skipData c skipLongSize =
     (if skipLongSize > 0 then
        let len = cacheEnd c;
            len = (if len > skipLongSize then skipLongSize else len) in
        if len = 0 then Fault
        else rbind (TStreamCacheClip_accessData c len) (\<lambda>(d, c).
             TStreamCacheClip_skipData (TStreamCacheClip_skipData_noCheck c len) (skipLongSize - len))
      else Ok c)"
  by pat_completeness auto
termination
  by (relation "measure (\<lambda>(c, n). n)") (auto split: if_splits)

declare TStreamCacheClip_skipData.simps [simp del]

definition TStreamCacheClip_unpackUIntWithTag ::
  "'s TStreamCacheClip \<Rightarrow> nat \<Rightarrow> (nat \<times> 's TStreamCacheClip) res" where
  "TStreamCacheClip_unpackUIntWithTag c kTagBit =
     (let readSize = hpatch_kMaxPackedUIntBytes;
          dataSize = TStreamCacheClip_leaveSize c;
          readSize = (if readSize > dataSize then dataSize else readSize) in
      rbind (TStreamCacheClip_accessData c readSize) (\<lambda>(codeBegin, c).
      rbind (hpatch_unpackUIntWithTag codeBegin kTagBit) (\<lambda>(result, curCode).
      Ok (result, TStreamCacheClip_skipData_noCheck c (length codeBegin - length curCode)))))"

text \<open>\<open>_TStreamCacheClip_readDataTo(sclip,out_buf,out_buf+outLen)\<close>: the bytes it stores.\<close>

function TStreamCacheClip_readDataTo ::
  "'s TStreamCacheClip \<Rightarrow> nat \<Rightarrow> (byte list \<times> 's TStreamCacheClip) res" where
  "TStreamCacheClip_readDataTo c outLen =
     (let readLen = TStreamCacheClip_cachedSize c;
          readLen = (if readLen \<ge> outLen then outLen else readLen) in
      rbind (mem_read (cacheBuf c) (cacheBegin c) readLen) (\<lambda>d.
      let c = c\<lparr>cacheBegin := cacheBegin c + readLen\<rparr>;
          outLen = outLen - readLen in
      if outLen \<noteq> 0 then
        if outLen < drop_bit 1 (cacheEnd c) then
          rbind (TStreamCacheClip_updateCache c) (\<lambda>c.
          rbind (check (\<not> outLen > TStreamCacheClip_cachedSize c)) (\<lambda>_.
          rbind (TStreamCacheClip_readDataTo c outLen) (\<lambda>(d', c).
          Ok (d @ d', c))))
        else
          rbind (sread (srcStream c) (streamPos c) outLen) (\<lambda>(d', src).
          Ok (d @ d', c\<lparr>srcStream := src, streamPos := add64 (streamPos c) outLen\<rparr>))
      else Ok (d, c)))"
  by pat_completeness auto
termination
  by (relation "measure (\<lambda>(c, n). if n \<le> TStreamCacheClip_cachedSize c then 0 else 1)")
    (auto simp: check_def split: if_splits)

declare TStreamCacheClip_readDataTo.simps [simp del]

text \<open>\<open>_TStreamCacheClip_addDataTo(self,dst,addLen)\<close> on the bytes of \<open>dst\<close>.\<close>

definition TStreamCacheClip_addDataTo ::
  "'s TStreamCacheClip \<Rightarrow> byte list \<Rightarrow> nat \<Rightarrow> (byte list \<times> 's TStreamCacheClip) res" where
  "TStreamCacheClip_addDataTo self dst addLen =
     rbind (TStreamCacheClip_readData self addLen) (\<lambda>(src, self).
     rbind (addData dst 0 src 0 addLen) (\<lambda>dst. Ok (dst, self)))"

text \<open>
  \<open>_TStreamCacheClip_readStr_end\<close>: the bytes before the first \<open>endTag\<close>, which must be among
  the next \<open>typeBufLen\<close>; storing them and the terminating zero stays inside \<open>out_type\<close>.
\<close>

fun str_end_index :: "byte list \<Rightarrow> byte \<Rightarrow> nat option" where
  "str_end_index [] endTag = None"
| "str_end_index (b # bs) endTag = (if b \<noteq> endTag then map_option Suc (str_end_index bs endTag) else Some 0)"

definition TStreamCacheClip_readStr_end ::
  "'s TStreamCacheClip \<Rightarrow> byte \<Rightarrow> nat \<Rightarrow> (byte list \<times> 's TStreamCacheClip) res" where
  "TStreamCacheClip_readStr_end c endTag typeBufLen =
     (let readLen = typeBufLen;
          readLen = (if readLen > TStreamCacheClip_leaveSize c then TStreamCacheClip_leaveSize c else readLen) in
      rbind (TStreamCacheClip_accessData c readLen) (\<lambda>(type_begin, c).
      case str_end_index type_begin endTag of
        None \<Rightarrow> Fail
      | Some i \<Rightarrow>
          rbind (require (i + 1 \<le> typeBufLen)) (\<lambda>_.
          Ok (take i type_begin, TStreamCacheClip_skipData_noCheck c (i + 1)))))"

definition hpatch_kMaxPluginTypeLength :: nat where
  "hpatch_kMaxPluginTypeLength = 259"

definition TStreamCacheClip_readType_end ::
  "'s TStreamCacheClip \<Rightarrow> byte \<Rightarrow> (byte list \<times> 's TStreamCacheClip) res" where
  "TStreamCacheClip_readType_end c endTag =
     TStreamCacheClip_readStr_end c endTag (hpatch_kMaxPluginTypeLength + 1)"

section \<open>The contract\<close>

lemma str_end_index_Some:
  "str_end_index bs t = Some i \<Longrightarrow> i < length bs \<and> bs ! i = t \<and> t \<notin> set (take i bs)"
  by (induction bs arbitrary: i) (auto split: if_splits)

lemma str_end_index_append:
  "t \<notin> set s \<Longrightarrow> str_end_index (s @ t # r) t = Some (length s)"
  by (induction s) auto

context input_stream begin

text \<open>The bytes still to come out of a clip, and how many it counts.\<close>

definition cache_bytes :: "'s TStreamCacheClip \<Rightarrow> byte list" where
  "cache_bytes c = drop (cacheBegin c) (cacheBuf c)
     @ take (streamPos_end c - streamPos c) (avail (srcStream c) (streamPos c))"

definition cache_left :: "'s TStreamCacheClip \<Rightarrow> nat" where
  "cache_left c = (streamPos_end c - streamPos c) + (cacheEnd c - cacheBegin c)"

definition cache_ok :: "'s TStreamCacheClip \<Rightarrow> bool" where
  "cache_ok c \<longleftrightarrow>
     ok (srcStream c) \<and> streamPos c \<le> streamPos_end c \<and> streamPos_end c \<le> streamSize (srcStream c) \<and>
     cacheBegin c \<le> cacheEnd c \<and> length (cacheBuf c) = cacheEnd c \<and> cacheEnd c < 2 ^ 64 \<and>
     cacheEnd c - cacheBegin c \<le> streamPos c"

text \<open>The stream really has the bytes of the range.\<close>

definition cache_full :: "'s TStreamCacheClip \<Rightarrow> bool" where
  "cache_full c \<longleftrightarrow> streamPos_end c - streamPos c \<le> length (avail (srcStream c) (streamPos c))"

text \<open>What every reading operation does: it takes bytes off the front.\<close>

definition cache_reads :: "'s TStreamCacheClip \<Rightarrow> byte list \<Rightarrow> 's TStreamCacheClip \<Rightarrow> bool" where
  "cache_reads c d c' \<longleftrightarrow>
     cache_ok c' \<and> cacheEnd c' = cacheEnd c \<and> cache_full c' = cache_full c \<and>
     cache_bytes c = d @ cache_bytes c' \<and> cache_left c = length d + cache_left c' \<and>
     streamPos_end c' = streamPos_end c \<and> streamSize (srcStream c') = streamSize (srcStream c)"

lemma cache_reads_refl [simp]: "cache_ok c \<Longrightarrow> cache_reads c [] c"
  by (simp add: cache_reads_def)

lemma cache_reads_trans:
  "cache_reads c d c' \<Longrightarrow> cache_reads c' d' c'' \<Longrightarrow> cache_reads c (d @ d') c''"
  by (simp add: cache_reads_def)

lemma cache_readsD:
  assumes "cache_reads c d c'"
  shows "cache_ok c'" "cacheEnd c' = cacheEnd c" "cache_full c' = cache_full c"
    "cache_bytes c = d @ cache_bytes c'" "cache_left c = length d + cache_left c'"
    "streamPos_end c' = streamPos_end c" "streamSize (srcStream c') = streamSize (srcStream c)"
  using assms by (simp_all add: cache_reads_def)

lemma cache_sizes:
  assumes "cache_ok c"
  shows "TStreamCacheClip_cachedSize c = cacheEnd c - cacheBegin c"
    "TStreamCacheClip_leaveSize c = cache_left c"
    "TStreamCacheClip_readPosOfSrcStream c = streamPos_end c - cache_left c"
    "sub64 (streamPos_end c) (streamPos c) = streamPos_end c - streamPos c"
    "cache_left c \<le> streamPos_end c" "streamPos_end c < 2 ^ 64"
proof -
  from assms have c: "ok (srcStream c)" "streamPos c \<le> streamPos_end c" "streamPos_end c \<le> streamSize (srcStream c)"
    "cacheBegin c \<le> cacheEnd c" "length (cacheBuf c) = cacheEnd c" "cacheEnd c < 2 ^ 64"
    "cacheEnd c - cacheBegin c \<le> streamPos c" by (auto simp: cache_ok_def)
  have e: "streamPos_end c < 2 ^ 64" using size_law [OF c(1)] c(3) by simp
  show 1: "TStreamCacheClip_cachedSize c = cacheEnd c - cacheBegin c"
    using c by (simp add: TStreamCacheClip_cachedSize_def sub64_eq)
  show 2: "sub64 (streamPos_end c) (streamPos c) = streamPos_end c - streamPos c"
    using c e by (simp add: sub64_eq)
  show "TStreamCacheClip_leaveSize c = cache_left c"
    using c e by (simp add: TStreamCacheClip_leaveSize_def cache_left_def 1 2 add64_eq)
  have "sub64 (streamPos c) (cacheEnd c - cacheBegin c) = streamPos c - (cacheEnd c - cacheBegin c)"
    by (rule sub64_eq) (use c e in simp_all)
  then show "TStreamCacheClip_readPosOfSrcStream c = streamPos_end c - cache_left c"
    using c by (simp add: TStreamCacheClip_readPosOfSrcStream_def cache_left_def 1)
  show "cache_left c \<le> streamPos_end c" using c by (simp add: cache_left_def)
  show "streamPos_end c < 2 ^ 64" by (rule e)
qed

lemma cache_bytes_length:
  assumes "cache_ok c"
  shows "length (cache_bytes c) \<le> cache_left c"
proof -
  from assms have "length (cacheBuf c) = cacheEnd c" "cacheBegin c \<le> cacheEnd c" by (auto simp: cache_ok_def)
  then show ?thesis by (simp add: cache_bytes_def cache_left_def add.commute add_mono)
qed

lemma cache_full_length: "cache_ok c \<Longrightarrow> cache_full c \<Longrightarrow> length (cache_bytes c) = cache_left c"
  by (simp add: cache_bytes_def cache_left_def cache_ok_def cache_full_def)

lemma cache_isFinish: "cache_ok c \<Longrightarrow> TStreamCacheClip_isFinish c \<longleftrightarrow> cache_left c = 0"
  by (auto simp: TStreamCacheClip_isFinish_def cache_sizes)

lemma cache_finish_bytes: "cache_ok c \<Longrightarrow> TStreamCacheClip_isFinish c \<Longrightarrow> cache_bytes c = []"
  using cache_bytes_length [of c] by (simp add: cache_isFinish)

lemma cache_full_finish: "cache_ok c \<Longrightarrow> cache_full c \<Longrightarrow> TStreamCacheClip_isFinish c \<longleftrightarrow> cache_bytes c = []"
  using cache_full_length [of c] by (auto simp: cache_isFinish)

lemma cache_init:
  assumes "ok src" "pos \<le> pos_end" "pos_end \<le> streamSize src" "length buf < 2 ^ 64"
  shows "\<exists>c. TStreamCacheClip_init src pos pos_end buf (length buf) = Ok c \<and> cache_ok c \<and>
    cacheEnd c = length buf \<and> cache_bytes c = take (pos_end - pos) (avail src pos) \<and>
    cache_left c = pos_end - pos \<and> streamPos_end c = pos_end \<and>
    (cache_full c \<longleftrightarrow> pos_end - pos \<le> length (avail src pos)) \<and> srcStream c = src"
  using assms by (simp add: TStreamCacheClip_init_def cache_ok_def cache_bytes_def cache_left_def cache_full_def)

text \<open>Refilling the buffer changes nothing that a reader sees, and fills it as far as there are bytes.\<close>

lemma updateCache_rule:
  assumes c: "cache_ok c" and S: "S \<Longrightarrow> cache_full c"
    and Q: "\<And>c'. cache_reads c [] c' \<Longrightarrow>
      cacheEnd c' - cacheBegin c' = min (cacheEnd c) (cache_left c) \<Longrightarrow> Q c'"
  shows "hoare S (TStreamCacheClip_updateCache c) Q"
proof -
  let ?r = "min (cacheBegin c) (streamPos_end c - streamPos c)"
  let ?n = "cacheEnd c - cacheBegin c"
  from c have h: "ok (srcStream c)" "streamPos c \<le> streamPos_end c" "streamPos_end c \<le> streamSize (srcStream c)"
    "cacheBegin c \<le> cacheEnd c" "length (cacheBuf c) = cacheEnd c" "cacheEnd c < 2 ^ 64" "?n \<le> streamPos c"
    by (auto simp: cache_ok_def)
  have e: "streamPos_end c < 2 ^ 64" using size_law [OF h(1)] h(3) by simp
  note sz = cache_sizes [OF c]
  have r: "(if cacheBegin c > streamPos_end c - streamPos c then streamPos_end c - streamPos c else cacheBegin c) = ?r"
    by simp
  show ?thesis
  proof (cases "?r = 0")
    case True
    then have "TStreamCacheClip_updateCache c = Ok c"
      unfolding TStreamCacheClip_updateCache_def Let_def sz r by simp
    moreover have "?n = min (cacheEnd c) (cache_left c)" using True h by (auto simp: cache_left_def min_def split: if_splits)
    ultimately show ?thesis using Q [of c] c by simp
  next
    case False
    let ?old = "drop (cacheBegin c) (cacheBuf c)"
    define buf where "buf = (if ?n = 0 then cacheBuf c
        else take (cacheBegin c - ?r) (cacheBuf c) @ ?old @ drop (cacheEnd c - ?r) (cacheBuf c))"
    have buf: "(if \<not> TStreamCacheClip_isCacheEmpty c then
           rbind (mem_read (cacheBuf c) (cacheBegin c) ?n) (\<lambda>d.
             mem_write (cacheBuf c) (cacheBegin c - ?r) d)
         else Ok (cacheBuf c)) = Ok buf"
      using h by (auto simp: TStreamCacheClip_isCacheEmpty_def buf_def mem_read_def mem_write_def)
    have lb: "length buf = cacheEnd c" using h by (auto simp: buf_def)
    have old: "drop (cacheBegin c - ?r) (take (cacheEnd c - ?r) buf) = ?old"
      using h by (auto simp: buf_def drop_take min_def split: if_splits)
    have sub: "sub64 (cacheEnd c) ?r = cacheEnd c - ?r" by (rule sub64_eq) (use h in auto)
    have add: "add64 (streamPos c) ?r = streamPos c + ?r" by (rule add64_eq) (use h e in auto)
    have upd: "TStreamCacheClip_updateCache c = rbind (sread (srcStream c) (streamPos c) ?r) (\<lambda>(d, src).
        rbind (mem_write buf (cacheEnd c - ?r) d) (\<lambda>buf.
        Ok (c\<lparr>cacheBuf := buf, srcStream := src, cacheBegin := cacheBegin c - ?r,
              streamPos := streamPos c + ?r\<rparr>)))"
      unfolding TStreamCacheClip_updateCache_def Let_def sz r sub add buf
      by (simp only: False if_False rbind.simps)
    show ?thesis unfolding upd
    proof (rule hoare_bind [where P = "\<lambda>(d, src). ok src \<and> streamSize src = streamSize (srcStream c) \<and>
          ?r \<le> length (avail (srcStream c) (streamPos c)) \<and>
          d = take ?r (avail (srcStream c) (streamPos c)) \<and> length d = ?r \<and>
          avail src (streamPos c + ?r) = drop ?r (avail (srcStream c) (streamPos c))"], goal_cases)
      case 1
      show ?case by (rule sread_rule [OF h(1)]) (use h S in \<open>auto simp: cache_full_def\<close>)
    next
      case (2 x)
      then obtain d src where x: "x = (d, src)" and p: "ok src" "streamSize src = streamSize (srcStream c)"
        "?r \<le> length (avail (srcStream c) (streamPos c))" "d = take ?r (avail (srcStream c) (streamPos c))"
        "length d = ?r" "avail src (streamPos c + ?r) = drop ?r (avail (srcStream c) (streamPos c))"
        by (cases x) auto
      let ?buf = "take (cacheEnd c - ?r) buf @ d"
      have w: "mem_write buf (cacheEnd c - ?r) d = Ok ?buf"
        using lb p(5) h by (simp add: mem_write_def)
      let ?c = "c\<lparr>cacheBuf := ?buf, srcStream := src, cacheBegin := cacheBegin c - ?r, streamPos := streamPos c + ?r\<rparr>"
      have "cacheBegin c - ?r \<le> length (take (cacheEnd c - ?r) buf)" using lb h by simp
      then have "drop (cacheBegin c - ?r) ?buf = ?old @ d"
        by (simp only: drop_append old diff_is_0_eq' drop0)
      moreover have "take (streamPos_end c - (streamPos c + ?r)) (drop ?r (avail (srcStream c) (streamPos c)))
          = drop ?r (take (streamPos_end c - streamPos c) (avail (srcStream c) (streamPos c)))"
        by (simp add: drop_take)
      moreover have "take ?r (avail (srcStream c) (streamPos c))
          = take ?r (take (streamPos_end c - streamPos c) (avail (srcStream c) (streamPos c)))"
        by simp
      ultimately have "cache_bytes ?c = cache_bytes c"
        unfolding cache_bytes_def using p(4,6) by (simp del: take_take)
      moreover have "cache_ok ?c" using h p lb by (auto simp: cache_ok_def)
      moreover have "cache_full ?c = cache_full c" using p by (auto simp: cache_full_def)
      moreover have "cache_left ?c = cache_left c" using h by (auto simp: cache_left_def)
      ultimately have "cache_reads c [] ?c" using p(2) by (simp add: cache_reads_def)
      moreover have "cacheEnd ?c - cacheBegin ?c = min (cacheEnd c) (cache_left c)"
        using h by (auto simp: cache_left_def)
      ultimately have "Q ?c" by (rule Q)
      then show ?case by (simp add: x w)
    qed
  qed
qed

text \<open>A pointer to bytes that have not been taken yet.\<close>

lemma accessData_rule:
  assumes c: "cache_ok c" and S: "S \<Longrightarrow> cache_full c \<and> n \<le> length (cache_bytes c) \<and> n \<le> cacheEnd c"
    and Q: "\<And>d c'. cache_reads c [] c' \<Longrightarrow> d = take n (cache_bytes c) \<Longrightarrow> length d = n \<Longrightarrow>
      n \<le> cacheEnd c' - cacheBegin c' \<Longrightarrow> Q (d, c')"
  shows "hoare S (TStreamCacheClip_accessData c n) Q"
proof -
  have ready: "hoare S (rbind (mem_read (cacheBuf c') (cacheBegin c') n) (\<lambda>d. Ok (d, c'))) Q"
    if "cache_reads c [] c'" "n \<le> cacheEnd c' - cacheBegin c'" for c'
  proof -
    have "cacheBegin c' \<le> cacheEnd c'" "length (cacheBuf c') = cacheEnd c'"
      using that(1) by (auto simp: cache_reads_def cache_ok_def)
    then have "mem_read (cacheBuf c') (cacheBegin c') n = Ok (take n (cache_bytes c))"
      using that by (simp add: mem_read_def cache_reads_def cache_bytes_def)
    moreover have "length (take n (cache_bytes c)) = n"
      using that \<open>cacheBegin c' \<le> cacheEnd c'\<close> \<open>length (cacheBuf c') = cacheEnd c'\<close>
      by (simp add: cache_reads_def cache_bytes_def)
    ultimately show ?thesis using Q that by simp
  qed
  show ?thesis
  proof (cases "n > cacheEnd c - cacheBegin c")
    case False
    then show ?thesis using ready [of c] c by (simp add: TStreamCacheClip_accessData_def cache_sizes)
  next
    case True
    have "hoare S (rbind (TStreamCacheClip_updateCache c) (\<lambda>c'.
        rbind (check (\<not> n > TStreamCacheClip_cachedSize c')) (\<lambda>_. Ok c')))
      (\<lambda>c'. cache_reads c [] c' \<and> n \<le> cacheEnd c' - cacheBegin c')"
    proof (rule hoare_bind [where P = "\<lambda>c'. cache_reads c [] c' \<and>
          cacheEnd c' - cacheBegin c' = min (cacheEnd c) (cache_left c)"], goal_cases)
      case 1
      show ?case by (rule updateCache_rule [OF c]) (use S in auto)
    next
      case (2 c')
      then have "cache_ok c'" by (auto dest: cache_readsD)
      then show ?case
        using 2 S cache_bytes_length [OF c] by (auto simp: check_def cache_sizes)
    qed
    then show ?thesis
      using True c ready unfolding TStreamCacheClip_accessData_def
      by (auto simp: cache_sizes elim!: hoare_bind)
  qed
qed

lemma skip_reads:
  assumes "cache_ok c" "n \<le> cacheEnd c - cacheBegin c"
  shows "cache_reads c (take n (cache_bytes c)) (TStreamCacheClip_skipData_noCheck c n)"
proof -
  have "length (cacheBuf c) = cacheEnd c" "cacheBegin c \<le> cacheEnd c" using assms by (auto simp: cache_ok_def)
  then show ?thesis using assms
    by (auto simp: cache_reads_def cache_ok_def cache_bytes_def cache_left_def cache_full_def
        TStreamCacheClip_skipData_noCheck_def take_add_drop)
qed

lemma readData_rule:
  assumes c: "cache_ok c" and S: "S \<Longrightarrow> cache_full c \<and> n \<le> length (cache_bytes c) \<and> n \<le> cacheEnd c"
    and Q: "\<And>d c'. cache_reads c d c' \<Longrightarrow> length d = n \<Longrightarrow> Q (d, c')"
  shows "hoare S (TStreamCacheClip_readData c n) Q"
  unfolding TStreamCacheClip_readData_def
proof (rule hoare_bind [where P = "\<lambda>(d, c'). cache_reads c [] c' \<and> d = take n (cache_bytes c) \<and>
      length d = n \<and> n \<le> cacheEnd c' - cacheBegin c'"], goal_cases)
  case 1
  show ?case by (rule accessData_rule [OF c]) (use S in auto)
next
  case (2 x)
  then obtain c' where x: "x = (take n (cache_bytes c), c')" "cache_reads c [] c'" "n \<le> cacheEnd c' - cacheBegin c'"
    "length (take n (cache_bytes c)) = n" by (cases x) auto
  then have "cache_reads c' (take n (cache_bytes c')) (TStreamCacheClip_skipData_noCheck c' n)"
    by (intro skip_reads) (auto dest: cache_readsD)
  from cache_reads_trans [OF x(2) this] have "cache_reads c (take n (cache_bytes c)) (TStreamCacheClip_skipData_noCheck c' n)"
    using x(2) by (simp add: cache_reads_def)
  then show ?case using x Q by simp
qed

text \<open>\<open>_TStreamCacheClip_skipData\<close> takes exactly what it is asked to.\<close>

lemma skipData_rule:
  assumes "cache_ok c" "0 < cacheEnd c"
    and "S \<Longrightarrow> cache_full c \<and> n \<le> length (cache_bytes c)"
    and "\<And>d c'. cache_reads c d c' \<Longrightarrow> length d = n \<Longrightarrow> Q c'"
  shows "hoare S (TStreamCacheClip_skipData c n) Q"
  using assms
proof (induction n arbitrary: c Q rule: less_induct)
  case (less n)
  show ?case
  proof (cases "n = 0")
    case True
    then show ?thesis using less.prems(4) [of "[]" c] less.prems(1) by (simp add: TStreamCacheClip_skipData.simps)
  next
    case False
    let ?l = "min (cacheEnd c) n"
    have l: "(if cacheEnd c > n then n else cacheEnd c) = ?l" "0 < ?l" using False less.prems(2) by auto
    then have nz: "(?l = 0) = False" "(0 < n) = True" using False by auto
    have "TStreamCacheClip_skipData c n = rbind (TStreamCacheClip_readData c ?l)
        (\<lambda>(d, c). TStreamCacheClip_skipData c (n - ?l))"
      unfolding TStreamCacheClip_skipData.simps [of c n] Let_def l(1) TStreamCacheClip_readData_def
      by (simp only: nz rbind_assoc rbind.simps case_prod_unfold fst_conv snd_conv if_True if_False)
    moreover have "hoare S (rbind (TStreamCacheClip_readData c ?l) (\<lambda>(d, c). TStreamCacheClip_skipData c (n - ?l))) Q"
    proof (rule hoare_bind [where P = "\<lambda>(d, c'). cache_reads c d c' \<and> length d = ?l"], goal_cases)
      case 1
      show ?case by (rule readData_rule [OF less.prems(1)]) (use less.prems(3) in auto)
    next
      case (2 x)
      then obtain d c' where x: "x = (d, c')" "cache_reads c d c'" "length d = ?l" by (cases x) auto
      note r = cache_readsD [OF x(2)]
      have "hoare S (TStreamCacheClip_skipData c' (n - ?l)) Q"
      proof (rule less.IH)
        show "n - ?l < n" using l(2) False by simp
        show "0 < cacheEnd c'" using r less.prems(2) by simp
        show "cache_full c' \<and> n - ?l \<le> length (cache_bytes c')" if S using less.prems(3) [OF that] r x(3) by auto
        show "Q c''" if "cache_reads c' d' c''" "length d' = n - ?l" for d' c''
          by (rule less.prems(4) [OF cache_reads_trans [OF x(2) that(1)]]) (use x(3) that(2) in simp)
      qed (rule r(1))
      then show ?case by (simp add: x(1))
    qed
    ultimately show ?thesis by simp
  qed
qed

text \<open>A number read through the buffer is the number at the front of the bytes.\<close>

lemma unpack_rule:
  assumes c: "cache_ok c"
    and S: "S \<Longrightarrow> cache_full c \<and> 11 \<le> cacheEnd c \<and> unpack_by Streaming (cache_bytes c) t \<noteq> Fail"
    and Q: "\<And>v d c'. cache_reads c d c' \<Longrightarrow> unpack_by Streaming (cache_bytes c) t = Ok (v, cache_bytes c') \<Longrightarrow>
      v < 2 ^ 64 \<Longrightarrow> d \<noteq> [] \<Longrightarrow> hd (cache_bytes c) = hd d \<Longrightarrow> Q (v, c')"
  shows "hoare S (TStreamCacheClip_unpackUIntWithTag c t) Q"
proof -
  have k: "hpatch_kMaxPackedUIntBytes = 11" by (simp add: hpatch_kMaxPackedUIntBytes_def)
  let ?r = "min 11 (cache_left c)"
  have r: "(if hpatch_kMaxPackedUIntBytes > TStreamCacheClip_leaveSize c then TStreamCacheClip_leaveSize c
      else hpatch_kMaxPackedUIntBytes) = ?r" using cache_sizes [OF c] k by simp
  have "hoare S (rbind (TStreamCacheClip_accessData c ?r) (\<lambda>(codeBegin, c).
      rbind (hpatch_unpackUIntWithTag codeBegin t) (\<lambda>(result, curCode).
      Ok (result, TStreamCacheClip_skipData_noCheck c (length codeBegin - length curCode))))) Q"
  proof (rule hoare_bind [where P = "\<lambda>(d, c'). cache_reads c [] c' \<and> d = take ?r (cache_bytes c) \<and>
      length d = ?r \<and> ?r \<le> cacheEnd c' - cacheBegin c'"], goal_cases)
    case 1
    show ?case by (rule accessData_rule [OF c]) (use S cache_full_length [OF c] in auto)
  next
    case (2 x)
    then obtain d c' where x: "x = (d, c')" "cache_reads c [] c'" "d = take ?r (cache_bytes c)"
      "length d = ?r" "?r \<le> cacheEnd c' - cacheBegin c'" by (cases x) auto
    have t: "take 11 (cache_bytes c) = d"
      using x(3,4) cache_bytes_length [OF c] by (auto simp: min_def split: if_splits)
    have u: "unpack_by Streaming (cache_bytes c) t
        = rbind (hpatch_unpackUIntWithTag d t) (\<lambda>(v, r). Ok (v, r @ drop 11 (cache_bytes c)))"
      by (simp add: unpack_by_def k t)
    show ?case
    proof (cases "hpatch_unpackUIntWithTag d t")
      case Fail
      then show ?thesis using S u x(1) by auto
    next
      case Fault
      then show ?thesis by simp
    next
      case (Ok y)
      then obtain v q where y: "hpatch_unpackUIntWithTag d t = Ok (v, q)" by (cases y) auto
      from unpackUIntWithTag_Ok [OF this] obtain used where
        v: "v < 2 ^ 64" "length q < length d" "d = used @ q" by blast
      let ?n = "length d - length q"
      have n: "?n = length used" "used \<noteq> []" "?n \<le> cacheEnd c' - cacheBegin c'" using v x(4,5) by auto
      have bytes: "cache_bytes c' = used @ q @ drop 11 (cache_bytes c)"
        using x(2) t v(3) append_take_drop_id [of 11 "cache_bytes c"] by (simp add: cache_reads_def)
      have "cache_reads c' (take ?n (cache_bytes c')) (TStreamCacheClip_skipData_noCheck c' ?n)"
        by (rule skip_reads) (use x(2) n in \<open>auto dest: cache_readsD\<close>)
      then have 1: "cache_reads c used (TStreamCacheClip_skipData_noCheck c' ?n)"
        using cache_reads_trans [OF x(2)] bytes n(1) by auto
      then have 2: "cache_bytes (TStreamCacheClip_skipData_noCheck c' ?n) = q @ drop 11 (cache_bytes c)"
        using bytes x(2) by (simp add: cache_reads_def)
      have "hd (cache_bytes c') = hd used" unfolding bytes using n(2) by simp
      then have "hd (cache_bytes c) = hd used" using x(2) by (simp add: cache_reads_def)
      then have "Q (v, TStreamCacheClip_skipData_noCheck c' ?n)"
        by (intro Q [OF 1]) (use u y 2 v(1) n(2) in auto)
      then show ?thesis by (simp add: x(1) y)
    qed
  qed
  then show ?thesis unfolding TStreamCacheClip_unpackUIntWithTag_def Let_def r .
qed

text \<open>
  \<open>_TStreamCacheClip_readDataTo\<close>, for no more bytes than the clip counts.  (The path that
  reads straight from the stream does not check that; see \<open>readDataTo_past_end\<close>.)
\<close>

lemma readDataTo_cached:
  assumes c: "cache_ok c" and n: "n \<le> cacheEnd c - cacheBegin c"
  shows "\<exists>c'. TStreamCacheClip_readDataTo c n = Ok (take n (cache_bytes c), c') \<and>
    cache_reads c (take n (cache_bytes c)) c' \<and> length (take n (cache_bytes c)) = n"
proof -
  have l: "length (cacheBuf c) = cacheEnd c" "cacheBegin c \<le> cacheEnd c" using c by (auto simp: cache_ok_def)
  have "TStreamCacheClip_readDataTo c n = Ok (take n (cache_bytes c), TStreamCacheClip_skipData_noCheck c n)"
    using n l c by (simp add: TStreamCacheClip_readDataTo.simps [of c n] cache_sizes mem_read_def
        cache_bytes_def TStreamCacheClip_skipData_noCheck_def)
  moreover have "length (take n (cache_bytes c)) = n" using n l by (simp add: cache_bytes_def)
  ultimately show ?thesis using skip_reads [OF c n] by blast
qed

lemma readDataTo_rule:
  assumes c: "cache_ok c" and n: "n \<le> cache_left c"
    and S: "S \<Longrightarrow> cache_full c"
    and Q: "\<And>d c'. cache_reads c d c' \<Longrightarrow> length d = n \<Longrightarrow> Q (d, c')"
  shows "hoare S (TStreamCacheClip_readDataTo c n) Q"
proof (cases "n \<le> cacheEnd c - cacheBegin c")
  case True
  then show ?thesis using readDataTo_cached [OF c True] Q by auto
next
  case False
  let ?k = "cacheEnd c - cacheBegin c" let ?m = "n - ?k"
  let ?c1 = "c\<lparr>cacheBegin := cacheBegin c + ?k\<rparr>"
  have h: "length (cacheBuf c) = cacheEnd c" "cacheBegin c \<le> cacheEnd c" "ok (srcStream c)"
    "streamPos c \<le> streamPos_end c" "streamPos_end c \<le> streamSize (srcStream c)" using c by (auto simp: cache_ok_def)
  let ?d = "drop (cacheBegin c) (cacheBuf c)"
  have r1: "cache_reads c ?d ?c1" "length ?d = ?k"
    using skip_reads [OF c order_refl] h by (simp_all add: TStreamCacheClip_skipData_noCheck_def cache_bytes_def)
  note c1 = cache_readsD [OF r1(1)]
  have m: "?m \<le> cache_left ?c1" "?m \<noteq> 0" "cache_left ?c1 = streamPos_end c - streamPos c"
    using False n h by (auto simp: cache_left_def)
  have unf: "TStreamCacheClip_readDataTo c n =
     (if ?m < drop_bit 1 (cacheEnd c) then
          rbind (TStreamCacheClip_updateCache ?c1) (\<lambda>c.
          rbind (check (\<not> ?m > TStreamCacheClip_cachedSize c)) (\<lambda>_.
          rbind (TStreamCacheClip_readDataTo c ?m) (\<lambda>(d', c).
          Ok (?d @ d', c))))
        else
          rbind (sread (srcStream c) (streamPos c) ?m) (\<lambda>(d', src).
          Ok (?d @ d', ?c1\<lparr>srcStream := src, streamPos := add64 (streamPos c) ?m\<rparr>)))"
    using False h c by (simp add: TStreamCacheClip_readDataTo.simps [of c n] cache_sizes mem_read_def Let_def)
  show ?thesis
  proof (cases "?m < drop_bit 1 (cacheEnd c)")
    case True
    then have mc: "?m < cacheEnd c" by (simp add: drop_bit_eq_div)
    have "hoare S (rbind (TStreamCacheClip_updateCache ?c1) (\<lambda>c.
          rbind (check (\<not> ?m > TStreamCacheClip_cachedSize c)) (\<lambda>_.
          rbind (TStreamCacheClip_readDataTo c ?m) (\<lambda>(d', c).
          Ok (?d @ d', c))))) Q"
    proof (rule hoare_bind [where P = "\<lambda>c'. cache_reads ?c1 [] c' \<and>
          cacheEnd c' - cacheBegin c' = min (cacheEnd ?c1) (cache_left ?c1)"], goal_cases)
      case 1
      show ?case by (rule updateCache_rule [OF c1(1)]) (use S c1 in auto)
    next
      case (2 c2)
      note c2 = cache_readsD [OF 2(2) [THEN conjunct1]]
      have fits: "?m \<le> cacheEnd c2 - cacheBegin c2" using 2(2) m mc by simp
      from readDataTo_cached [OF c2(1) this] obtain d' c3 where
        r: "TStreamCacheClip_readDataTo c2 ?m = Ok (d', c3)" "cache_reads c2 d' c3" "length d' = ?m" by blast
      have "cache_reads c (?d @ d') c3"
        using cache_reads_trans [OF r1(1) cache_reads_trans [OF 2(2) [THEN conjunct1] r(2)]] by simp
      moreover have "length (?d @ d') = n" using r(3) r1(2) m(2) by simp
      ultimately show ?case using Q fits r(1) by (simp add: cache_sizes [OF c2(1)])
    qed
    then show ?thesis unfolding unf using True by simp
  next
    case big: False
    have e: "streamPos_end c < 2 ^ 64" using cache_sizes [OF c] by simp
    have fit: "streamPos c + ?m \<le> streamPos_end c" using m h by simp
    then have add: "add64 (streamPos c) ?m = streamPos c + ?m" using e by (simp add: add64_eq)
    have "hoare S (rbind (sread (srcStream c) (streamPos c) ?m) (\<lambda>(d', src).
          Ok (?d @ d', ?c1\<lparr>srcStream := src, streamPos := streamPos c + ?m\<rparr>))) Q"
    proof (rule hoare_bind [where P = "\<lambda>(d, src). ok src \<and> streamSize src = streamSize (srcStream c) \<and>
          ?m \<le> length (avail (srcStream c) (streamPos c)) \<and>
          d = take ?m (avail (srcStream c) (streamPos c)) \<and> length d = ?m \<and>
          avail src (streamPos c + ?m) = drop ?m (avail (srcStream c) (streamPos c))"], goal_cases)
      case 1
      show ?case by (rule sread_rule [OF h(3)]) (use fit h S m in \<open>auto simp: cache_full_def\<close>)
    next
      case (2 x)
      then obtain d' src where x: "x = (d', src)" and p: "ok src" "streamSize src = streamSize (srcStream c)"
        "?m \<le> length (avail (srcStream c) (streamPos c))" "d' = take ?m (avail (srcStream c) (streamPos c))"
        "length d' = ?m" "avail src (streamPos c + ?m) = drop ?m (avail (srcStream c) (streamPos c))"
        by (cases x) auto
      let ?c2 = "?c1\<lparr>srcStream := src, streamPos := streamPos c + ?m\<rparr>"
      have "take (streamPos_end c - streamPos c) (avail (srcStream c) (streamPos c))
        = d' @ take (streamPos_end c - (streamPos c + ?m)) (drop ?m (avail (srcStream c) (streamPos c)))"
        unfolding p(4) using fit
          append_take_drop_id [of ?m "take (streamPos_end c - streamPos c) (avail (srcStream c) (streamPos c))"]
        by (simp add: drop_take min_absorb1)
      then have "cache_bytes c = (?d @ d') @ cache_bytes ?c2"
        unfolding cache_bytes_def using p(6) h by simp
      moreover have "cache_ok ?c2" using c h p(1,2) fit by (auto simp: cache_ok_def)
      moreover have "cache_full ?c2 = cache_full c" unfolding cache_full_def using p(3,6) fit by (intro iffI; simp; linarith)
      moreover have "cache_left c = length (?d @ d') + cache_left ?c2"
        using h p(5) fit by (simp add: cache_left_def)
      ultimately have "cache_reads c (?d @ d') ?c2" using p(2) by (simp add: cache_reads_def)
      moreover have "length (?d @ d') = n" using p(5) r1(2) m(2) by simp
      ultimately have "Q (?d @ d', ?c2)" by (rule Q)
      then show ?case by (simp add: x)
    qed
    then show ?thesis unfolding unf using big add by simp
  qed
qed

lemma addDataTo_rule:
  assumes c: "cache_ok c" and dst: "n \<le> length dst"
    and S: "S \<Longrightarrow> cache_full c \<and> n \<le> length (cache_bytes c) \<and> n \<le> cacheEnd c"
    and Q: "\<And>d c'. cache_reads c d c' \<Longrightarrow> length d = n \<Longrightarrow> Q (bytes_add (take n dst) d @ drop n dst, c')"
  shows "hoare S (TStreamCacheClip_addDataTo c dst n) Q"
  unfolding TStreamCacheClip_addDataTo_def
proof (rule hoare_bind [where P = "\<lambda>(d, c'). cache_reads c d c' \<and> length d = n"], goal_cases)
  case 1
  show ?case by (rule readData_rule [OF c]) (use S in auto)
next
  case (2 x)
  then obtain d c' where x: "x = (d, c')" "cache_reads c d c'" "length d = n" by (cases x) auto
  then show ?case using Q dst by (auto simp: addData_def mem_read_def mem_write_def)
qed

text \<open>A string up to its end tag, if it ends within the buffer that is to take it.\<close>

lemma readStr_end_rule:
  assumes c: "cache_ok c"
    and S: "S \<Longrightarrow> cache_full c \<and> n \<le> cacheEnd c \<and> str_end_index (take n (cache_bytes c)) t \<noteq> None"
    and Q: "\<And>s c'. cache_reads c (s @ [t]) c' \<Longrightarrow> t \<notin> set s \<Longrightarrow> length s < n \<Longrightarrow> Q (s, c')"
  shows "hoare S (TStreamCacheClip_readStr_end c t n) Q"
proof -
  let ?r = "min n (cache_left c)"
  have r: "(if n > TStreamCacheClip_leaveSize c then TStreamCacheClip_leaveSize c else n) = ?r"
    using cache_sizes [OF c] by simp
  have "hoare S (rbind (TStreamCacheClip_accessData c ?r) (\<lambda>(type_begin, c).
      case str_end_index type_begin t of
        None \<Rightarrow> Fail
      | Some i \<Rightarrow>
          rbind (require (i + 1 \<le> n)) (\<lambda>_.
          Ok (take i type_begin, TStreamCacheClip_skipData_noCheck c (i + 1))))) Q"
  proof (rule hoare_bind [where P = "\<lambda>(d, c'). cache_reads c [] c' \<and> d = take ?r (cache_bytes c) \<and>
      length d = ?r \<and> ?r \<le> cacheEnd c' - cacheBegin c'"], goal_cases)
    case 1
    show ?case by (rule accessData_rule [OF c]) (use S cache_full_length [OF c] in auto)
  next
    case (2 x)
    then obtain d c' where x: "x = (d, c')" "cache_reads c [] c'" "d = take ?r (cache_bytes c)"
      "length d = ?r" "?r \<le> cacheEnd c' - cacheBegin c'" by (cases x) auto
    have d: "take n (cache_bytes c) = d"
      using x(3,4) cache_bytes_length [OF c] by (auto simp: min_def split: if_splits)
    show ?case
    proof (cases "str_end_index d t")
      case None
      then show ?thesis using S x(1) d by auto
    next
      case (Some i)
      note i = str_end_index_Some [OF Some]
      have le: "i + 1 \<le> cacheEnd c' - cacheBegin c'" "i + 1 \<le> n" using i x(4,5) by auto
      have "take (i + 1) (cache_bytes c') = take (i + 1) (cache_bytes c)" using x(2) by (simp add: cache_reads_def)
      also have "\<dots> = take (i + 1) (take n (cache_bytes c))" using le(2) by (simp add: min_absorb1)
      also have "\<dots> = take i d @ [t]" unfolding d using i by (simp add: take_Suc_conv_app_nth)
      finally have "cache_reads c (take i d @ [t]) (TStreamCacheClip_skipData_noCheck c' (i + 1))"
        using cache_reads_trans [OF x(2) skip_reads [OF _ le(1)]] x(2) by (auto dest: cache_readsD)
      then have "Q (take i d, TStreamCacheClip_skipData_noCheck c' (i + 1))"
        by (rule Q) (use i le x(4) in auto)
      then show ?thesis using Some le(2) by (simp add: x(1))
    qed
  qed
  then show ?thesis unfolding TStreamCacheClip_readStr_end_def Let_def r .
qed

end

section \<open>Properties\<close>

text \<open>C10: an integer read through a clip is the one that decoding the bytes of its range gives,
  whatever the range, the size of the buffer and what it held, and the bytes left are the
  ones after it; there is an error exactly when the decoding has one.\<close>

theorem unpack_any_buffer:
  assumes "length d < 2 ^ 64" "a \<le> b" "b \<le> length d" "11 \<le> length buf" "length buf < 2 ^ 64"
  shows "(case rbind (TStreamCacheClip_init (mem_as_hStreamInput d) a b buf (length buf))
              (\<lambda>c. TStreamCacheClip_unpackUIntWithTag c t) of
            Ok (v, c) \<Rightarrow> Ok (v, mem_in.cache_bytes c) | Fail \<Rightarrow> Fail | Fault \<Rightarrow> Fault)
       = unpack_by Streaming (take (b - a) (drop a d)) t"
proof -
  have ok: "mem_in_ok (mem_as_hStreamInput d)" using assms by simp
  have d: "streamImport (mem_as_hStreamInput d) = d" "streamSize (mem_as_hStreamInput d) = length d"
    by (simp_all add: mem_as_hStreamInput_def)
  obtain c where c: "TStreamCacheClip_init (mem_as_hStreamInput d) a b buf (length buf) = Ok c" "mem_in.cache_ok c"
    "cacheEnd c = length buf" "mem_in.cache_bytes c = take (b - a) (drop a d)" "mem_in.cache_full c"
    using mem_in.cache_init [OF ok, of a b buf] assms by (auto simp: d)
  let ?u = "unpack_by Streaming (take (b - a) (drop a d)) t"
  have "hoare (?u \<noteq> Fail) (TStreamCacheClip_unpackUIntWithTag c t) (\<lambda>(v, c'). ?u = Ok (v, mem_in.cache_bytes c'))"
    by (rule mem_in.unpack_rule [OF c(2)]) (use c assms in auto)
  then show ?thesis using c(1) unpack_by_no_Fault [of Streaming "take (b - a) (drop a d)" t]
    by (cases "TStreamCacheClip_unpackUIntWithTag c t"; cases ?u) auto
qed

theorem unpack_any_buffer_witness:
  "\<exists>c. rbind (TStreamCacheClip_init (mem_as_hStreamInput [9, 0x81, 5, 7]) 1 4 (replicate 12 0) 12)
         (\<lambda>c. TStreamCacheClip_unpackUIntWithTag c 0) = Ok (133, c) \<and> mem_in.cache_bytes c = [7]"
proof -
  have "hpatch_unpackUIntWithTag [0x81, 5, 7] 0 = Ok (133, [7])"
    by (simp add: hpatch_unpackUIntWithTag_def unpack_groups.simps)
  then have "unpack_by Streaming (take (4 - 1) (drop 1 [9, 0x81, 5, 7])) 0 = Ok (133, [7])"
    by (simp add: unpack_by_def hpatch_kMaxPackedUIntBytes_def)
  then show ?thesis
    using unpack_any_buffer [of "[9, 0x81, 5, 7]" 1 4 "replicate 12 0" 0]
    by (auto split: res.splits simp: numeral_3_eq_3 [symmetric])
qed

text \<open>C11: a read that goes beyond the end of the clip, over a stream in memory that has the bytes, succeeds when what
  is not cached takes half the buffer or more: whatever the clip and its cache (\<open>cache_ok\<close>), the bytes of the
  stream behind the clip are returned, and the position is then behind the end.\<close>

theorem readDataTo_past_end:
  assumes "mem_in.cache_ok c" "k = cacheEnd c - cacheBegin c" "cacheEnd c div 2 \<le> n"
    and "streamPos_end c < streamPos c + n" "streamPos c + n \<le> length (streamImport (srcStream c))"
  shows "\<exists>c'. TStreamCacheClip_readDataTo c (k + n) =
      Ok (drop (cacheBegin c) (cacheBuf c) @ take n (drop (streamPos c) (streamImport (srcStream c))), c') \<and>
    mem_in.cache_left c < k + n \<and> streamPos_end c' = streamPos_end c \<and> streamPos_end c' < streamPos c'"
proof -
  have h: "mem_in_ok (srcStream c)" "streamPos c \<le> streamPos_end c" "cacheBegin c \<le> cacheEnd c" "length (cacheBuf c) = cacheEnd c"
    using assms(1) by (simp_all add: mem_in.cache_ok_def)
  note st = mem_in_fields [OF h(1)]
  have n: "n \<noteq> 0" "streamPos c + n < 2 ^ 64" using assms(4,5) h(2) st by auto
  obtain src where "srcStream c = mem_as_hStreamInput src" "length src < 2 ^ 64" "streamImport (srcStream c) = src"
    using h(1) by (auto simp: mem_in_ok_def)
  then have "sread (srcStream c) (streamPos c) n = Ok (take n (drop (streamPos c) (streamImport (srcStream c))), srcStream c)"
    using assms(5) n(2) by (simp add: sread_def) (simp add: mem_as_hStreamInput_def read_mem_stream_eq)
  moreover have "add64 (streamPos c) n = streamPos c + n" using n(2) by (simp add: add64_eq)
  moreover have "\<not> k + n \<le> k" "cacheBegin c + k = cacheEnd c" "drop_bit 1 (cacheEnd c) = cacheEnd c div 2"
    using n(1) assms(2) h(3) by (simp_all add: drop_bit_eq_div)
  ultimately show ?thesis using assms(3,4) n(1) h unfolding TStreamCacheClip_readDataTo.simps [of c]
    by (simp add: mem_in.cache_sizes [OF assms(1)] assms(2) [symmetric] mem_read_def Let_def mem_in.cache_left_def)
qed

theorem readDataTo_past_end_witness:
  "\<exists>c c'. TStreamCacheClip_init (mem_as_hStreamInput [1, 2, 3, 4]) 0 2 [0, 0] 2 = Ok c \<and>
    TStreamCacheClip_readDataTo c (0 + 4) = Ok ([1, 2, 3, 4], c') \<and> streamPos_end c' < streamPos c'"
proof -
  let ?c = "\<lparr>streamPos = 0, streamPos_end = 2, srcStream = mem_as_hStreamInput [1, 2, 3, 4], cacheBuf = [0, 0], cacheBegin = 2, cacheEnd = 2\<rparr>"
  have s: "streamImport (mem_as_hStreamInput [1, 2, 3, 4]) = [1, 2, 3, 4]" "streamSize (mem_as_hStreamInput [1, 2, 3, 4]) = 4"
    by (simp_all add: mem_as_hStreamInput_def)
  have "mem_in.cache_ok ?c" by (simp add: mem_in.cache_ok_def s)
  from readDataTo_past_end [OF this, of 0 4] show ?thesis by (auto simp: s TStreamCacheClip_init_def)
qed

end
