(* ===== verification/OutCache.thy ===== *)
theory OutCache
  imports CacheClip
begin

text \<open>
  \<open>_TOutStreamCache\<close> of \<open>patch_private.h\<close> and \<open>patch.c\<close>: output that collects in a buffer
  and goes to the stream when the buffer is full.  Besides plain writes it fills, copies from
  another stream or a clip, and copies from what it has itself produced, which may overlap what
  is being produced.  A loop that would not end (a buffer of no bytes) is a fault.
\<close>

section \<open>The code\<close>

record 'o TOutStreamCache =
  writeToPos :: nat
  dstStream :: "'o hpatch_TStreamOutput"
  ocacheBuf :: "byte list"
  cacheCur :: nat
  ocacheEnd :: nat

definition TOutStreamCache_init ::
  "'o hpatch_TStreamOutput \<Rightarrow> byte list \<Rightarrow> nat \<Rightarrow> 'o TOutStreamCache" where
  "TOutStreamCache_init dst aCache aCacheSize =
     \<lparr>writeToPos = 0, dstStream = dst, ocacheBuf = aCache, cacheCur = 0, ocacheEnd = aCacheSize\<rparr>"

definition TOutStreamCache_resetCache ::
  "'o TOutStreamCache \<Rightarrow> byte list \<Rightarrow> nat \<Rightarrow> 'o TOutStreamCache res" where
  "TOutStreamCache_resetCache self aCache aCacheSize =
     rbind (require (0 = cacheCur self)) (\<lambda>_. Ok (self\<lparr>ocacheBuf := aCache, ocacheEnd := aCacheSize\<rparr>))"

definition TOutStreamCache_leaveSize :: "'o TOutStreamCache \<Rightarrow> nat" where
  "TOutStreamCache_leaveSize self = sub64 (ostreamSize (dstStream self)) (writeToPos self)"

definition TOutStreamCache_isFinish :: "'o TOutStreamCache \<Rightarrow> bool" where
  "TOutStreamCache_isFinish self = (writeToPos self = ostreamSize (dstStream self))"

definition TOutStreamCache_cachedDataSize :: "'o TOutStreamCache \<Rightarrow> nat" where
  "TOutStreamCache_cachedDataSize self = cacheCur self"

definition TOutStreamCache_writeStream :: "'o TOutStreamCache \<Rightarrow> byte list \<Rightarrow> 'o TOutStreamCache res" where
  "TOutStreamCache_writeStream self data =
     rbind (swrite (dstStream self) (writeToPos self) data) (\<lambda>dst.
     Ok (self\<lparr>dstStream := dst, writeToPos := add64 (writeToPos self) (length data)\<rparr>))"

definition TOutStreamCache_flush :: "'o TOutStreamCache \<Rightarrow> 'o TOutStreamCache res" where
  "TOutStreamCache_flush self =
     (let curSize = cacheCur self in
      if curSize > 0 then
        rbind (mem_read (ocacheBuf self) 0 curSize) (\<lambda>d.
        rbind (TOutStreamCache_writeStream self d) (\<lambda>self.
        Ok (self\<lparr>cacheCur := 0\<rparr>)))
      else Ok self)"

text \<open>One step of every loop below: bytes go to the buffer at \<open>cacheCur\<close>, and a full buffer is flushed.\<close>

definition TOutStreamCache_put :: "'o TOutStreamCache \<Rightarrow> byte list \<Rightarrow> 'o TOutStreamCache res" where
  "TOutStreamCache_put self d =
     rbind (mem_write (ocacheBuf self) (cacheCur self) d) (\<lambda>buf.
     let self = self\<lparr>ocacheBuf := buf, cacheCur := cacheCur self + length d\<rparr> in
     if cacheCur self = ocacheEnd self then TOutStreamCache_flush self else Ok self)"

text \<open>\<open>cacheEnd-cacheCur\<close>, the room in the buffer; a position past the buffer is a fault.\<close>

definition TOutStreamCache_room :: "'o TOutStreamCache \<Rightarrow> nat res" where
  "TOutStreamCache_room self =
     rbind (require (cacheCur self \<le> ocacheEnd self)) (\<lambda>_. Ok (ocacheEnd self - cacheCur self))"

lemma room_Ok:
  "TOutStreamCache_room s = Ok n \<Longrightarrow> n = ocacheEnd s - cacheCur s \<and> cacheCur s \<le> ocacheEnd s"
  by (auto simp: TOutStreamCache_room_def rbind_eq_Ok require_def split: if_splits)

lemma flush_cur: "TOutStreamCache_flush s = Ok s' \<Longrightarrow> cacheCur s' = 0 \<and> ocacheEnd s' = ocacheEnd s"
  by (auto simp: TOutStreamCache_flush_def TOutStreamCache_writeStream_def Let_def rbind_eq_Ok split: if_splits)

lemma put_cur:
  assumes "TOutStreamCache_put s d = Ok s'"
  shows "ocacheEnd s' = ocacheEnd s \<and> (cacheCur s' = ocacheEnd s \<longrightarrow> ocacheEnd s = 0)"
proof -
  from assms obtain buf where
    e: "(if cacheCur s + length d = ocacheEnd s
         then TOutStreamCache_flush (s\<lparr>ocacheBuf := buf, cacheCur := cacheCur s + length d\<rparr>)
         else Ok (s\<lparr>ocacheBuf := buf, cacheCur := cacheCur s + length d\<rparr>)) = Ok s'"
    by (auto simp: TOutStreamCache_put_def rbind_eq_Ok Let_def)
  show ?thesis
  proof (cases "cacheCur s + length d = ocacheEnd s")
    case True
    with e flush_cur show ?thesis by fastforce
  next
    case False
    with e have "s\<lparr>ocacheBuf := buf, cacheCur := cacheCur s + length d\<rparr> = s'" by simp
    with False show ?thesis by auto
  qed
qed

function TOutStreamCache_write :: "'o TOutStreamCache \<Rightarrow> byte list \<Rightarrow> 'o TOutStreamCache res" where
  "TOutStreamCache_write self data =
     (if length data > 0 then
        if length data \<ge> ocacheEnd self \<and> cacheCur self = 0 then TOutStreamCache_writeStream self data
        else
          rbind (TOutStreamCache_room self) (\<lambda>copyLen.
          let copyLen = (if copyLen \<le> length data then copyLen else length data) in
          rbind (TOutStreamCache_put self (take copyLen data)) (\<lambda>self.
          TOutStreamCache_write self (drop copyLen data)))
      else Ok self)"
  by pat_completeness auto
termination
  by (relation "measures [\<lambda>(s, d). length d, \<lambda>(s, d). if cacheCur s = ocacheEnd s then 1 else 0]")
    (auto dest!: put_cur room_Ok split: if_splits)

declare TOutStreamCache_write.simps [simp del]

function TOutStreamCache_fill :: "'o TOutStreamCache \<Rightarrow> byte \<Rightarrow> nat \<Rightarrow> 'o TOutStreamCache res" where
  "TOutStreamCache_fill self fillValue fillLength =
     (if fillLength > 0 then
        if ocacheEnd self = 0 then Fault
        else
          rbind (TOutStreamCache_room self) (\<lambda>runStep.
          let runStep = (if runStep \<le> fillLength then runStep else fillLength) in
          rbind (TOutStreamCache_put self (replicate runStep fillValue)) (\<lambda>self.
          TOutStreamCache_fill self fillValue (fillLength - runStep)))
      else Ok self)"
  by pat_completeness auto
termination
  by (relation "measures [\<lambda>(s, v, n). n, \<lambda>(s, v, n). if cacheCur s = ocacheEnd s then 1 else 0]")
    (auto dest!: put_cur room_Ok split: if_splits)

declare TOutStreamCache_fill.simps [simp del]

function TOutStreamCache_copyFromStream ::
  "'o TOutStreamCache \<Rightarrow> 's hpatch_TStreamInput \<Rightarrow> nat \<Rightarrow> nat \<Rightarrow>
   ('o TOutStreamCache \<times> 's hpatch_TStreamInput) res" where
  "TOutStreamCache_copyFromStream self src srcPos copyLength =
     (if copyLength > 0 then
        if ocacheEnd self = 0 then Fault
        else
          rbind (TOutStreamCache_room self) (\<lambda>runStep.
          let runStep = (if runStep \<le> copyLength then runStep else copyLength) in
          rbind (sread src srcPos runStep) (\<lambda>(d, src).
          rbind (TOutStreamCache_put self d) (\<lambda>self.
          TOutStreamCache_copyFromStream self src (add64 srcPos runStep) (copyLength - runStep))))
      else Ok (self, src))"
  by pat_completeness auto
termination
  by (relation "measures [\<lambda>(s, r, p, n). n, \<lambda>(s, r, p, n). if cacheCur s = ocacheEnd s then 1 else 0]")
    (auto dest!: put_cur room_Ok split: if_splits)

declare TOutStreamCache_copyFromStream.simps [simp del]

function TOutStreamCache_copyFromClip ::
  "'o TOutStreamCache \<Rightarrow> 's TStreamCacheClip \<Rightarrow> nat \<Rightarrow> ('o TOutStreamCache \<times> 's TStreamCacheClip) res" where
  "TOutStreamCache_copyFromClip self src copyLength =
     (if copyLength > 0 then
        let runStep = (if cacheEnd src \<le> copyLength then cacheEnd src else copyLength) in
        if runStep = 0 then Fault
        else
          rbind (TStreamCacheClip_readData src runStep) (\<lambda>(data, src).
          rbind (TOutStreamCache_write self data) (\<lambda>self.
          TOutStreamCache_copyFromClip self src (copyLength - runStep)))
      else Ok (self, src))"
  by pat_completeness auto
termination
  by (relation "measure (\<lambda>(s, c, n). n)") (auto split: if_splits)

declare TOutStreamCache_copyFromClip.simps [simp del]

text \<open>
  \<open>_TOutStreamCache_copyFromSelf\<close>: its loop at \<open>__copy_in_stream\<close> is that of
  \<open>_TOutStreamCache_copyFromStream\<close> with the output stream, cast to an input stream, as the
  source, so it reads the stream that it writes.
\<close>

function TOutStreamCache_copyInStream :: "'o TOutStreamCache \<Rightarrow> nat \<Rightarrow> nat \<Rightarrow> 'o TOutStreamCache res" where
  "TOutStreamCache_copyInStream self srcPos copyLength =
     (if copyLength > 0 then
        if ocacheEnd self = 0 then Fault
        else
          rbind (TOutStreamCache_room self) (\<lambda>runStep.
          let runStep = (if runStep \<le> copyLength then runStep else copyLength) in
          rbind (sread_writed (dstStream self) srcPos runStep) (\<lambda>(d, dst).
          rbind (TOutStreamCache_put (self\<lparr>dstStream := dst\<rparr>) d) (\<lambda>self.
          TOutStreamCache_copyInStream self (add64 srcPos runStep) (copyLength - runStep))))
      else Ok self)"
  by pat_completeness auto
termination
  by (relation "measures [\<lambda>(s, p, n). n, \<lambda>(s, p, n). if cacheCur s = ocacheEnd s then 1 else 0]")
    (auto dest!: put_cur room_Ok split: if_splits)

declare TOutStreamCache_copyInStream.simps [simp del]

text \<open>\<open>for (i=0;i<runLen;i++) dstBuf[i]=srcBuf[i];\<close> with \<open>srcBuf=dstBuf-aheadLength\<close>.\<close>

fun copy_ahead :: "byte list \<Rightarrow> nat \<Rightarrow> nat \<Rightarrow> nat \<Rightarrow> byte list res" where
  "copy_ahead buf dstPos aheadLength 0 = Ok buf"
| "copy_ahead buf dstPos aheadLength (Suc runLen) =
     (if aheadLength \<le> dstPos \<and> dstPos < length buf
      then copy_ahead (buf[dstPos := buf ! (dstPos - aheadLength)]) (Suc dstPos) aheadLength runLen
      else Fault)"

text \<open>\<open>__copy_in_mem\<close>, where \<open>aheadLength\<close> is at least 1.\<close>

function TOutStreamCache_copyInMem :: "'o TOutStreamCache \<Rightarrow> nat \<Rightarrow> nat \<Rightarrow> 'o TOutStreamCache res" where
  "TOutStreamCache_copyInMem self aheadLength copyLength =
     (if copyLength > 0 then
        if aheadLength = 0 then Fault
        else
          let runLen = (if add64 (cacheCur self) copyLength \<le> ocacheEnd self then copyLength
                        else ocacheEnd self - cacheCur self);
              copyLength' = copyLength - runLen in
          rbind (copy_ahead (ocacheBuf self) (cacheCur self) aheadLength runLen) (\<lambda>buf.
          let self = self\<lparr>ocacheBuf := buf, cacheCur := cacheCur self + runLen\<rparr> in
          if cacheCur self = ocacheEnd self then
            rbind (TOutStreamCache_flush self) (\<lambda>self.
            let runLen = (if aheadLength \<le> copyLength' then aheadLength else copyLength') in
            rbind (require (aheadLength \<le> ocacheEnd self)) (\<lambda>_.
            rbind (mem_read (ocacheBuf self) (ocacheEnd self - aheadLength) runLen) (\<lambda>d.
            rbind (mem_write (ocacheBuf self) 0 d) (\<lambda>buf.
            TOutStreamCache_copyInMem (self\<lparr>ocacheBuf := buf, cacheCur := runLen\<rparr>)
              aheadLength (copyLength' - runLen)))))
          else rbind (require (copyLength' = 0)) (\<lambda>_. Ok self))
      else Ok self)"
  by pat_completeness auto
termination
  by (relation "measure (\<lambda>(s, a, n). n)") (auto split: if_splits)

declare TOutStreamCache_copyInMem.simps [simp del]

text \<open>The loop for a period of exactly the buffer: the buffer is flushed again and again.\<close>

function TOutStreamCache_repeatCache :: "'o TOutStreamCache \<Rightarrow> nat \<Rightarrow> 'o TOutStreamCache res" where
  "TOutStreamCache_repeatCache self copyLength =
     rbind (if cacheCur self = ocacheEnd self then TOutStreamCache_flush self else Ok self) (\<lambda>self.
     if copyLength > 0 then
       let runLen = (if ocacheEnd self \<le> copyLength then ocacheEnd self else copyLength) in
       if runLen = 0 then Fault
       else TOutStreamCache_repeatCache (self\<lparr>cacheCur := runLen\<rparr>) (copyLength - runLen)
     else Ok self)"
  by pat_completeness auto
termination
  by (relation "measure (\<lambda>(s, n). n)") (auto split: if_splits)

declare TOutStreamCache_repeatCache.simps [simp del]

definition TOutStreamCache_copyFromSelf :: "'o TOutStreamCache \<Rightarrow> nat \<Rightarrow> nat \<Rightarrow> 'o TOutStreamCache res" where
  "TOutStreamCache_copyFromSelf self aheadLength copyLength =
     (let srcPos = sub64 (add64 (writeToPos self) (cacheCur self)) aheadLength in
      rbind (check (\<not> read_writed (dstStream self) = None)) (\<lambda>_.
      rbind (check (\<not> (aheadLength < 1 \<or> aheadLength > add64 (writeToPos self) (cacheCur self)))) (\<lambda>_.
      if add64 srcPos copyLength \<le> writeToPos self then TOutStreamCache_copyInStream self srcPos copyLength
      else if srcPos \<ge> writeToPos self then TOutStreamCache_copyInMem self aheadLength copyLength
      else if add64 (writeToPos self) (cacheCur self) \<le> add64 srcPos (ocacheEnd self) then
        (let runLen = sub64 (writeToPos self) srcPos in
         rbind (sread_writed (dstStream self) srcPos runLen) (\<lambda>(d, dst).
         rbind (mem_write (ocacheBuf self) (cacheCur self) d) (\<lambda>buf.
         let self = self\<lparr>dstStream := dst, ocacheBuf := buf, cacheCur := cacheCur self + runLen\<rparr>;
             copyLength = copyLength - runLen in
         if cacheCur self = ocacheEnd self then TOutStreamCache_repeatCache self copyLength
         else TOutStreamCache_copyInMem self aheadLength copyLength)))
      else TOutStreamCache_copyInStream self srcPos copyLength)))"

section \<open>The contract\<close>

text \<open>The copy that may overlap itself: each byte is the one \<open>ahead\<close> places before its own.\<close>

fun lz_copy :: "byte list \<Rightarrow> nat \<Rightarrow> nat \<Rightarrow> byte list" where
  "lz_copy hist ahead 0 = []"
| "lz_copy hist ahead (Suc n) =
     (let b = hist ! (length hist - ahead) in b # lz_copy (hist @ [b]) ahead n)"

lemma length_lz_copy [simp]: "length (lz_copy hist ahead n) = n"
  by (induction n arbitrary: hist) (auto simp: Let_def)

lemma lz_copy_add: "lz_copy hist ahead (m + n) = lz_copy hist ahead m @ lz_copy (hist @ lz_copy hist ahead m) ahead n"
  by (induction m arbitrary: hist) (auto simp: Let_def)

text \<open>Where it does not overlap it is a plain copy.\<close>

lemma lz_copy_plain:
  "n \<le> ahead \<Longrightarrow> ahead \<le> length hist \<Longrightarrow> lz_copy hist ahead n = take n (drop (length hist - ahead) hist)"
proof (induction n arbitrary: hist)
  case (Suc n)
  let ?b = "hist ! (length hist - ahead)"
  have less: "length hist - ahead < length hist" using Suc.prems by simp
  have "lz_copy (hist @ [?b]) ahead n = take n (drop (Suc (length hist) - ahead) (hist @ [?b]))"
    using Suc.IH [of "hist @ [?b]"] Suc.prems by simp
  also have "\<dots> = take n (drop (Suc (length hist - ahead)) hist)"
    using Suc.prems by (simp add: Suc_diff_le)
  finally show ?case
    using less by (simp add: Let_def take_Suc drop_Suc nth_drop hd_drop_conv_nth tl_drop)
qed simp

text \<open>Only the last \<open>ahead\<close> bytes of the history matter.\<close>

lemma lz_copy_suffix:
  "ahead \<le> length h \<Longrightarrow> 0 < ahead \<Longrightarrow> lz_copy (pre @ h) ahead n = lz_copy h ahead n"
proof (induction n arbitrary: h)
  case (Suc n)
  have b: "(pre @ h) ! (length (pre @ h) - ahead) = h ! (length h - ahead)"
    using Suc.prems nth_append_length_plus [of pre h "length h - ahead"] by simp
  show ?case unfolding lz_copy.simps Let_def b
    using Suc.IH [of "h @ [h ! (length h - ahead)]"] Suc.prems by simp
qed simp

lemma lz_copy_last:
  "ahead \<le> length h \<Longrightarrow> 0 < ahead \<Longrightarrow> lz_copy h ahead n = lz_copy (drop (length h - ahead) h) ahead n"
  using lz_copy_suffix [of ahead "drop (length h - ahead) h" "take (length h - ahead) h" n] by simp

context output_stream begin

text \<open>All that has been produced, whether it is on the stream or still in the buffer.\<close>

definition out_bytes :: "'o TOutStreamCache \<Rightarrow> byte list" where
  "out_bytes o' = written (dstStream o') (writeToPos o') @ take (cacheCur o') (ocacheBuf o')"

definition out_ok :: "'o TOutStreamCache \<Rightarrow> bool" where
  "out_ok s \<longleftrightarrow>
     ook (dstStream s) \<and> writeToPos s \<le> ostreamSize (dstStream s) \<and>
     cacheCur s < ocacheEnd s \<and> length (ocacheBuf s) = ocacheEnd s \<and> ocacheEnd s < 2 ^ 63"

text \<open>\<open>out_ok\<close> but for a buffer that may be full.\<close>

definition out_ok_full :: "'o TOutStreamCache \<Rightarrow> bool" where
  "out_ok_full s \<longleftrightarrow>
     ook (dstStream s) \<and> writeToPos s \<le> ostreamSize (dstStream s) \<and>
     cacheCur s \<le> ocacheEnd s \<and> 0 < ocacheEnd s \<and> length (ocacheBuf s) = ocacheEnd s \<and> ocacheEnd s < 2 ^ 63"

definition out_size :: "'o TOutStreamCache \<Rightarrow> nat" where
  "out_size s = ostreamSize (dstStream s)"

definition out_appends :: "'o TOutStreamCache \<Rightarrow> byte list \<Rightarrow> 'o TOutStreamCache \<Rightarrow> bool" where
  "out_appends s d s' \<longleftrightarrow>
     out_ok s' \<and> out_bytes s' = out_bytes s @ d \<and> out_size s' = out_size s \<and>
     ocacheEnd s' = ocacheEnd s \<and> read_writed (dstStream s') = read_writed (dstStream s)"

lemma out_appendsD:
  assumes "out_appends s d s'"
  shows "out_ok s'" "out_bytes s' = out_bytes s @ d" "out_size s' = out_size s" "ocacheEnd s' = ocacheEnd s"
    "read_writed (dstStream s') = read_writed (dstStream s)"
  using assms by (simp_all add: out_appends_def)

lemma out_appends_refl [simp]: "out_ok s \<Longrightarrow> out_appends s [] s"
  by (simp add: out_appends_def)

lemma out_appends_trans: "out_appends s d s' \<Longrightarrow> out_appends s' d' s'' \<Longrightarrow> out_appends s (d @ d') s''"
  by (simp add: out_appends_def)

lemma out_ok_full: "out_ok s \<Longrightarrow> out_ok_full s"
  by (auto simp: out_ok_def out_ok_full_def)

lemma out_bytes_length: "out_ok_full s \<Longrightarrow> length (out_bytes s) = writeToPos s + cacheCur s"
  using written_length by (simp add: out_bytes_def out_ok_full_def)

lemma out_size_less: "out_ok_full s \<Longrightarrow> out_size s < 2 ^ 63 \<and> writeToPos s \<le> out_size s"
  using osize_law by (simp add: out_ok_full_def out_size_def)

lemma out_init:
  assumes "ook dst" "0 < length buf" "length buf < 2 ^ 63"
  shows "out_ok (TOutStreamCache_init dst buf (length buf))"
    "out_bytes (TOutStreamCache_init dst buf (length buf)) = []"
    "out_size (TOutStreamCache_init dst buf (length buf)) = ostreamSize dst"
  using assms written_length [OF assms(1), of 0]
  by (simp_all add: TOutStreamCache_init_def out_ok_def out_bytes_def out_size_def)

lemma writeStream_rule:
  assumes s: "out_ok_full s" "cacheCur s = 0 \<or> d = take (cacheCur s) (ocacheBuf s)"
    and d: "length d < 2 ^ 63"
    and S: "S \<Longrightarrow> writeToPos s + length d \<le> out_size s"
    and Q: "\<And>s'. s' = s\<lparr>dstStream := dstStream s', writeToPos := writeToPos s + length d\<rparr> \<Longrightarrow>
      out_ok_full s' \<Longrightarrow> written (dstStream s') (writeToPos s') = written (dstStream s) (writeToPos s) @ d \<Longrightarrow>
      out_size s' = out_size s \<Longrightarrow> read_writed (dstStream s') = read_writed (dstStream s) \<Longrightarrow> Q s'"
  shows "hoare S (TOutStreamCache_writeStream s d) Q"
  unfolding TOutStreamCache_writeStream_def
proof (rule hoare_bind [where P = "\<lambda>dst. ook dst \<and> ostreamSize dst = out_size s \<and>
      read_writed dst = read_writed (dstStream s) \<and> writeToPos s + length d \<le> out_size s \<and>
      written dst (writeToPos s + length d) = written (dstStream s) (writeToPos s) @ d"], goal_cases)
  case 1
  show ?case
    by (rule swrite_rule) (use s d S out_size_less [OF s(1)] in \<open>auto simp: out_ok_full_def out_size_def\<close>)
next
  case (2 dst)
  have "add64 (writeToPos s) (length d) = writeToPos s + length d"
    using out_size_less [OF s(1)] d by (simp add: add64_eq)
  then show ?case
    using 2 s(1) by (auto simp: out_ok_full_def out_size_def intro!: Q)
qed

lemma flush_rule:
  assumes s: "out_ok_full s" and S: "S \<Longrightarrow> length (out_bytes s) \<le> out_size s"
    and Q: "\<And>s'. out_appends s [] s' \<Longrightarrow> cacheCur s' = 0 \<Longrightarrow> ocacheBuf s' = ocacheBuf s \<Longrightarrow>
      length (out_bytes s') \<le> out_size s' \<Longrightarrow> writeToPos s' = length (out_bytes s) \<Longrightarrow> Q s'"
  shows "hoare S (TOutStreamCache_flush s) Q"
proof (cases "cacheCur s = 0")
  case True
  then have "out_ok s" using s by (simp add: out_ok_def out_ok_full_def)
  moreover have "length (out_bytes s) \<le> out_size s"
    using out_bytes_length [OF s] out_size_less [OF s] True by simp
  ultimately show ?thesis using True out_bytes_length [OF s] by (auto simp: TOutStreamCache_flush_def intro!: Q)
next
  case False
  let ?d = "take (cacheCur s) (ocacheBuf s)"
  have l: "length ?d = cacheCur s" "mem_read (ocacheBuf s) 0 (cacheCur s) = Ok ?d"
    using s by (simp_all add: out_ok_full_def mem_read_def)
  have "hoare S (rbind (TOutStreamCache_writeStream s ?d) (\<lambda>s. Ok (s\<lparr>cacheCur := 0\<rparr>))) Q"
  proof (rule hoare_bind [where P = "\<lambda>s'. s' = s\<lparr>dstStream := dstStream s', writeToPos := writeToPos s + length ?d\<rparr> \<and>
      out_ok_full s' \<and> written (dstStream s') (writeToPos s') = out_bytes s \<and>
      out_size s' = out_size s \<and> read_writed (dstStream s') = read_writed (dstStream s)"], goal_cases)
    case 1
    show ?case
      by (rule writeStream_rule [OF s])
        (use s l S out_bytes_length [OF s] in \<open>auto simp: out_bytes_def out_ok_full_def\<close>)
  next
    case (2 s')
    let ?s = "s'\<lparr>cacheCur := 0\<rparr>"
    obtain p where s': "s' = s\<lparr>dstStream := dstStream s', writeToPos := writeToPos s + length ?d\<rparr>"
      "out_ok_full s'" "written (dstStream s') (writeToPos s') = out_bytes s" "out_size s' = out_size s"
      "read_writed (dstStream s') = read_writed (dstStream s)" using 2 by blast
    have f: "ocacheBuf s' = ocacheBuf s" "ocacheEnd s' = ocacheEnd s" "writeToPos s' = length (out_bytes s)"
      using l(1) out_bytes_length [OF s] by (subst s'(1), simp)+
    have "out_appends s [] ?s"
      using s'(2-5) f by (auto simp: out_appends_def out_ok_def out_ok_full_def out_bytes_def out_size_def)
    moreover from this have "length (out_bytes ?s) \<le> out_size ?s"
      using s'(2) f(3) by (auto simp: out_appends_def out_size_def out_ok_full_def)
    ultimately have "Q ?s" using f by (intro Q) simp_all
    then show ?case by simp
  qed
  then show ?thesis using False l(2) by (simp add: TOutStreamCache_flush_def)
qed

lemma put_rule:
  assumes s: "out_ok s" and d: "cacheCur s + length d \<le> ocacheEnd s"
    and S: "S \<Longrightarrow> length (out_bytes s) + length d \<le> out_size s"
    and Q: "\<And>s'. out_appends s d s' \<Longrightarrow>
      cacheCur s' = (if cacheCur s + length d = ocacheEnd s then 0 else cacheCur s + length d) \<Longrightarrow> Q s'"
  shows "hoare S (TOutStreamCache_put s d) Q"
proof -
  let ?buf = "take (cacheCur s) (ocacheBuf s) @ d @ drop (cacheCur s + length d) (ocacheBuf s)"
  let ?s = "s\<lparr>ocacheBuf := ?buf, cacheCur := cacheCur s + length d\<rparr>"
  have w: "mem_write (ocacheBuf s) (cacheCur s) d = Ok ?buf" using s d by (simp add: mem_write_def out_ok_def)
  have full: "out_ok_full ?s" using s d by (auto simp: out_ok_def out_ok_full_def)
  have bytes: "out_bytes ?s = out_bytes s @ d" using s d by (simp add: out_bytes_def out_ok_def)
  have same: "out_size ?s = out_size s" by (simp add: out_size_def)
  show ?thesis
  proof (cases "cacheCur s + length d = ocacheEnd s")
    case False
    then have "out_ok ?s" using full by (auto simp: out_ok_def out_ok_full_def)
    then have "out_appends s d ?s" using bytes same by (simp add: out_appends_def)
    then show ?thesis using Q w False by (simp add: TOutStreamCache_put_def)
  next
    case True
    have "hoare S (TOutStreamCache_flush ?s) Q"
    proof (rule flush_rule [OF full])
      show "length (out_bytes ?s) \<le> out_size ?s" if S using S [OF that] bytes same by simp
      show "Q s'" if "out_appends ?s [] s'" "cacheCur s' = 0" for s'
        by (rule Q) (use that True bytes same in \<open>simp_all add: out_appends_def\<close>)
    qed
    then show ?thesis using w True by (simp add: TOutStreamCache_put_def Let_def)
  qed
qed

lemma room_eq: "out_ok s \<Longrightarrow> TOutStreamCache_room s = Ok (ocacheEnd s - cacheCur s)"
  by (simp add: TOutStreamCache_room_def out_ok_def)

lemma write_rule:
  assumes "out_ok s" "length d < 2 ^ 63"
    and "S \<Longrightarrow> length (out_bytes s) + length d \<le> out_size s"
    and "\<And>s'. out_appends s d s' \<Longrightarrow> Q s'"
  shows "hoare S (TOutStreamCache_write s d) Q"
  using assms
proof (induction "length d" arbitrary: d s Q rule: less_induct)
  case less
  note s = less.prems(1)
  show ?case
  proof (cases "d = []")
    case True
    then show ?thesis using less.prems(1,4) unfolding TOutStreamCache_write.simps [of s d] by simp
  next
    case ne: False
    show ?thesis
    proof (cases "length d \<ge> ocacheEnd s \<and> cacheCur s = 0")
      case True
      have "hoare S (TOutStreamCache_writeStream s d) Q"
      proof (rule writeStream_rule [OF out_ok_full [OF s]])
        show "writeToPos s + length d \<le> out_size s" if S
          using less.prems(3) [OF that] out_bytes_length [OF out_ok_full [OF s]] True by simp
        fix s'
        assume s': "s' = s\<lparr>dstStream := dstStream s', writeToPos := writeToPos s + length d\<rparr>"
          "out_ok_full s'" "written (dstStream s') (writeToPos s') = written (dstStream s) (writeToPos s) @ d"
          "out_size s' = out_size s" "read_writed (dstStream s') = read_writed (dstStream s)"
        have f: "cacheCur s' = 0" "ocacheEnd s' = ocacheEnd s" using True by (subst s'(1), simp)+
        have "out_appends s d s'"
          using s'(2-5) f True s by (auto simp: out_appends_def out_ok_def out_ok_full_def out_bytes_def)
        then show "Q s'" by (rule less.prems(4))
      qed (use True less.prems in auto)
      then show ?thesis using True ne by (simp add: TOutStreamCache_write.simps [of s d])
    next
      case False
      let ?n = "min (ocacheEnd s - cacheCur s) (length d)"
      have n: "0 < ?n" "cacheCur s + ?n \<le> ocacheEnd s" using s ne by (auto simp: out_ok_def)
      have m: "(if ocacheEnd s - cacheCur s \<le> length d then ocacheEnd s - cacheCur s else length d) = ?n"
        by simp
      have "hoare S (rbind (TOutStreamCache_put s (take ?n d)) (\<lambda>s. TOutStreamCache_write s (drop ?n d))) Q"
      proof (rule hoare_bind [where P = "out_appends s (take ?n d)"], goal_cases)
        case 1
        show ?case by (rule put_rule [OF s]) (use n(2) less.prems(3) in auto)
      next
        case (2 s')
        note a = out_appendsD [OF 2(2)]
        show ?case
        proof (rule less.hyps)
          show "length (drop ?n d) < length d" using n(1) ne by simp
          show "length (out_bytes s') + length (drop ?n d) \<le> out_size s'" if S
            using less.prems(3) [OF that] a by simp
          show "Q s''" if "out_appends s' (drop ?n d) s''" for s''
            using less.prems(4) out_appends_trans [OF 2(2) that] by simp
        qed (use a less.prems(2) in auto)
      qed
      moreover have "(0 < length d) = True" using ne by simp
      ultimately show ?thesis
        unfolding TOutStreamCache_write.simps [of s d] room_eq [OF s] rbind.simps Let_def m
        by (simp only: False if_False if_True)
    qed
  qed
qed

lemma fill_rule:
  assumes "out_ok s"
    and "S \<Longrightarrow> length (out_bytes s) + n \<le> out_size s"
    and "\<And>s'. out_appends s (replicate n v) s' \<Longrightarrow> Q s'"
  shows "hoare S (TOutStreamCache_fill s v n) Q"
  using assms
proof (induction n arbitrary: s Q rule: less_induct)
  case (less n)
  note s = less.prems(1)
  show ?case
  proof (cases "n = 0")
    case True
    then show ?thesis using less.prems unfolding TOutStreamCache_fill.simps [of s v n] by simp
  next
    case False
    let ?m = "min (ocacheEnd s - cacheCur s) n"
    have m: "0 < ?m" "cacheCur s + ?m \<le> ocacheEnd s" "ocacheEnd s \<noteq> 0" using s False by (auto simp: out_ok_def)
    have e: "(if ocacheEnd s - cacheCur s \<le> n then ocacheEnd s - cacheCur s else n) = ?m" by simp
    have rep: "replicate n v = replicate ?m v @ replicate (n - ?m) v" by (simp flip: replicate_add)
    have "hoare S (rbind (TOutStreamCache_put s (replicate ?m v)) (\<lambda>s. TOutStreamCache_fill s v (n - ?m))) Q"
    proof (rule hoare_bind [where P = "out_appends s (replicate ?m v)"], goal_cases)
      case 1
      show ?case by (rule put_rule [OF s]) (use m(2) less.prems(2) in auto)
    next
      case (2 s')
      note a = out_appendsD [OF 2(2)]
      show ?case
      proof (rule less.IH)
        show "n - ?m < n" using m(1) False by linarith
        show "length (out_bytes s') + (n - ?m) \<le> out_size s'" if S using less.prems(2) [OF that] a by simp
        show "Q s''" if "out_appends s' (replicate (n - ?m) v) s''" for s''
          by (rule less.prems(3)) (use out_appends_trans [OF 2(2) that] rep in simp)
      qed (rule a(1))
    qed
    moreover have "(0 < n) = True" using False by simp
    ultimately show ?thesis
      unfolding TOutStreamCache_fill.simps [of s v n] room_eq [OF s] rbind.simps Let_def e
      by (simp only: m(3) if_False if_True)
  qed
qed

text \<open>Copying from a clip is taking from the clip and appending.\<close>

lemma copyFromClip_rule:
  fixes cok :: "'s hpatch_TStreamInput \<Rightarrow> bool"
  assumes "input_stream cok cavail"
  assumes "out_ok s" "input_stream.cache_ok cok c" "0 < cacheEnd c" "cacheEnd c < 2 ^ 63"
    and "S \<Longrightarrow> length (out_bytes s) + n \<le> out_size s \<and> input_stream.cache_full cavail c \<and>
           n \<le> length (input_stream.cache_bytes cavail c)"
    and "\<And>d s' c'. input_stream.cache_reads cok cavail c d c' \<Longrightarrow> length d = n \<Longrightarrow> out_appends s d s' \<Longrightarrow>
           Q (s', c')"
  shows "hoare S (TOutStreamCache_copyFromClip s c n) Q"
  using assms(2-)
proof (induction n arbitrary: s c Q rule: less_induct)
  case (less n)
  note istr = assms(1)
  note s = less.prems(1) and c = less.prems(2)
  show ?case
  proof (cases "n = 0")
    case True
    then show ?thesis
      using less.prems(6) [of "[]" c s] s input_stream.cache_reads_refl [OF istr c]
      unfolding TOutStreamCache_copyFromClip.simps [of s c n] by simp
  next
    case False
    let ?m = "min (cacheEnd c) n"
    have m: "0 < ?m" "?m \<noteq> 0" using less.prems(3) False by auto
    have e: "(if cacheEnd c \<le> n then cacheEnd c else n) = ?m" by simp
    have "hoare S (rbind (TStreamCacheClip_readData c ?m) (\<lambda>(data, c).
        rbind (TOutStreamCache_write s data) (\<lambda>s. TOutStreamCache_copyFromClip s c (n - ?m)))) Q"
    proof (rule hoare_bind [where P = "\<lambda>(d, c'). input_stream.cache_reads cok cavail c d c' \<and> length d = ?m"], goal_cases)
      case 1
      show ?case by (rule input_stream.readData_rule [OF istr c]) (use less.prems(5) in auto)
    next
      case (2 x)
      then obtain d c' where x: "x = (d, c')" "input_stream.cache_reads cok cavail c d c'" "length d = ?m"
        by (cases x) auto
      note r = input_stream.cache_readsD [OF istr x(2)]
      have "hoare S (rbind (TOutStreamCache_write s d) (\<lambda>s. TOutStreamCache_copyFromClip s c' (n - ?m))) Q"
      proof (rule hoare_bind [where P = "out_appends s d"], goal_cases)
        case 1
        show ?case by (rule write_rule [OF s]) (use x(3) less.prems(4,5) in auto)
      next
        case (2 s')
        note a = out_appendsD [OF 2(2)]
        show ?case
        proof (rule less.IH)
          show "n - ?m < n" using m(1) False by linarith
          show "length (out_bytes s') + (n - ?m) \<le> out_size s' \<and> input_stream.cache_full cavail c' \<and>
             n - ?m \<le> length (input_stream.cache_bytes cavail c')" if S
            using less.prems(5) [OF that] a r x(3) by auto
          show "Q (s'', c'')" if "input_stream.cache_reads cok cavail c' d' c''" "length d' = n - ?m"
            "out_appends s' d' s''" for d' s'' c''
          proof (rule less.prems(6))
            show "input_stream.cache_reads cok cavail c (d @ d') c''"
              by (rule input_stream.cache_reads_trans [OF istr x(2) that(1)])
            show "length (d @ d') = n" using x(3) that(2) by simp
            show "out_appends s (d @ d') s''" by (rule out_appends_trans [OF 2(2) that(3)])
          qed
        qed (use a r less.prems in auto)
      qed
      then show ?case by (simp add: x(1))
    qed
    moreover have "(0 < n) = True" using False by simp
    ultimately show ?thesis
      unfolding TOutStreamCache_copyFromClip.simps [of s c n] Let_def e
      by (simp only: m(2) if_False if_True)
  qed
qed

lemma copyFromStream_rule:
  fixes rok :: "'s hpatch_TStreamInput \<Rightarrow> bool"
  assumes "random_stream rok cont"
  assumes "out_ok s" "rok src" "pos + n < 2 ^ 64"
    and "S \<Longrightarrow> length (out_bytes s) + n \<le> out_size s \<and> pos + n \<le> length (cont src)"
    and "\<And>s' src'. rok src' \<Longrightarrow> cont src' = cont src \<Longrightarrow> n = 0 \<or> pos + n \<le> length (cont src) \<Longrightarrow>
      out_appends s (take n (drop pos (cont src))) s' \<Longrightarrow> Q (s', src')"
  shows "hoare S (TOutStreamCache_copyFromStream s src pos n) Q"
  using assms(2-)
proof (induction n arbitrary: s src pos Q rule: less_induct)
  case (less n)
  note istr = assms(1)
  note s = less.prems(1) and src = less.prems(2)
  show ?case
  proof (cases "n = 0")
    case True
    then show ?thesis using less.prems(5) [of src s] s src
      unfolding TOutStreamCache_copyFromStream.simps [of s src pos n] by simp
  next
    case False
    let ?m = "min (ocacheEnd s - cacheCur s) n"
    have m: "0 < ?m" "cacheCur s + ?m \<le> ocacheEnd s" "ocacheEnd s \<noteq> 0" using s False by (auto simp: out_ok_def)
    have e: "(if ocacheEnd s - cacheCur s \<le> n then ocacheEnd s - cacheCur s else n) = ?m" by simp
    have add: "add64 pos ?m = pos + ?m" using less.prems(3) by (simp add: add64_eq)
    have "hoare S (rbind (sread src pos ?m) (\<lambda>(d, src).
        rbind (TOutStreamCache_put s d) (\<lambda>s. TOutStreamCache_copyFromStream s src (pos + ?m) (n - ?m)))) Q"
    proof (rule hoare_bind [where P = "\<lambda>(d, src'). d = take ?m (drop pos (cont src)) \<and> length d = ?m \<and>
          pos + ?m \<le> length (cont src) \<and> rok src' \<and> cont src' = cont src"], goal_cases)
      case 1
      show ?case by (rule random_stream.random_rule [OF istr src]) (use less.prems(3,4) in auto)
    next
      case (2 x)
      then obtain d src' where x: "x = (d, src')" "d = take ?m (drop pos (cont src))" "length d = ?m"
        "pos + ?m \<le> length (cont src)" "rok src'" "cont src' = cont src" by (cases x) auto
      have "hoare S (rbind (TOutStreamCache_put s d)
          (\<lambda>s. TOutStreamCache_copyFromStream s src' (pos + ?m) (n - ?m))) Q"
      proof (rule hoare_bind [where P = "out_appends s d"], goal_cases)
        case 1
        show ?case by (rule put_rule [OF s]) (use x(3) m(2) less.prems(4) in auto)
      next
        case (2 s')
        note a = out_appendsD [OF 2(2)]
        show ?case
        proof (rule less.IH)
          show "n - ?m < n" using m(1) False by linarith
          show "pos + ?m + (n - ?m) < 2 ^ 64" using less.prems(3) by simp
          show "length (out_bytes s') + (n - ?m) \<le> out_size s' \<and> pos + ?m + (n - ?m) \<le> length (cont src')" if S
            using less.prems(4) [OF that] a x(3,6) by auto
          show "Q (s'', src'')" if "rok src''" "cont src'' = cont src'"
            "n - ?m = 0 \<or> pos + ?m + (n - ?m) \<le> length (cont src')"
            "out_appends s' (take (n - ?m) (drop (pos + ?m) (cont src'))) s''" for s'' src''
          proof (rule less.prems(5))
            have "take n (drop pos (cont src)) = d @ take (n - ?m) (drop (pos + ?m) (cont src))"
              unfolding x(2) using take_add [of ?m "n - ?m" "drop pos (cont src)"] by (simp add: add.commute)
            then show "out_appends s (take n (drop pos (cont src))) s''"
              using out_appends_trans [OF 2(2) that(4)] x(6) by simp
            show "n = 0 \<or> pos + n \<le> length (cont src)" using that(3) x(4,6) by auto
          qed (use that x in auto)
        qed (use a x in auto)
      qed
      then show ?case by (simp add: x(1))
    qed
    moreover have "(0 < n) = True" using False by simp
    ultimately show ?thesis
      unfolding TOutStreamCache_copyFromStream.simps [of s src pos n] room_eq [OF s] rbind.simps Let_def e add
      by (simp only: m(3) if_False if_True)
  qed
qed

end

text \<open>Copying what was produced: the three ways of \<open>_TOutStreamCache_copyFromSelf\<close>.\<close>

lemma copy_ahead_eq:
  "0 < ahead \<Longrightarrow> ahead \<le> p \<Longrightarrow> p + n \<le> length buf \<Longrightarrow>
   copy_ahead buf p ahead n = Ok (take p buf @ lz_copy (take p buf) ahead n @ drop (p + n) buf)"
proof (induction n arbitrary: buf p)
  case (Suc n)
  let ?b = "buf ! (p - ahead)"
  have "take (Suc p) (buf[p := ?b]) = take p buf @ [?b]"
    using Suc.prems by (simp add: take_Suc_conv_app_nth take_update_cancel)
  moreover have "take p buf ! (length (take p buf) - ahead) = ?b" using Suc.prems by simp
  ultimately show ?case using Suc.IH [of "Suc p" "buf[p := ?b]"] Suc.prems by (simp add: Let_def)
qed simp

context rw_stream begin

lemma sread_writed_rule:
  assumes "ook st" "read_writed st \<noteq> None" "pos + len \<le> wpos" "wpos \<le> ostreamSize st"
    and "\<And>d st'. ook st' \<Longrightarrow> ostreamSize st' = ostreamSize st \<Longrightarrow> read_writed st' = read_writed st \<Longrightarrow>
      written st' wpos = written st wpos \<Longrightarrow> d = take len (drop pos (written st wpos)) \<Longrightarrow> Q (d, st')"
  shows "hoare S (sread_writed st pos len) Q"
  by (rule hoare_weaken [OF sread_writed_law [OF assms(1-4)]]) (use assms(5) in auto)

lemma copyInMem_rule:
  assumes "out_ok s" "0 < ahead" "ahead < ocacheEnd s" "n = 0 \<or> ahead \<le> cacheCur s" "n < 2 ^ 63"
    and "S \<Longrightarrow> length (out_bytes s) + n \<le> out_size s"
    and "\<And>s'. out_appends s (lz_copy (out_bytes s) ahead n) s' \<Longrightarrow> Q s'"
  shows "hoare S (TOutStreamCache_copyInMem s ahead n) Q"
  using assms
proof (induction n arbitrary: s Q rule: less_induct)
  case (less n)
  note s = less.prems(1)
  show ?case
  proof (cases "n = 0")
    case True
    then show ?thesis using less.prems(7) [of s] s unfolding TOutStreamCache_copyInMem.simps [of s ahead n] by simp
  next
    case False
    let ?cur = "cacheCur s"
    define m where m_def: "m = min n (ocacheEnd s - cacheCur s)"
    have h: "?cur < ocacheEnd s" "length (ocacheBuf s) = ocacheEnd s" "ocacheEnd s < 2 ^ 63" "ahead \<le> ?cur"
      using s less.prems(4) False by (auto simp: out_ok_def)
    have m: "0 < m" "?cur + m \<le> ocacheEnd s" "m \<le> n" "?cur + m \<noteq> ocacheEnd s \<Longrightarrow> m = n"
      using h False unfolding m_def by auto
    have e: "(if add64 ?cur n \<le> ocacheEnd s then n else ocacheEnd s - ?cur) = m"
      using h less.prems(5) unfolding m_def by (auto simp: add64_eq)
    define buf where buf_def: "buf = take ?cur (ocacheBuf s) @ lz_copy (take ?cur (ocacheBuf s)) ahead m @ drop (?cur + m) (ocacheBuf s)"
    have ca: "copy_ahead (ocacheBuf s) ?cur ahead m = Ok buf"
      unfolding buf_def by (rule copy_ahead_eq) (use h m less.prems(2) in auto)
    have lbuf: "length buf = ocacheEnd s" unfolding buf_def using h m by simp
    let ?s1 = "s\<lparr>ocacheBuf := buf, cacheCur := ?cur + m\<rparr>"
    have s1: "out_ok_full ?s1" using s m h lbuf by (auto simp: out_ok_def out_ok_full_def)
    have size1: "out_size ?s1 = out_size s" by (simp add: out_size_def)
    have "take (?cur + m) buf = take ?cur (ocacheBuf s) @ lz_copy (take ?cur (ocacheBuf s)) ahead m"
      unfolding buf_def using h m by simp
    then have bytes1: "out_bytes ?s1 = out_bytes s @ lz_copy (out_bytes s) ahead m"
      using h m lz_copy_suffix [of ahead "take ?cur (ocacheBuf s)" "written (dstStream s) (writeToPos s)" m]
        less.prems(2)
      by (simp add: out_bytes_def)
    have unf: "TOutStreamCache_copyInMem s ahead n =
      (if ?cur + m = ocacheEnd s then
            rbind (TOutStreamCache_flush ?s1) (\<lambda>self.
            let runLen = (if ahead \<le> n - m then ahead else n - m) in
            rbind (require (ahead \<le> ocacheEnd self)) (\<lambda>_.
            rbind (mem_read (ocacheBuf self) (ocacheEnd self - ahead) runLen) (\<lambda>d.
            rbind (mem_write (ocacheBuf self) 0 d) (\<lambda>buf.
            TOutStreamCache_copyInMem (self\<lparr>ocacheBuf := buf, cacheCur := runLen\<rparr>) ahead (n - m - runLen)))))
          else rbind (require (n - m = 0)) (\<lambda>_. Ok ?s1))"
      using False less.prems(2) unfolding TOutStreamCache_copyInMem.simps [of s ahead n] Let_def e ca by simp
    show ?thesis
    proof (cases "?cur + m = ocacheEnd s")
      case ne: False
      then have all: "m = n" by (rule m(4))
      have "out_ok ?s1" using s1 m ne by (auto simp: out_ok_def out_ok_full_def)
      then have "out_appends s (lz_copy (out_bytes s) ahead n) ?s1"
        using bytes1 all by (simp add: out_appends_def out_size_def)
      then have "Q ?s1" by (rule less.prems(7))
      then show ?thesis unfolding unf using ne all by simp
    next
      case True
      define r where r_def: "r = min ahead (n - m)"
      have r: "(if ahead \<le> n - m then ahead else n - m) = r" "r \<le> ahead" "r \<le> n - m" "n - m - r = 0 \<or> r = ahead"
        unfolding r_def by auto
      have "hoare S (rbind (TOutStreamCache_flush ?s1) (\<lambda>self.
            rbind (require (ahead \<le> ocacheEnd self)) (\<lambda>_.
            rbind (mem_read (ocacheBuf self) (ocacheEnd self - ahead) r) (\<lambda>d.
            rbind (mem_write (ocacheBuf self) 0 d) (\<lambda>buf.
            TOutStreamCache_copyInMem (self\<lparr>ocacheBuf := buf, cacheCur := r\<rparr>) ahead (n - m - r)))))) Q"
      proof (rule hoare_bind [where P = "\<lambda>s2. out_appends ?s1 [] s2 \<and> cacheCur s2 = 0 \<and> ocacheBuf s2 = buf"], goal_cases)
        case 1
        show ?case by (rule flush_rule [OF s1]) (use less.prems(6) bytes1 size1 m(3) in auto)
      next
        case (2 s2)
        then have s2: "out_appends ?s1 [] s2" "cacheCur s2 = 0" "ocacheBuf s2 = buf" by auto
        note a = out_appendsD [OF s2(1)]
        have end2: "ocacheEnd s2 = ocacheEnd s" using a by simp
        define d where d_def: "d = take r (drop (ocacheEnd s - ahead) buf)"
        let ?s3 = "s2\<lparr>ocacheBuf := d @ drop r buf, cacheCur := r\<rparr>"
        have ld: "length d = r" unfolding d_def length_take length_drop lbuf using less.prems(3) r(2) by simp
        have rd: "mem_read (ocacheBuf s2) (ocacheEnd s2 - ahead) r = Ok d"
          unfolding s2(3) end2 mem_read_def d_def using lbuf less.prems(3) r(2) by simp
        have wr: "mem_write (ocacheBuf s2) 0 d = Ok (d @ drop r buf)"
          unfolding s2(3) mem_write_def ld using lbuf less.prems(3) r(2) by simp
        have tail: "drop (length (out_bytes ?s1) - ahead) (out_bytes ?s1) = drop (ocacheEnd s - ahead) buf"
          using lbuf True less.prems(3) by (simp add: out_bytes_def)
        have "ahead \<le> length (out_bytes ?s1)" using out_bytes_length [OF s1] True less.prems(3) by simp
        then have "d = lz_copy (out_bytes ?s1) ahead r"
          using lz_copy_plain [OF r(2), of "out_bytes ?s1"] unfolding tail d_def by simp
        then have b3: "out_bytes ?s3 = out_bytes ?s1 @ lz_copy (out_bytes ?s1) ahead r"
          using a(2) s2(2) ld by (simp add: out_bytes_def)
        have ok3: "out_ok ?s3" using a(1) end2 ld lbuf less.prems(3) r(2) by (auto simp: out_ok_def)
        have "hoare S (TOutStreamCache_copyInMem ?s3 ahead (n - m - r)) Q"
        proof (rule less.IH)
          show "n - m - r < n" using m(1) False by linarith
          show "ahead < ocacheEnd ?s3" using end2 less.prems(3) by simp
          show "n - m - r = 0 \<or> ahead \<le> cacheCur ?s3" using r(4) by auto
          show "length (out_bytes ?s3) + (n - m - r) \<le> out_size ?s3" if S
            using less.prems(6) [OF that] a(3) size1 b3 bytes1 m(3) r(3) by (simp add: out_size_def)
          show "Q s'" if s': "out_appends ?s3 (lz_copy (out_bytes ?s3) ahead (n - m - r)) s'" for s'
          proof (rule less.prems(7))
            have n: "n = m + (r + (n - m - r))" using m(3) r(3) by simp
            have "lz_copy (out_bytes s) ahead n
              = lz_copy (out_bytes s) ahead m @ lz_copy (out_bytes ?s1) ahead r @ lz_copy (out_bytes ?s3) ahead (n - m - r)"
              by (subst n) (simp only: lz_copy_add bytes1 b3 append_assoc)
            then have "out_bytes s' = out_bytes s @ lz_copy (out_bytes s) ahead n"
              using out_appendsD(2) [OF s'] b3 bytes1 by simp
            then show "out_appends s (lz_copy (out_bytes s) ahead n) s'"
              using s' a by (simp add: out_appends_def out_size_def)
          qed
        qed (use ok3 less.prems in auto)
        then show ?case using less.prems(3) wr unfolding end2 rd [unfolded end2] by simp
      qed
      then show ?thesis unfolding unf Let_def r(1) using True by simp
    qed
  qed
qed

lemma repeatCache_rule:
  assumes "out_ok_full s" "cacheCur s = ocacheEnd s \<or> n = 0"
    and "S \<Longrightarrow> length (out_bytes s) + n \<le> out_size s"
    and "\<And>s'. out_appends s (lz_copy (out_bytes s) (ocacheEnd s) n) s' \<Longrightarrow> Q s'"
  shows "hoare S (TOutStreamCache_repeatCache s n) Q"
  using assms
proof (induction n arbitrary: s Q rule: less_induct)
  case (less n)
  note s = less.prems(1)
  have l: "length (ocacheBuf s) = ocacheEnd s" "0 < ocacheEnd s" using s by (auto simp: out_ok_full_def)
  show ?case unfolding TOutStreamCache_repeatCache.simps [of s n] Let_def
  proof (rule hoare_bind [where P = "\<lambda>s1. out_appends s [] s1 \<and> (n = 0 \<or> cacheCur s1 = 0 \<and> ocacheBuf s1 = ocacheBuf s)"], goal_cases)
    case 1
    show ?case
    proof (cases "cacheCur s = ocacheEnd s")
      case True
      have "hoare S (TOutStreamCache_flush s)
        (\<lambda>s1. out_appends s [] s1 \<and> (n = 0 \<or> cacheCur s1 = 0 \<and> ocacheBuf s1 = ocacheBuf s))"
        by (rule flush_rule [OF s]) (use less.prems(3) in auto)
      then show ?thesis using True by simp
    next
      case False
      then have "out_ok s" using s by (auto simp: out_ok_def out_ok_full_def)
      then show ?thesis using False less.prems(2) by simp
    qed
  next
    case (2 s1)
    then have s1: "out_appends s [] s1" "n = 0 \<or> cacheCur s1 = 0 \<and> ocacheBuf s1 = ocacheBuf s" by auto
    note a = out_appendsD [OF s1(1)]
    show ?case
    proof (cases "n = 0")
      case True
      then show ?thesis using less.prems(4) [of s1] s1(1) by simp
    next
      case False
      let ?r = "min (ocacheEnd s1) n"
      have e: "(if ocacheEnd s1 \<le> n then ocacheEnd s1 else n) = ?r" by simp
      have r: "0 < ?r" using False a(4) l by simp
      have full: "cacheCur s = ocacheEnd s" using less.prems(2) False by simp
      let ?s2 = "s1\<lparr>cacheCur := ?r\<rparr>"
      have "drop (length (out_bytes s) - ocacheEnd s) (out_bytes s) = ocacheBuf s"
        using full l out_bytes_length [OF s] by (simp add: out_bytes_def)
      then have "lz_copy (out_bytes s) (ocacheEnd s) ?r = take ?r (ocacheBuf s)"
        using lz_copy_plain [of ?r "ocacheEnd s" "out_bytes s"] out_bytes_length [OF s] full a(4) by simp
      then have b2: "out_bytes ?s2 = out_bytes s @ lz_copy (out_bytes s) (ocacheEnd s) ?r"
        using a(2) s1(2) False by (simp add: out_bytes_def)
      have ok2: "out_ok_full ?s2" using a(1) r by (auto simp: out_ok_def out_ok_full_def)
      have "hoare S (TOutStreamCache_repeatCache ?s2 (n - ?r)) Q"
      proof (rule less.IH)
        show "n - ?r < n" using r False by linarith
        show "cacheCur ?s2 = ocacheEnd ?s2 \<or> n - ?r = 0" by auto
        show "length (out_bytes ?s2) + (n - ?r) \<le> out_size ?s2" if S
          using less.prems(3) [OF that] a(3) b2 by (simp add: out_size_def)
        show "Q s'" if s': "out_appends ?s2 (lz_copy (out_bytes ?s2) (ocacheEnd ?s2) (n - ?r)) s'" for s'
        proof (rule less.prems(4))
          have "lz_copy (out_bytes s) (ocacheEnd s) n
            = lz_copy (out_bytes s) (ocacheEnd s) ?r @ lz_copy (out_bytes ?s2) (ocacheEnd s) (n - ?r)"
            using lz_copy_add [of "out_bytes s" "ocacheEnd s" ?r "n - ?r"] b2 by simp
          then show "out_appends s (lz_copy (out_bytes s) (ocacheEnd s) n) s'"
            using s' a b2 by (simp add: out_appends_def out_size_def)
        qed
      qed (rule ok2)
      then show ?thesis unfolding e using r False by simp
    qed
  qed
qed

lemma copyInStream_rule:
  assumes "out_ok s" "read_writed (dstStream s) \<noteq> None"
    and "pos \<le> length (out_bytes s)" "0 < length (out_bytes s) - pos"
    and "pos + n \<le> writeToPos s \<or> pos + ocacheEnd s \<le> length (out_bytes s)"
    and "S \<Longrightarrow> length (out_bytes s) + n \<le> out_size s"
    and "\<And>s'. out_appends s (lz_copy (out_bytes s) (length (out_bytes s) - pos) n) s' \<Longrightarrow> Q s'"
  shows "hoare S (TOutStreamCache_copyInStream s pos n) Q"
  using assms
proof (induction n arbitrary: s pos Q rule: less_induct)
  case (less n)
  note s = less.prems(1)
  show ?case
  proof (cases "n = 0")
    case True
    then show ?thesis using less.prems(7) [of s] s unfolding TOutStreamCache_copyInStream.simps [of s pos n] by simp
  next
    case False
    let ?m = "min (ocacheEnd s - cacheCur s) n" and ?L = "length (out_bytes s)"
    have L: "?L = writeToPos s + cacheCur s" "writeToPos s \<le> out_size s" "out_size s < 2 ^ 63"
      using out_bytes_length [OF out_ok_full [OF s]] out_size_less [OF out_ok_full [OF s]] by auto
    have m: "0 < ?m" "cacheCur s + ?m \<le> ocacheEnd s" "ocacheEnd s \<noteq> 0" using s False by (auto simp: out_ok_def)
    have e: "(if ocacheEnd s - cacheCur s \<le> n then ocacheEnd s - cacheCur s else n) = ?m" by simp
    have fit: "pos + ?m \<le> writeToPos s" using less.prems(5) L(1) m(2) by auto
    have add: "add64 pos ?m = pos + ?m" using fit L by (simp add: add64_eq)
    have hist: "take ?m (drop pos (written (dstStream s) (writeToPos s))) = lz_copy (out_bytes s) (?L - pos) ?m"
    proof -
      have "?m \<le> ?L - pos" using fit L(1) by simp
      moreover have "length (written (dstStream s) (writeToPos s)) = writeToPos s"
        using written_length s by (simp add: out_ok_def)
      ultimately show ?thesis
        using lz_copy_plain [of ?m "?L - pos" "out_bytes s"] less.prems(3) fit
        by (simp add: out_bytes_def)
    qed
    have "hoare S (rbind (sread_writed (dstStream s) pos ?m) (\<lambda>(d, dst).
        rbind (TOutStreamCache_put (s\<lparr>dstStream := dst\<rparr>) d) (\<lambda>s. TOutStreamCache_copyInStream s (pos + ?m) (n - ?m)))) Q"
    proof (rule hoare_bind [where P = "\<lambda>(d, dst). d = lz_copy (out_bytes s) (?L - pos) ?m \<and>
          out_appends s [] (s\<lparr>dstStream := dst\<rparr>)"], goal_cases)
      case 1
      show ?case
        by (rule sread_writed_rule [where wpos = "writeToPos s"])
          (use s fit less.prems(2) hist in \<open>auto simp: out_ok_def out_appends_def out_bytes_def out_size_def\<close>)
    next
      case (2 x)
      then obtain dst where x: "x = (lz_copy (out_bytes s) (?L - pos) ?m, dst)"
        "out_appends s [] (s\<lparr>dstStream := dst\<rparr>)" by (cases x) auto
      let ?s1 = "s\<lparr>dstStream := dst\<rparr>" and ?d = "lz_copy (out_bytes s) (?L - pos) ?m"
      note b = out_appendsD [OF x(2)]
      have "hoare S (rbind (TOutStreamCache_put ?s1 ?d)
          (\<lambda>s. TOutStreamCache_copyInStream s (pos + ?m) (n - ?m))) Q"
      proof (rule hoare_bind [where P = "\<lambda>s'. out_appends ?s1 ?d s' \<and>
            cacheCur s' = (if cacheCur s + ?m = ocacheEnd s then 0 else cacheCur s + ?m)"], goal_cases)
        case 1
        show ?case by (rule put_rule [OF b(1)]) (use m(2) b less.prems(6) in auto)
      next
        case (2 s')
        then have s': "out_appends s ?d s'" "cacheCur s' = (if cacheCur s + ?m = ocacheEnd s then 0 else cacheCur s + ?m)"
          using out_appends_trans [OF x(2)] by auto
        note a = out_appendsD [OF s'(1)]
        have L': "length (out_bytes s') = ?L + ?m" using a(2) by simp
        have L'': "length (out_bytes s') = writeToPos s' + cacheCur s'" by (rule out_bytes_length [OF out_ok_full [OF a(1)]])
        show ?case
        proof (rule less.IH)
          show "n - ?m < n" using m(1) False by linarith
          show "pos + ?m + (n - ?m) \<le> writeToPos s' \<or> pos + ?m + ocacheEnd s' \<le> length (out_bytes s')"
            using less.prems(5) L' L'' L(1) a(4) fit s'(2) by (auto split: if_splits)
          show "length (out_bytes s') + (n - ?m) \<le> out_size s'" if S using less.prems(6) [OF that] a L' by simp
          show "Q s''" if s'': "out_appends s' (lz_copy (out_bytes s') (length (out_bytes s') - (pos + ?m)) (n - ?m)) s''" for s''
          proof (rule less.prems(7))
            have "length (out_bytes s') - (pos + ?m) = ?L - pos" using L' by simp
            then have "lz_copy (out_bytes s) (?L - pos) n = ?d @ lz_copy (out_bytes s') (length (out_bytes s') - (pos + ?m)) (n - ?m)"
              using lz_copy_add [of "out_bytes s" "?L - pos" ?m "n - ?m"] a(2) by simp
            then show "out_appends s (lz_copy (out_bytes s) (?L - pos) n) s''"
              using out_appends_trans [OF s'(1) s''] by simp
          qed
        qed (use a less.prems L' in auto)
      qed
      then show ?case by (simp add: x(1))
    qed
    moreover have "(0 < n) = True" using False by simp
    ultimately show ?thesis
      unfolding TOutStreamCache_copyInStream.simps [of s pos n] room_eq [OF s] rbind.simps Let_def e add
      by (simp only: m(3) if_False if_True)
  qed
qed

lemma copyFromSelf_rule:
  assumes s: "out_ok s" and n: "n < 2 ^ 62" "ocacheEnd s < 2 ^ 62"
    and S: "S \<Longrightarrow> read_writed (dstStream s) \<noteq> None \<and> 1 \<le> ahead \<and> ahead \<le> length (out_bytes s) \<and>
      length (out_bytes s) + n \<le> out_size s"
    and Q: "\<And>s'. out_appends s (lz_copy (out_bytes s) ahead n) s' \<Longrightarrow> 1 \<le> ahead \<Longrightarrow>
      ahead \<le> length (out_bytes s) \<Longrightarrow> Q s'"
  shows "hoare S (TOutStreamCache_copyFromSelf s ahead n) Q"
proof -
  let ?L = "length (out_bytes s)"
  have L: "?L = writeToPos s + cacheCur s" "writeToPos s \<le> out_size s" "out_size s < 2 ^ 63"
    using out_bytes_length [OF out_ok_full [OF s]] out_size_less [OF out_ok_full [OF s]] by auto
  have h: "cacheCur s < ocacheEnd s" "length (ocacheBuf s) = ocacheEnd s" "ocacheEnd s < 2 ^ 63" "ook (dstStream s)"
    using s by (auto simp: out_ok_def)
  have addL: "add64 (writeToPos s) (cacheCur s) = ?L" using L h by (simp add: add64_eq)
  show ?thesis
  proof (cases "read_writed (dstStream s) \<noteq> None \<and> 1 \<le> ahead \<and> ahead \<le> ?L")
    case False
    then have "\<not> S" using S by auto
    then show ?thesis
      using False by (auto simp: TOutStreamCache_copyFromSelf_def addL check_def Let_def)
  next
    case True
    let ?pos = "?L - ahead"
    have rw: "read_writed (dstStream s) \<noteq> None" and ah: "1 \<le> ahead" "ahead \<le> ?L" using True by auto
    have pos: "sub64 ?L ahead = ?pos" by (rule sub64_eq) (use ah L h in auto)
    have addn: "add64 ?pos n = ?pos + n" by (rule add64_eq) (use L h n in auto)
    have addE: "add64 ?pos (ocacheEnd s) = ?pos + ocacheEnd s" by (rule add64_eq) (use L h n in auto)
    have dist: "?L - ?pos = ahead" using ah by simp
    have in_stream: "hoare S (TOutStreamCache_copyInStream s ?pos n) Q"
      if "?pos + n \<le> writeToPos s \<or> ?pos + ocacheEnd s \<le> ?L"
      by (rule copyInStream_rule [OF s rw _ _ that]) (use ah S Q dist in auto)
    have in_mem: "hoare S (TOutStreamCache_copyInMem s ahead n) Q" if "?pos \<ge> writeToPos s"
      by (rule copyInMem_rule [OF s]) (use ah S Q that L(1) h n in auto)
    have unf: "TOutStreamCache_copyFromSelf s ahead n =
      (if ?pos + n \<le> writeToPos s then TOutStreamCache_copyInStream s ?pos n
      else if ?pos \<ge> writeToPos s then TOutStreamCache_copyInMem s ahead n
      else if ?L \<le> ?pos + ocacheEnd s then
        (let runLen = sub64 (writeToPos s) ?pos in
         rbind (sread_writed (dstStream s) ?pos runLen) (\<lambda>(d, dst).
         rbind (mem_write (ocacheBuf s) (cacheCur s) d) (\<lambda>buf.
         let self = s\<lparr>dstStream := dst, ocacheBuf := buf, cacheCur := cacheCur s + runLen\<rparr>;
             copyLength = n - runLen in
         if cacheCur self = ocacheEnd self then TOutStreamCache_repeatCache self copyLength
         else TOutStreamCache_copyInMem self ahead copyLength)))
      else TOutStreamCache_copyInStream s ?pos n)"
      using rw ah unfolding TOutStreamCache_copyFromSelf_def Let_def addL pos addn addE by simp
    consider "?pos + n \<le> writeToPos s" | "\<not> ?pos + n \<le> writeToPos s" "?pos \<ge> writeToPos s"
      | "\<not> ?pos + n \<le> writeToPos s" "?pos < writeToPos s" "?L \<le> ?pos + ocacheEnd s"
      | "\<not> ?pos + n \<le> writeToPos s" "?pos < writeToPos s" "\<not> ?L \<le> ?pos + ocacheEnd s" by linarith
    then show ?thesis
    proof cases
      case 1
      then show ?thesis using in_stream unfolding unf by simp
    next
      case 2
      then show ?thesis using in_mem unfolding unf by simp
    next
      case 4
      then show ?thesis using in_stream unfolding unf by simp
    next
      case 3
      define r where "r = writeToPos s - ?pos"
      have r: "sub64 (writeToPos s) ?pos = r" "0 < r" "r < n" "cacheCur s + r = ahead" "?pos + r = writeToPos s"
        "ahead \<le> ocacheEnd s"
        unfolding r_def using 3 L ah by (auto simp: sub64_eq)
      have lw: "length (written (dstStream s) (writeToPos s)) = writeToPos s"
        using written_length s by (simp add: out_ok_def)
      have plain: "take r (drop ?pos (written (dstStream s) (writeToPos s))) = lz_copy (out_bytes s) ahead r"
        using lz_copy_plain [of r ahead "out_bytes s"] r(4,5) ah lw by (simp add: out_bytes_def)
      have "hoare S (rbind (sread_writed (dstStream s) ?pos r) (\<lambda>(d, dst).
         rbind (mem_write (ocacheBuf s) (cacheCur s) d) (\<lambda>buf.
         let self = s\<lparr>dstStream := dst, ocacheBuf := buf, cacheCur := cacheCur s + r\<rparr>;
             copyLength = n - r in
         if cacheCur self = ocacheEnd self then TOutStreamCache_repeatCache self copyLength
         else TOutStreamCache_copyInMem self ahead copyLength))) Q"
      proof (rule hoare_bind [where P = "\<lambda>(d, dst). d = lz_copy (out_bytes s) ahead r \<and>
            out_appends s [] (s\<lparr>dstStream := dst\<rparr>)"], goal_cases)
        case 1
        show ?case
          by (rule sread_writed_rule [where wpos = "writeToPos s"])
            (use s rw plain r(5) in \<open>auto simp: out_ok_def out_appends_def out_bytes_def out_size_def\<close>)
      next
        case (2 x)
        then obtain dst where x: "x = (lz_copy (out_bytes s) ahead r, dst)"
          "out_appends s [] (s\<lparr>dstStream := dst\<rparr>)" by (cases x) auto
        note a = out_appendsD [OF x(2)]
        define buf where "buf = take (cacheCur s) (ocacheBuf s) @ lz_copy (out_bytes s) ahead r
          @ drop (cacheCur s + r) (ocacheBuf s)"
        have w: "mem_write (ocacheBuf s) (cacheCur s) (lz_copy (out_bytes s) ahead r) = Ok buf"
          using h(2) r(4,6) unfolding buf_def by (simp add: mem_write_def)
        have lbuf: "length buf = ocacheEnd s" using h(1,2) r(4,6) unfolding buf_def by simp
        have tk: "take (cacheCur s + r) buf = take (cacheCur s) (ocacheBuf s) @ lz_copy (out_bytes s) ahead r"
          using h(1,2) r(4,6) unfolding buf_def by simp
        let ?s2 = "s\<lparr>dstStream := dst, ocacheBuf := buf, cacheCur := cacheCur s + r\<rparr>"
        have b2: "out_bytes ?s2 = out_bytes s @ lz_copy (out_bytes s) ahead r"
          using a(2) tk by (simp add: out_bytes_def)
        have ok2: "out_ok_full ?s2" using a(1) lbuf r(4,6) by (auto simp: out_ok_def out_ok_full_def)
        have same: "out_size ?s2 = out_size s" "ocacheEnd ?s2 = ocacheEnd s"
          "read_writed (dstStream ?s2) = read_writed (dstStream s)" using a by (simp_all add: out_size_def)
        have fin: "Q s'" if s': "out_appends ?s2 (lz_copy (out_bytes ?s2) ahead (n - r)) s'" for s'
        proof (rule Q)
          have "lz_copy (out_bytes s) ahead n = lz_copy (out_bytes s) ahead r @ lz_copy (out_bytes ?s2) ahead (n - r)"
            using lz_copy_add [of "out_bytes s" ahead r "n - r"] b2 r(3) by simp
          then show "out_appends s (lz_copy (out_bytes s) ahead n) s'"
            using s' b2 same by (simp add: out_appends_def)
        qed (use ah in auto)
        have room: "length (out_bytes ?s2) + (n - r) \<le> out_size ?s2" if S
          using S [OF that] b2 same r(3) by simp
        have "hoare S (if cacheCur ?s2 = ocacheEnd ?s2 then TOutStreamCache_repeatCache ?s2 (n - r)
            else TOutStreamCache_copyInMem ?s2 ahead (n - r)) Q"
        proof (cases "cacheCur ?s2 = ocacheEnd ?s2")
          case True
          then have "ocacheEnd ?s2 = ahead" using r(4) by simp
          then have "hoare S (TOutStreamCache_repeatCache ?s2 (n - r)) Q"
            using repeatCache_rule [OF ok2 disjI1 [OF True] room] fin by simp
          then show ?thesis using True by simp
        next
          case False
          then have "out_ok ?s2" using ok2 by (auto simp: out_ok_def out_ok_full_def)
          then have "hoare S (TOutStreamCache_copyInMem ?s2 ahead (n - r)) Q"
          proof (rule copyInMem_rule)
            show "ahead < ocacheEnd ?s2" using False r(4,6) by simp
          qed (use ah r(4) n room fin in auto)
          then show ?thesis using False by simp
        qed
        then show ?case by (simp add: x(1) w Let_def)
      qed
      then show ?thesis unfolding unf r(1) Let_def using 3 by simp
    qed
  qed
qed

end

section \<open>Properties\<close>

text \<open>C7: \<open>_TOutStreamCache_copyFromSelf\<close>, with all the cases of what is still in the buffer
  and what is on the stream already, appends what copying byte by byte from \<open>ahead\<close> bytes back
  would (so the copy may overlap what it writes); it succeeds whenever there are \<open>ahead\<close> bytes and
  the output has room.\<close>

theorem copyFromSelf_is_lz_copy:
  assumes "mem_out.out_ok s" "n < 2 ^ 62" "ocacheEnd s < 2 ^ 62"
  shows "TOutStreamCache_copyFromSelf s ahead n \<noteq> Fault \<and>
    (\<forall>s'. TOutStreamCache_copyFromSelf s ahead n = Ok s' \<longrightarrow>
       mem_out.out_ok s' \<and> 1 \<le> ahead \<and> ahead \<le> length (mem_out.out_bytes s) \<and>
       mem_out.out_bytes s' = mem_out.out_bytes s @ lz_copy (mem_out.out_bytes s) ahead n) \<and>
    (1 \<le> ahead \<and> ahead \<le> length (mem_out.out_bytes s) \<and>
     length (mem_out.out_bytes s) + n \<le> mem_out.out_size s \<longrightarrow>
       TOutStreamCache_copyFromSelf s ahead n \<noteq> Fail)"
proof -
  let ?B = "mem_out.out_bytes s"
  have rw: "read_writed (dstStream s) \<noteq> None"
    using assms(1) mem_out_fields by (fastforce simp: mem_out.out_ok_def)
  have "hoare (1 \<le> ahead \<and> ahead \<le> length ?B \<and> length ?B + n \<le> mem_out.out_size s)
      (TOutStreamCache_copyFromSelf s ahead n)
      (\<lambda>s'. mem_out.out_ok s' \<and> 1 \<le> ahead \<and> ahead \<le> length ?B \<and> mem_out.out_bytes s' = ?B @ lz_copy ?B ahead n)"
    by (rule mem_out.copyFromSelf_rule [OF assms]) (use rw mem_out.out_appendsD in auto)
  then show ?thesis by (cases "TOutStreamCache_copyFromSelf s ahead n") auto
qed

text \<open>Five bytes from two back, over a buffer of three that holds one.\<close>

theorem copyFromSelf_is_lz_copy_witness:
  "\<exists>s'. TOutStreamCache_copyFromSelf \<lparr>writeToPos = 3, dstStream = mem_as_hStreamOutput [1, 2, 3, 0, 0, 0, 0, 0, 0],
       ocacheBuf = [4, 0, 0], cacheCur = 1, ocacheEnd = 3\<rparr> 2 5 = Ok s' \<and>
     mem_out.out_bytes s' = [1, 2, 3, 4, 3, 4, 3, 4, 3]"
proof -
  let ?s = "\<lparr>writeToPos = 3, dstStream = mem_as_hStreamOutput [1, 2, 3, 0, 0, 0, 0, 0, 0 :: byte],
       ocacheBuf = [4, 0, 0], cacheCur = 1, ocacheEnd = 3\<rparr>"
  have "mem_out.out_ok ?s" by (simp add: mem_out.out_ok_def, simp add: mem_as_hStreamOutput_def)
  moreover have b: "mem_out.out_bytes ?s = [1, 2, 3, 4]" "mem_out.out_size ?s = 9"
    by (simp_all add: mem_out.out_bytes_def mem_out.out_size_def mem_written_def mem_as_hStreamOutput_def)
  moreover have "lz_copy [1, 2, 3, 4 :: byte] 2 5 = [3, 4, 3, 4, 3]" by (simp add: eval_nat_numeral)
  ultimately show ?thesis
    using copyFromSelf_is_lz_copy [of ?s 5 2] by (cases "TOutStreamCache_copyFromSelf ?s 2 5") auto
qed

end
