(* ===== verification/RleStream.thy ===== *)
theory RleStream
  imports OutCache
begin

text \<open>
  \<open>_TBytesRle_load_stream\<close> of \<open>patch.c\<close>: the run-length bytes of a diff decoded piece by
  piece from two clips and added to a buffer, or skipped.  A run that a piece does not use up
  is kept for the next one.
\<close>

section \<open>The code\<close>

record 's TBytesRle_load_stream =
  memCopyLength :: nat
  memSetLength :: nat
  memSetValue :: byte
  ctrlClip :: "'s TStreamCacheClip"
  rleCodeClip :: "'s TStreamCacheClip"

text \<open>
  \<open>out_data\<close> is null when bytes are skipped; otherwise it points to bytes to be added to.
  \<open>advance_add\<close> is \<open>addData(out_data,src,n); out_data+=n\<close>: the bytes stored and the pointer
  after them.
\<close>

definition advance_add :: "byte list option \<Rightarrow> byte list \<Rightarrow> (byte list \<times> byte list option) res" where
  "advance_add out src =
     (case out of
        None \<Rightarrow> Ok ([], None)
      | Some dst \<Rightarrow>
          rbind (mem_take (length src) dst) (\<lambda>(d, dst). Ok (bytes_add d src, Some dst)))"

definition memSet_add :: "byte list option \<Rightarrow> byte \<Rightarrow> nat \<Rightarrow> (byte list \<times> byte list option) res" where
  "memSet_add out src n =
     (case out of
        None \<Rightarrow> Ok ([], None)
      | Some dst \<Rightarrow>
          rbind (mem_take n dst) (\<lambda>(d, dst).
          Ok (if src \<noteq> 0 then map (\<lambda>b. b + src) d else d, Some dst)))"

text \<open>The loop of \<open>_TBytesRle_load_stream_mem_add\<close>: loader, \<open>decodeSize\<close>, bytes stored, pointer.\<close>

function mem_add_loop ::
  "'s TBytesRle_load_stream \<Rightarrow> nat \<Rightarrow> byte list option \<Rightarrow>
   ('s TBytesRle_load_stream \<times> nat \<times> byte list \<times> byte list option) res" where
  "mem_add_loop loader decodeSize out_data =
     (if memCopyLength loader > 0 \<and> decodeSize > 0 then
        let decodeStep = cacheEnd (rleCodeClip loader);
            decodeStep = (if decodeStep > memCopyLength loader then memCopyLength loader else decodeStep);
            decodeStep = (if decodeStep > decodeSize then decodeSize else decodeStep) in
        if decodeStep = 0 then Fault
        else
          rbind (TStreamCacheClip_readData (rleCodeClip loader) decodeStep) (\<lambda>(rleData, rleCodeClip).
          rbind (advance_add out_data rleData) (\<lambda>(stored, out_data).
          rbind (mem_add_loop
                   (loader\<lparr>rleCodeClip := rleCodeClip, memCopyLength := memCopyLength loader - decodeStep\<rparr>)
                   (decodeSize - decodeStep) out_data) (\<lambda>(loader, decodeSize, stored', out_data).
          Ok (loader, decodeSize, stored @ stored', out_data))))
      else Ok (loader, decodeSize, [], out_data))"
  by pat_completeness auto
termination
  by (relation "measure (\<lambda>(l, n, out). n)") (auto simp: Let_def split: if_splits)

declare mem_add_loop.simps [simp del]

definition TBytesRle_load_stream_mem_add ::
  "'s TBytesRle_load_stream \<Rightarrow> nat \<Rightarrow> byte list option \<Rightarrow>
   ('s TBytesRle_load_stream \<times> nat \<times> byte list \<times> byte list option) res" where
  "TBytesRle_load_stream_mem_add loader decodeSize out_data =
     (let memSetLen = memSetLength loader in
      rbind (if memSetLen \<noteq> 0 then
               let memSetStep = (if memSetLen \<le> decodeSize then memSetLen else decodeSize) in
               rbind (memSet_add out_data (memSetValue loader) memSetStep) (\<lambda>(stored, out_data).
               Ok (loader\<lparr>memSetLength := memSetLen - memSetStep\<rparr>, decodeSize - memSetStep, stored, out_data))
             else Ok (loader, decodeSize, [], out_data)) (\<lambda>(loader, decodeSize, stored, out_data).
      rbind (mem_add_loop loader decodeSize out_data) (\<lambda>(loader, decodeSize, stored', out_data).
      Ok (loader, decodeSize, stored @ stored', out_data))))"

text \<open>A loader with nothing pending; the caller sets its clips.\<close>

definition TBytesRle_load_stream_init ::
  "'s TStreamCacheClip \<Rightarrow> 's TStreamCacheClip \<Rightarrow> 's TBytesRle_load_stream" where
  "TBytesRle_load_stream_init ctrl code =
     \<lparr>memCopyLength = 0, memSetLength = 0, memSetValue = 0, ctrlClip = ctrl, rleCodeClip = code\<rparr>"

definition TBytesRle_load_stream_isFinish :: "'s TBytesRle_load_stream \<Rightarrow> bool" where
  "TBytesRle_load_stream_isFinish loader \<longleftrightarrow>
     memSetLength loader = 0 \<and> memCopyLength loader = 0 \<and>
     TStreamCacheClip_isFinish (rleCodeClip loader) \<and> TStreamCacheClip_isFinish (ctrlClip loader)"

text \<open>The next control code, and the run it starts.\<close>

definition TBytesRle_load_stream_next :: "'s TBytesRle_load_stream \<Rightarrow> 's TBytesRle_load_stream res" where
  "TBytesRle_load_stream_next loader =
     rbind (TStreamCacheClip_accessData (ctrlClip loader) 1) (\<lambda>(pType, ctrl).
     let type = rle_type (hd pType) in
     rbind (TStreamCacheClip_unpackUIntWithTag ctrl kByteRleType_bit) (\<lambda>(len, ctrl).
     let len = add64 len 1;
         loader = loader\<lparr>ctrlClip := ctrl\<rparr> in
     (case type of
        kByteRleType_rle0 \<Rightarrow> Ok (loader\<lparr>memSetLength := len, memSetValue := 0\<rparr>)
      | kByteRleType_rle255 \<Rightarrow> Ok (loader\<lparr>memSetLength := len, memSetValue := 255\<rparr>)
      | kByteRleType_rle \<Rightarrow>
          rbind (TStreamCacheClip_readData (rleCodeClip loader) 1) (\<lambda>(pSetValue, code).
          Ok (loader\<lparr>rleCodeClip := code, memSetValue := hd pSetValue, memSetLength := len\<rparr>))
      | kByteRleType_unrle \<Rightarrow> Ok (loader\<lparr>memCopyLength := len\<rparr>))))"

text \<open>
  The loop of \<open>_TBytesRle_load_stream_decode_add\<close>.  It ends because a control code has at
  least one byte; where a step took none it would not, and that is a fault.
\<close>

function decode_add_loop ::
  "'s TBytesRle_load_stream \<Rightarrow> nat \<Rightarrow> byte list option \<Rightarrow>
   ('s TBytesRle_load_stream \<times> nat \<times> byte list \<times> byte list option) res" where
  "decode_add_loop loader decodeSize out_data =
     (if decodeSize > 0 \<and> \<not> TStreamCacheClip_isFinish (ctrlClip loader) then
        rbind (TBytesRle_load_stream_next loader) (\<lambda>loader1.
        rbind (TBytesRle_load_stream_mem_add loader1 decodeSize out_data)
          (\<lambda>(loader2, decodeSize, stored, out_data).
        if \<not> TStreamCacheClip_leaveSize (ctrlClip loader2) < TStreamCacheClip_leaveSize (ctrlClip loader) then Fault
        else
          rbind (decode_add_loop loader2 decodeSize out_data) (\<lambda>(loader3, decodeSize, stored', out_data).
          Ok (loader3, decodeSize, stored @ stored', out_data))))
      else Ok (loader, decodeSize, [], out_data))"
  by pat_completeness auto
termination
  by (relation "measure (\<lambda>(l, n, out). TStreamCacheClip_leaveSize (ctrlClip l))") auto

declare decode_add_loop.simps [simp del]

text \<open>\<open>_TBytesRle_load_stream_decode_add(loader,out_data,decodeSize)\<close>: the bytes stored.\<close>

definition TBytesRle_load_stream_decode_add ::
  "'s TBytesRle_load_stream \<Rightarrow> byte list option \<Rightarrow> nat \<Rightarrow> (byte list \<times> 's TBytesRle_load_stream) res" where
  "TBytesRle_load_stream_decode_add loader out_data decodeSize =
     rbind (TBytesRle_load_stream_mem_add loader decodeSize out_data)
       (\<lambda>(loader, decodeSize, stored, out_data).
     rbind (decode_add_loop loader decodeSize out_data) (\<lambda>(loader, decodeSize, stored', out_data).
     if decodeSize = 0 then Ok (stored @ stored', loader) else Fail))"

definition TBytesRle_load_stream_decode_skip ::
  "'s TBytesRle_load_stream \<Rightarrow> nat \<Rightarrow> 's TBytesRle_load_stream res" where
  "TBytesRle_load_stream_decode_skip loader decodeSize =
     rbind (TBytesRle_load_stream_decode_add loader None decodeSize) (\<lambda>(stored, loader). Ok loader)"

text \<open>\<open>_rle_decode_skip\<close>: in steps of at most \<open>~(hpatch_size_t)0\<close>.\<close>

function rle_decode_skip :: "'s TBytesRle_load_stream \<Rightarrow> nat \<Rightarrow> 's TBytesRle_load_stream res" where
  "rle_decode_skip rle_loader copyLength =
     (if copyLength > 0 then
        let len = 2 ^ 64 - 1;
            len = (if len > copyLength then copyLength else len) in
        rbind (TBytesRle_load_stream_decode_skip rle_loader len) (\<lambda>rle_loader.
        rle_decode_skip rle_loader (copyLength - len))
      else Ok rle_loader)"
  by pat_completeness auto
termination
  by (relation "measure (\<lambda>(l, n). n)") (auto split: if_splits)

declare rle_decode_skip.simps [simp del]

text \<open>
  \<open>_patch_add_old_with_rle(outCache,rle_loader,old,oldPos,addLength,aCache,aCacheSize)\<close>: old
  bytes with the run-length bytes added go to the output.
\<close>

function patch_add_old_with_rle ::
  "'o TOutStreamCache \<Rightarrow> 's TBytesRle_load_stream \<Rightarrow> 'r hpatch_TStreamInput \<Rightarrow> nat \<Rightarrow> nat \<Rightarrow> nat \<Rightarrow>
   ('o TOutStreamCache \<times> 's TBytesRle_load_stream \<times> 'r hpatch_TStreamInput) res" where
  "patch_add_old_with_rle outCache rle_loader old old_pos addLength aCacheSize =
     (if addLength > 0 then
        let decodeStep = (if aCacheSize > addLength then addLength else aCacheSize) in
        if decodeStep = 0 then Fault
        else
          rbind (sread old old_pos decodeStep) (\<lambda>(aCache, old).
          rbind (TBytesRle_load_stream_decode_add rle_loader (Some aCache) decodeStep) (\<lambda>(aCache, rle_loader).
          rbind (TOutStreamCache_write outCache aCache) (\<lambda>outCache.
          patch_add_old_with_rle outCache rle_loader old (add64 old_pos decodeStep) (addLength - decodeStep) aCacheSize)))
      else Ok (outCache, rle_loader, old))"
  by pat_completeness auto
termination
  by (relation "measure (\<lambda>(out, l, old, p, n, k). n)") (auto split: if_splits)

declare patch_add_old_with_rle.simps [simp del]

section \<open>The contract\<close>

text \<open>Adding \<open>d\<close> at a pointer that may be null.\<close>

definition out_room :: "byte list option \<Rightarrow> nat \<Rightarrow> bool" where
  "out_room out n \<longleftrightarrow> (case out of None \<Rightarrow> True | Some dst \<Rightarrow> n \<le> length dst)"

definition out_adds :: "byte list option \<Rightarrow> byte list \<Rightarrow> byte list \<Rightarrow> byte list option \<Rightarrow> bool" where
  "out_adds out d stored out' \<longleftrightarrow>
     (case out of
        None \<Rightarrow> stored = [] \<and> out' = None
      | Some dst \<Rightarrow> length d \<le> length dst \<and> stored = bytes_add (take (length d) dst) d \<and>
          out' = Some (drop (length d) dst))"

lemma out_adds_Nil [simp]: "out_adds out [] stored out' \<longleftrightarrow> stored = [] \<and> out' = out"
  by (cases out) (auto simp: out_adds_def)

lemma out_adds_append:
  assumes "out_adds out d stored out'" "out_adds out' d' stored' out''"
  shows "out_adds out (d @ d') (stored @ stored') out''"
proof (cases out)
  case (Some dst)
  then have "stored' = bytes_add (take (length d') (drop (length d) dst)) d'"
    "stored = bytes_add (take (length d) dst) d" "length d \<le> length dst" "length d' \<le> length dst - length d"
    "out'' = Some (drop (length d') (drop (length d) dst))"
    using assms by (auto simp: out_adds_def)
  then show ?thesis
    using Some bytes_add_append [of "take (length d) dst" d "take (length d') (drop (length d) dst)" d']
    by (simp add: out_adds_def take_add add.commute)
qed (use assms in \<open>auto simp: out_adds_def\<close>)

lemma out_adds_room: "out_adds out d stored out' \<Longrightarrow> out_room out (length d + n) \<Longrightarrow> out_room out' n"
  by (cases out) (auto simp: out_adds_def out_room_def)

lemma advance_add_rule:
  assumes "out_room out (length d)" "\<And>stored out'. out_adds out d stored out' \<Longrightarrow> Q (stored, out')"
  shows "hoare S (advance_add out d) Q"
  using assms by (cases out) (auto simp: advance_add_def out_room_def out_adds_def mem_take_def)

lemma memSet_add_rule:
  assumes "out_room out n" "\<And>stored out'. out_adds out (replicate n v) stored out' \<Longrightarrow> Q (stored, out')"
  shows "hoare S (memSet_add out v n) Q"
proof (cases out)
  case (Some dst)
  have "(if v \<noteq> 0 then map (\<lambda>b. b + v) (take n dst) else take n dst) = bytes_add (take n dst) (replicate n v)"
    if "n \<le> length dst" using that by (intro nth_equalityI) auto
  then show ?thesis using assms Some by (auto simp: memSet_add_def out_room_def out_adds_def mem_take_def)
qed (use assms in \<open>auto simp: memSet_add_def out_adds_def\<close>)

text \<open>What follows a pending copy of \<open>n\<close> code bytes.\<close>

definition rle_copy_rest :: "nat \<Rightarrow> byte list \<Rightarrow> byte list \<Rightarrow> byte list option" where
  "rle_copy_rest n ctrl code =
     (if n \<le> length code then map_option ((@) (take n code)) (rle_spec Streaming ctrl (drop n code)) else None)"

lemma rle_spec_not_Nil: "rle_spec Streaming ctrl code = Some [] \<Longrightarrow> ctrl = []"
proof (induction Streaming ctrl code rule: rle_spec.induct)
  case (1 ctrl code)
  show ?case
  proof (rule ccontr)
    assume "ctrl \<noteq> []"
    moreover have "0 < add64 a 1" if "unpack_by Streaming ctrl t = Ok (a, b)" "a \<noteq> 18446744073709551615" for t a b
    proof -
      have "a + 1 < 2 ^ 64" using unpack_by_Ok [OF that(1)] that(2) by simp
      then show ?thesis by (simp add: add64_eq)
    qed
    ultimately show False
      using "1.prems"
      by (fastforce simp: rle_spec.simps [of Streaming ctrl code] rle_run_def Let_def
          split: res.splits TByteRleType.splits list.splits if_splits)
  qed
qed

context input_stream begin

definition rle_ok :: "'s TBytesRle_load_stream \<Rightarrow> bool" where
  "rle_ok l \<longleftrightarrow> cache_ok (ctrlClip l) \<and> cache_ok (rleCodeClip l) \<and> 0 < cacheEnd (rleCodeClip l)"

definition rle_full :: "'s TBytesRle_load_stream \<Rightarrow> bool" where
  "rle_full l \<longleftrightarrow> cache_full (ctrlClip l) \<and> cache_full (rleCodeClip l) \<and> 11 \<le> cacheEnd (ctrlClip l)"

text \<open>All that a loader has still to give: the pending run, then what the clips stand for.\<close>

definition rle_rest :: "'s TBytesRle_load_stream \<Rightarrow> byte list option" where
  "rle_rest l =
     map_option ((@) (replicate (memSetLength l) (memSetValue l)))
       (rle_copy_rest (memCopyLength l) (cache_bytes (ctrlClip l)) (cache_bytes (rleCodeClip l)))"

definition rle_idle :: "'s TBytesRle_load_stream \<Rightarrow> bool" where
  "rle_idle l \<longleftrightarrow> memSetLength l = 0 \<and> memCopyLength l = 0"

definition rle_reads :: "'s TBytesRle_load_stream \<Rightarrow> byte list \<Rightarrow> 's TBytesRle_load_stream \<Rightarrow> bool" where
  "rle_reads l d l' \<longleftrightarrow>
     rle_ok l' \<and> rle_full l' = rle_full l \<and> rle_rest l = map_option ((@) d) (rle_rest l')"

lemma rle_readsD:
  assumes "rle_reads l d l'"
  shows "rle_ok l'" "rle_full l' = rle_full l" "rle_rest l = map_option ((@) d) (rle_rest l')"
  using assms by (simp_all add: rle_reads_def)

lemma rle_reads_refl [simp]: "rle_ok l \<Longrightarrow> rle_reads l [] l"
  by (cases "rle_rest l") (simp_all add: rle_reads_def)

lemma rle_reads_trans: "rle_reads l d l' \<Longrightarrow> rle_reads l' d' l'' \<Longrightarrow> rle_reads l (d @ d') l''"
  by (cases "rle_rest l''") (auto simp: rle_reads_def)

lemma rle_rest_idle: "rle_idle l \<Longrightarrow> rle_rest l = rle_spec Streaming (cache_bytes (ctrlClip l)) (cache_bytes (rleCodeClip l))"
  by (cases "rle_spec Streaming (cache_bytes (ctrlClip l)) (cache_bytes (rleCodeClip l))")
    (simp_all add: rle_idle_def rle_rest_def rle_copy_rest_def)

lemma rle_finish_rest: "rle_ok l \<Longrightarrow> TBytesRle_load_stream_isFinish l \<Longrightarrow> rle_rest l = Some []"
  using cache_finish_bytes [of "ctrlClip l"] cache_finish_bytes [of "rleCodeClip l"]
  by (simp add: rle_ok_def rle_rest_def rle_copy_rest_def TBytesRle_load_stream_isFinish_def)

lemma rle_rest_finish:
  assumes "rle_ok l" "rle_full l" "rle_rest l = Some []"
  shows "TBytesRle_load_stream_isFinish l"
proof -
  let ?code = "cache_bytes (rleCodeClip l)" and ?ctrl = "cache_bytes (ctrlClip l)"
  have 0: "memSetLength l = 0" "memCopyLength l \<le> length ?code" "take (memCopyLength l) ?code = []"
    "rle_spec Streaming ?ctrl (drop (memCopyLength l) ?code) = Some []"
    using assms(3) by (auto simp: rle_rest_def rle_copy_rest_def split: if_splits)
  have "?ctrl = []" by (rule rle_spec_not_Nil [OF 0(4)])
  moreover have "memCopyLength l = 0" using 0(2,3) by auto
  moreover have "?code = []" using 0(4) calculation by (simp split: if_splits)
  ultimately show ?thesis
    using assms(1,2) 0(1) cache_full_finish
    by (simp add: rle_ok_def rle_full_def TBytesRle_load_stream_isFinish_def)
qed

lemma mem_add_loop_rule:
  assumes "rle_ok l" "memSetLength l = 0" "out_room out n"
    and "S \<Longrightarrow> rle_full l \<and> rle_rest l \<noteq> None"
    and "\<And>l' n' d stored out'. rle_reads l d l' \<Longrightarrow> out_adds out d stored out' \<Longrightarrow> n = length d + n' \<Longrightarrow>
      n' = 0 \<or> memCopyLength l' = 0 \<Longrightarrow> memSetLength l' = 0 \<Longrightarrow> ctrlClip l' = ctrlClip l \<Longrightarrow>
      Q (l', n', stored, out')"
  shows "hoare S (mem_add_loop l n out) Q"
  using assms
proof (induction n arbitrary: l out Q rule: less_induct)
  case (less n)
  note l = less.prems(1)
  show ?case
  proof (cases "memCopyLength l > 0 \<and> n > 0")
    case False
    then have "Q (l, n, [], out)" by (intro less.prems(5) [of "[]"]) (use l less.prems(2) in auto)
    then show ?thesis using False unfolding mem_add_loop.simps [of l n out] by auto
  next
    case True
    define m where "m = min (min (cacheEnd (rleCodeClip l)) (memCopyLength l)) n"
    have code: "cache_ok (rleCodeClip l)" "0 < cacheEnd (rleCodeClip l)" using l by (auto simp: rle_ok_def)
    have m: "0 < m" "m \<le> n" "m \<le> memCopyLength l" "m \<le> cacheEnd (rleCodeClip l)"
      using True code(2) unfolding m_def by auto
    have e: "(let s = cacheEnd (rleCodeClip l); s = (if s > memCopyLength l then memCopyLength l else s)
        in (if s > n then n else s)) = m" unfolding m_def by (auto simp: Let_def)
    have unf: "mem_add_loop l n out = rbind (TStreamCacheClip_readData (rleCodeClip l) m) (\<lambda>(rleData, code).
          rbind (advance_add out rleData) (\<lambda>(stored, out).
          rbind (mem_add_loop (l\<lparr>rleCodeClip := code, memCopyLength := memCopyLength l - m\<rparr>) (n - m) out)
            (\<lambda>(l, n, stored', out). Ok (l, n, stored @ stored', out))))"
      unfolding mem_add_loop.simps [of l n out] using True m(1) e by (simp add: Let_def)
    show ?thesis unfolding unf
    proof (rule hoare_bind [where P = "\<lambda>(d, c). cache_reads (rleCodeClip l) d c \<and> length d = m"], goal_cases)
      case 1
      have "memCopyLength l \<le> length (cache_bytes (rleCodeClip l))" if S
        using less.prems(4) [OF that] by (auto simp: rle_rest_def rle_copy_rest_def split: if_splits)
      then show ?case
        by (intro readData_rule [OF code(1)]) (use less.prems(4) m in \<open>auto simp: rle_full_def\<close>)
    next
      case (2 x)
      then obtain d c where x: "x = (d, c)" "cache_reads (rleCodeClip l) d c" "length d = m" by (cases x) auto
      let ?l = "l\<lparr>rleCodeClip := c, memCopyLength := memCopyLength l - m\<rparr>"
      note r = cache_readsD [OF x(2)]
      have rest: "rle_rest l = map_option ((@) d) (rle_rest ?l)"
        using m(3) x(3) less.prems(2)
        by (auto simp: rle_rest_def rle_copy_rest_def r(4) option.map_comp comp_def)
      have reads: "rle_reads l d ?l"
        using l r rest by (simp add: rle_reads_def rle_ok_def rle_full_def)
      have "hoare S (rbind (advance_add out d) (\<lambda>(stored, out).
          rbind (mem_add_loop ?l (n - m) out) (\<lambda>(l, n, stored', out). Ok (l, n, stored @ stored', out)))) Q"
      proof (rule hoare_bind [where P = "\<lambda>(stored, out'). out_adds out d stored out'"], goal_cases)
        case 1
        have "out_room out (length d)" using less.prems(3) x(3) m(2) by (cases out) (auto simp: out_room_def)
        then show ?case by (rule advance_add_rule) simp
      next
        case (2 y)
        then obtain stored out1 where y: "y = (stored, out1)" "out_adds out d stored out1" by (cases y) auto
        have "hoare S (mem_add_loop ?l (n - m) out1) (\<lambda>(l, n, stored', out). Q (l, n, stored @ stored', out))"
        proof (rule less.IH)
          show "n - m < n" using m True by simp
          show "out_room out1 (n - m)" by (rule out_adds_room [OF y(2)]) (use less.prems(3) x(3) m(2) in simp)
          show "rle_full ?l \<and> rle_rest ?l \<noteq> None" if S using less.prems(4) [OF that] rle_readsD [OF reads] by auto
          fix l' n' d' stored' out'
          assume a: "rle_reads ?l d' l'" "out_adds out1 d' stored' out'" "n - m = length d' + n'"
            "n' = 0 \<or> memCopyLength l' = 0" "memSetLength l' = 0" "ctrlClip l' = ctrlClip ?l"
          have "Q (l', n', stored @ stored', out')"
            by (rule less.prems(5) [OF rle_reads_trans [OF reads a(1)] out_adds_append [OF y(2) a(2)]])
              (use a m x(3) in auto)
          then show "case (l', n', stored', out') of (l, n, stored', out) \<Rightarrow> Q (l, n, stored @ stored', out)" by simp
        qed (use rle_readsD(1) [OF reads] less.prems(2) in auto)
        then show ?case by (auto simp: y(1) elim!: hoare_bind)
      qed
      then show ?case by (simp add: x(1))
    qed
  qed
qed

lemma mem_add_rule:
  assumes l: "rle_ok l" and room: "out_room out n"
    and S: "S \<Longrightarrow> rle_full l \<and> rle_rest l \<noteq> None"
    and Q: "\<And>l' n' d stored out'. rle_reads l d l' \<Longrightarrow> out_adds out d stored out' \<Longrightarrow> n = length d + n' \<Longrightarrow>
      n' = 0 \<or> rle_idle l' \<Longrightarrow> ctrlClip l' = ctrlClip l \<Longrightarrow> Q (l', n', stored, out')"
  shows "hoare S (TBytesRle_load_stream_mem_add l n out) Q"
  unfolding TBytesRle_load_stream_mem_add_def Let_def
proof (rule hoare_bind [where P = "\<lambda>(l', n', stored, out'). \<exists>d. rle_reads l d l' \<and> out_adds out d stored out' \<and>
      n = length d + n' \<and> (n' = 0 \<or> memSetLength l' = 0) \<and> ctrlClip l' = ctrlClip l"], goal_cases)
  case 1
  define m where "m = min (memSetLength l) n"
  have e: "(if memSetLength l \<le> n then memSetLength l else n) = m" by (auto simp: m_def)
  let ?d = "replicate m (memSetValue l)" and ?l = "l\<lparr>memSetLength := memSetLength l - m\<rparr>"
  have rep: "replicate (memSetLength l) (memSetValue l) = ?d @ replicate (memSetLength l - m) (memSetValue l)"
    by (simp add: m_def flip: replicate_add)
  have "rle_rest l = map_option ((@) ?d) (rle_rest ?l)"
    by (cases "rle_copy_rest (memCopyLength l) (cache_bytes (ctrlClip l)) (cache_bytes (rleCodeClip l))")
      (simp_all add: rle_rest_def rep)
  then have reads: "rle_reads l ?d ?l" using l by (simp add: rle_reads_def rle_ok_def rle_full_def)
  have "out_room out m" using room by (cases out) (auto simp: out_room_def m_def)
  then have "hoare S (memSet_add out (memSetValue l) m) (\<lambda>(stored, out').
      out_adds out ?d stored out')"
    by (rule memSet_add_rule) simp
  then have "hoare S (rbind (memSet_add out (memSetValue l) m) (\<lambda>(stored, out'). Ok (?l, n - m, stored, out')))
      (\<lambda>(l', n', stored, out'). \<exists>d. rle_reads l d l' \<and> out_adds out d stored out' \<and>
        n = length d + n' \<and> (n' = 0 \<or> memSetLength l' = 0) \<and> ctrlClip l' = ctrlClip l)"
    by (rule hoare_bind) (use reads in \<open>auto simp: m_def intro!: exI [of _ ?d]\<close>)
  then show ?case using l by (auto simp: e)
next
  case (2 x)
  then obtain l1 n1 stored out1 d where x: "x = (l1, n1, stored, out1)" "rle_reads l d l1" "out_adds out d stored out1"
    "n = length d + n1" "n1 = 0 \<or> memSetLength l1 = 0" "ctrlClip l1 = ctrlClip l" by (cases x) auto
  show ?case
  proof (cases "memSetLength l1 = 0")
    case False
    then have "n1 = 0" using x(5) by simp
    then show ?thesis using Q [OF x(2,3)] x by (simp add: mem_add_loop.simps)
  next
    case True
    have "hoare S (mem_add_loop l1 n1 out1) (\<lambda>(l', n', stored', out'). Q (l', n', stored @ stored', out'))"
    proof (rule mem_add_loop_rule)
      show "rle_ok l1" "memSetLength l1 = 0" using x(2) True by (auto dest: rle_readsD)
      show "out_room out1 n1" by (rule out_adds_room [OF x(3)]) (use room x(4) in simp)
      show "rle_full l1 \<and> rle_rest l1 \<noteq> None" if S using S [OF that] rle_readsD [OF x(2)] by auto
      fix l' n' d' stored' out'
      assume a: "rle_reads l1 d' l'" "out_adds out1 d' stored' out'" "n1 = length d' + n'"
        "n' = 0 \<or> memCopyLength l' = 0" "memSetLength l' = 0" "ctrlClip l' = ctrlClip l1"
      have "Q (l', n', stored @ stored', out')"
        by (rule Q [OF rle_reads_trans [OF x(2) a(1)] out_adds_append [OF x(3) a(2)]])
          (use a x in \<open>auto simp: rle_idle_def\<close>)
      then show "case (l', n', stored', out') of (l', n', stored', out') \<Rightarrow> Q (l', n', stored @ stored', out')" by simp
    qed
    then show ?thesis by (auto simp: x(1) elim!: hoare_bind)
  qed
qed

text \<open>The next code: unless it is an empty run with nothing after it, nothing is lost by reading it.\<close>

lemma next_rule:
  assumes l: "rle_ok l" "rle_idle l" "\<not> TStreamCacheClip_isFinish (ctrlClip l)"
    and S: "S \<Longrightarrow> rle_full l \<and> rle_rest l \<noteq> None \<and> rle_rest l \<noteq> Some []"
    and Q: "\<And>l'. rle_ok l' \<Longrightarrow> rle_full l' = rle_full l \<Longrightarrow>
      rle_rest l = (if rle_rest l' = Some [] then None else rle_rest l') \<Longrightarrow>
      TStreamCacheClip_leaveSize (ctrlClip l') < TStreamCacheClip_leaveSize (ctrlClip l) \<Longrightarrow> Q l'"
  shows "hoare S (TBytesRle_load_stream_next l) Q"
proof -
  let ?ctrl = "cache_bytes (ctrlClip l)" and ?code = "cache_bytes (rleCodeClip l)"
  have c: "cache_ok (ctrlClip l)" "cache_ok (rleCodeClip l)" "0 < cacheEnd (rleCodeClip l)"
    using l(1) by (auto simp: rle_ok_def)
  note rest = rle_rest_idle [OF l(2)]
  have ne: "?ctrl \<noteq> []" if "cache_full (ctrlClip l)" using l(3) cache_full_finish [OF c(1) that] by simp
  show ?thesis unfolding TBytesRle_load_stream_next_def Let_def
  proof (rule hoare_bind [where P = "\<lambda>(pType, ctrl). cache_reads (ctrlClip l) [] ctrl \<and> hd pType = hd ?ctrl \<and> ?ctrl \<noteq> []"], goal_cases)
    case 1
    show ?case
    proof (rule accessData_rule [OF c(1)])
      show "cache_full (ctrlClip l) \<and> 1 \<le> length ?ctrl \<and> 1 \<le> cacheEnd (ctrlClip l)" if S
        using S [OF that] ne by (cases ?ctrl) (auto simp: rle_full_def)
    qed (cases ?ctrl, auto)
  next
    case (2 x)
    then obtain pType ctrl1 where x: "x = (pType, ctrl1)" "cache_reads (ctrlClip l) [] ctrl1" "hd pType = hd ?ctrl" "?ctrl \<noteq> []"
      by (cases x) auto
    note r1 = cache_readsD [OF x(2)]
    have unp: "unpack_by Streaming ?ctrl kByteRleType_bit \<noteq> Fail" if "rle_rest l \<noteq> None"
      using that x(4) unfolding rest rle_spec.simps [of Streaming ?ctrl ?code] by auto
    have "hoare S (rbind (TStreamCacheClip_unpackUIntWithTag ctrl1 kByteRleType_bit) (\<lambda>(len, ctrl).
        case rle_type (hd ?ctrl) of
          kByteRleType_rle0 \<Rightarrow> Ok (l\<lparr>ctrlClip := ctrl, memSetLength := add64 len 1, memSetValue := 0\<rparr>)
        | kByteRleType_rle255 \<Rightarrow> Ok (l\<lparr>ctrlClip := ctrl, memSetLength := add64 len 1, memSetValue := 255\<rparr>)
        | kByteRleType_rle \<Rightarrow>
            rbind (TStreamCacheClip_readData (rleCodeClip (l\<lparr>ctrlClip := ctrl\<rparr>)) 1) (\<lambda>(pSetValue, code).
            Ok (l\<lparr>ctrlClip := ctrl, rleCodeClip := code, memSetValue := hd pSetValue, memSetLength := add64 len 1\<rparr>))
        | kByteRleType_unrle \<Rightarrow> Ok (l\<lparr>ctrlClip := ctrl, memCopyLength := add64 len 1\<rparr>))) Q"
    proof (rule hoare_bind [where P = "\<lambda>(len, ctrl). \<exists>d. cache_reads (ctrlClip l) d ctrl \<and> d \<noteq> [] \<and> len < 2 ^ 64 \<and>
          unpack_by Streaming ?ctrl kByteRleType_bit = Ok (len, cache_bytes ctrl)"], goal_cases)
      case 1
      show ?case
      proof (rule unpack_rule [OF r1(1)])
        show "cache_full ctrl1 \<and> 11 \<le> cacheEnd ctrl1 \<and> unpack_by Streaming (cache_bytes ctrl1) kByteRleType_bit \<noteq> Fail" if S
          using S [OF that] r1 unp by (auto simp: rle_full_def)
      qed (use cache_reads_trans [OF x(2)] r1(4) in fastforce)
    next
      case (2 y)
      then obtain len ctrl2 d where y: "y = (len, ctrl2)" "cache_reads (ctrlClip l) d ctrl2" "d \<noteq> []" "len < 2 ^ 64"
        "unpack_by Streaming ?ctrl kByteRleType_bit = Ok (len, cache_bytes ctrl2)" by (cases y) auto
      note r2 = cache_readsD [OF y(2)]
      have left: "TStreamCacheClip_leaveSize ctrl2 < TStreamCacheClip_leaveSize (ctrlClip l)"
        using r2(1,5) y(3) cache_sizes(2) [OF c(1)] cache_sizes(2) [OF r2(1)] by (cases d) auto
      have wrap: "len = 2 ^ 64 - 1 \<Longrightarrow> add64 len 1 = 0" "len \<noteq> 2 ^ 64 - 1 \<Longrightarrow> add64 len 1 = len + 1 \<and> 0 < len + 1"
        using y(4) by (auto simp: add64_def)
      have spec: "rle_rest l = (case rle_type (hd ?ctrl) of
             kByteRleType_rle0 \<Rightarrow> rle_run Streaming (rle_spec Streaming (cache_bytes ctrl2) ?code) len (replicate (len + 1) 0)
           | kByteRleType_rle255 \<Rightarrow> rle_run Streaming (rle_spec Streaming (cache_bytes ctrl2) ?code) len (replicate (len + 1) 255)
           | kByteRleType_rle \<Rightarrow>
               (case ?code of [] \<Rightarrow> None
                | c # code' \<Rightarrow> rle_run Streaming (rle_spec Streaming (cache_bytes ctrl2) code') len (replicate (len + 1) c))
           | kByteRleType_unrle \<Rightarrow>
               (let n = add64 len 1 in
                if length ?code < n then None
                else rle_run Streaming (rle_spec Streaming (cache_bytes ctrl2) (drop n ?code)) len (take n ?code)))"
        unfolding rest rle_spec.simps [of Streaming ?ctrl ?code] using x(4) y(5) by simp
      have set_rest: "rle_run Streaming r len (replicate (len + 1) v)
          = (if map_option ((@) (replicate (add64 len 1) v)) r = Some [] then None
             else map_option ((@) (replicate (add64 len 1) v)) r)" for v and r :: "byte list option"
        using wrap by (cases r; cases "len = 2 ^ 64 - 1") (auto simp: rle_run_def)
      have ready: "rle_ok (l\<lparr>ctrlClip := ctrl2\<rparr>)" "rle_full (l\<lparr>ctrlClip := ctrl2\<rparr>) = rle_full l"
        using l(1) r2 by (auto simp: rle_ok_def rle_full_def)
      show ?case
      proof (cases "rle_type (hd ?ctrl)")
        case kByteRleType_rle0
        let ?l = "l\<lparr>ctrlClip := ctrl2, memSetLength := add64 len 1, memSetValue := 0\<rparr>"
        have "rle_rest ?l = map_option ((@) (replicate (add64 len 1) 0)) (rle_spec Streaming (cache_bytes ctrl2) ?code)"
          using l(2) by (cases "rle_spec Streaming (cache_bytes ctrl2) ?code")
            (simp_all add: rle_rest_def rle_copy_rest_def rle_idle_def)
        then have "Q ?l" using ready left spec kByteRleType_rle0
          by (intro Q) (simp_all only: rle_ok_def rle_full_def set_rest TByteRleType.case, auto)
        then show ?thesis using kByteRleType_rle0 y(1) by simp
      next
        case kByteRleType_rle255
        let ?l = "l\<lparr>ctrlClip := ctrl2, memSetLength := add64 len 1, memSetValue := 255\<rparr>"
        have "rle_rest ?l = map_option ((@) (replicate (add64 len 1) 255)) (rle_spec Streaming (cache_bytes ctrl2) ?code)"
          using l(2) by (cases "rle_spec Streaming (cache_bytes ctrl2) ?code")
            (simp_all add: rle_rest_def rle_copy_rest_def rle_idle_def)
        then have "Q ?l" using ready left spec kByteRleType_rle255
          by (intro Q) (simp_all only: rle_ok_def rle_full_def set_rest TByteRleType.case, auto)
        then show ?thesis using kByteRleType_rle255 y(1) by simp
      next
        case kByteRleType_unrle
        let ?l = "l\<lparr>ctrlClip := ctrl2, memCopyLength := add64 len 1\<rparr>"
        have "rle_rest l = (if rle_rest ?l = Some [] then None else rle_rest ?l)"
          using l(2) wrap spec kByteRleType_unrle
          by (cases "len = 2 ^ 64 - 1"; cases "rle_spec Streaming (cache_bytes ctrl2) (drop (add64 len 1) ?code)")
            (auto simp: rle_rest_def rle_copy_rest_def rle_idle_def rle_run_def Let_def)
        then have "Q ?l" using ready left by (intro Q) (simp_all only: rle_ok_def rle_full_def, auto)
        then show ?thesis using kByteRleType_unrle y(1) by simp
      next
        case kByteRleType_rle
        have "hoare S (rbind (TStreamCacheClip_readData (rleCodeClip l) 1) (\<lambda>(pSetValue, code).
            Ok (l\<lparr>ctrlClip := ctrl2, rleCodeClip := code, memSetValue := hd pSetValue, memSetLength := add64 len 1\<rparr>))) Q"
        proof (rule hoare_bind [where P = "\<lambda>(d, c'). cache_reads (rleCodeClip l) d c' \<and> length d = 1"], goal_cases)
          case 1
          have "?code \<noteq> []" if S using S [OF that] spec kByteRleType_rle by auto
          then show ?case
            by (intro readData_rule [OF c(2)]) (use S c(3) in \<open>auto simp: rle_full_def Suc_le_eq\<close>)
        next
          case (2 z)
          then obtain v c' where z: "z = ([v], c')" "cache_reads (rleCodeClip l) [v] c'"
            by (cases z) (auto simp: length_Suc_conv)
          note r3 = cache_readsD [OF z(2)]
          let ?l = "l\<lparr>ctrlClip := ctrl2, rleCodeClip := c', memSetValue := v, memSetLength := add64 len 1\<rparr>"
          have "rle_rest ?l = map_option ((@) (replicate (add64 len 1) v)) (rle_spec Streaming (cache_bytes ctrl2) (cache_bytes c'))"
            using l(2) by (cases "rle_spec Streaming (cache_bytes ctrl2) (cache_bytes c')")
              (simp_all add: rle_rest_def rle_copy_rest_def rle_idle_def)
          then have "rle_rest l = (if rle_rest ?l = Some [] then None else rle_rest ?l)"
            using spec kByteRleType_rle r3(4) by (simp only: set_rest TByteRleType.case append.simps list.case)
          then have "Q ?l" using ready left r3 by (intro Q) (simp_all only: rle_ok_def rle_full_def, auto)
          then show ?case by (simp add: z(1))
        qed
        then show ?thesis using kByteRleType_rle y(1) by simp
      qed
    qed
    then show ?case using x(1,3) by simp
  qed
qed

lemma decode_add_loop_rule:
  assumes "rle_ok l" "out_room out n" "n = 0 \<or> rle_idle l"
    and "S \<Longrightarrow> rle_full l \<and> (\<exists>r. rle_rest l = Some r \<and> n \<le> length r)"
  shows "hoare S (decode_add_loop l n out) (\<lambda>(l', n', stored, out').
      if n' = 0 then \<exists>d. rle_reads l d l' \<and> length d = n \<and> out_adds out d stored out' else \<not> S)"
  using assms
proof (induction "TStreamCacheClip_leaveSize (ctrlClip l)" arbitrary: l n out rule: less_induct)
  case less
  note l = less.prems(1)
  show ?case
  proof (cases "n > 0 \<and> \<not> TStreamCacheClip_isFinish (ctrlClip l)")
    case False
    have "\<not> S" if "n \<noteq> 0"
    proof
      assume S
      from less.prems(4) [OF this] obtain r where "rle_rest l = Some r" "n \<le> length r" by blast
      moreover have "rle_idle l" "cache_bytes (ctrlClip l) = []"
        using that False less.prems(3) l cache_finish_bytes by (auto simp: rle_ok_def)
      ultimately show False using that by (auto simp: rle_rest_idle split: if_splits)
    qed
    then show ?thesis using False l unfolding decode_add_loop.simps [of l n out]
      by (auto intro!: exI [of _ "[]"])
  next
    case True
    have idle: "rle_idle l" using True less.prems(3) by simp
    show ?thesis unfolding decode_add_loop.simps [of l n out] if_P [OF True]
    proof (rule hoare_bind [where P = "\<lambda>l'. rle_ok l' \<and> rle_full l' = rle_full l \<and>
        rle_rest l = (if rle_rest l' = Some [] then None else rle_rest l') \<and>
        TStreamCacheClip_leaveSize (ctrlClip l') < TStreamCacheClip_leaveSize (ctrlClip l)"], goal_cases)
      case 1
      show ?case by (rule next_rule [OF l idle]) (use True less.prems(4) in auto)
    next
      case (2 l1)
      then have l1: "rle_ok l1" "rle_full l1 = rle_full l"
        "rle_rest l = (if rle_rest l1 = Some [] then None else rle_rest l1)"
        "TStreamCacheClip_leaveSize (ctrlClip l1) < TStreamCacheClip_leaveSize (ctrlClip l)" by auto
      have S1: "rle_full l1 \<and> (\<exists>r. rle_rest l1 = Some r \<and> n \<le> length r)" if S
        using less.prems(4) [OF that] l1(2,3) by (auto split: if_splits)
      show ?case
      proof (rule hoare_bind [where P = "\<lambda>(l2, n2, stored, out2). \<exists>d. rle_reads l1 d l2 \<and> out_adds out d stored out2 \<and>
            n = length d + n2 \<and> (n2 = 0 \<or> rle_idle l2) \<and> ctrlClip l2 = ctrlClip l1"], goal_cases)
        case 1
        show ?case by (rule mem_add_rule [OF l1(1) less.prems(2)]) (use S1 in auto)
      next
        case (2 x)
        then obtain l2 n2 stored out2 d where x: "x = (l2, n2, stored, out2)" "rle_reads l1 d l2"
          "out_adds out d stored out2" "n = length d + n2" "n2 = 0 \<or> rle_idle l2" "ctrlClip l2 = ctrlClip l1"
          by (cases x) auto
        note r2 = rle_readsD [OF x(2)]
        have less2: "TStreamCacheClip_leaveSize (ctrlClip l2) < TStreamCacheClip_leaveSize (ctrlClip l)"
          using l1(4) x(6) by simp
        have "out_room out2 n2" by (rule out_adds_room [OF x(3)]) (use less.prems(2) x(4) in simp)
        moreover have "rle_full l2 \<and> (\<exists>r. rle_rest l2 = Some r \<and> n2 \<le> length r)" if S
          using S1 [OF that] r2 x(4) by auto
        ultimately have IH: "hoare S (decode_add_loop l2 n2 out2) (\<lambda>(l', n', stored, out').
            if n' = 0 then \<exists>d. rle_reads l2 d l' \<and> length d = n2 \<and> out_adds out2 d stored out' else \<not> S)"
          by (intro less.hyps [OF less2 r2(1)] x(5))
        have compose: "rle_reads l (d @ d') l3" if "rle_reads l2 d' l3" "length d' = n2" for d' l3
        proof -
          have "rle_reads l1 (d @ d') l3" by (rule rle_reads_trans [OF x(2) that(1)])
          moreover have "length (d @ d') = n" using x(4) that(2) by simp
          ultimately show ?thesis
            using l1 True by (auto simp: rle_reads_def split: if_splits)
        qed
        have "hoare S (rbind (decode_add_loop l2 n2 out2) (\<lambda>(l3, n3, stored', out3).
              Ok (l3, n3, stored @ stored', out3))) (\<lambda>(l', n', stored, out').
            if n' = 0 then \<exists>d. rle_reads l d l' \<and> length d = n \<and> out_adds out d stored out' else \<not> S)"
          by (rule hoare_bind [OF IH])
            (use compose out_adds_append [OF x(3)] x(4) in \<open>fastforce split: if_splits\<close>)
        then show ?case using less2 by (simp add: x(1))
      qed
    qed
  qed
qed

lemma decode_add_rule:
  assumes l: "rle_ok l" and room: "out_room out n"
    and S: "S \<Longrightarrow> rle_full l \<and> (\<exists>r. rle_rest l = Some r \<and> n \<le> length r)"
    and Q: "\<And>l' d stored out'. rle_reads l d l' \<Longrightarrow> length d = n \<Longrightarrow> out_adds out d stored out' \<Longrightarrow> Q (stored, l')"
  shows "hoare S (TBytesRle_load_stream_decode_add l out n) Q"
  unfolding TBytesRle_load_stream_decode_add_def
proof (rule hoare_bind [where P = "\<lambda>(l', n', stored, out'). \<exists>d. rle_reads l d l' \<and> out_adds out d stored out' \<and>
      n = length d + n' \<and> (n' = 0 \<or> rle_idle l')"], goal_cases)
  case 1
  show ?case by (rule mem_add_rule [OF l room]) (use S in auto)
next
  case (2 x)
  then obtain l1 n1 stored out1 d where x: "x = (l1, n1, stored, out1)" "rle_reads l d l1" "out_adds out d stored out1"
    "n = length d + n1" "n1 = 0 \<or> rle_idle l1" by (cases x) auto
  note r = rle_readsD [OF x(2)]
  have "hoare S (decode_add_loop l1 n1 out1) (\<lambda>(l', n', stored, out').
      if n' = 0 then \<exists>d. rle_reads l1 d l' \<and> length d = n1 \<and> out_adds out1 d stored out' else \<not> S)"
  proof (rule decode_add_loop_rule [OF r(1) _ x(5)])
    show "out_room out1 n1" by (rule out_adds_room [OF x(3)]) (use room x(4) in simp)
    show "rle_full l1 \<and> (\<exists>r. rle_rest l1 = Some r \<and> n1 \<le> length r)" if S using S [OF that] r x(4) by auto
  qed
  then have "hoare S (rbind (decode_add_loop l1 n1 out1) (\<lambda>(l, n, stored', out).
      if n = 0 then Ok (stored @ stored', l) else Fail)) Q"
  proof (rule hoare_bind, goal_cases)
    case (1 y)
    then show ?case
      using rle_reads_trans [OF x(2)] out_adds_append [OF x(3)] x(4)
      by (cases y) (auto intro!: Q split: if_splits)
  qed
  then show ?case by (simp add: x(1))
qed

lemma decode_skip_rule:
  assumes l: "rle_ok l" and S: "S \<Longrightarrow> rle_full l \<and> (\<exists>r. rle_rest l = Some r \<and> n \<le> length r)"
    and Q: "\<And>l' d. rle_reads l d l' \<Longrightarrow> length d = n \<Longrightarrow> Q l'"
  shows "hoare S (TBytesRle_load_stream_decode_skip l n) Q"
  unfolding TBytesRle_load_stream_decode_skip_def
proof (rule hoare_bind [where P = "\<lambda>(stored, l'). \<exists>d. rle_reads l d l' \<and> length d = n"], goal_cases)
  case 1
  show ?case by (rule decode_add_rule [OF l]) (use S in \<open>auto simp: out_room_def\<close>)
qed (use Q in auto)

lemma rle_decode_skip_rule:
  assumes "rle_ok l" "S \<Longrightarrow> rle_full l \<and> (\<exists>r. rle_rest l = Some r \<and> n \<le> length r)"
    and "\<And>l' d. rle_reads l d l' \<Longrightarrow> length d = n \<Longrightarrow> Q l'"
  shows "hoare S (rle_decode_skip l n) Q"
  using assms
proof (induction n arbitrary: l Q rule: less_induct)
  case (less n)
  show ?case
  proof (cases "n = 0")
    case True
    then show ?thesis using less.prems(3) [of "[]" l] less.prems(1) unfolding rle_decode_skip.simps [of l n] by simp
  next
    case False
    define m :: nat where "m = min (2 ^ 64 - 1) n"
    have m: "(if 2 ^ 64 - 1 > n then n else 2 ^ 64 - 1) = m" "0 < m" "m \<le> n" using False by (auto simp: m_def)
    have "hoare S (rbind (TBytesRle_load_stream_decode_skip l m) (\<lambda>l. rle_decode_skip l (n - m))) Q"
    proof (rule hoare_bind [where P = "\<lambda>l'. \<exists>d. rle_reads l d l' \<and> length d = m"], goal_cases)
      case 1
      show ?case by (rule decode_skip_rule [OF less.prems(1)]) (use less.prems(2) m(3) in force)+
    next
      case (2 l1)
      then obtain d where d: "rle_reads l d l1" "length d = m" by blast
      note r = rle_readsD [OF d(1)]
      show ?case
      proof (rule less.IH)
        show "rle_full l1 \<and> (\<exists>r. rle_rest l1 = Some r \<and> n - m \<le> length r)" if S
          using less.prems(2) [OF that] r d(2) by auto
        show "Q l'" if "rle_reads l1 d' l'" "length d' = n - m" for l' d'
          by (rule less.prems(3) [OF rle_reads_trans [OF d(1) that(1)]]) (use d(2) that(2) m(3) in simp)
      qed (use r m False in auto)
    qed
    then show ?thesis using False unfolding rle_decode_skip.simps [of l n] Let_def m(1) by simp
  qed
qed

end

section \<open>Streams of a patch\<close>

text \<open>
  The streams that a patch works on: the diff, read through clips; the old data, read anywhere;
  the new data, written in order.
\<close>

locale patch_streams = i: input_stream ok avail + r: random_stream rok contents + o: output_stream ook written
  for ok :: "'s hpatch_TStreamInput \<Rightarrow> bool" and avail
    and rok :: "'r hpatch_TStreamInput \<Rightarrow> bool" and contents
    and ook :: "'o hpatch_TStreamOutput \<Rightarrow> bool" and written
begin

lemma patch_add_old_rule:
  assumes "o.out_ok out" "i.rle_ok l" "rok old" "0 < k" "k < 2 ^ 63" "pos + n \<le> length (contents old)"
    and "S \<Longrightarrow> i.rle_full l \<and> (\<exists>r. i.rle_rest l = Some r \<and> n \<le> length r) \<and>
      length (o.out_bytes out) + n \<le> o.out_size out"
    and "\<And>out' l' old' d. o.out_appends out (bytes_add d (take n (drop pos (contents old)))) out' \<Longrightarrow>
      i.rle_reads l d l' \<Longrightarrow> length d = n \<Longrightarrow> rok old' \<Longrightarrow> contents old' = contents old \<Longrightarrow>
      streamSize old' = streamSize old \<Longrightarrow> Q (out', l', old')"
  shows "hoare S (patch_add_old_with_rle out l old pos n k) Q"
  using assms
proof (induction n arbitrary: out l old pos Q rule: less_induct)
  case (less n)
  note out = less.prems(1) and l = less.prems(2) and old = less.prems(3)
  show ?case
  proof (cases "n = 0")
    case True
    then show ?thesis using less.prems(8) [of "[]" out l old] out l old
      unfolding patch_add_old_with_rle.simps [of out l old pos n k] by simp
  next
    case False
    define m where "m = min k n"
    have m: "(if k > n then n else k) = m" "0 < m" "m \<le> n" "m \<le> k" using False less.prems(4) by (auto simp: m_def)
    have size: "length (contents old) < 2 ^ 64" using r.contents_size [OF old] by simp
    have add: "add64 pos m = pos + m" by (rule add64_eq) (use less.prems(6) m(3) size in simp)
    have "hoare S (rbind (sread old pos m) (\<lambda>(aCache, old).
          rbind (TBytesRle_load_stream_decode_add l (Some aCache) m) (\<lambda>(aCache, l).
          rbind (TOutStreamCache_write out aCache) (\<lambda>out.
          patch_add_old_with_rle out l old (pos + m) (n - m) k)))) Q"
    proof (rule hoare_bind [where P = "\<lambda>(d, old'). d = take m (drop pos (contents old)) \<and> length d = m \<and>
          rok old' \<and> contents old' = contents old \<and> streamSize old' = streamSize old"], goal_cases)
      case 1
      show ?case by (rule r.random_rule [OF old]) (use less.prems(6) m(3) size in auto)
    next
      case (2 x)
      define o1 where "o1 = take m (drop pos (contents old))"
      from 2 obtain old1 where x: "x = (o1, old1)" "length o1 = m" "rok old1" "contents old1 = contents old"
        "streamSize old1 = streamSize old" by (cases x) (auto simp: o1_def)
      have "hoare S (rbind (TBytesRle_load_stream_decode_add l (Some o1) m) (\<lambda>(aCache, l).
          rbind (TOutStreamCache_write out aCache) (\<lambda>out.
          patch_add_old_with_rle out l old1 (pos + m) (n - m) k))) Q"
      proof (rule hoare_bind [where P = "\<lambda>(s, l'). \<exists>d. i.rle_reads l d l' \<and> length d = m \<and> s = bytes_add d o1"], goal_cases)
        case 1
        show ?case
          by (rule i.decode_add_rule [OF l])
            (use less.prems(7) x(2) m(3) bytes_add_comm in \<open>force simp: out_room_def out_adds_def\<close>)+
      next
        case (2 y)
        then obtain l1 d where y: "y = (bytes_add d o1, l1)" "i.rle_reads l d l1" "length d = m" by (cases y) auto
        note r1 = i.rle_readsD [OF y(2)]
        have "hoare S (rbind (TOutStreamCache_write out (bytes_add d o1)) (\<lambda>out.
            patch_add_old_with_rle out l1 old1 (pos + m) (n - m) k)) Q"
        proof (rule hoare_bind [where P = "o.out_appends out (bytes_add d o1)"], goal_cases)
          case 1
          show ?case by (rule o.write_rule [OF out]) (use less.prems(5,7) m x(2) y(3) in auto)
        next
          case (2 out1)
          note a = o.out_appendsD [OF 2(2)]
          show ?case
          proof (rule less.IH)
            show "n - m < n" using m False by simp
            show "pos + m + (n - m) \<le> length (contents old1)" using less.prems(6) x(4) m(3) by simp
            show "i.rle_full l1 \<and> (\<exists>r. i.rle_rest l1 = Some r \<and> n - m \<le> length r) \<and>
              length (o.out_bytes out1) + (n - m) \<le> o.out_size out1" if S
              using less.prems(7) [OF that] r1 y(3) a x(2) m(3) by auto
            fix out' l' old' d'
            assume b: "o.out_appends out1 (bytes_add d' (take (n - m) (drop (pos + m) (contents old1)))) out'"
              "i.rle_reads l1 d' l'" "length d' = n - m" "rok old'" "contents old' = contents old1"
              "streamSize old' = streamSize old1"
            show "Q (out', l', old')"
            proof (rule less.prems(8))
              have "take n (drop pos (contents old)) = o1 @ take (n - m) (drop (pos + m) (contents old))"
                unfolding o1_def using take_add [of m "n - m" "drop pos (contents old)"] m(3) by (simp add: add.commute)
              then have "bytes_add (d @ d') (take n (drop pos (contents old)))
                = bytes_add d o1 @ bytes_add d' (take (n - m) (drop (pos + m) (contents old1)))"
                using x(2,4) y(3) by (simp add: bytes_add_append)
              then show "o.out_appends out (bytes_add (d @ d') (take n (drop pos (contents old)))) out'"
                using o.out_appends_trans [OF 2(2) b(1)] by simp
              show "i.rle_reads l (d @ d') l'" by (rule i.rle_reads_trans [OF y(2) b(2)])
            qed (use b x y m in auto)
          qed (use a r1 x less.prems in auto)
        qed
        then show ?case by (simp add: y(1))
      qed
      then show ?case by (simp add: x(1))
    qed
    then show ?thesis using False m(2)
      unfolding patch_add_old_with_rle.simps [of out l old pos n k] Let_def m(1) add by simp
  qed
qed

end

section \<open>Properties\<close>

text \<open>C8: the streaming run-length loader, whatever the sizes of its buffers and wherever the last
  call stopped inside a run, adds the next \<open>n\<close> bytes of what its two sections stand for to the
  bytes it is given, and keeps the rest for the next call.\<close>

theorem decode_add_next_bytes:
  assumes "mem_in.rle_ok l" "mem_in.rle_full l" "mem_in.rle_rest l = Some r" "length dst \<le> length r"
  shows "\<exists>l'. TBytesRle_load_stream_decode_add l (Some dst) (length dst)
       = Ok (bytes_add dst (take (length dst) r), l') \<and>
     mem_in.rle_ok l' \<and> mem_in.rle_full l' \<and> mem_in.rle_rest l' = Some (drop (length dst) r)"
proof -
  have "hoare True (TBytesRle_load_stream_decode_add l (Some dst) (length dst))
      (\<lambda>(stored, l'). stored = bytes_add dst (take (length dst) r) \<and> mem_in.rle_ok l' \<and> mem_in.rle_full l' \<and>
         mem_in.rle_rest l' = Some (drop (length dst) r))"
  proof (rule mem_in.decode_add_rule [OF assms(1)], goal_cases)
    case (3 l' d stored out')
    note rr = mem_in.rle_readsD [OF 3(1)]
    obtain r' where "mem_in.rle_rest l' = Some r'" "r = d @ r'"
      using rr assms(3) by (cases "mem_in.rle_rest l'") auto
    then show ?case using 3(2,3) rr assms(2) by (auto simp: out_adds_def)
  qed (use assms in \<open>auto simp: out_room_def\<close>)
  then show ?thesis by (auto dest: hoare_success)
qed

text \<open>Two of three pending bytes of value 5.\<close>

theorem decode_add_next_bytes_witness:
  "\<exists>l'. TBytesRle_load_stream_decode_add
       (let c = \<lparr>streamPos = 0, streamPos_end = 0, srcStream = mem_as_hStreamInput [],
                 cacheBuf = replicate 11 0, cacheBegin = 11, cacheEnd = 11\<rparr>
        in \<lparr>memCopyLength = 0, memSetLength = 3, memSetValue = 5, ctrlClip = c, rleCodeClip = c\<rparr>)
       (Some [1, 2]) 2 = Ok ([6, 7], l')"
proof -
  define c :: "byte list TStreamCacheClip" where
    "c = \<lparr>streamPos = 0, streamPos_end = 0, srcStream = mem_as_hStreamInput [],
          cacheBuf = replicate 11 0, cacheBegin = 11, cacheEnd = 11\<rparr>"
  let ?l = "\<lparr>memCopyLength = 0, memSetLength = 3, memSetValue = 5, ctrlClip = c, rleCodeClip = c\<rparr>"
  have "mem_in.cache_ok c" "mem_in.cache_full c" "mem_in.cache_bytes c = []" "cacheEnd c = 11"
    by (simp_all add: c_def mem_in.cache_ok_def mem_in.cache_full_def mem_in.cache_bytes_def)
  then have "mem_in.rle_ok ?l" "mem_in.rle_full ?l" "mem_in.rle_rest ?l = Some [5, 5, 5]"
    by (simp_all add: mem_in.rle_ok_def mem_in.rle_full_def mem_in.rle_rest_def rle_copy_rest_def numeral_3_eq_3)
  then show ?thesis using decode_add_next_bytes [of ?l "[5, 5, 5]" "[1, 2]"]
    unfolding c_def [symmetric] Let_def by (auto simp: bytes_add_def numeral_2_eq_2)
qed

end
