(* ===== verification/Rle0.thy ===== *)
theory Rle0
  imports RleStream
begin

text \<open>
  \<open>rle0_decoder_t\<close> of \<open>patch.c\<close>, the run-length decoder of single-stream diffs: code that
  alternates a count of zeros and a count of literal bytes with the bytes.  The labels of
  \<open>_rle0_decoder_add\<close> are the two cases of \<open>rle0_run\<close>.
\<close>

lemma unpackUInt_shorter: "hpatch_unpackUInt p = Ok (v, q) \<Longrightarrow> length q < length p"
  using unpackUIntWithTag_Ok [of p 0 v q] by (auto simp: hpatch_unpackUInt_def)

section \<open>The code\<close>

record rle0_decoder =
  r0_code :: "byte list"
  r0_len0 :: nat
  r0_lenv :: nat
  isNeedDecode0 :: bool

definition rle0_decoder_init :: "byte list \<Rightarrow> rle0_decoder" where
  "rle0_decoder_init code = \<lparr>r0_code = code, r0_len0 = 0, r0_lenv = 0, isNeedDecode0 = True\<rparr>"

text \<open>\<open>_0_process\<close> (\<open>zero\<close>) and \<open>_v_process\<close>: the bytes of the output, changed, and the decoder.\<close>

function rle0_run :: "bool \<Rightarrow> rle0_decoder \<Rightarrow> byte list \<Rightarrow> (byte list \<times> rle0_decoder) res" where
  "rle0_run zero self out_data =
     (if zero then
        if r0_len0 self \<ge> length out_data then
          Ok (out_data, self\<lparr>r0_len0 := r0_len0 self - length out_data\<rparr>)
        else
          rbind (hpatch_unpackUInt (r0_code self)) (\<lambda>(lenv, code).
          rbind (check (\<not> lenv > length code)) (\<lambda>_.
          rbind (rle0_run False (self\<lparr>r0_code := code, r0_len0 := 0, r0_lenv := lenv, isNeedDecode0 := True\<rparr>)
                   (drop (r0_len0 self) out_data)) (\<lambda>(d, self').
          Ok (take (r0_len0 self) out_data @ d, self'))))
      else
        if r0_lenv self \<ge> length out_data then
          rbind (mem_take (length out_data) (r0_code self)) (\<lambda>(src, code).
          Ok (bytes_add out_data src, self\<lparr>r0_code := code, r0_lenv := r0_lenv self - length out_data\<rparr>))
        else
          rbind (mem_take (r0_lenv self) (r0_code self)) (\<lambda>(src, code).
          rbind (hpatch_unpackUInt code) (\<lambda>(len0, code').
          rbind (rle0_run True (self\<lparr>r0_code := code', r0_lenv := 0, r0_len0 := len0, isNeedDecode0 := False\<rparr>)
                   (drop (r0_lenv self) out_data)) (\<lambda>(d, self').
          Ok (bytes_add (take (r0_lenv self) out_data) src @ d, self')))))"
  by pat_completeness auto
termination
  by (relation "measure (\<lambda>(z, self, out). length (r0_code self))")
    (auto simp: mem_take_def dest!: unpackUInt_shorter split: if_splits)

declare rle0_run.simps [simp del]

definition rle0_decoder_add :: "rle0_decoder \<Rightarrow> byte list \<Rightarrow> (byte list \<times> rle0_decoder) res" where
  "rle0_decoder_add self out_data =
     (if r0_len0 self \<noteq> 0 then rle0_run True self out_data
      else if r0_lenv self \<noteq> 0 then rle0_run False self out_data
      else
        rbind (require (length out_data > 0)) (\<lambda>_.
        if isNeedDecode0 self then
          rbind (hpatch_unpackUInt (r0_code self)) (\<lambda>(len0, code).
          rle0_run True (self\<lparr>r0_code := code, r0_len0 := len0, isNeedDecode0 := False\<rparr>) out_data)
        else
          rbind (hpatch_unpackUInt (r0_code self)) (\<lambda>(lenv, code).
          rbind (check (\<not> lenv > length code)) (\<lambda>_.
          rle0_run False (self\<lparr>r0_code := code, r0_lenv := lenv, isNeedDecode0 := True\<rparr>) out_data))))"

text \<open>\<open>_patch_add_old_with_rle0\<close>.\<close>

function patch_add_old_with_rle0 ::
  "'o TOutStreamCache \<Rightarrow> rle0_decoder \<Rightarrow> 'r hpatch_TStreamInput \<Rightarrow> nat \<Rightarrow> nat \<Rightarrow> nat \<Rightarrow>
   ('o TOutStreamCache \<times> rle0_decoder \<times> 'r hpatch_TStreamInput) res" where
  "patch_add_old_with_rle0 outCache decoder old old_pos addLength aCacheSize =
     (if addLength > 0 then
        let decodeStep = (if aCacheSize > addLength then addLength else aCacheSize) in
        if decodeStep = 0 then Fault
        else
          rbind (sread old old_pos decodeStep) (\<lambda>(aCache, old).
          rbind (rle0_decoder_add decoder aCache) (\<lambda>(aCache, decoder).
          rbind (TOutStreamCache_write outCache aCache) (\<lambda>outCache.
          patch_add_old_with_rle0 outCache decoder old (add64 old_pos decodeStep) (addLength - decodeStep) aCacheSize)))
      else Ok (outCache, decoder, old))"
  by pat_completeness auto
termination
  by (relation "measure (\<lambda>(out, l, old, p, n, k). n)") (auto split: if_splits)

declare patch_add_old_with_rle0.simps [simp del]

section \<open>The string of a decoder\<close>

text \<open>All the bytes that code stands for, up to where it ends or is malformed.\<close>

function rle0_spec :: "bool \<Rightarrow> byte list \<Rightarrow> byte list" where
  "rle0_spec zero code =
     (case hpatch_unpackUInt code of
        Ok (n, code') \<Rightarrow>
          (if zero then replicate n 0 @ rle0_spec False code'
           else if n \<le> length code' then take n code' @ rle0_spec True (drop n code') else [])
      | _ \<Rightarrow> [])"
  by pat_completeness auto
termination
  by (relation "measure (\<lambda>(z, code). length code)")
    (auto dest!: unpackUInt_shorter)

declare rle0_spec.simps [simp del]

definition rle0_rest :: "rle0_decoder \<Rightarrow> byte list" where
  "rle0_rest self =
     replicate (r0_len0 self) 0 @ take (r0_lenv self) (r0_code self)
       @ rle0_spec (isNeedDecode0 self) (drop (r0_lenv self) (r0_code self))"

definition rle0_ok :: "rle0_decoder \<Rightarrow> bool" where
  "rle0_ok self \<longleftrightarrow>
     r0_lenv self \<le> length (r0_code self) \<and>
     (0 < r0_len0 self \<longrightarrow> \<not> isNeedDecode0 self) \<and> (0 < r0_lenv self \<longrightarrow> isNeedDecode0 self)"

lemma rle0_init [simp]:
  "rle0_ok (rle0_decoder_init code)" "rle0_rest (rle0_decoder_init code) = rle0_spec True code"
  by (simp_all add: rle0_decoder_init_def rle0_ok_def rle0_rest_def)

text \<open>What adding \<open>n\<close> bytes does: the next \<open>n\<close> bytes of the string, or an error when there are fewer.\<close>

definition rle0_adds :: "rle0_decoder \<Rightarrow> byte list \<Rightarrow> (byte list \<times> rle0_decoder) res \<Rightarrow> bool" where
  "rle0_adds self out r \<longleftrightarrow>
     (if length out \<le> length (rle0_rest self)
      then \<exists>self'. r = Ok (bytes_add out (take (length out) (rle0_rest self)), self') \<and> rle0_ok self' \<and>
             rle0_rest self' = drop (length out) (rle0_rest self)
      else r = Fail)"

lemma unpackUInt_cases2:
  obtains (Fail) "hpatch_unpackUInt p = Fail" | (Ok) v q where "hpatch_unpackUInt p = Ok (v, q)"
  using unpackUIntWithTag_no_Fault [of p 0] by (cases "hpatch_unpackUInt p") (auto simp: hpatch_unpackUInt_def)

lemma bytes_add_split:
  assumes "length xs \<le> length out"
  shows "bytes_add out (xs @ ys) = bytes_add (take (length xs) out) xs @ bytes_add (drop (length xs) out) ys"
proof -
  have "length (take (length xs) out) = length xs" using assms by simp
  then have "bytes_add (take (length xs) out @ drop (length xs) out) (xs @ ys)
    = bytes_add (take (length xs) out) xs @ bytes_add (drop (length xs) out) ys" by (rule bytes_add_append)
  then show ?thesis by simp
qed

lemma rle0_adds_same: "rle0_adds s out r \<Longrightarrow> rle0_rest s = rle0_rest self \<Longrightarrow> rle0_adds self out r"
  unfolding rle0_adds_def by metis

lemma rle0_run_adds:
  assumes "rle0_ok self" "if zero then r0_lenv self = 0 \<and> \<not> isNeedDecode0 self else r0_len0 self = 0 \<and> isNeedDecode0 self"
  shows "rle0_adds self out (rle0_run zero self out)"
  using assms
proof (induction zero self out rule: rle0_run.induct)
  case (1 zero self out)
  let ?c = "r0_code self"
  show ?case
  proof (cases zero)
    case True
    let ?n = "r0_len0 self"
    have h: "r0_lenv self = 0" "\<not> isNeedDecode0 self" using "1.prems" True by auto
    then have rest: "rle0_rest self = replicate ?n 0 @ rle0_spec False ?c" by (simp add: rle0_rest_def)
    show ?thesis
    proof (cases "length out \<le> ?n")
      case le: True
      then have "rle0_run zero self out = Ok (out, self\<lparr>r0_len0 := ?n - length out\<rparr>)"
        unfolding rle0_run.simps [of zero self out] using True le by simp
      then show ?thesis using h le "1.prems"(1)
        by (auto simp: rle0_adds_def rest rle0_ok_def) (simp add: rle0_rest_def)
    next
      case gt: False
      show ?thesis
      proof (cases rule: unpackUInt_cases2 [of ?c])
        case Fail
        then show ?thesis using True gt unfolding rle0_run.simps [of zero self out]
          by (simp add: rle0_adds_def rest rle0_spec.simps [of False ?c])
      next
        case (Ok v q)
        show ?thesis
        proof (cases "v \<le> length q")
          case False
          then show ?thesis using True gt Ok unfolding rle0_run.simps [of zero self out]
            by (simp add: rle0_adds_def rest rle0_spec.simps [of False ?c] check_def)
        next
          case v: True
          let ?s = "self\<lparr>r0_code := q, r0_len0 := 0, r0_lenv := v, isNeedDecode0 := True\<rparr>"
          have rs: "rle0_rest ?s = take v q @ rle0_spec True (drop v q)" by (simp add: rle0_rest_def)
          have rest': "rle0_rest self = replicate ?n 0 @ rle0_rest ?s"
            using Ok v by (simp add: rest rs rle0_spec.simps [of False ?c])
          have IH: "rle0_adds ?s (drop ?n out) (rle0_run False ?s (drop ?n out))"
            by (rule "1.IH"(1) [of "(v, q)" v q "()"]) (use True gt Ok v in \<open>auto simp: rle0_ok_def check_def\<close>)
          have run: "rle0_run zero self out = rbind (rle0_run False ?s (drop ?n out)) (\<lambda>(d, s'). Ok (take ?n out @ d, s'))"
            unfolding rle0_run.simps [of zero self out] using True gt Ok v by (simp add: check_def)
          have "bytes_add out (replicate ?n 0 @ take (length out - ?n) (rle0_rest ?s))
              = take ?n out @ bytes_add (drop ?n out) (take (length out - ?n) (rle0_rest ?s))"
            using bytes_add_split [of "replicate ?n 0" out "take (length out - ?n) (rle0_rest ?s)"] gt by simp
          then show ?thesis using IH gt unfolding run
            by (auto simp: rle0_adds_def rest' take_replicate split: if_splits)
        qed
      qed
    qed
  next
    case False
    let ?n = "r0_lenv self"
    have h: "r0_len0 self = 0" "isNeedDecode0 self" "?n \<le> length ?c" using "1.prems" False by (auto simp: rle0_ok_def)
    then have rest: "rle0_rest self = take ?n ?c @ rle0_spec True (drop ?n ?c)" by (simp add: rle0_rest_def)
    show ?thesis
    proof (cases "length out \<le> ?n")
      case le: True
      have "take (length out) ?c = take (length out) (take ?n ?c)" using le by simp
      moreover have "drop (length out) (take ?n ?c) = take (?n - length out) (drop (length out) ?c)" by (simp add: drop_take)
      moreover have "rle0_run zero self out
          = Ok (bytes_add out (take (length out) ?c), self\<lparr>r0_code := drop (length out) ?c, r0_lenv := ?n - length out\<rparr>)"
        unfolding rle0_run.simps [of zero self out] using False h le by (simp add: mem_take_def)
      ultimately show ?thesis using h le
        by (auto simp: rle0_adds_def rest rle0_ok_def) (simp add: rle0_rest_def)
    next
      case gt: False
      show ?thesis
      proof (cases rule: unpackUInt_cases2 [of "drop ?n ?c"])
        case Fail
        then show ?thesis using False gt h unfolding rle0_run.simps [of zero self out]
          by (simp add: rle0_adds_def rest rle0_spec.simps [of True "drop ?n ?c"] mem_take_def)
      next
        case (Ok v q)
        let ?s = "self\<lparr>r0_code := q, r0_lenv := 0, r0_len0 := v, isNeedDecode0 := False\<rparr>"
        have rs: "rle0_rest ?s = replicate v 0 @ rle0_spec False q" by (simp add: rle0_rest_def)
        have rest': "rle0_rest self = take ?n ?c @ rle0_rest ?s"
          using Ok by (simp add: rest rs rle0_spec.simps [of True "drop ?n ?c"])
        have IH: "rle0_adds ?s (drop ?n out) (rle0_run True ?s (drop ?n out))"
          by (rule "1.IH"(2) [of "(take ?n ?c, drop ?n ?c)" "take ?n ?c" "drop ?n ?c" "(v, q)" v q])
            (use False gt Ok h in \<open>auto simp: rle0_ok_def mem_take_def\<close>)
        have run: "rle0_run zero self out = rbind (rle0_run True ?s (drop ?n out))
            (\<lambda>(d, s'). Ok (bytes_add (take ?n out) (take ?n ?c) @ d, s'))"
          unfolding rle0_run.simps [of zero self out] using False gt Ok h by (simp add: mem_take_def)
        have "bytes_add out (take ?n ?c @ take (length out - ?n) (rle0_rest ?s))
            = bytes_add (take ?n out) (take ?n ?c) @ bytes_add (drop ?n out) (take (length out - ?n) (rle0_rest ?s))"
          using bytes_add_split [of "take ?n ?c" out "take (length out - ?n) (rle0_rest ?s)"] gt h by simp
        then show ?thesis using IH gt h unfolding run
          by (auto simp: rle0_adds_def rest' split: if_splits)
      qed
    qed
  qed
qed

lemma rle0_decoder_adds:
  assumes "rle0_ok self" "out \<noteq> []"
  shows "rle0_adds self out (rle0_decoder_add self out)"
proof -
  let ?c = "r0_code self"
  consider "r0_len0 self \<noteq> 0" | "r0_len0 self = 0" "r0_lenv self \<noteq> 0" | "r0_len0 self = 0" "r0_lenv self = 0" by blast
  then show ?thesis
  proof cases
    case 3
    then have rest: "rle0_rest self = rle0_spec (isNeedDecode0 self) ?c" by (simp add: rle0_rest_def)
    show ?thesis
    proof (cases rule: unpackUInt_cases2 [of ?c])
      case Fail
      then show ?thesis using 3 assms
        by (simp add: rle0_adds_def rest rle0_decoder_add_def rle0_spec.simps [of _ ?c])
    next
      case (Ok v q)
      show ?thesis
      proof (cases "isNeedDecode0 self")
        case True
        let ?s = "self\<lparr>r0_code := q, r0_len0 := v, isNeedDecode0 := False\<rparr>"
        have "rle0_rest ?s = rle0_rest self"
          using Ok True 3 by (simp add: rest rle0_spec.simps [of True ?c]) (simp add: rle0_rest_def)
        moreover have "rle0_adds ?s out (rle0_run True ?s out)"
          by (rule rle0_run_adds) (use 3 in \<open>auto simp: rle0_ok_def\<close>)
        moreover have "rle0_decoder_add self out = rle0_run True ?s out"
          using 3 assms Ok True by (simp add: rle0_decoder_add_def)
        ultimately show ?thesis using rle0_adds_same by metis
      next
        case False
        let ?s = "self\<lparr>r0_code := q, r0_lenv := v, isNeedDecode0 := True\<rparr>"
        show ?thesis
        proof (cases "v \<le> length q")
          case True
          have "rle0_rest ?s = rle0_rest self"
            using Ok True False 3 by (simp add: rest rle0_spec.simps [of False ?c]) (simp add: rle0_rest_def)
          moreover have "rle0_adds ?s out (rle0_run False ?s out)"
            by (rule rle0_run_adds) (use 3 True in \<open>auto simp: rle0_ok_def\<close>)
          moreover have "rle0_decoder_add self out = rle0_run False ?s out"
            using 3 assms Ok True False by (simp add: rle0_decoder_add_def)
          ultimately show ?thesis using rle0_adds_same by metis
        next
          case long: False
          then show ?thesis using 3 assms Ok False
            by (simp add: rle0_adds_def rest rle0_decoder_add_def rle0_spec.simps [of _ ?c] check_def)
        qed
      qed
    qed
  qed (use assms in \<open>auto simp: rle0_decoder_add_def rle0_ok_def intro!: rle0_run_adds\<close>)
qed

text \<open>The same as a rule.\<close>

lemma rle0_add_rule:
  assumes "rle0_ok l" "out \<noteq> []" "S \<Longrightarrow> length out \<le> length (rle0_rest l)"
    and "\<And>d l'. rle0_rest l = d @ rle0_rest l' \<Longrightarrow> length d = length out \<Longrightarrow> rle0_ok l' \<Longrightarrow> Q (bytes_add out d, l')"
  shows "hoare S (rle0_decoder_add l out) Q"
proof (cases "length out \<le> length (rle0_rest l)")
  case True
  then obtain l' where l': "rle0_decoder_add l out = Ok (bytes_add out (take (length out) (rle0_rest l)), l')"
    "rle0_ok l'" "rle0_rest l' = drop (length out) (rle0_rest l)"
    using rle0_decoder_adds [OF assms(1,2)] by (auto simp: rle0_adds_def)
  have "Q (bytes_add out (take (length out) (rle0_rest l)), l')"
    by (rule assms(4)) (use l' True in auto)
  then show ?thesis using l'(1) by simp
next
  case False
  then show ?thesis using rle0_decoder_adds [OF assms(1,2)] assms(3) by (auto simp: rle0_adds_def)
qed

context patch_streams begin

lemma patch_add_old0_rule:
  assumes "o.out_ok out" "rle0_ok l" "rok old" "0 < k" "k < 2 ^ 63" "pos + n \<le> length (contents old)"
    and "S \<Longrightarrow> n \<le> length (rle0_rest l) \<and> length (o.out_bytes out) + n \<le> o.out_size out"
    and "\<And>out' l' old' d. o.out_appends out (bytes_add d (take n (drop pos (contents old)))) out' \<Longrightarrow>
      rle0_rest l = d @ rle0_rest l' \<Longrightarrow> rle0_ok l' \<Longrightarrow> length d = n \<Longrightarrow> rok old' \<Longrightarrow>
      contents old' = contents old \<Longrightarrow> streamSize old' = streamSize old \<Longrightarrow> Q (out', l', old')"
  shows "hoare S (patch_add_old_with_rle0 out l old pos n k) Q"
  using assms
proof (induction n arbitrary: out l old pos Q rule: less_induct)
  case (less n)
  note out = less.prems(1) and l = less.prems(2) and old = less.prems(3)
  show ?case
  proof (cases "n = 0")
    case True
    then show ?thesis using less.prems(8) [of "[]" out l old] out l old
      unfolding patch_add_old_with_rle0.simps [of out l old pos n k] by simp
  next
    case False
    define m where "m = min k n"
    have m: "(if k > n then n else k) = m" "0 < m" "m \<le> n" "m \<le> k" using False less.prems(4) by (auto simp: m_def)
    have size: "length (contents old) < 2 ^ 64" using r.contents_size [OF old] by simp
    have add: "add64 pos m = pos + m" by (rule add64_eq) (use less.prems(6) m(3) size in simp)
    define o1 where "o1 = take m (drop pos (contents old))"
    have o1: "length o1 = m" using less.prems(6) m(3) by (simp add: o1_def)
    have split: "take n (drop pos (contents old)) = o1 @ take (n - m) (drop (pos + m) (contents old))"
      unfolding o1_def using take_add [of m "n - m" "drop pos (contents old)"] m(3) by (simp add: add.commute)
    have "hoare S (rbind (sread old pos m) (\<lambda>(aCache, old).
          rbind (rle0_decoder_add l aCache) (\<lambda>(aCache, l).
          rbind (TOutStreamCache_write out aCache) (\<lambda>out.
          patch_add_old_with_rle0 out l old (pos + m) (n - m) k)))) Q"
    proof (rule hoare_bindI, rule r.random_rule [OF old], goal_cases)
      case (3 d1 old1)
      then have d1: "d1 = o1" by (simp add: o1_def)
      show ?case unfolding prod.case d1
      proof (rule hoare_bindI, rule rle0_add_rule [OF l], goal_cases)
        case (3 d l1)
        note dl = 3
        show ?case unfolding prod.case
        proof (rule hoare_bindI, rule o.write_rule [OF out], goal_cases)
          case 1
          then show ?case using less.prems(5,7) m o1 dl by auto
        next
          case 2
          then show ?case using less.prems(7) m o1 dl by auto
        next
          case (3 out1)
          note app = 3
          note a = o.out_appendsD [OF app]
          have "length (bytes_add o1 d) = m" using dl o1 by simp
          note la = this
          show ?case
          proof (rule less.IH)
            show "pos + m + (n - m) \<le> length (contents old1)"
              using less.prems(6) \<open>contents old1 = contents old\<close> m(3) by simp
            show "n - m \<le> length (rle0_rest l1) \<and> length (o.out_bytes out1) + (n - m) \<le> o.out_size out1" if S
              using less.prems(7) [OF that] dl o1 a la m(3) by auto
            fix out' l' old' d'
            assume b: "o.out_appends out1 (bytes_add d' (take (n - m) (drop (pos + m) (contents old1)))) out'"
              "rle0_rest l1 = d' @ rle0_rest l'" "rle0_ok l'" "length d' = n - m" "rok old'" "contents old' = contents old1"
              "streamSize old' = streamSize old1"
            have "bytes_add (d @ d') (take n (drop pos (contents old)))
              = bytes_add o1 d @ bytes_add d' (take (n - m) (drop (pos + m) (contents old1)))"
              unfolding split using dl o1 \<open>contents old1 = contents old\<close> by (simp add: bytes_add_append bytes_add_comm [of d])
            then have "o.out_appends out (bytes_add (d @ d') (take n (drop pos (contents old)))) out'"
              using o.out_appends_trans [OF app b(1)] by simp
            then show "Q (out', l', old')"
              by (rule less.prems(8)) (use b dl o1 m \<open>contents old1 = contents old\<close> \<open>streamSize old1 = streamSize old\<close> in auto)
          qed (use a dl less.prems m False \<open>rok old1\<close> in auto)
        qed
      qed (use less.prems(7) m o1 in auto)
    qed (use less.prems(6) m(3) size in auto)
    then show ?thesis using False m(2)
      unfolding patch_add_old_with_rle0.simps [of out l old pos n k] Let_def m(1) add by simp
  qed
qed

end

section \<open>Properties\<close>

text \<open>C15: wherever the last call stopped, \<open>_rle0_decoder_add\<close> adds the next bytes of the string that
  its code stands for, keeps the rest, and fails exactly when the string has too few left or is
  malformed before that; a run is never decoded twice and no code byte is read past the end.\<close>

theorem rle0_add_next_bytes:
  assumes "rle0_ok self" "out \<noteq> []"
  shows "if length out \<le> length (rle0_rest self)
    then \<exists>self'. rle0_decoder_add self out = Ok (bytes_add out (take (length out) (rle0_rest self)), self') \<and>
           rle0_ok self' \<and> rle0_rest self' = drop (length out) (rle0_rest self)
    else rle0_decoder_add self out = Fail"
  using rle0_decoder_adds [OF assms] by (simp only: rle0_adds_def)

theorem rle0_add_next_bytes_witness:
  "\<exists>self'. rle0_decoder_add (rle0_decoder_init [1, 2, 7, 8]) [5, 5] = Ok ([5, 12], self') \<and> rle0_rest self' = [8]"
proof -
  have u: "hpatch_unpackUIntWithTag (b # p) t = Ok (unat b, p)" if "t \<le> 7" "unat b < 2 ^ (7 - t)" for b p t
    using unpack_by_small [OF that, of Memory p] by simp
  have "rle0_spec True [1, 2, 7, 8] = [0, 7, 8]"
    by (simp add: rle0_spec.simps [of _ "_ # _"] rle0_spec.simps [of _ "[]"] hpatch_unpackUInt_def u
        hpatch_unpackUIntWithTag_def [of "[]"])
  then show ?thesis
    using rle0_add_next_bytes [of "rle0_decoder_init [1, 2, 7, 8]" "[5, 5]"] by (auto simp: bytes_add_def)
qed

end
