(* ===== verification/Covers.thy ===== *)
theory Covers
  imports RleStream
begin

text \<open>
  \<open>hpatch_TCovers\<close> of \<open>patch_types.h\<close>, the interface through which the stream engine takes
  its covers, and \<open>_TCovers\<close> of \<open>patch.c\<close>, which decodes them from three clips.  The clips
  are pointers, and the caller of \<open>_covers_init\<close> for a compressed diff passes one clip three
  times, so they are kept in a store and the pointers are indices into it.
\<close>

section \<open>The interface\<close>

record 'c hpatch_TCovers =
  covers_import :: 'c
  leave_cover_count :: "'c \<Rightarrow> nat"
  read_cover :: "'c \<Rightarrow> (hpatch_TCover \<times> 'c) res"
  is_finish :: "'c \<Rightarrow> bool"
  covers_close :: "'c \<Rightarrow> 'c res"

definition cread :: "'c hpatch_TCovers \<Rightarrow> (hpatch_TCover \<times> 'c hpatch_TCovers) res" where
  "cread cs = rbind (read_cover cs (covers_import cs)) (\<lambda>(c, s). Ok (c, cs\<lparr>covers_import := s\<rparr>))"

definition ccount :: "'c hpatch_TCovers \<Rightarrow> nat" where
  "ccount cs = leave_cover_count cs (covers_import cs)"

definition cfinish :: "'c hpatch_TCovers \<Rightarrow> bool" where
  "cfinish cs = is_finish cs (covers_import cs)"

text \<open>
  What a provider of covers promises: \<open>cvrest cs\<close> are the covers still to come, if what it
  reads them from is well formed to its end.  \<open>cvfull\<close> says that its streams are complete.
\<close>

locale covers_source =
  fixes cvok :: "'c hpatch_TCovers \<Rightarrow> bool"
    and cvfull :: "'c hpatch_TCovers \<Rightarrow> bool"
    and cvrest :: "'c hpatch_TCovers \<Rightarrow> hpatch_TCover list option"
  assumes cread_law: "cvok cs \<Longrightarrow>
      hoare (cvfull cs \<and> 0 < ccount cs \<and> cvrest cs \<noteq> None) (cread cs)
        (\<lambda>(c, cs'). cvok cs' \<and> cvfull cs' = cvfull cs \<and> ccount cs = Suc (ccount cs') \<and>
           cvrest cs = map_option ((#) c) (cvrest cs') \<and>
           oldPos c < 2 ^ 64 \<and> newPos c < 2 ^ 64 \<and> coverLength c < 2 ^ 64)"
    and cfinish_law: "cvok cs \<Longrightarrow> cfinish cs \<Longrightarrow> ccount cs = 0 \<Longrightarrow> cvrest cs = Some []"
    and cfinish_full: "cvok cs \<Longrightarrow> cvfull cs \<Longrightarrow> cvrest cs = Some [] \<Longrightarrow> cfinish cs"
    and cvrest_length: "cvok cs \<Longrightarrow> cvrest cs = Some l \<Longrightarrow> length l = ccount cs"
begin

lemma cread_rule:
  assumes "cvok cs" "S \<Longrightarrow> cvfull cs \<and> 0 < ccount cs \<and> cvrest cs \<noteq> None"
    and "\<And>c cs'. cvok cs' \<Longrightarrow> cvfull cs' = cvfull cs \<Longrightarrow> ccount cs = Suc (ccount cs') \<Longrightarrow>
      cvrest cs = map_option ((#) c) (cvrest cs') \<Longrightarrow> oldPos c < 2 ^ 64 \<Longrightarrow> newPos c < 2 ^ 64 \<Longrightarrow>
      coverLength c < 2 ^ 64 \<Longrightarrow> Q (c, cs')"
  shows "hoare S (cread cs) Q"
  by (rule hoare_weaken [OF cread_law [OF assms(1)]]) (use assms(2,3) in auto)

end

section \<open>Covers from clips\<close>

record 's TCovers =
  coverCount :: nat
  oldPosBack :: nat
  newPosBack :: nat
  clips :: "'s TStreamCacheClip list"
  code_inc_oldPosClip :: nat
  code_inc_newPosClip :: nat
  code_lengthsClip :: nat
  isOldPosBackNeedAddLength :: bool

text \<open>An operation on the clip that a pointer points to.\<close>

definition on_clip ::
  "'s TCovers \<Rightarrow> nat \<Rightarrow> ('s TStreamCacheClip \<Rightarrow> ('a \<times> 's TStreamCacheClip) res) \<Rightarrow> ('a \<times> 's TCovers) res" where
  "on_clip self i f =
     (if i < length (clips self)
      then rbind (f (clips self ! i)) (\<lambda>(x, c). Ok (x, self\<lparr>clips := (clips self)[i := c]\<rparr>))
      else Fault)"

definition covers_leaveCoverCount :: "'s TCovers \<Rightarrow> nat" where
  "covers_leaveCoverCount self = coverCount self"

definition covers_close_nil :: "'s TCovers \<Rightarrow> 's TCovers res" where
  "covers_close_nil self = Ok self"

definition covers_read_cover :: "'s TCovers \<Rightarrow> (hpatch_TCover \<times> 's TCovers) res" where
  "covers_read_cover self =
     (let old_back = oldPosBack self; new_back = newPosBack self in
      rbind (check (coverCount self > 0)) (\<lambda>_.
      let self = self\<lparr>coverCount := coverCount self - 1\<rparr> in
      rbind (on_clip self (code_inc_oldPosClip self) (\<lambda>c. TStreamCacheClip_accessData c 1)) (\<lambda>(pSign, self).
      let inc_oldPos_sign = drop_bit (8 - 1) (unat (hd pSign)) in
      rbind (on_clip self (code_inc_oldPosClip self) (\<lambda>c. TStreamCacheClip_unpackUIntWithTag c 1))
        (\<lambda>(inc_oldPos, self).
      let old_pos = (if inc_oldPos_sign = 0 then add64 old_back inc_oldPos else sub64 old_back inc_oldPos) in
      rbind (on_clip self (code_inc_newPosClip self) (\<lambda>c. TStreamCacheClip_unpackUIntWithTag c 0))
        (\<lambda>(copyLength, self).
      rbind (on_clip self (code_lengthsClip self) (\<lambda>c. TStreamCacheClip_unpackUIntWithTag c 0))
        (\<lambda>(cover_len, self).
      let new_back = add64 new_back copyLength;
          old_back = add64 old_pos (if isOldPosBackNeedAddLength self then cover_len else 0) in
      Ok (\<lparr>oldPos = old_pos, newPos = new_back, coverLength = cover_len\<rparr>,
          self\<lparr>oldPosBack := old_back, newPosBack := add64 new_back cover_len\<rparr>)))))))"

definition covers_is_finish :: "'s TCovers \<Rightarrow> bool" where
  "covers_is_finish self \<longleftrightarrow>
     TStreamCacheClip_isFinish (clips self ! code_lengthsClip self) \<and>
     TStreamCacheClip_isFinish (clips self ! code_inc_newPosClip self) \<and>
     TStreamCacheClip_isFinish (clips self ! code_inc_oldPosClip self)"

definition covers_init ::
  "nat \<Rightarrow> 's TStreamCacheClip list \<Rightarrow> nat \<Rightarrow> nat \<Rightarrow> nat \<Rightarrow> bool \<Rightarrow> 's TCovers hpatch_TCovers" where
  "covers_init count cs inc_old inc_new lens addLen =
     \<lparr>covers_import =
        \<lparr>coverCount = count, oldPosBack = 0, newPosBack = 0, clips = cs, code_inc_oldPosClip = inc_old,
         code_inc_newPosClip = inc_new, code_lengthsClip = lens, isOldPosBackNeedAddLength = addLen\<rparr>,
      leave_cover_count = covers_leaveCoverCount, read_cover = covers_read_cover,
      is_finish = covers_is_finish, covers_close = covers_close_nil\<rparr>"

section \<open>What the clips stand for\<close>

text \<open>
  \<open>parse_covers\<close> with the three code strings in a store, so that two of them may be one, and
  with old positions that may count from the end of the last cover.
\<close>

fun parse_store ::
  "engine \<Rightarrow> bool \<Rightarrow> nat \<Rightarrow> byte list list \<Rightarrow> nat \<Rightarrow> nat \<Rightarrow> nat \<Rightarrow> nat \<Rightarrow> nat \<Rightarrow> hpatch_TCover list option" where
  "parse_store e addLen 0 bs i j k oldBack newBack =
     (if bs ! i = [] \<and> bs ! j = [] \<and> bs ! k = [] then Some [] else None)"
| "parse_store e addLen (Suc n) bs i j k oldBack newBack =
     (case unpack_by e (bs ! i) 1 of
        Ok (inc, r) \<Rightarrow>
          (let op = oldPos_step oldBack (drop_bit 7 (unat (hd (bs ! i))) \<noteq> 0) inc; bs = bs[i := r] in
           case unpack_by e (bs ! j) 0 of
             Ok (copyLength, r) \<Rightarrow>
               (let bs = bs[j := r]; np = add64 newBack copyLength in
                case unpack_by e (bs ! k) 0 of
                  Ok (len, r) \<Rightarrow>
                    map_option ((#) \<lparr>oldPos = op, newPos = np, coverLength = len\<rparr>)
                      (parse_store e addLen n (bs[k := r]) i j k
                         (add64 op (if addLen then len else 0)) (add64 np len))
                | _ \<Rightarrow> None)
           | _ \<Rightarrow> None)
      | _ \<Rightarrow> None)"

lemma oldPos_step_less: "oldPos_step ob neg inc < 2 ^ 64"
  by (simp add: oldPos_step_def)

lemma parse_store_covers:
  "parse_store e False n [olds, news, lens] 0 1 2 ob nb = parse_covers e n olds news lens ob nb"
proof (induction n arbitrary: olds news lens ob nb)
  case (Suc n)
  have "add64 (oldPos_step ob s inc) 0 = oldPos_step ob s inc" for s inc
    using oldPos_step_less [of ob s inc] by (simp add: add64_eq)
  then show ?case using Suc.IH by (auto simp: Let_def split: res.splits)
qed simp

lemma parse_store_length: "parse_store e addLen n bs i j k ob nb = Some l \<Longrightarrow> length l = n"
  by (induction n arbitrary: bs ob nb l) (auto simp: Let_def split: res.splits if_splits)

context input_stream begin

definition cv_ok :: "'s TCovers hpatch_TCovers \<Rightarrow> bool" where
  "cv_ok cs \<longleftrightarrow>
     (let s = covers_import cs in
      leave_cover_count cs = covers_leaveCoverCount \<and> read_cover cs = covers_read_cover \<and>
      is_finish cs = covers_is_finish \<and>
      (\<forall>c \<in> set (clips s). cache_ok c) \<and> code_inc_oldPosClip s < length (clips s) \<and>
      code_inc_newPosClip s < length (clips s) \<and> code_lengthsClip s < length (clips s))"

definition cv_full :: "'s TCovers hpatch_TCovers \<Rightarrow> bool" where
  "cv_full cs \<longleftrightarrow> (\<forall>c \<in> set (clips (covers_import cs)). cache_full c \<and> 11 \<le> cacheEnd c)"

definition store_rest :: "'s TCovers \<Rightarrow> hpatch_TCover list option" where
  "store_rest s =
     parse_store Streaming (isOldPosBackNeedAddLength s) (coverCount s) (map cache_bytes (clips s))
       (code_inc_oldPosClip s) (code_inc_newPosClip s) (code_lengthsClip s) (oldPosBack s) (newPosBack s)"

definition cv_rest :: "'s TCovers hpatch_TCovers \<Rightarrow> hpatch_TCover list option" where
  "cv_rest cs = store_rest (covers_import cs)"

text \<open>One operation on one clip, and what it leaves of the store.\<close>

definition store_reads :: "'s TStreamCacheClip list \<Rightarrow> nat \<Rightarrow> byte list \<Rightarrow> 's TStreamCacheClip list \<Rightarrow> bool" where
  "store_reads cs i r cs' \<longleftrightarrow>
     length cs' = length cs \<and> (\<forall>c \<in> set cs'. cache_ok c) \<and>
     ((\<forall>c \<in> set cs'. cache_full c \<and> 11 \<le> cacheEnd c) \<longleftrightarrow> (\<forall>c \<in> set cs. cache_full c \<and> 11 \<le> cacheEnd c)) \<and>
     map cache_bytes cs' = (map cache_bytes cs)[i := r]"

lemma store_reads_update:
  assumes "\<forall>c \<in> set cs. cache_ok c" "i < length cs" "cache_reads (cs ! i) d c'"
  shows "store_reads cs i (cache_bytes c') (cs[i := c'])"
proof -
  note r = cache_readsD [OF assms(3)]
  have "(\<forall>c \<in> set (cs[i := c']). cache_full c \<and> 11 \<le> cacheEnd c) \<longleftrightarrow> (\<forall>c \<in> set cs. cache_full c \<and> 11 \<le> cacheEnd c)"
    using assms(2) r by (auto simp: all_set_conv_all_nth nth_list_update)
  moreover have "\<forall>c \<in> set (cs[i := c']). cache_ok c"
    using assms(1,2) r(1) by (auto simp: all_set_conv_all_nth nth_list_update)
  ultimately show ?thesis by (simp add: store_reads_def map_update)
qed

lemma on_clip_unpack:
  assumes cs: "\<forall>c \<in> set (clips s). cache_ok c" "i < length (clips s)"
    and S: "S \<Longrightarrow> (\<forall>c \<in> set (clips s). cache_full c \<and> 11 \<le> cacheEnd c) \<and>
      unpack_by Streaming (map cache_bytes (clips s) ! i) t \<noteq> Fail"
    and Q: "\<And>v r cs'. unpack_by Streaming (map cache_bytes (clips s) ! i) t = Ok (v, r) \<Longrightarrow> v < 2 ^ 64 \<Longrightarrow>
      store_reads (clips s) i r cs' \<Longrightarrow> Q (v, s\<lparr>clips := cs'\<rparr>)"
  shows "hoare S (on_clip s i (\<lambda>c. TStreamCacheClip_unpackUIntWithTag c t)) Q"
proof -
  have c: "cache_ok (clips s ! i)" using cs by simp
  have "hoare S (rbind (TStreamCacheClip_unpackUIntWithTag (clips s ! i) t)
      (\<lambda>(x, c). Ok (x, s\<lparr>clips := (clips s)[i := c]\<rparr>))) Q"
  proof (rule hoare_bind [where P = "\<lambda>(v, c'). \<exists>d. cache_reads (clips s ! i) d c' \<and> v < 2 ^ 64 \<and>
      unpack_by Streaming (cache_bytes (clips s ! i)) t = Ok (v, cache_bytes c')"], goal_cases)
    case 1
    show ?case by (rule unpack_rule [OF c]) (use S cs(2) in auto)
  next
    case (2 x)
    then show ?case using cs by (cases x) (auto intro!: Q store_reads_update)
  qed
  then show ?thesis using cs(2) by (simp add: on_clip_def)
qed

lemma on_clip_access:
  assumes cs: "\<forall>c \<in> set (clips s). cache_ok c" "i < length (clips s)"
    and S: "S \<Longrightarrow> (\<forall>c \<in> set (clips s). cache_full c \<and> 11 \<le> cacheEnd c) \<and> map cache_bytes (clips s) ! i \<noteq> []"
    and Q: "\<And>d cs'. hd d = hd (map cache_bytes (clips s) ! i) \<Longrightarrow>
      store_reads (clips s) i (map cache_bytes (clips s) ! i) cs' \<Longrightarrow> Q (d, s\<lparr>clips := cs'\<rparr>)"
  shows "hoare S (on_clip s i (\<lambda>c. TStreamCacheClip_accessData c 1)) Q"
proof -
  have c: "cache_ok (clips s ! i)" using cs by simp
  have "hoare S (rbind (TStreamCacheClip_accessData (clips s ! i) 1)
      (\<lambda>(x, c). Ok (x, s\<lparr>clips := (clips s)[i := c]\<rparr>))) Q"
  proof (rule hoare_bind [where P = "\<lambda>(d, c'). cache_reads (clips s ! i) [] c' \<and> hd d = hd (cache_bytes (clips s ! i))"], goal_cases)
    case 1
    show ?case
    proof (rule accessData_rule [OF c])
      show "cache_full (clips s ! i) \<and> 1 \<le> length (cache_bytes (clips s ! i)) \<and> 1 \<le> cacheEnd (clips s ! i)" if S
      proof -
        have "cache_full (clips s ! i) \<and> 11 \<le> cacheEnd (clips s ! i)" using S [OF that] nth_mem [OF cs(2)] by blast
        moreover have "cache_bytes (clips s ! i) \<noteq> []" using S [OF that] cs(2) by simp
        ultimately show ?thesis by (cases "cache_bytes (clips s ! i)") simp_all
      qed
    qed (cases "cache_bytes (clips s ! i)", auto)
  next
    case (2 x)
    then obtain d c' where x: "x = (d, c')" "cache_reads (clips s ! i) [] c'" "hd d = hd (cache_bytes (clips s ! i))"
      by (cases x) auto
    have "store_reads (clips s) i (cache_bytes (clips s ! i)) ((clips s)[i := c'])"
      using store_reads_update [OF cs x(2)] cache_readsD(4) [OF x(2)] by simp
    then show ?case using x(1,3) cs(2) by (auto intro!: Q)
  qed
  then show ?thesis using cs(2) by (simp add: on_clip_def)
qed

lemma read_cover_rule:
  assumes s: "\<forall>c \<in> set (clips s). cache_ok c" "code_inc_oldPosClip s < length (clips s)"
      "code_inc_newPosClip s < length (clips s)" "code_lengthsClip s < length (clips s)"
    and S: "S \<Longrightarrow> (\<forall>c \<in> set (clips s). cache_full c \<and> 11 \<le> cacheEnd c) \<and> 0 < coverCount s \<and>
      store_rest s \<noteq> None"
  shows "hoare S (covers_read_cover s) (\<lambda>(c, s').
      (\<forall>c \<in> set (clips s'). cache_ok c) \<and> length (clips s') = length (clips s) \<and>
      code_inc_oldPosClip s' = code_inc_oldPosClip s \<and> code_inc_newPosClip s' = code_inc_newPosClip s \<and>
      code_lengthsClip s' = code_lengthsClip s \<and> coverCount s = Suc (coverCount s') \<and>
      ((\<forall>c \<in> set (clips s'). cache_full c \<and> 11 \<le> cacheEnd c) \<longleftrightarrow> (\<forall>c \<in> set (clips s). cache_full c \<and> 11 \<le> cacheEnd c)) \<and>
      oldPos c < 2 ^ 64 \<and> newPos c < 2 ^ 64 \<and> coverLength c < 2 ^ 64 \<and>
      store_rest s
      = map_option ((#) c)
          (store_rest s'))"
    (is "hoare S _ ?Q")
proof (cases "coverCount s")
  case 0
  then show ?thesis using S by (auto simp: covers_read_cover_def check_def)
next
  case (Suc n)
  let ?i = "code_inc_oldPosClip s" and ?j = "code_inc_newPosClip s" and ?k = "code_lengthsClip s"
  let ?bs = "map cache_bytes (clips s)" and ?s0 = "s\<lparr>coverCount := n\<rparr>"
  let ?add = "isOldPosBackNeedAddLength s"
  let ?neg = "drop_bit 7 (unat (hd (?bs ! ?i))) \<noteq> 0"
  let ?all = "\<lambda>cs. \<forall>c \<in> set cs. cache_full c \<and> 11 \<le> cacheEnd c"
  define spec where "spec = parse_store Streaming ?add (Suc n) ?bs ?i ?j ?k (oldPosBack s) (newPosBack s)"
  have S': "?all (clips s) \<and> spec \<noteq> None" if S using S [OF that] Suc by (simp add: spec_def store_rest_def)
  have ne: "?bs ! ?i \<noteq> []" if "spec \<noteq> None"
    using that by (auto simp: spec_def dest: unpack_by_Ok split: res.splits)
  define C where "C = clips s"
  have C: "?bs = map cache_bytes C" "length C = length (clips s)" by (simp_all add: C_def)
  have idx: "?i < length C" "?j < length C" "?k < length C" using s by (simp_all add: C_def)
  have "hoare S (rbind (on_clip ?s0 ?i (\<lambda>c. TStreamCacheClip_accessData c 1)) (\<lambda>(pSign, self).
      rbind (on_clip self (code_inc_oldPosClip self) (\<lambda>c. TStreamCacheClip_unpackUIntWithTag c 1)) (\<lambda>(inc_oldPos, self).
      rbind (on_clip self (code_inc_newPosClip self) (\<lambda>c. TStreamCacheClip_unpackUIntWithTag c 0)) (\<lambda>(copyLength, self).
      rbind (on_clip self (code_lengthsClip self) (\<lambda>c. TStreamCacheClip_unpackUIntWithTag c 0)) (\<lambda>(cover_len, self).
      let old_pos = (if drop_bit (8 - 1) (unat (hd pSign)) = 0 then add64 (oldPosBack s) inc_oldPos else sub64 (oldPosBack s) inc_oldPos);
          new_back = add64 (newPosBack s) copyLength;
          old_back = add64 old_pos (if isOldPosBackNeedAddLength self then cover_len else 0) in
      Ok (\<lparr>oldPos = old_pos, newPos = new_back, coverLength = cover_len\<rparr>,
          self\<lparr>oldPosBack := old_back, newPosBack := add64 new_back cover_len\<rparr>)))))) ?Q"
  proof (rule hoare_bindI, rule on_clip_access, goal_cases)
    case 1 then show ?case using s(1) by simp
  next
    case 2 then show ?case using s(2) by simp
  next
    case 3 then show ?case using S' ne by simp
  next
    case (4 d cs1)
    then have d: "hd d = hd (?bs ! ?i)" and 1: "store_reads C ?i (?bs ! ?i) cs1" by (simp_all add: C_def)
    note r1 = 1 [unfolded store_reads_def]
    have m1: "map cache_bytes cs1 = ?bs" using r1 C by simp
    have full1: "?all cs1 \<longleftrightarrow> ?all C" using r1 by blast
    have spec1: "spec = (case unpack_by Streaming (?bs ! ?i) 1 of
        Ok (inc, r) \<Rightarrow>
          (case unpack_by Streaming (?bs[?i := r] ! ?j) 0 of
             Ok (copyLength, r') \<Rightarrow>
                (case unpack_by Streaming (?bs[?i := r, ?j := r'] ! ?k) 0 of
                  Ok (len, r'') \<Rightarrow>
                    map_option ((#) \<lparr>oldPos = oldPos_step (oldPosBack s) ?neg inc, newPos = add64 (newPosBack s) copyLength, coverLength = len\<rparr>)
                      (parse_store Streaming ?add n (?bs[?i := r, ?j := r', ?k := r'']) ?i ?j ?k
                         (add64 (oldPos_step (oldPosBack s) ?neg inc) (if ?add then len else 0))
                         (add64 (add64 (newPosBack s) copyLength) len))
                | _ \<Rightarrow> None)
           | _ \<Rightarrow> None)
        | _ \<Rightarrow> None)"
      unfolding spec_def parse_store.simps Let_def ..
    show ?case unfolding prod.case
    proof (rule hoare_bindI, rule on_clip_unpack, goal_cases)
      case 1 then show ?case using r1 by simp
    next
      case 2 then show ?case using r1 idx(1) by simp
    next
      case 3 then show ?case using S' full1 m1 spec1 C_def by (auto split: res.splits)
    next
      case (4 inc ra cs2)
      then have u1: "unpack_by Streaming (?bs ! ?i) 1 = Ok (inc, ra)" "inc < 2 ^ 64" and 2: "store_reads cs1 ?i ra cs2"
        using m1 by simp_all
      note r2 = 2 [unfolded store_reads_def]
      have m2: "map cache_bytes cs2 = ?bs[?i := ra]" using r2 m1 by simp
      have full2: "?all cs2 \<longleftrightarrow> ?all C" using r2 full1 by blast
      show ?case unfolding prod.case
      proof (rule hoare_bindI, rule on_clip_unpack, goal_cases)
        case 1 then show ?case using r2 by simp
      next
        case 2 then show ?case using r1 r2 idx(2) by simp
      next
        case 3 then show ?case using S' full2 m2 spec1 u1 C_def by (auto split: res.splits)
      next
        case (4 cl rb cs3)
        then have u2: "unpack_by Streaming (?bs[?i := ra] ! ?j) 0 = Ok (cl, rb)" "cl < 2 ^ 64" and 3: "store_reads cs2 ?j rb cs3"
          using m2 by simp_all
        note r3 = 3 [unfolded store_reads_def]
        have m3: "map cache_bytes cs3 = ?bs[?i := ra, ?j := rb]" using r3 m2 by simp
        have full3: "?all cs3 \<longleftrightarrow> ?all C" using r3 full2 by blast
        show ?case unfolding prod.case
        proof (rule hoare_bindI, rule on_clip_unpack, goal_cases)
          case 1 then show ?case using r3 by simp
        next
          case 2 then show ?case using r1 r2 r3 idx(3) by simp
        next
          case 3 then show ?case using S' full3 m3 spec1 u1 u2 C_def by (auto split: res.splits)
        next
          case (4 len rc cs4)
          then have u3: "unpack_by Streaming (?bs[?i := ra, ?j := rb] ! ?k) 0 = Ok (len, rc)" "len < 2 ^ 64"
            and 4: "store_reads cs3 ?k rc cs4"
            using m3 by simp_all
          note r4 = 4 [unfolded store_reads_def]
          have m4: "map cache_bytes cs4 = ?bs[?i := ra, ?j := rb, ?k := rc]" using r4 m3 by simp
          have full4: "?all cs4 \<longleftrightarrow> ?all (clips s)" using r4 full3 C_def by blast
          have pos: "(if drop_bit (8 - 1) (unat (hd d)) = 0 then add64 (oldPosBack s) inc else sub64 (oldPosBack s) inc)
            = oldPos_step (oldPosBack s) ?neg inc" unfolding d by (simp add: oldPos_step_def)
          have "length cs4 = length (clips s)" "\<forall>c \<in> set cs4. cache_ok c" using r1 r2 r3 r4 C(2) by simp_all
          then show ?case
            using spec1 u1 u2 u3 full4 oldPos_step_less [of "oldPosBack s" ?neg inc]
            unfolding Let_def prod.case pos hoare_simps
            by (simp add: m4 Suc spec_def store_rest_def)
        qed
      qed
    qed
  qed
  then show ?thesis unfolding covers_read_cover_def Let_def Suc by simp
qed

lemma covers_covers_source: "covers_source cv_ok cv_full cv_rest"
proof
  fix cs :: "'s TCovers hpatch_TCovers"
  let ?s = "covers_import cs"
  assume ok: "cv_ok cs"
  then have s: "\<forall>c \<in> set (clips ?s). cache_ok c" "code_inc_oldPosClip ?s < length (clips ?s)"
      "code_inc_newPosClip ?s < length (clips ?s)" "code_lengthsClip ?s < length (clips ?s)"
    and f: "leave_cover_count cs = covers_leaveCoverCount" "read_cover cs = covers_read_cover"
      "is_finish cs = covers_is_finish"
    by (auto simp: cv_ok_def Let_def)
  have count: "ccount cs = coverCount ?s" by (simp add: ccount_def f covers_leaveCoverCount_def)
  show "hoare (cv_full cs \<and> 0 < ccount cs \<and> cv_rest cs \<noteq> None) (cread cs)
        (\<lambda>(c, cs'). cv_ok cs' \<and> cv_full cs' = cv_full cs \<and> ccount cs = Suc (ccount cs') \<and>
           cv_rest cs = map_option ((#) c) (cv_rest cs') \<and>
           oldPos c < 2 ^ 64 \<and> newPos c < 2 ^ 64 \<and> coverLength c < 2 ^ 64)"
    unfolding cread_def f
    by (rule hoare_bind [OF read_cover_rule [OF s]])
      (use count s in \<open>auto simp: cv_full_def cv_rest_def cv_ok_def Let_def ccount_def f covers_leaveCoverCount_def\<close>)
  show "cfinish cs \<Longrightarrow> ccount cs = 0 \<Longrightarrow> cv_rest cs = Some []"
    using s cache_finish_bytes
    by (simp add: cfinish_def f covers_is_finish_def count cv_rest_def store_rest_def)
  show "cv_full cs \<Longrightarrow> cv_rest cs = Some [] \<Longrightarrow> cfinish cs"
  proof -
    assume full: "cv_full cs" and rest: "cv_rest cs = Some []"
    have "coverCount ?s = 0" using parse_store_length rest by (fastforce simp: cv_rest_def store_rest_def)
    then show "cfinish cs"
      using full rest s cache_full_finish
      by (simp add: cfinish_def f covers_is_finish_def cv_rest_def store_rest_def cv_full_def split: if_splits)
  qed
  show "cv_rest cs = Some l \<Longrightarrow> length l = ccount cs" for l
    using parse_store_length by (auto simp: count cv_rest_def store_rest_def)
qed

end

interpretation mem_covers: covers_source mem_in.cv_ok mem_in.cv_full mem_in.cv_rest
  by (rule mem_in.covers_covers_source)

section \<open>Properties\<close>

text \<open>C9: each call of \<open>_covers_read_cover\<close> returns the next of the covers that the three code
  sections stand for (two of the three pointers may name one clip) and leaves the clips at the
  ones after it, however small the buffers are, down to the eleven bytes of an integer code.\<close>

theorem read_cover_next:
  assumes "\<forall>c \<in> set (clips s). mem_in.cache_ok c \<and> mem_in.cache_full c \<and> 11 \<le> cacheEnd c"
    "code_inc_oldPosClip s < length (clips s)" "code_inc_newPosClip s < length (clips s)"
    "code_lengthsClip s < length (clips s)"
    "mem_in.store_rest s = Some (c # cs)"
  shows "\<exists>s'. covers_read_cover s = Ok (c, s') \<and> mem_in.store_rest s' = Some cs \<and>
    coverCount s = Suc (coverCount s') \<and>
    (\<forall>c \<in> set (clips s'). mem_in.cache_ok c \<and> mem_in.cache_full c \<and> 11 \<le> cacheEnd c)"
proof -
  have "0 < coverCount s" using parse_store_length assms(5) by (fastforce simp: mem_in.store_rest_def)
  then obtain c' s' where r: "covers_read_cover s = Ok (c', s')" "coverCount s = Suc (coverCount s')"
      "\<forall>c \<in> set (clips s'). mem_in.cache_ok c \<and> mem_in.cache_full c \<and> 11 \<le> cacheEnd c"
      "mem_in.store_rest s = map_option ((#) c') (mem_in.store_rest s')"
    using hoare_success [OF mem_in.read_cover_rule [of s True]] assms by auto
  moreover have "c' = c \<and> mem_in.store_rest s' = Some cs"
    using r(4) assms(5) by (cases "mem_in.store_rest s'") auto
  ultimately show ?thesis by blast
qed

text \<open>One cover whose three codes are in one clip.\<close>

theorem read_cover_next_witness:
  "\<exists>s'. covers_read_cover
       \<lparr>coverCount = 1, oldPosBack = 0, newPosBack = 0,
        clips = [\<lparr>streamPos = 0, streamPos_end = 3, srcStream = mem_as_hStreamInput [1, 2, 3],
                  cacheBuf = replicate 11 0, cacheBegin = 11, cacheEnd = 11\<rparr>],
        code_inc_oldPosClip = 0, code_inc_newPosClip = 0, code_lengthsClip = 0,
        isOldPosBackNeedAddLength = False\<rparr>
     = Ok (\<lparr>oldPos = 1, newPos = 2, coverLength = 3\<rparr>, s')"
proof -
  define c :: "byte list TStreamCacheClip" where
    "c = \<lparr>streamPos = 0, streamPos_end = 3, srcStream = mem_as_hStreamInput [1, 2, 3],
          cacheBuf = replicate 11 0, cacheBegin = 11, cacheEnd = 11\<rparr>"
  have c: "mem_in.cache_ok c" "mem_in.cache_full c" "mem_in.cache_bytes c = [1, 2, 3]" "cacheEnd c = 11"
    by (simp_all add: c_def mem_in.cache_ok_def mem_in.cache_full_def mem_in.cache_bytes_def)
      (simp_all add: mem_as_hStreamInput_def)
  let ?s = "\<lparr>coverCount = 1, oldPosBack = 0, newPosBack = 0, clips = [c], code_inc_oldPosClip = 0,
      code_inc_newPosClip = 0, code_lengthsClip = 0, isOldPosBackNeedAddLength = False\<rparr>"
  have "mem_in.store_rest ?s = Some [\<lparr>oldPos = 1, newPos = 2, coverLength = 3\<rparr>]"
    by (simp add: mem_in.store_rest_def c unpack_by_small oldPos_step_def add64_def)
  then show ?thesis using read_cover_next [of ?s] c unfolding c_def [symmetric] by auto
qed

end
