(* ===== verification/PatchClip.thy ===== *)
theory PatchClip
  imports Covers
begin

text \<open>
  \<open>patchByClip\<close> of \<open>patch.c\<close>, the engine that every patch on streams ends in: it takes the
  covers one by one, copies what lies between them from the new-data clip, and adds the
  run-length bytes to the old bytes they name.
\<close>

section \<open>The code\<close>

record ('o, 'r, 'c, 's) clip_state =
  cs_outCache :: "'o TOutStreamCache"
  cs_oldData :: "'r hpatch_TStreamInput"
  cs_covers :: "'c hpatch_TCovers"
  cs_newDataDiff :: "'s TStreamCacheClip"
  cs_rle :: "'s TBytesRle_load_stream"
  cs_newPosBack :: nat

text \<open>Bytes that no cover produces, up to \<open>newPos\<close>.\<close>

definition clip_copy ::
  "('o, 'r, 'c, 's) clip_state \<Rightarrow> nat \<Rightarrow> ('o, 'r, 'c, 's) clip_state res" where
  "clip_copy st copyLength =
     rbind (TOutStreamCache_copyFromClip (cs_outCache st) (cs_newDataDiff st) copyLength) (\<lambda>(out, diff).
     rbind (rle_decode_skip (cs_rle st) copyLength) (\<lambda>rle.
     Ok (st\<lparr>cs_outCache := out, cs_newDataDiff := diff, cs_rle := rle\<rparr>)))"

definition clip_cover ::
  "nat \<Rightarrow> nat \<Rightarrow> ('o, 'r, 'c, 's) clip_state \<Rightarrow> ('o, 'r, 'c, 's) clip_state res" where
  "clip_cover newDataSize cache_size st =
     (let oldDataSize = streamSize (cs_oldData st) in
      rbind (cread (cs_covers st)) (\<lambda>(cover, covers).
      let st = st\<lparr>cs_covers := covers\<rparr> in
      rbind (check (\<not> newPos cover < cs_newPosBack st)) (\<lambda>_.
      rbind (check (\<not> coverLength cover > sub64 newDataSize (newPos cover))) (\<lambda>_.
      rbind (check (\<not> oldPos cover > oldDataSize)) (\<lambda>_.
      rbind (check (\<not> coverLength cover > sub64 oldDataSize (oldPos cover))) (\<lambda>_.
      rbind (if cs_newPosBack st < newPos cover
             then clip_copy st (sub64 (newPos cover) (cs_newPosBack st)) else Ok st) (\<lambda>st.
      rbind (patch_add_old_with_rle (cs_outCache st) (cs_rle st) (cs_oldData st)
               (oldPos cover) (coverLength cover) cache_size) (\<lambda>(out, rle, old).
      Ok (st\<lparr>cs_outCache := out, cs_rle := rle, cs_oldData := old,
             cs_newPosBack := add64 (newPos cover) (coverLength cover)\<rparr>)))))))))"

fun clip_loop ::
  "nat \<Rightarrow> nat \<Rightarrow> nat \<Rightarrow> ('o, 'r, 'c, 's) clip_state \<Rightarrow> ('o, 'r, 'c, 's) clip_state res" where
  "clip_loop newDataSize cache_size 0 st = Ok st"
| "clip_loop newDataSize cache_size (Suc count) st =
     rbind (clip_cover newDataSize cache_size st) (clip_loop newDataSize cache_size count)"

definition clip_finish :: "nat \<Rightarrow> ('o, 'r, 'c, 's) clip_state \<Rightarrow> ('o, 'r, 'c, 's) clip_state res" where
  "clip_finish newDataSize st =
     rbind (if cs_newPosBack st < newDataSize then
              rbind (clip_copy st (sub64 newDataSize (cs_newPosBack st))) (\<lambda>st.
              Ok (st\<lparr>cs_newPosBack := newDataSize\<rparr>))
            else Ok st) (\<lambda>st.
     rbind (TOutStreamCache_flush (cs_outCache st)) (\<lambda>out.
     let st = st\<lparr>cs_outCache := out\<rparr> in
     if TBytesRle_load_stream_isFinish (cs_rle st) \<and> cfinish (cs_covers st)
        \<and> TOutStreamCache_isFinish (cs_outCache st) \<and> TStreamCacheClip_isFinish (cs_newDataDiff st)
        \<and> cs_newPosBack st = newDataSize
     then Ok st else Fail))"

text \<open>\<open>patchByClip(outCache,oldData,covers,code_newDataDiffClip,rle_loader,temp_cache,cache_size)\<close>.\<close>

definition patchByClip ::
  "'o TOutStreamCache \<Rightarrow> 'r hpatch_TStreamInput \<Rightarrow> 'c hpatch_TCovers \<Rightarrow> 's TStreamCacheClip \<Rightarrow>
   's TBytesRle_load_stream \<Rightarrow> nat \<Rightarrow> ('o, 'r, 'c, 's) clip_state res" where
  "patchByClip outCache oldData covers newDataDiff rle_loader cache_size =
     (let newDataSize = TOutStreamCache_leaveSize outCache;
          count = ccount covers in
      rbind (require (cache_size \<ge> hpatch_kMaxPackedUIntBytes)) (\<lambda>_.
      rbind (clip_loop newDataSize cache_size count
               \<lparr>cs_outCache = outCache, cs_oldData = oldData, cs_covers = covers,
                cs_newDataDiff = newDataDiff, cs_rle = rle_loader, cs_newPosBack = 0\<rparr>)
        (clip_finish newDataSize)))"

section \<open>What is left to do\<close>

text \<open>\<open>apply_covers\<close> with the run-length bytes from \<open>newBack\<close> on.\<close>

fun apply_from ::
  "byte list \<Rightarrow> nat \<Rightarrow> hpatch_TCover list \<Rightarrow> byte list \<Rightarrow> byte list \<Rightarrow> nat \<Rightarrow> byte list option" where
  "apply_from old newSize [] rle diff newBack =
     (if newBack + length diff = newSize then Some diff else None)"
| "apply_from old newSize (c # cs) rle diff newBack =
     (let gap = newPos c - newBack; len = coverLength c in
      if newBack \<le> newPos c \<and> newPos c + len \<le> newSize \<and> oldPos c + len \<le> length old \<and> gap \<le> length diff
      then map_option
             (\<lambda>r. take gap diff @ bytes_add (take len (drop gap rle)) (take len (drop (oldPos c) old)) @ r)
             (apply_from old newSize cs (drop (gap + len) rle) (drop gap diff) (newPos c + len))
      else None)"

lemma apply_covers_from:
  "length pre = newBack \<Longrightarrow> newBack + length rle = newSize \<Longrightarrow>
   apply_covers old (pre @ rle) newSize cs diff newBack = apply_from old newSize cs rle diff newBack"
proof (induction cs arbitrary: pre rle diff newBack)
  case (Cons c cs)
  let ?gap = "newPos c - newBack" and ?len = "coverLength c"
  show ?case
  proof (cases "newBack \<le> newPos c \<and> newPos c + ?len \<le> newSize")
    case True
    then have "apply_covers old ((pre @ take (?gap + ?len) rle) @ drop (?gap + ?len) rle) newSize cs (drop ?gap diff) (newPos c + ?len)
      = apply_from old newSize cs (drop (?gap + ?len) rle) (drop ?gap diff) (newPos c + ?len)"
      using Cons.prems by (intro Cons.IH) auto
    then show ?thesis using True Cons.prems by (auto simp: Let_def)
  qed (auto simp: Let_def)
qed auto

text \<open>The new data still to come from a state, for a new data size \<open>N\<close>.\<close>

definition clip_spec ::
  "byte list \<Rightarrow> nat \<Rightarrow> hpatch_TCover list option \<Rightarrow> byte list option \<Rightarrow> byte list \<Rightarrow> nat \<Rightarrow> byte list option" where
  "clip_spec old N covers rle diff newBack =
     (case covers of None \<Rightarrow> None
      | Some cs \<Rightarrow>
          (case rle of None \<Rightarrow> None
           | Some r \<Rightarrow> if newBack + length r = N then apply_from old N cs r diff newBack else None))"

lemma clip_spec_simps [simp]:
  "clip_spec old N None rle diff nb = None" "clip_spec old N covers None diff nb = None"
  "clip_spec old N (Some cs) (Some r) diff nb = (if nb + length r = N then apply_from old N cs r diff nb else None)"
  by (simp_all add: clip_spec_def split: option.splits)

lemma clip_spec_0: "clip_spec old N covers rle diff 0 = Some new \<Longrightarrow>
   \<exists>cs r. covers = Some cs \<and> rle = Some r \<and> length r = N \<and> apply_covers old r N cs diff 0 = Some new"
  using apply_covers_from [of "[]" 0 _ N old _ diff]
  by (auto simp: clip_spec_def split: option.splits if_splits)

text \<open>A piece that no cover produces, and a piece that one does.\<close>

lemma clip_spec_cover:
  assumes "nb \<le> newPos c" "newPos c + coverLength c \<le> N" "oldPos c + coverLength c \<le> length old"
    and "length d = newPos c - nb" "length e = newPos c - nb" "length f = coverLength c"
  shows "clip_spec old N (map_option ((#) c) cs) (map_option ((@) (e @ f)) rle) (d @ diff) nb
       = map_option (\<lambda>r. d @ bytes_add f (take (coverLength c) (drop (oldPos c) old)) @ r)
           (clip_spec old N cs rle diff (newPos c + coverLength c))"
  using assms by (cases cs; cases rle) (auto simp: Let_def)

lemma clip_spec_coverD:
  "clip_spec old N (map_option ((#) c) cs) rle diff nb \<noteq> None \<Longrightarrow>
   nb \<le> newPos c \<and> newPos c + coverLength c \<le> N \<and> oldPos c + coverLength c \<le> length old \<and>
   newPos c - nb \<le> length diff \<and> (\<exists>r. rle = Some r \<and> nb + length r = N)"
  by (cases cs; cases rle) (auto simp: Let_def split: if_splits)

locale patch_clip =
  patch_streams ok avail rok contents ook written + cv: covers_source cvok cvfull cvrest
  for ok :: "'s hpatch_TStreamInput \<Rightarrow> bool" and avail
    and rok :: "'r hpatch_TStreamInput \<Rightarrow> bool" and contents
    and ook :: "'o hpatch_TStreamOutput \<Rightarrow> bool" and written
    and cvok :: "'c hpatch_TCovers \<Rightarrow> bool" and cvfull cvrest
begin

definition clip_ok :: "('o, 'r, 'c, 's) clip_state \<Rightarrow> bool" where
  "clip_ok st \<longleftrightarrow>
     o.out_ok (cs_outCache st) \<and> rok (cs_oldData st) \<and> cvok (cs_covers st) \<and>
     i.cache_ok (cs_newDataDiff st) \<and> 0 < cacheEnd (cs_newDataDiff st) \<and>
     cacheEnd (cs_newDataDiff st) < 2 ^ 63 \<and> i.rle_ok (cs_rle st)"

definition clip_full :: "('o, 'r, 'c, 's) clip_state \<Rightarrow> bool" where
  "clip_full st \<longleftrightarrow> cvfull (cs_covers st) \<and> i.cache_full (cs_newDataDiff st) \<and> i.rle_full (cs_rle st)"

definition clip_out :: "('o, 'r, 'c, 's) clip_state \<Rightarrow> byte list" where
  "clip_out st = o.out_bytes (cs_outCache st)"

definition clip_rest :: "nat \<Rightarrow> ('o, 'r, 'c, 's) clip_state \<Rightarrow> byte list option" where
  "clip_rest N st =
     clip_spec (contents (cs_oldData st)) N (cvrest (cs_covers st)) (i.rle_rest (cs_rle st))
       (i.cache_bytes (cs_newDataDiff st)) (cs_newPosBack st)"

text \<open>
  The state of the loop: what has been produced ends at \<open>newPosBack\<close>, or it is already too
  long for the new data (a cover beyond the end is not refused at once), and then the last
  flush fails.
\<close>

definition clip_inv :: "nat \<Rightarrow> ('o, 'r, 'c, 's) clip_state \<Rightarrow> bool" where
  "clip_inv N st \<longleftrightarrow>
     clip_ok st \<and> o.out_size (cs_outCache st) = N \<and>
     (N < length (clip_out st) \<or> cs_newPosBack st = length (clip_out st))"

text \<open>Going from one state to another does not change the whole of the new data.\<close>

definition clip_leads :: "nat \<Rightarrow> ('o, 'r, 'c, 's) clip_state \<Rightarrow> ('o, 'r, 'c, 's) clip_state \<Rightarrow> bool" where
  "clip_leads N st st' \<longleftrightarrow>
     clip_inv N st' \<and> clip_full st' = clip_full st \<and> length (clip_out st) \<le> length (clip_out st') \<and>
     (length (clip_out st') \<le> N \<longrightarrow>
        map_option ((@) (clip_out st)) (clip_rest N st) = map_option ((@) (clip_out st')) (clip_rest N st')) \<and>
     (clip_rest N st \<noteq> None \<and> length (clip_out st) \<le> N \<longrightarrow> length (clip_out st') \<le> N)"

lemma clip_leads_refl: "clip_inv N st \<Longrightarrow> clip_leads N st st"
  by (simp add: clip_leads_def)

lemma clip_leads_rest:
  assumes "clip_leads N st st'" "clip_rest N st \<noteq> None" "length (clip_out st) \<le> N"
  shows "clip_rest N st' \<noteq> None \<and> length (clip_out st') \<le> N"
  using assms by (cases "clip_rest N st'") (auto simp: clip_leads_def)

lemma clip_leads_trans:
  assumes "clip_leads N st st'" "clip_leads N st' st''"
  shows "clip_leads N st st''"
  using assms clip_leads_rest [OF assms(1)] by (auto simp: clip_leads_def)

lemma clip_copy_rule:
  assumes ok: "clip_ok st"
    and S: "S \<Longrightarrow> clip_full st \<and> length (clip_out st) + n \<le> o.out_size (cs_outCache st) \<and>
      n \<le> length (i.cache_bytes (cs_newDataDiff st)) \<and> (\<exists>r. i.rle_rest (cs_rle st) = Some r \<and> n \<le> length r)"
    and Q: "\<And>st' d e. clip_ok st' \<Longrightarrow> clip_full st' = clip_full st \<Longrightarrow> clip_out st' = clip_out st @ d \<Longrightarrow>
      length d = n \<Longrightarrow> length e = n \<Longrightarrow> o.out_size (cs_outCache st') = o.out_size (cs_outCache st) \<Longrightarrow>
      i.cache_bytes (cs_newDataDiff st) = d @ i.cache_bytes (cs_newDataDiff st') \<Longrightarrow>
      i.rle_rest (cs_rle st) = map_option ((@) e) (i.rle_rest (cs_rle st')) \<Longrightarrow>
      cs_oldData st' = cs_oldData st \<Longrightarrow> cs_covers st' = cs_covers st \<Longrightarrow>
      cs_newPosBack st' = cs_newPosBack st \<Longrightarrow> Q st'"
  shows "hoare S (clip_copy st n) Q"
  unfolding clip_copy_def
proof (rule hoare_bindI, rule o.copyFromClip_rule [OF i.input_stream_axioms], goal_cases)
  case (6 d out diff)
  note r = i.cache_readsD [OF 6(1)] and a = o.out_appendsD [OF 6(3)]
  show ?case unfolding prod.case
  proof (rule hoare_bindI, rule i.rle_decode_skip_rule, goal_cases)
    case (3 rle e)
    note rr = i.rle_readsD [OF 3(1)]
    let ?st = "st\<lparr>cs_outCache := out, cs_newDataDiff := diff, cs_rle := rle\<rparr>"
    have "Q ?st"
    proof (rule Q)
      show "clip_ok ?st" using ok r a rr by (simp add: clip_ok_def)
      show "clip_full ?st = clip_full st" using r rr by (simp add: clip_full_def)
      show "clip_out ?st = clip_out st @ d" using a by (simp add: clip_out_def)
    qed (use 6(2) 3(2) r a rr in auto)
    then show ?case by simp
  qed (use ok S in \<open>auto simp: clip_ok_def clip_full_def\<close>)
qed (use ok S in \<open>auto simp: clip_ok_def clip_full_def clip_out_def\<close>)

lemma clip_gap_rule:
  assumes ok: "clip_ok st"
    and S: "S \<Longrightarrow> clip_full st \<and> length (clip_out st) + n \<le> o.out_size (cs_outCache st) \<and>
      n \<le> length (i.cache_bytes (cs_newDataDiff st)) \<and> (\<exists>r. i.rle_rest (cs_rle st) = Some r \<and> n \<le> length r)"
    and Q: "\<And>st' d e. clip_ok st' \<Longrightarrow> clip_full st' = clip_full st \<Longrightarrow> clip_out st' = clip_out st @ d \<Longrightarrow>
      length d = n \<Longrightarrow> length e = n \<Longrightarrow> o.out_size (cs_outCache st') = o.out_size (cs_outCache st) \<Longrightarrow>
      i.cache_bytes (cs_newDataDiff st) = d @ i.cache_bytes (cs_newDataDiff st') \<Longrightarrow>
      i.rle_rest (cs_rle st) = map_option ((@) e) (i.rle_rest (cs_rle st')) \<Longrightarrow>
      cs_oldData st' = cs_oldData st \<Longrightarrow> cs_covers st' = cs_covers st \<Longrightarrow>
      cs_newPosBack st' = cs_newPosBack st \<Longrightarrow> Q st'"
  shows "hoare S (if 0 < n then clip_copy st n else Ok st) Q"
proof (cases "0 < n")
  case True
  then show ?thesis using clip_copy_rule [OF ok, of S n Q] S Q by simp
next
  case False
  have "i.rle_rest (cs_rle st) = map_option ((@) []) (i.rle_rest (cs_rle st))"
    by (cases "i.rle_rest (cs_rle st)") auto
  then have "Q st" by (intro Q [of st "[]" "[]"]) (use ok False in auto)
  then show ?thesis using False by simp
qed

lemma clip_cover_rule:
  assumes inv: "clip_inv N st" and k: "0 < k" "k < 2 ^ 63"
    and S: "S \<Longrightarrow> clip_full st \<and> clip_rest N st \<noteq> None \<and> length (clip_out st) \<le> N \<and> 0 < ccount (cs_covers st)"
    and Q: "\<And>st'. clip_leads N st st' \<Longrightarrow> ccount (cs_covers st) = Suc (ccount (cs_covers st')) \<Longrightarrow> Q st'"
  shows "hoare S (clip_cover N k st) Q"
proof -
  let ?L = "length (clip_out st)" and ?nb = "cs_newPosBack st" and ?old = "contents (cs_oldData st)"
  have ok: "clip_ok st" and size: "o.out_size (cs_outCache st) = N" using inv by (auto simp: clip_inv_def)
  have N: "N < 2 ^ 63" using o.out_size_less o.out_ok_full ok size by (fastforce simp: clip_ok_def)
  have old: "rok (cs_oldData st)" "streamSize (cs_oldData st) = length ?old" "length ?old < 2 ^ 64"
    using ok r.contents_size by (auto simp: clip_ok_def)
  show ?thesis unfolding clip_cover_def Let_def
  proof (rule hoare_bindI, rule cv.cread_rule, goal_cases)
    case 1 then show ?case using ok by (simp add: clip_ok_def)
  next
    case 2 then show ?case using S by (cases "cvrest (cs_covers st)") (auto simp: clip_full_def clip_rest_def)
  next
    case (3 c covers)
    let ?st = "st\<lparr>cs_covers := covers\<rparr>" and ?len = "coverLength c" and ?np = "newPos c" and ?op = "oldPos c"
    let ?diff = "i.cache_bytes (cs_newDataDiff st)" and ?rle = "i.rle_rest (cs_rle st)"
    have rest: "clip_rest N st = clip_spec ?old N (map_option ((#) c) (cvrest covers)) ?rle ?diff ?nb"
      by (simp add: clip_rest_def 3)
    have S': "clip_full st \<and> ?nb = ?L \<and> ?L \<le> N \<and> ?nb \<le> ?np \<and> ?np + ?len \<le> N \<and> ?op + ?len \<le> length ?old \<and>
        ?np - ?nb \<le> length ?diff \<and> (\<exists>r. ?rle = Some r \<and> ?nb + length r = N)" if S
    proof -
      have "clip_rest N st \<noteq> None" "length (clip_out st) \<le> N" "clip_full st" using S [OF that] by auto
      moreover from this(1) have "?nb \<le> ?np \<and> ?np + ?len \<le> N \<and> ?op + ?len \<le> length ?old \<and>
        ?np - ?nb \<le> length ?diff \<and> (\<exists>r. ?rle = Some r \<and> ?nb + length r = N)"
        unfolding rest by (rule clip_spec_coverD)
      ultimately show ?thesis using inv by (simp add: clip_inv_def)
    qed
    have sub: "sub64 N ?np = N - ?np" if "?np \<le> N" using that N by (simp add: sub64_eq)
    have subo: "sub64 (length ?old) ?op = length ?old - ?op" if "?op \<le> length ?old" using that old by (simp add: sub64_eq)
    have gap: "sub64 ?np ?nb = ?np - ?nb" if "?nb \<le> ?np" using that 3 by (simp add: sub64_eq)
    show ?case
    proof (cases "?nb \<le> ?np \<and> ?len \<le> sub64 N ?np \<and> ?op \<le> length ?old \<and> ?len \<le> length ?old - ?op")
      case False
      then have "\<not> S" using S' sub by auto
      then show ?thesis using False subo old(2) by (auto simp: check_def)
    next
      case True
      then have fit: "?op + ?len \<le> length ?old" by auto
      have "hoare S (rbind (if 0 < ?np - ?nb then clip_copy ?st (?np - ?nb) else Ok ?st) (\<lambda>st.
          rbind (patch_add_old_with_rle (cs_outCache st) (cs_rle st) (cs_oldData st) ?op ?len k) (\<lambda>(out, rle, old).
          Ok (st\<lparr>cs_outCache := out, cs_rle := rle, cs_oldData := old, cs_newPosBack := add64 ?np ?len\<rparr>)))) Q"
      proof (rule hoare_bindI, rule clip_gap_rule, goal_cases)
        case 1 then show ?case using ok 3 by (simp add: clip_ok_def)
      next
        case 2 then show ?case using S' 3(2) size by (auto simp: clip_full_def clip_out_def)
      next
        case (3 st2 d e)
        note c2 = 3
        show ?case
        proof (rule hoare_bindI, rule patch_add_old_rule, goal_cases)
          case 7
          then obtain r where r: "clip_full st" "?nb = ?L" "?nb \<le> ?np" "?np + ?len \<le> N" "?rle = Some r" "?nb + length r = N"
            using S' by blast
          have "clip_full st2" using c2(2) r(1) \<open>cvfull covers = cvfull (cs_covers st)\<close> by (simp add: clip_full_def)
          moreover obtain r' where "i.rle_rest (cs_rle st2) = Some r'" "r = e @ r'"
            using c2(8) r(5) by (cases "i.rle_rest (cs_rle st2)") auto
          moreover have "length (o.out_bytes (cs_outCache st2)) = ?L + (?np - ?nb)"
            using c2(3,4) by (simp add: clip_out_def)
          ultimately show ?case using r c2(5,6) size by (auto simp: clip_full_def)
        next
          case (8 out3 rle3 old3 f)
          let ?add = "bytes_add f (take ?len (drop ?op ?old))"
          let ?st3 = "st2\<lparr>cs_outCache := out3, cs_rle := rle3, cs_oldData := old3, cs_newPosBack := add64 ?np ?len\<rparr>"
          note a = o.out_appendsD [OF 8(1)] and r3 = i.rle_readsD [OF 8(2)]
          have old2: "cs_oldData st2 = cs_oldData st" using c2 by simp
          have out3: "clip_out ?st3 = clip_out st @ d @ ?add" using a(2) c2 old2 by (simp add: clip_out_def)
          have ladd: "length ?add = ?len" using 8(3) fit by simp
          have len3: "length (clip_out ?st3) = ?L + (?np - ?nb) + ?len" using out3 ladd c2(4) by simp
          have small: "?nb = ?L \<and> ?np + ?len \<le> N" if "length (clip_out ?st3) \<le> N"
            using that len3 inv True sub by (auto simp: clip_inv_def)
          have rle: "?rle = map_option ((@) (e @ f)) (i.rle_rest rle3)"
            using c2(8) r3(3) by (cases "i.rle_rest rle3") auto
          have eq: "map_option ((@) (clip_out st)) (clip_rest N st) = map_option ((@) (clip_out ?st3)) (clip_rest N ?st3)"
            if "length (clip_out ?st3) \<le> N"
          proof -
            have "add64 ?np ?len = ?np + ?len" using small [OF that] N by (simp add: add64_eq)
            moreover have "clip_rest N st = map_option (\<lambda>r. d @ ?add @ r)
                (clip_spec ?old N (cvrest covers) (i.rle_rest rle3) (i.cache_bytes (cs_newDataDiff st2)) (?np + ?len))"
              unfolding rest rle using c2(7)
                clip_spec_cover [of ?nb c N ?old d e f "cvrest covers" "i.rle_rest rle3" "i.cache_bytes (cs_newDataDiff st2)"]
                True small [OF that] fit c2(4,5) 8(3) by simp
            moreover have "clip_rest N ?st3 = clip_spec ?old N (cvrest covers) (i.rle_rest rle3)
                (i.cache_bytes (cs_newDataDiff st2)) (add64 ?np ?len)"
              using c2(10) 8(5) old2 by (simp add: clip_rest_def)
            ultimately show ?thesis unfolding out3
              by (cases "clip_spec ?old N (cvrest covers) (i.rle_rest rle3) (i.cache_bytes (cs_newDataDiff st2)) (?np + ?len)")
                simp_all
          qed
          have "clip_leads N st ?st3"
            unfolding clip_leads_def clip_inv_def
          proof (intro conjI impI)
            show "map_option ((@) (clip_out st)) (clip_rest N st) = map_option ((@) (clip_out ?st3)) (clip_rest N ?st3)"
              if "length (clip_out ?st3) \<le> N" by (rule eq [OF that])
            show "length (clip_out ?st3) \<le> N" if a: "clip_rest N st \<noteq> None \<and> ?L \<le> N"
            proof -
              have "?np + ?len \<le> N" "?nb \<le> ?np"
                using clip_spec_coverD [OF a [THEN conjunct1, unfolded rest]] by auto
              then show ?thesis using a inv len3 by (auto simp: clip_inv_def)
            qed
            show "clip_ok ?st3" using c2(1) a(1) r3(1) 8(4) by (simp add: clip_ok_def)
            show "o.out_size (cs_outCache ?st3) = N" using a(3) c2(6) size by simp
            show "clip_full ?st3 = clip_full st" using c2(2) r3(2) \<open>cvfull covers = cvfull (cs_covers st)\<close>
              by (simp add: clip_full_def)
            show "N < length (clip_out ?st3) \<or> cs_newPosBack ?st3 = length (clip_out ?st3)"
            proof (cases "length (clip_out ?st3) \<le> N")
              case le: True
              then have "add64 ?np ?len = ?np + ?len" using small N by (simp add: add64_eq)
              then show ?thesis using small [OF le] True len3 by simp
            qed auto
          qed (use len3 in simp_all)
          then have "Q ?st3" by (rule Q) (use c2(10) \<open>ccount (cs_covers st) = Suc (ccount covers)\<close> in simp)
          then show ?case by simp
        qed (use c2 fit k old in \<open>auto simp: clip_ok_def\<close>)
      qed
      then show ?thesis using True subo old(2) gap by (simp add: check_def split: if_splits)
    qed
  qed
qed

lemma clip_loop_rule:
  assumes "clip_inv N st" "0 < k" "k < 2 ^ 63" "ccount (cs_covers st) = n"
    and "S \<Longrightarrow> clip_full st \<and> clip_rest N st \<noteq> None \<and> length (clip_out st) \<le> N"
    and "\<And>st'. clip_leads N st st' \<Longrightarrow> ccount (cs_covers st') = 0 \<Longrightarrow> Q st'"
  shows "hoare S (clip_loop N k n st) Q"
  using assms
proof (induction n arbitrary: st Q)
  case 0
  then show ?case using clip_leads_refl by simp
next
  case (Suc n)
  show ?case unfolding clip_loop.simps
  proof (rule hoare_bindI, rule clip_cover_rule [OF Suc.prems(1-3)], goal_cases)
    case 1
    then show ?case using Suc.prems(4,5) by simp
  next
    case (2 st1)
    note l = 2(1) [unfolded clip_leads_def]
    show ?case
    proof (rule Suc.IH)
      show "clip_full st1 \<and> clip_rest N st1 \<noteq> None \<and> length (clip_out st1) \<le> N" if S
        using Suc.prems(5) [OF that] clip_leads_rest [OF 2(1)] l by simp
      show "Q st'" if "clip_leads N st1 st'" "ccount (cs_covers st') = 0" for st'
        by (rule Suc.prems(6) [OF clip_leads_trans [OF 2(1) that(1)] that(2)])
    qed (use l 2(2) Suc.prems in auto)
  qed
qed

text \<open>The end: the tail that no cover produces, the last flush and the checks that all was used.\<close>

lemma clip_finish_rule:
  assumes inv: "clip_inv N st" and count: "ccount (cs_covers st) = 0"
    and S: "S \<Longrightarrow> clip_full st \<and> clip_rest N st \<noteq> None \<and> length (clip_out st) \<le> N"
    and Q: "\<And>st' new. clip_rest N st = Some new \<Longrightarrow> length (clip_out st) \<le> N \<Longrightarrow> clip_ok st' \<Longrightarrow>
      written (dstStream (cs_outCache st')) N = clip_out st @ new \<Longrightarrow> o.out_size (cs_outCache st') = N \<Longrightarrow> Q st'"
  shows "hoare S (clip_finish N st) Q"
proof -
  let ?nb = "cs_newPosBack st" and ?L = "length (clip_out st)"
  let ?spec = "clip_spec (contents (cs_oldData st)) N"
  have ok: "clip_ok st" and size: "o.out_size (cs_outCache st) = N" using inv by (auto simp: clip_inv_def)
  have N: "N < 2 ^ 63" using o.out_size_less o.out_ok_full ok size by (fastforce simp: clip_ok_def)
  have sub: "sub64 N ?nb = N - ?nb" if "?nb < N" using that N by (simp add: sub64_eq)
  have nil: "cvrest (cs_covers st) = Some l \<Longrightarrow> l = []" for l
    using cv.cvrest_length ok count by (fastforce simp: clip_ok_def)
  have S': "clip_full st \<and> ?nb = ?L \<and> ?nb \<le> N \<and> cvrest (cs_covers st) = Some [] \<and>
      length (i.cache_bytes (cs_newDataDiff st)) = N - ?nb \<and>
      (\<exists>r. i.rle_rest (cs_rle st) = Some r \<and> length r = N - ?nb)" if S
  proof -
    have a: "clip_full st" "clip_rest N st \<noteq> None" "?L \<le> N" using S [OF that] by auto
    then show ?thesis using inv nil
      by (cases "cvrest (cs_covers st)"; cases "i.rle_rest (cs_rle st)")
        (fastforce simp: clip_rest_def clip_inv_def split: if_splits)+
  qed
  have "hoare S (rbind (if 0 < N - ?nb then clip_copy st (N - ?nb) else Ok st) (\<lambda>st1.
     rbind (TOutStreamCache_flush (cs_outCache st1)) (\<lambda>out.
     let st2 = st1\<lparr>cs_outCache := out, cs_newPosBack := (if ?nb < N then N else ?nb)\<rparr> in
     if TBytesRle_load_stream_isFinish (cs_rle st2) \<and> cfinish (cs_covers st2)
        \<and> TOutStreamCache_isFinish (cs_outCache st2) \<and> TStreamCacheClip_isFinish (cs_newDataDiff st2)
        \<and> cs_newPosBack st2 = N
     then Ok st2 else Fail))) Q"
  proof (rule hoare_bindI, rule clip_gap_rule [OF ok], goal_cases)
    case 1
    then show ?case using S' size by (auto simp: clip_full_def)
  next
    case (2 st1 d e)
    note c = 2
    have full1: "o.out_ok_full (cs_outCache st1)" using c(1) o.out_ok_full by (simp add: clip_ok_def)
    show ?case
    proof (rule hoare_bindI, rule o.flush_rule [OF full1], goal_cases)
      case 1
      then show ?case using S' c size by (auto simp: clip_out_def)
    next
      case (2 out)
      let ?st2 = "st1\<lparr>cs_outCache := out, cs_newPosBack := (if ?nb < N then N else ?nb)\<rparr>"
      note a = o.out_appendsD [OF 2(1)]
      have ok2: "clip_ok ?st2" using c(1) a(1) by (simp add: clip_ok_def)
      have bytes: "o.out_bytes out = clip_out st @ d" using a(2) c(3) by (simp add: clip_out_def)
      have wr: "written (dstStream out) (writeToPos out) = clip_out st @ d"
        using bytes 2(2) by (simp add: o.out_bytes_def)
      have pos: "writeToPos out = ?L + length d" using 2(5) c(3) by (simp add: clip_out_def)
      have le: "?L + length d \<le> N" using 2(4) a(3) bytes c(6) size by simp
      then have nb: "?nb = ?L" "?L \<le> N" using inv by (auto simp: clip_inv_def)
      then have full: "writeToPos out = N" using pos c(4) by simp
      have osz: "ostreamSize (dstStream out) = N" using a(3) c(6) size by (simp add: o.out_size_def)
      let ?fin = "TBytesRle_load_stream_isFinish (cs_rle ?st2) \<and> cfinish (cs_covers ?st2)
        \<and> TOutStreamCache_isFinish (cs_outCache ?st2) \<and> TStreamCacheClip_isFinish (cs_newDataDiff ?st2)
        \<and> cs_newPosBack ?st2 = N"
      have "hoare S (if ?fin then Ok ?st2 else Fail) Q"
      proof (cases ?fin)
        case True
        have "i.rle_rest (cs_rle st1) = Some []" using i.rle_finish_rest c(1) True by (simp add: clip_ok_def)
        then have r: "i.rle_rest (cs_rle st) = Some e" using c(8) by simp
        have "i.cache_bytes (cs_newDataDiff st1) = []" using i.cache_finish_bytes c(1) True by (simp add: clip_ok_def)
        then have df: "i.cache_bytes (cs_newDataDiff st) = d" using c(7) by simp
        have cv: "cvrest (cs_covers st) = Some []"
          using cv.cfinish_law [of "cs_covers st"] ok True c(10) count by (simp add: clip_ok_def)
        have "clip_rest N st = Some d" using r df cv c(4,5) nb by (simp add: clip_rest_def)
        then have "Q ?st2" by (rule Q) (use nb ok2 wr full a(3) c(6) size in auto)
        then show ?thesis unfolding if_P [OF True] by (simp only: hoare_simps)
      next
        case False
        have "\<not> S"
        proof
          assume S
          note s = S' [OF this]
          obtain r where r: "i.rle_rest (cs_rle st) = Some r" "length r = N - ?nb" using s by blast
          then have "i.rle_rest (cs_rle st1) = Some []"
            using c(5,8) by (cases "i.rle_rest (cs_rle st1)") auto
          moreover have "i.rle_ok (cs_rle st1)" "clip_full st1" using c(1,2) s by (simp_all add: clip_ok_def)
          ultimately have "TBytesRle_load_stream_isFinish (cs_rle st1)"
            using i.rle_rest_finish by (simp add: clip_full_def)
          moreover have "i.cache_bytes (cs_newDataDiff st1) = []"
            using c(4,7) s by (metis append_eq_conv_conj append_self_conv length_0_conv le_add_same_cancel1 le_zero_eq length_append order_refl)
          then have "TStreamCacheClip_isFinish (cs_newDataDiff st1)"
            using i.cache_full_finish c(1,2) s by (simp add: clip_ok_def clip_full_def)
          moreover have "cfinish (cs_covers st1)"
            using cv.cfinish_full [of "cs_covers st"] ok s c(10) by (simp add: clip_ok_def clip_full_def)
          ultimately show False using False full osz nb by (auto simp: TOutStreamCache_isFinish_def split: if_splits)
        qed
        then show ?thesis unfolding if_not_P [OF False] by (simp only: hoare_simps not_False_eq_True)
      qed
      then show ?case unfolding Let_def .
    qed
  qed
  moreover have "clip_finish N st = rbind (if 0 < N - ?nb then clip_copy st (N - ?nb) else Ok st) (\<lambda>st1.
     rbind (TOutStreamCache_flush (cs_outCache st1)) (\<lambda>out.
     let st2 = st1\<lparr>cs_outCache := out, cs_newPosBack := (if ?nb < N then N else ?nb)\<rparr> in
     if TBytesRle_load_stream_isFinish (cs_rle st2) \<and> cfinish (cs_covers st2)
        \<and> TOutStreamCache_isFinish (cs_outCache st2) \<and> TStreamCacheClip_isFinish (cs_newDataDiff st2)
        \<and> cs_newPosBack st2 = N
     then Ok st2 else Fail))"
  proof (cases "?nb < N")
    case True
    then show ?thesis using sub
      by (simp add: clip_finish_def rbind_assoc Let_def) (intro rbind_cong refl, simp)
  next
    case False
    then show ?thesis by (cases st) (simp add: clip_finish_def Let_def, intro rbind_cong refl, simp)
  qed
  ultimately show ?thesis by simp
qed

text \<open>
  The whole: started on an empty output, success means that the new data is what the sections
  say and is in the output; and when they say something and the covers, the clips and the
  run-length loader are full, it succeeds.
\<close>

lemma patchByClip_rule:
  assumes out: "o.out_ok out" "o.out_bytes out = []" and old: "rok old" and cv: "cvok covers"
    and diff: "i.cache_ok diff" "0 < cacheEnd diff" "cacheEnd diff < 2 ^ 63" and rle: "i.rle_ok rle"
    and k: "hpatch_kMaxPackedUIntBytes \<le> k" "k < 2 ^ 63"
    and S: "S \<Longrightarrow> cvfull covers \<and> i.cache_full diff \<and> i.rle_full rle \<and>
      clip_spec (contents old) (o.out_size out) (cvrest covers) (i.rle_rest rle) (i.cache_bytes diff) 0 \<noteq> None"
    and Q: "\<And>st new. clip_spec (contents old) (o.out_size out) (cvrest covers) (i.rle_rest rle) (i.cache_bytes diff) 0 = Some new \<Longrightarrow>
      clip_ok st \<Longrightarrow> written (dstStream (cs_outCache st)) (o.out_size out) = new \<Longrightarrow>
      o.out_size (cs_outCache st) = o.out_size out \<Longrightarrow> Q st"
  shows "hoare S (patchByClip out old covers diff rle k) Q"
proof -
  let ?N = "TOutStreamCache_leaveSize out"
  let ?st = "\<lparr>cs_outCache = out, cs_oldData = old, cs_covers = covers, cs_newDataDiff = diff, cs_rle = rle, cs_newPosBack = 0\<rparr>"
  have N: "?N = o.out_size out" using out o.out_bytes_length [OF o.out_ok_full [OF out(1)]] o.out_size_less [OF o.out_ok_full [OF out(1)]]
    by (simp add: TOutStreamCache_leaveSize_def o.out_size_def sub64_eq)
  have inv: "clip_inv ?N ?st" using assms(1-9) N by (simp add: clip_inv_def clip_ok_def clip_out_def)
  have S': "clip_full ?st \<and> clip_rest ?N ?st \<noteq> None \<and> length (clip_out ?st) \<le> ?N" if S
    using S [OF that] out N by (simp add: clip_full_def clip_rest_def clip_out_def)
  show ?thesis unfolding patchByClip_def Let_def
  proof (rule hoare_bindI, rule hoare_weaken [OF hoare_require [OF k(1)]], goal_cases)
    case 2
    show ?case
    proof (rule hoare_bindI, rule clip_loop_rule [OF inv], goal_cases)
      case 4 then show ?case using S' by blast
    next
      case (5 st')
      note l = 5(1) [unfolded clip_leads_def]
      show ?case
      proof (rule clip_finish_rule)
        show "clip_full st' \<and> clip_rest ?N st' \<noteq> None \<and> length (clip_out st') \<le> ?N" if S
          using clip_leads_rest [OF 5(1)] S' [OF that] l by simp
        fix st'' new
        assume a: "clip_rest ?N st' = Some new" "length (clip_out st') \<le> ?N" "clip_ok st''"
          "written (dstStream (cs_outCache st'')) ?N = clip_out st' @ new" "o.out_size (cs_outCache st'') = ?N"
        have "map_option ((@) (clip_out ?st)) (clip_rest ?N ?st) = Some (clip_out st' @ new)"
          using l a(1,2) by simp
        then show "Q st''" using a(3-5) N out by (intro Q) (auto simp: clip_rest_def clip_out_def option.map_id0)
      qed (use l 5(2) in auto)
    qed (use k in \<open>auto simp: hpatch_kMaxPackedUIntBytes_def\<close>)
  qed auto
qed

end

end
