(* ===== verification/PatchStream.thy ===== *)
theory PatchStream
  imports PatchClip
begin

text \<open>
  \<open>read_diff_head\<close>, \<open>_packedCovers_open\<close>, \<open>_patch_stream_with_cache\<close> and
  \<open>patch_stream\<close> of \<open>patch.c\<close>: patching with streams.  The memory that the caller gives
  for the caches is a range of addresses; the buffers cut from it are disjoint, and since no
  byte of a buffer is used before it is written, a new buffer is all zero.  The clips of one
  diff stream are independent readers of it.
\<close>

section \<open>The code\<close>

definition hpatch_kStreamCacheSize :: nat where
  "hpatch_kStreamCacheSize = 1024 * 4"

definition kCachePatCount :: nat where
  "kCachePatCount = 8"

record THDiffHead =
  hd_coverCount :: nat
  hd_lengthSize :: nat
  hd_inc_newPosSize :: nat
  hd_inc_oldPosSize :: nat
  hd_newDataDiffSize :: nat
  hd_headEndPos :: nat
  hd_coverEndPos :: nat

definition new_cache :: "nat \<Rightarrow> byte list" where
  "new_cache n = replicate n 0"

text \<open>\<open>_clip_unpackUIntTo\<close>.\<close>

definition clip_unpackUIntTo :: "'s TStreamCacheClip \<Rightarrow> (nat \<times> 's TStreamCacheClip) res" where
  "clip_unpackUIntTo c = TStreamCacheClip_unpackUIntWithTag c 0"

definition read_diff_head :: "'s hpatch_TStreamInput \<Rightarrow> THDiffHead res" where
  "read_diff_head serializedDiff =
     (let diffPos_end = streamSize serializedDiff in
      rbind (TStreamCacheClip_init serializedDiff 0 diffPos_end (new_cache hpatch_kStreamCacheSize)
               hpatch_kStreamCacheSize) (\<lambda>diffHeadClip.
      rbind (clip_unpackUIntTo diffHeadClip) (\<lambda>(coverCount, diffHeadClip).
      rbind (clip_unpackUIntTo diffHeadClip) (\<lambda>(lengthSize, diffHeadClip).
      rbind (clip_unpackUIntTo diffHeadClip) (\<lambda>(inc_newPosSize, diffHeadClip).
      rbind (clip_unpackUIntTo diffHeadClip) (\<lambda>(inc_oldPosSize, diffHeadClip).
      rbind (clip_unpackUIntTo diffHeadClip) (\<lambda>(newDataDiffSize, diffHeadClip).
      let diffPos0 = TStreamCacheClip_readPosOfSrcStream diffHeadClip; headEndPos = diffPos0 in
      rbind (check (\<not> lengthSize > sub64 diffPos_end diffPos0)) (\<lambda>_.
      let diffPos0 = add64 diffPos0 lengthSize in
      rbind (check (\<not> inc_newPosSize > sub64 diffPos_end diffPos0)) (\<lambda>_.
      let diffPos0 = add64 diffPos0 inc_newPosSize in
      rbind (check (\<not> inc_oldPosSize > sub64 diffPos_end diffPos0)) (\<lambda>_.
      let diffPos0 = add64 diffPos0 inc_oldPosSize in
      rbind (check (\<not> newDataDiffSize > sub64 diffPos_end diffPos0)) (\<lambda>_.
      Ok \<lparr>hd_coverCount = coverCount, hd_lengthSize = lengthSize, hd_inc_newPosSize = inc_newPosSize,
          hd_inc_oldPosSize = inc_oldPosSize, hd_newDataDiffSize = newDataDiffSize,
          hd_headEndPos = headEndPos, hd_coverEndPos = diffPos0\<rparr>)))))))))))"

text \<open>
  \<open>_cache_alloc\<close>: a structure of \<open>memSize\<close> bytes at the next multiple of 8 in the range
  from \<open>temp_cache\<close> to \<open>temp_cache_end\<close>; the rest of the range starts at the result.
\<close>

definition hpatch_align_upper :: "nat \<Rightarrow> nat \<Rightarrow> nat" where
  "hpatch_align_upper p align = (p + (align - 1)) div align * align"

definition cache_alloc :: "nat \<Rightarrow> nat \<Rightarrow> nat \<Rightarrow> nat res" where
  "cache_alloc memSize temp_cache temp_cache_end =
     (if temp_cache_end - temp_cache < 8 + memSize then Fail
      else Ok (hpatch_align_upper temp_cache 8 + memSize))"

text \<open>\<open>sizeof(_TPackedCovers)\<close>: five pointers, three positions, three pointers and a padded flag, and
  three clips of six words.\<close>

definition sizeof_TPackedCovers :: nat where
  "sizeof_TPackedCovers = (5 + 3 + 3 + 1 + 3 * 6) * 8"

definition packedCovers_open ::
  "'s hpatch_TStreamInput \<Rightarrow> nat \<Rightarrow> nat \<Rightarrow> ('s TCovers hpatch_TCovers \<times> THDiffHead) res" where
  "packedCovers_open serializedDiff temp_cache temp_cache_end =
     rbind (cache_alloc sizeof_TPackedCovers temp_cache temp_cache_end) (\<lambda>temp_cache.
     let cacheSize = (temp_cache_end - temp_cache) div 3 in
     rbind (read_diff_head serializedDiff) (\<lambda>head.
     let diffPos0 = hd_headEndPos head in
     rbind (TStreamCacheClip_init serializedDiff diffPos0 (add64 diffPos0 (hd_lengthSize head))
              (new_cache cacheSize) cacheSize) (\<lambda>code_lengths.
     let diffPos0 = add64 diffPos0 (hd_lengthSize head) in
     rbind (TStreamCacheClip_init serializedDiff diffPos0 (add64 diffPos0 (hd_inc_newPosSize head))
              (new_cache cacheSize) cacheSize) (\<lambda>code_inc_newPos.
     let diffPos0 = add64 diffPos0 (hd_inc_newPosSize head) in
     rbind (TStreamCacheClip_init serializedDiff diffPos0 (add64 diffPos0 (hd_inc_oldPosSize head))
              (new_cache cacheSize) cacheSize) (\<lambda>code_inc_oldPos.
     Ok (covers_init (hd_coverCount head) [code_inc_oldPos, code_inc_newPos, code_lengths] 0 1 2 False,
         head))))))"

text \<open>From the new-data clip on, for covers of any kind.\<close>

definition patch_stream_covers ::
  "'o hpatch_TStreamOutput \<Rightarrow> 'r hpatch_TStreamInput \<Rightarrow> 's hpatch_TStreamInput \<Rightarrow>
   'c hpatch_TCovers \<Rightarrow> THDiffHead \<Rightarrow> nat \<Rightarrow> 'o hpatch_TStreamOutput res" where
  "patch_stream_covers out_newData oldData serializedDiff covers diffHead cacheSize =
     (let diffPos_end = streamSize serializedDiff;
          diffPos0 = hd_coverEndPos diffHead in
      rbind (TStreamCacheClip_init serializedDiff diffPos0 (add64 diffPos0 (hd_newDataDiffSize diffHead))
               (new_cache cacheSize) cacheSize) (\<lambda>code_newDataDiff.
      let diffPos0 = add64 diffPos0 (hd_newDataDiffSize diffHead) in
      rbind (check (\<not> cacheSize < hpatch_kMaxPackedUIntBytes)) (\<lambda>_.
      rbind (TStreamCacheClip_init serializedDiff diffPos0 diffPos_end
               (new_cache hpatch_kMaxPackedUIntBytes) hpatch_kMaxPackedUIntBytes) (\<lambda>rleHeadClip.
      rbind (clip_unpackUIntTo rleHeadClip) (\<lambda>(rleCtrlSize, rleHeadClip).
      let rlePos0 = TStreamCacheClip_readPosOfSrcStream rleHeadClip in
      rbind (check (\<not> rleCtrlSize > sub64 diffPos_end rlePos0)) (\<lambda>_.
      rbind (TStreamCacheClip_init serializedDiff rlePos0 (add64 rlePos0 rleCtrlSize)
               (new_cache cacheSize) cacheSize) (\<lambda>ctrl.
      rbind (TStreamCacheClip_init serializedDiff (add64 rlePos0 rleCtrlSize) diffPos_end
               (new_cache cacheSize) cacheSize) (\<lambda>code.
      rbind (patchByClip (TOutStreamCache_init out_newData (new_cache cacheSize) cacheSize) oldData covers
               code_newDataDiff (TBytesRle_load_stream_init ctrl code) cacheSize) (\<lambda>st.
      Ok (dstStream (cs_outCache st)))))))))))"

text \<open>
  \<open>_patch_stream_with_cache\<close>: without covers in memory it opens those of the diff, with
  them it takes them and reads the head alone.
\<close>

definition patch_stream_with_cache ::
  "'o hpatch_TStreamOutput \<Rightarrow> 'r hpatch_TStreamInput \<Rightarrow> 's hpatch_TStreamInput \<Rightarrow>
   'c hpatch_TCovers option \<Rightarrow> nat \<Rightarrow> nat \<Rightarrow> 'o hpatch_TStreamOutput res" where
  "patch_stream_with_cache out_newData oldData serializedDiff cached_covers temp_cache temp_cache_end =
     (case cached_covers of
        None \<Rightarrow>
          (let cacheSize = (temp_cache_end - temp_cache) div kCachePatCount in
           rbind (packedCovers_open serializedDiff (temp_cache + cacheSize * (kCachePatCount - 3)) temp_cache_end)
             (\<lambda>(covers, diffHead).
           patch_stream_covers out_newData oldData serializedDiff covers diffHead cacheSize))
      | Some covers \<Rightarrow>
          (let cacheSize = (temp_cache_end - temp_cache) div (kCachePatCount - 3) in
           rbind (read_diff_head serializedDiff) (\<lambda>diffHead.
           patch_stream_covers out_newData oldData serializedDiff covers diffHead cacheSize)))"

text \<open>\<open>patch_stream\<close>, whose cache is on the stack at the address \<open>temp_cache\<close>.\<close>

definition patch_stream ::
  "nat \<Rightarrow> 'o hpatch_TStreamOutput \<Rightarrow> 'r hpatch_TStreamInput \<Rightarrow> 's hpatch_TStreamInput \<Rightarrow>
   'o hpatch_TStreamOutput res" where
  "patch_stream temp_cache out_newData oldData serializedDiff =
     patch_stream_with_cache out_newData oldData serializedDiff (None :: unit hpatch_TCovers option)
       temp_cache (temp_cache + hpatch_kStreamCacheSize * kCachePatCount)"

section \<open>The sections of a diff stream\<close>

text \<open>What the head says: the sections that its sizes cut out of the diff.\<close>

definition head_parts :: "byte list \<Rightarrow> THDiffHead \<Rightarrow> diff_parts" where
  "head_parts d h =
     (let p = hd_headEndPos h in
      \<lparr>dp_coverCount = hd_coverCount h,
       dp_lengths = take (hd_lengthSize h) (drop p d),
       dp_inc_newPos = take (hd_inc_newPosSize h) (drop (p + hd_lengthSize h) d),
       dp_inc_oldPos = take (hd_inc_oldPosSize h) (drop (p + hd_lengthSize h + hd_inc_newPosSize h) d),
       dp_newDataDiff = take (hd_newDataDiffSize h) (drop (hd_coverEndPos h) d),
       dp_rle = drop (hd_coverEndPos h + hd_newDataDiffSize h) d\<rparr>)"

definition head_ok :: "byte list \<Rightarrow> THDiffHead \<Rightarrow> bool" where
  "head_ok d h \<longleftrightarrow>
     hd_coverEndPos h = hd_headEndPos h + hd_lengthSize h + hd_inc_newPosSize h + hd_inc_oldPosSize h \<and>
     hd_coverEndPos h + hd_newDataDiffSize h \<le> length d"

lemma map_option_append_Nil [simp]: "map_option ((@) []) x = x"
  by (cases x) auto

lemma diff_spec_clip:
  assumes "parse_head e d = Ok p"
  shows "diff_spec e N old d =
    clip_spec old N (parse_covers e (dp_coverCount p) (dp_inc_oldPos p) (dp_inc_newPos p) (dp_lengths p) 0 0)
      (rle_section e (dp_rle p)) (dp_newDataDiff p) 0"
  using apply_covers_from [of "[]" 0 _ N old _ "dp_newDataDiff p"] assms
  by (cases "parse_covers e (dp_coverCount p) (dp_inc_oldPos p) (dp_inc_newPos p) (dp_lengths p) 0 0")
    (auto simp: diff_spec_def clip_spec_def split: option.splits)

context random_stream begin

text \<open>A clip of a range of the stream.\<close>

lemma init_clip_rule:
  assumes st: "rok st" "a \<le> b" "b \<le> length (contents st)" and k: "k < 2 ^ 64"
    and Q: "\<And>c. cache_ok c \<Longrightarrow> cache_full c \<Longrightarrow> cacheEnd c = k \<Longrightarrow> cache_bytes c = take (b - a) (drop a (contents st)) \<Longrightarrow>
      streamPos_end c = b \<Longrightarrow> cache_left c = b - a \<Longrightarrow> srcStream c = st \<Longrightarrow> Q c"
  shows "hoare S (TStreamCacheClip_init st a b (new_cache k) k) Q"
  using cache_init [of st a b "new_cache k"] contents_size [OF st(1)] assms
  by (auto simp: new_cache_def)

text \<open>Reading packed integers from a clip that ends where the stream ends.\<close>

definition at_pos :: "'s hpatch_TStreamInput \<Rightarrow> nat \<Rightarrow> 's TStreamCacheClip \<Rightarrow> bool" where
  "at_pos st p c \<longleftrightarrow> cache_ok c \<and> cache_full c \<and> 11 \<le> cacheEnd c \<and> cache_bytes c = drop p (contents st) \<and>
     streamPos_end c = length (contents st) \<and> cache_left c = length (contents st) - p \<and>
     p \<le> length (contents st)"

lemma at_pos_readPos: "at_pos st p c \<Longrightarrow> TStreamCacheClip_readPosOfSrcStream c = p"
  using cache_sizes(3) by (fastforce simp: at_pos_def)

lemma at_pos_unpack_rule:
  assumes c: "at_pos st p c" and S: "S \<Longrightarrow> unpack_by Streaming (drop p (contents st)) 0 \<noteq> Fail"
    and Q: "\<And>v p' c'. at_pos st p' c' \<Longrightarrow> p \<le> p' \<Longrightarrow> v < 2 ^ 64 \<Longrightarrow>
      unpack_by Streaming (drop p (contents st)) 0 = Ok (v, drop p' (contents st)) \<Longrightarrow> Q (v, c')"
  shows "hoare S (clip_unpackUIntTo c) Q"
  unfolding clip_unpackUIntTo_def
proof (rule unpack_rule, goal_cases)
  case (3 v d c')
  note r = cache_readsD [OF 3(1)]
  let ?n = "length (contents st)" and ?p = "p + length d"
  have c': "cache_bytes c = drop p (contents st)" "p \<le> ?n" "cache_left c = ?n - p" "streamPos_end c = ?n"
    using c by (simp_all add: at_pos_def)
  have "drop p (contents st) = d @ cache_bytes c'" using r(4) c'(1) by simp
  then have b: "cache_bytes c' = drop ?p (contents st)" by (metis append_eq_conv_conj drop_drop add.commute)
  have "?p \<le> ?n \<and> cache_left c' = ?n - ?p" using r(5) c'(2,3) by arith
  then have "at_pos st ?p c'" using c r b c' by (simp add: at_pos_def)
  then show ?case by (rule Q) (use 3 b c' in auto)
qed (use c S in \<open>auto simp: at_pos_def\<close>)

lemma head_checks:
  assumes "p \<le> n" "n < 2 ^ 64" "S \<Longrightarrow> p + a + b + c + e \<le> n"
    and "p + a + b + c + e \<le> n \<Longrightarrow> hoare S (f (p + a + b + c)) Q"
  shows "hoare S (rbind (check (\<not> a > sub64 n p)) (\<lambda>_.
    rbind (check (\<not> b > sub64 n (add64 p a))) (\<lambda>_.
    rbind (check (\<not> c > sub64 n (add64 (add64 p a) b))) (\<lambda>_.
    rbind (check (\<not> e > sub64 n (add64 (add64 (add64 p a) b) c))) (\<lambda>_.
    f (add64 (add64 (add64 p a) b) c)))))) Q"
proof -
  consider "n < p + a" | "p + a \<le> n" "n < p + a + b" | "p + a + b \<le> n" "n < p + a + b + c"
    | "p + a + b + c \<le> n" "n < p + a + b + c + e" | "p + a + b + c + e \<le> n" by linarith
  then show ?thesis
  proof cases
    case 5
    then show ?thesis using assms by (auto simp: sub64_eq add64_eq check_def)
  qed (use assms in \<open>auto simp: sub64_eq add64_eq check_def\<close>)
qed

lemma read_diff_head_rule:
  assumes st: "rok st" and S: "S \<Longrightarrow> parse_head Streaming (contents st) \<noteq> Fail"
    and Q: "\<And>h. parse_head Streaming (contents st) = Ok (head_parts (contents st) h) \<Longrightarrow>
      head_ok (contents st) h \<Longrightarrow> Q h"
  shows "hoare S (read_diff_head st) Q"
proof -
  let ?d = "contents st"
  let ?n = "length ?d"
  have n: "streamSize st = ?n" "?n < 2 ^ 64" using contents_size [OF st] by simp_all
  note ph = S [unfolded parse_head_def]
  show ?thesis unfolding read_diff_head_def Let_def n
  proof (rule hoare_bindI, rule init_clip_rule [OF st], goal_cases)
    case (4 c0)
    then have c0: "at_pos st 0 c0" by (simp add: at_pos_def hpatch_kStreamCacheSize_def)
    show ?case
    proof (rule hoare_bindI, rule at_pos_unpack_rule [OF c0], goal_cases)
      case (2 v1 p1 c1)
      note u1 = 2(4) [unfolded drop_0]
      show ?case unfolding prod.case
      proof (rule hoare_bindI, rule at_pos_unpack_rule [OF 2(1)], goal_cases)
        case (2 v2 p2 c2)
        note u2 = 2(4)
        show ?case unfolding prod.case
        proof (rule hoare_bindI, rule at_pos_unpack_rule [OF 2(1)], goal_cases)
          case (2 v3 p3 c3)
          note u3 = 2(4)
          show ?case unfolding prod.case
          proof (rule hoare_bindI, rule at_pos_unpack_rule [OF 2(1)], goal_cases)
            case (2 v4 p4 c4)
            note u4 = 2(4)
            show ?case unfolding prod.case
            proof (rule hoare_bindI, rule at_pos_unpack_rule [OF 2(1)], goal_cases)
              case (2 v5 p5 c5)
              note u5 = 2(4)
              have p5: "p5 \<le> ?n" using 2(1) by (simp add: at_pos_def)
              have head: "parse_head Streaming ?d =
                  rbind (check (v2 + v3 + v4 + v5 \<le> ?n - p5)) (\<lambda>_. Ok
                    \<lparr>dp_coverCount = v1, dp_lengths = take v2 (drop p5 ?d),
                     dp_inc_newPos = take v3 (drop (p5 + v2) ?d),
                     dp_inc_oldPos = take v4 (drop (p5 + v2 + v3) ?d),
                     dp_newDataDiff = take v5 (drop (p5 + v2 + v3 + v4) ?d),
                     dp_rle = drop (p5 + v2 + v3 + v4 + v5) ?d\<rparr>)"
                unfolding parse_head_def by (simp add: u1 u2 u3 u4 u5 add.commute add.left_commute)
              define h where "h = \<lparr>hd_coverCount = v1, hd_lengthSize = v2, hd_inc_newPosSize = v3,
                hd_inc_oldPosSize = v4, hd_newDataDiffSize = v5, hd_headEndPos = p5, hd_coverEndPos = p5 + v2 + v3 + v4\<rparr>"
              have good: "Q h" if "p5 + v2 + v3 + v4 + v5 \<le> ?n"
              proof (rule Q)
                have "v2 + v3 + v4 + v5 \<le> ?n - p5" using that by arith
                then show "parse_head Streaming ?d = Ok (head_parts ?d h)"
                  unfolding head by (simp add: h_def head_parts_def)
              qed (use that in \<open>simp add: h_def head_ok_def\<close>)
              have fit: "p5 + v2 + v3 + v4 + v5 \<le> ?n" if S
                using ph [OF that] p5 unfolding parse_head_def [symmetric] head by (simp add: check_def split: if_splits)
              show ?case unfolding prod.case at_pos_readPos [OF 2(1)]
                by (rule head_checks [OF p5 n(2)]) (use good fit p5 in \<open>auto simp: h_def\<close>)
            qed (use ph u1 u2 u3 u4 in auto)
          qed (use ph u1 u2 u3 in auto)
        qed (use ph u1 u2 in auto)
      qed (use ph u1 in auto)
    qed (use ph in auto)
  qed (use n in \<open>auto simp: hpatch_kStreamCacheSize_def\<close>)
qed

text \<open>The covers that the diff holds.\<close>

lemma packedCovers_open_rule:
  assumes st: "rok st" and mem: "a \<le> b" "b < 2 ^ 63"
    and S: "S \<Longrightarrow> parse_head Streaming (contents st) \<noteq> Fail \<and> a + sizeof_TPackedCovers + 40 \<le> b"
    and Q: "\<And>cs h. parse_head Streaming (contents st) = Ok (head_parts (contents st) h) \<Longrightarrow>
      head_ok (contents st) h \<Longrightarrow> cv_ok cs \<Longrightarrow> (a + sizeof_TPackedCovers + 40 \<le> b \<Longrightarrow> cv_full cs) \<Longrightarrow>
      cv_rest cs = (let p = head_parts (contents st) h in
        parse_covers Streaming (dp_coverCount p) (dp_inc_oldPos p) (dp_inc_newPos p) (dp_lengths p) 0 0) \<Longrightarrow> Q (cs, h)"
  shows "hoare S (packedCovers_open st a b) Q"
proof -
  let ?d = "contents st"
  have n: "length ?d < 2 ^ 64" using contents_size [OF st] by simp
  define m where "m = hpatch_align_upper a 8 + sizeof_TPackedCovers"
  have m: "m \<le> a + sizeof_TPackedCovers + 7" by (simp add: m_def hpatch_align_upper_def)
  have alloc: "cache_alloc sizeof_TPackedCovers a b = (if b - a < 8 + sizeof_TPackedCovers then Fail else Ok m)"
    by (simp add: cache_alloc_def m_def)
  show ?thesis
  proof (cases "b - a < 8 + sizeof_TPackedCovers")
    case True
    then show ?thesis using S by (auto simp: packedCovers_open_def alloc)
  next
    case False
    define k where "k = (b - m) div 3"
    have k: "k < 2 ^ 63" using mem(2) by (simp add: k_def)
    have k11: "11 \<le> k" if "a + sizeof_TPackedCovers + 40 \<le> b" using that m by (simp add: k_def)
    have alloc': "cache_alloc sizeof_TPackedCovers a b = Ok m" using False alloc by simp
    show ?thesis unfolding packedCovers_open_def alloc' rbind.simps Let_def k_def [symmetric]
    proof (rule hoare_bindI, rule read_diff_head_rule [OF st], goal_cases)
      case (2 h)
      let ?p0 = "hd_headEndPos h" and ?p1 = "hd_headEndPos h + hd_lengthSize h"
        and ?p2 = "hd_headEndPos h + hd_lengthSize h + hd_inc_newPosSize h"
      have le: "?p2 + hd_inc_oldPosSize h \<le> length ?d" using 2(2) by (simp add: head_ok_def)
      have e: "add64 ?p0 (hd_lengthSize h) = ?p1" "add64 ?p1 (hd_inc_newPosSize h) = ?p2"
          "add64 ?p2 (hd_inc_oldPosSize h) = ?p2 + hd_inc_oldPosSize h"
        using le n by (simp_all add: add64_eq)
      show ?case unfolding e
      proof (rule hoare_bindI, rule init_clip_rule [OF st], goal_cases)
        case (4 cl)
        note cl = 4
        show ?case
        proof (rule hoare_bindI, rule init_clip_rule [OF st], goal_cases)
          case (4 cn)
          note cn = 4
          show ?case
          proof (rule hoare_bindI, rule init_clip_rule [OF st], goal_cases)
            case (4 co)
            note co = 4
            show ?case unfolding hoare_simps
            proof (rule Q [OF 2])
              show "cv_ok (covers_init (hd_coverCount h) [co, cn, cl] 0 1 2 False)"
                using cl cn co by (simp add: cv_ok_def covers_init_def)
              show "cv_full (covers_init (hd_coverCount h) [co, cn, cl] 0 1 2 False)"
                if "a + sizeof_TPackedCovers + 40 \<le> b"
                using cl cn co k11 [OF that] by (simp add: cv_full_def covers_init_def)
            qed (use cl cn co in \<open>simp add: cv_rest_def store_rest_def covers_init_def parse_store_covers [simplified] head_parts_def Let_def\<close>)
          qed (use le k in auto)
        qed (use le k in auto)
      qed (use le k in auto)
    qed (use S in auto)
  qed
qed

end

section \<open>The patch\<close>

locale patch_diff =
  patch_clip dok "\<lambda>st pos. drop pos (dcontents st)" rok contents ook written cvok cvfull cvrest +
  d: random_stream dok dcontents
  for dok :: "'s hpatch_TStreamInput \<Rightarrow> bool" and dcontents
    and rok :: "'r hpatch_TStreamInput \<Rightarrow> bool" and contents
    and ook :: "'o hpatch_TStreamOutput \<Rightarrow> bool" and written
    and cvok :: "'c hpatch_TCovers \<Rightarrow> bool" and cvfull cvrest
begin

lemma patch_stream_covers_rule:
  assumes streams: "ook dst" "rok old" "dok diff" and h: "head_ok (dcontents diff) h" and cv: "cvok covers"
    and k: "k < 2 ^ 63"
    and S: "S \<Longrightarrow> cvfull covers \<and> 11 \<le> k \<and>
      clip_spec (contents old) (ostreamSize dst) (cvrest covers)
        (rle_section Streaming (dp_rle (head_parts (dcontents diff) h)))
        (dp_newDataDiff (head_parts (dcontents diff) h)) 0 \<noteq> None"
    and Q: "\<And>dst' new. clip_spec (contents old) (ostreamSize dst) (cvrest covers)
        (rle_section Streaming (dp_rle (head_parts (dcontents diff) h)))
        (dp_newDataDiff (head_parts (dcontents diff) h)) 0 = Some new \<Longrightarrow>
      ook dst' \<Longrightarrow> ostreamSize dst' = ostreamSize dst \<Longrightarrow> written dst' (ostreamSize dst) = new \<Longrightarrow> Q dst'"
  shows "hoare S (patch_stream_covers dst old diff covers h k) Q"
proof -
  let ?d = "dcontents diff" and ?p0 = "hd_coverEndPos h" and ?p1 = "hd_coverEndPos h + hd_newDataDiffSize h"
  let ?n = "length ?d"
  have n: "streamSize diff = ?n" "?n < 2 ^ 64" using d.contents_size [OF streams(3)] by simp_all
  have le: "?p1 \<le> ?n" using h by (simp add: head_ok_def)
  have e: "add64 ?p0 (hd_newDataDiffSize h) = ?p1" using le n by (simp add: add64_eq)
  have parts: "dp_rle (head_parts ?d h) = drop ?p1 ?d"
      "dp_newDataDiff (head_parts ?d h) = take (hd_newDataDiffSize h) (drop ?p0 ?d)"
    by (simp_all add: head_parts_def Let_def)
  note S' = S [unfolded parts] and Q' = Q [unfolded parts]
  show ?thesis unfolding patch_stream_covers_def Let_def n e
  proof (rule hoare_bindI, rule d.init_clip_rule [OF streams(3)], goal_cases)
    case (4 cd)
    note cd = 4
    show ?case
    proof (rule hoare_bindI, rule hoare_weaken [where S = S, OF hoare_check], goal_cases)
      case (3 _)
      then have k11: "11 \<le> k" by (simp add: hpatch_kMaxPackedUIntBytes_def)
      show ?case
      proof (rule hoare_bindI, rule d.init_clip_rule [OF streams(3)], goal_cases)
        case (4 c0)
        then have c0: "d.at_pos diff ?p1 c0" using le by (simp add: d.at_pos_def hpatch_kMaxPackedUIntBytes_def)
        show ?case
        proof (rule hoare_bindI, rule d.at_pos_unpack_rule [OF c0], goal_cases)
          case 1
          then show ?case using S' by (auto simp: rle_section_def)
        next
          case (2 v p c1)
          note u = 2
          have p: "p \<le> ?n" using u(1) by (simp add: d.at_pos_def)
          have rle: "rle_section Streaming (drop ?p1 ?d) =
              (if v \<le> ?n - p then rle_spec Streaming (take v (drop p ?d)) (drop v (drop p ?d)) else None)"
            by (simp add: rle_section_def u(4))
          show ?case unfolding prod.case d.at_pos_readPos [OF u(1)]
          proof (cases "v \<le> ?n - p")
            case False
            then have "\<not> S" using S' rle by auto
            then show "hoare S (rbind (check (\<not> v > sub64 ?n p)) (\<lambda>_.
      rbind (TStreamCacheClip_init diff p (add64 p v) (new_cache k) k) (\<lambda>ctrl.
      rbind (TStreamCacheClip_init diff (add64 p v) ?n (new_cache k) k) (\<lambda>code.
      rbind (patchByClip (TOutStreamCache_init dst (new_cache k) k) old covers cd (TBytesRle_load_stream_init ctrl code) k) (\<lambda>st.
      Ok (dstStream (cs_outCache st))))))) Q"
              using False p n by (simp add: sub64_eq check_def)
          next
            case True
            have ev: "add64 p v = p + v" using True p n by (simp add: add64_eq)
            have chk: "check (\<not> v > sub64 ?n p) = Ok ()" using True p n by (simp add: sub64_eq check_def)
            show "hoare S (rbind (check (\<not> v > sub64 ?n p)) (\<lambda>_.
      rbind (TStreamCacheClip_init diff p (add64 p v) (new_cache k) k) (\<lambda>ctrl.
      rbind (TStreamCacheClip_init diff (add64 p v) ?n (new_cache k) k) (\<lambda>code.
      rbind (patchByClip (TOutStreamCache_init dst (new_cache k) k) old covers cd (TBytesRle_load_stream_init ctrl code) k) (\<lambda>st.
      Ok (dstStream (cs_outCache st))))))) Q"
              unfolding ev chk rbind.simps
            proof (rule hoare_bindI, rule d.init_clip_rule [OF streams(3)], goal_cases)
              case (4 ctrl)
              note ctrl = 4
              show ?case
              proof (rule hoare_bindI, rule d.init_clip_rule [OF streams(3)], goal_cases)
                case (4 code)
                note code = 4
                let ?l = "TBytesRle_load_stream_init ctrl code" and ?out = "TOutStreamCache_init dst (new_cache k) k"
                have l: "i.rle_ok ?l" "i.rle_full ?l" "i.rle_rest ?l = rle_section Streaming (drop ?p1 ?d)"
                  using ctrl code k11 True rle
                  by (simp_all add: i.rle_ok_def i.rle_full_def i.rle_rest_def rle_copy_rest_def
                      TBytesRle_load_stream_init_def option.map_id0 add.commute)
                have out: "o.out_ok ?out" "o.out_bytes ?out = []" "o.out_size ?out = ostreamSize dst"
                  using o.out_init [OF streams(1), of "new_cache k"] k k11 by (simp_all add: new_cache_def)
                have cd': "i.cache_bytes cd = take (hd_newDataDiffSize h) (drop ?p0 ?d)" using cd by simp
                show ?case
                proof (rule hoare_bindI, rule patchByClip_rule [OF out(1,2) streams(2) cv], goal_cases)
                  case 7
                  then show ?case unfolding out l cd' using S' cd(2) l(2) by blast
                next
                  case (8 st new)
                  from 8(1) have "clip_spec (contents old) (ostreamSize dst) (cvrest covers)
                      (rle_section Streaming (drop ?p1 ?d)) (take (hd_newDataDiffSize h) (drop ?p0 ?d)) 0 = Some new"
                    unfolding out l cd' .
                  then show ?case unfolding hoare_simps
                    by (rule Q') (use 8(2-) out in \<open>auto simp: clip_ok_def o.out_ok_def o.out_size_def\<close>)
                qed (use cd l k k11 in \<open>auto simp: hpatch_kMaxPackedUIntBytes_def\<close>)
              qed (use True p k in auto)
            qed (use True p k in auto)
          qed
        qed
      qed (use le in \<open>auto simp: hpatch_kMaxPackedUIntBytes_def\<close>)
    qed (use S in \<open>auto simp: hpatch_kMaxPackedUIntBytes_def\<close>)
  qed (use le k in auto)
qed

end

text \<open>Old data, diff and output: the covers are those that the diff holds.\<close>

locale patch_files = patch_streams dok "\<lambda>st pos. drop pos (dcontents st)" rok contents ook written + d: random_stream dok dcontents
  for dok :: "'s hpatch_TStreamInput \<Rightarrow> bool" and dcontents
    and rok :: "'r hpatch_TStreamInput \<Rightarrow> bool" and contents
    and ook :: "'o hpatch_TStreamOutput \<Rightarrow> bool" and written

sublocale patch_files \<subseteq> own: patch_diff dok dcontents rok contents ook written i.cv_ok i.cv_full i.cv_rest
  by intro_locales (rule i.covers_covers_source)

context patch_files begin

lemma patch_stream_rule:
  assumes streams: "ook dst" "rok old" "dok diff" and mem: "a \<le> b" "b < 2 ^ 63"
    and S: "S \<Longrightarrow> a + 2048 \<le> b \<and> diff_spec Streaming (ostreamSize dst) (contents old) (dcontents diff) \<noteq> None"
    and Q: "\<And>dst'. diff_spec Streaming (ostreamSize dst) (contents old) (dcontents diff)
        = Some (written dst' (ostreamSize dst)) \<Longrightarrow> ook dst' \<Longrightarrow> ostreamSize dst' = ostreamSize dst \<Longrightarrow> Q dst'"
  shows "hoare S (patch_stream_with_cache dst old diff None a b) Q"
proof -
  define k where "k = (b - a) div kCachePatCount"
  have k: "k < 2 ^ 63" "a + k * (kCachePatCount - 3) \<le> b" using mem by (auto simp: k_def kCachePatCount_def)
  have big: "11 \<le> k \<and> a + k * (kCachePatCount - 3) + sizeof_TPackedCovers + 40 \<le> b" if "a + 2048 \<le> b"
  proof -
    have "8 * k \<le> b - a" "b - a < 8 * k + 8" by (simp_all add: k_def kCachePatCount_def)
    then have "11 \<le> k \<and> a + k * 5 + 240 + 40 \<le> b" using that by arith
    then show ?thesis by (simp add: kCachePatCount_def sizeof_TPackedCovers_def)
  qed
  show ?thesis unfolding patch_stream_with_cache_def option.case Let_def k_def [symmetric]
  proof (rule hoare_bindI, rule d.packedCovers_open_rule [OF streams(3) k(2) mem(2)], goal_cases)
    case 1
    then show ?case using S big by (auto simp: diff_spec_def)
  next
    case (2 cs h)
    have spec: "diff_spec Streaming (ostreamSize dst) (contents old) (dcontents diff)
      = clip_spec (contents old) (ostreamSize dst) (i.cv_rest cs)
          (rle_section Streaming (dp_rle (head_parts (dcontents diff) h)))
          (dp_newDataDiff (head_parts (dcontents diff) h)) 0"
      unfolding diff_spec_clip [OF 2(1)] using 2(5) by (simp add: Let_def)
    show ?case unfolding prod.case
    proof (rule own.patch_stream_covers_rule [OF streams 2(2,3) k(1)], goal_cases)
      case 1
      then show ?case using S big 2(4) spec by simp
    next
      case (2 dst' new)
      then show ?case using spec Q by simp
    qed
  qed
qed

end

section \<open>Patching in memory\<close>

interpretation mem_files: patch_files mem_in_ok streamImport mem_in_ok streamImport mem_out_ok mem_written
  by unfold_locales

lemma mem_out_all: "mem_out_ok dst \<Longrightarrow> mem_written dst (ostreamSize dst) = ostreamImport dst"
  using mem_out_fields by (simp add: mem_written_def)

lemma mem_out_eq: "mem_out_ok dst \<Longrightarrow> dst = mem_as_hStreamOutput (ostreamImport dst)"
  by (simp add: mem_out_ok_def)

lemma patch_stream_with_cache_mem:
  assumes "length old < 2 ^ 64" "length d < 2 ^ 64" "length buf < 2 ^ 63" "a + 2048 \<le> b" "b < 2 ^ 63"
  shows "patch_stream_with_cache (mem_as_hStreamOutput buf) (mem_as_hStreamInput old) (mem_as_hStreamInput d)
      (None :: unit hpatch_TCovers option) a b
    = (case diff_spec Streaming (length buf) old d of
         Some new \<Rightarrow> Ok (mem_as_hStreamOutput new) | None \<Rightarrow> Fail)"
    (is "?m = ?r")
proof -
  have sz: "ostreamSize (mem_as_hStreamOutput x) = length x" "streamImport (mem_as_hStreamInput x) = x" for x
    by (simp_all add: mem_as_hStreamOutput_def mem_as_hStreamInput_def)
  have "hoare (diff_spec Streaming (length buf) old d \<noteq> None) ?m (\<lambda>dst. Ok dst = ?r)"
  proof (rule mem_files.patch_stream_rule)
    fix dst
    assume "diff_spec Streaming (ostreamSize (mem_as_hStreamOutput buf)) (streamImport (mem_as_hStreamInput old))
        (streamImport (mem_as_hStreamInput d)) = Some (mem_written dst (ostreamSize (mem_as_hStreamOutput buf)))"
      "mem_out_ok dst" "ostreamSize dst = ostreamSize (mem_as_hStreamOutput buf)"
    then show "Ok dst = ?r" using mem_out_all [of dst] mem_out_eq [of dst] by (simp add: sz)
  qed (use assms in \<open>auto simp: sz\<close>)
  then show ?thesis by (cases ?m) (auto split: option.splits)
qed

text \<open>C6: patching through the streaming engine, with buffers of the documented 2048 bytes or
  more at any address (so also for \<open>patch_stream\<close>, which has 32768 on its stack), writes exactly
  the new data that the diff means for it, fails exactly when the diff means nothing, and never
  leaves a buffer or breaks an assertion, for every old data and every (also malformed) diff.\<close>

theorem patch_stream_refines_spec:
  assumes "length old < 2 ^ 64" "length d < 2 ^ 64" "length buf < 2 ^ 63" "a + 2048 \<le> b" "b < 2 ^ 62"
  shows "patch_stream_with_cache (mem_as_hStreamOutput buf) (mem_as_hStreamInput old) (mem_as_hStreamInput d)
      (None :: unit hpatch_TCovers option) a b
    = (case diff_spec Streaming (length buf) old d of
         Some new \<Rightarrow> Ok (mem_as_hStreamOutput new) | None \<Rightarrow> Fail) \<and>
   patch_stream a (mem_as_hStreamOutput buf) (mem_as_hStreamInput old) (mem_as_hStreamInput d)
    = (case diff_spec Streaming (length buf) old d of
         Some new \<Rightarrow> Ok (mem_as_hStreamOutput new) | None \<Rightarrow> Fail)"
proof
  show "patch_stream_with_cache (mem_as_hStreamOutput buf) (mem_as_hStreamInput old) (mem_as_hStreamInput d)
      (None :: unit hpatch_TCovers option) a b
    = (case diff_spec Streaming (length buf) old d of
         Some new \<Rightarrow> Ok (mem_as_hStreamOutput new) | None \<Rightarrow> Fail)"
    by (rule patch_stream_with_cache_mem) (use assms in auto)
  have "hpatch_kStreamCacheSize * kCachePatCount = 32768"
    by (simp add: hpatch_kStreamCacheSize_def kCachePatCount_def)
  then show "patch_stream a (mem_as_hStreamOutput buf) (mem_as_hStreamInput old) (mem_as_hStreamInput d)
    = (case diff_spec Streaming (length buf) old d of
         Some new \<Rightarrow> Ok (mem_as_hStreamOutput new) | None \<Rightarrow> Fail)"
    unfolding patch_stream_def by (intro patch_stream_with_cache_mem) (use assms in auto)
qed

lemmas small_diff_evals =
  diff_spec_def parse_head_def rle_section_def rle_spec.simps [of _ "_ # _"] rle_run_def rle_type_def
  unpack_by_small kByteRleType_bit_def

text \<open>A diff of no covers that stores the new data, patched with buffers of the least documented size.\<close>

theorem patch_stream_refines_spec_witness:
  "patch_stream_with_cache (mem_as_hStreamOutput [0, 0]) (mem_as_hStreamInput []) (mem_as_hStreamInput [0, 0, 0, 0, 2, 7, 8, 1, 1])
      (None :: unit hpatch_TCovers option) 3 2051
    = Ok (mem_as_hStreamOutput [7, 8])"
proof -
  have "diff_spec Streaming 2 [] [0, 0, 0, 0, 2, 7, 8, 1, 1] = Some [7, 8]"
    by (simp add: small_diff_evals)
  then show ?thesis
    using patch_stream_refines_spec [THEN conjunct1, of "[]" "[0, 0, 0, 0, 2, 7, 8, 1, 1]" "[0, 0]" 3 2051] by (simp add: numeral_2_eq_2 [symmetric])
qed

end
