(* ===== verification/SingleStream.thy ===== *)
theory SingleStream
  imports Rle0 PatchStream
begin

text \<open>
  \<open>patch_single_stream_diff\<close> of \<open>patch.c\<close>: patching with a single-stream diff, which
  interleaves, step by step, the codes of some covers, their run-length bytes and the bytes
  that no cover produces.  The build modelled is the one without
  \<open>_IS_NEED_CACHE_OLD_BY_COVERS\<close>, where old data is cached as a whole or not at all.  The
  step loop counts covers in 64 bits and may run past zero, so it takes fuel; running out is
  a fault, and the properties show that one unit for each byte of the diff is enough.
\<close>

section \<open>Covers of a step\<close>

record sspatch_covers =
  covers_cache :: "byte list"
  lastOldEnd :: nat
  lastNewEnd :: nat
  sc_cover :: hpatch_TCover

definition sspatch_covers_init :: sspatch_covers where
  "sspatch_covers_init = \<lparr>covers_cache = [], lastOldEnd = 0, lastNewEnd = 0,
     sc_cover = \<lparr>oldPos = 0, newPos = 0, coverLength = 0\<rparr>\<rparr>"

definition sspatch_covers_setCoversCache :: "sspatch_covers \<Rightarrow> byte list \<Rightarrow> sspatch_covers" where
  "sspatch_covers_setCoversCache self cache = self\<lparr>covers_cache := cache\<rparr>"

definition sspatch_covers_isHaveNextCover :: "sspatch_covers \<Rightarrow> bool" where
  "sspatch_covers_isHaveNextCover self \<longleftrightarrow> covers_cache self \<noteq> []"

definition sspatch_covers_nextCover :: "sspatch_covers \<Rightarrow> sspatch_covers res" where
  "sspatch_covers_nextCover self =
     rbind (mem_take 1 (covers_cache self)) (\<lambda>(sign, _).
     let inc_oldPos_sign = drop_bit (8 - 1) (unat (hd sign));
         old_end = add64 (oldPos (sc_cover self)) (coverLength (sc_cover self));
         new_end = add64 (newPos (sc_cover self)) (coverLength (sc_cover self)) in
     rbind (hpatch_unpackUIntWithTag (covers_cache self) 1) (\<lambda>(old_pos, cache).
     let old_pos = (if inc_oldPos_sign = 0 then add64 old_pos old_end else sub64 old_end old_pos) in
     rbind (hpatch_unpackUInt cache) (\<lambda>(new_pos, cache).
     let new_pos = add64 new_pos new_end in
     rbind (hpatch_unpackUInt cache) (\<lambda>(len, cache).
     Ok \<lparr>covers_cache = cache, lastOldEnd = old_end, lastNewEnd = new_end,
         sc_cover = \<lparr>oldPos = old_pos, newPos = new_pos, coverLength = len\<rparr>\<rparr>))))"

lemma nextCover_shorter:
  "sspatch_covers_nextCover self = Ok self' \<Longrightarrow> length (covers_cache self') < length (covers_cache self)"
  by (auto simp: sspatch_covers_nextCover_def rbind_eq_Ok Let_def dest!: unpackUInt_shorter unpackUIntWithTag_Ok
      split: prod.splits)

section \<open>Old data cached as a whole\<close>

definition sizeof_hpatch_TStreamInput :: nat where
  "sizeof_hpatch_TStreamInput = 4 * 8"

definition patch_cache_all_old_needSize :: "nat \<Rightarrow> nat \<Rightarrow> nat" where
  "patch_cache_all_old_needSize oldDataSize kMinTempCacheSize =
     add64 (add64 (add64 oldDataSize kMinTempCacheSize) sizeof_hpatch_TStreamInput) 8"

definition patch_is_can_cache_all_old :: "nat \<Rightarrow> nat \<Rightarrow> nat \<Rightarrow> bool" where
  "patch_is_can_cache_all_old oldDataSize kMinTempCacheSize tempCacheSize \<longleftrightarrow>
     tempCacheSize \<ge> patch_cache_all_old_needSize oldDataSize kMinTempCacheSize"

definition cache_load_all :: "'r hpatch_TStreamInput \<Rightarrow> nat \<Rightarrow> (byte list \<times> 'r hpatch_TStreamInput) res" where
  "cache_load_all data cacheSize =
     rbind (require (cacheSize = streamSize data)) (\<lambda>_. sread data 0 cacheSize)"

text \<open>
  \<open>_patch_cache_all_old\<close>: nothing when the memory is too small, else the old data as a memory
  stream and what is left of the range of memory.  A read error is the failure.
\<close>

definition patch_cache_all_old ::
  "'r hpatch_TStreamInput \<Rightarrow> nat \<Rightarrow> nat \<Rightarrow> nat \<Rightarrow> (byte list hpatch_TStreamInput \<times> nat \<times> nat) option res" where
  "patch_cache_all_old oldData kMinTempCacheSize temp_cache temp_cache_end =
     (if patch_is_can_cache_all_old (streamSize oldData) kMinTempCacheSize (temp_cache_end - temp_cache) then
        case cache_alloc sizeof_hpatch_TStreamInput temp_cache temp_cache_end of
          Ok temp_cache \<Rightarrow>
            rbind (require (temp_cache + streamSize oldData \<le> temp_cache_end)) (\<lambda>_.
            rbind (cache_load_all oldData (streamSize oldData)) (\<lambda>(cache, _).
            Ok (Some (mem_as_hStreamInput cache, temp_cache, temp_cache_end - streamSize oldData))))
        | _ \<Rightarrow> Ok None
      else Ok None)"

section \<open>The patch\<close>

definition kCacheSgCount :: nat where
  "kCacheSgCount = 3"

text \<open>\<open>sspatch_coversListener_t\<close>; a null pointer to covers is \<open>None\<close>.\<close>

record 'l coversListener =
  listener_import :: 'l
  onStepCoversReset :: "('l \<Rightarrow> nat \<Rightarrow> 'l) option"
  onStepCovers :: "'l \<Rightarrow> byte list option \<Rightarrow> 'l"

definition call_reset :: "'l coversListener option \<Rightarrow> nat \<Rightarrow> 'l coversListener option" where
  "call_reset listener leaveCoverCount =
     map_option (\<lambda>l. case onStepCoversReset l of None \<Rightarrow> l
       | Some f \<Rightarrow> l\<lparr>listener_import := f (listener_import l) leaveCoverCount\<rparr>) listener"

definition call_covers :: "'l coversListener option \<Rightarrow> byte list option \<Rightarrow> 'l coversListener option" where
  "call_covers listener covers =
     map_option (\<lambda>l. l\<lparr>listener_import := onStepCovers l (listener_import l) covers\<rparr>) listener"

record ('o, 'r, 's, 'l) single_state =
  ss_inClip :: "'s TStreamCacheClip"
  ss_outCache :: "'o TOutStreamCache"
  ss_oldData :: "'r hpatch_TStreamInput"
  ss_covers :: sspatch_covers
  ss_rle0 :: rle0_decoder
  ss_coverCount :: nat
  ss_listener :: "'l coversListener option"

text \<open>One cover: the body of the cover loop.\<close>

definition single_cover :: "nat \<Rightarrow> ('o, 'r, 's, 'l) single_state \<Rightarrow> ('o, 'r, 's, 'l) single_state res" where
  "single_cover cache_size st =
     rbind (sspatch_covers_nextCover (ss_covers st)) (\<lambda>covers.
     let c = sc_cover covers in
     rbind (if newPos c > lastNewEnd covers then
              TOutStreamCache_copyFromClip (ss_outCache st) (ss_inClip st) (sub64 (newPos c) (lastNewEnd covers))
            else Ok (ss_outCache st, ss_inClip st)) (\<lambda>(out, inClip).
     let st = st\<lparr>ss_covers := covers, ss_outCache := out, ss_inClip := inClip,
                 ss_coverCount := sub64 (ss_coverCount st) 1\<rparr>;
         oldSize = streamSize (ss_oldData st) in
     if coverLength c \<noteq> 0 then
       rbind (check (\<not> (oldPos c > oldSize \<or> coverLength c > sub64 oldSize (oldPos c)))) (\<lambda>_.
       rbind (patch_add_old_with_rle0 (ss_outCache st) (ss_rle0 st) (ss_oldData st) (oldPos c) (coverLength c)
                cache_size) (\<lambda>(out, rle0, old).
       Ok (st\<lparr>ss_outCache := out, ss_rle0 := rle0, ss_oldData := old\<rparr>)))
     else
       rbind (check (\<not> ss_coverCount st \<noteq> 0)) (\<lambda>_. Ok st)))"

lemma single_cover_shorter:
  "single_cover k st = Ok st' \<Longrightarrow> length (covers_cache (ss_covers st')) < length (covers_cache (ss_covers st))"
  by (auto simp: single_cover_def rbind_eq_Ok Let_def dest!: nextCover_shorter split: prod.splits if_splits)

function single_covers :: "nat \<Rightarrow> ('o, 'r, 's, 'l) single_state \<Rightarrow> ('o, 'r, 's, 'l) single_state res" where
  "single_covers cache_size st =
     (if sspatch_covers_isHaveNextCover (ss_covers st)
      then rbind (single_cover cache_size st) (single_covers cache_size)
      else Ok st)"
  by pat_completeness auto
termination
  by (relation "measure (\<lambda>(k, st). length (covers_cache (ss_covers st)))") (auto dest: single_cover_shorter)

declare single_covers.simps [simp del]

text \<open>Reading a step: its two sizes and its codes, into the first \<open>stepMemSize\<close> bytes of the cache.\<close>

definition single_step :: "nat \<Rightarrow> ('o, 'r, 's, 'l) single_state \<Rightarrow> ('o, 'r, 's, 'l) single_state res" where
  "single_step stepMemSize st =
     rbind (clip_unpackUIntTo (ss_inClip st)) (\<lambda>(bufCover_size, inClip).
     rbind (clip_unpackUIntTo inClip) (\<lambda>(bufRle_size, inClip).
     rbind (check (\<not> (bufCover_size > stepMemSize \<or> bufRle_size > stepMemSize \<or>
              add64 bufCover_size bufRle_size > stepMemSize))) (\<lambda>_.
     let listener = call_reset (ss_listener st) (ss_coverCount st) in
     rbind (require (bufCover_size + bufRle_size \<le> stepMemSize)) (\<lambda>_.
     rbind (TStreamCacheClip_readDataTo inClip (bufCover_size + bufRle_size)) (\<lambda>(step_cache, inClip).
     let covers = take bufCover_size step_cache in
     Ok (st\<lparr>ss_inClip := inClip, ss_listener := call_covers listener (Some covers),
            ss_covers := sspatch_covers_setCoversCache (ss_covers st) covers,
            ss_rle0 := rle0_decoder_init (drop bufCover_size step_cache)\<rparr>))))))"

fun single_loop ::
  "nat \<Rightarrow> nat \<Rightarrow> nat \<Rightarrow> ('o, 'r, 's, 'l) single_state \<Rightarrow> ('o, 'r, 's, 'l) single_state res" where
  "single_loop 0 stepMemSize cache_size st = (if ss_coverCount st \<noteq> 0 then Fault else Ok st)"
| "single_loop (Suc fuel) stepMemSize cache_size st =
     (if ss_coverCount st \<noteq> 0 then
        rbind (single_step stepMemSize st) (\<lambda>st.
        rbind (single_covers cache_size st) (single_loop fuel stepMemSize cache_size))
      else Ok st)"

definition single_finish :: "('o, 'r, 's, 'l) single_state \<Rightarrow> ('o, 'r, 's, 'l) single_state res" where
  "single_finish st =
     (let st = st\<lparr>ss_listener := call_covers (call_reset (ss_listener st) 0) None\<rparr> in
      rbind (TOutStreamCache_flush (ss_outCache st)) (\<lambda>out.
      if TStreamCacheClip_isFinish (ss_inClip st) \<and> TOutStreamCache_isFinish out \<and> ss_coverCount st = 0
      then Ok (st\<lparr>ss_outCache := out\<rparr>) else Fail))"

text \<open>From the choice of the old stream on.\<close>

definition single_run ::
  "nat \<Rightarrow> 'o hpatch_TStreamOutput \<Rightarrow> 'r hpatch_TStreamInput \<Rightarrow> 's hpatch_TStreamInput \<Rightarrow> nat \<Rightarrow> nat \<Rightarrow> nat \<Rightarrow> nat \<Rightarrow>
   nat \<Rightarrow> 'l coversListener option \<Rightarrow> bool \<Rightarrow> ('o hpatch_TStreamOutput \<times> 'l coversListener option) res" where
  "single_run fuel out_newData oldData diffData diffData_pos diffData_posEnd cover_count stepMemSize cache_size
     listener isNeedOutCache =
     rbind (TStreamCacheClip_init diffData diffData_pos diffData_posEnd (new_cache cache_size) cache_size) (\<lambda>inClip.
     let out_size = (if isNeedOutCache then cache_size else 0) in
     rbind (single_loop fuel stepMemSize cache_size
              \<lparr>ss_inClip = inClip, ss_outCache = TOutStreamCache_init out_newData (new_cache out_size) out_size,
               ss_oldData = oldData, ss_covers = sspatch_covers_init, ss_rle0 = rle0_decoder_init [],
               ss_coverCount = cover_count, ss_listener = listener\<rparr>) (\<lambda>st.
     rbind (single_finish st) (\<lambda>st.
     Ok (dstStream (ss_outCache st), ss_listener st))))"

definition patch_single_stream_diff ::
  "nat \<Rightarrow> 'o hpatch_TStreamOutput \<Rightarrow> 'r hpatch_TStreamInput \<Rightarrow> 's hpatch_TStreamInput \<Rightarrow> nat \<Rightarrow> nat \<Rightarrow> nat \<Rightarrow> nat \<Rightarrow>
   nat \<Rightarrow> nat \<Rightarrow> 'l coversListener option \<Rightarrow> bool \<Rightarrow> ('o hpatch_TStreamOutput \<times> 'l coversListener option) res" where
  "patch_single_stream_diff fuel out_newData oldData diffData diffData_pos diffData_posEnd cover_count stepMemSize
     temp_cache temp_cache_end listener isNeedOutCache =
     (let kCacheCount = kCacheSgCount - (if isNeedOutCache then 0 else 1) in
      rbind (require (diffData_posEnd \<le> streamSize diffData)) (\<lambda>_.
      rbind (check (\<not> temp_cache_end - temp_cache < add64 stepMemSize (hpatch_kStreamCacheSize * kCacheCount))) (\<lambda>_.
      let temp_cache = temp_cache + stepMemSize in
      rbind (patch_cache_all_old oldData (kCacheCount * hpatch_kStreamCacheSize) temp_cache temp_cache_end) (\<lambda>cached.
      case cached of
        None \<Rightarrow>
          single_run fuel out_newData oldData diffData diffData_pos diffData_posEnd cover_count stepMemSize
            ((temp_cache_end - temp_cache) div kCacheCount) listener isNeedOutCache
      | Some (old, temp_cache, temp_cache_end) \<Rightarrow>
          single_run fuel out_newData old diffData diffData_pos diffData_posEnd cover_count stepMemSize
            ((temp_cache_end - temp_cache) div kCacheCount) listener isNeedOutCache))))"

section \<open>What a single-stream diff means\<close>

text \<open>
  The covers of a step: the bytes they produce, then the bytes of the diff that are left, the
  state of the cover positions and how many covers are still to come.
\<close>

function ss_covers_spec ::
  "byte list \<Rightarrow> sspatch_covers \<Rightarrow> byte list \<Rightarrow> byte list \<Rightarrow> nat \<Rightarrow>
   (byte list \<times> byte list \<times> sspatch_covers \<times> nat) option" where
  "ss_covers_spec old cv rle inb count =
     (if covers_cache cv = [] then Some ([], inb, cv, count)
      else case sspatch_covers_nextCover cv of
        Ok cv' \<Rightarrow>
          (let c = sc_cover cv'; gap = newPos c - lastNewEnd cv'; len = coverLength c; count' = sub64 count 1 in
           if gap \<le> length inb \<and>
              (if len = 0 then count' = 0 else oldPos c + len \<le> length old \<and> len \<le> length rle)
           then map_option (\<lambda>(d, r). (take gap inb @ bytes_add (take len rle) (take len (drop (oldPos c) old)) @ d, r))
                  (ss_covers_spec old cv' (drop len rle) (drop gap inb) count')
           else None)
      | _ \<Rightarrow> None)"
  by pat_completeness auto
termination
  by (relation "measure (\<lambda>(old, cv, r, i, c). length (covers_cache cv))") (auto dest: nextCover_shorter)

declare ss_covers_spec.simps [simp del]

lemma ss_covers_spec_shorter:
  "ss_covers_spec old cv rle inb count = Some (d, inb', r) \<Longrightarrow> length inb' \<le> length inb"
proof (induction old cv rle inb count arbitrary: d rule: ss_covers_spec.induct)
  case (1 old cv rle inb count)
  show ?case
  proof (cases "covers_cache cv = []")
    case True
    then show ?thesis using "1.prems" by (simp add: ss_covers_spec.simps [of old cv])
  next
    case False
    then obtain cv' where cv': "sspatch_covers_nextCover cv = Ok cv'"
      using "1.prems" by (auto simp: ss_covers_spec.simps [of old cv] split: res.splits)
    show ?thesis
      using "1.prems" False cv' "1.IH" [OF False cv' refl refl refl refl]
      by (fastforce simp: ss_covers_spec.simps [of old cv] Let_def split: if_splits)
  qed
qed

text \<open>The new data from a place between two steps on.\<close>

function ss_spec :: "byte list \<Rightarrow> nat \<Rightarrow> sspatch_covers \<Rightarrow> byte list \<Rightarrow> nat \<Rightarrow> byte list option" where
  "ss_spec old stepMemSize cv inb count =
     (if count = 0 then (if inb = [] then Some [] else None)
      else case unpack_by Streaming inb 0 of
        Ok (bc, inb1) \<Rightarrow>
          (case unpack_by Streaming inb1 0 of
             Ok (br, inb2) \<Rightarrow>
               (if bc + br \<le> stepMemSize \<and> bc + br \<le> length inb2 then
                  case ss_covers_spec old (sspatch_covers_setCoversCache cv (take bc inb2))
                         (rle0_spec True (take br (drop bc inb2))) (drop (bc + br) inb2) count of
                    Some (d, inb3, cv', count') \<Rightarrow> map_option ((@) d) (ss_spec old stepMemSize cv' inb3 count')
                  | None \<Rightarrow> None
                else None)
           | _ \<Rightarrow> None)
      | _ \<Rightarrow> None)"
  by pat_completeness auto
termination
  by (relation "measure (\<lambda>(old, s, cv, i, c). length i)")
    (auto dest!: unpack_by_Ok ss_covers_spec_shorter)

declare ss_spec.simps [simp del]

section \<open>The code implements it\<close>

context random_stream begin

lemma readDataTo_end_rule:
  assumes c: "cache_ok c" "streamPos_end c = streamSize (srcStream c)" "streamSize (srcStream c) < 2 ^ 63" "n < 2 ^ 63"
    and S: "S \<Longrightarrow> n \<le> length (cache_bytes c)"
    and Q: "\<And>d c'. cache_reads c d c' \<Longrightarrow> length d = n \<Longrightarrow> Q (d, c')"
  shows "hoare S (TStreamCacheClip_readDataTo c n) Q"
proof (cases "n \<le> cache_left c")
  case True
  show ?thesis
    by (rule readDataTo_rule [OF c(1) True]) (use Q c contents_size in \<open>auto simp: cache_full_def cache_ok_def\<close>)
next
  case False
  let ?k = "cacheEnd c - cacheBegin c" let ?m = "n - ?k"
  let ?c1 = "c\<lparr>cacheBegin := cacheBegin c + ?k\<rparr>"
  have h: "length (cacheBuf c) = cacheEnd c" "cacheBegin c \<le> cacheEnd c" "rok (srcStream c)"
    "streamPos c \<le> streamPos_end c" using c by (auto simp: cache_ok_def)
  have nS: "\<not> S" using S False cache_bytes_length [OF c(1)] by auto
  have r1: "cache_reads c (take ?k (cache_bytes c)) ?c1"
    using skip_reads [OF c(1) order_refl] by (simp add: TStreamCacheClip_skipData_noCheck_def)
  note c1 = cache_readsD [OF r1]
  have m: "cache_left ?c1 < ?m" "?m \<noteq> 0" "streamPos c + ?m < 2 ^ 64" "length (contents (srcStream c)) < streamPos c + ?m"
    using False h c contents_size [OF h(3)] by (auto simp: cache_left_def)
  have nk: "\<not> n \<le> ?k" using m(2) by simp
  have unf: "TStreamCacheClip_readDataTo c n =
     (if ?m < drop_bit 1 (cacheEnd c) then
          rbind (TStreamCacheClip_updateCache ?c1) (\<lambda>c.
          rbind (check (\<not> ?m > TStreamCacheClip_cachedSize c)) (\<lambda>_.
          rbind (TStreamCacheClip_readDataTo c ?m) (\<lambda>(d', c).
          Ok (drop (cacheBegin c') (cacheBuf c') @ d', c))))
        else
          rbind (sread (srcStream c) (streamPos c) ?m) (\<lambda>(d', src).
          Ok (drop (cacheBegin c') (cacheBuf c') @ d', ?c1\<lparr>srcStream := src, streamPos := add64 (streamPos c) ?m\<rparr>)))"
    if "c' = c" for c'
    using nk h c that by (simp add: TStreamCacheClip_readDataTo.simps [of c n] cache_sizes mem_read_def Let_def)
  show ?thesis
  proof (cases "?m < drop_bit 1 (cacheEnd c)")
    case True
    show ?thesis unfolding unf [OF refl] if_P [OF True]
    proof (rule hoare_bindI, rule updateCache_rule [OF c1(1)], goal_cases)
      case (2 c2)
      note r2 = cache_readsD [OF 2(1)]
      have "TStreamCacheClip_cachedSize c2 < ?m" using 2(2) m(1) r2(1) by (simp add: cache_sizes min.strict_coboundedI2)
      then show ?case using nS by (simp add: check_def)
    qed (use nS in simp)
  next
    case big: False
    show ?thesis unfolding unf [OF refl] if_not_P [OF big]
      by (rule hoare_bindI, rule random_rule [OF h(3) m(3)]) (use nS m(4) in auto)
  qed
qed

end

context patch_files begin

definition ss_ok :: "('o, 'r, 's, 'l) single_state \<Rightarrow> bool" where
  "ss_ok st \<longleftrightarrow>
     o.out_ok (ss_outCache st) \<and> rok (ss_oldData st) \<and> rle0_ok (ss_rle0 st) \<and>
     i.cache_ok (ss_inClip st) \<and> 11 \<le> cacheEnd (ss_inClip st) \<and> cacheEnd (ss_inClip st) < 2 ^ 63 \<and>
     streamPos_end (ss_inClip st) = streamSize (srcStream (ss_inClip st)) \<and>
     streamSize (srcStream (ss_inClip st)) < 2 ^ 63"

definition ss_out :: "('o, 'r, 's, 'l) single_state \<Rightarrow> byte list" where
  "ss_out st = o.out_bytes (ss_outCache st)"

definition ss_in :: "('o, 'r, 's, 'l) single_state \<Rightarrow> byte list" where
  "ss_in st = i.cache_bytes (ss_inClip st)"

text \<open>A step from one state to the next that writes \<open>d\<close>.\<close>

definition ss_writes :: "('o, 'r, 's, 'l) single_state \<Rightarrow> byte list \<Rightarrow> ('o, 'r, 's, 'l) single_state \<Rightarrow> bool" where
  "ss_writes st d st' \<longleftrightarrow>
     ss_ok st' \<and> ss_out st' = ss_out st @ d \<and> o.out_size (ss_outCache st') = o.out_size (ss_outCache st) \<and>
     contents (ss_oldData st') = contents (ss_oldData st)"

lemma ss_writesD:
  assumes "ss_writes st d st'"
  shows "ss_ok st'" "ss_out st' = ss_out st @ d" "o.out_size (ss_outCache st') = o.out_size (ss_outCache st)"
    "contents (ss_oldData st') = contents (ss_oldData st)"
  using assms by (simp_all add: ss_writes_def)

lemma ss_writes_trans: "ss_writes st d st' \<Longrightarrow> ss_writes st' e st'' \<Longrightarrow> ss_writes st (d @ e) st''"
  by (simp add: ss_writes_def)

lemma ss_full: "ss_ok st \<Longrightarrow> i.cache_full (ss_inClip st)"
  using d.contents_size by (auto simp: ss_ok_def i.cache_ok_def i.cache_full_def)

abbreviation ss_covers_rest :: "('o, 'r, 's, 'l) single_state \<Rightarrow> (byte list \<times> byte list \<times> sspatch_covers \<times> nat) option" where
  "ss_covers_rest st \<equiv>
     ss_covers_spec (contents (ss_oldData st)) (ss_covers st) (rle0_rest (ss_rle0 st)) (ss_in st) (ss_coverCount st)"

lemma nextCover_no_Fault: "covers_cache cv \<noteq> [] \<Longrightarrow> sspatch_covers_nextCover cv \<noteq> Fault"
  using unpackUIntWithTag_no_Fault
  by (auto simp: sspatch_covers_nextCover_def rbind_eq_Fault mem_take_def Let_def Suc_le_eq hpatch_unpackUInt_def split: prod.splits)

lemma nextCover_less:
  "sspatch_covers_nextCover cv = Ok cv' \<Longrightarrow>
   newPos (sc_cover cv') < 2 ^ 64 \<and> coverLength (sc_cover cv') < 2 ^ 64 \<and> oldPos (sc_cover cv') < 2 ^ 64 \<and> lastNewEnd cv' < 2 ^ 64"
  by (auto simp: sspatch_covers_nextCover_def rbind_eq_Ok Let_def hpatch_unpackUInt_def
      dest!: unpackUIntWithTag_Ok split: prod.splits)

lemma single_cover_rule:
  assumes ok: "ss_ok st" and ne: "covers_cache (ss_covers st) \<noteq> []" and k: "0 < k" "k < 2 ^ 63"
    and S: "S \<Longrightarrow> \<exists>d r. ss_covers_rest st = Some (d, r) \<and> length (ss_out st) + length d \<le> o.out_size (ss_outCache st)"
    and Q: "\<And>d st'. ss_writes st d st' \<Longrightarrow>
      ss_covers_rest st = map_option (\<lambda>(e, r). (d @ e, r)) (ss_covers_rest st') \<Longrightarrow>
      length (ss_in st') \<le> length (ss_in st) \<Longrightarrow> Q st'"
  shows "hoare S (single_cover k st) Q"
proof -
  let ?old = "contents (ss_oldData st)" and ?rle = "rle0_rest (ss_rle0 st)"
  have h: "o.out_ok (ss_outCache st)" "rok (ss_oldData st)" "rle0_ok (ss_rle0 st)" "i.cache_ok (ss_inClip st)"
    "0 < cacheEnd (ss_inClip st)" "cacheEnd (ss_inClip st) < 2 ^ 63" using ok by (auto simp: ss_ok_def)
  have old: "streamSize (ss_oldData st) = length ?old" "length ?old < 2 ^ 64" using r.contents_size [OF h(2)] by auto
  show ?thesis
  proof (cases "sspatch_covers_nextCover (ss_covers st)")
    case Fault
    then show ?thesis using nextCover_no_Fault [OF ne] by simp
  next
    case Fail
    then show ?thesis using S ne by (auto simp: single_cover_def ss_covers_spec.simps [of _ "ss_covers st"])
  next
    case (Ok cv)
    define c gap len count where "c = sc_cover cv" and "gap = newPos c - lastNewEnd cv" and "len = coverLength c"
      and "count = sub64 (ss_coverCount st) 1"
    note less = nextCover_less [OF Ok, folded c_def]
    define good where "good \<longleftrightarrow> (if len = 0 then count = 0 else oldPos c + len \<le> length ?old \<and> len \<le> length ?rle)"
    have rest: "ss_covers_rest st =
        (if gap \<le> length (ss_in st) \<and> good
         then map_option (\<lambda>(d, r). (take gap (ss_in st) @ bytes_add (take len ?rle) (take len (drop (oldPos c) ?old)) @ d, r))
                  (ss_covers_spec ?old cv (drop len ?rle) (drop gap (ss_in st)) count)
         else None)"
      unfolding c_def gap_def len_def count_def good_def
      by (subst ss_covers_spec.simps) (simp only: ne Ok Let_def if_False res.case)
    have S1: "gap \<le> length (ss_in st) \<and> good \<and> length (ss_out st) + gap + (if good then len else 0) \<le> o.out_size (ss_outCache st)" if S
    proof -
      obtain d r where d: "ss_covers_rest st = Some (d, r)" "length (ss_out st) + length d \<le> o.out_size (ss_outCache st)"
        using S [OF \<open>S\<close>] by blast
      then have g: "gap \<le> length (ss_in st)" good by (auto simp: rest split: if_splits)
      then obtain d' where "d = take gap (ss_in st) @ bytes_add (take len ?rle) (take len (drop (oldPos c) ?old)) @ d'"
        using d(1) by (auto simp: rest)
      then show ?thesis using d(2) g by (auto simp: good_def split: if_splits)
    qed
    have "hoare S (rbind (if newPos c > lastNewEnd cv then
              TOutStreamCache_copyFromClip (ss_outCache st) (ss_inClip st) (sub64 (newPos c) (lastNewEnd cv))
            else Ok (ss_outCache st, ss_inClip st)) (\<lambda>(out, inClip).
       if len \<noteq> 0 then
         rbind (check (\<not> (oldPos c > length ?old \<or> len > sub64 (length ?old) (oldPos c)))) (\<lambda>_.
         rbind (patch_add_old_with_rle0 out (ss_rle0 st) (ss_oldData st) (oldPos c) len k) (\<lambda>(out, rle0, old).
         Ok (st\<lparr>ss_covers := cv, ss_outCache := out, ss_inClip := inClip, ss_coverCount := count, ss_rle0 := rle0, ss_oldData := old\<rparr>)))
       else
         rbind (check (\<not> count \<noteq> 0)) (\<lambda>_.
         Ok (st\<lparr>ss_covers := cv, ss_outCache := out, ss_inClip := inClip, ss_coverCount := count\<rparr>)))) Q"
    proof (rule hoare_bind [where P = "\<lambda>(out, inClip). \<exists>d. i.cache_reads (ss_inClip st) d inClip \<and> length d = gap \<and>
          o.out_appends (ss_outCache st) d out"], goal_cases)
      case 1
      have "hoare S (TOutStreamCache_copyFromClip (ss_outCache st) (ss_inClip st) gap) (\<lambda>(out, inClip).
          \<exists>d. i.cache_reads (ss_inClip st) d inClip \<and> length d = gap \<and> o.out_appends (ss_outCache st) d out)"
        by (rule o.copyFromClip_rule [OF i.input_stream_axioms])
          (use h S1 ss_full [OF ok] in \<open>auto simp: ss_out_def ss_in_def\<close>)
      moreover have "sub64 (newPos c) (lastNewEnd cv) = gap" if "newPos c > lastNewEnd cv"
        using that less by (simp add: gap_def sub64_eq)
      moreover have "gap = 0" if "\<not> newPos c > lastNewEnd cv" using that by (simp add: gap_def)
      ultimately show ?case using h by simp
    next
      case (2 x)
      then obtain out inClip d where x: "x = (out, inClip)" "i.cache_reads (ss_inClip st) d inClip" "length d = gap"
        "o.out_appends (ss_outCache st) d out" by (cases x) auto
      note a = o.out_appendsD [OF x(4)] and r = i.cache_readsD [OF x(2)]
      have d: "d = take gap (ss_in st)" "gap \<le> length (ss_in st)" "i.cache_bytes inClip = drop gap (ss_in st)"
        using r(4) x(3) by (simp_all add: ss_in_def)
      show ?case unfolding x(1) prod.case
      proof (rule hoare_if, goal_cases)
        case 1
        have fits: "\<not> (oldPos c > length ?old \<or> len > sub64 (length ?old) (oldPos c)) \<longleftrightarrow> oldPos c + len \<le> length ?old"
          using old by (auto simp: sub64_eq)
        show ?case unfolding fits
        proof (rule hoare_bindI, rule hoare_weaken [where S = S, OF hoare_check], goal_cases)
          case 1
          then show ?case using S1 \<open>len \<noteq> 0\<close> by (auto simp: good_def)
        next
          case (3 _)
          show ?case
          proof (rule hoare_bindI, rule patch_add_old0_rule [OF a(1) h(3,2) k 3], goal_cases)
            case 1
            then show ?case using S1 a \<open>len \<noteq> 0\<close> x(3) by (auto simp: good_def ss_out_def)
          next
            case (2 out' l' old' f)
            let ?st = "st\<lparr>ss_covers := cv, ss_outCache := out', ss_inClip := inClip, ss_coverCount := count, ss_rle0 := l', ss_oldData := old'\<rparr>"
            let ?add = "bytes_add f (take len (drop (oldPos c) ?old))"
            note a2 = o.out_appendsD [OF 2(1)]
            have "Q ?st"
            proof (rule Q)
              show "ss_writes st (d @ ?add) ?st" using a a2 r h ok 2 by (simp add: ss_writes_def ss_ok_def ss_out_def)
              show "ss_covers_rest st = map_option (\<lambda>(e, r). ((d @ ?add) @ e, r)) (ss_covers_rest ?st)"
                using rest \<open>oldPos c + len \<le> length ?old\<close> \<open>len \<noteq> 0\<close> d 2 by (simp add: good_def ss_in_def)
            qed (use d in \<open>simp add: ss_in_def\<close>)
            then show ?case by simp
          qed
        qed auto
      next
        case 2
        let ?st = "st\<lparr>ss_covers := cv, ss_outCache := out, ss_inClip := inClip, ss_coverCount := count\<rparr>"
        have "Q ?st" if "count = 0"
        proof (rule Q)
          show "ss_writes st d ?st" using a r h ok by (simp add: ss_writes_def ss_ok_def ss_out_def)
          show "ss_covers_rest st = map_option (\<lambda>(e, r). (d @ e, r)) (ss_covers_rest ?st)"
            using rest that 2 d by (simp add: good_def ss_in_def)
        qed (use d in \<open>simp add: ss_in_def\<close>)
        then show ?case using 2 S1 by (auto simp: check_def good_def)
      qed
    qed
    moreover have "single_cover k st = rbind (if newPos c > lastNewEnd cv then
              TOutStreamCache_copyFromClip (ss_outCache st) (ss_inClip st) (sub64 (newPos c) (lastNewEnd cv))
            else Ok (ss_outCache st, ss_inClip st)) (\<lambda>(out, inClip).
       if len \<noteq> 0 then
         rbind (check (\<not> (oldPos c > length ?old \<or> len > sub64 (length ?old) (oldPos c)))) (\<lambda>_.
         rbind (patch_add_old_with_rle0 out (ss_rle0 st) (ss_oldData st) (oldPos c) len k) (\<lambda>(out, rle0, old).
         Ok (st\<lparr>ss_covers := cv, ss_outCache := out, ss_inClip := inClip, ss_coverCount := count, ss_rle0 := rle0, ss_oldData := old\<rparr>)))
       else
         rbind (check (\<not> count \<noteq> 0)) (\<lambda>_.
         Ok (st\<lparr>ss_covers := cv, ss_outCache := out, ss_inClip := inClip, ss_coverCount := count\<rparr>)))"
      unfolding single_cover_def Ok rbind.simps Let_def c_def len_def count_def
      by (rule rbind_cong [OF refl]) (auto simp: old intro!: rbind_cong split: prod.splits)
    ultimately show ?thesis by (simp only:)
  qed
qed

lemma single_covers_rule:
  assumes "ss_ok st" "0 < k" "k < 2 ^ 63"
    and "S \<Longrightarrow> \<exists>d r. ss_covers_rest st = Some (d, r) \<and> length (ss_out st) + length d \<le> o.out_size (ss_outCache st)"
    and "\<And>d st'. ss_writes st d st' \<Longrightarrow>
      ss_covers_rest st = Some (d, ss_in st', ss_covers st', ss_coverCount st') \<Longrightarrow> Q st'"
  shows "hoare S (single_covers k st) Q"
  using assms
proof (induction "length (covers_cache (ss_covers st))" arbitrary: st Q rule: less_induct)
  case less
  show ?case
  proof (cases "covers_cache (ss_covers st) = []")
    case True
    have "Q st" by (rule less.prems(5) [of "[]"])
        (use less.prems(1) True in \<open>simp_all add: ss_writes_def ss_covers_spec.simps [of _ "ss_covers st"]\<close>)
    then show ?thesis using True
      by (simp add: single_covers.simps [of k st] sspatch_covers_isHaveNextCover_def)
  next
    case False
    have "hoare S (rbind (single_cover k st) (single_covers k)) Q"
    proof (rule hoare_bind [where P = "\<lambda>st1. \<exists>d. ss_writes st d st1 \<and>
          ss_covers_rest st = map_option (\<lambda>(e, r). (d @ e, r)) (ss_covers_rest st1)"], goal_cases)
      case 1
      show ?case by (rule single_cover_rule [OF less.prems(1) False less.prems(2,3)]) (use less.prems(4) in blast)+
    next
      case (2 st1)
      then obtain d where d: "ss_writes st d st1" "ss_covers_rest st = map_option (\<lambda>(e, r). (d @ e, r)) (ss_covers_rest st1)"
        by blast
      note w = ss_writesD [OF d(1)]
      show ?case
      proof (rule less.hyps)
        show "length (covers_cache (ss_covers st1)) < length (covers_cache (ss_covers st))"
          by (rule single_cover_shorter [OF 2(1)])
        show "\<exists>d r. ss_covers_rest st1 = Some (d, r) \<and> length (ss_out st1) + length d \<le> o.out_size (ss_outCache st1)" if S
          using less.prems(4) [OF that] d(2) w by (cases "ss_covers_rest st1") auto
        fix e st'
        assume "ss_writes st1 e st'" "ss_covers_rest st1 = Some (e, ss_in st', ss_covers st', ss_coverCount st')"
        then show "Q st'" by (intro less.prems(5) [of "d @ e"]) (use d ss_writes_trans in auto)
      qed (use w less.prems in auto)
    qed
    then show ?thesis using False
      unfolding single_covers.simps [of k st] sspatch_covers_isHaveNextCover_def by simp
  qed
qed

abbreviation ss_rest :: "nat \<Rightarrow> ('o, 'r, 's, 'l) single_state \<Rightarrow> byte list option" where
  "ss_rest m st \<equiv> ss_spec (contents (ss_oldData st)) m (ss_covers st) (ss_in st) (ss_coverCount st)"

lemma single_step_rule:
  assumes ok: "ss_ok st" and count: "ss_coverCount st \<noteq> 0" and m: "m < 2 ^ 63"
    and S: "S \<Longrightarrow> ss_rest m st \<noteq> None"
    and Q: "\<And>st'. ss_ok st' \<Longrightarrow> ss_out st' = ss_out st \<Longrightarrow> ss_outCache st' = ss_outCache st \<Longrightarrow>
      contents (ss_oldData st') = contents (ss_oldData st) \<Longrightarrow> length (ss_in st') < length (ss_in st) \<Longrightarrow>
      ss_rest m st = (case ss_covers_rest st' of None \<Rightarrow> None
        | Some (d, inb, cv, n) \<Rightarrow> map_option ((@) d) (ss_spec (contents (ss_oldData st')) m cv inb n)) \<Longrightarrow> Q st'"
  shows "hoare S (single_step m st) Q"
proof -
  have h: "i.cache_ok (ss_inClip st)" "11 \<le> cacheEnd (ss_inClip st)"
    "streamPos_end (ss_inClip st) = streamSize (srcStream (ss_inClip st))" "streamSize (srcStream (ss_inClip st)) < 2 ^ 63"
    using ok by (auto simp: ss_ok_def)
  let ?old = "contents (ss_oldData st)" and ?cv = "ss_covers st"
  note spec = ss_spec.simps [of ?old m ?cv "ss_in st" "ss_coverCount st", unfolded if_not_P [OF count]]
  have full: "i.cache_full (ss_inClip st)" by (rule ss_full [OF ok])
  show ?thesis unfolding single_step_def clip_unpackUIntTo_def
  proof (rule hoare_bindI, rule i.unpack_rule [OF h(1)], goal_cases)
    case 1
    then show ?case using S h(2) full spec by (auto simp: ss_in_def)
  next
    case (2 bc d1 c1)
    note r1 = i.cache_readsD [OF 2(1)]
    have u1: "unpack_by Streaming (ss_in st) 0 = Ok (bc, i.cache_bytes c1)" using 2(2) by (simp add: ss_in_def)
    show ?case unfolding prod.case
    proof (rule hoare_bindI, rule i.unpack_rule [OF r1(1)], goal_cases)
      case 1
      then show ?case using S h(2) r1 full spec u1 by auto
    next
      case (2 br d2 c2)
      note r2 = i.cache_readsD [OF 2(1)]
      note b = \<open>bc < 2 ^ 64\<close> \<open>br < 2 ^ 64\<close>
      have u2: "unpack_by Streaming (i.cache_bytes c1) 0 = Ok (br, i.cache_bytes c2)" by (rule 2(2))
      have shorter: "length (i.cache_bytes c2) < length (ss_in st)"
        using unpack_by_Ok [OF u1] unpack_by_Ok [OF u2] by simp
      have chk: "\<not> (bc > m \<or> br > m \<or> add64 bc br > m) \<longleftrightarrow> bc + br \<le> m"
        using m by (auto simp: add64_eq)
      show ?case unfolding prod.case chk
      proof (rule hoare_bindI, rule hoare_weaken [where S = S, OF hoare_check], goal_cases)
        case 1
        then show ?case using S spec u1 u2 by (auto split: if_splits)
      next
        case (3 _)
        then have le: "bc + br \<le> m" .
        show ?case unfolding Let_def require_def if_P [OF le] rbind.simps
        proof (rule hoare_bindI, rule d.readDataTo_end_rule, goal_cases)
          case 5
          then show ?case using S spec u1 u2 by (auto split: if_splits)
        next
          case (6 d c3)
          note r3 = i.cache_readsD [OF 6(1)]
          define st' where "st' = st\<lparr>ss_inClip := c3, ss_listener := call_covers (call_reset (ss_listener st) (ss_coverCount st)) (Some (take bc d)),
            ss_covers := sspatch_covers_setCoversCache (ss_covers st) (take bc d), ss_rle0 := rle0_decoder_init (drop bc d)\<rparr>"
          have f: "ss_inClip st' = c3" "ss_outCache st' = ss_outCache st" "ss_oldData st' = ss_oldData st"
            "ss_covers st' = sspatch_covers_setCoversCache ?cv (take bc d)" "ss_rle0 st' = rle0_decoder_init (drop bc d)"
            "ss_coverCount st' = ss_coverCount st" by (simp_all add: st'_def)
          have ld: "length d = bc + br" using 6(2) .
          have b2: "i.cache_bytes c2 = d @ i.cache_bytes c3" by (rule r3(4))
          have rest: "ss_rest m st = (case ss_covers_rest st' of None \<Rightarrow> None
            | Some (d, inb, cv, n) \<Rightarrow> map_option ((@) d) (ss_spec (contents (ss_oldData st')) m cv inb n))"
          proof -
            have "take bc (i.cache_bytes c2) = take bc d" "take br (drop bc (i.cache_bytes c2)) = drop bc d"
              "drop (bc + br) (i.cache_bytes c2) = i.cache_bytes c3" using ld b2 by simp_all
            then show ?thesis unfolding spec u1 u2 res.case prod.case
              using le ld b2 by (simp add: f ss_in_def) (auto simp: f split: option.splits)
          qed
          have "Q st'"
          proof (rule Q)
            show "ss_ok st'" using ok r1 r2 r3 by (simp add: ss_ok_def f)
            show "length (ss_in st') < length (ss_in st)" using shorter b2 by (simp add: ss_in_def f)
          qed (use rest f in \<open>simp_all add: ss_out_def\<close>)
          then show ?case by (simp add: st'_def)
        qed (use r1 r2 h m le in auto)
      qed auto
    qed
  qed
qed

lemma single_loop_rule:
  assumes "ss_ok st" "0 < k" "k < 2 ^ 63" "m < 2 ^ 63" "length (ss_in st) < fuel"
    and "S \<Longrightarrow> \<exists>new. ss_rest m st = Some new \<and> length (ss_out st) + length new \<le> o.out_size (ss_outCache st)"
    and "\<And>d st'. ss_writes st d st' \<Longrightarrow> ss_coverCount st' = 0 \<Longrightarrow>
      ss_rest m st = (if ss_in st' = [] then Some d else None) \<Longrightarrow> Q st'"
  shows "hoare S (single_loop fuel m k st) Q"
  using assms
proof (induction fuel arbitrary: st Q)
  case (Suc fuel)
  show ?case
  proof (cases "ss_coverCount st = 0")
    case True
    have "Q st" by (rule Suc.prems(7) [of "[]"])
        (use True Suc.prems(1) in \<open>simp_all add: ss_writes_def ss_spec.simps [of _ m "ss_covers st"]\<close>)
    then show ?thesis using True by simp
  next
    case False
    have "hoare S (rbind (single_step m st) (\<lambda>st.
        rbind (single_covers k st) (single_loop fuel m k))) Q"
    proof (rule hoare_bindI, rule single_step_rule [OF Suc.prems(1) False Suc.prems(4)], goal_cases)
      case 1
      then show ?case using Suc.prems(6) by auto
    next
      case (2 st1)
      note s1 = 2
      show ?case
      proof (rule hoare_bindI, rule single_covers_rule [OF s1(1) Suc.prems(2,3)], goal_cases)
        case 1
        obtain new where new: "ss_rest m st = Some new" "length (ss_out st) + length new \<le> o.out_size (ss_outCache st)"
          using Suc.prems(6) [OF 1] by blast
        then obtain d r where "ss_covers_rest st1 = Some (d, r)" using s1(6) by (cases "ss_covers_rest st1") auto
        then show ?case using new s1 by (cases r) auto
      next
        case (2 d st2)
        note s2 = 2
        note w = ss_writesD [OF s2(1)]
        have rest: "ss_rest m st = map_option ((@) d) (ss_rest m st2)" unfolding s1(6) s2(2) by (simp add: w)
        show ?case
        proof (rule Suc.IH)
          have "length (ss_in st2) \<le> length (ss_in st1)" by (rule ss_covers_spec_shorter [OF s2(2)])
          then show "length (ss_in st2) < fuel" using s1(5) Suc.prems(5) by simp
          show "\<exists>new. ss_rest m st2 = Some new \<and> length (ss_out st2) + length new \<le> o.out_size (ss_outCache st2)" if S
            using Suc.prems(6) [OF that] rest w s1 by auto
          fix e st'
          assume e: "ss_writes st2 e st'" "ss_coverCount st' = 0" "ss_rest m st2 = (if ss_in st' = [] then Some e else None)"
          have "ss_writes st (d @ e) st'" using ss_writes_trans [OF s2(1) e(1)] s1 by (simp add: ss_writes_def)
          then show "Q st'" by (rule Suc.prems(7)) (use e rest in auto)
        qed (use w Suc.prems in auto)
      qed
    qed
    then show ?thesis using False by simp
  qed
qed simp

lemma single_run_rule:
  assumes streams: "ook dst" "rok old" "dok diff" and pos: "pos \<le> streamSize diff" "streamSize diff < 2 ^ 63"
    and k: "11 \<le> k" "k < 2 ^ 63" and m: "m < 2 ^ 63" and fuel: "streamSize diff < fuel"
    and S: "S \<Longrightarrow> \<exists>new. ss_spec (contents old) m sspatch_covers_init (drop pos (dcontents diff)) count = Some new \<and>
      length new = ostreamSize dst"
    and Q: "\<And>dst' l'. ss_spec (contents old) m sspatch_covers_init (drop pos (dcontents diff)) count
        = Some (written dst' (ostreamSize dst)) \<Longrightarrow> ook dst' \<Longrightarrow> ostreamSize dst' = ostreamSize dst \<Longrightarrow> Q (dst', l')"
  shows "hoare S (single_run fuel dst old diff pos (streamSize diff) count m k l True) Q"
proof -
  let ?D = "dcontents diff" and ?N = "ostreamSize dst"
  have D: "streamSize diff = length ?D" using d.contents_size [OF streams(3)] by simp
  have N: "?N < 2 ^ 63" by (rule o.osize_law [OF streams(1)])
  show ?thesis unfolding single_run_def Let_def if_P [OF TrueI]
  proof (rule hoare_bindI, rule d.init_clip_rule [OF streams(3)], goal_cases)
    case (4 c)
    let ?st = "\<lparr>ss_inClip = c, ss_outCache = TOutStreamCache_init dst (new_cache k) k, ss_oldData = old,
      ss_covers = sspatch_covers_init, ss_rle0 = rle0_decoder_init [], ss_coverCount = count, ss_listener = l\<rparr>"
    have out: "o.out_ok (ss_outCache ?st)" "ss_out ?st = []" "o.out_size (ss_outCache ?st) = ?N"
      using o.out_init [OF streams(1), of "new_cache k"] k by (simp_all add: new_cache_def ss_out_def)
    have bytes: "ss_in ?st = drop pos ?D" using 4(4) D by (simp add: ss_in_def)
    have ok: "ss_ok ?st" using out(1) streams 4 k pos D
      by (auto simp: ss_ok_def i.cache_ok_def)
    show ?case
    proof (rule hoare_bindI, rule single_loop_rule [OF ok], goal_cases)
      case (5)
      then show ?case using S bytes out by auto
    next
      case (6 d st1)
      note w = ss_writesD [OF 6(1)]
      have w': "ss_out st1 = d" "o.out_size (ss_outCache st1) = ?N" using w out by simp_all
      have rest: "ss_spec (contents old) m sspatch_covers_init (drop pos ?D) count = (if ss_in st1 = [] then Some d else None)"
        using 6(3) bytes by simp
      define st2 where "st2 = st1\<lparr>ss_listener := call_covers (call_reset (ss_listener st1) 0) None\<rparr>"
      have f: "ss_outCache st2 = ss_outCache st1" "ss_inClip st2 = ss_inClip st1" "ss_coverCount st2 = 0"
        using 6(2) by (simp_all add: st2_def)
      have ok1: "o.out_ok (ss_outCache st1)" "i.cache_ok (ss_inClip st1)" using w(1) by (auto simp: ss_ok_def)
      show ?case unfolding single_finish_def Let_def st2_def [symmetric] f rbind_assoc
      proof (rule hoare_bindI, rule o.flush_rule [OF o.out_ok_full [OF ok1(1)]], goal_cases)
        case 1
        then show ?case using S rest w' by (auto simp: ss_out_def split: if_splits)
      next
        case (2 out)
        note a = o.out_appendsD [OF 2(1)]
        let ?fin = "TStreamCacheClip_isFinish (ss_inClip st1) \<and> TOutStreamCache_isFinish out \<and> (0::nat) = 0"
        have in_fin: "TStreamCacheClip_isFinish (ss_inClip st1) \<longleftrightarrow> ss_in st1 = []"
          unfolding ss_in_def by (rule i.cache_full_finish [OF ok1(2) ss_full [OF w(1)]])
        have osz: "ostreamSize (dstStream out) = ?N" using a(3) w' by (simp add: o.out_size_def)
        have wpos: "writeToPos out = length d" using 2(5) w' by (simp add: ss_out_def)
        have out_fin: "TOutStreamCache_isFinish out \<longleftrightarrow> length d = ?N"
          using osz wpos by (simp add: TOutStreamCache_isFinish_def)
        have "written (dstStream out) (writeToPos out) = d"
          using 2(2) a(2) w' by (simp add: o.out_bytes_def ss_out_def)
        then have "Q (dstStream out, ss_listener st2)" if "ss_in st1 = []" "length d = ?N"
          by (intro Q) (use that rest osz wpos a(1) in \<open>auto simp: o.out_ok_def\<close>)
        moreover have "ss_in st1 = [] \<and> length d = ?N" if S using S [OF that] rest by (auto split: if_splits)
        ultimately show ?case using in_fin out_fin by (auto simp: st2_def)
      qed
    qed (use k m fuel pos D bytes in auto)
  qed (use pos D k in auto)
qed

end

text \<open>Caching the old data changes where it is read from, not what is read.\<close>

context random_stream begin

lemma patch_cache_all_old_rule:
  assumes old: "rok old" "length (contents old) < 2 ^ 62" and mem: "a \<le> b" "b < 2 ^ 63" "kMin < 2 ^ 62"
    and none: "Q None"
    and some: "\<And>cached a'. mem_in_ok cached \<Longrightarrow> streamImport cached = contents old \<Longrightarrow>
      a \<le> a' \<Longrightarrow> a' + kMin \<le> b - length (contents old) \<Longrightarrow> Q (Some (cached, a', b - length (contents old)))"
  shows "hoare S (patch_cache_all_old old kMin a b) Q"
proof (cases "patch_is_can_cache_all_old (streamSize old) kMin (b - a)")
  case False
  then show ?thesis using none by (simp add: patch_cache_all_old_def)
next
  case True
  let ?n = "length (contents old)"
  have n: "streamSize old = ?n" using contents_size [OF old(1)] by simp
  have need: "?n + kMin + 40 \<le> b - a"
    using True old mem n by (simp add: patch_is_can_cache_all_old_def patch_cache_all_old_needSize_def
        sizeof_hpatch_TStreamInput_def add64_eq)
  define a' where "a' = hpatch_align_upper a 8 + sizeof_hpatch_TStreamInput"
  have a': "a \<le> a'" "a' \<le> a + 39" by (simp_all add: a'_def hpatch_align_upper_def sizeof_hpatch_TStreamInput_def)
  have alloc: "cache_alloc sizeof_hpatch_TStreamInput a b = Ok a'"
    using need by (simp add: cache_alloc_def a'_def sizeof_hpatch_TStreamInput_def)
  have fit: "a' + kMin \<le> b - ?n" "a' + ?n \<le> b" using need a' mem by arith+
  have "hoare S (rbind (cache_load_all old ?n) (\<lambda>(cache, _). Ok (Some (mem_as_hStreamInput cache, a', b - ?n)))) Q"
    unfolding cache_load_all_def n require_def if_P [OF refl] rbind.simps
  proof (rule hoare_bindI, rule random_rule [OF old(1)], goal_cases)
    case (3 c old')
    then have c: "c = contents old" by simp
    have "Q (Some (mem_as_hStreamInput c, a', b - ?n))"
      unfolding c by (rule some) (use fit a' old in \<open>auto simp: mem_as_hStreamInput_def intro: mem_as_in_ok [unfolded mem_as_hStreamInput_def]\<close>)
    then show ?case by simp
  qed (use old in auto)
  then show ?thesis using True alloc fit by (simp add: patch_cache_all_old_def n)
qed

end

lemma patch_single_mem:
  assumes "length old < 2 ^ 62" "length d < 2 ^ 63" "length buf < 2 ^ 63" "pos \<le> length d" "m < 2 ^ 62"
    "a + m + 12288 \<le> b" "b < 2 ^ 63" "length d < fuel"
  shows "hoare (\<exists>new. ss_spec old m sspatch_covers_init (drop pos d) count = Some new \<and> length new = length buf)
    (patch_single_stream_diff fuel (mem_as_hStreamOutput buf) (mem_as_hStreamInput old) (mem_as_hStreamInput d)
       pos (length d) count m a b l True)
    (\<lambda>(dst, l'). \<exists>new. ss_spec old m sspatch_covers_init (drop pos d) count = Some new \<and>
       length new = length buf \<and> dst = mem_as_hStreamOutput new)" (is "hoare ?S _ ?Q")
proof -
  have sz: "ostreamSize (mem_as_hStreamOutput buf) = length buf" "streamImport (mem_as_hStreamInput x) = x"
    "streamSize (mem_as_hStreamInput x) = length x" for x
    by (simp_all add: mem_as_hStreamOutput_def mem_as_hStreamInput_def)
  have n3: "kCacheSgCount - (if True then 0 else 1) = 3" "hpatch_kStreamCacheSize * 3 = 12288" "3 * hpatch_kStreamCacheSize = 12288"
    by (simp_all add: kCacheSgCount_def hpatch_kStreamCacheSize_def)
  have add: "add64 m 12288 = m + 12288" using assms by (simp add: add64_eq)
  have run: "hoare ?S (single_run fuel (mem_as_hStreamOutput buf) st (mem_as_hStreamInput d) pos (length d) count m k l True) ?Q"
    if "mem_in_ok st" "streamImport st = old" "4096 \<le> k" "k < 2 ^ 63" for st k
    unfolding sz(3) [of d, symmetric]
  proof (rule mem_files.single_run_rule, goal_cases)
    case 10
    then show ?case using that by (simp add: sz)
  next
    case (11 dst l')
    then have "dst = mem_as_hStreamOutput (mem_written dst (length buf))"
      using mem_out_all [of dst] mem_out_eq [of dst] by (simp add: sz)
    moreover have "length (mem_written dst (length buf)) = length buf"
      using mem_out.written_length [OF 11(2), of "length buf"] 11(3) by (simp add: sz)
    ultimately show ?case using 11(1) that by (auto simp: sz)
  qed (use that assms in \<open>auto simp: sz\<close>)
  have chk: "\<not> b - a < m + 12288" using assms by simp
  show ?thesis
    unfolding patch_single_stream_diff_def Let_def n3 add sz(3) require_def if_P [OF order_refl] rbind.simps check_def if_P [OF chk]
  proof (rule hoare_bindI, rule mem_in.patch_cache_all_old_rule, goal_cases)
    case 6
    show ?case unfolding option.case
      by (rule run) (use assms in \<open>auto simp: sz\<close>)
  next
    case (7 cached a')
    show ?case unfolding option.case prod.case
      by (rule run) (use assms 7 in \<open>auto simp: sz\<close>)
  qed (use assms in \<open>auto simp: sz\<close>)
qed

section \<open>Properties\<close>

text \<open>C13: patching with a single-stream diff, given the step memory and three I/O buffers of 4096
  bytes, writes exactly the new data that the steps mean and reports success, or reports
  failure exactly when they mean nothing or data of another size; whether the old data is
  cached in memory does not matter, the loop over the steps ends within one round for each byte
  of the diff, and no input makes it leave a buffer or break an assertion.\<close>

theorem patch_single_refines_spec:
  assumes "length old < 2 ^ 62" "length d < 2 ^ 63" "length buf < 2 ^ 63" "pos \<le> length d" "stepMemSize < 2 ^ 62"
    "a + stepMemSize + 12288 \<le> b" "b < 2 ^ 63" "length d < fuel"
  shows "(case patch_single_stream_diff fuel (mem_as_hStreamOutput buf) (mem_as_hStreamInput old)
       (mem_as_hStreamInput d) pos (length d) count stepMemSize a b listener True of
      Ok (dst, _) \<Rightarrow> \<exists>new. ss_spec old stepMemSize sspatch_covers_init (drop pos d) count = Some new \<and>
        length new = length buf \<and> dst = mem_as_hStreamOutput new
    | Fail \<Rightarrow> \<not> (\<exists>new. ss_spec old stepMemSize sspatch_covers_init (drop pos d) count = Some new \<and> length new = length buf)
    | Fault \<Rightarrow> False)"
  using patch_single_mem [OF assms, of count listener] unfolding hoare_def by (auto split: res.splits)

text \<open>One step of one cover: a byte of the diff, then three old bytes.\<close>

theorem patch_single_refines_spec_witness:
  "\<exists>l. patch_single_stream_diff 8 (mem_as_hStreamOutput [0, 0, 0, 0]) (mem_as_hStreamInput [1, 2, 3])
      (mem_as_hStreamInput [3, 1, 0, 1, 3, 3, 9]) 0 7 1 4 5 20000 (None :: unit coversListener option) True
    = Ok (mem_as_hStreamOutput [9, 1, 2, 3], l)"
proof -
  have u: "hpatch_unpackUIntWithTag (b # p) t = Ok (unat b, p)" if "t \<le> 7" "unat b < 2 ^ (7 - t)" for b p t
    using unpack_by_small [OF that, of Memory p] by simp
  have next_cover: "sspatch_covers_nextCover (sspatch_covers_setCoversCache sspatch_covers_init [0, 1, 3])
      = Ok \<lparr>covers_cache = [], lastOldEnd = 0, lastNewEnd = 0, sc_cover = \<lparr>oldPos = 0, newPos = 1, coverLength = 3\<rparr>\<rparr>"
    by (simp add: sspatch_covers_nextCover_def sspatch_covers_setCoversCache_def sspatch_covers_init_def
        mem_take_def u hpatch_unpackUInt_def add64_def)
  have cache: "covers_cache (sspatch_covers_setCoversCache sspatch_covers_init [0, 1, 3]) = [0, 1, 3]"
    by (simp add: sspatch_covers_setCoversCache_def)
  have rle: "rle0_spec True [3] = [0, 0, 0]"
    by (simp add: rle0_spec.simps [of _ "[3]"] rle0_spec.simps [of _ "[]"] hpatch_unpackUInt_def u
        hpatch_unpackUIntWithTag_def [of "[]"], simp add: numeral_3_eq_3)
  have covers: "ss_covers_spec [1, 2, 3] (sspatch_covers_setCoversCache sspatch_covers_init [0, 1, 3]) [0, 0, 0] [9] 1
      = Some ([9, 1, 2, 3], [], \<lparr>covers_cache = [], lastOldEnd = 0, lastNewEnd = 0,
          sc_cover = \<lparr>oldPos = 0, newPos = 1, coverLength = 3\<rparr>\<rparr>, 0)"
    by (subst ss_covers_spec.simps) (simp add: next_cover cache, simp add: ss_covers_spec.simps bytes_add_def sub64_def)
  have t1: "take 1 [3, 9 :: byte] = [3]" and len: "length [3, 1, 0, 1, 3, 3, 9 :: byte] = 7" by simp_all
  have "ss_spec [1, 2, 3] 4 sspatch_covers_init [3, 1, 0, 1, 3, 3, 9] 1 = Some [9, 1, 2, 3]"
    by (subst ss_spec.simps) (simp add: unpack_by_small rle covers t1 ss_spec.simps [of _ _ _ "[]"] del: One_nat_def)
  then show ?thesis
    using patch_single_refines_spec [of "[1, 2, 3]" "[3, 1, 0, 1, 3, 3, 9]" "[0, 0, 0, 0]" 0 4 5 20000 8 1
        "None :: unit coversListener option", unfolded len] by (auto split: res.splits)
qed

end
