(* ===== verification/Decompress.thy ===== *)
theory Decompress
  imports PatchStream
begin

text \<open>
  Compressed sections of a diff: the decompressor plugin \<open>hpatch_TDecompress\<close>, which is code
  outside the repository and so a parameter, \<open>getStreamClip\<close> of \<open>patch.c\<close>, which opens a
  section as a clip of the diff or of a decompressor, and the uncompressed view of a compressed
  stream.  A \<open>hpatch_TStreamInput*\<close> that may point to either kind of stream is a stream over
  \<open>code_import\<close>.
\<close>

section \<open>Plugins\<close>

record ('s, 'h) hpatch_TDecompress =
  is_can_open :: "byte list \<Rightarrow> bool"
  dec_open :: "nat \<Rightarrow> 's hpatch_TStreamInput \<Rightarrow> nat \<Rightarrow> nat \<Rightarrow> 'h option"
  dec_close :: "'h \<Rightarrow> bool"
  decompress_part :: "'h \<Rightarrow> nat \<Rightarrow> (byte list \<times> 'h) res"
  reset_code :: "('h \<Rightarrow> nat \<Rightarrow> 's hpatch_TStreamInput \<Rightarrow> nat \<Rightarrow> nat \<Rightarrow> 'h option) option"

text \<open>
  What \<open>patch_types.h\<close> documents of a plugin, for one that is deterministic: \<open>unz n code\<close> are
  all the bytes it can deliver when it is opened for \<open>n\<close> bytes on \<open>code\<close>, undefined when it
  cannot be opened; each call delivers exactly the number of bytes asked for or fails; an open
  handle can be closed.
\<close>

definition decompress_ok ::
  "('s, 'h) hpatch_TDecompress \<Rightarrow> ('s hpatch_TStreamInput \<Rightarrow> bool) \<Rightarrow> ('s hpatch_TStreamInput \<Rightarrow> byte list) \<Rightarrow>
   (nat \<Rightarrow> byte list \<Rightarrow> byte list option) \<Rightarrow> ('h \<Rightarrow> bool) \<Rightarrow> ('h \<Rightarrow> byte list) \<Rightarrow> bool" where
  "decompress_ok P rok contents unz hok hrest \<longleftrightarrow>
     (\<forall>n st b e. rok st \<longrightarrow> b \<le> e \<longrightarrow> e \<le> length (contents st) \<longrightarrow>
        (case dec_open P n st b e of
           None \<Rightarrow> unz n (take (e - b) (drop b (contents st))) = None
         | Some h \<Rightarrow> hok h \<and> unz n (take (e - b) (drop b (contents st))) = Some (hrest h))) \<and>
     (\<forall>h n. hok h \<longrightarrow>
        hoare (n \<le> length (hrest h)) (decompress_part P h n)
          (\<lambda>(d, h'). hok h' \<and> n \<le> length (hrest h) \<and> d = take n (hrest h) \<and> hrest h' = drop n (hrest h))) \<and>
     (\<forall>h. hok h \<longrightarrow> dec_close P h)"

lemma decompress_okD:
  assumes "decompress_ok P rok contents unz hok hrest"
  shows "rok st \<Longrightarrow> b \<le> e \<Longrightarrow> e \<le> length (contents st) \<Longrightarrow>
      (case dec_open P n st b e of
         None \<Rightarrow> unz n (take (e - b) (drop b (contents st))) = None
       | Some h \<Rightarrow> hok h \<and> unz n (take (e - b) (drop b (contents st))) = Some (hrest h))"
    "hok h \<Longrightarrow> hoare (n \<le> length (hrest h)) (decompress_part P h n)
      (\<lambda>(d, h'). hok h' \<and> n \<le> length (hrest h) \<and> d = take n (hrest h) \<and> hrest h' = drop n (hrest h))"
    "hok h \<Longrightarrow> dec_close P h"
  using assms unfolding decompress_ok_def by blast+

text \<open>\<open>hpatch_deccompress_mem\<close>.\<close>

definition hpatch_deccompress_mem ::
  "(byte list, 'h) hpatch_TDecompress \<Rightarrow> byte list \<Rightarrow> nat \<Rightarrow> byte list res" where
  "hpatch_deccompress_mem P code outSize =
     (case dec_open P outSize (mem_as_hStreamInput code) 0 (length code) of
        None \<Rightarrow> Fail
      | Some dec \<Rightarrow>
          (case decompress_part P dec outSize of
             Ok (d, dec) \<Rightarrow> rbind (require (dec_close P dec)) (\<lambda>_. Ok d)
           | Fail \<Rightarrow> rbind (require (dec_close P dec)) (\<lambda>_. Fail)
           | Fault \<Rightarrow> Fault))"

section \<open>Streams of code\<close>

datatype ('s, 'h) code_import =
  Raw_code "'s hpatch_TStreamInput" | Dec_code "('s, 'h) hpatch_TDecompress" 'h

text \<open>\<open>_decompress_read\<close> takes no notice of the position.\<close>

definition code_read ::
  "('s, 'h) code_import \<Rightarrow> nat \<Rightarrow> nat \<Rightarrow> nat \<Rightarrow> (byte list \<times> ('s, 'h) code_import) res" where
  "code_read self streamSz readFromPos n =
     (case self of
        Raw_code st \<Rightarrow> rbind (sread st readFromPos n) (\<lambda>(d, st). Ok (d, Raw_code st))
      | Dec_code P h \<Rightarrow> rbind (decompress_part P h n) (\<lambda>(d, h). Ok (d, Dec_code P h)))"

definition raw_stream :: "'s hpatch_TStreamInput \<Rightarrow> ('s, 'h) code_import hpatch_TStreamInput" where
  "raw_stream st = \<lparr>streamImport = Raw_code st, streamSize = streamSize st, read = code_read\<rparr>"

definition dec_stream :: "('s, 'h) hpatch_TDecompress \<Rightarrow> 'h \<Rightarrow> nat \<Rightarrow> ('s, 'h) code_import hpatch_TStreamInput" where
  "dec_stream P h dataSize = \<lparr>streamImport = Dec_code P h, streamSize = dataSize, read = code_read\<rparr>"

text \<open>
  \<open>getStreamClip\<close>: \<open>handle\<close> is what \<open>out_stream->decompressHandle\<close> holds before, and without
  \<open>out_clip\<close> only the position moves.
\<close>

definition getStreamClip ::
  "bool \<Rightarrow> 'h option \<Rightarrow> nat \<Rightarrow> nat \<Rightarrow> 's hpatch_TStreamInput \<Rightarrow> nat \<Rightarrow> ('s, 'h) hpatch_TDecompress option \<Rightarrow> nat \<Rightarrow>
   (('s, 'h) code_import TStreamCacheClip option \<times> nat) res" where
  "getStreamClip out_clip handle dataSize compressedSize stream curStreamPos decompressPlugin cacheSize =
     (if compressedSize = 0 then
        rbind (check (\<not> add64 curStreamPos dataSize < curStreamPos)) (\<lambda>_.
        rbind (check (\<not> add64 curStreamPos dataSize > streamSize stream)) (\<lambda>_.
        rbind (if out_clip then
                 rbind (TStreamCacheClip_init (raw_stream stream) curStreamPos (add64 curStreamPos dataSize)
                          (new_cache cacheSize) cacheSize) (\<lambda>c. Ok (Some c))
               else Ok None) (\<lambda>clip.
        Ok (clip, add64 curStreamPos dataSize))))
      else
        rbind (check (\<not> add64 curStreamPos compressedSize < curStreamPos)) (\<lambda>_.
        rbind (check (\<not> add64 curStreamPos compressedSize > streamSize stream)) (\<lambda>_.
        rbind (if out_clip then
                 case decompressPlugin of
                   None \<Rightarrow> Fault
                 | Some P \<Rightarrow>
                     rbind (case handle of
                              None \<Rightarrow>
                                (case dec_open P dataSize stream curStreamPos (add64 curStreamPos compressedSize) of
                                   None \<Rightarrow> Fail | Some h \<Rightarrow> Ok h)
                            | Some h \<Rightarrow>
                                (case reset_code P of
                                   None \<Rightarrow> Fail
                                 | Some reset \<Rightarrow>
                                     (case reset h dataSize stream curStreamPos (add64 curStreamPos compressedSize) of
                                        None \<Rightarrow> Fail | Some h \<Rightarrow> Ok h))) (\<lambda>h.
                     rbind (TStreamCacheClip_init (dec_stream P h dataSize) 0 dataSize (new_cache cacheSize) cacheSize)
                       (\<lambda>c. Ok (Some c)))
               else Ok None) (\<lambda>clip.
        Ok (clip, add64 curStreamPos compressedSize)))))"

text \<open>The handle that a clip's stream holds, and closing it.\<close>

definition clip_handle :: "('s, 'h) code_import TStreamCacheClip \<Rightarrow> 'h option" where
  "clip_handle c = (case streamImport (srcStream c) of Raw_code _ \<Rightarrow> None | Dec_code _ h \<Rightarrow> Some h)"

definition close_handle :: "('s, 'h) hpatch_TDecompress option \<Rightarrow> 'h option \<Rightarrow> bool res" where
  "close_handle decompressPlugin handle =
     (case handle of None \<Rightarrow> Ok True
      | Some h \<Rightarrow> (case decompressPlugin of None \<Rightarrow> Fault | Some P \<Rightarrow> Ok (dec_close P h)))"

section \<open>What a section holds\<close>

definition code_section ::
  "(nat \<Rightarrow> byte list \<Rightarrow> byte list option) \<Rightarrow> byte list \<Rightarrow> nat \<Rightarrow> nat \<Rightarrow> nat \<Rightarrow> byte list option" where
  "code_section unz d cur dataSize compressedSize =
     (if compressedSize = 0 then
        (if cur + dataSize \<le> length d then Some (take dataSize (drop cur d)) else None)
      else if cur + compressedSize \<le> length d then
        map_option (take dataSize) (unz dataSize (take compressedSize (drop cur d)))
      else None)"

context random_stream begin

definition code_ok ::
  "('s, 'h) hpatch_TDecompress option \<Rightarrow> ('h \<Rightarrow> bool) \<Rightarrow> ('s, 'h) code_import hpatch_TStreamInput \<Rightarrow> bool" where
  "code_ok P hok st \<longleftrightarrow>
     read st = code_read \<and> streamSize st < 2 ^ 64 \<and>
     (case streamImport st of
        Raw_code s \<Rightarrow> rok s \<and> streamSize s = streamSize st
      | Dec_code Q h \<Rightarrow> P = Some Q \<and> hok h)"

definition code_avail ::
  "('h \<Rightarrow> byte list) \<Rightarrow> ('s, 'h) code_import hpatch_TStreamInput \<Rightarrow> nat \<Rightarrow> byte list" where
  "code_avail hrest st pos =
     (case streamImport st of Raw_code s \<Rightarrow> drop pos (contents s) | Dec_code Q h \<Rightarrow> hrest h)"

definition plugin_ok ::
  "('s, 'h) hpatch_TDecompress option \<Rightarrow> (nat \<Rightarrow> byte list \<Rightarrow> byte list option) \<Rightarrow> ('h \<Rightarrow> bool) \<Rightarrow> ('h \<Rightarrow> byte list) \<Rightarrow> bool" where
  "plugin_ok P unz hok hrest \<longleftrightarrow>
     (case P of None \<Rightarrow> True | Some Q \<Rightarrow> decompress_ok Q rok contents unz hok hrest)"

text \<open>A section keeps the contract of a stream, whether it is compressed or not.\<close>

lemma code_input_stream:
  fixes P :: "('s, 'h) hpatch_TDecompress option"
  assumes P: "plugin_ok P unz hok hrest"
  shows "input_stream (code_ok P hok) (code_avail hrest)"
proof
  fix st :: "('s, 'h) code_import hpatch_TStreamInput" and pos len :: nat
  assume ok: "code_ok P hok st" and le: "pos + len \<le> streamSize st"
  show "hoare (len \<le> length (code_avail hrest st pos)) (sread st pos len)
        (\<lambda>(d, st'). code_ok P hok st' \<and> streamSize st' = streamSize st \<and>
           len \<le> length (code_avail hrest st pos) \<and> d = take len (code_avail hrest st pos) \<and>
           code_avail hrest st' (pos + len) = drop len (code_avail hrest st pos))"
  proof (cases "streamImport st")
    case (Raw_code s)
    then have s: "rok s" "streamSize s = streamSize st" "read st = code_read" "streamSize st < 2 ^ 64"
      using ok by (auto simp: code_ok_def)
    have "hoare (len \<le> length (drop pos (contents s))) (sread s pos len) (\<lambda>(d, s').
        rok s' \<and> streamSize s' = streamSize s \<and> contents s' = contents s \<and> len \<le> length (drop pos (contents s)) \<and>
        d = take len (drop pos (contents s)))"
      by (rule random_rule [OF s(1)]) (use le s contents_size [OF s(1)] in auto)
    then show ?thesis using Raw_code s contents_size
      by (cases "sread s pos len") (auto simp: sread_def code_read_def code_ok_def code_avail_def add.commute)
  next
    case (Dec_code Q h)
    then have h: "P = Some Q" "hok h" "read st = code_read" "streamSize st < 2 ^ 64" using ok by (auto simp: code_ok_def)
    have "hoare (len \<le> length (hrest h)) (decompress_part Q h len)
          (\<lambda>(d, h'). hok h' \<and> len \<le> length (hrest h) \<and> d = take len (hrest h) \<and> hrest h' = drop len (hrest h))"
      using P h(1,2) by (simp add: plugin_ok_def decompress_ok_def)
    then show ?thesis using Dec_code h
      by (cases "decompress_part Q h len") (auto simp: sread_def code_read_def code_ok_def code_avail_def)
  qed
qed (simp add: code_ok_def)

text \<open>Opening a section.\<close>

lemma getStreamClip_rule:
  assumes P: "plugin_ok P unz hok hrest" and st: "rok st" "cur \<le> length (contents st)" and k: "k < 2 ^ 64"
    and sz: "dataSize < 2 ^ 64" "compressedSize < 2 ^ 64" and some: "compressedSize \<noteq> 0 \<Longrightarrow> P \<noteq> None"
    and S: "S \<Longrightarrow> code_section unz (contents st) cur dataSize compressedSize \<noteq> None"
    and Q: "\<And>c cur'. input_stream.cache_ok (code_ok P hok) c \<Longrightarrow> cacheEnd c = k \<Longrightarrow>
      cur' = cur + (if compressedSize = 0 then dataSize else compressedSize) \<Longrightarrow> cur' \<le> length (contents st) \<Longrightarrow>
      code_section unz (contents st) cur dataSize compressedSize = Some (input_stream.cache_bytes (code_avail hrest) c) \<Longrightarrow>
      input_stream.cache_full (code_avail hrest) c \<longleftrightarrow> dataSize \<le> length (input_stream.cache_bytes (code_avail hrest) c) \<Longrightarrow>
      Q (Some c, cur')"
  shows "hoare S (getStreamClip True None dataSize compressedSize st cur P k) Q"
proof -
  let ?d = "contents st"
  note ist = code_input_stream [OF P]
  note init = input_stream.cache_init [OF ist]
  have n: "streamSize st = length ?d" "length ?d < 2 ^ 64" using contents_size [OF st(1)] by simp_all
  have add: "(\<not> add64 cur x < cur \<and> \<not> add64 cur x > length ?d) \<longleftrightarrow> cur + x \<le> length ?d" if "x < 2 ^ 64" for x
  proof (cases "cur + x < 2 ^ 64")
    case True
    then show ?thesis by (auto simp: add64_eq)
  next
    case False
    then have "(cur + x) mod 2 ^ 64 = (cur + x - 2 ^ 64) mod 2 ^ 64" by (intro le_mod_geq) simp
    moreover have "cur + x - 2 ^ 64 < 2 ^ 64" using that st(2) n by simp
    ultimately have "(cur + x) mod 2 ^ 64 = cur + x - 2 ^ 64" by simp
    then have "add64 cur x < cur" using False that by (simp add: add64_def)
    then show ?thesis using False n by simp
  qed
  show ?thesis
  proof (cases "compressedSize = 0")
    case True
    note f = add [OF sz(1)]
    show ?thesis
    proof (cases "cur + dataSize \<le> length ?d")
      case False
      then have "\<not> S" using S True by (auto simp: code_section_def)
      then show ?thesis using f False True n(1) by (auto simp: getStreamClip_def check_def)
    next
      case fit: True
      have a: "add64 cur dataSize = cur + dataSize" using fit n by (simp add: add64_eq)
      have "code_ok P hok (raw_stream st)" using st n by (simp add: code_ok_def raw_stream_def)
      from init [OF this, of cur "cur + dataSize" "new_cache k"] obtain c where
        c: "TStreamCacheClip_init (raw_stream st) cur (cur + dataSize) (new_cache k) k = Ok c"
          "input_stream.cache_ok (code_ok P hok) c" "cacheEnd c = k"
          "input_stream.cache_bytes (code_avail hrest) c = take dataSize (drop cur ?d)"
          "input_stream.cache_full (code_avail hrest) c"
        using fit n k by (auto simp: new_cache_def raw_stream_def code_avail_def)
      have "Q (Some c, cur + dataSize)" by (rule Q) (use c fit True in \<open>auto simp: code_section_def\<close>)
      then show ?thesis using True fit n(1) a c(1) by (simp add: getStreamClip_def)
    qed
  next
    case False
    then obtain D where D: "P = Some D" using some by auto
    note f = add [OF sz(2)]
    show ?thesis
    proof (cases "cur + compressedSize \<le> length ?d")
      case no: False
      then have "\<not> S" using S False by (auto simp: code_section_def)
      then show ?thesis using f no False n(1) by (auto simp: getStreamClip_def check_def)
    next
      case fit: True
      have a: "add64 cur compressedSize = cur + compressedSize" using fit n by (simp add: add64_eq)
      have "decompress_ok D rok contents unz hok hrest" using P D by (simp add: plugin_ok_def)
      from decompress_okD(1) [OF this st(1), of cur "cur + compressedSize" dataSize]
      have law: "case dec_open D dataSize st cur (cur + compressedSize) of
           None \<Rightarrow> unz dataSize (take compressedSize (drop cur ?d)) = None
         | Some h \<Rightarrow> hok h \<and> unz dataSize (take compressedSize (drop cur ?d)) = Some (hrest h)"
        using fit by (auto split: option.splits)
      show ?thesis
      proof (cases "dec_open D dataSize st cur (cur + compressedSize)")
        case None
        then have "\<not> S" using S law False fit by (auto simp: code_section_def)
        then show ?thesis using False fit n(1) a None D by (simp add: getStreamClip_def)
      next
        case (Some h)
        then have h: "hok h" "unz dataSize (take compressedSize (drop cur ?d)) = Some (hrest h)" using law by simp_all
        have "code_ok P hok (dec_stream D h dataSize)" using h sz D by (simp add: code_ok_def dec_stream_def)
        from init [OF this, of 0 dataSize "new_cache k"] obtain c where
          c: "TStreamCacheClip_init (dec_stream D h dataSize) 0 dataSize (new_cache k) k = Ok c"
            "input_stream.cache_ok (code_ok P hok) c" "cacheEnd c = k"
            "input_stream.cache_bytes (code_avail hrest) c = take dataSize (hrest h)"
            "input_stream.cache_full (code_avail hrest) c \<longleftrightarrow> dataSize \<le> length (hrest h)"
          using k by (auto simp: new_cache_def dec_stream_def code_avail_def)
        have "Q (Some c, cur + compressedSize)"
          by (rule Q) (use c fit False h in \<open>auto simp: code_section_def\<close>)
        then show ?thesis using False fit n(1) a c(1) Some D by (simp add: getStreamClip_def)
      qed
    qed
  qed
qed

end

end
