(* ===== verification/Diffz.thy ===== *)
theory Diffz
  imports Decompress
begin

text \<open>
  The compressed diff format \<open>HDIFF13\<close>: \<open>read_diffz_head\<close>, \<open>getCompressedDiffInfo\<close>,
  \<open>_patch_decompress_cache\<close>, \<open>patch_decompress\<close>, and the covers of a compressed diff
  (\<open>_compressedCovers_open\<close>, \<open>_compressedCovers_close\<close>), all of \<open>patch.c\<close>.
\<close>

section \<open>Reading a head\<close>

text \<open>The string up to an end tag that is within the first 260 bytes, as a value.\<close>

definition read_str :: "byte list \<Rightarrow> byte \<Rightarrow> (byte list \<times> byte list) res" where
  "read_str d t =
     (case str_end_index (take (hpatch_kMaxPluginTypeLength + 1) d) t of
        None \<Rightarrow> Fail | Some i \<Rightarrow> Ok (take i d, drop (i + 1) d))"

text \<open>
  A reader of clips \<open>m\<close> and a reader of byte strings \<open>m'\<close> agree: the one on clips never
  faults, and both fail or give the same value.
\<close>

definition agree :: "'a res \<Rightarrow> 'a res \<Rightarrow> bool" where
  "agree m m' \<longleftrightarrow> hoare (m' \<noteq> Fail) m (\<lambda>x. m' = Ok x)"

lemma agree_refl_Ok [simp]: "agree (Ok x) (Ok x)"
  by (simp add: agree_def)

lemma agree_Fail [simp]: "agree Fail Fail"
  by (simp add: agree_def)

lemma agree_check: "(c \<Longrightarrow> agree (f ()) (g ())) \<Longrightarrow> agree (rbind (check c) f) (rbind (check c) g)"
  by (cases c) simp_all

lemma agree_no_Fault: "agree m m' \<Longrightarrow> m \<noteq> Fault"
  by (auto simp: agree_def)

lemma agree_eq: "agree m m' \<Longrightarrow> m' \<noteq> Fault \<Longrightarrow> m = m'"
  by (cases m; cases m') (simp_all add: agree_def)

context random_stream begin

definition at_head :: "'s hpatch_TStreamInput \<Rightarrow> nat \<Rightarrow> 's TStreamCacheClip \<Rightarrow> bool" where
  "at_head st p c \<longleftrightarrow> at_pos st p c \<and> hpatch_kMaxPluginTypeLength < cacheEnd c"

lemma at_head_readPos: "at_head st p c \<Longrightarrow> TStreamCacheClip_readPosOfSrcStream c = p"
  unfolding at_head_def using at_pos_readPos by blast

lemma at_pos_reads:
  assumes "at_pos st p c" "cache_reads c d c'"
  shows "at_pos st (p + length d) c' \<and> drop p (contents st) = d @ drop (p + length d) (contents st)"
proof -
  note r = cache_readsD [OF assms(2)]
  let ?n = "length (contents st)" and ?p = "p + length d"
  have c': "cache_bytes c = drop p (contents st)" "p \<le> ?n" "cache_left c = ?n - p" "streamPos_end c = ?n"
    using assms(1) by (simp_all add: at_pos_def)
  have "drop p (contents st) = d @ cache_bytes c'" using r(4) c'(1) by simp
  then have b: "cache_bytes c' = drop ?p (contents st)" by (metis append_eq_conv_conj drop_drop add.commute)
  have "?p \<le> ?n \<and> cache_left c' = ?n - ?p" using r(5) c'(2,3) by arith
  then have "at_pos st ?p c'" using assms(1) r b c' by (simp add: at_pos_def)
  then show ?thesis using r(4) c'(1) b by simp
qed

lemma agree_init:
  assumes st: "rok st" "p \<le> length (contents st)"
    and k: "\<And>c. at_head st p c \<Longrightarrow> agree (f c) m"
  shows "agree (rbind (TStreamCacheClip_init st p (streamSize st) (new_cache hpatch_kStreamCacheSize)
             hpatch_kStreamCacheSize) f) m"
  unfolding agree_def
proof (rule hoare_bindI, rule init_clip_rule [OF st(1)], goal_cases)
  case (4 c)
  then have "at_head st p c" using st contents_size [OF st(1)]
    by (simp add: at_head_def at_pos_def hpatch_kStreamCacheSize_def hpatch_kMaxPluginTypeLength_def)
  then show ?case using k by (simp add: agree_def)
qed (use st contents_size [OF st(1)] in \<open>auto simp: hpatch_kStreamCacheSize_def\<close>)

lemma agree_unpack:
  assumes c: "at_head st p c"
    and k: "\<And>v p' c'. at_head st p' c' \<Longrightarrow> p \<le> p' \<Longrightarrow> v < 2 ^ 64 \<Longrightarrow> p' \<le> length (contents st) \<Longrightarrow>
      agree (f (v, c')) (g (v, drop p' (contents st)))"
  shows "agree (rbind (clip_unpackUIntTo c) f) (rbind (unpack_by Streaming (drop p (contents st)) 0) g)"
proof -
  let ?u = "unpack_by Streaming (drop p (contents st)) 0"
  have "hoare (rbind ?u g \<noteq> Fail) (rbind (clip_unpackUIntTo c) f) (\<lambda>x. rbind ?u g = Ok x)"
    unfolding clip_unpackUIntTo_def
  proof (rule hoare_bindI, rule unpack_rule, goal_cases)
    case (3 v d c')
    from at_pos_reads [OF c [unfolded at_head_def, THEN conjunct1] 3(1)]
    have a: "at_head st (p + length d) c'" "at_pos st (p + length d) c'"
      using c cache_readsD(2) [OF 3(1)] by (auto simp: at_head_def)
    then have b: "cache_bytes c' = drop (p + length d) (contents st)" "p + length d \<le> length (contents st)"
      by (simp_all add: at_pos_def)
    have "?u = Ok (v, drop (p + length d) (contents st))" using 3 b c by (simp add: at_head_def at_pos_def)
    moreover have "v < 2 ^ 64" using 3 by simp
    ultimately show ?case using k [OF a(1) _ _ b(2), of v] by (simp add: agree_def)
  qed (use c in \<open>auto simp: at_head_def at_pos_def\<close>)
  then show ?thesis by (simp add: agree_def)
qed

lemma agree_readType:
  assumes c: "at_head st p c"
    and k: "\<And>s p' c'. at_head st p' c' \<Longrightarrow> p \<le> p' \<Longrightarrow> p' \<le> length (contents st) \<Longrightarrow>
      agree (f (s, c')) (g (s, drop p' (contents st)))"
  shows "agree (rbind (TStreamCacheClip_readType_end c t) f) (rbind (read_str (drop p (contents st)) t) g)"
proof -
  let ?m = "hpatch_kMaxPluginTypeLength + 1"
  let ?u = "read_str (drop p (contents st)) t"
  have "hoare (rbind ?u g \<noteq> Fail) (rbind (TStreamCacheClip_readType_end c t) f) (\<lambda>x. rbind ?u g = Ok x)"
    unfolding TStreamCacheClip_readType_end_def
  proof (rule hoare_bindI, rule readStr_end_rule, goal_cases)
    case 1
    then show ?case using c by (simp add: at_head_def at_pos_def)
  next
    case 2
    then show ?case using c by (auto simp: at_head_def at_pos_def read_str_def split: option.splits)
  next
    case (3 s c')
    let ?p = "p + length (s @ [t])"
    from at_pos_reads [OF c [unfolded at_head_def, THEN conjunct1] 3(1)]
    have a: "at_head st ?p c'" "at_pos st ?p c'" "drop p (contents st) = s @ t # drop ?p (contents st)"
      using c cache_readsD(2) [OF 3(1)] by (auto simp: at_head_def)
    have le: "?p \<le> length (contents st)" using a(2) by (simp add: at_pos_def)
    have "take ?m (s @ t # drop ?p (contents st)) = s @ t # take (?m - length s - 1) (drop ?p (contents st))"
      using 3(3) by (cases "?m - length s") simp_all
    then have "str_end_index (take ?m (drop p (contents st))) t = Some (length s)"
      unfolding a(3) using str_end_index_append [OF 3(2)] by simp
    then have "?u = Ok (s, drop ?p (contents st))" unfolding read_str_def using a(3) by simp
    then show ?case using k [OF a(1) _ le] by (simp add: agree_def)
  qed
  then show ?thesis by (simp add: agree_def)
qed

end

section \<open>The head of a compressed diff\<close>

record hpatch_compressedDiffInfo =
  ci_newDataSize :: nat
  ci_oldDataSize :: nat
  ci_compressedCount :: nat
  ci_compressType :: "byte list"

record THDiffzHead =
  hz_coverCount :: nat
  hz_cover_buf_size :: nat
  hz_compress_cover_buf_size :: nat
  hz_rle_ctrlBuf_size :: nat
  hz_compress_rle_ctrlBuf_size :: nat
  hz_rle_codeBuf_size :: nat
  hz_compress_rle_codeBuf_size :: nat
  hz_newDataDiff_size :: nat
  hz_compress_newDataDiff_size :: nat
  hz_typesEndPos :: nat
  hz_compressSizeBeginPos :: nat
  hz_headEndPos :: nat
  hz_coverEndPos :: nat

text \<open>The C string in a buffer ends at its first zero.\<close>

definition c_str :: "byte list \<Rightarrow> byte list" where
  "c_str bs = takeWhile (\<lambda>b. b \<noteq> 0) bs"

text \<open>\<open>"HDIFF13"\<close>.\<close>

definition kVersionType :: "byte list" where
  "kVersionType = [0x48, 0x44, 0x49, 0x46, 0x46, 0x31, 0x33]"

definition compressed_count :: "nat list \<Rightarrow> nat" where
  "compressed_count sizes = length (filter (\<lambda>n. n \<noteq> 0) sizes)"

definition read_diffz_head :: "'s hpatch_TStreamInput \<Rightarrow> (hpatch_compressedDiffInfo \<times> THDiffzHead) res" where
  "read_diffz_head compressedDiff =
     rbind (TStreamCacheClip_init compressedDiff 0 (streamSize compressedDiff) (new_cache hpatch_kStreamCacheSize)
              hpatch_kStreamCacheSize) (\<lambda>diffHeadClip.
     rbind (TStreamCacheClip_readType_end diffHeadClip 0x26) (\<lambda>(tempType, diffHeadClip).
     rbind (check (c_str tempType = kVersionType)) (\<lambda>_.
     rbind (TStreamCacheClip_readType_end diffHeadClip 0) (\<lambda>(compressType, diffHeadClip).
     let typesEndPos = TStreamCacheClip_readPosOfSrcStream diffHeadClip in
     rbind (clip_unpackUIntTo diffHeadClip) (\<lambda>(newDataSize, diffHeadClip).
     rbind (clip_unpackUIntTo diffHeadClip) (\<lambda>(oldDataSize, diffHeadClip).
     rbind (clip_unpackUIntTo diffHeadClip) (\<lambda>(cover_count, diffHeadClip).
     let compressSizeBeginPos = TStreamCacheClip_readPosOfSrcStream diffHeadClip in
     rbind (clip_unpackUIntTo diffHeadClip) (\<lambda>(cover_buf_size, diffHeadClip).
     rbind (clip_unpackUIntTo diffHeadClip) (\<lambda>(compress_cover_buf_size, diffHeadClip).
     rbind (clip_unpackUIntTo diffHeadClip) (\<lambda>(rle_ctrlBuf_size, diffHeadClip).
     rbind (clip_unpackUIntTo diffHeadClip) (\<lambda>(compress_rle_ctrlBuf_size, diffHeadClip).
     rbind (clip_unpackUIntTo diffHeadClip) (\<lambda>(rle_codeBuf_size, diffHeadClip).
     rbind (clip_unpackUIntTo diffHeadClip) (\<lambda>(compress_rle_codeBuf_size, diffHeadClip).
     rbind (clip_unpackUIntTo diffHeadClip) (\<lambda>(newDataDiff_size, diffHeadClip).
     rbind (clip_unpackUIntTo diffHeadClip) (\<lambda>(compress_newDataDiff_size, diffHeadClip).
     let headEndPos = TStreamCacheClip_readPosOfSrcStream diffHeadClip in
     Ok (\<lparr>ci_newDataSize = newDataSize, ci_oldDataSize = oldDataSize,
          ci_compressedCount = compressed_count [compress_cover_buf_size, compress_rle_ctrlBuf_size,
            compress_rle_codeBuf_size, compress_newDataDiff_size],
          ci_compressType = compressType\<rparr>,
         \<lparr>hz_coverCount = cover_count, hz_cover_buf_size = cover_buf_size,
          hz_compress_cover_buf_size = compress_cover_buf_size, hz_rle_ctrlBuf_size = rle_ctrlBuf_size,
          hz_compress_rle_ctrlBuf_size = compress_rle_ctrlBuf_size, hz_rle_codeBuf_size = rle_codeBuf_size,
          hz_compress_rle_codeBuf_size = compress_rle_codeBuf_size, hz_newDataDiff_size = newDataDiff_size,
          hz_compress_newDataDiff_size = compress_newDataDiff_size, hz_typesEndPos = typesEndPos,
          hz_compressSizeBeginPos = compressSizeBeginPos, hz_headEndPos = headEndPos,
          hz_coverEndPos =
            (if compress_cover_buf_size > 0 then add64 headEndPos compress_cover_buf_size
             else add64 headEndPos cover_buf_size)\<rparr>))))))))))))))))"

definition getCompressedDiffInfo :: "'s hpatch_TStreamInput \<Rightarrow> hpatch_compressedDiffInfo res" where
  "getCompressedDiffInfo compressedDiff = rbind (read_diffz_head compressedDiff) (\<lambda>(info, head). Ok info)"

text \<open>The same head as a function of the bytes of the diff.\<close>

definition parse_diffz :: "byte list \<Rightarrow> (hpatch_compressedDiffInfo \<times> THDiffzHead) res" where
  "parse_diffz d0 =
     rbind (read_str (drop 0 d0) 0x26) (\<lambda>(tempType, d).
     rbind (check (c_str tempType = kVersionType)) (\<lambda>_.
     rbind (read_str d 0) (\<lambda>(compressType, d).
     let typesEndPos = length d0 - length d in
     rbind (unpack_by Streaming d 0) (\<lambda>(newDataSize, d).
     rbind (unpack_by Streaming d 0) (\<lambda>(oldDataSize, d).
     rbind (unpack_by Streaming d 0) (\<lambda>(cover_count, d).
     let compressSizeBeginPos = length d0 - length d in
     rbind (unpack_by Streaming d 0) (\<lambda>(cover_buf_size, d).
     rbind (unpack_by Streaming d 0) (\<lambda>(compress_cover_buf_size, d).
     rbind (unpack_by Streaming d 0) (\<lambda>(rle_ctrlBuf_size, d).
     rbind (unpack_by Streaming d 0) (\<lambda>(compress_rle_ctrlBuf_size, d).
     rbind (unpack_by Streaming d 0) (\<lambda>(rle_codeBuf_size, d).
     rbind (unpack_by Streaming d 0) (\<lambda>(compress_rle_codeBuf_size, d).
     rbind (unpack_by Streaming d 0) (\<lambda>(newDataDiff_size, d).
     rbind (unpack_by Streaming d 0) (\<lambda>(compress_newDataDiff_size, d).
     let headEndPos = length d0 - length d in
     Ok (\<lparr>ci_newDataSize = newDataSize, ci_oldDataSize = oldDataSize,
          ci_compressedCount = compressed_count [compress_cover_buf_size, compress_rle_ctrlBuf_size,
            compress_rle_codeBuf_size, compress_newDataDiff_size],
          ci_compressType = compressType\<rparr>,
         \<lparr>hz_coverCount = cover_count, hz_cover_buf_size = cover_buf_size,
          hz_compress_cover_buf_size = compress_cover_buf_size, hz_rle_ctrlBuf_size = rle_ctrlBuf_size,
          hz_compress_rle_ctrlBuf_size = compress_rle_ctrlBuf_size, hz_rle_codeBuf_size = rle_codeBuf_size,
          hz_compress_rle_codeBuf_size = compress_rle_codeBuf_size, hz_newDataDiff_size = newDataDiff_size,
          hz_compress_newDataDiff_size = compress_newDataDiff_size, hz_typesEndPos = typesEndPos,
          hz_compressSizeBeginPos = compressSizeBeginPos, hz_headEndPos = headEndPos,
          hz_coverEndPos =
            (if compress_cover_buf_size > 0 then add64 headEndPos compress_cover_buf_size
             else add64 headEndPos cover_buf_size)\<rparr>)))))))))))))))"

text \<open>What holds of every head that is read: its positions are in the diff and its sizes are words.\<close>

definition diffz_head_ok :: "byte list \<Rightarrow> THDiffzHead \<Rightarrow> bool" where
  "diffz_head_ok d h \<longleftrightarrow>
     hz_headEndPos h \<le> length d \<and>
     (\<forall>n \<in> {hz_coverCount h, hz_cover_buf_size h, hz_compress_cover_buf_size h, hz_rle_ctrlBuf_size h,
        hz_compress_rle_ctrlBuf_size h, hz_rle_codeBuf_size h, hz_compress_rle_codeBuf_size h,
        hz_newDataDiff_size h, hz_compress_newDataDiff_size h}. n < 2 ^ 64)"

lemma parse_diffz_ok: "parse_diffz d = Ok (info, h) \<Longrightarrow> diffz_head_ok d h"
  unfolding parse_diffz_def Let_def
  by (auto simp: rbind_eq_Ok diffz_head_ok_def dest!: unpack_by_Ok)

lemma read_str_no_Fault [simp]: "read_str d t \<noteq> Fault"
  by (auto simp: read_str_def split: option.splits)

lemma parse_diffz_no_Fault [simp]: "parse_diffz d \<noteq> Fault"
  unfolding parse_diffz_def Let_def by (auto simp: rbind_eq_Fault check_def)

context random_stream begin

lemma read_diffz_head_parses:
  assumes st: "rok st"
  shows "read_diffz_head st = parse_diffz (contents st)"
proof (rule agree_eq [OF _ parse_diffz_no_Fault])
  note step = at_head_readPos diff_diff_cancel
  show "agree (read_diffz_head st) (parse_diffz (contents st))"
    unfolding read_diffz_head_def parse_diffz_def Let_def
    apply (rule agree_init [OF st])
     apply simp
    apply (rule agree_readType, assumption, simp only: prod.case)
    apply (rule agree_check)
    apply (rule agree_readType, assumption, simp only: prod.case)
    apply (rule agree_unpack, assumption, simp only: prod.case)+
    apply (simp add: step)
    done
qed

lemma read_diffz_head_rule:
  assumes "rok st" and "S \<Longrightarrow> parse_diffz (contents st) \<noteq> Fail"
    and "\<And>info h. parse_diffz (contents st) = Ok (info, h) \<Longrightarrow> diffz_head_ok (contents st) h \<Longrightarrow> Q (info, h)"
  shows "hoare S (read_diffz_head st) Q"
  using assms parse_diffz_ok parse_diffz_no_Fault [of "contents st"]
  unfolding read_diffz_head_parses [OF assms(1)]
  by (cases "parse_diffz (contents st)") auto

end

section \<open>Patching with a compressed diff\<close>

definition kCacheDecCount :: nat where
  "kCacheDecCount = 6"

text \<open>A section opened with a clip asked for.\<close>

definition open_section ::
  "nat \<Rightarrow> nat \<Rightarrow> 's hpatch_TStreamInput \<Rightarrow> nat \<Rightarrow> ('s, 'h) hpatch_TDecompress option \<Rightarrow> nat \<Rightarrow>
   (('s, 'h) code_import TStreamCacheClip \<times> nat) res" where
  "open_section dataSize compressedSize stream curStreamPos decompressPlugin cacheSize =
     rbind (getStreamClip True None dataSize compressedSize stream curStreamPos decompressPlugin cacheSize)
       (\<lambda>(clip, curStreamPos). case clip of None \<Rightarrow> Fault | Some c \<Rightarrow> Ok (c, curStreamPos))"

text \<open>
  \<open>_patch_decompress_cache\<close> from the run-length sections on, for covers of any kind.  Where the
  code fails after a section was opened it also closes the handles that are open; here that is
  part of \<open>Fail\<close>.
\<close>

definition patch_decompress_covers ::
  "'o hpatch_TStreamOutput \<Rightarrow> 'r hpatch_TStreamInput \<Rightarrow> 's hpatch_TStreamInput \<Rightarrow>
   ('s, 'h) hpatch_TDecompress option \<Rightarrow> THDiffzHead \<Rightarrow> 'c hpatch_TCovers \<Rightarrow> nat \<Rightarrow> nat \<Rightarrow>
   ('o, 'r, 'c, ('s, 'h) code_import) clip_state res" where
  "patch_decompress_covers out_newData oldData compressedDiff decompressPlugin head pcovers diffPos0 cacheSize =
     rbind (open_section (hz_rle_ctrlBuf_size head) (hz_compress_rle_ctrlBuf_size head) compressedDiff diffPos0
              decompressPlugin cacheSize) (\<lambda>(ctrl, diffPos0).
     rbind (open_section (hz_rle_codeBuf_size head) (hz_compress_rle_codeBuf_size head) compressedDiff diffPos0
              decompressPlugin cacheSize) (\<lambda>(code, diffPos0).
     rbind (open_section (hz_newDataDiff_size head) (hz_compress_newDataDiff_size head) compressedDiff diffPos0
              decompressPlugin cacheSize) (\<lambda>(code_newDataDiffClip, diffPos0).
     rbind (check (diffPos0 = streamSize compressedDiff)) (\<lambda>_.
     rbind (patchByClip (TOutStreamCache_init out_newData (new_cache cacheSize) cacheSize) oldData pcovers
              code_newDataDiffClip (TBytesRle_load_stream_init ctrl code) cacheSize) (\<lambda>st.
     rbind (close_handle decompressPlugin (clip_handle (ctrlClip (cs_rle st)))) (\<lambda>ok1.
     rbind (close_handle decompressPlugin (clip_handle (rleCodeClip (cs_rle st)))) (\<lambda>ok2.
     rbind (close_handle decompressPlugin (clip_handle (cs_newDataDiff st))) (\<lambda>ok3.
     rbind (check (ok1 \<and> ok2 \<and> ok3)) (\<lambda>_. Ok st)))))))))"

definition patch_decompress_cache ::
  "'o hpatch_TStreamOutput \<Rightarrow> 'r hpatch_TStreamInput \<Rightarrow> 's hpatch_TStreamInput \<Rightarrow>
   ('s, 'h) hpatch_TDecompress option \<Rightarrow> 'c hpatch_TCovers option \<Rightarrow> nat \<Rightarrow> nat \<Rightarrow>
   ('o hpatch_TStreamOutput \<times> 'c hpatch_TCovers option) res" where
  "patch_decompress_cache out_newData oldData compressedDiff decompressPlugin cached_covers temp_cache temp_cache_end =
     (let cacheSize = (temp_cache_end - temp_cache) div
            (case cached_covers of Some _ \<Rightarrow> kCacheDecCount - 1 | None \<Rightarrow> kCacheDecCount) in
      rbind (check (\<not> cacheSize \<le> hpatch_kMaxPluginTypeLength)) (\<lambda>_.
      rbind (read_diffz_head compressedDiff) (\<lambda>(diffInfo, head).
      rbind (check (\<not> (ci_oldDataSize diffInfo \<noteq> streamSize oldData \<or>
                       ci_newDataSize diffInfo \<noteq> ostreamSize out_newData))) (\<lambda>_.
      rbind (check (case decompressPlugin of
               None \<Rightarrow> ci_compressedCount diffInfo = 0
             | Some P \<Rightarrow> ci_compressedCount diffInfo > 0 \<longrightarrow> is_can_open P (ci_compressType diffInfo))) (\<lambda>_.
      case cached_covers of
        None \<Rightarrow>
          rbind (open_section (hz_cover_buf_size head) (hz_compress_cover_buf_size head) compressedDiff
                   (hz_headEndPos head) decompressPlugin cacheSize) (\<lambda>(coverClip, diffPos0).
          rbind (patch_decompress_covers out_newData oldData compressedDiff decompressPlugin head
                   (covers_init (hz_coverCount head) [coverClip] 0 0 0 True) diffPos0 cacheSize) (\<lambda>st.
          rbind (close_handle decompressPlugin (clip_handle (clips (covers_import (cs_covers st)) ! 0))) (\<lambda>ok.
          rbind (check ok) (\<lambda>_. Ok (dstStream (cs_outCache st), None)))))
      | Some pcovers \<Rightarrow>
          rbind (patch_decompress_covers out_newData oldData compressedDiff decompressPlugin head pcovers
                   (hz_coverEndPos head) cacheSize) (\<lambda>st.
          Ok (dstStream (cs_outCache st), Some (cs_covers st))))))))"

definition patch_decompress ::
  "nat \<Rightarrow> 'o hpatch_TStreamOutput \<Rightarrow> 'r hpatch_TStreamInput \<Rightarrow> 's hpatch_TStreamInput \<Rightarrow>
   ('s, 'h) hpatch_TDecompress option \<Rightarrow> 'o hpatch_TStreamOutput res" where
  "patch_decompress temp_cache out_newData oldData compressedDiff decompressPlugin =
     rbind (patch_decompress_cache out_newData oldData compressedDiff decompressPlugin
              (None :: unit hpatch_TCovers option) temp_cache (temp_cache + hpatch_kStreamCacheSize * kCacheDecCount))
       (\<lambda>(out, _). Ok out)"

section \<open>What a compressed diff means\<close>

definition section_size :: "nat \<Rightarrow> nat \<Rightarrow> nat" where
  "section_size dataSize compressedSize = (if compressedSize = 0 then dataSize else compressedSize)"

text \<open>The sections after the covers, which end where the diff ends.\<close>

definition diffz_sections ::
  "(nat \<Rightarrow> byte list \<Rightarrow> byte list option) \<Rightarrow> byte list \<Rightarrow> THDiffzHead \<Rightarrow> nat \<Rightarrow>
   (byte list \<times> byte list \<times> byte list) option" where
  "diffz_sections unz d h p0 =
     (let p1 = p0 + section_size (hz_rle_ctrlBuf_size h) (hz_compress_rle_ctrlBuf_size h);
          p2 = p1 + section_size (hz_rle_codeBuf_size h) (hz_compress_rle_codeBuf_size h);
          p3 = p2 + section_size (hz_newDataDiff_size h) (hz_compress_newDataDiff_size h) in
      Option.bind (code_section unz d p0 (hz_rle_ctrlBuf_size h) (hz_compress_rle_ctrlBuf_size h)) (\<lambda>ctrl.
      Option.bind (code_section unz d p1 (hz_rle_codeBuf_size h) (hz_compress_rle_codeBuf_size h)) (\<lambda>code.
      Option.bind (code_section unz d p2 (hz_newDataDiff_size h) (hz_compress_newDataDiff_size h)) (\<lambda>diff.
      if p3 = length d then Some (ctrl, code, diff) else None))))"

definition sections_full :: "THDiffzHead \<Rightarrow> byte list \<times> byte list \<times> byte list \<Rightarrow> bool" where
  "sections_full h s \<longleftrightarrow>
     (case s of (ctrl, code, diff) \<Rightarrow>
        length ctrl = hz_rle_ctrlBuf_size h \<and> length code = hz_rle_codeBuf_size h \<and>
        length diff = hz_newDataDiff_size h)"

definition sections_spec ::
  "nat \<Rightarrow> byte list \<Rightarrow> hpatch_TCover list option \<Rightarrow> byte list \<times> byte list \<times> byte list \<Rightarrow> byte list option" where
  "sections_spec N old covers s =
     (case s of (ctrl, code, diff) \<Rightarrow> clip_spec old N covers (rle_spec Streaming ctrl code) diff 0)"

text \<open>
  The new data of size \<open>N\<close> that a compressed diff makes of the old data, when \<open>can\<close> says
  which compress types can be opened, with a flag that says whether every decompressor has as
  many bytes as the head announces.
\<close>

definition diffz_spec ::
  "(byte list \<Rightarrow> bool) \<Rightarrow> (nat \<Rightarrow> byte list \<Rightarrow> byte list option) \<Rightarrow> nat \<Rightarrow> byte list \<Rightarrow> byte list \<Rightarrow>
   (byte list \<times> bool) option" where
  "diffz_spec can unz N old d =
     (case parse_diffz d of
        Ok (info, h) \<Rightarrow>
          (if ci_oldDataSize info = length old \<and> ci_newDataSize info = N \<and>
              (ci_compressedCount info = 0 \<or> can (ci_compressType info))
           then
             Option.bind (code_section unz d (hz_headEndPos h) (hz_cover_buf_size h) (hz_compress_cover_buf_size h)) (\<lambda>cov.
             Option.bind (diffz_sections unz d h
                 (hz_headEndPos h + section_size (hz_cover_buf_size h) (hz_compress_cover_buf_size h))) (\<lambda>s.
             map_option (\<lambda>new. (new, length cov = hz_cover_buf_size h \<and> sections_full h s))
               (sections_spec N old (parse_store Streaming True (hz_coverCount h) [cov] 0 0 0 0 0) s)))
           else None)
      | _ \<Rightarrow> None)"

lemma code_section_length: "code_section unz d p n m = Some s \<Longrightarrow> length s \<le> n"
  by (auto simp: code_section_def split: if_splits)

lemma compressed_count_eq_0: "compressed_count ns = 0 \<longleftrightarrow> (\<forall>n \<in> set ns. n = 0)"
  by (induction ns) (auto simp: compressed_count_def)

lemma parse_diffz_count:
  assumes "parse_diffz d = Ok (info, h)" "ci_compressedCount info = 0"
  shows "hz_compress_cover_buf_size h = 0 \<and> hz_compress_rle_ctrlBuf_size h = 0 \<and>
    hz_compress_rle_codeBuf_size h = 0 \<and> hz_compress_newDataDiff_size h = 0"
  using assms unfolding parse_diffz_def Let_def
  by (auto simp: rbind_eq_Ok compressed_count_eq_0)

context random_stream begin

lemma open_section_rule:
  assumes P: "plugin_ok P unz hok hrest" and st: "rok st" "cur \<le> length (contents st)" and k: "k < 2 ^ 64"
    and sz: "dataSize < 2 ^ 64" "compressedSize < 2 ^ 64" and some: "compressedSize \<noteq> 0 \<Longrightarrow> P \<noteq> None"
    and S: "S \<Longrightarrow> code_section unz (contents st) cur dataSize compressedSize \<noteq> None"
    and Q: "\<And>c. input_stream.cache_ok (code_ok P hok) c \<Longrightarrow> cacheEnd c = k \<Longrightarrow>
      cur + section_size dataSize compressedSize \<le> length (contents st) \<Longrightarrow>
      code_section unz (contents st) cur dataSize compressedSize = Some (input_stream.cache_bytes (code_avail hrest) c) \<Longrightarrow>
      input_stream.cache_full (code_avail hrest) c \<longleftrightarrow> length (input_stream.cache_bytes (code_avail hrest) c) = dataSize \<Longrightarrow>
      Q (c, cur + section_size dataSize compressedSize)"
  shows "hoare S (open_section dataSize compressedSize st cur P k) Q"
  unfolding open_section_def
proof (rule hoare_bindI, rule getStreamClip_rule [OF assms(1-7)], goal_cases)
  case (3 c cur')
  note c = 3
  have "Q (c, cur + section_size dataSize compressedSize)"
    using c code_section_length [OF c(5)] by (intro Q) (auto simp: section_size_def)
  then show ?case using c(3) by (simp add: section_size_def)
qed (use S in auto)

lemma close_section:
  assumes "plugin_ok P unz hok hrest" "input_stream.cache_ok (code_ok P hok) c"
  shows "close_handle P (clip_handle c) = Ok True"
proof -
  have "code_ok P hok (srcStream c)"
    using assms(2) by (simp add: input_stream.cache_ok_def [OF code_input_stream [OF assms(1)]])
  then show ?thesis using assms(1) decompress_okD(3)
    by (auto simp: code_ok_def close_handle_def clip_handle_def plugin_ok_def split: code_import.splits)
qed

end

context patch_files begin

lemma code_patch_clip:
  assumes "d.plugin_ok P unz hok hrest" "covers_source cvok cvfull cvrest"
  shows "patch_clip (d.code_ok P hok) (d.code_avail hrest) rok contents ook written cvok cvfull cvrest"
  by (intro patch_clip.intro patch_streams.intro d.code_input_stream [OF assms(1)] assms(2)
      r.random_stream_axioms o.output_stream_axioms)

lemma patch_decompress_covers_rule:
  assumes P: "d.plugin_ok P unz hok hrest" and cv: "covers_source cvok cvfull cvrest" "cvok covers"
    and streams: "ook dst" "rok old" "dok diff" and h: "diffz_head_ok (dcontents diff) h"
    and k: "hpatch_kMaxPackedUIntBytes \<le> k" "k < 2 ^ 63" and p0: "p0 \<le> length (dcontents diff)"
    and some: "hz_compress_rle_ctrlBuf_size h \<noteq> 0 \<or> hz_compress_rle_codeBuf_size h \<noteq> 0 \<or>
      hz_compress_newDataDiff_size h \<noteq> 0 \<Longrightarrow> P \<noteq> None"
    and S: "S \<Longrightarrow> cvfull covers \<and> (\<exists>s. diffz_sections unz (dcontents diff) h p0 = Some s \<and> sections_full h s \<and>
      sections_spec (ostreamSize dst) (contents old) (cvrest covers) s \<noteq> None)"
    and Q: "\<And>st s new. diffz_sections unz (dcontents diff) h p0 = Some s \<Longrightarrow>
      sections_spec (ostreamSize dst) (contents old) (cvrest covers) s = Some new \<Longrightarrow>
      cvok (cs_covers st) \<Longrightarrow> ook (dstStream (cs_outCache st)) \<Longrightarrow>
      ostreamSize (dstStream (cs_outCache st)) = ostreamSize dst \<Longrightarrow>
      written (dstStream (cs_outCache st)) (ostreamSize dst) = new \<Longrightarrow> Q st"
  shows "hoare S (patch_decompress_covers dst old diff P h covers p0 k) Q"
proof -
  let ?d = "dcontents diff"
  note pc = code_patch_clip [OF P cv(1)] and ist = d.code_input_stream [OF P]
  note clip_rule = patch_clip.patchByClip_rule [OF pc]
  let ?p1 = "p0 + section_size (hz_rle_ctrlBuf_size h) (hz_compress_rle_ctrlBuf_size h)"
  let ?p2 = "?p1 + section_size (hz_rle_codeBuf_size h) (hz_compress_rle_codeBuf_size h)"
  let ?p3 = "?p2 + section_size (hz_newDataDiff_size h) (hz_compress_newDataDiff_size h)"
  have k64: "k < 2 ^ 64" using k by simp
  have sizes: "n < 2 ^ 64" if "n \<in> {hz_rle_ctrlBuf_size h, hz_compress_rle_ctrlBuf_size h, hz_rle_codeBuf_size h,
      hz_compress_rle_codeBuf_size h, hz_newDataDiff_size h, hz_compress_newDataDiff_size h}" for n
    using h that by (auto simp: diffz_head_ok_def)
  have n: "streamSize diff = length ?d" using d.contents_size [OF streams(3)] by simp
  show ?thesis unfolding patch_decompress_covers_def
  proof (rule hoare_bindI, rule d.open_section_rule [OF P streams(3) p0 k64], goal_cases)
    case 4
    then show ?case using S by (auto simp: diffz_sections_def Let_def split: bind_splits)
  next
    case (5 ctrl)
    note ctrl = 5
    show ?case unfolding prod.case
    proof (rule hoare_bindI, rule d.open_section_rule [OF P streams(3) ctrl(3) k64], goal_cases)
      case 4
      then show ?case using S ctrl(4) by (auto simp: diffz_sections_def Let_def split: bind_splits)
    next
      case (5 code)
      note code = 5
      show ?case unfolding prod.case
      proof (rule hoare_bindI, rule d.open_section_rule [OF P streams(3) code(3) k64], goal_cases)
        case 4
        then show ?case using S ctrl(4) code(4) by (auto simp: diffz_sections_def Let_def split: bind_splits)
      next
        case (5 df)
        note df = 5
        let ?b = "input_stream.cache_bytes (d.code_avail hrest)"
        let ?s = "(?b ctrl, ?b code, ?b df)"
        have secs: "diffz_sections unz ?d h p0 = (if ?p3 = length ?d then Some ?s else None)"
          by (simp add: diffz_sections_def Let_def ctrl(4) code(4) df(4))
        show ?case unfolding prod.case
        proof (rule hoare_bindI, rule hoare_weaken [where S = S, OF hoare_check], goal_cases)
          case 1
          then show ?case using S secs n by (auto split: if_splits)
        next
          case (3 _)
          then have secs': "diffz_sections unz ?d h p0 = Some ?s" using secs n by simp
          let ?l = "TBytesRle_load_stream_init ctrl code" and ?out = "TOutStreamCache_init dst (new_cache k) k"
          have k11: "11 \<le> k" using k by (simp add: hpatch_kMaxPackedUIntBytes_def)
          have l: "input_stream.rle_ok (d.code_ok P hok) ?l"
            "input_stream.rle_full (d.code_avail hrest) ?l \<longleftrightarrow>
               length (?b ctrl) = hz_rle_ctrlBuf_size h \<and> length (?b code) = hz_rle_codeBuf_size h"
            "input_stream.rle_rest (d.code_avail hrest) ?l = rle_spec Streaming (?b ctrl) (?b code)"
            using ctrl code k11
            by (auto simp: input_stream.rle_ok_def [OF ist] input_stream.rle_full_def [OF ist]
                input_stream.rle_rest_def [OF ist] rle_copy_rest_def TBytesRle_load_stream_init_def option.map_id0)
          have out: "o.out_ok ?out" "o.out_bytes ?out = []" "o.out_size ?out = ostreamSize dst"
            using o.out_init [OF streams(1), of "new_cache k"] k k11 by (simp_all add: new_cache_def)
          show ?case
          proof (rule hoare_bindI, rule clip_rule [OF out(1,2) streams(2) cv(2) df(1) _ _ l(1) k], goal_cases)
            case 3
            then show ?case using S secs' l(2,3) df(5) out(3) by (auto simp: sections_full_def sections_spec_def)
          next
            case (4 st new)
            have ok: "cvok (cs_covers st)" "input_stream.cache_ok (d.code_ok P hok) (cs_newDataDiff st)"
              "input_stream.rle_ok (d.code_ok P hok) (cs_rle st)" "o.out_ok (cs_outCache st)"
              using 4(2) by (simp_all add: patch_clip.clip_ok_def [OF pc])
            then have rle: "input_stream.cache_ok (d.code_ok P hok) (ctrlClip (cs_rle st))"
              "input_stream.cache_ok (d.code_ok P hok) (rleCodeClip (cs_rle st))"
              by (simp_all add: input_stream.rle_ok_def [OF ist])
            have "Q st"
              by (rule Q [OF secs']) (use 4 ok out(3) l(3) in \<open>auto simp: sections_spec_def o.out_ok_def o.out_size_def\<close>)
            then show ?case by (simp add: d.close_section [OF P] rle ok(2))
          qed (use df k k11 in auto)
        qed (use n in auto)
      qed (use sizes some in auto)
    qed (use sizes some in auto)
  qed (use sizes some in auto)
qed

lemma patch_decompress_rule:
  assumes P: "d.plugin_ok P unz hok hrest" and streams: "ook dst" "rok old" "dok diff"
    and mem: "a + 6 * 260 \<le> b" "b < 2 ^ 63"
    and can: "\<And>t. can t \<longleftrightarrow> (case P of None \<Rightarrow> False | Some D \<Rightarrow> is_can_open D t)"
    and S: "S \<Longrightarrow> \<exists>new. diffz_spec can unz (ostreamSize dst) (contents old) (dcontents diff) = Some (new, True)"
    and Q: "\<And>dst' full. diffz_spec can unz (ostreamSize dst) (contents old) (dcontents diff)
        = Some (written dst' (ostreamSize dst), full) \<Longrightarrow> ook dst' \<Longrightarrow> ostreamSize dst' = ostreamSize dst \<Longrightarrow>
        Q (dst', None)"
  shows "hoare S (patch_decompress_cache dst old diff P (None :: unit hpatch_TCovers option) a b) Q"
proof -
  let ?d = "dcontents diff"
  define k where "k = (b - a) div kCacheDecCount"
  have k: "k < 2 ^ 63" "k < 2 ^ 64" "hpatch_kMaxPackedUIntBytes \<le> k" "\<not> k \<le> hpatch_kMaxPluginTypeLength"
    using mem by (auto simp: k_def kCacheDecCount_def hpatch_kMaxPackedUIntBytes_def hpatch_kMaxPluginTypeLength_def)
  have sz: "streamSize old = length (contents old)" using r.contents_size [OF streams(2)] by simp
  note ist = d.code_input_stream [OF P]
  note cv = input_stream.covers_covers_source [OF ist]
  show ?thesis unfolding patch_decompress_cache_def option.case Let_def k_def [symmetric]
  proof (rule hoare_bindI, rule hoare_weaken [where S = S, OF hoare_check], goal_cases)
    case (3 _)
    show ?case
    proof (rule hoare_bindI, rule d.read_diffz_head_rule [OF streams(3)], goal_cases)
      case 1
      then show ?case using S by (auto simp: diffz_spec_def)
    next
      case (2 info h)
      note head = 2
      show ?case unfolding prod.case
      proof (rule hoare_bindI, rule hoare_weaken [where S = S, OF hoare_check], goal_cases)
        case 1
        then show ?case using S head(1) sz by (auto simp: diffz_spec_def split: if_splits)
      next
        case (3 _)
        note sizes = 3
        show ?case
        proof (rule hoare_bindI, rule hoare_weaken [where S = S, OF hoare_check], goal_cases)
          case 1
          then show ?case using S head(1) can [of "ci_compressType info"]
            by (cases P) (auto simp: diffz_spec_def split: if_splits)
        next
          case (3 _)
          then have open_ok: "ci_compressedCount info = 0 \<or> can (ci_compressType info)"
            "P = None \<Longrightarrow> ci_compressedCount info = 0"
            using can [of "ci_compressType info"] by (cases P; auto)+
          let ?p0 = "hz_headEndPos h" and ?n = "hz_cover_buf_size h" and ?m = "hz_compress_cover_buf_size h"
          let ?covers = "\<lambda>c. parse_store Streaming True (hz_coverCount h) [c] 0 0 0 0 0"
          have some: "P \<noteq> None" if "?m \<noteq> 0 \<or> hz_compress_rle_ctrlBuf_size h \<noteq> 0 \<or>
              hz_compress_rle_codeBuf_size h \<noteq> 0 \<or> hz_compress_newDataDiff_size h \<noteq> 0"
            using parse_diffz_count [OF head(1)] open_ok(2) that by (cases P) auto
          have spec: "diffz_spec can unz (ostreamSize dst) (contents old) ?d =
            Option.bind (code_section unz ?d ?p0 ?n ?m) (\<lambda>cov.
             Option.bind (diffz_sections unz ?d h (?p0 + section_size ?n ?m)) (\<lambda>s.
             map_option (\<lambda>new. (new, length cov = ?n \<and> sections_full h s))
               (sections_spec (ostreamSize dst) (contents old) (?covers cov) s)))"
            using head(1) sizes open_ok(1) sz by (simp add: diffz_spec_def)
          show ?case
          proof (rule hoare_bindI, rule d.open_section_rule [OF P streams(3) _ k(2)], goal_cases)
            case 5
            then show ?case using S spec by (auto split: bind_splits)
          next
            case (6 c)
            note c = 6
            let ?cs = "covers_init (hz_coverCount h) [c] 0 0 0 True"
            have cs: "input_stream.cv_ok (d.code_ok P hok) ?cs"
              "input_stream.cv_full (d.code_avail hrest) ?cs \<longleftrightarrow> length (input_stream.cache_bytes (d.code_avail hrest) c) = ?n"
              "input_stream.cv_rest (d.code_avail hrest) ?cs = ?covers (input_stream.cache_bytes (d.code_avail hrest) c)"
              using c k(3) by (auto simp: input_stream.cv_ok_def [OF ist] input_stream.cv_full_def [OF ist]
                  input_stream.cv_rest_def [OF ist] input_stream.store_rest_def [OF ist] covers_init_def
                  hpatch_kMaxPackedUIntBytes_def)
            have spec': "diffz_spec can unz (ostreamSize dst) (contents old) ?d =
               Option.bind (diffz_sections unz ?d h (?p0 + section_size ?n ?m)) (\<lambda>s.
               map_option (\<lambda>new. (new, input_stream.cv_full (d.code_avail hrest) ?cs \<and> sections_full h s))
               (sections_spec (ostreamSize dst) (contents old) (input_stream.cv_rest (d.code_avail hrest) ?cs) s))"
              using spec c(4) cs by simp
            show ?case unfolding prod.case
            proof (rule hoare_bindI, rule patch_decompress_covers_rule [OF P cv cs(1) streams head(2) k(3,1) c(3)], goal_cases)
              case 1
              then show ?case using some by auto
            next
              case 2
              then show ?case using S spec' by (auto simp: bind_eq_Some_conv)
            next
              case (3 st s new)
              have clips: "\<forall>c \<in> set (clips (covers_import (cs_covers st))). input_stream.cache_ok (d.code_ok P hok) c"
                "code_lengthsClip (covers_import (cs_covers st)) < length (clips (covers_import (cs_covers st)))"
                using 3(3) by (simp_all add: input_stream.cv_ok_def [OF ist] Let_def)
              then have "0 < length (clips (covers_import (cs_covers st)))" by linarith
              then have "input_stream.cache_ok (d.code_ok P hok) (clips (covers_import (cs_covers st)) ! 0)"
                using clips(1) nth_mem by blast
              then show ?case using Q 3 spec' by (simp add: d.close_section [OF P])
            qed
          qed (use head(2) some in \<open>auto simp: diffz_head_ok_def\<close>)
        qed auto
      qed auto
    qed
  qed (use k in auto)
qed

end

section \<open>The covers of a compressed diff\<close>

text \<open>\<open>sizeof(_TCompressedCovers)\<close>: the covers without their padding in words, one clip and the
  stream and handle of a decompressor.\<close>

definition sizeof_TCompressedCovers :: nat where
  "sizeof_TCompressedCovers = (5 + 3 + 3 + 1 + 6 + 5) * 8"

definition compressedCovers_close ::
  "('s, 'h) hpatch_TDecompress option \<Rightarrow> ('s, 'h) code_import TCovers \<Rightarrow> ('s, 'h) code_import TCovers res" where
  "compressedCovers_close decompressPlugin self =
     rbind (close_handle decompressPlugin (clip_handle (clips self ! 0))) (\<lambda>result.
     rbind (check result) (\<lambda>_. Ok self))"

definition compressedCovers_open ::
  "'s hpatch_TStreamInput \<Rightarrow> ('s, 'h) hpatch_TDecompress option \<Rightarrow> nat \<Rightarrow> nat \<Rightarrow>
   (('s, 'h) code_import TCovers hpatch_TCovers \<times> hpatch_compressedDiffInfo) res" where
  "compressedCovers_open compressedDiff decompressPlugin temp_cache temp_cache_end =
     rbind (cache_alloc sizeof_TCompressedCovers temp_cache temp_cache_end) (\<lambda>temp_cache.
     rbind (read_diffz_head compressedDiff) (\<lambda>(diffInfo, head).
     rbind (check (hz_compress_cover_buf_size head > 0 \<longrightarrow>
              (case decompressPlugin of None \<Rightarrow> False | Some P \<Rightarrow> is_can_open P (ci_compressType diffInfo)))) (\<lambda>_.
     rbind (open_section (hz_cover_buf_size head) (hz_compress_cover_buf_size head) compressedDiff
              (hz_headEndPos head) decompressPlugin (temp_cache_end - temp_cache)) (\<lambda>(coverClip, diffPos0).
     Ok ((covers_init (hz_coverCount head) [coverClip] 0 0 0 True)\<lparr>covers_close := compressedCovers_close decompressPlugin\<rparr>,
         diffInfo)))))"

text \<open>The covers that a compressed diff holds.\<close>

definition diffz_covers ::
  "(byte list \<Rightarrow> bool) \<Rightarrow> (nat \<Rightarrow> byte list \<Rightarrow> byte list option) \<Rightarrow> byte list \<Rightarrow>
   (hpatch_compressedDiffInfo \<times> hpatch_TCover list option \<times> bool) option" where
  "diffz_covers can unz d =
     (case parse_diffz d of
        Ok (info, h) \<Rightarrow>
          (if hz_compress_cover_buf_size h > 0 \<longrightarrow> can (ci_compressType info) then
             map_option (\<lambda>cov. (info, parse_store Streaming True (hz_coverCount h) [cov] 0 0 0 0 0, length cov = hz_cover_buf_size h))
               (code_section unz d (hz_headEndPos h) (hz_cover_buf_size h) (hz_compress_cover_buf_size h))
           else None)
      | _ \<Rightarrow> None)"

context random_stream begin

lemma compressedCovers_open_rule:
  fixes P :: "('s, 'h) hpatch_TDecompress option"
  assumes P: "plugin_ok P unz hok hrest" and st: "rok st" and mem: "a \<le> b" "b < 2 ^ 63"
    and can: "\<And>t. can t \<longleftrightarrow> (case P of None \<Rightarrow> False | Some D \<Rightarrow> is_can_open D t)"
    and S: "S \<Longrightarrow> diffz_covers can unz (contents st) \<noteq> None \<and> a + sizeof_TCompressedCovers + 18 \<le> b"
    and Q: "\<And>cs info full. diffz_covers can unz (contents st)
        = Some (info, input_stream.cv_rest (code_avail hrest) cs, full) \<Longrightarrow>
      input_stream.cv_ok (code_ok P hok) cs \<Longrightarrow>
      (a + sizeof_TCompressedCovers + 18 \<le> b \<Longrightarrow> full \<Longrightarrow> input_stream.cv_full (code_avail hrest) cs) \<Longrightarrow> Q (cs, info)"
  shows "hoare S (compressedCovers_open st P a b) Q"
proof -
  note ist = code_input_stream [OF P]
  define m where "m = hpatch_align_upper a 8 + sizeof_TCompressedCovers"
  have m: "m \<le> a + sizeof_TCompressedCovers + 7" by (simp add: m_def hpatch_align_upper_def)
  have alloc: "cache_alloc sizeof_TCompressedCovers a b = (if b - a < 8 + sizeof_TCompressedCovers then Fail else Ok m)"
    by (simp add: cache_alloc_def m_def)
  show ?thesis
  proof (cases "b - a < 8 + sizeof_TCompressedCovers")
    case True
    then show ?thesis using S by (auto simp: compressedCovers_open_def alloc)
  next
    case False
    have k: "b - m < 2 ^ 64" using mem(2) by simp
    have k11: "11 \<le> b - m" if "a + sizeof_TCompressedCovers + 18 \<le> b" using that m by arith
    have alloc': "cache_alloc sizeof_TCompressedCovers a b = Ok m" using False alloc by simp
    show ?thesis unfolding compressedCovers_open_def alloc' rbind.simps
    proof (rule hoare_bindI, rule read_diffz_head_rule [OF st], goal_cases)
      case 1
      then show ?case using S by (auto simp: diffz_covers_def)
    next
      case (2 info h)
      note head = 2
      let ?n = "hz_cover_buf_size h" and ?m = "hz_compress_cover_buf_size h"
      show ?case unfolding prod.case
      proof (rule hoare_bindI, rule hoare_weaken [where S = S, OF hoare_check], goal_cases)
        case 1
        then show ?case using S head(1) can [of "ci_compressType info"]
          by (auto simp: diffz_covers_def split: if_splits)
      next
        case (3 _)
        have some: "?m \<noteq> 0 \<Longrightarrow> P \<noteq> None" using 3 by (cases P) auto
        have spec: "diffz_covers can unz (contents st)
            = map_option (\<lambda>cov. (info, parse_store Streaming True (hz_coverCount h) [cov] 0 0 0 0 0, length cov = ?n))
               (code_section unz (contents st) (hz_headEndPos h) ?n ?m)"
          using head(1) 3 can [of "ci_compressType info"] by (simp add: diffz_covers_def)
        show ?case
        proof (rule hoare_bindI, rule open_section_rule [OF P st _ k], goal_cases)
          case 5
          then show ?case using S spec by auto
        next
          case (6 c)
          let ?cs = "(covers_init (hz_coverCount h) [c] 0 0 0 True)\<lparr>covers_close := compressedCovers_close P\<rparr>"
          have "Q (?cs, info)"
          proof (rule Q)
            show "diffz_covers can unz (contents st) = Some (info, input_stream.cv_rest (code_avail hrest) ?cs,
                length (input_stream.cache_bytes (code_avail hrest) c) = ?n)"
              using spec 6 by (simp add: input_stream.cv_rest_def [OF ist] input_stream.store_rest_def [OF ist] covers_init_def)
          qed (use 6 k11 in \<open>auto simp: input_stream.cv_ok_def [OF ist] input_stream.cv_full_def [OF ist] covers_init_def\<close>)
          then show ?case by simp
        qed (use head(2) some in \<open>auto simp: diffz_head_ok_def\<close>)
      qed auto
    qed
  qed
qed

end

lemma patch_decompress_mem:
  fixes P :: "(byte list, 'h) hpatch_TDecompress option"
  assumes "case P of None \<Rightarrow> True | Some D \<Rightarrow> decompress_ok D mem_in_ok streamImport unz hok hrest"
    and "length old < 2 ^ 64" "length d < 2 ^ 64" "length buf < 2 ^ 63" "a + 1560 \<le> b" "b < 2 ^ 63"
  shows "let m = patch_decompress_cache (mem_as_hStreamOutput buf) (mem_as_hStreamInput old) (mem_as_hStreamInput d) P
             (None :: unit hpatch_TCovers option) a b;
           s = diffz_spec (\<lambda>t. case P of None \<Rightarrow> False | Some D \<Rightarrow> is_can_open D t) unz (length buf) old d in
    (m = Fail \<and> (\<forall>new. s \<noteq> Some (new, True))) \<or>
    (\<exists>new full. m = Ok (mem_as_hStreamOutput new, None) \<and> s = Some (new, full))"
proof -
  let ?can = "\<lambda>t. case P of None \<Rightarrow> False | Some D \<Rightarrow> is_can_open D t"
  let ?s = "diffz_spec ?can unz (length buf) old d"
  let ?m = "patch_decompress_cache (mem_as_hStreamOutput buf) (mem_as_hStreamInput old) (mem_as_hStreamInput d) P
             (None :: unit hpatch_TCovers option) a b"
  have sz: "ostreamSize (mem_as_hStreamOutput x) = length x" "streamImport (mem_as_hStreamInput x) = x" for x
    by (simp_all add: mem_as_hStreamOutput_def mem_as_hStreamInput_def)
  have "hoare (\<exists>new. ?s = Some (new, True)) ?m (\<lambda>x. \<exists>new full. x = (mem_as_hStreamOutput new, None) \<and> ?s = Some (new, full))"
  proof (rule mem_files.patch_decompress_rule [where can = ?can and unz = unz and hok = hok and hrest = hrest], goal_cases)
    case (9 dst full)
    then show ?case using mem_out_all [of dst] mem_out_eq [of dst] by (auto simp: sz)
  qed (use assms in \<open>auto simp: sz mem_in.plugin_ok_def\<close>)
  then show ?thesis by (cases ?m) (auto simp: Let_def)
qed

section \<open>Properties\<close>

text \<open>C14: patching with a compressed diff, for any decompressor that keeps to the documented
  contract (\<open>unz\<close> is what it makes of a section) or for none: it never leaves a buffer or
  breaks an assertion; when it succeeds the new data is what the diff means; and it succeeds
  whenever the diff means something and each section holds as many bytes as the head says.\<close>

theorem patch_decompress_refines_spec:
  fixes P :: "(byte list, 'h) hpatch_TDecompress option"
  assumes "case P of None \<Rightarrow> True | Some D \<Rightarrow> decompress_ok D mem_in_ok streamImport unz hok hrest"
    and "length old < 2 ^ 64" "length d < 2 ^ 64" "length buf < 2 ^ 63" "a + 1560 \<le> b" "b < 2 ^ 63"
  shows "let m = patch_decompress_cache (mem_as_hStreamOutput buf) (mem_as_hStreamInput old) (mem_as_hStreamInput d) P
             (None :: unit hpatch_TCovers option) a b;
           s = diffz_spec (\<lambda>t. case P of None \<Rightarrow> False | Some D \<Rightarrow> is_can_open D t) unz (length buf) old d in
    (m = Fail \<and> (\<forall>new. s \<noteq> Some (new, True))) \<or>
    (\<exists>new full. m = Ok (mem_as_hStreamOutput new, None) \<and> s = Some (new, full))"
  using assms by (rule patch_decompress_mem)

text \<open>The plugin that stores: a handle is the bytes not yet delivered.\<close>

definition store_plugin :: "(byte list, byte list) hpatch_TDecompress" where
  "store_plugin =
     \<lparr>is_can_open = (\<lambda>t. t = [0x73]),
      dec_open = (\<lambda>n st b e. Some (take (e - b) (drop b (streamImport st)))),
      dec_close = (\<lambda>h. True),
      decompress_part = (\<lambda>h n. if n \<le> length h then Ok (take n h, drop n h) else Fail),
      reset_code = None\<rparr>"

lemma store_plugin_ok: "decompress_ok store_plugin mem_in_ok streamImport (\<lambda>n c. Some c) (\<lambda>h. True) (\<lambda>h. h)"
  by (simp add: decompress_ok_def store_plugin_def)

text \<open>A diff with no covers whose new data is a section that the plugin holds.\<close>

theorem patch_decompress_refines_spec_witness:
  "patch_decompress_cache (mem_as_hStreamOutput [0, 0]) (mem_as_hStreamInput [])
      (mem_as_hStreamInput (kVersionType @ [0x26, 0x73, 0, 2, 0, 0, 0, 0, 1, 0, 0, 0, 2, 2, 1, 7, 8])) (Some store_plugin)
      (None :: unit hpatch_TCovers option) 0 1560
    = Ok (mem_as_hStreamOutput [7, 8], None)"
proof -
  let ?d = "kVersionType @ [0x26, 0x73, 0, 2, 0, 0, 0, 0, 1, 0, 0, 0, 2, 2, 1, 7, 8]"
  have "diffz_spec (\<lambda>t. is_can_open store_plugin t) (\<lambda>n c. Some c) 2 [] ?d = Some ([7, 8], True)"
    by (simp add: diffz_spec_def parse_diffz_def read_str_def c_str_def kVersionType_def hpatch_kMaxPluginTypeLength_def
        unpack_by_small compressed_count_def store_plugin_def code_section_def section_size_def diffz_sections_def
        sections_full_def sections_spec_def rle_spec.simps [of _ "_ # _"] rle_run_def rle_type_def kByteRleType_bit_def)
  then show ?thesis
    using patch_decompress_refines_spec [where P = "Some store_plugin" and unz = "\<lambda>n c. Some c" and hok = "\<lambda>h. True"
        and hrest = "\<lambda>h. h" and old = "[]" and d = ?d and buf = "[0, 0]" and a = 0 and b = 1560]
      store_plugin_ok by (auto simp: Let_def kVersionType_def numeral_2_eq_2 [symmetric])
qed

end
