(* ===== verification/SingleDiff.thy ===== *)
theory SingleDiff
  imports SingleStream Diffz
begin

text \<open>
  Around \<open>patch_single_stream_diff\<close>: the head of the format \<open>HDIFFSF20\<close>
  (\<open>getSingleCompressedDiffInfo\<close>), the uncompressed view of its compressed stream
  (\<open>compressed_stream_as_uncompressed\<close>), \<open>_patch_single_compressed_diff_mt\<close> in a build
  without threads, the adaptor \<open>TDiffToSingleStream\<close>, which lets a diff that can only be read
  forwards be read again within a window, and \<open>_patch_single_stream_mt\<close>, which ties them.
\<close>

section \<open>The head of a single-stream diff\<close>

record hpatch_singleCompressedDiffInfo =
  si_newDataSize :: nat
  si_oldDataSize :: nat
  si_uncompressedSize :: nat
  si_compressedSize :: nat
  si_diffDataPos :: nat
  si_coverCount :: nat
  si_stepMemSize :: nat
  si_compressType :: "byte list"

definition singleDiffInfoToHDiffInfo :: "hpatch_singleCompressedDiffInfo \<Rightarrow> hpatch_compressedDiffInfo" where
  "singleDiffInfoToHDiffInfo s =
     \<lparr>ci_newDataSize = si_newDataSize s, ci_oldDataSize = si_oldDataSize s,
      ci_compressedCount = (if si_compressedSize s > 0 then 1 else 0), ci_compressType = si_compressType s\<rparr>"

text \<open>\<open>"HDIFFSF20"\<close>.\<close>

definition kSingleVersionType :: "byte list" where
  "kSingleVersionType = [0x48, 0x44, 0x49, 0x46, 0x46, 0x53, 0x46, 0x32, 0x30]"

definition kStepMemSizeSafeLimit :: nat where
  "kStepMemSizeSafeLimit = 2 ^ 20 * 16"

text \<open>The stream may be one that can only be read forwards, so what it became is returned.\<close>

definition getSingleCompressedDiffInfo ::
  "'s hpatch_TStreamInput \<Rightarrow> nat \<Rightarrow> (hpatch_singleCompressedDiffInfo \<times> 's hpatch_TStreamInput) res" where
  "getSingleCompressedDiffInfo singleCompressedDiff diffInfo_pos =
     rbind (TStreamCacheClip_init singleCompressedDiff diffInfo_pos (streamSize singleCompressedDiff)
              (new_cache hpatch_kStreamCacheSize) hpatch_kStreamCacheSize) (\<lambda>diffHeadClip.
     rbind (TStreamCacheClip_readType_end diffHeadClip 0x26) (\<lambda>(tempType, diffHeadClip).
     rbind (check (c_str tempType = kSingleVersionType)) (\<lambda>_.
     rbind (TStreamCacheClip_readType_end diffHeadClip 0) (\<lambda>(compressType, diffHeadClip).
     rbind (clip_unpackUIntTo diffHeadClip) (\<lambda>(newDataSize, diffHeadClip).
     rbind (clip_unpackUIntTo diffHeadClip) (\<lambda>(oldDataSize, diffHeadClip).
     rbind (clip_unpackUIntTo diffHeadClip) (\<lambda>(cover_count, diffHeadClip).
     rbind (clip_unpackUIntTo diffHeadClip) (\<lambda>(stepMemSize, diffHeadClip).
     rbind (clip_unpackUIntTo diffHeadClip) (\<lambda>(uncompressedSize, diffHeadClip).
     rbind (clip_unpackUIntTo diffHeadClip) (\<lambda>(compressedSize, diffHeadClip).
     let diffDataPos = sub64 (TStreamCacheClip_readPosOfSrcStream diffHeadClip) diffInfo_pos in
     rbind (check (\<not> compressedSize > uncompressedSize)) (\<lambda>_.
     rbind (check (\<not> stepMemSize >
              (if newDataSize \<ge> kStepMemSizeSafeLimit then newDataSize else kStepMemSizeSafeLimit))) (\<lambda>_.
     rbind (check (\<not> stepMemSize > uncompressedSize)) (\<lambda>_.
     Ok (\<lparr>si_newDataSize = newDataSize, si_oldDataSize = oldDataSize, si_uncompressedSize = uncompressedSize,
          si_compressedSize = compressedSize, si_diffDataPos = diffDataPos, si_coverCount = cover_count,
          si_stepMemSize = stepMemSize, si_compressType = compressType\<rparr>, srcStream diffHeadClip))))))))))))))"

text \<open>The same head as a function of the bytes from \<open>diffInfo_pos\<close> on.\<close>

definition parse_single :: "byte list \<Rightarrow> hpatch_singleCompressedDiffInfo res" where
  "parse_single d0 =
     rbind (read_str d0 0x26) (\<lambda>(tempType, d).
     rbind (check (c_str tempType = kSingleVersionType)) (\<lambda>_.
     rbind (read_str d 0) (\<lambda>(compressType, d).
     rbind (unpack_by Streaming d 0) (\<lambda>(newDataSize, d).
     rbind (unpack_by Streaming d 0) (\<lambda>(oldDataSize, d).
     rbind (unpack_by Streaming d 0) (\<lambda>(cover_count, d).
     rbind (unpack_by Streaming d 0) (\<lambda>(stepMemSize, d).
     rbind (unpack_by Streaming d 0) (\<lambda>(uncompressedSize, d).
     rbind (unpack_by Streaming d 0) (\<lambda>(compressedSize, d).
     rbind (check (\<not> compressedSize > uncompressedSize)) (\<lambda>_.
     rbind (check (\<not> stepMemSize >
              (if newDataSize \<ge> kStepMemSizeSafeLimit then newDataSize else kStepMemSizeSafeLimit))) (\<lambda>_.
     rbind (check (\<not> stepMemSize > uncompressedSize)) (\<lambda>_.
     Ok \<lparr>si_newDataSize = newDataSize, si_oldDataSize = oldDataSize, si_uncompressedSize = uncompressedSize,
         si_compressedSize = compressedSize, si_diffDataPos = length d0 - length d, si_coverCount = cover_count,
         si_stepMemSize = stepMemSize, si_compressType = compressType\<rparr>))))))))))))"

lemma parse_single_no_Fault [simp]: "parse_single d \<noteq> Fault"
  unfolding parse_single_def Let_def by (auto simp: rbind_eq_Fault check_def)

context random_stream begin

lemma getSingle_parses:
  assumes st: "rok st" and p: "p \<le> length (contents st)"
  shows "rbind (getSingleCompressedDiffInfo st p) (\<lambda>(info, _). Ok info) = parse_single (drop p (contents st))"
proof (rule agree_eq [OF _ parse_single_no_Fault])
  have n: "length (contents st) < 2 ^ 64" using contents_size [OF st] by simp
  have pos: "sub64 p' p = length (drop p (contents st)) - length (drop p' (contents st))"
    if "p \<le> p'" "p' \<le> length (contents st)" for p'
    using that n by (simp add: sub64_eq)
  show "agree (rbind (getSingleCompressedDiffInfo st p) (\<lambda>(info, _). Ok info)) (parse_single (drop p (contents st)))"
    unfolding getSingleCompressedDiffInfo_def parse_single_def Let_def rbind_assoc
    apply (rule agree_init [OF st p])
    apply (rule agree_readType, assumption, simp only: prod.case rbind_assoc)
    apply (rule agree_check)
    apply (rule agree_readType, assumption, simp only: prod.case rbind_assoc)
    apply (rule agree_unpack, assumption, simp only: prod.case rbind_assoc)+
    apply (rule agree_check)+
    apply (simp add: at_head_readPos pos)
    done
qed

end

section \<open>A compressed stream seen uncompressed\<close>

text \<open>\<open>_TUncompresser_read\<close> and \<open>compressed_stream_as_uncompressed\<close>: the stream of a handle.\<close>

definition compressed_stream_as_uncompressed ::
  "nat \<Rightarrow> ('s, 'h) hpatch_TDecompress \<Rightarrow> 's hpatch_TStreamInput \<Rightarrow> nat \<Rightarrow> nat \<Rightarrow>
   ('s, 'h) code_import hpatch_TStreamInput res" where
  "compressed_stream_as_uncompressed uncompressedSize decompressPlugin compressedStream compressed_pos compressed_end =
     (case dec_open decompressPlugin uncompressedSize compressedStream compressed_pos compressed_end of
        None \<Rightarrow> Fail | Some h \<Rightarrow> Ok (dec_stream decompressPlugin h uncompressedSize))"

text \<open>
  \<open>_patch_single_compressed_diff_mt\<close> without threads.  The handle of the uncompressed stream is
  closed at the end and what closing returns is not looked at.
\<close>

definition patch_single_compressed_diff ::
  "nat \<Rightarrow> 'o hpatch_TStreamOutput \<Rightarrow> 'r hpatch_TStreamInput \<Rightarrow> 's hpatch_TStreamInput \<Rightarrow> nat \<Rightarrow> nat \<Rightarrow> nat \<Rightarrow>
   ('s, 'h) hpatch_TDecompress option \<Rightarrow> nat \<Rightarrow> nat \<Rightarrow> nat \<Rightarrow> nat \<Rightarrow> 'l coversListener option \<Rightarrow>
   ('o hpatch_TStreamOutput \<times> 'l coversListener option) res" where
  "patch_single_compressed_diff fuel out_newData oldData singleCompressedDiff diffData_pos uncompressedSize
     compressedSize decompressPlugin cover_count stepMemSize temp_cache temp_cache_end listener =
     (let decompressPlugin0 = (if compressedSize = 0 then None else decompressPlugin) in
      rbind (check (compressedSize = 0 \<or> \<not> Option.is_none decompressPlugin0)) (\<lambda>_.
      let diffData_posEnd = add64 (case decompressPlugin0 of Some _ \<Rightarrow> compressedSize | None \<Rightarrow> uncompressedSize) diffData_pos in
      rbind (check (\<not> diffData_posEnd > streamSize singleCompressedDiff)) (\<lambda>_.
      case decompressPlugin0 of
        None \<Rightarrow>
          patch_single_stream_diff fuel out_newData oldData singleCompressedDiff diffData_pos diffData_posEnd
            cover_count stepMemSize temp_cache temp_cache_end listener True
      | Some P \<Rightarrow>
          rbind (compressed_stream_as_uncompressed uncompressedSize P singleCompressedDiff diffData_pos diffData_posEnd)
            (\<lambda>stream.
          patch_single_stream_diff fuel out_newData oldData stream 0 (streamSize stream)
            cover_count stepMemSize temp_cache temp_cache_end listener True))))"

section \<open>Reading forwards with a window\<close>

record 's TDiffToSingleStream =
  ts_diffStream :: "'s hpatch_TStreamInput"
  ts_readedSize :: nat
  ts_cachedBufBegin :: nat
  ts_isInSingleStream :: bool
  ts_buf :: "byte list"

definition kDiffToSingleBufSize :: nat where
  "kDiffToSingleBufSize = hpatch_kStreamCacheSize"

text \<open>What a read of new bytes \<open>d\<close> leaves in the window.\<close>

definition toSingle_cache :: "'s TDiffToSingleStream \<Rightarrow> byte list \<Rightarrow> 's TDiffToSingleStream res" where
  "toSingle_cache self d =
     (let rLen = length d in
      if ts_isInSingleStream self \<or> rLen > kDiffToSingleBufSize then
        Ok (self\<lparr>ts_cachedBufBegin := kDiffToSingleBufSize\<rparr>)
      else if rLen \<ge> kDiffToSingleBufSize then
        rbind (mem_read d (rLen - kDiffToSingleBufSize) kDiffToSingleBufSize) (\<lambda>x.
        rbind (mem_write (ts_buf self) 0 x) (\<lambda>buf.
        Ok (self\<lparr>ts_buf := buf, ts_cachedBufBegin := 0\<rparr>)))
      else
        rbind (if ts_cachedBufBegin self \<ge> rLen then
                 rbind (mem_read (ts_buf self) (ts_cachedBufBegin self) (kDiffToSingleBufSize - ts_cachedBufBegin self)) (\<lambda>x.
                 rbind (mem_write (ts_buf self) (ts_cachedBufBegin self - rLen) x) (\<lambda>buf.
                 Ok (buf, ts_cachedBufBegin self - rLen)))
               else
                 rbind (mem_read (ts_buf self) rLen (kDiffToSingleBufSize - rLen)) (\<lambda>x.
                 rbind (mem_write (ts_buf self) 0 x) (\<lambda>buf. Ok (buf, 0)))) (\<lambda>(buf, new_cachedBufBegin).
        rbind (mem_write buf (kDiffToSingleBufSize - rLen) d) (\<lambda>buf.
        Ok (self\<lparr>ts_buf := buf, ts_cachedBufBegin := new_cachedBufBegin\<rparr>))))"

text \<open>
  \<open>_TDiffToSingleStream_read\<close>: \<open>bufSize\<close> is used only when \<open>readFromPos < readedSize\<close>, where
  the subtraction does not wrap.
\<close>

function TDiffToSingleStream_read ::
  "'s TDiffToSingleStream \<Rightarrow> nat \<Rightarrow> nat \<Rightarrow> (byte list \<times> 's TDiffToSingleStream) res" where
  "TDiffToSingleStream_read self readFromPos rLen =
     (let readedSize = ts_readedSize self in
      if readFromPos = readedSize then
        rbind (sread (ts_diffStream self) readedSize rLen) (\<lambda>(d, src).
        rbind (toSingle_cache (self\<lparr>ts_diffStream := src, ts_readedSize := add64 readedSize rLen\<rparr>) d) (\<lambda>self.
        Ok (d, self)))
      else
        let cachedSize = kDiffToSingleBufSize - ts_cachedBufBegin self; bufSize = readedSize - readFromPos in
        if readFromPos < readedSize \<and> bufSize \<le> cachedSize then
          let n = (if rLen > bufSize then bufSize else rLen) in
          rbind (mem_read (ts_buf self) (kDiffToSingleBufSize - bufSize) n) (\<lambda>d.
          if n = rLen then Ok (d, self)
          else rbind (TDiffToSingleStream_read self (readFromPos + n) (rLen - n)) (\<lambda>(d', self). Ok (d @ d', self)))
        else Fail)"
  by pat_completeness auto
termination
  by (relation "measure (\<lambda>(self, p, n). n)") (auto split: if_splits)

declare TDiffToSingleStream_read.simps [simp del]

definition toSingle_stream_read ::
  "'s TDiffToSingleStream \<Rightarrow> nat \<Rightarrow> nat \<Rightarrow> nat \<Rightarrow> (byte list \<times> 's TDiffToSingleStream) res" where
  "toSingle_stream_read self streamSz readFromPos n = TDiffToSingleStream_read self readFromPos n"

definition TDiffToSingleStream_init :: "'s hpatch_TStreamInput \<Rightarrow> 's TDiffToSingleStream hpatch_TStreamInput" where
  "TDiffToSingleStream_init diffStream =
     \<lparr>streamImport = \<lparr>ts_diffStream = diffStream, ts_readedSize = 0, ts_cachedBufBegin = kDiffToSingleBufSize,
        ts_isInSingleStream = False, ts_buf = new_cache kDiffToSingleBufSize\<rparr>,
      streamSize = streamSize diffStream, read = toSingle_stream_read\<rparr>"

definition TDiffToSingleStream_setInSingleStream :: "'s TDiffToSingleStream \<Rightarrow> 's TDiffToSingleStream" where
  "TDiffToSingleStream_setInSingleStream self = self\<lparr>ts_isInSingleStream := True\<rparr>"

definition TDiffToSingleStream_resetStream ::
  "'s TDiffToSingleStream \<Rightarrow> 's hpatch_TStreamInput \<Rightarrow> 's TDiffToSingleStream" where
  "TDiffToSingleStream_resetStream self diffStream = self\<lparr>ts_diffStream := diffStream\<rparr>"

section \<open>Patching with a single-stream diff\<close>

text \<open>
  \<open>sspatch_listener_t\<close>: \<open>onDiffInfo\<close> gives the decompressor and the memory for the caches, as
  the address it starts at and its end; a null or empty range is an error.
\<close>

record ('s, 'h, 'm) sspatch_listener =
  sl_import :: 'm
  onDiffInfo :: "'m \<Rightarrow> hpatch_singleCompressedDiffInfo \<Rightarrow> (('s, 'h) hpatch_TDecompress option \<times> nat \<times> nat \<times> 'm) option"
  onPatchFinish :: "('m \<Rightarrow> nat \<Rightarrow> nat \<Rightarrow> 'm) option"

text \<open>\<open>_patch_single_stream_mt\<close>; the memory range is not null.\<close>

definition patch_single_stream ::
  "nat \<Rightarrow> ('s TDiffToSingleStream, 'h, 'm) sspatch_listener \<Rightarrow> 'o hpatch_TStreamOutput \<Rightarrow> 'r hpatch_TStreamInput \<Rightarrow>
   's hpatch_TStreamInput \<Rightarrow> nat \<Rightarrow> 'l coversListener option \<Rightarrow>
   ('o hpatch_TStreamOutput \<times> 'l coversListener option \<times> 'm) res" where
  "patch_single_stream fuel listener out_newData oldData singleCompressedDiff diffInfo_pos coversListener =
     rbind (getSingleCompressedDiffInfo (TDiffToSingleStream_init singleCompressedDiff) diffInfo_pos)
       (\<lambda>(diffInfo, diffStream).
     rbind (check (\<not> si_newDataSize diffInfo > ostreamSize out_newData)) (\<lambda>_.
     let out_newData = out_newData\<lparr>ostreamSize := si_newDataSize diffInfo\<rparr> in
     rbind (check (si_oldDataSize diffInfo = streamSize oldData)) (\<lambda>_.
     case onDiffInfo listener (sl_import listener) diffInfo of
       None \<Rightarrow> Fail
     | Some (decompressPlugin, temp_cache, temp_cacheEnd, m) \<Rightarrow>
         rbind (check (temp_cache < temp_cacheEnd)) (\<lambda>_.
         rbind (patch_single_compressed_diff fuel out_newData oldData diffStream (si_diffDataPos diffInfo)
             (si_uncompressedSize diffInfo) (si_compressedSize diffInfo) decompressPlugin (si_coverCount diffInfo)
             (si_stepMemSize diffInfo) temp_cache temp_cacheEnd coversListener) (\<lambda>(out, cl).
         Ok (out, cl, case onPatchFinish listener of None \<Rightarrow> m | Some f \<Rightarrow> f m temp_cache temp_cacheEnd))))))"

section \<open>The window\<close>

context random_stream begin

text \<open>The window holds the bytes read last.\<close>

definition ts_window :: "'s TDiffToSingleStream \<Rightarrow> nat" where
  "ts_window self = kDiffToSingleBufSize - ts_cachedBufBegin self"

definition ts_ok :: "'s TDiffToSingleStream \<Rightarrow> bool" where
  "ts_ok self \<longleftrightarrow>
     rok (ts_diffStream self) \<and> length (ts_buf self) = kDiffToSingleBufSize \<and>
     ts_cachedBufBegin self \<le> kDiffToSingleBufSize \<and> ts_readedSize self \<le> length (contents (ts_diffStream self)) \<and>
     ts_window self \<le> ts_readedSize self \<and>
     drop (ts_cachedBufBegin self) (ts_buf self)
     = take (ts_window self) (drop (ts_readedSize self - ts_window self) (contents (ts_diffStream self)))"

lemma toSingle_cache_ok:
  assumes ok: "ts_ok self" and d: "d = take n (drop (ts_readedSize self) (contents src))"
    and n: "ts_readedSize self + n \<le> length (contents src)"
    and src: "rok src" "contents src = contents (ts_diffStream self)"
  shows "\<exists>self'. toSingle_cache (self\<lparr>ts_diffStream := src, ts_readedSize := ts_readedSize self + n\<rparr>) d = Ok self' \<and>
    ts_ok self' \<and> ts_diffStream self' = src \<and> ts_readedSize self' = ts_readedSize self + n \<and>
    ts_isInSingleStream self' = ts_isInSingleStream self \<and>
    (\<not> ts_isInSingleStream self \<and> n \<le> kDiffToSingleBufSize \<longrightarrow> ts_window self' = min kDiffToSingleBufSize (ts_window self + n))"
proof -
  let ?K = kDiffToSingleBufSize and ?r = "ts_readedSize self" and ?b = "ts_cachedBufBegin self" and ?c = "contents src"
  have h: "length (ts_buf self) = ?K" "?b \<le> ?K" "ts_window self = ?K - ?b" "?K - ?b \<le> ?r"
    "drop ?b (ts_buf self) = take (?K - ?b) (drop (?r - (?K - ?b)) ?c)"
    using ok src by (simp_all add: ts_ok_def ts_window_def)
  have ld: "length d = n" using d n by simp
  let ?s = "self\<lparr>ts_diffStream := src, ts_readedSize := ?r + n\<rparr>"
  show ?thesis
  proof (cases "ts_isInSingleStream self \<or> n > ?K")
    case True
    then show ?thesis using ok src n ld h by (auto simp: toSingle_cache_def ts_ok_def ts_window_def)
  next
    case False
    show ?thesis
    proof (cases "n = ?K")
      case True
      have "take ?K (drop ?r ?c) = d" using d True by simp
      then show ?thesis using False True ok src n ld h
        by (simp add: toSingle_cache_def ts_ok_def ts_window_def mem_read_def mem_write_def)
    next
      case less: False
      define w where "w = ?K - ?b"
      define buf where "buf = (if ?b \<ge> n then take (?b - n) (ts_buf self) @ drop ?b (ts_buf self) @ drop (?K - n) (ts_buf self)
        else drop n (ts_buf self) @ drop (?K - n) (ts_buf self))"
      define b' where "b' = (if ?b \<ge> n then ?b - n else 0)"
      have lb: "length buf = ?K" using h(1-4) less False by (auto simp: buf_def)
      have calc: "toSingle_cache ?s d
          = Ok (?s\<lparr>ts_buf := take (?K - n) buf @ d, ts_cachedBufBegin := b'\<rparr>)"
        using False less ld h(1-4) lb
        by (auto simp: toSingle_cache_def mem_read_def mem_write_def buf_def b'_def Let_def)
      have win: "ts_window (?s\<lparr>ts_buf := x, ts_cachedBufBegin := b'\<rparr>) = ?K - b'" for x by (simp add: ts_window_def)
      have "drop b' (take (?K - n) buf @ d) = take (?K - b') (drop (?r + n - (?K - b')) ?c)"
      proof (cases "?b \<ge> n")
        case True
        have "drop b' (take (?K - n) buf @ d) = drop ?b (ts_buf self) @ d"
          using True h(1-4) less False by (simp add: buf_def b'_def)
        also have "\<dots> = take w (drop (?r - w) ?c) @ take n (drop w (drop (?r - w) ?c))"
          using h(4,5) d src by (simp add: w_def)
        also have "\<dots> = take (w + n) (drop (?r - w) ?c)" by (simp add: take_add)
        finally show ?thesis using True h(2,4) by (simp add: b'_def w_def)
      next
        case b: False
        have "drop b' (take (?K - n) buf @ d) = drop n (ts_buf self) @ d"
          using b h(1-4) less False by (simp add: buf_def b'_def)
        also have "drop n (ts_buf self) = drop (n - ?b) (drop ?b (ts_buf self))" using b by simp
        also have "\<dots> = take (?K - n) (drop (?r - (?K - n)) ?c)"
          unfolding h(5) drop_take drop_drop using b h(2,4) less False by (simp add: algebra_simps)
        also have "\<dots> @ d = take (?K - n + n) (drop (?r - (?K - n)) ?c)"
          unfolding take_add using h(4) b d src by simp
        finally show ?thesis using b h(2,4) less False by (simp add: b'_def)
      qed
      moreover have "b' \<le> ?K" "?K - b' \<le> ?r + n" "?K - b' = min ?K (ts_window self + n)"
        using h(2-4) less False by (auto simp: b'_def)
      ultimately show ?thesis unfolding calc using src n lb ld h(1) less False
        by (simp add: ts_ok_def win)
    qed
  qed
qed

lemma toSingle_read_new:
  assumes ok: "ts_ok self" and n: "ts_readedSize self + n < 2 ^ 64"
    and S: "S \<Longrightarrow> ts_readedSize self + n \<le> length (contents (ts_diffStream self))"
    and Q: "\<And>self'. ts_ok self' \<Longrightarrow> contents (ts_diffStream self') = contents (ts_diffStream self) \<Longrightarrow>
      ts_readedSize self + n \<le> length (contents (ts_diffStream self)) \<Longrightarrow> ts_readedSize self' = ts_readedSize self + n \<Longrightarrow>
      ts_isInSingleStream self' = ts_isInSingleStream self \<Longrightarrow>
      (\<not> ts_isInSingleStream self \<and> n \<le> kDiffToSingleBufSize \<Longrightarrow>
         ts_window self' = min kDiffToSingleBufSize (ts_window self + n)) \<Longrightarrow>
      Q (take n (drop (ts_readedSize self) (contents (ts_diffStream self))), self')"
  shows "hoare S (TDiffToSingleStream_read self (ts_readedSize self) n) Q"
proof -
  let ?r = "ts_readedSize self" and ?c = "contents (ts_diffStream self)"
  have st: "rok (ts_diffStream self)" using ok by (simp add: ts_ok_def)
  have e: "add64 ?r n = ?r + n" using n by (simp add: add64_eq)
  have unf: "TDiffToSingleStream_read self ?r n = rbind (sread (ts_diffStream self) ?r n) (\<lambda>(d, src).
        rbind (toSingle_cache (self\<lparr>ts_diffStream := src, ts_readedSize := ?r + n\<rparr>) d) (\<lambda>self. Ok (d, self)))"
    by (simp add: TDiffToSingleStream_read.simps [of self] e Let_def)
  show ?thesis unfolding unf
  proof (rule hoare_bindI, rule random_rule [OF st n], goal_cases)
    case (2 d src)
    from toSingle_cache_ok [OF ok refl, of n src] 2 obtain self' where
      "toSingle_cache (self\<lparr>ts_diffStream := src, ts_readedSize := ?r + n\<rparr>) (take n (drop ?r (contents src))) = Ok self'"
      "ts_ok self'" "ts_diffStream self' = src" "ts_readedSize self' = ?r + n"
      "ts_isInSingleStream self' = ts_isInSingleStream self"
      "\<not> ts_isInSingleStream self \<and> n \<le> kDiffToSingleBufSize \<longrightarrow>
         ts_window self' = min kDiffToSingleBufSize (ts_window self + n)"
      by auto
    then show ?case using 2 Q [of self'] by simp
  qed (use S in auto)
qed

lemma toSingle_read_rule:
  assumes ok: "ts_ok self" and p: "p \<le> ts_readedSize self" "ts_readedSize self \<le> p + ts_window self" and n: "p + n < 2 ^ 64"
    and S: "S \<Longrightarrow> p + n \<le> length (contents (ts_diffStream self))"
    and Q: "\<And>self'. ts_ok self' \<Longrightarrow> contents (ts_diffStream self') = contents (ts_diffStream self) \<Longrightarrow>
      p + n \<le> length (contents (ts_diffStream self)) \<Longrightarrow> ts_readedSize self' = max (ts_readedSize self) (p + n) \<Longrightarrow>
      Q (take n (drop p (contents (ts_diffStream self))), self')"
  shows "hoare S (TDiffToSingleStream_read self p n) Q"
proof (cases "p = ts_readedSize self")
  case True
  show ?thesis unfolding True
    by (rule toSingle_read_new [OF ok]) (use n S Q True in auto)
next
  case False
  let ?r = "ts_readedSize self" and ?c = "contents (ts_diffStream self)" and ?b = "kDiffToSingleBufSize - (ts_readedSize self - p)"
  let ?m = "min n (?r - p)"
  have h: "length (ts_buf self) = kDiffToSingleBufSize" "ts_cachedBufBegin self \<le> kDiffToSingleBufSize" "?r \<le> length ?c"
    "ts_window self \<le> ?r" "drop (ts_cachedBufBegin self) (ts_buf self) = take (ts_window self) (drop (?r - ts_window self) ?c)"
    using ok by (simp_all add: ts_ok_def)
  have w: "ts_window self = kDiffToSingleBufSize - ts_cachedBufBegin self" by (simp add: ts_window_def)
  have b: "ts_cachedBufBegin self \<le> ?b" using p w h(2) by arith
  have "drop ?b (ts_buf self) = drop (?b - ts_cachedBufBegin self) (drop (ts_cachedBufBegin self) (ts_buf self))"
    unfolding drop_drop le_add_diff_inverse2 [OF b] ..
  also have "\<dots> = take (?r - p) (drop p ?c)"
    unfolding h(5) drop_take drop_drop using p w h(2,4) by (simp add: algebra_simps)
  finally have buf: "take ?m (drop ?b (ts_buf self)) = take ?m (drop p ?c)" by (simp add: min_def)
  have rd: "mem_read (ts_buf self) ?b ?m = Ok (take ?m (drop p ?c))"
    using buf h(1) p w by (simp add: mem_read_def)
  have g: "p < ?r \<and> ?r - p \<le> kDiffToSingleBufSize - ts_cachedBufBegin self" using p False w by auto
  have m: "(if n > ?r - p then ?r - p else n) = ?m" by simp
  have unf: "TDiffToSingleStream_read self p n = (if ?m = n then Ok (take ?m (drop p ?c), self)
      else rbind (TDiffToSingleStream_read self (p + ?m) (n - ?m)) (\<lambda>(d', self). Ok (take ?m (drop p ?c) @ d', self)))"
    using False g by (subst TDiffToSingleStream_read.simps) (simp only: Let_def m rd rbind.simps if_True if_False refl simp_thms)
  show ?thesis
  proof (cases "n \<le> ?r - p")
    case True
    then show ?thesis unfolding unf using Q [OF ok refl] h(3) p by simp
  next
    case more: False
    have eq: "p + ?m = ?r" "n - ?m = n - (?r - p)" "?m \<noteq> n" using more p by auto
    have app: "take (?r - p) (drop p ?c) @ take (n - (?r - p)) (drop ?r ?c) = take n (drop p ?c)"
      using take_add [of "?r - p" "n - (?r - p)" "drop p ?c"] more p by simp
    show ?thesis unfolding unf eq if_not_P [OF eq(3)]
      by (rule hoare_bindI, rule toSingle_read_new [OF ok]) (use n S Q p more app in \<open>auto simp: min_def\<close>)
  qed
qed

end

section \<open>Properties\<close>

text \<open>C16: a read through \<open>TDiffToSingleStream\<close> that begins within its window, which may reach
  back over the bytes read last and go on past them, gives exactly the bytes of the diff at that
  place and keeps the window an exact copy of the diff; reading forwards with pieces of at most
  the size of the buffer makes the window grow to that size.\<close>

theorem toSingle_reads_window:
  assumes "mem_in.ts_ok self" "p \<le> ts_readedSize self" "ts_readedSize self \<le> p + mem_in.ts_window self"
    and "p + n \<le> length (streamImport (ts_diffStream self))"
  shows "\<exists>self'. TDiffToSingleStream_read self p n = Ok (take n (drop p (streamImport (ts_diffStream self))), self') \<and>
    mem_in.ts_ok self' \<and> streamImport (ts_diffStream self') = streamImport (ts_diffStream self) \<and>
    ts_readedSize self' = max (ts_readedSize self) (p + n) \<and>
    (p = ts_readedSize self \<and> \<not> ts_isInSingleStream self \<and> n \<le> kDiffToSingleBufSize \<longrightarrow>
       mem_in.ts_window self' = min kDiffToSingleBufSize (mem_in.ts_window self + n))"
proof -
  have st: "mem_in_ok (ts_diffStream self)" using assms(1) by (simp add: mem_in.ts_ok_def)
  have n: "p + n < 2 ^ 64" using assms(4) mem_in.contents_size [OF st] by simp
  show ?thesis
  proof (cases "p = ts_readedSize self")
    case True
    have "hoare True (TDiffToSingleStream_read self (ts_readedSize self) n) (\<lambda>(d, self').
        d = take n (drop p (streamImport (ts_diffStream self))) \<and> mem_in.ts_ok self' \<and>
        streamImport (ts_diffStream self') = streamImport (ts_diffStream self) \<and>
        ts_readedSize self' = max (ts_readedSize self) (p + n) \<and>
        (\<not> ts_isInSingleStream self \<and> n \<le> kDiffToSingleBufSize \<longrightarrow>
          mem_in.ts_window self' = min kDiffToSingleBufSize (mem_in.ts_window self + n)))"
      by (rule mem_in.toSingle_read_new [OF assms(1)]) (use assms n True in auto)
    from hoare_success [OF this TrueI] show ?thesis unfolding True [symmetric] by auto
  next
    case False
    have "hoare True (TDiffToSingleStream_read self p n) (\<lambda>(d, self').
        d = take n (drop p (streamImport (ts_diffStream self))) \<and> mem_in.ts_ok self' \<and>
        streamImport (ts_diffStream self') = streamImport (ts_diffStream self) \<and>
        ts_readedSize self' = max (ts_readedSize self) (p + n))"
      by (rule mem_in.toSingle_read_rule [OF assms(1-3) n]) (use assms in auto)
    from hoare_success [OF this TrueI] show ?thesis using False by auto
  qed
qed

lemma toSingle_init_ok: "length d < 2 ^ 64 \<Longrightarrow> mem_in.ts_ok (streamImport (TDiffToSingleStream_init (mem_as_hStreamInput d)))"
  by (simp add: mem_in.ts_ok_def TDiffToSingleStream_init_def mem_in.ts_window_def new_cache_def)

text \<open>The first three bytes of a new adaptor.\<close>

theorem toSingle_reads_window_witness:
  "\<exists>self'. TDiffToSingleStream_read (streamImport (TDiffToSingleStream_init (mem_as_hStreamInput [1, 2, 3, 4, 5]))) 0 3
     = Ok ([1, 2, 3], self')"
  using toSingle_reads_window [OF toSingle_init_ok, of "[1, 2, 3, 4, 5]" 0 3]
  by (auto simp: TDiffToSingleStream_init_def mem_as_hStreamInput_def)

text \<open>C17: \<open>getSingleCompressedDiffInfo\<close> reads exactly the head of the format from the given
  position, for every (also malformed) diff, never leaves a buffer, and refuses a head whose
  step memory is over its limits.\<close>

theorem getSingle_reads_head:
  assumes "length d < 2 ^ 64" "p \<le> length d"
  shows "rbind (getSingleCompressedDiffInfo (mem_as_hStreamInput d) p) (\<lambda>(info, _). Ok info) = parse_single (drop p d) \<and>
    (\<forall>info. parse_single (drop p d) = Ok info \<longrightarrow>
       si_compressedSize info \<le> si_uncompressedSize info \<and> si_stepMemSize info \<le> si_uncompressedSize info \<and>
       si_stepMemSize info \<le> max (si_newDataSize info) (2 ^ 24) \<and> p + si_diffDataPos info \<le> length d)"
proof
  have sz: "streamImport (mem_as_hStreamInput d) = d" by (simp add: mem_as_hStreamInput_def)
  show "rbind (getSingleCompressedDiffInfo (mem_as_hStreamInput d) p) (\<lambda>(info, _). Ok info) = parse_single (drop p d)"
    using mem_in.getSingle_parses [of "mem_as_hStreamInput d" p] assms by (simp add: sz)
  show "\<forall>info. parse_single (drop p d) = Ok info \<longrightarrow>
       si_compressedSize info \<le> si_uncompressedSize info \<and> si_stepMemSize info \<le> si_uncompressedSize info \<and>
       si_stepMemSize info \<le> max (si_newDataSize info) (2 ^ 24) \<and> p + si_diffDataPos info \<le> length d"
    using assms(2) unfolding parse_single_def
    by (auto simp: rbind_eq_Ok check_def kStepMemSizeSafeLimit_def split: if_splits)
qed

theorem getSingle_reads_head_witness:
  "rbind (getSingleCompressedDiffInfo (mem_as_hStreamInput (9 # kSingleVersionType @ [0x26, 0, 5, 6, 1, 2, 4, 3, 0xAA])) 1) (\<lambda>(info, _). Ok info)
   = Ok \<lparr>si_newDataSize = 5, si_oldDataSize = 6, si_uncompressedSize = 4, si_compressedSize = 3, si_diffDataPos = 17,
       si_coverCount = 1, si_stepMemSize = 2, si_compressType = []\<rparr>"
proof -
  have "parse_single (kSingleVersionType @ [0x26, 0, 5, 6, 1, 2, 4, 3, 0xAA])
   = Ok \<lparr>si_newDataSize = 5, si_oldDataSize = 6, si_uncompressedSize = 4, si_compressedSize = 3, si_diffDataPos = 17,
       si_coverCount = 1, si_stepMemSize = 2, si_compressType = []\<rparr>"
    by (simp add: parse_single_def read_str_def c_str_def kSingleVersionType_def hpatch_kMaxPluginTypeLength_def
        unpack_by_small kStepMemSizeSafeLimit_def)
  then show ?thesis
    using getSingle_reads_head [THEN conjunct1, of "9 # kSingleVersionType @ [0x26, 0, 5, 6, 1, 2, 4, 3, 0xAA]" 1]
    by (simp add: kSingleVersionType_def)
qed

end
