(* ===== verification/PackVec.thy ===== *)
theory PackVec
  imports DiffSpec Streams
begin

text \<open>
  \<open>pack_uint.h\<close> of \<open>libHDiffPatch/HDiff/private_diff\<close>: what the creating side appends to its
  vectors.  A vector of bytes is a list; a C++ exception is \<open>Fail\<close>.
\<close>

section \<open>The code\<close>

definition packUIntWithTag :: "byte list \<Rightarrow> nat \<Rightarrow> nat \<Rightarrow> nat \<Rightarrow> byte list res" where
  "packUIntWithTag out_code uValue highTag kTagBit =
     rbind (hpatch_packUIntWithTag hpatch_kMaxPackedUIntBytes uValue highTag kTagBit) (\<lambda>codeBuf.
     Ok (out_code @ codeBuf))"

definition packUInt :: "byte list \<Rightarrow> nat \<Rightarrow> byte list res" where
  "packUInt out_code uValue = packUIntWithTag out_code uValue 0 0"

definition pushBack :: "byte list \<Rightarrow> byte list \<Rightarrow> byte list" where
  "pushBack out_buf data = out_buf @ data"

text \<open>\<open>pushUInt\<close> for a type of \<open>size\<close> bytes.\<close>

fun pushUInt :: "nat \<Rightarrow> byte list \<Rightarrow> nat \<Rightarrow> byte list" where
  "pushUInt 0 out_buf v = out_buf"
| "pushUInt (Suc n) out_buf v = pushUInt n (out_buf @ [of_nat v]) (drop_bit 8 v)"

text \<open>A C string ends before its first zero byte.\<close>

definition pushCStr :: "byte list \<Rightarrow> byte list \<Rightarrow> byte list" where
  "pushCStr out_buf cstr = out_buf @ takeWhile (\<lambda>b. b \<noteq> 0) cstr"

text \<open>
  \<open>packUInt_fixSize\<close>: a number in exactly \<open>n\<close> bytes, filled from the last one.
\<close>

fun fixSize_loop :: "nat \<Rightarrow> nat \<Rightarrow> byte list \<Rightarrow> byte list \<times> nat" where
  "fixSize_loop 0 uValue code = (code, uValue)"
| "fixSize_loop (Suc n) uValue code =
     fixSize_loop n (drop_bit 7 uValue) (of_nat ((uValue AND (2 ^ 7 - 1)) OR 2 ^ 7) # code)"

definition packUInt_fixSize :: "nat \<Rightarrow> nat \<Rightarrow> byte list res" where
  "packUInt_fixSize n uValue =
     rbind (check (\<not> n = 0)) (\<lambda>_.
     case fixSize_loop (n - 1) (drop_bit 7 uValue) [of_nat (uValue AND (2 ^ 7 - 1))] of
       (code, uValue) \<Rightarrow> rbind (check (\<not> uValue \<noteq> 0)) (\<lambda>_. Ok code))"

section \<open>What a packed number is\<close>

definition pack_code :: "nat \<Rightarrow> nat \<Rightarrow> nat \<Rightarrow> byte list" where
  "pack_code v tag t = (case hpatch_packUIntWithTag hpatch_kMaxPackedUIntBytes v tag t of Ok c \<Rightarrow> c | _ \<Rightarrow> [])"

lemma pack_code:
  assumes "v < 2 ^ 64" "tag < 2 ^ t" "t \<le> 7"
  shows "hpatch_packUIntWithTag hpatch_kMaxPackedUIntBytes v tag t = Ok (pack_code v tag t)"
    and "packed_as (pack_code v tag t) v tag t" and "length (pack_code v tag t) \<le> 11"
  using packUIntWithTag_result [OF assms, of hpatch_kMaxPackedUIntBytes]
  by (auto simp: pack_code_def hpatch_kMaxPackedUIntBytes_def)

lemma packUIntWithTag_eq:
  "v < 2 ^ 64 \<Longrightarrow> tag < 2 ^ t \<Longrightarrow> t \<le> 7 \<Longrightarrow> packUIntWithTag out v tag t = Ok (out @ pack_code v tag t)"
  by (simp add: packUIntWithTag_def pack_code(1))

lemma packUInt_eq: "v < 2 ^ 64 \<Longrightarrow> packUInt out v = Ok (out @ pack_code v 0 0)"
  by (simp add: packUInt_def packUIntWithTag_eq)

lemma length_pack_code:
  "v < 2 ^ 64 \<Longrightarrow> tag < 2 ^ t \<Longrightarrow> t \<le> 7 \<Longrightarrow> length (pack_code v tag t) = hpatch_packUIntWithTag_size v t"
  using pack_code(2) by (simp add: packed_as_def)

lemma pack_code_not_Nil: "v < 2 ^ 64 \<Longrightarrow> tag < 2 ^ t \<Longrightarrow> t \<le> 7 \<Longrightarrow> pack_code v tag t \<noteq> []"
  using pack_code(2) by (simp add: packed_as_def)

text \<open>Every decoder of the formats reads it back.\<close>

lemma unpack_pack_code:
  assumes "v < 2 ^ 64" "tag < 2 ^ t" "t \<le> 7"
  shows "unpack_by e (pack_code v tag t @ r) t = Ok (v, r)"
proof -
  let ?c = "pack_code v tag t"
  have p: "hpatch_unpackUIntWithTag (?c @ q) t = Ok (v, q)" for q
    using pack_code(2) [OF assms] by (simp add: packed_as_def)
  have "take hpatch_kMaxPackedUIntBytes (?c @ r) = ?c @ take (hpatch_kMaxPackedUIntBytes - length ?c) r"
    "drop hpatch_kMaxPackedUIntBytes (?c @ r) = drop (hpatch_kMaxPackedUIntBytes - length ?c) r"
    using pack_code(3) [OF assms] by (simp_all add: hpatch_kMaxPackedUIntBytes_def)
  then show ?thesis by (simp add: unpack_by_def p del: take_append drop_append)
qed

lemma unpack_pack_code_0: "v < 2 ^ 64 \<Longrightarrow> hpatch_unpackUInt (pack_code v 0 0 @ r) = Ok (v, r)"
  using unpack_pack_code [of v 0 0 Memory r] by (simp add: hpatch_unpackUInt_def)

lemma hd_pack_code:
  "v < 2 ^ 64 \<Longrightarrow> tag < 2 ^ t \<Longrightarrow> t \<le> 7 \<Longrightarrow> drop_bit (8 - t) (unat (hd (pack_code v tag t @ r))) = tag"
  using pack_code(2) [of v tag t] by (simp add: packed_as_def)

text \<open>A decoder that has read a number does not look further.\<close>

lemma unpack_groups_append: "unpack_groups v p = Ok (r, q) \<Longrightarrow> unpack_groups v (p @ x) = Ok (r, q @ x)"
proof (induction v p rule: unpack_groups.induct)
  case (1 v p)
  from "1.prems" obtain c p' where p: "p = c # p'" and top: "drop_bit 57 v = 0"
    by (cases p; cases "drop_bit 57 v = 0") (auto simp: unpack_groups.simps)
  let ?v = "take_bit 64 (push_bit 7 v) OR (unat c AND (2 ^ 7 - 1))"
  show ?case
  proof (cases "unat c AND 2 ^ 7 \<noteq> 0")
    case True
    have "unpack_groups ?v p' = Ok (r, q)" using "1.prems" p top True by (simp add: unpack_groups.simps [of v] Let_def)
    from "1.IH" [OF _ p refl True this] top have "unpack_groups ?v (p' @ x) = Ok (r, q @ x)" by simp
    then show ?thesis using p top True by (simp add: unpack_groups.simps [of v] Let_def)
  next
    case False
    then show ?thesis using "1.prems" p top by (simp add: unpack_groups.simps [of v] Let_def)
  qed
qed

lemma unpackUIntWithTag_append:
  "hpatch_unpackUIntWithTag p t = Ok (r, q) \<Longrightarrow> hpatch_unpackUIntWithTag (p @ x) t = Ok (r, q @ x)"
  by (cases p) (auto simp: hpatch_unpackUIntWithTag_def Let_def unpack_groups_append split: if_splits)

lemma unpack_by_append:
  assumes "unpack_by e p t = Ok (r, q)"
  shows "unpack_by e (p @ x) t = Ok (r, q @ x)"
proof (cases e)
  case Memory
  then show ?thesis using assms by (simp add: unpackUIntWithTag_append)
next
  case Streaming
  let ?k = hpatch_kMaxPackedUIntBytes
  from assms Streaming obtain q' where q: "hpatch_unpackUIntWithTag (take ?k p) t = Ok (r, q')" "q = q' @ drop ?k p"
    by (auto simp: unpack_by_def rbind_eq_Ok)
  have "take ?k (p @ x) = take ?k p @ take (?k - length p) x" "drop ?k (p @ x) = drop ?k p @ drop (?k - length p) x"
    by simp_all
  moreover have "drop ?k p = [] \<or> ?k - length p = 0" by auto
  ultimately show ?thesis using Streaming q unpackUIntWithTag_append [OF q(1), of "take (?k - length p) x"]
    by (auto simp: unpack_by_def)
qed

section \<open>Streams that are read once\<close>

text \<open>
  The creating side reads a stream from its beginning to its end.  \<open>sok st pos d\<close>: the stream is
  at \<open>pos\<close>, and \<open>d\<close> is what it still has.
\<close>

locale seq_stream =
  fixes sok :: "'s hpatch_TStreamInput \<Rightarrow> nat \<Rightarrow> byte list \<Rightarrow> bool"
  assumes seq_law: "sok st pos d \<Longrightarrow> 0 < len \<Longrightarrow> len \<le> length d \<Longrightarrow>
      \<exists>st'. sread st pos len = Ok (take len d, st') \<and> sok st' (pos + len) (drop len d) \<and> streamSize st' = streamSize st"
    and seq_size: "sok st pos d \<Longrightarrow> streamSize st = pos + length d \<and> streamSize st < 2 ^ 64"

sublocale input_stream \<subseteq> seq: seq_stream "\<lambda>st pos d. ok st \<and> d = avail st pos \<and> pos + length d = streamSize st"
proof
  fix st pos d and len :: nat
  assume st: "ok st \<and> d = avail st pos \<and> pos + length d = streamSize st" and len: "0 < len" "len \<le> length d"
  then have "hoare True (sread st pos len) (\<lambda>(x, st'). x = take len d \<and> ok st' \<and> streamSize st' = streamSize st \<and>
      avail st' (pos + len) = drop len d)"
    by (intro sread_rule) auto
  from hoare_success [OF this TrueI] show "\<exists>st'. sread st pos len = Ok (take len d, st') \<and>
      (ok st' \<and> drop len d = avail st' (pos + len) \<and> pos + len + length (drop len d) = streamSize st') \<and> streamSize st' = streamSize st"
    using st len by fastforce
qed (use size_law in auto)

text \<open>\<open>pushBack\<close> of a stream, in steps of \<open>hpatch_kStreamCacheSize*2\<close> bytes.\<close>

definition kPushStepSize :: nat where
  "kPushStepSize = 1024 * 4 * 2"

function pushBack_loop :: "byte list \<Rightarrow> 's hpatch_TStreamInput \<Rightarrow> nat \<Rightarrow> nat \<Rightarrow> (byte list \<times> 's hpatch_TStreamInput) res" where
  "pushBack_loop out_buf data sz curPos =
     (if curPos < sz then
        let len = (if curPos + kPushStepSize > sz then sz - curPos else kPushStepSize) in
        rbind (sread data curPos len) (\<lambda>(buf, data).
        pushBack_loop (pushBack out_buf buf) data sz (curPos + len))
      else Ok (out_buf, data))"
  by pat_completeness auto
termination
  by (relation "measure (\<lambda>(b, d, n, p). n - p)") (auto simp: kPushStepSize_def)

declare pushBack_loop.simps [simp del]

definition pushBack_stream :: "byte list \<Rightarrow> 's hpatch_TStreamInput \<Rightarrow> (byte list \<times> 's hpatch_TStreamInput) res" where
  "pushBack_stream out_buf data = pushBack_loop out_buf data (streamSize data) 0"

context seq_stream begin

lemma pushBack_loop_result:
  assumes "sok src pos d"
  shows "\<exists>src'. pushBack_loop out src (streamSize src) pos = Ok (out @ d, src') \<and> sok src' (streamSize src) [] \<and>
    streamSize src' = streamSize src"
  using assms
proof (induction "length d" arbitrary: out src pos d rule: less_induct)
  case less
  define n where "n = streamSize src"
  have n: "n = pos + length d" using seq_size [OF less.prems] by (simp add: n_def)
  show ?case unfolding n_def [symmetric]
  proof (cases "d = []")
    case True
    then show "\<exists>src'. pushBack_loop out src n pos = Ok (out @ d, src') \<and> sok src' n [] \<and> streamSize src' = n"
      using less.prems n by (simp add: pushBack_loop.simps [of out] n_def)
  next
    case False
    then have "pos < n" using n by simp
    define len where "len = (if pos + kPushStepSize > n then n - pos else kPushStepSize)"
    have len: "0 < len" "len \<le> length d" using False n by (auto simp: len_def kPushStepSize_def)
    obtain st' where st: "sread src pos len = Ok (take len d, st')" "sok st' (pos + len) (drop len d)" "streamSize st' = n"
      using seq_law [OF less.prems len] by (auto simp: n_def)
    have "length (drop len d) < length d" using len by simp
    from less.hyps [OF this st(2), of "out @ take len d"] obtain src' where
      "pushBack_loop (out @ take len d) st' n (pos + len) = Ok (out @ d, src')" "sok src' n []" "streamSize src' = n"
      unfolding st(3) by auto
    then show "\<exists>src'. pushBack_loop out src n pos = Ok (out @ d, src') \<and> sok src' n [] \<and> streamSize src' = n"
      using st(1) \<open>pos < n\<close> by (simp add: pushBack_loop.simps [of out] Let_def len_def [symmetric] pushBack_def)
  qed
qed

lemma pushBack_stream_result:
  "sok src 0 d \<Longrightarrow> \<exists>src'. pushBack_stream out src = Ok (out @ d, src') \<and> sok src' (streamSize src) [] \<and> streamSize src' = streamSize src"
  unfolding pushBack_stream_def by (rule pushBack_loop_result)

end

section \<open>Numbers of a fixed size\<close>

lemma fixSize_loop_value:
  "fixSize_loop n v code = (c, w) \<Longrightarrow> \<exists>gs. c = gs @ code \<and> length gs = n \<and> w = v div 128 ^ n \<and>
     (\<forall>g \<in> set gs. unat g AND 128 \<noteq> 0) \<and> groups_value 0 (map (\<lambda>b. b AND 127) gs) = v mod 128 ^ n"
proof (induction n arbitrary: v code c w)
  case (Suc n)
  let ?b = "of_nat ((v AND (2 ^ 7 - 1)) OR 2 ^ 7) :: byte"
  have or: "(v AND (2 ^ 7 - 1)) OR 2 ^ 7 = v mod 128 + 128"
    using or_shifted [of "v mod 128" 7 1] and_low_mask [of v 7] by (simp add: push_bit_eq_mult)
  have ub: "unat ?b = v mod 128 + 128" unfolding or by (rule unat_byte_of_nat) (use mod_less_divisor [of 128 v] in linarith)
  have uand: "unat (?b AND 127) = v mod 128"
  proof -
    have "unat (?b AND 127) = unat ?b AND 127" by (simp add: unsigned_and_eq)
    also have "\<dots> = (v mod 128 + 128) mod 128" unfolding ub and_127 ..
    finally show ?thesis by simp
  qed
  have bit7: "unat ?b AND 128 \<noteq> 0"
  proof -
    have "(v mod 128 + 128) div 128 = 1" by simp
    then show ?thesis using bit_test [of "unat ?b" 7] unfolding ub by simp
  qed
  from Suc.IH Suc.prems obtain gs where gs: "c = gs @ ?b # code" "length gs = n" "w = v div 128 div 128 ^ n"
      "\<forall>g \<in> set gs. unat g AND 128 \<noteq> 0" "groups_value 0 (map (\<lambda>b. b AND 127) gs) = v div 128 mod 128 ^ n"
    by (fastforce simp: drop_bit_eq_div)
  have "v div 128 mod 128 ^ n * 128 + v mod 128 = v mod 128 ^ Suc n"
    by (simp add: mod_mult2_eq)
  moreover have "w = v div 128 ^ Suc n" using gs(3) by (simp add: div_mult2_eq)
  ultimately show ?case using gs uand bit7 by (intro exI [of _ "gs @ [?b]"]) (auto simp del: of_nat_or_eq)
qed (auto simp: groups_value_def)


lemma unpack_marked_groups:
  assumes "\<forall>g \<in> set gs. unat g AND 128 \<noteq> 0" "unat b < 128" "groups_value v (map (\<lambda>b. b AND 127) gs @ [b]) < 2 ^ 64"
  shows "unpack_groups v (gs @ b # rest) = Ok (groups_value v (map (\<lambda>b. b AND 127) gs @ [b]), rest)"
  using assms
proof (induction gs arbitrary: v)
  case Nil
  then have "v < 2 ^ 57" by simp
  then have top: "drop_bit 57 v = 0" by (simp add: drop_bit_eq_div)
  have "unat b AND 128 = 0" using Nil.prems(2) bit_test [of "unat b" 7] by simp
  then show ?case using shift_in_group [OF top, of "unat b"] top Nil.prems(2) by (simp add: unpack_groups.simps [of v] Let_def)
next
  case (Cons g gs)
  let ?g = "unat (g AND 127)"
  have g: "?g = unat g mod 128"
  proof -
    have "?g = unat g AND 127" by (simp add: unsigned_and_eq)
    then show ?thesis by (simp add: and_127)
  qed
  have big: "v * 128 + ?g < 2 ^ 64"
  proof -
    let ?gs = "map (\<lambda>b. b AND 127) gs @ [b]"
    have "(v * 128 + ?g) * 1 \<le> (v * 128 + ?g) * 128 ^ length ?gs" by (rule mult_le_mono2) simp
    also have "\<dots> \<le> groups_value (v * 128 + ?g) ?gs" by (rule groups_value_ge)
    also have "\<dots> < 2 ^ 64" using Cons.prems(3) by simp
    finally show ?thesis by simp
  qed
  then have "v < 2 ^ 57" by simp
  then have top: "drop_bit 57 v = 0" by (simp add: drop_bit_eq_div)
  have "unpack_groups (v * 128 + ?g) (gs @ b # rest) = Ok (groups_value (v * 128 + ?g) (map (\<lambda>b. b AND 127) gs @ [b]), rest)"
    by (rule Cons.IH) (use Cons.prems in simp_all)
  then show ?case using shift_in_group [OF top, of "unat g"] top Cons.prems(1)
    by (simp add: unpack_groups.simps [of v] Let_def g)
qed

text \<open>A number that fits takes exactly the size asked for, and any decoder of memory reads it back.\<close>

lemma packUInt_fixSize_result:
  assumes "v < 2 ^ 64"
  shows "packUInt_fixSize n v = Fail \<and> (n = 0 \<or> 128 ^ n \<le> v) \<or>
    (\<exists>c. packUInt_fixSize n v = Ok c \<and> 0 < n \<and> length c = n \<and> v < 128 ^ n \<and> (\<forall>rest. hpatch_unpackUInt (c @ rest) = Ok (v, rest)))"
proof (cases n)
  case 0
  then show ?thesis by (simp add: packUInt_fixSize_def)
next
  case (Suc m)
  let ?b = "of_nat (v AND (2 ^ 7 - 1)) :: byte"
  have and127: "v AND (2 ^ 7 - 1) = v mod 128" using and_low_mask [of v 7] by simp
  have ub: "unat ?b = v mod 128" unfolding and127 by (rule unat_byte_of_nat) (use mod_less_divisor [of 128 v] in linarith)
  obtain c w where l: "fixSize_loop m (drop_bit 7 v) [?b] = (c, w)" by fastforce
  from fixSize_loop_value [OF this] obtain gs where gs: "c = gs @ [?b]" "length gs = m" "w = v div 128 div 128 ^ m"
      "\<forall>g \<in> set gs. unat g AND 128 \<noteq> 0" "groups_value 0 (map (\<lambda>b. b AND 127) gs) = v div 128 mod 128 ^ m"
    by (auto simp: drop_bit_eq_div)
  have w: "w = v div 128 ^ n" using gs(3) Suc by (simp add: div_mult2_eq)
  have res: "packUInt_fixSize n v = (if w = 0 then Ok c else Fail)"
    unfolding packUInt_fixSize_def Suc diff_Suc_1 l by (simp add: check_def)
  show ?thesis
  proof (cases "w = 0")
    case True
    then have v: "v < 128 ^ n" unfolding w by (simp add: div_eq_0_iff)
    have "v div 128 mod 128 ^ m = v div 128" using v Suc by (simp add: less_mult_imp_div_less mult.commute)
    then have val: "groups_value 0 (map (\<lambda>b. b AND 127) gs @ [?b]) = v" using gs(5) ub by simp
    have "hpatch_unpackUInt (c @ rest) = Ok (v, rest)" for rest
    proof (cases gs)
      case Nil
      have "unat ?b AND 128 = 0" using ub bit_test [of "unat ?b" 7] by simp
      then show ?thesis using Nil gs(1) val ub by (simp add: hpatch_unpackUInt_def hpatch_unpackUIntWithTag_def Let_def and127 and_127)
    next
      case (Cons g gs')
      have "unat (g AND 127) = unat g mod 128"
      proof -
        have "unat (g AND 127) = unat g AND 127" by (simp add: unsigned_and_eq)
        then show ?thesis by (simp add: and_127)
      qed
      then have "groups_value (unat g mod 128) (map (\<lambda>b. b AND 127) gs' @ [?b]) = v" using val Cons by simp
      moreover have "unat ?b < 128" using ub by simp
      ultimately have "unpack_groups (unat g mod 128) (gs' @ ?b # rest) = Ok (v, rest)"
        using unpack_marked_groups [of gs' ?b "unat g mod 128" rest] gs(4) Cons assms by simp
      then show ?thesis using Cons gs(1,4) by (simp add: hpatch_unpackUInt_def hpatch_unpackUIntWithTag_def Let_def and_127)
    qed
    then show ?thesis using res True v gs(1,2) Suc by auto
  next
    case False
    then have "128 ^ n \<le> v" unfolding w by (metis div_less not_less)
    then show ?thesis using res False by simp
  qed
qed

section \<open>Properties\<close>

text \<open>C21: a number written into a placeholder of \<open>n\<close> bytes takes exactly \<open>n\<close> bytes and is
  read back; writing it fails exactly when \<open>n\<close> groups of seven bits cannot hold it.\<close>

theorem packUInt_fixSize_roundtrip:
  assumes "v < 2 ^ 64"
  shows "(packUInt_fixSize n v = Fail \<longleftrightarrow> n = 0 \<or> 128 ^ n \<le> v) \<and>
    (\<forall>c rest. packUInt_fixSize n v = Ok c \<longrightarrow> length c = n \<and> hpatch_unpackUInt (c @ rest) = Ok (v, rest))"
  using packUInt_fixSize_result [OF assms, of n] by (auto simp: leD)

theorem packUInt_fixSize_roundtrip_witness:
  "packUInt_fixSize 3 300 = Ok [0x80, 0x82, 0x2C] \<and> hpatch_unpackUInt [0x80, 0x82, 0x2C, 9] = Ok (300, [9])"
proof -
  have "packUInt_fixSize 3 300 = Ok [0x80, 0x82, 0x2C]"
  proof -
    have "fixSize_loop (Suc (Suc 0)) 2 [44] = ([0x80, 0x82, 0x2C], 0)" by (simp add: drop_bit_eq_div del: One_nat_def)
    then show ?thesis by (simp add: packUInt_fixSize_def drop_bit_eq_div numeral_2_eq_2 [symmetric])
  qed
  then show ?thesis using packUInt_fixSize_roundtrip [of 300 3] by simp
qed

end
