(* ===== verification/BytesRle.thy ===== *)
theory BytesRle
  imports PackVec
begin

text \<open>
  \<open>bytes_rle.cpp\<close>: the run-length coders of the creating side.  \<open>TStreamRLE\<close> writes the control
  and code sections that \<open>_bytesRle_load\<close> and \<open>_TBytesRle_load_stream\<close> read;
  \<open>TSingleStreamRLE0\<close> (theory \<open>BytesRle0\<close>) the code of the zero-run decoder.
\<close>

section \<open>The code\<close>

definition kMaxBytesRleLen :: nat where
  "kMaxBytesRleLen = 2 ^ 31 - 1"

fun rle_type_code :: "TByteRleType \<Rightarrow> nat" where
  "rle_type_code kByteRleType_rle0 = 0"
| "rle_type_code kByteRleType_rle255 = 1"
| "rle_type_code kByteRleType_rle = 2"
| "rle_type_code kByteRleType_unrle = 3"

text \<open>\<open>rle_pushSame\<close> on the control and code vectors.\<close>

function rle_pushSame :: "byte list \<times> byte list \<Rightarrow> byte \<Rightarrow> nat \<Rightarrow> (byte list \<times> byte list) res" where
  "rle_pushSame out cur count =
     rbind (require (count > 0)) (\<lambda>_.
     if count > kMaxBytesRleLen then
       rbind (rle_pushSame out cur kMaxBytesRleLen) (\<lambda>out. rle_pushSame out cur (count - kMaxBytesRleLen))
     else
       let (out_ctrl, out_code) = out;
           type = (if cur = 0 then kByteRleType_rle0 else if cur = 255 then kByteRleType_rle255 else kByteRleType_rle);
           packCount = count - 1
       in rbind (packUIntWithTag out_ctrl packCount (rle_type_code type) kByteRleType_bit) (\<lambda>out_ctrl.
          Ok (out_ctrl, if type = kByteRleType_rle then out_code @ [cur] else out_code)))"
  by pat_completeness auto
termination
  by (relation "measure (\<lambda>(out, cur, n). n)") (auto simp: kMaxBytesRleLen_def)

declare rle_pushSame.simps [simp del]

definition rle_pushNotSameCtrl :: "byte list \<Rightarrow> nat \<Rightarrow> byte list res" where
  "rle_pushNotSameCtrl out_ctrl count =
     packUIntWithTag out_ctrl (count - 1) (rle_type_code kByteRleType_unrle) kByteRleType_bit"

record TStreamRLE =
  rl_ctrlBuf :: "byte list"
  rl_codeBuf :: "byte list"
  rl_sameCur :: byte
  rl_sameCount :: nat
  rl_notSameCount :: nat
  rl_minSameSize :: nat

definition kRle_bestSize :: nat where "kRle_bestSize = 1"
definition kRle_default :: nat where "kRle_default = 3"
definition kRle_bestUnRleSpeed :: nat where "kRle_bestUnRleSpeed = 32"

definition TStreamRLE_init :: "byte list \<Rightarrow> byte list \<Rightarrow> nat \<Rightarrow> TStreamRLE res" where
  "TStreamRLE_init ctrlBuf codeBuf rle_parameter =
     rbind (require (kRle_bestSize \<le> rle_parameter \<and> rle_parameter \<le> kRle_bestUnRleSpeed)) (\<lambda>_.
     Ok \<lparr>rl_ctrlBuf = ctrlBuf, rl_codeBuf = codeBuf, rl_sameCur = 0, rl_sameCount = 0, rl_notSameCount = 0,
         rl_minSameSize = rle_parameter + 1\<rparr>)"

text \<open>A single pending byte leaves the code vector again and becomes a run of one.\<close>

definition endNoSame :: "TStreamRLE \<Rightarrow> TStreamRLE res" where
  "endNoSame self =
     (if rl_notSameCount self > 1 then
        rbind (rle_pushNotSameCtrl (rl_ctrlBuf self) (rl_notSameCount self)) (\<lambda>ctrl.
        Ok (self\<lparr>rl_ctrlBuf := ctrl, rl_notSameCount := 0\<rparr>))
      else if rl_notSameCount self = 1 then
        rbind (require (rl_codeBuf self \<noteq> [])) (\<lambda>_.
        rbind (rle_pushSame (rl_ctrlBuf self, butlast (rl_codeBuf self)) (last (rl_codeBuf self)) 1) (\<lambda>(ctrl, code).
        Ok (self\<lparr>rl_ctrlBuf := ctrl, rl_codeBuf := code, rl_notSameCount := 0\<rparr>)))
      else Ok self)"

text \<open>\<open>sign\<close> is one for the bytes 0 and 255, whose runs need no byte in the code vector; the loop
  \<open>while (sameCount--)\<close> leaves the counter below zero.\<close>

definition endSame :: "TStreamRLE \<Rightarrow> TStreamRLE res" where
  "endSame self =
     (let sign = drop_bit 63 (sub64 253 (unat (rl_sameCur self - 1))) in
      if rl_sameCount self + sign > rl_minSameSize self then
        rbind (endNoSame self) (\<lambda>self.
        rbind (rle_pushSame (rl_ctrlBuf self, rl_codeBuf self) (rl_sameCur self) (rl_sameCount self)) (\<lambda>(ctrl, code).
        Ok (self\<lparr>rl_ctrlBuf := ctrl, rl_codeBuf := code, rl_sameCount := 0\<rparr>)))
      else
        Ok (self\<lparr>rl_notSameCount := rl_notSameCount self + rl_sameCount self,
                 rl_codeBuf := rl_codeBuf self @ replicate (rl_sameCount self) (rl_sameCur self),
                 rl_sameCount := 2 ^ 64 - 1\<rparr>))"

fun rle_append_loop :: "TStreamRLE \<Rightarrow> byte list \<Rightarrow> TStreamRLE res" where
  "rle_append_loop self [] = Ok self"
| "rle_append_loop self (cur # appendData) =
     (if cur = rl_sameCur self then rle_append_loop (self\<lparr>rl_sameCount := rl_sameCount self + 1\<rparr>) appendData
      else rbind (endSame self) (\<lambda>self.
           rle_append_loop (self\<lparr>rl_sameCur := cur, rl_sameCount := 1\<rparr>) appendData))"

definition rle_append :: "TStreamRLE \<Rightarrow> byte list \<Rightarrow> TStreamRLE res" where
  "rle_append self appendData =
     (if rl_sameCount self = 0 then
        case appendData of [] \<Rightarrow> Ok self
        | cur # appendData \<Rightarrow> rle_append_loop (self\<lparr>rl_sameCur := cur, rl_sameCount := 1\<rparr>) appendData
      else rle_append_loop self appendData)"

definition finishAppend :: "TStreamRLE \<Rightarrow> TStreamRLE res" where
  "finishAppend self = rbind (endSame self) endNoSame"

text \<open>\<open>bytesRLE_save\<close> of memory and of a stream that is read in steps of \<open>kStepSize\<close> bytes.\<close>

definition bytesRLE_save_mem :: "byte list \<Rightarrow> byte list \<Rightarrow> byte list \<Rightarrow> nat \<Rightarrow> (byte list \<times> byte list) res" where
  "bytesRLE_save_mem out_ctrlBuf out_codeBuf src rle_parameter =
     rbind (TStreamRLE_init out_ctrlBuf out_codeBuf rle_parameter) (\<lambda>rle.
     rbind (rle_append rle src) (\<lambda>rle.
     rbind (finishAppend rle) (\<lambda>rle. Ok (rl_ctrlBuf rle, rl_codeBuf rle))))"

definition kStepSize :: nat where "kStepSize = 1024 * 16"

function rle_append_stream ::
  "TStreamRLE \<Rightarrow> 's hpatch_TStreamInput \<Rightarrow> nat \<Rightarrow> nat \<Rightarrow> (TStreamRLE \<times> 's hpatch_TStreamInput) res" where
  "rle_append_stream rle src sz readPos =
     (if readPos < sz then
        let len = (if kStepSize + readPos > sz then sz - readPos else kStepSize) in
        rbind (sread src readPos len) (\<lambda>(buf, src).
        rbind (rle_append rle buf) (\<lambda>rle.
        rle_append_stream rle src sz (readPos + len)))
      else Ok (rle, src))"
  by pat_completeness auto
termination
  by (relation "measure (\<lambda>(rle, src, n, p). n - p)") (auto simp: kStepSize_def)

declare rle_append_stream.simps [simp del]

definition bytesRLE_save_stream ::
  "byte list \<Rightarrow> byte list \<Rightarrow> 's hpatch_TStreamInput \<Rightarrow> nat \<Rightarrow> (byte list \<times> byte list \<times> 's hpatch_TStreamInput) res" where
  "bytesRLE_save_stream out_ctrlBuf out_codeBuf src rle_parameter =
     rbind (TStreamRLE_init out_ctrlBuf out_codeBuf rle_parameter) (\<lambda>rle.
     rbind (rle_append_stream rle src (streamSize src) 0) (\<lambda>(rle, src).
     rbind (finishAppend rle) (\<lambda>rle. Ok (rl_ctrlBuf rle, rl_codeBuf rle, src))))"

text \<open>The two sections behind the size of the first, as a diff has them.\<close>

definition bytesRLE_save :: "byte list \<Rightarrow> byte list \<Rightarrow> nat \<Rightarrow> byte list res" where
  "bytesRLE_save out_code src rle_parameter =
     rbind (bytesRLE_save_mem [] [] src rle_parameter) (\<lambda>(ctrlBuf, codeBuf).
     rbind (packUInt out_code (length ctrlBuf)) (\<lambda>out_code.
     Ok (pushBack (pushBack out_code ctrlBuf) codeBuf)))"

definition bytesRLE_save_from ::
  "byte list \<Rightarrow> 's hpatch_TStreamInput \<Rightarrow> nat \<Rightarrow> (byte list \<times> 's hpatch_TStreamInput) res" where
  "bytesRLE_save_from out_code src rle_parameter =
     rbind (bytesRLE_save_stream [] [] src rle_parameter) (\<lambda>(ctrlBuf, codeBuf, src).
     rbind (packUInt out_code (length ctrlBuf)) (\<lambda>out_code.
     Ok (pushBack (pushBack out_code ctrlBuf) codeBuf, src)))"

section \<open>Composing run-length code\<close>

lemma rle_spec_append:
  "rle_spec e ctrl code = Some s \<Longrightarrow> rle_spec e c k = Some t \<Longrightarrow> rle_spec e (ctrl @ c) (code @ k) = Some (s @ t)"
proof (induction e ctrl code arbitrary: s rule: rle_spec.induct)
  case (1 e ctrl code)
  note second = 1(6)
  show ?case
  proof (cases "ctrl = []")
    case True
    then show ?thesis using 1(5,6) by (simp split: if_splits)
  next
    case False
    obtain len ctrl' where u: "unpack_by e ctrl kByteRleType_bit = Ok (len, ctrl')"
      using 1(5) False by (subst (asm) rle_spec.simps) (auto split: res.splits)
    have u2: "unpack_by e (ctrl @ c) kByteRleType_bit = Ok (len, ctrl' @ c)" by (rule unpack_by_append [OF u])
    have run: "rle_run e rest len d = Some s \<Longrightarrow> rle_run e rest2 len d = Some (s @ t)"
      if "\<And>r. rest = Some r \<Longrightarrow> rest2 = Some (r @ t)" for rest rest2 d
      using that by (cases rest) (auto simp: rle_run_def split: if_splits)
    note d = 1(5) False u
    show ?thesis
    proof (cases "rle_type (hd ctrl)")
      case kByteRleType_rle0
      from d have "rle_run e (rle_spec e ctrl' code) len (replicate (len + 1) 0) = Some s"
        by (subst (asm) rle_spec.simps) (simp add: kByteRleType_rle0)
      from run [OF 1(1) [OF False u refl kByteRleType_rle0 _ second] this]
      show ?thesis by (subst rle_spec.simps) (simp add: False u2 kByteRleType_rle0)
    next
      case kByteRleType_rle255
      from d have "rle_run e (rle_spec e ctrl' code) len (replicate (len + 1) 255) = Some s"
        by (subst (asm) rle_spec.simps) (simp add: kByteRleType_rle255)
      from run [OF 1(2) [OF False u refl kByteRleType_rle255 _ second] this]
      show ?thesis by (subst rle_spec.simps) (simp add: False u2 kByteRleType_rle255)
    next
      case kByteRleType_rle
      then obtain b code' where code: "code = b # code'"
        using d by (subst (asm) rle_spec.simps) (auto split: list.splits)
      from d code have "rle_run e (rle_spec e ctrl' code') len (replicate (len + 1) b) = Some s"
        by (subst (asm) rle_spec.simps) (simp add: kByteRleType_rle)
      from run [OF 1(3) [OF False u refl kByteRleType_rle code _ second] this]
      show ?thesis by (subst rle_spec.simps) (simp add: False u2 kByteRleType_rle code)
    next
      case kByteRleType_unrle
      define n where "n = (if e = Streaming then add64 len 1 else len + 1)"
      from d have n: "n \<le> length code" and r: "rle_run e (rle_spec e ctrl' (drop n code)) len (take n code) = Some s"
        by (subst (asm) rle_spec.simps, simp add: kByteRleType_unrle Let_def n_def split: if_splits)+
      from run [OF 1(4) [OF False u refl kByteRleType_unrle refl _ _ second, folded n_def] r] n
      have "rle_run e (rle_spec e (ctrl' @ c) (drop n code @ k)) len (take n code) = Some (s @ t)" by simp
      then show ?thesis using n by (subst rle_spec.simps) (simp add: False u2 kByteRleType_unrle Let_def n_def [symmetric])
    qed
  qed
qed


lemma rle_spec_one_run:
  assumes "n < 2 ^ 64 - 1" "type \<noteq> kByteRleType_unrle"
    and "cur = (case type of kByteRleType_rle0 \<Rightarrow> 0 | kByteRleType_rle255 \<Rightarrow> 255 | _ \<Rightarrow> cur)"
  shows "rle_spec e (pack_code n (rle_type_code type) 2) (if type = kByteRleType_rle then [cur] else []) = Some (replicate (n + 1) cur)"
proof -
  let ?c = "pack_code n (rle_type_code type) 2"
  have tag: "rle_type_code type < 2 ^ 2" by (cases type) simp_all
  have u: "unpack_by e ?c 2 = Ok (n, [])" using unpack_pack_code [of n _ 2 e "[]"] assms(1) tag by simp
  have ne: "?c \<noteq> []" using pack_code_not_Nil [of n _ 2] assms(1) tag by simp
  have "drop_bit 6 (unat (hd ?c)) = rle_type_code type" using hd_pack_code [of n _ 2 "[]"] assms(1) tag by simp
  then have ty: "rle_type (hd ?c) = type" by (cases type) (simp_all add: rle_type_def Let_def kByteRleType_bit_def)
  have run: "rle_run e (Some []) n d = Some d" for d using assms(1) by (simp add: rle_run_def)
  show ?thesis using assms(2,3) ty run ne u
    by (cases type; subst rle_spec.simps) (simp_all add: kByteRleType_bit_def)
qed

lemma rle_spec_unrle:
  assumes "length k = n + 1" "n < 2 ^ 64 - 1"
  shows "rle_spec e (pack_code n 3 2) k = Some k"
proof -
  let ?c = "pack_code n 3 2"
  have u: "unpack_by e ?c 2 = Ok (n, [])" using unpack_pack_code [of n 3 2 e "[]"] assms(2) by simp
  have ne: "?c \<noteq> []" using pack_code_not_Nil [of n 3 2] assms(2) by simp
  have "drop_bit 6 (unat (hd ?c)) = 3" using hd_pack_code [of n 3 2 "[]"] assms(2) by simp
  then have ty: "rle_type (hd ?c) = kByteRleType_unrle" by (simp add: rle_type_def Let_def kByteRleType_bit_def)
  have "add64 n 1 = n + 1" using assms(2) by (simp add: add64_eq)
  then show ?thesis using ty ne assms
    by (subst rle_spec.simps) (simp add: u kByteRleType_bit_def Let_def rle_run_def)
qed

lemma rle_pushSame_result:
  "0 < n \<Longrightarrow> \<exists>c k. rle_pushSame (ctrl, code) cur n = Ok (ctrl @ c, code @ k) \<and> (\<forall>e. rle_spec e c k = Some (replicate n cur)) \<and>
    length c \<le> 11 * n"
proof (induction n arbitrary: ctrl code rule: less_induct)
  case (less n)
  show ?case
  proof (cases "n > kMaxBytesRleLen")
    case True
    have m: "0 < kMaxBytesRleLen" by (simp add: kMaxBytesRleLen_def)
    obtain c k where 1: "rle_pushSame (ctrl, code) cur kMaxBytesRleLen = Ok (ctrl @ c, code @ k)"
        "\<forall>e. rle_spec e c k = Some (replicate kMaxBytesRleLen cur)" "length c \<le> 11 * kMaxBytesRleLen"
      using less.IH [OF True m] by blast
    obtain c' k' where 2: "rle_pushSame (ctrl @ c, code @ k) cur (n - kMaxBytesRleLen) = Ok ((ctrl @ c) @ c', (code @ k) @ k')"
        "\<forall>e. rle_spec e c' k' = Some (replicate (n - kMaxBytesRleLen) cur)" "length c' \<le> 11 * (n - kMaxBytesRleLen)"
      using less.IH [of "n - kMaxBytesRleLen" "ctrl @ c" "code @ k"] m True by auto
    have "replicate kMaxBytesRleLen cur @ replicate (n - kMaxBytesRleLen) cur = replicate n cur"
      using True by (simp add: replicate_add [symmetric])
    then have "rle_spec e (c @ c') (k @ k') = Some (replicate n cur)" for e
      using rle_spec_append 1(2) 2(2) by metis
    moreover have "length (c @ c') \<le> 11 * n" using 1(3) 2(3) True by simp
    ultimately show ?thesis using 1(1) 2(1) True less.prems by (subst rle_pushSame.simps) auto
  next
    case False
    let ?type = "if cur = 0 then kByteRleType_rle0 else if cur = 255 then kByteRleType_rle255 else kByteRleType_rle"
    have small: "n - 1 < 2 ^ 64 - 1" using False by (simp add: kMaxBytesRleLen_def)
    have tag: "rle_type_code ?type < 2 ^ 2" by simp
    have p: "packUIntWithTag ctrl (n - 1) (rle_type_code ?type) kByteRleType_bit
        = Ok (ctrl @ pack_code (n - 1) (rle_type_code ?type) 2)"
      unfolding kByteRleType_bit_def by (rule packUIntWithTag_eq) (use small tag in auto)
    have l: "length (pack_code (n - 1) (rle_type_code ?type) 2) \<le> 11 * n"
      using pack_code(3) [of "n - 1" "rle_type_code ?type" 2] small tag less.prems by simp
    have "rle_spec e (pack_code (n - 1) (rle_type_code ?type) 2) (if ?type = kByteRleType_rle then [cur] else [])
        = Some (replicate (n - 1 + 1) cur)" for e
      by (rule rle_spec_one_run [OF small]) (auto split: if_splits)
    then show ?thesis using False less.prems p l
      by (intro exI [of _ "pack_code (n - 1) (rle_type_code ?type) 2"] exI [of _ "if ?type = kByteRleType_rle then [cur] else []"])
        (subst rle_pushSame.simps, simp add: Let_def del: packUIntWithTag_def)
  qed
qed

text \<open>The bytes that a coder has taken and settled: all but the run it is counting.\<close>

definition rl_settled :: "TStreamRLE \<Rightarrow> byte list \<Rightarrow> bool" where
  "rl_settled self s \<longleftrightarrow>
     (\<exists>code pend t. rl_codeBuf self = code @ pend \<and> length pend = rl_notSameCount self \<and>
        (\<forall>e. rle_spec e (rl_ctrlBuf self) code = Some t) \<and> s = t @ pend \<and> length (rl_ctrlBuf self) \<le> 11 * length t)"

lemma rl_settled_update [simp]: "rl_settled (self\<lparr>rl_sameCur := c, rl_sameCount := n\<rparr>) s = rl_settled self s"
  by (simp add: rl_settled_def)

lemma endNoSame_result:
  assumes "rl_settled self s" "length s < 2 ^ 64"
  shows "\<exists>self'. endNoSame self = Ok self' \<and> rl_settled self' s \<and> rl_notSameCount self' = 0 \<and>
    rl_sameCur self' = rl_sameCur self \<and> rl_sameCount self' = rl_sameCount self \<and> rl_minSameSize self' = rl_minSameSize self"
proof -
  obtain code pend t where o: "rl_codeBuf self = code @ pend" "length pend = rl_notSameCount self"
      "\<forall>e. rle_spec e (rl_ctrlBuf self) code = Some t" "s = t @ pend" "length (rl_ctrlBuf self) \<le> 11 * length t"
    using assms(1) by (auto simp: rl_settled_def)
  consider "rl_notSameCount self = 0" | "rl_notSameCount self = 1" | "rl_notSameCount self > 1" by linarith
  then show ?thesis
  proof cases
    case 1
    then show ?thesis using assms(1) by (simp add: endNoSame_def)
  next
    case 2
    then obtain b where b: "pend = [b]" using o(2) by (metis One_nat_def length_0_conv length_Suc_conv)
    obtain c k where ps: "rle_pushSame (rl_ctrlBuf self, code) b 1 = Ok (rl_ctrlBuf self @ c, code @ k)"
        "\<forall>e. rle_spec e c k = Some (replicate 1 b)" "length c \<le> 11 * 1"
      using rle_pushSame_result [OF zero_less_one, of "rl_ctrlBuf self" code b] by blast
    have "rle_spec e (rl_ctrlBuf self @ c) (code @ k) = Some (t @ [b])" for e
      using rle_spec_append [of e _ code t c k "[b]"] o(3) ps(2) by simp
    then show ?thesis using 2 o(1,4,5) b ps(1,3) by (simp add: endNoSame_def rl_settled_def)
  next
    case 3
    let ?n = "rl_notSameCount self"
    have n: "?n - 1 < 2 ^ 64 - 1" using assms(2) o(2,4) 3 by simp
    have p: "rle_pushNotSameCtrl (rl_ctrlBuf self) ?n = Ok (rl_ctrlBuf self @ pack_code (?n - 1) 3 2)"
      unfolding rle_pushNotSameCtrl_def kByteRleType_bit_def by (simp, rule packUIntWithTag_eq) (use n in auto)
    have "rle_spec e (rl_ctrlBuf self @ pack_code (?n - 1) 3 2) (code @ pend) = Some (t @ pend)" for e
      using rle_spec_append [of e _ code t _ pend pend] o(3) rle_spec_unrle [of pend "?n - 1" e] o(2) 3 n by simp
    moreover have "length (pack_code (?n - 1) 3 2) \<le> 11 * length pend"
      using pack_code(3) [of "?n - 1" 3 2] n o(2) 3 by simp
    ultimately show ?thesis using 3 o p by (simp add: endNoSame_def rl_settled_def)
  qed
qed

lemma endSame_result:
  assumes "rl_settled self s" "length s < 2 ^ 64" "1 \<le> rl_minSameSize self"
  shows "\<exists>self'. endSame self = Ok self' \<and> rl_settled self' (s @ replicate (rl_sameCount self) (rl_sameCur self)) \<and>
    rl_minSameSize self' = rl_minSameSize self"
proof -
  define sign where "sign = drop_bit 63 (sub64 253 (unat (rl_sameCur self - 1)))"
  have sign: "sign \<le> 1"
  proof -
    have "sub64 253 (unat (rl_sameCur self - 1)) div 2 ^ 63 < 2"
      using sub64_less(1) [of 253 "unat (rl_sameCur self - 1)"] by (simp add: less_mult_imp_div_less)
    then show ?thesis by (simp add: sign_def drop_bit_eq_div)
  qed
  show ?thesis
  proof (cases "rl_sameCount self + sign > rl_minSameSize self")
    case True
    then have pos: "0 < rl_sameCount self" using sign assms(3) by linarith
    obtain r1 where r1: "endNoSame self = Ok r1" "rl_settled r1 s" "rl_notSameCount r1 = 0"
        "rl_sameCur r1 = rl_sameCur self" "rl_sameCount r1 = rl_sameCount self" "rl_minSameSize r1 = rl_minSameSize self"
      using endNoSame_result [OF assms(1,2)] by blast
    from r1(2,3) have sp: "\<forall>e. rle_spec e (rl_ctrlBuf r1) (rl_codeBuf r1) = Some s" "length (rl_ctrlBuf r1) \<le> 11 * length s"
      by (auto simp: rl_settled_def)
    obtain c k where ps: "rle_pushSame (rl_ctrlBuf r1, rl_codeBuf r1) (rl_sameCur self) (rl_sameCount self)
          = Ok (rl_ctrlBuf r1 @ c, rl_codeBuf r1 @ k)" "\<forall>e. rle_spec e c k = Some (replicate (rl_sameCount self) (rl_sameCur self))"
          "length c \<le> 11 * rl_sameCount self"
      using rle_pushSame_result [OF pos] by blast
    have "rle_spec e (rl_ctrlBuf r1 @ c) (rl_codeBuf r1 @ k) = Some (s @ replicate (rl_sameCount self) (rl_sameCur self))" for e
      by (rule rle_spec_append) (use sp ps(2) in auto)
    then show ?thesis using True r1 ps(1,3) sp(2) by (simp add: endSame_def Let_def sign_def [symmetric] rl_settled_def)
  next
    case False
    let ?r = "self\<lparr>rl_notSameCount := rl_notSameCount self + rl_sameCount self,
      rl_codeBuf := rl_codeBuf self @ replicate (rl_sameCount self) (rl_sameCur self), rl_sameCount := 2 ^ 64 - 1\<rparr>"
    obtain code pend t where o: "rl_codeBuf self = code @ pend" "length pend = rl_notSameCount self"
        "\<forall>e. rle_spec e (rl_ctrlBuf self) code = Some t" "s = t @ pend" "length (rl_ctrlBuf self) \<le> 11 * length t"
      using assms(1) unfolding rl_settled_def by blast
    have "rl_settled ?r (s @ replicate (rl_sameCount self) (rl_sameCur self))" unfolding rl_settled_def
      by (intro exI [of _ code] exI [of _ "pend @ replicate (rl_sameCount self) (rl_sameCur self)"] exI [of _ t])
        (use o in simp)
    moreover have "endSame self = Ok ?r" using False unfolding endSame_def Let_def sign_def [symmetric] by simp
    ultimately show ?thesis by simp
  qed
qed

text \<open>And the run it is counting.\<close>

definition rl_taken :: "TStreamRLE \<Rightarrow> byte list \<Rightarrow> bool" where
  "rl_taken self s \<longleftrightarrow>
     1 \<le> rl_minSameSize self \<and> (\<exists>t. rl_settled self t \<and> s = t @ replicate (rl_sameCount self) (rl_sameCur self))"

lemma rle_append_loop_result:
  "rl_taken self s \<Longrightarrow> 0 < rl_sameCount self \<Longrightarrow> length s + length d < 2 ^ 64 \<Longrightarrow>
   \<exists>self'. rle_append_loop self d = Ok self' \<and> rl_taken self' (s @ d) \<and> 0 < rl_sameCount self'"
proof (induction d arbitrary: self s)
  case (Cons cur d)
  from Cons.prems(1) obtain t where t: "1 \<le> rl_minSameSize self" "rl_settled self t"
      "s = t @ replicate (rl_sameCount self) (rl_sameCur self)" by (auto simp: rl_taken_def)
  show ?case
  proof (cases "cur = rl_sameCur self")
    case True
    have "rl_taken (self\<lparr>rl_sameCount := rl_sameCount self + 1\<rparr>) (s @ [cur])"
      using t True by (auto simp: rl_taken_def rl_settled_def replicate_append_same)
    from Cons.IH [OF this] Cons.prems(3) True show ?thesis by simp
  next
    case False
    have "length t < 2 ^ 64" using t(3) Cons.prems(3) by simp
    from endSame_result [OF t(2) this t(1)] obtain r where r: "endSame self = Ok r" "rl_settled r s" "rl_minSameSize r = rl_minSameSize self"
      using t(3) by auto
    have "rl_taken (r\<lparr>rl_sameCur := cur, rl_sameCount := 1\<rparr>) (s @ [cur])"
      using r t(1) by (auto simp: rl_taken_def rl_settled_def)
    from Cons.IH [OF this] Cons.prems(3) False r(1) show ?thesis by simp
  qed
qed simp

text \<open>A coder that has taken nothing counts no run.\<close>

definition rl_ok :: "TStreamRLE \<Rightarrow> byte list \<Rightarrow> bool" where
  "rl_ok self s \<longleftrightarrow> rl_taken self s \<and> (rl_sameCount self = 0 \<longrightarrow> s = [])"

lemma rle_append_result:
  assumes "rl_ok self s" "length s + length d < 2 ^ 64"
  shows "\<exists>self'. rle_append self d = Ok self' \<and> rl_ok self' (s @ d)"
proof (cases "rl_sameCount self = 0")
  case True
  then have s: "s = []" "rl_settled self []" "1 \<le> rl_minSameSize self"
    using assms(1) by (auto simp: rl_ok_def rl_taken_def)
  show ?thesis
  proof (cases d)
    case Nil
    then show ?thesis using assms(1) True by (simp add: rle_append_def)
  next
    case (Cons cur d')
    have "rl_settled (self\<lparr>rl_sameCur := cur, rl_sameCount := 1\<rparr>) []"
      using s(2) by simp
    then have "rl_taken (self\<lparr>rl_sameCur := cur, rl_sameCount := 1\<rparr>) [cur]"
      using s(3) by (auto simp: rl_taken_def)
    from rle_append_loop_result [OF this, of d'] Cons assms(2) s True show ?thesis
      by (auto simp: rle_append_def rl_ok_def)
  qed
next
  case False
  then show ?thesis using rle_append_loop_result [of self s d] assms by (auto simp: rle_append_def rl_ok_def)
qed

lemma finishAppend_result:
  assumes "rl_ok self s" "length s < 2 ^ 64"
  shows "\<exists>self'. finishAppend self = Ok self' \<and> (\<forall>e. rle_spec e (rl_ctrlBuf self') (rl_codeBuf self') = Some s) \<and>
    length (rl_ctrlBuf self') \<le> 11 * length s"
proof -
  from assms(1) obtain t where t: "1 \<le> rl_minSameSize self" "rl_settled self t"
      "s = t @ replicate (rl_sameCount self) (rl_sameCur self)" by (auto simp: rl_ok_def rl_taken_def)
  have "length t < 2 ^ 64" using t(3) assms(2) by simp
  from endSame_result [OF t(2) this t(1)] obtain r where r: "endSame self = Ok r" "rl_settled r s" using t(3) by auto
  from endNoSame_result [OF r(2) assms(2)] obtain r' where "endNoSame r = Ok r'" "rl_settled r' s" "rl_notSameCount r' = 0" by blast
  then show ?thesis using r(1) by (auto simp: finishAppend_def rl_settled_def)
qed

lemma TStreamRLE_init_ok:
  "1 \<le> par \<Longrightarrow> par \<le> 32 \<Longrightarrow> \<exists>rle. TStreamRLE_init [] [] par = Ok rle \<and> rl_ok rle []"
  by (auto simp: TStreamRLE_init_def kRle_bestSize_def kRle_bestUnRleSpeed_def rl_ok_def rl_taken_def rl_settled_def)

lemma bytesRLE_save_mem_result:
  assumes "1 \<le> par" "par \<le> 32" "length src < 2 ^ 64"
  shows "\<exists>ctrl code. bytesRLE_save_mem [] [] src par = Ok (ctrl, code) \<and> (\<forall>e. rle_spec e ctrl code = Some src) \<and>
    length ctrl \<le> 11 * length src"
proof -
  obtain r where r: "TStreamRLE_init [] [] par = Ok r" "rl_ok r []" using TStreamRLE_init_ok [OF assms(1,2)] by blast
  obtain r1 where r1: "rle_append r src = Ok r1" "rl_ok r1 src" using rle_append_result [OF r(2), of src] assms(3) by auto
  obtain r2 where "finishAppend r1 = Ok r2" "\<forall>e. rle_spec e (rl_ctrlBuf r2) (rl_codeBuf r2) = Some src"
      "length (rl_ctrlBuf r2) \<le> 11 * length src"
    using finishAppend_result [OF r1(2) assms(3)] by blast
  then show ?thesis using r(1) r1(1) by (simp add: bytesRLE_save_mem_def)
qed

text \<open>Coding what a stream holds.\<close>

context seq_stream begin

lemma rle_append_stream_result:
  assumes "sok src pos d" "rl_ok rle s" "length s = pos"
  shows "\<exists>rle' src'. rle_append_stream rle src (streamSize src) pos = Ok (rle', src') \<and> rl_ok rle' (s @ d) \<and>
    sok src' (streamSize src) [] \<and> streamSize src' = streamSize src"
  using assms
proof (induction "length d" arbitrary: rle src pos s d rule: less_induct)
  case less
  define n where "n = streamSize src"
  have n: "n = pos + length d" "n < 2 ^ 64" using seq_size [OF less.prems(1)] by (simp_all add: n_def)
  show ?case unfolding n_def [symmetric]
  proof (cases "d = []")
    case True
    then show "\<exists>rle' src'. rle_append_stream rle src n pos = Ok (rle', src') \<and> rl_ok rle' (s @ d) \<and> sok src' n [] \<and> streamSize src' = n"
      using less.prems n by (simp add: rle_append_stream.simps [of rle] n_def)
  next
    case False
    then have "pos < n" using n by simp
    define len where "len = (if kStepSize + pos > n then n - pos else kStepSize)"
    have len: "0 < len" "len \<le> length d" using False n by (auto simp: len_def kStepSize_def)
    obtain st' where st: "sread src pos len = Ok (take len d, st')" "sok st' (pos + len) (drop len d)" "streamSize st' = n"
      using seq_law [OF less.prems(1) len] by (auto simp: n_def)
    have lens: "length s + length (take len d) < 2 ^ 64" using less.prems(3) len n by simp
    obtain r where r: "rle_append rle (take len d) = Ok r" "rl_ok r (s @ take len d)"
      using rle_append_result [OF less.prems(2) lens] by blast
    have shorter: "length (drop len d) < length d" "length (s @ take len d) = pos + len" using len less.prems(3) by simp_all
    from less.hyps [OF shorter(1) st(2) r(2) shorter(2)] obtain rle' src' where
      "rle_append_stream r st' n (pos + len) = Ok (rle', src')" "rl_ok rle' (s @ d)" "sok src' n []" "streamSize src' = n"
      unfolding st(3) by auto
    then show "\<exists>rle' src'. rle_append_stream rle src n pos = Ok (rle', src') \<and> rl_ok rle' (s @ d) \<and> sok src' n [] \<and> streamSize src' = n"
      using st(1) r(1) \<open>pos < n\<close> by (simp add: rle_append_stream.simps [of rle] Let_def len_def [symmetric])
  qed
qed

lemma bytesRLE_save_stream_result:
  assumes "1 \<le> par" "par \<le> 32" "sok src 0 d"
  shows "\<exists>ctrl code src'. bytesRLE_save_stream [] [] src par = Ok (ctrl, code, src') \<and> (\<forall>e. rle_spec e ctrl code = Some d) \<and>
    sok src' (streamSize src) [] \<and> length ctrl \<le> 11 * length d"
proof -
  obtain r where r: "TStreamRLE_init [] [] par = Ok r" "rl_ok r []" using TStreamRLE_init_ok [OF assms(1,2)] by blast
  obtain r1 src' where r1: "rle_append_stream r src (streamSize src) 0 = Ok (r1, src')" "rl_ok r1 d" "sok src' (streamSize src) []"
    using rle_append_stream_result [OF assms(3) r(2)] by auto
  have "length d < 2 ^ 64" using seq_size [OF assms(3)] by simp
  from finishAppend_result [OF r1(2) this] obtain r2 where
    "finishAppend r1 = Ok r2" "\<forall>e. rle_spec e (rl_ctrlBuf r2) (rl_codeBuf r2) = Some d" "length (rl_ctrlBuf r2) \<le> 11 * length d" by blast
  then show ?thesis using r(1) r1 by (simp add: bytesRLE_save_stream_def)
qed

text \<open>The sections as a diff holds them.\<close>

lemma bytesRLE_save_from_result:
  assumes "1 \<le> par" "par \<le> 32" "sok src 0 d" and small: "11 * length d < 2 ^ 64"
  shows "\<exists>c src'. bytesRLE_save_from out src par = Ok (out @ c, src') \<and> (\<forall>e. rle_section e c = Some d) \<and> sok src' (streamSize src) []"
proof -
  obtain ctrl code src' where s: "bytesRLE_save_stream [] [] src par = Ok (ctrl, code, src')" "\<forall>e. rle_spec e ctrl code = Some d"
      "sok src' (streamSize src) []" "length ctrl \<le> 11 * length d"
    using bytesRLE_save_stream_result [OF assms(1-3)] by blast
  have l: "length ctrl < 2 ^ 64" using s(4) small by simp
  have "rle_section e (pack_code (length ctrl) 0 0 @ ctrl @ code) = Some d" for e
    using s(2) l by (simp add: rle_section_def unpack_pack_code)
  then show ?thesis using s l by (simp add: bytesRLE_save_from_def packUInt_eq pushBack_def)
qed

end

lemma bytesRLE_save_result:
  assumes "1 \<le> par" "par \<le> 32" "11 * length src < 2 ^ 64"
  shows "\<exists>c. bytesRLE_save out src par = Ok (out @ c) \<and> (\<forall>e. rle_section e c = Some src)"
proof -
  obtain ctrl code where s: "bytesRLE_save_mem [] [] src par = Ok (ctrl, code)" "\<forall>e. rle_spec e ctrl code = Some src"
      "length ctrl \<le> 11 * length src"
    using bytesRLE_save_mem_result [of par src] assms by auto
  have l: "length ctrl < 2 ^ 64" using s(3) assms(3) by simp
  have "rle_section e (pack_code (length ctrl) 0 0 @ ctrl @ code) = Some src" for e
    using s(2) l by (simp add: rle_section_def unpack_pack_code)
  then show ?thesis using s(1) l by (simp add: bytesRLE_save_def packUInt_eq pushBack_def)
qed

section \<open>Properties\<close>

text \<open>C22: the run-length code that \<open>bytesRLE_save\<close> writes for any bytes and any rle parameter is
  read back to those bytes by both engines; the coder never fails, never pops an empty vector and
  never trips its assertions.\<close>

theorem bytesRLE_save_roundtrip:
  assumes "1 \<le> par" "par \<le> 32" "11 * length src < 2 ^ 64"
  shows "\<exists>c. bytesRLE_save out src par = Ok (out @ c) \<and> rle_section Memory c = Some src \<and> rle_section Streaming c = Some src"
  using bytesRLE_save_result [OF assms, of out] by blast

theorem bytesRLE_save_roundtrip_witness:
  "\<exists>c. bytesRLE_save [7] [1, 0, 0, 5, 6, 6, 6, 255] 1 = Ok ([7] @ c) \<and> rle_section Memory c = Some [1, 0, 0, 5, 6, 6, 6, 255] \<and>
     rle_section Streaming c = Some [1, 0, 0, 5, 6, 6, 6, 255]"
  by (rule bytesRLE_save_roundtrip) simp_all

text \<open>C23: coding a stream in steps of \<open>kStepSize\<close> bytes gives code of the bytes it holds, whatever
  its size.\<close>

theorem bytesRLE_save_stream_roundtrip:
  assumes "1 \<le> par" "par \<le> 32" "11 * length src < 2 ^ 64"
  shows "\<exists>ctrl code src'. bytesRLE_save_stream [] [] (mem_as_hStreamInput src) par = Ok (ctrl, code, src') \<and>
    rle_spec Memory ctrl code = Some src \<and> rle_spec Streaming ctrl code = Some src"
proof -
  have s: "streamImport (mem_as_hStreamInput src) = src" "streamSize (mem_as_hStreamInput src) = length src"
    by (simp_all add: mem_as_hStreamInput_def)
  have "length src < 2 ^ 64" using assms(3) by simp
  then have "mem_in_ok (mem_as_hStreamInput src) \<and> src = drop 0 (streamImport (mem_as_hStreamInput src)) \<and>
      0 + length src = streamSize (mem_as_hStreamInput src)" by (simp add: s)
  from mem_in.seq.bytesRLE_save_stream_result [OF assms(1,2) this] show ?thesis by blast
qed

theorem bytesRLE_save_stream_roundtrip_witness:
  "\<exists>ctrl code src'. bytesRLE_save_stream [] [] (mem_as_hStreamInput (replicate 40000 3)) 3 = Ok (ctrl, code, src') \<and>
    rle_spec Memory ctrl code = Some (replicate 40000 3) \<and> rle_spec Streaming ctrl code = Some (replicate 40000 3)"
  by (rule bytesRLE_save_stream_roundtrip) simp_all

end
