(* ===== verification/BytesRle0.thy ===== *)
theory BytesRle0
  imports BytesRle Rle0
begin

text \<open>
  \<open>TSingleStreamRLE0\<close> of \<open>bytes_rle.cpp\<close>: the coder of the runs of zeros and literals that
  \<open>rle0_decoder_t\<close> (theory \<open>Rle0\<close>) reads, and the functions that say how long its code will be.
\<close>

section \<open>The code\<close>

record TSingleStreamRLE0 =
  s0_fixed_code :: "byte list"
  s0_uncompressData :: "byte list"
  s0_len0 :: nat

definition TSingleStreamRLE0_init :: TSingleStreamRLE0 where
  "TSingleStreamRLE0_init = \<lparr>s0_fixed_code = [], s0_uncompressData = [], s0_len0 = 0\<rparr>"

definition TSingleStreamRLE0_clear :: "TSingleStreamRLE0 \<Rightarrow> TSingleStreamRLE0" where
  "TSingleStreamRLE0_clear self = self\<lparr>s0_fixed_code := [], s0_uncompressData := [], s0_len0 := 0\<rparr>"

datatype TLastType = lastType_same | lastType_v

definition getLastType :: "TSingleStreamRLE0 \<Rightarrow> TLastType res" where
  "getLastType self =
     (if s0_uncompressData self = [] then Ok lastType_same
      else rbind (require (s0_len0 self = 0)) (\<lambda>_. Ok lastType_v))"

text \<open>\<open>_out_uncompressData\<close> and \<open>_out_0Data\<close>: long runs are cut by runs of no bytes of the other kind.\<close>

function out_v_loop :: "byte list \<Rightarrow> byte list \<Rightarrow> byte list res" where
  "out_v_loop fixed data =
     (if length data > kMaxBytesRleLen then
        rbind (packUInt fixed kMaxBytesRleLen) (\<lambda>fixed.
        rbind (packUInt (pushBack fixed (take kMaxBytesRleLen data)) 0) (\<lambda>fixed.
        out_v_loop fixed (drop kMaxBytesRleLen data)))
      else
        rbind (packUInt fixed (length data)) (\<lambda>fixed. Ok (pushBack fixed data)))"
  by pat_completeness auto
termination
  by (relation "measure (\<lambda>(f, d). length d)") (auto simp: kMaxBytesRleLen_def)

declare out_v_loop.simps [simp del]

definition out_uncompressData :: "TSingleStreamRLE0 \<Rightarrow> TSingleStreamRLE0 res" where
  "out_uncompressData self =
     rbind (out_v_loop (s0_fixed_code self) (s0_uncompressData self)) (\<lambda>fixed.
     Ok (self\<lparr>s0_fixed_code := fixed, s0_uncompressData := []\<rparr>))"

function out_0_loop :: "byte list \<Rightarrow> nat \<Rightarrow> byte list res" where
  "out_0_loop fixed len0 =
     (if len0 > kMaxBytesRleLen then
        rbind (packUInt fixed kMaxBytesRleLen) (\<lambda>fixed.
        rbind (packUInt fixed 0) (\<lambda>fixed. out_0_loop fixed (len0 - kMaxBytesRleLen)))
      else packUInt fixed len0)"
  by pat_completeness auto
termination
  by (relation "measure snd") (auto simp: kMaxBytesRleLen_def)

declare out_0_loop.simps [simp del]

definition out_0Data :: "TSingleStreamRLE0 \<Rightarrow> TSingleStreamRLE0 res" where
  "out_0Data self =
     rbind (out_0_loop (s0_fixed_code self) (s0_len0 self)) (\<lambda>fixed.
     Ok (self\<lparr>s0_fixed_code := fixed, s0_len0 := 0\<rparr>))"

function out_uncompressData_codeSize :: "nat \<Rightarrow> nat \<Rightarrow> nat" where
  "out_uncompressData_codeSize codeSize dataSize =
     (if dataSize > kMaxBytesRleLen then
        out_uncompressData_codeSize
          (add64 (add64 (add64 codeSize (hpatch_packUInt_size kMaxBytesRleLen)) kMaxBytesRleLen) (hpatch_packUInt_size 0))
          (dataSize - kMaxBytesRleLen)
      else add64 (add64 codeSize (hpatch_packUInt_size dataSize)) dataSize)"
  by pat_completeness auto
termination
  by (relation "measure snd") (auto simp: kMaxBytesRleLen_def)

declare out_uncompressData_codeSize.simps [simp del]

function out_0Data_codeSize :: "nat \<Rightarrow> nat \<Rightarrow> nat" where
  "out_0Data_codeSize codeSize len0 =
     (if len0 > kMaxBytesRleLen then
        out_0Data_codeSize
          (add64 (add64 codeSize (hpatch_packUInt_size kMaxBytesRleLen)) (hpatch_packUInt_size 0)) (len0 - kMaxBytesRleLen)
      else add64 codeSize (hpatch_packUInt_size len0))"
  by pat_completeness auto
termination
  by (relation "measure snd") (auto simp: kMaxBytesRleLen_def)

declare out_0Data_codeSize.simps [simp del]

text \<open>The inner loop of \<open>append\<close>: the zeros read, the byte it ended with and what is left.\<close>

fun zero_scan :: "nat \<Rightarrow> byte \<Rightarrow> byte list \<Rightarrow> nat \<times> byte \<times> byte list" where
  "zero_scan sLen0 v rest =
     (if v = 0 then
        case rest of [] \<Rightarrow> (sLen0 + 1, v, []) | w # rest' \<Rightarrow> zero_scan (sLen0 + 1) w rest'
      else (sLen0, v, rest))"

declare zero_scan.simps [simp del]

lemma zero_scan_cases:
  obtains (zeros) "zero_scan n v rest = (n + length (v # rest), 0, [])" "v # rest = replicate (length (v # rest)) 0"
  | (byte) k w r where "zero_scan n v rest = (n + k, w, r)" "w \<noteq> 0" "v # rest = replicate k 0 @ w # r"
proof (induction rest arbitrary: n v thesis)
  case Nil
  then show ?case by (cases "v = 0") (auto simp: zero_scan.simps [of n])
next
  case (Cons w r)
  show ?case
  proof (cases "v = 0")
    case True
    then have e: "zero_scan n v (w # r) = zero_scan (n + 1) w r" by (simp add: zero_scan.simps [of n])
    show ?thesis
    proof (rule Cons.IH [of "n + 1" w])
      assume "zero_scan (n + 1) w r = (n + 1 + length (w # r), 0, [])" "w # r = replicate (length (w # r)) 0"
      then show ?thesis using Cons.prems(1) e True by simp
    next
      fix k x s
      assume "zero_scan (n + 1) w r = (n + 1 + k, x, s)" "x \<noteq> 0" "w # r = replicate k 0 @ x # s"
      then show ?thesis using Cons.prems(2) [of "Suc k" x s] e True by simp
    qed
  next
    case False
    then show ?thesis using Cons.prems(2) [of 0 v "w # r"] by (simp add: zero_scan.simps [of n])
  qed
qed

lemma zero_scan_shorter: "zero_scan n v rest = (n', v', rest') \<Longrightarrow> length rest' \<le> length rest"
proof (cases n v rest rule: zero_scan_cases)
  case (byte k w r)
  then have "length (v # rest) = k + Suc (length r)" by simp
  moreover assume "zero_scan n v rest = (n', v', rest')"
  ultimately show ?thesis using byte(1) by simp
qed simp

function max_code_loop :: "TLastType \<Rightarrow> nat \<Rightarrow> nat \<Rightarrow> nat \<Rightarrow> byte list \<Rightarrow> TLastType \<times> nat \<times> nat \<times> nat" where
  "max_code_loop lastType curLen0 curLenv fixedLen appendData =
     (case appendData of [] \<Rightarrow> (lastType, curLen0, curLenv, fixedLen)
      | v # rest \<Rightarrow>
          (case zero_scan 0 v rest of (sLen0, v, rest) \<Rightarrow>
             let (fixedLen, curLenv) =
                   (if sLen0 > 0 \<and> lastType = lastType_v
                    then (add64 fixedLen (out_uncompressData_codeSize 0 curLenv), 0) else (fixedLen, curLenv));
                 curLen0 = add64 curLen0 sLen0;
                 lastType = (if sLen0 > 0 then lastType_same else lastType)
             in if sLen0 > 0 \<and> v = 0 then (lastType, curLen0, curLenv, fixedLen)
                else
                  let (fixedLen, curLen0) =
                        (if lastType = lastType_same
                         then (add64 fixedLen (out_0Data_codeSize 0 curLen0), 0) else (fixedLen, curLen0))
                  in max_code_loop lastType_v curLen0 (curLenv + 1) fixedLen rest))"
  by pat_completeness auto
termination
  by (relation "measure (\<lambda>(t, a, b, c, d). length d)") (auto dest!: zero_scan_shorter [OF sym])

declare max_code_loop.simps [simp del]

definition max_code_end :: "TLastType \<times> nat \<times> nat \<times> nat \<Rightarrow> nat" where
  "max_code_end st =
     (case st of (lastType, curLen0, curLenv, fixedLen) \<Rightarrow>
        let fixedLen = (if curLenv > 0 then add64 fixedLen (out_uncompressData_codeSize 0 curLenv) else fixedLen)
        in if curLen0 > 0 then add64 fixedLen (out_0Data_codeSize 0 curLen0) else fixedLen)"

definition maxCodeSize :: "TSingleStreamRLE0 \<Rightarrow> byte list \<Rightarrow> nat res" where
  "maxCodeSize self appendData =
     rbind (getLastType self) (\<lambda>lastType.
     Ok (max_code_end (max_code_loop lastType (s0_len0 self) (length (s0_uncompressData self))
           (length (s0_fixed_code self)) appendData)))"

definition curCodeSize :: "TSingleStreamRLE0 \<Rightarrow> nat res" where
  "curCodeSize self = maxCodeSize self []"

definition maxCodeSizeByZeroLen :: "TSingleStreamRLE0 \<Rightarrow> nat \<Rightarrow> nat res" where
  "maxCodeSizeByZeroLen self appendZeroLen =
     (let fixedLen = length (s0_fixed_code self) in
      if appendZeroLen = 0 then Ok fixedLen
      else rbind (getLastType self) (\<lambda>lastType.
        let curLen0 = add64 (s0_len0 self) appendZeroLen; curLenv = length (s0_uncompressData self);
            (fixedLen, curLenv) = (if lastType = lastType_v
               then (add64 fixedLen (out_uncompressData_codeSize 0 curLenv), 0) else (fixedLen, curLenv))
        in Ok (max_code_end (lastType_same, curLen0, curLenv, fixedLen))))"

definition appendByZeroLen :: "TSingleStreamRLE0 \<Rightarrow> nat \<Rightarrow> TSingleStreamRLE0 res" where
  "appendByZeroLen self appendZeroLen =
     (if appendZeroLen \<noteq> 0 then
        rbind (getLastType self) (\<lambda>lastType.
        rbind (if lastType = lastType_v then out_uncompressData self else Ok self) (\<lambda>self.
        Ok (self\<lparr>s0_len0 := add64 (s0_len0 self) appendZeroLen\<rparr>)))
      else Ok self)"

function append_rle0_loop :: "TLastType \<Rightarrow> TSingleStreamRLE0 \<Rightarrow> byte list \<Rightarrow> TSingleStreamRLE0 res" where
  "append_rle0_loop lastType self appendData =
     (case appendData of [] \<Rightarrow> Ok self
      | v # rest \<Rightarrow>
          (case zero_scan 0 v rest of (sLen0, v, rest) \<Rightarrow>
             rbind (if sLen0 > 0 \<and> lastType = lastType_v then out_uncompressData self else Ok self) (\<lambda>self.
             let self = self\<lparr>s0_len0 := add64 (s0_len0 self) sLen0\<rparr>;
                 lastType = (if sLen0 > 0 then lastType_same else lastType)
             in if sLen0 > 0 \<and> v = 0 then Ok self
                else
                  rbind (if lastType = lastType_same then out_0Data self else Ok self) (\<lambda>self.
                  append_rle0_loop lastType_v
                    (self\<lparr>s0_uncompressData := s0_uncompressData self @ [v]\<rparr>) rest))))"
  by pat_completeness auto
termination
  by (relation "measure (\<lambda>(t, s, d). length d)") (auto dest!: zero_scan_shorter [OF sym])

declare append_rle0_loop.simps [simp del]

definition append_rle0 :: "TSingleStreamRLE0 \<Rightarrow> byte list \<Rightarrow> TSingleStreamRLE0 res" where
  "append_rle0 self appendData =
     rbind (getLastType self) (\<lambda>lastType. append_rle0_loop lastType self appendData)"

definition finishAppend_rle0 :: "TSingleStreamRLE0 \<Rightarrow> TSingleStreamRLE0 res" where
  "finishAppend_rle0 self =
     rbind (if s0_fixed_code self = [] \<or> s0_len0 self > 0 then out_0Data self else Ok self) (\<lambda>self.
     if s0_uncompressData self \<noteq> [] then out_uncompressData self else Ok self)"

text \<open>Both over a stream that is read in steps.\<close>

function append_rle0_stream ::
  "TSingleStreamRLE0 \<Rightarrow> 's hpatch_TStreamInput \<Rightarrow> nat \<Rightarrow> nat \<Rightarrow> (TSingleStreamRLE0 \<times> 's hpatch_TStreamInput) res" where
  "append_rle0_stream self appendData sz readPos =
     (if readPos < sz then
        let len = (if kStepSize + readPos > sz then sz - readPos else kStepSize) in
        rbind (sread appendData readPos len) (\<lambda>(buf, appendData).
        rbind (append_rle0 self buf) (\<lambda>self.
        append_rle0_stream self appendData sz (readPos + len)))
      else Ok (self, appendData))"
  by pat_completeness auto
termination
  by (relation "measure (\<lambda>(self, src, n, p). n - p)") (auto simp: kStepSize_def)

declare append_rle0_stream.simps [simp del]

function max_code_stream ::
  "TLastType \<times> nat \<times> nat \<times> nat \<Rightarrow> 's hpatch_TStreamInput \<Rightarrow> nat \<Rightarrow> nat \<Rightarrow> ((TLastType \<times> nat \<times> nat \<times> nat) \<times> 's hpatch_TStreamInput) res" where
  "max_code_stream st appendData sz readPos =
     (if readPos < sz then
        let len = (if kStepSize + readPos > sz then sz - readPos else kStepSize) in
        rbind (sread appendData readPos len) (\<lambda>(buf, appendData).
        case st of (lastType, curLen0, curLenv, fixedLen) \<Rightarrow>
        max_code_stream (max_code_loop lastType curLen0 curLenv fixedLen buf) appendData sz (readPos + len))
      else Ok (st, appendData))"
  by pat_completeness auto
termination
  by (relation "measure (\<lambda>(self, src, n, p). n - p)") (auto simp: kStepSize_def)

declare max_code_stream.simps [simp del]

definition maxCodeSize_stream :: "TSingleStreamRLE0 \<Rightarrow> 's hpatch_TStreamInput \<Rightarrow> (nat \<times> 's hpatch_TStreamInput) res" where
  "maxCodeSize_stream self appendData =
     rbind (getLastType self) (\<lambda>lastType.
     rbind (max_code_stream (lastType, s0_len0 self, length (s0_uncompressData self), length (s0_fixed_code self))
              appendData (streamSize appendData) 0) (\<lambda>(st, appendData).
     Ok (max_code_end st, appendData)))"


section \<open>What the code stands for\<close>

text \<open>Code that takes the decoder from expecting zeros (or literals) to \<open>z'\<close> and stands for \<open>d\<close>.\<close>

definition coded :: "bool \<Rightarrow> byte list \<Rightarrow> bool \<Rightarrow> byte list \<Rightarrow> bool" where
  "coded z c z' d \<longleftrightarrow> (\<forall>r. rle0_spec z (c @ r) = d @ rle0_spec z' r)"

lemma coded_Nil [simp]: "coded z [] z []"
  by (simp add: coded_def)

lemma coded_append: "coded z c z' d \<Longrightarrow> coded z' c' z'' d' \<Longrightarrow> coded z (c @ c') z'' (d @ d')"
  by (simp add: coded_def)

lemma coded_zeros: "n < 2 ^ 64 \<Longrightarrow> coded True (pack_code n 0 0) False (replicate n 0)"
  by (simp add: coded_def rle0_spec.simps [of _ "_ @ _"] unpack_pack_code_0)

lemma coded_literals: "length d < 2 ^ 64 \<Longrightarrow> coded False (pack_code (length d) 0 0 @ d) True d"
  by (simp add: coded_def rle0_spec.simps [of _ "_ @ _"] unpack_pack_code_0)

lemma packUInt_size_eq: "v < 2 ^ 64 \<Longrightarrow> hpatch_packUInt_size v = length (pack_code v 0 0)"
  by (simp add: hpatch_packUInt_size_def length_pack_code)

lemma kMax_less [simp]: "kMaxBytesRleLen < 2 ^ 64" "0 < kMaxBytesRleLen" "kMaxBytesRleLen < 18446744073709551616"
  by (simp_all add: kMaxBytesRleLen_def)

lemma out_v_loop_result:
  "length d < 2 ^ 64 \<Longrightarrow> \<exists>c. (\<forall>f. out_v_loop f d = Ok (f @ c)) \<and> coded False c True d \<and> c \<noteq> [] \<and>
     (\<forall>k. out_uncompressData_codeSize k (length d) = (k + length c) mod 2 ^ 64)"
proof (induction "length d" arbitrary: d rule: less_induct)
  case less
  let ?p = "\<lambda>n. pack_code n 0 0"
  show ?case
  proof (cases "length d > kMaxBytesRleLen")
    case True
    let ?d = "drop kMaxBytesRleLen d" and ?h = "take kMaxBytesRleLen d"
    have "length ?d < length d" "length ?d < 2 ^ 64" using True less.prems kMax_less(2) by (auto simp del: kMax_less)
    from less.hyps [OF this] obtain c where c: "\<forall>f. out_v_loop f ?d = Ok (f @ c)" "coded False c True ?d"
        "\<forall>k. out_uncompressData_codeSize k (length ?d) = (k + length c) mod 2 ^ 64" by blast
    have len: "length ?h = kMaxBytesRleLen" using True by simp
    have h: "coded False (?p kMaxBytesRleLen @ ?h) True ?h" using coded_literals [of ?h] len by simp
    let ?c = "(?p kMaxBytesRleLen @ ?h) @ ?p 0 @ c"
    have "coded False ?c True (?h @ replicate 0 0 @ ?d)"
      by (intro coded_append [OF h] coded_append [OF coded_zeros c(2)]) simp
    then have cd: "coded False ?c True d" by simp
    have "out_v_loop f d = Ok (f @ ?c)" for f
      using True c(1) by (subst out_v_loop.simps) (simp add: packUInt_eq pushBack_def)
    moreover have "out_uncompressData_codeSize k (length d) = (k + length ?c) mod 2 ^ 64" for k
    proof -
      have "out_uncompressData_codeSize k (length d) =
          (add64 (add64 (add64 k (length (?p kMaxBytesRleLen))) kMaxBytesRleLen) (length (?p 0)) + length c) mod 2 ^ 64"
        using True c(3) len by (subst out_uncompressData_codeSize.simps) (simp add: packUInt_size_eq)
      also have "\<dots> = (k + length ?c) mod 2 ^ 64"
        unfolding add64_def using len by (simp add: mod_simps add.assoc)
      finally show ?thesis .
    qed
    moreover have "?c \<noteq> []" by (simp add: pack_code_not_Nil)
    ultimately show ?thesis using cd by blast
  next
    case False
    let ?c = "?p (length d) @ d"
    have "out_v_loop f d = Ok (f @ ?c)" for f
      using False less.prems by (subst out_v_loop.simps) (simp add: packUInt_eq pushBack_def)
    moreover have "out_uncompressData_codeSize k (length d) = (k + length ?c) mod 2 ^ 64" for k
      using False less.prems by (subst out_uncompressData_codeSize.simps) (simp add: packUInt_size_eq add64_def mod_simps add.assoc)
    moreover have "?c \<noteq> []" using less.prems by (simp add: pack_code_not_Nil)
    ultimately show ?thesis using coded_literals [OF less.prems] by blast
  qed
qed

lemma out_0_loop_result:
  "n < 2 ^ 64 \<Longrightarrow> \<exists>c. (\<forall>f. out_0_loop f n = Ok (f @ c)) \<and> coded True c False (replicate n 0) \<and> c \<noteq> [] \<and>
     (\<forall>k. out_0Data_codeSize k n = (k + length c) mod 2 ^ 64)"
proof (induction n rule: less_induct)
  case (less n)
  let ?p = "\<lambda>n. pack_code n 0 0"
  show ?case
  proof (cases "n > kMaxBytesRleLen")
    case True
    let ?m = "n - kMaxBytesRleLen"
    have "?m < n" "?m < 2 ^ 64" using True less.prems kMax_less(2) by (linarith)+
    from less.IH [OF this] obtain c where c: "\<forall>f. out_0_loop f ?m = Ok (f @ c)" "coded True c False (replicate ?m 0)"
        "\<forall>k. out_0Data_codeSize k ?m = (k + length c) mod 2 ^ 64" by blast
    let ?c = "?p kMaxBytesRleLen @ ?p 0 @ c"
    have lit: "coded False (?p 0) True []" using coded_literals [of "[]"] by simp
    have "coded True ?c False (replicate kMaxBytesRleLen 0 @ [] @ replicate ?m 0)"
      by (intro coded_append [OF coded_zeros] coded_append [OF lit c(2)]) simp
    then have cd: "coded True ?c False (replicate n 0)" using True by (simp add: replicate_add [symmetric])
    have "out_0_loop f n = Ok (f @ ?c)" for f
      using True c(1) by (subst out_0_loop.simps) (simp add: packUInt_eq)
    moreover have "out_0Data_codeSize k n = (k + length ?c) mod 2 ^ 64" for k
    proof -
      have "out_0Data_codeSize k n = (add64 (add64 k (length (?p kMaxBytesRleLen))) (length (?p 0)) + length c) mod 2 ^ 64"
        using True c(3) by (subst out_0Data_codeSize.simps) (simp add: packUInt_size_eq)
      also have "\<dots> = (k + length ?c) mod 2 ^ 64"
        unfolding add64_def by (simp add: mod_simps add.assoc)
      finally show ?thesis .
    qed
    moreover have "?c \<noteq> []" by (simp add: pack_code_not_Nil)
    ultimately show ?thesis using cd by blast
  next
    case False
    have "out_0_loop f n = Ok (f @ ?p n)" for f
      using False less.prems by (subst out_0_loop.simps) (simp add: packUInt_eq)
    moreover have "out_0Data_codeSize k n = (k + length (?p n)) mod 2 ^ 64" for k
      using False less.prems by (subst out_0Data_codeSize.simps) (simp add: packUInt_size_eq add64_def)
    ultimately show ?thesis using coded_zeros [OF less.prems] pack_code_not_Nil [of n 0 0] less.prems by auto
  qed
qed

section \<open>The coder\<close>

text \<open>The coder has taken \<open>s\<close>.\<close>

definition ss_ok :: "TSingleStreamRLE0 \<Rightarrow> byte list \<Rightarrow> bool" where
  "ss_ok self s \<longleftrightarrow>
     (s0_uncompressData self \<noteq> [] \<longrightarrow> s0_len0 self = 0 \<and> s0_fixed_code self \<noteq> []) \<and>
     (\<exists>t. coded True (s0_fixed_code self) (s0_uncompressData self = []) t \<and>
        s = t @ replicate (s0_len0 self) 0 @ s0_uncompressData self)"

definition ss_last :: "TSingleStreamRLE0 \<Rightarrow> TLastType" where
  "ss_last self = (if s0_uncompressData self = [] then lastType_same else lastType_v)"

text \<open>What the size functions count with is the state of the coder.\<close>

definition ss_sizes :: "TSingleStreamRLE0 \<Rightarrow> TLastType \<times> nat \<times> nat \<times> nat" where
  "ss_sizes self = (ss_last self, s0_len0 self, length (s0_uncompressData self), length (s0_fixed_code self) mod 2 ^ 64)"

lemma getLastType_eq: "ss_ok self s \<Longrightarrow> getLastType self = Ok (ss_last self)"
  by (simp add: getLastType_def ss_last_def ss_ok_def)

lemma ss_ok_length: "ss_ok self s \<Longrightarrow> s0_len0 self + length (s0_uncompressData self) \<le> length s"
  by (auto simp: ss_ok_def)

lemma out_uncompressData_result:
  assumes "ss_ok self s" "s0_uncompressData self \<noteq> []" "length s < 2 ^ 64"
  shows "\<exists>c. out_uncompressData self = Ok (self\<lparr>s0_fixed_code := s0_fixed_code self @ c, s0_uncompressData := []\<rparr>) \<and>
    ss_ok (self\<lparr>s0_fixed_code := s0_fixed_code self @ c, s0_uncompressData := []\<rparr>) s \<and> s0_len0 self = 0 \<and>
    coded True (s0_fixed_code self @ c) True s \<and>
    (\<forall>k. out_uncompressData_codeSize k (length (s0_uncompressData self)) = (k + length c) mod 2 ^ 64)"
proof -
  obtain t where t: "coded True (s0_fixed_code self) False t" "s = t @ s0_uncompressData self" "s0_len0 self = 0"
    using assms(1,2) by (auto simp: ss_ok_def)
  have "length (s0_uncompressData self) < 2 ^ 64" using t(2) assms(3) by simp
  from out_v_loop_result [OF this] obtain c where c: "\<forall>f. out_v_loop f (s0_uncompressData self) = Ok (f @ c)"
      "coded False c True (s0_uncompressData self)"
      "\<forall>k. out_uncompressData_codeSize k (length (s0_uncompressData self)) = (k + length c) mod 2 ^ 64" by blast
  have "coded True (s0_fixed_code self @ c) True s" unfolding t(2) by (rule coded_append [OF t(1) c(2)])
  then show ?thesis using c t(3) by (intro exI [of _ c]) (simp add: out_uncompressData_def ss_ok_def)
qed

lemma out_0Data_result:
  assumes "ss_ok self s" "s0_uncompressData self = []" "length s < 2 ^ 64"
  shows "\<exists>c. out_0Data self = Ok (self\<lparr>s0_fixed_code := s0_fixed_code self @ c, s0_len0 := 0\<rparr>) \<and> c \<noteq> [] \<and>
    coded True (s0_fixed_code self @ c) False s \<and>
    (\<forall>k. out_0Data_codeSize k (s0_len0 self) = (k + length c) mod 2 ^ 64)"
proof -
  obtain t where t: "coded True (s0_fixed_code self) True t" "s = t @ replicate (s0_len0 self) 0"
    using assms(1,2) by (auto simp: ss_ok_def)
  have "s0_len0 self < 2 ^ 64" using t(2) assms(3) by simp
  from out_0_loop_result [OF this] obtain c where c: "\<forall>f. out_0_loop f (s0_len0 self) = Ok (f @ c)"
      "coded True c False (replicate (s0_len0 self) 0)" "c \<noteq> []"
      "\<forall>k. out_0Data_codeSize k (s0_len0 self) = (k + length c) mod 2 ^ 64" by blast
  have "coded True (s0_fixed_code self @ c) False s" unfolding t(2) by (rule coded_append [OF t(1) c(2)])
  then show ?thesis using c by (intro exI [of _ c]) (simp add: out_0Data_def)
qed


text \<open>
  Taking bytes, and what the size functions make of the same bytes.  First the two steps of the
  loop: ending literals because zeros come, and putting a byte that is not zero.
\<close>

lemma take_zeros_result:
  assumes "ss_ok self s" "0 < k" "length s + k < 2 ^ 64"
  shows "\<exists>self'. rbind (if ss_last self = lastType_v then out_uncompressData self else Ok self)
      (\<lambda>self. Ok (self\<lparr>s0_len0 := add64 (s0_len0 self) k\<rparr>)) = Ok self' \<and> ss_ok self' (s @ replicate k 0) \<and>
    s0_uncompressData self' = [] \<and> s0_len0 self' = add64 (s0_len0 self) k \<and>
    length (s0_fixed_code self') mod 2 ^ 64 =
      (if ss_last self = lastType_v
       then add64 (length (s0_fixed_code self) mod 2 ^ 64) (out_uncompressData_codeSize 0 (length (s0_uncompressData self)))
       else length (s0_fixed_code self) mod 2 ^ 64)"
proof (cases "s0_uncompressData self = []")
  case True
  then obtain t where t: "coded True (s0_fixed_code self) True t" "s = t @ replicate (s0_len0 self) 0"
    using assms(1) by (auto simp: ss_ok_def)
  have "add64 (s0_len0 self) k = s0_len0 self + k" using t(2) assms(3) by (simp add: add64_eq)
  then show ?thesis using t True by (fastforce simp: ss_ok_def ss_last_def replicate_add)
next
  case False
  have "length s < 2 ^ 64" using assms(3) by simp
  from out_uncompressData_result [OF assms(1) False this] obtain c where c:
    "out_uncompressData self = Ok (self\<lparr>s0_fixed_code := s0_fixed_code self @ c, s0_uncompressData := []\<rparr>)"
    "s0_len0 self = 0" "coded True (s0_fixed_code self @ c) True s"
    "\<forall>k. out_uncompressData_codeSize k (length (s0_uncompressData self)) = (k + length c) mod 2 ^ 64" by blast
  have "add64 0 k = k" using assms(3) by (simp add: add64_eq)
  then show ?thesis using c False by (simp add: ss_ok_def ss_last_def add64_def mod_simps)
qed

lemma put_byte_result:
  assumes "ss_ok self s" "length s < 2 ^ 64"
  shows "\<exists>self'. rbind (if ss_last self = lastType_same then out_0Data self else Ok self)
      (\<lambda>self. Ok (self\<lparr>s0_uncompressData := s0_uncompressData self @ [w]\<rparr>)) = Ok self' \<and> ss_ok self' (s @ [w]) \<and>
    s0_uncompressData self' = s0_uncompressData self @ [w] \<and>
    s0_len0 self' = (if ss_last self = lastType_same then 0 else s0_len0 self) \<and>
    length (s0_fixed_code self') mod 2 ^ 64 =
      (if ss_last self = lastType_same
       then add64 (length (s0_fixed_code self) mod 2 ^ 64) (out_0Data_codeSize 0 (s0_len0 self))
       else length (s0_fixed_code self) mod 2 ^ 64)"
proof (cases "s0_uncompressData self = []")
  case True
  from out_0Data_result [OF assms(1) True assms(2)] obtain c where c:
    "out_0Data self = Ok (self\<lparr>s0_fixed_code := s0_fixed_code self @ c, s0_len0 := 0\<rparr>)" "c \<noteq> []"
    "coded True (s0_fixed_code self @ c) False s"
    "\<forall>k. out_0Data_codeSize k (s0_len0 self) = (k + length c) mod 2 ^ 64" by blast
  then show ?thesis using True by (simp add: ss_ok_def ss_last_def add64_def mod_simps)
next
  case False
  then show ?thesis using assms(1) by (auto simp: ss_ok_def ss_last_def)
qed

lemma append_rle0_loop_result:
  "ss_ok self s \<Longrightarrow> length s + length d < 2 ^ 64 \<Longrightarrow>
   \<exists>self'. append_rle0_loop (ss_last self) self d = Ok self' \<and> ss_ok self' (s @ d) \<and>
     (case ss_sizes self of (lt, n0, nv, f) \<Rightarrow> max_code_loop lt n0 nv f d = ss_sizes self')"
proof (induction "length d" arbitrary: self s d rule: less_induct)
  case less
  show ?case
  proof (cases d)
    case Nil
    then show ?thesis using less.prems
      by (simp add: append_rle0_loop.simps [of _ _ "[]"] max_code_loop.simps [of _ _ _ _ "[]"] ss_sizes_def)
  next
    case (Cons v rest)
    let ?f = "length (s0_fixed_code self) mod 2 ^ 64"
    show ?thesis
    proof (rule zero_scan_cases [of 0 v rest])
      assume zeros: "zero_scan 0 v rest = (0 + length (v # rest), 0, [])" "v # rest = replicate (length (v # rest)) 0"
      let ?n = "length (v # rest)"
      have "0 < ?n" "length s + ?n < 2 ^ 64" using less.prems(2) Cons by auto
      from take_zeros_result [OF less.prems(1) this] obtain self' where
        1: "rbind (if ss_last self = lastType_v then out_uncompressData self else Ok self)
              (\<lambda>self. Ok (self\<lparr>s0_len0 := add64 (s0_len0 self) ?n\<rparr>)) = Ok self'" "ss_ok self' (s @ replicate ?n 0)"
           "s0_uncompressData self' = []" "s0_len0 self' = add64 (s0_len0 self) ?n"
           "length (s0_fixed_code self') mod 2 ^ 64 = (if ss_last self = lastType_v
             then add64 ?f (out_uncompressData_codeSize 0 (length (s0_uncompressData self))) else ?f)" by blast
      have d: "d = replicate ?n 0" using zeros(2) Cons by simp
      have "append_rle0_loop (ss_last self) self d = Ok self'"
        unfolding Cons using 1(1) zeros(1) by (subst append_rle0_loop.simps) (simp add: Let_def)
      moreover have "max_code_loop (ss_last self) (s0_len0 self) (length (s0_uncompressData self)) ?f d = ss_sizes self'"
        unfolding Cons using zeros(1) 1(3-5)
        by (subst max_code_loop.simps) (auto simp: Let_def ss_sizes_def ss_last_def)
      ultimately show ?thesis using 1(2) d by (simp add: ss_sizes_def)
    next
      fix k w r
      assume byte: "zero_scan 0 v rest = (0 + k, w, r)" "w \<noteq> 0" "v # rest = replicate k 0 @ w # r"
      have d: "d = replicate k 0 @ w # r" using byte(3) Cons by simp
      define zs where "zs = (\<lambda>self :: TSingleStreamRLE0. if 0 < k
        then rbind (if ss_last self = lastType_v then out_uncompressData self else Ok self)
              (\<lambda>self. Ok (self\<lparr>s0_len0 := add64 (s0_len0 self) k\<rparr>)) else Ok self)"
      have lens: "length s + k + Suc (length r) < 2 ^ 64" using less.prems(2) d by simp
      have "\<exists>self1. zs self = Ok self1 \<and> ss_ok self1 (s @ replicate k 0) \<and>
          ss_last self1 = (if 0 < k then lastType_same else ss_last self) \<and> s0_len0 self1 = add64 (s0_len0 self) k \<and>
          length (s0_uncompressData self1) = (if 0 < k \<and> ss_last self = lastType_v then 0 else length (s0_uncompressData self)) \<and>
          length (s0_fixed_code self1) mod 2 ^ 64 = (if 0 < k \<and> ss_last self = lastType_v
             then add64 ?f (out_uncompressData_codeSize 0 (length (s0_uncompressData self))) else ?f)"
      proof (cases "0 < k")
        case True
        from take_zeros_result [OF less.prems(1) True] lens show ?thesis
          by (fastforce simp: zs_def True ss_last_def)
      next
        case False
        have "add64 (s0_len0 self) 0 = s0_len0 self"
          using ss_ok_length [OF less.prems(1)] lens by (simp add: add64_eq)
        then show ?thesis using False less.prems(1) by (simp add: zs_def)
      qed
      then obtain self1 where 1: "zs self = Ok self1" "ss_ok self1 (s @ replicate k 0)"
          "ss_last self1 = (if 0 < k then lastType_same else ss_last self)" "s0_len0 self1 = add64 (s0_len0 self) k"
          "length (s0_uncompressData self1) = (if 0 < k \<and> ss_last self = lastType_v then 0 else length (s0_uncompressData self))"
          "length (s0_fixed_code self1) mod 2 ^ 64 = (if 0 < k \<and> ss_last self = lastType_v
             then add64 ?f (out_uncompressData_codeSize 0 (length (s0_uncompressData self))) else ?f)" by blast
      have "length (s @ replicate k 0) < 2 ^ 64" using lens by simp
      from put_byte_result [OF 1(2) this, of w] obtain self2 where
        2: "rbind (if ss_last self1 = lastType_same then out_0Data self1 else Ok self1)
              (\<lambda>self. Ok (self\<lparr>s0_uncompressData := s0_uncompressData self @ [w]\<rparr>)) = Ok self2"
           "ss_ok self2 ((s @ replicate k 0) @ [w])" "s0_uncompressData self2 = s0_uncompressData self1 @ [w]"
           "s0_len0 self2 = (if ss_last self1 = lastType_same then 0 else s0_len0 self1)"
           "length (s0_fixed_code self2) mod 2 ^ 64 = (if ss_last self1 = lastType_same
             then add64 (length (s0_fixed_code self1) mod 2 ^ 64) (out_0Data_codeSize 0 (s0_len0 self1))
             else length (s0_fixed_code self1) mod 2 ^ 64)" by blast
      have last2: "ss_last self2 = lastType_v" using 2(3) by (simp add: ss_last_def)
      have "\<exists>self'. append_rle0_loop (ss_last self2) self2 r = Ok self' \<and> ss_ok self' (((s @ replicate k 0) @ [w]) @ r) \<and>
         (case ss_sizes self2 of (lt, n0, nv, f) \<Rightarrow> max_code_loop lt n0 nv f r = ss_sizes self')"
        by (rule less.hyps [OF _ 2(2)]) (use d lens in auto)
      then obtain self' where 3: "append_rle0_loop lastType_v self2 r = Ok self'" "ss_ok self' (s @ d)"
          "max_code_loop lastType_v (s0_len0 self2) (length (s0_uncompressData self2))
             (length (s0_fixed_code self2) mod 2 ^ 64) r = ss_sizes self'"
        using last2 d by (auto simp: ss_sizes_def)
      have "append_rle0_loop (ss_last self) self d = Ok self'"
      proof -
        have lt: "(if 0 < k then lastType_same else ss_last self) = ss_last self1" using 1(3) by simp
        have len0: "s0_len0 self mod 18446744073709551616 = s0_len0 self"
          using ss_ok_length [OF less.prems(1)] lens by simp
        have "append_rle0_loop (ss_last self) self d =
            rbind (zs self) (\<lambda>self. rbind (rbind (if ss_last self1 = lastType_same then out_0Data self else Ok self)
              (\<lambda>self. Ok (self\<lparr>s0_uncompressData := s0_uncompressData self @ [w]\<rparr>))) (\<lambda>self. append_rle0_loop lastType_v self r))"
          unfolding Cons using byte(1,2)
          by (subst append_rle0_loop.simps) (auto simp: Let_def zs_def rbind_assoc lt [symmetric] add64_def len0)
        then show ?thesis using 1(1) 2(1) 3(1) by simp
      qed
      moreover have "max_code_loop (ss_last self) (s0_len0 self) (length (s0_uncompressData self)) ?f d = ss_sizes self'"
      proof -
        have "max_code_loop (ss_last self) (s0_len0 self) (length (s0_uncompressData self)) ?f d =
            max_code_loop lastType_v (s0_len0 self2) (length (s0_uncompressData self2)) (length (s0_fixed_code self2) mod 2 ^ 64) r"
          unfolding Cons using byte(1,2) 1(3-6) 2(3-5)
          by (subst max_code_loop.simps) (simp add: Let_def split: if_splits)
        then show ?thesis using 3(3) by simp
      qed
      ultimately show ?thesis using 3(2) by (simp add: ss_sizes_def)
    qed
  qed
qed


lemma append_rle0_result:
  assumes "ss_ok self s" "length s + length d < 2 ^ 64"
  shows "\<exists>self'. append_rle0 self d = Ok self' \<and> ss_ok self' (s @ d) \<and>
     (case ss_sizes self of (lt, n0, nv, f) \<Rightarrow> max_code_loop lt n0 nv f d = ss_sizes self')"
  using append_rle0_loop_result [OF assms] by (simp add: append_rle0_def getLastType_eq [OF assms(1)])

lemma ss_ok_init [simp]: "ss_ok TSingleStreamRLE0_init []"
  by (simp add: ss_ok_def TSingleStreamRLE0_init_def)

text \<open>The end, with the size that the counters announce; an empty code gets its one byte.\<close>

lemma finishAppend_rle0_result:
  assumes "ss_ok self s" "length s < 2 ^ 64"
  shows "\<exists>self'. finishAppend_rle0 self = Ok self' \<and> rle0_spec True (s0_fixed_code self') = s \<and>
     s0_len0 self' = 0 \<and> s0_uncompressData self' = [] \<and>
     (s0_fixed_code self \<noteq> [] \<or> s \<noteq> [] \<longrightarrow> max_code_end (ss_sizes self) = length (s0_fixed_code self') mod 2 ^ 64)"
proof -
  have nil: "rle0_spec z [] = []" for z
    by (simp add: rle0_spec.simps hpatch_unpackUInt_def hpatch_unpackUIntWithTag_def)
  have finished: "rle0_spec True c = t" if "coded True c z t" for c z t
    using that nil [of z] by (auto simp: coded_def dest: spec [of _ "[]"])
  show ?thesis
  proof (cases "s0_uncompressData self = []")
    case True
    show ?thesis
    proof (cases "s0_fixed_code self = [] \<or> s0_len0 self > 0")
      case a: True
      from out_0Data_result [OF assms(1) True assms(2)] obtain c where c:
        "out_0Data self = Ok (self\<lparr>s0_fixed_code := s0_fixed_code self @ c, s0_len0 := 0\<rparr>)" "c \<noteq> []"
        "coded True (s0_fixed_code self @ c) False s"
        "\<forall>k. out_0Data_codeSize k (s0_len0 self) = (k + length c) mod 2 ^ 64" by blast
      have "s0_len0 self > 0" if "s0_fixed_code self \<noteq> [] \<or> s \<noteq> []"
      proof (rule ccontr)
        assume z: "\<not> s0_len0 self > 0"
        then have "s0_fixed_code self = []" using a by simp
        then have "s = []" using assms(1) True z by (auto simp: ss_ok_def coded_def dest!: spec [of _ "[]"] simp: nil)
        then show False using that \<open>s0_fixed_code self = []\<close> by simp
      qed
      then show ?thesis using a True c finished [OF c(3)]
        by (auto simp: finishAppend_rle0_def ss_sizes_def max_code_end_def add64_def mod_simps)
    next
      case b: False
      then have "coded True (s0_fixed_code self) True s" using assms(1) True by (auto simp: ss_ok_def)
      then show ?thesis using b True finished by (simp add: finishAppend_rle0_def ss_sizes_def max_code_end_def)
    qed
  next
    case False
    from out_uncompressData_result [OF assms(1) False assms(2)] obtain c where c:
      "out_uncompressData self = Ok (self\<lparr>s0_fixed_code := s0_fixed_code self @ c, s0_uncompressData := []\<rparr>)"
      "s0_len0 self = 0" "coded True (s0_fixed_code self @ c) True s"
      "\<forall>k. out_uncompressData_codeSize k (length (s0_uncompressData self)) = (k + length c) mod 2 ^ 64" by blast
    have "s0_fixed_code self \<noteq> []" using assms(1) False by (simp add: ss_ok_def)
    then show ?thesis using False c finished [OF c(3)]
      by (simp add: finishAppend_rle0_def ss_sizes_def max_code_end_def add64_def mod_simps)
  qed
qed

text \<open>Appending zeros by their number only is appending the zeros.\<close>

lemma zero_scan_zeros: "zero_scan 0 0 (replicate n 0) = (Suc n, 0, [])"
proof (rule zero_scan_cases [of 0 0 "replicate n 0"])
  fix k w r assume "w \<noteq> 0" "0 # replicate n 0 = replicate k 0 @ w # r"
  then have "w \<in> set (0 # replicate n 0)" by simp
  then show ?thesis using \<open>w \<noteq> 0\<close> by auto
qed simp

lemma appendByZeroLen_eq:
  assumes "ss_ok self s" "length s + k < 2 ^ 64"
  shows "appendByZeroLen self k = append_rle0 self (replicate k 0)"
proof (cases k)
  case 0
  then show ?thesis using assms(1) by (simp add: appendByZeroLen_def append_rle0_def getLastType_eq append_rle0_loop.simps [of _ _ "[]"])
next
  case (Suc n)
  show ?thesis using assms(1) Suc zero_scan_zeros [of n]
    by (simp add: appendByZeroLen_def append_rle0_def getLastType_eq append_rle0_loop.simps [of _ _ "_ # _"] Let_def)
qed

lemma append_rle0_append:
  assumes "ss_ok self s" "length s + length (d1 @ d2) < 2 ^ 64"
  shows "\<exists>self1. append_rle0 self d1 = Ok self1 \<and> ss_ok self1 (s @ d1)"
  using append_rle0_result [OF assms(1), of d1] assms(2) by auto

section \<open>Properties\<close>

text \<open>Pieces appended one after another, and the end.\<close>

fun append_pieces :: "TSingleStreamRLE0 \<Rightarrow> byte list list \<Rightarrow> TSingleStreamRLE0 res" where
  "append_pieces self [] = finishAppend_rle0 self"
| "append_pieces self (d # ds) = rbind (append_rle0 self d) (\<lambda>self. append_pieces self ds)"

lemma append_pieces_result:
  "ss_ok self s \<Longrightarrow> length s + length (concat ds) < 2 ^ 64 \<Longrightarrow>
   \<exists>self'. append_pieces self ds = Ok self' \<and> rle0_spec True (s0_fixed_code self') = s @ concat ds"
proof (induction ds arbitrary: self s)
  case Nil
  then show ?case using finishAppend_rle0_result [of self s] by auto
next
  case (Cons d ds)
  obtain self1 where 1: "append_rle0 self d = Ok self1" "ss_ok self1 (s @ d)"
    using append_rle0_result [OF Cons.prems(1), of d] Cons.prems(2) by auto
  from Cons.IH [OF 1(2)] Cons.prems(2) 1(1) show ?case by simp
qed

text \<open>C24: what \<open>TSingleStreamRLE0\<close> writes for any pieces appended one after another, the zero-run
  decoder of single-stream diffs reads back; the assertion in \<open>getLastType\<close> holds throughout.\<close>

theorem rle0_code_roundtrip:
  assumes "length (concat ds) < 2 ^ 64"
  shows "\<exists>self. append_pieces TSingleStreamRLE0_init ds = Ok self \<and>
    rle0_rest (rle0_decoder_init (s0_fixed_code self)) = concat ds"
  using append_pieces_result [OF ss_ok_init, of ds] assms by simp

theorem rle0_code_roundtrip_witness:
  "\<exists>self. append_pieces TSingleStreamRLE0_init [[0, 0, 4], [0], [], [7, 7, 0]] = Ok self \<and>
    rle0_rest (rle0_decoder_init (s0_fixed_code self)) = [0, 0, 4, 0, 7, 7, 0]"
  using rle0_code_roundtrip [of "[[0, 0, 4], [0], [], [7, 7, 0]]"] by simp

text \<open>The code of nothing.\<close>

lemma finish_nothing: "out_0_loop [] 0 = Ok [0]"
  by (subst out_0_loop.simps)
    (simp add: kMaxBytesRleLen_def packUInt_def packUIntWithTag_def hpatch_packUIntWithTag_def pack_groups.simps [of _ 0]
      hpatch_kMaxPackedUIntBytes_def)

text \<open>C25: \<open>maxCodeSize\<close> announces, without writing anything, exactly the size of the code after the
  bytes are appended and the code is finished, modulo \<open>2 ^ 64\<close>; except when there is no code yet and nothing
  was or is appended: then it announces 0, and finishing writes one byte.\<close>

theorem maxCodeSize_exact:
  assumes "ss_ok self s" "length s + length d < 2 ^ 64" "length (s0_fixed_code self) < 2 ^ 64"
  shows "\<exists>self1 self2. append_rle0 self d = Ok self1 \<and> finishAppend_rle0 self1 = Ok self2 \<and>
    (if s0_fixed_code self = [] \<and> s @ d = [] then maxCodeSize self d = Ok 0 \<and> length (s0_fixed_code self2) = 1
     else maxCodeSize self d = Ok (length (s0_fixed_code self2) mod 2 ^ 64))"
proof -
  from append_rle0_result [OF assms(1,2)] obtain self1 where 1: "append_rle0 self d = Ok self1" "ss_ok self1 (s @ d)"
    "case ss_sizes self of (lt, n0, nv, f) \<Rightarrow> max_code_loop lt n0 nv f d = ss_sizes self1"
    by (elim exE conjE)
  have max: "maxCodeSize self d = Ok (max_code_end (ss_sizes self1))"
    using 1(3) assms(3) by (simp add: maxCodeSize_def getLastType_eq [OF assms(1)] ss_sizes_def)
  have "length (s @ d) < 2 ^ 64" using assms(2) by simp
  from finishAppend_rle0_result [OF 1(2) this] obtain self2 where
    2: "finishAppend_rle0 self1 = Ok self2" "s0_fixed_code self1 \<noteq> [] \<or> s @ d \<noteq> [] \<longrightarrow>
      max_code_end (ss_sizes self1) = length (s0_fixed_code self2) mod 2 ^ 64" by blast
  show ?thesis
  proof (cases "s @ d = []")
    case True
    then have d: "d = []" "s0_len0 self = 0" "s0_uncompressData self = []" using ss_ok_length [OF assms(1)] by auto
    then have "self1 = self" using 1(1) getLastType_eq [OF assms(1)] by (simp add: append_rle0_def append_rle0_loop.simps [of _ _ "[]"])
    moreover have "max_code_end (ss_sizes self) = 0 \<and> length (s0_fixed_code self2) = 1" if "s0_fixed_code self = []"
      using 2(1) that d \<open>self1 = self\<close>
      by (auto simp: finishAppend_rle0_def out_0Data_def finish_nothing ss_sizes_def ss_last_def max_code_end_def)
    ultimately show ?thesis using 1(1) 2 max by auto
  qed (use 1(1) 2 max in auto)
qed

theorem maxCodeSize_exact_witness:
  "\<exists>self1 self2. append_rle0 TSingleStreamRLE0_init [0, 0, 9] = Ok self1 \<and> finishAppend_rle0 self1 = Ok self2 \<and>
    (if s0_fixed_code TSingleStreamRLE0_init = [] \<and> [] @ [0, 0, 9 :: byte] = [] then
       maxCodeSize TSingleStreamRLE0_init [0, 0, 9] = Ok 0 \<and> length (s0_fixed_code self2) = 1
     else maxCodeSize TSingleStreamRLE0_init [0, 0, 9] = Ok (length (s0_fixed_code self2) mod 2 ^ 64))"
  by (rule maxCodeSize_exact [OF ss_ok_init]) (simp_all add: TSingleStreamRLE0_init_def)

text \<open>With a positive number of zeros, \<open>maxCodeSizeByZeroLen\<close> and \<open>appendByZeroLen\<close> do what
  \<open>maxCodeSize\<close> and \<open>append\<close> do with that many zero bytes.\<close>

lemma zeroLen_is_zeros:
  assumes "ss_ok self s" "length s + k < 2 ^ 64" "0 < k"
  shows "appendByZeroLen self k = append_rle0 self (replicate k 0) \<and>
    maxCodeSizeByZeroLen self k = maxCodeSize self (replicate k 0)"
proof
  show "appendByZeroLen self k = append_rle0 self (replicate k 0)" by (rule appendByZeroLen_eq [OF assms(1,2)])
  obtain n where n: "k = Suc n" using assms(3) by (cases k) auto
  show "maxCodeSizeByZeroLen self k = maxCodeSize self (replicate k 0)"
  proof -
    have "max_code_loop lt n0 nv f (replicate k 0) =
        (lastType_same, add64 n0 k, if lt = lastType_v then 0 else nv,
         if lt = lastType_v then add64 f (out_uncompressData_codeSize 0 nv) else f)" for lt n0 nv f
      unfolding n replicate_Suc by (subst max_code_loop.simps) (simp add: zero_scan_zeros Let_def)
    then show ?thesis
      by (cases "ss_last self") (simp_all add: maxCodeSizeByZeroLen_def maxCodeSize_def getLastType_eq [OF assms(1)] n Let_def del: replicate_Suc)
  qed
qed

text \<open>C26: but for no zeros at all \<open>maxCodeSizeByZeroLen\<close> leaves out what is still pending: whenever a
  coder has zeros or literal bytes it has not coded yet, the size announced for appending no zeros is
  less than the size of the code after appending none and finishing.\<close>

theorem zeroLen_0_leaves_out_pending:
  assumes "ss_ok self s" "length s < 2 ^ 64" "0 < s0_len0 self \<or> s0_uncompressData self \<noteq> []"
  shows "\<exists>self2. appendByZeroLen self 0 = Ok self \<and> finishAppend_rle0 self = Ok self2 \<and>
    maxCodeSizeByZeroLen self 0 = Ok (length (s0_fixed_code self)) \<and> length (s0_fixed_code self) < length (s0_fixed_code self2)"
proof -
  have zero: "appendByZeroLen self 0 = Ok self" "maxCodeSizeByZeroLen self 0 = Ok (length (s0_fixed_code self))"
    by (simp_all add: appendByZeroLen_def maxCodeSizeByZeroLen_def)
  have "\<exists>self2. finishAppend_rle0 self = Ok self2 \<and> length (s0_fixed_code self) < length (s0_fixed_code self2)"
  proof (cases "s0_uncompressData self = []")
    case True
    from out_0Data_result [OF assms(1) True assms(2)] True assms(3) show ?thesis by (auto simp: finishAppend_rle0_def)
  next
    case False
    then have f: "s0_len0 self = 0" "s0_fixed_code self \<noteq> []" using assms(1) by (simp_all add: ss_ok_def)
    have "length (s0_uncompressData self) < 2 ^ 64" using assms(2) ss_ok_length [OF assms(1)] by linarith
    from out_v_loop_result [OF this] obtain c where "out_v_loop (s0_fixed_code self) (s0_uncompressData self) = Ok (s0_fixed_code self @ c)" "c \<noteq> []"
      by blast
    then show ?thesis using False f by (simp add: finishAppend_rle0_def out_uncompressData_def)
  qed
  then show ?thesis using zero by blast
qed

theorem zeroLen_0_leaves_out_pending_witness:
  "\<exists>self self2. appendByZeroLen TSingleStreamRLE0_init 5 = Ok self \<and> appendByZeroLen self 0 = Ok self \<and> finishAppend_rle0 self = Ok self2 \<and>
    maxCodeSizeByZeroLen self 0 = Ok (length (s0_fixed_code self)) \<and> length (s0_fixed_code self) < length (s0_fixed_code self2)"
proof -
  obtain self where self: "appendByZeroLen TSingleStreamRLE0_init 5 = Ok self" "ss_ok self (replicate 5 0)" "s0_len0 self = 5"
  proof
    show "appendByZeroLen TSingleStreamRLE0_init 5 = Ok (TSingleStreamRLE0_init\<lparr>s0_len0 := 5\<rparr>)"
      by (simp add: appendByZeroLen_def getLastType_def TSingleStreamRLE0_init_def add64_def)
    show "ss_ok (TSingleStreamRLE0_init\<lparr>s0_len0 := 5\<rparr>) (replicate 5 0)"
      unfolding ss_ok_def by (simp add: TSingleStreamRLE0_init_def exI [of _ "[]"])
  qed (simp add: TSingleStreamRLE0_init_def)
  from zeroLen_0_leaves_out_pending [OF self(2)] self(1,3) show ?thesis by auto
qed

end
