(* ===== verification/SuffixString.thy ===== *)
theory SuffixString
  imports Prelude "HOL-Library.List_Lexorder"
begin

text \<open>
  \<open>TSuffixString\<close> of \<open>suffix_string.cpp\<close>: looking a string up among the sorted suffixes of the old
  data, by binary search within a range that a table gives for its first byte or, for more than
  2 MiB of data, its first two.  The suffixes are sorted by a library (a parameter); the filter of
  \<open>isUsedFastMatch\<close> is off.
\<close>

section \<open>The code\<close>

record TSuffixString =
  m_src :: "byte list"
  m_SA :: "nat list"
  m_cached1char_range :: "nat list"
  m_cached2char_range :: "nat list option"

definition SASize :: "TSuffixString \<Rightarrow> nat" where
  "SASize self = length (m_src self)"

definition kMaxCmpLength :: nat where
  "kMaxCmpLength = 1024 * 8"

text \<open>The comparison of a string with a suffix; \<open>None\<close> when they agree for \<open>kMaxCmpLength\<close> bytes.\<close>

fun cmp_loop :: "byte list \<Rightarrow> byte list \<Rightarrow> nat \<Rightarrow> (bool \<times> nat) option" where
  "cmp_loop [] ss eq_len = Some (False, eq_len)"
| "cmp_loop (v # vs) [] eq_len = Some (True, eq_len)"
| "cmp_loop (v # vs) (s # ss) eq_len =
     (if s = v then if eq_len + 1 < kMaxCmpLength then cmp_loop vs ss (eq_len + 1) else None
      else Some (s < v, eq_len))"

text \<open>\<open>_lower_bound\<close>; reading starts inside both strings or at their ends.\<close>

function lower_bound_loop :: "nat list \<Rightarrow> byte list \<Rightarrow> byte list \<Rightarrow> nat \<Rightarrow> nat \<Rightarrow> nat \<Rightarrow> nat \<Rightarrow> nat res" where
  "lower_bound_loop SA src str rbegin rend left_eq right_eq =
     rbind (require (rbegin \<le> rend)) (\<lambda>_.
     let len = rend - rbegin in
     if len = 0 then Ok rbegin
     else
       let mid = rbegin + len div 2; eq_len = (if left_eq \<le> right_eq then left_eq else right_eq) in
       rbind (require (mid < length SA)) (\<lambda>_.
       rbind (require (eq_len \<le> length str \<and> SA ! mid + eq_len \<le> length src)) (\<lambda>_.
       case cmp_loop (drop eq_len str) (drop (SA ! mid + eq_len) src) eq_len of
         None \<Rightarrow> Ok mid
       | Some (is_less, eq_len) \<Rightarrow>
           if is_less then lower_bound_loop SA src str (mid + 1) rend eq_len right_eq
           else lower_bound_loop SA src str rbegin mid left_eq eq_len)))"
  by pat_completeness auto
termination
  by (relation "measure (\<lambda>(SA, src, str, rb, re, l, r). re - rb)") auto

declare lower_bound_loop.simps [simp del]

text \<open>\<open>_build_range256\<close> and \<open>_build_range\<close>.\<close>

fun build_range :: "nat list \<Rightarrow> byte list \<Rightarrow> byte list list \<Rightarrow> nat \<Rightarrow> nat list res" where
  "build_range SA src [] pos = Ok []"
| "build_range SA src (str # strs) pos =
     rbind (lower_bound_loop SA src str pos (length SA) 0 0) (\<lambda>pos.
     rbind (build_range SA src strs pos) (\<lambda>rng.
     Ok (pos # rng)))"

definition build_range256 :: "nat list \<Rightarrow> byte list \<Rightarrow> nat list res" where
  "build_range256 SA src =
     rbind (build_range SA src (map (\<lambda>c. [of_nat c]) [0..<256]) 0) (\<lambda>rng. Ok (rng @ [length SA]))"

definition build_range65536 :: "nat list \<Rightarrow> byte list \<Rightarrow> nat list res" where
  "build_range65536 SA src =
     rbind (build_range SA src (map (\<lambda>cc. [of_nat (cc div 256), of_nat (cc mod 256)]) [0..<256 * 256]) 0) (\<lambda>rng.
     Ok (rng @ [length SA]))"

definition kUsedCacheMinSASize :: nat where
  "kUsedCacheMinSASize = 2 * (1 * 2 ^ 20)"

definition build_cache :: "byte list \<Rightarrow> nat list \<Rightarrow> TSuffixString res" where
  "build_cache src SA =
     (if SA = [] then Ok \<lparr>m_src = src, m_SA = SA, m_cached1char_range = replicate 257 0, m_cached2char_range = None\<rparr>
      else
        rbind (build_range256 SA src) (\<lambda>range1.
        rbind (if length src > kUsedCacheMinSASize then rbind (build_range65536 SA src) (\<lambda>r. Ok (Some r)) else Ok None) (\<lambda>range2.
        Ok \<lparr>m_src = src, m_SA = SA, m_cached1char_range = range1, m_cached2char_range = range2\<rparr>)))"

text \<open>Sorting the suffixes may fail; there is nothing to sort in no data.\<close>

definition resetSuffixString :: "(byte list \<Rightarrow> nat list option) \<Rightarrow> byte list \<Rightarrow> TSuffixString res" where
  "resetSuffixString divsufsort src = 
     (case (if src = [] then Some [] else divsufsort src) of None \<Rightarrow> Fail | Some SA \<Rightarrow> build_cache src SA)"

definition range_at :: "nat list \<Rightarrow> nat \<Rightarrow> nat res" where
  "range_at rng c = rbind (require (c < length rng)) (\<lambda>_. Ok (rng ! c))"

definition suffix_lower_bound :: "TSuffixString \<Rightarrow> byte list \<Rightarrow> nat res" where
  "suffix_lower_bound self str =
     (case m_cached2char_range self of
        Some rng \<Rightarrow>
          rbind (require (2 \<le> length str)) (\<lambda>_.
          let cc = unat (str ! 1) + 256 * unat (str ! 0) in
          rbind (range_at rng cc) (\<lambda>r0.
          rbind (range_at rng (cc + 1)) (\<lambda>r1.
          lower_bound_loop (m_SA self) (m_src self) str r0 r1 2 2)))
      | None \<Rightarrow>
          rbind (require (1 \<le> length str)) (\<lambda>_.
          let c = unat (str ! 0) in
          rbind (range_at (m_cached1char_range self) c) (\<lambda>r0.
          rbind (range_at (m_cached1char_range self) (c + 1)) (\<lambda>r1.
          lower_bound_loop (m_SA self) (m_src self) str r0 r1 1 1))))"

section \<open>Sorted suffixes\<close>

definition suffix_at :: "nat list \<Rightarrow> byte list \<Rightarrow> nat \<Rightarrow> byte list" where
  "suffix_at SA src i = drop (SA ! i) src"

definition suffix_array :: "byte list \<Rightarrow> nat list \<Rightarrow> bool" where
  "suffix_array src SA \<longleftrightarrow> length SA = length src \<and> (\<forall>i \<in> set SA. i < length src) \<and>
     sorted_wrt (\<lambda>i j. drop i src < drop j src) SA"

lemma suffix_array_mono: "suffix_array src SA \<Longrightarrow> i \<le> j \<Longrightarrow> j < length SA \<Longrightarrow> suffix_at SA src i \<le> suffix_at SA src j"
  by (cases "i = j") (auto simp: suffix_array_def suffix_at_def sorted_wrt_iff_nth_less intro: less_imp_le)

lemma suffix_array_in: "suffix_array src SA \<Longrightarrow> i < length SA \<Longrightarrow> SA ! i < length src"
  by (simp add: suffix_array_def)

text \<open>Two strings that agree in their first \<open>k\<close> bytes.\<close>

definition agree_upto :: "nat \<Rightarrow> byte list \<Rightarrow> byte list \<Rightarrow> bool" where
  "agree_upto k a b \<longleftrightarrow> k \<le> length a \<and> k \<le> length b \<and> take k a = take k b"

lemma agree_upto_0 [simp]: "agree_upto 0 a b"
  by (simp add: agree_upto_def)

lemma agree_upto_le: "agree_upto k a b \<Longrightarrow> j \<le> k \<Longrightarrow> agree_upto j a b"
proof -
  assume a: "agree_upto k a b" "j \<le> k"
  then have "take j (take k a) = take j (take k b)" by (simp add: agree_upto_def)
  then show ?thesis using a by (simp add: agree_upto_def min_absorb1)
qed

lemma agree_upto_Suc: "agree_upto (Suc k) a b \<longleftrightarrow> (\<exists>x a' b'. a = x # a' \<and> b = x # b' \<and> agree_upto k a' b')"
  by (cases a; cases b) (auto simp: agree_upto_def)

lemma agree_sandwich: "agree_upto k a s \<Longrightarrow> agree_upto k c s \<Longrightarrow> a \<le> b \<Longrightarrow> b \<le> c \<Longrightarrow> agree_upto k b s"
proof (induction k arbitrary: a b c s)
  case (Suc k)
  from Suc.prems(1,2) obtain x a' c' s' where o: "a = x # a'" "s = x # s'" "agree_upto k a' s'" "c = x # c'" "agree_upto k c' s'"
    by (auto simp: agree_upto_Suc)
  obtain y b' where b: "b = y # b'" using Suc.prems(3) o(1) by (cases b) auto
  have "x \<le> y" "y \<le> x" using Suc.prems(3,4) o(1,4) b by auto
  then have "y = x" by simp
  then have "a' \<le> b'" "b' \<le> c'" using Suc.prems(3,4) o(1,4) b by auto
  from Suc.IH [OF o(3,5) this] show ?case using o(2) b \<open>y = x\<close> by (auto simp: agree_upto_Suc)
qed simp

lemma agree_drop_less: "agree_upto k a b \<Longrightarrow> drop k a < drop k b \<longleftrightarrow> a < b"
proof (induction k arbitrary: a b)
  case (Suc k)
  then show ?case by (auto simp: agree_upto_Suc)
qed simp

lemma agree_drop_add: "agree_upto k a b \<Longrightarrow> agree_upto j (drop k a) (drop k b) \<Longrightarrow> agree_upto (k + j) a b"
proof (induction k arbitrary: a b)
  case (Suc k)
  then show ?case by (auto simp: agree_upto_Suc)
qed simp

lemma cmp_loop_result:
  "eq < kMaxCmpLength \<Longrightarrow>
   (case cmp_loop vs ss eq of
      None \<Rightarrow> agree_upto (kMaxCmpLength - eq) ss vs
    | Some (is_less, eq') \<Rightarrow> eq \<le> eq' \<and> eq' < kMaxCmpLength \<and> agree_upto (eq' - eq) ss vs \<and> (is_less \<longleftrightarrow> ss < vs))"
proof (induction vs ss eq rule: cmp_loop.induct)
  case (3 v vs s ss eq)
  show ?case
  proof (cases "s = v \<and> eq + 1 < kMaxCmpLength")
    case True
    then have d: "kMaxCmpLength - eq = Suc (kMaxCmpLength - Suc eq)" by linarith
    have e: "eq' - eq = Suc (eq' - Suc eq)" if "Suc eq \<le> eq'" for eq' using that by linarith
    from "3.IH" True show ?thesis by (auto simp: d agree_upto_Suc e split: option.splits)
  next
    case False
    show ?thesis
    proof (cases "s = v")
      case True
      with False "3.prems" have "kMaxCmpLength - eq = Suc 0" by linarith
      with True False show ?thesis by (simp add: agree_upto_Suc)
    next
      case False
      with "3.prems" show ?thesis by simp
    qed
  qed
qed (auto simp: kMaxCmpLength_def)


text \<open>What a search leaves: the place of the string, or a suffix that agrees with it for very long.\<close>

definition lower_bound_ok :: "nat list \<Rightarrow> byte list \<Rightarrow> byte list \<Rightarrow> nat \<Rightarrow> bool" where
  "lower_bound_ok SA src str i \<longleftrightarrow>
     i \<le> length SA \<and> (\<forall>j < i. suffix_at SA src j < str) \<and> (\<forall>j. i \<le> j \<and> j < length SA \<longrightarrow> \<not> suffix_at SA src j < str)"

definition long_match :: "nat list \<Rightarrow> byte list \<Rightarrow> byte list \<Rightarrow> nat \<Rightarrow> bool" where
  "long_match SA src str i \<longleftrightarrow> i < length SA \<and> agree_upto kMaxCmpLength (suffix_at SA src i) str"

text \<open>The ends of what is left agree with the string as far as was compared.\<close>

definition search_inv :: "nat list \<Rightarrow> byte list \<Rightarrow> byte list \<Rightarrow> nat \<Rightarrow> nat \<Rightarrow> nat \<Rightarrow> nat \<Rightarrow> nat \<Rightarrow> bool" where
  "search_inv SA src str m rb re l r \<longleftrightarrow>
     rb \<le> re \<and> re \<le> length SA \<and> m \<le> l \<and> m \<le> r \<and> l < kMaxCmpLength \<and> r < kMaxCmpLength \<and>
     (\<forall>j < rb. suffix_at SA src j < str) \<and> (\<forall>j. re \<le> j \<and> j < length SA \<longrightarrow> \<not> suffix_at SA src j < str) \<and>
     (\<forall>j. rb \<le> j \<and> j < re \<longrightarrow> agree_upto m (suffix_at SA src j) str) \<and>
     (l = m \<or> 0 < rb \<and> agree_upto l (suffix_at SA src (rb - 1)) str) \<and>
     (r = m \<or> re < length SA \<and> agree_upto r (suffix_at SA src re) str)"

lemma search_inv_mid:
  assumes sa: "suffix_array src SA" and inv: "search_inv SA src str m rb re l r" and j: "rb \<le> j" "j < re"
  shows "agree_upto (min l r) (suffix_at SA src j) str"
proof (cases "l = m \<or> r = m")
  case True
  then have "min l r = m" using inv by (auto simp: search_inv_def)
  then show ?thesis using inv j by (simp add: search_inv_def)
next
  case False
  then have b: "0 < rb" "agree_upto l (suffix_at SA src (rb - 1)) str" "re < length SA" "agree_upto r (suffix_at SA src re) str"
    using inv by (auto simp: search_inv_def)
  have "suffix_at SA src (rb - 1) \<le> suffix_at SA src j" "suffix_at SA src j \<le> suffix_at SA src re"
    using suffix_array_mono [OF sa] j b(1,3) by simp_all
  from agree_sandwich [OF agree_upto_le [OF b(2)] agree_upto_le [OF b(4)] this] show ?thesis by simp
qed

lemma lower_bound_loop_result:
  assumes sa: "suffix_array src SA"
  shows "search_inv SA src str m rb re l r \<Longrightarrow>
    \<exists>i. lower_bound_loop SA src str rb re l r = Ok i \<and> i \<le> length SA \<and> (lower_bound_ok SA src str i \<or> long_match SA src str i)"
proof (induction "re - rb" arbitrary: rb re l r rule: less_induct)
  case less
  note inv = less.prems
  have b: "rb \<le> re" "re \<le> length SA" using inv by (simp_all add: search_inv_def)
  show ?case
  proof (cases "re = rb")
    case True
    then show ?thesis using inv by (auto simp: lower_bound_loop.simps search_inv_def lower_bound_ok_def)
  next
    case False
    define mid where "mid = rb + (re - rb) div 2"
    define eq where "eq = (if l \<le> r then l else r)"
    have mid: "rb \<le> mid" "mid < re" "mid < length SA" using False b by (auto simp: mid_def)
    have eq: "eq = min l r" "eq < kMaxCmpLength" using inv by (auto simp: eq_def search_inv_def)
    let ?s = "suffix_at SA src mid"
    have ag: "agree_upto eq ?s str" unfolding eq(1) by (rule search_inv_mid [OF sa inv mid(1,2)])
    have le: "SA ! mid < length src" by (rule suffix_array_in [OF sa mid(3)])
    have fit: "eq \<le> length str" "SA ! mid + eq \<le> length src" using ag le by (auto simp: agree_upto_def suffix_at_def)
    have ss: "drop (SA ! mid + eq) src = drop eq ?s" by (simp add: suffix_at_def add.commute)
    note step = lower_bound_loop.simps [of SA src str rb re l r, unfolded Let_def, folded mid_def eq_def]
    have "0 < re - rb" using False b by simp
    note step = step [unfolded ss]
    from cmp_loop_result [OF eq(2), where vs = "drop eq str" and ss = "drop eq ?s"] show ?thesis
    proof (cases "cmp_loop (drop eq str) (drop eq ?s) eq")
      case None
      with cmp_loop_result [OF eq(2), where vs = "drop eq str" and ss = "drop eq ?s"] have "agree_upto (kMaxCmpLength - eq) (drop eq ?s) (drop eq str)" by simp
      from agree_drop_add [OF ag this] have "long_match SA src str mid" using eq(2) mid(3) by (simp add: long_match_def)
      moreover have "lower_bound_loop SA src str rb re l r = Ok mid" using step None False b mid(3) fit by simp
      ultimately show ?thesis using mid(3) by auto
    next
      case (Some y)
      obtain is_less eq' where y: "y = (is_less, eq')" by fastforce
      from cmp_loop_result [OF eq(2), where vs = "drop eq str" and ss = "drop eq ?s"] Some y
      have c: "eq \<le> eq'" "eq' < kMaxCmpLength" "agree_upto (eq' - eq) (drop eq ?s) (drop eq str)" "is_less \<longleftrightarrow> ?s < str"
        using agree_drop_less [OF ag] by simp_all
      have ag': "agree_upto eq' ?s str" using agree_drop_add [OF ag c(3)] c(1) by simp
      have m: "m \<le> eq'" using inv c(1) by (auto simp: eq_def search_inv_def split: if_splits)
      show ?thesis
      proof (cases is_less)
        case True
        then have lt: "?s < str" using c(4) by simp
        have "suffix_at SA src j < str" if "j < mid + 1" for j
          using suffix_array_mono [OF sa, of j mid] that mid(3) lt by (simp add: le_less_trans)
        then have "search_inv SA src str m (mid + 1) re eq' r" using inv mid m c(2) ag' by (auto simp: search_inv_def)
        moreover have "re - (mid + 1) < re - rb" using mid by simp
        ultimately obtain i where "lower_bound_loop SA src str (mid + 1) re eq' r = Ok i" "i \<le> length SA"
          "lower_bound_ok SA src str i \<or> long_match SA src str i" using less.hyps by blast
        moreover have "lower_bound_loop SA src str rb re l r = lower_bound_loop SA src str (mid + 1) re eq' r"
          using step Some y True False b mid(3) fit by simp
        ultimately show ?thesis by auto
      next
        case nl: False
        then have ge: "\<not> ?s < str" using c(4) by simp
        have "\<not> suffix_at SA src j < str" if "mid \<le> j" "j < length SA" for j
          using suffix_array_mono [OF sa, of mid j] that ge by (meson le_less_trans)
        then have "search_inv SA src str m rb mid l eq'" using inv mid m c(2) ag' by (auto simp: search_inv_def)
        moreover have "mid - rb < re - rb" using mid by simp
        ultimately obtain i where "lower_bound_loop SA src str rb mid l eq' = Ok i" "i \<le> length SA"
          "lower_bound_ok SA src str i \<or> long_match SA src str i" using less.hyps by blast
        moreover have "lower_bound_loop SA src str rb re l r = lower_bound_loop SA src str rb mid l eq'"
          using step Some y nl False b mid(3) fit by simp
        ultimately show ?thesis by auto
      qed
    qed
  qed
qed

lemma lower_bound_loop_short:
  assumes sa: "suffix_array src SA" and inv: "search_inv SA src str 0 rb (length SA) 0 0" and s: "length str < kMaxCmpLength"
  shows "\<exists>i. lower_bound_loop SA src str rb (length SA) 0 0 = Ok i \<and> lower_bound_ok SA src str i"
  using lower_bound_loop_result [OF sa inv] s by (auto simp: long_match_def agree_upto_def)

section \<open>The tables\<close>

text \<open>A table of the places of the strings \<open>f c\<close>, from one on.\<close>

lemma build_range_result:
  assumes sa: "suffix_array src SA"
  shows "sorted_wrt (<) strs \<Longrightarrow> \<forall>s \<in> set strs. length s < kMaxCmpLength \<and> (\<forall>j < pos. suffix_at SA src j < s) \<Longrightarrow>
    pos \<le> length SA \<Longrightarrow>
    \<exists>rng. build_range SA src strs pos = Ok rng \<and> length rng = length strs \<and>
      (\<forall>i < length strs. lower_bound_ok SA src (strs ! i) (rng ! i))"
proof (induction strs arbitrary: pos)
  case (Cons s strs)
  have "search_inv SA src s 0 pos (length SA) 0 0" using Cons.prems(2,3) by (simp add: search_inv_def kMaxCmpLength_def)
  then obtain p where p: "lower_bound_loop SA src s pos (length SA) 0 0 = Ok p" "lower_bound_ok SA src s p"
    using lower_bound_loop_short [OF sa] Cons.prems(2) by fastforce
  have "\<forall>t \<in> set strs. length t < kMaxCmpLength \<and> (\<forall>j < p. suffix_at SA src j < t)"
    using Cons.prems(1,2) p(2) by (auto simp: lower_bound_ok_def intro: less_trans)
  with Cons.IH [of p] Cons.prems(1) p(2) obtain rng where
    "build_range SA src strs p = Ok rng" "length rng = length strs" "\<forall>i < length strs. lower_bound_ok SA src (strs ! i) (rng ! i)"
    by (auto simp: lower_bound_ok_def)
  then show ?case using p by (auto simp: nth_Cons split: nat.splits)
qed simp

definition strs256 :: "byte list list" where
  "strs256 = map (\<lambda>c. [of_nat c]) [0..<256]"

definition strs65536 :: "byte list list" where
  "strs65536 = map (\<lambda>cc. [of_nat (cc div 256), of_nat (cc mod 256)]) [0..<256 * 256]"

lemma byte_of_nat_less: "c < 256 \<Longrightarrow> d < 256 \<Longrightarrow> (of_nat c :: byte) < of_nat d \<longleftrightarrow> c < d"
  by (simp add: word_less_nat_alt unsigned_of_nat take_bit_nat_eq_self)

lemma byte_of_nat_eq: "c < 256 \<Longrightarrow> d < 256 \<Longrightarrow> (of_nat c :: byte) = of_nat d \<longleftrightarrow> c = d"
  by (metis byte_of_nat_less less_irrefl linorder_neqE_nat)

lemma strs256: "sorted_wrt (<) strs256" "length strs256 = 256" "c < 256 \<Longrightarrow> strs256 ! c = [of_nat c]"
  by (auto simp: strs256_def sorted_wrt_iff_nth_less byte_of_nat_less simp del: upt_Suc)

lemma strs65536: "sorted_wrt (<) strs65536" "length strs65536 = 65536"
  "cc < 65536 \<Longrightarrow> strs65536 ! cc = [of_nat (cc div 256), of_nat (cc mod 256)]"
proof -
  have "[of_nat (c div 256), of_nat (c mod 256)] < [of_nat (d div 256) :: byte, of_nat (d mod 256)]" if "c < d" "d < 65536" for c d :: nat
  proof -
    have le: "c div 256 \<le> d div 256" using that(1) by (simp add: div_le_mono)
    have "c div 256 < 256" "d div 256 < 256" using that by (auto intro: less_mult_imp_div_less)
    moreover have "c div 256 = d div 256 \<Longrightarrow> c mod 256 < d mod 256"
      using that(1) div_mult_mod_eq [of c 256] div_mult_mod_eq [of d 256] by linarith
    ultimately show ?thesis using le by (auto simp: byte_of_nat_less byte_of_nat_eq)
  qed
  then show "sorted_wrt (<) strs65536" by (simp add: strs65536_def sorted_wrt_iff_nth_less del: upt_Suc)
qed (simp_all add: strs65536_def del: upt_Suc)

lemma table_result:
  assumes sa: "suffix_array src SA" and s: "sorted_wrt (<) strs" "\<forall>s \<in> set strs. length s < kMaxCmpLength"
  shows "\<exists>rng. rbind (build_range SA src strs 0) (\<lambda>rng. Ok (rng @ [length SA])) = Ok rng \<and> length rng = length strs + 1 \<and>
    (\<forall>i < length strs. lower_bound_ok SA src (strs ! i) (rng ! i)) \<and> rng ! length strs = length SA"
proof -
  obtain r where "build_range SA src strs 0 = Ok r" "length r = length strs" "\<forall>i < length strs. lower_bound_ok SA src (strs ! i) (r ! i)"
    using build_range_result [OF sa s(1), of 0] s(2) by auto
  then show ?thesis by (auto simp: nth_append)
qed

lemma build_range256_result:
  assumes "suffix_array src SA"
  shows "\<exists>rng. build_range256 SA src = Ok rng \<and> length rng = 257 \<and>
    (\<forall>c < 256. lower_bound_ok SA src [of_nat c] (rng ! c)) \<and> rng ! 256 = length SA"
proof -
  have "\<forall>s \<in> set strs256. length s < kMaxCmpLength" by (auto simp: strs256_def kMaxCmpLength_def)
  from table_result [OF assms strs256(1) this] show ?thesis
    unfolding build_range256_def strs256_def [symmetric] strs256(2) by (auto simp: strs256(3))
qed

lemma build_range65536_result:
  assumes "suffix_array src SA"
  shows "\<exists>rng. build_range65536 SA src = Ok rng \<and> length rng = 65537 \<and>
    (\<forall>cc < 65536. lower_bound_ok SA src [of_nat (cc div 256), of_nat (cc mod 256)] (rng ! cc)) \<and> rng ! 65536 = length SA"
proof -
  have "\<forall>s \<in> set strs65536. length s < kMaxCmpLength" by (auto simp: strs65536_def kMaxCmpLength_def)
  from table_result [OF assms strs65536(1) this] show ?thesis
    unfolding build_range65536_def strs65536_def [symmetric] strs65536(2) by (auto simp: strs65536(3))
qed

section \<open>Looking up\<close>

text \<open>The suffix strings of data of at most 2 MiB, and of more.\<close>

definition sstring_ok :: "byte list \<Rightarrow> TSuffixString \<Rightarrow> bool" where
  "sstring_ok src self \<longleftrightarrow>
     m_src self = src \<and> suffix_array src (m_SA self) \<and> length (m_cached1char_range self) = 257 \<and>
     (\<forall>c < 256. lower_bound_ok (m_SA self) src [of_nat c] (m_cached1char_range self ! c)) \<and>
     m_cached1char_range self ! 256 = length (m_SA self) \<and>
     (if length src \<le> kUsedCacheMinSASize then m_cached2char_range self = None
      else \<exists>rng. m_cached2char_range self = Some rng \<and> length rng = 65537 \<and>
        (\<forall>cc < 65536. lower_bound_ok (m_SA self) src [of_nat (cc div 256), of_nat (cc mod 256)] (rng ! cc)) \<and>
        rng ! 65536 = length (m_SA self))"

lemma build_cache_ok:
  assumes sa: "suffix_array src SA"
  shows "\<exists>self. build_cache src SA = Ok self \<and> sstring_ok src self"
proof (cases "SA = []")
  case True
  then have "src = []" using sa by (simp add: suffix_array_def)
  then show ?thesis using True sa by (simp add: build_cache_def sstring_ok_def lower_bound_ok_def)
next
  case False
  obtain r1 where r1: "build_range256 SA src = Ok r1" "length r1 = 257"
    "\<forall>c < 256. lower_bound_ok SA src [of_nat c] (r1 ! c)" "r1 ! 256 = length SA"
    using build_range256_result [OF sa] by blast
  obtain r2 where r2: "build_range65536 SA src = Ok r2" "length r2 = 65537"
    "\<forall>cc < 65536. lower_bound_ok SA src [of_nat (cc div 256), of_nat (cc mod 256)] (r2 ! cc)" "r2 ! 65536 = length SA"
    using build_range65536_result [OF sa] by blast
  show ?thesis using False r1 r2 sa by (simp add: build_cache_def sstring_ok_def)
qed

lemma suffix_nonempty: "suffix_array src SA \<Longrightarrow> j < length SA \<Longrightarrow> suffix_at SA src j \<noteq> []"
  using suffix_array_in [of src SA j] by (simp add: suffix_at_def)

lemma lower_bound_okD:
  "lower_bound_ok SA src str i \<Longrightarrow> j < i \<Longrightarrow> suffix_at SA src j < str"
  "lower_bound_ok SA src str i \<Longrightarrow> i \<le> j \<Longrightarrow> j < length SA \<Longrightarrow> str \<le> suffix_at SA src j"
  "lower_bound_ok SA src str i \<Longrightarrow> i \<le> length SA"
  by (auto simp: lower_bound_ok_def)

lemma lower_bound_ok_mono:
  "lower_bound_ok SA src a i \<Longrightarrow> lower_bound_ok SA src b j \<Longrightarrow> a \<le> b \<Longrightarrow> i \<le> j"
proof (rule ccontr)
  assume "lower_bound_ok SA src a i" "lower_bound_ok SA src b j" "a \<le> b" "\<not> i \<le> j"
  then have "suffix_at SA src j < a" "b \<le> suffix_at SA src j" using lower_bound_okD [of SA src a i] lower_bound_okD [of SA src b j] by auto
  then show False using \<open>a \<le> b\<close> by (simp add: leD le_less_trans order.strict_trans2)
qed

text \<open>The range of a byte holds the suffixes that begin with it.\<close>

lemma range256_inv:
  assumes ok: "sstring_ok src self" and s: "str = b # rest"
  shows "search_inv (m_SA self) src str 1 (m_cached1char_range self ! unat b) (m_cached1char_range self ! (unat b + 1)) 1 1"
proof -
  let ?SA = "m_SA self" and ?r = "m_cached1char_range self"
  define c where "c = unat b"
  have c: "c < 256" "of_nat c = b" by (simp_all add: c_def)
  have sa: "suffix_array src ?SA" and lo: "lower_bound_ok ?SA src [b] (?r ! c)"
    using ok c by (auto simp: sstring_ok_def)
  have hi: "?r ! (c + 1) \<le> length ?SA \<and> ?r ! c \<le> ?r ! (c + 1) \<and>
    (\<forall>j < length ?SA. if j < ?r ! (c + 1) then hd (suffix_at ?SA src j) \<le> b else b < hd (suffix_at ?SA src j))"
  proof (cases "c = 255")
    case True
    have "unat x < 256" for x :: byte by simp
    then have "x \<le> b" for x using True by (simp only: word_le_nat_alt c_def [symmetric]) (use less_Suc_eq_le in fastforce)
    then show ?thesis using True ok lower_bound_okD(3) [OF lo] by (simp add: sstring_ok_def)
  next
    case False
    then have c1: "c + 1 < 256" using c by simp
    let ?d = "of_nat (c + 1) :: byte"
    have up: "lower_bound_ok ?SA src [?d] (?r ! (c + 1))" using ok c1 unfolding sstring_ok_def by blast
    have bd: "x \<le> b \<longleftrightarrow> x < ?d" for x
    proof -
      have "unat ?d = c + 1" using c1 by (simp only: unsigned_of_nat) (simp add: take_bit_nat_eq_self)
      then show ?thesis by (simp only: word_le_nat_alt word_less_nat_alt c_def [symmetric] less_Suc_eq_le add_Suc_right add_0_right One_nat_def)
    qed
    have "[b] \<le> [?d]" using bd [of b] by simp
    from lower_bound_ok_mono [OF lo up this] have le: "?r ! c \<le> ?r ! (c + 1)" .
    have "if j < ?r ! (c + 1) then hd (suffix_at ?SA src j) \<le> b else b < hd (suffix_at ?SA src j)" if j: "j < length ?SA" for j
    proof -
      obtain x xs where x: "suffix_at ?SA src j = x # xs" using suffix_nonempty [OF sa j] by (cases "suffix_at ?SA src j") auto
      show ?thesis using lower_bound_okD(1,2) [OF up, of j] j x bd [of x] by (auto simp: not_less)
    qed
    then show ?thesis using lower_bound_okD(3) [OF up] le by blast
  qed
  have hd_lo: "if j < ?r ! c then hd (suffix_at ?SA src j) < b else b \<le> hd (suffix_at ?SA src j)" if j: "j < length ?SA" for j
  proof -
    obtain x xs where x: "suffix_at ?SA src j = x # xs" using suffix_nonempty [OF sa j] by (cases "suffix_at ?SA src j") auto
    show ?thesis using lower_bound_okD(1,2) [OF lo, of j] j x by (auto simp: not_less)
  qed
  have "suffix_at ?SA src j < str" if "j < ?r ! c" for j
  proof -
    have j: "j < length ?SA" using that hi by linarith
    obtain x xs where x: "suffix_at ?SA src j = x # xs" using suffix_nonempty [OF sa j] by (cases "suffix_at ?SA src j") auto
    show ?thesis using hd_lo [OF j] that x s by auto
  qed
  moreover have "\<not> suffix_at ?SA src j < str" if "?r ! (c + 1) \<le> j \<and> j < length ?SA" for j
  proof -
    have j: "j < length ?SA" using that by simp
    obtain x xs where x: "suffix_at ?SA src j = x # xs" using suffix_nonempty [OF sa j] by (cases "suffix_at ?SA src j") auto
    show ?thesis using hi that x s by (auto simp: not_less)
  qed
  moreover have "agree_upto 1 (suffix_at ?SA src j) str" if "?r ! c \<le> j \<and> j < ?r ! (c + 1)" for j
  proof -
    have j: "j < length ?SA" using that hi by linarith
    obtain x xs where x: "suffix_at ?SA src j = x # xs" using suffix_nonempty [OF sa j] by (cases "suffix_at ?SA src j") auto
    have "x \<le> b" using hi that j x by (metis list.sel(1))
    then have "x = b" using hd_lo [OF j] that x by auto
    then show ?thesis using x s by (simp add: agree_upto_Suc)
  qed
  ultimately show ?thesis using hi by (simp add: search_inv_def kMaxCmpLength_def c_def)
qed

lemma suffix_lower_bound_result:
  assumes ok: "sstring_ok src self" and s: "str \<noteq> []" and small: "length src \<le> kUsedCacheMinSASize"
  shows "\<exists>i. suffix_lower_bound self str = Ok i \<and> i \<le> length (m_SA self) \<and>
    (lower_bound_ok (m_SA self) src str i \<or> long_match (m_SA self) src str i)"
proof -
  obtain b rest where b: "str = b # rest" using s by (cases str) auto
  have l: "length (m_cached1char_range self) = 257" "m_cached2char_range self = None" "m_src self = src" "suffix_array src (m_SA self)"
    using ok small by (simp_all add: sstring_ok_def)
  have u: "unat b < 257" "unat b + 1 < 257" using unat_byte_less [of b] by linarith+
  from lower_bound_loop_result [OF l(4) range256_inv [OF ok b]] show ?thesis
    using l by (simp add: suffix_lower_bound_def range_at_def b Let_def u del: One_nat_def)
qed

section \<open>The table of two bytes\<close>

text \<open>
  The last suffix \<open>[b]\<close> lies in the range of the bytes \<open>(b - 1, 255)\<close>, where every suffix is
  taken to begin with two bytes; when it is compared, \<open>_lower_bound\<close> reads behind the data.
\<close>

lemma range65536_last:
  assumes sa: "suffix_array src SA" and b: "src \<noteq> []" "last src = b" "b \<noteq> 0"
    and lo: "lower_bound_ok SA src [b - 1, 255] i" and hi: "lower_bound_ok SA src [b, 0] j"
    and no: "\<forall>k. Suc k < length src \<longrightarrow> \<not> (src ! k = b - 1 \<and> src ! Suc k = 255)"
  shows "j = Suc i \<and> j \<le> length SA \<and> SA ! i = length src - 1"
proof -
  have u: "unat (b - 1) = unat b - 1" "0 < unat b" using b(3) by (auto simp: unat_minus_one unat_gt_0)
  have bb: "b - 1 < b" using u by (simp add: word_less_nat_alt)
  have perm: "distinct SA"
  proof -
    have "SA ! x \<noteq> SA ! y" if "x < y" "y < length SA" for x y
    proof -
      have "drop (SA ! x) src < drop (SA ! y) src" using sa that by (simp add: suffix_array_def sorted_wrt_iff_nth_less)
      then show ?thesis by auto
    qed
    then show ?thesis by (metis distinct_conv_nth linorder_neqE_nat)
  qed
  then have "card (set SA) = length src" using sa by (simp add: suffix_array_def distinct_card)
  then have "set SA = {..<length src}" using sa by (intro card_subset_eq) (auto simp: suffix_array_def)
  then obtain p where p: "p < length SA" "SA ! p = length src - 1" 
  proof -
    have "length src - 1 \<in> set SA" using \<open>set SA = {..<length src}\<close> b(1) by simp
    then show ?thesis using that by (auto simp: in_set_conv_nth)
  qed
  obtain front where "src = front @ [b]" using b(1,2) by (cases src rule: rev_cases) auto
  then have sp: "suffix_at SA src p = [b]" using p(2) by (simp add: suffix_at_def)
  have "\<not> p < i" using lower_bound_okD(1) [OF lo, of p] sp bb by auto
  then have ip: "i \<le> p" by simp
  have "\<not> j \<le> p" using lower_bound_okD(2) [OF hi, of p] sp p(1) by auto
  then have pj: "p < j" by simp
  have only: "k = p" if k: "i \<le> k" "k < j" for k
  proof -
    have kl: "k < length SA" using k(2) lower_bound_okD(3) [OF hi] by linarith
    let ?s = "suffix_at SA src k"
    have s: "[b - 1, 255] \<le> ?s" "?s < [b, 0]" using lower_bound_okD(2) [OF lo k(1) kl] lower_bound_okD(1) [OF hi k(2)] by auto
    have mx: "x \<le> 255" for x :: byte using unat_byte_less [of x] by (simp add: word_le_nat_alt del: unat_byte_less)
    have z: "\<not> x < 0" for x :: byte by simp
    obtain x xs where x: "?s = x # xs" using suffix_nonempty [OF sa kl] by (cases ?s) auto
    have "x = b \<and> xs = []"
    proof (rule ccontr)
      assume n: "\<not> (x = b \<and> xs = [])"
      have "xs = []" if "x = b" using s(2) that by (cases xs) (auto simp: x)
      with n have "x < b" using s(2) by (auto simp: x)
      moreover have "b - 1 \<le> x" using s(1) by (auto simp: x)
      ultimately have "unat x = unat (b - 1)" using u by (simp add: word_less_nat_alt word_le_nat_alt)
      then have xb: "x = b - 1" by (simp only: word_unat_eq_iff)
      then obtain y ys where y: "xs = y # ys" "255 \<le> y" using s(1) by (cases xs) (auto simp: x)
      then have "y = 255" using mx [of y] by simp
      with xb x y(1) have d: "drop (SA ! k) src = (b - 1) # 255 # ys" by (simp add: suffix_at_def)
      then have "length (drop (SA ! k) src) = length ys + 2" by simp
      then have "Suc (SA ! k) < length src" by simp
      moreover have "src ! (SA ! k) = b - 1" "src ! Suc (SA ! k) = 255"
        using nth_drop [of "SA ! k" src 0] nth_drop [of "SA ! k" src 1] calculation by (simp_all add: d)
      ultimately show False using no by blast
    qed
    then have "?s = [b]" using x by simp
    then have "length src - SA ! k = 1" by (simp add: suffix_at_def) (metis length_drop length_Cons list.size(3) One_nat_def)
    then have "SA ! k = SA ! p" using p(2) by linarith
    then show ?thesis using perm kl p(1) by (simp add: nth_eq_iff_index_eq)
  qed
  have "p = i" using only [of i] ip pj by simp
  moreover have "j = Suc i" using only [of "Suc i"] pj \<open>p = i\<close> by (metis Suc_lessI le_Suc_eq n_not_Suc_n order_refl)
  ultimately show ?thesis using p lower_bound_okD(3) [OF hi] by simp
qed

lemma suffix_lower_bound_two_bytes:
  assumes ok: "sstring_ok src self" and large: "kUsedCacheMinSASize < length src"
    and b: "last src = b" "b \<noteq> 0" and no: "\<forall>k. Suc k < length src \<longrightarrow> \<not> (src ! k = b - 1 \<and> src ! Suc k = 255)"
    and str: "str = (b - 1) # 255 # rest"
  shows "suffix_lower_bound self str = Fault"
proof -
  obtain rng where rng: "m_cached2char_range self = Some rng" "length rng = 65537"
    "\<And>cc. cc < 65536 \<Longrightarrow> lower_bound_ok (m_SA self) src [of_nat (cc div 256), of_nat (cc mod 256)] (rng ! cc)"
    and sa: "suffix_array src (m_SA self)" and src: "m_src self = src"
    using ok large by (auto simp: sstring_ok_def)
  define cc where "cc = unat (str ! 1) + 256 * unat (str ! 0)"
  have u: "unat (b - 1) = unat b - 1" "0 < unat b" using b(2) by (auto simp: unat_minus_one unat_gt_0)
  have cc: "cc = 255 + 256 * (unat b - 1)" using u by (simp add: cc_def str)
  have c1: "cc + 1 = 256 * unat b" using u(2) by (simp add: cc)
  have "unat b < 256" by simp
  then have lt: "cc < 65536" "cc + 1 < 65536" unfolding cc using u(2) by linarith+
  have "cc div 256 = unat b - 1" "cc mod 256 = 255" by (simp_all add: cc)
  moreover have "(of_nat (unat b - 1) :: byte) = b - 1" by (subst u(1) [symmetric]) simp
  ultimately have lo: "lower_bound_ok (m_SA self) src [b - 1, 255] (rng ! cc)" using rng(3) [OF lt(1)] by simp
  have hi: "lower_bound_ok (m_SA self) src [b, 0] (rng ! (cc + 1))" using rng(3) [OF lt(2)] unfolding c1 by simp
  have ne: "src \<noteq> []" using large by auto
  from range65536_last [OF sa ne b lo hi no]
  have r: "rng ! (cc + 1) = Suc (rng ! cc)" "rng ! cc < length (m_SA self)" "m_SA self ! (rng ! cc) = length src - 1" by auto
  have "\<not> m_SA self ! (rng ! cc) + 2 \<le> length src" using r(3) ne by (cases src) auto
  then have "lower_bound_loop (m_SA self) src str (rng ! cc) (Suc (rng ! cc)) 2 2 = Fault"
    using r(2) by (simp add: lower_bound_loop.simps)
  moreover have "suffix_lower_bound self str =
      rbind (range_at rng cc) (\<lambda>r0. rbind (range_at rng (cc + 1)) (\<lambda>r1. lower_bound_loop (m_SA self) src str r0 r1 2 2))"
    by (simp add: suffix_lower_bound_def rng(1) cc_def Let_def str src)
  ultimately show ?thesis using rng(2) lt r(1) by (simp add: range_at_def)
qed

lemma resetSuffixString_eq: "divsufsort src = Some SA \<Longrightarrow> suffix_array src SA \<Longrightarrow> resetSuffixString divsufsort src = build_cache src SA"
  by (auto simp: resetSuffixString_def suffix_array_def)

section \<open>Properties\<close>

text \<open>C35: \<open>lower_bound\<close> of a suffix string made over at most 2 MiB of data, with a table of ranges
  and comparisons that skip what is known to agree, finds the place of any non-empty string among
  the sorted suffixes, or a suffix that agrees with it for 8192 bytes; nothing outside the data is read.\<close>

theorem suffix_lower_bound_finds:
  assumes "divsufsort src = Some SA" "suffix_array src SA" "length src \<le> 2 * 2 ^ 20" "str \<noteq> []"
  shows "\<exists>self i. resetSuffixString divsufsort src = Ok self \<and> suffix_lower_bound self str = Ok i \<and> i \<le> length src \<and>
    (lower_bound_ok SA src str i \<or> long_match SA src str i)"
proof -
  obtain self where s: "build_cache src SA = Ok self" "sstring_ok src self" using build_cache_ok [OF assms(2)] by blast
  have "m_SA self = SA" using s(1) by (auto simp: build_cache_def rbind_eq_Ok split: if_splits)
  moreover have "length SA = length src" using assms(2) by (simp add: suffix_array_def)
  ultimately show ?thesis using suffix_lower_bound_result [OF s(2) assms(4)] s(1) assms(3)
      resetSuffixString_eq [where divsufsort = divsufsort, OF assms(1,2)] by (auto simp: kUsedCacheMinSASize_def)
qed

theorem suffix_lower_bound_finds_witness:
  "\<exists>self i. resetSuffixString (\<lambda>src. Some [1, 0]) [7, 5] = Ok self \<and> suffix_lower_bound self [6, 1] = Ok i \<and> i \<le> length [7, 5 :: byte] \<and>
    (lower_bound_ok [1, 0] [7, 5] [6, 1] i \<or> long_match [1, 0] [7, 5] [6, 1] i)"
  by (rule suffix_lower_bound_finds) (simp_all add: suffix_array_def)

text \<open>C38: Over more than 2 MiB of data that ends in a byte \<open>b > 0\<close>, looking up a string that begins
  with the bytes \<open>b - 1\<close> and 255, when these are nowhere in the data, reads outside of the data: the
  table of two bytes takes the last suffix for one that begins with both.\<close>

theorem suffix_lower_bound_reads_outside:
  assumes "divsufsort src = Some SA" "suffix_array src SA" "2 * 2 ^ 20 < length src" "last src = b" "b \<noteq> 0"
    and "\<forall>k. Suc k < length src \<longrightarrow> \<not> (src ! k = b - 1 \<and> src ! Suc k = 255)"
  shows "\<exists>self. resetSuffixString divsufsort src = Ok self \<and> suffix_lower_bound self ((b - 1) # 255 # x # rest) = Fault"
proof -
  obtain self where s: "build_cache src SA = Ok self" "sstring_ok src self" using build_cache_ok [OF assms(2)] by blast
  have "suffix_lower_bound self ((b - 1) # 255 # x # rest) = Fault"
    by (rule suffix_lower_bound_two_bytes [OF s(2) _ assms(4-6) refl]) (use assms(3) in \<open>simp add: kUsedCacheMinSASize_def\<close>)
  then show ?thesis using s(1) resetSuffixString_eq [where divsufsort = divsufsort, OF assms(1,2)] by simp
qed

lemma suffix_array_replicate: "suffix_array (replicate n x) (rev [0..<n])"
proof -
  have "replicate i x < replicate j x" if "i < j" for i j
  proof -
    have "j = i + Suc (j - i - 1)" using that by simp
    then have "replicate j x = replicate i x @ x # replicate (j - i - 1) x" by (metis replicate_add replicate_Suc)
    moreover have "a < a @ x # b" for a b :: "byte list" by (induction a) auto
    ultimately show ?thesis by simp
  qed
  then show ?thesis by (simp add: suffix_array_def sorted_wrt_iff_nth_less rev_nth)
qed

theorem suffix_lower_bound_reads_outside_witness:
  "\<exists>self. resetSuffixString (\<lambda>src. Some (rev [0..<length src])) (replicate (3 * 2 ^ 20) 7) = Ok self \<and>
    suffix_lower_bound self [6, 255, 1, 2, 3] = Fault"
proof -
  have "suffix_array (replicate (3 * 2 ^ 20) (7 :: byte)) (rev [0..<length (replicate (3 * 2 ^ 20) (7 :: byte))])"
    using suffix_array_replicate by simp
  from suffix_lower_bound_reads_outside [where divsufsort = "\<lambda>src. Some (rev [0..<length src])", OF refl this, where b = 7 and x = 1 and rest = "[2, 3]"]
  show ?thesis by simp
qed

end
