(* ===== verification/CompressDetect.thy ===== *)
theory CompressDetect
  imports PackUInt
begin

text \<open>
  \<open>compress_detect.h\<close> and \<open>compress_detect.cpp\<close>: estimates of what numbers and regions of data cost
  when they are stored.  A region is the list of its bytes; the bytes to subtract, where there are
  any, are a list of the same length.  \<open>size_t\<close> has 64 bits.
\<close>

section \<open>Numbers\<close>

text \<open>\<open>_getUIntCost\<close> and \<open>_getIntCost\<close> for numbers of 64 bits.\<close>

definition getUIntCost :: "nat \<Rightarrow> nat" where
  "getUIntCost v =
     (if drop_bit 28 (drop_bit 28 v) = 0 then
        let cost = 1;
            t = drop_bit 28 v;
            (v, cost) = (if t \<noteq> 0 then (t, cost + 4) else (v, cost));
            t = drop_bit 14 v;
            (v, cost) = (if t \<noteq> 0 then (t, cost + 2) else (v, cost));
            t = drop_bit 7 v;
            (v, cost) = (if t \<noteq> 0 then (t, cost + 1) else (v, cost))
        in cost
      else 9)"

definition getIntCost :: "int \<Rightarrow> nat" where
  "getIntCost v = getUIntCost (nat ((2 * (if 0 \<le> v then v else - v)) mod 2 ^ 64))"

section \<open>Regions\<close>

text \<open>\<open>d[i]-sub[i]\<close>, or \<open>d[i]\<close> where there is nothing to subtract.\<close>

definition region_sub :: "byte list \<Rightarrow> byte list option \<Rightarrow> byte list" where
  "region_sub d sub = (case sub of None \<Rightarrow> d | Some s \<Rightarrow> map2 (-) d s)"

text \<open>The runs of a region: their cost and the bytes that are not coded by their run alone.\<close>

function region_runs :: "byte list \<Rightarrow> nat \<times> byte list" where
  "region_runs [] = (0, [])"
| "region_runs (v # d) =
     (let len = 1 + length (takeWhile (\<lambda>x. x = v) d);
          (cost, out_nocompress) = region_runs (dropWhile (\<lambda>x. x = v) d)
      in if v = 0 \<or> v = 255 then (cost + 1, out_nocompress)
         else (cost + (if len \<le> 1 then 1 else 2), v # out_nocompress))"
  by pat_completeness auto
termination
  by (relation "measure length") (auto simp: less_Suc_eq_le length_dropWhile_le)

definition getRegionRleCost :: "byte list \<Rightarrow> byte list option \<Rightarrow> nat \<times> byte list" where
  "getRegionRleCost d sub = region_runs (dropWhile (\<lambda>x. x = 0) (region_sub d sub))"

section \<open>Detecting compressible data\<close>

text \<open>
  \<open>TCompressDetect\<close>: how often bytes and pairs of bytes occurred in the last \<open>kCacheSize\<close> bytes,
  which \<open>cache\<close>, a ring, holds.  No last byte is \<open>None\<close> here and \<open>-1\<close> in the code.
\<close>

record TCompressDetect =
  cd_sum :: nat
  cd_sum1char :: "byte \<Rightarrow> 32 word"
  cd_sum2char :: "byte \<Rightarrow> byte \<Rightarrow> 32 word"
  cd_cache :: "nat \<Rightarrow> byte"
  m_lastChar :: "byte option"
  m_lastPopChar :: "byte option"
  m_cacheBegin :: nat
  m_cacheEnd :: nat

definition kCacheSize :: nat where
  "kCacheSize = push_bit 19 1"

text \<open>The sum, the two tables of 32 bits and the first byte of the cache, padded.\<close>

definition sizeof_TCharConvTable :: nat where
  "sizeof_TCharConvTable = 4 + 4 * 256 + 4 * (256 * 256) + 4"

definition detect_clear :: "TCompressDetect \<Rightarrow> TCompressDetect" where
  "detect_clear self =
     (let self = (if m_lastChar self \<noteq> None
                  then self\<lparr>cd_sum := 0, cd_sum1char := (\<lambda>_. 0), cd_sum2char := (\<lambda>_ _. 0), cd_cache := (cd_cache self)(0 := 0)\<rparr>
                  else self)
      in self\<lparr>m_lastChar := None, m_lastPopChar := None, m_cacheBegin := 0, m_cacheEnd := 0\<rparr>)"

text \<open>The constructor; what the memory holds before is an argument.\<close>

definition TCompressDetect_init :: "TCompressDetect \<Rightarrow> TCompressDetect" where
  "TCompressDetect_init mem = detect_clear (mem\<lparr>m_lastChar := Some 0\<rparr>)"

definition add_rle_char :: "byte \<Rightarrow> byte \<Rightarrow> TCompressDetect \<Rightarrow> TCompressDetect" where
  "add_rle_char lastChar cur self =
     (let sum1 = (cd_sum1char self)(cur := cd_sum1char self cur + 1);
          sum2 = (cd_sum2char self)(lastChar := (cd_sum2char self lastChar)(cur := cd_sum2char self lastChar cur + 1));
          self = self\<lparr>cd_sum1char := sum1, cd_sum2char := sum2, m_lastChar := Some cur\<rparr>;
          self =
            (if cd_sum self = kCacheSize then
               let pop = cd_cache self (m_cacheBegin self);
                   cacheBegin = m_cacheBegin self + 1;
                   sum1 = (cd_sum1char self)(pop := cd_sum1char self pop - 1);
                   sum2 = (case m_lastPopChar self of
                       None \<Rightarrow> cd_sum2char self
                     | Some l \<Rightarrow> (cd_sum2char self)(l := (cd_sum2char self l)(pop := cd_sum2char self l pop - 1)))
               in self\<lparr>cd_sum := cd_sum self - 1, m_cacheBegin := (if cacheBegin = kCacheSize then 0 else cacheBegin),
                       cd_sum1char := sum1, cd_sum2char := sum2, m_lastPopChar := Some pop\<rparr>
             else self);
          cacheEnd = m_cacheEnd self + 1
      in self\<lparr>cd_sum := cd_sum self + 1, cd_cache := (cd_cache self)(m_cacheEnd self := cur),
              m_cacheEnd := (if cacheEnd = kCacheSize then 0 else cacheEnd)\<rparr>)"

fun add_rle_loop :: "byte \<Rightarrow> byte list \<Rightarrow> TCompressDetect \<Rightarrow> TCompressDetect" where
  "add_rle_loop lastChar [] self = self"
| "add_rle_loop lastChar (cur # d) self = add_rle_loop cur d (add_rle_char lastChar cur self)"

definition add_rle :: "TCompressDetect \<Rightarrow> byte list \<Rightarrow> TCompressDetect" where
  "add_rle self d =
     (case m_lastChar self of
        Some l \<Rightarrow> add_rle_loop l d self
      | None \<Rightarrow>
          (case d of
             [] \<Rightarrow> self
           | c # d \<Rightarrow> add_rle_loop c d (self\<lparr>m_lastChar := Some c, cd_sum1char := (cd_sum1char self)(c := cd_sum1char self c + 1)\<rparr>)))"

definition kCompressDetectDivBit :: nat where
  "kCompressDetectDivBit = 12"

definition kCompressDetectMaxBit :: nat where
  "kCompressDetectMaxBit = 12"

definition char_cost :: "nat \<Rightarrow> nat \<Rightarrow> nat" where
  "char_cost rab ra =
     (if ra < push_bit (kCompressDetectMaxBit - 1) rab then
        let (rab, code) = (if push_bit 8 rab < ra then (push_bit 8 rab, 8) else (rab, 0));
            (rab, code) = (if push_bit 4 rab < ra then (push_bit 4 rab, code + 4) else (rab, code));
            (rab, code) = (if push_bit 2 rab < ra then (push_bit 2 rab, code + 2) else (rab, code));
            code = (if push_bit 1 rab < ra then code + 1 else code)
        in code + 1
      else kCompressDetectMaxBit)"

fun cost_rle_loop :: "TCompressDetect \<Rightarrow> byte \<Rightarrow> byte list \<Rightarrow> nat" where
  "cost_rle_loop self prev [] = 0"
| "cost_rle_loop self prev (cur # d) =
     char_cost (unat (cd_sum2char self prev cur)) (1 + unat (cd_sum1char self prev)) + cost_rle_loop self cur d"

definition cost_rle :: "TCompressDetect \<Rightarrow> byte list \<Rightarrow> nat" where
  "cost_rle self d =
     (if d = [] then 0
      else case m_lastChar self of
        None \<Rightarrow> length d
      | Some prev \<Rightarrow>
          (cost_rle_loop self prev d + (drop_bit 1 kCompressDetectDivBit + 1)) div kCompressDetectDivBit)"

definition kBufSize :: nat where
  "kBufSize = 1024"

text \<open>The loops that \<open>by_step\<close> stands for; the cost of the runs never falls below the bytes they leave.\<close>

function add_by_step :: "TCompressDetect \<Rightarrow> byte list \<Rightarrow> byte list option \<Rightarrow> TCompressDetect" where
  "add_by_step self d sub =
     (if d = [] then self
      else
        let (_, rcode) = getRegionRleCost (take kBufSize d) (map_option (take kBufSize) sub)
        in add_by_step (add_rle self rcode) (drop kBufSize d) (map_option (drop kBufSize) sub))"
  by pat_completeness auto
termination
  by (relation "measure (\<lambda>(self, d, sub). length d)") (auto simp: kBufSize_def)

function cost_by_step :: "TCompressDetect \<Rightarrow> byte list \<Rightarrow> byte list option \<Rightarrow> nat \<Rightarrow> nat \<Rightarrow> nat" where
  "cost_by_step self d sub result rleCtrlCost =
     (if d = [] then result + rleCtrlCost
      else
        let (cost, rcode) = getRegionRleCost (take kBufSize d) (map_option (take kBufSize) sub)
        in cost_by_step self (drop kBufSize d) (map_option (drop kBufSize) sub)
             (result + cost_rle self rcode) (rleCtrlCost + cost - length rcode))"
  by pat_completeness auto
termination
  by (relation "measure (\<lambda>(self, d, sub, result, rle). length d)") (auto simp: kBufSize_def)

declare add_by_step.simps [simp del] cost_by_step.simps [simp del]

definition detect_add_chars :: "TCompressDetect \<Rightarrow> byte list \<Rightarrow> byte list option \<Rightarrow> TCompressDetect" where
  "detect_add_chars self d sub =
     (if length d > kCacheSize + sizeof_TCharConvTable
      then
        let skip_n = length d - kCacheSize
        in add_by_step (detect_clear self) (drop skip_n d) (map_option (drop skip_n) sub)
      else add_by_step self d sub)"

definition detect_cost :: "TCompressDetect \<Rightarrow> byte list \<Rightarrow> byte list option \<Rightarrow> nat" where
  "detect_cost self d sub = cost_by_step self d sub 0 0"

section \<open>What the estimates are\<close>

lemma region_runs_length: "length (snd (region_runs d)) \<le> fst (region_runs d)"
  by (induction d rule: region_runs.induct) (auto simp: Let_def split: prod.splits)

lemma getRegionRleCost_length: "length (snd (getRegionRleCost d sub)) \<le> fst (getRegionRleCost d sub)"
  by (simp add: getRegionRleCost_def region_runs_length)

lemma length_takeWhile_dropWhile: "length (takeWhile P xs) + length (dropWhile P xs) = length xs"
  by (metis length_append takeWhile_dropWhile_id)

lemma region_runs_le: "fst (region_runs d) \<le> length d"
proof (induction d rule: region_runs.induct)
  case (2 v d)
  then show ?case using length_takeWhile_dropWhile [of "\<lambda>x. x = v" d]
    by (cases "takeWhile (\<lambda>x. x = v) d") (auto simp: Let_def split: prod.splits)
qed simp

text \<open>The groups of 7 bits of a number.\<close>

lemma pack_size_loop_bounds:
  "(v < 2 ^ (7 * Suc k) \<longrightarrow> pack_size_loop 127 v s \<le> s + k) \<and> (2 ^ (7 * k) \<le> v \<longrightarrow> s + k \<le> pack_size_loop 127 v s)"
proof (induction k arbitrary: v s)
  case 0
  have "s \<le> pack_size_loop 127 v s" by (induction "127 :: nat" v s rule: pack_size_loop.induct) (subst pack_size_loop.simps, auto)
  then show ?case by (auto simp: pack_size_loop.simps [of 127 v s])
next
  case (Suc k)
  have d: "drop_bit 7 v < 2 ^ (7 * Suc k) \<longleftrightarrow> v < 2 ^ (7 * Suc (Suc k))" "2 ^ (7 * k) \<le> drop_bit 7 v \<longleftrightarrow> 2 ^ (7 * Suc k) \<le> v"
    by (simp_all add: drop_bit_eq_div less_mult_imp_div_less div_less_iff_less_mult less_eq_div_iff_mult_less_eq power_add mult.commute)
  show ?case
  proof (cases "127 < v")
    case True
    then have "pack_size_loop 127 v s = pack_size_loop 127 (drop_bit 7 v) (s + 1)" by (subst pack_size_loop.simps) simp
    then show ?thesis using Suc.IH [of "drop_bit 7 v" "s + 1"] d by simp
  next
    case False
    then have "pack_size_loop 127 v s = s" "v < 2 ^ (7 * 1)" by (subst pack_size_loop.simps, simp_all)
    moreover have "(2 :: nat) ^ (7 * 1) \<le> 2 ^ (7 * Suc k)" by (rule power_increasing) simp_all
    ultimately show ?thesis by linarith
  qed
qed

lemma packUInt_size_between: "2 ^ (7 * k) \<le> v \<Longrightarrow> v < 2 ^ (7 * Suc k) \<Longrightarrow> hpatch_packUInt_size v = Suc k"
  using pack_size_loop_bounds [of v k 0] by (simp add: hpatch_packUInt_size_def hpatch_packUIntWithTag_size_def)

lemma getUIntCost_eq:
  "getUIntCost v =
     (if 2 ^ 56 \<le> v then 9
      else if 2 ^ 28 \<le> v then (if 2 ^ 42 \<le> v then (if 2 ^ 49 \<le> v then 8 else 7) else (if 2 ^ 35 \<le> v then 6 else 5))
      else if 2 ^ 14 \<le> v then (if 2 ^ 21 \<le> v then 4 else 3) else (if 2 ^ 7 \<le> v then 2 else 1))"
proof -
  have s: "drop_bit m v = 0 \<longleftrightarrow> \<not> 2 ^ m \<le> v" for m by (auto simp: drop_bit_eq_div div_eq_0_iff)
  have d: "drop_bit m (drop_bit n v) = drop_bit (m + n) v" for m n by (simp add: drop_bit_drop_bit)
  consider "v < 2 ^ 7" | "2 ^ 7 \<le> v" "v < 2 ^ 14" | "2 ^ 14 \<le> v" "v < 2 ^ 21" | "2 ^ 21 \<le> v" "v < 2 ^ 28"
    | "2 ^ 28 \<le> v" "v < 2 ^ 35" | "2 ^ 35 \<le> v" "v < 2 ^ 42" | "2 ^ 42 \<le> v" "v < 2 ^ 49" | "2 ^ 49 \<le> v" "v < 2 ^ 56" | "2 ^ 56 \<le> v"
    by linarith
  then show ?thesis by cases (simp_all add: getUIntCost_def Let_def d s)
qed

text \<open>The fast estimate of the size of a packed number is its size, except that a number of ten bytes counts as
  one of nine.\<close>

lemma getUIntCost_is_size: "getUIntCost v = min 9 (hpatch_packUInt_size v)"
proof -
  note b = packUInt_size_between [of _ v, unfolded mult_Suc_right]
  have p: "hpatch_packUInt_size v = 1" if "v < 2 ^ 7" using that by (simp add: hpatch_packUInt_size_def hpatch_packUIntWithTag_size_def pack_size_loop.simps)
  have "2 ^ 56 \<le> v \<Longrightarrow> 9 \<le> hpatch_packUInt_size v"
    using pack_size_loop_bounds [of v 8 0] by (simp add: hpatch_packUInt_size_def hpatch_packUIntWithTag_size_def)
  then show ?thesis
    using p b [of 1] b [of 2] b [of 3] b [of 4] b [of 5] b [of 6] b [of 7] by (auto simp: getUIntCost_eq not_le)
qed

end
