(* ===== verification/SearchCover.thy ===== *)
theory SearchCover
  imports SuffixString CompressDetect
begin

text \<open>
  The search of covers in \<open>diff.cpp\<close>, without threads: finding matches with the suffix string of the
  old data, linking and choosing them, and extending what was chosen.  With a limit (\<open>diffLimit\<close>) it searches
  a part of the new data again, and asks a listener which covers are allowed.  \<open>TInt\<close> is an integer, which is exact as long as the files are smaller than \<open>2 ^ 62\<close>
  bytes; an index outside of a file is a fault.
\<close>

section \<open>Cover lines\<close>

record TOldCover =
  c_oldPos :: int
  c_newPos :: int
  c_length :: int

definition kMinMatchLen :: int where
  "kMinMatchLen = 5"

definition kMinMatchScore :: int where
  "kMinMatchScore = 2"

definition kMaxLinkSpaceLength :: int where
  "kMaxLinkSpaceLength = push_bit 9 1 - 1"

definition no_cover :: TOldCover where
  "no_cover = \<lparr>c_oldPos = 0, c_newPos = 0, c_length = 0\<rparr>"

definition isCollinear :: "TOldCover \<Rightarrow> TOldCover \<Rightarrow> bool" where
  "isCollinear x y \<longleftrightarrow> c_oldPos x + c_newPos y = c_newPos x + c_oldPos y"

definition linkSpaceLength :: "TOldCover \<Rightarrow> TOldCover \<Rightarrow> int" where
  "linkSpaceLength x y = c_oldPos y - (c_oldPos x + c_length x)"

definition isCanLink :: "TOldCover \<Rightarrow> TOldCover \<Rightarrow> bool" where
  "isCanLink x y \<longleftrightarrow> isCollinear x y \<and> linkSpaceLength x y \<le> kMaxLinkSpaceLength"

definition cover_Link :: "TOldCover \<Rightarrow> TOldCover \<Rightarrow> TOldCover res" where
  "cover_Link self y =
     rbind (require (isCollinear self y)) (\<lambda>_.
     rbind (require (c_oldPos self \<le> c_oldPos y)) (\<lambda>_.
     Ok (self\<lparr>c_length := (c_oldPos y - c_oldPos self) + c_length y\<rparr>)))"

text \<open>The files; a region of one, and what is left of it from a position on.\<close>

record TDiffData =
  d_newData :: "byte list"
  d_oldData :: "byte list"

definition new_size :: "TDiffData \<Rightarrow> int" where
  "new_size diff = int (length (d_newData diff))"

definition old_size :: "TDiffData \<Rightarrow> int" where
  "old_size diff = int (length (d_oldData diff))"

definition region :: "byte list \<Rightarrow> int \<Rightarrow> int \<Rightarrow> byte list res" where
  "region data pos len =
     (if 0 \<le> pos \<and> 0 \<le> len \<and> pos + len \<le> int (length data) then Ok (take (nat len) (drop (nat pos) data)) else Fault)"

definition data_from :: "byte list \<Rightarrow> int \<Rightarrow> byte list res" where
  "data_from data pos = (if 0 \<le> pos \<and> pos \<le> int (length data) then Ok (drop (nat pos) data) else Fault)"

definition byte_at :: "byte list \<Rightarrow> int \<Rightarrow> byte res" where
  "byte_at data pos = (if 0 \<le> pos \<and> pos < int (length data) then Ok (data ! nat pos) else Fault)"

section \<open>Matches\<close>

fun getEqualLength :: "byte list \<Rightarrow> byte list \<Rightarrow> nat" where
  "getEqualLength (x # xs) (y # ys) = (if x \<noteq> y then 0 else getEqualLength xs ys + 1)"
| "getEqualLength _ _ = 0"

definition getEqualLengthLimit :: "nat \<Rightarrow> byte list \<Rightarrow> byte list \<Rightarrow> nat" where
  "getEqualLengthLimit kMaxEqLenLimit x y =
     (if kMaxEqLenLimit = 0 then getEqualLength x y else getEqualLength (take kMaxEqLenLimit x) (take kMaxEqLenLimit y))"

text \<open>
  \<open>IDiffSearchCoverListener\<close>: \<open>limitCover\<close> says whether a cover is allowed and how much of it from its front,
  \<open>limitCover_front\<close> how much of it from its end.
\<close>

record IDiffSearchCoverListener =
  lc_limitCover :: "TOldCover \<Rightarrow> bool \<times> int"
  lc_limitCover_front :: "TOldCover \<Rightarrow> int res"

record TDiffLimit =
  dl_listener :: IDiffSearchCoverListener
  dl_newPos :: int
  dl_newEnd :: int
  dl_recoverOldPos :: int
  dl_recoverOldEnd :: int
  dl_nocover_detect :: TCompressDetect
  dl_cover_detect :: TCompressDetect
  dl_lastCover_back :: TOldCover
  dl_kMaxMatchDeep :: int

definition lim_lo :: "TDiffLimit option \<Rightarrow> int" where
  "lim_lo diffLimit = (case diffLimit of None \<Rightarrow> 0 | Some L \<Rightarrow> dl_newPos L)"

definition lim_hi :: "TDiffLimit option \<Rightarrow> TDiffData \<Rightarrow> int" where
  "lim_hi diffLimit diff = (case diffLimit of None \<Rightarrow> new_size diff | Some L \<Rightarrow> dl_newEnd L)"

definition kTryEqLenLimit :: nat where
  "kTryEqLenLimit = 1024 * 1 + 17"

text \<open>
  What the loop of \<open>getBestMatch\<close> makes of one suffix: nothing (\<open>continue\<close>), or a match, which may be a
  new best one of some length; and how far the search skips.
\<close>

definition best_match_at ::
  "TDiffLimit option \<Rightarrow> byte list \<Rightarrow> int \<Rightarrow> int \<Rightarrow> byte list \<Rightarrow> int \<Rightarrow> int \<Rightarrow> int option option \<times> int" where
  "best_match_at diffLimit newData curNewPos curOldPos src bestLength limitSkip =
     (case diffLimit of
        None \<Rightarrow>
          let curLength = int (getEqualLength newData src) in
          (Some (if curLength > bestLength then Some curLength else None), limitSkip)
      | Some L \<Rightarrow>
          let curLength = int (getEqualLengthLimit kTryEqLenLimit newData src);
              limitCover = (\<lambda>len. snd (lc_limitCover (dl_listener L) \<lparr>c_oldPos = curOldPos, c_newPos = curNewPos, c_length = len\<rparr>)) in
          if dl_recoverOldPos L \<le> curOldPos \<and> curOldPos < dl_recoverOldEnd L
          then (None, if curLength = int kTryEqLenLimit then int (kTryEqLenLimit div 2) else limitSkip)
          else if curLength > bestLength then
            let hitPos = limitCover curLength in
            if hitPos \<le> bestLength then (None, limitSkip)
            else if hitPos = int kTryEqLenLimit
            then (Some (Some (limitCover (int (getEqualLength newData src)))), limitSkip)
            else (Some (Some hitPos), limitSkip)
          else (Some None, limitSkip))"

record best_match =
  bm_length :: int
  bm_oldPos :: int
  bm_limitSkip :: int
  bm_leftOk :: bool
  bm_rightOk :: bool

text \<open>
  One turn of the loop over \<open>mdi\<close>, at or behind the place found for an even \<open>mdi\<close> and before it for an odd
  one; whether it leaves the loop.
\<close>

definition best_match_turn ::
  "TDiffLimit option \<Rightarrow> TSuffixString \<Rightarrow> byte list \<Rightarrow> int \<Rightarrow> int \<Rightarrow> nat \<Rightarrow> best_match \<Rightarrow> (bool \<times> best_match) res" where
  "best_match_turn diffLimit sstring newData curNewPos sai mdi b =
     (let i = sai + (1 - int (mdi mod 2) * 2) * int ((mdi + 1) div 2) in
      if (if odd mdi then bm_rightOk b else bm_leftOk b) \<or> i < 0 \<or> int (length (m_src sstring)) \<le> i then Ok (False, b)
      else
        rbind (require (nat i < length (m_SA sstring))) (\<lambda>_.
        let curOldPos = int (m_SA sstring ! nat i) in
        rbind (data_from (m_src sstring) curOldPos) (\<lambda>src.
        let (found, limitSkip) = best_match_at diffLimit newData curNewPos curOldPos src (bm_length b) (bm_limitSkip b);
            b = b\<lparr>bm_limitSkip := limitSkip\<rparr>
        in case found of
             None \<Rightarrow> Ok (False, b)
           | Some best \<Rightarrow>
               let b = (case best of None \<Rightarrow> b | Some len \<Rightarrow> b\<lparr>bm_length := len, bm_oldPos := curOldPos\<rparr>);
                   b = (if odd mdi then b\<lparr>bm_rightOk := True\<rparr> else b\<lparr>bm_leftOk := True\<rparr>)
               in Ok (bm_leftOk b \<and> bm_rightOk b, b))))"

fun best_match_loop ::
  "TDiffLimit option \<Rightarrow> TSuffixString \<Rightarrow> byte list \<Rightarrow> int \<Rightarrow> int \<Rightarrow> nat list \<Rightarrow> best_match \<Rightarrow> best_match res" where
  "best_match_loop diffLimit sstring newData curNewPos sai [] b = Ok b"
| "best_match_loop diffLimit sstring newData curNewPos sai (mdi # mdis) b =
     rbind (best_match_turn diffLimit sstring newData curNewPos sai mdi b) (\<lambda>(leave, b).
     if leave then Ok b else best_match_loop diffLimit sstring newData curNewPos sai mdis b)"

text \<open>The position of the longest match in the old data, its length and \<open>limitSkip\<close>.\<close>

definition getBestMatch :: "TSuffixString \<Rightarrow> byte list \<Rightarrow> int \<Rightarrow> TDiffLimit option \<Rightarrow> best_match res" where
  "getBestMatch sstring newData curNewPos diffLimit =
     rbind (suffix_lower_bound sstring newData) (\<lambda>sai.
     let matchDeep = (case diffLimit of None \<Rightarrow> 2 | Some L \<Rightarrow> nat (dl_kMaxMatchDeep L)) in
     best_match_loop diffLimit sstring newData curNewPos (int sai) [0..<matchDeep]
       \<lparr>bm_length = kMinMatchLen - 1, bm_oldPos = -1, bm_limitSkip = 1, bm_leftOk = False, bm_rightOk = False\<rparr>)"

lemma best_match_at_skip: "best_match_at L nd np op src best skip = (f, skip') \<Longrightarrow> 1 \<le> skip \<Longrightarrow> 1 \<le> skip'"
  by (auto simp: best_match_at_def Let_def kTryEqLenLimit_def split: option.splits if_splits)

lemma best_match_turn_skip:
  "best_match_turn L ss nd np sai mdi b = Ok (x, b') \<Longrightarrow> 1 \<le> bm_limitSkip b \<Longrightarrow> 1 \<le> bm_limitSkip b'"
  by (auto simp: best_match_turn_def Let_def rbind_eq_Ok split: if_splits prod.splits option.splits dest: best_match_at_skip)

lemma best_match_loop_skip:
  "best_match_loop L ss nd np sai mdis b = Ok b' \<Longrightarrow> 1 \<le> bm_limitSkip b \<Longrightarrow> 1 \<le> bm_limitSkip b'"
  by (induction mdis arbitrary: b) (auto simp: rbind_eq_Ok split: if_splits dest: best_match_turn_skip)

lemma getBestMatch_skip: "getBestMatch ss nd np L = Ok b \<Longrightarrow> 1 \<le> bm_limitSkip b"
  by (auto simp: getBestMatch_def rbind_eq_Ok Let_def dest: best_match_loop_skip)

definition getCoverCtrlCost :: "TOldCover \<Rightarrow> TOldCover \<Rightarrow> int" where
  "getCoverCtrlCost cover lastCover =
     int (getIntCost (c_oldPos cover - c_oldPos lastCover)
          + getUIntCost (nat (c_length cover mod 2 ^ 64))
          + getUIntCost (nat ((c_newPos cover - c_newPos lastCover) mod 2 ^ 64)))"

definition regions_cost :: "TDiffData \<Rightarrow> int \<Rightarrow> int \<Rightarrow> int \<Rightarrow> int res" where
  "regions_cost diff newPos len oldPos =
     rbind (region (d_newData diff) newPos len) (\<lambda>d.
     rbind (region (d_oldData diff) oldPos len) (\<lambda>sub.
     Ok (int (fst (getRegionRleCost d (Some sub))))))"

definition getCoverCost :: "TOldCover \<Rightarrow> TDiffData \<Rightarrow> int res" where
  "getCoverCost cover diff = regions_cost diff (c_newPos cover) (c_length cover) (c_oldPos cover)"

text \<open>The loop at the end of \<open>tryLinkExtend\<close>: dropping bytes that differ.\<close>

function drop_differing :: "TDiffData \<Rightarrow> TOldCover \<Rightarrow> int \<Rightarrow> int res" where
  "drop_differing diff lastCover len =
     (if len > 0 then
        rbind (byte_at (d_newData diff) (c_newPos lastCover + len - 1)) (\<lambda>x.
        rbind (byte_at (d_oldData diff) (c_oldPos lastCover + len - 1)) (\<lambda>y.
        if x \<noteq> y then drop_differing diff lastCover (len - 1) else Ok len))
      else Ok len)"
  by pat_completeness auto
termination
  by (relation "measure (\<lambda>(d, c, len). nat len)") auto

declare drop_differing.simps [simp del]

text \<open>Whether the limit allows a cover; without one every cover is.\<close>

definition limit_allows :: "TDiffLimit option \<Rightarrow> int \<Rightarrow> int \<Rightarrow> int \<Rightarrow> bool" where
  "limit_allows diffLimit oldPos newPos len =
     (case diffLimit of
        None \<Rightarrow> True
      | Some L \<Rightarrow> fst (lc_limitCover (dl_listener L) \<lparr>c_oldPos = oldPos, c_newPos = newPos, c_length = len\<rparr>))"

text \<open>The length of an extended cover within the limit; \<open>safeLen\<close> of it is known to be allowed.\<close>

definition limit_len :: "TDiffLimit option \<Rightarrow> TOldCover \<Rightarrow> int \<Rightarrow> int \<Rightarrow> int" where
  "limit_len diffLimit lastCover safeLen len =
     (case diffLimit of
        None \<Rightarrow> len
      | Some L \<Rightarrow>
          let limitLen = dl_newEnd L - c_newPos lastCover;
              len = (if len < limitLen then len else limitLen)
          in if len > safeLen
             then safeLen + snd (lc_limitCover (dl_listener L)
                    \<lparr>c_oldPos = c_oldPos lastCover + safeLen, c_newPos = c_newPos lastCover + safeLen, c_length = len - safeLen\<rparr>)
             else len)"

text \<open>\<open>tryLinkExtend\<close>: the extended cover, or nothing.\<close>

definition tryLinkExtend :: "TOldCover \<Rightarrow> TOldCover \<Rightarrow> TDiffData \<Rightarrow> TDiffLimit option \<Rightarrow> TOldCover option res" where
  "tryLinkExtend lastCover matchCover diff diffLimit =
     (if c_length lastCover \<le> 0 then Ok None
      else
        let linkSpace = c_newPos matchCover - (c_newPos lastCover + c_length lastCover) in
        rbind (require (0 \<le> linkSpace)) (\<lambda>_.
        if linkSpace > kMaxLinkSpaceLength then Ok None
        else
          let linkOldPos = c_oldPos lastCover + c_length lastCover + linkSpace in
          if linkOldPos + c_length matchCover > old_size diff then Ok None
          else if \<not> limit_allows diffLimit (c_oldPos lastCover + c_length lastCover) (c_newPos lastCover + c_length lastCover)
                    (linkSpace + (if isCollinear lastCover matchCover then 0 else c_length matchCover)) then Ok None
          else if isCollinear lastCover matchCover then
            rbind (cover_Link lastCover matchCover) (\<lambda>c. Ok (Some c))
          else
            let matchCost = getCoverCtrlCost matchCover lastCover in
            rbind (regions_cost diff (c_newPos matchCover) (c_length matchCover) linkOldPos) (\<lambda>lastLinkCost.
            if lastLinkCost > matchCost then Ok None
            else
              let len = c_length lastCover + linkSpace + c_length matchCover * 2 div 3 in
              rbind (data_from (d_newData diff) (c_newPos lastCover + len)) (\<lambda>x.
              rbind (data_from (d_oldData diff) (c_oldPos lastCover + len)) (\<lambda>y.
              let len = limit_len diffLimit lastCover (c_length lastCover + linkSpace + c_length matchCover)
                          (len + int (getEqualLength x y)) in
              rbind (drop_differing diff lastCover len) (\<lambda>len.
              Ok (Some (lastCover\<lparr>c_length := len\<rparr>))))))))"

definition tryCollinear :: "TOldCover \<Rightarrow> TOldCover \<Rightarrow> TDiffData \<Rightarrow> TDiffLimit option \<Rightarrow> TOldCover res" where
  "tryCollinear lastCover matchCover diff diffLimit =
     (if c_length lastCover \<le> 0 \<or> isCollinear lastCover matchCover then Ok lastCover
      else
        let linkOldPos = c_oldPos matchCover - (c_newPos matchCover - c_newPos lastCover) in
        if linkOldPos < 0 \<or> linkOldPos + c_length lastCover > old_size diff then Ok lastCover
        else if \<not> limit_allows diffLimit linkOldPos (c_newPos lastCover) (c_length lastCover) then Ok lastCover
        else
          rbind (getCoverCost lastCover diff) (\<lambda>lastCost.
          rbind (regions_cost diff (c_newPos lastCover) (c_length lastCover) linkOldPos) (\<lambda>matchLinkCost.
          Ok (if lastCost \<ge> matchLinkCost then lastCover\<lparr>c_oldPos := linkOldPos\<rparr> else lastCover))))"

text \<open>What a match that is worth it does to the covers.\<close>

definition search_cover_match ::
  "TDiffData \<Rightarrow> TDiffLimit option \<Rightarrow> bool \<Rightarrow> TOldCover list \<Rightarrow> TOldCover \<Rightarrow> TOldCover \<Rightarrow> TOldCover list res" where
  "search_cover_match diff diffLimit isCanExtendCover covers lastCover matchCover =
     (if isCanExtendCover then
        rbind (tryLinkExtend lastCover matchCover diff diffLimit) (\<lambda>link.
        case link of
          Some c \<Rightarrow> Ok (if covers = [] then covers @ [c] else butlast covers @ [c])
        | None \<Rightarrow>
            rbind (if covers \<noteq> [] then rbind (tryCollinear (last covers) matchCover diff diffLimit) (\<lambda>c. Ok (butlast covers @ [c]))
                   else Ok covers) (\<lambda>covers.
            Ok (covers @ [matchCover])))
      else Ok (covers @ [matchCover]))"

function search_cover_loop ::
  "TDiffData \<Rightarrow> TSuffixString \<Rightarrow> TDiffLimit option \<Rightarrow> bool \<Rightarrow> TOldCover list \<Rightarrow> TOldCover \<Rightarrow> int \<Rightarrow> TOldCover list res" where
  "search_cover_loop diff sstring diffLimit isCanExtendCover covers lastCover newPos =
     (if newPos \<le> lim_hi diffLimit diff - kMinMatchLen then
        rbind (region (d_newData diff) newPos (lim_hi diffLimit diff - newPos)) (\<lambda>newData.
        rbind (getBestMatch sstring newData newPos diffLimit) (\<lambda>b.
        let matchOldPos = bm_oldPos b; matchEqLength = bm_length b in
        if matchEqLength < kMinMatchLen
        then search_cover_loop diff sstring diffLimit isCanExtendCover covers lastCover (newPos + bm_limitSkip b)
        else
          let matchCover = \<lparr>c_oldPos = matchOldPos, c_newPos = newPos, c_length = matchEqLength\<rparr> in
          if matchEqLength - getCoverCtrlCost matchCover lastCover < kMinMatchScore
          then search_cover_loop diff sstring diffLimit isCanExtendCover covers lastCover (newPos + 1)
          else
            rbind (search_cover_match diff diffLimit isCanExtendCover covers lastCover matchCover) (\<lambda>covers.
            let lastCover = last covers in
            search_cover_loop diff sstring diffLimit isCanExtendCover covers lastCover
              (max (newPos + 1) (c_newPos lastCover + c_length lastCover)))))
      else Ok covers)"
  by pat_completeness auto
termination
  by (relation "measure (\<lambda>(diff, ss, L, e, cs, l, newPos). nat (lim_hi L diff - newPos))")
    (auto simp: kMinMatchLen_def dest!: getBestMatch_skip)

declare search_cover_loop.simps [simp del]

definition search_cover :: "TDiffData \<Rightarrow> TSuffixString \<Rightarrow> TDiffLimit option \<Rightarrow> bool \<Rightarrow> TOldCover list res" where
  "search_cover diff sstring diffLimit isCanExtendCover =
     (let newPos = lim_lo diffLimit in
      if SASize sstring = 0 \<or> lim_hi diffLimit diff - newPos \<le> kMinMatchLen then Ok []
      else search_cover_loop diff sstring diffLimit isCanExtendCover [] no_cover newPos)"

section \<open>Choosing\<close>

text \<open>Whether two covers can be linked, and the limit allows what is between them.\<close>

definition limit_can_link :: "TDiffLimit option \<Rightarrow> TOldCover \<Rightarrow> TOldCover \<Rightarrow> bool" where
  "limit_can_link diffLimit fc c =
     (isCanLink fc c \<and> limit_allows diffLimit (c_oldPos fc + c_length fc) (c_newPos fc + c_length fc) (linkSpaceLength fc c))"

text \<open>Linking the covers behind one to it; they are deleted by a length of 0.\<close>

fun link_backward :: "TDiffLimit option \<Rightarrow> TOldCover \<Rightarrow> TOldCover list \<Rightarrow> (TOldCover \<times> TOldCover list) res" where
  "link_backward diffLimit c [] = Ok (c, [])"
| "link_backward diffLimit c (d # ds) =
     (if limit_can_link diffLimit c d then
        rbind (cover_Link c d) (\<lambda>c.
        rbind (link_backward diffLimit c ds) (\<lambda>(c, ds).
        Ok (c, d\<lparr>c_length := 0\<rparr> # ds)))
      else Ok (c, d # ds))"

lemma link_backward_length: "link_backward diffLimit c ds = Ok (c', ds') \<Longrightarrow> length ds' = length ds"
  by (induction ds arbitrary: c ds') (auto simp: rbind_eq_Ok split: if_splits)

text \<open>What is written of a cover that is kept, and what the two estimates learn of it.\<close>

definition keep_cover ::
  "TDiffData \<Rightarrow> TOldCover list \<Rightarrow> TOldCover \<Rightarrow> TOldCover \<Rightarrow> bool \<Rightarrow> TCompressDetect \<Rightarrow> TCompressDetect \<Rightarrow>
   (TOldCover list \<times> TCompressDetect \<times> TCompressDetect) res" where
  "keep_cover diff kept c lastCover canLink nocover_detect cover_detect =
     (let lastEnd = c_newPos lastCover + c_length lastCover in
      if canLink then
        rbind (cover_Link (last kept) c) (\<lambda>k.
        rbind (region (d_newData diff) lastEnd (c_length k - c_length lastCover)) (\<lambda>d.
        rbind (region (d_oldData diff) (c_oldPos lastCover + c_length lastCover) (c_length k - c_length lastCover)) (\<lambda>sub.
        Ok (butlast kept @ [k], nocover_detect, detect_add_chars cover_detect d (Some sub)))))
      else
        rbind (region (d_newData diff) lastEnd (c_newPos c - lastEnd)) (\<lambda>gap.
        rbind (region (d_newData diff) (c_newPos c) (c_length c)) (\<lambda>d.
        rbind (region (d_oldData diff) (c_oldPos c) (c_length c)) (\<lambda>sub.
        Ok (kept @ [c], detect_add_chars nocover_detect gap None, detect_add_chars cover_detect d (Some sub))))))"

definition single_score ::
  "TDiffData \<Rightarrow> TOldCover \<Rightarrow> TOldCover \<Rightarrow> TCompressDetect \<Rightarrow> TCompressDetect \<Rightarrow> int res" where
  "single_score diff c lastCover nocover_detect cover_detect =
     rbind (region (d_newData diff) (c_newPos c) (c_length c)) (\<lambda>d.
     rbind (region (d_oldData diff) (c_oldPos c) (c_length c)) (\<lambda>sub.
     Ok (int (detect_cost nocover_detect d None) - int (detect_cost cover_detect d (Some sub))
         - getCoverCtrlCost c lastCover)))"

text \<open>
  \<open>_select_cover\<close>: \<open>kept\<close> are the covers before \<open>insertIndex\<close>, and the last argument those from
  \<open>i\<close> on; those between them are not looked at again.
\<close>

function select_cover_loop ::
  "TDiffData \<Rightarrow> TDiffLimit option \<Rightarrow> int \<Rightarrow> bool \<Rightarrow> TOldCover list \<Rightarrow> TOldCover \<Rightarrow> TCompressDetect \<Rightarrow> TCompressDetect \<Rightarrow>
   TOldCover list \<Rightarrow> (TOldCover list \<times> TCompressDetect \<times> TCompressDetect) res" where
  "select_cover_loop diff diffLimit kMinScore isCanExtendCover kept lastCover nocover_detect cover_detect [] =
     Ok (kept, nocover_detect, cover_detect)"
| "select_cover_loop diff diffLimit kMinScore isCanExtendCover kept lastCover nocover_detect cover_detect (c # covers) =
     (if c_length c \<le> 0
      then select_cover_loop diff diffLimit kMinScore isCanExtendCover kept lastCover nocover_detect cover_detect covers
      else
        let canLink = (isCanExtendCover \<and> kept \<noteq> [] \<and> limit_can_link diffLimit (last kept) c) in
        rbind (if isCanExtendCover then link_backward diffLimit c covers else Ok (c, covers)) (\<lambda>(c, covers).
        rbind (if canLink then Ok True
               else rbind (single_score diff c lastCover nocover_detect cover_detect) (\<lambda>score. Ok (score \<ge> kMinScore))) (\<lambda>isNeedSave.
        if isNeedSave then
          rbind (keep_cover diff kept c lastCover canLink nocover_detect cover_detect) (\<lambda>(kept, nocover_detect, cover_detect).
          select_cover_loop diff diffLimit kMinScore isCanExtendCover kept (last kept) nocover_detect cover_detect covers)
        else select_cover_loop diff diffLimit kMinScore isCanExtendCover kept lastCover nocover_detect cover_detect covers)))"
  by pat_completeness auto
termination
  by (relation "measure (\<lambda>(diff, L, k, e, kept, l, n, c, covers). length covers)")
    (auto dest!: link_backward_length split: if_splits)

declare select_cover_loop.simps [simp del]

text \<open>The memory of a new \<open>TCompressDetect\<close> is cleared but for the cache, which is not read before it is written.\<close>

definition TCompressDetect_new :: TCompressDetect where
  "TCompressDetect_new = TCompressDetect_init
     \<lparr>cd_sum = 0, cd_sum1char = (\<lambda>_. 0), cd_sum2char = (\<lambda>_ _. 0), cd_cache = (\<lambda>_. 0), m_lastChar = None,
      m_lastPopChar = None, m_cacheBegin = 0, m_cacheEnd = 0\<rparr>"

text \<open>The estimates of a limit learn from all the searches within it.\<close>

definition select_cover ::
  "TOldCover list \<Rightarrow> TDiffData \<Rightarrow> int \<Rightarrow> TDiffLimit option \<Rightarrow> bool \<Rightarrow> (TOldCover list \<times> TDiffLimit option) res" where
  "select_cover covers diff kMinSingleMatchScore diffLimit isCanExtendCover =
     (case diffLimit of
        None \<Rightarrow>
          rbind (select_cover_loop diff None kMinSingleMatchScore isCanExtendCover [] no_cover TCompressDetect_new TCompressDetect_new covers)
            (\<lambda>(covers, _). Ok (covers, None))
      | Some L \<Rightarrow>
          rbind (select_cover_loop diff (Some L) kMinSingleMatchScore isCanExtendCover [] (dl_lastCover_back L)
                   (dl_nocover_detect L) (dl_cover_detect L) covers)
            (\<lambda>(covers, nocover_detect, cover_detect).
          Ok (covers, Some (L\<lparr>dl_nocover_detect := nocover_detect, dl_cover_detect := cover_detect\<rparr>))))"

section \<open>Extending\<close>

definition kFixedFloatSmooth_base :: nat where
  "kFixedFloatSmooth_base = 1024"

definition kSmoothLength :: nat where
  "kSmoothLength = 4"

text \<open>\<open>inc\<close> is 1 when \<open>forward\<close> and -1 otherwise.\<close>

function can_extend_loop ::
  "bool \<Rightarrow> int \<Rightarrow> int \<Rightarrow> TDiffData \<Rightarrow> int \<Rightarrow> int \<Rightarrow> nat \<Rightarrow> nat \<Rightarrow> int \<Rightarrow> nat \<Rightarrow> (nat \<times> int) res" where
  "can_extend_loop forward newPos_min lastNewEnd diff oldPos newPos len bestRatio bestLength sameCount =
     (if 0 \<le> oldPos \<and> oldPos < old_size diff \<and> newPos_min \<le> newPos \<and> newPos < lastNewEnd then
        let inc = (if forward then 1 else - 1) in
        rbind (byte_at (d_oldData diff) oldPos) (\<lambda>x.
        rbind (byte_at (d_newData diff) newPos) (\<lambda>y.
        if x = y then
          let sameCount = sameCount + 1 in
          if sameCount \<ge> (2 ^ 64 - 1) div kFixedFloatSmooth_base then Ok (bestRatio, bestLength)
          else
            let ratio = sameCount * kFixedFloatSmooth_base div (len + kSmoothLength);
                (bestRatio, bestLength) = (if ratio \<ge> bestRatio then (ratio, int len) else (bestRatio, bestLength))
            in can_extend_loop forward newPos_min lastNewEnd diff (oldPos + inc) (newPos + inc) (len + 1) bestRatio bestLength sameCount
        else can_extend_loop forward newPos_min lastNewEnd diff (oldPos + inc) (newPos + inc) (len + 1) bestRatio bestLength sameCount))
      else Ok (bestRatio, bestLength))"
  by pat_completeness auto
termination
  by (relation "measure (\<lambda>(forward, lo, hi, diff, oldPos, newPos, r). if forward then nat (hi - newPos) else nat (newPos - lo + 1))") auto

declare can_extend_loop.simps [simp del]

definition getCanExtendLength :: "int \<Rightarrow> int \<Rightarrow> bool \<Rightarrow> int \<Rightarrow> int \<Rightarrow> TDiffData \<Rightarrow> nat \<Rightarrow> int res" where
  "getCanExtendLength oldPos newPos forward newPos_min lastNewEnd diff kExtendMinSameRatio =
     rbind (can_extend_loop forward newPos_min lastNewEnd diff oldPos newPos 1 0 0 0) (\<lambda>(bestRatio, bestLength).
     Ok (if bestRatio < kExtendMinSameRatio \<or> bestLength \<le> 2 then 0 else bestLength))"

definition extend_cover1 :: "TDiffData \<Rightarrow> nat \<Rightarrow> int \<Rightarrow> int \<Rightarrow> TOldCover \<Rightarrow> TOldCover res" where
  "extend_cover1 diff ratio lastNewEnd newPos_next c =
     rbind (getCanExtendLength (c_oldPos c - 1) (c_newPos c - 1) False lastNewEnd newPos_next diff ratio) (\<lambda>front.
     let c = (if front > 0
              then c\<lparr>c_oldPos := c_oldPos c - front, c_newPos := c_newPos c - front, c_length := c_length c + front\<rparr>
              else c) in
     rbind (getCanExtendLength (c_oldPos c + c_length c) (c_newPos c + c_length c) True lastNewEnd newPos_next diff ratio) (\<lambda>back.
     Ok (if back > 0 then c\<lparr>c_length := c_length c + back\<rparr> else c)))"

text \<open>Where the limit lets a cover be extended to: the new \<open>lastNewEnd\<close> and \<open>newPos_next\<close>.\<close>

definition extend_limits :: "TDiffData \<Rightarrow> TDiffLimit option \<Rightarrow> int \<Rightarrow> int \<Rightarrow> TOldCover \<Rightarrow> (int \<times> int) res" where
  "extend_limits diff diffLimit lastNewEnd newPos_next c =
     (case diffLimit of
        None \<Rightarrow> Ok (lastNewEnd, newPos_next)
      | Some L \<Rightarrow>
          let limit_front = min (c_newPos c - lastNewEnd) (c_oldPos c) in
          rbind (if limit_front > 0 then
                   rbind (lc_limitCover_front (dl_listener L)
                            \<lparr>c_oldPos = c_oldPos c - limit_front, c_newPos = c_newPos c - limit_front, c_length = limit_front\<rparr>) (\<lambda>lenLimit.
                   Ok (c_newPos c - lenLimit))
                 else Ok lastNewEnd) (\<lambda>lastNewEnd.
          let oldEnd = c_oldPos c + c_length c;
              newEnd = c_newPos c + c_length c;
              limit_back = newPos_next - newEnd;
              limit_back = (if oldEnd + limit_back > old_size diff then old_size diff - oldEnd else limit_back)
          in if limit_back > 0
             then Ok (lastNewEnd, newEnd + snd (lc_limitCover (dl_listener L) \<lparr>c_oldPos = oldEnd, c_newPos = newEnd, c_length = limit_back\<rparr>))
             else Ok (lastNewEnd, newPos_next)))"

fun extend_cover_loop :: "TDiffData \<Rightarrow> TDiffLimit option \<Rightarrow> nat \<Rightarrow> int \<Rightarrow> TOldCover list \<Rightarrow> TOldCover list res" where
  "extend_cover_loop diff diffLimit ratio lastNewEnd [] = Ok []"
| "extend_cover_loop diff diffLimit ratio lastNewEnd (c # covers) =
     (let newPos_next = (case covers of d # _ \<Rightarrow> c_newPos d | [] \<Rightarrow> lim_hi diffLimit diff) in
      rbind (extend_limits diff diffLimit lastNewEnd newPos_next c) (\<lambda>(lastNewEnd, newPos_next).
      rbind (extend_cover1 diff ratio lastNewEnd newPos_next c) (\<lambda>c.
      rbind (extend_cover_loop diff diffLimit ratio (c_newPos c + c_length c) covers) (\<lambda>covers.
      Ok (c # covers)))))"

definition extend_cover :: "TOldCover list \<Rightarrow> TDiffData \<Rightarrow> nat \<Rightarrow> TDiffLimit option \<Rightarrow> TOldCover list res" where
  "extend_cover covers diff kExtendMinSameRatio diffLimit =
     extend_cover_loop diff diffLimit kExtendMinSameRatio (lim_lo diffLimit) covers"

text \<open>The ratio is computed in \<open>int\<close> and assigned to an unsigned number, so a negative one becomes the largest.\<close>

definition extend_ratio :: "int \<Rightarrow> nat" where
  "extend_ratio kMinSingleMatchScore =
     (let r = nat ((kMinSingleMatchScore * 36 + 254) mod 2 ^ 64);
          r = (if r < 200 then 200 else r)
      in if r > 800 then 800 else r)"

definition dispose_cover ::
  "TOldCover list \<Rightarrow> TDiffData \<Rightarrow> int \<Rightarrow> TDiffLimit option \<Rightarrow> bool \<Rightarrow> (TOldCover list \<times> TDiffLimit option) res" where
  "dispose_cover covers diff kMinSingleMatchScore diffLimit isCanExtendCover =
     (if isCanExtendCover then
        let ratio = extend_ratio kMinSingleMatchScore in
        rbind (extend_cover covers diff ratio diffLimit) (\<lambda>covers.
        rbind (select_cover covers diff kMinSingleMatchScore diffLimit isCanExtendCover) (\<lambda>(covers, diffLimit).
        rbind (extend_cover covers diff ratio diffLimit) (\<lambda>covers.
        Ok (covers, diffLimit))))
      else select_cover covers diff kMinSingleMatchScore diffLimit isCanExtendCover)"

definition search_and_dispose_cover ::
  "TDiffData \<Rightarrow> TSuffixString \<Rightarrow> int \<Rightarrow> TDiffLimit option \<Rightarrow> bool \<Rightarrow> (TOldCover list \<times> TDiffLimit option) res" where
  "search_and_dispose_cover diff sstring kMinSingleMatchScore diffLimit isCanExtendCover =
     rbind (search_cover diff sstring diffLimit isCanExtendCover) (\<lambda>covers.
     if covers \<noteq> [] then dispose_cover covers diff kMinSingleMatchScore diffLimit isCanExtendCover else Ok (covers, diffLimit))"

definition first_search_and_dispose_cover ::
  "TDiffData \<Rightarrow> TSuffixString \<Rightarrow> int \<Rightarrow> bool \<Rightarrow> TOldCover list res" where
  "first_search_and_dispose_cover diff sstring kMinSingleMatchScore isCanExtendCover =
     rbind (search_and_dispose_cover diff sstring kMinSingleMatchScore None isCanExtendCover) (\<lambda>(covers, _). Ok covers)"

end
