(* ===== verification/SearchSafe.thy ===== *)
theory SearchSafe
  imports SearchCover
begin

text \<open>
  The search of theory \<open>SearchCover\<close> is safe: every step of it keeps the covers in order and inside of
  both files and never reads outside of them, and with a limit, whose listener allows only good covers,
  all it finds is good and inside of the limit.
\<close>

section \<open>Covers that fit\<close>

text \<open>Covers in order, inside of both files; they may be empty.\<close>

fun lines_fit :: "TOldCover list \<Rightarrow> int \<Rightarrow> TDiffData \<Rightarrow> bool" where
  "lines_fit [] e diff \<longleftrightarrow> e \<le> new_size diff"
| "lines_fit (c # cs) e diff \<longleftrightarrow>
     e \<le> c_newPos c \<and> 0 \<le> c_oldPos c \<and> 0 \<le> c_length c \<and> c_oldPos c + c_length c \<le> old_size diff \<and>
     lines_fit cs (c_newPos c + c_length c) diff"

definition c_end :: "TOldCover \<Rightarrow> int" where
  "c_end c = c_newPos c + c_length c"

text \<open>The end of the last cover.\<close>

definition ends :: "int \<Rightarrow> TOldCover list \<Rightarrow> int" where
  "ends e cs = (if cs = [] then e else c_end (last cs))"

text \<open>A cover inside of both files.\<close>

definition line_in :: "TDiffData \<Rightarrow> TOldCover \<Rightarrow> bool" where
  "line_in diff c \<longleftrightarrow> 0 \<le> c_oldPos c \<and> 0 \<le> c_length c \<and> c_oldPos c + c_length c \<le> old_size diff \<and>
     0 \<le> c_newPos c \<and> c_end c \<le> new_size diff"

lemma lines_fit_end: "lines_fit cs e diff \<Longrightarrow> e \<le> new_size diff"
  by (induction cs arbitrary: e) fastforce+

lemma lines_fit_mono: "lines_fit cs e diff \<Longrightarrow> e' \<le> e \<Longrightarrow> lines_fit cs e' diff"
  by (cases cs) auto

lemma lines_fit_append: "lines_fit (cs @ ds) e diff \<longleftrightarrow> lines_fit cs e diff \<and> lines_fit ds (ends e cs) diff"
proof (induction cs arbitrary: e)
  case (Cons c cs)
  then show ?case by (cases cs) (auto simp: ends_def c_end_def dest: lines_fit_end)
qed (auto simp: ends_def dest: lines_fit_end)

lemma lines_fit_in: "lines_fit cs e diff \<Longrightarrow> 0 \<le> e \<Longrightarrow> c \<in> set cs \<Longrightarrow> line_in diff c"
proof (induction cs arbitrary: e)
  case (Cons d cs)
  then show ?case using lines_fit_end [of cs "c_newPos d + c_length d" diff] by (auto simp: line_in_def c_end_def)
qed simp

lemma lines_fit_filter: "lines_fit cs e diff \<Longrightarrow> lines_fit (filter P cs) e diff"
proof (induction cs arbitrary: e)
  case (Cons c cs)
  then show ?case using lines_fit_mono [of "filter P cs" "c_newPos c + c_length c" diff e] by auto
qed simp

lemma lines_fit_ends: "lines_fit cs e diff \<Longrightarrow> 0 \<le> e \<Longrightarrow> e \<le> ends e cs"
proof (induction cs arbitrary: e)
  case (Cons c cs)
  have "c_end c \<le> ends (c_end c) cs" using Cons.IH [of "c_end c"] Cons.prems by (simp add: c_end_def)
  then show ?case using Cons.prems by (auto simp: ends_def c_end_def)
qed (simp add: ends_def)

lemma lines_fit_snoc:
  assumes "0 \<le> e"
  shows "lines_fit (cs @ [c]) e diff \<longleftrightarrow> lines_fit cs e diff \<and> ends e cs \<le> c_newPos c \<and> line_in diff c"
  using assms lines_fit_ends [of cs e diff] by (auto simp: lines_fit_append line_in_def c_end_def)

lemma lines_fit_butlast: "lines_fit cs e diff \<Longrightarrow> 0 \<le> e \<Longrightarrow> lines_fit (butlast cs) e diff"
  by (cases cs rule: rev_cases) (simp_all add: lines_fit_snoc)

lemma lines_fit_Cons_in: "lines_fit (c # cs) e diff \<Longrightarrow> 0 \<le> e \<Longrightarrow> line_in diff c"
  using lines_fit_in [of "c # cs" e diff c] by simp

lemma lines_fit_last_update:
  "lines_fit covers e diff \<Longrightarrow> 0 \<le> e \<Longrightarrow> covers \<noteq> [] \<Longrightarrow> line_in diff c \<Longrightarrow> c_newPos c = c_newPos (last covers) \<Longrightarrow>
   lines_fit (butlast covers @ [c]) e diff"
  by (cases covers rule: rev_cases) (simp_all add: lines_fit_snoc)

lemma new_size_nonneg [simp]: "0 \<le> new_size diff" "0 \<le> old_size diff"
  by (simp_all add: new_size_def old_size_def)

lemma no_cover_simps [simp]: "c_oldPos no_cover = 0" "c_newPos no_cover = 0" "c_length no_cover = 0"
  by (simp_all add: no_cover_def)

section \<open>Limits\<close>

text \<open>
  How far a cover is in front of its old data.  A listener is asked to allow only covers for which this is
  good, and to allow all of the front of a good one.
\<close>

definition lead :: "TOldCover \<Rightarrow> int" where
  "lead c = c_newPos c - c_oldPos c"

definition listener_keeps :: "(int \<Rightarrow> bool) \<Rightarrow> IDiffSearchCoverListener \<Rightarrow> bool" where
  "listener_keeps good listener \<longleftrightarrow>
     (\<forall>c. 0 \<le> c_length c \<longrightarrow>
       (case lc_limitCover listener c of (allowed, leave) \<Rightarrow>
          0 \<le> leave \<and> leave \<le> c_length c \<and> (allowed \<or> 0 < leave \<longrightarrow> good (lead c))) \<and>
       (good (lead c) \<longrightarrow> (\<exists>leave. lc_limitCover_front listener c = Ok leave \<and> 0 \<le> leave \<and> leave \<le> c_length c)))"

definition limit_ok :: "(int \<Rightarrow> bool) \<Rightarrow> TDiffData \<Rightarrow> TDiffLimit option \<Rightarrow> bool" where
  "limit_ok good diff diffLimit \<longleftrightarrow>
     (case diffLimit of
        None \<Rightarrow> good = (\<lambda>_. True)
      | Some L \<Rightarrow> 0 \<le> dl_newPos L \<and> dl_newPos L \<le> dl_newEnd L \<and> dl_newEnd L \<le> new_size diff \<and>
          line_in diff (dl_lastCover_back L) \<and> c_end (dl_lastCover_back L) \<le> dl_newPos L \<and>
          listener_keeps good (dl_listener L))"

text \<open>The new data that are searched.\<close>

definition lim_diff :: "TDiffLimit option \<Rightarrow> TDiffData \<Rightarrow> TDiffData" where
  "lim_diff diffLimit diff = diff\<lparr>d_newData := take (nat (lim_hi diffLimit diff)) (d_newData diff)\<rparr>"

definition all_good :: "(int \<Rightarrow> bool) \<Rightarrow> TOldCover list \<Rightarrow> bool" where
  "all_good good cs \<longleftrightarrow> (\<forall>c \<in> set cs. good (lead c))"

lemma all_good_simps [simp]:
  "all_good good []" "all_good good (c # cs) \<longleftrightarrow> good (lead c) \<and> all_good good cs"
  "all_good good (cs @ ds) \<longleftrightarrow> all_good good cs \<and> all_good good ds"
  by (auto simp: all_good_def)

lemma lim_diff_simps [simp]: "d_oldData (lim_diff L diff) = d_oldData diff" "old_size (lim_diff L diff) = old_size diff" "lim_diff None diff = diff"
  by (simp_all add: lim_diff_def old_size_def lim_hi_def new_size_def)

lemma limit_ok_bounds:
  assumes "limit_ok good diff L"
  shows "0 \<le> lim_lo L" "lim_lo L \<le> lim_hi L diff" "lim_hi L diff \<le> new_size diff" "new_size (lim_diff L diff) = lim_hi L diff"
  using assms by (auto simp: limit_ok_def lim_lo_def lim_hi_def lim_diff_def new_size_def split: option.splits)

lemma line_in_lim: "limit_ok good diff L \<Longrightarrow> line_in (lim_diff L diff) c \<Longrightarrow> line_in diff c"
  using limit_ok_bounds [of good diff L] by (auto simp: line_in_def)

lemma limit_allows_good: "limit_ok good diff L \<Longrightarrow> limit_allows L op np len \<Longrightarrow> 0 \<le> len \<Longrightarrow> good (np - op)"
  by (auto simp: limit_ok_def limit_allows_def listener_keeps_def lead_def split: option.splits
      dest!: spec [of _ "\<lparr>c_oldPos = op, c_newPos = np, c_length = len\<rparr>"])

lemma limit_leave:
  assumes "limit_ok good diff (Some L)" "0 \<le> c_length c"
  shows "0 \<le> snd (lc_limitCover (dl_listener L) c)" "snd (lc_limitCover (dl_listener L) c) \<le> c_length c"
    "0 < snd (lc_limitCover (dl_listener L) c) \<Longrightarrow> good (lead c)"
  using assms by (auto simp: limit_ok_def listener_keeps_def split_def dest!: spec [of _ c])

lemma limit_len_bounds:
  assumes L: "limit_ok good diff L" and s: "0 \<le> safe" "0 \<le> len" "c_newPos l + safe \<le> lim_hi L diff"
    and b: "c_newPos l + len \<le> new_size diff"
  shows "0 \<le> limit_len L l safe len" "limit_len L l safe len \<le> max len safe" "c_newPos l + limit_len L l safe len \<le> lim_hi L diff"
proof (atomize (full), cases L)
  case None
  then show "0 \<le> limit_len L l safe len \<and> limit_len L l safe len \<le> max len safe \<and> c_newPos l + limit_len L l safe len \<le> lim_hi L diff"
    using s b by (simp add: limit_len_def lim_hi_def)
next
  case (Some x)
  let ?len = "if len < dl_newEnd x - c_newPos l then len else dl_newEnd x - c_newPos l"
  let ?c = "\<lparr>c_oldPos = c_oldPos l + safe, c_newPos = c_newPos l + safe, c_length = ?len - safe\<rparr>"
  have "?len > safe \<Longrightarrow> 0 \<le> snd (lc_limitCover (dl_listener x) ?c) \<and> snd (lc_limitCover (dl_listener x) ?c) \<le> ?len - safe"
    using limit_leave [of good diff x ?c] L Some by simp
  then show "0 \<le> limit_len L l safe len \<and> limit_len L l safe len \<le> max len safe \<and> c_newPos l + limit_len L l safe len \<le> lim_hi L diff"
    using s unfolding Some by (auto simp: limit_len_def lim_hi_def Let_def split: if_splits)
qed

section \<open>Matches are matches\<close>

lemma getEqualLength_le: "getEqualLength xs ys \<le> length xs \<and> getEqualLength xs ys \<le> length ys"
  by (induction xs ys rule: getEqualLength.induct) auto

definition match_in :: "(int \<Rightarrow> bool) \<Rightarrow> TDiffData \<Rightarrow> int \<Rightarrow> int \<Rightarrow> int \<Rightarrow> bool" where
  "match_in good diff newPos oldPos len \<longleftrightarrow>
     len < kMinMatchLen \<or> 0 \<le> oldPos \<and> oldPos + len \<le> old_size diff \<and> newPos + len \<le> new_size diff \<and> good (newPos - oldPos)"

lemma getEqualLengthLimit_le: "getEqualLengthLimit k xs ys \<le> length xs \<and> getEqualLengthLimit k xs ys \<le> length ys"
  using getEqualLength_le [of xs ys] getEqualLength_le [of "take k xs" "take k ys"] by (simp add: getEqualLengthLimit_def)

text \<open>The suffix string of the old data.\<close>

definition sstring_of :: "TDiffData \<Rightarrow> TSuffixString \<Rightarrow> bool" where
  "sstring_of diff ss \<longleftrightarrow> sstring_ok (d_oldData diff) ss \<and> length (d_oldData diff) \<le> kUsedCacheMinSASize"

lemma best_match_at_result:
  assumes L: "limit_ok good diff L" and pos: "0 \<le> newPos" "newPos \<le> lim_hi L diff"
    and new: "newData = drop (nat newPos) (d_newData (lim_diff L diff))" and k: "k < length (d_oldData diff)"
    and at: "best_match_at L newData newPos (int k) (drop k (d_oldData diff)) best skip = (Some (Some l), skip')"
  shows "match_in good (lim_diff L diff) newPos (int k) l"
proof -
  let ?src = "drop k (d_oldData diff)"
  have n: "int (length newData) = lim_hi L diff - newPos" using limit_ok_bounds [OF L] pos by (simp add: new new_size_def)
  have fit: "match_in good (lim_diff L diff) newPos (int k) m"
    if "m \<le> int e" "e \<le> length newData" "e \<le> length ?src" "good (newPos - int k)" for m :: int and e
  proof -
    have "e + k \<le> length (d_oldData diff)" using that(3) k by simp
    then have "int e + int k \<le> int (length (d_oldData diff))" by linarith
    then show ?thesis using that(1,2,4) n limit_ok_bounds(4) [OF L] by (simp add: match_in_def old_size_def)
  qed
  have e: "getEqualLength newData ?src \<le> length newData" "getEqualLength newData ?src \<le> length ?src"
    "getEqualLengthLimit kTryEqLenLimit newData ?src \<le> length newData" "getEqualLengthLimit kTryEqLenLimit newData ?src \<le> length ?src"
    using getEqualLength_le getEqualLengthLimit_le by blast+
  show ?thesis
  proof (cases L)
    case None
    then have "l = int (getEqualLength newData ?src)" using at by (simp add: best_match_at_def Let_def split: if_splits)
    then show ?thesis using fit [OF _ e(1,2)] L None by (simp add: limit_ok_def)
  next
    case (Some x)
    let ?c = "\<lambda>len. \<lparr>c_oldPos = int k, c_newPos = newPos, c_length = int len\<rparr>"
    have leave: "snd (lc_limitCover (dl_listener x) (?c m)) \<le> int m"
      "0 < snd (lc_limitCover (dl_listener x) (?c m)) \<Longrightarrow> good (newPos - int k)" for m
      using limit_leave [OF L [unfolded Some], of "?c m"] by (simp_all add: lead_def)
    have all: "match_in good (lim_diff L diff) newPos (int k) (snd (lc_limitCover (dl_listener x) (?c m)))"
      if "m \<le> length newData" "m \<le> length ?src" for m
    proof (cases "snd (lc_limitCover (dl_listener x) (?c m)) < kMinMatchLen")
      case True
      then show ?thesis by (simp add: match_in_def)
    next
      case False
      then have "0 < snd (lc_limitCover (dl_listener x) (?c m))" by (simp add: kMinMatchLen_def)
      from fit [OF leave(1) that leave(2) [OF this]] show ?thesis .
    qed
    have "l = snd (lc_limitCover (dl_listener x) (?c (getEqualLength newData ?src))) \<or>
      l = snd (lc_limitCover (dl_listener x) (?c (getEqualLengthLimit kTryEqLenLimit newData ?src)))"
      using at by (auto simp: Some best_match_at_def Let_def split: if_splits)
    then show ?thesis using all [OF e(1,2)] all [OF e(3,4)] by auto
  qed
qed

lemma best_match_turn_result:
  assumes ss: "sstring_of diff ss" and L: "limit_ok good diff L" and pos: "0 \<le> newPos" "newPos \<le> lim_hi L diff"
    and new: "newData = drop (nat newPos) (d_newData (lim_diff L diff))"
    and b: "match_in good (lim_diff L diff) newPos (bm_oldPos b) (bm_length b)"
  shows "\<exists>r. best_match_turn L ss newData newPos sai mdi b = Ok r \<and>
    match_in good (lim_diff L diff) newPos (bm_oldPos (snd r)) (bm_length (snd r))"
proof -
  have sa: "suffix_array (d_oldData diff) (m_SA ss)" "m_src ss = d_oldData diff" "length (m_SA ss) = length (d_oldData diff)"
    using ss by (auto simp: sstring_of_def sstring_ok_def suffix_array_def)
  define i where "i = sai + (1 - int (mdi mod 2) * 2) * int ((mdi + 1) div 2)"
  note turn = best_match_turn_def [of L ss newData newPos sai mdi b, unfolded Let_def, folded i_def]
  show ?thesis
  proof (cases "(if odd mdi then bm_rightOk b else bm_leftOk b) \<or> i < 0 \<or> int (length (m_src ss)) \<le> i")
    case True
    then show ?thesis using b unfolding turn by simp
  next
    case False
    then have i: "nat i < length (m_SA ss)" using sa by auto
    define k where "k = m_SA ss ! nat i"
    have k: "k < length (d_oldData diff)" using suffix_array_in [OF sa(1) i] by (simp add: k_def)
    have d: "data_from (m_src ss) (int k) = Ok (drop k (d_oldData diff))" using k by (simp add: data_from_def sa(2))
    obtain f skip where at: "best_match_at L newData newPos (int k) (drop k (d_oldData diff)) (bm_length b) (bm_limitSkip b) = (f, skip)"
      by fastforce
    have "match_in good (lim_diff L diff) newPos (int k) l" if "f = Some (Some l)" for l
      using best_match_at_result [OF L pos new k] at that by simp
    then show ?thesis using False i d b
      by (cases f; cases "the f") (simp_all add: turn k_def [symmetric] at)
  qed
qed

lemma best_match_loop_result:
  assumes "sstring_of diff ss" "limit_ok good diff L" "0 \<le> newPos" "newPos \<le> lim_hi L diff"
    and "newData = drop (nat newPos) (d_newData (lim_diff L diff))"
  shows "match_in good (lim_diff L diff) newPos (bm_oldPos b) (bm_length b) \<Longrightarrow>
    \<exists>b'. best_match_loop L ss newData newPos sai mdis b = Ok b' \<and>
      match_in good (lim_diff L diff) newPos (bm_oldPos b') (bm_length b')"
proof (induction mdis arbitrary: b)
  case (Cons mdi mdis)
  obtain x b1 where "best_match_turn L ss newData newPos sai mdi b = Ok (x, b1)"
    "match_in good (lim_diff L diff) newPos (bm_oldPos b1) (bm_length b1)"
    using best_match_turn_result [OF assms Cons.prems, of sai mdi] by auto
  then show ?case using Cons.IH [of b1] by (cases x) simp_all
qed simp

lemma getBestMatch_result:
  assumes ss: "sstring_of diff ss" and L: "limit_ok good diff L" and pos: "0 \<le> newPos" "newPos + kMinMatchLen \<le> lim_hi L diff"
  shows "\<exists>b. getBestMatch ss (drop (nat newPos) (d_newData (lim_diff L diff))) newPos L = Ok b \<and>
    match_in good (lim_diff L diff) newPos (bm_oldPos b) (bm_length b)"
proof -
  let ?d = "drop (nat newPos) (d_newData (lim_diff L diff))"
  have n: "newPos \<le> lim_hi L diff" using pos by (simp add: kMinMatchLen_def)
  have "int (length ?d) = lim_hi L diff - newPos" using limit_ok_bounds [OF L] pos n by (simp add: new_size_def)
  then have "?d \<noteq> []" using pos by (auto simp: kMinMatchLen_def simp del: length_drop)
  then obtain i where "suffix_lower_bound ss ?d = Ok i"
    using suffix_lower_bound_result [of "d_oldData diff" ss ?d] ss by (auto simp: sstring_of_def)
  then show ?thesis using best_match_loop_result [OF ss L pos(1) n refl]
    by (simp add: getBestMatch_def match_in_def Let_def del: upt_Suc)
qed

section \<open>The search\<close>

lemma region_Ok: "0 \<le> pos \<Longrightarrow> 0 \<le> len \<Longrightarrow> pos + len \<le> int (length data) \<Longrightarrow> region data pos len = Ok (take (nat len) (drop (nat pos) data))"
  by (simp add: region_def)

lemma regions_cost_Ok:
  "0 \<le> newPos \<Longrightarrow> 0 \<le> oldPos \<Longrightarrow> 0 \<le> len \<Longrightarrow> newPos + len \<le> new_size diff \<Longrightarrow> oldPos + len \<le> old_size diff \<Longrightarrow>
   \<exists>n. regions_cost diff newPos len oldPos = Ok n"
  by (simp add: regions_cost_def region_Ok new_size_def old_size_def)

lemma drop_differing_result:
  "0 \<le> c_newPos c \<Longrightarrow> 0 \<le> c_oldPos c \<Longrightarrow> 0 \<le> len \<Longrightarrow> c_newPos c + len \<le> new_size diff \<Longrightarrow> c_oldPos c + len \<le> old_size diff \<Longrightarrow>
   \<exists>l. drop_differing diff c len = Ok l \<and> 0 \<le> l \<and> l \<le> len"
proof (induction diff c len rule: drop_differing.induct)
  case (1 diff c len)
  show ?case
  proof (cases "0 < len")
    case True
    let ?x = "d_newData diff ! nat (c_newPos c + len - 1)" and ?y = "d_oldData diff ! nat (c_oldPos c + len - 1)"
    have x: "byte_at (d_newData diff) (c_newPos c + len - 1) = Ok ?x" "byte_at (d_oldData diff) (c_oldPos c + len - 1) = Ok ?y"
      using True "1.prems" by (simp_all add: byte_at_def new_size_def old_size_def)
    show ?thesis
    proof (cases "?x = ?y")
      case False
      then obtain l where "drop_differing diff c (len - 1) = Ok l" "0 \<le> l" "l \<le> len - 1"
        using "1.IH" [OF True x] "1.prems" True by auto
      then show ?thesis using True False x by (subst drop_differing.simps) simp
    next
      case eq: True
      show ?thesis using True eq x by (subst drop_differing.simps) simp
    qed
  next
    case False
    then show ?thesis using "1.prems" by (subst drop_differing.simps) simp
  qed
qed

definition link_in :: "TDiffData \<Rightarrow> TOldCover \<Rightarrow> TOldCover option \<Rightarrow> bool" where
  "link_in diff l r \<longleftrightarrow>
     (case r of None \<Rightarrow> True
      | Some c \<Rightarrow> 0 < c_length l \<and> c_newPos c = c_newPos l \<and> c_oldPos c = c_oldPos l \<and> line_in diff c)"

lemma cover_Link_result:
  assumes "isCollinear l m" "c_end l \<le> c_newPos m" "0 \<le> c_length l"
  shows "cover_Link l m = Ok (l\<lparr>c_length := c_end m - c_newPos l\<rparr>)"
proof -
  have "c_oldPos l \<le> c_oldPos m" "c_oldPos m - c_oldPos l + c_length m = c_end m - c_newPos l"
    using assms by (simp_all add: isCollinear_def c_end_def)
  then show ?thesis using assms(1) by (simp add: cover_Link_def)
qed

lemma linked_in:
  assumes "isCollinear l m" "c_end l \<le> c_newPos m" "line_in diff l" "line_in diff m"
  shows "line_in diff (l\<lparr>c_length := c_end m - c_newPos l\<rparr>)"
  using assms by (auto simp: line_in_def c_end_def isCollinear_def)

lemma tryLinkExtend_result:
  assumes L: "limit_ok good diff L"
    and l: "line_in (lim_diff L diff) l" and m: "line_in (lim_diff L diff) m" and e: "c_end l \<le> c_newPos m"
  shows "\<exists>r. tryLinkExtend l m diff L = Ok r \<and> link_in (lim_diff L diff) l r"
proof -
  define s where "s = c_newPos m - (c_newPos l + c_length l)"
  define p where "p = c_oldPos l + c_length l + s"
  have s: "0 \<le> s" using e by (simp add: s_def c_end_def)
  note L4 = limit_ok_bounds [OF L]
  define deny where "deny \<longleftrightarrow> \<not> limit_allows L (c_oldPos l + c_length l) (c_newPos l + c_length l) (s + (if isCollinear l m then 0 else c_length m))"
  show ?thesis
  proof (cases "c_length l \<le> 0 \<or> kMaxLinkSpaceLength < s \<or> old_size diff < p + c_length m \<or> deny")
    case True
    then show ?thesis using s by (auto simp: tryLinkExtend_def s_def [symmetric] p_def [symmetric] deny_def Let_def link_in_def)
  next
    case False
    then have f: "0 < c_length l" "\<not> kMaxLinkSpaceLength < s" "p + c_length m \<le> old_size diff" "\<not> deny" by auto
    note eq = tryLinkExtend_def [of l m diff L, unfolded Let_def, folded s_def, folded p_def deny_def]
    show ?thesis
    proof (cases "isCollinear l m")
      case True
      have "link_in (lim_diff L diff) l (Some (l\<lparr>c_length := c_end m - c_newPos l\<rparr>))"
        using linked_in [OF True e l m] f(1) by (simp add: link_in_def)
      then show ?thesis using f s True cover_Link_result [OF True e] unfolding eq by simp
    next
      case nc: False
      have in_m: "line_in diff m" "line_in diff l" using line_in_lim [OF L] l m by blast+
      obtain n where n: "regions_cost diff (c_newPos m) (c_length m) p = Ok n"
        using regions_cost_Ok [of "c_newPos m" p "c_length m" diff] in_m f s by (auto simp: line_in_def c_end_def p_def)
      define len where "len = c_length l + s + c_length m * 2 div 3"
      have le: "c_length m * 2 div 3 \<le> c_length m" "0 \<le> c_length m * 2 div 3" using m by (auto simp: line_in_def)
      have b: "0 \<le> len" "c_newPos l + len \<le> new_size diff" "c_oldPos l + len \<le> old_size diff"
        using le f s in_m by (auto simp: len_def p_def s_def line_in_def c_end_def)
      let ?x = "drop (nat (c_newPos l + len)) (d_newData diff)" and ?y = "drop (nat (c_oldPos l + len)) (d_oldData diff)"
      have xy: "data_from (d_newData diff) (c_newPos l + len) = Ok ?x" "data_from (d_oldData diff) (c_oldPos l + len) = Ok ?y"
        using b l by (auto simp: data_from_def new_size_def old_size_def line_in_def)
      have "getEqualLength ?x ?y \<le> length ?x" "getEqualLength ?x ?y \<le> length ?y" using getEqualLength_le by blast+
      moreover have "int (length ?x) = new_size diff - (c_newPos l + len)" "int (length ?y) = old_size diff - (c_oldPos l + len)"
        using b l by (auto simp: new_size_def old_size_def line_in_def)
      ultimately have ge: "c_newPos l + (len + int (getEqualLength ?x ?y)) \<le> new_size diff"
        "c_oldPos l + (len + int (getEqualLength ?x ?y)) \<le> old_size diff"
        by linarith+
      define safe where "safe = c_length l + s + c_length m"
      define len2 where "len2 = limit_len L l safe (len + int (getEqualLength ?x ?y))"
      have sf: "0 \<le> safe" "c_newPos l + safe \<le> lim_hi L diff" "c_oldPos l + safe \<le> old_size diff"
        using s f m l L4(4) by (auto simp: safe_def s_def p_def line_in_def c_end_def)
      have e0: "0 \<le> len + int (getEqualLength ?x ?y)" using b(1) by simp
      note lim = limit_len_bounds [OF L sf(1) e0 sf(2) ge(1), folded len2_def]
      have len2: "0 \<le> len2" "c_newPos l + len2 \<le> lim_hi L diff" "c_oldPos l + len2 \<le> old_size diff"
        using lim ge(2) sf(3) by linarith+
      obtain k where k: "drop_differing diff l len2 = Ok k" "0 \<le> k" "k \<le> len2"
        using drop_differing_result [of l len2 diff] l len2 L4(3) by (auto simp: line_in_def)
      have "link_in (lim_diff L diff) l (Some (l\<lparr>c_length := k\<rparr>))" using k len2 l f L4(4) by (auto simp: link_in_def line_in_def c_end_def)
      then show ?thesis using f s nc n xy k(1) unfolding eq len_def [symmetric]
        by (cases "getCoverCtrlCost m l < n") (simp_all add: link_in_def safe_def [symmetric] len2_def [symmetric])
    qed
  qed
qed

lemma tryCollinear_result:
  assumes L: "limit_ok good diff L" and l: "line_in (lim_diff L diff) l" "good (lead l)"
  shows "\<exists>c. tryCollinear l m diff L = Ok c \<and> line_in (lim_diff L diff) c \<and> c_newPos c = c_newPos l \<and> c_length c = c_length l \<and> good (lead c)"
proof -
  define p where "p = c_oldPos m - (c_newPos m - c_newPos l)"
  have l': "line_in diff l" by (rule line_in_lim [OF L l(1)])
  show ?thesis
  proof (cases "c_length l \<le> 0 \<or> isCollinear l m \<or> p < 0 \<or> old_size diff < p + c_length l \<or> \<not> limit_allows L p (c_newPos l) (c_length l)")
    case True
    then show ?thesis using l by (auto simp: tryCollinear_def p_def [symmetric] Let_def)
  next
    case False
    then have f: "0 < c_length l" "\<not> isCollinear l m" "0 \<le> p" "p + c_length l \<le> old_size diff" "limit_allows L p (c_newPos l) (c_length l)" by auto
    obtain a where a: "getCoverCost l diff = Ok a"
      using regions_cost_Ok [of "c_newPos l" "c_oldPos l" "c_length l" diff] l' by (auto simp: getCoverCost_def line_in_def c_end_def)
    obtain b where b: "regions_cost diff (c_newPos l) (c_length l) p = Ok b"
      using regions_cost_Ok [of "c_newPos l" p "c_length l" diff] l' f by (auto simp: line_in_def c_end_def)
    have "line_in (lim_diff L diff) (l\<lparr>c_oldPos := p\<rparr>)" using l(1) f by (simp add: line_in_def c_end_def)
    moreover have "good (lead (l\<lparr>c_oldPos := p\<rparr>))" using limit_allows_good [OF L f(5)] f(1) by (simp add: lead_def)
    ultimately show ?thesis using f a b l by (simp add: tryCollinear_def p_def [symmetric] Let_def)
  qed
qed

text \<open>What the loop of the search keeps.\<close>

definition search_inv_lines ::
  "(int \<Rightarrow> bool) \<Rightarrow> TDiffLimit option \<Rightarrow> TDiffData \<Rightarrow> TOldCover list \<Rightarrow> TOldCover \<Rightarrow> int \<Rightarrow> bool" where
  "search_inv_lines good L diff covers lastCover newPos \<longleftrightarrow>
     lines_fit covers (lim_lo L) (lim_diff L diff) \<and> ends (lim_lo L) covers \<le> newPos \<and> all_good good covers \<and>
     lastCover = (if covers = [] then no_cover else last covers)"

lemma all_good_last: "all_good good cs \<Longrightarrow> cs \<noteq> [] \<Longrightarrow> good (lead (last cs)) \<and> all_good good (butlast cs)"
  by (cases cs rule: rev_cases) simp_all

lemma search_cover_match_result:
  assumes L: "limit_ok good diff L" and inv: "search_inv_lines good L diff covers lastCover newPos"
    and m: "line_in (lim_diff L diff) m" "c_newPos m = newPos" "good (lead m)"
  shows "\<exists>covers'. search_cover_match diff L ext covers lastCover m = Ok covers' \<and>
    lines_fit covers' (lim_lo L) (lim_diff L diff) \<and> covers' \<noteq> [] \<and> all_good good covers'"
proof -
  let ?D = "lim_diff L diff" and ?e = "lim_lo L"
  note e0 = limit_ok_bounds(1) [OF L]
  have fit: "lines_fit covers ?e ?D" and le: "ends ?e covers \<le> c_newPos m" and g: "all_good good covers"
    using inv m(2) by (simp_all add: search_inv_lines_def)
  have added: "lines_fit (covers @ [m]) ?e ?D" using fit le m(1) e0 by (simp add: lines_fit_snoc)
  show ?thesis
  proof (cases ext)
    case False
    then show ?thesis using added g m(3) by (simp add: search_cover_match_def)
  next
    case True
    show ?thesis
    proof (cases "covers = []")
      case e: True
      then have "tryLinkExtend lastCover m diff L = Ok None" using inv by (simp add: search_inv_lines_def tryLinkExtend_def)
      then show ?thesis using added e True m(3) by (simp add: search_cover_match_def)
    next
      case ne: False
      then have last: "lastCover = last covers" using inv by (simp add: search_inv_lines_def)
      have lc: "line_in ?D (last covers)" "good (lead (last covers))" "all_good good (butlast covers)"
        using lines_fit_in [OF fit e0] ne all_good_last [OF g ne] by simp_all
      have "c_end lastCover \<le> c_newPos m" using le ne last by (simp add: ends_def)
      then obtain r where r: "tryLinkExtend lastCover m diff L = Ok r" "link_in ?D lastCover r"
        using tryLinkExtend_result [OF L _ m(1)] lc(1) last by blast
      show ?thesis
      proof (cases r)
        case (Some c)
        then have c: "c_newPos c = c_newPos (last covers)" "c_oldPos c = c_oldPos (last covers)" "line_in ?D c"
          using r(2) last by (simp_all add: link_in_def)
        then have "lines_fit (butlast covers @ [c]) ?e ?D" using lines_fit_last_update [OF fit e0 ne] by simp
        then show ?thesis using Some r(1) True ne lc c by (simp add: search_cover_match_def lead_def)
      next
        case None
        obtain c where c: "tryCollinear (last covers) m diff L = Ok c" "line_in ?D c" "c_newPos c = c_newPos (last covers)"
          "c_length c = c_length (last covers)" "good (lead c)" using tryCollinear_result [OF L lc(1,2)] by blast
        have "lines_fit (butlast covers @ [c]) ?e ?D" by (rule lines_fit_last_update [OF fit e0 ne c(2,3)])
        moreover have "ends ?e (butlast covers @ [c]) = ends ?e covers" using ne c by (simp add: ends_def c_end_def)
        ultimately have "lines_fit ((butlast covers @ [c]) @ [m]) ?e ?D" using le m(1) e0 by (simp add: lines_fit_snoc del: append_assoc)
        then show ?thesis using None r(1) c True ne lc m(3) by (simp add: search_cover_match_def)
      qed
    qed
  qed
qed

lemma search_cover_loop_result:
  assumes ss: "sstring_of diff ss" and L: "limit_ok good diff L"
  shows "search_inv_lines good L diff covers lastCover newPos \<Longrightarrow>
    \<exists>cs. search_cover_loop diff ss L ext covers lastCover newPos = Ok cs \<and> lines_fit cs (lim_lo L) (lim_diff L diff) \<and> all_good good cs"
proof (induction "nat (lim_hi L diff - newPos)" arbitrary: covers lastCover newPos rule: less_induct)
  case less
  let ?D = "lim_diff L diff" and ?e = "lim_lo L" and ?hi = "lim_hi L diff"
  note inv = less.prems and L4 = limit_ok_bounds [OF L]
  note step = search_cover_loop.simps [of diff ss L ext covers lastCover newPos]
  have pos: "lines_fit covers ?e ?D" "all_good good covers" "0 \<le> newPos"
    using inv lines_fit_ends [of covers ?e ?D] L4(1) by (auto simp: search_inv_lines_def)
  show ?case
  proof (cases "newPos \<le> ?hi - kMinMatchLen")
    case False
    then show ?thesis using pos step by simp
  next
    case True
    have smaller: "nat (?hi - n) < nat (?hi - newPos)" if "newPos < n" for n
      using that True by (simp add: kMinMatchLen_def)
    have next1: "\<exists>cs. search_cover_loop diff ss L ext covers lastCover (newPos + k) = Ok cs \<and> lines_fit cs ?e ?D \<and> all_good good cs" if "1 \<le> k" for k
      by (rule less.hyps [OF smaller]) (use inv that in \<open>auto simp: search_inv_lines_def\<close>)
    obtain b where b: "getBestMatch ss (drop (nat newPos) (d_newData ?D)) newPos L = Ok b"
      "match_in good ?D newPos (bm_oldPos b) (bm_length b)"
      using getBestMatch_result [OF ss L pos(3)] True by auto
    have "newPos + (?hi - newPos) \<le> int (length (d_newData diff))" "0 \<le> ?hi - newPos"
      using L4 True by (simp_all add: new_size_def kMinMatchLen_def)
    then have d: "region (d_newData diff) newPos (?hi - newPos) = Ok (drop (nat newPos) (d_newData ?D))"
      using pos(3) by (simp add: region_Ok lim_diff_def drop_take nat_diff_distrib)
    have skip: "1 \<le> bm_limitSkip b" by (rule getBestMatch_skip [OF b(1)])
    let ?m = "\<lparr>c_oldPos = bm_oldPos b, c_newPos = newPos, c_length = bm_length b\<rparr>"
    show ?thesis
    proof (cases "bm_length b < kMinMatchLen \<or> bm_length b - getCoverCtrlCost ?m lastCover < kMinMatchScore")
      case no: True
      then show ?thesis using next1 [OF skip] next1 [of 1] step True d b(1) by (auto simp: Let_def)
    next
      case False
      then have m: "line_in ?D ?m" "good (lead ?m)"
        using b(2) pos(3) by (auto simp: match_in_def line_in_def c_end_def kMinMatchLen_def lead_def)
      obtain cs where cs: "search_cover_match diff L ext covers lastCover ?m = Ok cs" "lines_fit cs ?e ?D" "cs \<noteq> []" "all_good good cs"
        using search_cover_match_result [OF L inv m(1) _ m(2)] by auto
      let ?n = "max (newPos + 1) (c_newPos (last cs) + c_length (last cs))"
      have "search_inv_lines good L diff cs (last cs) ?n" using cs by (simp add: search_inv_lines_def ends_def c_end_def)
      then have "\<exists>r. search_cover_loop diff ss L ext cs (last cs) ?n = Ok r \<and> lines_fit r ?e ?D \<and> all_good good r"
        by (intro less.hyps smaller) simp_all
      then show ?thesis using step True d b(1) False cs(1) by (simp add: Let_def)
    qed
  qed
qed

lemma search_cover_result:
  assumes "sstring_of diff ss" "limit_ok good diff L"
  shows "\<exists>cs. search_cover diff ss L ext = Ok cs \<and> lines_fit cs (lim_lo L) (lim_diff L diff) \<and> all_good good cs"
  using search_cover_loop_result [OF assms, of "[]" no_cover "lim_lo L"] limit_ok_bounds [OF assms(2)]
  by (simp add: search_cover_def search_inv_lines_def ends_def Let_def)

section \<open>The choice\<close>

definition positive :: "TOldCover list \<Rightarrow> bool" where
  "positive cs \<longleftrightarrow> (\<forall>c \<in> set cs. 0 < c_length c)"

lemma link_backward_result:
  "lines_fit (c # ds) e diff \<Longrightarrow> 0 \<le> e \<Longrightarrow>
   \<exists>c' zs ds'. link_backward L c ds = Ok (c', zs @ ds') \<and> (\<forall>z \<in> set zs. c_length z = 0) \<and> lines_fit (c' # ds') e diff \<and>
     c_newPos c' = c_newPos c \<and> c_oldPos c' = c_oldPos c \<and> c_length c \<le> c_length c' \<and> set ds' \<subseteq> set ds"
proof (induction ds arbitrary: c)
  case Nil
  then show ?case by simp
next
  case (Cons d ds)
  show ?case
  proof (cases "limit_can_link L c d")
    case False
    then have "link_backward L c (d # ds) = Ok (c, [] @ (d # ds))" by simp
    then show ?thesis using Cons.prems by force
  next
    case True
    have cd: "isCollinear c d" "c_end c \<le> c_newPos d" "0 \<le> c_length c" "line_in diff c" "line_in diff d"
      using True Cons.prems lines_fit_Cons_in [of c "d # ds" e diff] lines_fit_Cons_in [of d ds "c_end c" diff]
      by (auto simp: limit_can_link_def isCanLink_def c_end_def line_in_def)
    let ?c = "c\<lparr>c_length := c_end d - c_newPos c\<rparr>"
    have "lines_fit (?c # ds) e diff" using linked_in [OF cd(1,2,4,5)] Cons.prems by (simp add: line_in_def c_end_def)
    from Cons.IH [OF this Cons.prems(2)] obtain c' zs ds' where
      r: "link_backward L ?c ds = Ok (c', zs @ ds')" "\<forall>z \<in> set zs. c_length z = 0" "lines_fit (c' # ds') e diff"
        "c_newPos c' = c_newPos c" "c_oldPos c' = c_oldPos c" "c_end d - c_newPos c \<le> c_length c'" "set ds' \<subseteq> set ds" by auto
    have "link_backward L c (d # ds) = Ok (c', (d\<lparr>c_length := 0\<rparr> # zs) @ ds')"
      using True cover_Link_result [OF cd(1-3)] r(1) by simp
    moreover have "c_length c \<le> c_length c'" using r(6) cd(2,5) by (simp add: c_end_def line_in_def)
    moreover have "\<forall>z \<in> set (d\<lparr>c_length := 0\<rparr> # zs). c_length z = 0" using r(2) by simp
    ultimately show ?thesis using r(3-5,7) by (metis set_subset_Cons subset_trans)
  qed
qed

text \<open>The cover before those of the search.\<close>

definition lim_back :: "TDiffLimit option \<Rightarrow> TOldCover" where
  "lim_back L = (case L of None \<Rightarrow> no_cover | Some L \<Rightarrow> dl_lastCover_back L)"

definition chosen :: "TDiffLimit option \<Rightarrow> TOldCover list \<Rightarrow> TOldCover" where
  "chosen L kept = (if kept = [] then lim_back L else last kept)"

lemma lim_back_in: "limit_ok good diff L \<Longrightarrow> line_in diff (lim_back L) \<and> c_end (lim_back L) \<le> lim_lo L"
  by (auto simp: limit_ok_def lim_back_def lim_lo_def line_in_def c_end_def split: option.splits)

lemma chosen_in:
  assumes "limit_ok good diff L" "lines_fit kept (lim_lo L) (lim_diff L diff)"
  shows "line_in diff (chosen L kept)" "c_end (chosen L kept) \<le> ends (lim_lo L) kept"
  using lim_back_in [OF assms(1)] lines_fit_in [OF assms(2) limit_ok_bounds(1) [OF assms(1)], of "last kept"]
    line_in_lim [OF assms(1), of "last kept"] by (auto simp: chosen_def ends_def)

lemma keep_cover_result:
  assumes L: "limit_ok good diff L" and fit: "lines_fit (kept @ c # ds) (lim_lo L) (lim_diff L diff)"
    and p: "positive kept" "0 < c_length c" and g: "all_good good (kept @ [c])"
    and link: "canLink \<Longrightarrow> kept \<noteq> [] \<and> isCollinear (last kept) c"
  shows "\<exists>kept' n' c'. keep_cover diff kept c (chosen L kept) canLink noc cov = Ok (kept', n', c') \<and>
    lines_fit (kept' @ ds) (lim_lo L) (lim_diff L diff) \<and> positive kept' \<and> kept' \<noteq> [] \<and> all_good good kept'"
proof -
  let ?D = "lim_diff L diff" and ?e = "lim_lo L"
  note e0 = limit_ok_bounds(1) [OF L]
  have k: "lines_fit kept ?e ?D" "ends ?e kept \<le> c_newPos c" "line_in ?D c" "lines_fit ds (c_end c) ?D"
    using fit lines_fit_snoc [OF e0, of kept c ?D] lines_fit_append [of "kept @ [c]" ds ?e ?D] by (simp_all add: ends_def)
  have ci: "line_in diff c" by (rule line_in_lim [OF L k(3)])
  define l where "l = chosen L kept"
  have l: "line_in diff l" "c_end l \<le> c_newPos c" using chosen_in [OF L k(1)] k(2) by (simp_all add: l_def)
  show ?thesis
  proof (cases canLink)
    case False
    have "region (d_newData diff) (c_newPos l + c_length l) (c_newPos c - (c_newPos l + c_length l)) \<noteq> Fault \<and>
      region (d_newData diff) (c_newPos c) (c_length c) \<noteq> Fault \<and> region (d_oldData diff) (c_oldPos c) (c_length c) \<noteq> Fault"
      using l ci by (simp add: region_Ok line_in_def c_end_def new_size_def old_size_def)
    then show ?thesis using False fit p g
      by (auto simp: keep_cover_def Let_def l_def [symmetric] region_def positive_def split: if_splits)
  next
    case True
    then have ne: "kept \<noteq> []" "isCollinear l c" "l = last kept" using link by (auto simp: l_def chosen_def)
    have ll: "line_in ?D l" using lines_fit_in [OF k(1) e0] ne by simp
    let ?k = "l\<lparr>c_length := c_end c - c_newPos l\<rparr>"
    have ki: "line_in ?D ?k" by (rule linked_in [OF ne(2) l(2) ll k(3)])
    have ki': "line_in diff ?k" by (rule line_in_lim [OF L ki])
    have lk: "cover_Link (last kept) c = Ok ?k" using cover_Link_result [OF ne(2) l(2)] l(1) ne(3) by (simp add: line_in_def)
    have "region (d_newData diff) (c_newPos l + c_length l) (c_end c - c_newPos l - c_length l) \<noteq> Fault \<and>
      region (d_oldData diff) (c_oldPos l + c_length l) (c_end c - c_newPos l - c_length l) \<noteq> Fault"
      using l ci ki' p(2) by (simp add: region_Ok line_in_def c_end_def new_size_def old_size_def)
    then obtain r1 r2 where r: "region (d_newData diff) (c_newPos l + c_length l) (c_end c - c_newPos l - c_length l) = Ok r1"
      "region (d_oldData diff) (c_oldPos l + c_length l) (c_end c - c_newPos l - c_length l) = Ok r2"
      by (auto simp: region_def split: if_splits)
    have "lines_fit (butlast kept @ [?k]) ?e ?D" by (rule lines_fit_last_update [OF k(1) e0 ne(1) ki]) (simp add: ne(3))
    then have "lines_fit ((butlast kept @ [?k]) @ ds) ?e ?D" using k(4) by (subst lines_fit_append) (simp add: ends_def c_end_def)
    moreover have "positive (butlast kept @ [?k])"
      using p l(2) by (auto simp: positive_def c_end_def dest: in_set_butlastD) (use l(1) in \<open>simp add: line_in_def\<close>)
    moreover have "all_good good (butlast kept @ [?k])"
      using all_good_last [of good kept] g ne(1,3) by (simp add: lead_def)
    ultimately show ?thesis using True lk r by (simp add: keep_cover_def Let_def l_def [symmetric])
  qed
qed

lemma select_cover_loop_result:
  assumes L: "limit_ok good diff L"
  shows "lines_fit (kept @ ds) (lim_lo L) (lim_diff L diff) \<Longrightarrow> positive kept \<Longrightarrow> \<forall>z \<in> set zs. c_length z = 0 \<Longrightarrow>
    all_good good kept \<Longrightarrow> all_good good ds \<Longrightarrow>
   \<exists>cs n v. select_cover_loop diff L score ext kept (chosen L kept) noc cov (zs @ ds) = Ok (cs, n, v) \<and>
     lines_fit cs (lim_lo L) (lim_diff L diff) \<and> positive cs \<and> all_good good cs"
proof (induction "length (zs @ ds)" arbitrary: zs ds kept noc cov rule: less_induct)
  case less
  let ?D = "lim_diff L diff" and ?e = "lim_lo L"
  note IH = less.hyps and e0 = limit_ok_bounds(1) [OF L]
  show ?case
  proof (cases zs)
    case (Cons z zs')
    then show ?thesis using IH [of zs' ds kept noc cov] less.prems by (simp add: select_cover_loop.simps)
  next
    case zs: Nil
    show ?thesis
    proof (cases ds)
      case Nil
      then show ?thesis using zs less.prems by (simp add: select_cover_loop.simps)
    next
      case (Cons c cs)
      note step = select_cover_loop.simps(2) [of diff L score ext kept "chosen L kept" noc cov c cs]
      have fit: "lines_fit (kept @ c # cs) ?e ?D" using less.prems(1) Cons by simp
      have k: "lines_fit kept ?e ?D" "lines_fit (c # cs) (ends ?e kept) ?D" using fit by (simp_all add: lines_fit_append)
      have k0: "0 \<le> ends ?e kept" using lines_fit_ends [OF k(1) e0] e0 by linarith
      have gc: "good (lead c)" "all_good good cs" using less.prems(5) Cons by simp_all
      have ci: "line_in ?D c" by (rule lines_fit_Cons_in [OF k(2) k0])
      show ?thesis
      proof (cases "c_length c \<le> 0")
        case True
        have "lines_fit (kept @ cs) ?e ?D"
          using lines_fit_mono [of cs "c_newPos c + c_length c" ?D "ends ?e kept"] k ci by (auto simp: lines_fit_append line_in_def)
        then show ?thesis using IH [of "[]" cs kept noc cov] less.prems gc Cons zs True step by simp
      next
        case False
        define can where "can = (ext \<and> kept \<noteq> [] \<and> limit_can_link L (last kept) c)"
        obtain c' ys ds' where b: "(if ext then link_backward L c cs else Ok (c, cs)) = Ok (c', ys @ ds')"
          "\<forall>z \<in> set ys. c_length z = 0" "lines_fit (c' # ds') (ends ?e kept) ?D"
          "c_newPos c' = c_newPos c" "c_oldPos c' = c_oldPos c" "c_length c \<le> c_length c'" "set ds' \<subseteq> set cs"
        proof (cases ext)
          case True
          then show ?thesis using link_backward_result [OF k(2) k0, of L] that by auto
        next
          case False
          then show ?thesis using k(2) that [of c "[]" cs] by simp
        qed
        have gd: "all_good good ds'" "good (lead c')" using b(4,5,7) gc by (auto simp: all_good_def lead_def)
        have len: "length (ys @ ds') < length (zs @ ds)"
          using b(1) link_backward_length [of L c cs c' "ys @ ds'"] Cons zs by (cases ext) auto
        have fit': "lines_fit (kept @ c' # ds') ?e ?D" using k(1) b(3) by (simp add: lines_fit_append)
        have ci': "line_in ?D c'" by (rule lines_fit_Cons_in [OF b(3) k0])
        have skip: "lines_fit (kept @ ds') ?e ?D"
          using lines_fit_mono [of ds' "c_newPos c' + c_length c'" ?D "ends ?e kept"] b(3) k(1) ci' by (auto simp: lines_fit_append line_in_def)
        have cd: "line_in diff c'" by (rule line_in_lim [OF L ci'])
        obtain sc where sc: "single_score diff c' (chosen L kept) noc cov = Ok sc"
          using cd by (simp add: single_score_def region_Ok line_in_def c_end_def new_size_def old_size_def)
        have col: "can \<Longrightarrow> kept \<noteq> [] \<and> isCollinear (last kept) c'" using b(4,5) by (simp add: can_def limit_can_link_def isCanLink_def isCollinear_def)
        have pos: "0 < c_length c'" using False b(6) by simp
        have gk: "all_good good (kept @ [c'])" using less.prems(4) gd by simp
        obtain kept' n' v' where kp: "keep_cover diff kept c' (chosen L kept) can noc cov = Ok (kept', n', v')"
          "lines_fit (kept' @ ds') ?e ?D" "positive kept'" "kept' \<noteq> []" "all_good good kept'"
          using keep_cover_result [OF L fit' less.prems(2) pos gk col] by blast
        have "\<exists>cs n v. select_cover_loop diff L score ext kept' (last kept') n' v' (ys @ ds') = Ok (cs, n, v) \<and>
            lines_fit cs ?e ?D \<and> positive cs \<and> all_good good cs"
          using IH [OF len kp(2,3) b(2) kp(5) gd(1)] kp(4) by (simp add: chosen_def)
        moreover have "\<exists>cs n v. select_cover_loop diff L score ext kept (chosen L kept) noc cov (ys @ ds') = Ok (cs, n, v) \<and>
            lines_fit cs ?e ?D \<and> positive cs \<and> all_good good cs"
          by (rule IH [OF len skip less.prems(2) b(2) less.prems(4) gd(1)])
        ultimately show ?thesis using zs Cons False step b(1) sc kp(1)
          unfolding Let_def can_def [symmetric] by (cases can; cases "score \<le> sc") simp_all
      qed
    qed
  qed
qed

text \<open>A limit after a search: its estimates may have learned.\<close>

definition lim_same :: "TDiffLimit option \<Rightarrow> TDiffLimit option \<Rightarrow> bool" where
  "lim_same L L' \<longleftrightarrow>
     (case L of None \<Rightarrow> L' = None
      | Some l \<Rightarrow> (\<exists>n v. L' = Some (l\<lparr>dl_nocover_detect := n, dl_cover_detect := v\<rparr>)))"

lemma lim_same_ok:
  assumes "lim_same L L'" "limit_ok good diff L"
  shows "limit_ok good diff L'" "lim_lo L' = lim_lo L" "lim_hi L' diff = lim_hi L diff" "lim_diff L' diff = lim_diff L diff"
  using assms by (auto simp: lim_same_def limit_ok_def lim_lo_def lim_hi_def lim_diff_def split: option.splits)

lemma lim_same_refl [simp]: "lim_same L L"
proof (cases L)
  case (Some l)
  have "l = l\<lparr>dl_nocover_detect := dl_nocover_detect l, dl_cover_detect := dl_cover_detect l\<rparr>" by simp
  then show ?thesis unfolding Some lim_same_def option.case by blast
qed (simp add: lim_same_def)

lemma select_cover_result:
  assumes L: "limit_ok good diff L" and f: "lines_fit covers (lim_lo L) (lim_diff L diff)" "all_good good covers"
  shows "\<exists>cs L'. select_cover covers diff score L ext = Ok (cs, L') \<and> lines_fit cs (lim_lo L) (lim_diff L diff) \<and> positive cs \<and>
    all_good good cs \<and> lim_same L L'"
proof -
  have "\<exists>cs n v. select_cover_loop diff L score ext [] (chosen L []) noc cov covers = Ok (cs, n, v) \<and>
     lines_fit cs (lim_lo L) (lim_diff L diff) \<and> positive cs \<and> all_good good cs" for noc cov
    using select_cover_loop_result [OF L, of "[]" covers "[]" score ext noc cov] f by (simp add: positive_def)
  note run = this [unfolded chosen_def lim_back_def]
  show ?thesis
  proof (cases L)
    case None
    then show ?thesis using run [of TCompressDetect_new TCompressDetect_new] by (auto simp: select_cover_def lim_same_def)
  next
    case (Some l)
    obtain cs n v where "select_cover_loop diff (Some l) score ext [] (dl_lastCover_back l) (dl_nocover_detect l) (dl_cover_detect l) covers = Ok (cs, n, v)"
      "lines_fit cs (lim_lo L) (lim_diff L diff) \<and> positive cs \<and> all_good good cs"
      using run [of "dl_nocover_detect l" "dl_cover_detect l"] Some by auto
    moreover have "lim_same L (Some (l\<lparr>dl_nocover_detect := n, dl_cover_detect := v\<rparr>))" unfolding lim_same_def Some option.case by blast
    ultimately show ?thesis unfolding select_cover_def Some by (simp add: Some)
  qed
qed

section \<open>The extension\<close>

text \<open>The last place an extension of length \<open>r\<close> reaches.\<close>

definition reach_ok :: "bool \<Rightarrow> int \<Rightarrow> int \<Rightarrow> TDiffData \<Rightarrow> int \<Rightarrow> int \<Rightarrow> int \<Rightarrow> bool" where
  "reach_ok forward lo hi diff o0 n0 r \<longleftrightarrow>
     (let d = (if forward then r - 1 else 1 - r) in
      r = 0 \<or> 0 < r \<and> 0 \<le> o0 + d \<and> o0 + d < old_size diff \<and> lo \<le> n0 + d \<and> n0 + d < hi)"

lemma can_extend_loop_result:
  assumes b: "0 \<le> lo" "hi \<le> new_size diff"
  shows "reach_ok forward lo hi diff o0 n0 best \<Longrightarrow> 0 < len \<Longrightarrow>
    oldPos = o0 + (if forward then int len - 1 else 1 - int len) \<Longrightarrow> newPos = n0 + (if forward then int len - 1 else 1 - int len) \<Longrightarrow>
    \<exists>q r. can_extend_loop forward lo hi diff oldPos newPos len ratio best same = Ok (q, r) \<and> reach_ok forward lo hi diff o0 n0 r"
proof (induction "if forward then nat (hi - newPos) else nat (newPos - lo + 1)" arbitrary: oldPos newPos len ratio best same rule: less_induct)
  case less
  note step = can_extend_loop.simps [of forward lo hi diff oldPos newPos len ratio best same]
  show ?case
  proof (cases "0 \<le> oldPos \<and> oldPos < old_size diff \<and> lo \<le> newPos \<and> newPos < hi")
    case False
    then show ?thesis using less.prems(1) unfolding step by auto
  next
    case True
    define inc :: int where "inc = (if forward then 1 else - 1)"
    have m: "(if forward then nat (hi - (newPos + inc)) else nat (newPos + inc - lo + 1))
        < (if forward then nat (hi - newPos) else nat (newPos - lo + 1))" using True by (simp add: inc_def)
    have n: "oldPos + inc = o0 + (if forward then int (len + 1) - 1 else 1 - int (len + 1))"
      "newPos + inc = n0 + (if forward then int (len + 1) - 1 else 1 - int (len + 1))" using less.prems(3,4) by (simp_all add: inc_def)
    have here: "reach_ok forward lo hi diff o0 n0 (int len)" using True less.prems(2-4) by (auto simp: reach_ok_def Let_def)
    have "\<exists>x y. byte_at (d_oldData diff) oldPos = Ok x \<and> byte_at (d_newData diff) newPos = Ok y"
      using True b by (simp add: byte_at_def new_size_def old_size_def)
    then obtain x y where xy: "byte_at (d_oldData diff) oldPos = Ok x" "byte_at (d_newData diff) newPos = Ok y" by blast
    have go: "\<exists>q r. can_extend_loop forward lo hi diff (oldPos + inc) (newPos + inc) (len + 1) ra be sa = Ok (q, r) \<and>
      reach_ok forward lo hi diff o0 n0 r" if "reach_ok forward lo hi diff o0 n0 be" for ra be sa
      by (rule less.hyps [OF m that _ n]) simp
    show ?thesis
    proof (cases "x = y \<and> same + 1 \<ge> (2 ^ 64 - 1) div kFixedFloatSmooth_base")
      case stop: True
      then show ?thesis using less.prems(1) True xy unfolding step by simp
    next
      case nostop: False
      show ?thesis using nostop True xy go [OF here] go [OF less.prems(1)]
        unfolding step inc_def [symmetric] by (auto simp: Let_def)
    qed
  qed
qed

lemma getCanExtendLength_result:
  assumes "0 \<le> lo" "hi \<le> new_size diff"
  shows "\<exists>r. getCanExtendLength o0 n0 forward lo hi diff ratio = Ok r \<and> reach_ok forward lo hi diff o0 n0 r"
proof -
  have z: "reach_ok forward lo hi diff o0 n0 0" by (simp add: reach_ok_def Let_def)
  then obtain q r where "can_extend_loop forward lo hi diff o0 n0 1 0 0 0 = Ok (q, r)" "reach_ok forward lo hi diff o0 n0 r"
    using can_extend_loop_result [OF assms z, of 1 o0 n0 0 0] by (cases forward) auto
  then show ?thesis using z by (simp add: getCanExtendLength_def)
qed

lemma extend_cover1_result:
  assumes c: "line_in diff c" and e: "0 \<le> e" "e \<le> c_newPos c" and n: "c_end c \<le> hi" "hi \<le> new_size diff"
  shows "\<exists>c'. extend_cover1 diff ratio e hi c = Ok c' \<and> line_in diff c' \<and> e \<le> c_newPos c' \<and> c_end c' \<le> hi \<and> c_length c \<le> c_length c' \<and>
    lead c' = lead c"
proof -
  obtain f where f: "getCanExtendLength (c_oldPos c - 1) (c_newPos c - 1) False e hi diff ratio = Ok f"
    "reach_ok False e hi diff (c_oldPos c - 1) (c_newPos c - 1) f" using getCanExtendLength_result [OF e(1) n(2)] by blast
  define c1 where "c1 = (if f > 0 then c\<lparr>c_oldPos := c_oldPos c - f, c_newPos := c_newPos c - f, c_length := c_length c + f\<rparr> else c)"
  have c1: "line_in diff c1" "e \<le> c_newPos c1" "c_end c1 = c_end c" "c_length c \<le> c_length c1" "lead c1 = lead c"
    using c e f(2) by (auto simp: c1_def reach_ok_def Let_def line_in_def c_end_def lead_def)
  obtain k where k: "getCanExtendLength (c_oldPos c1 + c_length c1) (c_newPos c1 + c_length c1) True e hi diff ratio = Ok k"
    "reach_ok True e hi diff (c_oldPos c1 + c_length c1) (c_newPos c1 + c_length c1) k" using getCanExtendLength_result [OF e(1) n(2)] by blast
  define c2 where "c2 = (if k > 0 then c1\<lparr>c_length := c_length c1 + k\<rparr> else c1)"
  have c2: "line_in diff c2" "e \<le> c_newPos c2" "c_end c2 \<le> hi" "c_length c \<le> c_length c2" "lead c2 = lead c"
    using c1 n k(2) by (auto simp: c2_def reach_ok_def Let_def line_in_def c_end_def lead_def)
  have "extend_cover1 diff ratio e hi c = Ok c2"
    using f(1) k(1) by (simp add: extend_cover1_def Let_def c1_def [symmetric]) (simp add: c2_def)
  then show ?thesis using c2 by blast
qed

lemma limit_front:
  assumes "limit_ok good diff (Some L)" "0 \<le> c_length c" "good (lead c)"
  shows "\<exists>leave. lc_limitCover_front (dl_listener L) c = Ok leave \<and> 0 \<le> leave \<and> leave \<le> c_length c"
  using assms by (simp add: limit_ok_def listener_keeps_def)

lemma extend_limits_result:
  assumes L: "limit_ok good diff L" and c: "line_in diff c" "good (lead c)" and e: "0 \<le> e" "e \<le> c_newPos c" and n: "c_end c \<le> hi"
  shows "\<exists>e' hi'. extend_limits diff L e hi c = Ok (e', hi') \<and> e \<le> e' \<and> e' \<le> c_newPos c \<and> c_end c \<le> hi' \<and> hi' \<le> hi"
proof (cases L)
  case None
  then show ?thesis using e n by (simp add: extend_limits_def)
next
  case (Some x)
  define lf where "lf = min (c_newPos c - e) (c_oldPos c)"
  define oe where "oe = c_oldPos c + c_length c"
  define ne where "ne = c_newPos c + c_length c"
  define lb where "lb = (if oe + (hi - ne) > old_size diff then old_size diff - oe else hi - ne)"
  let ?f = "\<lparr>c_oldPos = c_oldPos c - lf, c_newPos = c_newPos c - lf, c_length = lf\<rparr>"
  let ?b = "\<lparr>c_oldPos = oe, c_newPos = ne, c_length = lb\<rparr>"
  have f: "\<exists>k. lc_limitCover_front (dl_listener x) ?f = Ok k \<and> 0 \<le> k \<and> k \<le> lf" if "lf > 0"
    using limit_front [OF L [unfolded Some], of ?f] c(2) that by (simp add: lead_def)
  have b: "0 \<le> snd (lc_limitCover (dl_listener x) ?b) \<and> snd (lc_limitCover (dl_listener x) ?b) \<le> lb" if "lb > 0"
    using limit_leave [OF L [unfolded Some], of ?b] that by simp
  obtain e' where e': "(if lf > 0 then rbind (lc_limitCover_front (dl_listener x) ?f) (\<lambda>k. Ok (c_newPos c - k)) else Ok e) = Ok e'"
    "e \<le> e'" "e' \<le> c_newPos c"
  proof (cases "lf > 0")
    case True
    then obtain k where "lc_limitCover_front (dl_listener x) ?f = Ok k" "0 \<le> k" "k \<le> lf" using f by blast
    then show ?thesis using that True by (simp add: lf_def)
  next
    case False
    then show ?thesis using that e by simp
  qed
  define hi' where "hi' = (if lb > 0 then ne + snd (lc_limitCover (dl_listener x) ?b) else hi)"
  have hi': "c_end c \<le> hi'" "hi' \<le> hi" using b n by (auto simp: hi'_def ne_def c_end_def lb_def split: if_splits)
  have "extend_limits diff L e hi c = Ok (e', hi')"
    unfolding extend_limits_def Some option.case Let_def lf_def [symmetric] oe_def [symmetric] ne_def [symmetric] lb_def [symmetric] e'(1)
    by (simp add: hi'_def)
  then show ?thesis using e' hi' by blast
qed

lemma extend_cover_loop_result:
  assumes L: "limit_ok good diff L"
  shows "lines_fit cs e (lim_diff L diff) \<Longrightarrow> 0 \<le> e \<Longrightarrow> all_good good cs \<Longrightarrow>
   \<exists>cs'. extend_cover_loop diff L ratio e cs = Ok cs' \<and> lines_fit cs' e (lim_diff L diff) \<and> (positive cs \<longrightarrow> positive cs') \<and> all_good good cs'"
proof (induction cs arbitrary: e)
  case (Cons c cs)
  let ?D = "lim_diff L diff"
  note L4 = limit_ok_bounds [OF L]
  define hi where "hi = (case cs of d # _ \<Rightarrow> c_newPos d | [] \<Rightarrow> lim_hi L diff)"
  have rest: "lines_fit cs (c_end c) ?D" and e: "e \<le> c_newPos c" using Cons.prems(1) by (simp_all add: c_end_def)
  have ci: "line_in ?D c" by (rule lines_fit_Cons_in [OF Cons.prems(1,2)])
  have cd: "line_in diff c" by (rule line_in_lim [OF L ci])
  have hi: "c_end c \<le> hi" "hi \<le> lim_hi L diff" "lines_fit cs hi ?D"
  proof (atomize (full), cases cs)
    case Nil
    then show "c_end c \<le> hi \<and> hi \<le> lim_hi L diff \<and> lines_fit cs hi ?D" using rest L4(4) by (simp add: hi_def)
  next
    case (Cons d ds)
    have "line_in ?D d" using lines_fit_in [OF rest, of d] ci Cons by (simp add: line_in_def c_end_def)
    then show "c_end c \<le> hi \<and> hi \<le> lim_hi L diff \<and> lines_fit cs hi ?D"
      using rest Cons L4(4) by (simp add: hi_def line_in_def c_end_def)
  qed
  have gc: "good (lead c)" "all_good good cs" using Cons.prems(3) by simp_all
  obtain e1 hi1 where l: "extend_limits diff L e hi c = Ok (e1, hi1)" "e \<le> e1" "e1 \<le> c_newPos c" "c_end c \<le> hi1" "hi1 \<le> hi"
    using extend_limits_result [OF L cd gc(1) Cons.prems(2) e hi(1)] by blast
  have e1: "0 \<le> e1" "hi1 \<le> new_size diff" using l(2,5) Cons.prems(2) hi(2) L4(3) by linarith+
  obtain c' where c': "extend_cover1 diff ratio e1 hi1 c = Ok c'" "line_in diff c'" "e1 \<le> c_newPos c'" "c_end c' \<le> hi1"
    "c_length c \<le> c_length c'" "lead c' = lead c"
    using extend_cover1_result [OF cd e1(1) l(3,4) e1(2)] by blast
  have "lines_fit cs (c_end c') ?D" by (rule lines_fit_mono [OF hi(3)]) (use c'(4) l(5) in linarith)
  moreover have "0 \<le> c_end c'" using c'(2) by (simp add: line_in_def c_end_def)
  ultimately obtain cs' where r: "extend_cover_loop diff L ratio (c_end c') cs = Ok cs'" "lines_fit cs' (c_end c') ?D"
    "positive cs \<longrightarrow> positive cs'" "all_good good cs'" using Cons.IH gc(2) by blast
  have "extend_cover_loop diff L ratio e (c # cs) = Ok (c' # cs')"
    using l(1) c'(1) r(1) by (simp add: hi_def [symmetric] c_end_def Let_def)
  moreover have "lines_fit (c' # cs') e ?D" using c' r(2) l(2) by (simp add: c_end_def line_in_def)
  ultimately show ?case using c'(5,6) r(3,4) gc by (auto simp: positive_def)
qed simp

lemma extend_cover_result:
  assumes "limit_ok good diff L" "lines_fit cs (lim_lo L) (lim_diff L diff)" "all_good good cs"
  shows "\<exists>cs'. extend_cover cs diff ratio L = Ok cs' \<and> lines_fit cs' (lim_lo L) (lim_diff L diff) \<and> (positive cs \<longrightarrow> positive cs') \<and>
    all_good good cs'"
  unfolding extend_cover_def by (rule extend_cover_loop_result [OF assms(1,2) limit_ok_bounds(1) [OF assms(1)] assms(3)])

definition found_ok :: "(int \<Rightarrow> bool) \<Rightarrow> TDiffLimit option \<Rightarrow> TDiffData \<Rightarrow> TOldCover list \<Rightarrow> TDiffLimit option \<Rightarrow> bool" where
  "found_ok good L diff cs L' \<longleftrightarrow>
     lines_fit cs (lim_lo L) (lim_diff L diff) \<and> positive cs \<and> all_good good cs \<and> lim_same L L'"

lemma dispose_cover_result:
  assumes L: "limit_ok good diff L" and cs: "lines_fit cs (lim_lo L) (lim_diff L diff)" "all_good good cs"
  shows "\<exists>cs' L'. dispose_cover cs diff score L ext = Ok (cs', L') \<and> found_ok good L diff cs' L'"
proof (cases ext)
  case False
  then show ?thesis using select_cover_result [OF L cs, of score ext] by (simp add: dispose_cover_def found_ok_def)
next
  case True
  obtain c1 where c1: "extend_cover cs diff (extend_ratio score) L = Ok c1" "lines_fit c1 (lim_lo L) (lim_diff L diff)" "all_good good c1"
    using extend_cover_result [OF L cs] by blast
  obtain c2 L2 where c2: "select_cover c1 diff score L ext = Ok (c2, L2)" "lines_fit c2 (lim_lo L) (lim_diff L diff)" "positive c2"
    "all_good good c2" "lim_same L L2"
    using select_cover_result [OF L c1(2,3)] by blast
  note s = lim_same_ok [OF c2(5) L]
  obtain c3 where "extend_cover c2 diff (extend_ratio score) L2 = Ok c3" "lines_fit c3 (lim_lo L) (lim_diff L diff)" "positive c3" "all_good good c3"
    using extend_cover_result [OF s(1), of c2] c2 unfolding s by blast
  then show ?thesis using True c1(1) c2(1,5) by (simp add: dispose_cover_def Let_def found_ok_def)
qed

lemma search_and_dispose_result:
  assumes "sstring_of diff ss" "limit_ok good diff L"
  shows "\<exists>cs L'. search_and_dispose_cover diff ss score L ext = Ok (cs, L') \<and> found_ok good L diff cs L'"
proof -
  from search_cover_result [OF assms] obtain cs where cs: "search_cover diff ss L ext = Ok cs" "lines_fit cs (lim_lo L) (lim_diff L diff)"
    "all_good good cs" by blast
  show ?thesis
  proof (cases "cs = []")
    case True
    then show ?thesis using cs by (simp add: search_and_dispose_cover_def positive_def found_ok_def)
  next
    case False
    then show ?thesis using dispose_cover_result [OF assms(2) cs(2,3)] cs(1) by (simp add: search_and_dispose_cover_def)
  qed
qed

lemma limit_ok_None: "limit_ok (\<lambda>_. True) diff None"
  by (simp add: limit_ok_def)

lemma first_search_result:
  assumes "sstring_of diff ss"
  shows "\<exists>cs. first_search_and_dispose_cover diff ss score ext = Ok cs \<and> lines_fit cs 0 diff \<and> positive cs"
  using search_and_dispose_result [OF assms limit_ok_None, of score ext]
  by (auto simp: first_search_and_dispose_cover_def found_ok_def lim_lo_def)

section \<open>Properties\<close>

text \<open>C36: For old data of at most 2 MiB with its sorted suffixes (\<open>sstring_ok\<close>) and any new data, the search returns without an assertion that
  fails or an access outside of both files; the covers it gives are not empty, in order of the
  new data without overlap, and inside of both files.\<close>

theorem search_and_dispose_cover_safe:
  assumes "sstring_ok (d_oldData diff) sstring" "length (d_oldData diff) \<le> 2 * 2 ^ 20"
  shows "\<exists>cs. first_search_and_dispose_cover diff sstring kMinSingleMatchScore isCanExtendCover = Ok cs \<and>
    lines_fit cs 0 diff \<and> positive cs"
  by (rule first_search_result) (use assms in \<open>simp add: sstring_of_def kUsedCacheMinSASize_def\<close>)

theorem search_and_dispose_cover_safe_witness:
  "\<exists>ss cs. build_cache [7, 5] [1, 0] = Ok ss \<and>
    first_search_and_dispose_cover \<lparr>d_newData = [1, 7, 5, 7, 5, 7], d_oldData = [7, 5]\<rparr> ss 6 True = Ok cs \<and>
    lines_fit cs 0 \<lparr>d_newData = [1, 7, 5, 7, 5, 7], d_oldData = [7, 5]\<rparr> \<and> positive cs"
proof -
  have "suffix_array [7, 5 :: byte] [1, 0]" by (simp add: suffix_array_def)
  then obtain ss where ss: "build_cache [7, 5] [1, 0] = Ok ss" "sstring_ok [7, 5] ss" using build_cache_ok by blast
  from search_and_dispose_cover_safe [where diff = "\<lparr>d_newData = [1, 7, 5, 7, 5, 7], d_oldData = [7, 5]\<rparr>" and sstring = ss] ss
  show ?thesis by simp
qed

end
