(* ===== verification/NewData.thy ===== *)
theory NewData
  imports BytesRle
begin

text \<open>
  The streams of \<open>stream_serialize.cpp\<close> that the creating side makes of a list of covers: the new
  data that no cover produces (\<open>TNewDataDiffStream\<close>), what has to be added to the old data under the
  covers (\<open>TNewDataSubDiffStream\<close>) and the codes of the covers (\<open>TCoversStream\<close>).  \<open>TCovers\<close> of
  \<open>covers.h\<close> is a list; an index outside it is a fault.
\<close>

section \<open>Covers\<close>

definition cover_at :: "hpatch_TCover list \<Rightarrow> nat \<Rightarrow> hpatch_TCover res" where
  "cover_at covers i = (if i < length covers then Ok (covers ! i) else Fault)"

text \<open>Covers in order, inside both files, that do not overlap in the new data.\<close>

fun covers_fit :: "hpatch_TCover list \<Rightarrow> nat \<Rightarrow> nat \<Rightarrow> nat \<Rightarrow> bool" where
  "covers_fit [] lastNewEnd newSize oldSize \<longleftrightarrow> lastNewEnd \<le> newSize"
| "covers_fit (c # cs) lastNewEnd newSize oldSize \<longleftrightarrow>
     lastNewEnd \<le> newPos c \<and> newPos c + coverLength c \<le> newSize \<and> oldPos c + coverLength c \<le> oldSize \<and>
     covers_fit cs (newPos c + coverLength c) newSize oldSize"

lemma covers_fit_end: "covers_fit cs e n m \<Longrightarrow> e \<le> n"
  by (induction cs arbitrary: e) auto

section \<open>The new data between the covers\<close>

record 's TNewDataDiffStream =
  nd_covers :: "hpatch_TCover list"
  nd_newData :: "'s hpatch_TStreamInput"
  nd_curNewPos :: nat
  nd_curNewPos_end :: nat
  nd_lastNewEnd :: nat
  nd_readedCoverCount :: nat
  nd_readFromPos_back :: nat
  nd_coveri :: nat
  nd_newDataPos :: nat

text \<open>The loop of \<open>_read\<close>: the bytes that follow and the stream.\<close>

function newDataDiff_loop :: "'s TNewDataDiffStream \<Rightarrow> nat \<Rightarrow> (byte list \<times> 's TNewDataDiffStream) res" where
  "newDataDiff_loop self out_len =
     (if 0 < out_len then
        let curLen = nd_curNewPos_end self - nd_curNewPos self in
        if curLen > 0 then
          let readLen = (if out_len > curLen then curLen else out_len) in
          rbind (sread (nd_newData self) (nd_curNewPos self) readLen) (\<lambda>(d, newData).
          rbind (newDataDiff_loop (self\<lparr>nd_newData := newData, nd_curNewPos := nd_curNewPos self + readLen\<rparr>) (out_len - readLen))
            (\<lambda>(r, self). Ok (d @ r, self)))
        else if nd_readedCoverCount self = length (nd_covers self) then
          rbind (check (\<not> nd_lastNewEnd self \<ge> streamSize (nd_newData self))) (\<lambda>_.
          newDataDiff_loop (self\<lparr>nd_curNewPos := nd_lastNewEnd self, nd_curNewPos_end := streamSize (nd_newData self),
                                 nd_lastNewEnd := streamSize (nd_newData self)\<rparr>) out_len)
        else
          rbind (cover_at (nd_covers self) (nd_readedCoverCount self)) (\<lambda>curCover.
          rbind (require (nd_lastNewEnd self \<le> newPos curCover)) (\<lambda>_.
          newDataDiff_loop (self\<lparr>nd_readedCoverCount := nd_readedCoverCount self + 1, nd_curNewPos := nd_lastNewEnd self,
                                 nd_curNewPos_end := newPos curCover,
                                 nd_lastNewEnd := newPos curCover + coverLength curCover\<rparr>) out_len))
      else Ok ([], self))"
  by pat_completeness auto
termination
  by (relation "measures [snd, \<lambda>(self, n). length (nd_covers self) - nd_readedCoverCount self,
        \<lambda>(self, n). if nd_lastNewEnd self \<ge> streamSize (nd_newData self) then 0 else 1]")
    (auto simp: cover_at_def check_def split: if_splits)

declare newDataDiff_loop.simps [simp del]

definition newDataDiff_read ::
  "'s TNewDataDiffStream \<Rightarrow> nat \<Rightarrow> nat \<Rightarrow> nat \<Rightarrow> (byte list \<times> 's TNewDataDiffStream) res" where
  "newDataDiff_read self streamSz readFromPos len =
     rbind (if readFromPos = 0 then
              Ok (self\<lparr>nd_curNewPos := 0, nd_curNewPos_end := 0, nd_readedCoverCount := nd_coveri self,
                       nd_lastNewEnd := nd_newDataPos self\<rparr>)
            else rbind (check (nd_readFromPos_back self = readFromPos)) (\<lambda>_. Ok self)) (\<lambda>self.
     newDataDiff_loop (self\<lparr>nd_readFromPos_back := readFromPos + len\<rparr>) len)"

text \<open>\<open>getDataSize\<close> and \<open>getDataSizeByRange\<close>.\<close>

fun newDataDiff_getDataSize_loop :: "hpatch_TCover list \<Rightarrow> nat \<Rightarrow> nat \<Rightarrow> (nat \<times> nat) res" where
  "newDataDiff_getDataSize_loop [] lastNewEnd sz = Ok (lastNewEnd, sz)"
| "newDataDiff_getDataSize_loop (c # cs) lastNewEnd sz =
     rbind (require (newPos c \<ge> lastNewEnd)) (\<lambda>_.
     newDataDiff_getDataSize_loop cs (newPos c + coverLength c) (sz + (newPos c - lastNewEnd)))"

definition newDataDiff_getDataSize :: "hpatch_TCover list \<Rightarrow> nat \<Rightarrow> nat res" where
  "newDataDiff_getDataSize covers newDataSize =
     rbind (newDataDiff_getDataSize_loop covers 0 0) (\<lambda>(lastNewEnd, newDataDiff_size).
     rbind (require (newDataSize \<ge> lastNewEnd)) (\<lambda>_.
     Ok (newDataDiff_size + (newDataSize - lastNewEnd))))"

fun getDataSizeByRange_loop :: "hpatch_TCover list \<Rightarrow> nat \<Rightarrow> nat \<Rightarrow> nat \<Rightarrow> nat res" where
  "getDataSizeByRange_loop [] newDataPosEnd lastNewEnd sz =
     rbind (require (newDataPosEnd \<ge> lastNewEnd)) (\<lambda>_. Ok (sz + (newDataPosEnd - lastNewEnd)))"
| "getDataSizeByRange_loop (c # cs) newDataPosEnd lastNewEnd sz =
     rbind (require (newPos c \<ge> lastNewEnd)) (\<lambda>_.
     let inc = newPos c - lastNewEnd;
         inc = (if lastNewEnd + inc \<ge> newDataPosEnd then sub64 newDataPosEnd lastNewEnd else inc);
         sz = sz + inc
     in if lastNewEnd + inc = newDataPosEnd then Ok sz
        else if newPos c + coverLength c \<ge> newDataPosEnd then Ok sz
        else getDataSizeByRange_loop cs newDataPosEnd (newPos c + coverLength c) sz)"

definition newDataDiff_getDataSizeByRange :: "hpatch_TCover list \<Rightarrow> nat \<Rightarrow> nat \<Rightarrow> nat \<Rightarrow> nat res" where
  "newDataDiff_getDataSizeByRange covers coveri newDataPos newDataPosEnd =
     getDataSizeByRange_loop (drop coveri covers) newDataPosEnd newDataPos 0"

definition newDataDiff_stream ::
  "hpatch_TCover list \<Rightarrow> 's hpatch_TStreamInput \<Rightarrow> nat \<Rightarrow> nat \<Rightarrow> nat \<Rightarrow> 's TNewDataDiffStream hpatch_TStreamInput" where
  "newDataDiff_stream covers newData coveri newDataPos newDataDiff_size =
     \<lparr>streamImport = \<lparr>nd_covers = covers, nd_newData = newData, nd_curNewPos = 0, nd_curNewPos_end = 0, nd_lastNewEnd = newDataPos,
        nd_readedCoverCount = coveri, nd_readFromPos_back = 0, nd_coveri = coveri, nd_newDataPos = newDataPos\<rparr>,
      streamSize = newDataDiff_size, read = newDataDiff_read\<rparr>"

definition TNewDataDiffStream_make ::
  "hpatch_TCover list \<Rightarrow> 's hpatch_TStreamInput \<Rightarrow> 's TNewDataDiffStream hpatch_TStreamInput res" where
  "TNewDataDiffStream_make covers newData =
     rbind (newDataDiff_getDataSize covers (streamSize newData)) (\<lambda>sz. Ok (newDataDiff_stream covers newData 0 0 sz))"

definition TNewDataDiffStream_initByRange ::
  "hpatch_TCover list \<Rightarrow> 's hpatch_TStreamInput \<Rightarrow> nat \<Rightarrow> nat \<Rightarrow> nat \<Rightarrow> 's TNewDataDiffStream hpatch_TStreamInput res" where
  "TNewDataDiffStream_initByRange covers newData coveri newDataPos newDataPosEnd =
     rbind (newDataDiff_getDataSizeByRange covers coveri newDataPos newDataPosEnd) (\<lambda>sz.
     Ok (newDataDiff_stream covers newData coveri newDataPos sz))"

section \<open>What the covers do not produce\<close>

fun gap_bytes :: "hpatch_TCover list \<Rightarrow> byte list \<Rightarrow> nat \<Rightarrow> byte list" where
  "gap_bytes [] new lastNewEnd = drop lastNewEnd new"
| "gap_bytes (c # cs) new lastNewEnd =
     take (newPos c - lastNewEnd) (drop lastNewEnd new) @ gap_bytes cs new (newPos c + coverLength c)"

lemma getDataSize_loop_result:
  "covers_fit cs e (length new) m \<Longrightarrow>
   \<exists>e' sz'. newDataDiff_getDataSize_loop cs e sz = Ok (e', sz') \<and> e' \<le> length new \<and>
     sz' + (length new - e') = sz + length (gap_bytes cs new e)"
proof (induction cs arbitrary: e sz)
  case (Cons c cs)
  from Cons.prems have f: "e \<le> newPos c" "newPos c + coverLength c \<le> length new"
    "covers_fit cs (newPos c + coverLength c) (length new) m" by auto
  from Cons.IH [OF f(3), of "sz + (newPos c - e)"] f(1,2) show ?case by auto
qed simp

lemma getDataSize_result:
  "covers_fit cs 0 (length new) m \<Longrightarrow> newDataDiff_getDataSize cs (length new) = Ok (length (gap_bytes cs new 0))"
  using getDataSize_loop_result [of cs 0 new m 0] by (auto simp: newDataDiff_getDataSize_def)

context random_stream begin

text \<open>The stream stands at \<open>nd_curNewPos\<close>; \<open>d\<close> is what it has from there on.\<close>

definition nd_at :: "'s TNewDataDiffStream \<Rightarrow> byte list \<Rightarrow> bool" where
  "nd_at self d \<longleftrightarrow>
     rok (nd_newData self) \<and> nd_readedCoverCount self \<le> length (nd_covers self) \<and>
     nd_curNewPos self \<le> nd_curNewPos_end self \<and> nd_curNewPos_end self \<le> nd_lastNewEnd self \<and>
     (\<exists>m. covers_fit (drop (nd_readedCoverCount self) (nd_covers self)) (nd_lastNewEnd self) (length (contents (nd_newData self))) m) \<and>
     d = take (nd_curNewPos_end self - nd_curNewPos self) (drop (nd_curNewPos self) (contents (nd_newData self))) @
       gap_bytes (drop (nd_readedCoverCount self) (nd_covers self)) (contents (nd_newData self)) (nd_lastNewEnd self)"

text \<open>What stays.\<close>

definition nd_same :: "'s TNewDataDiffStream \<Rightarrow> 's TNewDataDiffStream \<Rightarrow> bool" where
  "nd_same self self' \<longleftrightarrow>
     contents (nd_newData self') = contents (nd_newData self) \<and> nd_covers self' = nd_covers self \<and>
     nd_coveri self' = nd_coveri self \<and> nd_newDataPos self' = nd_newDataPos self \<and>
     nd_readFromPos_back self' = nd_readFromPos_back self"

lemma newDataDiff_loop_result:
  "nd_at self d \<Longrightarrow> n \<le> length d \<Longrightarrow>
   \<exists>self'. newDataDiff_loop self n = Ok (take n d, self') \<and> nd_at self' (drop n d) \<and> nd_same self self'"
proof (induction self n arbitrary: d rule: newDataDiff_loop.induct)
  case (1 self n)
  let ?new = "contents (nd_newData self)"
  from "1.prems"(1) obtain m where at: "rok (nd_newData self)" "nd_readedCoverCount self \<le> length (nd_covers self)"
      "nd_curNewPos self \<le> nd_curNewPos_end self" "nd_curNewPos_end self \<le> nd_lastNewEnd self"
      "covers_fit (drop (nd_readedCoverCount self) (nd_covers self)) (nd_lastNewEnd self) (length ?new) m"
      "d = take (nd_curNewPos_end self - nd_curNewPos self) (drop (nd_curNewPos self) ?new) @
        gap_bytes (drop (nd_readedCoverCount self) (nd_covers self)) ?new (nd_lastNewEnd self)"
    unfolding nd_at_def by blast
  have sz: "streamSize (nd_newData self) = length ?new" "length ?new < 2 ^ 64" using contents_size [OF at(1)] by auto
  have le: "nd_lastNewEnd self \<le> length ?new" by (rule covers_fit_end [OF at(5)])
  show ?case
  proof (cases "0 < n")
    case False
    then show ?thesis using "1.prems"(1) by (simp add: newDataDiff_loop.simps [of self] nd_same_def)
  next
    case n: True
    let ?cur = "nd_curNewPos_end self - nd_curNewPos self"
    show ?thesis
    proof (cases "?cur > 0")
      case True
      define len where "len = (if n > ?cur then ?cur else n)"
      have len: "0 < len" "len \<le> n" "len \<le> ?cur" using True n by (auto simp: len_def)
      have "hoare True (sread (nd_newData self) (nd_curNewPos self) len) (\<lambda>(x, st'). x = take len (drop (nd_curNewPos self) ?new) \<and>
          rok st' \<and> contents st' = ?new)"
        by (rule random_rule [OF at(1)]) (use len at(3,4) le sz in auto)
      from hoare_success [OF this TrueI] obtain st' where
        st: "sread (nd_newData self) (nd_curNewPos self) len = Ok (take len (drop (nd_curNewPos self) ?new), st')" "rok st'"
          "contents st' = ?new" by auto
      let ?self = "self\<lparr>nd_newData := st', nd_curNewPos := nd_curNewPos self + len\<rparr>"
      have pre: "take len d = take len (drop (nd_curNewPos self) ?new)" using at(3,4,6) le len(3) by simp
      have at': "nd_at ?self (drop len d)"
        unfolding nd_at_def using at st(2,3) len le
        by (auto simp: drop_take add.commute intro!: exI [of _ m])
      have "n - len \<le> length (drop len d)" using "1.prems"(2) by simp
      from "1.IH"(1) [OF n refl True len_def st(1) refl at' this] obtain self' where
          "newDataDiff_loop ?self (n - len) = Ok (take (n - len) (drop len d), self')"
          "nd_at self' (drop (n - len) (drop len d))" "nd_same ?self self'"
        by blast
      moreover have "drop (n - len) (drop len d) = drop n d" using len(2) by simp
      moreover have "take len d @ take (n - len) (drop len d) = take n d"
        using len(2) by (metis add_diff_inverse_nat not_less take_add)
      ultimately show ?thesis using n True st(1,3) pre len(2)
        by (simp add: newDataDiff_loop.simps [of self n] Let_def len_def [symmetric] nd_same_def)
    next
      case cur0: False
      have d: "d = gap_bytes (drop (nd_readedCoverCount self) (nd_covers self)) ?new (nd_lastNewEnd self)" using at(6) cur0 by simp
      show ?thesis
      proof (cases "nd_readedCoverCount self = length (nd_covers self)")
        case True
        then have d': "d = drop (nd_lastNewEnd self) ?new" using d by simp
        then have c: "\<not> nd_lastNewEnd self \<ge> streamSize (nd_newData self)" using "1.prems"(2) n sz by auto
        let ?self = "self\<lparr>nd_curNewPos := nd_lastNewEnd self, nd_curNewPos_end := streamSize (nd_newData self),
                          nd_lastNewEnd := streamSize (nd_newData self)\<rparr>"
        have "covers_fit [] (length ?new) (length ?new) 0" by simp
        then have "nd_at ?self d" unfolding nd_at_def using at(1) True d' sz le by (auto intro: exI [of _ 0])
        from "1.IH"(2) [OF n refl cur0 True _ this "1.prems"(2)] c obtain self' where
          "newDataDiff_loop ?self n = Ok (take n d, self')" "nd_at self' (drop n d)" "nd_same ?self self'" by (auto simp: check_def)
        then show ?thesis using n cur0 True c by (simp add: newDataDiff_loop.simps [of self n] Let_def nd_same_def)
      next
        case False
        then have i: "nd_readedCoverCount self < length (nd_covers self)" using at(2) by simp
        define c where "c = nd_covers self ! nd_readedCoverCount self"
        have dr: "drop (nd_readedCoverCount self) (nd_covers self) = c # drop (nd_readedCoverCount self + 1) (nd_covers self)"
          using i by (simp add: c_def Cons_nth_drop_Suc)
        have ca: "cover_at (nd_covers self) (nd_readedCoverCount self) = Ok c" using i by (simp add: cover_at_def c_def)
        from at(5) have f: "nd_lastNewEnd self \<le> newPos c" "newPos c + coverLength c \<le> length ?new"
          "covers_fit (drop (nd_readedCoverCount self + 1) (nd_covers self)) (newPos c + coverLength c) (length ?new) m"
          unfolding dr by auto
        let ?self = "self\<lparr>nd_readedCoverCount := nd_readedCoverCount self + 1, nd_curNewPos := nd_lastNewEnd self,
                          nd_curNewPos_end := newPos c, nd_lastNewEnd := newPos c + coverLength c\<rparr>"
        have "nd_at ?self d" unfolding nd_at_def using at(1) i f d dr by auto
        from "1.IH"(3) [OF n refl cur0 False ca _ this "1.prems"(2)] f(1) obtain self' where
          "newDataDiff_loop ?self n = Ok (take n d, self')" "nd_at self' (drop n d)" "nd_same ?self self'" by (auto simp: require_def)
        then show ?thesis using n cur0 False ca f(1) by (simp add: newDataDiff_loop.simps [of self n] Let_def nd_same_def)
      qed
    qed
  qed
qed

text \<open>The stream is read onwards, or again from its beginning.\<close>

definition nd_sok :: "'s TNewDataDiffStream hpatch_TStreamInput \<Rightarrow> nat \<Rightarrow> byte list \<Rightarrow> bool" where
  "nd_sok st pos d \<longleftrightarrow>
     (let self = streamImport st in
      read st = newDataDiff_read \<and> streamSize st = pos + length d \<and> streamSize st < 2 ^ 64 \<and>
      (if pos = 0 then
         rok (nd_newData self) \<and> nd_coveri self \<le> length (nd_covers self) \<and>
         (\<exists>m. covers_fit (drop (nd_coveri self) (nd_covers self)) (nd_newDataPos self) (length (contents (nd_newData self))) m) \<and>
         (\<exists>x. gap_bytes (drop (nd_coveri self) (nd_covers self)) (contents (nd_newData self)) (nd_newDataPos self) = d @ x)
       else nd_readFromPos_back self = pos \<and> (\<exists>x. nd_at self (d @ x))))"

lemma nd_step:
  assumes st: "nd_sok st pos d" and len: "0 < len" "len \<le> length d"
  shows "\<exists>st'. sread st pos len = Ok (take len d, st') \<and> nd_sok st' (pos + len) (drop len d) \<and> streamSize st' = streamSize st \<and>
    read st' = read st \<and> rok (nd_newData (streamImport st')) \<and>
    nd_same (streamImport st) (streamImport st'\<lparr>nd_readFromPos_back := nd_readFromPos_back (streamImport st)\<rparr>)"
proof -
  define self where "self = streamImport st"
  obtain self1 x where s1: "(if pos = 0 then
              Ok (self\<lparr>nd_curNewPos := 0, nd_curNewPos_end := 0, nd_readedCoverCount := nd_coveri self,
                       nd_lastNewEnd := nd_newDataPos self\<rparr>)
            else rbind (check (nd_readFromPos_back self = pos)) (\<lambda>_. Ok self)) = Ok self1" "nd_at self1 (d @ x)"
    "nd_same self self1"
  proof (cases "pos = 0")
    case True
    let ?s = "self\<lparr>nd_curNewPos := 0, nd_curNewPos_end := 0, nd_readedCoverCount := nd_coveri self,
                       nd_lastNewEnd := nd_newDataPos self\<rparr>"
    from st True obtain m x where "rok (nd_newData self)" "nd_coveri self \<le> length (nd_covers self)"
        "covers_fit (drop (nd_coveri self) (nd_covers self)) (nd_newDataPos self) (length (contents (nd_newData self))) m"
        "gap_bytes (drop (nd_coveri self) (nd_covers self)) (contents (nd_newData self)) (nd_newDataPos self) = d @ x"
      by (auto simp: nd_sok_def Let_def self_def [symmetric])
    then have "nd_at ?s (d @ x)" by (auto simp: nd_at_def)
    then show ?thesis using True by (intro that [of ?s x]) (simp_all add: nd_same_def)
  next
    case False
    with st obtain x where "nd_at self (d @ x)" "nd_readFromPos_back self = pos"
      by (auto simp: nd_sok_def Let_def self_def [symmetric])
    then show ?thesis using False by (intro that [of self x]) (simp_all add: nd_same_def)
  qed
  let ?self = "self1\<lparr>nd_readFromPos_back := pos + len\<rparr>"
  have "nd_at ?self (d @ x)" using s1(2) by (simp add: nd_at_def)
  from newDataDiff_loop_result [OF this, of len] len obtain self' where
    r: "newDataDiff_loop ?self len = Ok (take len d, self')" "nd_at self' (drop len d @ x)" "nd_same ?self self'" by auto
  then have "rok (nd_newData self')" by (simp add: nd_at_def)
  then show ?thesis using st s1 len r
    by (auto simp: sread_def nd_sok_def Let_def self_def [symmetric] newDataDiff_read_def nd_same_def)
qed

lemma newDataDiff_seq: "seq_stream nd_sok"
proof
  fix st pos d and len :: nat
  assume "nd_sok st pos d" "0 < len" "len \<le> length d"
  from nd_step [OF this] show "\<exists>st'. sread st pos len = Ok (take len d, st') \<and> nd_sok st' (pos + len) (drop len d) \<and> streamSize st' = streamSize st"
    by blast
qed (auto simp: nd_sok_def Let_def)

end

end
