(* ===== verification/SubDiff.thy ===== *)
theory SubDiff
  imports NewData
begin

text \<open>
  \<open>TNewDataSubDiffStream\<close> of \<open>stream_serialize.cpp\<close>: what has to be added to the old data under the
  covers to get the new data, with zeros between the covers.  It is the string that the run-length
  code of a diff stands for.  A loop that would never end is a fault.
\<close>

section \<open>The code\<close>

definition hpatch_kNullStreamPos :: nat where
  "hpatch_kNullStreamPos = 2 ^ 64 - 1"

definition kSubDiffCacheSize :: nat where
  "kSubDiffCacheSize = 1024 * 512"

definition bytes_sub :: "byte list \<Rightarrow> byte list \<Rightarrow> byte list" where
  "bytes_sub xs ys = map2 (-) xs ys"

record ('n, 'o) TNewDataSubDiffStream =
  sd_curReadNewPos :: nat
  sd_curReadOldPos :: nat
  sd_curReadPos :: nat
  sd_curDataLen :: nat
  sd_nextCoveri :: nat
  sd_newData :: "'n hpatch_TStreamInput"
  sd_oldData :: "'o hpatch_TStreamInput"
  sd_covers :: "hpatch_TCover list"
  sd_isOnlySubCover :: bool
  sd_isZeroSubDiff :: bool

definition subDiff_initRead :: "('n, 'o) TNewDataSubDiffStream \<Rightarrow> ('n, 'o) TNewDataSubDiffStream" where
  "subDiff_initRead self =
     self\<lparr>sd_curReadNewPos := 0, sd_curReadOldPos := hpatch_kNullStreamPos, sd_curReadPos := 0, sd_nextCoveri := 0,
          sd_curDataLen := 0\<rparr>"

text \<open>\<open>_subData\<close>: the old data is read through a cache.\<close>

function subData_loop :: "byte list \<Rightarrow> 'o hpatch_TStreamInput \<Rightarrow> nat \<Rightarrow> (byte list \<times> 'o hpatch_TStreamInput) res" where
  "subData_loop out_data oldData old_pos =
     (if out_data \<noteq> [] then
        let rlen = (if length out_data > kSubDiffCacheSize then kSubDiffCacheSize else length out_data) in
        rbind (sread oldData old_pos rlen) (\<lambda>(cache, oldData).
        rbind (subData_loop (drop rlen out_data) oldData (old_pos + rlen)) (\<lambda>(r, oldData).
        Ok (bytes_sub (take rlen out_data) cache @ r, oldData)))
      else Ok ([], oldData))"
  by pat_completeness auto
termination
  by (relation "measure (\<lambda>(d, old, p). length d)") (auto simp: kSubDiffCacheSize_def)

declare subData_loop.simps [simp del]

text \<open>The next piece: up to the next cover, the cover, or up to the end.\<close>

definition subDiff_refill :: "('n, 'o) TNewDataSubDiffStream \<Rightarrow> nat \<Rightarrow> ('n, 'o) TNewDataSubDiffStream res" where
  "subDiff_refill self streamSz =
     (if sd_curDataLen self = 0 then
        if sd_nextCoveri self < length (sd_covers self) then
          rbind (cover_at (sd_covers self) (sd_nextCoveri self)) (\<lambda>cover.
          if newPos cover > sd_curReadNewPos self then
            Ok (self\<lparr>sd_curDataLen := newPos cover - sd_curReadNewPos self, sd_curReadOldPos := hpatch_kNullStreamPos\<rparr>)
          else
            rbind (require (newPos cover = sd_curReadNewPos self)) (\<lambda>_.
            Ok (self\<lparr>sd_curDataLen := coverLength cover, sd_curReadOldPos := oldPos cover,
                     sd_nextCoveri := sd_nextCoveri self + 1\<rparr>)))
        else
          let len = sub64 streamSz (sd_curReadNewPos self) in
          rbind (require (len > 0)) (\<lambda>_.
          Ok (self\<lparr>sd_curDataLen := len, sd_curReadOldPos := hpatch_kNullStreamPos\<rparr>))
      else Ok self)"

lemma subDiff_refill_measure:
  "subDiff_refill self sz = Ok self' \<Longrightarrow>
   sd_covers self' = sd_covers self \<and>
   (self' = self \<and> 0 < sd_curDataLen self \<or>
    sd_nextCoveri self < length (sd_covers self) \<and> sd_nextCoveri self' = sd_nextCoveri self + 1 \<or>
    0 < sd_curDataLen self' \<and> sd_nextCoveri self' = sd_nextCoveri self \<and> sd_curReadNewPos self' = sd_curReadNewPos self \<and>
    (sd_nextCoveri self < length (sd_covers self) \<longrightarrow>
       sd_curReadNewPos self + sd_curDataLen self' = newPos (sd_covers self ! sd_nextCoveri self)))"
  by (auto simp: subDiff_refill_def cover_at_def require_def Let_def split: if_splits)

text \<open>The bytes of a step, with the streams they were read from.\<close>

definition subDiff_piece ::
  "('n, 'o) TNewDataSubDiffStream \<Rightarrow> nat \<Rightarrow> (byte list \<times> 'n hpatch_TStreamInput \<times> 'o hpatch_TStreamInput) res" where
  "subDiff_piece self len =
     (if \<not> sd_isZeroSubDiff self \<and> sd_curReadOldPos self \<noteq> hpatch_kNullStreamPos then
        rbind (sread (sd_newData self) (sd_curReadNewPos self) len) (\<lambda>(out_data, newData).
        rbind (subData_loop out_data (sd_oldData self) (sd_curReadOldPos self)) (\<lambda>(out_data, oldData).
        Ok (out_data, newData, oldData)))
      else Ok (replicate len 0, sd_newData self, sd_oldData self))"

definition subDiff_advance ::
  "('n, 'o) TNewDataSubDiffStream \<Rightarrow> nat \<Rightarrow> 'n hpatch_TStreamInput \<Rightarrow> 'o hpatch_TStreamInput \<Rightarrow> ('n, 'o) TNewDataSubDiffStream" where
  "subDiff_advance self len newData oldData =
     self\<lparr>sd_newData := newData, sd_oldData := oldData,
          sd_curReadOldPos := (if sd_curReadOldPos self \<noteq> hpatch_kNullStreamPos
                               then sd_curReadOldPos self + len else sd_curReadOldPos self),
          sd_curReadNewPos := sd_curReadNewPos self + len,
          sd_curDataLen := sd_curDataLen self - len\<rparr>"

lemma subDiff_advance_simps [simp]:
  "sd_covers (subDiff_advance self len nd od) = sd_covers self"
  "sd_nextCoveri (subDiff_advance self len nd od) = sd_nextCoveri self"
  "sd_isOnlySubCover (subDiff_advance self len nd od) = sd_isOnlySubCover self"
  "sd_isZeroSubDiff (subDiff_advance self len nd od) = sd_isZeroSubDiff self"
  "sd_curReadPos (subDiff_advance self len nd od) = sd_curReadPos self"
  "sd_newData (subDiff_advance self len nd od) = nd" "sd_oldData (subDiff_advance self len nd od) = od"
  "sd_curReadNewPos (subDiff_advance self len nd od) = sd_curReadNewPos self + len"
  "sd_curDataLen (subDiff_advance self len nd od) = sd_curDataLen self - len"
  by (simp_all add: subDiff_advance_def)

function subDiff_readTo ::
  "('n, 'o) TNewDataSubDiffStream \<Rightarrow> nat \<Rightarrow> nat \<Rightarrow> (byte list \<times> ('n, 'o) TNewDataSubDiffStream) res" where
  "subDiff_readTo self streamSz readLen =
     (if readLen > 0 then
        rbind (subDiff_refill self streamSz) (\<lambda>self.
        if sd_curReadOldPos self = hpatch_kNullStreamPos \<and> sd_isOnlySubCover self then
          rbind (require (sd_nextCoveri self < length (sd_covers self))) (\<lambda>_.
          subDiff_readTo (self\<lparr>sd_curReadNewPos := sd_curReadNewPos self + sd_curDataLen self, sd_curDataLen := 0\<rparr>) streamSz readLen)
        else
          let len = min (sd_curDataLen self) readLen in
          rbind (subDiff_piece self len) (\<lambda>(out_data, newData, oldData).
          rbind (subDiff_readTo (subDiff_advance self len newData oldData) streamSz (readLen - len)) (\<lambda>(r, self).
          Ok (out_data @ r, self))))
      else Ok ([], self))"
  by pat_completeness auto
termination
proof (relation "measures [\<lambda>(self, sz, n). n, \<lambda>(self, sz, n). length (sd_covers self) - sd_nextCoveri self,
        \<lambda>(self, sz, n). if sd_nextCoveri self < length (sd_covers self)
          then newPos (sd_covers self ! sd_nextCoveri self) - sd_curReadNewPos self else 0,
        \<lambda>(self, sz, n). sd_curDataLen self]", goal_cases)
  case (2 self sz n self')
  then show ?case using subDiff_refill_measure [OF 2(2)] by (auto simp: require_def split: if_splits)
next
  case (3 self sz n self' len x)
  note m = subDiff_refill_measure [OF 3(2)]
  show ?case
  proof (cases "sd_curDataLen self' = 0")
    case True
    then have "len = 0" "sd_covers self' = sd_covers self" "sd_nextCoveri self < length (sd_covers self)"
      "sd_nextCoveri self' = sd_nextCoveri self + 1" using m 3 by auto
    then have "length (sd_covers self') - sd_nextCoveri self' < length (sd_covers self) - sd_nextCoveri self"
      using diff_less_mono2 [of "sd_nextCoveri self" "sd_nextCoveri self + 1" "length (sd_covers self)"]
      by (simp only: less_add_one)
    then show ?thesis using \<open>len = 0\<close> by simp
  next
    case False
    then have "n - len < n" using 3 by simp
    then show ?thesis by simp
  qed
qed auto

declare subDiff_readTo.simps [simp del]

definition subDiff_read ::
  "('n, 'o) TNewDataSubDiffStream \<Rightarrow> nat \<Rightarrow> nat \<Rightarrow> nat \<Rightarrow> (byte list \<times> ('n, 'o) TNewDataSubDiffStream) res" where
  "subDiff_read self streamSz readFromPos len =
     (let self = (if readFromPos = 0 then subDiff_initRead self else self) in
      rbind (check (\<not> readFromPos \<noteq> sd_curReadPos self)) (\<lambda>_.
      let self = self\<lparr>sd_curReadPos := sd_curReadPos self + len\<rparr> in
      rbind (require (sd_curReadPos self \<le> streamSz)) (\<lambda>_.
      subDiff_readTo self streamSz len)))"

definition TNewDataSubDiffStream_make ::
  "'n hpatch_TStreamInput \<Rightarrow> 'o hpatch_TStreamInput \<Rightarrow> hpatch_TCover list \<Rightarrow> bool \<Rightarrow> bool \<Rightarrow>
   ('n, 'o) TNewDataSubDiffStream hpatch_TStreamInput" where
  "TNewDataSubDiffStream_make newData oldData covers isOnlySubCover isZeroSubDiff =
     \<lparr>streamImport = subDiff_initRead
        \<lparr>sd_curReadNewPos = 0, sd_curReadOldPos = 0, sd_curReadPos = 0, sd_curDataLen = 0, sd_nextCoveri = 0,
         sd_newData = newData, sd_oldData = oldData, sd_covers = covers,
         sd_isOnlySubCover = isOnlySubCover, sd_isZeroSubDiff = isZeroSubDiff\<rparr>,
      streamSize = (if isOnlySubCover then fold (\<lambda>c n. add64 n (coverLength c)) covers 0 else streamSize newData),
      read = subDiff_read\<rparr>"

definition TNewDataSubDiffStream_mem ::
  "byte list \<Rightarrow> byte list \<Rightarrow> hpatch_TCover list \<Rightarrow> bool \<Rightarrow> bool \<Rightarrow>
   (byte list, byte list) TNewDataSubDiffStream hpatch_TStreamInput" where
  "TNewDataSubDiffStream_mem newData oldData covers isOnlySubCover isZeroSubDiff =
     TNewDataSubDiffStream_make (mem_as_hStreamInput newData) (mem_as_hStreamInput oldData) covers isOnlySubCover isZeroSubDiff"

section \<open>What the stream holds\<close>

fun sub_bytes :: "bool \<Rightarrow> bool \<Rightarrow> hpatch_TCover list \<Rightarrow> byte list \<Rightarrow> byte list \<Rightarrow> nat \<Rightarrow> byte list" where
  "sub_bytes only zero [] new old lastNewEnd = (if only then [] else replicate (length new - lastNewEnd) 0)"
| "sub_bytes only zero (c # cs) new old lastNewEnd =
     (if only then [] else replicate (newPos c - lastNewEnd) 0) @
     (if zero then replicate (coverLength c) 0
      else bytes_sub (take (coverLength c) (drop (newPos c) new)) (take (coverLength c) (drop (oldPos c) old))) @
     sub_bytes only zero cs new old (newPos c + coverLength c)"

lemma bytes_sub_length [simp]: "length (bytes_sub xs ys) = min (length xs) (length ys)"
  by (simp add: bytes_sub_def)

lemma bytes_sub_Nil [simp]: "bytes_sub [] ys = []" "bytes_sub xs [] = []"
  by (simp_all add: bytes_sub_def)

lemma bytes_sub_take: "take n (bytes_sub xs ys) = bytes_sub (take n xs) (take n ys)"
  by (simp add: bytes_sub_def take_map take_zip)

lemma bytes_sub_drop: "drop n (bytes_sub xs ys) = bytes_sub (drop n xs) (drop n ys)"
  by (simp add: bytes_sub_def drop_map drop_zip)

lemma bytes_sub_append:
  "length xs = length ys \<Longrightarrow> bytes_sub (xs @ xs') (ys @ ys') = bytes_sub xs ys @ bytes_sub xs' ys'"
  by (simp add: bytes_sub_def)

lemma sub_bytes_length:
  "covers_fit cs e (length new) (length old) \<Longrightarrow> length (sub_bytes False zero cs new old e) = length new - e"
proof (induction cs arbitrary: e)
  case (Cons c cs)
  from Cons.prems have f: "e \<le> newPos c" "newPos c + coverLength c \<le> length new" "oldPos c + coverLength c \<le> length old"
    "covers_fit cs (newPos c + coverLength c) (length new) (length old)" by auto
  with Cons.IH [OF f(4)] show ?case by (auto simp: min_def)
qed simp

context random_stream begin

lemma subData_loop_result:
  assumes "rok st" "pos + length d \<le> length (contents st)"
  shows "\<exists>st'. subData_loop d st pos = Ok (bytes_sub d (take (length d) (drop pos (contents st))), st') \<and>
    rok st' \<and> contents st' = contents st \<and> streamSize st' = streamSize st"
  using assms
proof (induction "length d" arbitrary: d st pos rule: less_induct)
  case less
  show ?case
  proof (cases "d = []")
    case True
    then have "subData_loop d st pos = Ok ([], st)" by (simp add: subData_loop.simps)
    then show ?thesis using less.prems True by (simp add: bytes_sub_def)
  next
    case False
    define n where "n = (if length d > kSubDiffCacheSize then kSubDiffCacheSize else length d)"
    have n: "0 < n" "n \<le> length d" using False by (auto simp: n_def kSubDiffCacheSize_def)
    have sz: "length (contents st) < 2 ^ 64" using contents_size [OF less.prems(1)] by simp
    have "hoare True (sread st pos n) (\<lambda>(x, st'). x = take n (drop pos (contents st)) \<and> rok st' \<and> contents st' = contents st \<and>
        streamSize st' = streamSize st)"
      by (rule random_rule [OF less.prems(1)]) (use n less.prems(2) sz in auto)
    from hoare_success [OF this TrueI] obtain st1 where
      st: "sread st pos n = Ok (take n (drop pos (contents st)), st1)" "rok st1" "contents st1 = contents st"
        "streamSize st1 = streamSize st" by auto
    have sh: "length (drop n d) < length d" "pos + n + length (drop n d) \<le> length (contents st1)"
      using n less.prems(2) st(3) by auto
    from less.hyps [OF sh(1) st(2) sh(2)] obtain st' where
      r: "subData_loop (drop n d) st1 (pos + n) = Ok (bytes_sub (drop n d) (take (length d - n) (drop (pos + n) (contents st))), st')"
        "rok st'" "contents st' = contents st" "streamSize st' = streamSize st" using st(3,4) by auto
    have "take (length d) (drop pos (contents st)) = take n (drop pos (contents st)) @ take (length d - n) (drop (pos + n) (contents st))"
      using n(2) by (metis drop_drop add.commute le_add_diff_inverse take_add)
    moreover have "bytes_sub d (xs @ ys) = bytes_sub (take n d) xs @ bytes_sub (drop n d) ys" if "length xs = n" for xs ys
      using bytes_sub_append [of "take n d" xs "drop n d" ys] n(2) that by simp
    ultimately show ?thesis
      using False st(1) r less.prems(2) n by (simp add: subData_loop.simps [of d] Let_def n_def [symmetric])
  qed
qed

end

locale sub_streams = n: random_stream nok ncont + o: random_stream ook ocont
  for nok :: "'n hpatch_TStreamInput \<Rightarrow> bool" and ncont
    and ook :: "'o hpatch_TStreamInput \<Rightarrow> bool" and ocont
begin

text \<open>What the current piece has, and what the stream has in all.\<close>

definition sd_cur :: "('n, 'o) TNewDataSubDiffStream \<Rightarrow> byte list" where
  "sd_cur self =
     (let len = sd_curDataLen self in
      if sd_curReadOldPos self = hpatch_kNullStreamPos then (if sd_isOnlySubCover self then [] else replicate len 0)
      else if sd_isZeroSubDiff self then replicate len 0
      else bytes_sub (take len (drop (sd_curReadNewPos self) (ncont (sd_newData self))))
             (take len (drop (sd_curReadOldPos self) (ocont (sd_oldData self)))))"

definition sd_at :: "('n, 'o) TNewDataSubDiffStream \<Rightarrow> nat \<Rightarrow> byte list \<Rightarrow> bool" where
  "sd_at self sz d \<longleftrightarrow>
     (let new = ncont (sd_newData self); old = ocont (sd_oldData self); cs = drop (sd_nextCoveri self) (sd_covers self);
          end_pos = sd_curReadNewPos self + sd_curDataLen self in
      nok (sd_newData self) \<and> ook (sd_oldData self) \<and> covers_fit cs end_pos (length new) (length old) \<and>
      (sd_isOnlySubCover self \<or> sz = length new) \<and>
      (sd_curReadOldPos self \<noteq> hpatch_kNullStreamPos \<longrightarrow> sd_curReadOldPos self + sd_curDataLen self \<le> length old) \<and>
      d = sd_cur self @ sub_bytes (sd_isOnlySubCover self) (sd_isZeroSubDiff self) cs new old end_pos)"

definition sd_same :: "('n, 'o) TNewDataSubDiffStream \<Rightarrow> ('n, 'o) TNewDataSubDiffStream \<Rightarrow> bool" where
  "sd_same self self' \<longleftrightarrow>
     ncont (sd_newData self') = ncont (sd_newData self) \<and> ocont (sd_oldData self') = ocont (sd_oldData self) \<and>
     sd_covers self' = sd_covers self \<and> sd_isOnlySubCover self' = sd_isOnlySubCover self \<and>
     sd_isZeroSubDiff self' = sd_isZeroSubDiff self \<and> sd_curReadPos self' = sd_curReadPos self"

lemma sd_same_trans: "sd_same a b \<Longrightarrow> sd_same b c \<Longrightarrow> sd_same a c"
  by (simp add: sd_same_def)

lemma subDiff_refill_result:
  assumes at: "sd_at self sz d" and d: "d \<noteq> []"
  shows "\<exists>self'. subDiff_refill self sz = Ok self' \<and> sd_at self' sz d \<and> sd_same self self'"
proof -
  let ?new = "ncont (sd_newData self)" and ?old = "ocont (sd_oldData self)"
  let ?i = "sd_nextCoveri self" and ?cs = "sd_covers self" and ?p = "sd_curReadNewPos self"
  have ok: "nok (sd_newData self)" "ook (sd_oldData self)" using at by (simp_all add: sd_at_def Let_def)
  have sz: "length ?new < 2 ^ 64" "length ?old < 2 ^ 64" using n.contents_size [OF ok(1)] o.contents_size [OF ok(2)] by auto
  show ?thesis
  proof (cases "sd_curDataLen self = 0")
    case False
    then show ?thesis using at by (simp add: subDiff_refill_def sd_same_def)
  next
    case l0: True
    then have cur: "sd_cur self = []" by (simp add: sd_cur_def Let_def)
    have fit: "covers_fit (drop ?i ?cs) ?p (length ?new) (length ?old)"
      and de: "d = sub_bytes (sd_isOnlySubCover self) (sd_isZeroSubDiff self) (drop ?i ?cs) ?new ?old ?p"
      and so: "sd_isOnlySubCover self \<or> sz = length ?new"
      using at l0 cur by (simp_all add: sd_at_def Let_def)
    show ?thesis
    proof (cases "?i < length ?cs")
      case True
      define c where "c = ?cs ! ?i"
      have dr: "drop ?i ?cs = c # drop (?i + 1) ?cs" using True by (simp add: c_def Cons_nth_drop_Suc)
      have ca: "cover_at ?cs ?i = Ok c" using True by (simp add: cover_at_def c_def)
      from fit have f: "?p \<le> newPos c" "newPos c + coverLength c \<le> length ?new" "oldPos c + coverLength c \<le> length ?old"
        "covers_fit (drop (?i + 1) ?cs) (newPos c + coverLength c) (length ?new) (length ?old)"
        unfolding dr by auto
      show ?thesis
      proof (cases "newPos c > ?p")
        case True
        let ?s = "self\<lparr>sd_curDataLen := newPos c - ?p, sd_curReadOldPos := hpatch_kNullStreamPos\<rparr>"
        have "sd_at ?s sz d" unfolding sd_at_def Let_def sd_cur_def using ok f de so dr True by simp
        then show ?thesis using l0 ca True \<open>?i < length ?cs\<close> by (simp add: subDiff_refill_def sd_same_def)
      next
        case False
        then have np: "newPos c = ?p" using f(1) by simp
        let ?s = "self\<lparr>sd_curDataLen := coverLength c, sd_curReadOldPos := oldPos c, sd_nextCoveri := ?i + 1\<rparr>"
        have null: "oldPos c = hpatch_kNullStreamPos \<Longrightarrow> coverLength c = 0"
          using f(3) sz(2) by (simp add: hpatch_kNullStreamPos_def)
        have "sd_at ?s sz d" unfolding sd_at_def Let_def sd_cur_def using ok f de so dr np null
          by (simp add: bytes_sub_def)
        then show ?thesis using l0 ca np \<open>?i < length ?cs\<close> by (simp add: subDiff_refill_def sd_same_def)
      qed
    next
      case False
      then have de': "d = (if sd_isOnlySubCover self then [] else replicate (length ?new - ?p) 0)" using de by simp
      then have no: "\<not> sd_isOnlySubCover self" "?p < length ?new" "sz = length ?new" using d so by (auto split: if_splits)
      have sub: "sub64 sz ?p = length ?new - ?p" using no sz(1) by (simp add: sub64_eq)
      let ?s = "self\<lparr>sd_curDataLen := length ?new - ?p, sd_curReadOldPos := hpatch_kNullStreamPos\<rparr>"
      have "sd_at ?s sz d" unfolding sd_at_def Let_def sd_cur_def using ok no de' False by simp
      then show ?thesis using l0 False no sub by (simp add: subDiff_refill_def sd_same_def Let_def)
    qed
  qed
qed

lemma subDiff_piece_result:
  assumes at: "sd_at self sz d" and len: "len \<le> sd_curDataLen self"
    and go: "\<not> (sd_curReadOldPos self = hpatch_kNullStreamPos \<and> sd_isOnlySubCover self)"
  shows "\<exists>nd od. subDiff_piece self len = Ok (take len d, nd, od) \<and> len \<le> length d \<and>
    sd_at (subDiff_advance self len nd od) sz (drop len d) \<and> sd_same self (subDiff_advance self len nd od)"
proof -
  let ?new = "ncont (sd_newData self)" and ?old = "ocont (sd_oldData self)"
  let ?op = "sd_curReadOldPos self" and ?p = "sd_curReadNewPos self" and ?l = "sd_curDataLen self"
  let ?cs = "drop (sd_nextCoveri self) (sd_covers self)"
  have ok: "nok (sd_newData self)" "ook (sd_oldData self)" and fit: "covers_fit ?cs (?p + ?l) (length ?new) (length ?old)"
    and so: "sd_isOnlySubCover self \<or> sz = length ?new" and old: "?op \<noteq> hpatch_kNullStreamPos \<Longrightarrow> ?op + ?l \<le> length ?old"
    and de: "d = sd_cur self @ sub_bytes (sd_isOnlySubCover self) (sd_isZeroSubDiff self) ?cs ?new ?old (?p + ?l)"
    using at by (simp_all add: sd_at_def Let_def)
  have sz: "length ?new < 2 ^ 64" "length ?old < 2 ^ 64" using n.contents_size [OF ok(1)] o.contents_size [OF ok(2)] by auto
  have pl: "?p + ?l \<le> length ?new" by (rule covers_fit_end [OF fit])
  have cl: "length (sd_cur self) = ?l" using go old pl by (auto simp: sd_cur_def Let_def)
  have td: "take len d = take len (sd_cur self)" "drop len d = drop len (sd_cur self) @
      sub_bytes (sd_isOnlySubCover self) (sd_isZeroSubDiff self) ?cs ?new ?old (?p + ?l)" "len \<le> length d"
    using de cl len by simp_all
  have adv: "sd_at (subDiff_advance self len nd od) sz (drop len d) \<and> sd_same self (subDiff_advance self len nd od)"
    if "nok nd" "ncont nd = ?new" "ook od" "ocont od = ?old" for nd od
  proof -
    have same: "sd_same self (subDiff_advance self len nd od)" using that by (simp add: sd_same_def)
    have "sd_cur (subDiff_advance self len nd od) = drop len (sd_cur self)"
    proof (cases "?op = hpatch_kNullStreamPos")
      case True
      then show ?thesis using go by (simp add: sd_cur_def subDiff_advance_def)
    next
      case False
      have "?op + len = hpatch_kNullStreamPos \<Longrightarrow> ?l - len = 0"
        using old [OF False] sz(2) by (simp add: hpatch_kNullStreamPos_def)
      then show ?thesis using that False
        by (auto simp: sd_cur_def subDiff_advance_def Let_def bytes_sub_drop drop_take add.commute)
    qed
    moreover have "sd_curReadOldPos (subDiff_advance self len nd od) \<noteq> hpatch_kNullStreamPos \<Longrightarrow>
        sd_curReadOldPos (subDiff_advance self len nd od) + (?l - len) \<le> length ?old"
      using old len by (auto simp: subDiff_advance_def split: if_splits)
    ultimately show ?thesis using that fit so td(2) len same unfolding sd_at_def Let_def by simp
  qed
  show ?thesis
  proof (cases "\<not> sd_isZeroSubDiff self \<and> ?op \<noteq> hpatch_kNullStreamPos")
    case False
    then have "sd_cur self = replicate ?l 0" using go by (auto simp: sd_cur_def Let_def)
    then have "take len d = replicate len 0" using td(1) len by simp
    then show ?thesis using adv [OF ok(1) refl ok(2) refl] False td(3) by (auto simp: subDiff_piece_def)
  next
    case True
    have "hoare True (sread (sd_newData self) ?p len) (\<lambda>(x, st'). x = take len (drop ?p ?new) \<and> nok st' \<and> ncont st' = ?new)"
      by (rule n.random_rule [OF ok(1)]) (use len pl sz(1) in auto)
    from hoare_success [OF this TrueI] obtain nd where nd: "sread (sd_newData self) ?p len = Ok (take len (drop ?p ?new), nd)"
      "nok nd" "ncont nd = ?new" by auto
    have ln: "length (take len (drop ?p ?new)) = len" using len pl by simp
    have "?op + len \<le> length ?old" using old True len by simp
    then obtain od where od: "subData_loop (take len (drop ?p ?new)) (sd_oldData self) ?op =
        Ok (bytes_sub (take len (drop ?p ?new)) (take len (drop ?op ?old)), od)" "ook od" "ocont od = ?old"
      using o.subData_loop_result [OF ok(2), of ?op "take len (drop ?p ?new)"] unfolding ln by auto
    have "take len d = bytes_sub (take len (drop ?p ?new)) (take len (drop ?op ?old))"
      using True td(1) len by (simp add: sd_cur_def Let_def bytes_sub_take min_absorb1)
    then show ?thesis using adv [OF nd(2,3) od(2,3)] True td(3) nd(1) od(1) by (auto simp: subDiff_piece_def)
  qed
qed

lemma subDiff_readTo_result:
  "sd_at self sz d \<Longrightarrow> k \<le> length d \<Longrightarrow>
   \<exists>self'. subDiff_readTo self sz k = Ok (take k d, self') \<and> sd_at self' sz (drop k d) \<and> sd_same self self'"
proof (induction self sz k arbitrary: d rule: subDiff_readTo.induct)
  case (1 self sz k)
  show ?case
  proof (cases "k > 0")
    case False
    then show ?thesis using "1.prems"(1) by (simp add: subDiff_readTo.simps [of self] sd_same_def)
  next
    case k: True
    with "1.prems"(2) have "d \<noteq> []" by auto
    from subDiff_refill_result [OF "1.prems"(1) this] obtain s1 where
      s1: "subDiff_refill self sz = Ok s1" "sd_at s1 sz d" "sd_same self s1" by blast
    show ?thesis
    proof (cases "sd_curReadOldPos s1 = hpatch_kNullStreamPos \<and> sd_isOnlySubCover s1")
      case True
      have "sd_nextCoveri s1 < length (sd_covers s1)"
      proof (rule ccontr)
        assume "\<not> sd_nextCoveri s1 < length (sd_covers s1)"
        then have "d = []" using s1(2) True by (simp add: sd_at_def Let_def sd_cur_def)
        with \<open>d \<noteq> []\<close> show False by simp
      qed
      then have req: "require (sd_nextCoveri s1 < length (sd_covers s1)) = Ok ()" by simp
      let ?s = "s1\<lparr>sd_curReadNewPos := sd_curReadNewPos s1 + sd_curDataLen s1, sd_curDataLen := 0\<rparr>"
      have "sd_at ?s sz d" using s1(2) True by (simp add: sd_at_def Let_def sd_cur_def)
      from "1.IH"(1) [OF k s1(1) True req this "1.prems"(2)] obtain self' where
        "subDiff_readTo ?s sz k = Ok (take k d, self')" "sd_at self' sz (drop k d)" "sd_same ?s self'" by blast
      moreover have "sd_same self ?s" using s1(3) by (simp add: sd_same_def)
      ultimately show ?thesis using k s1(1) True req by (auto simp: subDiff_readTo.simps [of self] intro: sd_same_trans)
    next
      case False
      define len where "len = min (sd_curDataLen s1) k"
      have len: "len \<le> sd_curDataLen s1" "len \<le> k" by (simp_all add: len_def)
      from subDiff_piece_result [OF s1(2) len(1) False] obtain nd od where
        pc: "subDiff_piece s1 len = Ok (take len d, nd, od)" "len \<le> length d"
          "sd_at (subDiff_advance s1 len nd od) sz (drop len d)" "sd_same s1 (subDiff_advance s1 len nd od)" by blast
      have "k - len \<le> length (drop len d)" using "1.prems"(2) by simp
      from "1.IH"(2) [OF k s1(1) False len_def pc(1) refl refl pc(3) this] obtain self' where
        r: "subDiff_readTo (subDiff_advance s1 len nd od) sz (k - len) = Ok (take (k - len) (drop len d), self')"
          "sd_at self' sz (drop (k - len) (drop len d))" "sd_same (subDiff_advance s1 len nd od) self'" by blast
      have "take len d @ take (k - len) (drop len d) = take k d" using len(2) by (metis le_add_diff_inverse take_add)
      moreover have "drop (k - len) (drop len d) = drop k d" using len(2) by simp
      moreover have "sd_same self self'" using s1(3) pc(4) r(3) sd_same_trans by blast
      ultimately show ?thesis using k s1(1) False pc(1) r
        by (auto simp: subDiff_readTo.simps [of self] Let_def len_def [symmetric])
    qed
  qed
qed

text \<open>The stream is read onwards, or again from its beginning.\<close>

definition sd_sok :: "('n, 'o) TNewDataSubDiffStream hpatch_TStreamInput \<Rightarrow> nat \<Rightarrow> byte list \<Rightarrow> bool" where
  "sd_sok st pos d \<longleftrightarrow>
     (let self = (if pos = 0 then subDiff_initRead (streamImport st) else streamImport st) in
      read st = subDiff_read \<and> streamSize st = pos + length d \<and> streamSize st < 2 ^ 64 \<and>
      sd_curReadPos self = pos \<and> sd_at self (streamSize st) d)"

lemma sd_step:
  assumes st: "sd_sok st pos d" and len: "0 < len" "len \<le> length d"
  shows "\<exists>st'. sread st pos len = Ok (take len d, st') \<and> sd_sok st' (pos + len) (drop len d) \<and> streamSize st' = streamSize st \<and>
    ncont (sd_newData (streamImport st')) = ncont (sd_newData (streamImport st)) \<and>
    ocont (sd_oldData (streamImport st')) = ocont (sd_oldData (streamImport st))"
proof -
  define self where "self = (if pos = 0 then subDiff_initRead (streamImport st) else streamImport st)"
  let ?self = "self\<lparr>sd_curReadPos := pos + len\<rparr>"
  have s: "read st = subDiff_read" "streamSize st = pos + length d" "streamSize st < 2 ^ 64" "sd_curReadPos self = pos"
    "sd_at self (streamSize st) d" using st unfolding sd_sok_def Let_def self_def [symmetric] by blast+
  have c: "ncont (sd_newData self) = ncont (sd_newData (streamImport st))" "ocont (sd_oldData self) = ocont (sd_oldData (streamImport st))"
    by (simp_all add: self_def subDiff_initRead_def)
  have "sd_at ?self (streamSize st) d" using s(5) by (simp add: sd_at_def Let_def sd_cur_def)
  from subDiff_readTo_result [OF this len(2)] obtain self' where r: "subDiff_readTo ?self (streamSize st) len = Ok (take len d, self')"
    "sd_at self' (streamSize st) (drop len d)" "sd_same ?self self'" by blast
  have "sread st pos len = Ok (take len d, st\<lparr>streamImport := self'\<rparr>)"
    using s r(1) len by (simp add: sread_def subDiff_read_def Let_def self_def [symmetric])
  moreover have "sd_sok (st\<lparr>streamImport := self'\<rparr>) (pos + len) (drop len d)"
    using s r(2,3) len by (auto simp: sd_sok_def Let_def sd_same_def)
  ultimately show ?thesis using r(3) c by (auto simp: sd_same_def)
qed

text \<open>The files that it reads stay what they are.\<close>

definition sd_of :: "byte list \<Rightarrow> byte list \<Rightarrow> ('n, 'o) TNewDataSubDiffStream hpatch_TStreamInput \<Rightarrow> nat \<Rightarrow> byte list \<Rightarrow> bool" where
  "sd_of new old st pos d \<longleftrightarrow>
     sd_sok st pos d \<and> ncont (sd_newData (streamImport st)) = new \<and> ocont (sd_oldData (streamImport st)) = old"

lemma subDiff_seq: "seq_stream (sd_of new old)"
proof
  fix st pos d and len :: nat
  assume st: "sd_of new old st pos d" and len: "0 < len" "len \<le> length d"
  from st have s: "sd_sok st pos d" by (simp add: sd_of_def)
  from sd_step [OF s len] st show "\<exists>st'. sread st pos len = Ok (take len d, st') \<and>
      sd_of new old st' (pos + len) (drop len d) \<and> streamSize st' = streamSize st"
    by (auto simp: sd_of_def)
qed (auto simp: sd_sok_def sd_of_def Let_def)

lemma sd_of_streams: "sd_of new old st pos d \<Longrightarrow> nok (sd_newData (streamImport st)) \<and> ook (sd_oldData (streamImport st)) \<and>
    ncont (sd_newData (streamImport st)) = new \<and> ocont (sd_oldData (streamImport st)) = old"
  by (auto simp: sd_of_def sd_sok_def sd_at_def Let_def subDiff_initRead_def split: if_splits)

lemma subDiff_make_sok:
  assumes "nok nd" "ook od" "covers_fit cs 0 (length (ncont nd)) (length (ocont od))"
  shows "sd_of (ncont nd) (ocont od) (TNewDataSubDiffStream_make nd od cs False zero) 0 (sub_bytes False zero cs (ncont nd) (ocont od) 0)"
  using assms n.contents_size [OF assms(1)] sub_bytes_length [OF assms(3)]
  by (simp add: sd_of_def sd_sok_def TNewDataSubDiffStream_make_def subDiff_initRead_def sd_at_def sd_cur_def Let_def)

end

interpretation mem_sub: sub_streams mem_in_ok streamImport mem_in_ok streamImport
  by unfold_locales

interpretation mem_sub_seq: seq_stream "mem_sub.sd_of new old" for new old
  by (rule mem_sub.subDiff_seq)

interpretation mem_nd_seq: seq_stream mem_in.nd_sok
  by (rule mem_in.newDataDiff_seq)

section \<open>The new data is the old data with both added\<close>

lemma bytes_add_sub: "length xs = length ys \<Longrightarrow> bytes_add (bytes_sub xs ys) ys = xs"
  by (rule nth_equalityI) (simp_all add: bytes_add_def bytes_sub_def)

lemma gap_bytes_length_le: "covers_fit cs e (length new) m \<Longrightarrow> length (gap_bytes cs new e) \<le> length new - e"
proof (induction cs arbitrary: e)
  case (Cons c cs)
  from Cons.prems have f: "e \<le> newPos c" "newPos c + coverLength c \<le> length new"
    "covers_fit cs (newPos c + coverLength c) (length new) m" by auto
  from Cons.IH [OF f(3)] f(1,2) show ?case by simp
qed simp

lemma apply_covers_sub_gap:
  assumes "covers_fit cs e (length new) (length old)" "length pre = e"
  shows "apply_covers old (pre @ sub_bytes False False cs new old e) (length new) cs (gap_bytes cs new e) e = Some (drop e new)"
  using assms
proof (induction cs arbitrary: e pre)
  case (Cons c cs)
  let ?l = "coverLength c" and ?np = "newPos c"
  let ?s = "bytes_sub (take ?l (drop ?np new)) (take ?l (drop (oldPos c) old))"
  let ?pre = "pre @ replicate (?np - e) 0 @ ?s"
  from Cons.prems have f: "e \<le> ?np" "?np + ?l \<le> length new" "oldPos c + ?l \<le> length old"
    "covers_fit cs (?np + ?l) (length new) (length old)" by auto
  have len: "length ?pre = ?np + ?l" using f Cons.prems(2) by simp
  from Cons.IH [OF f(4) len] have ih: "apply_covers old (?pre @ sub_bytes False False cs new old (?np + ?l)) (length new) cs
      (gap_bytes cs new (?np + ?l)) (?np + ?l) = Some (drop (?np + ?l) new)" .
  have gap: "length (take (?np - e) (drop e new)) = ?np - e" using f by simp
  have sl: "length ?s = ?l" using f by simp
  have tk: "take ?l (drop ?np (?pre @ sub_bytes False False cs new old (?np + ?l))) = ?s"
    using f(1) Cons.prems(2) sl by simp
  have "bytes_add ?s (take ?l (drop (oldPos c) old)) = take ?l (drop ?np new)"
    using f by (intro bytes_add_sub) simp
  moreover have "drop e new = take (?np - e) (drop e new) @ take ?l (drop ?np new) @ drop (?np + ?l) new"
    using f(1) by (metis add.commute append_take_drop_id drop_drop le_add_diff_inverse2)
  ultimately show ?case using f ih tk gap by (simp add: Let_def)
qed simp

section \<open>Both streams over memory\<close>

lemma newDataDiff_make:
  assumes "covers_fit cs 0 (length new) m" "length new < 2 ^ 64"
  shows "\<exists>st. TNewDataDiffStream_make cs (mem_as_hStreamInput new) = Ok st \<and> streamSize st = length (gap_bytes cs new 0) \<and>
    mem_in.nd_sok st 0 (gap_bytes cs new 0)"
proof -
  have "length (gap_bytes cs new 0) \<le> length new" using gap_bytes_length_le [OF assms(1)] by simp
  then have "length (gap_bytes cs new 0) < 2 ^ 64" using assms(2) by linarith
  moreover have s: "streamSize (mem_as_hStreamInput new) = length new" "streamImport (mem_as_hStreamInput new) = new"
    by (simp_all add: mem_as_hStreamInput_def)
  ultimately show ?thesis using getDataSize_result [OF assms(1)] assms
    by (auto simp: TNewDataDiffStream_make_def newDataDiff_stream_def mem_in.nd_sok_def Let_def)
qed

lemma subDiff_stream_result:
  assumes "covers_fit cs 0 (length new) (length old)" "length new < 2 ^ 64" "length old < 2 ^ 64"
  shows "\<exists>st. pushBack_stream [] (TNewDataSubDiffStream_mem new old cs False False)
    = Ok (sub_bytes False False cs new old 0, st)"
proof -
  have "mem_sub.sd_of new old (TNewDataSubDiffStream_mem new old cs False False) 0 (sub_bytes False False cs new old 0)"
    using mem_sub.subDiff_make_sok [of "mem_as_hStreamInput new" "mem_as_hStreamInput old" cs False] assms
    by (simp add: TNewDataSubDiffStream_mem_def mem_as_hStreamInput_def [of new, THEN arg_cong [of _ _ streamImport]]
        mem_as_hStreamInput_def [of old, THEN arg_cong [of _ _ streamImport]])
  from mem_sub_seq.pushBack_stream_result [OF this, of "[]"] show ?thesis by auto
qed

section \<open>Properties\<close>

text \<open>C27: reading \<open>TNewDataSubDiffStream_mem\<close> from its beginning to its end, in the steps of
  \<open>pushBack\<close>, gives for every new byte its difference to the old byte that the covers put there,
  and 0 where no cover is; it never loops, and reads neither file outside its bounds.\<close>

theorem subDiff_stream_holds_sub_bytes:
  assumes "covers_fit cs 0 (length new) (length old)" "length new < 2 ^ 64" "length old < 2 ^ 64"
  shows "\<exists>st. pushBack_stream [] (TNewDataSubDiffStream_mem new old cs False False)
    = Ok (sub_bytes False False cs new old 0, st)"
  by (rule subDiff_stream_result [OF assms])

theorem subDiff_stream_holds_sub_bytes_witness:
  "\<exists>st. pushBack_stream [] (TNewDataSubDiffStream_mem [1, 5, 6, 7, 2] [3, 5, 8, 7] [\<lparr>oldPos = 1, newPos = 1, coverLength = 3\<rparr>] False False)
    = Ok (sub_bytes False False [\<lparr>oldPos = 1, newPos = 1, coverLength = 3\<rparr>] [1, 5, 6, 7, 2] [3, 5, 8, 7] 0, st)"
  by (rule subDiff_stream_holds_sub_bytes) simp_all

text \<open>C28: what both streams hold is enough: \<open>TNewDataDiffStream\<close> and \<open>TNewDataSubDiffStream_mem\<close> are made and
  read to their ends in the steps of \<open>pushBack\<close>, without failing and with as many bytes as they
  announce, and adding the second to the old bytes under the covers and filling the gaps with the first
  gives the new data back, whatever covers were found, as long as they are in order and inside both files.\<close>

theorem streams_rebuild_new:
  assumes "covers_fit cs 0 (length new) (length old)" "length new < 2 ^ 64" "length old < 2 ^ 64"
  shows "\<exists>gapStream gapStream' gaps subStream' subs.
    TNewDataDiffStream_make cs (mem_as_hStreamInput new) = Ok gapStream \<and>
    pushBack_stream [] gapStream = Ok (gaps, gapStream') \<and> length gaps = streamSize gapStream \<and>
    pushBack_stream [] (TNewDataSubDiffStream_mem new old cs False False) = Ok (subs, subStream') \<and> length subs = length new \<and>
    apply_covers old subs (length new) cs gaps 0 = Some new"
proof -
  obtain st where st: "TNewDataDiffStream_make cs (mem_as_hStreamInput new) = Ok st" "streamSize st = length (gap_bytes cs new 0)"
    "mem_in.nd_sok st 0 (gap_bytes cs new 0)" using newDataDiff_make [OF assms(1,2)] by blast
  obtain st' where g: "pushBack_stream [] st = Ok (gap_bytes cs new 0, st')"
    using mem_nd_seq.pushBack_stream_result [OF st(3), of "[]"] by auto
  obtain su where "pushBack_stream [] (TNewDataSubDiffStream_mem new old cs False False) = Ok (sub_bytes False False cs new old 0, su)"
    using subDiff_stream_result [OF assms] by blast
  then show ?thesis using st(1,2) g sub_bytes_length [OF assms(1)] apply_covers_sub_gap [OF assms(1), of "[]"] by simp
qed

theorem streams_rebuild_new_witness:
  "\<exists>gapStream gapStream' gaps subStream' subs.
    TNewDataDiffStream_make [\<lparr>oldPos = 1, newPos = 1, coverLength = 3\<rparr>] (mem_as_hStreamInput [1, 5, 6, 7, 2]) = Ok gapStream \<and>
    pushBack_stream [] gapStream = Ok (gaps, gapStream') \<and> length gaps = streamSize gapStream \<and>
    pushBack_stream [] (TNewDataSubDiffStream_mem [1, 5, 6, 7, 2] [3, 5, 8, 7] [\<lparr>oldPos = 1, newPos = 1, coverLength = 3\<rparr>] False False)
      = Ok (subs, subStream') \<and> length subs = length [1, 5, 6, 7, 2 :: byte] \<and>
    apply_covers [3, 5, 8, 7] subs (length [1, 5, 6, 7, 2 :: byte]) [\<lparr>oldPos = 1, newPos = 1, coverLength = 3\<rparr>] gaps 0
      = Some [1, 5, 6, 7, 2]"
  by (rule streams_rebuild_new) simp_all

end
