(* ===== verification/Serialize.thy ===== *)
theory Serialize
  imports SubDiff PatchStream
begin

text \<open>
  \<open>diff.cpp\<close>: the covers that a search has found are checked and cut to a maximal length, and
  written with the bytes they do not produce as the diff that \<open>patch\<close> and \<open>patch_stream\<close> read.
  How covers are searched is a parameter of the whole: the theorems hold for any covers that pass
  the check.
\<close>

section \<open>Checking the covers\<close>

definition assert_cover_safe :: "hpatch_TCover \<Rightarrow> nat \<Rightarrow> nat \<Rightarrow> nat \<Rightarrow> unit res" where
  "assert_cover_safe cover lastNewEnd newSize oldSize =
     rbind (check (coverLength cover > 0)) (\<lambda>_.
     rbind (check (newPos cover \<ge> lastNewEnd)) (\<lambda>_.
     rbind (check (newPos cover < newSize)) (\<lambda>_.
     rbind (check (add64 (newPos cover) (coverLength cover) > 0)) (\<lambda>_.
     rbind (check (add64 (newPos cover) (coverLength cover) \<le> newSize)) (\<lambda>_.
     rbind (check (oldPos cover \<ge> 0)) (\<lambda>_.
     rbind (check (oldPos cover < oldSize)) (\<lambda>_.
     rbind (check (add64 (oldPos cover) (coverLength cover) > 0)) (\<lambda>_.
     check (add64 (oldPos cover) (coverLength cover) \<le> oldSize)))))))))"

fun assert_covers_safe_from :: "hpatch_TCover list \<Rightarrow> nat \<Rightarrow> nat \<Rightarrow> nat \<Rightarrow> unit res" where
  "assert_covers_safe_from [] lastNewEnd newSize oldSize = Ok ()"
| "assert_covers_safe_from (cover # covers) lastNewEnd newSize oldSize =
     rbind (assert_cover_safe cover lastNewEnd newSize oldSize) (\<lambda>_.
     assert_covers_safe_from covers (add64 (newPos cover) (coverLength cover)) newSize oldSize)"

definition assert_covers_safe :: "hpatch_TCover list \<Rightarrow> nat \<Rightarrow> nat \<Rightarrow> unit res" where
  "assert_covers_safe covers newSize oldSize = assert_covers_safe_from covers 0 newSize oldSize"

text \<open>Sizes and lengths are those of data in memory, so that no sum of two wraps.\<close>

lemma assert_covers_safe_from_fit:
  assumes "assert_covers_safe_from cs e newSize oldSize = Ok ()" "newSize < 2 ^ 63" "oldSize < 2 ^ 63" "e \<le> newSize"
    and "\<forall>c \<in> set cs. coverLength c < 2 ^ 63"
  shows "covers_fit cs e newSize oldSize \<and> (\<forall>c \<in> set cs. 0 < coverLength c)"
  using assms
proof (induction cs arbitrary: e)
  case (Cons c cs)
  from Cons.prems(1) have c: "coverLength c > 0" "newPos c \<ge> e" "newPos c < newSize" "oldPos c < oldSize"
      "add64 (newPos c) (coverLength c) \<le> newSize" "add64 (oldPos c) (coverLength c) \<le> oldSize"
      "assert_covers_safe_from cs (add64 (newPos c) (coverLength c)) newSize oldSize = Ok ()"
    by (auto simp: assert_cover_safe_def check_def rbind_eq_Ok split: if_splits)
  have "newPos c + coverLength c < 2 ^ 64" "oldPos c + coverLength c < 2 ^ 64" using c Cons.prems(2,3,5) by auto
  then have a: "add64 (newPos c) (coverLength c) = newPos c + coverLength c" "add64 (oldPos c) (coverLength c) = oldPos c + coverLength c"
    by (simp_all add: add64_eq)
  have "covers_fit cs (newPos c + coverLength c) newSize oldSize \<and> (\<forall>c \<in> set cs. 0 < coverLength c)"
    by (rule Cons.IH) (use c a Cons.prems in auto)
  then show ?case using c a by simp
qed simp

section \<open>Cutting long covers\<close>

text \<open>The length of a cover is a \<open>TInt\<close>, below \<open>2 ^ 63\<close>, so adding 1 to it does not wrap.\<close>

function clip_len_loop :: "nat \<Rightarrow> nat \<Rightarrow> nat res" where
  "clip_len_loop alen kMaxLen =
     rbind (require (kMaxLen > 0)) (\<lambda>_.
     let alen = drop_bit 1 (alen + 1)
     in if alen > kMaxLen then clip_len_loop alen kMaxLen else Ok alen)"
  by pat_completeness auto
termination
  by (relation "measure fst") (auto simp: require_def drop_bit_eq_div split: if_splits)

declare clip_len_loop.simps [simp del]

text \<open>\<open>_clipLenByLimit\<close> returns the length to cut off and the length that is left.\<close>

definition clipLenByLimit :: "nat \<Rightarrow> nat \<Rightarrow> (nat \<times> nat) res" where
  "clipLenByLimit clen kMaxLen =
     rbind (require (clen > kMaxLen)) (\<lambda>_.
     rbind (clip_len_loop clen kMaxLen) (\<lambda>alen. Ok (alen, clen - alen)))"

definition clip_len :: "nat \<Rightarrow> nat \<Rightarrow> nat" where
  "clip_len clen kMaxLen = (case clip_len_loop clen kMaxLen of Ok alen \<Rightarrow> alen | _ \<Rightarrow> 1)"

lemma clip_len_loop_result:
  "0 < k \<Longrightarrow> k \<le> alen \<Longrightarrow> \<exists>a. clip_len_loop alen k = Ok a \<and> 0 < a \<and> a \<le> k \<and> 2 * a \<le> alen + 1"
proof (induction alen k rule: clip_len_loop.induct)
  case (1 alen k)
  define h where "h = drop_bit 1 (alen + 1)"
  have h: "h = (alen + 1) div 2" by (simp add: h_def drop_bit_eq_div)
  have s: "clip_len_loop alen k = (if h > k then clip_len_loop h k else Ok h)"
    using "1.prems"(1) by (simp add: clip_len_loop.simps [of alen] h_def)
  show ?case
  proof (cases "h > k")
    case True
    from "1.IH" [OF _ h_def True] "1.prems"(1) True obtain a where
      a: "clip_len_loop h k = Ok a" "0 < a" "a \<le> k" "2 * a \<le> h + 1" by auto
    moreover have "h \<le> alen" using h "1.prems" by simp
    ultimately show ?thesis using True s by simp
  next
    case False
    moreover have "0 < h" "2 * h \<le> alen + 1" using h "1.prems" by auto
    ultimately show ?thesis using s by simp
  qed
qed

lemma clip_len:
  assumes "0 < k" "k < clen"
  shows "clipLenByLimit clen k = Ok (clip_len clen k, clen - clip_len clen k)" "0 < clip_len clen k" "clip_len clen k \<le> k"
  using clip_len_loop_result [of k clen] assms by (auto simp: clipLenByLimit_def clip_len_def)

lemma clipLenByLimit_less: "clipLenByLimit clen k = Ok (a, c) \<Longrightarrow> c < clen"
  using clip_len [of k clen] by (cases "0 < k") (auto simp: clipLenByLimit_def require_def clip_len_loop.simps [of clen 0] split: if_splits)

text \<open>The first pass counts the covers to insert.\<close>

function limit_count1 :: "nat \<Rightarrow> nat \<Rightarrow> nat \<Rightarrow> nat res" where
  "limit_count1 clen kMaxLen isize =
     (if clen > kMaxLen then
        rbind (clipLenByLimit clen kMaxLen) (\<lambda>(alen, clen). limit_count1 clen kMaxLen (isize + 1))
      else Ok isize)"
  by pat_completeness auto
termination
  by (relation "measure fst") (auto dest: clipLenByLimit_less)

declare limit_count1.simps [simp del]

fun limit_count :: "hpatch_TCover list \<Rightarrow> nat \<Rightarrow> nat \<Rightarrow> nat res" where
  "limit_count [] kMaxLen isize = Ok isize"
| "limit_count (c # cs) kMaxLen isize =
     rbind (limit_count1 (coverLength c) kMaxLen isize) (\<lambda>isize. limit_count cs kMaxLen isize)"

text \<open>The second pass writes the pieces to the front of the vector that has the covers at its end.\<close>

function limit_split :: "hpatch_TCover list \<Rightarrow> nat \<Rightarrow> nat \<Rightarrow> nat \<Rightarrow> nat \<Rightarrow> nat \<Rightarrow> (hpatch_TCover list \<times> nat \<times> nat) res" where
  "limit_split covers i insertIndex isize clen kMaxLen =
     (if clen > kMaxLen then
        let isize = sub64 isize 1 in
        rbind (clipLenByLimit clen kMaxLen) (\<lambda>(clipLen, clen).
        rbind (require (insertIndex < i)) (\<lambda>_.
        let covers = covers[insertIndex := \<lparr>oldPos = oldPos (covers ! i), newPos = newPos (covers ! i), coverLength = clipLen\<rparr>];
            covers = covers[i := \<lparr>oldPos = oldPos (covers ! i) + clipLen, newPos = newPos (covers ! i) + clipLen,
                                  coverLength = coverLength (covers ! i) - clipLen\<rparr>] in
        rbind (require (coverLength (covers ! i) = clen)) (\<lambda>_.
        limit_split covers i (insertIndex + 1) isize clen kMaxLen)))
      else Ok (covers, insertIndex, isize))"
  by pat_completeness auto
termination
  by (relation "measure (\<lambda>(cs, i, j, s, clen, k). clen)") (auto dest: clipLenByLimit_less)

declare limit_split.simps [simp del]

lemma limit_split_length: "limit_split covers i j s clen k = Ok (covers', j', s') \<Longrightarrow> length covers' = length covers"
proof (induction covers i j s clen k rule: limit_split.induct)
  case (1 covers i j s clen k)
  from "1.prems" show ?case
    by (subst (asm) limit_split.simps [of covers])
      (auto simp: Let_def rbind_eq_Ok split: if_splits dest: "1.IH" [OF _ refl _ refl _ refl refl])
qed

function limit_loop :: "hpatch_TCover list \<Rightarrow> nat \<Rightarrow> nat \<Rightarrow> nat \<Rightarrow> nat \<Rightarrow> (hpatch_TCover list \<times> nat) res" where
  "limit_loop covers i insertIndex isize kMaxLen =
     (if i < length covers then
        let clen = coverLength (covers ! i) in
        rbind (limit_split covers i insertIndex isize clen kMaxLen) (\<lambda>(covers, insertIndex, isize).
        rbind (require (insertIndex < length covers)) (\<lambda>_.
        limit_loop (covers[insertIndex := covers ! i]) (i + 1) (insertIndex + 1) isize kMaxLen))
      else Ok (covers, isize))"
  by pat_completeness auto
termination
  by (relation "measure (\<lambda>(cs, i, j, s, k). length cs - i)") (auto dest!: limit_split_length)

declare limit_loop.simps [simp del]

definition limitCoverLenth :: "hpatch_TCover list \<Rightarrow> nat \<Rightarrow> hpatch_TCover list res" where
  "limitCoverLenth covers kMaxLen =
     rbind (require (0 < kMaxLen \<and> kMaxLen < 2 ^ 63)) (\<lambda>_.
     rbind (limit_count covers kMaxLen 0) (\<lambda>isize.
     if isize = 0 then Ok covers
     else
       let csize = length covers;
           covers = covers @ replicate isize \<lparr>oldPos = 0, newPos = 0, coverLength = 0\<rparr>;
           covers = take isize covers @ take csize covers in
       rbind (limit_loop covers isize 0 isize kMaxLen) (\<lambda>(covers, isize).
       rbind (require (isize = 0)) (\<lambda>_. Ok covers))))"

text \<open>What a cover is cut into.\<close>

function split_cover :: "nat \<Rightarrow> hpatch_TCover \<Rightarrow> hpatch_TCover list" where
  "split_cover k c =
     (if 0 < k \<and> coverLength c > k then
        let a = clip_len (coverLength c) k in
        \<lparr>oldPos = oldPos c, newPos = newPos c, coverLength = a\<rparr> #
        split_cover k \<lparr>oldPos = oldPos c + a, newPos = newPos c + a, coverLength = coverLength c - a\<rparr>
      else [c])"
  by pat_completeness auto
termination
  by (relation "measure (\<lambda>(k, c). coverLength c)") (auto dest: clip_len)

declare split_cover.simps [simp del]

lemma split_cover_not_Nil [simp]: "split_cover k c \<noteq> []"
  by (simp add: split_cover.simps [of k c] Let_def)

lemma split_cover_limit: "0 < k \<Longrightarrow> \<forall>p \<in> set (split_cover k c). coverLength p \<le> k \<and> (0 < coverLength c \<longrightarrow> 0 < coverLength p)"
proof (induction k c rule: split_cover.induct)
  case (1 k c)
  show ?case
  proof (cases "coverLength c > k")
    case True
    then have "\<forall>p \<in> set (split_cover k \<lparr>oldPos = oldPos c + clip_len (coverLength c) k, newPos = newPos c + clip_len (coverLength c) k,
        coverLength = coverLength c - clip_len (coverLength c) k\<rparr>). coverLength p \<le> k \<and> 0 < coverLength p"
      using "1.IH" [OF _ refl "1.prems"] "1.prems" clip_len(3) [OF "1.prems" True] by auto
    then show ?thesis using True "1.prems" clip_len(2,3) [OF "1.prems" True]
      by (simp add: split_cover.simps [of k c] Let_def)
  next
    case False
    then show ?thesis by (simp add: split_cover.simps [of k c])
  qed
qed

lemma split_cover_fit:
  "covers_fit (c # cs) e n m \<Longrightarrow> covers_fit (split_cover k c @ cs) e n m"
proof (induction k c arbitrary: e rule: split_cover.induct)
  case (1 k c)
  show ?case
  proof (cases "0 < k \<and> coverLength c > k")
    case True
    then have a: "0 < clip_len (coverLength c) k" "clip_len (coverLength c) k < coverLength c" using clip_len [of k "coverLength c"] by auto
    show ?thesis using "1.IH" [OF True refl, of "newPos c + clip_len (coverLength c) k"] True a "1.prems"
      by (simp add: split_cover.simps [of k c] Let_def)
  next
    case False
    then show ?thesis using "1.prems" by (auto simp: split_cover.simps [of k c])
  qed
qed

lemma split_covers_fit: "covers_fit cs e n m \<Longrightarrow> covers_fit (concat (map (split_cover k) cs)) e n m"
proof (induction cs arbitrary: e)
  case (Cons c cs)
  then have "covers_fit (c # concat (map (split_cover k) cs)) e n m" by simp
  then show ?case using split_cover_fit by simp
qed simp

text \<open>The pieces say the same of the new data.\<close>

lemma split_cover_bytes:
  "newPos c + coverLength c \<le> length new \<and> oldPos c + coverLength c \<le> length old \<Longrightarrow>
   sub_bytes only zero (split_cover k c @ cs) new old e = sub_bytes only zero (c # cs) new old e \<and>
   gap_bytes (split_cover k c @ cs) new e = gap_bytes (c # cs) new e"
proof (induction k c arbitrary: e rule: split_cover.induct)
  case (1 k c)
  show ?case
  proof (cases "0 < k \<and> coverLength c > k")
    case True
    define a where "a = clip_len (coverLength c) k"
    define l where "l = coverLength c - a"
    have a: "0 < a" "coverLength c = a + l" using True clip_len [of k "coverLength c"] by (auto simp: a_def l_def)
    let ?c = "\<lparr>oldPos = oldPos c + a, newPos = newPos c + a, coverLength = l\<rparr>"
    have pre: "newPos c + a + l \<le> length new \<and> oldPos c + a + l \<le> length old" using "1.prems" a(2) by simp
    have ih: "sub_bytes only zero (split_cover k ?c @ cs) new old (newPos c + a) = sub_bytes only zero (?c # cs) new old (newPos c + a)"
        "gap_bytes (split_cover k ?c @ cs) new (newPos c + a) = gap_bytes (?c # cs) new (newPos c + a)"
      using "1.IH" [OF True a_def, folded l_def, of "newPos c + a"] pre by simp_all
    have s: "split_cover k c = \<lparr>oldPos = oldPos c, newPos = newPos c, coverLength = a\<rparr> # split_cover k ?c"
      using True by (simp add: split_cover.simps [of k c] Let_def a_def [symmetric] l_def [symmetric])
    have t: "take (a + l) (drop p xs) = take a (drop p xs) @ take l (drop (p + a) xs)" for p and xs :: "byte list"
      by (simp add: take_add add.commute)
    have "bytes_sub (take (a + l) (drop (newPos c) new)) (take (a + l) (drop (oldPos c) old)) =
        bytes_sub (take a (drop (newPos c) new)) (take a (drop (oldPos c) old)) @
        bytes_sub (take l (drop (newPos c + a) new)) (take l (drop (oldPos c + a) old))"
      unfolding t by (rule bytes_sub_append) (use pre in auto)
    moreover have "sub_bytes only zero (split_cover k c @ cs) new old e = sub_bytes only zero
          (\<lparr>oldPos = oldPos c, newPos = newPos c, coverLength = a\<rparr> # ?c # cs) new old e"
        "gap_bytes (split_cover k c @ cs) new e = gap_bytes (\<lparr>oldPos = oldPos c, newPos = newPos c, coverLength = a\<rparr> # ?c # cs) new e"
      unfolding s using ih by simp_all
    ultimately show ?thesis using a(2) by (simp add: replicate_add add.assoc)
  next
    case False
    then have "split_cover k c = [c]" by (auto simp: split_cover.simps [of k c])
    then show ?thesis by simp
  qed
qed

text \<open>The two passes make those pieces.\<close>

lemma limit_count1_result:
  "0 < k \<Longrightarrow> limit_count1 (coverLength c) k isize = Ok (isize + (length (split_cover k c) - 1))"
proof (induction k c arbitrary: isize rule: split_cover.induct)
  case (1 k c)
  show ?case
  proof (cases "coverLength c > k")
    case True
    define a where "a = clip_len (coverLength c) k"
    let ?c = "\<lparr>oldPos = oldPos c + a, newPos = newPos c + a, coverLength = coverLength c - a\<rparr>"
    have "limit_count1 (coverLength ?c) k (isize + 1) = Ok (isize + 1 + (length (split_cover k ?c) - 1))"
      by (rule "1.IH" [OF _ a_def]) (use True "1.prems" in auto)
    moreover have "0 < length (split_cover k ?c)" by simp
    moreover have "length (split_cover k c) = Suc (length (split_cover k ?c))"
      using True "1.prems" by (simp add: split_cover.simps [of k c] Let_def a_def [symmetric])
    ultimately show ?thesis using True "1.prems" clip_len(1) [of k "coverLength c"]
      by (simp add: limit_count1.simps [of "coverLength c"] a_def [symmetric])
  next
    case False
    then show ?thesis by (simp add: limit_count1.simps [of "coverLength c"] split_cover.simps [of k c])
  qed
qed

lemma split_cover_length: "1 \<le> length (split_cover k c)"
  by (cases "split_cover k c") auto

lemma limit_count_result:
  "0 < k \<Longrightarrow> limit_count cs k isize = Ok (isize + (length (concat (map (split_cover k) cs)) - length cs)) \<and>
     length cs \<le> length (concat (map (split_cover k) cs))"
proof (induction cs arbitrary: isize)
  case (Cons c cs)
  obtain x xs where s: "split_cover k c = x # xs" by (cases "split_cover k c") auto
  have le: "length cs \<le> length (concat (map (split_cover k) cs))" using Cons.IH [OF Cons.prems] by blast
  show ?case using Cons.IH [OF Cons.prems, THEN conjunct1] limit_count1_result [OF Cons.prems, of c] s le
    by (simp del: length_concat)
qed simp

lemma limit_split_result:
  assumes "0 < k" "covers = pre @ mid @ c # post" "length pre = j" "length (pre @ mid) = i"
    and "length mid = length (split_cover k c) - 1 + s" "length mid < 2 ^ 64"
  shows "\<exists>mid' c'. limit_split covers i j (length mid) (coverLength c) k = Ok (pre @ butlast (split_cover k c) @ mid' @ c' # post,
      j + (length (split_cover k c) - 1), s) \<and> length mid' = s \<and> c' = last (split_cover k c)"
  using assms
proof (induction k c arbitrary: covers pre mid j rule: split_cover.induct)
  case (1 k c)
  show ?case
  proof (cases "coverLength c > k")
    case True
    define a where "a = clip_len (coverLength c) k"
    let ?p = "\<lparr>oldPos = oldPos c, newPos = newPos c, coverLength = a\<rparr>"
    let ?c = "\<lparr>oldPos = oldPos c + a, newPos = newPos c + a, coverLength = coverLength c - a\<rparr>"
    have sp: "split_cover k c = ?p # split_cover k ?c"
      using True "1.prems"(1) by (simp add: split_cover.simps [of k c] Let_def a_def [symmetric])
    have pos: "1 \<le> length (split_cover k ?c)" by (rule split_cover_length)
    then obtain x mid1 where mid: "mid = x # mid1" using "1.prems"(5) sp by (cases mid) auto
    have l5: "length mid1 = length (split_cover k ?c) - 1 + s" using "1.prems"(5) sp mid pos by simp
    let ?cov = "pre @ ?p # mid1 @ ?c # post"
    have i: "i = j + length mid" using "1.prems"(3,4) by simp
    have nth: "covers ! i = c" using "1.prems"(2,4) by (simp add: nth_append)
    have u1: "covers[j := ?p] = pre @ ?p # mid1 @ c # post" using "1.prems"(2,3) mid by (simp add: list_update_append)
    have nth1: "covers[j := ?p] ! i = c" using u1 i mid "1.prems"(3) by (simp add: nth_append)
    have u2: "(covers[j := ?p])[i := ?c] = ?cov" unfolding u1 using i mid "1.prems"(3) by (simp add: list_update_append)
    have nth2: "?cov ! i = ?c" using i mid "1.prems"(3) by (simp add: nth_append)
    have ji: "j < i" using i mid by simp
    have sub: "sub64 (length mid) 1 = length mid1" using "1.prems"(6) mid by (simp add: sub64_eq)
    obtain mid' c' where r: "limit_split ?cov i (j + 1) (length mid1) (coverLength ?c) k =
        Ok ((pre @ [?p]) @ butlast (split_cover k ?c) @ mid' @ c' # post, j + 1 + (length (split_cover k ?c) - 1), s)"
        "length mid' = s" "c' = last (split_cover k ?c)"
    proof -
      have "\<exists>mid' c'. limit_split ?cov i (j + 1) (length mid1) (coverLength ?c) k =
          Ok ((pre @ [?p]) @ butlast (split_cover k ?c) @ mid' @ c' # post, j + 1 + (length (split_cover k ?c) - 1), s) \<and>
          length mid' = s \<and> c' = last (split_cover k ?c)"
        by (rule "1.IH" [OF _ a_def "1.prems"(1) _ _ _ l5]) (use True "1.prems" mid in auto)
      then show ?thesis using that by blast
    qed
    have "limit_split covers i j (length mid) (coverLength c) k = limit_split ?cov i (j + 1) (length mid1) (coverLength ?c) k"
      using True ji sub u2 clip_len(1) [OF "1.prems"(1) True]
      by (simp add: limit_split.simps [of covers] Let_def nth nth1 nth2 a_def [symmetric])
    then show ?thesis using r sp pos by simp
  next
    case False
    then have sp: "split_cover k c = [c]" by (simp add: split_cover.simps [of k c])
    have "limit_split covers i j (length mid) (coverLength c) k = Ok (covers, j, length mid)"
      using False by (simp add: limit_split.simps)
    then show ?thesis using sp "1.prems"(2,5) by simp
  qed
qed

lemma limit_loop_result:
  assumes "0 < k" "covers = pre @ mid @ cs" "length pre = j" "length (pre @ mid) = i"
    and "length mid + length cs = length (concat (map (split_cover k) cs))" "length mid < 2 ^ 64"
  shows "limit_loop covers i j (length mid) k = Ok (pre @ concat (map (split_cover k) cs), 0)"
  using assms
proof (induction cs arbitrary: covers pre mid i j)
  case Nil
  then show ?case by (subst limit_loop.simps) simp
next
  case (Cons c cs)
  let ?s = "split_cover k c"
  define s where "s = length mid - (length ?s - 1)"
  have pos: "1 \<le> length ?s" by (rule split_cover_length)
  have le: "length cs \<le> length (concat (map (split_cover k) cs))" using limit_count_result [OF Cons.prems(1)] by blast
  then have mid: "length mid = length ?s - 1 + s" using Cons.prems(5) pos by (simp add: s_def)
  obtain mid' where r: "limit_split covers i j (length mid) (coverLength c) k =
      Ok (pre @ butlast ?s @ mid' @ last ?s # cs, j + (length ?s - 1), s)" "length mid' = s"
    using limit_split_result [OF Cons.prems(1,2,3,4) mid Cons.prems(6)] by auto
  let ?cov = "pre @ butlast ?s @ mid' @ last ?s # cs"
  have nth: "covers ! i = c" "i < length covers" using Cons.prems(2,4) by (auto simp: nth_append)
  have i: "i = j + (length ?s - 1) + s" using Cons.prems(3,4) mid by simp
  have nth2: "?cov ! i = last ?s" using i Cons.prems(3) r(2) by (simp add: nth_append)
  have bl: "butlast ?s @ [last ?s] = ?s" by (rule append_butlast_last_id) simp
  obtain mid1 where u: "?cov[j + (length ?s - 1) := last ?s] = (pre @ ?s) @ mid1 @ cs" "length mid1 = s"
  proof (cases mid')
    case Nil
    have "?cov[j + (length ?s - 1) := last ?s] = pre @ (butlast ?s @ [last ?s]) @ cs"
      using Nil Cons.prems(3) by (simp add: list_update_append)
    then show ?thesis using Nil r(2) bl by (intro that [of "[]"]) auto
  next
    case (Cons x xs)
    have "?cov[j + (length ?s - 1) := last ?s] = pre @ (butlast ?s @ [last ?s]) @ (xs @ [last ?s]) @ cs"
      using Cons Cons.prems(3) by (simp add: list_update_append)
    then show ?thesis using Cons r(2) bl by (intro that [of "xs @ [last ?s]"]) auto
  qed
  have "limit_loop ((pre @ ?s) @ mid1 @ cs) (i + 1) (j + length ?s) (length mid1) k =
      Ok ((pre @ ?s) @ concat (map (split_cover k) cs), 0)"
    by (rule Cons.IH [OF Cons.prems(1) refl]) (use Cons.prems u(2) i mid pos in auto)
  moreover have "j + (length ?s - 1) + 1 = j + length ?s" using pos by linarith
  moreover have "j + (length ?s - 1) < length ?cov" using Cons.prems(3) by simp
  ultimately show ?case using nth r(1) nth2 u pos
    by (simp add: limit_loop.simps [of covers] Let_def)
qed

lemma limitCoverLenth_result:
  assumes "0 < k" "k < 2 ^ 63" "length (concat (map (split_cover k) cs)) < 2 ^ 64"
  shows "limitCoverLenth cs k = Ok (concat (map (split_cover k) cs))"
proof -
  let ?out = "concat (map (split_cover k) cs)"
  define isize where "isize = length ?out - length cs"
  have cnt: "limit_count cs k 0 = Ok isize" "length cs \<le> length ?out"
    using limit_count_result [OF assms(1), of cs 0] by (simp_all add: isize_def)
  show ?thesis
  proof (cases "isize = 0")
    case True
    have "map (split_cover k) cs = map (\<lambda>c. [c]) cs"
      using True cnt(2) unfolding isize_def
    proof (induction cs)
      case (Cons c cs)
      have "length cs \<le> length (concat (map (split_cover k) cs))" using limit_count_result [OF assms(1)] by blast
      moreover have "1 \<le> length (split_cover k c)" by (rule split_cover_length)
      ultimately have "length (split_cover k c) = 1" "length (concat (map (split_cover k) cs)) = length cs"
        using Cons.prems by (simp_all only: list.map concat.simps length_append list.size)
      moreover from this(1) have "split_cover k c = [c]"
        by (auto simp: split_cover.simps [of k c] Let_def split: if_splits)
      ultimately show ?case using Cons.IH by simp
    qed simp
    then have "?out = concat (map (\<lambda>c. [c]) cs)" by (simp only:)
    also have "\<dots> = cs" by (induction cs) auto
    finally have "?out = cs" .
    then show ?thesis using cnt(1) True assms(1,2) by (simp add: limitCoverLenth_def)
  next
    case False
    define junk where "junk = take isize (cs @ replicate isize \<lparr>oldPos = 0, newPos = 0, coverLength = 0\<rparr>)"
    have j: "length junk = isize" by (simp add: junk_def)
    have l: "isize + length cs = length ?out" using cnt(2) by (simp add: isize_def)
    have "limit_loop (junk @ cs) isize 0 isize k = Ok ([] @ ?out, 0)"
      using limit_loop_result [OF assms(1), of "junk @ cs" "[]" junk cs 0 isize] j l assms(3) by simp
    then show ?thesis using cnt(1) False assms(1,2) by (simp add: limitCoverLenth_def Let_def junk_def)
  qed
qed

section \<open>Writing the diff\<close>

text \<open>The codes of the covers, in three vectors.\<close>

fun serialize_covers ::
  "hpatch_TCover list \<Rightarrow> nat \<Rightarrow> nat \<Rightarrow> byte list \<Rightarrow> byte list \<Rightarrow> byte list \<Rightarrow> (byte list \<times> byte list \<times> byte list) res" where
  "serialize_covers [] oldBack lastNewEnd length_buf inc_newPos_buf inc_oldPos_buf =
     Ok (length_buf, inc_newPos_buf, inc_oldPos_buf)"
| "serialize_covers (cover # covers) oldBack lastNewEnd length_buf inc_newPos_buf inc_oldPos_buf =
     rbind (packUInt length_buf (coverLength cover)) (\<lambda>length_buf.
     rbind (require (newPos cover \<ge> lastNewEnd)) (\<lambda>_.
     rbind (packUInt inc_newPos_buf (newPos cover - lastNewEnd)) (\<lambda>inc_newPos_buf.
     rbind (if oldPos cover \<ge> oldBack then packUIntWithTag inc_oldPos_buf (oldPos cover - oldBack) 0 1
            else packUIntWithTag inc_oldPos_buf (oldBack - oldPos cover) 1 1) (\<lambda>inc_oldPos_buf.
     serialize_covers covers (oldPos cover) (newPos cover + coverLength cover) length_buf inc_newPos_buf inc_oldPos_buf))))"

definition serialize_diff :: "byte list \<Rightarrow> byte list \<Rightarrow> hpatch_TCover list \<Rightarrow> byte list \<Rightarrow> byte list res" where
  "serialize_diff newData oldData covers out_diff =
     (let coverCount = length covers in
      rbind (serialize_covers covers 0 0 [] [] []) (\<lambda>(length_buf, inc_newPos_buf, inc_oldPos_buf).
      rbind (TNewDataDiffStream_make covers (mem_as_hStreamInput newData)) (\<lambda>newDataDiffStream.
      rbind (packUInt out_diff coverCount) (\<lambda>out_diff.
      rbind (packUInt out_diff (length length_buf)) (\<lambda>out_diff.
      rbind (packUInt out_diff (length inc_newPos_buf)) (\<lambda>out_diff.
      rbind (packUInt out_diff (length inc_oldPos_buf)) (\<lambda>out_diff.
      rbind (packUInt out_diff (streamSize newDataDiffStream)) (\<lambda>out_diff.
      let out_diff = pushBack (pushBack (pushBack out_diff length_buf) inc_newPos_buf) inc_oldPos_buf in
      rbind (pushBack_stream out_diff newDataDiffStream) (\<lambda>(out_diff, _).
      let newDataSubDiff = TNewDataSubDiffStream_mem newData oldData covers False False in
      rbind (bytesRLE_save_from out_diff newDataSubDiff kRle_bestSize) (\<lambda>(out_diff, _).
      Ok out_diff))))))))))"

text \<open>
  \<open>create_diff\<close>: the covers that the search of \<open>get_diff\<close> gives are cut, checked and written.
\<close>

definition kDefaultLimitCoverLen :: nat where
  "kDefaultLimitCoverLen = push_bit 30 1"

definition get_diff_default :: "byte list \<Rightarrow> byte list \<Rightarrow> hpatch_TCover list \<Rightarrow> hpatch_TCover list res" where
  "get_diff_default newData oldData searched =
     rbind (limitCoverLenth searched kDefaultLimitCoverLen) (\<lambda>covers.
     rbind (assert_covers_safe covers (length newData) (length oldData)) (\<lambda>_.
     Ok covers))"

definition create_diff :: "(byte list \<Rightarrow> byte list \<Rightarrow> hpatch_TCover list) \<Rightarrow> byte list \<Rightarrow> byte list \<Rightarrow> byte list \<Rightarrow> byte list res" where
  "create_diff search newData oldData out_diff =
     rbind (get_diff_default newData oldData (search newData oldData)) (\<lambda>covers.
     serialize_diff newData oldData covers out_diff)"

section \<open>Reading it back\<close>

lemma serialize_covers_result:
  assumes "covers_fit cs ne n m" "n < 2 ^ 64" "m < 2 ^ 64" "ob < 2 ^ 64"
  shows "\<exists>l np op. serialize_covers cs ob ne ls nps ops = Ok (ls @ l, nps @ np, ops @ op) \<and>
    (\<forall>e. parse_covers e (length cs) op np l ob ne = Some cs) \<and>
    length l \<le> 11 * length cs \<and> length np \<le> 11 * length cs \<and> length op \<le> 11 * length cs"
  using assms
proof (induction cs arbitrary: ne ob ls nps ops)
  case (Cons c cs)
  from Cons.prems have f: "ne \<le> newPos c" "newPos c + coverLength c < 2 ^ 64" "oldPos c + coverLength c < 2 ^ 64"
    "covers_fit cs (newPos c + coverLength c) n m" by auto
  define inc where "inc = (if oldPos c \<ge> ob then oldPos c - ob else ob - oldPos c)"
  define tag where "tag = (if oldPos c \<ge> ob then 0 else 1 :: nat)"
  have b: "coverLength c < 2 ^ 64" "newPos c - ne < 2 ^ 64" "inc < 2 ^ 64" "oldPos c < 2 ^ 64" "tag < 2 ^ 1"
    using f(2,3) Cons.prems(4) by (auto simp: inc_def tag_def)
  let ?l = "pack_code (coverLength c) 0 0" and ?np = "pack_code (newPos c - ne) 0 0" and ?op = "pack_code inc tag 1"
  obtain l np op where r: "serialize_covers cs (oldPos c) (newPos c + coverLength c) (ls @ ?l) (nps @ ?np) (ops @ ?op)
        = Ok ((ls @ ?l) @ l, (nps @ ?np) @ np, (ops @ ?op) @ op)"
      "\<forall>e. parse_covers e (length cs) op np l (oldPos c) (newPos c + coverLength c) = Some cs"
      "length l \<le> 11 * length cs" "length np \<le> 11 * length cs" "length op \<le> 11 * length cs"
    using Cons.IH [OF f(4) Cons.prems(2,3) b(4)] by blast
  have o: "(if oldPos c \<ge> ob then packUIntWithTag ops (oldPos c - ob) 0 1 else packUIntWithTag ops (ob - oldPos c) 1 1) = Ok (ops @ ?op)"
    using packUIntWithTag_eq [OF b(3,5), of ops] by (simp add: inc_def tag_def split: if_splits)
  have s: "serialize_covers (c # cs) ob ne ls nps ops = Ok (ls @ (?l @ l), nps @ (?np @ np), ops @ (?op @ op))"
    using f(1) b r(1) o by (simp add: packUInt_eq)
  have step: "oldPos_step ob (drop_bit 7 (unat (hd (?op @ op))) \<noteq> 0) inc = oldPos c"
  proof -
    have "drop_bit 7 (unat (hd (?op @ op))) = tag" using hd_pack_code [OF b(3,5), of op] by simp
    then show ?thesis using b Cons.prems(4) by (auto simp: oldPos_step_def tag_def inc_def add64_eq sub64_eq)
  qed
  have "parse_covers e (length (c # cs)) (?op @ op) (?np @ np) (?l @ l) ob ne = Some (c # cs)" for e
    using r(2) step f(1,2) unpack_pack_code [OF b(3,5), of e op] unpack_pack_code [OF b(2), of 0 0 e np]
      unpack_pack_code [OF b(1), of 0 0 e l] by (simp add: Let_def add64_eq)
  moreover have "length ?l \<le> 11" "length ?np \<le> 11" "length ?op \<le> 11"
    using pack_code(3) [of _ 0 0] pack_code(3) [OF b(3,5)] b by simp_all
  ultimately show ?case using s r(3-5) by (intro exI [of _ "?l @ l"] exI [of _ "?np @ np"] exI [of _ "?op @ op"]) auto
qed auto

lemma covers_fit_count: "covers_fit cs e n m \<Longrightarrow> \<forall>c \<in> set cs. 0 < coverLength c \<Longrightarrow> length cs \<le> n - e"
proof (induction cs arbitrary: e)
  case (Cons c cs)
  from Cons.prems have "length cs \<le> n - (newPos c + coverLength c)" "e \<le> newPos c" "newPos c + coverLength c \<le> n" "0 < coverLength c"
    using Cons.IH by auto
  then show ?case by simp
qed simp

lemma serialize_diff_result:
  assumes fit: "covers_fit cs 0 (length new) (length old)" and cnt: "11 * length cs < 2 ^ 64"
    and new: "11 * length new < 2 ^ 64" and old: "length old < 2 ^ 64"
  shows "\<exists>d. serialize_diff new old cs out = Ok (out @ d) \<and> (\<forall>e. diff_spec e (length new) old d = Some new)"
proof -
  let ?g = "gap_bytes cs new 0" and ?s = "sub_bytes False False cs new old 0"
  have n64: "length new < 2 ^ 64" using new by simp
  obtain l np op where c: "serialize_covers cs 0 0 [] [] [] = Ok (l, np, op)" "\<forall>e. parse_covers e (length cs) op np l 0 0 = Some cs"
      "length l < 2 ^ 64" "length np < 2 ^ 64" "length op < 2 ^ 64"
    using serialize_covers_result [OF fit n64 old, of 0 "[]" "[]" "[]"] cnt by auto
  obtain st where st: "TNewDataDiffStream_make cs (mem_as_hStreamInput new) = Ok st" "streamSize st = length ?g" "mem_in.nd_sok st 0 ?g"
    using newDataDiff_make [OF fit n64] by blast
  have g64: "length ?g < 2 ^ 64" using gap_bytes_length_le [OF fit] n64 by linarith
  let ?h = "pack_code (length cs) 0 0 @ pack_code (length l) 0 0 @ pack_code (length np) 0 0 @ pack_code (length op) 0 0 @
    pack_code (length ?g) 0 0"
  let ?out = "(out @ ?h) @ l @ np @ op"
  obtain st' where g: "pushBack_stream ?out st = Ok (?out @ ?g, st')"
    using mem_nd_seq.pushBack_stream_result [OF st(3), of ?out] by blast
  have mem: "streamImport (mem_as_hStreamInput x) = x" for x by (simp add: mem_as_hStreamInput_def)
  have sub: "mem_sub.sd_of new old (TNewDataSubDiffStream_mem new old cs False False) 0 ?s"
    using mem_sub.subDiff_make_sok [of "mem_as_hStreamInput new" "mem_as_hStreamInput old" cs False] fit n64 old
    by (simp add: TNewDataSubDiffStream_mem_def mem)
  have sl: "length ?s = length new" using sub_bytes_length [OF fit] by simp
  obtain k st'' where k: "bytesRLE_save_from (?out @ ?g) (TNewDataSubDiffStream_mem new old cs False False) kRle_bestSize =
      Ok ((?out @ ?g) @ k, st'')" "\<forall>e. rle_section e k = Some ?s"
    using mem_sub_seq.bytesRLE_save_from_result [OF _ _ sub, of kRle_bestSize "?out @ ?g"] new sl by (auto simp: kRle_bestSize_def)
  let ?d = "?h @ l @ np @ op @ ?g @ k"
  have "serialize_diff new old cs out = Ok (out @ ?d)"
    using c st g k cnt g64 by (simp add: serialize_diff_def Let_def packUInt_eq pushBack_def)
  moreover have "diff_spec e (length new) old ?d = Some new" for e
  proof -
    have "parse_head e ?d = Ok \<lparr>dp_coverCount = length cs, dp_lengths = l, dp_inc_newPos = np, dp_inc_oldPos = op,
        dp_newDataDiff = ?g, dp_rle = k\<rparr>"
      using c cnt g64 by (simp add: parse_head_def unpack_pack_code)
    then show ?thesis using k(2) c(2) sl apply_covers_sub_gap [OF fit, of "[]"] by (simp add: diff_spec_def)
  qed
  ultimately show ?thesis by blast
qed

lemma assert_covers_safe_fit:
  "covers_fit cs e n m \<Longrightarrow> \<forall>c \<in> set cs. 0 < coverLength c \<Longrightarrow> n < 2 ^ 64 \<Longrightarrow> m < 2 ^ 64 \<Longrightarrow>
   assert_covers_safe_from cs e n m = Ok ()"
proof (induction cs arbitrary: e)
  case (Cons c cs)
  from Cons.prems have f: "e \<le> newPos c" "newPos c + coverLength c \<le> n" "oldPos c + coverLength c \<le> m" "0 < coverLength c"
    "covers_fit cs (newPos c + coverLength c) n m" by auto
  moreover from this have a: "add64 (newPos c) (coverLength c) = newPos c + coverLength c"
      "add64 (oldPos c) (coverLength c) = oldPos c + coverLength c"
    using Cons.prems(3,4) by (auto intro: add64_eq)
  ultimately have "assert_cover_safe c e n m = Ok ()" by (simp add: assert_cover_safe_def)
  moreover have "assert_covers_safe_from cs (newPos c + coverLength c) n m = Ok ()" by (rule Cons.IH) (use Cons.prems f in auto)
  ultimately show ?case using a by simp
qed simp

lemma create_diff_result:
  assumes fit: "covers_fit (search new old) 0 (length new) (length old)" "\<forall>c \<in> set (search new old). 0 < coverLength c"
    and new: "11 * length new < 2 ^ 64" and old: "length old < 2 ^ 64"
  shows "\<exists>d. create_diff search new old out = Ok (out @ d) \<and> (\<forall>e. diff_spec e (length new) old d = Some new)"
proof -
  let ?cs = "concat (map (split_cover kDefaultLimitCoverLen) (search new old))"
  have k: "kDefaultLimitCoverLen = 2 ^ 30" by (simp add: kDefaultLimitCoverLen_def push_bit_eq_mult)
  have f: "covers_fit ?cs 0 (length new) (length old)" by (rule split_covers_fit [OF fit(1)])
  have p: "\<forall>c \<in> set ?cs. 0 < coverLength c" using split_cover_limit [of kDefaultLimitCoverLen] fit(2) by (fastforce simp: k)
  have l: "length ?cs \<le> length new" using covers_fit_count [OF f p] by simp
  then have cnt: "11 * length ?cs < 2 ^ 64" "length ?cs < 2 ^ 64" using new by linarith+
  have "limitCoverLenth (search new old) kDefaultLimitCoverLen = Ok ?cs"
    by (rule limitCoverLenth_result) (use cnt in \<open>simp_all add: k\<close>)
  moreover have "assert_covers_safe ?cs (length new) (length old) = Ok ()"
    unfolding assert_covers_safe_def by (rule assert_covers_safe_fit [OF f p]) (use new old in auto)
  moreover obtain d where "serialize_diff new old ?cs out = Ok (out @ d)" "\<forall>e. diff_spec e (length new) old d = Some new"
    using serialize_diff_result [OF f cnt(1) new old] by blast
  ultimately show ?thesis by (auto simp: create_diff_def get_diff_default_def)
qed

section \<open>Properties\<close>

text \<open>C29: whatever covers the search finds, as long as they are not empty, in order and inside both
  files, \<open>create_diff\<close> succeeds and appends a diff from which \<open>patch\<close> and \<open>patch_stream\<close> both
  make the new data out of the old data.\<close>

theorem create_diff_patch_roundtrip:
  assumes "covers_fit (search new old) 0 (length new) (length old)" "\<forall>c \<in> set (search new old). 0 < coverLength c"
    and "11 * length new < 2 ^ 63" "length old < 2 ^ 64" "length buf = length new" "a < 2 ^ 61"
  shows "\<exists>d. create_diff search new old out = Ok (out @ d) \<and> patch buf old d = Ok new \<and>
    (length d < 2 ^ 64 \<longrightarrow> patch_stream a (mem_as_hStreamOutput buf) (mem_as_hStreamInput old) (mem_as_hStreamInput d)
       = Ok (mem_as_hStreamOutput new))"
proof -
  have n: "11 * length new < 2 ^ 64" "length buf < 2 ^ 63" using assms(3,5) by simp_all
  obtain d where d: "create_diff search new old out = Ok (out @ d)" "\<forall>e. diff_spec e (length new) old d = Some new"
    using create_diff_result [where search = search, OF assms(1,2) n(1) assms(4)] by blast
  have "patch buf old d = Ok new" using patch_eq_spec [of buf old d] d(2) assms(5) n(2) by simp
  moreover have "patch_stream a (mem_as_hStreamOutput buf) (mem_as_hStreamInput old) (mem_as_hStreamInput d)
       = Ok (mem_as_hStreamOutput new)" if "length d < 2 ^ 64"
    unfolding patch_stream_def
    using patch_stream_with_cache_mem [of old d buf a "a + hpatch_kStreamCacheSize * kCachePatCount"] that assms(4-6) n(2) d(2)
    by (simp add: hpatch_kStreamCacheSize_def kCachePatCount_def)
  ultimately show ?thesis using d(1) by blast
qed

theorem create_diff_patch_roundtrip_witness:
  "let search = (\<lambda>new old. [\<lparr>oldPos = 1, newPos = 1, coverLength = 3\<rparr>]) in
   \<exists>d. create_diff search [1, 5, 6, 7, 2] [3, 5, 8, 7] [] = Ok ([] @ d) \<and> patch [0, 0, 0, 0, 0] [3, 5, 8, 7] d = Ok [1, 5, 6, 7, 2]"
  using create_diff_patch_roundtrip [of "\<lambda>new old. [\<lparr>oldPos = 1, newPos = 1, coverLength = 3\<rparr>]" "[1, 5, 6, 7, 2]" "[3, 5, 8, 7]"
      "[0, 0, 0, 0, 0]" 0 "[]"]
  by (auto simp: Let_def)

text \<open>C30: \<open>_limitCoverLenth\<close> cuts every cover into pieces of at most \<open>kMaxLen\<close> bytes, none of them
  empty; the pieces are in order and inside both files if the covers were, and stand for the same
  differences and the same uncovered bytes; the moves inside the vector stay inside it and overwrite
  no cover that is still to be cut.\<close>

theorem limitCoverLenth_cuts:
  assumes "0 < k" "k < 2 ^ 63" "covers_fit cs 0 (length new) (length old)" "\<forall>c \<in> set cs. 0 < coverLength c" "length new < 2 ^ 64"
  shows "\<exists>cs'. limitCoverLenth cs k = Ok cs' \<and> (\<forall>c \<in> set cs'. 0 < coverLength c \<and> coverLength c \<le> k) \<and>
    covers_fit cs' 0 (length new) (length old) \<and> gap_bytes cs' new 0 = gap_bytes cs new 0 \<and>
    sub_bytes False False cs' new old 0 = sub_bytes False False cs new old 0"
proof -
  let ?cs = "concat (map (split_cover k) cs)"
  have f: "covers_fit ?cs 0 (length new) (length old)" by (rule split_covers_fit [OF assms(3)])
  have p: "\<forall>c \<in> set ?cs. 0 < coverLength c \<and> coverLength c \<le> k" using split_cover_limit [OF assms(1)] assms(4) by fastforce
  have "length ?cs \<le> length new" using covers_fit_count [OF f] p by simp
  then have "limitCoverLenth cs k = Ok ?cs" by (intro limitCoverLenth_result assms(1,2)) (use assms(5) in linarith)
  moreover have "covers_fit cs e (length new) (length old) \<Longrightarrow> sub_bytes only zero ?cs new old e = sub_bytes only zero cs new old e \<and>
      gap_bytes ?cs new e = gap_bytes cs new e" for only zero e
  proof (induction cs arbitrary: e)
    case (Cons c cs)
    then show ?case using split_cover_bytes [of c new old only zero k "concat (map (split_cover k) cs)" e] by simp
  qed simp
  ultimately show ?thesis using f p assms(3) by (intro exI [of _ ?cs]) simp
qed

theorem limitCoverLenth_cuts_witness:
  "let cs = [\<lparr>oldPos = 0, newPos = 1, coverLength = 4\<rparr>]; new = [1, 5, 6, 7, 2]; old = [3, 5, 8, 7] in
   \<exists>cs'. limitCoverLenth cs 2 = Ok cs' \<and> (\<forall>c \<in> set cs'. 0 < coverLength c \<and> coverLength c \<le> 2) \<and>
    covers_fit cs' 0 (length new) (length old) \<and> gap_bytes cs' new 0 = gap_bytes cs new 0 \<and>
    sub_bytes False False cs' new old 0 = sub_bytes False False cs new old 0"
  unfolding Let_def by (rule limitCoverLenth_cuts) simp_all

end
