(* ===== verification/DiffStream.thy ===== *)
theory DiffStream
  imports Serialize
begin

text \<open>
  \<open>TDiffStream\<close> of \<open>stream_serialize.cpp\<close>, through which compressed diffs are written: appending,
  placeholders that are filled in later, and appending a stream through a compressor that is given up
  when it does not pay; with \<open>TCompressedStream\<close>, \<open>TVectorAsStreamOutput\<close> and
  \<open>TVectorAsStreamInput\<close>.  The compressor plugin \<open>hdiff_TCompress\<close> is outside the repository and so
  a parameter.
\<close>

section \<open>Streams that are read again\<close>

text \<open>
  \<open>pushStream\<close> reads a stream again from its beginning when compressing it was given up.
  \<open>rsok st pos\<close>: the stream can be read on at \<open>pos\<close>; \<open>whole st\<close> is all it holds.
\<close>

locale replay_stream =
  fixes rsok :: "'s hpatch_TStreamInput \<Rightarrow> nat \<Rightarrow> bool"
    and whole :: "'s hpatch_TStreamInput \<Rightarrow> byte list"
  assumes replay_law: "rsok st pos \<Longrightarrow> 0 < len \<Longrightarrow> pos + len \<le> length (whole st) \<Longrightarrow>
      \<exists>st'. sread st pos len = Ok (take len (drop pos (whole st)), st') \<and> rsok st' (pos + len) \<and> whole st' = whole st"
    and replay_again: "rsok st pos \<Longrightarrow> rsok st 0"
    and whole_size: "rsok st pos \<Longrightarrow> streamSize st = length (whole st) \<and> length (whole st) < 2 ^ 63"

sublocale replay_stream \<subseteq> once: seq_stream "\<lambda>st pos d. rsok st pos \<and> pos \<le> length (whole st) \<and> d = drop pos (whole st)"
proof
  fix st pos d and len :: nat
  assume st: "rsok st pos \<and> pos \<le> length (whole st) \<and> d = drop pos (whole st)" and len: "0 < len" "len \<le> length d"
  then have "pos + len \<le> length (whole st)" by auto
  from replay_law [OF _ len(1) this] st obtain st' where st': "sread st pos len = Ok (take len (drop pos (whole st)), st')"
    "rsok st' (pos + len)" "whole st' = whole st" by blast
  moreover have "streamSize st' = streamSize st" using whole_size st' st by metis
  moreover have "drop len d = drop (pos + len) (whole st)" using st by (simp add: add.commute)
  ultimately show "\<exists>st'. sread st pos len = Ok (take len d, st') \<and>
      (rsok st' (pos + len) \<and> pos + len \<le> length (whole st') \<and> drop len d = drop (pos + len) (whole st')) \<and> streamSize st' = streamSize st"
    using st len by fastforce
next
  fix st pos d
  assume st: "rsok st pos \<and> pos \<le> length (whole st) \<and> d = drop pos (whole st)"
  then have "streamSize st = length (whole st)" "length (whole st) < 2 ^ 63" using whole_size by blast+
  then show "streamSize st = pos + length d \<and> streamSize st < 2 ^ 64" using st by simp
qed

text \<open>Streams of fixed contents are such; \<open>TVectorAsStreamInput\<close> is a stream on memory.\<close>

sublocale random_stream \<subseteq> again: replay_stream "\<lambda>st pos. rok st \<and> length (contents st) < 2 ^ 63" contents
proof
  fix st pos and len :: nat
  assume st: "rok st \<and> length (contents st) < 2 ^ 63" and len: "0 < len" "pos + len \<le> length (contents st)"
  have "hoare True (sread st pos len) (\<lambda>(x, st'). x = take len (drop pos (contents st)) \<and> rok st' \<and> contents st' = contents st)"
    by (rule random_rule) (use st len in auto)
  from hoare_success [OF this TrueI] st show "\<exists>st'. sread st pos len = Ok (take len (drop pos (contents st)), st') \<and>
      (rok st' \<and> length (contents st') < 2 ^ 63) \<and> contents st' = contents st" by auto
qed (use contents_size in auto)

definition TVectorAsStreamInput :: "byte list \<Rightarrow> byte list hpatch_TStreamInput" where
  "TVectorAsStreamInput src = mem_as_hStreamInput src"

section \<open>Streams that are written anywhere\<close>

text \<open>
  \<open>ucont st\<close> is what an output stream holds; writing inside it or at its end replaces that part of
  it, and what is there can be read back.
\<close>

locale update_stream =
  fixes uok :: "'o hpatch_TStreamOutput \<Rightarrow> bool"
    and ucont :: "'o hpatch_TStreamOutput \<Rightarrow> byte list"
  assumes update_law: "uok st \<Longrightarrow> pos \<le> length (ucont st) \<Longrightarrow> 0 < length d \<Longrightarrow> pos + length d < 2 ^ 63 \<Longrightarrow>
      \<exists>st'. swrite st pos d = Ok st' \<and> uok st' \<and> ucont st' = take pos (ucont st) @ d @ drop (pos + length d) (ucont st)"
    and update_read_law: "uok st \<Longrightarrow> read_writed st \<noteq> None \<Longrightarrow> pos + len \<le> length (ucont st) \<Longrightarrow>
      \<exists>st'. sread_writed st pos len = Ok (take len (drop pos (ucont st)), st') \<and> uok st' \<and> ucont st' = ucont st"

text \<open>\<open>TVectorAsStreamOutput\<close>.\<close>

definition TVectorAsStreamOutput_write :: "byte list \<Rightarrow> nat \<Rightarrow> nat \<Rightarrow> byte list \<Rightarrow> byte list res" where
  "TVectorAsStreamOutput_write dst streamSz write_pos data =
     (let writeLen = length data in
      rbind (check (\<not> write_pos > length dst)) (\<lambda>_.
      if length dst = write_pos then Ok (dst @ data)
      else
        let dst = (if length dst < write_pos + writeLen
                   then dst @ replicate (write_pos + writeLen - length dst) 0 else dst) in
        mem_write dst write_pos data))"

definition TVectorAsStreamOutput_read :: "byte list \<Rightarrow> nat \<Rightarrow> nat \<Rightarrow> nat \<Rightarrow> (byte list \<times> byte list) res" where
  "TVectorAsStreamOutput_read src streamSz readFromPos readLen =
     rbind (check (\<not> readFromPos + readLen > length src)) (\<lambda>_.
     rbind (mem_read src readFromPos readLen) (\<lambda>d. Ok (d, src)))"

definition TVectorAsStreamOutput :: "byte list \<Rightarrow> byte list hpatch_TStreamOutput" where
  "TVectorAsStreamOutput dst =
     \<lparr>ostreamImport = dst, ostreamSize = hpatch_kNullStreamPos, read_writed = Some TVectorAsStreamOutput_read,
      o_write = TVectorAsStreamOutput_write\<rparr>"

definition vec_ok :: "byte list hpatch_TStreamOutput \<Rightarrow> bool" where
  "vec_ok st \<longleftrightarrow> read_writed st = Some TVectorAsStreamOutput_read \<and> o_write st = TVectorAsStreamOutput_write"

lemma TVectorAsStreamOutput_ok [simp]: "vec_ok (TVectorAsStreamOutput dst)" "ostreamImport (TVectorAsStreamOutput dst) = dst"
  by (simp_all add: TVectorAsStreamOutput_def vec_ok_def)

lemma TVectorAsStreamOutput_write_result:
  "pos \<le> length dst \<Longrightarrow> TVectorAsStreamOutput_write dst n pos d = Ok (take pos dst @ d @ drop (pos + length d) dst)"
  by (auto simp: TVectorAsStreamOutput_write_def mem_write_def Let_def)

interpretation vec_out: update_stream vec_ok ostreamImport
proof
  fix st :: "byte list hpatch_TStreamOutput" and pos and d :: "byte list"
  assume "vec_ok st" "pos \<le> length (ostreamImport st)"
  then show "\<exists>st'. swrite st pos d = Ok st' \<and> vec_ok st' \<and>
      ostreamImport st' = take pos (ostreamImport st) @ d @ drop (pos + length d) (ostreamImport st)"
    by (auto simp: swrite_def vec_ok_def TVectorAsStreamOutput_write_result)
next
  fix st :: "byte list hpatch_TStreamOutput" and pos len
  assume "vec_ok st" "pos + len \<le> length (ostreamImport st)"
  then show "\<exists>st'. sread_writed st pos len = Ok (take len (drop pos (ostreamImport st)), st') \<and> vec_ok st' \<and>
      ostreamImport st' = ostreamImport st"
    by (auto simp: sread_writed_def vec_ok_def TVectorAsStreamOutput_read_def mem_read_def)
qed

section \<open>Compressors\<close>

text \<open>\<open>TCompressedStream\<close>: the output given to a compressor, which stops writing at a limit.\<close>

record 'o TCompressedStream =
  oc_out_code :: "'o hpatch_TStreamOutput"
  oc_out_pos :: nat
  oc_out_posLimitEnd :: nat
  oc_writeToPos_back :: nat
  oc_is_overLimit :: bool

definition TCompressedStream_write :: "'o TCompressedStream \<Rightarrow> nat \<Rightarrow> nat \<Rightarrow> byte list \<Rightarrow> 'o TCompressedStream res" where
  "TCompressedStream_write self streamSz write_pos data =
     rbind (require (data \<noteq> [])) (\<lambda>_.
     rbind (check (oc_writeToPos_back self = write_pos)) (\<lambda>_.
     let dataLen = length data;
         self = self\<lparr>oc_writeToPos_back := write_pos + dataLen\<rparr> in
     if oc_is_overLimit self \<or> add64 (oc_out_pos self) dataLen > oc_out_posLimitEnd self then
       Ok (self\<lparr>oc_is_overLimit := True\<rparr>)
     else
       rbind (swrite (oc_out_code self) (oc_out_pos self) data) (\<lambda>out_code.
       Ok (self\<lparr>oc_out_code := out_code, oc_out_pos := oc_out_pos self + dataLen\<rparr>))))"

definition TCompressedStream_make :: "'o hpatch_TStreamOutput \<Rightarrow> nat \<Rightarrow> nat \<Rightarrow> 'o TCompressedStream hpatch_TStreamOutput" where
  "TCompressedStream_make out_code write_pos kLimitOutCodeSize =
     \<lparr>ostreamImport = \<lparr>oc_out_code = out_code, oc_out_pos = write_pos, oc_out_posLimitEnd = add64 write_pos kLimitOutCodeSize,
        oc_writeToPos_back = 0, oc_is_overLimit = False\<rparr>,
      ostreamSize = 0, read_writed = None, o_write = TCompressedStream_write\<rparr>"

text \<open>
  A compressor, as \<open>diff_types.h\<close> documents it: it reads all of its input from the beginning, in
  steps of \<open>cp_bufSize\<close>, writes some pieces one after the other and returns a size.  What it
  writes and returns is a function of what it read.
\<close>

record hdiff_TCompress =
  cp_compressType :: "byte list"
  cp_maxCompressedSize :: "nat \<Rightarrow> nat"
  cp_bufSize :: nat
  cp_code :: "byte list \<Rightarrow> byte list list \<times> nat"

function plugin_read :: "nat \<Rightarrow> byte list \<Rightarrow> 's hpatch_TStreamInput \<Rightarrow> nat \<Rightarrow> nat \<Rightarrow> (byte list \<times> 's hpatch_TStreamInput) res" where
  "plugin_read bufSize acc st sz pos =
     (if pos < sz then
        rbind (require (0 < bufSize)) (\<lambda>_.
        let len = min bufSize (sz - pos) in
        rbind (sread st pos len) (\<lambda>(d, st). plugin_read bufSize (acc @ d) st sz (pos + len)))
      else Ok (acc, st))"
  by pat_completeness auto
termination
  by (relation "measure (\<lambda>(b, acc, st, sz, pos). sz - pos)") (auto simp: require_def split: if_splits)

declare plugin_read.simps [simp del]

fun plugin_write :: "'o hpatch_TStreamOutput \<Rightarrow> nat \<Rightarrow> byte list list \<Rightarrow> 'o hpatch_TStreamOutput res" where
  "plugin_write out pos [] = Ok out"
| "plugin_write out pos (d # ds) = rbind (swrite out pos d) (\<lambda>out. plugin_write out (pos + length d) ds)"

definition hdiff_compress ::
  "hdiff_TCompress \<Rightarrow> 'o hpatch_TStreamOutput \<Rightarrow> 's hpatch_TStreamInput \<Rightarrow>
   (nat \<times> 'o hpatch_TStreamOutput \<times> 's hpatch_TStreamInput) res" where
  "hdiff_compress P out_code in_data =
     rbind (plugin_read (cp_bufSize P) [] in_data (streamSize in_data) 0) (\<lambda>(data, in_data).
     case cp_code P data of (pieces, n) \<Rightarrow>
       rbind (plugin_write out_code 0 pieces) (\<lambda>out_code. Ok (n, out_code, in_data)))"

text \<open>
  What is asked of one: its pieces are not empty, and not too long for a file; and a size that is not 0 is the size of what it
  wrote, from which the decompressor gets the data back.
\<close>

definition compress_ok :: "hdiff_TCompress \<Rightarrow> (nat \<Rightarrow> byte list \<Rightarrow> byte list option) \<Rightarrow> bool" where
  "compress_ok P unz \<longleftrightarrow>
     0 < cp_bufSize P \<and>
     (\<forall>data. length data < 2 ^ 62 \<longrightarrow> (case cp_code P data of (pieces, n) \<Rightarrow>
        (\<forall>d \<in> set pieces. d \<noteq> []) \<and> length (concat pieces) < 2 ^ 63 \<and>
        (0 < n \<longrightarrow> n = length (concat pieces) \<and> unz (length data) (concat pieces) = Some data)))"

context replay_stream begin

lemma plugin_read_result:
  "rsok st pos \<Longrightarrow> pos \<le> length (whole st) \<Longrightarrow> 0 < b \<Longrightarrow>
   \<exists>st'. plugin_read b acc st (streamSize st) pos = Ok (acc @ drop pos (whole st), st') \<and> rsok st' 0 \<and> whole st' = whole st"
proof (induction "length (whole st) - pos" arbitrary: acc st pos rule: less_induct)
  case less
  have sz: "streamSize st = length (whole st)" using whole_size [OF less.prems(1)] by simp
  show ?case
  proof (cases "pos < length (whole st)")
    case False
    then show ?thesis using less.prems sz replay_again by (auto simp: plugin_read.simps)
  next
    case True
    define len where "len = min b (length (whole st) - pos)"
    have len: "0 < len" "pos + len \<le> length (whole st)" using True less.prems(3) by (auto simp: len_def)
    obtain st1 where st1: "sread st pos len = Ok (take len (drop pos (whole st)), st1)" "rsok st1 (pos + len)" "whole st1 = whole st"
      using replay_law [OF less.prems(1) len] by blast
    have sz1: "streamSize st1 = length (whole st)" using whole_size [OF st1(2)] st1(3) by simp
    have "length (whole st1) - (pos + len) < length (whole st) - pos" using len st1(3) by simp
    from less.hyps [OF this st1(2) _ less.prems(3), of "acc @ take len (drop pos (whole st))"] len(2) obtain st' where
      "plugin_read b (acc @ take len (drop pos (whole st))) st1 (length (whole st)) (pos + len) =
        Ok ((acc @ take len (drop pos (whole st))) @ drop (pos + len) (whole st), st')" "rsok st' 0" "whole st' = whole st"
      using st1(3) sz1 by auto
    moreover have "take len (drop pos (whole st)) @ drop (pos + len) (whole st) = drop pos (whole st)"
      by (metis add.commute append_take_drop_id drop_drop)
    ultimately show ?thesis using True st1(1) less.prems(3) sz
      by (simp add: plugin_read.simps [of b acc st "length (whole st)" pos] Let_def len_def [symmetric])
  qed
qed

end

section \<open>\<open>TDiffStream\<close>\<close>

record TPlaceholder =
  ph_pos :: nat
  ph_pos_end :: nat

definition isNullPos :: "TPlaceholder \<Rightarrow> bool" where
  "isNullPos p \<longleftrightarrow> ph_pos_end p = 0 \<and> ph_pos_end p = ph_pos p"

record 'o TDiffStream =
  ds_out_diff :: "'o hpatch_TStreamOutput"
  ds_writePos :: nat

definition ds_pushBack :: "'o TDiffStream \<Rightarrow> byte list \<Rightarrow> 'o TDiffStream res" where
  "ds_pushBack self src =
     (if length src = 0 then Ok self
      else rbind (swrite (ds_out_diff self) (ds_writePos self) src) (\<lambda>out_diff.
           Ok (self\<lparr>ds_out_diff := out_diff, ds_writePos := ds_writePos self + length src\<rparr>)))"

definition ds_packUInt :: "'o TDiffStream \<Rightarrow> nat \<Rightarrow> 'o TDiffStream res" where
  "ds_packUInt self uValue =
     rbind (hpatch_packUIntWithTag hpatch_kMaxPackedUIntBytes uValue 0 0) (\<lambda>codeBuf. ds_pushBack self codeBuf)"

definition ds_packUInt_pos :: "'o TDiffStream \<Rightarrow> nat \<Rightarrow> (TPlaceholder \<times> 'o TDiffStream) res" where
  "ds_packUInt_pos self uValue =
     (let pos = ds_writePos self in
      rbind (ds_packUInt self uValue) (\<lambda>self. Ok (\<lparr>ph_pos = pos, ph_pos_end = ds_writePos self\<rparr>, self)))"

definition ds_packUInt_limit :: "'o TDiffStream \<Rightarrow> nat \<Rightarrow> nat \<Rightarrow> 'o TDiffStream res" where
  "ds_packUInt_limit self uValue limitOutSize =
     rbind (check (limitOutSize \<le> hpatch_kMaxPackedUIntBytes)) (\<lambda>_.
     rbind (packUInt_fixSize limitOutSize uValue) (\<lambda>codeBuf. ds_pushBack self codeBuf))"

definition ds_packUInt_update :: "'o TDiffStream \<Rightarrow> TPlaceholder \<Rightarrow> nat \<Rightarrow> 'o TDiffStream res" where
  "ds_packUInt_update self pos uValue =
     (let writePosBack = ds_writePos self in
      rbind (ds_packUInt_limit (self\<lparr>ds_writePos := ph_pos pos\<rparr>) uValue (ph_pos_end pos - ph_pos pos)) (\<lambda>self.
      rbind (require (ds_writePos self = ph_pos_end pos)) (\<lambda>_.
      Ok (self\<lparr>ds_writePos := writePosBack\<rparr>))))"

definition ds_stream_read :: "'o TDiffStream \<Rightarrow> TPlaceholder \<Rightarrow> (byte list \<times> 'o TDiffStream) res" where
  "ds_stream_read self pos =
     rbind (require (ph_pos pos \<le> ph_pos_end pos)) (\<lambda>_.
     rbind (check (ph_pos_end pos \<le> ds_writePos self)) (\<lambda>_.
     rbind (check (read_writed (ds_out_diff self) \<noteq> None)) (\<lambda>_.
     rbind (sread_writed (ds_out_diff self) (ph_pos pos) (ph_pos_end pos - ph_pos pos)) (\<lambda>(d, out_diff).
     Ok (d, self\<lparr>ds_out_diff := out_diff\<rparr>)))))"

definition ds_stream_update :: "'o TDiffStream \<Rightarrow> TPlaceholder \<Rightarrow> byte list \<Rightarrow> 'o TDiffStream res" where
  "ds_stream_update self pos in_data =
     rbind (require (ph_pos pos \<le> ph_pos_end pos)) (\<lambda>_.
     rbind (check (ph_pos_end pos \<le> ds_writePos self)) (\<lambda>_.
     let writePosBack = ds_writePos self in
     rbind (mem_read in_data 0 (ph_pos_end pos - ph_pos pos)) (\<lambda>d.
     rbind (ds_pushBack (self\<lparr>ds_writePos := ph_pos pos\<rparr>) d) (\<lambda>self.
     rbind (require (ds_writePos self = ph_pos_end pos)) (\<lambda>_.
     Ok (self\<lparr>ds_writePos := writePosBack\<rparr>))))))"

definition ds_kBufSize :: nat where
  "ds_kBufSize = 1024 * 512"

function ds_push_loop ::
  "'o TDiffStream \<Rightarrow> 's hpatch_TStreamInput \<Rightarrow> nat \<Rightarrow> nat \<Rightarrow> ('o TDiffStream \<times> 's hpatch_TStreamInput) res" where
  "ds_push_loop self stream sz sumReadedLen =
     (if sumReadedLen < sz then
        let readLen = (if ds_kBufSize + sumReadedLen > sz then sz - sumReadedLen else ds_kBufSize) in
        rbind (sread stream sumReadedLen readLen) (\<lambda>(buf, stream).
        rbind (ds_pushBack self buf) (\<lambda>self.
        ds_push_loop self stream sz (sumReadedLen + readLen)))
      else Ok (self, stream))"
  by pat_completeness auto
termination
  by (relation "measure (\<lambda>(self, st, sz, pos). sz - pos)") (auto simp: ds_kBufSize_def)

declare ds_push_loop.simps [simp del]

definition ds_pushStream_raw :: "'o TDiffStream \<Rightarrow> 's hpatch_TStreamInput \<Rightarrow> ('o TDiffStream \<times> 's hpatch_TStreamInput) res" where
  "ds_pushStream_raw self stream = ds_push_loop self stream (streamSize stream) 0"

text \<open>The attempt to compress: the compressed size, or 0 when it was given up.\<close>

definition ds_try_compress ::
  "'o TDiffStream \<Rightarrow> 's hpatch_TStreamInput \<Rightarrow> hdiff_TCompress option \<Rightarrow> bool \<Rightarrow> nat \<Rightarrow>
   (nat \<times> 'o TDiffStream \<times> 's hpatch_TStreamInput) res" where
  "ds_try_compress self stream compressPlugin isMustCompress cancelSizeOnCancelCompress =
     (case compressPlugin of
        None \<Rightarrow> Ok (0, self, stream)
      | Some P \<Rightarrow>
          if isMustCompress \<or> streamSize stream \<ge> 1 + cancelSizeOnCancelCompress then
            let kLimitOutCodeSize = (if isMustCompress then cp_maxCompressedSize P (streamSize stream + 1)
                                     else streamSize stream - (1 + cancelSizeOnCancelCompress)) in
            rbind (hdiff_compress P (TCompressedStream_make (ds_out_diff self) (ds_writePos self) kLimitOutCodeSize) stream)
              (\<lambda>(compressed_size, out_stream, stream).
            let self = self\<lparr>ds_out_diff := oc_out_code (ostreamImport out_stream)\<rparr> in
            if oc_is_overLimit (ostreamImport out_stream) \<or> compressed_size = 0 \<or> compressed_size > kLimitOutCodeSize then
              rbind (check (\<not> isMustCompress)) (\<lambda>_. Ok (0, self, stream))
            else Ok (compressed_size, self\<lparr>ds_writePos := ds_writePos self + compressed_size\<rparr>, stream))
          else Ok (0, self, stream))"

definition ds_pushStream ::
  "'o TDiffStream \<Rightarrow> 's hpatch_TStreamInput \<Rightarrow> hdiff_TCompress option \<Rightarrow> TPlaceholder \<Rightarrow> bool \<Rightarrow> nat \<Rightarrow>
   (nat \<times> 'o TDiffStream \<times> 's hpatch_TStreamInput) res" where
  "ds_pushStream self stream compressPlugin update_compress_sizePos isMustCompress cancelSizeOnCancelCompress =
     rbind (check (ds_writePos self \<ge> cancelSizeOnCancelCompress)) (\<lambda>_.
     rbind (check (streamSize stream \<ge> cancelSizeOnCancelCompress)) (\<lambda>_.
     rbind (ds_try_compress self stream compressPlugin isMustCompress cancelSizeOnCancelCompress) (\<lambda>(compressed_size, self, stream).
     rbind (if compressed_size = 0
            then ds_pushStream_raw (self\<lparr>ds_writePos := ds_writePos self - cancelSizeOnCancelCompress\<rparr>) stream
            else Ok (self, stream)) (\<lambda>(self, stream).
     rbind (if \<not> isNullPos update_compress_sizePos then ds_packUInt_update self update_compress_sizePos compressed_size
            else Ok self) (\<lambda>self.
     Ok (if compressed_size = 0 then streamSize stream else compressed_size, self, stream))))))"

section \<open>What is written\<close>

text \<open>A code of a number, whatever its length, that every decoder reads back.\<close>

definition codes :: "byte list \<Rightarrow> nat \<Rightarrow> bool" where
  "codes c v \<longleftrightarrow> (\<forall>e r. unpack_by e (c @ r) 0 = Ok (v, r))"

lemma codes_pack [simp]: "v < 2 ^ 64 \<Longrightarrow> codes (pack_code v 0 0) v"
  by (simp add: codes_def unpack_pack_code)

lemma codes_fixSize:
  assumes "packUInt_fixSize n v = Ok c" "n \<le> 11" "v < 2 ^ 64"
  shows "codes c v"
proof -
  have u: "\<forall>r. hpatch_unpackUInt (c @ r) = Ok (v, r)" "length c = n"
    using packUInt_fixSize_result [of v n] assms(1,3) by auto
  have "hpatch_unpackUIntWithTag (c @ q) 0 = Ok (v, q)" for q using u(1) by (simp add: hpatch_unpackUInt_def)
  moreover have "take hpatch_kMaxPackedUIntBytes (c @ r) = c @ take (hpatch_kMaxPackedUIntBytes - n) r"
    "drop hpatch_kMaxPackedUIntBytes (c @ r) = drop (hpatch_kMaxPackedUIntBytes - n) r" for r
    using u(2) assms(2) by (simp_all add: hpatch_kMaxPackedUIntBytes_def)
  ultimately show ?thesis by (simp add: codes_def unpack_by_def del: take_append drop_append)
qed

lemma pack_size_loop_bound: "v < 128 ^ (pack_size_loop 127 v n + 1 - n) \<and> n \<le> pack_size_loop 127 v n"
proof (induction "127 :: nat" v n rule: pack_size_loop.induct)
  case (1 v n)
  show ?case
  proof (cases "v > 127")
    case False
    then show ?thesis by (simp add: pack_size_loop.simps)
  next
    case True
    then have s: "pack_size_loop 127 v n = pack_size_loop 127 (drop_bit 7 v) (n + 1)" by (simp add: pack_size_loop.simps)
    let ?m = "pack_size_loop 127 (drop_bit 7 v) (n + 1)"
    have ih: "v div 128 < 128 ^ (?m + 1 - (n + 1))" "n + 1 \<le> ?m" using 1 True by (simp_all add: drop_bit_eq_div)
    then have "v < 128 * 128 ^ (?m + 1 - (n + 1))" by (simp add: div_less_iff_less_mult mult.commute)
    also have "\<dots> = 128 ^ Suc (?m + 1 - (n + 1))" by simp
    also have "Suc (?m + 1 - (n + 1)) = ?m + 1 - n" using ih(2) by simp
    finally show ?thesis using s ih(2) by simp
  qed
qed

lemma pack_code_fits: "v < 2 ^ 64 \<Longrightarrow> v < 128 ^ length (pack_code v 0 0)"
  using pack_size_loop_bound [of v 0] by (simp add: length_pack_code hpatch_packUIntWithTag_size_def)

context update_stream begin

text \<open>\<open>c\<close> is written, and \<open>r\<close> is what follows it.\<close>

definition ds_holds :: "'o TDiffStream \<Rightarrow> byte list \<Rightarrow> byte list \<Rightarrow> bool" where
  "ds_holds ds c r \<longleftrightarrow> uok (ds_out_diff ds) \<and> ds_writePos ds = length c \<and> ucont (ds_out_diff ds) = c @ r"

lemma ds_pushBack_result:
  assumes "ds_holds ds c r" "length c + length d < 2 ^ 63"
  shows "\<exists>ds'. ds_pushBack ds d = Ok ds' \<and> ds_holds ds' (c @ d) (drop (length d) r)"
proof (cases "length d = 0")
  case True
  then show ?thesis using assms(1) by (simp add: ds_pushBack_def)
next
  case False
  have h: "uok (ds_out_diff ds)" "ds_writePos ds = length c" "ucont (ds_out_diff ds) = c @ r"
    using assms(1) by (simp_all add: ds_holds_def)
  from update_law [OF h(1), of "length c" d] h(3) False assms(2) obtain st' where
    "swrite (ds_out_diff ds) (length c) d = Ok st'" "uok st'" "ucont st' = c @ d @ drop (length d) r" by auto
  then show ?thesis using False h(2) by (simp add: ds_pushBack_def ds_holds_def)
qed

lemma ds_packUInt_result:
  assumes "ds_holds ds c r" "v < 2 ^ 64" "length c + 11 < 2 ^ 63"
  shows "\<exists>ds'. ds_packUInt ds v = Ok ds' \<and> ds_holds ds' (c @ pack_code v 0 0) (drop (length (pack_code v 0 0)) r)"
  using ds_pushBack_result [OF assms(1), of "pack_code v 0 0"] pack_code(1,3) [OF assms(2), of 0 0] assms(3)
  by (simp add: ds_packUInt_def)

lemma ds_packUInt_pos_result:
  assumes "ds_holds ds c r" "v < 2 ^ 64" "length c + 11 < 2 ^ 63"
  shows "\<exists>ds'. ds_packUInt_pos ds v = Ok (\<lparr>ph_pos = length c, ph_pos_end = length c + length (pack_code v 0 0)\<rparr>, ds') \<and>
    ds_holds ds' (c @ pack_code v 0 0) (drop (length (pack_code v 0 0)) r)"
  using ds_packUInt_result [OF assms] assms(1) by (auto simp: ds_packUInt_pos_def ds_holds_def)

lemma ds_packUInt_update_result:
  assumes "ds_holds ds (a @ old @ b) r" "0 < length old" "length old \<le> 11" "v < 128 ^ length old" "v < 2 ^ 64"
    and "length (a @ old @ b) < 2 ^ 63"
  shows "\<exists>ds' code. ds_packUInt_update ds \<lparr>ph_pos = length a, ph_pos_end = length a + length old\<rparr> v = Ok ds' \<and>
    length code = length old \<and> codes code v \<and> ds_holds ds' (a @ code @ b) r"
proof -
  let ?ds = "ds\<lparr>ds_writePos := length a\<rparr>"
  have h: "ds_holds ?ds a (old @ b @ r)" "ds_writePos ds = length (a @ old @ b)" using assms(1) by (simp_all add: ds_holds_def)
  obtain code where code: "packUInt_fixSize (length old) v = Ok code" "length code = length old"
    using packUInt_fixSize_result [of v "length old"] assms(2,4,5) by (auto split: if_splits)
  have "length a + length code < 2 ^ 63" using code(2) assms(6) by simp
  from ds_pushBack_result [OF h(1) this] obtain ds' where
    ds': "ds_pushBack ?ds code = Ok ds'" "ds_holds ds' (a @ code) (b @ r)" using code(2) by auto
  have "ds_holds (ds'\<lparr>ds_writePos := ds_writePos ds\<rparr>) (a @ code @ b) r" "ds_writePos ds' = length a + length old"
    using ds'(2) h(2) code(2) by (simp_all add: ds_holds_def)
  then show ?thesis using code codes_fixSize [OF code(1) assms(3,5)] ds'(1) assms(3)
    by (auto simp: ds_packUInt_update_def ds_packUInt_limit_def hpatch_kMaxPackedUIntBytes_def Let_def)
qed

text \<open>What a compressor writes goes behind \<open>c\<close>, and stops at the limit.\<close>

definition oc_holds :: "'o TCompressedStream hpatch_TStreamOutput \<Rightarrow> byte list \<Rightarrow> byte list \<Rightarrow> nat \<Rightarrow> byte list \<Rightarrow> nat \<Rightarrow> bool" where
  "oc_holds out c w L r pos \<longleftrightarrow>
     (let s = ostreamImport out in
      o_write out = TCompressedStream_write \<and> uok (oc_out_code s) \<and> ucont (oc_out_code s) = c @ w @ r \<and>
      oc_out_pos s = length c + length w \<and> oc_out_posLimitEnd s = length c + L \<and> oc_writeToPos_back s = pos \<and> length w \<le> L)"

lemma plugin_write_result:
  assumes "oc_holds out c w L r pos" "\<forall>d \<in> set ds. d \<noteq> []" "length c + L < 2 ^ 63" "length (concat ds) < 2 ^ 63"
  shows "\<exists>out' j. plugin_write out pos ds = Ok out' \<and> oc_holds out' c (w @ j) L (drop (length j) r) (pos + length (concat ds)) \<and>
    (\<not> oc_is_overLimit (ostreamImport out') \<longrightarrow> j = concat ds \<and> \<not> oc_is_overLimit (ostreamImport out))"
  using assms
proof (induction ds arbitrary: out w r pos)
  case Nil
  then show ?case by (intro exI [of _ out] exI [of _ "[]"]) simp
next
  case (Cons d ds)
  let ?s = "ostreamImport out"
  have h: "o_write out = TCompressedStream_write" "uok (oc_out_code ?s)" "ucont (oc_out_code ?s) = c @ w @ r"
      "oc_out_pos ?s = length c + length w" "oc_out_posLimitEnd ?s = length c + L" "oc_writeToPos_back ?s = pos" "length w \<le> L"
    using Cons.prems(1) by (simp_all add: oc_holds_def Let_def)
  have d: "d \<noteq> []" "length d < 2 ^ 63" using Cons.prems(2,4) by simp_all
  have a: "add64 (length c + length w) (length d) = length c + length w + length d"
    by (rule add64_eq) (use h(7) Cons.prems(3) d(2) in simp)
  show ?case
  proof (cases "oc_is_overLimit ?s \<or> length w + length d > L")
    case True
    let ?out = "out\<lparr>ostreamImport := ?s\<lparr>oc_writeToPos_back := pos + length d, oc_is_overLimit := True\<rparr>\<rparr>"
    have s: "swrite out pos d = Ok ?out" using True h d a by (auto simp: swrite_def TCompressedStream_write_def Let_def)
    have "oc_holds ?out c w L r (pos + length d)" using h by (simp add: oc_holds_def)
    from Cons.IH [OF this] Cons.prems obtain out' j where
      "plugin_write ?out (pos + length d) ds = Ok out'" "oc_holds out' c (w @ j) L (drop (length j) r) (pos + length d + length (concat ds))"
      "\<not> oc_is_overLimit (ostreamImport out') \<longrightarrow> False" by auto
    then show ?thesis using s by (auto simp: add.assoc)
  next
    case False
    have "\<exists>st'. swrite (oc_out_code ?s) (length c + length w) d = Ok st' \<and> uok st' \<and> ucont st' = c @ w @ d @ drop (length d) r"
      using update_law [OF h(2), of "length c + length w" d] h(3) d False Cons.prems(3) by simp
    then obtain st' where st': "swrite (oc_out_code ?s) (length c + length w) d = Ok st'" "uok st'"
        "ucont st' = c @ w @ d @ drop (length d) r" by blast
    let ?out = "out\<lparr>ostreamImport := ?s\<lparr>oc_writeToPos_back := pos + length d, oc_out_code := st',
        oc_out_pos := length c + length w + length d\<rparr>\<rparr>"
    have s: "swrite out pos d = Ok ?out" using False h d a st'(1) by (simp add: swrite_def TCompressedStream_write_def Let_def)
    have "oc_holds ?out c (w @ d) L (drop (length d) r) (pos + length d)" using h st' False by (simp add: oc_holds_def)
    from Cons.IH [OF this] Cons.prems obtain out' j where
      "plugin_write ?out (pos + length d) ds = Ok out'"
      "oc_holds out' c ((w @ d) @ j) L (drop (length j) (drop (length d) r)) (pos + length d + length (concat ds))"
      "\<not> oc_is_overLimit (ostreamImport out') \<longrightarrow> j = concat ds \<and> \<not> oc_is_overLimit ?s" by auto
    then show ?thesis using s by (intro exI [of _ out'] exI [of _ "d @ j"]) (auto simp: ac_simps)
  qed
qed

end

text \<open>A section of a diff: \<open>n\<close> is the size of the compressed data, or 0 if it is not compressed.\<close>

definition section_ok :: "(nat \<Rightarrow> byte list \<Rightarrow> byte list option) \<Rightarrow> byte list \<Rightarrow> nat \<Rightarrow> byte list \<Rightarrow> bool" where
  "section_ok unz data n sec \<longleftrightarrow>
     n = 0 \<and> sec = data \<or> 0 < n \<and> n = length sec \<and> n < length data \<and> unz (length data) sec = Some data"

lemma section_ok_size: "section_ok unz data n sec \<Longrightarrow> length sec = (if n = 0 then length data else n) \<and> n \<le> length data \<and> length sec \<le> length data"
  by (auto simp: section_ok_def)

locale push_streams = i: replay_stream rsok whole + u: update_stream uok ucont
  for rsok :: "'s hpatch_TStreamInput \<Rightarrow> nat \<Rightarrow> bool" and whole
    and uok :: "'o hpatch_TStreamOutput \<Rightarrow> bool" and ucont
begin

lemma ds_push_loop_result:
  "rsok st pos \<Longrightarrow> pos \<le> length (whole st) \<Longrightarrow> u.ds_holds ds c r \<Longrightarrow> length c + (length (whole st) - pos) < 2 ^ 63 \<Longrightarrow>
   \<exists>ds' st'. ds_push_loop ds st (streamSize st) pos = Ok (ds', st') \<and>
     u.ds_holds ds' (c @ drop pos (whole st)) (drop (length (whole st) - pos) r) \<and> rsok st' 0 \<and> whole st' = whole st"
proof (induction "length (whole st) - pos" arbitrary: ds c r st pos rule: less_induct)
  case less
  have sz: "streamSize st = length (whole st)" using i.whole_size [OF less.prems(1)] by simp
  show ?case
  proof (cases "pos < length (whole st)")
    case False
    then show ?thesis using less.prems sz i.replay_again by (auto simp: ds_push_loop.simps)
  next
    case True
    define len where "len = (if ds_kBufSize + pos > length (whole st) then length (whole st) - pos else ds_kBufSize)"
    have len: "0 < len" "pos + len \<le> length (whole st)" using True by (auto simp: len_def ds_kBufSize_def)
    let ?d = "take len (drop pos (whole st))"
    obtain st1 where st1: "sread st pos len = Ok (?d, st1)" "rsok st1 (pos + len)" "whole st1 = whole st"
      using i.replay_law [OF less.prems(1) len] by blast
    have sz1: "streamSize st1 = length (whole st)" using i.whole_size [OF st1(2)] st1(3) by simp
    have dl: "length ?d = len" using len by simp
    have "length c + length ?d < 2 ^ 63" using dl len less.prems(4) by linarith
    from u.ds_pushBack_result [OF less.prems(3) this] obtain ds1 where
      ds1: "ds_pushBack ds ?d = Ok ds1" "u.ds_holds ds1 (c @ ?d) (drop len r)" unfolding dl by blast
    have m: "length (whole st1) - (pos + len) < length (whole st) - pos" "pos + len \<le> length (whole st1)"
      "length (c @ ?d) + (length (whole st1) - (pos + len)) < 2 ^ 63" using len st1(3) less.prems(4) dl by auto
    from less.hyps [OF m(1) st1(2) m(2) ds1(2) m(3)] obtain ds' st' where
      r: "ds_push_loop ds1 st1 (length (whole st)) (pos + len) = Ok (ds', st')"
        "u.ds_holds ds' ((c @ ?d) @ drop (pos + len) (whole st)) (drop (length (whole st) - (pos + len)) (drop len r))"
        "rsok st' 0" "whole st' = whole st" unfolding sz1 st1(3) by blast
    have "?d @ drop (pos + len) (whole st) = drop pos (whole st)"
      by (metis add.commute append_take_drop_id drop_drop)
    moreover have "length (whole st) - (pos + len) + len = length (whole st) - pos" using len by simp
    ultimately have "u.ds_holds ds' (c @ drop pos (whole st)) (drop (length (whole st) - pos) r)" using r(2) by simp
    then show ?thesis using True st1(1) ds1(1) r(1,3,4) sz
      by (simp add: ds_push_loop.simps [of ds st "length (whole st)" pos] Let_def len_def [symmetric])
  qed
qed

lemma ds_pushStream_raw_result:
  "rsok st 0 \<Longrightarrow> u.ds_holds ds c r \<Longrightarrow> length c + length (whole st) < 2 ^ 63 \<Longrightarrow>
   \<exists>ds' st'. ds_pushStream_raw ds st = Ok (ds', st') \<and> u.ds_holds ds' (c @ whole st) (drop (length (whole st)) r) \<and>
     rsok st' 0 \<and> whole st' = whole st"
  using ds_push_loop_result [of st 0 ds c r] by (simp add: ds_pushStream_raw_def)

lemma hdiff_compress_result:
  assumes "rsok st 0" "compress_ok P unz" "u.ds_holds ds c r" "length c + L < 2 ^ 63"
    and small: "length (whole st) < 2 ^ 62"
  shows "\<exists>n out' st' j. hdiff_compress P (TCompressedStream_make (ds_out_diff ds) (ds_writePos ds) L) st = Ok (n, out', st') \<and>
    rsok st' 0 \<and> whole st' = whole st \<and> length j \<le> L \<and>
    u.ds_holds (ds\<lparr>ds_out_diff := oc_out_code (ostreamImport out')\<rparr>) c (j @ drop (length j) r) \<and>
    (\<not> oc_is_overLimit (ostreamImport out') \<and> n \<noteq> 0 \<longrightarrow> n = length j \<and> unz (length (whole st)) j = Some (whole st))"
proof -
  let ?out = "TCompressedStream_make (ds_out_diff ds) (ds_writePos ds) L"
  obtain pieces n where code: "cp_code P (whole st) = (pieces, n)" by fastforce
  have P: "0 < cp_bufSize P" "\<forall>d \<in> set pieces. d \<noteq> []"
      "0 < n \<Longrightarrow> n = length (concat pieces) \<and> unz (length (whole st)) (concat pieces) = Some (whole st)"
      "length (concat pieces) < 2 ^ 63"
    using assms(2) code small unfolding compress_ok_def by (auto split: prod.splits)
  obtain st' where st': "plugin_read (cp_bufSize P) [] st (streamSize st) 0 = Ok (whole st, st')" "rsok st' 0" "whole st' = whole st"
    using i.plugin_read_result [OF assms(1) _ P(1), of "[]"] by auto
  have "add64 (length c) L = length c + L" by (rule add64_eq) (use assms(4) in simp)
  then have oc: "u.oc_holds ?out c [] L r 0" using assms(3)
    by (simp add: u.oc_holds_def u.ds_holds_def TCompressedStream_make_def Let_def)
  from u.plugin_write_result [OF oc P(2) assms(4) P(4)] obtain out' j where
    w: "plugin_write ?out 0 pieces = Ok out'" "u.oc_holds out' c j L (drop (length j) r) (length (concat pieces))"
      "\<not> oc_is_overLimit (ostreamImport out') \<longrightarrow> j = concat pieces" by auto
  have "u.ds_holds (ds\<lparr>ds_out_diff := oc_out_code (ostreamImport out')\<rparr>) c (j @ drop (length j) r)" "length j \<le> L"
    using w(2) assms(3) by (simp_all add: u.oc_holds_def u.ds_holds_def Let_def)
  then show ?thesis using st' code w(1,3) P(3) by (auto simp: hdiff_compress_def)
qed

text \<open>Pushing a stream, with the placeholder of its compressed size filled in.\<close>

lemma ds_pushStream_result:
  assumes st: "rsok st 0" and ds: "u.ds_holds ds (a @ old @ b) r"
    and old: "old = pack_code (if P = None then 0 else length (whole st)) 0 0"
    and P: "\<And>p. P = Some p \<Longrightarrow> compress_ok p unz"
    and small: "length (a @ old @ b) + length (whole st) < 2 ^ 62" and pos: "0 < length a"
  shows "\<exists>m ds' st' n code sec. ds_pushStream ds st P \<lparr>ph_pos = length a, ph_pos_end = length a + length old\<rparr> False 0 = Ok (m, ds', st') \<and>
    codes code n \<and> length code = length old \<and> section_ok unz (whole st) n sec \<and> (P = None \<longrightarrow> n = 0) \<and>
    u.ds_holds ds' (a @ code @ b @ sec) (drop (length sec) r) \<and> rsok st' 0 \<and> whole st' = whole st"
proof -
  let ?c = "a @ old @ b" and ?w = "whole st" and ?ph = "\<lparr>ph_pos = length a, ph_pos_end = length a + length old\<rparr>"
  have sz: "streamSize st = length ?w" using i.whole_size [OF st] by simp
  have raw: "\<exists>ds1 st1. ds_pushStream_raw ds0 st0 = Ok (ds1, st1) \<and> u.ds_holds ds1 (?c @ ?w) (drop (length ?w) r) \<and> rsok st1 0 \<and> whole st1 = ?w"
    if "u.ds_holds ds0 ?c (j @ drop (length j) r)" "rsok st0 0" "whole st0 = ?w" "length j \<le> length ?w" for ds0 st0 j
    using ds_pushStream_raw_result [OF that(2,1)] small that(3,4) by simp
  define good where "good n ds0 st0 ds1 st1 sec \<longleftrightarrow> (if n = 0 then ds_pushStream_raw ds0 st0 else Ok (ds0, st0)) = Ok (ds1, st1) \<and>
      section_ok unz ?w n sec \<and> (P = None \<longrightarrow> n = 0) \<and> u.ds_holds ds1 (?c @ sec) (drop (length sec) r) \<and> rsok st1 0 \<and> whole st1 = ?w"
    for n ds0 st0 ds1 st1 sec
  have "\<exists>n ds0 st0 ds1 st1 sec. ds_try_compress ds st P False 0 = Ok (n, ds0, st0) \<and> good n ds0 st0 ds1 st1 sec"
  proof (cases "P = None \<or> length ?w = 0")
    case True
    from raw [of ds "[]" st] ds st obtain ds1 st1 where
      r: "ds_pushStream_raw ds st = Ok (ds1, st1)" "u.ds_holds ds1 (?c @ ?w) (drop (length ?w) r)" "rsok st1 0" "whole st1 = ?w" by auto
    have "ds_try_compress ds st P False 0 = Ok (0, ds, st)" using True sz by (auto simp: ds_try_compress_def split: option.split)
    moreover have "good 0 ds st ds1 st1 ?w" using r by (simp add: good_def section_ok_def)
    ultimately show ?thesis by blast
  next
    case False
    then obtain p where p: "P = Some p" and w: "1 \<le> length ?w" by (auto simp: Suc_le_eq)
    let ?L = "length ?w - 1"
    have pp: "compress_ok p unz" "length ?w < 2 ^ 62" using P [OF p] small by auto
    have "length ?c + ?L < 2 ^ 63" using small by simp
    from hdiff_compress_result [OF st pp(1) ds this pp(2)] obtain n out' st0 j where
      h: "hdiff_compress p (TCompressedStream_make (ds_out_diff ds) (ds_writePos ds) ?L) st = Ok (n, out', st0)"
        "rsok st0 0" "whole st0 = ?w" "length j \<le> ?L"
        "u.ds_holds (ds\<lparr>ds_out_diff := oc_out_code (ostreamImport out')\<rparr>) ?c (j @ drop (length j) r)"
        "\<not> oc_is_overLimit (ostreamImport out') \<and> n \<noteq> 0 \<longrightarrow> n = length j \<and> unz (length ?w) j = Some ?w" by blast
    let ?ds0 = "ds\<lparr>ds_out_diff := oc_out_code (ostreamImport out')\<rparr>"
    let ?give_up = "oc_is_overLimit (ostreamImport out') \<or> n = 0 \<or> n > ?L"
    have attempt: "ds_try_compress ds st P False 0 =
        Ok (if ?give_up then (0, ?ds0, st0) else (n, ?ds0\<lparr>ds_writePos := ds_writePos ?ds0 + n\<rparr>, st0))"
      using h(1) p w sz by (simp add: ds_try_compress_def Let_def)
    show ?thesis
    proof (cases ?give_up)
      case True
      have "length j \<le> length ?w" using h(4) by simp
      from raw [OF h(5,2,3) this] obtain ds1 st1 where
        "ds_pushStream_raw ?ds0 st0 = Ok (ds1, st1)" "u.ds_holds ds1 (?c @ ?w) (drop (length ?w) r)" "rsok st1 0" "whole st1 = ?w" by blast
      then have "good 0 ?ds0 st0 ds1 st1 ?w" by (simp add: good_def section_ok_def)
      moreover have "ds_try_compress ds st P False 0 = Ok (0, ?ds0, st0)" using attempt by (simp only: True if_True)
      ultimately show ?thesis by blast
    next
      case False
      then have n: "n = length j" "unz (length ?w) j = Some ?w" "0 < n" "n \<le> ?L" using h(6) by auto
      let ?ds1 = "?ds0\<lparr>ds_writePos := ds_writePos ?ds0 + n\<rparr>"
      have "u.ds_holds ?ds1 (?c @ j) (drop (length j) r)" using h(5) n(1) by (simp add: u.ds_holds_def)
      moreover have "section_ok unz ?w n j" using n w by (auto simp: section_ok_def)
      ultimately have "good n ?ds1 st0 ?ds1 st0 j" using n(3) p h(2,3) by (simp add: good_def)
      moreover have "ds_try_compress ds st P False 0 = Ok (n, ?ds1, st0)" using attempt by (simp only: False if_False)
      ultimately show ?thesis by blast
    qed
  qed
  then obtain n ds0 st0 ds1 st1 sec where attempt: "ds_try_compress ds st P False 0 = Ok (n, ds0, st0)"
      "(if n = 0 then ds_pushStream_raw ds0 st0 else Ok (ds0, st0)) = Ok (ds1, st1)"
    and inner: "section_ok unz ?w n sec" "P = None \<longrightarrow> n = 0"
      "u.ds_holds ds1 (a @ old @ (b @ sec)) (drop (length sec) r)" "rsok st1 0" "whole st1 = ?w"
    unfolding good_def by auto
  have w64: "length ?w < 2 ^ 64" "n \<le> length ?w" "length sec \<le> length ?w"
    using small section_ok_size [OF inner(1)] by auto
  have on: "0 < length old" "length old \<le> 11" "n < 128 ^ length old"
    using pack_code_not_Nil pack_code(3) pack_code_fits [of "if P = None then 0 else length ?w"] w64(1,2) inner(2)
    unfolding old by (auto split: if_splits)
  have "length (a @ old @ b @ sec) < 2 ^ 63" "n < 2 ^ 64" using small w64 by auto
  from u.ds_packUInt_update_result [OF inner(3) on this(2,1)] obtain ds' code where
    up: "ds_packUInt_update ds1 ?ph n = Ok ds'" "length code = length old" "codes code n" "u.ds_holds ds' (a @ code @ b @ sec) (drop (length sec) r)"
    by blast
  have "streamSize st1 = length ?w" using i.whole_size [OF inner(4)] inner(5) by simp
  then have "ds_pushStream ds st P ?ph False 0 = Ok (if n = 0 then length ?w else n, ds', st1)"
    using attempt up(1) pos by (auto simp: ds_pushStream_def isNullPos_def split: if_splits)
  then show ?thesis using inner up by blast
qed

end

end
