(* ===== verification/DiffzSave.thy ===== *)
theory DiffzSave
  imports DiffStream Diffz
begin

text \<open>
  Writing a compressed diff: the stream of the codes of the covers (\<open>TCoversStream\<close> of
  \<open>stream_serialize.cpp\<close>) and \<open>serialize_compressed_diff\<close> of \<open>diff.cpp\<close>.
\<close>

section \<open>The codes of the covers\<close>

definition tc_kCodeBufSize :: nat where
  "tc_kCodeBufSize = 1024 * 512"

record TCoversStream =
  tc_covers :: "hpatch_TCover list"
  tc_code_mem :: "byte list"
  tc_curCodePos :: nat
  tc_curCodePos_end :: nat
  tc_readedCoverCount :: nat
  tc_lastOldEnd :: nat
  tc_lastNewEnd :: nat
  tc_readFromPos_back :: nat

text \<open>\<open>hpatch_packUIntWithTag(&dst,dst_end,\<dots>)\<close> with its result ignored: a code that does not fit is left out.\<close>

definition push_code :: "nat \<Rightarrow> byte list \<Rightarrow> nat \<Rightarrow> nat \<Rightarrow> nat \<Rightarrow> byte list res" where
  "push_code bufSize dst uValue highTag kTagBit =
     (case hpatch_packUIntWithTag (bufSize - length dst) uValue highTag kTagBit of
        Ok code \<Rightarrow> Ok (dst @ code) | Fail \<Rightarrow> Ok dst | Fault \<Rightarrow> Fault)"

definition private_packCover :: "nat \<Rightarrow> byte list \<Rightarrow> hpatch_TCover \<Rightarrow> nat \<Rightarrow> nat \<Rightarrow> byte list res" where
  "private_packCover bufSize dst cover lastOldEnd newEnd =
     rbind (if oldPos cover \<ge> lastOldEnd then push_code bufSize dst (oldPos cover - lastOldEnd) 0 1
            else push_code bufSize dst (lastOldEnd - oldPos cover) 1 1) (\<lambda>dst.
     rbind (push_code bufSize dst (sub64 (newPos cover) newEnd) 0 0) (\<lambda>dst.
     push_code bufSize dst (coverLength cover) 0 0))"

text \<open>Filling the buffer: the code, the index of the next cover and the ends of the last one.\<close>

function covers_fill :: "hpatch_TCover list \<Rightarrow> nat \<Rightarrow> byte list \<Rightarrow> nat \<Rightarrow> nat \<Rightarrow> (byte list \<times> nat \<times> nat \<times> nat) res" where
  "covers_fill covers cur_index code lastOldEnd newEnd =
     (if tc_kCodeBufSize - length code \<ge> hpatch_kMaxPackedUIntBytes * 3 \<and> cur_index < length covers then
        let cover = covers ! cur_index in
        rbind (private_packCover tc_kCodeBufSize code cover lastOldEnd newEnd) (\<lambda>code.
        covers_fill covers (cur_index + 1) code (add64 (oldPos cover) (coverLength cover)) (add64 (newPos cover) (coverLength cover)))
      else Ok (code, cur_index, lastOldEnd, newEnd))"
  by pat_completeness auto
termination
  by (relation "measure (\<lambda>(cs, i, b, p, q). length cs - i)") auto

declare covers_fill.simps [simp del]

lemma covers_fill_index: "covers_fill cs i code lo ln = Ok (code', i', lo', ln') \<Longrightarrow> i \<le> i' \<and> (i' \<le> length cs \<or> i' = i)"
proof (induction cs i code lo ln rule: covers_fill.induct)
  case (1 cs i code lo ln)
  show ?case
  proof (cases "tc_kCodeBufSize - length code \<ge> hpatch_kMaxPackedUIntBytes * 3 \<and> i < length cs")
    case True
    with "1.prems" obtain code1 where "private_packCover tc_kCodeBufSize code (cs ! i) lo ln = Ok code1"
      "covers_fill cs (i + 1) code1 (add64 (oldPos (cs ! i)) (coverLength (cs ! i))) (add64 (newPos (cs ! i)) (coverLength (cs ! i)))
         = Ok (code', i', lo', ln')"
      by (subst (asm) covers_fill.simps) (auto simp: Let_def rbind_eq_Ok)
    from "1.IH" [OF True refl this] True show ?thesis by auto
  next
    case False
    with "1.prems" show ?thesis by (simp add: covers_fill.simps [of cs i])
  qed
qed

lemma covers_fill_advances:
  assumes "covers_fill cs i [] lo ln = Ok (code', i', lo', ln')" "i < length cs"
  shows "length cs - i' < length cs - i"
proof -
  have "tc_kCodeBufSize - length ([] :: byte list) \<ge> hpatch_kMaxPackedUIntBytes * 3 \<and> i < length cs"
    using assms(2) by (simp add: tc_kCodeBufSize_def hpatch_kMaxPackedUIntBytes_def)
  with assms(1) obtain code1 lo1 ln1 where "covers_fill cs (i + 1) code1 lo1 ln1 = Ok (code', i', lo', ln')"
    by (subst (asm) covers_fill.simps) (auto simp: Let_def rbind_eq_Ok)
  from covers_fill_index [OF this] assms(2) show ?thesis by auto
qed

function coversStream_loop :: "TCoversStream \<Rightarrow> nat \<Rightarrow> (byte list \<times> TCoversStream) res" where
  "coversStream_loop self out_len =
     (if 0 < out_len then
        let curLen = tc_curCodePos_end self - tc_curCodePos self in
        if curLen > 0 then
          let readLen = (if out_len > curLen then curLen else out_len) in
          rbind (mem_read (tc_code_mem self) (tc_curCodePos self) readLen) (\<lambda>d.
          rbind (coversStream_loop (self\<lparr>tc_curCodePos := tc_curCodePos self + readLen\<rparr>) (out_len - readLen)) (\<lambda>(r, self).
          Ok (d @ r, self)))
        else
          let cur_index = tc_readedCoverCount self in
          rbind (check (\<not> cur_index \<ge> length (tc_covers self))) (\<lambda>_.
          rbind (covers_fill (tc_covers self) cur_index [] (tc_lastOldEnd self) (tc_lastNewEnd self))
            (\<lambda>(code, cur_index, lastOldEnd, newEnd).
          coversStream_loop (self\<lparr>tc_code_mem := code, tc_lastOldEnd := lastOldEnd, tc_lastNewEnd := newEnd,
                                  tc_readedCoverCount := cur_index, tc_curCodePos := 0, tc_curCodePos_end := length code\<rparr>) out_len))
      else Ok ([], self))"
  by pat_completeness auto
termination
  by (relation "measures [snd, \<lambda>(self, n). length (tc_covers self) - tc_readedCoverCount self]")
    (auto simp: check_def split: if_splits dest: covers_fill_advances)

declare coversStream_loop.simps [simp del]

definition coversStream_read :: "TCoversStream \<Rightarrow> nat \<Rightarrow> nat \<Rightarrow> nat \<Rightarrow> (byte list \<times> TCoversStream) res" where
  "coversStream_read self streamSz readFromPos len =
     rbind (if readFromPos = 0 then
              Ok (self\<lparr>tc_curCodePos := 0, tc_curCodePos_end := 0, tc_lastOldEnd := 0, tc_lastNewEnd := 0,
                       tc_readedCoverCount := 0\<rparr>)
            else rbind (check (tc_readFromPos_back self = readFromPos)) (\<lambda>_. Ok self)) (\<lambda>self.
     coversStream_loop (self\<lparr>tc_readFromPos_back := readFromPos + len\<rparr>) len)"

definition TCoversStream_make :: "hpatch_TCover list \<Rightarrow> nat \<Rightarrow> TCoversStream hpatch_TStreamInput res" where
  "TCoversStream_make covers cover_buf_size =
     rbind (require (tc_kCodeBufSize \<ge> hpatch_kMaxPackedUIntBytes * 3)) (\<lambda>_.
     Ok \<lparr>streamImport = \<lparr>tc_covers = covers, tc_code_mem = [], tc_curCodePos = 0, tc_curCodePos_end = 0,
           tc_readedCoverCount = 0, tc_lastOldEnd = 0, tc_lastNewEnd = 0, tc_readFromPos_back = 0\<rparr>,
         streamSize = cover_buf_size, read = coversStream_read\<rparr>)"

text \<open>\<open>getDataSize\<close> runs the same macro on sizes.\<close>

fun coversStream_getDataSize_from :: "hpatch_TCover list \<Rightarrow> nat \<Rightarrow> nat \<Rightarrow> nat \<Rightarrow> nat res" where
  "coversStream_getDataSize_from [] lastOldEnd newEnd cover_buf_size = Ok cover_buf_size"
| "coversStream_getDataSize_from (cover # covers) lastOldEnd newEnd cover_buf_size =
     rbind (require (newPos cover \<ge> newEnd)) (\<lambda>_.
     let sz = cover_buf_size +
           (if oldPos cover \<ge> lastOldEnd then hpatch_packUIntWithTag_size (oldPos cover - lastOldEnd) 1
            else hpatch_packUIntWithTag_size (lastOldEnd - oldPos cover) 1);
         sz = sz + hpatch_packUIntWithTag_size (newPos cover - newEnd) 0;
         sz = sz + hpatch_packUIntWithTag_size (coverLength cover) 0 in
     coversStream_getDataSize_from covers (add64 (oldPos cover) (coverLength cover)) (add64 (newPos cover) (coverLength cover)) sz)"

definition coversStream_getDataSize :: "hpatch_TCover list \<Rightarrow> nat res" where
  "coversStream_getDataSize covers = coversStream_getDataSize_from covers 0 0 0"

section \<open>What the stream holds\<close>

definition inc_code :: "nat \<Rightarrow> nat \<Rightarrow> byte list" where
  "inc_code op lastOldEnd = (if op \<ge> lastOldEnd then pack_code (op - lastOldEnd) 0 1 else pack_code (lastOldEnd - op) 1 1)"

fun cover_code :: "hpatch_TCover list \<Rightarrow> nat \<Rightarrow> nat \<Rightarrow> byte list" where
  "cover_code [] lastOldEnd newEnd = []"
| "cover_code (c # cs) lastOldEnd newEnd =
     (inc_code (oldPos c) lastOldEnd @ pack_code (newPos c - newEnd) 0 0 @ pack_code (coverLength c) 0 0) @
     cover_code cs (oldPos c + coverLength c) (newPos c + coverLength c)"

lemma inc_code_length: "op < 2 ^ 64 \<Longrightarrow> lo < 2 ^ 64 \<Longrightarrow> 0 < length (inc_code op lo) \<and> length (inc_code op lo) \<le> 11"
  using pack_code(3) [of "op - lo" 0 1] pack_code(3) [of "lo - op" 1 1] pack_code_not_Nil [of "op - lo" 0 1] pack_code_not_Nil [of "lo - op" 1 1]
  by (auto simp: inc_code_def)

lemma pack_any_room:
  "hpatch_packUIntWithTag n v tag t = Ok a \<Longrightarrow> hpatch_packUIntWithTag m v tag t = Ok b \<Longrightarrow> a = b"
  by (auto simp: hpatch_packUIntWithTag_def Let_def rbind_eq_Ok)

lemma push_code_result:
  assumes "v < 2 ^ 64" "tag < 2 ^ t" "t \<le> 7" "length dst + 11 \<le> n"
  shows "push_code n dst v tag t = Ok (dst @ pack_code v tag t)"
proof -
  obtain bs where "length bs \<le> 11" "hpatch_packUIntWithTag (n - length dst) v tag t = (if length bs \<le> n - length dst then Ok bs else Fail)"
    using packUIntWithTag_result [OF assms(1-3)] by metis
  then have "hpatch_packUIntWithTag (n - length dst) v tag t = Ok bs" using assms(4) by simp
  moreover from pack_any_room [OF this pack_code(1) [OF assms(1-3)]] have "bs = pack_code v tag t" .
  ultimately show ?thesis by (simp add: push_code_def)
qed

lemma private_packCover_result:
  assumes "newPos c < 2 ^ 64" "coverLength c < 2 ^ 64" "oldPos c < 2 ^ 64" "lo < 2 ^ 64" "ln \<le> newPos c" "length dst + 33 \<le> n"
  shows "private_packCover n dst c lo ln =
    Ok (dst @ inc_code (oldPos c) lo @ pack_code (newPos c - ln) 0 0 @ pack_code (coverLength c) 0 0)"
proof -
  have b: "newPos c - ln < 2 ^ 64" "oldPos c - lo < 2 ^ 64" "lo - oldPos c < 2 ^ 64" using assms by simp_all
  have l: "length (inc_code (oldPos c) lo) \<le> 11" "length (pack_code (newPos c - ln) 0 0) \<le> 11"
    using inc_code_length [OF assms(3,4)] pack_code(3) [OF b(1), of 0 0] by simp_all
  have 1: "(if oldPos c \<ge> lo then push_code n dst (oldPos c - lo) 0 1 else push_code n dst (lo - oldPos c) 1 1)
      = Ok (dst @ inc_code (oldPos c) lo)"
    using push_code_result [OF b(2), of 0 1 dst n] push_code_result [OF b(3), of 1 1 dst n] assms(6) by (simp add: inc_code_def)
  have 2: "push_code n (dst @ inc_code (oldPos c) lo) (newPos c - ln) 0 0 = Ok ((dst @ inc_code (oldPos c) lo) @ pack_code (newPos c - ln) 0 0)"
    by (rule push_code_result) (use b l assms(6) in auto)
  have 3: "push_code n ((dst @ inc_code (oldPos c) lo) @ pack_code (newPos c - ln) 0 0) (coverLength c) 0 0
      = Ok (((dst @ inc_code (oldPos c) lo) @ pack_code (newPos c - ln) 0 0) @ pack_code (coverLength c) 0 0)"
    by (rule push_code_result) (use assms(2,6) l in auto)
  show ?thesis using 1 2 3 assms(1,5) by (simp add: private_packCover_def sub64_eq)
qed

text \<open>The ends of the last cover, from which the codes go on.\<close>

definition ends_ok :: "hpatch_TCover list \<Rightarrow> nat \<Rightarrow> nat \<Rightarrow> nat \<Rightarrow> nat \<Rightarrow> nat \<Rightarrow> bool" where
  "ends_ok cs i lo ln n m \<longleftrightarrow> i \<le> length cs \<and> covers_fit (drop i cs) ln n m \<and> lo \<le> m \<and> n < 2 ^ 64 \<and> m < 2 ^ 64"

lemma ends_ok_step:
  assumes "ends_ok cs i lo ln n m" "i < length cs"
  shows "drop i cs = cs ! i # drop (i + 1) cs" "ln \<le> newPos (cs ! i)" "newPos (cs ! i) + coverLength (cs ! i) \<le> n"
    "oldPos (cs ! i) + coverLength (cs ! i) \<le> m"
    "ends_ok cs (i + 1) (oldPos (cs ! i) + coverLength (cs ! i)) (newPos (cs ! i) + coverLength (cs ! i)) n m"
proof -
  show d: "drop i cs = cs ! i # drop (i + 1) cs" using assms(2) by (simp add: Cons_nth_drop_Suc)
  from assms(1) show "ln \<le> newPos (cs ! i)" "newPos (cs ! i) + coverLength (cs ! i) \<le> n" "oldPos (cs ! i) + coverLength (cs ! i) \<le> m"
    "ends_ok cs (i + 1) (oldPos (cs ! i) + coverLength (cs ! i)) (newPos (cs ! i) + coverLength (cs ! i)) n m"
    using assms(2) unfolding ends_ok_def d by auto
qed

lemma covers_fill_result:
  "ends_ok cs i lo ln n m \<Longrightarrow>
   \<exists>code' i' lo' ln'. covers_fill cs i code lo ln = Ok (code @ code', i', lo', ln') \<and> ends_ok cs i' lo' ln' n m \<and>
     cover_code (drop i cs) lo ln = code' @ cover_code (drop i' cs) lo' ln'"
proof (induction cs i code lo ln rule: covers_fill.induct)
  case (1 cs i code lo ln)
  show ?case
  proof (cases "tc_kCodeBufSize - length code \<ge> hpatch_kMaxPackedUIntBytes * 3 \<and> i < length cs")
    case False
    then have "covers_fill cs i code lo ln = Ok (code @ [], i, lo, ln)" by (auto simp: covers_fill.simps [of cs i])
    then show ?thesis using "1.prems" by (intro exI [of _ "[]"]) auto
  next
    case True
    let ?c = "cs ! i"
    let ?code = "inc_code (oldPos ?c) lo @ pack_code (newPos ?c - ln) 0 0 @ pack_code (coverLength ?c) 0 0"
    note st = ends_ok_step [OF "1.prems" True [THEN conjunct2]]
    have nm: "n < 2 ^ 64" "m < 2 ^ 64" "lo \<le> m" using "1.prems" by (simp_all add: ends_ok_def)
    have pk: "private_packCover tc_kCodeBufSize code ?c lo ln = Ok (code @ ?code)"
      by (rule private_packCover_result) (use st nm True in \<open>auto simp: hpatch_kMaxPackedUIntBytes_def\<close>)
    have a: "add64 (oldPos ?c) (coverLength ?c) = oldPos ?c + coverLength ?c" "add64 (newPos ?c) (coverLength ?c) = newPos ?c + coverLength ?c"
      using st nm by (auto intro: add64_eq)
    from "1.IH" [OF True refl pk, unfolded a, OF st(5)] obtain code' i' lo' ln' where
      "covers_fill cs (i + 1) (code @ ?code) (oldPos ?c + coverLength ?c) (newPos ?c + coverLength ?c) = Ok ((code @ ?code) @ code', i', lo', ln')"
      "ends_ok cs i' lo' ln' n m"
      "cover_code (drop (i + 1) cs) (oldPos ?c + coverLength ?c) (newPos ?c + coverLength ?c) = code' @ cover_code (drop i' cs) lo' ln'"
      by blast
    moreover have "covers_fill cs i code lo ln =
        covers_fill cs (i + 1) (code @ ?code) (oldPos ?c + coverLength ?c) (newPos ?c + coverLength ?c)"
      using True pk a by (simp add: covers_fill.simps [of cs i] Let_def)
    ultimately show ?thesis unfolding st(1) by (intro exI [of _ "?code @ code'"]) auto
  qed
qed

definition tc_at :: "TCoversStream \<Rightarrow> nat \<Rightarrow> nat \<Rightarrow> byte list \<Rightarrow> bool" where
  "tc_at self n m d \<longleftrightarrow>
     tc_curCodePos self \<le> tc_curCodePos_end self \<and> tc_curCodePos_end self \<le> length (tc_code_mem self) \<and>
     ends_ok (tc_covers self) (tc_readedCoverCount self) (tc_lastOldEnd self) (tc_lastNewEnd self) n m \<and>
     d = take (tc_curCodePos_end self - tc_curCodePos self) (drop (tc_curCodePos self) (tc_code_mem self)) @
       cover_code (drop (tc_readedCoverCount self) (tc_covers self)) (tc_lastOldEnd self) (tc_lastNewEnd self)"

lemma coversStream_loop_result:
  "tc_at self n m d \<Longrightarrow> k \<le> length d \<Longrightarrow>
   \<exists>self'. coversStream_loop self k = Ok (take k d, self') \<and> tc_at self' n m (drop k d) \<and>
     tc_covers self' = tc_covers self \<and> tc_readFromPos_back self' = tc_readFromPos_back self"
proof (induction self k arbitrary: d rule: coversStream_loop.induct)
  case (1 self k)
  let ?cur = "tc_curCodePos_end self - tc_curCodePos self" and ?mem = "tc_code_mem self" and ?p = "tc_curCodePos self"
  have at: "?p \<le> tc_curCodePos_end self" "tc_curCodePos_end self \<le> length ?mem"
      "ends_ok (tc_covers self) (tc_readedCoverCount self) (tc_lastOldEnd self) (tc_lastNewEnd self) n m"
      "d = take ?cur (drop ?p ?mem) @ cover_code (drop (tc_readedCoverCount self) (tc_covers self)) (tc_lastOldEnd self) (tc_lastNewEnd self)"
    using "1.prems"(1) by (simp_all add: tc_at_def)
  show ?case
  proof (cases "0 < k")
    case False
    then show ?thesis using "1.prems"(1) by (simp add: coversStream_loop.simps [of self])
  next
    case k: True
    show ?thesis
    proof (cases "?cur > 0")
      case True
      define len where "len = (if k > ?cur then ?cur else k)"
      have len: "0 < len" "len \<le> k" "len \<le> ?cur" using True k by (auto simp: len_def)
      have rd: "mem_read ?mem ?p len = Ok (take len d)" using at(1,2,4) len(3) by (simp add: mem_read_def)
      let ?s = "self\<lparr>tc_curCodePos := ?p + len\<rparr>"
      have at': "tc_at ?s n m (drop len d)" unfolding tc_at_def using at len by (simp add: drop_take add.commute)
      have "k - len \<le> length (drop len d)" using "1.prems"(2) by simp
      from "1.IH"(1) [OF k refl True len_def rd at' this] obtain self' where
        r: "coversStream_loop ?s (k - len) = Ok (take (k - len) (drop len d), self')" "tc_at self' n m (drop (k - len) (drop len d))"
          "tc_covers self' = tc_covers ?s" "tc_readFromPos_back self' = tc_readFromPos_back ?s" by blast
      have "take len d @ take (k - len) (drop len d) = take k d" using len(2) by (metis le_add_diff_inverse take_add)
      moreover have "drop (k - len) (drop len d) = drop k d" using len(2) by simp
      ultimately show ?thesis using k True rd r by (simp add: coversStream_loop.simps [of self k] Let_def len_def [symmetric])
    next
      case cur0: False
      let ?i = "tc_readedCoverCount self" and ?cs = "tc_covers self"
      have d: "d = cover_code (drop ?i ?cs) (tc_lastOldEnd self) (tc_lastNewEnd self)" using at(4) cur0 by simp
      have i: "?i < length ?cs"
      proof (rule ccontr)
        assume "\<not> ?i < length ?cs"
        then have "d = []" using d by simp
        then show False using k "1.prems"(2) by simp
      qed
      obtain code' i' lo' ln' where f: "covers_fill ?cs ?i [] (tc_lastOldEnd self) (tc_lastNewEnd self) = Ok (code', i', lo', ln')"
          "ends_ok ?cs i' lo' ln' n m" "d = code' @ cover_code (drop i' ?cs) lo' ln'"
        using covers_fill_result [OF at(3), of "[]"] d by auto
      let ?s = "self\<lparr>tc_code_mem := code', tc_lastOldEnd := lo', tc_lastNewEnd := ln', tc_readedCoverCount := i',
          tc_curCodePos := 0, tc_curCodePos_end := length code'\<rparr>"
      have at': "tc_at ?s n m d" unfolding tc_at_def using f(2,3) by simp
      have c: "check (\<not> ?i \<ge> length ?cs) = Ok ()" using i by simp
      from "1.IH"(2) [OF k refl cur0 refl c f(1) refl refl refl at' "1.prems"(2)] obtain self' where
        "coversStream_loop ?s k = Ok (take k d, self')" "tc_at self' n m (drop k d)"
        "tc_covers self' = tc_covers ?s" "tc_readFromPos_back self' = tc_readFromPos_back ?s" by blast
      then show ?thesis using k cur0 c f(1) by (simp add: coversStream_loop.simps [of self k] Let_def)
    qed
  qed
qed

text \<open>It can be read again from its beginning.\<close>

definition tc_whole :: "TCoversStream hpatch_TStreamInput \<Rightarrow> byte list" where
  "tc_whole st = cover_code (tc_covers (streamImport st)) 0 0"

definition tc_rsok :: "TCoversStream hpatch_TStreamInput \<Rightarrow> nat \<Rightarrow> bool" where
  "tc_rsok st pos \<longleftrightarrow>
     read st = coversStream_read \<and> streamSize st = length (tc_whole st) \<and> length (tc_whole st) < 2 ^ 63 \<and>
     (\<exists>n m. covers_fit (tc_covers (streamImport st)) 0 n m \<and> n < 2 ^ 64 \<and> m < 2 ^ 64 \<and>
        (pos \<noteq> 0 \<longrightarrow> tc_readFromPos_back (streamImport st) = pos \<and> tc_at (streamImport st) n m (drop pos (tc_whole st))))"

interpretation covers_code: replay_stream tc_rsok tc_whole
proof
  fix st pos and len :: nat
  assume st: "tc_rsok st pos" and len: "0 < len" "pos + len \<le> length (tc_whole st)"
  define self where "self = streamImport st"
  define w where "w = tc_whole st"
  have w: "w = cover_code (tc_covers self) 0 0" by (simp add: w_def tc_whole_def self_def)
  from st obtain n m where s: "read st = coversStream_read" "streamSize st = length w" "length w < 2 ^ 63"
      "covers_fit (tc_covers self) 0 n m" "n < 2 ^ 64" "m < 2 ^ 64"
      "pos \<noteq> 0 \<Longrightarrow> tc_readFromPos_back self = pos \<and> tc_at self n m (drop pos w)"
    unfolding tc_rsok_def self_def [symmetric] w_def [symmetric] by blast
  define self1 where "self1 = (if pos = 0 then self\<lparr>tc_curCodePos := 0, tc_curCodePos_end := 0, tc_lastOldEnd := 0, tc_lastNewEnd := 0,
                       tc_readedCoverCount := 0\<rparr> else self)\<lparr>tc_readFromPos_back := pos + len\<rparr>"
  have at: "tc_at self1 n m (drop pos w)" using s(4-7) by (auto simp: self1_def tc_at_def ends_ok_def w)
  have same: "tc_covers self1 = tc_covers self" "tc_readFromPos_back self1 = pos + len" by (simp_all add: self1_def)
  have "len \<le> length (drop pos w)" using len by (simp add: w_def)
  from coversStream_loop_result [OF at this] obtain self2 where
    r: "coversStream_loop self1 len = Ok (take len (drop pos w), self2)" "tc_at self2 n m (drop len (drop pos w))"
      "tc_covers self2 = tc_covers self" "tc_readFromPos_back self2 = pos + len" unfolding same by blast
  have "coversStream_read self (streamSize st) pos len = Ok (take len (drop pos w), self2)"
    using r(1) s(7) by (auto simp: coversStream_read_def self1_def)
  then have "sread st pos len = Ok (take len (drop pos w), st\<lparr>streamImport := self2\<rparr>)" using s(1) by (simp add: sread_def self_def)
  moreover have "tc_whole (st\<lparr>streamImport := self2\<rparr>) = w" using r(3) w by (simp add: tc_whole_def)
  moreover from this have "tc_rsok (st\<lparr>streamImport := self2\<rparr>) (pos + len)"
    unfolding tc_rsok_def using s(1-6) r len(1) by (auto simp: add.commute)
  ultimately show "\<exists>st'. sread st pos len = Ok (take len (drop pos (tc_whole st)), st') \<and> tc_rsok st' (pos + len) \<and> tc_whole st' = tc_whole st"
    unfolding w_def by blast
qed (auto simp: tc_rsok_def)

lemma getDataSize_from_result:
  "covers_fit cs ln n m \<Longrightarrow> n < 2 ^ 64 \<Longrightarrow> m < 2 ^ 64 \<Longrightarrow> lo < 2 ^ 64 \<Longrightarrow>
   coversStream_getDataSize_from cs lo ln sz = Ok (sz + length (cover_code cs lo ln)) \<and> length (cover_code cs lo ln) \<le> 33 * length cs"
proof (induction cs arbitrary: lo ln sz)
  case (Cons c cs)
  from Cons.prems have f: "ln \<le> newPos c" "newPos c + coverLength c \<le> n" "oldPos c + coverLength c \<le> m"
    "covers_fit cs (newPos c + coverLength c) n m" by auto
  have b: "newPos c - ln < 2 ^ 64" "coverLength c < 2 ^ 64" "oldPos c < 2 ^ 64" "oldPos c - lo < 2 ^ 64" "lo - oldPos c < 2 ^ 64"
      "oldPos c + coverLength c < 2 ^ 64" "newPos c + coverLength c < 2 ^ 64" using f Cons.prems by auto
  have a: "add64 (oldPos c) (coverLength c) = oldPos c + coverLength c" "add64 (newPos c) (coverLength c) = newPos c + coverLength c"
    using b by (simp_all add: add64_eq)
  have l: "length (inc_code (oldPos c) lo) = (if oldPos c \<ge> lo then hpatch_packUIntWithTag_size (oldPos c - lo) 1
      else hpatch_packUIntWithTag_size (lo - oldPos c) 1)" using b by (simp add: inc_code_def length_pack_code)
  have l3: "length (inc_code (oldPos c) lo) \<le> 11" "length (pack_code (newPos c - ln) 0 0) \<le> 11" "length (pack_code (coverLength c) 0 0) \<le> 11"
    using inc_code_length [OF b(3) Cons.prems(4)] pack_code(3) [OF b(1), of 0 0] pack_code(3) [OF b(2), of 0 0] by simp_all
  note ih = Cons.IH [OF f(4) Cons.prems(2,3) b(6)]
  have "length (cover_code (c # cs) lo ln) \<le> 33 * length (c # cs)" using ih [of 0, THEN conjunct2] l3 by simp
  moreover have "coversStream_getDataSize_from (c # cs) lo ln sz = Ok (sz + length (cover_code (c # cs) lo ln))"
    using ih f(1) l b(1,2) a by (simp add: Let_def length_pack_code)
  ultimately show ?case by blast
qed simp

lemma parse_cover_code:
  "covers_fit cs ln n m \<Longrightarrow> n < 2 ^ 64 \<Longrightarrow> m < 2 ^ 64 \<Longrightarrow> lo < 2 ^ 64 \<Longrightarrow>
   parse_store e True (length cs) [cover_code cs lo ln] 0 0 0 lo ln = Some cs"
proof (induction cs arbitrary: lo ln)
  case (Cons c cs)
  from Cons.prems have f: "ln \<le> newPos c" "newPos c + coverLength c \<le> n" "oldPos c + coverLength c \<le> m"
    "covers_fit cs (newPos c + coverLength c) n m" by auto
  have b: "newPos c - ln < 2 ^ 64" "coverLength c < 2 ^ 64" "oldPos c < 2 ^ 64" "newPos c < 2 ^ 64"
      "oldPos c + coverLength c < 2 ^ 64" "newPos c + coverLength c < 2 ^ 64" using f Cons.prems by auto
  define inc where "inc = (if oldPos c \<ge> lo then oldPos c - lo else lo - oldPos c)"
  define tag where "tag = (if oldPos c \<ge> lo then 0 else 1 :: nat)"
  have it: "inc < 2 ^ 64" "tag < 2 ^ 1" using b(3) Cons.prems(4) by (auto simp: inc_def tag_def)
  have ic: "inc_code (oldPos c) lo = pack_code inc tag 1" by (simp add: inc_code_def inc_def tag_def)
  have step: "oldPos_step lo (drop_bit 7 (unat (hd (pack_code inc tag 1 @ r))) \<noteq> 0) inc = oldPos c" for r
  proof -
    have "drop_bit 7 (unat (hd (pack_code inc tag 1 @ r))) = tag" using hd_pack_code [OF it, of r] by simp
    then show ?thesis using b Cons.prems(4) by (auto simp: oldPos_step_def tag_def inc_def add64_eq sub64_eq)
  qed
  have u: "unpack_by e (pack_code inc tag 1 @ r) 1 = Ok (inc, r)" "unpack_by e (pack_code (newPos c - ln) 0 0 @ r) 0 = Ok (newPos c - ln, r)"
    "unpack_by e (pack_code (coverLength c) 0 0 @ r) 0 = Ok (coverLength c, r)" for r
    using unpack_pack_code [OF it, of e r] unpack_pack_code [OF b(1), of 0 0 e r] unpack_pack_code [OF b(2), of 0 0 e r] by simp_all
  have a: "add64 ln (newPos c - ln) = newPos c" "add64 (oldPos c) (coverLength c) = oldPos c + coverLength c"
      "add64 (newPos c) (coverLength c) = newPos c + coverLength c" using b f(1) by (simp_all add: add64_eq)
  show ?case using Cons.IH [OF f(4) Cons.prems(2,3) b(5)] ic step u a by (simp add: Let_def)
qed simp

lemma TCoversStream_make_result:
  assumes "covers_fit cs 0 n m" "n < 2 ^ 64" "m < 2 ^ 64" "33 * length cs < 2 ^ 63"
  shows "\<exists>st. TCoversStream_make cs (length (cover_code cs 0 0)) = Ok st \<and> tc_rsok st 0 \<and> tc_whole st = cover_code cs 0 0"
proof -
  have "length (cover_code cs 0 0) < 2 ^ 63" using getDataSize_from_result [OF assms(1-3), of 0 0] assms(4) by simp
  then show ?thesis using assms(1-3)
    by (auto simp: TCoversStream_make_def tc_rsok_def tc_whole_def tc_kCodeBufSize_def hpatch_kMaxPackedUIntBytes_def)
qed

section \<open>The uncovered bytes, read again\<close>

context random_stream begin

text \<open>Such a stream can be read again from its beginning.\<close>

definition nd_whole :: "'s TNewDataDiffStream hpatch_TStreamInput \<Rightarrow> byte list" where
  "nd_whole st = take (streamSize st) (gap_bytes (drop (nd_coveri (streamImport st)) (nd_covers (streamImport st)))
     (contents (nd_newData (streamImport st))) (nd_newDataPos (streamImport st)))"

definition nd_rsok :: "'s TNewDataDiffStream hpatch_TStreamInput \<Rightarrow> nat \<Rightarrow> bool" where
  "nd_rsok st pos \<longleftrightarrow> streamSize st < 2 ^ 63 \<and> nd_sok st 0 (nd_whole st) \<and> (pos \<noteq> 0 \<longrightarrow> nd_sok st pos (drop pos (nd_whole st)))"

lemma newDataDiff_replay: "replay_stream nd_rsok nd_whole"
proof
  fix st pos and len :: nat
  assume st: "nd_rsok st pos" and len: "0 < len" "pos + len \<le> length (nd_whole st)"
  then have s: "nd_sok st 0 (nd_whole st)" "nd_sok st pos (drop pos (nd_whole st))" "streamSize st < 2 ^ 63"
    by (auto simp: nd_rsok_def)
  have "len \<le> length (drop pos (nd_whole st))" using len(2) by simp
  from nd_step [OF s(2) len(1) this] obtain st' where
    r: "sread st pos len = Ok (take len (drop pos (nd_whole st)), st')" "nd_sok st' (pos + len) (drop len (drop pos (nd_whole st)))"
      "streamSize st' = streamSize st" "read st' = read st" "rok (nd_newData (streamImport st'))"
      "nd_same (streamImport st) (streamImport st'\<lparr>nd_readFromPos_back := nd_readFromPos_back (streamImport st)\<rparr>)" by blast
  have w: "nd_whole st' = nd_whole st" using r(3,6) by (simp add: nd_whole_def nd_same_def)
  have "nd_sok st' 0 (nd_whole st)" using s(1) r(3-6) by (simp add: nd_sok_def Let_def nd_same_def)
  then have "nd_rsok st' (pos + len)" using r(2,3) w s(3) by (simp add: nd_rsok_def add.commute)
  then show "\<exists>st'. sread st pos len = Ok (take len (drop pos (nd_whole st)), st') \<and> nd_rsok st' (pos + len) \<and> nd_whole st' = nd_whole st"
    using r(1) w by blast
next
  fix st pos
  assume "nd_rsok st pos"
  then show "nd_rsok st 0" by (simp add: nd_rsok_def)
next
  fix st pos
  assume st: "nd_rsok st pos"
  then have "streamSize st = 0 + length (nd_whole st)" unfolding nd_rsok_def nd_sok_def Let_def by blast
  then show "streamSize st = length (nd_whole st) \<and> length (nd_whole st) < 2 ^ 63" using st by (simp add: nd_rsok_def)
qed

lemma newDataDiff_stream_rsok:
  assumes "rok nd" "covers_fit cs 0 (length (contents nd)) m" "length (contents nd) < 2 ^ 63"
  shows "nd_rsok (newDataDiff_stream cs nd 0 0 (length (gap_bytes cs (contents nd) 0))) 0 \<and>
    nd_whole (newDataDiff_stream cs nd 0 0 (length (gap_bytes cs (contents nd) 0))) = gap_bytes cs (contents nd) 0"
proof -
  have "length (gap_bytes cs (contents nd) 0) < 2 ^ 63"
    using gap_bytes_length_le [OF assms(2)] assms(3) by linarith
  then show ?thesis using assms by (auto simp: nd_rsok_def nd_whole_def nd_sok_def newDataDiff_stream_def Let_def)
qed

end

interpretation mem_nd: replay_stream mem_in.nd_rsok mem_in.nd_whole
  by (rule mem_in.newDataDiff_replay)

section \<open>Writing the diff\<close>

text \<open>\<open>_outType\<close>: a C string ends at its first zero.\<close>

definition outType :: "byte list \<Rightarrow> hdiff_TCompress option \<Rightarrow> byte list \<Rightarrow> byte list res" where
  "outType out_data compressPlugin versionType =
     (let out_data = pushCStr (pushCStr out_data versionType) [0x26];
          compressType = (case compressPlugin of None \<Rightarrow> [] | Some P \<Rightarrow> c_str (cp_compressType P));
          compressTypeLen = length compressType in
      rbind (check (compressTypeLen \<le> hpatch_kMaxPluginTypeLength)) (\<lambda>_.
      rbind (check (0x26 \<notin> set compressType)) (\<lambda>_.
      Ok (pushBack (pushCStr out_data compressType) [0]))))"

text \<open>The head, with the placeholders of the four compressed sizes.\<close>

definition diffz_write_head ::
  "'o TDiffStream \<Rightarrow> hdiff_TCompress option \<Rightarrow> nat \<Rightarrow> nat \<Rightarrow> nat \<Rightarrow> nat \<Rightarrow> nat \<Rightarrow> nat \<Rightarrow> nat \<Rightarrow>
   (TPlaceholder \<times> TPlaceholder \<times> TPlaceholder \<times> TPlaceholder \<times> 'o TDiffStream) res" where
  "diffz_write_head outDiff compressPlugin newSize oldSize cover_count cover_buf_size ctrl_size code_size newDataDiff_size =
     (let plugin_size = (\<lambda>n. if compressPlugin \<noteq> None then n else 0) in
      rbind (outType [] compressPlugin kVersionType) (\<lambda>out_type.
      rbind (ds_pushBack outDiff out_type) (\<lambda>outDiff.
      rbind (ds_packUInt outDiff newSize) (\<lambda>outDiff.
      rbind (ds_packUInt outDiff oldSize) (\<lambda>outDiff.
      rbind (ds_packUInt outDiff cover_count) (\<lambda>outDiff.
      rbind (ds_packUInt outDiff cover_buf_size) (\<lambda>outDiff.
      rbind (ds_packUInt_pos outDiff (plugin_size cover_buf_size)) (\<lambda>(pos1, outDiff).
      rbind (ds_packUInt outDiff ctrl_size) (\<lambda>outDiff.
      rbind (ds_packUInt_pos outDiff (plugin_size ctrl_size)) (\<lambda>(pos2, outDiff).
      rbind (ds_packUInt outDiff code_size) (\<lambda>outDiff.
      rbind (ds_packUInt_pos outDiff (plugin_size code_size)) (\<lambda>(pos3, outDiff).
      rbind (ds_packUInt outDiff newDataDiff_size) (\<lambda>outDiff.
      rbind (ds_packUInt_pos outDiff (plugin_size newDataDiff_size)) (\<lambda>(pos4, outDiff).
      Ok (pos1, pos2, pos3, pos4, outDiff)))))))))))))))"

definition serialize_compressed_diff ::
  "'n hpatch_TStreamInput \<Rightarrow> 'o hpatch_TStreamInput \<Rightarrow> bool \<Rightarrow> hpatch_TCover list \<Rightarrow> 'w hpatch_TStreamOutput \<Rightarrow>
   hdiff_TCompress option \<Rightarrow> 'w hpatch_TStreamOutput res" where
  "serialize_compressed_diff newData oldData isZeroSubDiff covers out_diff compressPlugin =
     rbind (bytesRLE_save_stream [] [] (TNewDataSubDiffStream_make newData oldData covers False isZeroSubDiff) kRle_bestSize)
       (\<lambda>(rle_ctrlBuf, rle_codeBuf, subStream).
     let newData = sd_newData (streamImport subStream) in
     rbind (coversStream_getDataSize covers) (\<lambda>cover_buf_size.
     rbind (newDataDiff_getDataSize covers (streamSize newData)) (\<lambda>newDataDiff_size.
     rbind (diffz_write_head \<lparr>ds_out_diff = out_diff, ds_writePos = 0\<rparr> compressPlugin (streamSize newData)
              (streamSize (sd_oldData (streamImport subStream))) (length covers) cover_buf_size (length rle_ctrlBuf)
              (length rle_codeBuf) newDataDiff_size) (\<lambda>(pos1, pos2, pos3, pos4, outDiff).
     rbind (TCoversStream_make covers cover_buf_size) (\<lambda>cover_buf.
     rbind (ds_pushStream outDiff cover_buf compressPlugin pos1 False 0) (\<lambda>(_, outDiff, _).
     rbind (ds_pushStream outDiff (TVectorAsStreamInput rle_ctrlBuf) compressPlugin pos2 False 0) (\<lambda>(_, outDiff, _).
     rbind (ds_pushStream outDiff (TVectorAsStreamInput rle_codeBuf) compressPlugin pos3 False 0) (\<lambda>(_, outDiff, _).
     rbind (ds_pushStream outDiff (newDataDiff_stream covers newData 0 0 newDataDiff_size) compressPlugin pos4 False 0)
       (\<lambda>(_, outDiff, _).
     Ok (ds_out_diff outDiff))))))))))"

section \<open>The head that is written\<close>

lemma c_str_append: "0 \<notin> set xs \<Longrightarrow> c_str (xs @ 0 # ys) = xs"
  by (simp add: c_str_def takeWhile_append)

lemma c_str_no_zero: "0 \<notin> set (c_str xs)"
  unfolding c_str_def by (metis (full_types) set_takeWhileD)

lemma pushCStr_no_zero: "0 \<notin> set s \<Longrightarrow> pushCStr out s = out @ s"
  by (simp add: pushCStr_def takeWhile_eq_all_conv) (metis)

definition plugin_type :: "hdiff_TCompress option \<Rightarrow> byte list" where
  "plugin_type P = (case P of None \<Rightarrow> [] | Some p \<Rightarrow> c_str (cp_compressType p))"

definition type_ok :: "hdiff_TCompress option \<Rightarrow> bool" where
  "type_ok P \<longleftrightarrow> length (plugin_type P) \<le> hpatch_kMaxPluginTypeLength \<and> 0x26 \<notin> set (plugin_type P)"

lemma plugin_type_no_zero: "0 \<notin> set (plugin_type P)"
  by (auto simp: plugin_type_def c_str_no_zero split: option.split)

lemma outType_result:
  assumes "type_ok P" "0 \<notin> set version"
  shows "outType [] P version = Ok (version @ [0x26] @ plugin_type P @ [0])"
  using assms plugin_type_no_zero [of P]
  by (simp add: outType_def plugin_type_def [symmetric] type_ok_def pushBack_def pushCStr_no_zero Let_def)

text \<open>The head with the codes \<open>q\<close> of the compressed sizes.\<close>

record diffz_sizes =
  zs_new :: nat
  zs_old :: nat
  zs_count :: nat
  zs_cover :: nat
  zs_ctrl :: nat
  zs_code :: nat
  zs_diff :: nat

definition sizes_ok :: "diffz_sizes \<Rightarrow> bool" where
  "sizes_ok z \<longleftrightarrow> zs_new z < 2 ^ 64 \<and> zs_old z < 2 ^ 64 \<and> zs_count z < 2 ^ 64 \<and> zs_cover z < 2 ^ 64 \<and> zs_ctrl z < 2 ^ 64 \<and>
     zs_code z < 2 ^ 64 \<and> zs_diff z < 2 ^ 64"

definition head1 :: "hdiff_TCompress option \<Rightarrow> diffz_sizes \<Rightarrow> byte list" where
  "head1 P z = (kVersionType @ [0x26] @ plugin_type P @ [0]) @ pack_code (zs_new z) 0 0 @ pack_code (zs_old z) 0 0 @
     pack_code (zs_count z) 0 0 @ pack_code (zs_cover z) 0 0"

definition diffz_head :: "hdiff_TCompress option \<Rightarrow> diffz_sizes \<Rightarrow> byte list \<Rightarrow> byte list \<Rightarrow> byte list \<Rightarrow> byte list \<Rightarrow> byte list" where
  "diffz_head P z q1 q2 q3 q4 =
     head1 P z @ q1 @ pack_code (zs_ctrl z) 0 0 @ q2 @ pack_code (zs_code z) 0 0 @ q3 @ pack_code (zs_diff z) 0 0 @ q4"

lemma read_str_append: "t \<notin> set s \<Longrightarrow> length s \<le> hpatch_kMaxPluginTypeLength \<Longrightarrow> read_str (s @ t # r) t = Ok (s, r)"
proof -
  assume t: "t \<notin> set s" "length s \<le> hpatch_kMaxPluginTypeLength"
  have "take (hpatch_kMaxPluginTypeLength + 1) (s @ t # r) = s @ t # take (hpatch_kMaxPluginTypeLength - length s) r"
    using t(2) by (simp add: Suc_diff_le)
  then show ?thesis using str_end_index_append [OF t(1)] by (simp add: read_str_def)
qed

lemma diffz_head_parses:
  assumes z: "sizes_ok z" and P: "type_ok P" and q: "codes q1 n1" "codes q2 n2" "codes q3 n3" "codes q4 n4"
    and d: "d = diffz_head P z q1 q2 q3 q4 @ rest"
  shows "\<exists>info h. parse_diffz d = Ok (info, h) \<and> ci_newDataSize info = zs_new z \<and> ci_oldDataSize info = zs_old z \<and>
    ci_compressType info = plugin_type P \<and> ci_compressedCount info = compressed_count [n1, n2, n3, n4] \<and>
    hz_coverCount h = zs_count z \<and> hz_cover_buf_size h = zs_cover z \<and> hz_compress_cover_buf_size h = n1 \<and>
    hz_rle_ctrlBuf_size h = zs_ctrl z \<and> hz_compress_rle_ctrlBuf_size h = n2 \<and> hz_rle_codeBuf_size h = zs_code z \<and>
    hz_compress_rle_codeBuf_size h = n3 \<and> hz_newDataDiff_size h = zs_diff z \<and> hz_compress_newDataDiff_size h = n4 \<and>
    hz_headEndPos h = length (diffz_head P z q1 q2 q3 q4)"
proof -
  let ?r4 = "rest" and ?p = "\<lambda>v. pack_code v 0 0"
  have u: "unpack_by Streaming (?p v @ r) 0 = Ok (v, r)" if "v < 2 ^ 64" for v r using unpack_pack_code [OF that] by simp
  have uz: "unpack_by Streaming (?p (zs_new z) @ r) 0 = Ok (zs_new z, r)" "unpack_by Streaming (?p (zs_old z) @ r) 0 = Ok (zs_old z, r)"
      "unpack_by Streaming (?p (zs_count z) @ r) 0 = Ok (zs_count z, r)" "unpack_by Streaming (?p (zs_cover z) @ r) 0 = Ok (zs_cover z, r)"
      "unpack_by Streaming (?p (zs_ctrl z) @ r) 0 = Ok (zs_ctrl z, r)" "unpack_by Streaming (?p (zs_code z) @ r) 0 = Ok (zs_code z, r)"
      "unpack_by Streaming (?p (zs_diff z) @ r) 0 = Ok (zs_diff z, r)" for r
    using z u by (simp_all add: sizes_ok_def)
  have uq: "unpack_by Streaming (q1 @ r) 0 = Ok (n1, r)" "unpack_by Streaming (q2 @ r) 0 = Ok (n2, r)"
      "unpack_by Streaming (q3 @ r) 0 = Ok (n3, r)" "unpack_by Streaming (q4 @ r) 0 = Ok (n4, r)" for r
    using q by (simp_all add: codes_def)
  have v: "read_str (kVersionType @ 0x26 # r) 0x26 = Ok (kVersionType, r)" "c_str kVersionType = kVersionType" for r
    by (rule read_str_append) (simp_all add: kVersionType_def hpatch_kMaxPluginTypeLength_def c_str_def)
  have t: "read_str (plugin_type P @ 0 # r) 0 = Ok (plugin_type P, r)" for r
    by (rule read_str_append [OF plugin_type_no_zero]) (use P in \<open>simp add: type_ok_def\<close>)
  show ?thesis unfolding d diffz_head_def head1_def
    by (simp add: parse_diffz_def v t uz uq Let_def del: unpack_by_Memory)
qed

text \<open>The placeholder that a code \<open>q\<close> after \<open>a\<close> takes.\<close>

definition place :: "byte list \<Rightarrow> byte list \<Rightarrow> TPlaceholder" where
  "place a q = \<lparr>ph_pos = length a, ph_pos_end = length a + length q\<rparr>"

context update_stream begin

text \<open>Writing at the end.\<close>

definition ds_end :: "'o TDiffStream \<Rightarrow> byte list \<Rightarrow> nat \<Rightarrow> bool" where
  "ds_end ds c n \<longleftrightarrow> ds_holds ds c [] \<and> length c \<le> n"

lemma ds_pack_step:
  assumes "ds_end ds c n" "v < 2 ^ 64" "n + 11 < 2 ^ 63"
  shows "\<exists>ds'. ds_packUInt ds v = Ok ds' \<and> ds_end ds' (c @ pack_code v 0 0) (n + 11)"
  using ds_packUInt_result [of ds c "[]" v] assms pack_code(3) [OF assms(2), of 0 0] by (auto simp: ds_end_def)

lemma ds_pack_pos_step:
  assumes "ds_end ds c n" "v < 2 ^ 64" "n + 11 < 2 ^ 63"
  shows "\<exists>ds'. ds_packUInt_pos ds v = Ok (\<lparr>ph_pos = length c, ph_pos_end = length c + length (pack_code v 0 0)\<rparr>, ds') \<and>
    ds_end ds' (c @ pack_code v 0 0) (n + 11)"
  using ds_packUInt_pos_result [of ds c "[]" v] assms pack_code(3) [OF assms(2), of 0 0] by (auto simp: ds_end_def)

lemma diffz_write_head_result:
  assumes ds: "ds_holds ds [] []" and z: "sizes_ok z" and P: "type_ok P"
  defines "q n \<equiv> pack_code (if P = None then 0 else n) 0 0"
  defines "a2 \<equiv> head1 P z @ q (zs_cover z) @ pack_code (zs_ctrl z) 0 0"
  defines "a3 \<equiv> a2 @ q (zs_ctrl z) @ pack_code (zs_code z) 0 0"
  defines "a4 \<equiv> a3 @ q (zs_code z) @ pack_code (zs_diff z) 0 0"
  shows "\<exists>ds'. diffz_write_head ds P (zs_new z) (zs_old z) (zs_count z) (zs_cover z) (zs_ctrl z) (zs_code z) (zs_diff z) =
      Ok (place (head1 P z) (q (zs_cover z)), place a2 (q (zs_ctrl z)), place a3 (q (zs_code z)), place a4 (q (zs_diff z)), ds') \<and>
    ds_holds ds' (diffz_head P z (q (zs_cover z)) (q (zs_ctrl z)) (q (zs_code z)) (q (zs_diff z))) []"
proof -
  let ?t = "kVersionType @ [0x26] @ plugin_type P @ [0]"
  have zb: "zs_new z < 2 ^ 64" "zs_old z < 2 ^ 64" "zs_count z < 2 ^ 64" "zs_cover z < 2 ^ 64" "zs_ctrl z < 2 ^ 64"
    "zs_code z < 2 ^ 64" "zs_diff z < 2 ^ 64" using z by (simp_all add: sizes_ok_def)
  define v where "v n = (if P \<noteq> None then n else 0)" for n :: nat
  have vb: "v n < 2 ^ 64" if "n < 2 ^ 64" for n using that by (simp add: v_def)
  have q: "pack_code (v n) 0 0 = q n" for n by (simp add: q_def v_def)
  have ty: "outType [] P kVersionType = Ok ?t" by (rule outType_result [OF P]) (simp add: kVersionType_def)
  have tl: "length ?t \<le> 300" using P by (simp add: type_ok_def hpatch_kMaxPluginTypeLength_def kVersionType_def)
  obtain d0 where d0: "ds_pushBack ds ?t = Ok d0" "ds_end d0 ?t 300"
    using ds_pushBack_result [OF ds, of ?t] tl by (auto simp: ds_end_def)
  obtain d1 where d1: "ds_packUInt d0 (zs_new z) = Ok d1" "ds_end d1 (?t @ pack_code (zs_new z) 0 0) 311"
    using ds_pack_step [OF d0(2) zb(1)] by auto
  obtain d2 where d2: "ds_packUInt d1 (zs_old z) = Ok d2" "ds_end d2 ((?t @ pack_code (zs_new z) 0 0) @ pack_code (zs_old z) 0 0) 322"
    using ds_pack_step [OF d1(2) zb(2)] by auto
  obtain d3 where d3: "ds_packUInt d2 (zs_count z) = Ok d3"
      "ds_end d3 (((?t @ pack_code (zs_new z) 0 0) @ pack_code (zs_old z) 0 0) @ pack_code (zs_count z) 0 0) 333"
    using ds_pack_step [OF d2(2) zb(3)] by auto
  obtain d4 where d4: "ds_packUInt d3 (zs_cover z) = Ok d4" "ds_end d4 (head1 P z) 344"
    using ds_pack_step [OF d3(2) zb(4)] by (auto simp: head1_def)
  obtain d5 where d5: "ds_packUInt_pos d4 (v (zs_cover z)) = Ok (place (head1 P z) (q (zs_cover z)), d5)"
      "ds_end d5 (head1 P z @ q (zs_cover z)) 355"
    using ds_pack_pos_step [OF d4(2) vb [OF zb(4)]] by (auto simp: place_def q)
  obtain d6 where d6: "ds_packUInt d5 (zs_ctrl z) = Ok d6" "ds_end d6 a2 366"
    using ds_pack_step [OF d5(2) zb(5)] by (auto simp: a2_def)
  obtain d7 where d7: "ds_packUInt_pos d6 (v (zs_ctrl z)) = Ok (place a2 (q (zs_ctrl z)), d7)" "ds_end d7 (a2 @ q (zs_ctrl z)) 377"
    using ds_pack_pos_step [OF d6(2) vb [OF zb(5)]] by (auto simp: place_def q)
  obtain d8 where d8: "ds_packUInt d7 (zs_code z) = Ok d8" "ds_end d8 a3 388"
    using ds_pack_step [OF d7(2) zb(6)] by (auto simp: a3_def)
  obtain d9 where d9: "ds_packUInt_pos d8 (v (zs_code z)) = Ok (place a3 (q (zs_code z)), d9)" "ds_end d9 (a3 @ q (zs_code z)) 399"
    using ds_pack_pos_step [OF d8(2) vb [OF zb(6)]] by (auto simp: place_def q)
  obtain d10 where d10: "ds_packUInt d9 (zs_diff z) = Ok d10" "ds_end d10 a4 410"
    using ds_pack_step [OF d9(2) zb(7)] by (auto simp: a4_def)
  obtain d11 where d11: "ds_packUInt_pos d10 (v (zs_diff z)) = Ok (place a4 (q (zs_diff z)), d11)" "ds_end d11 (a4 @ q (zs_diff z)) 421"
    using ds_pack_pos_step [OF d10(2) vb [OF zb(7)]] by (auto simp: place_def q)
  have "diffz_write_head ds P (zs_new z) (zs_old z) (zs_count z) (zs_cover z) (zs_ctrl z) (zs_code z) (zs_diff z) =
      Ok (place (head1 P z) (q (zs_cover z)), place a2 (q (zs_ctrl z)), place a3 (q (zs_code z)), place a4 (q (zs_diff z)), d11)"
    unfolding diffz_write_head_def Let_def v_def [symmetric]
    by (simp only: ty d0(1) d1(1) d2(1) d3(1) d4(1) d5(1) d6(1) d7(1) d8(1) d9(1) d10(1) d11(1) rbind.simps prod.case)
  moreover have "ds_holds d11 (diffz_head P z (q (zs_cover z)) (q (zs_ctrl z)) (q (zs_code z)) (q (zs_diff z))) []"
    using d11(2) by (simp add: ds_end_def diffz_head_def a2_def a3_def a4_def)
  ultimately show ?thesis by blast
qed

end

section \<open>What is written means the new data\<close>

lemma section_ok_code:
  "section_ok unz data n sec \<Longrightarrow> code_section unz (pre @ sec @ post) (length pre) (length data) n = Some data"
  by (auto simp: section_ok_def code_section_def)

lemma section_ok_section_size: "section_ok unz data n sec \<Longrightarrow> section_size (length data) n = length sec"
  by (auto simp: section_ok_def section_size_def)

lemma diffz_read_back:
  assumes z: "sizes_ok z" and P: "type_ok P" and q: "codes q1 n1" "codes q2 n2" "codes q3 n3" "codes q4 n4"
    and sec: "section_ok unz cov n1 s1" "section_ok unz ctrl n2 s2" "section_ok unz code n3 s3" "section_ok unz gap n4 s4"
    and sz: "zs_new z = length new" "zs_old z = length old" "zs_count z = length cs" "zs_cover z = length cov" "zs_ctrl z = length ctrl"
      "zs_code z = length code" "zs_diff z = length gap"
    and can: "P = None \<Longrightarrow> n1 = 0 \<and> n2 = 0 \<and> n3 = 0 \<and> n4 = 0" "P \<noteq> None \<Longrightarrow> can (plugin_type P)"
    and cov: "parse_store Streaming True (length cs) [cov] 0 0 0 0 0 = Some cs"
    and rle: "rle_spec Streaming ctrl code = Some r" "length r = length new"
    and ap: "apply_covers old r (length new) cs gap 0 = Some new"
  shows "diffz_spec can unz (length new) old (diffz_head P z q1 q2 q3 q4 @ s1 @ s2 @ s3 @ s4) = Some (new, True)"
proof -
  let ?H = "diffz_head P z q1 q2 q3 q4"
  let ?d = "?H @ s1 @ s2 @ s3 @ s4"
  obtain info h where h: "parse_diffz ?d = Ok (info, h)" "ci_newDataSize info = zs_new z" "ci_oldDataSize info = zs_old z"
      "ci_compressType info = plugin_type P" "ci_compressedCount info = compressed_count [n1, n2, n3, n4]"
      "hz_coverCount h = zs_count z" "hz_cover_buf_size h = zs_cover z" "hz_compress_cover_buf_size h = n1"
      "hz_rle_ctrlBuf_size h = zs_ctrl z" "hz_compress_rle_ctrlBuf_size h = n2" "hz_rle_codeBuf_size h = zs_code z"
      "hz_compress_rle_codeBuf_size h = n3" "hz_newDataDiff_size h = zs_diff z" "hz_compress_newDataDiff_size h = n4"
      "hz_headEndPos h = length ?H"
    using diffz_head_parses [OF z P q refl, of "s1 @ s2 @ s3 @ s4"] by blast
  have c1: "code_section unz ?d (length ?H) (length cov) n1 = Some cov" by (rule section_ok_code [OF sec(1)])
  have c2: "code_section unz ?d (length ?H + length s1) (length ctrl) n2 = Some ctrl"
    using section_ok_code [OF sec(2), of "?H @ s1" "s3 @ s4"] by simp
  have c3: "code_section unz ?d (length ?H + length s1 + length s2) (length code) n3 = Some code"
    using section_ok_code [OF sec(3), of "?H @ s1 @ s2" s4] by (simp add: add.assoc)
  have c4: "code_section unz ?d (length ?H + length s1 + length s2 + length s3) (length gap) n4 = Some gap"
    using section_ok_code [OF sec(4), of "?H @ s1 @ s2 @ s3" "[]"] by (simp add: add.assoc)
  note ss = sec [THEN section_ok_section_size]
  have secs: "diffz_sections unz ?d h (length ?H + length s1) = Some (ctrl, code, gap)"
    using h c2 c3 c4 ss sz unfolding diffz_sections_def Let_def by simp
  have cn: "ci_compressedCount info = 0 \<or> can (ci_compressType info)"
    using h(4,5) can by (cases "P = None") (simp_all add: compressed_count_def)
  have "sections_spec (length new) old (Some cs) (ctrl, code, gap) = Some new"
    using rle ap apply_covers_from [of "[]" 0 r "length new" old cs gap] by (simp add: sections_spec_def)
  then show ?thesis unfolding diffz_spec_def
    using h cn c1 secs ss(1) sz cov by (simp add: sections_full_def)
qed

lemma rle_spec_code_length: "rle_spec Memory ctrl code = Some d \<Longrightarrow> length code \<le> length d"
proof (induction ctrl code arbitrary: d rule: rle_spec_Memory_induct)
  case (step ctrl code)
  show ?case
  proof (cases "ctrl = []")
    case True
    then show ?thesis using step.prems by (auto split: if_splits)
  next
    case False
    with step.prems obtain len ctrl' where u: "hpatch_unpackUIntWithTag ctrl kByteRleType_bit = Ok (len, ctrl')"
      by (subst (asm) rle_spec.simps) (auto split: res.splits)
    note eq = rle_spec.simps [of Memory ctrl code]
    show ?thesis
    proof (cases "rle_type (hd ctrl)")
      case kByteRleType_rle
      with step.prems False u eq obtain c code' r where "code = c # code'" "rle_spec Memory ctrl' code' = Some r"
          "d = replicate (len + 1) c @ r" by (auto split: list.splits)
      then show ?thesis using step.IH [OF False u] by fastforce
    next
      case kByteRleType_unrle
      with step.prems False u eq obtain r where "len + 1 \<le> length code" "rle_spec Memory ctrl' (drop (len + 1) code) = Some r"
          "d = take (len + 1) code @ r" by (auto simp: Let_def split: if_splits)
      then show ?thesis using step.IH [OF False u] by fastforce
    next
      case kByteRleType_rle0
      with step.prems False u eq obtain r where "rle_spec Memory ctrl' code = Some r" "d = replicate (len + 1) 0 @ r" by auto
      then show ?thesis using step.IH [OF False u] by fastforce
    next
      case kByteRleType_rle255
      with step.prems False u eq obtain r where "rle_spec Memory ctrl' code = Some r" "d = replicate (len + 1) 255 @ r" by auto
      then show ?thesis using step.IH [OF False u] by fastforce
    qed
  qed
qed

context push_streams begin

lemma push_step:
  assumes "rsok st 0" "u.ds_holds ds (a @ old @ b) []"
    and "old = pack_code (if P = None then 0 else length (whole st)) 0 0"
    and "\<And>p. P = Some p \<Longrightarrow> compress_ok p unz"
    and "length (a @ old @ b) + length (whole st) < 2 ^ 62" "0 < length a" "length a' = length a"
  shows "\<exists>m ds' st' n code sec. ds_pushStream ds st P (place a' old) False 0 = Ok (m, ds', st') \<and>
    codes code n \<and> length code = length old \<and> section_ok unz (whole st) n sec \<and> (P = None \<longrightarrow> n = 0) \<and>
    length sec \<le> length (whole st) \<and> u.ds_holds ds' (a @ code @ b @ sec) []"
  using ds_pushStream_result [where P = P and unz = unz, OF assms(1-6)] section_ok_size [of unz "whole st"]
  unfolding place_def assms(7) by fastforce

end

locale diffz_writer = sub_streams nok ncont ook ocont + u: update_stream uok ucont
  for nok :: "'n hpatch_TStreamInput \<Rightarrow> bool" and ncont
    and ook :: "'o hpatch_TStreamInput \<Rightarrow> bool" and ocont
    and uok :: "'w hpatch_TStreamOutput \<Rightarrow> bool" and ucont

sublocale diffz_writer \<subseteq> cpush: push_streams tc_rsok tc_whole uok ucont
  by (intro push_streams.intro covers_code.replay_stream_axioms u.update_stream_axioms)

sublocale diffz_writer \<subseteq> vpush: push_streams "\<lambda>st pos. mem_in_ok st \<and> length (streamImport st) < 2 ^ 63" streamImport uok ucont
  by (intro push_streams.intro mem_in.again.replay_stream_axioms u.update_stream_axioms)

sublocale diffz_writer \<subseteq> npush: push_streams n.nd_rsok n.nd_whole uok ucont
  by (intro push_streams.intro n.newDataDiff_replay u.update_stream_axioms)

context diffz_writer begin

text \<open>The four sections, each with the code of its compressed size.\<close>

lemma diffz_push_sections:
  fixes P :: "hdiff_TCompress option"
  defines "q n \<equiv> pack_code (if P = None then 0 else n) 0 0"
  defines "a2 q1 z \<equiv> head1 P z @ q1 @ pack_code (zs_ctrl z) 0 0"
  defines "a3 q1 q2 z \<equiv> a2 q1 z @ q2 @ pack_code (zs_code z) 0 0"
  defines "a4 q1 q2 q3 z \<equiv> a3 q1 q2 z @ q3 @ pack_code (zs_diff z) 0 0"
  assumes ds: "u.ds_holds ds (diffz_head P z (q (zs_cover z)) (q (zs_ctrl z)) (q (zs_code z)) (q (zs_diff z))) []"
    and st: "tc_rsok cst 0" "n.nd_rsok nst 0"
    and sz: "zs_cover z = length (tc_whole cst)" "zs_ctrl z = length ctrl" "zs_code z = length code" "zs_diff z = length (n.nd_whole nst)"
    and small: "sizes_ok z" "type_ok P"
      "length (tc_whole cst) + length ctrl + length code + length (n.nd_whole nst) + 1000 < 2 ^ 62"
    and Po: "pred_option (\<lambda>p. compress_ok p unz) P"
  shows "\<exists>m1 d1 t1 m2 d2 t2 m3 d3 t3 m4 d4 t4 q1 q2 q3 q4 n1 n2 n3 n4 s1 s2 s3 s4.
    ds_pushStream ds cst P (place (head1 P z) (q (zs_cover z))) False 0 = Ok (m1, d1, t1) \<and>
    ds_pushStream d1 (TVectorAsStreamInput ctrl) P (place (a2 (q (zs_cover z)) z) (q (zs_ctrl z))) False 0 = Ok (m2, d2, t2) \<and>
    ds_pushStream d2 (TVectorAsStreamInput code) P (place (a3 (q (zs_cover z)) (q (zs_ctrl z)) z) (q (zs_code z))) False 0 = Ok (m3, d3, t3) \<and>
    ds_pushStream d3 nst P (place (a4 (q (zs_cover z)) (q (zs_ctrl z)) (q (zs_code z)) z) (q (zs_diff z))) False 0 = Ok (m4, d4, t4) \<and>
    u.ds_holds d4 (diffz_head P z q1 q2 q3 q4 @ s1 @ s2 @ s3 @ s4) [] \<and>
    length (diffz_head P z q1 q2 q3 q4 @ s1 @ s2 @ s3 @ s4) < 2 ^ 62 \<and>
    codes q1 n1 \<and> codes q2 n2 \<and> codes q3 n3 \<and> codes q4 n4 \<and> (P = None \<longrightarrow> n1 = 0 \<and> n2 = 0 \<and> n3 = 0 \<and> n4 = 0) \<and>
    section_ok unz (tc_whole cst) n1 s1 \<and> section_ok unz ctrl n2 s2 \<and> section_ok unz code n3 s3 \<and> section_ok unz (n.nd_whole nst) n4 s4"
proof -
  have P: "compress_ok p unz" if "P = Some p" for p using Po that by simp
  let ?p1 = "q (zs_cover z)" and ?p2 = "q (zs_ctrl z)" and ?p3 = "q (zs_code z)" and ?p4 = "q (zs_diff z)"
  let ?c2 = "pack_code (zs_ctrl z) 0 0" and ?c3 = "pack_code (zs_code z) 0 0" and ?c4 = "pack_code (zs_diff z) 0 0"
  have z: "zs_new z < 2 ^ 64" "zs_old z < 2 ^ 64" "zs_count z < 2 ^ 64" "zs_cover z < 2 ^ 64" "zs_ctrl z < 2 ^ 64"
    "zs_code z < 2 ^ 64" "zs_diff z < 2 ^ 64" using small(1) by (simp_all add: sizes_ok_def)
  have pl: "length (pack_code v 0 0) \<le> 11" if "v < 2 ^ 64" for v using pack_code(3) [OF that] by simp
  have qv: "length (q v) \<le> 11" if "v < 2 ^ 64" for v using pl that by (simp add: q_def)
  have hl: "0 < length (head1 P z)" "length (head1 P z) \<le> 344"
    using small(2) pl [OF z(1)] pl [OF z(2)] pl [OF z(3)] pl [OF z(4)]
    by (simp_all add: head1_def type_ok_def kVersionType_def hpatch_kMaxPluginTypeLength_def)
  note l = hl pl [OF z(5)] pl [OF z(6)] pl [OF z(7)] qv [OF z(4)] qv [OF z(5)] qv [OF z(6)] qv [OF z(7)]
  have vec: "mem_in_ok (TVectorAsStreamInput v) \<and> length (streamImport (TVectorAsStreamInput v)) < 2 ^ 63"
    "streamImport (TVectorAsStreamInput v) = v" if "length v < 2 ^ 63" for v
    using that mem_as_in_ok [of v] by (simp_all add: TVectorAsStreamInput_def) (simp_all add: mem_as_hStreamInput_def)
  have v63: "length ctrl < 2 ^ 63" "length code < 2 ^ 63" using small(3) by simp_all
  note vc = vec [OF v63(1)] and vd = vec [OF v63(2)]
  have h0: "u.ds_holds ds (head1 P z @ ?p1 @ (?c2 @ ?p2 @ ?c3 @ ?p3 @ ?c4 @ ?p4)) []" using ds by (simp add: diffz_head_def)
  have qs: "?p1 = pack_code (if P = None then 0 else length (tc_whole cst)) 0 0" "?p2 = pack_code (if P = None then 0 else length ctrl) 0 0"
      "?p3 = pack_code (if P = None then 0 else length code) 0 0" "?p4 = pack_code (if P = None then 0 else length (n.nd_whole nst)) 0 0"
    by (simp_all add: q_def sz)
  have b1: "length (head1 P z @ ?p1 @ (?c2 @ ?p2 @ ?c3 @ ?p3 @ ?c4 @ ?p4)) + length (tc_whole cst) < 2 ^ 62"
    using l small(3) by simp
  from cpush.push_step [OF st(1) h0 qs(1) P b1 hl(1) refl] obtain m1 d1 t1 n1 q1 s1 where
    1: "ds_pushStream ds cst P (place (head1 P z) ?p1) False 0 = Ok (m1, d1, t1)" "codes q1 n1"
      "length q1 = length ?p1" "section_ok unz (tc_whole cst) n1 s1" "P = None \<longrightarrow> n1 = 0" "length s1 \<le> length (tc_whole cst)"
      "u.ds_holds d1 (head1 P z @ q1 @ (?c2 @ ?p2 @ ?c3 @ ?p3 @ ?c4 @ ?p4) @ s1) []" by blast
  have h1: "u.ds_holds d1 (a2 q1 z @ ?p2 @ (?c3 @ ?p3 @ ?c4 @ ?p4 @ s1)) []" using 1(7) by (simp add: a2_def)
  have b2: "length (a2 q1 z @ ?p2 @ (?c3 @ ?p3 @ ?c4 @ ?p4 @ s1)) + length ctrl < 2 ^ 62"
    using l 1(3,6) small(3) by (simp add: a2_def)
  have g2: "0 < length (a2 q1 z)" "length (a2 ?p1 z) = length (a2 q1 z)" using hl(1) 1(3) by (simp_all add: a2_def)
  from vpush.push_step [OF vc(1) h1, unfolded vc(2), OF qs(2) P b2 g2] obtain m2 d2 t2 n2 q2 s2 where
    2: "ds_pushStream d1 (TVectorAsStreamInput ctrl) P (place (a2 ?p1 z) ?p2) False 0 = Ok (m2, d2, t2)"
      "codes q2 n2" "length q2 = length ?p2" "section_ok unz ctrl n2 s2" "P = None \<longrightarrow> n2 = 0" "length s2 \<le> length ctrl"
      "u.ds_holds d2 (a2 q1 z @ q2 @ (?c3 @ ?p3 @ ?c4 @ ?p4 @ s1) @ s2) []" by blast
  have h2: "u.ds_holds d2 (a3 q1 q2 z @ ?p3 @ (?c4 @ ?p4 @ s1 @ s2)) []" using 2(7) by (simp add: a3_def)
  have b3: "length (a3 q1 q2 z @ ?p3 @ (?c4 @ ?p4 @ s1 @ s2)) + length code < 2 ^ 62"
    using l 1(3,6) 2(3,6) small(3) by (simp add: a3_def a2_def)
  have g3: "0 < length (a3 q1 q2 z)" "length (a3 ?p1 ?p2 z) = length (a3 q1 q2 z)" using hl(1) 1(3) 2(3) by (simp_all add: a3_def a2_def)
  from vpush.push_step [OF vd(1) h2, unfolded vd(2), OF qs(3) P b3 g3] obtain m3 d3 t3 n3 q3 s3 where
    3: "ds_pushStream d2 (TVectorAsStreamInput code) P (place (a3 ?p1 ?p2 z) ?p3) False 0 = Ok (m3, d3, t3)"
      "codes q3 n3" "length q3 = length ?p3" "section_ok unz code n3 s3" "P = None \<longrightarrow> n3 = 0" "length s3 \<le> length code"
      "u.ds_holds d3 (a3 q1 q2 z @ q3 @ (?c4 @ ?p4 @ s1 @ s2) @ s3) []" by blast
  have h3: "u.ds_holds d3 (a4 q1 q2 q3 z @ ?p4 @ (s1 @ s2 @ s3)) []" using 3(7) by (simp add: a4_def)
  have b4: "length (a4 q1 q2 q3 z @ ?p4 @ (s1 @ s2 @ s3)) + length (n.nd_whole nst) < 2 ^ 62"
    using l 1(3,6) 2(3,6) 3(3,6) small(3) by (simp add: a4_def a3_def a2_def)
  have g4: "0 < length (a4 q1 q2 q3 z)" "length (a4 ?p1 ?p2 ?p3 z) = length (a4 q1 q2 q3 z)"
    using hl(1) 1(3) 2(3) 3(3) by (simp_all add: a4_def a3_def a2_def)
  from npush.push_step [OF st(2) h3 qs(4) P b4 g4] obtain m4 d4 t4 n4 q4 s4 where
    4: "ds_pushStream d3 nst P (place (a4 ?p1 ?p2 ?p3 z) ?p4) False 0 = Ok (m4, d4, t4)"
      "codes q4 n4" "length q4 = length ?p4" "section_ok unz (n.nd_whole nst) n4 s4" "P = None \<longrightarrow> n4 = 0"
      "length s4 \<le> length (n.nd_whole nst)" "u.ds_holds d4 (a4 q1 q2 q3 z @ q4 @ (s1 @ s2 @ s3) @ s4) []" by blast
  have h4: "u.ds_holds d4 (diffz_head P z q1 q2 q3 q4 @ s1 @ s2 @ s3 @ s4) []" using 4(7) by (simp add: a4_def a3_def a2_def diffz_head_def)
  have h62: "length (diffz_head P z q1 q2 q3 q4 @ s1 @ s2 @ s3 @ s4) < 2 ^ 62"
    using l 1(3,6) 2(3,6) 3(3,6) 4(3,6) small(3) by (simp add: diffz_head_def)
  have none: "P = None \<longrightarrow> n1 = 0 \<and> n2 = 0 \<and> n3 = 0 \<and> n4 = 0" using 1(5) 2(5) 3(5) 4(5) by blast
  show ?thesis
    by (intro exI conjI, rule 1(1), rule 2(1), rule 3(1), rule 4(1), rule h4, rule h62, rule 1(2), rule 2(2), rule 3(2), rule 4(2),
        rule none, rule 1(4), rule 2(4), rule 3(4), rule 4(4))
qed

lemma sub_seq: "seq_stream (sd_of new old)"
  by (rule subDiff_seq)

lemma serialize_compressed_diff_result:
  assumes st: "nok newData" "ook oldData" "uok out" "ucont out = []"
    and new: "new = ncont newData" and old: "old = ocont oldData"
    and fit: "covers_fit cs 0 (length new) (length old)"
    and zero: "sub_bytes False zero cs new old 0 = sub_bytes False False cs new old 0"
    and P: "type_ok P" "pred_option (\<lambda>p. compress_ok p unz) P"
    and small: "length new < 2 ^ 55" "length cs < 2 ^ 55"
  shows "\<exists>out' d. serialize_compressed_diff newData oldData zero cs out P = Ok out' \<and> uok out' \<and> ucont out' = d \<and> length d < 2 ^ 62 \<and>
    (\<forall>can. (P \<noteq> None \<longrightarrow> can (plugin_type P)) \<longrightarrow> diffz_spec can unz (length new) old d = Some (new, True))"
proof -
  let ?sb = "sub_bytes False False cs new old 0" and ?g = "gap_bytes cs new 0" and ?cc = "cover_code cs 0 0"
  have nb: "length new < 2 ^ 64" "length old < 2 ^ 64" using n.contents_size [OF st(1)] o.contents_size [OF st(2)] new old by auto
  have sl: "length ?sb = length new" using sub_bytes_length [OF fit] by simp
  have sd: "sd_of new old (TNewDataSubDiffStream_make newData oldData cs False zero) 0 ?sb"
    using subDiff_make_sok [OF st(1,2), of cs zero] fit zero new old by simp
  obtain ctrl code sub where rle: "bytesRLE_save_stream [] [] (TNewDataSubDiffStream_make newData oldData cs False zero) kRle_bestSize
        = Ok (ctrl, code, sub)" "\<forall>e. rle_spec e ctrl code = Some ?sb"
      "sd_of new old sub (streamSize (TNewDataSubDiffStream_make newData oldData cs False zero)) []" "length ctrl \<le> 11 * length new"
    using seq_stream.bytesRLE_save_stream_result [OF sub_seq _ _ sd, of kRle_bestSize] sl by (auto simp: kRle_bestSize_def)
  let ?nd = "sd_newData (streamImport sub)" and ?od = "sd_oldData (streamImport sub)"
  have ends: "nok ?nd" "ook ?od" "ncont ?nd = new" "ocont ?od = old" using sd_of_streams [OF rle(3)] by auto
  have szs: "streamSize ?nd = length new" "streamSize ?od = length old"
    using n.contents_size [OF ends(1)] o.contents_size [OF ends(2)] ends(3,4) by auto
  have cl: "length code \<le> length new" using rle_spec_code_length rle(2) sl by metis
  have cs: "coversStream_getDataSize cs = Ok (length ?cc)" "length ?cc \<le> 33 * length cs"
    using getDataSize_from_result [OF fit nb, of 0 0] by (simp_all add: coversStream_getDataSize_def)
  have gs: "newDataDiff_getDataSize cs (length new) = Ok (length ?g)" "length ?g \<le> length new"
    using getDataSize_result [OF fit] gap_bytes_length_le [OF fit] by simp_all
  obtain cst where cst: "TCoversStream_make cs (length ?cc) = Ok cst" "tc_rsok cst 0" "tc_whole cst = ?cc"
    using TCoversStream_make_result [OF fit nb] small(2) by auto
  let ?nst = "newDataDiff_stream cs ?nd 0 0 (length ?g)"
  have nst: "n.nd_rsok ?nst 0" "n.nd_whole ?nst = ?g"
    using n.newDataDiff_stream_rsok [OF ends(1), of cs "length old"] fit ends(3) small(1) by auto
  define z where "z = \<lparr>zs_new = length new, zs_old = length old, zs_count = length cs, zs_cover = length ?cc, zs_ctrl = length ctrl,
      zs_code = length code, zs_diff = length ?g\<rparr>"
  have zf: "zs_new z = length new" "zs_old z = length old" "zs_count z = length cs" "zs_cover z = length ?cc" "zs_ctrl z = length ctrl"
      "zs_code z = length code" "zs_diff z = length ?g" by (simp_all add: z_def)
  have z: "sizes_ok z" using nb small rle(4) cl cs(2) gs(2) by (simp add: sizes_ok_def zf)
  have "u.ds_holds \<lparr>ds_out_diff = out, ds_writePos = 0\<rparr> [] []" using st(3,4) by (simp add: u.ds_holds_def)
  note head = u.diffz_write_head_result [OF this z P(1)]
  have b: "length (tc_whole cst) + length ctrl + length code + length (n.nd_whole ?nst) + 1000 < 2 ^ 62"
    using cst(3) nst(2) small rle(4) cl cs(2) gs(2) by simp
  have zw: "zs_cover z = length (tc_whole cst)" "zs_diff z = length (n.nd_whole ?nst)" using zf cst(3) nst(2) by simp_all
  have pc: "parse_store Streaming True (length cs) [?cc] 0 0 0 0 0 = Some cs" by (rule parse_cover_code [OF fit nb]) simp
  have ap: "apply_covers old ?sb (length new) cs ?g 0 = Some new" using apply_covers_sub_gap [OF fit, of "[]"] by simp
  from head show ?thesis
  proof (elim exE conjE, goal_cases)
    case h: (1 ds)
    from diffz_push_sections [OF h(2) cst(2) nst(1) zw(1) zf(5,6) zw(2) z P(1) b P(2)] show ?case
    proof (elim exE conjE, goal_cases)
      case p: (1 m1 d1 t1 m2 d2 t2 m3 d3 t3 m4 d4 t4 q1 q2 q3 q4 n1 n2 n3 n4 s1 s2 s3 s4)
      have "serialize_compressed_diff newData oldData zero cs out P = Ok (ds_out_diff d4)"
        using rle(1) szs cs(1) gs(1) h(1) cst(1) p(1-4) by (simp add: serialize_compressed_diff_def zf Let_def)
      moreover have "diffz_spec can unz (length new) old (diffz_head P z q1 q2 q3 q4 @ s1 @ s2 @ s3 @ s4) = Some (new, True)"
        if "P \<noteq> None \<longrightarrow> can (plugin_type P)" for can
        by (rule diffz_read_back [OF z P(1) p(7-10) p(12-15), unfolded cst(3) nst(2), OF zf, where r = ?sb])
          (use p(11) that pc rle(2) sl ap in auto)
      ultimately show ?case using p(5,6) by (auto simp: u.ds_holds_def)
    qed
  qed
qed

end

interpretation vec_diffz: diffz_writer mem_in_ok streamImport mem_in_ok streamImport vec_ok ostreamImport
  by intro_locales

section \<open>Creating a compressed diff\<close>

text \<open>\<open>create_compressed_diff\<close> into a vector, without a listener.\<close>

definition create_compressed_diff ::
  "(byte list \<Rightarrow> byte list \<Rightarrow> hpatch_TCover list) \<Rightarrow> byte list \<Rightarrow> byte list \<Rightarrow> byte list \<Rightarrow> hdiff_TCompress option \<Rightarrow> byte list res" where
  "create_compressed_diff search newData oldData out_diff compressPlugin =
     rbind (get_diff_default newData oldData (search newData oldData)) (\<lambda>covers.
     rbind (serialize_compressed_diff (mem_as_hStreamInput newData) (mem_as_hStreamInput oldData) False covers
              (TVectorAsStreamOutput out_diff) compressPlugin) (\<lambda>outDiffStream.
     Ok (ostreamImport outDiffStream)))"

lemma get_diff_default_result:
  assumes fit: "covers_fit searched 0 (length new) (length old)" "\<forall>c \<in> set searched. 0 < coverLength c"
    and new: "length new < 2 ^ 64" and old: "length old < 2 ^ 64"
  shows "\<exists>cs. get_diff_default new old searched = Ok cs \<and> covers_fit cs 0 (length new) (length old) \<and> length cs \<le> length new \<and>
    (\<forall>c \<in> set cs. 0 < coverLength c)"
proof -
  let ?cs = "concat (map (split_cover kDefaultLimitCoverLen) searched)"
  have k: "kDefaultLimitCoverLen = 2 ^ 30" by (simp add: kDefaultLimitCoverLen_def push_bit_eq_mult)
  have f: "covers_fit ?cs 0 (length new) (length old)" by (rule split_covers_fit [OF fit(1)])
  have p: "\<forall>c \<in> set ?cs. 0 < coverLength c" using split_cover_limit [of kDefaultLimitCoverLen] fit(2) by (fastforce simp: k)
  have l: "length ?cs \<le> length new" using covers_fit_count [OF f p] by simp
  have "limitCoverLenth searched kDefaultLimitCoverLen = Ok ?cs"
    by (rule limitCoverLenth_result) (use l new in \<open>simp_all add: k\<close>)
  moreover have "assert_covers_safe ?cs (length new) (length old) = Ok ()"
    unfolding assert_covers_safe_def by (rule assert_covers_safe_fit [OF f p new old])
  ultimately have "get_diff_default new old searched = Ok ?cs" by (simp add: get_diff_default_def)
  then show ?thesis using f l p by blast
qed

lemma create_compressed_diff_result:
  assumes fit: "covers_fit (search new old) 0 (length new) (length old)" "\<forall>c \<in> set (search new old). 0 < coverLength c"
    and P: "type_ok P" "pred_option (\<lambda>p. compress_ok p unz) P"
    and small: "length new < 2 ^ 55" "length old < 2 ^ 64"
  shows "\<exists>d. create_compressed_diff search new old [] P = Ok d \<and> length d < 2 ^ 62 \<and>
    (\<forall>can. (P \<noteq> None \<longrightarrow> can (plugin_type P)) \<longrightarrow> diffz_spec can unz (length new) old d = Some (new, True))"
proof -
  have "length new < 2 ^ 64" using small(1) by simp
  from get_diff_default_result [OF fit this small(2)] obtain cs where cs: "get_diff_default new old (search new old) = Ok cs"
    "covers_fit cs 0 (length new) (length old)" "length cs \<le> length new" by blast
  have c55: "length cs < 2 ^ 55" using cs(3) small(1) by linarith
  have m: "streamImport (mem_as_hStreamInput x) = x" for x by (simp add: mem_as_hStreamInput_def)
  have i: "mem_in_ok (mem_as_hStreamInput new)" "mem_in_ok (mem_as_hStreamInput old)" using small by simp_all
  obtain out' where "serialize_compressed_diff (mem_as_hStreamInput new) (mem_as_hStreamInput old) False cs (TVectorAsStreamOutput []) P = Ok out'"
      "length (ostreamImport out') < 2 ^ 62"
      "\<forall>can. (P \<noteq> None \<longrightarrow> can (plugin_type P)) \<longrightarrow> diffz_spec can unz (length new) old (ostreamImport out') = Some (new, True)"
    using vec_diffz.serialize_compressed_diff_result [OF i TVectorAsStreamOutput_ok(1) TVectorAsStreamOutput_ok(2) refl refl, unfolded m,
        OF cs(2) refl P small(1) c55] by blast
  then show ?thesis using cs(1) by (simp add: create_compressed_diff_def)
qed

section \<open>Properties\<close>

text \<open>C31: a compressed diff that \<open>create_compressed_diff\<close> writes, with or without a compressor, is read
  by \<open>patch_decompress\<close> with the matching decompressor, which makes the new data out of the old data;
  whether a section is kept compressed, or compressing it was given up half-way, changes nothing.\<close>

theorem create_compressed_diff_roundtrip:
  fixes D :: "(byte list, 'h) hpatch_TDecompress option"
  assumes "covers_fit (search new old) 0 (length new) (length old)" "\<forall>c \<in> set (search new old). 0 < coverLength c"
    and "type_ok P" "pred_option (\<lambda>p. compress_ok p unz) P"
    and "case D of None \<Rightarrow> P = None | Some D \<Rightarrow> decompress_ok D mem_in_ok streamImport unz hok hrest \<and> is_can_open D (plugin_type P)"
    and "length new < 2 ^ 55" "length old < 2 ^ 64" "length buf = length new" "a < 2 ^ 61"
  shows "\<exists>d. create_compressed_diff search new old [] P = Ok d \<and>
    patch_decompress a (mem_as_hStreamOutput buf) (mem_as_hStreamInput old) (mem_as_hStreamInput d) D = Ok (mem_as_hStreamOutput new)"
proof -
  obtain d where d: "create_compressed_diff search new old [] P = Ok d" "length d < 2 ^ 62"
      "\<forall>can. (P \<noteq> None \<longrightarrow> can (plugin_type P)) \<longrightarrow> diffz_spec can unz (length new) old d = Some (new, True)"
    using create_compressed_diff_result [where search = search, OF assms(1-4,6,7)] by blast
  let ?can = "\<lambda>t. case D of None \<Rightarrow> False | Some D \<Rightarrow> is_can_open D t"
  have "diffz_spec ?can unz (length buf) old d = Some (new, True)"
    using d(3) assms(5,8) by (auto split: option.splits)
  moreover have D: "case D of None \<Rightarrow> True | Some D \<Rightarrow> decompress_ok D mem_in_ok streamImport unz hok hrest"
    using assms(5) by (auto split: option.splits)
  moreover have "a + 1560 \<le> a + hpatch_kStreamCacheSize * kCacheDecCount" "a + hpatch_kStreamCacheSize * kCacheDecCount < 2 ^ 63"
    using assms(9) by (simp_all add: hpatch_kStreamCacheSize_def kCacheDecCount_def)
  moreover have "length d < 2 ^ 64" "length buf < 2 ^ 63" using d(2) assms(6,8) by simp_all
  ultimately show ?thesis using patch_decompress_mem [OF D assms(7), of d buf a] d(1)
    by (fastforce simp: patch_decompress_def Let_def)
qed

text \<open>A compressor for runs of zeros, and its decompressor, whose handle is what it has still to deliver.\<close>

definition zeros_unz :: "nat \<Rightarrow> byte list \<Rightarrow> byte list option" where
  "zeros_unz n code = (if length code = 1 then Some (replicate (unat (hd code)) 0) else None)"

definition zeros_compress :: hdiff_TCompress where
  "zeros_compress =
     \<lparr>cp_compressType = [0x7A], cp_maxCompressedSize = (\<lambda>n. n), cp_bufSize = 4096,
      cp_code = (\<lambda>data. if data = replicate (length data) 0 \<and> 0 < length data \<and> length data < 256
                        then ([[of_nat (length data)]], 1) else ([], 0))\<rparr>"

definition zeros_plugin :: "(byte list, byte list) hpatch_TDecompress" where
  "zeros_plugin =
     \<lparr>is_can_open = (\<lambda>t. t = [0x7A]),
      dec_open = (\<lambda>n st b e. zeros_unz n (take (e - b) (drop b (streamImport st)))),
      dec_close = (\<lambda>h. True),
      decompress_part = (\<lambda>h n. if n \<le> length h then Ok (take n h, drop n h) else Fail),
      reset_code = None\<rparr>"

lemma zeros_compress_ok: "compress_ok zeros_compress zeros_unz"
proof -
  have "replicate (unat (of_nat (length data) :: byte)) 0 = data" if "data = replicate (length data) 0" "length data < 256" for data :: "byte list"
    using that by (simp add: unat_byte_of_nat)
  then show ?thesis by (auto simp: compress_ok_def zeros_compress_def zeros_unz_def)
qed

lemma zeros_plugin_ok: "decompress_ok zeros_plugin mem_in_ok streamImport zeros_unz (\<lambda>h. True) (\<lambda>h. h)"
  by (auto simp: decompress_ok_def zeros_plugin_def split: option.split)

theorem create_compressed_diff_roundtrip_witness:
  "\<exists>d. create_compressed_diff (\<lambda>new old. []) (replicate 40 0) [] [] (Some zeros_compress) = Ok d \<and>
    patch_decompress 0 (mem_as_hStreamOutput (replicate 40 1)) (mem_as_hStreamInput []) (mem_as_hStreamInput d) (Some zeros_plugin)
      = Ok (mem_as_hStreamOutput (replicate 40 0))"
proof -
  have t: "plugin_type (Some zeros_compress) = [0x7A]" by (simp add: plugin_type_def zeros_compress_def c_str_def)
  show ?thesis
  proof (rule create_compressed_diff_roundtrip [where unz = zeros_unz and hok = "\<lambda>h. True" and hrest = "\<lambda>h. h"], goal_cases)
    case 5
    show ?case using zeros_plugin_ok t by (simp add: zeros_plugin_def)
  qed (use t zeros_compress_ok in \<open>simp_all add: type_ok_def hpatch_kMaxPluginTypeLength_def\<close>)
qed

end
