(* ===== verification/StepStream.thy ===== *)
theory StepStream
  imports DiffzSave BytesRle0
begin

text \<open>
  \<open>TStepStream\<close> of \<open>stream_serialize.cpp\<close>: the stream of the steps of a single-stream diff.  A step
  holds the codes of some covers, the zero-run code of the differences under them and the new data
  between them; covers are added to a step as long as its codes fit the step memory, and a cover too
  long for a step is cut in two.  The steps are made twice, first to learn their number, sizes and
  memory, then again whenever the stream is read.
\<close>

section \<open>The differences under a cover\<close>

record ('n, 'o) TNewDataSubDiffCoverStream =
  dc_isZeroSubDiff :: bool
  dc_inStreamLen :: nat
  dc_curDataLen :: nat
  dc_newStream :: "'n hpatch_TStreamInput"
  dc_oldStream :: "'o hpatch_TStreamInput"
  dc_cover :: hpatch_TCover
  dc_newData :: "byte list"
  dc_oldData :: "byte list"

text \<open>The object is its own stream, so its functions change both the state and the size of the stream.\<close>

type_synonym ('n, 'o) cover_stream = "('n, 'o) TNewDataSubDiffCoverStream hpatch_TStreamInput"

definition subCover_initRead :: "('n, 'o) cover_stream \<Rightarrow> ('n, 'o) cover_stream" where
  "subCover_initRead st =
     (let len = coverLength (dc_cover (streamImport st)) in
      st\<lparr>streamSize := len, streamImport := (streamImport st)\<lparr>dc_inStreamLen := len, dc_curDataLen := 0\<rparr>\<rparr>)"

definition resetCover :: "('n, 'o) cover_stream \<Rightarrow> hpatch_TCover \<Rightarrow> ('n, 'o) cover_stream" where
  "resetCover st c = subCover_initRead (st\<lparr>streamImport := (streamImport st)\<lparr>dc_cover := c\<rparr>\<rparr>)"

definition resetCoverLen :: "('n, 'o) cover_stream \<Rightarrow> nat \<Rightarrow> ('n, 'o) cover_stream" where
  "resetCoverLen st coverLen =
     (let self = streamImport st;
          skipLen = coverLength (dc_cover self) - (dc_curDataLen self + dc_inStreamLen self);
          self' = self\<lparr>dc_cover := (dc_cover self)\<lparr>coverLength := coverLen\<rparr>\<rparr>
      in if coverLen \<le> skipLen then subCover_initRead (st\<lparr>streamImport := self'\<rparr>)
         else
           let curDataLen = (if coverLen < skipLen + dc_curDataLen self then coverLen - skipLen else dc_curDataLen self)
           in st\<lparr>streamSize := coverLen,
                 streamImport := self'\<lparr>dc_curDataLen := curDataLen, dc_inStreamLen := coverLen - (skipLen + curDataLen)\<rparr>\<rparr>)"

definition subCover_updateCache ::
  "('n, 'o) TNewDataSubDiffCoverStream \<Rightarrow> nat \<Rightarrow> ('n, 'o) TNewDataSubDiffCoverStream res" where
  "subCover_updateCache self readFromPos =
     (let len = coverLength (dc_cover self) in
      rbind (require (readFromPos < len)) (\<lambda>_.
      let curDataLen = (if kSubDiffCacheSize + readFromPos > len then len - readFromPos else kSubDiffCacheSize) in
      rbind (sread (dc_newStream self) (add64 (newPos (dc_cover self)) readFromPos) curDataLen) (\<lambda>(newData, newStream).
      rbind (sread (dc_oldStream self) (add64 (oldPos (dc_cover self)) readFromPos) curDataLen) (\<lambda>(oldData, oldStream).
      Ok (self\<lparr>dc_curDataLen := curDataLen, dc_inStreamLen := len - (curDataLen + readFromPos),
               dc_newData := newData, dc_newStream := newStream, dc_oldData := oldData, dc_oldStream := oldStream\<rparr>)))))"

lemma updateCache_fields:
  "subCover_updateCache self pos = Ok self' \<Longrightarrow>
   pos < coverLength (dc_cover self) \<and> dc_cover self' = dc_cover self \<and> 0 < dc_curDataLen self' \<and>
   dc_curDataLen self' + pos \<le> coverLength (dc_cover self) \<and>
   dc_inStreamLen self' = coverLength (dc_cover self) - (dc_curDataLen self' + pos)"
  by (auto simp: subCover_updateCache_def Let_def rbind_eq_Ok require_def kSubDiffCacheSize_def split: if_splits)

text \<open>The part of the cover before the cached part is \<open>skipLen\<close>.\<close>

definition subCover_skipLen :: "('n, 'o) TNewDataSubDiffCoverStream \<Rightarrow> nat" where
  "subCover_skipLen self = coverLength (dc_cover self) - (dc_curDataLen self + dc_inStreamLen self)"

definition subCover_ready ::
  "('n, 'o) TNewDataSubDiffCoverStream \<Rightarrow> nat \<Rightarrow> ('n, 'o) TNewDataSubDiffCoverStream res" where
  "subCover_ready self readFromPos =
     (if readFromPos < subCover_skipLen self \<or> readFromPos \<ge> subCover_skipLen self + dc_curDataLen self
      then subCover_updateCache self readFromPos else Ok self)"

lemma subCover_ready_piece:
  assumes "subCover_ready self pos = Ok self'"
  shows "subCover_skipLen self' \<le> pos \<and> pos < subCover_skipLen self' + dc_curDataLen self'"
  using assms updateCache_fields [of self pos self']
  by (auto simp: subCover_ready_def subCover_skipLen_def split: if_splits)

function subCover_readTo ::
  "('n, 'o) TNewDataSubDiffCoverStream \<Rightarrow> nat \<Rightarrow> nat \<Rightarrow> (byte list \<times> ('n, 'o) TNewDataSubDiffCoverStream) res" where
  "subCover_readTo self readFromPos readLen =
     (if readLen > 0 then
        rbind (subCover_ready self readFromPos) (\<lambda>self.
        let srcPos = readFromPos - subCover_skipLen self;
            len = min (dc_curDataLen self - srcPos) readLen in
        rbind (require (srcPos + len \<le> length (dc_newData self) \<and> srcPos + len \<le> length (dc_oldData self))) (\<lambda>_.
        let out_data = bytes_sub (take len (drop srcPos (dc_newData self))) (take len (drop srcPos (dc_oldData self))) in
        rbind (subCover_readTo self (readFromPos + len) (readLen - len)) (\<lambda>(r, self).
        Ok (out_data @ r, self))))
      else Ok ([], self))"
  by pat_completeness auto
termination
  by (relation "measure (\<lambda>(self, p, n). n)") (auto dest!: subCover_ready_piece)

declare subCover_readTo.simps [simp del]

definition subCover_read ::
  "('n, 'o) TNewDataSubDiffCoverStream \<Rightarrow> nat \<Rightarrow> nat \<Rightarrow> nat \<Rightarrow> (byte list \<times> ('n, 'o) TNewDataSubDiffCoverStream) res" where
  "subCover_read self streamSz readFromPos len =
     (if dc_isZeroSubDiff self then Ok (replicate len 0, self) else subCover_readTo self readFromPos len)"

definition TNewDataSubDiffCoverStream_make ::
  "'n hpatch_TStreamInput \<Rightarrow> 'o hpatch_TStreamInput \<Rightarrow> bool \<Rightarrow> ('n, 'o) cover_stream" where
  "TNewDataSubDiffCoverStream_make newStream oldStream isZeroSubDiff =
     subCover_initRead
       \<lparr>streamImport = \<lparr>dc_isZeroSubDiff = isZeroSubDiff, dc_inStreamLen = 0, dc_curDataLen = 0, dc_newStream = newStream,
          dc_oldStream = oldStream, dc_cover = \<lparr>oldPos = 0, newPos = 0, coverLength = 0\<rparr>, dc_newData = [], dc_oldData = []\<rparr>,
        streamSize = 0, read = subCover_read\<rparr>"

section \<open>A clip of a stream, compressed or not\<close>

record ('s, 'h) TStreamClip =
  tsc_src :: "'s hpatch_TStreamInput"
  tsc_src_begin :: nat
  tsc_src_end :: nat
  tsc_decompressPlugin :: "('s, 'h) hpatch_TDecompress option"
  tsc_decompressHandle :: "'h option"
  tsc_read_uncompress_pos :: nat

text \<open>A handle is closed once; \<open>openDecompressHandle\<close> is given the size of the stream.\<close>

definition tsc_closeDecompressHandle :: "('s, 'h) TStreamClip \<Rightarrow> ('s, 'h) TStreamClip res" where
  "tsc_closeDecompressHandle self =
     rbind (case tsc_decompressHandle self of
              None \<Rightarrow> Ok ()
            | Some handle \<Rightarrow>
                (case tsc_decompressPlugin self of None \<Rightarrow> Fault | Some P \<Rightarrow> check (dec_close P handle))) (\<lambda>_.
     Ok (self\<lparr>tsc_decompressHandle := None\<rparr>))"

definition tsc_openDecompressHandle :: "('s, 'h) TStreamClip \<Rightarrow> nat \<Rightarrow> ('s, 'h) TStreamClip res" where
  "tsc_openDecompressHandle self streamSz =
     rbind (require (tsc_decompressHandle self = None)) (\<lambda>_.
     case tsc_decompressPlugin self of
       None \<Rightarrow> Fault
     | Some P \<Rightarrow>
         (case dec_open P streamSz (tsc_src self) (tsc_src_begin self) (tsc_src_end self) of
            None \<Rightarrow> Fail
          | Some handle \<Rightarrow> Ok (self\<lparr>tsc_decompressHandle := Some handle\<rparr>)))"

definition tsc_clip_read ::
  "('s, 'h) TStreamClip \<Rightarrow> nat \<Rightarrow> nat \<Rightarrow> nat \<Rightarrow> (byte list \<times> ('s, 'h) TStreamClip) res" where
  "tsc_clip_read self streamSz readFromPos readLen =
     rbind (require (0 < readLen)) (\<lambda>_.
     rbind (if readFromPos \<noteq> tsc_read_uncompress_pos self then
              if tsc_decompressPlugin self \<noteq> None then
                rbind (check (readFromPos = 0)) (\<lambda>_.
                rbind (tsc_closeDecompressHandle self) (\<lambda>self.
                rbind (tsc_openDecompressHandle self streamSz) (\<lambda>self.
                Ok (self\<lparr>tsc_read_uncompress_pos := 0\<rparr>))))
              else Ok (self\<lparr>tsc_read_uncompress_pos := readFromPos\<rparr>)
            else Ok self) (\<lambda>self.
     rbind (require (readFromPos + readLen \<le> streamSz)) (\<lambda>_.
     let self = self\<lparr>tsc_read_uncompress_pos := tsc_read_uncompress_pos self + readLen\<rparr> in
     case tsc_decompressPlugin self of
       Some P \<Rightarrow>
         (case tsc_decompressHandle self of
            None \<Rightarrow> Fault
          | Some handle \<Rightarrow>
              rbind (decompress_part P handle readLen) (\<lambda>(d, handle).
              Ok (d, self\<lparr>tsc_decompressHandle := Some handle\<rparr>)))
     | None \<Rightarrow>
         rbind (sread (tsc_src self) (add64 (tsc_src_begin self) readFromPos) readLen) (\<lambda>(d, src).
         Ok (d, self\<lparr>tsc_src := src\<rparr>)))))"

definition tsc_clear :: "('s, 'h) TStreamClip hpatch_TStreamInput \<Rightarrow> ('s, 'h) TStreamClip hpatch_TStreamInput res" where
  "tsc_clear st =
     rbind (tsc_closeDecompressHandle (streamImport st)) (\<lambda>self. Ok (st\<lparr>streamImport := self, streamSize := 0\<rparr>))"

text \<open>A clip that has not been set.\<close>

definition TStreamClip_init :: "'s hpatch_TStreamInput \<Rightarrow> ('s, 'h) TStreamClip hpatch_TStreamInput" where
  "TStreamClip_init src =
     \<lparr>streamImport = \<lparr>tsc_src = src, tsc_src_begin = 0, tsc_src_end = 0, tsc_decompressPlugin = None,
        tsc_decompressHandle = None, tsc_read_uncompress_pos = 0\<rparr>, streamSize = 0, read = tsc_clip_read\<rparr>"

definition tsc_reset ::
  "('s, 'h) TStreamClip hpatch_TStreamInput \<Rightarrow> 's hpatch_TStreamInput \<Rightarrow> nat \<Rightarrow> nat \<Rightarrow> ('s, 'h) hpatch_TDecompress option \<Rightarrow>
   nat \<Rightarrow> ('s, 'h) TStreamClip hpatch_TStreamInput res" where
  "tsc_reset st src clipBeginPos clipEndPos decompressPlugin uncompressSize =
     rbind (tsc_clear st) (\<lambda>st.
     rbind (require (clipBeginPos \<le> clipEndPos)) (\<lambda>_.
     rbind (require (clipEndPos \<le> streamSize src)) (\<lambda>_.
     let self = \<lparr>tsc_src = src, tsc_src_begin = clipBeginPos, tsc_src_end = clipEndPos, tsc_decompressPlugin = decompressPlugin,
                 tsc_decompressHandle = None, tsc_read_uncompress_pos = 0\<rparr>;
         uncompressSize = (if uncompressSize = 0 \<and> decompressPlugin = None then clipEndPos - clipBeginPos else uncompressSize) in
     rbind (if decompressPlugin \<noteq> None then tsc_openDecompressHandle self uncompressSize else Ok self) (\<lambda>self.
     Ok \<lparr>streamImport = self, streamSize = uncompressSize, read = tsc_clip_read\<rparr>))))"

section \<open>The steps\<close>

text \<open>
  \<open>newDataDiff\<close> is reached through \<open>step_dataDiff\<close>, the clip of it that a step takes.  \<open>pCurCover\<close>
  points at the cover to be added next, which does not change as long as it does.
\<close>

record ('n, 'o) TStepStream =
  ts_subDiff :: "('n, 'o) cover_stream"
  ts_covers :: "hpatch_TCover list"
  ts_patchStepMemSize :: nat
  ts_newDataSize :: nat
  ts_curCoverCount :: nat
  ts_endCoverCount :: nat
  ts_curMaxStepMemSize :: nat
  ts_endMaxStepMemSize :: nat
  ts_lastOldEnd :: nat
  ts_lastNewEnd :: nat
  ts_bufCover :: "byte list"
  ts_bufRle :: TSingleStreamRLE0
  ts_dataDiffSize :: nat
  ts_newDataDiffReadPos :: nat
  ts_isHaveLastCover :: bool
  ts_isHaveLeftCover :: bool
  ts_isHaveRightCover :: bool
  ts_lastCover :: hpatch_TCover
  ts_leftCover :: hpatch_TCover
  ts_rightCover :: hpatch_TCover
  ts_cur_i :: nat
  ts_cover :: hpatch_TCover
  ts_pCurCover :: "hpatch_TCover option"
  ts_isInInit :: bool
  ts_sumBufSize :: nat
  ts_bufCover_size :: nat
  ts_step_buf :: "byte list"
  ts_dataDiff :: "('n TNewDataDiffStream, unit) TStreamClip hpatch_TStreamInput"
  ts_readFromPosBack :: nat
  ts_readBufPos :: nat

text \<open>\<open>step_bufCover_size\<close> counts the codes; only the second pass writes them.\<close>

definition step_put_oldPos :: "('n, 'o) TStepStream \<Rightarrow> ('n, 'o) TStepStream res" where
  "step_put_oldPos self =
     (let (inc, sign) = (if oldPos (ts_cover self) \<ge> ts_lastOldEnd self then (oldPos (ts_cover self) - ts_lastOldEnd self, 0)
                         else (ts_lastOldEnd self - oldPos (ts_cover self), 1)) in
      if ts_isInInit self then Ok (self\<lparr>ts_bufCover_size := ts_bufCover_size self + hpatch_packUIntWithTag_size inc 1\<rparr>)
      else rbind (packUIntWithTag (ts_bufCover self) inc sign 1) (\<lambda>buf. Ok (self\<lparr>ts_bufCover := buf\<rparr>)))"

definition step_put_cover :: "('n, 'o) TStepStream \<Rightarrow> ('n, 'o) TStepStream res" where
  "step_put_cover self =
     (let backNewLen = sub64 (newPos (ts_cover self)) (ts_lastNewEnd self); len = coverLength (ts_cover self) in
      rbind (step_put_oldPos self) (\<lambda>self.
      if ts_isInInit self then
        Ok (self\<lparr>ts_bufCover_size := ts_bufCover_size self + (hpatch_packUInt_size backNewLen + hpatch_packUInt_size len)\<rparr>)
      else
        rbind (packUInt (ts_bufCover self) backNewLen) (\<lambda>buf.
        rbind (packUInt buf len) (\<lambda>buf.
        Ok (self\<lparr>ts_bufCover := buf, ts_bufCover_size := length buf\<rparr>)))))"

text \<open>\<open>curMaxNeedSize\<close>: the memory of the step with the cover.\<close>

definition step_needSize :: "('n, 'o) TStepStream \<Rightarrow> (nat \<times> ('n, 'o) TStepStream) res" where
  "step_needSize self =
     rbind (if dc_isZeroSubDiff (streamImport (ts_subDiff self)) then
              rbind (maxCodeSizeByZeroLen (ts_bufRle self) (streamSize (ts_subDiff self))) (\<lambda>n. Ok (n, ts_subDiff self))
            else maxCodeSize_stream (ts_bufRle self) (ts_subDiff self)) (\<lambda>(codeSize, subDiff).
     Ok (add64 (ts_bufCover_size self) codeSize, self\<lparr>ts_subDiff := subDiff\<rparr>))"

definition step_append_rle :: "('n, 'o) TStepStream \<Rightarrow> ('n, 'o) TStepStream res" where
  "step_append_rle self =
     (if dc_isZeroSubDiff (streamImport (ts_subDiff self)) then
        rbind (appendByZeroLen (ts_bufRle self) (streamSize (ts_subDiff self))) (\<lambda>rle. Ok (self\<lparr>ts_bufRle := rle\<rparr>))
      else
        rbind (append_rle0_stream (ts_bufRle self) (ts_subDiff self) (streamSize (ts_subDiff self)) 0) (\<lambda>(rle, subDiff).
        Ok (self\<lparr>ts_bufRle := rle, ts_subDiff := subDiff\<rparr>)))"

text \<open>\<open>_flush_step_code\<close>: the first pass adds up the sizes, the second writes the step.\<close>

definition flush_step_code :: "('n, 'o) TStepStream \<Rightarrow> ('n, 'o) TStepStream res" where
  "flush_step_code self =
     rbind (finishAppend_rle0 (ts_bufRle self)) (\<lambda>rle.
     let curStepMemSize = ts_bufCover_size self + length (s0_fixed_code rle);
         self = self\<lparr>ts_bufRle := rle,
                     ts_curMaxStepMemSize := (if ts_curMaxStepMemSize self < curStepMemSize then curStepMemSize
                                              else ts_curMaxStepMemSize self)\<rparr> in
     rbind (curCodeSize rle) (\<lambda>codeSize.
     rbind (if ts_isInInit self then
              rbind (require (ts_step_buf self = [])) (\<lambda>_.
              Ok (self\<lparr>ts_sumBufSize := add64 (ts_sumBufSize self)
                          (add64 (hpatch_packUInt_size (ts_bufCover_size self) + hpatch_packUInt_size codeSize + curStepMemSize)
                             (streamSize (ts_dataDiff self)))\<rparr>))
            else
              rbind (require (ts_bufCover_size self = length (ts_bufCover self))) (\<lambda>_.
              rbind (packUInt (ts_step_buf self) (length (ts_bufCover self))) (\<lambda>buf.
              rbind (packUInt buf codeSize) (\<lambda>buf.
              Ok (self\<lparr>ts_step_buf := pushBack (pushBack buf (ts_bufCover self)) (s0_fixed_code rle)\<rparr>))))) (\<lambda>self.
     Ok (self\<lparr>ts_bufCover_size := 0, ts_bufCover := [], ts_bufRle := TSingleStreamRLE0_clear rle\<rparr>))))"

text \<open>A flush takes the new data of its covers.\<close>

definition step_take_dataDiff :: "('n, 'o) TStepStream \<Rightarrow> ('n, 'o) TStepStream res" where
  "step_take_dataDiff self =
     rbind (tsc_reset (ts_dataDiff self) (tsc_src (streamImport (ts_dataDiff self)))
              (sub64 (ts_newDataDiffReadPos self) (ts_dataDiffSize self)) (ts_newDataDiffReadPos self) None 0) (\<lambda>dataDiff.
     Ok (self\<lparr>ts_dataDiff := dataDiff, ts_dataDiffSize := 0\<rparr>))"

definition last_flush_step :: "('n, 'o) TStepStream \<Rightarrow> ('n, 'o) TStepStream res" where
  "last_flush_step self =
     rbind (if ts_bufCover_size self > 0 then rbind (step_take_dataDiff self) flush_step_code
            else rbind (require (streamSize (ts_dataDiff self) = 0)) (\<lambda>_.
                 rbind (require (ts_dataDiffSize self = 0)) (\<lambda>_. Ok self))) (\<lambda>self.
     rbind (require (ts_curMaxStepMemSize self \<le> ts_patchStepMemSize self)) (\<lambda>_.
     rbind (require (ts_newDataDiffReadPos self = streamSize (tsc_src (streamImport (ts_dataDiff self))))) (\<lambda>_. Ok self)))"

text \<open>A cover is cut where the codes of its left part fit.\<close>

function step_clip_loop :: "('n, 'o) TStepStream \<Rightarrow> nat \<Rightarrow> (nat \<times> ('n, 'o) TStepStream) res" where
  "step_clip_loop self clen =
     (let clen' = (clen * 3) mod 2 ^ 64 div 4;
          self = self\<lparr>ts_subDiff := resetCoverLen (ts_subDiff self) clen'\<rparr> in
      rbind (check (clen' > 0)) (\<lambda>_.
      rbind (step_needSize self) (\<lambda>(need, self).
      if need \<le> ts_patchStepMemSize self then Ok (clen', self) else step_clip_loop self clen')))"
  by pat_completeness auto
termination
proof (relation "measure snd", goal_cases)
  case (2 self clen clen' self1 u x need self')
  have "clen' \<le> clen * 3 div 4" unfolding 2(1) by (intro div_le_mono mod_less_eq_dividend)
  moreover have "0 < clen'" using 2(3) by (simp add: check_def split: if_splits)
  ultimately have "clen' < clen" by linarith
  then show ?case by simp
qed simp

declare step_clip_loop.simps [simp del]

text \<open>What follows in \<open>doStep\<close>: appending the cover, flushing the step, or cutting the cover.\<close>

definition step_append :: "('n, 'o) TStepStream \<Rightarrow> ('n, 'o) TStepStream res" where
  "step_append self =
     (let backNewLen = sub64 (newPos (ts_cover self)) (ts_lastNewEnd self) in
      rbind (step_append_rle self) (\<lambda>self.
      Ok ((if backNewLen > 0 then self\<lparr>ts_newDataDiffReadPos := ts_newDataDiffReadPos self + backNewLen,
                                       ts_dataDiffSize := ts_dataDiffSize self + backNewLen\<rparr> else self)
          \<lparr>ts_lastOldEnd := add64 (oldPos (ts_cover self)) (coverLength (ts_cover self)),
           ts_lastNewEnd := add64 (newPos (ts_cover self)) (coverLength (ts_cover self)), ts_pCurCover := None\<rparr>)))"

definition step_resize_bufCover :: "('n, 'o) TStepStream \<Rightarrow> nat \<Rightarrow> ('n, 'o) TStepStream" where
  "step_resize_bufCover self n =
     self\<lparr>ts_bufCover_size := n, ts_bufCover := (if ts_isInInit self then ts_bufCover self else take n (ts_bufCover self))\<rparr>"

text \<open>A step of no covers would be flushed again and again: that is a fault.\<close>

definition step_flush :: "('n, 'o) TStepStream \<Rightarrow> nat \<Rightarrow> ('n, 'o) TStepStream res" where
  "step_flush self backSize =
     rbind (require (0 < backSize)) (\<lambda>_.
     rbind (step_take_dataDiff (step_resize_bufCover self backSize)) flush_step_code)"

definition step_clip :: "('n, 'o) TStepStream \<Rightarrow> nat \<Rightarrow> ('n, 'o) TStepStream res" where
  "step_clip self backSize =
     rbind (check (\<not> ts_isHaveLeftCover self \<and> \<not> ts_isHaveRightCover self)) (\<lambda>_.
     let c = ts_cover self in
     rbind (step_clip_loop self (coverLength c)) (\<lambda>(clen, self).
     Ok ((step_resize_bufCover self backSize)
         \<lparr>ts_isHaveLeftCover := True, ts_isHaveRightCover := True, ts_leftCover := c\<lparr>coverLength := clen\<rparr>,
          ts_rightCover := \<lparr>oldPos = oldPos c + clen, newPos = newPos c + clen, coverLength = coverLength c - clen\<rparr>,
          ts_curCoverCount := ts_curCoverCount self + 1, ts_pCurCover := None\<rparr>)))"

definition step_add_cover :: "('n, 'o) TStepStream \<Rightarrow> hpatch_TCover \<Rightarrow> ('n, 'o) TStepStream res" where
  "step_add_cover self c =
     (let backSize = ts_bufCover_size self; self = self\<lparr>ts_cover := c\<rparr> in
      rbind (step_put_cover self) (\<lambda>self.
      rbind (step_needSize (self\<lparr>ts_subDiff := resetCover (ts_subDiff self) c\<rparr>)) (\<lambda>(need, self).
      if need \<le> ts_patchStepMemSize self then step_append self
      else
        rbind (curCodeSize (ts_bufRle self)) (\<lambda>codeSize.
        if add64 backSize codeSize \<ge> ts_patchStepMemSize self div 2 then step_flush self backSize
        else step_clip self backSize))))"

text \<open>\<open>doStep\<close>: the cover to add next.\<close>

definition step_next_cover :: "('n, 'o) TStepStream \<Rightarrow> (hpatch_TCover option \<times> ('n, 'o) TStepStream) res" where
  "step_next_cover self =
     (case ts_pCurCover self of
        Some c \<Rightarrow> Ok (Some c, self)
      | None \<Rightarrow>
          if ts_isHaveLeftCover self then
            Ok (Some (ts_leftCover self), self\<lparr>ts_isHaveLeftCover := False, ts_pCurCover := Some (ts_leftCover self)\<rparr>)
          else if ts_isHaveRightCover self then
            Ok (Some (ts_rightCover self), self\<lparr>ts_isHaveRightCover := False, ts_pCurCover := Some (ts_rightCover self)\<rparr>)
          else if ts_cur_i self < length (ts_covers self) then
            rbind (cover_at (ts_covers self) (ts_cur_i self)) (\<lambda>c.
            Ok (Some c, self\<lparr>ts_cur_i := ts_cur_i self + 1, ts_cover := c, ts_pCurCover := Some c\<rparr>))
          else if ts_isHaveLastCover self then
            Ok (Some (ts_lastCover self), self\<lparr>ts_isHaveLastCover := False, ts_pCurCover := Some (ts_lastCover self)\<rparr>)
          else Ok (None, self))"

definition step_doStep :: "('n, 'o) TStepStream \<Rightarrow> (bool \<times> ('n, 'o) TStepStream) res" where
  "step_doStep self =
     rbind (step_next_cover self) (\<lambda>(c, self).
     case c of
       Some c \<Rightarrow> rbind (step_add_cover self c) (\<lambda>self. Ok (True, self))
     | None \<Rightarrow>
         if ts_bufCover_size self > 0 then rbind (last_flush_step self) (\<lambda>self. Ok (True, self))
         else Ok (False, self))"

section \<open>The loops over the steps end\<close>

text \<open>
  Adding a cover takes it from those that are left, and cutting it leaves less of it; flushing leaves
  them, but takes what the step has.
\<close>

definition cover_weight :: "hpatch_TCover \<Rightarrow> nat" where
  "cover_weight c = (if coverLength c = 0 then 1 else 2 * coverLength c - 1)"

definition step_queue :: "('n, 'o) TStepStream \<Rightarrow> hpatch_TCover list" where
  "step_queue self =
     (case ts_pCurCover self of None \<Rightarrow> [] | Some c \<Rightarrow> [c]) @
     (if ts_isHaveLeftCover self then [ts_leftCover self] else []) @
     (if ts_isHaveRightCover self then [ts_rightCover self] else []) @
     drop (ts_cur_i self) (ts_covers self) @ (if ts_isHaveLastCover self then [ts_lastCover self] else [])"

definition step_weight :: "('n, 'o) TStepStream \<Rightarrow> nat" where
  "step_weight self = sum_list (map cover_weight (step_queue self))"

text \<open>The fields that say which covers are left, and the one being added.\<close>

definition step_covers_of ::
  "('n, 'o) TStepStream \<Rightarrow> (hpatch_TCover option \<times> hpatch_TCover) \<times> (bool \<times> hpatch_TCover) \<times> (bool \<times> hpatch_TCover) \<times>
     (bool \<times> hpatch_TCover) \<times> nat \<times> hpatch_TCover list" where
  "step_covers_of self =
     ((ts_pCurCover self, ts_cover self), (ts_isHaveLeftCover self, ts_leftCover self), (ts_isHaveRightCover self, ts_rightCover self),
      (ts_isHaveLastCover self, ts_lastCover self), ts_cur_i self, ts_covers self)"

lemma put_cover_same: "step_put_cover self = Ok self' \<Longrightarrow> step_covers_of self' = step_covers_of self"
  by (auto simp: step_put_cover_def step_put_oldPos_def Let_def rbind_eq_Ok step_covers_of_def split: prod.splits if_splits)

lemma needSize_same: "step_needSize self = Ok (n, self') \<Longrightarrow> step_covers_of self' = step_covers_of self"
  by (auto simp: step_needSize_def rbind_eq_Ok step_covers_of_def)

lemma append_rle_same: "step_append_rle self = Ok self' \<Longrightarrow> step_covers_of self' = step_covers_of self"
  by (auto simp: step_append_rle_def rbind_eq_Ok step_covers_of_def split: if_splits)

lemma take_dataDiff_same: "step_take_dataDiff self = Ok self' \<Longrightarrow> step_covers_of self' = step_covers_of self"
  by (auto simp: step_take_dataDiff_def rbind_eq_Ok step_covers_of_def)

lemma flush_same:
  assumes "flush_step_code self = Ok self'"
  shows "step_covers_of self' = step_covers_of self \<and> ts_bufCover_size self' = 0"
proof -
  from assms show ?thesis unfolding flush_step_code_def Let_def rbind_eq_Ok
  proof (elim exE conjE, goal_cases)
    case (1 rle n self1)
    have "step_covers_of self1 = step_covers_of self"
    proof (cases "ts_isInInit self")
      case True
      then show ?thesis using 1(3) by (clarsimp simp: rbind_eq_Ok step_covers_of_def)
    next
      case False
      then show ?thesis using 1(3) by (clarsimp simp: rbind_eq_Ok step_covers_of_def)
    qed
    moreover have "step_covers_of self' = step_covers_of self1" "ts_bufCover_size self' = 0"
      using 1(4) by (auto simp: step_covers_of_def)
    ultimately show ?case by simp
  qed
qed

lemma clip_loop_same:
  "step_clip_loop self clen = Ok (clen', self') \<Longrightarrow> step_covers_of self' = step_covers_of self \<and> 0 < clen' \<and> clen' < clen"
proof (induction self clen rule: step_clip_loop.induct)
  case (1 self clen)
  let ?c = "clen * 3 mod 2 ^ 64 div 4"
  from "1.prems" obtain need self1 where s: "0 < ?c"
    "step_needSize (self\<lparr>ts_subDiff := resetCoverLen (ts_subDiff self) ?c\<rparr>) = Ok (need, self1)"
    "(if need \<le> ts_patchStepMemSize self1 then Ok (?c, self1) else step_clip_loop self1 ?c) = Ok (clen', self')"
    by (subst (asm) step_clip_loop.simps) (auto simp: Let_def rbind_eq_Ok check_def split: if_splits)
  have lt: "?c < clen"
  proof -
    have "?c \<le> clen * 3 div 4" by (intro div_le_mono mod_less_eq_dividend)
    then show ?thesis using s(1) by linarith
  qed
  have same: "step_covers_of self1 = step_covers_of self" using needSize_same [OF s(2)] by (simp add: step_covers_of_def)
  show ?case
  proof (cases "need \<le> ts_patchStepMemSize self1")
    case True
    then show ?thesis using s same lt by simp
  next
    case False
    have "check (0 < ?c) = Ok ()" using s(1) by simp
    from "1.IH" [OF refl refl this s(2) refl False] s(3) False same lt show ?thesis by simp
  qed
qed

lemma step_weight_covers_of: "step_covers_of self' = step_covers_of self \<Longrightarrow> step_weight self' = step_weight self"
  by (simp add: step_weight_def step_queue_def step_covers_of_def)

text \<open>Taking the next cover only moves it to the front.\<close>

lemma next_cover_queue:
  assumes "step_next_cover self = Ok (c, self')"
  shows "step_queue self' = step_queue self \<and> ts_bufCover_size self' = ts_bufCover_size self \<and> ts_pCurCover self' = c \<and>
    (c = None \<longrightarrow> self' = self \<and> step_queue self = [])"
proof (cases "ts_pCurCover self")
  case (Some d)
  then show ?thesis using assms by (simp add: step_next_cover_def) blast
next
  case None
  note n = assms [unfolded step_next_cover_def None option.case]
  show ?thesis
  proof (cases "ts_isHaveLeftCover self")
    case True
    then show ?thesis using n None by (clarsimp simp: step_queue_def)
  next
    case l: False
    show ?thesis
    proof (cases "ts_isHaveRightCover self")
      case True
      then show ?thesis using n None l by (clarsimp simp: step_queue_def)
    next
      case r: False
      show ?thesis
      proof (cases "ts_cur_i self < length (ts_covers self)")
        case True
        then show ?thesis using n None l r by (clarsimp simp: step_queue_def cover_at_def Cons_nth_drop_Suc)
      next
        case i: False
        then show ?thesis using n None l r by (cases "ts_isHaveLastCover self") (clarsimp simp: step_queue_def)+
      qed
    qed
  qed
qed

lemma cover_weight_pos: "0 < cover_weight c"
  by (simp add: cover_weight_def)

lemma step_append_queue:
  assumes "step_append self = Ok self'" "ts_pCurCover self = Some c"
  shows "step_queue self = c # step_queue self'"
proof -
  from assms(1) show ?thesis unfolding step_append_def Let_def rbind_eq_Ok
  proof (elim exE conjE, goal_cases)
    case (1 self1)
    have "step_covers_of self1 = step_covers_of self" by (rule append_rle_same [OF 1(1)])
    moreover have "step_covers_of self' = ((None, ts_cover self1), snd (step_covers_of self1))"
      using 1(2) by (cases "sub64 (newPos (ts_cover self)) (ts_lastNewEnd self) > 0") (auto simp: step_covers_of_def)
    ultimately show ?case using assms(2) by (simp add: step_covers_of_def step_queue_def)
  qed
qed

lemma step_clip_queue:
  assumes "step_clip self n = Ok self'" "ts_pCurCover self = Some (ts_cover self)"
  shows "\<exists>clen q. 0 < clen \<and> clen < coverLength (ts_cover self) \<and> step_queue self = ts_cover self # q \<and>
    step_queue self' = (ts_cover self)\<lparr>coverLength := clen\<rparr> #
      \<lparr>oldPos = oldPos (ts_cover self) + clen, newPos = newPos (ts_cover self) + clen,
       coverLength = coverLength (ts_cover self) - clen\<rparr> # q"
proof -
  from assms(1) show ?thesis unfolding step_clip_def Let_def rbind_eq_Ok split_paired_Ex prod.case
  proof (elim exE conjE, goal_cases)
    case (1 x clen self1)
    have s: "\<not> ts_isHaveLeftCover self" "\<not> ts_isHaveRightCover self" using 1(1) by (simp_all add: check_def split: if_splits)
    have q: "step_covers_of self' = ((None, ts_cover self1), (True, (ts_cover self)\<lparr>coverLength := clen\<rparr>),
       (True, \<lparr>oldPos = oldPos (ts_cover self) + clen, newPos = newPos (ts_cover self) + clen,
        coverLength = coverLength (ts_cover self) - clen\<rparr>), snd (snd (snd (step_covers_of self1))))"
      using 1(3) by (auto simp: step_resize_bufCover_def step_covers_of_def)
    from clip_loop_same [OF 1(2)] s q assms(2) show ?case
      by (intro exI [of _ clen] exI [of _ "drop (ts_cur_i self) (ts_covers self) @
          (if ts_isHaveLastCover self then [ts_lastCover self] else [])"]) (simp add: step_queue_def step_covers_of_def)
  qed
qed

lemma step_clip_weight: "step_clip self n = Ok self' \<Longrightarrow> ts_pCurCover self = Some (ts_cover self) \<Longrightarrow> step_weight self' < step_weight self"
  by (drule step_clip_queue) (auto simp: step_weight_def cover_weight_def)

lemma doStep_decreases:
  assumes "step_doStep self = Ok (True, self')"
  shows "step_weight self' < step_weight self \<or> step_weight self' = step_weight self \<and> ts_bufCover_size self' < ts_bufCover_size self"
proof -
  from assms obtain c self1 where n: "step_next_cover self = Ok (c, self1)"
    by (auto simp: step_doStep_def rbind_eq_Ok)
  from next_cover_queue [OF n] have q: "step_weight self1 = step_weight self" "ts_bufCover_size self1 = ts_bufCover_size self"
    "ts_pCurCover self1 = c" by (simp_all add: step_weight_def)
  show ?thesis
  proof (cases c)
    case None
    then have "0 < ts_bufCover_size self1" "last_flush_step self1 = Ok self'"
      using assms n by (auto simp: step_doStep_def rbind_eq_Ok split: if_splits)
    then obtain self2 where f: "step_take_dataDiff self1 = Ok self2" "flush_step_code self2 = Ok self'"
      by (auto simp: last_flush_step_def rbind_eq_Ok)
    have s: "step_covers_of self' = step_covers_of self1" "ts_bufCover_size self' = 0"
      using take_dataDiff_same [OF f(1)] flush_same [OF f(2)] by simp_all
    show ?thesis using q \<open>0 < ts_bufCover_size self1\<close> s(2) step_weight_covers_of [OF s(1)] by simp
  next
    case (Some d)
    then have a: "step_add_cover self1 d = Ok self'"
      using assms n by (simp add: step_doStep_def) (auto simp: rbind_eq_Ok)
    from a obtain self2 self3 need where p: "step_put_cover (self1\<lparr>ts_cover := d\<rparr>) = Ok self2"
      "step_needSize (self2\<lparr>ts_subDiff := resetCover (ts_subDiff self2) d\<rparr>) = Ok (need, self3)"
      and r: "step_append self3 = Ok self' \<or> step_flush self3 (ts_bufCover_size self1) = Ok self' \<or>
        step_clip self3 (ts_bufCover_size self1) = Ok self'"
      unfolding step_add_cover_def Let_def rbind_eq_Ok split_paired_Ex prod.case
    proof (elim exE conjE, goal_cases)
      case (1 self2 need self3)
      have "step_append self3 = Ok self' \<or> step_flush self3 (ts_bufCover_size self1) = Ok self' \<or>
        step_clip self3 (ts_bufCover_size self1) = Ok self'"
      proof (cases "need \<le> ts_patchStepMemSize self3")
        case False
        then obtain n where "(if add64 (ts_bufCover_size self1) n \<ge> ts_patchStepMemSize self3 div 2
            then step_flush self3 (ts_bufCover_size self1) else step_clip self3 (ts_bufCover_size self1)) = Ok self'"
          using 1(4) by (auto simp only: if_False rbind_eq_Ok)
        then show ?thesis by presburger
      qed (use 1(4) in simp)
      then show ?case using 1(1-3) by blast
    qed
    have "step_covers_of (self2\<lparr>ts_subDiff := resetCover (ts_subDiff self2) d\<rparr>) = step_covers_of self2"
      by (simp add: step_covers_of_def)
    then have same: "step_covers_of self3 = step_covers_of (self1\<lparr>ts_cover := d\<rparr>)"
      using put_cover_same [OF p(1)] needSize_same [OF p(2)] by simp
    then have cur: "ts_pCurCover self3 = Some d" "ts_cover self3 = d" using q(3) Some by (simp_all add: step_covers_of_def)
    have w: "step_weight self3 = step_weight self1"
      using step_weight_covers_of [OF same] by (simp add: step_weight_def step_queue_def)
    from r show ?thesis
    proof (elim disjE)
      assume "step_append self3 = Ok self'"
      from step_append_queue [OF this cur(1)] show ?thesis using w q(1) cover_weight_pos [of d] by (simp add: step_weight_def)
    next
      assume "step_flush self3 (ts_bufCover_size self1) = Ok self'"
      then obtain self4 where f: "0 < ts_bufCover_size self1"
        "step_take_dataDiff (step_resize_bufCover self3 (ts_bufCover_size self1)) = Ok self4" "flush_step_code self4 = Ok self'"
        by (auto simp: step_flush_def rbind_eq_Ok require_def split: if_splits)
      have s: "step_covers_of self' = step_covers_of self3" "ts_bufCover_size self' = 0"
        using take_dataDiff_same [OF f(2)] flush_same [OF f(3)] by (simp_all add: step_covers_of_def step_resize_bufCover_def)
      show ?thesis using step_weight_covers_of [OF s(1)] s(2) w q f(1) by simp
    next
      assume "step_clip self3 (ts_bufCover_size self1) = Ok self'"
      from step_clip_weight [OF this] cur w q(1) show ?thesis by simp
    qed
  qed
qed

section \<open>Making the steps twice\<close>

text \<open>Both loops over \<open>doStep\<close>: to the end, and until the step has data.\<close>

function step_init_loop :: "('n, 'o) TStepStream \<Rightarrow> ('n, 'o) TStepStream res" where
  "step_init_loop self = rbind (step_doStep self) (\<lambda>(isHave, self). if isHave then step_init_loop self else Ok self)"
  by pat_completeness auto
termination
  by (relation "measures [step_weight, ts_bufCover_size]") (use doStep_decreases in force)+

declare step_init_loop.simps [simp del]

definition step_dataLen :: "('n, 'o) TStepStream \<Rightarrow> nat" where
  "step_dataLen self = length (ts_step_buf self) + streamSize (ts_dataDiff self)"

function step_fill_loop :: "('n, 'o) TStepStream \<Rightarrow> nat \<Rightarrow> (nat \<times> ('n, 'o) TStepStream) res" where
  "step_fill_loop self stepDataLen =
     rbind (step_doStep self) (\<lambda>(isHave, self).
     if isHave then
       (if step_dataLen self > 0 then Ok (step_dataLen self, self) else step_fill_loop self (step_dataLen self))
     else Ok (stepDataLen, self))"
  by pat_completeness auto
termination
  by (relation "measures [\<lambda>(self, n). step_weight self, \<lambda>(self, n). ts_bufCover_size self]") (use doStep_decreases in force)+

declare step_fill_loop.simps [simp del]

definition step_beginStep :: "('n, 'o) TStepStream \<Rightarrow> ('n, 'o) TStepStream res" where
  "step_beginStep self =
     (let covers = ts_covers self; newDataSize = ts_newDataSize self in
      rbind (if covers = [] then Ok (Some \<lparr>oldPos = 0, newPos = newDataSize, coverLength = 0\<rparr>)
             else rbind (cover_at covers (length covers - 1)) (\<lambda>back.
               Ok (if add64 (newPos back) (coverLength back) < newDataSize
                   then Some \<lparr>oldPos = add64 (oldPos back) (coverLength back), newPos = newDataSize, coverLength = 0\<rparr>
                   else None))) (\<lambda>last.
      rbind (tsc_clear (ts_dataDiff self)) (\<lambda>dataDiff.
      Ok (self\<lparr>ts_isHaveLeftCover := False, ts_isHaveRightCover := False, ts_isHaveLastCover := last \<noteq> None,
               ts_lastCover := (case last of None \<Rightarrow> ts_lastCover self | Some c \<Rightarrow> c),
               ts_curCoverCount := length covers + (if last \<noteq> None then 1 else 0),
               ts_step_buf := [], ts_dataDiff := dataDiff, ts_readBufPos := 0, ts_curMaxStepMemSize := 0,
               ts_lastOldEnd := 0, ts_lastNewEnd := 0, ts_bufCover := [], ts_bufCover_size := 0,
               ts_bufRle := TSingleStreamRLE0_clear (ts_bufRle self), ts_dataDiffSize := 0, ts_newDataDiffReadPos := 0,
               ts_cur_i := 0, ts_pCurCover := None\<rparr>))))"

definition step_initStream :: "('n, 'o) TStepStream \<Rightarrow> ('n, 'o) TStepStream res" where
  "step_initStream self =
     rbind (step_beginStep (self\<lparr>ts_isInInit := True, ts_sumBufSize := 0\<rparr>)) (\<lambda>self.
     rbind (step_init_loop self) (\<lambda>self.
     step_beginStep (self\<lparr>ts_isInInit := False, ts_endCoverCount := ts_curCoverCount self,
                          ts_endMaxStepMemSize := ts_curMaxStepMemSize self\<rparr>)))"

text \<open>
  The new data comes through \<open>newDataDiff\<close>, which reads the stream of new data that \<open>subDiff\<close> reads
  too: it takes that stream over, and hands it back.
\<close>

definition step_read_dataDiff :: "('n, 'o) TStepStream \<Rightarrow> nat \<Rightarrow> nat \<Rightarrow> (byte list \<times> ('n, 'o) TStepStream) res" where
  "step_read_dataDiff self pos len =
     (let clip = streamImport (ts_dataDiff self);
          nd = (tsc_src clip)\<lparr>streamImport := (streamImport (tsc_src clip))\<lparr>nd_newData := dc_newStream (streamImport (ts_subDiff self))\<rparr>\<rparr> in
      rbind (sread ((ts_dataDiff self)\<lparr>streamImport := clip\<lparr>tsc_src := nd\<rparr>\<rparr>) pos len) (\<lambda>(d, dataDiff).
      let sub = ts_subDiff self; newStream = nd_newData (streamImport (tsc_src (streamImport dataDiff))) in
      Ok (d, self\<lparr>ts_dataDiff := dataDiff,
                  ts_subDiff := sub\<lparr>streamImport := (streamImport sub)\<lparr>dc_newStream := newStream\<rparr>\<rparr>\<rparr>)))"

text \<open>
  \<open>readTo\<close> takes the data of the step, or makes the next step.  The position is within the data of
  the step; beyond it the loop would never end.
\<close>

definition step_fill :: "('n, 'o) TStepStream \<Rightarrow> (nat \<times> ('n, 'o) TStepStream) res" where
  "step_fill self =
     (let stepDataLen = step_dataLen self in
      if ts_readBufPos self = stepDataLen then
        rbind (tsc_clear (ts_dataDiff self)) (\<lambda>dataDiff.
        rbind (step_fill_loop (self\<lparr>ts_step_buf := [], ts_dataDiff := dataDiff, ts_readBufPos := 0\<rparr>) stepDataLen)
          (\<lambda>(stepDataLen, self).
        rbind (check (stepDataLen > 0)) (\<lambda>_. Ok (stepDataLen, self))))
      else Ok (stepDataLen, self))"

definition step_piece :: "('n, 'o) TStepStream \<Rightarrow> nat \<Rightarrow> (byte list \<times> ('n, 'o) TStepStream) res" where
  "step_piece self len =
     (let pos = ts_readBufPos self; bufSize = length (ts_step_buf self);
          clen = (if pos < bufSize then if pos + len > bufSize then bufSize - pos else len else 0);
          d1 = take clen (drop pos (ts_step_buf self));
          self = self\<lparr>ts_readBufPos := pos + clen\<rparr> in
      if len - clen > 0 then
        rbind (step_read_dataDiff self (ts_readBufPos self - bufSize) (len - clen)) (\<lambda>(d2, self).
        Ok (d1 @ d2, self\<lparr>ts_readBufPos := ts_readBufPos self + (len - clen)\<rparr>))
      else Ok (d1, self))"

function step_readTo :: "('n, 'o) TStepStream \<Rightarrow> nat \<Rightarrow> (byte list \<times> ('n, 'o) TStepStream) res" where
  "step_readTo self readLen =
     (if readLen > 0 then
        rbind (step_fill self) (\<lambda>(stepDataLen, self).
        let pos = ts_readBufPos self in
        rbind (require (pos < stepDataLen)) (\<lambda>_.
        let len = (if pos + readLen > stepDataLen then stepDataLen - pos else readLen) in
        rbind (step_piece self len) (\<lambda>(d, self).
        rbind (step_readTo self (readLen - len)) (\<lambda>(r, self).
        Ok (d @ r, self)))))
      else Ok ([], self))"
  by pat_completeness auto
termination
  by (relation "measure snd") (auto simp: require_def split: if_splits)

declare step_readTo.simps [simp del]

definition step_read ::
  "('n, 'o) TStepStream \<Rightarrow> nat \<Rightarrow> nat \<Rightarrow> nat \<Rightarrow> (byte list \<times> ('n, 'o) TStepStream) res" where
  "step_read self streamSz readFromPos len =
     rbind (if readFromPos \<noteq> ts_readFromPosBack self then
              rbind (check (readFromPos = 0)) (\<lambda>_. step_beginStep self)
            else Ok self) (\<lambda>self.
     step_readTo (self\<lparr>ts_readFromPosBack := readFromPos + len\<rparr>) len)"

definition TStepStream_make ::
  "'n hpatch_TStreamInput \<Rightarrow> 'o hpatch_TStreamInput \<Rightarrow> bool \<Rightarrow> hpatch_TCover list \<Rightarrow> nat \<Rightarrow>
   ('n, 'o) TStepStream hpatch_TStreamInput res" where
  "TStepStream_make newStream oldStream isZeroSubDiff covers patchStepMemSize =
     (let no = \<lparr>oldPos = 0, newPos = 0, coverLength = 0\<rparr> in
      rbind (TNewDataDiffStream_make covers newStream) (\<lambda>newDataDiff.
      rbind (step_initStream
        \<lparr>ts_subDiff = TNewDataSubDiffCoverStream_make newStream oldStream isZeroSubDiff, ts_covers = covers,
         ts_patchStepMemSize = patchStepMemSize, ts_newDataSize = streamSize newStream, ts_curCoverCount = 0, ts_endCoverCount = 0,
         ts_curMaxStepMemSize = 0, ts_endMaxStepMemSize = 0, ts_lastOldEnd = 0, ts_lastNewEnd = 0, ts_bufCover = [],
         ts_bufRle = TSingleStreamRLE0_init, ts_dataDiffSize = 0, ts_newDataDiffReadPos = 0, ts_isHaveLastCover = False,
         ts_isHaveLeftCover = False, ts_isHaveRightCover = False, ts_lastCover = no, ts_leftCover = no, ts_rightCover = no,
         ts_cur_i = 0, ts_cover = no, ts_pCurCover = None, ts_isInInit = True, ts_sumBufSize = 0, ts_bufCover_size = 0,
         ts_step_buf = [], ts_dataDiff = TStreamClip_init newDataDiff, ts_readFromPosBack = 0, ts_readBufPos = 0\<rparr>) (\<lambda>self.
      Ok \<lparr>streamImport = self, streamSize = ts_sumBufSize self, read = step_read\<rparr>)))"

end
