(* ===== verification/Rle0Size.thy ===== *)
theory Rle0Size
  imports BytesRle0
begin

text \<open>
  How long the zero-run code of \<open>BytesRle0\<close> gets: the counters of \<open>maxCodeSize\<close> without wrapping, and a
  bound of 13 bytes for each byte that is appended.  Both over streams as well.
\<close>

section \<open>Sizes of runs\<close>

function vsz :: "nat \<Rightarrow> nat" where
  "vsz n = (if n > kMaxBytesRleLen then hpatch_packUInt_size kMaxBytesRleLen + kMaxBytesRleLen + hpatch_packUInt_size 0 + vsz (n - kMaxBytesRleLen)
            else hpatch_packUInt_size n + n)"
  by pat_completeness auto
termination
  by (relation "measure id") (auto simp: kMaxBytesRleLen_def)

function zsz :: "nat \<Rightarrow> nat" where
  "zsz n = (if n > kMaxBytesRleLen then hpatch_packUInt_size kMaxBytesRleLen + hpatch_packUInt_size 0 + zsz (n - kMaxBytesRleLen)
            else hpatch_packUInt_size n)"
  by pat_completeness auto
termination
  by (relation "measure id") (auto simp: kMaxBytesRleLen_def)

declare vsz.simps [simp del] zsz.simps [simp del]

lemma out_v_codeSize: "out_uncompressData_codeSize k n = (k + vsz n) mod 2 ^ 64"
proof (induction k n rule: out_uncompressData_codeSize.induct)
  case (1 k n)
  then show ?case
    by (cases "n > kMaxBytesRleLen")
      (simp_all add: out_uncompressData_codeSize.simps [of k n] vsz.simps [of n] add64_def mod_simps add.assoc)
qed

lemma out_0_codeSize: "out_0Data_codeSize k n = (k + zsz n) mod 2 ^ 64"
proof (induction k n rule: out_0Data_codeSize.induct)
  case (1 k n)
  then show ?case
    by (cases "n > kMaxBytesRleLen")
      (simp_all add: out_0Data_codeSize.simps [of k n] zsz.simps [of n] add64_def mod_simps add.assoc)
qed

lemma pack_size_bounds: "v < 2 ^ 64 \<Longrightarrow> 0 < hpatch_packUInt_size v \<and> hpatch_packUInt_size v \<le> 11"
  using packUInt_size_eq [of v] pack_code(3) [of v 0 0] pack_code_not_Nil [of v 0 0] by simp

lemma vsz_Suc: "vsz (Suc n) \<le> vsz n + 12"
proof (induction n rule: less_induct)
  case (less n)
  note k = pack_size_bounds [of kMaxBytesRleLen] pack_size_bounds [of 0]
  consider "n > kMaxBytesRleLen" | "n = kMaxBytesRleLen" | "n < kMaxBytesRleLen" by linarith
  then show ?case
  proof cases
    case 1
    then have "n - kMaxBytesRleLen < n" "Suc n - kMaxBytesRleLen = Suc (n - kMaxBytesRleLen)" using kMax_less(2) by linarith+
    with less [of "n - kMaxBytesRleLen"] 1 show ?thesis by (simp add: vsz.simps [of n] vsz.simps [of "Suc n"])
  next
    case 2
    have "vsz 1 = hpatch_packUInt_size 1 + 1" by (simp add: vsz.simps [of "Suc 0"] kMaxBytesRleLen_def)
    moreover have "hpatch_packUInt_size 1 = 1" "hpatch_packUInt_size 0 = 1"
      by (simp_all add: hpatch_packUInt_size_def hpatch_packUIntWithTag_size_def pack_size_loop.simps)
    ultimately show ?thesis unfolding 2 by (simp add: vsz.simps [of kMaxBytesRleLen] vsz.simps [of "Suc kMaxBytesRleLen"])
  next
    case 3
    then show ?thesis using pack_size_bounds [of "Suc n"] kMax_less
      by (simp add: vsz.simps [of n] vsz.simps [of "Suc n"])
  qed
qed

lemma zsz_Suc: "zsz (Suc n) \<le> zsz n + 11"
proof (induction n rule: less_induct)
  case (less n)
  consider "n > kMaxBytesRleLen" | "n = kMaxBytesRleLen" | "n < kMaxBytesRleLen" by linarith
  then show ?case
  proof cases
    case 1
    then have "n - kMaxBytesRleLen < n" "Suc n - kMaxBytesRleLen = Suc (n - kMaxBytesRleLen)" using kMax_less(2) by linarith+
    with less [of "n - kMaxBytesRleLen"] 1 show ?thesis by (simp add: zsz.simps [of n] zsz.simps [of "Suc n"])
  next
    case 2
    have "zsz 1 = hpatch_packUInt_size 1" by (simp add: zsz.simps [of "Suc 0"] kMaxBytesRleLen_def)
    moreover have "hpatch_packUInt_size 1 = 1" "hpatch_packUInt_size 0 = 1"
      by (simp_all add: hpatch_packUInt_size_def hpatch_packUIntWithTag_size_def pack_size_loop.simps)
    ultimately show ?thesis unfolding 2 by (simp add: zsz.simps [of kMaxBytesRleLen] zsz.simps [of "Suc kMaxBytesRleLen"])
  next
    case 3
    then show ?thesis using pack_size_bounds [of "Suc n"] kMax_less
      by (simp add: zsz.simps [of n] zsz.simps [of "Suc n"])
  qed
qed

lemma zsz_0: "zsz 0 = 1"
  by (simp add: zsz.simps hpatch_packUInt_size_def hpatch_packUIntWithTag_size_def pack_size_loop.simps)

lemma vsz_0: "vsz 0 = 1"
  by (simp add: vsz.simps hpatch_packUInt_size_def hpatch_packUIntWithTag_size_def pack_size_loop.simps)

lemma vsz_pos: "0 < vsz n"
  using kMax_less pack_size_bounds [of n] pack_size_bounds [of kMaxBytesRleLen]
  by (cases "n > kMaxBytesRleLen") (auto simp: vsz.simps [of n])

lemma zsz_add: "zsz (n + k) \<le> zsz n + 11 * k"
proof (induction k)
  case (Suc k)
  then show ?case using zsz_Suc [of "n + k"] by simp
qed simp

section \<open>The size of the code so far, finished\<close>

definition rle0_size :: "TSingleStreamRLE0 \<Rightarrow> nat" where
  "rle0_size self = length (s0_fixed_code self) + (if s0_uncompressData self \<noteq> [] then vsz (length (s0_uncompressData self)) else 0) +
     (if s0_len0 self > 0 then zsz (s0_len0 self) else 0)"

lemma max_code_end_sizes: "max_code_end (ss_sizes self) = rle0_size self mod 2 ^ 64"
  by (simp add: max_code_end_def ss_sizes_def rle0_size_def out_v_codeSize out_0_codeSize add64_def mod_simps)

lemma length_out_v: "length d < 2 ^ 64 \<Longrightarrow> \<exists>x. out_v_loop f d = Ok x \<and> length x = length f + vsz (length d)"
proof (induction "length d" arbitrary: f d rule: less_induct)
  case less
  show ?case
  proof (cases "length d > kMaxBytesRleLen")
    case True
    have "length (drop kMaxBytesRleLen d) < length d" "length (drop kMaxBytesRleLen d) < 2 ^ 64"
      using True less.prems kMax_less(2) by (auto simp del: kMax_less)
    from less.hyps [OF this, of "pushBack (f @ pack_code kMaxBytesRleLen 0 0) (take kMaxBytesRleLen d) @ pack_code 0 0 0"] True
    show ?thesis by (auto simp: out_v_loop.simps [of f] vsz.simps [of "length d"] packUInt_eq packUInt_size_eq pushBack_def)
  next
    case False
    then show ?thesis using less.prems
      by (simp add: out_v_loop.simps [of f] vsz.simps [of "length d"] packUInt_eq packUInt_size_eq pushBack_def)
  qed
qed

lemma length_out_0: "n < 2 ^ 64 \<Longrightarrow> \<exists>x. out_0_loop f n = Ok x \<and> length x = length f + zsz n"
proof (induction n arbitrary: f rule: less_induct)
  case (less n)
  show ?case
  proof (cases "n > kMaxBytesRleLen")
    case True
    have "n - kMaxBytesRleLen < n" "n - kMaxBytesRleLen < 2 ^ 64" using True less.prems kMax_less(2) by (auto simp del: kMax_less)
    from less.IH [OF this, of "(f @ pack_code kMaxBytesRleLen 0 0) @ pack_code 0 0 0"] True
    show ?thesis by (auto simp: out_0_loop.simps [of f] zsz.simps [of n] packUInt_eq packUInt_size_eq)
  next
    case False
    then show ?thesis using less.prems by (simp add: out_0_loop.simps [of f] zsz.simps [of n] packUInt_eq packUInt_size_eq)
  qed
qed

section \<open>What a byte costs\<close>

lemma size_out_v:
  assumes "out_uncompressData self = Ok self'" "length (s0_uncompressData self) < 2 ^ 64" "s0_uncompressData self \<noteq> []"
  shows "rle0_size self' = rle0_size self \<and> s0_uncompressData self' = [] \<and> s0_len0 self' = s0_len0 self"
  using assms length_out_v [OF assms(2), of "s0_fixed_code self"]
  by (auto simp: out_uncompressData_def rbind_eq_Ok rle0_size_def)

lemma size_out_0:
  assumes "out_0Data self = Ok self'" "s0_len0 self < 2 ^ 64"
  shows "rle0_size self' = rle0_size self + (if s0_len0 self = 0 then 1 else 0) \<and> s0_len0 self' = 0 \<and>
    s0_uncompressData self' = s0_uncompressData self"
  using assms length_out_0 [OF assms(2), of "s0_fixed_code self"]
  by (auto simp: out_0Data_def rbind_eq_Ok rle0_size_def zsz_0)

lemma size_more_zeros:
  "s0_len0 self + k < 2 ^ 64 \<Longrightarrow> rle0_size (self\<lparr>s0_len0 := add64 (s0_len0 self) k\<rparr>) \<le> rle0_size self + 11 * k + 1"
  using zsz_add [of "s0_len0 self" k] zsz_add [of 0 k] zsz_0 by (auto simp: rle0_size_def add64_eq)

lemma size_more_literals:
  "rle0_size (self\<lparr>s0_uncompressData := s0_uncompressData self @ [v]\<rparr>) \<le>
   rle0_size self + (if s0_uncompressData self = [] then 2 else 12)"
proof -
  have "vsz (Suc 0) = 2"
    by (simp add: vsz.simps [of "Suc 0"] kMaxBytesRleLen_def hpatch_packUInt_size_def hpatch_packUIntWithTag_size_def pack_size_loop.simps)
  then show ?thesis using vsz_Suc [of "length (s0_uncompressData self)"] by (auto simp: rle0_size_def)
qed

lemma append_loop_size:
  "append_rle0_loop (ss_last self) self d = Ok self' \<Longrightarrow> length (s0_uncompressData self) + s0_len0 self + length d < 2 ^ 64 \<Longrightarrow>
   rle0_size self' \<le> rle0_size self + 13 * length d"
proof (induction "length d" arbitrary: self d rule: less_induct)
  case less
  show ?case
  proof (cases d)
    case Nil
    then show ?thesis using less.prems(1) by (simp add: append_rle0_loop.simps [of _ _ "[]"])
  next
    case (Cons x xs)
    obtain k w r where z: "zero_scan 0 x xs = (k, w, r)" by (cases "zero_scan 0 x xs") auto
    have kr: "w = 0 \<and> 0 < k \<and> k = length d \<and> r = [] \<or> w \<noteq> 0 \<and> length d = k + Suc (length r)"
    proof (cases "0 :: nat" x xs rule: zero_scan_cases)
      case zeros
      then show ?thesis using z Cons by auto
    next
      case (byte k' w' r')
      then have "length (x # xs) = length (replicate k' (0 :: byte) @ w' # r')" by simp
      then show ?thesis using z Cons byte(1,2) by simp
    qed
    define s1 where "s1 self1 = self1\<lparr>s0_len0 := add64 (s0_len0 self1) k\<rparr>" for self1 :: TSingleStreamRLE0
    obtain self1 where self1: "(if 0 < k \<and> ss_last self = lastType_v then out_uncompressData self else Ok self) = Ok self1"
      and rest: "(if 0 < k \<and> w = 0 then Ok (s1 self1) else
          rbind (if (if 0 < k then lastType_same else ss_last self) = lastType_same then out_0Data (s1 self1) else Ok (s1 self1))
            (\<lambda>self. append_rle0_loop lastType_v (self\<lparr>s0_uncompressData := s0_uncompressData self @ [w]\<rparr>) r)) = Ok self'"
      using less.prems(1) unfolding Cons append_rle0_loop.simps [of _ _ "_ # _"] list.case z prod.case Let_def s1_def rbind_eq_Ok
      by blast
    have one: "rle0_size self1 = rle0_size self" "s0_len0 self1 = s0_len0 self" "length (s0_uncompressData self1) \<le> length (s0_uncompressData self)"
      "0 < k \<Longrightarrow> s0_uncompressData self1 = []" "k = 0 \<Longrightarrow> self1 = self"
      using self1 size_out_v [of self self1] less.prems(2) by (auto simp: ss_last_def split: if_splits)
    have lk: "s0_len0 self1 + k < 2 ^ 64" using one(2) less.prems(2) kr by auto
    have none: "s1 self1 = self1" if "k = 0"
      using lk that by (cases self1) (simp add: s1_def add64_eq)
    have two: "rle0_size (s1 self1) \<le> rle0_size self + (if k = 0 then 0 else 11 * k + 1)" "s0_len0 (s1 self1) = s0_len0 self + k"
      "s0_uncompressData (s1 self1) = s0_uncompressData self1"
    proof -
      show "rle0_size (s1 self1) \<le> rle0_size self + (if k = 0 then 0 else 11 * k + 1)"
        using size_more_zeros [OF lk] one(1) none by (cases "k = 0") (simp, simp add: s1_def)
    qed (use one(2) add64_eq [OF lk] in \<open>simp_all add: s1_def\<close>)
    show ?thesis
    proof (cases "0 < k \<and> w = 0")
      case True
      then have "k = length d" "self' = s1 self1" using kr rest by auto
      then show ?thesis using two(1) True by (simp only: split: if_splits)
    next
      case False
      then have w: "length d = k + Suc (length r)" using kr by auto
      let ?lt = "if 0 < k then lastType_same else ss_last self"
      obtain self2 where self2: "(if ?lt = lastType_same then out_0Data (s1 self1) else Ok (s1 self1)) = Ok self2"
        and r: "append_rle0_loop lastType_v (self2\<lparr>s0_uncompressData := s0_uncompressData self2 @ [w]\<rparr>) r = Ok self'"
        using rest False unfolding rbind_eq_Ok by (auto simp only: if_False rbind_eq_Ok)
      let ?s3 = "self2\<lparr>s0_uncompressData := s0_uncompressData self2 @ [w]\<rparr>"
      have l64: "s0_len0 (s1 self1) < 2 ^ 64" using two(2) one(2) lk by simp
      have e: "?lt = lastType_same \<Longrightarrow> s0_uncompressData self1 = []" using one(4,5) by (auto simp: ss_last_def split: if_splits)
      have three: "rle0_size ?s3 \<le> rle0_size self + 13 * Suc k" "length (s0_uncompressData ?s3) + s0_len0 ?s3 \<le>
          length (s0_uncompressData self) + s0_len0 self + Suc k"
      proof -
        have b: "rle0_size ?s3 \<le> rle0_size self2 + (if s0_uncompressData self2 = [] then 2 else 12)" by (rule size_more_literals)
        have "rle0_size ?s3 \<le> rle0_size self + 13 * Suc k \<and>
            length (s0_uncompressData ?s3) + s0_len0 ?s3 \<le> length (s0_uncompressData self) + s0_len0 self + Suc k"
        proof (cases "?lt = lastType_same")
          case True
          then have "out_0Data (s1 self1) = Ok self2" using self2 by (simp only: True if_True)
          from size_out_0 [OF this l64] b e [OF True] two one(3) show ?thesis by (auto split: if_splits)
        next
          case lt: False
          then have "self2 = s1 self1" "k = 0" using self2 by (auto split: if_splits)
          then show ?thesis using b two one(3) by (auto split: if_splits)
        qed
        then show "rle0_size ?s3 \<le> rle0_size self + 13 * Suc k" "length (s0_uncompressData ?s3) + s0_len0 ?s3 \<le>
          length (s0_uncompressData self) + s0_len0 self + Suc k" by blast+
      qed
      have "ss_last ?s3 = lastType_v" by (simp add: ss_last_def)
      then have "rle0_size self' \<le> rle0_size ?s3 + 13 * length r"
        using less.hyps [of r ?s3] r w three(2) less.prems(2) by simp
      then show ?thesis using three(1) w by simp
    qed
  qed
qed

lemma append_rle0_size:
  assumes "ss_ok self s" "length s + length d < 2 ^ 64" "append_rle0 self d = Ok self'"
  shows "rle0_size self' \<le> rle0_size self + 13 * length d"
  using append_loop_size [of self d self'] assms ss_ok_length [OF assms(1)] getLastType_eq [OF assms(1)]
  by (simp add: append_rle0_def)

text \<open>The finished code has the size that was counted, but for the one byte of a code of nothing.\<close>

lemma finish_size:
  assumes "ss_ok self s" "length s < 2 ^ 64" "finishAppend_rle0 self = Ok self'"
  shows "length (s0_fixed_code self') = (if s0_fixed_code self = [] \<and> s = [] then 1 else rle0_size self)"
proof -
  have le: "s0_len0 self < 2 ^ 64" "length (s0_uncompressData self) < 2 ^ 64" using ss_ok_length [OF assms(1)] assms(2) by auto
  have empty: "s0_fixed_code self = [] \<Longrightarrow> s0_uncompressData self = [] \<and> (s = [] \<longleftrightarrow> s0_len0 self = 0)"
    using assms(1) by (auto simp: ss_ok_def coded_def dest: spec [of _ "[]"])
  have un: "s0_uncompressData self \<noteq> [] \<Longrightarrow> s0_len0 self = 0 \<and> s0_fixed_code self \<noteq> []" using assms(1) by (auto simp: ss_ok_def)
  show ?thesis
  proof (cases "s0_fixed_code self = [] \<or> s0_len0 self > 0")
    case True
    then have u: "s0_uncompressData self = []" using un by (cases "s0_uncompressData self = []") auto
    have x: "out_0Data self = Ok self'"
      using assms(3) True u by (auto simp: finishAppend_rle0_def rbind_eq_Ok out_0Data_def split: if_splits)
    from size_out_0 [OF x le(1)] u empty True show ?thesis by (auto simp: rle0_size_def)
  next
    case False
    then show ?thesis
    proof (cases "s0_uncompressData self = []")
      case True
      then show ?thesis using False assms(3) by (simp add: finishAppend_rle0_def rle0_size_def)
    next
      case u: False
      then have "out_uncompressData self = Ok self'" using False assms(3) by (simp add: finishAppend_rle0_def)
      from size_out_v [OF this le(2) u] False show ?thesis by (auto simp: rle0_size_def)
    qed
  qed
qed

section \<open>Over a stream\<close>

text \<open>The coder after the bytes \<open>d\<close>, taken in the pieces in which a stream is read.\<close>

function rle0_put :: "TSingleStreamRLE0 \<Rightarrow> byte list \<Rightarrow> TSingleStreamRLE0" where
  "rle0_put self d =
     (if d = [] then self
      else rle0_put (case append_rle0 self (take kStepSize d) of Ok self' \<Rightarrow> self' | _ \<Rightarrow> self) (drop kStepSize d))"
  by pat_completeness auto
termination
  by (relation "measure (\<lambda>(s, d). length d)") (auto simp: kStepSize_def)

declare rle0_put.simps [simp del]

lemma rle0_put_Nil [simp]: "rle0_put self [] = self"
  by (simp add: rle0_put.simps)

lemma rle0_put_result:
  assumes "ss_ok self s" "length s + length d < 2 ^ 64"
  shows "ss_ok (rle0_put self d) (s @ d) \<and> rle0_size (rle0_put self d) \<le> rle0_size self + 13 * length d"
  using assms
proof (induction self d arbitrary: s rule: rle0_put.induct)
  case (1 self d)
  show ?case
  proof (cases "d = []")
    case True
    then show ?thesis using "1.prems" by simp
  next
    case False
    let ?a = "take kStepSize d" and ?b = "drop kStepSize d"
    have l: "length ?a + length ?b = length d" by simp
    have "length s + length ?a < 2 ^ 64" using "1.prems"(2) l by linarith
    from append_rle0_result [OF "1.prems"(1) this] append_rle0_size [OF "1.prems"(1) this]
    obtain self' where a: "append_rle0 self ?a = Ok self'" "ss_ok self' (s @ ?a)" "rle0_size self' \<le> rle0_size self + 13 * length ?a"
      by blast
    have "length (s @ ?a) + length ?b < 2 ^ 64" using "1.prems"(2) l by simp
    from "1.IH" [OF False, unfolded a(1) res.case, OF a(2) this] a(1,3) l False show ?thesis
      unfolding rle0_put.simps [of self d] by simp
  qed
qed

context seq_stream begin

lemma append_rle0_stream_result:
  assumes "sok src pos d" "ss_ok self s" "length s + length d < 2 ^ 64"
  shows "\<exists>src'. append_rle0_stream self src (streamSize src) pos = Ok (rle0_put self d, src') \<and>
    sok src' (streamSize src) [] \<and> streamSize src' = streamSize src"
  using assms
proof (induction "length d" arbitrary: self src pos s d rule: less_induct)
  case less
  define n where "n = streamSize src"
  have n: "n = pos + length d" "n < 2 ^ 64" using seq_size [OF less.prems(1)] by (simp_all add: n_def)
  show ?case unfolding n_def [symmetric]
  proof (cases "d = []")
    case True
    then show "\<exists>src'. append_rle0_stream self src n pos = Ok (rle0_put self d, src') \<and> sok src' n [] \<and> streamSize src' = n"
      using less.prems n by (simp add: append_rle0_stream.simps [of self] n_def)
  next
    case False
    then have "pos < n" using n by simp
    define len where "len = (if kStepSize + pos > n then n - pos else kStepSize)"
    have len: "0 < len" "len \<le> length d" "take len d = take kStepSize d" "drop len d = drop kStepSize d"
      using False n by (auto simp: len_def kStepSize_def)
    obtain st' where st: "sread src pos len = Ok (take len d, st')" "sok st' (pos + len) (drop len d)" "streamSize st' = n"
      using seq_law [OF less.prems(1) len(1,2)] by (auto simp: n_def)
    have lens: "length s + length (take len d) < 2 ^ 64" using less.prems(3) len(2) by simp
    obtain r where r: "append_rle0 self (take len d) = Ok r" "ss_ok r (s @ take len d)"
      using append_rle0_result [OF less.prems(2) lens] by blast
    have shorter: "length (drop len d) < length d" "length (s @ take len d) + length (drop len d) < 2 ^ 64"
      using len(1,2) less.prems(3) by simp_all
    from less.hyps [OF shorter(1) st(2) r(2) shorter(2)] obtain src' where
      "append_rle0_stream r st' n (pos + len) = Ok (rle0_put r (drop len d), src')" "sok src' n []" "streamSize src' = n"
      unfolding st(3) by blast
    moreover have "rle0_put self d = rle0_put r (drop len d)"
      using False r(1) len(3,4) by (simp add: rle0_put.simps [of self d])
    ultimately show "\<exists>src'. append_rle0_stream self src n pos = Ok (rle0_put self d, src') \<and> sok src' n [] \<and> streamSize src' = n"
      using st(1) r(1) \<open>pos < n\<close> by (simp add: append_rle0_stream.simps [of self] Let_def len_def [symmetric])
  qed
qed

lemma max_code_stream_result:
  assumes "sok src pos d" "ss_ok self s" "length s + length d < 2 ^ 64"
  shows "\<exists>src'. max_code_stream (ss_sizes self) src (streamSize src) pos = Ok (ss_sizes (rle0_put self d), src') \<and>
    sok src' (streamSize src) [] \<and> streamSize src' = streamSize src"
  using assms
proof (induction "length d" arbitrary: self src pos s d rule: less_induct)
  case less
  define n where "n = streamSize src"
  have n: "n = pos + length d" "n < 2 ^ 64" using seq_size [OF less.prems(1)] by (simp_all add: n_def)
  show ?case unfolding n_def [symmetric]
  proof (cases "d = []")
    case True
    then show "\<exists>src'. max_code_stream (ss_sizes self) src n pos = Ok (ss_sizes (rle0_put self d), src') \<and> sok src' n [] \<and> streamSize src' = n"
      using less.prems n by (simp add: max_code_stream.simps n_def)
  next
    case False
    then have "pos < n" using n by simp
    define len where "len = (if kStepSize + pos > n then n - pos else kStepSize)"
    have len: "0 < len" "len \<le> length d" "take len d = take kStepSize d" "drop len d = drop kStepSize d"
      using False n by (auto simp: len_def kStepSize_def)
    obtain st' where st: "sread src pos len = Ok (take len d, st')" "sok st' (pos + len) (drop len d)" "streamSize st' = n"
      using seq_law [OF less.prems(1) len(1,2)] by (auto simp: n_def)
    have lens: "length s + length (take len d) < 2 ^ 64" using less.prems(3) len(2) by simp
    obtain r where r: "append_rle0 self (take len d) = Ok r" "ss_ok r (s @ take len d)"
        "case ss_sizes self of (lt, n0, nv, f) \<Rightarrow> max_code_loop lt n0 nv f (take len d) = ss_sizes r"
      using append_rle0_result [OF less.prems(2) lens] by (elim exE conjE)
    have shorter: "length (drop len d) < length d" "length (s @ take len d) + length (drop len d) < 2 ^ 64"
      using len(1,2) less.prems(3) by simp_all
    from less.hyps [OF shorter(1) st(2) r(2) shorter(2)] obtain src' where
      "max_code_stream (ss_sizes r) st' n (pos + len) = Ok (ss_sizes (rle0_put r (drop len d)), src')" "sok src' n []" "streamSize src' = n"
      unfolding st(3) by blast
    moreover have "rle0_put self d = rle0_put r (drop len d)"
      using False r(1) len(3,4) by (simp add: rle0_put.simps [of self d])
    ultimately show "\<exists>src'. max_code_stream (ss_sizes self) src n pos = Ok (ss_sizes (rle0_put self d), src') \<and> sok src' n [] \<and> streamSize src' = n"
    proof -
      assume e: "max_code_stream (ss_sizes r) st' n (pos + len) = Ok (ss_sizes (rle0_put r (drop len d)), src')"
        "sok src' n []" "streamSize src' = n" "rle0_put self d = rle0_put r (drop len d)"
      obtain lt n0 nv f where sz: "ss_sizes self = (lt, n0, nv, f)" by (cases "ss_sizes self") auto
      have "max_code_loop lt n0 nv f (take len d) = ss_sizes r" using r(3) sz by simp
      then show ?thesis using st(1) e \<open>pos < n\<close> unfolding sz
        by (simp add: max_code_stream.simps [of "(lt, n0, nv, f)"] Let_def len_def [symmetric])
    qed
  qed
qed

lemma maxCodeSize_stream_result:
  assumes "sok src 0 d" "ss_ok self s" "length s + length d < 2 ^ 64" "rle0_size self + 13 * length d < 2 ^ 64"
  shows "\<exists>src'. maxCodeSize_stream self src = Ok (rle0_size (rle0_put self d), src') \<and>
    sok src' (streamSize src) [] \<and> streamSize src' = streamSize src"
proof -
  have f: "length (s0_fixed_code self) mod 2 ^ 64 = length (s0_fixed_code self)" using assms(4) by (simp add: rle0_size_def)
  have "rle0_size (rle0_put self d) < 2 ^ 64" using rle0_put_result [OF assms(2,3)] assms(4) by linarith
  then have e: "max_code_end (ss_sizes (rle0_put self d)) = rle0_size (rle0_put self d)" by (simp add: max_code_end_sizes)
  from max_code_stream_result [OF assms(1-3)] show ?thesis
    unfolding ss_sizes_def [of self] f by (auto simp: maxCodeSize_stream_def getLastType_eq [OF assms(2)] e)
qed

end

lemma curCodeSize_result:
  assumes "ss_ok self s" "rle0_size self < 2 ^ 64"
  shows "curCodeSize self = Ok (rle0_size self)"
proof -
  have "length (s0_fixed_code self) < 2 ^ 64" using assms(2) by (simp add: rle0_size_def)
  then have "maxCodeSize self [] = Ok (max_code_end (ss_sizes self))"
    by (simp add: maxCodeSize_def getLastType_eq [OF assms(1)] max_code_loop.simps ss_sizes_def)
  then show ?thesis using assms(2) by (simp add: curCodeSize_def max_code_end_sizes)
qed

end
