(* ===== verification/StepLaws.thy ===== *)
theory StepLaws
  imports StepStream Rle0Size
begin

text \<open>
  What the streams inside \<open>TStepStream\<close> hold: the differences under the cover that was set last, read
  from its beginning as often as needed, also when the cover was shortened meanwhile, and the new
  data that a step takes through its clip.
\<close>

section \<open>The differences under a cover\<close>

definition cover_bytes :: "bool \<Rightarrow> byte list \<Rightarrow> byte list \<Rightarrow> hpatch_TCover \<Rightarrow> byte list" where
  "cover_bytes zero new old c =
     (if zero then replicate (coverLength c) 0
      else bytes_sub (take (coverLength c) (drop (newPos c) new)) (take (coverLength c) (drop (oldPos c) old)))"

lemma cover_bytes_length: "newPos c + coverLength c \<le> length new \<Longrightarrow> oldPos c + coverLength c \<le> length old \<Longrightarrow>
    length (cover_bytes zero new old c) = coverLength c"
  by (auto simp: cover_bytes_def)

context sub_streams begin

text \<open>The streams that are read stay what they are; the cached part is a part of both.\<close>

definition dc_files :: "byte list \<Rightarrow> byte list \<Rightarrow> ('n, 'o) TNewDataSubDiffCoverStream \<Rightarrow> bool" where
  "dc_files new old self \<longleftrightarrow> nok (dc_newStream self) \<and> ncont (dc_newStream self) = new \<and>
     ook (dc_oldStream self) \<and> ocont (dc_oldStream self) = old"

definition dc_cached :: "byte list \<Rightarrow> byte list \<Rightarrow> ('n, 'o) TNewDataSubDiffCoverStream \<Rightarrow> bool" where
  "dc_cached new old self \<longleftrightarrow>
     (let c = dc_cover self; k = dc_curDataLen self; skip = subCover_skipLen self in
      k + dc_inStreamLen self \<le> coverLength c \<and> newPos c + coverLength c \<le> length new \<and> oldPos c + coverLength c \<le> length old \<and>
      (0 < k \<longrightarrow> k \<le> length (dc_newData self) \<and> k \<le> length (dc_oldData self) \<and>
         take k (dc_newData self) = take k (drop (newPos c + skip) new) \<and>
         take k (dc_oldData self) = take k (drop (oldPos c + skip) old)))"

definition dc_sok :: "bool \<Rightarrow> byte list \<Rightarrow> byte list \<Rightarrow> hpatch_TCover \<Rightarrow> ('n, 'o) cover_stream \<Rightarrow> nat \<Rightarrow> byte list \<Rightarrow> bool" where
  "dc_sok zero new old c st pos d \<longleftrightarrow>
     (let self = streamImport st in
      read st = subCover_read \<and> streamSize st = coverLength c \<and> dc_cover self = c \<and> dc_isZeroSubDiff self = zero \<and>
      dc_files new old self \<and> dc_cached new old self \<and> pos \<le> coverLength c \<and> d = drop pos (cover_bytes zero new old c))"

lemma updateCache_result:
  assumes f: "dc_files new old self" and c: "dc_cached new old self" and pos: "pos < coverLength (dc_cover self)"
  shows "\<exists>self'. subCover_updateCache self pos = Ok self' \<and> dc_files new old self' \<and> dc_cached new old self' \<and>
    dc_cover self' = dc_cover self \<and> dc_isZeroSubDiff self' = dc_isZeroSubDiff self"
proof -
  let ?c = "dc_cover self" and ?len = "coverLength (dc_cover self)"
  define k where "k = (if kSubDiffCacheSize + pos > ?len then ?len - pos else kSubDiffCacheSize)"
  have k: "0 < k" "k + pos \<le> ?len" using pos by (auto simp: k_def kSubDiffCacheSize_def)
  have ok: "nok (dc_newStream self)" "ncont (dc_newStream self) = new" "ook (dc_oldStream self)" "ocont (dc_oldStream self) = old"
    using f by (simp_all add: dc_files_def)
  have fit: "newPos ?c + ?len \<le> length new" "oldPos ?c + ?len \<le> length old" using c by (simp_all add: dc_cached_def Let_def)
  have sz: "length new < 2 ^ 64" "length old < 2 ^ 64" using n.contents_size [OF ok(1)] o.contents_size [OF ok(3)] ok by auto
  have a: "add64 (newPos ?c) pos = newPos ?c + pos" "add64 (oldPos ?c) pos = oldPos ?c + pos"
    using fit sz pos by (simp_all add: add64_eq)
  have "hoare True (sread (dc_newStream self) (newPos ?c + pos) k) (\<lambda>(x, st'). x = take k (drop (newPos ?c + pos) new) \<and> nok st' \<and> ncont st' = new)"
    by (rule n.random_rule [OF ok(1)]) (use k fit sz ok in auto)
  from hoare_success [OF this TrueI] obtain ns where ns: "sread (dc_newStream self) (newPos ?c + pos) k = Ok (take k (drop (newPos ?c + pos) new), ns)"
    "nok ns" "ncont ns = new" by auto
  have "hoare True (sread (dc_oldStream self) (oldPos ?c + pos) k) (\<lambda>(x, st'). x = take k (drop (oldPos ?c + pos) old) \<and> ook st' \<and> ocont st' = old)"
    by (rule o.random_rule [OF ok(3)]) (use k fit sz ok in auto)
  from hoare_success [OF this TrueI] obtain os where os: "sread (dc_oldStream self) (oldPos ?c + pos) k = Ok (take k (drop (oldPos ?c + pos) old), os)"
    "ook os" "ocont os = old" by auto
  let ?s = "self\<lparr>dc_curDataLen := k, dc_inStreamLen := ?len - (k + pos), dc_newData := take k (drop (newPos ?c + pos) new),
     dc_newStream := ns, dc_oldData := take k (drop (oldPos ?c + pos) old), dc_oldStream := os\<rparr>"
  have "subCover_updateCache self pos = Ok ?s"
    using pos ns(1) os(1) by (simp add: subCover_updateCache_def Let_def k_def [symmetric] a)
  moreover have "dc_cached new old ?s" using k fit by (simp add: dc_cached_def Let_def subCover_skipLen_def)
  ultimately show ?thesis using ns os by (simp add: dc_files_def)
qed

lemma subCover_ready_result:
  assumes "dc_files new old self" "dc_cached new old self" "pos < coverLength (dc_cover self)"
  shows "\<exists>self'. subCover_ready self pos = Ok self' \<and> dc_files new old self' \<and> dc_cached new old self' \<and>
    dc_cover self' = dc_cover self \<and> dc_isZeroSubDiff self' = dc_isZeroSubDiff self"
  using updateCache_result [OF assms] assms by (auto simp: subCover_ready_def)

lemma subCover_readTo_result:
  "dc_files new old self \<Longrightarrow> dc_cached new old self \<Longrightarrow> pos + n \<le> coverLength (dc_cover self) \<Longrightarrow>
   \<exists>self'. subCover_readTo self pos n = Ok (take n (drop pos (cover_bytes False new old (dc_cover self))), self') \<and>
     dc_files new old self' \<and> dc_cached new old self' \<and> dc_cover self' = dc_cover self \<and> dc_isZeroSubDiff self' = dc_isZeroSubDiff self"
proof (induction self pos n rule: subCover_readTo.induct)
  case (1 self pos n)
  let ?b = "cover_bytes False new old (dc_cover self)"
  show ?case
  proof (cases "n > 0")
    case False
    then show ?thesis using "1.prems" by (simp add: subCover_readTo.simps [of self])
  next
    case n: True
    have "pos < coverLength (dc_cover self)" using n "1.prems"(3) by simp
    from subCover_ready_result [OF "1.prems"(1,2) this] obtain s1 where
      s1: "subCover_ready self pos = Ok s1" "dc_files new old s1" "dc_cached new old s1" "dc_cover s1 = dc_cover self"
        "dc_isZeroSubDiff s1 = dc_isZeroSubDiff self" by blast
    let ?skip = "subCover_skipLen s1" and ?k = "dc_curDataLen s1" and ?c = "dc_cover self"
    have rg: "?skip \<le> pos" "pos < ?skip + ?k" using subCover_ready_piece [OF s1(1)] by auto
    define src where "src = pos - ?skip"
    define len where "len = min (?k - src) n"
    have len: "0 < len" "len \<le> n" "src + len \<le> ?k" using n rg by (auto simp: len_def src_def)
    have ca: "?k + dc_inStreamLen s1 \<le> coverLength ?c" "newPos ?c + coverLength ?c \<le> length new" "oldPos ?c + coverLength ?c \<le> length old"
      "?k \<le> length (dc_newData s1)" "?k \<le> length (dc_oldData s1)"
      "take ?k (dc_newData s1) = take ?k (drop (newPos ?c + ?skip) new)" "take ?k (dc_oldData s1) = take ?k (drop (oldPos ?c + ?skip) old)"
      using s1(3,4) rg by (simp_all add: dc_cached_def Let_def)
    have piece: "take len (drop src xs) = take len (drop (p + pos) ys)"
      if "take ?k xs = take ?k (drop (p + ?skip) ys)" for xs ys :: "byte list" and p
    proof -
      have "take len (drop src (take ?k xs)) = take len (drop src (take ?k (drop (p + ?skip) ys)))" using that by simp
      then have "take len (drop src xs) = take len (drop src (drop (p + ?skip) ys))"
        using len(3) by (simp add: drop_take min_absorb1)
      moreover have "src + (p + ?skip) = p + pos" using rg by (simp add: src_def)
      ultimately show ?thesis by simp
    qed
    have out: "bytes_sub (take len (drop src (dc_newData s1))) (take len (drop src (dc_oldData s1))) = take len (drop pos ?b)"
      using piece [OF ca(6)] piece [OF ca(7)] len(2) "1.prems"(3)
      by (simp add: cover_bytes_def bytes_sub_take bytes_sub_drop drop_take min_absorb1 add.commute)
    have req: "require (src + len \<le> length (dc_newData s1) \<and> src + len \<le> length (dc_oldData s1)) = Ok ()" using len(3) ca(4,5) by simp
    have "pos + len + (n - len) \<le> coverLength (dc_cover s1)" using "1.prems"(3) len(2) s1(4) by simp
    from "1.IH" [OF n s1(1) src_def len_def req refl s1(2,3) this] obtain self' where
      r: "subCover_readTo s1 (pos + len) (n - len) = Ok (take (n - len) (drop (pos + len) ?b), self')"
        "dc_files new old self'" "dc_cached new old self'" "dc_cover self' = dc_cover self" "dc_isZeroSubDiff self' = dc_isZeroSubDiff self"
      unfolding s1(4,5) by blast
    have "take len (drop pos ?b) @ take (n - len) (drop (pos + len) ?b) = take n (drop pos ?b)"
      using len(2) by (metis add.commute drop_drop le_add_diff_inverse take_add)
    then show ?thesis using n s1(1) req out r
      by (simp add: subCover_readTo.simps [of self] Let_def src_def [symmetric] len_def [symmetric])
  qed
qed

lemma subCover_seq: "seq_stream (dc_sok zero new old c)"
proof
  fix st pos d and len :: nat
  assume st: "dc_sok zero new old c st pos d" and len: "0 < len" "len \<le> length d"
  let ?self = "streamImport st" and ?b = "cover_bytes zero new old c"
  have s: "read st = subCover_read" "streamSize st = coverLength c" "dc_cover ?self = c" "dc_isZeroSubDiff ?self = zero"
      "dc_files new old ?self" "dc_cached new old ?self" "pos \<le> coverLength c" "d = drop pos ?b"
    using st by (simp_all add: dc_sok_def Let_def)
  have fit: "newPos c + coverLength c \<le> length new" "oldPos c + coverLength c \<le> length old"
    using s(3,6) by (simp_all add: dc_cached_def Let_def)
  have pl: "pos + len \<le> coverLength c" using len(2) s(7,8) cover_bytes_length [OF fit] by simp
  obtain self' where r: "subCover_read ?self (streamSize st) pos len = Ok (take len d, self')" "dc_files new old self'" "dc_cached new old self'"
      "dc_cover self' = c" "dc_isZeroSubDiff self' = zero"
  proof (cases zero)
    case True
    then have "take len d = replicate len 0" using s(8) pl by (simp add: cover_bytes_def)
    then show ?thesis using that [of ?self] s True by (simp add: subCover_read_def)
  next
    case False
    then show ?thesis using subCover_readTo_result [OF s(5,6), of pos len] pl s that by (auto simp: subCover_read_def)
  qed
  then have "sread st pos len = Ok (take len d, st\<lparr>streamImport := self'\<rparr>)" using s(1) by (simp add: sread_def)
  then show "\<exists>st'. sread st pos len = Ok (take len d, st') \<and> dc_sok zero new old c st' (pos + len) (drop len d) \<and> streamSize st' = streamSize st"
    using r s pl by (auto simp: dc_sok_def Let_def add.commute)
next
  fix st pos d
  assume "dc_sok zero new old c st pos d"
  then have s: "streamSize st = coverLength c" "pos \<le> coverLength c" "d = drop pos (cover_bytes zero new old c)"
      "newPos c + coverLength c \<le> length new" "oldPos c + coverLength c \<le> length old" "nok (dc_newStream (streamImport st))"
      "ncont (dc_newStream (streamImport st)) = new"
    by (auto simp: dc_sok_def Let_def dc_cached_def dc_files_def)
  then show "streamSize st = pos + length d \<and> streamSize st < 2 ^ 64"
    using cover_bytes_length [OF s(4,5), of zero] n.contents_size [OF s(6)] by auto
qed

text \<open>It can be set to any cover of both files, shortened, and read again.\<close>

lemma resetCover_sok:
  assumes "read st = subCover_read" "dc_isZeroSubDiff (streamImport st) = zero" "dc_files new old (streamImport st)"
    and "newPos c + coverLength c \<le> length new" "oldPos c + coverLength c \<le> length old"
  shows "dc_sok zero new old c (resetCover st c) 0 (cover_bytes zero new old c)"
  using assms by (simp add: dc_sok_def resetCover_def subCover_initRead_def Let_def dc_files_def dc_cached_def)

lemma resetCoverLen_sok:
  assumes st: "dc_sok zero new old c st pos d" and n: "n \<le> coverLength c"
  shows "dc_sok zero new old (c\<lparr>coverLength := n\<rparr>) (resetCoverLen st n) 0 (cover_bytes zero new old (c\<lparr>coverLength := n\<rparr>))"
proof -
  let ?self = "streamImport st"
  have s: "read st = subCover_read" "streamSize st = coverLength c" "dc_cover ?self = c" "dc_isZeroSubDiff ?self = zero"
      "dc_files new old ?self" "dc_cached new old ?self"
    using st by (simp_all add: dc_sok_def Let_def)
  show ?thesis
  proof (cases "n \<le> subCover_skipLen ?self")
    case True
    then show ?thesis using s n
      by (simp add: resetCoverLen_def subCover_skipLen_def Let_def dc_sok_def subCover_initRead_def dc_files_def dc_cached_def)
  next
    case False
    let ?skip = "subCover_skipLen ?self" and ?k = "dc_curDataLen ?self"
    define k where "k = (if n < ?skip + ?k then n - ?skip else ?k)"
    have k: "k \<le> ?k" "?skip + k \<le> n" using False by (auto simp: k_def)
    let ?s = "?self\<lparr>dc_cover := c\<lparr>coverLength := n\<rparr>, dc_curDataLen := k, dc_inStreamLen := n - (?skip + k)\<rparr>"
    have e: "resetCoverLen st n = st\<lparr>streamSize := n, streamImport := ?s\<rparr>"
      using False s(3) by (simp add: resetCoverLen_def subCover_skipLen_def [symmetric] Let_def k_def) 
    have sk: "subCover_skipLen ?s = ?skip" using k(2) by (simp add: subCover_skipLen_def)
    have cut: "take k xs = take k ys" if "take ?k xs = take ?k ys" for xs ys :: "byte list"
      using k(1) that by (metis min_absorb1 take_take)
    have "dc_cached new old ?s" using s(3,6) k n unfolding dc_cached_def Let_def sk by (auto intro: cut)
    then show ?thesis using s n unfolding e by (simp add: dc_sok_def Let_def dc_files_def)
  qed
qed

lemma dc_sok_again: "dc_sok zero new old c st pos d \<Longrightarrow> dc_sok zero new old c st 0 (cover_bytes zero new old c)"
  by (simp add: dc_sok_def Let_def)

end

end
