(* ===== verification/StepPlan.thy ===== *)
theory StepPlan
  imports StepLaws SingleStream
begin

text \<open>
  The steps of a single-stream diff without streams and buffers: which covers each step holds.  Both
  passes of \<open>TStepStream\<close> follow this plan (theory \<open>StepSave\<close>), and the decoder makes the new data out
  of it.
\<close>

section \<open>Steps and what they mean\<close>

text \<open>Where the files stand after some covers.\<close>

fun ends_of :: "hpatch_TCover list \<Rightarrow> nat \<times> nat \<Rightarrow> nat \<times> nat" where
  "ends_of [] e = e"
| "ends_of (c # cs) e = ends_of cs (oldPos c + coverLength c, newPos c + coverLength c)"

lemma ends_of_append [simp]: "ends_of (cs @ ds) e = ends_of ds (ends_of cs e)"
  by (induction cs arbitrary: e) auto

lemma cover_code_append: "cover_code (cs @ ds) (fst e) (snd e) =
    cover_code cs (fst e) (snd e) @ cover_code ds (fst (ends_of cs e)) (snd (ends_of cs e))"
  by (induction cs arbitrary: e) auto

lemma covers_fit_append: "covers_fit (cs @ ds) (snd e) n m \<longleftrightarrow> covers_fit cs (snd e) n m \<and> covers_fit ds (snd (ends_of cs e)) n m"
proof (induction cs arbitrary: e)
  case Nil
  then show ?case using covers_fit_end by auto
next
  case (Cons c cs)
  then show ?case using Cons.IH [of "(oldPos c + coverLength c, newPos c + coverLength c)"] by auto
qed

lemma ends_of_le: "covers_fit cs (snd e) n m \<Longrightarrow> fst e \<le> m \<Longrightarrow>
    fst (ends_of cs e) \<le> m \<and> snd (ends_of cs e) \<le> n \<and> snd e \<le> snd (ends_of cs e)"
proof (induction cs arbitrary: e)
  case (Cons c cs)
  from Cons.prems have f: "snd e \<le> newPos c" "newPos c + coverLength c \<le> n" "oldPos c + coverLength c \<le> m"
      "covers_fit cs (newPos c + coverLength c) n m" by auto
  from Cons.IH [of "(oldPos c + coverLength c, newPos c + coverLength c)"] f show ?case by auto
qed simp

text \<open>The new data before each cover.\<close>

fun step_gap :: "hpatch_TCover list \<Rightarrow> byte list \<Rightarrow> nat \<Rightarrow> byte list" where
  "step_gap [] new e = []"
| "step_gap (c # cs) new e = take (newPos c - e) (drop e new) @ step_gap cs new (newPos c + coverLength c)"

lemma step_gap_append: "step_gap (cs @ ds) new (snd e) = step_gap cs new (snd e) @ step_gap ds new (snd (ends_of cs e))"
  by (induction cs arbitrary: e) auto

lemma gap_bytes_step: "gap_bytes cs new (snd e) = step_gap cs new (snd e) @ drop (snd (ends_of cs e)) new"
  by (induction cs arbitrary: e) auto

lemma step_gap_length: "covers_fit cs (snd e) (length new) m \<Longrightarrow>
    length (step_gap cs new (snd e)) + snd e \<le> snd (ends_of cs e)"
proof (induction cs arbitrary: e)
  case (Cons c cs)
  from Cons.prems have f: "snd e \<le> newPos c" "newPos c + coverLength c \<le> length new"
      "covers_fit cs (newPos c + coverLength c) (length new) m" by auto
  from Cons.IH [of "(oldPos c + coverLength c, newPos c + coverLength c)"] f show ?case by auto
qed simp

text \<open>A step: its covers and its finished zero-run code.\<close>

type_synonym step = "hpatch_TCover list \<times> byte list"

definition step_head :: "step \<Rightarrow> nat \<times> nat \<Rightarrow> byte list" where
  "step_head s e =
     pack_code (length (cover_code (fst s) (fst e) (snd e))) 0 0 @ pack_code (length (snd s)) 0 0 @
     cover_code (fst s) (fst e) (snd e) @ snd s"

fun steps_bytes :: "byte list \<Rightarrow> nat \<times> nat \<Rightarrow> step list \<Rightarrow> byte list" where
  "steps_bytes new e [] = []"
| "steps_bytes new e (s # ss) = step_head s e @ step_gap (fst s) new (snd e) @ steps_bytes new (ends_of (fst s) e) ss"

definition step_mem :: "step \<Rightarrow> nat \<times> nat \<Rightarrow> nat" where
  "step_mem s e = length (cover_code (fst s) (fst e) (snd e)) + length (snd s)"

text \<open>Steps that cover the new data up to its end, within the memory of a step.\<close>

fun steps_ok :: "byte list \<Rightarrow> byte list \<Rightarrow> nat \<Rightarrow> nat \<times> nat \<Rightarrow> step list \<Rightarrow> bool" where
  "steps_ok new old M e [] \<longleftrightarrow> snd e = length new"
| "steps_ok new old M e (s # ss) \<longleftrightarrow>
     fst s \<noteq> [] \<and> covers_fit (fst s) (snd e) (length new) (length old) \<and>
     (\<forall>c \<in> set (if ss = [] then butlast (fst s) else fst s). 0 < coverLength c) \<and>
     rle0_spec True (snd s) = concat (map (cover_bytes False new old) (fst s)) \<and>
     step_mem s e \<le> M \<and> steps_ok new old M (ends_of (fst s) e) ss"

definition steps_count :: "step list \<Rightarrow> nat" where
  "steps_count ss = sum_list (map (\<lambda>s. length (fst s)) ss)"

section \<open>Reading the steps\<close>

definition sc_ends :: "sspatch_covers \<Rightarrow> nat \<times> nat" where
  "sc_ends cv = (oldPos (sc_cover cv) + coverLength (sc_cover cv), newPos (sc_cover cv) + coverLength (sc_cover cv))"

lemma nextCover_code:
  assumes cache: "covers_cache cv = cover_code (c # cs) (fst (sc_ends cv)) (snd (sc_ends cv))"
    and fit: "snd (sc_ends cv) \<le> newPos c" "newPos c + coverLength c < 2 ^ 64" "oldPos c + coverLength c < 2 ^ 64" "fst (sc_ends cv) < 2 ^ 64"
  shows "sspatch_covers_nextCover cv = Ok \<lparr>covers_cache = cover_code cs (oldPos c + coverLength c) (newPos c + coverLength c),
     lastOldEnd = fst (sc_ends cv), lastNewEnd = snd (sc_ends cv), sc_cover = c\<rparr>"
proof -
  let ?lo = "fst (sc_ends cv)" and ?ln = "snd (sc_ends cv)"
  define inc where "inc = (if oldPos c \<ge> ?lo then oldPos c - ?lo else ?lo - oldPos c)"
  define tag where "tag = (if oldPos c \<ge> ?lo then 0 else 1 :: nat)"
  have it: "inc < 2 ^ 64" "tag < 2 ^ 1" using fit by (auto simp: inc_def tag_def)
  have ic: "inc_code (oldPos c) ?lo = pack_code inc tag 1" by (simp add: inc_code_def inc_def tag_def)
  have b: "newPos c - ?ln < 2 ^ 64" "coverLength c < 2 ^ 64" using fit by auto
  have ends: "add64 (oldPos (sc_cover cv)) (coverLength (sc_cover cv)) = ?lo" "add64 (newPos (sc_cover cv)) (coverLength (sc_cover cv)) = ?ln"
    using fit by (simp_all add: sc_ends_def add64_eq)
  have u: "hpatch_unpackUIntWithTag (pack_code inc tag 1 @ r) 1 = Ok (inc, r)" "hpatch_unpackUInt (pack_code (newPos c - ?ln) 0 0 @ r) = Ok (newPos c - ?ln, r)"
    "hpatch_unpackUInt (pack_code (coverLength c) 0 0 @ r) = Ok (coverLength c, r)" for r
    using unpack_pack_code [OF it, of Memory r] unpack_pack_code_0 [OF b(1)] unpack_pack_code_0 [OF b(2)] by simp_all
  have ne: "pack_code inc tag 1 \<noteq> []" using pack_code_not_Nil [OF it] by simp
  have old: "(if tag = 0 then add64 inc ?lo else sub64 ?lo inc) = oldPos c"
    using fit by (auto simp: tag_def inc_def add64_eq sub64_eq)
  have new: "add64 (newPos c - ?ln) ?ln = newPos c" using fit by (simp add: add64_eq)
  define r where "r = pack_code (newPos c - ?ln) 0 0 @ pack_code (coverLength c) 0 0 @ cover_code cs (oldPos c + coverLength c) (newPos c + coverLength c)"
  obtain b p where bp: "pack_code inc tag 1 = b # p" using ne by (cases "pack_code inc tag 1") auto
  have sign: "drop_bit 7 (unat b) = tag" using hd_pack_code [OF it, of r] bp by simp
  have take: "mem_take 1 (pack_code inc tag 1 @ r) = Ok ([b], p @ r)" using bp by (simp add: mem_take_def)
  have e: "covers_cache cv = pack_code inc tag 1 @ r" using cache ic by (simp add: r_def)
  show ?thesis
    unfolding sspatch_covers_nextCover_def e take rbind.simps prod.case Let_def ends u list.sel using sign old new u
    by (simp add: r_def u)
qed

lemma cover_makes_new:
  assumes "e \<le> newPos c" "newPos c + coverLength c \<le> length new" "oldPos c + coverLength c \<le> length old"
  shows "take (newPos c - e) (drop e new) @ bytes_add (cover_bytes False new old c) (take (coverLength c) (drop (oldPos c) old)) @
     drop (newPos c + coverLength c) new = drop e new"
proof -
  have "bytes_add (cover_bytes False new old c) (take (coverLength c) (drop (oldPos c) old)) = take (coverLength c) (drop (newPos c) new)"
    using assms by (simp add: cover_bytes_def bytes_add_sub)
  moreover have "take (coverLength c) (drop (newPos c) new) @ drop (newPos c + coverLength c) new = drop (newPos c) new"
    by (metis add.commute append_take_drop_id drop_drop)
  moreover have "take (newPos c - e) (drop e new) @ drop (newPos c) new = drop e new"
    by (metis append_take_drop_id assms(1) drop_drop le_add_diff_inverse2)
  ultimately show ?thesis by simp
qed

text \<open>The covers of a step; \<open>k\<close> covers come in later steps.\<close>

lemma ss_covers_read:
  assumes "covers_cache cv = cover_code cs (fst (sc_ends cv)) (snd (sc_ends cv))"
    and "covers_fit cs (snd (sc_ends cv)) (length new) (length old)" "fst (sc_ends cv) \<le> length old"
    and "\<forall>c \<in> set (if k = 0 then butlast cs else cs). 0 < coverLength c"
    and "length new < 2 ^ 64" "length old < 2 ^ 64" "length cs + k < 2 ^ 64"
  shows "\<exists>d cv'. ss_covers_spec old cv (concat (map (cover_bytes False new old) cs)) (step_gap cs new (snd (sc_ends cv)) @ inb) (length cs + k)
      = Some (d, inb, cv', k) \<and> sc_ends cv' = ends_of cs (sc_ends cv) \<and> d @ drop (snd (ends_of cs (sc_ends cv))) new = drop (snd (sc_ends cv)) new"
  using assms
proof (induction cs arbitrary: cv)
  case Nil
  then show ?case by (simp add: ss_covers_spec.simps [of old cv])
next
  case (Cons c cs)
  let ?e = "sc_ends cv"
  from Cons.prems have f: "snd ?e \<le> newPos c" "newPos c + coverLength c \<le> length new" "oldPos c + coverLength c \<le> length old"
      "covers_fit cs (newPos c + coverLength c) (length new) (length old)" by auto
  have ends: "newPos c + coverLength c < 2 ^ 64" "oldPos c + coverLength c < 2 ^ 64" "fst ?e < 2 ^ 64" using f Cons.prems by auto
  define cv1 where "cv1 = \<lparr>covers_cache = cover_code cs (oldPos c + coverLength c) (newPos c + coverLength c),
     lastOldEnd = fst ?e, lastNewEnd = snd ?e, sc_cover = c\<rparr>"
  have nx: "sspatch_covers_nextCover cv = Ok cv1" unfolding cv1_def by (rule nextCover_code [OF Cons.prems(1) f(1) ends])
  have e1: "sc_ends cv1 = (oldPos c + coverLength c, newPos c + coverLength c)" by (simp add: cv1_def sc_ends_def)
  have ne: "covers_cache cv \<noteq> []"
    using inc_code_length [of "oldPos c" "fst ?e"] ends Cons.prems(1) by auto
  have cache1: "covers_cache cv1 = cover_code cs (fst (sc_ends cv1)) (snd (sc_ends cv1))" by (simp add: e1) (simp add: cv1_def)
  have fit1: "covers_fit cs (snd (sc_ends cv1)) (length new) (length old)" "fst (sc_ends cv1) \<le> length old" using f by (simp_all add: e1)
  have pos1: "\<forall>c \<in> set (if k = 0 then butlast cs else cs). 0 < coverLength c" using Cons.prems(4) by (auto split: if_splits)
  have small: "length cs + k < 2 ^ 64" using Cons.prems(7) by simp
  from Cons.IH [OF cache1 fit1 pos1 Cons.prems(5,6) small] obtain d cv' where
    r: "ss_covers_spec old cv1 (concat (map (cover_bytes False new old) cs)) (step_gap cs new (newPos c + coverLength c) @ inb) (length cs + k)
        = Some (d, inb, cv', k)" "sc_ends cv' = ends_of (c # cs) ?e" "d @ drop (snd (ends_of (c # cs) ?e)) new = drop (newPos c + coverLength c) new"
    unfolding e1 by auto
  have cl: "length (cover_bytes False new old c) = coverLength c" by (rule cover_bytes_length [OF f(2,3)])
  have gl: "length (take (newPos c - snd ?e) (drop (snd ?e) new)) = newPos c - snd ?e" using f by auto
  have cnt: "sub64 (length (c # cs) + k) 1 = length cs + k" using Cons.prems(7) by (simp add: sub64_eq)
  have zero: "coverLength c = 0 \<Longrightarrow> length cs + k = 0" using Cons.prems(4) by (cases cs) (auto split: if_splits)
  have flds: "sc_cover cv1 = c" "lastNewEnd cv1 = snd ?e" by (simp_all add: cv1_def)
  let ?d = "take (newPos c - snd ?e) (drop (snd ?e) new) @ bytes_add (cover_bytes False new old c) (take (coverLength c) (drop (oldPos c) old)) @ d"
  have "ss_covers_spec old cv (concat (map (cover_bytes False new old) (c # cs))) (step_gap (c # cs) new (snd ?e) @ inb) (length (c # cs) + k)
      = Some (?d, inb, cv', k)"
    unfolding ss_covers_spec.simps [of old cv] if_not_P [OF ne] nx res.case Let_def flds cnt
    using r(1) f(3) cl gl zero by simp
  moreover have "?d @ drop (snd (ends_of (c # cs) ?e)) new = drop (snd ?e) new"
    using r(3) cover_makes_new [OF f(1-3)] by simp
  ultimately show ?case using r(2) by blast
qed

lemma ss_spec_steps:
  assumes "steps_ok new old M e ss" "sc_ends cv = e" "fst e \<le> length old"
    and "length new < 2 ^ 64" "length old < 2 ^ 64" "steps_count ss < 2 ^ 64" "M < 2 ^ 64"
  shows "ss_spec old M cv (steps_bytes new e ss) (steps_count ss) = Some (drop (snd e) new)"
  using assms
proof (induction ss arbitrary: e cv)
  case Nil
  then show ?case by (simp add: ss_spec.simps steps_count_def)
next
  case (Cons s ss)
  define codes where "codes = cover_code (fst s) (fst e) (snd e)"
  define inb where "inb = steps_bytes new (ends_of (fst s) e) ss"
  have s: "fst s \<noteq> []" "covers_fit (fst s) (snd e) (length new) (length old)"
    "\<forall>c \<in> set (if ss = [] then butlast (fst s) else fst s). 0 < coverLength c"
    "rle0_spec True (snd s) = concat (map (cover_bytes False new old) (fst s))"
    "length codes + length (snd s) \<le> M" "steps_ok new old M (ends_of (fst s) e) ss"
    using Cons.prems(1) by (simp_all add: step_mem_def codes_def)
  have bytes: "steps_bytes new e (s # ss) = pack_code (length codes) 0 0 @ pack_code (length (snd s)) 0 0 @ codes @ snd s @
      step_gap (fst s) new (snd e) @ inb"
    by (simp add: step_head_def codes_def inb_def)
  have c64: "length codes < 2 ^ 64" "length (snd s) < 2 ^ 64" using s(5) Cons.prems(7) by linarith+
  have u: "unpack_by Streaming (steps_bytes new e (s # ss)) 0 = Ok (length codes, pack_code (length (snd s)) 0 0 @ codes @ snd s @
      step_gap (fst s) new (snd e) @ inb)" "unpack_by Streaming (pack_code (length (snd s)) 0 0 @ codes @ snd s @
      step_gap (fst s) new (snd e) @ inb) 0 = Ok (length (snd s), codes @ snd s @ step_gap (fst s) new (snd e) @ inb)"
    unfolding bytes using unpack_pack_code [OF c64(1), of 0 0] unpack_pack_code [OF c64(2), of 0 0] by simp_all
  have cnt: "steps_count (s # ss) = length (fst s) + steps_count ss" "steps_count (s # ss) \<noteq> 0" using s(1) by (simp_all add: steps_count_def)
  let ?cv = "sspatch_covers_setCoversCache cv codes"
  have e1: "sc_ends ?cv = e" "covers_cache ?cv = codes" using Cons.prems(2) by (simp_all add: sspatch_covers_setCoversCache_def sc_ends_def)
  have k: "steps_count ss = 0 \<longleftrightarrow> ss = []"
  proof (cases ss)
    case (Cons a b)
    then show ?thesis using s(6) by (simp add: steps_count_def)
  qed (simp add: steps_count_def)
  have pos: "\<forall>c \<in> set (if steps_count ss = 0 then butlast (fst s) else fst s). 0 < coverLength c" using s(3) unfolding k .
  have small: "length (fst s) + steps_count ss < 2 ^ 64" using Cons.prems(6) cnt(1) by simp
  have cache: "covers_cache ?cv = cover_code (fst s) (fst (sc_ends ?cv)) (snd (sc_ends ?cv))" using e1 by (simp add: codes_def)
  have fit: "covers_fit (fst s) (snd (sc_ends ?cv)) (length new) (length old)" "fst (sc_ends ?cv) \<le> length old"
    using e1 s(2) Cons.prems(3) by simp_all
  from ss_covers_read [OF cache fit pos Cons.prems(4,5) small, of inb] obtain d cv' where
    r: "ss_covers_spec old ?cv (concat (map (cover_bytes False new old) (fst s))) (step_gap (fst s) new (snd e) @ inb) (steps_count (s # ss))
        = Some (d, inb, cv', steps_count ss)" "sc_ends cv' = ends_of (fst s) e" "d @ drop (snd (ends_of (fst s) e)) new = drop (snd e) new"
    unfolding e1(1) cnt(1) by blast
  have "fst (ends_of (fst s) e) \<le> length old" using ends_of_le [OF s(2) Cons.prems(3)] by simp
  moreover have "steps_count ss < 2 ^ 64" using small by simp
  ultimately have ih: "ss_spec old M cv' inb (steps_count ss) = Some (drop (snd (ends_of (fst s) e)) new)"
    unfolding inb_def using Cons.IH [OF s(6) r(2)] Cons.prems(4,5,7) by blast
  have "ss_spec old M cv (steps_bytes new e (s # ss)) (steps_count (s # ss)) = map_option ((@) d) (ss_spec old M cv' inb (steps_count ss))"
    unfolding ss_spec.simps [of _ _ cv] if_not_P [OF cnt(2)] u res.case prod.case
    using s(5) r(1) s(4) by simp
  then show ?case using ih r(3) by simp
qed

section \<open>The plan\<close>

record step_plan =
  pl_todo :: "hpatch_TCover list"
  pl_start :: "nat \<times> nat"
  pl_covers :: "hpatch_TCover list"
  pl_rle :: TSingleStreamRLE0

definition pl_ends :: "step_plan \<Rightarrow> nat \<times> nat" where
  "pl_ends p = ends_of (pl_covers p) (pl_start p)"

definition pl_code :: "step_plan \<Rightarrow> byte list" where
  "pl_code p = cover_code (pl_covers p) (fst (pl_start p)) (snd (pl_start p))"

definition pl_code1 :: "step_plan \<Rightarrow> hpatch_TCover \<Rightarrow> byte list" where
  "pl_code1 p c = cover_code [c] (fst (pl_ends p)) (snd (pl_ends p))"

text \<open>The memory a step needs with the code of \<open>c\<close> and the differences \<open>d\<close>.\<close>

definition pl_need :: "step_plan \<Rightarrow> hpatch_TCover \<Rightarrow> byte list \<Rightarrow> nat" where
  "pl_need p c d = length (pl_code p) + length (pl_code1 p c) + rle0_size (rle0_put (pl_rle p) d)"

definition pl_append :: "(hpatch_TCover \<Rightarrow> byte list) \<Rightarrow> step_plan \<Rightarrow> hpatch_TCover \<Rightarrow> hpatch_TCover list \<Rightarrow> step_plan" where
  "pl_append sub p c cs = p\<lparr>pl_todo := cs, pl_covers := pl_covers p @ [c], pl_rle := rle0_put (pl_rle p) (sub c)\<rparr>"

definition pl_flush :: "step_plan \<Rightarrow> step_plan" where
  "pl_flush p = p\<lparr>pl_start := pl_ends p, pl_covers := [], pl_rle := TSingleStreamRLE0_init\<rparr>"

definition pl_finish :: "step_plan \<Rightarrow> step" where
  "pl_finish p = (pl_covers p, case finishAppend_rle0 (pl_rle p) of Ok rle \<Rightarrow> s0_fixed_code rle | _ \<Rightarrow> [])"

definition left_of :: "hpatch_TCover \<Rightarrow> nat \<Rightarrow> hpatch_TCover" where
  "left_of c n = c\<lparr>coverLength := n\<rparr>"

definition right_of :: "hpatch_TCover \<Rightarrow> nat \<Rightarrow> hpatch_TCover" where
  "right_of c n = \<lparr>oldPos = oldPos c + n, newPos = newPos c + n, coverLength = coverLength c - n\<rparr>"

function pl_clip_len :: "(hpatch_TCover \<Rightarrow> byte list) \<Rightarrow> nat \<Rightarrow> step_plan \<Rightarrow> hpatch_TCover \<Rightarrow> nat \<Rightarrow> nat" where
  "pl_clip_len sub M p c clen =
     (let clen' = clen * 3 div 4 in
      if clen' = 0 then 0
      else if pl_need p c (sub (left_of c clen')) \<le> M then clen' else pl_clip_len sub M p c clen')"
  by pat_completeness auto
termination
  by (relation "measure (\<lambda>(s, M, p, c, n). n)") auto

declare pl_clip_len.simps [simp del]

lemma pl_clip_len_less: "pl_clip_len sub M p c n = l \<Longrightarrow> 0 < l \<Longrightarrow> l < n \<and> pl_need p c (sub (left_of c l)) \<le> M"
proof (induction sub M p c n rule: pl_clip_len.induct)
  case (1 sub M p c n)
  then show ?case by (subst (asm) (2) pl_clip_len.simps) (fastforce simp: Let_def split: if_splits)
qed

text \<open>All its steps, with what is done at each: append, flush or cut.\<close>

function pl_run :: "(hpatch_TCover \<Rightarrow> byte list) \<Rightarrow> nat \<Rightarrow> step_plan \<Rightarrow> step list" where
  "pl_run sub M p =
     (case pl_todo p of
        [] \<Rightarrow> if pl_covers p = [] then [] else [pl_finish p]
      | c # cs \<Rightarrow>
          if pl_need p c (sub c) \<le> M then pl_run sub M (pl_append sub p c cs)
          else if pl_covers p \<noteq> [] \<and> length (pl_code p) + rle0_size (pl_rle p) \<ge> M div 2 then
            pl_finish p # pl_run sub M (pl_flush p)
          else
            let n = pl_clip_len sub M p c (coverLength c) in
            if n = 0 then [] else pl_run sub M (p\<lparr>pl_todo := left_of c n # right_of c n # cs\<rparr>))"
  by pat_completeness auto
termination
proof (relation "measures [\<lambda>(s, M, p). sum_list (map cover_weight (pl_todo p)), \<lambda>(s, M, p). length (pl_covers p)]", goal_cases)
  case (2 sub M p c cs)
  then show ?case using cover_weight_pos [of c] by (simp add: pl_append_def)
next
  case (3 sub M p c cs)
  then show ?case by (simp add: pl_flush_def)
next
  case (4 sub M p c cs n)
  then have "0 < n" "n < coverLength c" using pl_clip_len_less [OF 4(4) [symmetric]] by auto
  then show ?case using 4(1) by (simp add: cover_weight_def left_of_def right_of_def)
qed simp

declare pl_run.simps [simp del]

section \<open>The plan makes good steps\<close>

lemma less_54_64: "n < 2 ^ 54 \<Longrightarrow> n < (2 :: nat) ^ 64"
  by simp

definition plan_ok :: "byte list \<Rightarrow> byte list \<Rightarrow> nat \<Rightarrow> step_plan \<Rightarrow> bool" where
  "plan_ok new old M p \<longleftrightarrow>
     4096 \<le> M \<and> length new < 2 ^ 54 \<and> M < 2 ^ 62 \<and> length old < 2 ^ 64 \<and> fst (pl_start p) \<le> length old \<and>
     covers_fit (pl_covers p @ pl_todo p) (snd (pl_start p)) (length new) (length old) \<and>
     snd (ends_of (pl_covers p @ pl_todo p) (pl_start p)) = length new \<and>
     (\<forall>c \<in> set (butlast (pl_covers p @ pl_todo p)). 0 < coverLength c) \<and>
     ss_ok (pl_rle p) (concat (map (cover_bytes False new old) (pl_covers p))) \<and>
     (if pl_covers p = [] then pl_rle p = TSingleStreamRLE0_init else length (pl_code p) + rle0_size (pl_rle p) \<le> M)"

lemma concat_bytes_length:
  "covers_fit cs (snd e) (length new) (length old) \<Longrightarrow>
   length (concat (map (cover_bytes False new old) cs)) + snd e \<le> snd (ends_of cs e)"
proof (induction cs arbitrary: e)
  case (Cons c cs)
  from Cons.prems have f: "snd e \<le> newPos c" "newPos c + coverLength c \<le> length new" "oldPos c + coverLength c \<le> length old"
      "covers_fit cs (newPos c + coverLength c) (length new) (length old)" by auto
  from Cons.IH [of "(oldPos c + coverLength c, newPos c + coverLength c)"] f cover_bytes_length [OF f(2,3), of False] show ?case by auto
qed simp

text \<open>What the invariant says of the next cover.\<close>

lemma plan_next:
  assumes ok: "plan_ok new old M p" and todo: "pl_todo p = c # cs"
  shows "covers_fit (pl_covers p) (snd (pl_start p)) (length new) (length old)"
    and "snd (pl_ends p) \<le> newPos c" "newPos c + coverLength c \<le> length new" "oldPos c + coverLength c \<le> length old"
    and "covers_fit cs (newPos c + coverLength c) (length new) (length old)" "fst (pl_ends p) \<le> length old" "snd (pl_ends p) \<le> length new"
    and "length (concat (map (cover_bytes False new old) (pl_covers p))) + coverLength c \<le> length new"
    and "length (pl_code1 p c) \<le> 33" "0 < length (pl_code1 p c)" "0 < coverLength c \<or> cs = []"
proof -
  have f: "covers_fit (pl_covers p) (snd (pl_start p)) (length new) (length old)" "covers_fit (c # cs) (snd (pl_ends p)) (length new) (length old)"
      "fst (pl_start p) \<le> length old" "length old < 2 ^ 64" "length new < 2 ^ 54"
    using ok todo by (simp_all add: plan_ok_def covers_fit_append pl_ends_def)
  show "covers_fit (pl_covers p) (snd (pl_start p)) (length new) (length old)" by fact
  show c: "snd (pl_ends p) \<le> newPos c" "newPos c + coverLength c \<le> length new" "oldPos c + coverLength c \<le> length old"
      "covers_fit cs (newPos c + coverLength c) (length new) (length old)" using f(2) by auto
  show e: "fst (pl_ends p) \<le> length old" "snd (pl_ends p) \<le> length new"
    using ends_of_le [OF f(1,3)] by (simp_all add: pl_ends_def)
  show "length (concat (map (cover_bytes False new old) (pl_covers p))) + coverLength c \<le> length new"
    using concat_bytes_length [OF f(1)] c by (simp add: pl_ends_def)
  have b: "oldPos c < 2 ^ 64" "fst (pl_ends p) < 2 ^ 64" "newPos c - snd (pl_ends p) < 2 ^ 64" "coverLength c < 2 ^ 64"
    using c e f(4,5) by auto
  show "length (pl_code1 p c) \<le> 33" "0 < length (pl_code1 p c)"
    using inc_code_length [OF b(1,2)] pack_code(3) [OF b(3), of 0 0] pack_code(3) [OF b(4), of 0 0] by (simp_all add: pl_code1_def)
  show "0 < coverLength c \<or> cs = []" using ok todo by (cases "cs = []") (auto simp: plan_ok_def butlast_append)
qed

lemma plan_need:
  assumes ok: "plan_ok new old M p" and todo: "pl_todo p = c # cs" and d: "length d \<le> coverLength c"
  shows "pl_need p c d \<le> length (pl_code p) + 33 + rle0_size (pl_rle p) + 13 * length d"
    and "ss_ok (rle0_put (pl_rle p) d) (concat (map (cover_bytes False new old) (pl_covers p)) @ d)"
proof -
  note n = plan_next [OF ok todo]
  have "ss_ok (pl_rle p) (concat (map (cover_bytes False new old) (pl_covers p)))" "length new < 2 ^ 54" using ok by (simp_all add: plan_ok_def)
  moreover from this have "length (concat (map (cover_bytes False new old) (pl_covers p))) + length d < 2 ^ 64" using n(8) d by (intro less_54_64) linarith
  ultimately have r: "ss_ok (rle0_put (pl_rle p) d) (concat (map (cover_bytes False new old) (pl_covers p)) @ d)"
      "rle0_size (rle0_put (pl_rle p) d) \<le> rle0_size (pl_rle p) + 13 * length d" using rle0_put_result by blast+
  show "pl_need p c d \<le> length (pl_code p) + 33 + rle0_size (pl_rle p) + 13 * length d" using r(2) n(9) by (simp add: pl_need_def)
  show "ss_ok (rle0_put (pl_rle p) d) (concat (map (cover_bytes False new old) (pl_covers p)) @ d)" by (rule r(1))
qed

lemma plan_append_ok:
  assumes ok: "plan_ok new old M p" and todo: "pl_todo p = c # cs" and need: "pl_need p c (cover_bytes False new old c) \<le> M"
  shows "plan_ok new old M (pl_append (cover_bytes False new old) p c cs)"
proof -
  note n = plan_next [OF ok todo]
  have l: "length (cover_bytes False new old c) \<le> coverLength c" using cover_bytes_length [OF n(3,4)] by simp
  have "length (pl_code (pl_append (cover_bytes False new old) p c cs)) = length (pl_code p) + length (pl_code1 p c)"
    by (simp add: pl_code_def pl_append_def pl_code1_def pl_ends_def cover_code_append del: cover_code.simps)
  then show ?thesis using ok todo need plan_need(2) [OF ok todo l]
    by (simp add: plan_ok_def pl_append_def pl_need_def)
qed

lemma plan_flush_ok:
  assumes ok: "plan_ok new old M p"
  shows "plan_ok new old M (pl_flush p)"
proof -
  have f: "covers_fit (pl_covers p) (snd (pl_start p)) (length new) (length old)" "fst (pl_start p) \<le> length old"
      "covers_fit (pl_todo p) (snd (pl_ends p)) (length new) (length old)"
    using ok by (simp_all add: plan_ok_def covers_fit_append pl_ends_def)
  have "fst (pl_ends p) \<le> length old" using ends_of_le [OF f(1,2)] by (simp add: pl_ends_def)
  moreover have "\<forall>c \<in> set (butlast (pl_todo p)). 0 < coverLength c" using ok by (simp add: plan_ok_def butlast_append split: if_splits)
  ultimately show ?thesis using ok f(3) by (simp add: plan_ok_def pl_flush_def pl_ends_def)
qed

lemma plan_clip_ok:
  assumes ok: "plan_ok new old M p" and todo: "pl_todo p = c # cs" and k: "0 < k" "k < coverLength c"
  shows "plan_ok new old M (p\<lparr>pl_todo := left_of c k # right_of c k # cs\<rparr>)"
proof -
  note n = plan_next [OF ok todo]
  let ?q = "p\<lparr>pl_todo := left_of c k # right_of c k # cs\<rparr>"
  have fit: "covers_fit (pl_covers p @ pl_todo ?q) (snd (pl_start p)) (length new) (length old)"
    using n(1-5) k unfolding covers_fit_append by (simp add: left_of_def right_of_def pl_ends_def)
  have "ends_of (pl_covers p @ pl_todo ?q) (pl_start p) = ends_of (pl_covers p @ pl_todo p) (pl_start p)"
    using k todo by (simp add: left_of_def right_of_def)
  moreover have "\<forall>c \<in> set (butlast (pl_covers p @ pl_todo ?q)). 0 < coverLength c"
    using ok todo k by (auto simp: plan_ok_def butlast_append left_of_def right_of_def split: if_splits)
  moreover have "pl_code ?q = pl_code p" by (simp add: pl_code_def)
  ultimately show ?thesis using ok fit unfolding plan_ok_def by simp
qed

text \<open>A cover that does not fit a half empty step can be cut.\<close>

lemma plan_clip_some:
  assumes ok: "plan_ok new old M p" and todo: "pl_todo p = c # cs"
    and half: "length (pl_code p) + rle0_size (pl_rle p) < M div 2" and n: "2 \<le> n" "n \<le> coverLength c"
  shows "pl_clip_len (cover_bytes False new old) M p c n \<noteq> 0"
  using n
proof (induction n rule: less_induct)
  case (less n)
  let ?n = "n * 3 div 4" and ?sub = "cover_bytes False new old"
  have n': "0 < ?n" "?n < n" using less.prems by auto
  note f = plan_next [OF ok todo]
  have l: "length (?sub (left_of c ?n)) = ?n"
    using f(3,4) n' less.prems by (subst cover_bytes_length) (simp_all add: left_of_def)
  have M: "4096 \<le> M" using ok by (simp add: plan_ok_def)
  have "length (?sub (left_of c ?n)) \<le> coverLength c" using l n'(2) less.prems(2) by linarith
  from plan_need(1) [OF ok todo this] have need1: "?n = 1 \<Longrightarrow> pl_need p c (?sub (left_of c ?n)) \<le> M"
    unfolding l using half M by linarith
  show ?case
  proof (cases "pl_need p c (?sub (left_of c ?n)) \<le> M")
    case True
    then show ?thesis using n'(1) by (simp add: pl_clip_len.simps [of _ _ _ _ n] Let_def)
  next
    case False
    then have "2 \<le> ?n" using need1 n'(1) by linarith
    with less.IH [OF n'(2) this] False n' less.prems show ?thesis by (simp add: pl_clip_len.simps [of _ _ _ _ n] Let_def)
  qed
qed

lemma plan_clip:
  assumes ok: "plan_ok new old M p" and todo: "pl_todo p = c # cs"
    and big: "\<not> pl_need p c (cover_bytes False new old c) \<le> M"
    and half: "\<not> (pl_covers p \<noteq> [] \<and> length (pl_code p) + rle0_size (pl_rle p) \<ge> M div 2)"
  shows "0 < pl_clip_len (cover_bytes False new old) M p c (coverLength c)"
proof -
  note f = plan_next [OF ok todo]
  have h: "length (pl_code p) + rle0_size (pl_rle p) < M div 2"
  proof (cases "pl_covers p = []")
    case True
    then show ?thesis using ok by (simp add: plan_ok_def pl_code_def rle0_size_def TSingleStreamRLE0_init_def)
  next
    case False
    then show ?thesis using half by simp
  qed
  have l: "length (cover_bytes False new old c) = coverLength c" by (rule cover_bytes_length [OF f(3,4)])
  have "pl_need p c (cover_bytes False new old c) \<le> length (pl_code p) + 33 + rle0_size (pl_rle p) + 13 * coverLength c"
    using plan_need(1) [OF ok todo, of "cover_bytes False new old c"] l by simp
  moreover have "4096 \<le> M" using ok by (simp add: plan_ok_def)
  ultimately have "2 \<le> coverLength c" using h big by linarith
  from plan_clip_some [OF ok todo h this order_refl] show ?thesis by simp
qed

lemma plan_finish:
  assumes ok: "plan_ok new old M p" and ne: "pl_covers p \<noteq> []"
  shows "\<exists>rle. finishAppend_rle0 (pl_rle p) = Ok rle \<and> pl_finish p = (pl_covers p, s0_fixed_code rle) \<and>
    rle0_spec True (s0_fixed_code rle) = concat (map (cover_bytes False new old) (pl_covers p)) \<and>
    length (s0_fixed_code rle) \<le> rle0_size (pl_rle p) + 1 \<and> length (pl_code p) + length (s0_fixed_code rle) \<le> M \<and>
    curCodeSize rle = Ok (length (s0_fixed_code rle))"
proof -
  let ?s = "concat (map (cover_bytes False new old) (pl_covers p))"
  have o: "ss_ok (pl_rle p) ?s" "length (pl_code p) + rle0_size (pl_rle p) \<le> M" "4096 \<le> M" "M < 2 ^ 62" "length new < 2 ^ 54"
      "covers_fit (pl_covers p) (snd (pl_start p)) (length new) (length old)" "fst (pl_start p) \<le> length old" "length old < 2 ^ 64"
      "\<forall>c \<in> set (butlast (pl_covers p @ pl_todo p)). 0 < coverLength c"
    using ok ne by (simp_all add: plan_ok_def covers_fit_append)
  have ends: "snd (ends_of (pl_covers p) (pl_start p)) \<le> length new" using ends_of_le [OF o(6,7)] by simp
  have s64: "length ?s < 2 ^ 64" using concat_bytes_length [OF o(6)] ends o(5) by (intro less_54_64) linarith
  from finishAppend_rle0_result [OF o(1) s64] obtain rle where rle: "finishAppend_rle0 (pl_rle p) = Ok rle"
    "rle0_spec True (s0_fixed_code rle) = ?s" "s0_len0 rle = 0" "s0_uncompressData rle = []" by blast
  have size: "length (s0_fixed_code rle) = (if s0_fixed_code (pl_rle p) = [] \<and> ?s = [] then 1 else rle0_size (pl_rle p))"
    by (rule finish_size [OF o(1) s64 rle(1)])
  have mem: "length (pl_code p) + length (s0_fixed_code rle) \<le> M"
  proof (cases "?s = []")
    case True
    obtain c cs where cv: "pl_covers p = c # cs" using ne by (cases "pl_covers p") auto
    have "coverLength c = 0"
    proof -
      have "cover_bytes False new old c = []" using True cv by simp
      moreover have "length (cover_bytes False new old c) = coverLength c" using o(6) unfolding cv by (subst cover_bytes_length) auto
      ultimately show ?thesis by simp
    qed
    then have "cs = []" using o(9) cv by (cases cs) auto
    have "newPos c - snd (pl_start p) < 2 ^ 64" using o(5,6) cv by (intro less_54_64) auto
    with \<open>cs = []\<close> have "length (pl_code p) \<le> 33"
      using o(5-8) cv inc_code_length [of "oldPos c" "fst (pl_start p)"] pack_code(3) [of "newPos c - snd (pl_start p)" 0 0]
        pack_code(3) [of "coverLength c" 0 0] by (simp add: pl_code_def)
    then show ?thesis using size o(2,3) by auto
  next
    case False
    then have "length (s0_fixed_code rle) = rle0_size (pl_rle p)" using size by (simp only: simp_thms if_False)
    then show ?thesis using o(2) by simp
  qed
  have "curCodeSize rle = Ok (length (s0_fixed_code rle))"
    using rle(3,4) mem o(4) by (simp add: curCodeSize_def maxCodeSize_def getLastType_def max_code_loop.simps max_code_end_def)
  then show ?thesis using rle(1,2) size mem by (auto simp: pl_finish_def)
qed

lemma plan_step_finish:
  assumes ok: "plan_ok new old M p" and ne: "pl_covers p \<noteq> []"
  shows "steps_ok new old M (pl_start p) (pl_finish p # ss) \<longleftrightarrow>
    (ss \<noteq> [] \<longrightarrow> (\<forall>c \<in> set (pl_covers p). 0 < coverLength c)) \<and> steps_ok new old M (pl_ends p) ss"
proof -
  from plan_finish [OF assms] obtain rle :: TSingleStreamRLE0 where r: "pl_finish p = (pl_covers p, s0_fixed_code rle)"
    "rle0_spec True (s0_fixed_code rle) = concat (map (cover_bytes False new old) (pl_covers p))"
    "length (pl_code p) + length (s0_fixed_code rle) \<le> M" by blast
  have "covers_fit (pl_covers p) (snd (pl_start p)) (length new) (length old)"
      "\<forall>c \<in> set (butlast (pl_covers p @ pl_todo p)). 0 < coverLength c"
    using ok by (simp_all add: plan_ok_def covers_fit_append)
  moreover from this(2) have "\<forall>c \<in> set (butlast (pl_covers p)). 0 < coverLength c"
    by (cases "pl_todo p = []") (auto simp: butlast_append dest: in_set_butlastD)
  ultimately show ?thesis using r ne by (auto simp: step_mem_def pl_code_def [symmetric] pl_ends_def)
qed

text \<open>The cases of the plan, as an induction over it.\<close>

lemma plan_induct [consumes 1, case_names empty last append flush clip]:
  assumes ok: "plan_ok new old M p"
    and "\<And>p. plan_ok new old M p \<Longrightarrow> pl_todo p = [] \<Longrightarrow> pl_covers p = [] \<Longrightarrow> pl_run (cover_bytes False new old) M p = [] \<Longrightarrow> P p"
    and "\<And>p. plan_ok new old M p \<Longrightarrow> pl_todo p = [] \<Longrightarrow> pl_covers p \<noteq> [] \<Longrightarrow>
      pl_run (cover_bytes False new old) M p = [pl_finish p] \<Longrightarrow> P p"
    and "\<And>p c cs. plan_ok new old M p \<Longrightarrow> pl_todo p = c # cs \<Longrightarrow> pl_need p c (cover_bytes False new old c) \<le> M \<Longrightarrow>
      plan_ok new old M (pl_append (cover_bytes False new old) p c cs) \<Longrightarrow>
      pl_run (cover_bytes False new old) M p = pl_run (cover_bytes False new old) M (pl_append (cover_bytes False new old) p c cs) \<Longrightarrow>
      P (pl_append (cover_bytes False new old) p c cs) \<Longrightarrow> P p"
    and "\<And>p c cs. plan_ok new old M p \<Longrightarrow> pl_todo p = c # cs \<Longrightarrow> \<not> pl_need p c (cover_bytes False new old c) \<le> M \<Longrightarrow>
      pl_covers p \<noteq> [] \<Longrightarrow> M div 2 \<le> length (pl_code p) + rle0_size (pl_rle p) \<Longrightarrow> plan_ok new old M (pl_flush p) \<Longrightarrow>
      pl_run (cover_bytes False new old) M p = pl_finish p # pl_run (cover_bytes False new old) M (pl_flush p) \<Longrightarrow> P (pl_flush p) \<Longrightarrow> P p"
    and "\<And>p c cs k. plan_ok new old M p \<Longrightarrow> pl_todo p = c # cs \<Longrightarrow> \<not> pl_need p c (cover_bytes False new old c) \<le> M \<Longrightarrow>
      \<not> (pl_covers p \<noteq> [] \<and> length (pl_code p) + rle0_size (pl_rle p) \<ge> M div 2) \<Longrightarrow>
      k = pl_clip_len (cover_bytes False new old) M p c (coverLength c) \<Longrightarrow> 0 < k \<Longrightarrow> k < coverLength c \<Longrightarrow>
      pl_need p c (cover_bytes False new old (left_of c k)) \<le> M \<Longrightarrow>
      plan_ok new old M (p\<lparr>pl_todo := left_of c k # right_of c k # cs\<rparr>) \<Longrightarrow>
      pl_run (cover_bytes False new old) M p = pl_run (cover_bytes False new old) M (p\<lparr>pl_todo := left_of c k # right_of c k # cs\<rparr>) \<Longrightarrow>
      P (p\<lparr>pl_todo := left_of c k # right_of c k # cs\<rparr>) \<Longrightarrow> P p"
  shows "P p"
proof -
  let ?sub = "cover_bytes False new old"
  have "plan_ok new old M' p \<Longrightarrow> M' = M \<Longrightarrow> sub = ?sub \<Longrightarrow> P p" for sub M'
  proof (induction sub M' p rule: pl_run.induct)
    case (1 sub M' p)
    note ok = "1.prems"(1) [unfolded "1.prems"(2)]
    note IH = "1.IH" [unfolded "1.prems"(2,3)]
    show ?case
    proof (cases "pl_todo p")
      case Nil
      then show ?thesis using assms(2,3) [OF ok Nil] by (cases "pl_covers p = []") (simp_all add: pl_run.simps [of _ _ p])
    next
      case (Cons c cs)
      show ?thesis
      proof (cases "pl_need p c (?sub c) \<le> M")
        case True
        have a: "plan_ok new old M (pl_append ?sub p c cs)" by (rule plan_append_ok [OF ok Cons True])
        show ?thesis using IH(1) [OF Cons True a refl refl] assms(4) [OF ok Cons True a] Cons True
          by (simp add: pl_run.simps [of _ _ p])
      next
        case big: False
        show ?thesis
        proof (cases "pl_covers p \<noteq> [] \<and> length (pl_code p) + rle0_size (pl_rle p) \<ge> M div 2")
          case True
          have a: "plan_ok new old M (pl_flush p)" by (rule plan_flush_ok [OF ok])
          show ?thesis using IH(2) [OF Cons big True a refl refl] assms(5) [OF ok Cons big _ _ a] Cons big True
            by (simp add: pl_run.simps [of _ _ p])
        next
          case False
          define k where "k = pl_clip_len ?sub M p c (coverLength c)"
          have k: "0 < k" "k \<noteq> 0" "k < coverLength c" "pl_need p c (?sub (left_of c k)) \<le> M"
            using plan_clip [OF ok Cons big False] pl_clip_len_less [OF k_def [symmetric]] by (auto simp: k_def)
          have a: "plan_ok new old M (p\<lparr>pl_todo := left_of c k # right_of c k # cs\<rparr>)" by (rule plan_clip_ok [OF ok Cons k(1,3)])
          have r: "pl_run ?sub M p = pl_run ?sub M (p\<lparr>pl_todo := left_of c k # right_of c k # cs\<rparr>)"
            unfolding pl_run.simps [of _ _ p] Cons list.case if_not_P [OF big] if_not_P [OF False] k_def [symmetric] Let_def
            using k(2) by simp
          show ?thesis by (rule assms(6) [OF ok Cons big False k_def k(1,3,4) a r IH(3) [OF Cons big False k_def k(2) a refl refl]])
        qed
      qed
    qed
  qed
  with ok show ?thesis by blast
qed

lemma pl_run_ok: "plan_ok new old M p \<Longrightarrow> steps_ok new old M (pl_start p) (pl_run (cover_bytes False new old) M p)"
proof (induction rule: plan_induct)
  case (empty p)
  then show ?case by (simp add: plan_ok_def)
next
  case (last p)
  then show ?case using plan_step_finish [OF last(1,3), of "[]"] by (simp add: plan_ok_def pl_ends_def)
next
  case (flush p c cs)
  have "\<forall>c \<in> set (pl_covers p). 0 < coverLength c" using flush(1,2) by (simp add: plan_ok_def butlast_append)
  then show ?case using plan_step_finish [OF flush(1,4)] flush(7,8) by (simp add: pl_flush_def)
qed (simp_all add: pl_append_def)

lemma steps_bytes_bound:
  "plan_ok new old M p \<Longrightarrow>
   length (steps_bytes new (pl_start p) (pl_run (cover_bytes False new old) M p)) \<le>
     length (pl_code p) + rle0_size (pl_rle p) + (if pl_covers p \<noteq> [] then 23 else 0) +
     length (step_gap (pl_covers p) new (snd (pl_start p))) + 80 * sum_list (map cover_weight (pl_todo p)) + (length new - snd (pl_ends p))"
proof (induction rule: plan_induct)
  case (empty p)
  then show ?case by simp
next
  case (last p)
  from plan_finish [OF last(1,3)] obtain rle :: TSingleStreamRLE0 where
    r: "pl_finish p = (pl_covers p, s0_fixed_code rle)" "length (s0_fixed_code rle) \<le> rle0_size (pl_rle p) + 1"
      "length (pl_code p) + length (s0_fixed_code rle) \<le> M" by blast
  have "M < 2 ^ 62" using last(1) by (simp add: plan_ok_def)
  then have c: "length (pl_code p) < 2 ^ 64" "length (s0_fixed_code rle) < 2 ^ 64" using r(3) by auto
  show ?case using last(3,4) r pack_code(3) [OF c(1), of 0 0] pack_code(3) [OF c(2), of 0 0]
    by (simp add: step_head_def pl_code_def [symmetric])
next
  case (append p c cs)
  note n = plan_next [OF append(1,2)]
  let ?p = "pl_append (cover_bytes False new old) p c cs"
  have l: "length (cover_bytes False new old c) = coverLength c" by (rule cover_bytes_length [OF n(3,4)])
  then have "rle0_size (pl_rle ?p) \<le> rle0_size (pl_rle p) + 13 * coverLength c"
  proof -
    have o: "ss_ok (pl_rle p) (concat (map (cover_bytes False new old) (pl_covers p)))" "length new < 2 ^ 54"
      using append(1) by (simp_all add: plan_ok_def)
    have "length (concat (map (cover_bytes False new old) (pl_covers p))) + length (cover_bytes False new old c) < 2 ^ 64"
      using n(8) l o(2) by (intro less_54_64) linarith
    from rle0_put_result [OF o(1) this] show ?thesis using l by (simp add: pl_append_def)
  qed
  moreover have "length (pl_code ?p) \<le> length (pl_code p) + 33"
    using n(9) by (simp add: pl_code_def pl_append_def pl_code1_def pl_ends_def cover_code_append del: cover_code.simps)
  moreover have "length (step_gap (pl_covers ?p) new (snd (pl_start ?p))) \<le>
      length (step_gap (pl_covers p) new (snd (pl_start p))) + (newPos c - snd (pl_ends p))"
    by (simp add: pl_append_def step_gap_append pl_ends_def)
  moreover have "length new - snd (pl_ends ?p) + (newPos c - snd (pl_ends p)) \<le> length new - snd (pl_ends p)"
    using n(2,3) by (simp add: pl_append_def pl_ends_def)
  moreover have "56 + 13 * coverLength c \<le> 80 * cover_weight c" by (auto simp: cover_weight_def)
  moreover have "sum_list (map cover_weight (pl_todo p)) = cover_weight c + sum_list (map cover_weight (pl_todo ?p))"
    using append(2) by (simp add: pl_append_def)
  moreover have "pl_covers ?p \<noteq> []" "pl_start ?p = pl_start p" by (simp_all add: pl_append_def)
  ultimately show ?case using append(5,6) by (simp split: if_splits)
next
  case (flush p c cs)
  from plan_finish [OF flush(1,4)] obtain rle :: TSingleStreamRLE0 where
    r: "pl_finish p = (pl_covers p, s0_fixed_code rle)" "length (s0_fixed_code rle) \<le> rle0_size (pl_rle p) + 1"
      "length (pl_code p) + length (s0_fixed_code rle) \<le> M" by blast
  have "M < 2 ^ 62" using flush(1) by (simp add: plan_ok_def)
  then have c: "length (pl_code p) < 2 ^ 64" "length (s0_fixed_code rle) < 2 ^ 64" using r(3) by auto
  have h: "length (step_head (pl_finish p) (pl_start p)) \<le> 22 + length (pl_code p) + (rle0_size (pl_rle p) + 1)"
    using r pack_code(3) [OF c(1), of 0 0] pack_code(3) [OF c(2), of 0 0] by (simp add: step_head_def pl_code_def [symmetric])
  have "pl_code (pl_flush p) = []" "rle0_size (pl_rle (pl_flush p)) = 0" "pl_covers (pl_flush p) = []" "pl_start (pl_flush p) = pl_ends p"
      "pl_todo (pl_flush p) = pl_todo p" "pl_ends (pl_flush p) = pl_ends p"
    by (simp_all add: pl_flush_def pl_code_def rle0_size_def TSingleStreamRLE0_init_def pl_ends_def)
  then show ?case using flush(4,7,8) h r(1) by (simp add: pl_ends_def)
next
  case (clip p c cs k)
  have "cover_weight (left_of c k) + cover_weight (right_of c k) \<le> cover_weight c"
    using clip(6,7) by (simp add: cover_weight_def left_of_def right_of_def)
  moreover have "pl_code (p\<lparr>pl_todo := left_of c k # right_of c k # cs\<rparr>) = pl_code p" by (simp add: pl_code_def)
  moreover have "pl_ends (p\<lparr>pl_todo := left_of c k # right_of c k # cs\<rparr>) = pl_ends p" by (simp add: pl_ends_def)
  ultimately show ?case using clip(2,10,11) by (simp split: if_splits)
qed

end
