(* ===== verification/StepSave.thy ===== *)
theory StepSave
  imports StepPlan
begin

text \<open>
  Both passes of \<open>TStepStream\<close> follow the plan of theory \<open>StepPlan\<close>: the first counts what the second
  writes, and the stream holds the bytes of the steps, however often it is read.
\<close>

section \<open>A state and its plan\<close>

lemma code1_eq: "pl_code1 p c = inc_code (oldPos c) (fst (pl_ends p)) @ pack_code (newPos c - snd (pl_ends p)) 0 0 @ pack_code (coverLength c) 0 0"
  by (simp add: pl_code1_def)

context sub_streams begin

definition sub_good :: "byte list \<Rightarrow> byte list \<Rightarrow> ('n, 'o) cover_stream \<Rightarrow> bool" where
  "sub_good new old st \<longleftrightarrow> read st = subCover_read \<and> \<not> dc_isZeroSubDiff (streamImport st) \<and> dc_files new old (streamImport st)"

lemma sub_good_sok: "dc_sok False new old c st pos d \<Longrightarrow> sub_good new old st"
  by (simp add: dc_sok_def sub_good_def Let_def)

definition clip_good :: "byte list \<Rightarrow> ('n TNewDataDiffStream, unit) TStreamClip hpatch_TStreamInput \<Rightarrow> bool" where
  "clip_good G st \<longleftrightarrow> read st = tsc_clip_read \<and> tsc_decompressPlugin (streamImport st) = None \<and>
     tsc_decompressHandle (streamImport st) = None \<and> streamSize (tsc_src (streamImport st)) = length G"

text \<open>\<open>G\<close> is the new data between the covers, of which the plan has taken the part up to its covers.\<close>

definition step_core :: "byte list \<Rightarrow> byte list \<Rightarrow> nat \<Rightarrow> byte list \<Rightarrow> bool \<Rightarrow> ('n, 'o) TStepStream \<Rightarrow> step_plan \<Rightarrow> bool" where
  "step_core new old M G init self p \<longleftrightarrow>
     plan_ok new old M p \<and> ts_isInInit self = init \<and> ts_patchStepMemSize self = M \<and> (ts_lastOldEnd self, ts_lastNewEnd self) = pl_ends p \<and>
     ts_bufCover_size self = length (pl_code p) \<and> (if init then ts_step_buf self = [] else ts_bufCover self = pl_code p) \<and>
     ts_bufRle self = pl_rle p \<and> ts_dataDiffSize self = length (step_gap (pl_covers p) new (snd (pl_start p))) \<and>
     ts_dataDiffSize self \<le> ts_newDataDiffReadPos self \<and> ts_newDataDiffReadPos self \<le> length G \<and> length G < 2 ^ 54 \<and>
     drop (ts_newDataDiffReadPos self - ts_dataDiffSize self) G =
       step_gap (pl_covers p) new (snd (pl_start p)) @ gap_bytes (pl_todo p) new (snd (pl_ends p)) \<and>
     ts_curMaxStepMemSize self \<le> M \<and> sub_good new old (ts_subDiff self) \<and> clip_good G (ts_dataDiff self)"

text \<open>The covers that are left; the left part of a cut cover fits, and nothing comes between it and the right part.\<close>

definition step_rel :: "byte list \<Rightarrow> byte list \<Rightarrow> nat \<Rightarrow> byte list \<Rightarrow> bool \<Rightarrow> ('n, 'o) TStepStream \<Rightarrow> step_plan \<Rightarrow> bool" where
  "step_rel new old M G init self p \<longleftrightarrow>
     step_core new old M G init self p \<and> step_queue self = pl_todo p \<and>
     (ts_isHaveLeftCover self \<longrightarrow> ts_pCurCover self = None \<and> ts_isHaveRightCover self \<and>
        pl_need p (ts_leftCover self) (cover_bytes False new old (ts_leftCover self)) \<le> M) \<and>
     (ts_isHaveRightCover self \<longrightarrow> ts_pCurCover self = None)"

text \<open>What a step puts out, and what the steps never change.\<close>

definition step_out :: "('n, 'o) TStepStream \<Rightarrow> byte list \<times> ('n TNewDataDiffStream, unit) TStreamClip hpatch_TStreamInput \<times> nat \<times> nat" where
  "step_out self = (ts_step_buf self, ts_dataDiff self, ts_sumBufSize self, ts_curMaxStepMemSize self)"

definition step_frame :: "('n, 'o) TStepStream \<Rightarrow> hpatch_TCover list \<times> nat \<times> nat \<times> nat \<times> nat \<times> nat \<times> nat" where
  "step_frame self = (ts_covers self, ts_newDataSize self, ts_endCoverCount self, ts_endMaxStepMemSize self, ts_readFromPosBack self,
     ts_readBufPos self, ts_patchStepMemSize self)"

definition step_emitted :: "bool \<Rightarrow> step_plan \<Rightarrow> byte list \<Rightarrow> ('n, 'o) TStepStream \<Rightarrow> ('n, 'o) TStepStream \<Rightarrow> bool" where
  "step_emitted init p g self self' \<longleftrightarrow>
     (let head = step_head (pl_finish p) (pl_start p); clip = streamImport (ts_dataDiff self') in
      (if init then ts_sumBufSize self' = add64 (ts_sumBufSize self) (length head + length g)
       else ts_step_buf self' = ts_step_buf self @ head) \<and>
      ts_curMaxStepMemSize self' = max (ts_curMaxStepMemSize self) (step_mem (pl_finish p) (pl_start p)) \<and>
      streamSize (ts_dataDiff self') = length g \<and> tsc_read_uncompress_pos clip = 0 \<and> tsc_src clip = tsc_src (streamImport (ts_dataDiff self)) \<and>
      tsc_src_begin clip = ts_newDataDiffReadPos self - length g \<and> ts_newDataDiffReadPos self' = ts_newDataDiffReadPos self \<and>
      length g \<le> ts_newDataDiffReadPos self)"

section \<open>Adding a cover\<close>

lemma put_cover_result:
  assumes ok: "plan_ok new old M p" and todo: "pl_todo p = c # cs"
    and self: "ts_cover self = c" "(ts_lastOldEnd self, ts_lastNewEnd self) = pl_ends p" "ts_bufCover_size self = length (pl_code p)"
      "\<not> ts_isInInit self \<longrightarrow> ts_bufCover self = pl_code p"
  shows "step_put_cover self = Ok (self\<lparr>ts_bufCover_size := length (pl_code p) + length (pl_code1 p c),
      ts_bufCover := (if ts_isInInit self then ts_bufCover self else pl_code p @ pl_code1 p c)\<rparr>)"
proof -
  note n = plan_next [OF ok todo]
  have sz: "length new < 2 ^ 64" "length old < 2 ^ 64" using ok by (auto simp: plan_ok_def)
  define lo where "lo = fst (pl_ends p)"
  define ln where "ln = snd (pl_ends p)"
  have e: "ts_lastOldEnd self = lo" "ts_lastNewEnd self = ln" using self(2) by (simp_all add: lo_def ln_def prod_eq_iff)
  define inc where "inc = (if oldPos c \<ge> lo then oldPos c - lo else lo - oldPos c)"
  define sign where "sign = (if oldPos c \<ge> lo then 0 else 1 :: nat)"
  have isg: "inc < 2 ^ 64" "sign < 2 ^ 1" using n(4,6) sz by (auto simp: inc_def sign_def lo_def)
  have b: "newPos c - ln < 2 ^ 64" "coverLength c < 2 ^ 64" using n(3) sz by auto
  have s: "sub64 (newPos c) ln = newPos c - ln" using n(2,3) sz by (simp add: ln_def sub64_eq)
  have code: "pl_code1 p c = pack_code inc sign 1 @ pack_code (newPos c - ln) 0 0 @ pack_code (coverLength c) 0 0"
    by (simp add: code1_eq inc_code_def inc_def sign_def lo_def ln_def)
  have pair: "(if lo \<le> oldPos c then (oldPos c - lo, 0) else (lo - oldPos c, 1)) = (inc, sign)" by (simp add: inc_def sign_def)
  have l: "hpatch_packUIntWithTag_size inc 1 = length (pack_code inc sign 1)" "hpatch_packUInt_size (newPos c - ln) = length (pack_code (newPos c - ln) 0 0)"
      "hpatch_packUInt_size (coverLength c) = length (pack_code (coverLength c) 0 0)"
    using isg b by (simp_all add: length_pack_code hpatch_packUInt_size_def)
  show ?thesis
  proof (cases "ts_isInInit self")
    case True
    then show ?thesis unfolding step_put_cover_def step_put_oldPos_def Let_def self(1) e pair prod.case
      using self(1,3) s code l by simp
  next
    case False
    then show ?thesis unfolding step_put_cover_def step_put_oldPos_def Let_def self(1) e pair prod.case
      using self(1,3,4) s code isg b by (simp add: packUIntWithTag_eq packUInt_eq)
  qed
qed

lemma needSize_result:
  assumes st: "dc_sok False new old c (ts_subDiff self) pos d0" and ok: "ss_ok (ts_bufRle self) s"
    and fit: "newPos c + coverLength c \<le> length new" "oldPos c + coverLength c \<le> length old"
    and small: "length s + coverLength c < 2 ^ 64" "rle0_size (ts_bufRle self) + 13 * coverLength c < 2 ^ 63" "ts_bufCover_size self < 2 ^ 63"
  shows "\<exists>st'. step_needSize self = Ok (ts_bufCover_size self + rle0_size (rle0_put (ts_bufRle self) (cover_bytes False new old c)),
      self\<lparr>ts_subDiff := st'\<rparr>) \<and> (\<exists>d. dc_sok False new old c st' (coverLength c) d)"
proof -
  let ?d = "cover_bytes False new old c"
  have l: "length ?d = coverLength c" by (rule cover_bytes_length [OF fit])
  have z: "\<not> dc_isZeroSubDiff (streamImport (ts_subDiff self))" "streamSize (ts_subDiff self) = coverLength c"
    using st by (simp_all add: dc_sok_def Let_def)
  have big: "length s + length ?d < 2 ^ 64" "rle0_size (ts_bufRle self) + 13 * length ?d < 2 ^ 64" using small l by auto
  from seq_stream.maxCodeSize_stream_result [OF subCover_seq dc_sok_again [OF st] ok big] z(2) obtain st' where
    st': "maxCodeSize_stream (ts_bufRle self) (ts_subDiff self) = Ok (rle0_size (rle0_put (ts_bufRle self) ?d), st')"
      "dc_sok False new old c st' (coverLength c) []" by auto
  have "rle0_size (rle0_put (ts_bufRle self) ?d) < 2 ^ 63" using rle0_put_result [OF ok big(1)] small(2) l by simp
  then have "add64 (ts_bufCover_size self) (rle0_size (rle0_put (ts_bufRle self) ?d)) =
      ts_bufCover_size self + rle0_size (rle0_put (ts_bufRle self) ?d)" using small(3) by (simp add: add64_eq)
  then show ?thesis using z(1) st' by (auto simp: step_needSize_def)
qed

lemma append_rle_result:
  assumes st: "dc_sok False new old c (ts_subDiff self) pos d0" and ok: "ss_ok (ts_bufRle self) s"
    and fit: "newPos c + coverLength c \<le> length new" "oldPos c + coverLength c \<le> length old"
    and small: "length s + coverLength c < 2 ^ 64"
  shows "\<exists>st'. step_append_rle self = Ok (self\<lparr>ts_bufRle := rle0_put (ts_bufRle self) (cover_bytes False new old c), ts_subDiff := st'\<rparr>) \<and>
    sub_good new old st'"
proof -
  let ?d = "cover_bytes False new old c"
  have l: "length ?d = coverLength c" by (rule cover_bytes_length [OF fit])
  have z: "\<not> dc_isZeroSubDiff (streamImport (ts_subDiff self))" using st by (simp add: dc_sok_def Let_def)
  have big: "length s + length ?d < 2 ^ 64" using small l by auto
  from seq_stream.append_rle0_stream_result [OF subCover_seq dc_sok_again [OF st] ok big] obtain st' where
    st': "append_rle0_stream (ts_bufRle self) (ts_subDiff self) (streamSize (ts_subDiff self)) 0 = Ok (rle0_put (ts_bufRle self) ?d, st')"
      "dc_sok False new old c st' (streamSize (ts_subDiff self)) []" by auto
  then show ?thesis using z sub_good_sok [OF st'(2)] by (auto simp: step_append_rle_def)
qed

text \<open>Cutting finds the length of the plan.\<close>

lemma clip_loop_result:
  assumes "dc_sok False new old (left_of c n) (ts_subDiff self) pos d0" "n \<le> coverLength c"
    and "ts_bufCover_size self = length (pl_code p) + length (pl_code1 p c)" "ts_bufRle self = pl_rle p" "ts_patchStepMemSize self = M"
    and "plan_ok new old M p" "pl_todo p = c # cs" "length (pl_code p) + rle0_size (pl_rle p) < 2 ^ 62"
    and "pl_clip_len (cover_bytes False new old) M p c n = k" "0 < k"
  shows "\<exists>st'. step_clip_loop self n = Ok (k, self\<lparr>ts_subDiff := st'\<rparr>) \<and> sub_good new old st'"
  using assms
proof (induction n arbitrary: self pos d0 rule: less_induct)
  case (less n)
  let ?n = "n * 3 div 4" and ?sub = "cover_bytes False new old"
  note f = plan_next [OF less.prems(6,7)]
  have sz: "length new < 2 ^ 54" "ss_ok (pl_rle p) (concat (map ?sub (pl_covers p)))" using less.prems(6) by (simp_all add: plan_ok_def)
  have n64: "n * 3 mod 2 ^ 64 = n * 3" using less.prems(2) f(3) sz(1) by simp
  have n0: "0 < ?n"
  proof (rule ccontr)
    assume "\<not> 0 < ?n"
    then show False using less.prems(9,10) by (simp add: pl_clip_len.simps [of _ _ _ _ n] Let_def)
  qed
  then have lt: "?n < n" by linarith
  let ?c = "left_of c ?n"
  let ?self = "self\<lparr>ts_subDiff := resetCoverLen (ts_subDiff self) ?n\<rparr>"
  have le: "?n \<le> coverLength (left_of c n)" using lt by (simp add: left_of_def)
  have r: "dc_sok False new old ?c (ts_subDiff ?self) 0 (?sub ?c)"
    using resetCoverLen_sok [OF less.prems(1) le] by (simp add: left_of_def)
  have fit: "newPos ?c + coverLength ?c \<le> length new" "oldPos ?c + coverLength ?c \<le> length old"
    using f(3,4) lt less.prems(2) by (simp_all add: left_of_def)
  have cl: "coverLength ?c = ?n" by (simp add: left_of_def)
  have small: "length (concat (map ?sub (pl_covers p))) + coverLength ?c < 2 ^ 64"
      "rle0_size (ts_bufRle ?self) + 13 * coverLength ?c < 2 ^ 63" "ts_bufCover_size ?self < 2 ^ 63"
  proof -
    have t: "?n \<le> coverLength c" using lt less.prems(2) by linarith
    show "length (concat (map ?sub (pl_covers p))) + coverLength ?c < 2 ^ 64" using t f(8) sz(1) unfolding cl by (intro less_54_64) linarith
    have "13 * ?n < 13 * 2 ^ 54" using t f(3) sz(1) by linarith
    then show "rle0_size (ts_bufRle ?self) + 13 * coverLength ?c < 2 ^ 63" using less.prems(4,8) unfolding cl by simp
    show "ts_bufCover_size ?self < 2 ^ 63" using less.prems(3,8) f(9) by simp
  qed
  have "ss_ok (ts_bufRle ?self) (concat (map ?sub (pl_covers p)))" using sz(2) less.prems(4) by simp
  from needSize_result [OF r this fit small] obtain st' d where
    st': "step_needSize ?self = Ok (pl_need p c (?sub ?c), self\<lparr>ts_subDiff := st'\<rparr>)" "dc_sok False new old ?c st' (coverLength ?c) d"
    using less.prems(3,4) by (auto simp: pl_need_def)
  have step: "step_clip_loop self n = (if pl_need p c (?sub ?c) \<le> M then Ok (?n, self\<lparr>ts_subDiff := st'\<rparr>)
      else step_clip_loop (self\<lparr>ts_subDiff := st'\<rparr>) ?n)"
    using n0 st'(1) less.prems(5) by (subst step_clip_loop.simps) (simp add: Let_def n64 [simplified])
  show ?case
  proof (cases "pl_need p c (?sub ?c) \<le> M")
    case True
    then have "k = ?n" using less.prems(9) n0 by (simp add: pl_clip_len.simps [of _ _ _ _ n] Let_def)
    then show ?thesis using step True sub_good_sok [OF st'(2)] by auto
  next
    case False
    then have k: "pl_clip_len ?sub M p c ?n = k" using less.prems(9) n0 by (simp add: pl_clip_len.simps [of _ _ _ _ n] Let_def)
    have t: "?n \<le> coverLength c" using lt less.prems(2) by linarith
    have "dc_sok False new old (left_of c ?n) (ts_subDiff (self\<lparr>ts_subDiff := st'\<rparr>)) (coverLength ?c) d" using st'(2) by simp
    from less.IH [OF lt this t _ _ _ less.prems(6-8) k less.prems(10)] less.prems(3-5) step False show ?thesis by auto
  qed
qed

section \<open>Flushing a step\<close>

lemma emit_result:
  assumes core: "step_core new old M G init self p" and ne: "pl_covers p \<noteq> []"
  shows "\<exists>self'. rbind (step_take_dataDiff self) flush_step_code = Ok self' \<and> step_core new old M G init self' (pl_flush p) \<and>
    step_emitted init p (step_gap (pl_covers p) new (snd (pl_start p))) self self' \<and>
    step_covers_of self' = step_covers_of self \<and> step_frame self' = step_frame self \<and> ts_curCoverCount self' = ts_curCoverCount self"
proof -
  let ?g = "step_gap (pl_covers p) new (snd (pl_start p))" and ?pos = "ts_newDataDiffReadPos self" and ?dd = "ts_dataDiff self"
  have sz: "ts_dataDiffSize self = length ?g" using core by (simp add: step_core_def)
  have c: "plan_ok new old M p" "ts_isInInit self = init" "(ts_lastOldEnd self, ts_lastNewEnd self) = pl_ends p"
     "ts_bufCover_size self = length (pl_code p)" "if init then ts_step_buf self = [] else ts_bufCover self = pl_code p"
     "ts_bufRle self = pl_rle p" "ts_dataDiffSize self = length ?g" "length ?g \<le> ?pos" "?pos \<le> length G" "length G < 2 ^ 54"
     "drop (?pos - length ?g) G = ?g @ gap_bytes (pl_todo p) new (snd (pl_ends p))" "ts_curMaxStepMemSize self \<le> M"
     "sub_good new old (ts_subDiff self)" "clip_good G ?dd" "ts_patchStepMemSize self = M"
    using core by (simp_all add: step_core_def sz)
  from plan_finish [OF c(1) ne] obtain rle :: TSingleStreamRLE0 where
    r: "finishAppend_rle0 (pl_rle p) = Ok rle" "pl_finish p = (pl_covers p, s0_fixed_code rle)"
      "length (pl_code p) + length (s0_fixed_code rle) \<le> M" "curCodeSize rle = Ok (length (s0_fixed_code rle))" by blast
  have M: "M < 2 ^ 62" using c(1) by (simp add: plan_ok_def)
  have sub: "sub64 ?pos (length ?g) = ?pos - length ?g" using c(8-10) by (simp add: sub64_eq)
  define dd :: "('n TNewDataDiffStream, unit) TStreamClip hpatch_TStreamInput" where "dd = \<lparr>streamImport = \<lparr>tsc_src = tsc_src (streamImport ?dd), tsc_src_begin = ?pos - length ?g, tsc_src_end = ?pos,
      tsc_decompressPlugin = None, tsc_decompressHandle = None, tsc_read_uncompress_pos = 0\<rparr>, streamSize = length ?g, read = tsc_clip_read\<rparr>"
  have clip: "clip_good G dd" "streamSize dd = length ?g" "tsc_src (streamImport dd) = tsc_src (streamImport ?dd)"
      "tsc_src_begin (streamImport dd) = ?pos - length ?g" "tsc_read_uncompress_pos (streamImport dd) = 0" using c(14) by (simp_all add: dd_def clip_good_def)
  have take: "step_take_dataDiff self = Ok (self\<lparr>ts_dataDiff := dd, ts_dataDiffSize := 0\<rparr>)"
    using c(7-9,14) sub by (simp add: step_take_dataDiff_def tsc_reset_def tsc_clear_def tsc_closeDecompressHandle_def clip_good_def dd_def)
  have sizes: "length (pl_code p) < 2 ^ 64" "length (s0_fixed_code rle) < 2 ^ 64" using r(3) M by auto
  have ps: "hpatch_packUInt_size v = length (pack_code v 0 0)" if "v < 2 ^ 64" for v
    using that by (simp add: length_pack_code hpatch_packUInt_size_def)
  have code: "cover_code (fst (pl_finish p)) (fst (pl_start p)) (snd (pl_start p)) = pl_code p" by (simp add: r(2) pl_code_def)
  have head: "step_head (pl_finish p) (pl_start p) = pack_code (length (pl_code p)) 0 0 @ pack_code (length (s0_fixed_code rle)) 0 0 @
      pl_code p @ s0_fixed_code rle" by (simp add: step_head_def code) (simp add: r(2))
  have mem: "step_mem (pl_finish p) (pl_start p) = length (pl_code p) + length (s0_fixed_code rle)"
    by (simp add: step_mem_def code) (simp add: r(2))
  have hl: "length (step_head (pl_finish p) (pl_start p)) + length ?g < 2 ^ 64"
    using r(3) M c(8-10) pack_code(3) [OF sizes(1), of 0 0] pack_code(3) [OF sizes(2), of 0 0] unfolding head by simp
  let ?max = "max (ts_curMaxStepMemSize self) (step_mem (pl_finish p) (pl_start p))"
  have mx: "(if a < b then b else a) = max a b" for a b :: nat by simp
  define self0 where "self0 = self\<lparr>ts_dataDiff := dd, ts_dataDiffSize := 0, ts_curMaxStepMemSize := ?max,
      ts_bufCover_size := 0, ts_bufCover := [], ts_bufRle := TSingleStreamRLE0_init\<rparr>"
  define self' where "self' = (if init
      then self0\<lparr>ts_sumBufSize := add64 (ts_sumBufSize self) (length (step_head (pl_finish p) (pl_start p)) + length ?g)\<rparr>
      else self0\<lparr>ts_step_buf := ts_step_buf self @ step_head (pl_finish p) (pl_start p)\<rparr>)"
  have clear: "TSingleStreamRLE0_clear rle = TSingleStreamRLE0_init" for rle :: TSingleStreamRLE0
    by (cases rle) (simp add: TSingleStreamRLE0_clear_def TSingleStreamRLE0_init_def)
  have flush: "flush_step_code (self\<lparr>ts_dataDiff := dd, ts_dataDiffSize := 0\<rparr>) = Ok self'"
  proof (cases init)
    case True
    have a: "add64 (length (pack_code (length (pl_code p)) 0 0) + length (pack_code (length (s0_fixed_code rle)) 0 0) +
        (length (pl_code p) + length (s0_fixed_code rle))) (length ?g) = length (step_head (pl_finish p) (pl_start p)) + length ?g"
      using hl unfolding head by (simp add: add64_eq)
    show ?thesis using True c(2,4,5,6) r(1,4) clip(2) a
      by (simp add: flush_step_code_def Let_def self'_def self0_def clear ps [OF sizes(1)] ps [OF sizes(2)] mx mem)
  next
    case False
    show ?thesis using False c(2,4,5,6) r(1,4) sizes
      by (simp add: flush_step_code_def Let_def self'_def self0_def clear packUInt_eq head pushBack_def mx mem)
  qed
  have "drop ?pos G = gap_bytes (pl_todo p) new (snd (pl_ends p))"
  proof -
    have "drop (length ?g) (drop (?pos - length ?g) G) = gap_bytes (pl_todo p) new (snd (pl_ends p))" unfolding c(11) by simp
    then show ?thesis using c(8) by simp
  qed
  then have "step_core new old M G init self' (pl_flush p)"
    using c plan_flush_ok [OF c(1)] clip(1) r(3) mem
    by (auto simp: step_core_def self'_def self0_def pl_flush_def pl_ends_def pl_code_def)
  moreover have "step_emitted init p ?g self self'"
    using clip c(5,8) by (simp add: step_emitted_def self'_def self0_def Let_def)
  ultimately show ?thesis using take flush by (simp add: step_covers_of_def step_frame_def self'_def self0_def)
qed

section \<open>One step of the plan\<close>

lemma plan_sizes:
  assumes "plan_ok new old M p"
  shows "length (pl_code p) + rle0_size (pl_rle p) < 2 ^ 62" "length (pl_code p) < 2 ^ 62" "rle0_size (pl_rle p) < 2 ^ 62"
proof -
  show 1: "length (pl_code p) + rle0_size (pl_rle p) < 2 ^ 62"
    using assms by (cases "pl_covers p = []") (auto simp: plan_ok_def pl_code_def rle0_size_def TSingleStreamRLE0_init_def)
  then show "length (pl_code p) < 2 ^ 62" "rle0_size (pl_rle p) < 2 ^ 62" by linarith+
qed

definition with_cover :: "step_plan \<Rightarrow> hpatch_TCover \<Rightarrow> ('n, 'o) cover_stream \<Rightarrow> ('n, 'o) TStepStream \<Rightarrow> ('n, 'o) TStepStream" where
  "with_cover p c st self =
     self\<lparr>ts_cover := c, ts_bufCover_size := length (pl_code p) + length (pl_code1 p c),
          ts_bufCover := (if ts_isInInit self then ts_bufCover self else pl_code p @ pl_code1 p c), ts_subDiff := st\<rparr>"

lemma add_cover_result:
  assumes core: "step_core new old M G init self p" and todo: "pl_todo p = c # cs"
  shows "\<exists>st d. dc_sok False new old c st (coverLength c) d \<and>
    step_add_cover self c =
      (if pl_need p c (cover_bytes False new old c) \<le> M then step_append (with_cover p c st self)
       else if length (pl_code p) + rle0_size (pl_rle p) \<ge> M div 2 then step_flush (with_cover p c st self) (length (pl_code p))
       else step_clip (with_cover p c st self) (length (pl_code p)))"
proof -
  have c: "plan_ok new old M p" "ts_isInInit self = init" "(ts_lastOldEnd self, ts_lastNewEnd self) = pl_ends p"
     "ts_bufCover_size self = length (pl_code p)" "\<not> init \<longrightarrow> ts_bufCover self = pl_code p" "ts_bufRle self = pl_rle p"
     "ts_patchStepMemSize self = M" "sub_good new old (ts_subDiff self)"
    using core by (auto simp: step_core_def)
  note n = plan_next [OF c(1) todo]
  note z = plan_sizes [OF c(1)]
  have ok: "ss_ok (pl_rle p) (concat (map (cover_bytes False new old) (pl_covers p)))" "length new < 2 ^ 54" using c(1) by (simp_all add: plan_ok_def)
  let ?self2 = "self\<lparr>ts_cover := c, ts_bufCover_size := length (pl_code p) + length (pl_code1 p c),
      ts_bufCover := (if ts_isInInit self then ts_bufCover self else pl_code p @ pl_code1 p c)\<rparr>"
  have put: "step_put_cover (self\<lparr>ts_cover := c\<rparr>) = Ok ?self2"
    using put_cover_result [OF c(1) todo, of "self\<lparr>ts_cover := c\<rparr>"] c(2-5) by simp
  let ?self3 = "?self2\<lparr>ts_subDiff := resetCover (ts_subDiff self) c\<rparr>"
  have sok: "dc_sok False new old c (ts_subDiff ?self3) 0 (cover_bytes False new old c)"
    using resetCover_sok [OF _ _ _ n(3,4), of "ts_subDiff self" False] c(8) by (simp add: sub_good_def)
  have small: "length (concat (map (cover_bytes False new old) (pl_covers p))) + coverLength c < 2 ^ 64"
      "rle0_size (ts_bufRle ?self3) + 13 * coverLength c < 2 ^ 63" "ts_bufCover_size ?self3 < 2 ^ 63"
  proof -
    show "length (concat (map (cover_bytes False new old) (pl_covers p))) + coverLength c < 2 ^ 64" using n(8) ok(2) by (intro less_54_64) linarith
    have "13 * coverLength c < 13 * 2 ^ 54" using n(3) ok(2) by linarith
    then show "rle0_size (ts_bufRle ?self3) + 13 * coverLength c < 2 ^ 63" using z(3) c(6) by simp
    show "ts_bufCover_size ?self3 < 2 ^ 63" using z(2) n(9) by simp
  qed
  have "ss_ok (ts_bufRle ?self3) (concat (map (cover_bytes False new old) (pl_covers p)))" using ok(1) c(6) by simp
  from needSize_result [OF sok this n(3,4) small] obtain st d where
    st: "step_needSize ?self3 = Ok (pl_need p c (cover_bytes False new old c), with_cover p c st self)" "dc_sok False new old c st (coverLength c) d"
    using c(6) by (auto simp: pl_need_def with_cover_def)
  have cur: "curCodeSize (pl_rle p) = Ok (rle0_size (pl_rle p))" by (rule curCodeSize_result [OF ok(1)]) (use z(3) in simp)
  have a: "add64 (length (pl_code p)) (rle0_size (pl_rle p)) = length (pl_code p) + rle0_size (pl_rle p)" using z(1) by (simp add: add64_eq)
  have flds: "ts_patchStepMemSize (with_cover p c st self) = M" "ts_bufRle (with_cover p c st self) = pl_rle p"
    using c(6,7) by (simp_all add: with_cover_def)
  have "step_add_cover self c =
      (if pl_need p c (cover_bytes False new old c) \<le> M then step_append (with_cover p c st self)
       else if length (pl_code p) + rle0_size (pl_rle p) \<ge> M div 2 then step_flush (with_cover p c st self) (length (pl_code p))
       else step_clip (with_cover p c st self) (length (pl_code p)))"
    unfolding step_add_cover_def Let_def put rbind.simps using st(1) cur a c(4) by (simp add: flds)
  then show ?thesis using st(2) by blast
qed

text \<open>The cover fits.\<close>

lemma append_result:
  assumes core: "step_core new old M G init self p" and todo: "pl_todo p = c # cs" and need: "pl_need p c (cover_bytes False new old c) \<le> M"
  shows "\<exists>self'. step_add_cover self c = Ok self' \<and> step_core new old M G init self' (pl_append (cover_bytes False new old) p c cs) \<and>
    step_out self' = step_out self \<and> step_frame self' = step_frame self \<and> ts_curCoverCount self' = ts_curCoverCount self \<and>
    step_covers_of self' = ((None, c), snd (step_covers_of self))"
proof -
  let ?g = "step_gap (pl_covers p) new (snd (pl_start p))"
  have sz: "ts_dataDiffSize self = length ?g" using core by (simp add: step_core_def)
  have c: "plan_ok new old M p" "ts_isInInit self = init" "(ts_lastOldEnd self, ts_lastNewEnd self) = pl_ends p"
     "ts_bufCover_size self = length (pl_code p)" "if init then ts_step_buf self = [] else ts_bufCover self = pl_code p"
     "ts_bufRle self = pl_rle p" "ts_dataDiffSize self = length ?g" "length ?g \<le> ts_newDataDiffReadPos self"
     "ts_newDataDiffReadPos self \<le> length G" "length G < 2 ^ 54"
     "drop (ts_newDataDiffReadPos self - length ?g) G = ?g @ gap_bytes (pl_todo p) new (snd (pl_ends p))" "ts_curMaxStepMemSize self \<le> M"
     "clip_good G (ts_dataDiff self)" "ts_patchStepMemSize self = M"
    using core by (simp_all add: step_core_def sz)
  note n = plan_next [OF c(1) todo]
  let ?sub = "cover_bytes False new old" and ?pos = "ts_newDataDiffReadPos self"
  from add_cover_result [OF core todo] need obtain st d where
    st: "dc_sok False new old c st (coverLength c) d" "step_add_cover self c = step_append (with_cover p c st self)" by auto
  have ok: "ss_ok (pl_rle p) (concat (map ?sub (pl_covers p)))" "length new < 2 ^ 54" "length old < 2 ^ 64" using c(1) by (simp_all add: plan_ok_def)
  let ?self = "with_cover p c st self"
  have sok: "dc_sok False new old c (ts_subDiff ?self) (coverLength c) d" using st(1) by (simp add: with_cover_def)
  have okr: "ss_ok (ts_bufRle ?self) (concat (map ?sub (pl_covers p)))" using ok(1) c(6) by (simp add: with_cover_def)
  have "length (concat (map ?sub (pl_covers p))) + coverLength c < 2 ^ 64" using n(8) ok(2) by (intro less_54_64) linarith
  from append_rle_result [OF sok okr n(3,4) this] obtain st' where
    st': "step_append_rle ?self = Ok (?self\<lparr>ts_bufRle := rle0_put (pl_rle p) (?sub c), ts_subDiff := st'\<rparr>)" "sub_good new old st'"
    using c(6) by (auto simp: with_cover_def)
  define k where "k = newPos c - snd (pl_ends p)"
  have ends: "ts_lastNewEnd ?self = snd (pl_ends p)" using c(3) by (simp add: with_cover_def prod_eq_iff)
  have b: "newPos c < 2 ^ 64" "newPos c + coverLength c < 2 ^ 64" "oldPos c + coverLength c < 2 ^ 64" using n(3,4) ok(2,3) by auto
  have s: "sub64 (newPos c) (snd (pl_ends p)) = k" using n(2) b(1) by (simp add: sub64_eq k_def)
  have a: "add64 (oldPos c) (coverLength c) = oldPos c + coverLength c" "add64 (newPos c) (coverLength c) = newPos c + coverLength c"
    using b by (simp_all add: add64_eq)
  have cv: "ts_cover ?self = c" "ts_newDataDiffReadPos ?self = ?pos" "ts_dataDiffSize ?self = length ?g" using c(7) by (simp_all add: with_cover_def)
  let ?self1 = "?self\<lparr>ts_bufRle := rle0_put (pl_rle p) (?sub c), ts_subDiff := st'\<rparr>"
  define self' where "self' = (if k > 0 then ?self1\<lparr>ts_newDataDiffReadPos := ?pos + k, ts_dataDiffSize := length ?g + k\<rparr> else ?self1)
      \<lparr>ts_lastOldEnd := oldPos c + coverLength c, ts_lastNewEnd := newPos c + coverLength c, ts_pCurCover := None\<rparr>"
  have self': "step_append ?self = Ok self'"
    unfolding step_append_def Let_def st'(1) rbind.simps ends cv(1) s using cv a by (simp add: self'_def)
  have flds: "ts_newDataDiffReadPos self' = ?pos + k" "ts_dataDiffSize self' = length ?g + k" "ts_isInInit self' = init"
      "ts_patchStepMemSize self' = M" "(ts_lastOldEnd self', ts_lastNewEnd self') = (oldPos c + coverLength c, newPos c + coverLength c)"
      "ts_bufCover_size self' = length (pl_code p) + length (pl_code1 p c)" "ts_bufRle self' = rle0_put (pl_rle p) (?sub c)"
      "if init then ts_step_buf self' = [] else ts_bufCover self' = pl_code p @ pl_code1 p c"
      "ts_curMaxStepMemSize self' \<le> M" "ts_subDiff self' = st'" "ts_dataDiff self' = ts_dataDiff self"
    using cv c(2,5,12,14) by (simp_all add: self'_def with_cover_def)
  have other: "step_out self' = step_out self" "step_frame self' = step_frame self" "ts_curCoverCount self' = ts_curCoverCount self"
      "step_covers_of self' = ((None, c), snd (step_covers_of self))"
    by (simp_all add: self'_def with_cover_def step_out_def step_frame_def step_covers_of_def)
  let ?p = "pl_append ?sub p c cs"
  have p: "pl_ends ?p = (oldPos c + coverLength c, newPos c + coverLength c)" "pl_code ?p = pl_code p @ pl_code1 p c"
      "pl_rle ?p = rle0_put (pl_rle p) (?sub c)" "pl_start ?p = pl_start p" "pl_todo ?p = cs" "pl_covers ?p = pl_covers p @ [c]"
    by (simp_all add: pl_append_def pl_ends_def pl_code_def pl_code1_def cover_code_append del: cover_code.simps)
  have kn: "k \<le> length (drop (snd (pl_ends p)) new)" using n(2,3) by (simp add: k_def)
  have gap: "step_gap (pl_covers ?p) new (snd (pl_start ?p)) = ?g @ take k (drop (snd (pl_ends p)) new)"
    by (simp add: p step_gap_append k_def pl_ends_def)
  have G: "drop (?pos - length ?g) G = (?g @ take k (drop (snd (pl_ends p)) new)) @ gap_bytes cs new (newPos c + coverLength c)"
    using c(11) todo by (simp add: k_def)
  have "length (drop (?pos - length ?g) G) = length ?g + (length G - ?pos)" using c(8,9) by simp
  then have "length ?g + (length G - ?pos) = length ?g + k + length (gap_bytes cs new (newPos c + coverLength c))"
    using kn unfolding G by simp
  then have kG: "?pos + k \<le> length G" using c(9) by linarith
  have "step_core new old M G init self' ?p"
    unfolding step_core_def flds p(1-3) gap p(5)
    using plan_append_ok [OF c(1) todo need] kn kG c(8,10,13) G flds(8,9) st'(2) by simp
  then show ?thesis using st(2) self' other by auto
qed

text \<open>The step is flushed before the cover.\<close>

lemma flush_result:
  assumes core: "step_core new old M G init self p" and todo: "pl_todo p = c # cs"
    and big: "\<not> pl_need p c (cover_bytes False new old c) \<le> M" and ne: "pl_covers p \<noteq> []"
    and half: "M div 2 \<le> length (pl_code p) + rle0_size (pl_rle p)"
  shows "\<exists>self'. step_add_cover self c = Ok self' \<and> step_core new old M G init self' (pl_flush p) \<and>
    step_emitted init p (step_gap (pl_covers p) new (snd (pl_start p))) self self' \<and> step_frame self' = step_frame self \<and>
    ts_curCoverCount self' = ts_curCoverCount self \<and> step_covers_of self' = ((ts_pCurCover self, c), snd (step_covers_of self))"
proof -
  from add_cover_result [OF core todo] big half obtain st d where
    st: "dc_sok False new old c st (coverLength c) d" "step_add_cover self c = step_flush (with_cover p c st self) (length (pl_code p))" by auto
  let ?self = "step_resize_bufCover (with_cover p c st self) (length (pl_code p))"
  have core1: "step_core new old M G init ?self p"
    using core sub_good_sok [OF st(1)] by (auto simp: step_core_def step_resize_bufCover_def with_cover_def)
  have pos: "0 < length (pl_code p)"
  proof -
    obtain d ds where d: "pl_covers p = d # ds" using ne by (cases "pl_covers p") auto
    have "plan_ok new old M p" using core by (simp add: step_core_def)
    then have "oldPos d < 2 ^ 64" "fst (pl_start p) < 2 ^ 64" using d by (auto simp: plan_ok_def)
    from inc_code_length [OF this] show ?thesis by (simp add: pl_code_def d)
  qed
  from emit_result [OF core1 ne] obtain self' where r: "rbind (step_take_dataDiff ?self) flush_step_code = Ok self'"
    "step_core new old M G init self' (pl_flush p)" "step_emitted init p (step_gap (pl_covers p) new (snd (pl_start p))) ?self self'"
    "step_covers_of self' = step_covers_of ?self" "step_frame self' = step_frame ?self" "ts_curCoverCount self' = ts_curCoverCount ?self" by blast
  have "step_emitted init p (step_gap (pl_covers p) new (snd (pl_start p))) self self'"
    using r(3) by (simp add: step_emitted_def step_resize_bufCover_def with_cover_def Let_def)
  moreover have "step_covers_of ?self = ((ts_pCurCover self, c), snd (step_covers_of self))" "step_frame ?self = step_frame self"
      "ts_curCoverCount ?self = ts_curCoverCount self"
    by (simp_all add: step_covers_of_def step_frame_def step_resize_bufCover_def with_cover_def)
  ultimately show ?thesis using st(2) pos r by (simp add: step_flush_def)
qed

text \<open>The cover is cut.\<close>

lemma clip_result:
  assumes core: "step_core new old M G init self p" and todo: "pl_todo p = c # cs"
    and big: "\<not> pl_need p c (cover_bytes False new old c) \<le> M"
    and half: "\<not> (pl_covers p \<noteq> [] \<and> length (pl_code p) + rle0_size (pl_rle p) \<ge> M div 2)"
    and k: "k = pl_clip_len (cover_bytes False new old) M p c (coverLength c)" "0 < k" "k < coverLength c"
    and flags: "\<not> ts_isHaveLeftCover self" "\<not> ts_isHaveRightCover self"
  shows "\<exists>self'. step_add_cover self c = Ok self' \<and>
    step_core new old M G init self' (p\<lparr>pl_todo := left_of c k # right_of c k # cs\<rparr>) \<and>
    step_out self' = step_out self \<and> step_frame self' = step_frame self \<and> ts_curCoverCount self' = ts_curCoverCount self + 1 \<and>
    step_covers_of self' = ((None, c), (True, left_of c k), (True, right_of c k), snd (snd (snd (step_covers_of self))))"
proof -
  have ok: "plan_ok new old M p" "4096 \<le> M" using core by (simp_all add: step_core_def plan_ok_def)
  have "\<not> M div 2 \<le> length (pl_code p) + rle0_size (pl_rle p)"
  proof (cases "pl_covers p = []")
    case True
    then have "length (pl_code p) + rle0_size (pl_rle p) = 0"
      using ok(1) by (simp add: plan_ok_def pl_code_def rle0_size_def TSingleStreamRLE0_init_def)
    then show ?thesis using ok(2) by linarith
  next
    case False
    then show ?thesis using half by simp
  qed
  with add_cover_result [OF core todo] big obtain st d where
    st: "dc_sok False new old c st (coverLength c) d" "step_add_cover self c = step_clip (with_cover p c st self) (length (pl_code p))" by auto
  let ?self = "with_cover p c st self"
  have c: "dc_sok False new old (left_of c (coverLength c)) (ts_subDiff ?self) (coverLength c) d" "ts_cover ?self = c"
    using st(1) by (simp_all add: left_of_def with_cover_def)
  have f: "ts_bufCover_size ?self = length (pl_code p) + length (pl_code1 p c)" "ts_bufRle ?self = pl_rle p" "ts_patchStepMemSize ?self = M"
    using core by (simp_all add: with_cover_def step_core_def)
  from clip_loop_result [OF c(1) order_refl f ok(1) todo plan_sizes(1) [OF ok(1)] k(1) [symmetric] k(2)] obtain st' where
    st': "step_clip_loop ?self (coverLength c) = Ok (k, ?self\<lparr>ts_subDiff := st'\<rparr>)" "sub_good new old st'" by blast
  define self' where "self' = (step_resize_bufCover (?self\<lparr>ts_subDiff := st'\<rparr>) (length (pl_code p)))
         \<lparr>ts_isHaveLeftCover := True, ts_isHaveRightCover := True, ts_leftCover := left_of c k, ts_rightCover := right_of c k,
          ts_curCoverCount := ts_curCoverCount self + 1, ts_pCurCover := None\<rparr>"
  have "step_clip ?self (length (pl_code p)) = Ok self'"
    using flags st'(1) c(2) by (simp add: step_clip_def Let_def self'_def left_of_def right_of_def with_cover_def)
  moreover have "step_core new old M G init self' (p\<lparr>pl_todo := left_of c k # right_of c k # cs\<rparr>)"
  proof -
    have g: "gap_bytes (left_of c k # right_of c k # cs) new (snd (pl_ends p)) = gap_bytes (pl_todo p) new (snd (pl_ends p))"
      using k(2,3) todo by (simp add: left_of_def right_of_def)
    have "plan_ok new old M (p\<lparr>pl_todo := left_of c k # right_of c k # cs\<rparr>)" by (rule plan_clip_ok [OF ok(1) todo k(2,3)])
    then show ?thesis using core st'(2) g
      by (auto simp: step_core_def self'_def step_resize_bufCover_def with_cover_def pl_ends_def pl_code_def)
  qed
  moreover have "step_out self' = step_out self" "step_frame self' = step_frame self" "ts_curCoverCount self' = ts_curCoverCount self + 1"
      "step_covers_of self' = ((None, c), (True, left_of c k), (True, right_of c k), snd (snd (snd (step_covers_of self))))"
    by (simp_all add: self'_def step_resize_bufCover_def with_cover_def step_out_def step_frame_def step_covers_of_def)
  ultimately show ?thesis using st(2) by auto
qed

section \<open>\<open>doStep\<close>\<close>

lemma step_core_cover_fields [simp]:
  "step_core new old M G init (self\<lparr>ts_pCurCover := x\<rparr>) p = step_core new old M G init self p"
  "step_core new old M G init (self\<lparr>ts_cover := c\<rparr>) p = step_core new old M G init self p"
  "step_core new old M G init (self\<lparr>ts_cur_i := i\<rparr>) p = step_core new old M G init self p"
  "step_core new old M G init (self\<lparr>ts_isHaveLeftCover := b\<rparr>) p = step_core new old M G init self p"
  "step_core new old M G init (self\<lparr>ts_isHaveRightCover := b\<rparr>) p = step_core new old M G init self p"
  "step_core new old M G init (self\<lparr>ts_isHaveLastCover := b\<rparr>) p = step_core new old M G init self p"
  by (simp_all add: step_core_def)

lemma next_cover_result:
  assumes rel: "step_rel new old M G init self p" and todo: "pl_todo p = c # cs"
  shows "\<exists>self1. step_next_cover self = Ok (Some c, self1) \<and> step_core new old M G init self1 p \<and> step_queue self1 = c # cs \<and>
    ts_pCurCover self1 = Some c \<and> \<not> ts_isHaveLeftCover self1 \<and>
    (ts_isHaveRightCover self1 \<longrightarrow> pl_need p c (cover_bytes False new old c) \<le> M) \<and>
    step_out self1 = step_out self \<and> step_frame self1 = step_frame self \<and> ts_curCoverCount self1 = ts_curCoverCount self \<and>
    ts_newDataDiffReadPos self1 = ts_newDataDiffReadPos self"
proof -
  have r: "step_core new old M G init self p" "step_queue self = c # cs"
     "ts_isHaveLeftCover self \<Longrightarrow> ts_pCurCover self = None \<and> ts_isHaveRightCover self \<and>
        pl_need p (ts_leftCover self) (cover_bytes False new old (ts_leftCover self)) \<le> M"
     "ts_isHaveRightCover self \<Longrightarrow> ts_pCurCover self = None"
    using rel todo by (simp_all add: step_rel_def)
  have "\<exists>x. step_next_cover self = Ok x"
    by (simp add: step_next_cover_def cover_at_def split: option.split)
  then obtain d self1 where n: "step_next_cover self = Ok (d, self1)" by auto
  note q = next_cover_queue [OF n]
  have pc: "ts_pCurCover self1 = d" and sq: "step_queue self1 = c # cs" using q r(2) by simp_all
  have d: "d = Some c"
  proof (cases d)
    case None
    then show ?thesis using q r(2) by auto
  next
    case (Some e)
    then have "hd (step_queue self1) = e" using pc by (simp add: step_queue_def)
    then show ?thesis using sq Some by simp
  qed
  have "step_core new old M G init self1 p \<and> \<not> ts_isHaveLeftCover self1 \<and>
    (ts_isHaveRightCover self1 \<longrightarrow> pl_need p c (cover_bytes False new old c) \<le> M) \<and>
    step_out self1 = step_out self \<and> step_frame self1 = step_frame self \<and> ts_curCoverCount self1 = ts_curCoverCount self \<and>
    ts_newDataDiffReadPos self1 = ts_newDataDiffReadPos self"
  proof (cases "ts_pCurCover self")
    case (Some e)
    then have "self1 = self" "\<not> ts_isHaveLeftCover self" "\<not> ts_isHaveRightCover self" using n r(3,4) by (auto simp: step_next_cover_def)
    then show ?thesis using r(1) by simp
  next
    case None
    note n' = n [unfolded step_next_cover_def None option.case]
    show ?thesis
    proof (cases "ts_isHaveLeftCover self")
      case True
      then have "self1 = self\<lparr>ts_isHaveLeftCover := False, ts_pCurCover := Some (ts_leftCover self)\<rparr>" "c = ts_leftCover self"
        using n' d by auto
      then show ?thesis using r(1) r(3) [OF True] by (simp add: step_out_def step_frame_def)
    next
      case l: False
      show ?thesis
      proof (cases "ts_isHaveRightCover self")
        case True
        then have "self1 = self\<lparr>ts_isHaveRightCover := False, ts_pCurCover := Some (ts_rightCover self)\<rparr>" using n' l by auto
        then show ?thesis using r(1) l by (simp add: step_out_def step_frame_def)
      next
        case r': False
        show ?thesis
        proof (cases "ts_cur_i self < length (ts_covers self)")
          case True
          then have "self1 = self\<lparr>ts_cur_i := ts_cur_i self + 1, ts_cover := ts_covers self ! ts_cur_i self,
              ts_pCurCover := Some (ts_covers self ! ts_cur_i self)\<rparr>" using n' l r' by (auto simp: cover_at_def)
          then show ?thesis using r(1) l r' by (simp add: step_out_def step_frame_def)
        next
          case False
          then have "self1 = self\<lparr>ts_isHaveLastCover := False, ts_pCurCover := Some (ts_lastCover self)\<rparr>"
            using n' l r' d by (cases "ts_isHaveLastCover self") auto
          then show ?thesis using r(1) l r' by (simp add: step_out_def step_frame_def)
        qed
      qed
    qed
  qed
  then show ?thesis using n d sq pc by blast
qed

lemma queue_of: "step_queue self =
    (case step_covers_of self of ((pc, c), (hl, l), (hr, r), (hz, z), i, cs) \<Rightarrow>
      (case pc of None \<Rightarrow> [] | Some c \<Rightarrow> [c]) @ (if hl then [l] else []) @ (if hr then [r] else []) @ drop i cs @ (if hz then [z] else []))"
  by (simp add: step_queue_def step_covers_of_def)

lemma doStep_append:
  assumes rel: "step_rel new old M G init self p" and todo: "pl_todo p = c # cs" and need: "pl_need p c (cover_bytes False new old c) \<le> M"
  shows "\<exists>self'. step_doStep self = Ok (True, self') \<and> step_rel new old M G init self' (pl_append (cover_bytes False new old) p c cs) \<and>
    step_out self' = step_out self \<and> step_frame self' = step_frame self \<and> ts_curCoverCount self' = ts_curCoverCount self"
proof -
  from next_cover_result [OF rel todo] obtain self1 where n: "step_next_cover self = Ok (Some c, self1)"
    "step_core new old M G init self1 p" "step_queue self1 = c # cs" "ts_pCurCover self1 = Some c" "\<not> ts_isHaveLeftCover self1"
    "step_out self1 = step_out self" "step_frame self1 = step_frame self" "ts_curCoverCount self1 = ts_curCoverCount self" by blast
  from append_result [OF n(2) todo need] obtain self' where a: "step_add_cover self1 c = Ok self'"
    "step_core new old M G init self' (pl_append (cover_bytes False new old) p c cs)"
    "step_out self' = step_out self1" "step_frame self' = step_frame self1" "ts_curCoverCount self' = ts_curCoverCount self1"
    "step_covers_of self' = ((None, c), snd (step_covers_of self1))" by blast
  have "step_queue self' = cs" using n(3,4) a(6) by (simp add: queue_of step_covers_of_def)
  moreover have "\<not> ts_isHaveLeftCover self'" "ts_pCurCover self' = None" using n(5) a(6) by (simp_all add: step_covers_of_def)
  ultimately have "step_rel new old M G init self' (pl_append (cover_bytes False new old) p c cs)"
    using a(2) by (simp add: step_rel_def pl_append_def)
  then show ?thesis using n a by (simp add: step_doStep_def)
qed

lemma doStep_flush:
  assumes rel: "step_rel new old M G init self p" and todo: "pl_todo p = c # cs"
    and big: "\<not> pl_need p c (cover_bytes False new old c) \<le> M" and ne: "pl_covers p \<noteq> []"
    and half: "M div 2 \<le> length (pl_code p) + rle0_size (pl_rle p)"
  shows "\<exists>self'. step_doStep self = Ok (True, self') \<and> step_rel new old M G init self' (pl_flush p) \<and>
    step_emitted init p (step_gap (pl_covers p) new (snd (pl_start p))) self self' \<and>
    step_frame self' = step_frame self \<and> ts_curCoverCount self' = ts_curCoverCount self"
proof -
  from next_cover_result [OF rel todo] obtain self1 where n: "step_next_cover self = Ok (Some c, self1)"
    "step_core new old M G init self1 p" "step_queue self1 = c # cs" "ts_pCurCover self1 = Some c" "\<not> ts_isHaveLeftCover self1"
    "ts_isHaveRightCover self1 \<longrightarrow> pl_need p c (cover_bytes False new old c) \<le> M"
    "step_out self1 = step_out self" "step_frame self1 = step_frame self" "ts_curCoverCount self1 = ts_curCoverCount self"
    "ts_newDataDiffReadPos self1 = ts_newDataDiffReadPos self" by blast
  from flush_result [OF n(2) todo big ne half] obtain self' where a: "step_add_cover self1 c = Ok self'"
    "step_core new old M G init self' (pl_flush p)"
    "step_emitted init p (step_gap (pl_covers p) new (snd (pl_start p))) self1 self'" "step_frame self' = step_frame self1"
    "ts_curCoverCount self' = ts_curCoverCount self1" "step_covers_of self' = ((ts_pCurCover self1, c), snd (step_covers_of self1))" by blast
  have "step_queue self' = c # cs" using n(3,4) a(6) by (simp add: queue_of step_covers_of_def)
  moreover have "\<not> ts_isHaveLeftCover self'" "\<not> ts_isHaveRightCover self'" using n(5,6) a(6) big by (auto simp: step_covers_of_def)
  ultimately have "step_rel new old M G init self' (pl_flush p)" using a(2) todo by (simp add: step_rel_def pl_flush_def)
  moreover have "step_emitted init p (step_gap (pl_covers p) new (snd (pl_start p))) self self'"
    using a(3) n(7,10) by (simp add: step_emitted_def step_out_def Let_def)
  ultimately show ?thesis using n a by (simp add: step_doStep_def)
qed

lemma pack_size_loop_mono: "v \<le> w \<Longrightarrow> pack_size_loop k v n \<le> pack_size_loop k w n"
proof (induction k w n arbitrary: v rule: pack_size_loop.induct)
  case (1 k w n)
  show ?case
  proof (cases "k < v")
    case True
    then have "k < w" using "1.prems" by simp
    have "drop_bit 7 v \<le> drop_bit 7 w" using "1.prems" by (simp add: drop_bit_eq_div div_le_mono)
    with "1.IH" [OF \<open>k < w\<close>, of "drop_bit 7 v"] True \<open>k < w\<close> show ?thesis
      by (simp add: pack_size_loop.simps [of k v] pack_size_loop.simps [of k w])
  next
    case False
    have "n \<le> pack_size_loop k' w' n'" if "n \<le> n'" for k' w' n'
      using that
    proof (induction k' w' n' rule: pack_size_loop.induct)
      case (1 k w n')
      then show ?case by (cases "k < w") (auto simp: pack_size_loop.simps [of k w])
    qed
    then have "n \<le> pack_size_loop k w n" by blast
    then show ?thesis using False by (simp add: pack_size_loop.simps [of k v])
  qed
qed

lemma code1_left: "plan_ok new old M p \<Longrightarrow> pl_todo p = c # cs \<Longrightarrow> k \<le> coverLength c \<Longrightarrow>
    length (pl_code1 p (left_of c k)) \<le> length (pl_code1 p c)"
proof -
  assume a: "plan_ok new old M p" "pl_todo p = c # cs" "k \<le> coverLength c"
  have "coverLength c < 2 ^ 64" using plan_next(3) [OF a(1,2)] a(1) by (simp add: plan_ok_def)
  moreover from this a(3) have "k < 2 ^ 64" by simp
  ultimately have "length (pack_code k 0 0) \<le> length (pack_code (coverLength c) 0 0)"
    using pack_size_loop_mono [OF a(3)] by (simp add: length_pack_code hpatch_packUIntWithTag_size_def)
  then show ?thesis by (simp add: code1_eq left_of_def)
qed

lemma doStep_clip:
  assumes rel: "step_rel new old M G init self p" and todo: "pl_todo p = c # cs"
    and big: "\<not> pl_need p c (cover_bytes False new old c) \<le> M"
    and half: "\<not> (pl_covers p \<noteq> [] \<and> length (pl_code p) + rle0_size (pl_rle p) \<ge> M div 2)"
    and k: "k = pl_clip_len (cover_bytes False new old) M p c (coverLength c)" "0 < k" "k < coverLength c"
      "pl_need p c (cover_bytes False new old (left_of c k)) \<le> M"
  shows "\<exists>self'. step_doStep self = Ok (True, self') \<and>
    step_rel new old M G init self' (p\<lparr>pl_todo := left_of c k # right_of c k # cs\<rparr>) \<and>
    step_out self' = step_out self \<and> step_frame self' = step_frame self \<and> ts_curCoverCount self' = ts_curCoverCount self + 1"
proof -
  from next_cover_result [OF rel todo] obtain self1 where n: "step_next_cover self = Ok (Some c, self1)"
    "step_core new old M G init self1 p" "step_queue self1 = c # cs" "ts_pCurCover self1 = Some c" "\<not> ts_isHaveLeftCover self1"
    "\<not> ts_isHaveRightCover self1"
    "step_out self1 = step_out self" "step_frame self1 = step_frame self" "ts_curCoverCount self1 = ts_curCoverCount self" using big by blast
  from clip_result [OF n(2) todo big half k(1-3) n(5,6)] obtain self' where a: "step_add_cover self1 c = Ok self'"
    "step_core new old M G init self' (p\<lparr>pl_todo := left_of c k # right_of c k # cs\<rparr>)"
    "step_out self' = step_out self1" "step_frame self' = step_frame self1" "ts_curCoverCount self' = ts_curCoverCount self1 + 1"
    "step_covers_of self' = ((None, c), (True, left_of c k), (True, right_of c k), snd (snd (snd (step_covers_of self1))))" by blast
  have "step_queue self' = left_of c k # right_of c k # cs" using n(3-6) a(6) by (simp add: queue_of step_covers_of_def)
  moreover have f: "ts_isHaveLeftCover self'" "ts_isHaveRightCover self'" "ts_pCurCover self' = None" "ts_leftCover self' = left_of c k"
    using a(6) by (simp_all add: step_covers_of_def)
  moreover have "pl_need (p\<lparr>pl_todo := left_of c k # right_of c k # cs\<rparr>) (left_of c k) (cover_bytes False new old (left_of c k)) \<le> M"
  proof -
    have "plan_ok new old M p" using n(2) by (simp add: step_core_def)
    from code1_left [OF this todo, of k] k(3) have "length (pl_code1 p (left_of c k)) \<le> length (pl_code1 p c)" by simp
    then show ?thesis using k(4) by (simp add: pl_need_def pl_code_def pl_code1_def pl_ends_def)
  qed
  ultimately have "step_rel new old M G init self' (p\<lparr>pl_todo := left_of c k # right_of c k # cs\<rparr>)"
    using a(2) by (simp add: step_rel_def)
  then show ?thesis using n a by (simp add: step_doStep_def)
qed

lemma doStep_last:
  assumes rel: "step_rel new old M G init self p" and todo: "pl_todo p = []" and ne: "pl_covers p \<noteq> []"
  shows "\<exists>self'. step_doStep self = Ok (True, self') \<and> step_rel new old M G init self' (pl_flush p) \<and>
    step_emitted init p (step_gap (pl_covers p) new (snd (pl_start p))) self self' \<and>
    step_frame self' = step_frame self \<and> ts_curCoverCount self' = ts_curCoverCount self"
proof -
  have r: "step_core new old M G init self p" "step_queue self = []" using rel todo by (simp_all add: step_rel_def)
  have q: "ts_pCurCover self = None" "\<not> ts_isHaveLeftCover self" "\<not> ts_isHaveRightCover self" "\<not> ts_isHaveLastCover self"
      "\<not> ts_cur_i self < length (ts_covers self)"
    using r(2) by (auto simp: step_queue_def split: option.splits if_splits)
  then have n: "step_next_cover self = Ok (None, self)" by (simp add: step_next_cover_def)
  have size: "ts_bufCover_size self > 0"
  proof -
    obtain d ds where d: "pl_covers p = d # ds" using ne by (cases "pl_covers p") auto
    have "plan_ok new old M p" using r(1) by (simp add: step_core_def)
    then have "oldPos d < 2 ^ 64" "fst (pl_start p) < 2 ^ 64" using d by (auto simp: plan_ok_def)
    from inc_code_length [OF this] show ?thesis using r(1) by (simp add: pl_code_def d step_core_def)
  qed
  from emit_result [OF r(1) ne] obtain self' where e: "rbind (step_take_dataDiff self) flush_step_code = Ok self'"
    "step_core new old M G init self' (pl_flush p)" "step_emitted init p (step_gap (pl_covers p) new (snd (pl_start p))) self self'"
    "step_covers_of self' = step_covers_of self" "step_frame self' = step_frame self" "ts_curCoverCount self' = ts_curCoverCount self" by blast
  have "plan_ok new old M p" using r(1) by (simp add: step_core_def)
  then have "snd (pl_ends p) = length new" using todo by (simp add: plan_ok_def pl_ends_def)
  then have "drop (ts_newDataDiffReadPos self' - ts_dataDiffSize self') G = []" "ts_dataDiffSize self' = 0" "ts_newDataDiffReadPos self' \<le> length G"
    using e(2) todo by (auto simp: step_core_def pl_flush_def pl_ends_def)
  then have "ts_newDataDiffReadPos self' = length G" by simp
  then have "last_flush_step self = Ok self'"
    using size e(1,2) by (simp add: last_flush_step_def step_core_def clip_good_def)
  moreover have "step_rel new old M G init self' (pl_flush p)"
    using e(2) e(4) todo r(2) q by (simp add: step_rel_def pl_flush_def queue_of) (simp add: step_covers_of_def)
  ultimately show ?thesis using n size e by (simp add: step_doStep_def)
qed

lemma doStep_end:
  assumes rel: "step_rel new old M G init self p" and todo: "pl_todo p = []" and e: "pl_covers p = []"
  shows "step_doStep self = Ok (False, self)"
proof -
  have r: "step_core new old M G init self p" "step_queue self = []" using rel todo by (simp_all add: step_rel_def)
  have "ts_bufCover_size self = 0" using r(1) e by (simp add: step_core_def pl_code_def)
  then show ?thesis using r(2)
    by (auto simp: step_doStep_def step_next_cover_def step_queue_def split: option.splits if_splits)
qed

end

end
