(* ===== verification/StepRead.thy ===== *)
theory StepRead
  imports StepSave
begin

text \<open>
  The step stream of a single-stream diff holds the bytes of the steps of its plan: the first pass
  finds their number, and reading gives them.
\<close>

section \<open>The covers of the steps\<close>

text \<open>A last cover of no length takes the new data to its end.\<close>

definition step_last :: "hpatch_TCover list \<Rightarrow> nat \<Rightarrow> hpatch_TCover list" where
  "step_last covers newDataSize =
     (if covers = [] then [\<lparr>oldPos = 0, newPos = newDataSize, coverLength = 0\<rparr>]
      else let back = last covers in
        if newPos back + coverLength back < newDataSize
        then [\<lparr>oldPos = oldPos back + coverLength back, newPos = newDataSize, coverLength = 0\<rparr>] else [])"

definition step_plan0 :: "hpatch_TCover list \<Rightarrow> nat \<Rightarrow> step_plan" where
  "step_plan0 covers newDataSize =
     \<lparr>pl_todo = covers @ step_last covers newDataSize, pl_start = (0, 0), pl_covers = [], pl_rle = TSingleStreamRLE0_init\<rparr>"

definition step_list :: "byte list \<Rightarrow> byte list \<Rightarrow> nat \<Rightarrow> hpatch_TCover list \<Rightarrow> step list" where
  "step_list new old M covers = pl_run (cover_bytes False new old) M (step_plan0 covers (length new))"

definition step_whole :: "byte list \<Rightarrow> byte list \<Rightarrow> nat \<Rightarrow> hpatch_TCover list \<Rightarrow> byte list" where
  "step_whole new old M covers = steps_bytes new (0, 0) (step_list new old M covers)"

definition covers_good :: "byte list \<Rightarrow> byte list \<Rightarrow> nat \<Rightarrow> hpatch_TCover list \<Rightarrow> bool" where
  "covers_good new old M covers \<longleftrightarrow>
     covers_fit covers 0 (length new) (length old) \<and> (\<forall>c \<in> set covers. 0 < coverLength c) \<and>
     length new < 2 ^ 54 \<and> length old < 2 ^ 64 \<and> 4096 \<le> M \<and> M < 2 ^ 62"

lemma ends_of_last: "cs \<noteq> [] \<Longrightarrow> ends_of cs e = (oldPos (last cs) + coverLength (last cs), newPos (last cs) + coverLength (last cs))"
  by (induction cs arbitrary: e) auto

lemma covers_fit_last: "covers_fit cs e n m \<Longrightarrow> cs \<noteq> [] \<Longrightarrow>
    newPos (last cs) + coverLength (last cs) \<le> n \<and> oldPos (last cs) + coverLength (last cs) \<le> m"
proof (induction cs arbitrary: e)
  case (Cons c cs)
  show ?case
  proof (cases "cs = []")
    case True
    then show ?thesis using Cons.prems by simp
  next
    case False
    have "covers_fit cs (newPos c + coverLength c) n m" using Cons.prems(1) by simp
    from Cons.IH [OF this False] show ?thesis using False by simp
  qed
qed simp

lemma step_last_cases:
  assumes "covers_good new old M covers"
  shows "step_last covers (length new) = [] \<and> snd (ends_of covers (0, 0)) = length new \<or>
    step_last covers (length new) =
      [\<lparr>oldPos = fst (ends_of covers (0, 0)), newPos = length new, coverLength = 0\<rparr>]"
proof (cases "covers = []")
  case False
  have "covers_fit covers 0 (length new) (length old)" using assms by (simp add: covers_good_def)
  from covers_fit_last [OF this False] show ?thesis using False by (auto simp: step_last_def Let_def ends_of_last)
qed (simp add: step_last_def)

lemma plan0_ok: "covers_good new old M covers \<Longrightarrow> plan_ok new old M (step_plan0 covers (length new))"
proof -
  assume a: "covers_good new old M covers"
  then have g: "covers_fit covers (snd (0 :: nat, 0 :: nat)) (length new) (length old)" "\<forall>c \<in> set covers. 0 < coverLength c"
    "length new < 2 ^ 54" "length old < 2 ^ 64" "4096 \<le> M" "M < 2 ^ 62" by (simp_all add: covers_good_def)
  let ?e = "ends_of covers (0, 0)"
  have e: "fst ?e \<le> length old" "snd ?e \<le> length new" using ends_of_le [OF g(1)] by simp_all
  have "covers_fit (covers @ step_last covers (length new)) (snd (0 :: nat, 0 :: nat)) (length new) (length old)"
    using step_last_cases [OF a] g(1) e covers_fit_append [of covers _ "(0, 0)"] by auto
  moreover have "snd (ends_of (covers @ step_last covers (length new)) (0, 0)) = length new" using step_last_cases [OF a] by auto
  moreover have "\<forall>c \<in> set (butlast (covers @ step_last covers (length new))). 0 < coverLength c"
    using step_last_cases [OF a] g(2) by (auto simp: butlast_append dest: in_set_butlastD)
  ultimately show ?thesis using g(3-6) by (simp add: plan_ok_def step_plan0_def ss_ok_init)
qed

lemma gap_bytes_append: "gap_bytes (cs @ ds) new (snd e) = step_gap cs new (snd e) @ gap_bytes ds new (snd (ends_of cs e))"
  by (induction cs arbitrary: e) auto

lemma gap_bytes_plan0:
  assumes "covers_good new old M covers"
  shows "gap_bytes (covers @ step_last covers (length new)) new 0 = gap_bytes covers new 0"
  using step_last_cases [OF assms] gap_bytes_append [of covers _ new "(0, 0)"] gap_bytes_append [of covers "[]" new "(0, 0)"] by auto

lemma cover_weights: "covers_fit cs e n m \<Longrightarrow> \<forall>c \<in> set cs. 0 < coverLength c \<Longrightarrow> sum_list (map cover_weight cs) + 2 * e \<le> 2 * n"
proof (induction cs arbitrary: e)
  case Nil
  then show ?case using covers_fit_end by fastforce
next
  case (Cons c cs)
  from Cons.IH [of "newPos c + coverLength c"] Cons.prems
  have "sum_list (map cover_weight cs) + 2 * (newPos c + coverLength c) \<le> 2 * n" "e \<le> newPos c" by auto
  moreover have "cover_weight c \<le> 2 * coverLength c" using Cons.prems(2) by (simp add: cover_weight_def)
  ultimately show ?case by simp
qed

lemma step_list_bytes: "covers_good new old M covers \<Longrightarrow>
    length (steps_bytes new (0, 0) (step_list new old M covers)) \<le> 161 * length new + 80"
proof -
  assume a: "covers_good new old M covers"
  have "sum_list (map cover_weight covers) \<le> 2 * length new" using cover_weights [of covers 0 "length new" "length old"] a by (simp add: covers_good_def)
  moreover have "sum_list (map cover_weight (step_last covers (length new))) \<le> 1"
    using step_last_cases [OF a] by (auto simp: cover_weight_def)
  ultimately show ?thesis using steps_bytes_bound [OF plan0_ok [OF a]]
    by (simp add: step_plan0_def step_list_def pl_code_def pl_ends_def rle0_size_def TSingleStreamRLE0_init_def)
qed

section \<open>The first pass\<close>

fun steps_mem :: "nat \<times> nat \<Rightarrow> step list \<Rightarrow> nat" where
  "steps_mem e [] = 0"
| "steps_mem e (s # ss) = max (step_mem s e) (steps_mem (ends_of (fst s) e) ss)"

lemma steps_mem_ok: "steps_ok new old M e ss \<Longrightarrow> steps_mem e ss \<le> m \<Longrightarrow> steps_ok new old m e ss"
  by (induction ss arbitrary: e) auto

lemma steps_mem_le: "steps_ok new old M e ss \<Longrightarrow> steps_mem e ss \<le> M"
  by (induction ss arbitrary: e) auto

context sub_streams begin

definition init_done ::
  "byte list \<Rightarrow> byte list \<Rightarrow> byte list \<Rightarrow> nat \<times> nat \<Rightarrow> step list \<Rightarrow> nat \<Rightarrow> ('n, 'o) TStepStream \<Rightarrow> ('n, 'o) TStepStream \<Rightarrow> bool" where
  "init_done new old G e ss n self self' \<longleftrightarrow>
     ts_sumBufSize self' = ts_sumBufSize self + length (steps_bytes new e ss) \<and>
     ts_curMaxStepMemSize self' = max (ts_curMaxStepMemSize self) (steps_mem e ss) \<and>
     ts_curCoverCount self' + n = ts_curCoverCount self + steps_count ss \<and>
     step_frame self' = step_frame self \<and> sub_good new old (ts_subDiff self') \<and> clip_good G (ts_dataDiff self') \<and>
     tsc_src (streamImport (ts_dataDiff self')) = tsc_src (streamImport (ts_dataDiff self))"

lemma init_done_step:
  assumes "init_done new old G e ss n self1 self'" "step_out self1 = step_out self" "step_frame self1 = step_frame self"
    "ts_curCoverCount self1 + m = ts_curCoverCount self + n"
  shows "init_done new old G e ss m self self'"
  using assms by (simp add: init_done_def step_out_def)

lemma init_done_emit:
  assumes "init_done new old G (pl_ends p) ss n self1 self'" "step_emitted True p (step_gap (pl_covers p) new (snd (pl_start p))) self self1"
    "step_frame self1 = step_frame self" "ts_curCoverCount self1 = ts_curCoverCount self" "fst (pl_finish p) = pl_covers p"
    "ts_sumBufSize self + length (steps_bytes new (pl_start p) (pl_finish p # ss)) < 2 ^ 64"
  shows "init_done new old G (pl_start p) (pl_finish p # ss) (length (pl_covers p) + n) self self'"
  using assms by (simp add: init_done_def step_emitted_def Let_def add64_eq pl_ends_def steps_count_def)

lemma plan_finish_covers: "plan_ok new old M p \<Longrightarrow> pl_covers p \<noteq> [] \<Longrightarrow> fst (pl_finish p) = pl_covers p"
  using plan_finish by fastforce

lemma init_loop_result:
  assumes "plan_ok new old M p" "step_rel new old M G True self p"
    "ts_sumBufSize self + length (steps_bytes new (pl_start p) (pl_run (cover_bytes False new old) M p)) < 2 ^ 64"
  shows "\<exists>self'. step_init_loop self = Ok self' \<and>
    init_done new old G (pl_start p) (pl_run (cover_bytes False new old) M p) (length (pl_covers p) + length (pl_todo p)) self self'"
  using assms
proof (induction arbitrary: self rule: plan_induct)
  case (empty p)
  have "step_doStep self = Ok (False, self)" by (rule doStep_end [OF empty(5,2,3)])
  then have "step_init_loop self = Ok self" by (simp add: step_init_loop.simps [of self])
  then show ?case using empty(2-5) by (simp add: init_done_def steps_count_def step_rel_def step_core_def)
next
  case (last p)
  from doStep_last [OF last(5,2,3)] obtain self1 where s: "step_doStep self = Ok (True, self1)" "step_rel new old M G True self1 (pl_flush p)"
    "step_emitted True p (step_gap (pl_covers p) new (snd (pl_start p))) self self1" "step_frame self1 = step_frame self"
    "ts_curCoverCount self1 = ts_curCoverCount self" by blast
  have "step_doStep self1 = Ok (False, self1)" by (rule doStep_end [OF s(2)]) (simp_all add: pl_flush_def last)
  then have l: "step_init_loop self = Ok self1" using s(1) by (simp add: step_init_loop.simps [of self] step_init_loop.simps [of self1])
  have d: "init_done new old G (pl_ends p) [] 0 self1 self1"
    using s(2) by (simp add: init_done_def steps_count_def step_rel_def step_core_def)
  note f = plan_finish_covers [OF last(1,3)]
  show ?case using init_done_emit [OF d s(3-5) f] last(2,4,6) l by simp
next
  case (append p c cs)
  from doStep_append [OF append(7,2,3)] obtain self1 where s: "step_doStep self = Ok (True, self1)"
    "step_rel new old M G True self1 (pl_append (cover_bytes False new old) p c cs)" "step_out self1 = step_out self"
    "step_frame self1 = step_frame self" "ts_curCoverCount self1 = ts_curCoverCount self" by blast
  have st: "pl_start (pl_append (cover_bytes False new old) p c cs) = pl_start p" by (simp add: pl_append_def)
  have "ts_sumBufSize self1 = ts_sumBufSize self" using s(3) by (simp add: step_out_def)
  with append.IH [OF s(2)] append(5,8) st obtain self' where r: "step_init_loop self1 = Ok self'"
    "init_done new old G (pl_start p) (pl_run (cover_bytes False new old) M p)
      (length (pl_covers (pl_append (cover_bytes False new old) p c cs)) + length (pl_todo (pl_append (cover_bytes False new old) p c cs))) self1 self'"
    by auto
  have "step_init_loop self = Ok self'" using s(1) r(1) by (simp add: step_init_loop.simps [of self])
  moreover have "init_done new old G (pl_start p) (pl_run (cover_bytes False new old) M p) (length (pl_covers p) + length (pl_todo p)) self self'"
    by (rule init_done_step [OF r(2) s(3,4)]) (simp add: s(5) pl_append_def append(2))
  ultimately show ?case by blast
next
  case (flush p c cs)
  from doStep_flush [OF flush(9,2,3,4,5)] obtain self1 where s: "step_doStep self = Ok (True, self1)" "step_rel new old M G True self1 (pl_flush p)"
    "step_emitted True p (step_gap (pl_covers p) new (snd (pl_start p))) self self1" "step_frame self1 = step_frame self"
    "ts_curCoverCount self1 = ts_curCoverCount self" by blast
  note f = plan_finish_covers [OF flush(1,4)]
  have st: "pl_start (pl_flush p) = pl_ends p" "pl_covers (pl_flush p) = []" "pl_todo (pl_flush p) = pl_todo p" by (simp_all add: pl_flush_def)
  have b: "ts_sumBufSize self + length (steps_bytes new (pl_start p) (pl_finish p # pl_run (cover_bytes False new old) M (pl_flush p))) < 2 ^ 64"
    using flush(7,10) by simp
  then have "ts_sumBufSize self1 + length (steps_bytes new (pl_start (pl_flush p)) (pl_run (cover_bytes False new old) M (pl_flush p))) < 2 ^ 64"
    using s(3) f by (simp add: step_emitted_def Let_def add64_eq st pl_ends_def)
  from flush.IH [OF s(2) this] obtain self' where r: "step_init_loop self1 = Ok self'"
    "init_done new old G (pl_ends p) (pl_run (cover_bytes False new old) M (pl_flush p)) (length (pl_todo p)) self1 self'"
    using st by auto
  have "step_init_loop self = Ok self'" using s(1) r(1) by (simp add: step_init_loop.simps [of self])
  then show ?case using init_done_emit [OF r(2) s(3-5) f b] flush(7) by simp
next
  case (clip p c cs k)
  from doStep_clip [OF clip(12,2,3,4,5,6,7,8)] obtain self1 where s: "step_doStep self = Ok (True, self1)"
    "step_rel new old M G True self1 (p\<lparr>pl_todo := left_of c k # right_of c k # cs\<rparr>)" "step_out self1 = step_out self"
    "step_frame self1 = step_frame self" "ts_curCoverCount self1 = ts_curCoverCount self + 1" by blast
  have "ts_sumBufSize self1 = ts_sumBufSize self" using s(3) by (simp add: step_out_def)
  with clip.IH [OF s(2)] clip(10,13) obtain self' where r: "step_init_loop self1 = Ok self'"
    "init_done new old G (pl_start p) (pl_run (cover_bytes False new old) M p) (length (pl_covers p) + (length cs + 2)) self1 self'"
    by auto
  have "step_init_loop self = Ok self'" using s(1) r(1) by (simp add: step_init_loop.simps [of self])
  moreover have "init_done new old G (pl_start p) (pl_run (cover_bytes False new old) M p) (length (pl_covers p) + length (pl_todo p)) self self'"
    by (rule init_done_step [OF r(2) s(3,4)]) (simp add: s(5) clip(2))
  ultimately show ?case by blast
qed

section \<open>The new data of a step\<close>

definition nd_good :: "byte list \<Rightarrow> byte list \<Rightarrow> 'n TNewDataDiffStream hpatch_TStreamInput \<Rightarrow> nat \<Rightarrow> bool" where
  "nd_good new G st pos \<longleftrightarrow> n.nd_rsok st pos \<and> n.nd_whole st = G \<and> ncont (nd_newData (streamImport st)) = new"

lemma nd_good_read:
  assumes "nd_good new G st pos" "0 < len" "pos + len \<le> length G"
  shows "\<exists>st'. sread st pos len = Ok (take len (drop pos G), st') \<and> nd_good new G st' (pos + len) \<and> nok (nd_newData (streamImport st'))"
proof -
  have st: "n.nd_rsok st pos" "n.nd_whole st = G" "ncont (nd_newData (streamImport st)) = new" using assms(1) by (simp_all add: nd_good_def)
  have "pos + len \<le> length (n.nd_whole st)" using assms(3) st(2) by simp
  from replay_stream.replay_law [OF n.newDataDiff_replay st(1) assms(2) this] obtain st' where
    a: "sread st pos len = Ok (take len (drop pos G), st')" "n.nd_rsok st' (pos + len)" "n.nd_whole st' = G" unfolding st(2) by blast
  have "n.nd_sok st pos (drop pos G)" using st by (auto simp: n.nd_rsok_def)
  moreover have "len \<le> length (drop pos G)" using assms(3) by simp
  ultimately obtain st2 where
    b: "sread st pos len = Ok (take len (drop pos G), st2)" "nok (nd_newData (streamImport st2))"
      "n.nd_same (streamImport st) (streamImport st2\<lparr>nd_readFromPos_back := nd_readFromPos_back (streamImport st)\<rparr>)" using n.nd_step [OF _ assms(2)] by blast
  then have "st2 = st'" using a(1) by simp
  then show ?thesis using a b st(3) by (simp add: nd_good_def n.nd_same_def)
qed

lemma nd_renew:
  assumes "nok ns" "ncont ns = ncont (nd_newData self)"
  shows "n.nd_at self d \<Longrightarrow> n.nd_at (self\<lparr>nd_newData := ns\<rparr>) d"
    and "streamImport st = self \<Longrightarrow> n.nd_whole (st\<lparr>streamImport := self\<lparr>nd_newData := ns\<rparr>\<rparr>) = n.nd_whole st"
    and "streamImport st = self \<Longrightarrow> n.nd_sok st pos d \<Longrightarrow> n.nd_sok (st\<lparr>streamImport := self\<lparr>nd_newData := ns\<rparr>\<rparr>) pos d"
proof -
  show 1: "n.nd_at (self\<lparr>nd_newData := ns\<rparr>) d" if "n.nd_at self d" for d
    using that assms unfolding n.nd_at_def by (simp only: TNewDataDiffStream.simps) simp
  show "n.nd_whole (st\<lparr>streamImport := self\<lparr>nd_newData := ns\<rparr>\<rparr>) = n.nd_whole st" if "streamImport st = self"
    using that assms by (simp add: n.nd_whole_def)
  show "n.nd_sok (st\<lparr>streamImport := self\<lparr>nd_newData := ns\<rparr>\<rparr>) pos d" if "streamImport st = self" "n.nd_sok st pos d"
  proof (cases "pos = 0")
    case True
    then show ?thesis using that assms by (simp add: n.nd_sok_def Let_def)
  next
    case False
    then have o: "\<exists>x. n.nd_at self (d @ x)" "nd_readFromPos_back self = pos" "read st = newDataDiff_read"
        "streamSize st = pos + length d" "streamSize st < 2 ^ 64" using that by (simp_all add: n.nd_sok_def Let_def)
    from o(1) have "\<exists>x. n.nd_at (self\<lparr>nd_newData := ns\<rparr>) (d @ x)" using 1 by blast
    then show ?thesis using o(2-5) False by (simp add: n.nd_sok_def Let_def)
  qed
qed

lemma nd_good_renew:
  assumes "nd_good new G st pos" "nok ns" "ncont ns = new"
  shows "nd_good new G (st\<lparr>streamImport := (streamImport st)\<lparr>nd_newData := ns\<rparr>\<rparr>) pos"
proof -
  have c: "ncont ns = ncont (nd_newData (streamImport st))" using assms(1,3) by (simp add: nd_good_def)
  note w = nd_renew(2) [OF assms(2) c refl]
  note s = nd_renew(3) [OF assms(2) c refl]
  have st: "streamSize st < 2 ^ 63" "n.nd_sok st 0 G" "pos \<noteq> 0 \<longrightarrow> n.nd_sok st pos (drop pos G)" "n.nd_whole st = G"
    using assms(1) by (auto simp: nd_good_def n.nd_rsok_def)
  show ?thesis unfolding nd_good_def n.nd_rsok_def w st(4) using st(1) s [OF st(2)] st(3) s [of pos "drop pos G"] assms(3) by simp
qed

lemma nd_good_0: "nd_good new G st pos \<Longrightarrow> nd_good new G st 0"
  unfolding nd_good_def n.nd_rsok_def by blast

text \<open>A clip at \<open>pos\<close>, which begins at \<open>b\<close>.\<close>

definition dd_good :: "byte list \<Rightarrow> byte list \<Rightarrow> nat \<Rightarrow> ('n TNewDataDiffStream, unit) TStreamClip hpatch_TStreamInput \<Rightarrow> nat \<Rightarrow> bool" where
  "dd_good new G b st pos \<longleftrightarrow>
     clip_good G st \<and> pos \<le> streamSize st \<and> b + streamSize st \<le> length G \<and> nd_good new G (tsc_src (streamImport st)) (b + pos) \<and>
     (streamSize st \<noteq> 0 \<longrightarrow> tsc_src_begin (streamImport st) = b \<and> tsc_read_uncompress_pos (streamImport st) = pos)"

lemma read_dataDiff_result:
  assumes dd: "dd_good new G b (ts_dataDiff self) pos" and sub: "sub_good new old (ts_subDiff self)" and G: "length G < 2 ^ 54"
    and len: "0 < len" "pos + len \<le> streamSize (ts_dataDiff self)"
  shows "\<exists>dd st. step_read_dataDiff self pos len = Ok (take len (drop (b + pos) G), self\<lparr>ts_dataDiff := dd, ts_subDiff := st\<rparr>) \<and>
    dd_good new G b dd (pos + len) \<and> sub_good new old st \<and> streamSize dd = streamSize (ts_dataDiff self)"
proof -
  define st where "st = ts_dataDiff self"
  define clip where "clip = streamImport st"
  have c: "clip_good G st" "b + streamSize st \<le> length G" "nd_good new G (tsc_src clip) (b + pos)"
     "tsc_src_begin clip = b" "tsc_read_uncompress_pos clip = pos"
    using dd len unfolding dd_good_def st_def clip_def by auto
  have s: "nok (dc_newStream (streamImport (ts_subDiff self)))" "ncont (dc_newStream (streamImport (ts_subDiff self))) = new"
    using sub by (simp_all add: sub_good_def dc_files_def)
  define nd where "nd = (tsc_src clip)\<lparr>streamImport := (streamImport (tsc_src clip))\<lparr>nd_newData := dc_newStream (streamImport (ts_subDiff self))\<rparr>\<rparr>"
  have nd: "nd_good new G nd (b + pos)" unfolding nd_def by (rule nd_good_renew [OF c(3) s])
  have "b + pos + len \<le> length G" using c(2) len by (simp add: st_def)
  from nd_good_read [OF nd len(1) this] obtain nd' where
    r: "sread nd (b + pos) len = Ok (take len (drop (b + pos) G), nd')" "nd_good new G nd' (b + (pos + len))" "nok (nd_newData (streamImport nd'))"
    by (auto simp: add.assoc)
  have size: "streamSize nd' = length G" "length G < 2 ^ 63"
    using r(2) replay_stream.whole_size [OF n.newDataDiff_replay] by (auto simp: nd_good_def)
  have b: "add64 b pos = b + pos" using c(2) len G by (simp add: add64_eq st_def)
  define dd' where "dd' = st\<lparr>streamImport := clip\<lparr>tsc_src := nd', tsc_read_uncompress_pos := pos + len\<rparr>\<rparr>"
  have rd: "sread (st\<lparr>streamImport := clip\<lparr>tsc_src := nd\<rparr>\<rparr>) pos len = Ok (take len (drop (b + pos) G), dd')"
    using c r(1) b len by (simp add: sread_def clip_good_def tsc_clip_read_def Let_def clip_def dd'_def st_def)
  have "dd_good new G b dd' (pos + len)"
    using c r(2) len size by (simp add: dd_good_def dd'_def clip_good_def st_def clip_def)
  moreover have "streamSize dd' = streamSize (ts_dataDiff self)" by (simp add: dd'_def st_def)
  moreover have "sub_good new old ((ts_subDiff self)\<lparr>streamImport := (streamImport (ts_subDiff self))\<lparr>dc_newStream := nd_newData (streamImport nd')\<rparr>\<rparr>)"
    using sub r(2,3) by (simp add: sub_good_def dc_files_def nd_good_def)
  moreover have "step_read_dataDiff self pos len = Ok (take len (drop (b + pos) G), self\<lparr>ts_dataDiff := dd',
      ts_subDiff := (ts_subDiff self)\<lparr>streamImport := (streamImport (ts_subDiff self))\<lparr>dc_newStream := nd_newData (streamImport nd')\<rparr>\<rparr>\<rparr>)"
    unfolding step_read_dataDiff_def Let_def st_def [symmetric] clip_def [symmetric] nd_def [symmetric] rd by (simp add: dd'_def)
  ultimately show ?thesis by blast
qed

section \<open>The next step\<close>

definition step_pos :: "('n, 'o) TStepStream \<Rightarrow> nat" where
  "step_pos self = ts_newDataDiffReadPos self - ts_dataDiffSize self"

text \<open>A state at the beginning of a step \<open>s\<close>.\<close>

definition filled ::
  "byte list \<Rightarrow> byte list \<Rightarrow> nat \<Rightarrow> byte list \<Rightarrow> nat \<times> nat \<Rightarrow> step \<Rightarrow> step list \<Rightarrow> ('n, 'o) TStepStream \<Rightarrow> ('n, 'o) TStepStream \<Rightarrow> bool" where
  "filled new old M G e s ss self self' \<longleftrightarrow>
     (\<exists>p'. step_rel new old M G False self' p' \<and> pl_start p' = ends_of (fst s) e \<and> pl_run (cover_bytes False new old) M p' = ss) \<and>
     (let g = step_gap (fst s) new (snd e); b = step_pos self; clip = streamImport (ts_dataDiff self') in
      ts_step_buf self' = step_head s e \<and> streamSize (ts_dataDiff self') = length g \<and> tsc_read_uncompress_pos clip = 0 \<and>
      tsc_src clip = tsc_src (streamImport (ts_dataDiff self)) \<and> tsc_src_begin clip = b \<and>
      step_pos self' = b + length g \<and> b + length g \<le> length G \<and> take (length g) (drop b G) = g \<and> step_frame self' = step_frame self)"

lemma step_head_not_Nil: "length (cover_code (fst s) (fst e) (snd e)) < 2 ^ 64 \<Longrightarrow> 0 < length (step_head s e)"
  using pack_code_not_Nil [of "length (cover_code (fst s) (fst e) (snd e))" 0 0] by (simp add: step_head_def)

lemma step_pos_rest:
  assumes "step_core new old M G init self p"
  shows "step_pos self \<le> length G" "drop (step_pos self) G = gap_bytes (pl_covers p @ pl_todo p) new (snd (pl_start p))"
  using assms unfolding step_core_def step_pos_def pl_ends_def gap_bytes_append by linarith+

lemma step_pos_same:
  assumes "step_core new old M G init self p" "step_core new old M G init' self' p'"
    and "gap_bytes (pl_covers p' @ pl_todo p') new (snd (pl_start p')) = gap_bytes (pl_covers p @ pl_todo p) new (snd (pl_start p))"
  shows "step_pos self' = step_pos self"
proof -
  have "length (drop (step_pos self') G) = length (drop (step_pos self) G)"
    using step_pos_rest(2) [OF assms(1)] step_pos_rest(2) [OF assms(2)] assms(3) by simp
  then show ?thesis using step_pos_rest(1) [OF assms(1)] step_pos_rest(1) [OF assms(2)] by simp
qed

lemma filled_step:
  assumes "filled new old M G e s ss self1 self'" "step_out self1 = step_out self" "step_frame self1 = step_frame self" "step_pos self1 = step_pos self"
  shows "filled new old M G e s ss self self'"
  using assms by (simp add: filled_def step_out_def Let_def)

lemma filled_emit:
  assumes rel: "step_rel new old M G False self p" "step_rel new old M G False self1 (pl_flush p)"
    and emit: "step_emitted False p (step_gap (pl_covers p) new (snd (pl_start p))) self self1" "step_frame self1 = step_frame self"
    and ne: "pl_covers p \<noteq> []" and buf: "ts_step_buf self = []"
  shows "filled new old M G (pl_start p) (pl_finish p) (pl_run (cover_bytes False new old) M (pl_flush p)) self self1"
proof -
  let ?g = "step_gap (pl_covers p) new (snd (pl_start p))"
  have core: "step_core new old M G False self p" "step_core new old M G False self1 (pl_flush p)" using rel by (simp_all add: step_rel_def)
  have "plan_ok new old M p" using core(1) by (simp add: step_core_def)
  from plan_finish_covers [OF this ne] have f: "fst (pl_finish p) = pl_covers p" .
  have c: "ts_dataDiffSize self = length ?g" "length ?g \<le> ts_newDataDiffReadPos self" "ts_newDataDiffReadPos self \<le> length G"
      "drop (step_pos self) G = ?g @ gap_bytes (pl_todo p) new (snd (pl_ends p))" "ts_dataDiffSize self1 = 0"
    using core by (auto simp: step_core_def step_pos_def pl_flush_def)
  have "pl_start (pl_flush p) = ends_of (pl_covers p) (pl_start p)" by (simp add: pl_flush_def pl_ends_def)
  then show ?thesis using rel(2) emit buf c by (auto simp: filled_def f step_emitted_def Let_def step_pos_def)
qed

lemma filled_dataLen: "filled new old M G e s ss self self' \<Longrightarrow> length (cover_code (fst s) (fst e) (snd e)) < 2 ^ 64 \<Longrightarrow> 0 < step_dataLen self'"
  using step_head_not_Nil [of s e] by (simp add: filled_def Let_def step_dataLen_def)

lemma fill_loop_result:
  assumes "plan_ok new old M p" "step_rel new old M G False self p" "ts_step_buf self = []" "streamSize (ts_dataDiff self) = 0"
    "pl_run (cover_bytes False new old) M p = s # ss"
  shows "\<exists>self'. step_fill_loop self n = Ok (step_dataLen self', self') \<and> 0 < step_dataLen self' \<and>
    filled new old M G (pl_start p) s ss self self'"
  using assms
proof (induction arbitrary: self n rule: plan_induct)
  case (empty p)
  then show ?case by simp
next
  case (last p)
  from doStep_last [OF last(5,2,3)] obtain self1 where s: "step_doStep self = Ok (True, self1)" "step_rel new old M G False self1 (pl_flush p)"
    "step_emitted False p (step_gap (pl_covers p) new (snd (pl_start p))) self self1" "step_frame self1 = step_frame self" by blast
  have r: "s = pl_finish p" "ss = []" using last(4,8) by simp_all
  have "pl_run (cover_bytes False new old) M (pl_flush p) = []" using last(2) by (simp add: pl_run.simps pl_flush_def)
  then have f: "filled new old M G (pl_start p) s ss self self1" using filled_emit [OF last(5) s(2-4) last(3,6)] r by simp
  have "length (cover_code (fst s) (fst (pl_start p)) (snd (pl_start p))) < 2 ^ 64"
    using plan_sizes(2) [OF last(1)] plan_finish_covers [OF last(1,3)] r by (simp add: pl_code_def)
  from filled_dataLen [OF f this] show ?case using f s(1) by (simp add: step_fill_loop.simps [of self])
next
  case (append p c cs)
  from doStep_append [OF append(7,2,3)] obtain self1 where s: "step_doStep self = Ok (True, self1)"
    "step_rel new old M G False self1 (pl_append (cover_bytes False new old) p c cs)" "step_out self1 = step_out self"
    "step_frame self1 = step_frame self" by blast
  have st: "pl_start (pl_append (cover_bytes False new old) p c cs) = pl_start p" by (simp add: pl_append_def)
  have z: "ts_step_buf self1 = []" "streamSize (ts_dataDiff self1) = 0" "step_dataLen self1 = 0" using s(3) append(8,9) by (simp_all add: step_out_def step_dataLen_def)
  from append.IH [OF s(2) z(1,2), of 0] append(5,10) obtain self' where r: "step_fill_loop self1 0 = Ok (step_dataLen self', self')"
    "0 < step_dataLen self'" "filled new old M G (pl_start p) s ss self1 self'" unfolding st by auto
  have "step_pos self1 = step_pos self"
  proof (rule step_pos_same)
    show "step_core new old M G False self p" "step_core new old M G False self1 (pl_append (cover_bytes False new old) p c cs)"
      using append(7) s(2) by (simp_all add: step_rel_def)
  qed (simp add: pl_append_def append(2))
  from filled_step [OF r(3) s(3,4) this] show ?case using s(1) r(1,2) z(3) by (simp add: step_fill_loop.simps [of self])
next
  case (flush p c cs)
  from doStep_flush [OF flush(9,2,3,4,5)] obtain self1 where s: "step_doStep self = Ok (True, self1)" "step_rel new old M G False self1 (pl_flush p)"
    "step_emitted False p (step_gap (pl_covers p) new (snd (pl_start p))) self self1" "step_frame self1 = step_frame self" by blast
  have r: "s = pl_finish p" "ss = pl_run (cover_bytes False new old) M (pl_flush p)" using flush(7,12) by simp_all
  have f: "filled new old M G (pl_start p) s ss self self1" using filled_emit [OF flush(9) s(2-4) flush(4,10)] r by simp
  have "length (cover_code (fst s) (fst (pl_start p)) (snd (pl_start p))) < 2 ^ 64"
    using plan_sizes(2) [OF flush(1)] plan_finish_covers [OF flush(1,4)] r by (simp add: pl_code_def)
  from filled_dataLen [OF f this] show ?case using f s(1) by (simp add: step_fill_loop.simps [of self])
next
  case (clip p c cs k)
  from doStep_clip [OF clip(12,2,3,4,5,6,7,8)] obtain self1 where s: "step_doStep self = Ok (True, self1)"
    "step_rel new old M G False self1 (p\<lparr>pl_todo := left_of c k # right_of c k # cs\<rparr>)" "step_out self1 = step_out self"
    "step_frame self1 = step_frame self" by blast
  have z: "ts_step_buf self1 = []" "streamSize (ts_dataDiff self1) = 0" "step_dataLen self1 = 0" using s(3) clip(13,14) by (simp_all add: step_out_def step_dataLen_def)
  from clip.IH [OF s(2) z(1,2), of 0] clip(10,15) obtain self' where r: "step_fill_loop self1 0 = Ok (step_dataLen self', self')"
    "0 < step_dataLen self'" "filled new old M G (pl_start p) s ss self1 self'" by auto
  have "step_pos self1 = step_pos self"
  proof (rule step_pos_same)
    show "step_core new old M G False self p" "step_core new old M G False self1 (p\<lparr>pl_todo := left_of c k # right_of c k # cs\<rparr>)"
      using clip(12) s(2) by (simp_all add: step_rel_def)
    show "gap_bytes (pl_covers (p\<lparr>pl_todo := left_of c k # right_of c k # cs\<rparr>) @ pl_todo (p\<lparr>pl_todo := left_of c k # right_of c k # cs\<rparr>)) new
        (snd (pl_start (p\<lparr>pl_todo := left_of c k # right_of c k # cs\<rparr>))) = gap_bytes (pl_covers p @ pl_todo p) new (snd (pl_start p))"
      using clip(2,6,7) by (simp add: gap_bytes_append left_of_def right_of_def)
  qed
  from filled_step [OF r(3) s(3,4) this] show ?case using s(1) r(1,2) z(3) by (simp add: step_fill_loop.simps [of self])
qed

section \<open>Reading the steps\<close>

definition step_const :: "('n, 'o) TStepStream \<Rightarrow> hpatch_TCover list \<times> nat \<times> nat \<times> nat" where
  "step_const self = (ts_covers self, ts_newDataSize self, ts_patchStepMemSize self, ts_readFromPosBack self)"

lemma step_core_read:
  "step_core new old M G False (self\<lparr>ts_readBufPos := n\<rparr>) p = step_core new old M G False self p"
  "step_core new old M G False (self\<lparr>ts_step_buf := b\<rparr>) p = step_core new old M G False self p"
  "step_core new old M G False (self\<lparr>ts_readFromPosBack := n\<rparr>) p = step_core new old M G False self p"
  by (simp_all add: step_core_def)

lemma step_core_streams:
  assumes "step_core new old M G False self p" "sub_good new old st" "clip_good G dd"
  shows "step_core new old M G False (self\<lparr>ts_dataDiff := dd, ts_subDiff := st\<rparr>) p"
  using assms unfolding step_core_def by (elim conjE, intro conjI) simp_all

lemma step_queue_read:
  "step_queue (self\<lparr>ts_readBufPos := n\<rparr>) = step_queue self" "step_queue (self\<lparr>ts_step_buf := b\<rparr>) = step_queue self"
  "step_queue (self\<lparr>ts_readFromPosBack := n\<rparr>) = step_queue self"
  "step_queue (self\<lparr>ts_dataDiff := dd\<rparr>) = step_queue self" "step_queue (self\<lparr>ts_subDiff := st\<rparr>) = step_queue self"
  by (simp_all add: step_queue_def)

lemma step_rel_read:
  assumes "step_rel new old M G False self p" "sub_good new old st" "clip_good G dd"
  shows "step_rel new old M G False (self\<lparr>ts_step_buf := b, ts_dataDiff := dd, ts_subDiff := st, ts_readBufPos := n\<rparr>) p"
proof -
  have "step_core new old M G False (self\<lparr>ts_step_buf := b\<rparr>) p" using assms(1) by (simp add: step_rel_def step_core_read)
  from step_core_streams [OF this assms(2,3)]
  have "step_core new old M G False (self\<lparr>ts_step_buf := b, ts_dataDiff := dd, ts_subDiff := st, ts_readBufPos := n\<rparr>) p"
    by (simp add: step_core_read)
  then show ?thesis using assms(1) by (simp add: step_rel_def step_queue_read)
qed

text \<open>\<open>d\<close> is what is left of the stream.\<close>

definition step_reading :: "byte list \<Rightarrow> byte list \<Rightarrow> nat \<Rightarrow> byte list \<Rightarrow> ('n, 'o) TStepStream \<Rightarrow> byte list \<Rightarrow> bool" where
  "step_reading new old M G self d \<longleftrightarrow>
     (\<exists>p b. step_rel new old M G False self p \<and>
        d = drop (ts_readBufPos self) (ts_step_buf self @ take (streamSize (ts_dataDiff self)) (drop b G)) @
            steps_bytes new (pl_start p) (pl_run (cover_bytes False new old) M p) \<and>
        ts_readBufPos self \<le> step_dataLen self \<and> dd_good new G b (ts_dataDiff self) (ts_readBufPos self - length (ts_step_buf self)) \<and>
        b + streamSize (ts_dataDiff self) = step_pos self)"

lemma fill_result:
  assumes "step_reading new old M G self d" "d \<noteq> []"
  shows "\<exists>self'. step_fill self = Ok (step_dataLen self', self') \<and> step_reading new old M G self' d \<and>
    ts_readBufPos self' < step_dataLen self' \<and> step_const self' = step_const self"
proof (cases "ts_readBufPos self = step_dataLen self")
  case False
  then show ?thesis using assms by (auto simp: step_fill_def step_reading_def Let_def)
next
  case True
  let ?run = "pl_run (cover_bytes False new old) M"
  from assms(1) obtain p b where r: "step_rel new old M G False self p"
      "d = drop (ts_readBufPos self) (ts_step_buf self @ take (streamSize (ts_dataDiff self)) (drop b G)) @ steps_bytes new (pl_start p) (?run p)"
      "dd_good new G b (ts_dataDiff self) (ts_readBufPos self - length (ts_step_buf self))" "b + streamSize (ts_dataDiff self) = step_pos self"
    unfolding step_reading_def by blast
  have d: "d = steps_bytes new (pl_start p) (?run p)" using r(2) True by (simp add: step_dataLen_def)
  with assms(2) obtain s ss where run: "?run p = s # ss" by (cases "?run p") auto
  have src: "nd_good new G (tsc_src (streamImport (ts_dataDiff self))) (step_pos self)"
    using r(3,4) True by (simp add: dd_good_def step_dataLen_def)
  have c: "clip_good G (ts_dataDiff self)" using r(3) by (simp add: dd_good_def)
  define dd where "dd = (ts_dataDiff self)\<lparr>streamSize := 0\<rparr>"
  have clr: "tsc_clear (ts_dataDiff self) = Ok dd" using c by (simp add: tsc_clear_def tsc_closeDecompressHandle_def clip_good_def dd_def)
  have cd: "clip_good G dd" using c by (simp add: clip_good_def dd_def)
  define self1 where "self1 = self\<lparr>ts_step_buf := [], ts_dataDiff := dd, ts_readBufPos := 0\<rparr>"
  have rel: "step_rel new old M G False self1 p" unfolding self1_def
  proof -
    have "sub_good new old (ts_subDiff self)" using r(1) by (simp add: step_rel_def step_core_def)
    from step_rel_read [OF r(1) this cd, where n = 0 and b = "[]"] show
      "step_rel new old M G False (self\<lparr>ts_step_buf := [], ts_dataDiff := dd, ts_readBufPos := 0\<rparr>) p" by (cases self) simp
  qed
  have ok: "plan_ok new old M p" using r(1) by (simp add: step_rel_def step_core_def)
  have z: "ts_step_buf self1 = []" "streamSize (ts_dataDiff self1) = 0" by (simp_all add: self1_def dd_def)
  from fill_loop_result [OF ok rel z run, of "step_dataLen self"] obtain self' where
    f: "step_fill_loop self1 (step_dataLen self) = Ok (step_dataLen self', self')" "0 < step_dataLen self'"
      "filled new old M G (pl_start p) s ss self1 self'" by blast
  have "step_fill self = Ok (step_dataLen self', self')"
    using True clr f(1,2) by (simp add: step_fill_def Let_def self1_def)
  moreover have "step_reading new old M G self' d"
  proof -
    let ?g = "step_gap (fst s) new (snd (pl_start p))" and ?clip = "streamImport (ts_dataDiff self')"
    have pos: "step_pos self1 = step_pos self" "tsc_src (streamImport (ts_dataDiff self1)) = tsc_src (streamImport (ts_dataDiff self))"
      by (simp_all add: self1_def step_pos_def dd_def)
    from f(3) obtain p' where g: "step_rel new old M G False self' p'" "pl_start p' = ends_of (fst s) (pl_start p)" "?run p' = ss"
      "ts_step_buf self' = step_head s (pl_start p)" "streamSize (ts_dataDiff self') = length ?g" "tsc_read_uncompress_pos ?clip = 0"
      "tsc_src ?clip = tsc_src (streamImport (ts_dataDiff self))" "tsc_src_begin ?clip = step_pos self"
      "step_pos self' = step_pos self + length ?g" "step_pos self + length ?g \<le> length G" "take (length ?g) (drop (step_pos self) G) = ?g"
      "step_frame self' = step_frame self1" unfolding filled_def Let_def pos by blast
    have z: "ts_readBufPos self' = 0" using g(12) by (simp add: step_frame_def self1_def)
    have "clip_good G (ts_dataDiff self')" using g(1) by (simp add: step_rel_def step_core_def)
    then have "dd_good new G (step_pos self) (ts_dataDiff self') 0" using g(5-8,10) src by (simp add: dd_good_def)
    moreover have "d = ts_step_buf self' @ take (streamSize (ts_dataDiff self')) (drop (step_pos self) G) @ steps_bytes new (pl_start p') (?run p')"
      unfolding d run g(2-5,11) by simp
    ultimately show ?thesis unfolding step_reading_def
      by (intro exI [of _ p'] exI [of _ "step_pos self"]) (use g(1,5,9) z in simp)
  qed
  moreover have "ts_readBufPos self' < step_dataLen self'" "step_const self' = step_const self"
    using f(2,3) by (simp_all add: filled_def Let_def step_frame_def step_const_def self1_def)
  ultimately show ?thesis by blast
qed

lemma piece_result:
  assumes rd: "step_reading new old M G self d" and len: "0 < len" "ts_readBufPos self + len \<le> step_dataLen self" and G: "length G < 2 ^ 54"
  shows "\<exists>self'. step_piece self len = Ok (take len d, self') \<and> len \<le> length d \<and>
    step_reading new old M G self' (drop len d) \<and> step_const self' = step_const self"
proof -
  let ?run = "pl_run (cover_bytes False new old) M" and ?pos = "ts_readBufPos self" and ?buf = "ts_step_buf self" and ?dd = "ts_dataDiff self"
  define clen where "clen = (if ?pos < length ?buf then if ?pos + len > length ?buf then length ?buf - ?pos else len else 0)"
  have e: "step_piece self len = (if len - clen > 0 then
      rbind (step_read_dataDiff (self\<lparr>ts_readBufPos := ?pos + clen\<rparr>) (?pos + clen - length ?buf) (len - clen)) (\<lambda>(d2, self).
        Ok (take clen (drop ?pos ?buf) @ d2, self\<lparr>ts_readBufPos := ts_readBufPos self + (len - clen)\<rparr>))
      else Ok (take clen (drop ?pos ?buf), self\<lparr>ts_readBufPos := ?pos + clen\<rparr>))"
    unfolding step_piece_def Let_def clen_def [symmetric] by simp
  from rd obtain p b where r: "step_rel new old M G False self p"
      "d = drop ?pos (?buf @ take (streamSize ?dd) (drop b G)) @ steps_bytes new (pl_start p) (?run p)"
      "dd_good new G b ?dd (?pos - length ?buf)" "b + streamSize ?dd = step_pos self"
    unfolding step_reading_def by blast
  have fit: "b + streamSize ?dd \<le> length G" using r(3) by (simp add: dd_good_def)
  have dl: "?pos + len \<le> length ?buf + streamSize ?dd" using len(2) by (simp add: step_dataLen_def)
  have ll: "len \<le> length d" using dl fit r(2) by simp
  have dd: "drop len d = drop (?pos + len) (?buf @ take (streamSize ?dd) (drop b G)) @ steps_bytes new (pl_start p) (?run p)"
  proof -
    have "?pos - length ?buf + (len - (length ?buf - ?pos)) = ?pos + len - length ?buf" by linarith
    then show ?thesis using dl fit unfolding r(2) by (simp add: add.commute)
  qed
  show ?thesis
  proof (cases "len - clen > 0")
    case False
    then have c: "clen = len" "?pos + len \<le> length ?buf" using len(1) by (auto simp: clen_def split: if_splits)
    have "take len (drop ?pos ?buf) = take len d" using c(2) unfolding r(2) by simp
    moreover have "step_reading new old M G (self\<lparr>ts_readBufPos := ?pos + len\<rparr>) (drop len d)"
      unfolding step_reading_def
    proof (intro exI conjI)
      show "step_rel new old M G False (self\<lparr>ts_readBufPos := ?pos + len\<rparr>) p"
        using r(1) by (simp add: step_rel_def step_core_read step_queue_read)
      show "drop len d = drop (ts_readBufPos (self\<lparr>ts_readBufPos := ?pos + len\<rparr>)) (ts_step_buf (self\<lparr>ts_readBufPos := ?pos + len\<rparr>) @
          take (streamSize (ts_dataDiff (self\<lparr>ts_readBufPos := ?pos + len\<rparr>))) (drop b G)) @ steps_bytes new (pl_start p) (?run p)"
        using dd by simp
    qed (use r(3,4) c(2) in \<open>simp_all add: step_dataLen_def step_pos_def\<close>)
    ultimately show ?thesis unfolding e using False c(1) ll by (simp add: step_const_def)
  next
    case True
    then have c: "clen = length ?buf - ?pos" "clen \<le> len" "length ?buf \<le> ?pos + clen" by (auto simp: clen_def split: if_splits)
    let ?self = "self\<lparr>ts_readBufPos := ?pos + clen\<rparr>" and ?k = "?pos + clen - length ?buf"
    have k: "?pos - length ?buf = ?k" using c by simp
    have "dd_good new G b (ts_dataDiff ?self) ?k" using r(3) unfolding k by simp
    moreover have sub: "sub_good new old (ts_subDiff ?self)" using r(1) by (simp add: step_rel_def step_core_def)
    moreover have "?k + (len - clen) \<le> streamSize (ts_dataDiff ?self)" using c dl by simp
    ultimately obtain dd' st where
      q: "step_read_dataDiff ?self ?k (len - clen) = Ok (take (len - clen) (drop (b + ?k) G), ?self\<lparr>ts_dataDiff := dd', ts_subDiff := st\<rparr>)"
        "dd_good new G b dd' (?k + (len - clen))" "sub_good new old st" "streamSize dd' = streamSize ?dd"
      using read_dataDiff_result [OF _ _ G True, of new b ?self ?k old] by auto
    let ?self' = "self\<lparr>ts_dataDiff := dd', ts_subDiff := st, ts_readBufPos := ?pos + len\<rparr>"
    have k': "?k + (len - clen) = ?pos + len - length ?buf" using c True by simp
    have "clip_good G dd'" using q(2) by (simp add: dd_good_def)
    from step_rel_read [OF r(1) q(3) this, where n = "?pos + len" and b = ?buf] have rel: "step_rel new old M G False ?self' p" by (cases self) simp
    have "take clen (drop ?pos ?buf) @ take (len - clen) (drop (b + ?k) G) = take len d"
    proof -
      have "take clen (drop ?pos ?buf) = drop ?pos ?buf" using c by simp
      moreover have "take len d = drop ?pos ?buf @ take (len - clen) (drop ?k (take (streamSize ?dd) (drop b G)))"
        using c dl fit k unfolding r(2) by (simp add: c(1) [symmetric])
      moreover have "take (len - clen) (drop ?k (take (streamSize ?dd) (drop b G))) = take (len - clen) (drop (b + ?k) G)"
        using c dl by (simp add: drop_take add.commute)
      ultimately show ?thesis by simp
    qed
    moreover have "step_reading new old M G ?self' (drop len d)"
      unfolding step_reading_def
    proof (intro exI conjI)
      show "step_rel new old M G False ?self' p" by (rule rel)
      show "drop len d = drop (ts_readBufPos ?self') (ts_step_buf ?self' @ take (streamSize (ts_dataDiff ?self')) (drop b G)) @
          steps_bytes new (pl_start p) (?run p)" using dd q(4) by simp
    qed (use q(2,4) r(4) dl k' in \<open>simp_all add: step_dataLen_def step_pos_def\<close>)
    ultimately show ?thesis unfolding e using True q(1) c(2) ll by (simp add: step_const_def)
  qed
qed

lemma step_readTo_result:
  "step_reading new old M G self d \<Longrightarrow> n \<le> length d \<Longrightarrow> length G < 2 ^ 54 \<Longrightarrow>
   \<exists>self'. step_readTo self n = Ok (take n d, self') \<and> step_reading new old M G self' (drop n d) \<and> step_const self' = step_const self"
proof (induction n arbitrary: self d rule: less_induct)
  case (less n)
  show ?case
  proof (cases "0 < n")
    case False
    then show ?thesis using less.prems by (simp add: step_readTo.simps [of self])
  next
    case True
    then have "d \<noteq> []" using less.prems(2) by auto
    from fill_result [OF less.prems(1) this] obtain self1 where f: "step_fill self = Ok (step_dataLen self1, self1)"
      "step_reading new old M G self1 d" "ts_readBufPos self1 < step_dataLen self1" "step_const self1 = step_const self" by blast
    define len where "len = (if ts_readBufPos self1 + n > step_dataLen self1 then step_dataLen self1 - ts_readBufPos self1 else n)"
    have len: "0 < len" "len \<le> n" "ts_readBufPos self1 + len \<le> step_dataLen self1" using True f(3) by (auto simp: len_def)
    from piece_result [OF f(2) len(1,3) less.prems(3)] obtain self2 where
      p: "step_piece self1 len = Ok (take len d, self2)" "len \<le> length d" "step_reading new old M G self2 (drop len d)"
        "step_const self2 = step_const self1" by blast
    have "n - len < n" "n - len \<le> length (drop len d)" using len(1,2) less.prems(2) by auto
    from less.IH [OF this(1) p(3) this(2) less.prems(3)] obtain self' where
      r: "step_readTo self2 (n - len) = Ok (take (n - len) (drop len d), self')" "step_reading new old M G self' (drop (n - len) (drop len d))"
        "step_const self' = step_const self2" by blast
    have "take len d @ take (n - len) (drop len d) = take n d" using len(2) by (metis le_add_diff_inverse take_add)
    moreover have "drop (n - len) (drop len d) = drop n d" using len(2) by simp
    moreover have "step_readTo self n = Ok (take len d @ take (n - len) (drop len d), self')"
      using True f(1,3) p(1) r(1) unfolding step_readTo.simps [of self n] by (simp add: Let_def len_def [symmetric])
    ultimately show ?thesis using r(2,3) p(4) f(4) by simp
  qed
qed

section \<open>The stream of steps\<close>

text \<open>What a stream needs to be read from its beginning.\<close>

definition step_base :: "byte list \<Rightarrow> byte list \<Rightarrow> nat \<Rightarrow> hpatch_TCover list \<Rightarrow> ('n, 'o) TStepStream \<Rightarrow> bool" where
  "step_base new old M covers self \<longleftrightarrow>
     ts_covers self = covers \<and> ts_newDataSize self = length new \<and> ts_patchStepMemSize self = M \<and>
     sub_good new old (ts_subDiff self) \<and> clip_good (gap_bytes covers new 0) (ts_dataDiff self) \<and>
     nd_good new (gap_bytes covers new 0) (tsc_src (streamImport (ts_dataDiff self))) 0"

lemma gap_small: "covers_good new old M covers \<Longrightarrow> length (gap_bytes covers new 0) < 2 ^ 54"
  using gap_bytes_length_le [of covers 0 new "length old"] by (simp add: covers_good_def)

lemma last_cover_step:
  assumes "covers_good new old M covers"
  shows "\<exists>last. (if covers = [] then Ok (Some \<lparr>oldPos = 0, newPos = length new, coverLength = 0\<rparr>)
             else rbind (cover_at covers (length covers - 1)) (\<lambda>back.
               Ok (if add64 (newPos back) (coverLength back) < length new
                   then Some \<lparr>oldPos = add64 (oldPos back) (coverLength back), newPos = length new, coverLength = 0\<rparr>
                   else None))) = Ok last \<and>
    (case last of None \<Rightarrow> [] | Some c \<Rightarrow> [c]) = step_last covers (length new)"
proof (cases "covers = []")
  case False
  have "covers_fit covers 0 (length new) (length old)" using assms by (simp add: covers_good_def)
  from covers_fit_last [OF this False] have b: "newPos (last covers) + coverLength (last covers) < 2 ^ 64"
    "oldPos (last covers) + coverLength (last covers) < 2 ^ 64" using assms by (auto simp: covers_good_def)
  have "cover_at covers (length covers - 1) = Ok (last covers)" using False by (simp add: cover_at_def last_conv_nth)
  then show ?thesis using False b by (simp add: step_last_def Let_def add64_eq)
qed (simp add: step_last_def)

lemma beginStep_result:
  assumes good: "covers_good new old M covers" and base: "step_base new old M covers self"
  shows "\<exists>self'. step_beginStep self = Ok self' \<and>
    step_rel new old M (gap_bytes covers new 0) (ts_isInInit self) self' (step_plan0 covers (length new)) \<and>
    ts_step_buf self' = [] \<and> streamSize (ts_dataDiff self') = 0 \<and> ts_readBufPos self' = 0 \<and> step_pos self' = 0 \<and>
    step_const self' = step_const self \<and> tsc_src (streamImport (ts_dataDiff self')) = tsc_src (streamImport (ts_dataDiff self)) \<and>
    ts_curMaxStepMemSize self' = 0 \<and> ts_curCoverCount self' = length (covers @ step_last covers (length new)) \<and>
    ts_sumBufSize self' = ts_sumBufSize self \<and> ts_endCoverCount self' = ts_endCoverCount self \<and>
    ts_endMaxStepMemSize self' = ts_endMaxStepMemSize self"
proof -
  let ?G = "gap_bytes covers new 0"
  have b: "ts_covers self = covers" "ts_newDataSize self = length new" "ts_patchStepMemSize self = M" "sub_good new old (ts_subDiff self)"
    "clip_good ?G (ts_dataDiff self)" using base by (simp_all add: step_base_def)
  from last_cover_step [OF good] obtain last where l:
    "(if covers = [] then Ok (Some \<lparr>oldPos = 0, newPos = length new, coverLength = 0\<rparr>)
             else rbind (cover_at covers (length covers - 1)) (\<lambda>back.
               Ok (if add64 (newPos back) (coverLength back) < length new
                   then Some \<lparr>oldPos = add64 (oldPos back) (coverLength back), newPos = length new, coverLength = 0\<rparr>
                   else None))) = Ok last"
    "(case last of None \<Rightarrow> [] | Some c \<Rightarrow> [c]) = step_last covers (length new)" by blast
  define dd where "dd = (ts_dataDiff self)\<lparr>streamSize := 0\<rparr>"
  have clr: "tsc_clear (ts_dataDiff self) = Ok dd" "clip_good ?G dd"
    using b(5) by (simp_all add: tsc_clear_def tsc_closeDecompressHandle_def clip_good_def dd_def)
  have rle: "TSingleStreamRLE0_clear (ts_bufRle self) = TSingleStreamRLE0_init"
    by (cases "ts_bufRle self") (simp add: TSingleStreamRLE0_clear_def TSingleStreamRLE0_init_def)
  define self' where "self' = self\<lparr>ts_isHaveLeftCover := False, ts_isHaveRightCover := False, ts_isHaveLastCover := last \<noteq> None,
               ts_lastCover := (case last of None \<Rightarrow> ts_lastCover self | Some c \<Rightarrow> c),
               ts_curCoverCount := length covers + (if last \<noteq> None then 1 else 0),
               ts_step_buf := [], ts_dataDiff := dd, ts_readBufPos := 0, ts_curMaxStepMemSize := 0,
               ts_lastOldEnd := 0, ts_lastNewEnd := 0, ts_bufCover := [], ts_bufCover_size := 0,
               ts_bufRle := TSingleStreamRLE0_init, ts_dataDiffSize := 0, ts_newDataDiffReadPos := 0,
               ts_cur_i := 0, ts_pCurCover := None\<rparr>"
  have e: "step_beginStep self = Ok self'"
    unfolding step_beginStep_def Let_def b(1,2) l(1) clr(1) rle rbind.simps self'_def by simp
  have "step_core new old M ?G (ts_isInInit self) self' (step_plan0 covers (length new))"
    using plan0_ok [OF good] gap_small [OF good] gap_bytes_plan0 [OF good] b(3,4) clr(2)
    by (simp add: step_core_def self'_def pl_ends_def pl_code_def) (simp add: step_plan0_def)
  moreover have "step_queue self' = covers @ step_last covers (length new)"
    using l(2) b(1) by (cases last) (simp_all add: step_queue_def self'_def)
  moreover have "length covers + (if last \<noteq> None then 1 else 0) = length (covers @ step_last covers (length new))"
    unfolding l(2) [symmetric] by (cases last) simp_all
  ultimately show ?thesis using e
    by (simp add: step_rel_def step_plan0_def self'_def step_pos_def step_const_def dd_def)
qed

lemma beginStep_reading:
  assumes good: "covers_good new old M covers" and base: "step_base new old M covers self" and init: "\<not> ts_isInInit self"
  shows "\<exists>self'. step_beginStep self = Ok self' \<and>
    step_reading new old M (gap_bytes covers new 0) self' (steps_bytes new (0, 0) (step_list new old M covers)) \<and>
    step_const self' = step_const self \<and> ts_sumBufSize self' = ts_sumBufSize self \<and>
    ts_endCoverCount self' = ts_endCoverCount self \<and> ts_endMaxStepMemSize self' = ts_endMaxStepMemSize self"
proof -
  from beginStep_result [OF good base] init obtain self' where s: "step_beginStep self = Ok self'"
    "step_rel new old M (gap_bytes covers new 0) False self' (step_plan0 covers (length new))"
    "ts_step_buf self' = []" "streamSize (ts_dataDiff self') = 0" "ts_readBufPos self' = 0" "step_pos self' = 0"
    "step_const self' = step_const self" "tsc_src (streamImport (ts_dataDiff self')) = tsc_src (streamImport (ts_dataDiff self))"
    "ts_sumBufSize self' = ts_sumBufSize self" "ts_endCoverCount self' = ts_endCoverCount self"
    "ts_endMaxStepMemSize self' = ts_endMaxStepMemSize self" by auto
  have "clip_good (gap_bytes covers new 0) (ts_dataDiff self')" using s(2) by (simp add: step_rel_def step_core_def)
  then have "dd_good new (gap_bytes covers new 0) 0 (ts_dataDiff self') 0" using base s(4,8) by (simp add: dd_good_def step_base_def)
  then have "step_reading new old M (gap_bytes covers new 0) self' (steps_bytes new (0, 0) (step_list new old M covers))"
    unfolding step_reading_def
    by (intro exI [of _ "step_plan0 covers (length new)"] exI [of _ 0]) (use s(2-6) in \<open>simp add: step_list_def step_plan0_def\<close>)
  then show ?thesis using s by blast
qed

lemma reading_base:
  assumes "step_reading new old M (gap_bytes covers new 0) self d" "ts_covers self = covers" "ts_newDataSize self = length new"
  shows "step_base new old M covers self" "\<not> ts_isInInit self"
proof -
  from assms(1) obtain p b pos where r: "step_rel new old M (gap_bytes covers new 0) False self p"
    "dd_good new (gap_bytes covers new 0) b (ts_dataDiff self) pos" unfolding step_reading_def by blast
  then have "nd_good new (gap_bytes covers new 0) (tsc_src (streamImport (ts_dataDiff self))) (b + pos)" by (simp add: dd_good_def)
  from nd_good_0 [OF this] r(1) assms(2,3) show "step_base new old M covers self" "\<not> ts_isInInit self"
    by (simp_all add: step_base_def step_rel_def step_core_def)
qed

definition step_rsok :: "byte list \<Rightarrow> byte list \<Rightarrow> nat \<Rightarrow> hpatch_TCover list \<Rightarrow> ('n, 'o) TStepStream hpatch_TStreamInput \<Rightarrow> nat \<Rightarrow> bool" where
  "step_rsok new old M covers st pos \<longleftrightarrow>
     (let self = streamImport st; W = step_whole new old M covers in
      covers_good new old M covers \<and> read st = step_read \<and> streamSize st = length W \<and>
      step_base new old M covers self \<and> \<not> ts_isInInit self \<and>
      (pos = 0 \<and> ts_readFromPosBack self \<noteq> 0 \<or>
       ts_readFromPosBack self = pos \<and> step_reading new old M (gap_bytes covers new 0) self (drop pos W)))"

lemma step_replay: "replay_stream (step_rsok new old M covers) (\<lambda>_. step_whole new old M covers)"
proof
  fix st :: "('n, 'o) TStepStream hpatch_TStreamInput" and pos len :: nat
  let ?W = "step_whole new old M covers" and ?G = "gap_bytes covers new 0" and ?self = "streamImport st"
  assume st: "step_rsok new old M covers st pos" and len: "0 < len" "pos + len \<le> length ?W"
  then have good: "covers_good new old M covers" and b: "step_base new old M covers ?self" "\<not> ts_isInInit ?self"
    and sz: "read st = step_read" "streamSize st = length ?W"
    by (simp_all add: step_rsok_def Let_def)
  have G: "length ?G < 2 ^ 54" by (rule gap_small [OF good])
  obtain self1 where s1: "(if pos \<noteq> ts_readFromPosBack ?self then rbind (check (pos = 0)) (\<lambda>_. step_beginStep ?self) else Ok ?self) = Ok self1"
    "step_reading new old M ?G self1 (drop pos ?W)" "ts_covers self1 = covers" "ts_newDataSize self1 = length new"
  proof (cases "pos = ts_readFromPosBack ?self")
    case True
    then show ?thesis using st b by (intro that [of ?self]) (auto simp: step_rsok_def Let_def step_base_def)
  next
    case False
    then have z: "pos = 0" using st by (auto simp: step_rsok_def Let_def)
    from beginStep_reading [OF good b] obtain self' where "step_beginStep ?self = Ok self'" "step_reading new old M ?G self' ?W"
      "step_const self' = step_const ?self" by (auto simp: step_whole_def)
    then show ?thesis using False z b(1) by (intro that [of self']) (simp_all add: step_const_def step_base_def)
  qed
  define self2 where "self2 = self1\<lparr>ts_readFromPosBack := pos + len\<rparr>"
  have rd: "step_reading new old M ?G self2 (drop pos ?W)"
    using s1(2) by (simp add: step_reading_def self2_def step_rel_def step_core_read step_queue_read step_dataLen_def step_pos_def)
  have "len \<le> length (drop pos ?W)" using len by simp
  from step_readTo_result [OF rd this G] obtain self' where r: "step_readTo self2 len = Ok (take len (drop pos ?W), self')"
    "step_reading new old M ?G self' (drop len (drop pos ?W))" "step_const self' = step_const self2" by blast
  have c: "ts_covers self' = covers" "ts_newDataSize self' = length new" "ts_readFromPosBack self' = pos + len"
    using r(3) s1(3,4) by (simp_all add: step_const_def self2_def)
  define st' where "st' = st\<lparr>streamImport := self'\<rparr>"
  have "sread st pos len = Ok (take len (drop pos ?W), st')"
    unfolding sread_def sz(1) step_read_def s1(1) rbind.simps self2_def [symmetric] r(1) by (simp add: st'_def)
  moreover have "step_rsok new old M covers st' (pos + len)"
    using reading_base [OF r(2) c(1,2)] r(2) c(3) good sz by (simp add: step_rsok_def Let_def st'_def add.commute)
  ultimately show "\<exists>st'. sread st pos len = Ok (take len (drop pos ?W), st') \<and> step_rsok new old M covers st' (pos + len) \<and> ?W = ?W"
    by blast
next
  fix st :: "('n, 'o) TStepStream hpatch_TStreamInput" and pos :: nat
  assume "step_rsok new old M covers st pos"
  then show "step_rsok new old M covers st 0" by (auto simp: step_rsok_def Let_def)
next
  fix st :: "('n, 'o) TStepStream hpatch_TStreamInput" and pos :: nat
  assume st: "step_rsok new old M covers st pos"
  then have g: "covers_good new old M covers" by (simp add: step_rsok_def Let_def)
  then have "length new < 2 ^ 54" by (simp add: covers_good_def)
  then have "length (step_whole new old M covers) < 2 ^ 63" using step_list_bytes [OF g] by (simp add: step_whole_def)
  then show "streamSize st = length (step_whole new old M covers) \<and> length (step_whole new old M covers) < 2 ^ 63"
    using st by (simp add: step_rsok_def Let_def)
qed

lemma step_initStream_result:
  fixes self0 :: "('n, 'o) TStepStream"
  assumes good: "covers_good new old M covers" and base: "step_base new old M covers self0"
  shows "\<exists>self'. step_initStream self0 = Ok self' \<and>
    step_reading new old M (gap_bytes covers new 0) self' (step_whole new old M covers) \<and> step_const self' = step_const self0 \<and>
    ts_sumBufSize self' = length (step_whole new old M covers) \<and> ts_endCoverCount self' = steps_count (step_list new old M covers) \<and>
    ts_endMaxStepMemSize self' = steps_mem (0, 0) (step_list new old M covers)"
proof -
  let ?G = "gap_bytes covers new 0" and ?p = "step_plan0 covers (length new)" and ?ss = "step_list new old M covers"
  let ?self0 = "self0\<lparr>ts_isInInit := True, ts_sumBufSize := 0\<rparr>"
  have "step_base new old M covers ?self0" using base by (simp add: step_base_def)
  from beginStep_result [OF good this] obtain self1 where b: "step_beginStep ?self0 = Ok self1" "step_rel new old M ?G True self1 ?p"
    "step_const self1 = step_const ?self0" "tsc_src (streamImport (ts_dataDiff self1)) = tsc_src (streamImport (ts_dataDiff self0))"
    "ts_curMaxStepMemSize self1 = 0" "ts_curCoverCount self1 = length (covers @ step_last covers (length new))" "ts_sumBufSize self1 = 0"
    by auto
  have p0: "pl_start ?p = (0, 0)" "pl_covers ?p = []" "pl_todo ?p = covers @ step_last covers (length new)" by (simp_all add: step_plan0_def)
  have run: "pl_run (cover_bytes False new old) M ?p = ?ss" by (simp add: step_list_def)
  have "length new < 2 ^ 54" using good by (simp add: covers_good_def)
  then have "ts_sumBufSize self1 + length (steps_bytes new (pl_start ?p) (pl_run (cover_bytes False new old) M ?p)) < 2 ^ 64"
    using step_list_bytes [OF good] by (simp add: b(7) p0 run)
  from init_loop_result [OF plan0_ok [OF good] b(2) this] obtain self2 where
    l: "step_init_loop self1 = Ok self2" "init_done new old ?G (0, 0) ?ss (length (covers @ step_last covers (length new))) self1 self2"
    unfolding p0 run by auto
  then have d: "ts_sumBufSize self2 = length (step_whole new old M covers)" "ts_curMaxStepMemSize self2 = steps_mem (0, 0) ?ss"
    "ts_curCoverCount self2 = steps_count ?ss" "step_const self2 = step_const self0" "sub_good new old (ts_subDiff self2)" "clip_good ?G (ts_dataDiff self2)"
    "tsc_src (streamImport (ts_dataDiff self2)) = tsc_src (streamImport (ts_dataDiff self0))"
    using b by (auto simp: init_done_def step_frame_def step_const_def step_whole_def)
  define self3 where "self3 = self2\<lparr>ts_isInInit := False, ts_endCoverCount := ts_curCoverCount self2, ts_endMaxStepMemSize := ts_curMaxStepMemSize self2\<rparr>"
  have "step_base new old M covers self3" using base d(4-7) by (simp add: step_base_def self3_def step_const_def)
  moreover have "\<not> ts_isInInit self3" by (simp add: self3_def)
  ultimately obtain self' where r: "step_beginStep self3 = Ok self'" "step_reading new old M ?G self' (step_whole new old M covers)"
    "step_const self' = step_const self3" "ts_sumBufSize self' = ts_sumBufSize self3" "ts_endCoverCount self' = ts_endCoverCount self3"
    "ts_endMaxStepMemSize self' = ts_endMaxStepMemSize self3" using beginStep_reading [OF good] unfolding step_whole_def by blast
  have "step_initStream self0 = Ok self'" using b(1) l(1) r(1) by (simp add: step_initStream_def self3_def)
  then show ?thesis using r d by (simp add: self3_def step_const_def)
qed

lemma TStepStream_make_result:
  assumes good: "covers_good new old M covers"
    and files: "nok newStream" "ncont newStream = new" "ook oldStream" "ocont oldStream = old"
  shows "\<exists>st. TStepStream_make newStream oldStream False covers M = Ok st \<and> step_rsok new old M covers st 0 \<and>
    ts_endCoverCount (streamImport st) = steps_count (step_list new old M covers) \<and>
    ts_endMaxStepMemSize (streamImport st) = steps_mem (0, 0) (step_list new old M covers)"
proof -
  let ?G = "gap_bytes covers new 0"
  have fit: "covers_fit covers 0 (length new) (length old)" "length new < 2 ^ 63" using good by (simp_all add: covers_good_def)
  have sz: "streamSize newStream = length new" using n.contents_size [OF files(1)] files(2) by auto
  let ?nd = "newDataDiff_stream covers newStream 0 0 (length ?G)"
  have nd: "TNewDataDiffStream_make covers newStream = Ok ?nd" using getDataSize_result [OF fit(1)] sz by (simp add: TNewDataDiffStream_make_def)
  have ndg: "nd_good new ?G ?nd 0"
    using n.newDataDiff_stream_rsok [OF files(1), of covers "length old"] fit files(2)
    by (simp add: nd_good_def newDataDiff_stream_def)
  let ?no = "\<lparr>oldPos = 0, newPos = 0, coverLength = 0\<rparr>"
  define self0 where "self0 = \<lparr>ts_subDiff = TNewDataSubDiffCoverStream_make newStream oldStream False, ts_covers = covers,
         ts_patchStepMemSize = M, ts_newDataSize = length new, ts_curCoverCount = 0, ts_endCoverCount = 0,
         ts_curMaxStepMemSize = 0, ts_endMaxStepMemSize = 0, ts_lastOldEnd = 0, ts_lastNewEnd = 0, ts_bufCover = [],
         ts_bufRle = TSingleStreamRLE0_init, ts_dataDiffSize = 0, ts_newDataDiffReadPos = 0, ts_isHaveLastCover = False,
         ts_isHaveLeftCover = False, ts_isHaveRightCover = False, ts_lastCover = ?no, ts_leftCover = ?no, ts_rightCover = ?no,
         ts_cur_i = 0, ts_cover = ?no, ts_pCurCover = None, ts_isInInit = True, ts_sumBufSize = 0, ts_bufCover_size = 0,
         ts_step_buf = [], ts_dataDiff = TStreamClip_init ?nd, ts_readFromPosBack = 0, ts_readBufPos = 0\<rparr>"
  have "step_base new old M covers self0"
    using files ndg by (simp add: step_base_def self0_def sub_good_def clip_good_def dc_files_def TNewDataSubDiffCoverStream_make_def
        subCover_initRead_def Let_def TStreamClip_init_def newDataDiff_stream_def)
  from step_initStream_result [OF good this] obtain self where s: "step_initStream self0 = Ok self"
    "step_reading new old M ?G self (step_whole new old M covers)" "step_const self = step_const self0"
    "ts_sumBufSize self = length (step_whole new old M covers)" "ts_endCoverCount self = steps_count (step_list new old M covers)"
    "ts_endMaxStepMemSize self = steps_mem (0, 0) (step_list new old M covers)" by blast
  define st where "st = \<lparr>streamImport = self, streamSize = ts_sumBufSize self, read = step_read\<rparr>"
  have "TStepStream_make newStream oldStream False covers M = Ok st"
    unfolding TStepStream_make_def nd Let_def rbind.simps sz self0_def [symmetric] s(1) by (simp add: st_def)
  moreover have "step_rsok new old M covers st 0"
    using reading_base [OF s(2)] s(2-4) good by (simp add: step_rsok_def Let_def st_def step_const_def self0_def)
  ultimately show ?thesis using s(5,6) by (simp add: st_def)
qed

end

end
