(* ===== verification/SingleSave.thy ===== *)
theory SingleSave
  imports StepRead SingleDiff
begin

text \<open>
  Creating single-stream diffs: \<open>serialize_single_compressed_diff\<close> and \<open>create_single_compressed_diff\<close>
  of \<open>diff.cpp\<close>.  A diff is a head and the stream of steps, compressed when that makes it shorter.
\<close>

section \<open>The code\<close>

definition serialize_single_compressed_diff ::
  "'n hpatch_TStreamInput \<Rightarrow> 'o hpatch_TStreamInput \<Rightarrow> bool \<Rightarrow> hpatch_TCover list \<Rightarrow> 'w hpatch_TStreamOutput \<Rightarrow>
   hdiff_TCompress option \<Rightarrow> nat \<Rightarrow> 'w hpatch_TStreamOutput res" where
  "serialize_single_compressed_diff newStream oldStream isZeroSubDiff covers out_diff compressPlugin patchStepMemSize =
     rbind (check (patchStepMemSize \<ge> hpatch_kStreamCacheSize)) (\<lambda>_.
     let newSize = streamSize newStream; oldSize = streamSize oldStream;
         patchStepMemSize = (if patchStepMemSize > newSize then
             if newSize < hpatch_kStreamCacheSize then hpatch_kStreamCacheSize else newSize
           else patchStepMemSize) in
     rbind (TStepStream_make newStream oldStream isZeroSubDiff covers patchStepMemSize) (\<lambda>stepStream.
     rbind (outType [] compressPlugin kSingleVersionType) (\<lambda>out_type.
     rbind (ds_pushBack \<lparr>ds_out_diff = out_diff, ds_writePos = 0\<rparr> out_type) (\<lambda>outDiff.
     rbind (ds_packUInt outDiff newSize) (\<lambda>outDiff.
     rbind (ds_packUInt outDiff oldSize) (\<lambda>outDiff.
     rbind (ds_packUInt outDiff (ts_endCoverCount (streamImport stepStream))) (\<lambda>outDiff.
     rbind (ds_packUInt outDiff (ts_endMaxStepMemSize (streamImport stepStream))) (\<lambda>outDiff.
     rbind (ds_packUInt outDiff (streamSize stepStream)) (\<lambda>outDiff.
     rbind (ds_packUInt_pos outDiff (if compressPlugin \<noteq> None then streamSize stepStream else 0)) (\<lambda>(compressed_sizePos, outDiff).
     rbind (ds_pushStream outDiff stepStream compressPlugin compressed_sizePos False 0) (\<lambda>(_, outDiff, _).
     Ok (ds_out_diff outDiff))))))))))))"

text \<open>\<open>create_single_compressed_diff\<close> into a vector, without a listener.\<close>

definition create_single_compressed_diff ::
  "(byte list \<Rightarrow> byte list \<Rightarrow> hpatch_TCover list) \<Rightarrow> byte list \<Rightarrow> byte list \<Rightarrow> byte list \<Rightarrow> hdiff_TCompress option \<Rightarrow> nat \<Rightarrow> byte list res" where
  "create_single_compressed_diff search newData oldData out_diff compressPlugin patchStepMemSize =
     rbind (get_diff_default newData oldData (search newData oldData)) (\<lambda>covers.
     rbind (serialize_single_compressed_diff (mem_as_hStreamInput newData) (mem_as_hStreamInput oldData) False covers
              (TVectorAsStreamOutput out_diff) compressPlugin patchStepMemSize) (\<lambda>outDiffStream.
     Ok (ostreamImport outDiffStream)))"

section \<open>The head\<close>

record single_sizes =
  ns_new :: nat
  ns_old :: nat
  ns_count :: nat
  ns_mem :: nat
  ns_steps :: nat

definition ssizes_ok :: "single_sizes \<Rightarrow> bool" where
  "ssizes_ok z \<longleftrightarrow> ns_new z < 2 ^ 64 \<and> ns_old z < 2 ^ 64 \<and> ns_count z < 2 ^ 64 \<and> ns_mem z < 2 ^ 64 \<and> ns_steps z < 2 ^ 64"

definition single_head :: "hdiff_TCompress option \<Rightarrow> single_sizes \<Rightarrow> byte list" where
  "single_head P z = (kSingleVersionType @ [0x26] @ plugin_type P @ [0]) @ pack_code (ns_new z) 0 0 @ pack_code (ns_old z) 0 0 @
     pack_code (ns_count z) 0 0 @ pack_code (ns_mem z) 0 0 @ pack_code (ns_steps z) 0 0"

lemma single_head_parses:
  assumes z: "ssizes_ok z" and P: "type_ok P" and q: "codes q n"
    and ok: "n \<le> ns_steps z" "ns_mem z \<le> ns_steps z" "ns_mem z \<le> max (ns_new z) kStepMemSizeSafeLimit"
  shows "parse_single (single_head P z @ q @ rest) = Ok \<lparr>si_newDataSize = ns_new z, si_oldDataSize = ns_old z,
      si_uncompressedSize = ns_steps z, si_compressedSize = n, si_diffDataPos = length (single_head P z @ q),
      si_coverCount = ns_count z, si_stepMemSize = ns_mem z, si_compressType = plugin_type P\<rparr>"
proof -
  have u: "unpack_by Streaming (pack_code v 0 0 @ r) 0 = Ok (v, r)" if "v < 2 ^ 64" for v r using unpack_pack_code [OF that] by simp
  have uz: "unpack_by Streaming (pack_code (ns_new z) 0 0 @ r) 0 = Ok (ns_new z, r)" "unpack_by Streaming (pack_code (ns_old z) 0 0 @ r) 0 = Ok (ns_old z, r)"
      "unpack_by Streaming (pack_code (ns_count z) 0 0 @ r) 0 = Ok (ns_count z, r)" "unpack_by Streaming (pack_code (ns_mem z) 0 0 @ r) 0 = Ok (ns_mem z, r)"
      "unpack_by Streaming (pack_code (ns_steps z) 0 0 @ r) 0 = Ok (ns_steps z, r)" "unpack_by Streaming (q @ r) 0 = Ok (n, r)" for r
    using z u q by (simp_all add: ssizes_ok_def codes_def)
  have v: "read_str (kSingleVersionType @ 0x26 # r) 0x26 = Ok (kSingleVersionType, r)" "c_str kSingleVersionType = kSingleVersionType" for r
    by (rule read_str_append) (simp_all add: kSingleVersionType_def hpatch_kMaxPluginTypeLength_def c_str_def)
  have t: "read_str (plugin_type P @ 0 # r) 0 = Ok (plugin_type P, r)" for r
    by (rule read_str_append [OF plugin_type_no_zero]) (use P in \<open>simp add: type_ok_def\<close>)
  have limit: "\<not> ns_mem z > (if ns_new z \<ge> kStepMemSizeSafeLimit then ns_new z else kStepMemSizeSafeLimit)" using ok(3) by auto
  show ?thesis unfolding single_head_def
    using ok(1,2) limit by (simp add: parse_single_def v t uz check_def del: unpack_by_Memory)
qed

context update_stream begin

lemma single_write_head_result:
  assumes ds: "ds_holds ds [] []" and z: "ssizes_ok z" and P: "type_ok P"
  defines "q \<equiv> pack_code (if P = None then 0 else ns_steps z) 0 0"
  shows "\<exists>t d0 d1 d2 d3 d4 d5 d6. outType [] P kSingleVersionType = Ok t \<and> ds_pushBack ds t = Ok d0 \<and> ds_packUInt d0 (ns_new z) = Ok d1 \<and>
    ds_packUInt d1 (ns_old z) = Ok d2 \<and> ds_packUInt d2 (ns_count z) = Ok d3 \<and> ds_packUInt d3 (ns_mem z) = Ok d4 \<and>
    ds_packUInt d4 (ns_steps z) = Ok d5 \<and> ds_packUInt_pos d5 (if P \<noteq> None then ns_steps z else 0) = Ok (place (single_head P z) q, d6) \<and>
    ds_holds d6 (single_head P z @ q) [] \<and> length (single_head P z @ q) \<le> 366 \<and> 0 < length (single_head P z)"
proof -
  let ?t = "kSingleVersionType @ [0x26] @ plugin_type P @ [0]"
  have zb: "ns_new z < 2 ^ 64" "ns_old z < 2 ^ 64" "ns_count z < 2 ^ 64" "ns_mem z < 2 ^ 64" "ns_steps z < 2 ^ 64"
    using z by (simp_all add: ssizes_ok_def)
  have ty: "outType [] P kSingleVersionType = Ok ?t" by (rule outType_result [OF P]) (simp add: kSingleVersionType_def)
  have tl: "length ?t \<le> 300" using P by (simp add: type_ok_def hpatch_kMaxPluginTypeLength_def kSingleVersionType_def)
  obtain d0 where d0: "ds_pushBack ds ?t = Ok d0" "ds_end d0 ?t 300"
    using ds_pushBack_result [OF ds, of ?t] tl by (auto simp: ds_end_def)
  obtain d1 where d1: "ds_packUInt d0 (ns_new z) = Ok d1" "ds_end d1 (?t @ pack_code (ns_new z) 0 0) 311"
    using ds_pack_step [OF d0(2) zb(1)] by auto
  obtain d2 where d2: "ds_packUInt d1 (ns_old z) = Ok d2" "ds_end d2 ((?t @ pack_code (ns_new z) 0 0) @ pack_code (ns_old z) 0 0) 322"
    using ds_pack_step [OF d1(2) zb(2)] by auto
  obtain d3 where d3: "ds_packUInt d2 (ns_count z) = Ok d3"
      "ds_end d3 (((?t @ pack_code (ns_new z) 0 0) @ pack_code (ns_old z) 0 0) @ pack_code (ns_count z) 0 0) 333"
    using ds_pack_step [OF d2(2) zb(3)] by auto
  obtain d4 where d4: "ds_packUInt d3 (ns_mem z) = Ok d4"
      "ds_end d4 ((((?t @ pack_code (ns_new z) 0 0) @ pack_code (ns_old z) 0 0) @ pack_code (ns_count z) 0 0) @ pack_code (ns_mem z) 0 0) 344"
    using ds_pack_step [OF d3(2) zb(4)] by auto
  obtain d5 where d5: "ds_packUInt d4 (ns_steps z) = Ok d5" "ds_end d5 (single_head P z) 355"
    using ds_pack_step [OF d4(2) zb(5)] by (auto simp: single_head_def)
  define v where "v = (if P \<noteq> None then ns_steps z else 0)"
  have v: "v < 2 ^ 64" "pack_code v 0 0 = q" using zb(5) by (simp_all add: v_def q_def)
  obtain d6 where d6: "ds_packUInt_pos d5 v = Ok (place (single_head P z) q, d6)" "ds_end d6 (single_head P z @ q) 366"
    using ds_pack_pos_step [OF d5(2) v(1)] by (auto simp: place_def v(2))
  show ?thesis
    by (intro exI conjI, rule ty, rule d0(1), rule d1(1), rule d2(1), rule d3(1), rule d4(1), rule d5(1), rule d6(1) [unfolded v_def])
      (use d6(2) in \<open>simp_all add: ds_end_def single_head_def\<close>)
qed

end

section \<open>What is written means the new data\<close>

text \<open>What a single-stream diff means: the new data, if a decompressor can open what is compressed.\<close>

definition single_spec :: "(byte list \<Rightarrow> bool) \<Rightarrow> (nat \<Rightarrow> byte list \<Rightarrow> byte list option) \<Rightarrow> byte list \<Rightarrow> byte list \<Rightarrow> byte list option" where
  "single_spec can unz old d =
     (case parse_single d of
        Ok info \<Rightarrow>
          if (si_compressedSize info = 0 \<or> can (si_compressType info)) \<and> si_oldDataSize info = length old \<and>
             si_diffDataPos info + section_size (si_uncompressedSize info) (si_compressedSize info) = length d
          then Option.bind (code_section unz d (si_diffDataPos info) (si_uncompressedSize info) (si_compressedSize info)) (\<lambda>steps.
            case ss_spec old (si_stepMemSize info) sspatch_covers_init steps (si_coverCount info) of
              Some new \<Rightarrow> if length new = si_newDataSize info then Some new else None
            | None \<Rightarrow> None)
          else None
      | _ \<Rightarrow> None)"

lemma steps_mem_bytes: "steps_mem e ss \<le> length (steps_bytes new e ss)"
proof (induction ss arbitrary: e)
  case (Cons s ss)
  from Cons.IH [of "ends_of (fst s) e"] show ?case by (simp add: step_mem_def step_head_def)
qed simp

lemma cover_code_count: "covers_fit cs (snd e) n m \<Longrightarrow> fst e \<le> m \<Longrightarrow> m < 2 ^ 64 \<Longrightarrow> length cs \<le> length (cover_code cs (fst e) (snd e))"
proof (induction cs arbitrary: e)
  case (Cons c cs)
  have "0 < length (inc_code (oldPos c) (fst e))" using inc_code_length [of "oldPos c" "fst e"] Cons.prems by simp
  moreover have "length cs \<le> length (cover_code cs (oldPos c + coverLength c) (newPos c + coverLength c))"
    using Cons.IH [of "(oldPos c + coverLength c, newPos c + coverLength c)"] Cons.prems by simp
  ultimately show ?case by (simp del: length_greater_0_conv)
qed simp

lemma steps_count_bytes: "steps_ok new old M e ss \<Longrightarrow> fst e \<le> length old \<Longrightarrow> length old < 2 ^ 64 \<Longrightarrow>
    steps_count ss \<le> length (steps_bytes new e ss)"
proof (induction ss arbitrary: e)
  case Nil
  then show ?case by (simp add: steps_count_def)
next
  case (Cons s ss)
  have f: "covers_fit (fst s) (snd e) (length new) (length old)" "steps_ok new old M (ends_of (fst s) e) ss" using Cons.prems(1) by auto
  have "fst (ends_of (fst s) e) \<le> length old" using ends_of_le [OF f(1) Cons.prems(2)] by simp
  from Cons.IH [OF f(2) this Cons.prems(3)] cover_code_count [OF f(1) Cons.prems(2,3)] show ?case
    by (simp add: steps_count_def step_head_def)
qed

lemma step_list_ok: "covers_good new old M covers \<Longrightarrow> steps_ok new old M (0, 0) (step_list new old M covers)"
  using pl_run_ok [OF plan0_ok] by (simp add: step_list_def step_plan0_def)

lemma step_list_means:
  assumes good: "covers_good new old M covers"
  shows "ss_spec old (steps_mem (0, 0) (step_list new old M covers)) sspatch_covers_init (step_whole new old M covers)
      (steps_count (step_list new old M covers)) = Some new"
proof -
  let ?ss = "step_list new old M covers"
  have ok: "steps_ok new old (steps_mem (0, 0) ?ss) (0, 0) ?ss" by (rule steps_mem_ok [OF step_list_ok [OF good] order_refl])
  have sz: "length new < 2 ^ 54" "length old < 2 ^ 64" "M < 2 ^ 62" using good by (simp_all add: covers_good_def)
  have c: "steps_count ?ss < 2 ^ 64"
    using steps_count_bytes [OF step_list_ok [OF good]] step_list_bytes [OF good] sz by simp
  have m: "steps_mem (0, 0) ?ss < 2 ^ 64" using steps_mem_le [OF step_list_ok [OF good]] sz(3) by simp
  have "sc_ends sspatch_covers_init = (0, 0)" by (simp add: sc_ends_def sspatch_covers_init_def)
  from ss_spec_steps [OF ok this _ less_54_64 [OF sz(1)] sz(2) c m] show ?thesis by (simp add: step_whole_def)
qed

lemma single_read_back:
  assumes good: "covers_good new old M covers" and P: "type_ok P" and q: "codes q n" "P = None \<longrightarrow> n = 0"
    and sec: "section_ok unz (step_whole new old M covers) n sec" and can: "P \<noteq> None \<longrightarrow> can (plugin_type P)"
    and M: "M \<le> max (length new) kStepMemSizeSafeLimit"
    and z: "ns_new z = length new" "ns_old z = length old" "ns_count z = steps_count (step_list new old M covers)"
      "ns_mem z = steps_mem (0, 0) (step_list new old M covers)" "ns_steps z = length (step_whole new old M covers)" "ssizes_ok z"
  shows "single_spec can unz old (single_head P z @ q @ sec) = Some new"
    and "\<exists>info. parse_single (single_head P z @ q @ sec) = Ok info \<and> si_stepMemSize info \<le> M"
proof -
  let ?W = "step_whole new old M covers" and ?d = "single_head P z @ q @ sec"
  have "n \<le> ns_steps z" "ns_mem z \<le> ns_steps z" "ns_mem z \<le> max (ns_new z) kStepMemSizeSafeLimit"
    using section_ok_size [OF sec] steps_mem_bytes steps_mem_le [OF step_list_ok [OF good]] M z(1,4,5)
    by (auto simp: step_whole_def)
  note parse = single_head_parses [OF z(6) P q(1) this, of sec]
  have cs: "code_section unz ?d (length (single_head P z @ q)) (length ?W) n = Some ?W"
    using section_ok_code [OF sec, of "single_head P z @ q" "[]"] by simp
  have ss: "section_size (length ?W) n = length sec" by (rule section_ok_section_size [OF sec])
  have "n = 0 \<or> can (plugin_type P)" using q(2) can by blast
  then show "single_spec can unz old ?d = Some new" using cs ss step_list_means [OF good] z by (simp add: single_spec_def parse)
  show "\<exists>info. parse_single ?d = Ok info \<and> si_stepMemSize info \<le> M"
    using parse steps_mem_le [OF step_list_ok [OF good]] z(4) by simp
qed

context diffz_writer begin

lemma step_push: "push_streams (step_rsok new old M covers) (\<lambda>_. step_whole new old M covers) uok ucont"
  by (intro push_streams.intro step_replay u.update_stream_axioms)

lemma serialize_single_result:
  assumes st: "nok newData" "ook oldData" "uok out" "ucont out = []"
    and files: "ncont newData = new" "ocont oldData = old"
    and fit: "covers_fit covers 0 (length new) (length old)" "\<forall>c \<in> set covers. 0 < coverLength c"
    and P: "type_ok P" "pred_option (\<lambda>p. compress_ok p unz) P"
    and small: "length new < 2 ^ 54" "4096 \<le> M"
  shows "\<exists>out' d. serialize_single_compressed_diff newData oldData False covers out P M = Ok out' \<and> uok out' \<and> ucont out' = d \<and>
    length d < 2 ^ 62 \<and> (\<forall>can. (P \<noteq> None \<longrightarrow> can (plugin_type P)) \<longrightarrow> single_spec can unz old d = Some new) \<and>
    (\<exists>info. parse_single d = Ok info \<and> si_stepMemSize info \<le> M)"
proof -
  have szs: "streamSize newData = length new" "streamSize oldData = length old" "length old < 2 ^ 64"
    using n.contents_size [OF st(1)] o.contents_size [OF st(2)] files by auto
  define M' where "M' = (if M > length new then if length new < hpatch_kStreamCacheSize then hpatch_kStreamCacheSize else length new else M)"
  have M': "4096 \<le> M'" "M' \<le> max (length new) 4096" "M' \<le> M" using small by (auto simp: M'_def hpatch_kStreamCacheSize_def)
  have good: "covers_good new old M' covers" using fit small szs(3) M' by (auto simp: covers_good_def max_def split: if_splits)
  let ?W = "step_whole new old M' covers" and ?ss = "step_list new old M' covers"
  from TStepStream_make_result [OF good st(1) files(1) st(2) files(2)] obtain stp where
    mk: "TStepStream_make newData oldData False covers M' = Ok stp" "step_rsok new old M' covers stp 0"
      "ts_endCoverCount (streamImport stp) = steps_count ?ss" "ts_endMaxStepMemSize (streamImport stp) = steps_mem (0, 0) ?ss" by blast
  have wl: "streamSize stp = length ?W" "length ?W \<le> 161 * length new + 80"
    using mk(2) step_list_bytes [OF good] by (simp_all add: step_rsok_def Let_def step_whole_def)
  define z where "z = \<lparr>ns_new = length new, ns_old = length old, ns_count = steps_count ?ss, ns_mem = steps_mem (0, 0) ?ss, ns_steps = length ?W\<rparr>"
  have zf: "ns_new z = length new" "ns_old z = length old" "ns_count z = steps_count ?ss" "ns_mem z = steps_mem (0, 0) ?ss" "ns_steps z = length ?W"
    by (simp_all add: z_def)
  have z: "ssizes_ok z"
    using steps_count_bytes [OF step_list_ok [OF good]] steps_mem_bytes [of "(0, 0)" ?ss new] wl(2) small szs(3)
    by (simp add: ssizes_ok_def zf step_whole_def)
  have "u.ds_holds \<lparr>ds_out_diff = out, ds_writePos = 0\<rparr> [] []" using st(3,4) by (simp add: u.ds_holds_def)
  note head = u.single_write_head_result [OF this z P(1)]
  let ?q = "pack_code (if P = None then 0 else length ?W) 0 0"
  from head show ?thesis
  proof (elim exE conjE, goal_cases)
    case h: (1 t d0 d1 d2 d3 d4 d5 d6)
    have hd: "u.ds_holds d6 (single_head P z @ ?q @ []) []" using h(9) unfolding zf by simp
    have pp: "compress_ok p unz" if "P = Some p" for p using P(2) that by simp
    have len: "length (single_head P z @ ?q @ []) + length ?W < 2 ^ 62"
      using h(10) wl(2) small(1) unfolding zf by simp
    from push_streams.push_step [OF step_push mk(2) hd refl pp len h(11) refl] obtain m d7 st' n code sec where
      p: "ds_pushStream d6 stp P (place (single_head P z) ?q) False 0 = Ok (m, d7, st')" "codes code n" "length code = length ?q"
        "section_ok unz ?W n sec" "P = None \<longrightarrow> n = 0" "length sec \<le> length ?W" "u.ds_holds d7 (single_head P z @ code @ [] @ sec) []" by blast
    have "serialize_single_compressed_diff newData oldData False covers out P M = Ok (ds_out_diff d7)"
    proof -
      have ck: "check (M \<ge> hpatch_kStreamCacheSize) = Ok ()" using small(2) by (simp add: check_def hpatch_kStreamCacheSize_def)
      show ?thesis unfolding serialize_single_compressed_diff_def szs Let_def M'_def [symmetric]
        by (simp only: ck mk(1,3,4) wl(1) h(1-8) [unfolded zf] p(1) [unfolded zf] rbind.simps prod.case)
    qed
    moreover have mm: "M' \<le> max (length new) kStepMemSizeSafeLimit" using M'(2) by (auto simp: kStepMemSizeSafeLimit_def)
    moreover have "single_spec can unz old (single_head P z @ code @ sec) = Some new" if "P \<noteq> None \<longrightarrow> can (plugin_type P)" for can
      using single_read_back(1) [where can = can, OF good P(1) p(2,5,4) that mm zf z] .
    moreover have "\<exists>info. parse_single (single_head P z @ code @ sec) = Ok info \<and> si_stepMemSize info \<le> M"
      using single_read_back(2) [where can = "\<lambda>_. True", OF good P(1) p(2,5,4) _ mm zf z] M'(3) by fastforce
    moreover have "length (single_head P z @ code @ sec) < 2 ^ 62" using len p(3,6) by simp
    ultimately show ?case using p(7) by (auto simp: u.ds_holds_def)
  qed
qed

end

lemma create_single_result:
  assumes fit: "covers_fit (search new old) 0 (length new) (length old)" "\<forall>c \<in> set (search new old). 0 < coverLength c"
    and P: "type_ok P" "pred_option (\<lambda>p. compress_ok p unz) P"
    and small: "length new < 2 ^ 54" "length old < 2 ^ 64" "4096 \<le> M"
  shows "\<exists>d. create_single_compressed_diff search new old [] P M = Ok d \<and> length d < 2 ^ 62 \<and>
    (\<forall>can. (P \<noteq> None \<longrightarrow> can (plugin_type P)) \<longrightarrow> single_spec can unz old d = Some new) \<and>
    (\<exists>info. parse_single d = Ok info \<and> si_stepMemSize info \<le> M)"
proof -
  have n64: "length new < 2 ^ 64" using small(1) by simp
  from get_diff_default_result [OF fit n64 small(2)] obtain cs where cs: "get_diff_default new old (search new old) = Ok cs"
    "covers_fit cs 0 (length new) (length old)" "\<forall>c \<in> set cs. 0 < coverLength c" by blast
  have m: "streamImport (mem_as_hStreamInput x) = x" for x by (simp add: mem_as_hStreamInput_def)
  have i: "mem_in_ok (mem_as_hStreamInput new)" "mem_in_ok (mem_as_hStreamInput old)" using n64 small(2) by simp_all
  obtain out' where "serialize_single_compressed_diff (mem_as_hStreamInput new) (mem_as_hStreamInput old) False cs (TVectorAsStreamOutput []) P M = Ok out'"
      "length (ostreamImport out') < 2 ^ 62"
      "\<forall>can. (P \<noteq> None \<longrightarrow> can (plugin_type P)) \<longrightarrow> single_spec can unz old (ostreamImport out') = Some new"
      "\<exists>info. parse_single (ostreamImport out') = Ok info \<and> si_stepMemSize info \<le> M"
    using vec_diffz.serialize_single_result [OF i TVectorAsStreamOutput_ok(1) TVectorAsStreamOutput_ok(2) m m cs(2,3) P small(1,3)] by blast
  then show ?thesis using cs(1) by (simp add: create_single_compressed_diff_def)
qed

interpretation mem_steps: replay_stream "mem_sub.step_rsok new old M covers" "\<lambda>_. step_whole new old M covers" for new old M covers
  by (rule mem_sub.step_replay)

lemma single_roundtrip:
  fixes listener :: "'l coversListener option"
  assumes "covers_fit (search new old) 0 (length new) (length old)" "\<forall>c \<in> set (search new old). 0 < coverLength c"
    and "length new < 2 ^ 54" "length old < 2 ^ 62" "4096 \<le> patchStepMemSize" "length buf = length new"
    and "a + patchStepMemSize + 12288 \<le> b" "b < 2 ^ 62" "2 ^ 62 < fuel"
  shows "\<exists>d info l. create_single_compressed_diff search new old [] None patchStepMemSize = Ok d \<and> parse_single d = Ok info \<and>
    patch_single_stream_diff fuel (mem_as_hStreamOutput buf) (mem_as_hStreamInput old) (mem_as_hStreamInput d)
      (si_diffDataPos info) (length d) (si_coverCount info) (si_stepMemSize info) a b listener True = Ok (mem_as_hStreamOutput new, l)"
proof -
  have t: "type_ok None" "pred_option (\<lambda>p. compress_ok p (\<lambda>n c. None)) (None :: hdiff_TCompress option)" by (simp_all add: type_ok_def plugin_type_def)
  have o64: "length old < 2 ^ 64" using assms(4) by simp
  from create_single_result [where search = search, OF assms(1,2) t assms(3) o64 assms(5)] obtain d info where
    d: "create_single_compressed_diff search new old [] None patchStepMemSize = Ok d" "length d < 2 ^ 62"
      "single_spec (\<lambda>t. False) (\<lambda>n c. None) old d = Some new" "parse_single d = Ok info" "si_stepMemSize info \<le> patchStepMemSize" by auto
  from d(3,4) have i: "si_compressedSize info = 0" "si_diffDataPos info + si_uncompressedSize info = length d"
      "ss_spec old (si_stepMemSize info) sspatch_covers_init (take (si_uncompressedSize info) (drop (si_diffDataPos info) d)) (si_coverCount info) = Some new"
    by (auto simp: single_spec_def section_size_def code_section_def split: if_splits option.splits bind_splits)
  have spec: "ss_spec old (si_stepMemSize info) sspatch_covers_init (drop (si_diffDataPos info) d) (si_coverCount info) = Some new"
    using i(2,3) by simp
  have pos: "si_diffDataPos info \<le> length d" using i(2) by simp
  have m: "si_stepMemSize info < 2 ^ 62" "a + si_stepMemSize info + 12288 \<le> b" "b < 2 ^ 63" using d(5) assms(7,8) by simp_all
  have "length d < 2 ^ 63" "length buf < 2 ^ 63" "length d < fuel" using d(2) assms(3,6,9) by simp_all
  from hoare_success [OF patch_single_mem [OF assms(4) this(1,2) pos m this(3)]] spec assms(6) d(1,4) show ?thesis
    by fastforce
qed

lemma step_whole_size:
  assumes good: "covers_good new old M covers" and new: "new \<noteq> []"
  shows "2 \<le> length (step_whole new old M covers)"
proof (cases "step_list new old M covers")
  case Nil
  then show ?thesis using step_list_ok [OF good] new by simp
next
  case (Cons s ss)
  have "steps_mem (0, 0) (s # ss) \<le> M" "M < 2 ^ 62"
    using steps_mem_le [OF step_list_ok [OF good]] Cons good by (simp_all add: covers_good_def)
  then have "length (cover_code (fst s) 0 0) < 2 ^ 64" "length (snd s) < 2 ^ 64" by (simp_all add: step_mem_def)
  from this [THEN pack_code_not_Nil [of _ 0 0]] have "0 < length (pack_code (length (cover_code (fst s) 0 0)) 0 0)"
    "0 < length (pack_code (length (snd s)) 0 0)" by simp_all
  then show ?thesis unfolding step_whole_def Cons steps_bytes.simps step_head_def length_append fst_conv snd_conv by linarith
qed

section \<open>Properties\<close>

text \<open>C32: a single-stream diff that \<open>create_single_compressed_diff\<close> writes, with or without a compressor
  and for every step memory it takes, has a head that \<open>getSingleCompressedDiffInfo\<close> accepts and, with the
  matching decompressor, steps that make the new data out of the old data, each within the step memory
  of the head; creating it never breaks an assertion.\<close>

theorem create_single_means_new:
  assumes "covers_fit (search new old) 0 (length new) (length old)" "\<forall>c \<in> set (search new old). 0 < coverLength c"
    and "type_ok P" "pred_option (\<lambda>p. compress_ok p unz) P"
    and "length new < 2 ^ 54" "length old < 2 ^ 64" "4096 \<le> patchStepMemSize" "P \<noteq> None \<longrightarrow> can (plugin_type P)"
  shows "\<exists>d. create_single_compressed_diff search new old [] P patchStepMemSize = Ok d \<and> single_spec can unz old d = Some new"
  using create_single_result [where search = search, OF assms(1-7)] assms(8) by blast

theorem create_single_means_new_witness:
  "\<exists>d. create_single_compressed_diff (\<lambda>new old. [\<lparr>oldPos = 0, newPos = 1, coverLength = 2\<rparr>]) [9, 1, 2] [1, 2] []
      (Some zeros_compress) 4096 = Ok d \<and> single_spec (\<lambda>t. t = [0x7A]) zeros_unz [1, 2] d = Some [9, 1, 2]"
proof -
  have t: "plugin_type (Some zeros_compress) = [0x7A]" by (simp add: plugin_type_def zeros_compress_def c_str_def)
  show ?thesis
    by (rule create_single_means_new) (use t zeros_compress_ok in \<open>simp_all add: type_ok_def hpatch_kMaxPluginTypeLength_def\<close>)
qed

text \<open>C33: an uncompressed single-stream diff round-trips through the code: \<open>patch_single_stream_diff\<close>,
  given the numbers of the head, \<open>patchStepMemSize\<close> bytes for the steps and three I/O buffers, writes the new data back from
  what \<open>create_single_compressed_diff\<close> wrote.\<close>

theorem create_single_patch_roundtrip:
  fixes listener :: "'l coversListener option"
  assumes "covers_fit (search new old) 0 (length new) (length old)" "\<forall>c \<in> set (search new old). 0 < coverLength c"
    and "length new < 2 ^ 54" "length old < 2 ^ 62" "4096 \<le> patchStepMemSize" "length buf = length new"
    and "a + patchStepMemSize + 12288 \<le> b" "b < 2 ^ 62" "2 ^ 62 < fuel"
  shows "\<exists>d info l. create_single_compressed_diff search new old [] None patchStepMemSize = Ok d \<and> parse_single d = Ok info \<and>
    patch_single_stream_diff fuel (mem_as_hStreamOutput buf) (mem_as_hStreamInput old) (mem_as_hStreamInput d)
      (si_diffDataPos info) (length d) (si_coverCount info) (si_stepMemSize info) a b listener True = Ok (mem_as_hStreamOutput new, l)"
  by (rule single_roundtrip [where search = search, OF assms])

theorem create_single_patch_roundtrip_witness:
  "\<exists>d info l. create_single_compressed_diff (\<lambda>new old. [\<lparr>oldPos = 0, newPos = 1, coverLength = 2\<rparr>]) [9, 1, 2] [1, 2] [] None 4096 = Ok d \<and>
    parse_single d = Ok info \<and>
    patch_single_stream_diff (2 ^ 62 + 1) (mem_as_hStreamOutput [0, 0, 0]) (mem_as_hStreamInput [1, 2]) (mem_as_hStreamInput d)
      (si_diffDataPos info) (length d) (si_coverCount info) (si_stepMemSize info) 5 20000 (None :: unit coversListener option) True
    = Ok (mem_as_hStreamOutput [9, 1, 2], l)"
  by (rule create_single_patch_roundtrip) simp_all

text \<open>C34: \<open>TStepStream\<close> over a diff with differences under its covers (\<open>isZeroSubDiff\<close> false), at least 4096 bytes for a
  step and new data below \<open>2 ^ 54\<close> bytes returns, for covers that are not empty, in order and inside both files: making it and then reading it in pieces, or again from its beginning,
  never runs into an assertion, and every piece is that part of the steps of the plan, which
  \<open>ss_spec\<close> decodes to the new data; both passes over the covers end with the same number of covers
  and the same step memory.\<close>

theorem step_stream_reads_steps:
  assumes "covers_fit covers 0 (length new) (length old)" "\<forall>c \<in> set covers. 0 < coverLength c"
    and "length new < 2 ^ 54" "length old < 2 ^ 64" "4096 \<le> M" "M < 2 ^ 62"
    and "0 < n" "0 < k" "n + k \<le> length (step_whole new old M covers)"
  shows "\<exists>st st1 st2 st3. TStepStream_make (mem_as_hStreamInput new) (mem_as_hStreamInput old) False covers M = Ok st \<and>
    streamSize st = length (step_whole new old M covers) \<and>
    ss_spec old (ts_endMaxStepMemSize (streamImport st)) sspatch_covers_init (step_whole new old M covers)
      (ts_endCoverCount (streamImport st)) = Some new \<and>
    sread st 0 n = Ok (take n (step_whole new old M covers), st1) \<and>
    sread st1 n k = Ok (take k (drop n (step_whole new old M covers)), st2) \<and>
    sread st2 0 n = Ok (take n (step_whole new old M covers), st3)"
proof -
  let ?W = "step_whole new old M covers"
  have good: "covers_good new old M covers" using assms by (simp add: covers_good_def)
  have i: "mem_in_ok (mem_as_hStreamInput new)" "mem_in_ok (mem_as_hStreamInput old)" using assms(3,4) by simp_all
  have m: "streamImport (mem_as_hStreamInput x) = x" for x by (simp add: mem_as_hStreamInput_def)
  from mem_sub.TStepStream_make_result [OF good i(1) m i(2) m] obtain st where
    mk: "TStepStream_make (mem_as_hStreamInput new) (mem_as_hStreamInput old) False covers M = Ok st" "mem_sub.step_rsok new old M covers st 0"
      "ts_endCoverCount (streamImport st) = steps_count (step_list new old M covers)"
      "ts_endMaxStepMemSize (streamImport st) = steps_mem (0, 0) (step_list new old M covers)" by blast
  have n: "0 + n \<le> length ?W" using assms(9) by simp
  obtain st1 where 1: "sread st 0 n = Ok (take n ?W, st1)" "mem_sub.step_rsok new old M covers st1 n"
    using mem_steps.replay_law [OF mk(2) assms(7) n] by auto
  obtain st2 where 2: "sread st1 n k = Ok (take k (drop n ?W), st2)" "mem_sub.step_rsok new old M covers st2 (n + k)"
    using mem_steps.replay_law [OF 1(2) assms(8,9)] by auto
  obtain st3 where "sread st2 0 n = Ok (take n ?W, st3)"
    using mem_steps.replay_law [OF mem_steps.replay_again [OF 2(2)] assms(7) n] by auto
  moreover have "streamSize st = length ?W" using mem_steps.whole_size [OF mk(2)] by simp
  ultimately show ?thesis using mk 1(1) 2(1) step_list_means [OF good] by auto
qed

theorem step_stream_reads_steps_witness:
  "\<exists>st st1 st2 st3. TStepStream_make (mem_as_hStreamInput [9, 1, 2]) (mem_as_hStreamInput [1, 2]) False [\<lparr>oldPos = 0, newPos = 1, coverLength = 2\<rparr>] 4096 = Ok st \<and>
    streamSize st = length (step_whole [9, 1, 2] [1, 2] 4096 [\<lparr>oldPos = 0, newPos = 1, coverLength = 2\<rparr>]) \<and>
    ss_spec [1, 2] (ts_endMaxStepMemSize (streamImport st)) sspatch_covers_init
      (step_whole [9, 1, 2] [1, 2] 4096 [\<lparr>oldPos = 0, newPos = 1, coverLength = 2\<rparr>]) (ts_endCoverCount (streamImport st)) = Some [9, 1, 2] \<and>
    sread st 0 1 = Ok (take 1 (step_whole [9, 1, 2] [1, 2] 4096 [\<lparr>oldPos = 0, newPos = 1, coverLength = 2\<rparr>]), st1) \<and>
    sread st1 1 1 = Ok (take 1 (drop 1 (step_whole [9, 1, 2] [1, 2] 4096 [\<lparr>oldPos = 0, newPos = 1, coverLength = 2\<rparr>])), st2) \<and>
    sread st2 0 1 = Ok (take 1 (step_whole [9, 1, 2] [1, 2] 4096 [\<lparr>oldPos = 0, newPos = 1, coverLength = 2\<rparr>]), st3)"
proof (rule step_stream_reads_steps)
  let ?cs = "[\<lparr>oldPos = 0, newPos = 1, coverLength = 2\<rparr>]"
  have good: "covers_good [9, 1, 2] [1, 2] 4096 ?cs" by (simp add: covers_good_def)
  have "2 \<le> length (step_whole [9, 1, 2] [1, 2] 4096 ?cs)" by (rule step_whole_size [OF good]) simp
  then show "(1 :: nat) + 1 \<le> length (step_whole [9, 1, 2] [1, 2] 4096 ?cs)" by simp
qed simp_all

end
