(* ===== verification/SearchDiff.thy ===== *)
theory SearchDiff
  imports SearchSafe SingleSave DiffzSave
begin

text \<open>
  \<open>get_diff\<close> of \<open>diff.cpp\<close> as \<open>create_diff\<close>, \<open>create_compressed_diff\<close> and
  \<open>create_single_compressed_diff\<close> call it, with the search of theory \<open>SearchCover\<close> in place of the covers
  that the other theories take as given: sorting the suffixes of the old data (a parameter), searching,
  cutting and checking.
\<close>

section \<open>The code\<close>

definition to_TCover :: "TOldCover \<Rightarrow> hpatch_TCover" where
  "to_TCover c = \<lparr>oldPos = nat (c_oldPos c), newPos = nat (c_newPos c), coverLength = nat (c_length c)\<rparr>"

definition search_covers ::
  "(byte list \<Rightarrow> nat list option) \<Rightarrow> int \<Rightarrow> byte list \<Rightarrow> byte list \<Rightarrow> hpatch_TCover list res" where
  "search_covers divsufsort kMinSingleMatchScore newData oldData =
     rbind (resetSuffixString divsufsort oldData) (\<lambda>sstring.
     rbind (first_search_and_dispose_cover \<lparr>d_newData = newData, d_oldData = oldData\<rparr> sstring kMinSingleMatchScore True) (\<lambda>covers.
     Ok (map to_TCover covers)))"

definition get_diff ::
  "(byte list \<Rightarrow> nat list option) \<Rightarrow> int \<Rightarrow> byte list \<Rightarrow> byte list \<Rightarrow> hpatch_TCover list res" where
  "get_diff divsufsort kMinSingleMatchScore newData oldData =
     rbind (search_covers divsufsort kMinSingleMatchScore newData oldData) (\<lambda>covers.
     get_diff_default newData oldData covers)"

definition create_diff_by_search ::
  "(byte list \<Rightarrow> nat list option) \<Rightarrow> int \<Rightarrow> byte list \<Rightarrow> byte list \<Rightarrow> byte list \<Rightarrow> byte list res" where
  "create_diff_by_search divsufsort kMinSingleMatchScore newData oldData out_diff =
     rbind (get_diff divsufsort kMinSingleMatchScore newData oldData) (\<lambda>covers.
     serialize_diff newData oldData covers out_diff)"

definition create_compressed_diff_by_search ::
  "(byte list \<Rightarrow> nat list option) \<Rightarrow> int \<Rightarrow> byte list \<Rightarrow> byte list \<Rightarrow> byte list \<Rightarrow> hdiff_TCompress option \<Rightarrow> byte list res" where
  "create_compressed_diff_by_search divsufsort kMinSingleMatchScore newData oldData out_diff compressPlugin =
     rbind (get_diff divsufsort kMinSingleMatchScore newData oldData) (\<lambda>covers.
     rbind (serialize_compressed_diff (mem_as_hStreamInput newData) (mem_as_hStreamInput oldData) False covers
              (TVectorAsStreamOutput out_diff) compressPlugin) (\<lambda>outDiffStream.
     Ok (ostreamImport outDiffStream)))"

definition create_single_compressed_diff_by_search ::
  "(byte list \<Rightarrow> nat list option) \<Rightarrow> int \<Rightarrow> byte list \<Rightarrow> byte list \<Rightarrow> byte list \<Rightarrow> hdiff_TCompress option \<Rightarrow> nat \<Rightarrow> byte list res" where
  "create_single_compressed_diff_by_search divsufsort kMinSingleMatchScore newData oldData out_diff compressPlugin patchStepMemSize =
     rbind (get_diff divsufsort kMinSingleMatchScore newData oldData) (\<lambda>covers.
     rbind (serialize_single_compressed_diff (mem_as_hStreamInput newData) (mem_as_hStreamInput oldData) False covers
              (TVectorAsStreamOutput out_diff) compressPlugin patchStepMemSize) (\<lambda>outDiffStream.
     Ok (ostreamImport outDiffStream)))"

text \<open>They are the functions of the other theories with the covers that are found.\<close>

lemma by_search:
  assumes "search_covers ds k new old = Ok covers"
  shows "create_diff_by_search ds k new old out = create_diff (\<lambda>_ _. covers) new old out"
    and "create_compressed_diff_by_search ds k new old out P = create_compressed_diff (\<lambda>_ _. covers) new old out P"
    and "create_single_compressed_diff_by_search ds k new old out P M = create_single_compressed_diff (\<lambda>_ _. covers) new old out P M"
  by (simp_all add: create_diff_by_search_def create_compressed_diff_by_search_def create_single_compressed_diff_by_search_def
      get_diff_def assms create_diff_def create_compressed_diff_def create_single_compressed_diff_def)

section \<open>The covers that are found\<close>

lemma to_TCover_simps [simp]:
  "oldPos (to_TCover c) = nat (c_oldPos c)" "newPos (to_TCover c) = nat (c_newPos c)" "coverLength (to_TCover c) = nat (c_length c)"
  by (simp_all add: to_TCover_def)

lemma lines_fit_covers:
  "lines_fit cs e diff \<Longrightarrow> 0 \<le> e \<Longrightarrow>
   covers_fit (map to_TCover cs) (nat e) (length (d_newData diff)) (length (d_oldData diff))"
proof (induction cs arbitrary: e)
  case Nil
  then show ?case by (simp add: new_size_def)
next
  case (Cons c cs)
  have "covers_fit (map to_TCover cs) (nat (c_newPos c + c_length c)) (length (d_newData diff)) (length (d_oldData diff))"
    by (rule Cons.IH) (use Cons.prems in auto)
  moreover have "line_in diff c" by (rule lines_fit_Cons_in [OF Cons.prems])
  moreover from this Cons.prems have "nat e \<le> nat (c_newPos c)" "nat (c_newPos c) + nat (c_length c) \<le> length (d_newData diff)"
      "nat (c_oldPos c) + nat (c_length c) \<le> length (d_oldData diff)"
      "nat (c_newPos c + c_length c) = nat (c_newPos c) + nat (c_length c)"
    by (auto simp: line_in_def c_end_def new_size_def old_size_def)
  ultimately show ?case by simp
qed

lemma search_covers_fit:
  assumes "divsufsort old = Some SA" "suffix_array old SA" "length old \<le> 2 * 2 ^ 20"
  shows "\<exists>covers. search_covers divsufsort k new old = Ok covers \<and> covers_fit covers 0 (length new) (length old) \<and>
    (\<forall>c \<in> set covers. 0 < coverLength c)"
proof -
  let ?d = "\<lparr>d_newData = new, d_oldData = old\<rparr>"
  obtain ss where ss: "build_cache old SA = Ok ss" "sstring_ok old ss" using build_cache_ok [OF assms(2)] by blast
  then have "sstring_of ?d ss" using assms(3) by (simp add: sstring_of_def kUsedCacheMinSASize_def)
  then obtain cs where cs: "first_search_and_dispose_cover ?d ss k True = Ok cs" "lines_fit cs 0 ?d" "positive cs"
    using first_search_result by blast
  have "covers_fit (map to_TCover cs) 0 (length new) (length old)" using lines_fit_covers [OF cs(2)] by simp
  moreover have "\<forall>c \<in> set (map to_TCover cs). 0 < coverLength c" using cs(3) by (simp add: positive_def)
  ultimately show ?thesis using ss(1) cs(1) resetSuffixString_eq [where divsufsort = divsufsort, OF assms(1,2)]
    by (simp add: search_covers_def)
qed

section \<open>Properties\<close>

text \<open>C37: Diffs created with the search round-trip: for old data of at most 2 MiB whose suffixes the library sorts,
  new data below \<open>2 ^ 54\<close> bytes and steps of at least 4096 bytes,
  \<open>create_diff\<close> writes a diff from which \<open>patch\<close> makes the new data, and an uncompressed
  \<open>create_single_compressed_diff\<close> one from which \<open>patch_single_stream_diff\<close> does.\<close>

theorem create_by_search_roundtrip:
  fixes listener :: "'l coversListener option"
  assumes "divsufsort old = Some SA" "suffix_array old SA" "length old \<le> 2 * 2 ^ 20"
    and "length new < 2 ^ 54" "4096 \<le> patchStepMemSize" "length buf = length new"
    and "a + patchStepMemSize + 12288 \<le> b" "b < 2 ^ 62" "2 ^ 62 < fuel"
  shows "\<exists>d sd info l. create_diff_by_search divsufsort k new old out = Ok (out @ d) \<and> patch buf old d = Ok new \<and>
    create_single_compressed_diff_by_search divsufsort k new old [] None patchStepMemSize = Ok sd \<and> parse_single sd = Ok info \<and>
    patch_single_stream_diff fuel (mem_as_hStreamOutput buf) (mem_as_hStreamInput old) (mem_as_hStreamInput sd)
      (si_diffDataPos info) (length sd) (si_coverCount info) (si_stepMemSize info) a b listener True = Ok (mem_as_hStreamOutput new, l)"
proof -
  obtain covers where c: "search_covers divsufsort k new old = Ok covers" "covers_fit covers 0 (length new) (length old)"
    "\<forall>c \<in> set covers. 0 < coverLength c" using search_covers_fit [where divsufsort = divsufsort, OF assms(1-3)] by blast
  note e = by_search [OF c(1)]
  have n: "11 * length new < 2 ^ 63" "11 * length new < 2 ^ 64" "length old < 2 ^ 62" "length old < 2 ^ 64" using assms(3,4) by simp_all
  obtain d where d: "create_diff (\<lambda>_ _. covers) new old out = Ok (out @ d)" "\<forall>e. diff_spec e (length new) old d = Some new"
    using create_diff_result [where search = "\<lambda>_ _. covers", OF c(2,3) n(2,4)] by blast
  have "patch buf old d = Ok new" using patch_eq_spec [of buf old d] d(2) n(1) assms(6) by simp
  moreover obtain sd info l where "create_single_compressed_diff (\<lambda>_ _. covers) new old [] None patchStepMemSize = Ok sd"
    "parse_single sd = Ok info" "patch_single_stream_diff fuel (mem_as_hStreamOutput buf) (mem_as_hStreamInput old) (mem_as_hStreamInput sd)
      (si_diffDataPos info) (length sd) (si_coverCount info) (si_stepMemSize info) a b listener True = Ok (mem_as_hStreamOutput new, l)"
    using single_roundtrip [where search = "\<lambda>_ _. covers" and listener = listener, OF c(2,3) assms(4) n(3) assms(5-9)] by blast
  ultimately show ?thesis using d(1) unfolding e by blast
qed

theorem create_by_search_roundtrip_witness:
  "\<exists>d sd info l. create_diff_by_search (\<lambda>_. Some [1, 0]) 6 [1, 7, 5, 7, 5, 7] [7, 5] [] = Ok ([] @ d) \<and>
    patch [0, 0, 0, 0, 0, 0] [7, 5] d = Ok [1, 7, 5, 7, 5, 7] \<and>
    create_single_compressed_diff_by_search (\<lambda>_. Some [1, 0]) 6 [1, 7, 5, 7, 5, 7] [7, 5] [] None 4096 = Ok sd \<and> parse_single sd = Ok info \<and>
    patch_single_stream_diff (2 ^ 62 + 1) (mem_as_hStreamOutput [0, 0, 0, 0, 0, 0]) (mem_as_hStreamInput [7, 5]) (mem_as_hStreamInput sd)
      (si_diffDataPos info) (length sd) (si_coverCount info) (si_stepMemSize info) 5 20000 (None :: unit coversListener option) True
    = Ok (mem_as_hStreamOutput [1, 7, 5, 7, 5, 7], l)"
  by (rule create_by_search_roundtrip [OF refl]) (simp_all add: suffix_array_def)

end
