(* ===== verification/ResearchCover.thy ===== *)
theory ResearchCover
  imports SearchDiff
begin

text \<open>
  \<open>get_diff\<close> of \<open>diff.cpp\<close> with a listener that looks at the covers that were found: parts of them may be
  searched again within limits (\<open>TDiffResearchCover\<close>), covers may be inserted, and the listener has the last
  word.
\<close>

section \<open>Searching again\<close>

text \<open>
  \<open>TDiffResearchCover\<close>; \<open>limitCoverIndex_back\<close> and \<open>limitCoverHitEndPos_back\<close> are \<open>None\<close> when they
  are the largest number.
\<close>

record TDiffResearchCover =
  rc_covers :: "TOldCover list"
  rc_reCovers :: "TOldCover list"
  rc_limitCoverIndex_back :: "nat option"
  rc_limitCoverHitEndPos_back :: "int option"
  rc_nocover_detect :: TCompressDetect
  rc_cover_detect :: TCompressDetect

definition TDiffResearchCover_init :: "TOldCover list \<Rightarrow> TDiffResearchCover" where
  "TDiffResearchCover_init covers =
     \<lparr>rc_covers = covers, rc_reCovers = [], rc_limitCoverIndex_back = None, rc_limitCoverHitEndPos_back = None,
      rc_nocover_detect = TCompressDetect_new, rc_cover_detect = TCompressDetect_new\<rparr>"

definition endResearchCover :: "TDiffResearchCover \<Rightarrow> TDiffResearchCover res" where
  "endResearchCover rc =
     (case rc_limitCoverHitEndPos_back rc of
        None \<Rightarrow> Ok rc
      | Some hitEnd \<Rightarrow>
          (case rc_limitCoverIndex_back rc of
             None \<Rightarrow> Fault
           | Some i \<Rightarrow>
               rbind (require (i < length (rc_covers rc))) (\<lambda>_.
               let cover = rc_covers rc ! i;
                   cover = \<lparr>c_oldPos = c_oldPos cover + hitEnd, c_newPos = c_newPos cover + hitEnd, c_length = c_length cover - hitEnd\<rparr>
               in Ok (rc\<lparr>rc_covers := (rc_covers rc)[i := cover], rc_limitCoverHitEndPos_back := None\<rparr>))))"

text \<open>The cover before the part that is searched, which is left of the cover or one before it.\<close>

definition research_back :: "TDiffResearchCover \<Rightarrow> nat \<Rightarrow> int \<Rightarrow> int \<Rightarrow> (TOldCover \<times> TDiffResearchCover) res" where
  "research_back rc limitCoverIndex endPosBack hitPos =
     (let cover = rc_covers rc ! limitCoverIndex in
      if endPosBack < hitPos then
        let back = \<lparr>c_oldPos = c_oldPos cover + endPosBack, c_newPos = c_newPos cover + endPosBack, c_length = hitPos - endPosBack\<rparr>
        in Ok (back, rc\<lparr>rc_reCovers := rc_reCovers rc @ [back]\<rparr>)
      else
        rbind (require (endPosBack = hitPos)) (\<lambda>_.
        let back = (if limitCoverIndex > 0 then rc_covers rc ! (limitCoverIndex - 1) else no_cover);
            back = (if rc_reCovers rc \<noteq> [] \<and> c_newPos (last (rc_reCovers rc)) > c_newPos back then last (rc_reCovers rc) else back)
        in Ok (back, rc)))"

definition doResearchCover ::
  "TDiffData \<Rightarrow> TSuffixString \<Rightarrow> int \<Rightarrow> int \<Rightarrow> bool \<Rightarrow> TDiffResearchCover \<Rightarrow> IDiffSearchCoverListener \<Rightarrow> nat \<Rightarrow> int \<Rightarrow> int \<Rightarrow> int \<Rightarrow>
   TDiffResearchCover res" where
  "doResearchCover diff sstring kMinSingleMatchScore kMaxMatchDeep isCanExtendCover rc listener limitCoverIndex endPosBack hitPos hitLen =
     rbind (if rc_limitCoverIndex_back rc \<noteq> Some limitCoverIndex then endResearchCover rc else Ok rc) (\<lambda>rc.
     let rc = rc\<lparr>rc_limitCoverIndex_back := Some limitCoverIndex, rc_limitCoverHitEndPos_back := Some (hitPos + hitLen)\<rparr> in
     rbind (require (limitCoverIndex < length (rc_covers rc))) (\<lambda>_.
     let cover = rc_covers rc ! limitCoverIndex in
     rbind (research_back rc limitCoverIndex endPosBack hitPos) (\<lambda>(back, rc).
     let diffLimit = \<lparr>dl_listener = listener, dl_newPos = c_newPos cover + hitPos, dl_newEnd = c_newPos cover + (hitPos + hitLen),
                      dl_recoverOldPos = c_oldPos cover + hitPos, dl_recoverOldEnd = c_oldPos cover + (hitPos + hitLen),
                      dl_nocover_detect = rc_nocover_detect rc, dl_cover_detect = rc_cover_detect rc,
                      dl_lastCover_back = back, dl_kMaxMatchDeep = kMaxMatchDeep\<rparr> in
     rbind (search_and_dispose_cover diff sstring kMinSingleMatchScore (Some diffLimit) isCanExtendCover) (\<lambda>(curCovers, diffLimit).
     case diffLimit of
       None \<Rightarrow> Fault
     | Some L \<Rightarrow> Ok (rc\<lparr>rc_reCovers := rc_reCovers rc @ curCovers, rc_nocover_detect := dl_nocover_detect L,
                        rc_cover_detect := dl_cover_detect L\<rparr>)))))"

definition cover_cmp_by_new_t :: "TOldCover \<Rightarrow> TOldCover \<Rightarrow> bool" where
  "cover_cmp_by_new_t x y =
     (if c_newPos x \<noteq> c_newPos y then c_newPos x < c_newPos y else c_length x < c_length y)"

text \<open>\<open>std::inplace_merge\<close>, which is stable.\<close>

fun inplace_merge :: "TOldCover list \<Rightarrow> TOldCover list \<Rightarrow> TOldCover list" where
  "inplace_merge [] ys = ys"
| "inplace_merge (x # xs) [] = x # xs"
| "inplace_merge (x # xs) (y # ys) =
     (if cover_cmp_by_new_t y x then y # inplace_merge (x # xs) ys else x # inplace_merge xs (y # ys))"

definition researchFinish :: "TDiffResearchCover \<Rightarrow> TOldCover list res" where
  "researchFinish rc =
     rbind (endResearchCover rc) (\<lambda>rc.
     Ok (inplace_merge (filter (\<lambda>c. c_length c > 0) (rc_covers rc)) (rc_reCovers rc)))"

section \<open>A listener of covers\<close>

text \<open>
  \<open>ICoverLinesListener\<close> over a state of its own.  What the callbacks change through pointers they return: the covers, and
  the sizes of both files, which may become smaller.  \<open>research_cover\<close> is given \<open>researchCover\<close> to call.
\<close>

type_synonym researchCover =
  "TDiffResearchCover \<Rightarrow> IDiffSearchCoverListener \<Rightarrow> nat \<Rightarrow> int \<Rightarrow> int \<Rightarrow> int \<Rightarrow> TDiffResearchCover res"

record 'l ICoverLinesListener =
  cl_search_cover_limit :: "('l \<Rightarrow> TOldCover list \<Rightarrow> bool \<times> 'l) option"
  cl_research_cover :: "'l \<Rightarrow> researchCover \<Rightarrow> TDiffResearchCover \<Rightarrow> (TDiffResearchCover \<times> 'l) res"
  cl_insert_cover :: "('l \<Rightarrow> TOldCover list \<Rightarrow> nat \<Rightarrow> nat \<Rightarrow> (TOldCover list \<times> nat \<times> nat \<times> 'l) res) option"
  cl_search_cover_finish :: "('l \<Rightarrow> TOldCover list \<Rightarrow> nat \<Rightarrow> nat \<Rightarrow> (TOldCover list \<times> nat \<times> nat \<times> 'l) res) option"
  cl_get_max_match_deep :: "('l \<Rightarrow> int) option"
  cl_get_limit_cover_length :: "('l \<Rightarrow> nat) option"

definition kDefaultMaxMatchDeepForLimit :: int where
  "kDefaultMaxMatchDeepForLimit = 6"

definition of_TCover :: "hpatch_TCover \<Rightarrow> TOldCover" where
  "of_TCover c = \<lparr>c_oldPos = int (oldPos c), c_newPos = int (newPos c), c_length = int (coverLength c)\<rparr>"

text \<open>\<open>_limitCoverLenth\<close> and \<open>assert_covers_safe\<close>, as \<open>get_diff\<close> calls them after every change.\<close>

definition limit_and_check :: "TDiffData \<Rightarrow> nat \<Rightarrow> TOldCover list \<Rightarrow> TOldCover list res" where
  "limit_and_check diff maxCoverLen covers =
     rbind (limitCoverLenth (map to_TCover covers) maxCoverLen) (\<lambda>covers.
     rbind (assert_covers_safe covers (length (d_newData diff)) (length (d_oldData diff))) (\<lambda>_.
     Ok (map of_TCover covers)))"

definition get_diff_research ::
  "TDiffData \<Rightarrow> TSuffixString \<Rightarrow> int \<Rightarrow> nat \<Rightarrow> 'l ICoverLinesListener \<Rightarrow> 'l \<Rightarrow> TOldCover list \<Rightarrow> (TOldCover list \<times> 'l) res" where
  "get_diff_research diff sstring kMinSingleMatchScore maxCoverLen cl l covers =
     (case cl_search_cover_limit cl of
        None \<Rightarrow> Ok (covers, l)
      | Some search_cover_limit \<Rightarrow>
          let (again, l) = search_cover_limit l covers in
          if again then
            let deep = (case cl_get_max_match_deep cl of None \<Rightarrow> kDefaultMaxMatchDeepForLimit | Some f \<Rightarrow> f l) in
            rbind (cl_research_cover cl l (doResearchCover diff sstring kMinSingleMatchScore deep True) (TDiffResearchCover_init covers)) (\<lambda>(rc, l).
            rbind (researchFinish rc) (\<lambda>covers.
            rbind (limit_and_check diff maxCoverLen covers) (\<lambda>covers.
            Ok (covers, l))))
          else Ok (covers, l))"

text \<open>A callback that may change the covers and the sizes; what it leaves is checked.\<close>

definition get_diff_hook ::
  "bool \<Rightarrow> nat \<Rightarrow> ('l \<Rightarrow> TOldCover list \<Rightarrow> nat \<Rightarrow> nat \<Rightarrow> (TOldCover list \<times> nat \<times> nat \<times> 'l) res) option \<Rightarrow>
   TDiffData \<times> TOldCover list \<times> 'l \<Rightarrow> (TDiffData \<times> TOldCover list \<times> 'l) res" where
  "get_diff_hook isFinish maxCoverLen hook =
     (\<lambda>(diff, covers, l).
      case hook of
        None \<Rightarrow> Ok (diff, covers, l)
      | Some f \<Rightarrow>
          rbind (f l covers (length (d_newData diff)) (length (d_oldData diff))) (\<lambda>(changed, newSize, oldSize, l).
          rbind (check (\<not> isFinish \<or> length changed \<le> length covers)) (\<lambda>_.
          rbind (require (newSize \<le> length (d_newData diff) \<and> oldSize \<le> length (d_oldData diff))) (\<lambda>_.
          let diff = \<lparr>d_newData = take newSize (d_newData diff), d_oldData = take oldSize (d_oldData diff)\<rparr> in
          rbind (limit_and_check diff maxCoverLen changed) (\<lambda>covers.
          Ok (diff, covers, l))))))"

definition get_diff_with ::
  "(byte list \<Rightarrow> nat list option) \<Rightarrow> int \<Rightarrow> TDiffData \<Rightarrow> 'l ICoverLinesListener \<Rightarrow> 'l \<Rightarrow> (TDiffData \<times> TOldCover list \<times> 'l) res" where
  "get_diff_with divsufsort kMinSingleMatchScore diff cl l =
     (let maxCoverLen = (case cl_get_limit_cover_length cl of None \<Rightarrow> kDefaultLimitCoverLen | Some f \<Rightarrow> f l) in
      rbind (resetSuffixString divsufsort (d_oldData diff)) (\<lambda>sstring.
      rbind (first_search_and_dispose_cover diff sstring kMinSingleMatchScore True) (\<lambda>covers.
      rbind (limit_and_check diff maxCoverLen covers) (\<lambda>covers.
      rbind (get_diff_research diff sstring kMinSingleMatchScore maxCoverLen cl l covers) (\<lambda>(covers, l).
      rbind (get_diff_hook False maxCoverLen (cl_insert_cover cl) (diff, covers, l)) (\<lambda>r.
      get_diff_hook True maxCoverLen (cl_search_cover_finish cl) r))))))"

section \<open>Merging\<close>

definition apart :: "TOldCover \<Rightarrow> TOldCover \<Rightarrow> bool" where
  "apart a b \<longleftrightarrow> c_end a \<le> c_newPos b \<or> c_end b \<le> c_newPos a"

lemma set_inplace_merge: "set (inplace_merge xs ys) = set xs \<union> set ys"
  by (induction xs ys rule: inplace_merge.induct) auto

lemma inplace_merge_fit:
  "lines_fit xs e diff \<Longrightarrow> lines_fit ys e diff \<Longrightarrow> positive xs \<Longrightarrow> positive ys \<Longrightarrow> \<forall>a \<in> set xs. \<forall>b \<in> set ys. apart a b \<Longrightarrow>
   lines_fit (inplace_merge xs ys) e diff"
proof (induction xs ys arbitrary: e rule: inplace_merge.induct)
  case (3 x xs y ys)
  have p: "0 < c_length x" "0 < c_length y" "positive xs" "positive ys" using "3.prems"(3,4) by (simp_all add: positive_def)
  have a: "apart x y" using "3.prems"(5) by simp
  show ?case
  proof (cases "cover_cmp_by_new_t y x")
    case True
    then have "c_newPos y \<le> c_newPos x" by (auto simp: cover_cmp_by_new_t_def split: if_splits)
    then have e: "c_end y \<le> c_newPos x" using a p by (auto simp: apart_def c_end_def)
    have "lines_fit (inplace_merge (x # xs) ys) (c_newPos y + c_length y) diff"
      by (rule "3.IH"(1) [OF True]) (use "3.prems" p e in \<open>auto simp: c_end_def\<close>)
    then show ?thesis using True "3.prems"(2) by simp
  next
    case False
    then have "c_newPos x \<le> c_newPos y" by (auto simp: cover_cmp_by_new_t_def split: if_splits)
    then have e: "c_end x \<le> c_newPos y" using a p by (auto simp: apart_def c_end_def)
    have "lines_fit (inplace_merge xs (y # ys)) (c_newPos x + c_length x) diff"
      by (rule "3.IH"(2) [OF False]) (use "3.prems" p e in \<open>auto simp: c_end_def\<close>)
    then show ?thesis using False "3.prems"(1) by simp
  qed
qed auto

section \<open>Searching covers again as a whole\<close>

text \<open>A cover that was searched again has nothing left.\<close>

definition shut :: "TOldCover \<Rightarrow> TOldCover" where
  "shut c = \<lparr>c_oldPos = c_oldPos c + c_length c, c_newPos = c_newPos c + c_length c, c_length = c_length c - c_length c\<rparr>"

lemma shut_simps [simp]: "c_length (shut c) = 0" "c_newPos (shut c) = c_end c" "c_end (shut c) = c_end c"
  by (simp_all add: shut_def c_end_def)

lemma shut_in: "line_in diff c \<Longrightarrow> line_in diff (shut c)"
  by (simp add: line_in_def shut_def c_end_def)

lemma lines_fit_nth:
  "lines_fit cs e diff \<Longrightarrow> 0 \<le> e \<Longrightarrow> i < j \<Longrightarrow> j < length cs \<Longrightarrow> c_end (cs ! i) \<le> c_newPos (cs ! j)"
proof (induction cs arbitrary: e i j)
  case (Cons c cs)
  have rest: "lines_fit cs (c_end c) diff" "0 \<le> c_end c" using Cons.prems(1,2) by (simp_all add: c_end_def)
  obtain k where j: "j = Suc k" using Cons.prems(3) by (cases j) auto
  have "line_in diff (cs ! k)" using lines_fit_in [OF rest] Cons.prems(4) j by simp
  have first: "c_end c \<le> c_newPos (cs ! k)" if "k < length cs" for k
    using that rest
  proof (induction cs arbitrary: k c)
    case (Cons d ds)
    have d: "c_end c \<le> c_newPos d" "lines_fit ds (c_end d) diff" "0 \<le> c_end d" "0 \<le> c_length d" using Cons.prems(2,3) by (simp_all add: c_end_def)
    show ?case
    proof (cases k)
      case (Suc m)
      then have "c_end d \<le> c_newPos (ds ! m)" using Cons.IH [of m d] Cons.prems(1) d by simp
      then show ?thesis using Suc d by (simp add: c_end_def)
    qed (use d in simp)
  qed simp
  show ?case
  proof (cases i)
    case 0
    then show ?thesis using first [of k] Cons.prems(4) j by simp
  next
    case (Suc m)
    then show ?thesis using Cons.IH [OF rest, of m k] Cons.prems(3,4) j by simp
  qed
qed simp

text \<open>
  The state while covers of a list are searched again one by one: those before the last one are shut, and the last one
  is to be.  What was found is inside of those covers.
\<close>

definition research_inv :: "(int \<Rightarrow> bool) \<Rightarrow> TDiffData \<Rightarrow> TOldCover list \<Rightarrow> nat list \<Rightarrow> TDiffResearchCover \<Rightarrow> bool" where
  "research_inv good diff covers done rc \<longleftrightarrow>
     length (rc_covers rc) = length covers \<and>
     (\<forall>i < length covers. rc_covers rc ! i = (if i \<in> set (butlast done) then shut (covers ! i) else covers ! i)) \<and>
     (if done = [] then rc_limitCoverIndex_back rc = None \<and> rc_limitCoverHitEndPos_back rc = None
      else rc_limitCoverIndex_back rc = Some (last done) \<and> rc_limitCoverHitEndPos_back rc = Some (c_length (covers ! last done))) \<and>
     lines_fit (rc_reCovers rc) 0 diff \<and> positive (rc_reCovers rc) \<and> all_good good (rc_reCovers rc) \<and>
     (\<forall>b \<in> set (rc_reCovers rc). \<exists>j \<in> set done. c_newPos (covers ! j) \<le> c_newPos b \<and> c_end b \<le> c_end (covers ! j))"

text \<open>After the last one is shut, too.\<close>

definition research_shut :: "TOldCover list \<Rightarrow> nat list \<Rightarrow> TDiffResearchCover \<Rightarrow> TDiffResearchCover \<Rightarrow> bool" where
  "research_shut covers done rc rc' \<longleftrightarrow>
     length (rc_covers rc') = length covers \<and>
     (\<forall>i < length covers. rc_covers rc' ! i = (if i \<in> set done then shut (covers ! i) else covers ! i)) \<and>
     rc_reCovers rc' = rc_reCovers rc"

lemma endResearchCover_result:
  assumes inv: "research_inv good diff covers done rc" and d: "sorted_wrt (<) done" "\<forall>i \<in> set done. i < length covers"
  shows "\<exists>rc'. endResearchCover rc = Ok rc' \<and> research_shut covers done rc rc'"
proof (cases "done = []")
  case True
  then show ?thesis using inv by (auto simp: research_inv_def endResearchCover_def research_shut_def)
next
  case False
  let ?i = "last done"
  have s: "set done = insert ?i (set (butlast done))" using append_butlast_last_id [OF False] by (metis list.simps(15) set_append empty_set insert_is_Un sup_commute)
  have "distinct done" using d(1) by (simp add: strict_sorted_iff)
  then have n: "?i \<notin> set (butlast done)" using append_butlast_last_id [OF False] by (metis distinct_append disjoint_iff list.set_intros(1))
  have i: "?i < length covers" using d(2) False by simp
  have e: "rc_limitCoverIndex_back rc = Some ?i" "rc_limitCoverHitEndPos_back rc = Some (c_length (covers ! ?i))" "length (rc_covers rc) = length covers"
    "rc_covers rc ! ?i = covers ! ?i" using inv False n i by (simp_all add: research_inv_def)
  let ?rc = "rc\<lparr>rc_covers := (rc_covers rc)[?i := shut (covers ! ?i)], rc_limitCoverHitEndPos_back := None\<rparr>"
  have "endResearchCover rc = Ok ?rc" using e i by (simp add: endResearchCover_def shut_def Let_def)
  moreover have "research_shut covers done rc ?rc"
    using inv i unfolding research_shut_def research_inv_def s by (auto simp: nth_list_update)
  ultimately show ?thesis by blast
qed

lemma research_back_result:
  assumes sh: "research_shut covers done rc rc1" and fit: "lines_fit covers 0 diff"
    and re: "lines_fit (rc_reCovers rc) 0 diff"
    and inside: "\<forall>b \<in> set (rc_reCovers rc). \<exists>j \<in> set done. c_newPos (covers ! j) \<le> c_newPos b \<and> c_end b \<le> c_end (covers ! j)"
    and i: "i < length covers" "\<forall>j \<in> set done. j < i"
  shows "\<exists>back. research_back (rc1\<lparr>rc_limitCoverIndex_back := Some i, rc_limitCoverHitEndPos_back := h\<rparr>) i 0 0 =
      Ok (back, rc1\<lparr>rc_limitCoverIndex_back := Some i, rc_limitCoverHitEndPos_back := h\<rparr>) \<and>
    line_in diff back \<and> c_end back \<le> c_newPos (covers ! i)"
proof -
  define prev where "prev = (if i > 0 then rc_covers rc1 ! (i - 1) else no_cover)"
  have prev: "line_in diff prev \<and> c_end prev \<le> c_newPos (covers ! i)"
  proof (cases "i > 0")
    case True
    then have o: "prev = (if i - 1 \<in> set done then shut (covers ! (i - 1)) else covers ! (i - 1))" using sh i by (simp add: prev_def research_shut_def)
    have l: "line_in diff (covers ! (i - 1))" using lines_fit_in [OF fit] i(1) by simp
    have "c_end (covers ! (i - 1)) \<le> c_newPos (covers ! i)" using lines_fit_nth [OF fit, of "i - 1" i] i(1) True by simp
    then show ?thesis using l shut_in [OF l] by (simp add: o)
  next
    case False
    have "line_in diff (covers ! i)" using lines_fit_in [OF fit] i(1) by simp
    then show ?thesis using False by (simp add: prev_def line_in_def c_end_def)
  qed
  have last: "line_in diff (last (rc_reCovers rc)) \<and> c_end (last (rc_reCovers rc)) \<le> c_newPos (covers ! i)" if ne: "rc_reCovers rc \<noteq> []"
  proof -
    have b: "last (rc_reCovers rc) \<in> set (rc_reCovers rc)" using ne by simp
    obtain j where j: "j \<in> set done" "c_end (last (rc_reCovers rc)) \<le> c_end (covers ! j)" using inside b by blast
    have "c_end (covers ! j) \<le> c_newPos (covers ! i)" using lines_fit_nth [OF fit, of j i] j(1) i by simp
    then show ?thesis using j(2) lines_fit_in [OF re _ b] by simp
  qed
  show ?thesis using prev last sh unfolding research_back_def Let_def research_shut_def by (cases "0 < i"; cases "rc_reCovers rc = []") (auto simp: prev_def)
qed

lemma doResearchCover_result:
  assumes ss: "sstring_of diff ss" and keeps: "listener_keeps good listener" and fit: "lines_fit covers 0 diff"
    and inv: "research_inv good diff covers done rc" and d: "sorted_wrt (<) (done @ [i])" and i: "i < length covers"
  shows "\<exists>rc'. doResearchCover diff ss score deep ext rc listener i 0 0 (c_length (covers ! i)) = Ok rc' \<and>
    research_inv good diff covers (done @ [i]) rc'"
proof -
  let ?c = "covers ! i"
  have less: "\<forall>j \<in> set done. j < i" and ds: "sorted_wrt (<) done" using d by (auto simp: sorted_wrt_append)
  then have all: "\<forall>j \<in> set done. j < length covers" using i by auto
  have re: "lines_fit (rc_reCovers rc) 0 diff" "positive (rc_reCovers rc)" "all_good good (rc_reCovers rc)"
    "\<forall>b \<in> set (rc_reCovers rc). \<exists>j \<in> set done. c_newPos (covers ! j) \<le> c_newPos b \<and> c_end b \<le> c_end (covers ! j)"
    using inv by (simp_all add: research_inv_def)
  have "rc_limitCoverIndex_back rc \<noteq> Some i" using inv less by (auto simp: research_inv_def split: if_splits)
  moreover obtain rc1 where rc1: "endResearchCover rc = Ok rc1" "research_shut covers done rc rc1"
    using endResearchCover_result [OF inv ds all] by blast
  ultimately have start: "(if rc_limitCoverIndex_back rc \<noteq> Some i then endResearchCover rc else Ok rc) = Ok rc1" by simp
  let ?rc2 = "rc1\<lparr>rc_limitCoverIndex_back := Some i, rc_limitCoverHitEndPos_back := Some (0 + c_length ?c)\<rparr>"
  have c2: "rc_covers ?rc2 ! i = ?c" "i < length (rc_covers ?rc2)" using rc1(2) i less by (auto simp: research_shut_def)
  have ci: "line_in diff ?c" using lines_fit_in [OF fit] i by simp
  obtain bk where bk: "research_back ?rc2 i 0 0 = Ok (bk, ?rc2)" "line_in diff bk" "c_end bk \<le> c_newPos ?c"
    using research_back_result [OF rc1(2) fit re(1,4) i less] by blast
  define L where "L = \<lparr>dl_listener = listener, dl_newPos = c_newPos ?c + 0, dl_newEnd = c_newPos ?c + (0 + c_length ?c),
      dl_recoverOldPos = c_oldPos ?c + 0, dl_recoverOldEnd = c_oldPos ?c + (0 + c_length ?c),
      dl_nocover_detect = rc_nocover_detect ?rc2, dl_cover_detect = rc_cover_detect ?rc2,
      dl_lastCover_back = bk, dl_kMaxMatchDeep = deep\<rparr>"
  have L: "limit_ok good diff (Some L)" using ci bk keeps by (simp add: limit_ok_def L_def line_in_def c_end_def)
  have lo: "lim_lo (Some L) = c_newPos ?c" and hi: "lim_hi (Some L) diff = c_end ?c" by (simp_all add: lim_lo_def lim_hi_def L_def c_end_def)
  obtain cs L' where cs: "search_and_dispose_cover diff ss score (Some L) ext = Ok (cs, L')" "found_ok good (Some L) diff cs L'"
    using search_and_dispose_result [OF ss L] by blast
  then obtain l' where l': "L' = Some l'" by (auto simp: found_ok_def lim_same_def)
  let ?rc' = "?rc2\<lparr>rc_reCovers := rc_reCovers ?rc2 @ cs, rc_nocover_detect := dl_nocover_detect l', rc_cover_detect := dl_cover_detect l'\<rparr>"
  have run: "doResearchCover diff ss score deep ext rc listener i 0 0 (c_length ?c) = Ok ?rc'"
    unfolding doResearchCover_def start rbind.simps Let_def c2(1)
    using c2(2) bk(1) cs(1) l' by (simp add: L_def)
  have f: "lines_fit cs (c_newPos ?c) (lim_diff (Some L) diff)" "positive cs" "all_good good cs" using cs(2) lo by (simp_all add: found_ok_def)
  have e: "new_size (lim_diff (Some L) diff) = c_end ?c" using limit_ok_bounds(4) [OF L] hi by simp
  have np: "0 \<le> c_newPos ?c" using ci by (simp add: line_in_def)
  have in_c: "c_newPos ?c \<le> c_newPos b \<and> c_end b \<le> c_end ?c" if bin: "b \<in> set cs" for b
  proof -
    have "line_in (lim_diff (Some L) diff) b" using lines_fit_in [OF f(1) np bin] .
    then have "c_end b \<le> c_end ?c" using e by (simp add: line_in_def)
    moreover obtain k where k: "k < length cs" "b = cs ! k" using bin by (auto simp: in_set_conv_nth)
    have "c_newPos ?c \<le> c_newPos (cs ! k)"
    proof (cases cs)
      case (Cons x xs)
      then have "c_newPos ?c \<le> c_newPos x" "0 \<le> c_length x" using f(1) by simp_all
      then show ?thesis using lines_fit_nth [OF f(1) np, of 0 k] k(1) Cons by (cases k) (auto simp: c_end_def)
    qed (use k in simp)
    ultimately show ?thesis using k(2) by simp
  qed
  have widen: "lines_fit cs (c_newPos ?c) diff"
  proof -
    have "lines_fit ds x (lim_diff (Some L) diff) \<Longrightarrow> lines_fit ds x diff" for ds x
      by (induction ds arbitrary: x) (use e ci in \<open>auto simp: line_in_def\<close>)
    then show ?thesis using f(1) by blast
  qed
  have "ends 0 (rc_reCovers rc) \<le> c_newPos ?c"
  proof (cases "rc_reCovers rc = []")
    case False
    then obtain j where "j \<in> set done" "c_end (last (rc_reCovers rc)) \<le> c_end (covers ! j)" using re(4) by (meson last_in_set)
    then show ?thesis using lines_fit_nth [OF fit, of j i] less i False by (fastforce simp: ends_def)
  qed (use np in \<open>simp add: ends_def\<close>)
  then have "lines_fit (rc_reCovers rc @ cs) 0 diff" using re(1) lines_fit_mono [OF widen] by (simp add: lines_fit_append)
  moreover have "positive (rc_reCovers rc @ cs)" using re(2) f(2) by (auto simp: positive_def)
  ultimately have "research_inv good diff covers (done @ [i]) ?rc'"
    using rc1(2) re(3,4) f(3) in_c unfolding research_inv_def research_shut_def by auto
  then show ?thesis using run by blast
qed

text \<open>What is left when all is shut: the covers not searched again, merged with what was found for the others.\<close>

lemma lines_fit_filter_nth:
  assumes "\<forall>i < length covers. cs ! i = (if i \<in> K then shut (covers ! i) else covers ! i)" "length cs = length covers" "lines_fit covers e diff" "0 \<le> e"
  shows "lines_fit (filter (\<lambda>c. c_length c > 0) cs) e diff"
  using assms
proof (induction covers arbitrary: cs e K)
  case (Cons c covers)
  obtain d ds where cs: "cs = d # ds" using Cons.prems(2) by (cases cs) auto
  have d: "d = (if 0 \<in> K then shut c else c)" using Cons.prems(1) cs by (auto dest!: spec [of _ 0])
  have rest: "lines_fit covers (c_end c) diff" "0 \<le> c_end c" "e \<le> c_end c" using Cons.prems(3,4) by (simp_all add: c_end_def)
  have dsK: "\<forall>i < length covers. ds ! i = (if i \<in> {k. Suc k \<in> K} then shut (covers ! i) else covers ! i)"
  proof (intro allI impI)
    fix i assume "i < length covers"
    then show "ds ! i = (if i \<in> {k. Suc k \<in> K} then shut (covers ! i) else covers ! i)"
      using Cons.prems(1) [rule_format, of "Suc i"] cs by simp
  qed
  then have ih: "lines_fit (filter (\<lambda>c. c_length c > 0) ds) (c_end c) diff" using Cons.IH [OF dsK _ rest(1,2)] Cons.prems(2) cs by simp
  show ?case
  proof (cases "0 \<in> K \<or> c_length c \<le> 0")
    case True
    then show ?thesis using lines_fit_mono [OF ih rest(3)] cs d by auto
  next
    case False
    then show ?thesis using ih Cons.prems(3) cs d by (simp add: c_end_def)
  qed
qed simp

lemma researchFinish_result:
  assumes inv: "research_inv good diff covers done rc" and d: "sorted_wrt (<) done" "\<forall>i \<in> set done. i < length covers"
    and fit: "lines_fit covers 0 diff" and good: "\<forall>i < length covers. i \<notin> set done \<longrightarrow> good (lead (covers ! i))"
  shows "\<exists>cs. researchFinish rc = Ok cs \<and> lines_fit cs 0 diff \<and> positive cs \<and> all_good good cs"
proof -
  obtain rc1 where rc1: "endResearchCover rc = Ok rc1" "research_shut covers done rc rc1" using endResearchCover_result [OF inv d] by blast
  let ?a = "filter (\<lambda>c. c_length c > 0) (rc_covers rc1)" and ?b = "rc_reCovers rc"
  have re: "lines_fit ?b 0 diff" "positive ?b" "all_good good ?b"
    "\<forall>b \<in> set ?b. \<exists>j \<in> set done. c_newPos (covers ! j) \<le> c_newPos b \<and> c_end b \<le> c_end (covers ! j)"
    using inv by (simp_all add: research_inv_def)
  have sh: "\<forall>i < length covers. rc_covers rc1 ! i = (if i \<in> set done then shut (covers ! i) else covers ! i)"
    "length (rc_covers rc1) = length covers" "rc_reCovers rc1 = ?b" using rc1(2) by (simp_all add: research_shut_def)
  have fa: "lines_fit ?a 0 diff" by (rule lines_fit_filter_nth [OF sh(1,2) fit]) simp
  have kept: "\<exists>i < length covers. i \<notin> set done \<and> a = covers ! i" if a: "a \<in> set ?a" for a
  proof -
    obtain i where "i < length covers" "a = rc_covers rc1 ! i" using a sh(2) by (auto simp: in_set_conv_nth)
    moreover from this have "i \<notin> set done" using a sh(1) by auto
    ultimately show ?thesis using sh(1) by auto
  qed
  have "apart a b" if ab: "a \<in> set ?a" "b \<in> set ?b" for a b
  proof -
    obtain i where i: "i < length covers" "i \<notin> set done" "a = covers ! i" using kept [OF ab(1)] by blast
    obtain j where j: "j \<in> set done" "c_newPos (covers ! j) \<le> c_newPos b" "c_end b \<le> c_end (covers ! j)" using re(4) ab(2) by blast
    have "i \<noteq> j" "j < length covers" using i(2) j(1) d(2) by auto
    then consider "i < j" | "j < i" by linarith
    then show ?thesis
    proof cases
      case 1
      then show ?thesis using lines_fit_nth [OF fit, of i j] \<open>j < length covers\<close> i(3) j by (auto simp: apart_def)
    next
      case 2
      then show ?thesis using lines_fit_nth [OF fit, of j i] i j by (auto simp: apart_def)
    qed
  qed
  then have "lines_fit (inplace_merge ?a ?b) 0 diff"
    by (intro inplace_merge_fit [OF fa re(1) _ re(2)]) (auto simp: positive_def)
  moreover have "positive (inplace_merge ?a ?b)" using re(2) by (auto simp: positive_def set_inplace_merge)
  moreover have "all_good good (inplace_merge ?a ?b)" using re(3) kept good by (fastforce simp: all_good_def set_inplace_merge)
  ultimately show ?thesis using rc1(1) sh(3) by (simp add: researchFinish_def)
qed

end
