(* ===== verification/HPatchLite.thy ===== *)
theory HPatchLite
  imports PackUInt
begin

text \<open>
  \<open>hpatch_lite.c\<close>: the patcher for small devices.  Its positions are 32 bits wide
  (\<open>hpi_pos_t\<close>, \<open>hpi_size_t\<close>).  The listener gives it the diff, in order, and the old data, and
  takes the new data; its callbacks are arguments of the model that act on the listener's
  state.  A read of the diff is short only at its end.
\<close>

section \<open>The input cache\<close>

text \<open>\<open>hpatchi_listener_t\<close>; a read of the diff that fails gives \<open>None\<close>.\<close>

record 'l hpatchi_listener =
  li_state :: 'l
  li_read_diff :: "'l \<Rightarrow> nat \<Rightarrow> byte list option \<times> 'l"
  li_read_old :: "'l \<Rightarrow> nat \<Rightarrow> nat \<Rightarrow> (byte list \<times> 'l) res"
  li_write_new :: "'l \<Rightarrow> byte list \<Rightarrow> 'l res"

record 'l TInputCache =
  ic_begin :: nat
  ic_end :: nat
  ic_buf :: "byte list"
  ic_listener :: "'l hpatchi_listener"

definition add32 :: "nat \<Rightarrow> nat \<Rightarrow> nat" where
  "add32 a b = (a + b) mod 2 ^ 32"

definition sub32 :: "nat \<Rightarrow> nat \<Rightarrow> nat" where
  "sub32 a b = (a + 2 ^ 32 - b) mod 2 ^ 32"

definition lite_set_state :: "'l TInputCache \<Rightarrow> 'l \<Rightarrow> 'l TInputCache" where
  "lite_set_state s l = s\<lparr>ic_listener := (ic_listener s)\<lparr>li_state := l\<rparr>\<rparr>"

text \<open>\<open>_cache_update\<close>: it asks for as many bytes as it had before.\<close>

definition cache_update :: "'l TInputCache \<Rightarrow> (bool \<times> 'l TInputCache) res" where
  "cache_update s =
     (let len = ic_end s; l = ic_listener s in
      rbind (require (len = ic_begin s)) (\<lambda>_.
      case li_read_diff l (li_state l) len of
        (None, st) \<Rightarrow> Ok (False, (lite_set_state s st)\<lparr>ic_begin := 0, ic_end := 0\<rparr>)
      | (Some d, st) \<Rightarrow>
          rbind (require (length d \<le> len)) (\<lambda>_.
          rbind (mem_write (ic_buf s) 0 d) (\<lambda>buf.
          Ok (length d \<noteq> 0, (lite_set_state s st)\<lparr>ic_buf := buf, ic_begin := 0, ic_end := length d\<rparr>)))))"

definition cache_take_byte :: "'l TInputCache \<Rightarrow> (byte \<times> 'l TInputCache) res" where
  "cache_take_byte s =
     rbind (require (ic_begin s < length (ic_buf s))) (\<lambda>_.
     Ok (ic_buf s ! ic_begin s, s\<lparr>ic_begin := ic_begin s + 1\<rparr>))"

definition cache_read_1byte :: "'l TInputCache \<Rightarrow> (byte \<times> 'l TInputCache) res" where
  "cache_read_1byte s =
     (if ic_begin s \<noteq> ic_end s then cache_take_byte s
      else rbind (cache_update s) (\<lambda>(more, s). if more then cache_take_byte s else Ok (0, s)))"

definition cache_success_finish :: "'l TInputCache \<Rightarrow> bool" where
  "cache_success_finish s \<longleftrightarrow> ic_end s \<noteq> 0"

text \<open>\<open>v=(v<<7)|(b&127)\<close> in 32 bits.\<close>

definition lite_shift :: "nat \<Rightarrow> byte \<Rightarrow> nat" where
  "lite_shift v b = take_bit 32 (push_bit 7 v) OR (unat b AND 127)"

text \<open>
  \<open>_cache_unpackUInt\<close>.  After the end of the diff bytes read as zero, which ends the loop; the
  fuel is the number of bytes still to come and one more.
\<close>

fun cache_unpackUInt :: "nat \<Rightarrow> 'l TInputCache \<Rightarrow> nat \<Rightarrow> bool \<Rightarrow> (nat \<times> 'l TInputCache) res" where
  "cache_unpackUInt 0 s v isNext = (if isNext then Fault else Ok (v, s))"
| "cache_unpackUInt (Suc fuel) s v isNext =
     (if isNext then
        rbind (cache_read_1byte s) (\<lambda>(b, s).
        cache_unpackUInt fuel s (lite_shift v b) (drop_bit 7 (unat b) \<noteq> 0))
      else Ok (v, s))"

section \<open>Copying and adding\<close>

definition lite_write :: "'l TInputCache \<Rightarrow> byte list \<Rightarrow> 'l TInputCache res" where
  "lite_write s d =
     (let l = ic_listener s in rbind (li_write_new l (li_state l) d) (\<lambda>st. Ok (lite_set_state s st)))"

definition lite_read_old :: "'l TInputCache \<Rightarrow> nat \<Rightarrow> nat \<Rightarrow> (byte list \<times> 'l TInputCache) res" where
  "lite_read_old s pos n =
     (let l = ic_listener s in rbind (li_read_old l (li_state l) pos n) (\<lambda>(d, st). Ok (d, lite_set_state s st)))"

text \<open>The cache with at least one byte in it.\<close>

definition cache_ready :: "'l TInputCache \<Rightarrow> 'l TInputCache res" where
  "cache_ready s =
     (if ic_end s - ic_begin s = 0 then
        rbind (cache_update s) (\<lambda>(more, s). rbind (check more) (\<lambda>_. Ok s))
      else Ok s)"

lemma cache_ready_more: "cache_ready s = Ok s' \<Longrightarrow> 0 < ic_end s' - ic_begin s'"
  by (auto simp: cache_ready_def cache_update_def rbind_eq_Ok check_def Let_def split: if_splits prod.splits option.splits)

function lite_copy_diff :: "'l TInputCache \<Rightarrow> nat \<Rightarrow> 'l TInputCache res" where
  "lite_copy_diff s copyLength =
     (if copyLength > 0 then
        rbind (cache_ready s) (\<lambda>s.
        let decodeStep = min (ic_end s - ic_begin s) copyLength in
        rbind (mem_read (ic_buf s) (ic_begin s) decodeStep) (\<lambda>d.
        rbind (lite_write s d) (\<lambda>s.
        lite_copy_diff (s\<lparr>ic_begin := ic_begin s + decodeStep\<rparr>) (copyLength - decodeStep))))
      else Ok s)"
  by pat_completeness auto
termination
  by (relation "measure snd") (auto dest: cache_ready_more)

declare lite_copy_diff.simps [simp del]

text \<open>
  \<open>_patch_add_old_withClip\<close>; \<open>temp_size\<close> is the size of \<open>temp_cache\<close>.  When the diff has no bytes
  to add, the number of cached bytes only sets the size of a step.
\<close>

function lite_add_old :: "nat \<Rightarrow> 'l TInputCache \<Rightarrow> bool \<Rightarrow> nat \<Rightarrow> nat \<Rightarrow> 'l TInputCache res" where
  "lite_add_old temp_size s isNotNeedSubDiff oldPos addLength =
     (if addLength > 0 then
        rbind (if isNotNeedSubDiff then Ok (ic_end s, s)
               else if ic_end s - ic_begin s = 0 then
                 rbind (cache_update s) (\<lambda>(_, s). Ok (ic_end s - ic_begin s, s))
               else Ok (ic_end s - ic_begin s, s)) (\<lambda>(decodeStep, s).
        rbind (check (decodeStep > 0)) (\<lambda>_.
        let decodeStep = min decodeStep addLength in
        rbind (require (decodeStep \<le> temp_size)) (\<lambda>_.
        rbind (lite_read_old s oldPos decodeStep) (\<lambda>(temp, s).
        rbind (if isNotNeedSubDiff then Ok (temp, s)
               else rbind (mem_read (ic_buf s) (ic_begin s) decodeStep) (\<lambda>d.
                    Ok (bytes_add temp d, s\<lparr>ic_begin := ic_begin s + decodeStep\<rparr>))) (\<lambda>(temp, s).
        rbind (lite_write s temp) (\<lambda>s.
        lite_add_old temp_size s isNotNeedSubDiff (add32 oldPos decodeStep) (addLength - decodeStep)))))))
      else Ok s)"
  by pat_completeness auto
termination
  by (relation "measure (\<lambda>(t, s, b, p, n). n)") (auto simp: check_def split: if_splits)

declare lite_add_old.simps [simp del]

section \<open>Heads\<close>

definition hpi_kHeadSize :: nat where "hpi_kHeadSize = 2 + 1 + 1"

definition hpi_kInplaceHeadSize :: nat where "hpi_kInplaceHeadSize = hpi_kHeadSize + 1"

text \<open>\<open>_hpi_readSize\<close>: the number in the first \<open>len\<close> bytes, least first.\<close>

fun hpi_readSize_loop :: "byte list \<Rightarrow> nat \<Rightarrow> nat \<Rightarrow> nat" where
  "hpi_readSize_loop buf 0 v = v"
| "hpi_readSize_loop buf (Suc len) v = hpi_readSize_loop buf len (take_bit 32 (push_bit 8 v) OR unat (buf ! len))"

definition hpi_readSize :: "byte list \<Rightarrow> nat \<Rightarrow> nat" where
  "hpi_readSize buf len = hpi_readSize_loop buf len 0"

text \<open>A read into the front of \<open>buf\<close>; how many bytes were read, and the buffer.\<close>

definition hpi_read ::
  "('l \<Rightarrow> nat \<Rightarrow> byte list option \<times> 'l) \<Rightarrow> 'l \<Rightarrow> byte list \<Rightarrow> nat \<Rightarrow> (nat \<times> byte list \<times> 'l) res" where
  "hpi_read read_diff st buf len =
     (case read_diff st len of
        (None, st) \<Rightarrow> Fail
      | (Some d, st) \<Rightarrow>
          rbind (require (length d \<le> len)) (\<lambda>_.
          rbind (mem_write buf 0 d) (\<lambda>buf. Ok (length d, buf, st))))"

definition kHPatchLite_versionCode :: nat where "kHPatchLite_versionCode = 1"

definition kHPatchLite_inplaceCode :: nat where "kHPatchLite_inplaceCode = 2"

text \<open>\<open>hpatch_lite_open\<close>: compress type, size of the new data and size of the uncompressed diff.\<close>

definition hpatch_lite_open ::
  "('l \<Rightarrow> nat \<Rightarrow> byte list option \<times> 'l) \<Rightarrow> 'l \<Rightarrow> (byte \<times> nat \<times> nat \<times> 'l) res" where
  "hpatch_lite_open read_diff diff_data =
     rbind (hpi_read read_diff diff_data (replicate (max hpi_kHeadSize 4) 0) hpi_kHeadSize) (\<lambda>(lenn, buf, diff_data).
     let lenu = unat (buf ! 3) in
     rbind (check (lenn = hpi_kHeadSize \<and> buf ! 0 = 0x68 \<and> buf ! 1 = 0x49 \<and> drop_bit 6 lenu = kHPatchLite_versionCode)) (\<lambda>_.
     let compress_type = buf ! 2; lenn = lenu AND 7; lenu = drop_bit 3 lenu AND 7 in
     rbind (check (lenn \<le> 4 \<and> lenu \<le> 4)) (\<lambda>_.
     rbind (hpi_read read_diff diff_data buf lenn) (\<lambda>(lenn, buf, diff_data).
     let newSize = hpi_readSize buf lenn in
     rbind (hpi_read read_diff diff_data buf lenu) (\<lambda>(lenu, buf, diff_data).
     let uncompressSize = hpi_readSize buf lenu in
     Ok (compress_type, newSize, uncompressSize, diff_data))))))"

definition hpatchi_inplace_open ::
  "('l \<Rightarrow> nat \<Rightarrow> byte list option \<times> 'l) \<Rightarrow> 'l \<Rightarrow> (byte \<times> nat \<times> nat \<times> nat \<times> 'l) res" where
  "hpatchi_inplace_open read_diff diff_data =
     rbind (hpi_read read_diff diff_data (replicate (max hpi_kInplaceHeadSize 4) 0) hpi_kInplaceHeadSize)
       (\<lambda>(lenn, buf, diff_data).
     let lenu = unat (buf ! 3) in
     rbind (check (lenn = hpi_kInplaceHeadSize \<and> buf ! 0 = 0x68 \<and> buf ! 1 = 0x49 \<and>
              drop_bit 6 lenu = kHPatchLite_inplaceCode)) (\<lambda>_.
     let compress_type = buf ! 2; lenn = lenu AND 7; lenu = drop_bit 3 lenu AND 7; lene = unat (buf ! 4) in
     rbind (check (lenn \<le> 4 \<and> lenu \<le> 4 \<and> lene \<le> 4)) (\<lambda>_.
     rbind (hpi_read read_diff diff_data buf lenn) (\<lambda>(lenn, buf, diff_data).
     let newSize = hpi_readSize buf lenn in
     rbind (hpi_read read_diff diff_data buf lenu) (\<lambda>(lenu, buf, diff_data).
     let uncompressSize = hpi_readSize buf lenu in
     rbind (hpi_read read_diff diff_data buf lene) (\<lambda>(lene, buf, diff_data).
     let extraSafeSize = hpi_readSize buf lene in
     Ok (compress_type, newSize, uncompressSize, extraSafeSize, diff_data)))))))"

section \<open>The patch\<close>

definition hpi_kMinCacheSize :: nat where "hpi_kMinCacheSize = 1 * 2"

record 'l lite_state =
  ls_diff :: "'l TInputCache"
  ls_newPosBack :: nat
  ls_oldPosBack :: nat

text \<open>\<open>read cover\<close>: its length, its positions and whether the diff has no bytes to add to it.\<close>

definition lite_read_cover ::
  "nat \<Rightarrow> nat \<Rightarrow> nat \<Rightarrow> 'l TInputCache \<Rightarrow> ((nat \<times> nat \<times> nat \<times> bool) \<times> 'l TInputCache) res" where
  "lite_read_cover fuel newPosBack oldPosBack diff =
     rbind (cache_unpackUInt fuel diff 0 True) (\<lambda>(cover_length, diff).
     rbind (cache_read_1byte diff) (\<lambda>(tag, diff).
     rbind (cache_unpackUInt fuel diff (unat tag AND 31) (bit tag 5)) (\<lambda>(cover_oldPos, diff).
     let isNotNeedSubDiff = (drop_bit 7 (unat tag) \<noteq> 0);
         cover_oldPos = (if bit tag 6 then sub32 oldPosBack cover_oldPos else add32 cover_oldPos oldPosBack) in
     rbind (cache_unpackUInt fuel diff 0 True) (\<lambda>(cover_newPos, diff).
     Ok ((cover_length, cover_oldPos, add32 cover_newPos newPosBack, isNotNeedSubDiff), diff)))))"

text \<open>One cover; \<open>left\<close> is \<open>coverCount\<close> after it was counted down.\<close>

definition lite_cover :: "nat \<Rightarrow> nat \<Rightarrow> nat \<Rightarrow> 'l lite_state \<Rightarrow> 'l lite_state res" where
  "lite_cover fuel temp_size left st =
     rbind (lite_read_cover fuel (ls_newPosBack st) (ls_oldPosBack st) (ls_diff st))
       (\<lambda>((cover_length, cover_oldPos, cover_newPos, isNotNeedSubDiff), diff).
     rbind (check (cover_newPos \<ge> ls_newPosBack st)) (\<lambda>_.
     rbind (if ls_newPosBack st < cover_newPos then lite_copy_diff diff (cover_newPos - ls_newPosBack st) else Ok diff) (\<lambda>diff.
     rbind (lite_add_old temp_size diff isNotNeedSubDiff cover_oldPos cover_length) (\<lambda>diff.
     rbind (check (cover_length > 0 \<or> left = 0)) (\<lambda>_.
     Ok \<lparr>ls_diff = diff, ls_newPosBack = add32 cover_newPos cover_length,
         ls_oldPosBack = add32 cover_oldPos cover_length\<rparr>)))))"

fun lite_covers :: "nat \<Rightarrow> nat \<Rightarrow> nat \<Rightarrow> 'l lite_state \<Rightarrow> 'l lite_state res" where
  "lite_covers fuel temp_size 0 st = Ok st"
| "lite_covers fuel temp_size (Suc n) st = rbind (lite_cover fuel temp_size n st) (lite_covers fuel temp_size n)"

definition hpatch_lite_patch ::
  "nat \<Rightarrow> 'l hpatchi_listener \<Rightarrow> nat \<Rightarrow> nat \<Rightarrow> 'l hpatchi_listener res" where
  "hpatch_lite_patch fuel listener newSize temp_cache_size =
     rbind (check (temp_cache_size \<ge> hpi_kMinCacheSize)) (\<lambda>_.
     let half = drop_bit 1 temp_cache_size in
     rbind (cache_unpackUInt fuel \<lparr>ic_begin = half, ic_end = half, ic_buf = replicate half 0, ic_listener = listener\<rparr> 0 True)
       (\<lambda>(cover_count, diff).
     rbind (lite_covers fuel half cover_count \<lparr>ls_diff = diff, ls_newPosBack = 0, ls_oldPosBack = 0\<rparr>) (\<lambda>st.
     rbind (check (newSize = ls_newPosBack st \<and> cache_success_finish (ls_diff st))) (\<lambda>_.
     Ok (ic_listener (ls_diff st))))))"

section \<open>What a lite diff means\<close>

fun lite_unpack :: "nat \<Rightarrow> bool \<Rightarrow> byte list \<Rightarrow> (nat \<times> byte list) option" where
  "lite_unpack v isNext [] = (if isNext then None else Some (v, []))"
| "lite_unpack v isNext (b # r) =
     (if isNext then lite_unpack (lite_shift v b) (drop_bit 7 (unat b) \<noteq> 0) r else Some (v, b # r))"

text \<open>The head of a cover: its length, its positions and whether the diff has bytes to add to it.\<close>

definition lite_head :: "nat \<Rightarrow> nat \<Rightarrow> byte list \<Rightarrow> ((nat \<times> nat \<times> nat \<times> bool) \<times> byte list) option" where
  "lite_head newBack oldBack r =
     Option.bind (lite_unpack 0 True r) (\<lambda>(len, r).
     case r of [] \<Rightarrow> None
     | tag # r \<Rightarrow>
         Option.bind (lite_unpack (unat tag AND 31) (bit tag 5) r) (\<lambda>(inc, r).
         let op = (if bit tag 6 then sub32 oldBack inc else add32 inc oldBack) in
         Option.bind (lite_unpack 0 True r) (\<lambda>(gap, r).
         Some ((len, op, add32 gap newBack, drop_bit 7 (unat tag) \<noteq> 0), r))))"

text \<open>What a cover adds to the new data, and the diff it leaves.\<close>

definition add_spec :: "byte list \<Rightarrow> bool \<Rightarrow> nat \<Rightarrow> nat \<Rightarrow> byte list \<Rightarrow> (byte list \<times> byte list) option" where
  "add_spec old noSub p n r =
     (if n = 0 then Some ([], r)
      else if p + n \<le> length old \<and> (noSub \<or> n \<le> length r)
      then Some (if noSub then (take n (drop p old), r) else (bytes_add (take n (drop p old)) (take n r), drop n r))
      else None)"

text \<open>The new data of one cover, the diff after it and the ends of the cover; \<open>left\<close> covers follow.\<close>

definition lite_cover_spec ::
  "byte list \<Rightarrow> nat \<Rightarrow> nat \<Rightarrow> nat \<Rightarrow> byte list \<Rightarrow> (byte list \<times> byte list \<times> nat \<times> nat) option" where
  "lite_cover_spec old left newBack oldBack r =
     Option.bind (lite_head newBack oldBack r) (\<lambda>((len, op, np, noSub), r).
     let gap = np - newBack in
     if newBack \<le> np \<and> gap \<le> length r \<and> (len > 0 \<or> left = 0) then
       map_option (\<lambda>(d, r'). (take gap r @ d, r', add32 np len, add32 op len)) (add_spec old noSub op len (drop gap r))
     else None)"

fun lite_covers_spec :: "byte list \<Rightarrow> nat \<Rightarrow> nat \<Rightarrow> nat \<Rightarrow> byte list \<Rightarrow> (byte list \<times> byte list \<times> nat) option" where
  "lite_covers_spec old 0 newBack oldBack r = Some ([], r, newBack)"
| "lite_covers_spec old (Suc n) newBack oldBack r =
     Option.bind (lite_cover_spec old n newBack oldBack r) (\<lambda>(d, r, newBack, oldBack).
     map_option (\<lambda>(e, x). (d @ e, x)) (lite_covers_spec old n newBack oldBack r))"

definition lite_spec :: "byte list \<Rightarrow> nat \<Rightarrow> byte list \<Rightarrow> byte list option" where
  "lite_spec old newSize diff =
     Option.bind (lite_unpack 0 True diff) (\<lambda>(n, r).
     Option.bind (lite_covers_spec old n 0 0 r) (\<lambda>(d, r, newBack).
     if newSize = newBack then Some d else None))"

lemma lite_unpack_small:
  assumes "unat b < 128"
  shows "lite_unpack 0 True (b # r) = Some (unat b, r)"
proof -
  have "unat b AND 127 = unat b" using assms by (simp add: and_127)
  moreover have "drop_bit 7 (unat b) = 0" using assms by (simp add: drop_bit_eq_div)
  ultimately show ?thesis by (cases r) (simp_all add: lite_shift_def)
qed

lemma lite_unpack_stop: "lite_unpack v False r = Some (v, r)"
  by (cases r) simp_all

lemma lite_unpack_shorter: "lite_unpack v n r = Some (w, r') \<Longrightarrow> length r' \<le> length r"
  by (induction v n r rule: lite_unpack.induct) (fastforce split: if_splits)+

section \<open>Reads that are safe\<close>

text \<open>
  A listener whose old data are overwritten by the new ones gives the right bytes only at some
  positions: the guard says, of how much was written and a position, that they are still there.  A diff
  is safe for a guard when every cover it means reads at such positions.
\<close>

definition lite_safe1 :: "(nat \<Rightarrow> nat \<Rightarrow> bool) \<Rightarrow> nat \<Rightarrow> nat \<Rightarrow> nat \<Rightarrow> byte list \<Rightarrow> bool" where
  "lite_safe1 guard w newBack oldBack r =
     (case lite_head newBack oldBack r of
        None \<Rightarrow> True
      | Some ((len, op, np, noSub), r) \<Rightarrow>
          newBack \<le> np \<and> np - newBack \<le> length r \<and> 0 < len \<longrightarrow> guard (w + (np - newBack)) op)"

fun lite_safe :: "(nat \<Rightarrow> nat \<Rightarrow> bool) \<Rightarrow> byte list \<Rightarrow> nat \<Rightarrow> nat \<Rightarrow> nat \<Rightarrow> nat \<Rightarrow> byte list \<Rightarrow> bool" where
  "lite_safe guard old 0 w newBack oldBack r = True"
| "lite_safe guard old (Suc n) w newBack oldBack r =
     (lite_safe1 guard w newBack oldBack r \<and>
      (case lite_cover_spec old n newBack oldBack r of
         None \<Rightarrow> True
       | Some (d, r, newBack, oldBack) \<Rightarrow> lite_safe guard old n (w + length d) newBack oldBack r))"

definition lite_safe_diff :: "(nat \<Rightarrow> nat \<Rightarrow> bool) \<Rightarrow> byte list \<Rightarrow> byte list \<Rightarrow> bool" where
  "lite_safe_diff guard old diff =
     (case lite_unpack 0 True diff of None \<Rightarrow> True | Some (n, r) \<Rightarrow> lite_safe guard old n 0 0 0 r)"

lemma lite_safe_mono: "lite_safe g old n w newBack oldBack r \<Longrightarrow> (\<And>w p. g w p \<Longrightarrow> h w p) \<Longrightarrow> lite_safe h old n w newBack oldBack r"
  by (induction n arbitrary: w newBack oldBack r) (auto simp: lite_safe1_def split: option.splits)

lemma lite_safe_diff_mono: "lite_safe_diff g old diff \<Longrightarrow> (\<And>w p. g w p \<Longrightarrow> h w p) \<Longrightarrow> lite_safe_diff h old diff"
  by (auto simp: lite_safe_diff_def intro: lite_safe_mono split: option.splits)

definition always_safe :: "nat \<Rightarrow> nat \<Rightarrow> bool" where
  "always_safe w p = True"

lemma lite_safe_always: "lite_safe always_safe old n w newBack oldBack r"
  by (induction n arbitrary: w newBack oldBack r) (auto simp: lite_safe1_def always_safe_def split: option.splits)

lemma lite_safe_diff_always [simp]: "lite_safe_diff always_safe old diff"
  by (simp add: lite_safe_diff_def lite_safe_always split: option.splits)

text \<open>A read is behind what was written by no more than some extra room.\<close>

definition reads_near :: "nat \<Rightarrow> nat \<Rightarrow> nat \<Rightarrow> bool" where
  "reads_near extra w p \<longleftrightarrow> w \<le> p + extra"

section \<open>What a listener promises\<close>

text \<open>
  The diff still to come, the old data, the new data written so far, how much of it there is
  room for, and where the old data can be read.
\<close>

locale lite_io =
  fixes lok :: "'l hpatchi_listener \<Rightarrow> bool"
    and ldiff :: "'l hpatchi_listener \<Rightarrow> byte list"
    and lold :: "'l hpatchi_listener \<Rightarrow> byte list"
    and lnew :: "'l hpatchi_listener \<Rightarrow> byte list"
    and lcap :: "'l hpatchi_listener \<Rightarrow> nat"
    and lguard :: "nat \<Rightarrow> nat \<Rightarrow> bool"
  assumes read_diff_law: "lok l \<Longrightarrow>
      (case li_read_diff l (li_state l) n of
         (x, st) \<Rightarrow> let l' = l\<lparr>li_state := st\<rparr> in
           x = Some (take n (ldiff l)) \<and> lok l' \<and> ldiff l' = drop n (ldiff l) \<and> lold l' = lold l \<and> lnew l' = lnew l \<and> lcap l' = lcap l)"
    and read_old_law: "lok l \<Longrightarrow> pos < 2 ^ 32 \<Longrightarrow> lguard (length (lnew l)) pos \<Longrightarrow>
      hoare (pos + n \<le> length (lold l)) (li_read_old l (li_state l) pos n) (\<lambda>(d, st). let l' = l\<lparr>li_state := st\<rparr> in
        pos + n \<le> length (lold l) \<and> d = take n (drop pos (lold l)) \<and> lok l' \<and> ldiff l' = ldiff l \<and> lold l' = lold l \<and>
        lnew l' = lnew l \<and> lcap l' = lcap l)"
    and write_law: "lok l \<Longrightarrow>
      hoare (length (lnew l) + length d \<le> lcap l) (li_write_new l (li_state l) d) (\<lambda>st. let l' = l\<lparr>li_state := st\<rparr> in
        lok l' \<and> ldiff l' = ldiff l \<and> lold l' = lold l \<and> lnew l' = lnew l @ d \<and> lcap l' = lcap l)"
    and old_size: "lok l \<Longrightarrow> length (lold l) < 2 ^ 32"
    and guard_shift: "lguard w p \<Longrightarrow> lguard (w + n) (p + n)"
    and guard_less: "lguard w p \<Longrightarrow> w' \<le> w \<Longrightarrow> lguard w' p"
begin

text \<open>A cache is good, and the bytes it still gives: none when it has been read past the end.\<close>

definition ic_ok :: "'l TInputCache \<Rightarrow> bool" where
  "ic_ok s \<longleftrightarrow> lok (ic_listener s) \<and> ic_begin s \<le> ic_end s \<and> ic_end s \<le> length (ic_buf s) \<and> length (ic_buf s) < 2 ^ 31"

definition ic_rest :: "'l TInputCache \<Rightarrow> byte list option" where
  "ic_rest s = (if ic_end s = 0 then None
     else Some (take (ic_end s - ic_begin s) (drop (ic_begin s) (ic_buf s)) @ ldiff (ic_listener s)))"

definition ic_same :: "'l TInputCache \<Rightarrow> 'l TInputCache \<Rightarrow> bool" where
  "ic_same s s' \<longleftrightarrow> ic_ok s' \<and> length (ic_buf s') = length (ic_buf s) \<and>
     lold (ic_listener s') = lold (ic_listener s) \<and> lcap (ic_listener s') = lcap (ic_listener s)"

definition ic_new :: "'l TInputCache \<Rightarrow> byte list" where
  "ic_new s = lnew (ic_listener s)"

lemma ic_sameD:
  "ic_same s s' \<Longrightarrow> ic_ok s'" "ic_same s s' \<Longrightarrow> length (ic_buf s') = length (ic_buf s)"
  "ic_same s s' \<Longrightarrow> lold (ic_listener s') = lold (ic_listener s)"
  "ic_same s s' \<Longrightarrow> lcap (ic_listener s') = lcap (ic_listener s)"
  by (simp_all add: ic_same_def)

lemma ic_same_refl [simp]: "ic_ok s \<Longrightarrow> ic_same s s"
  by (simp add: ic_same_def)

lemma ic_same_trans: "ic_same s s' \<Longrightarrow> ic_same s' s'' \<Longrightarrow> ic_same s s''"
  by (simp add: ic_same_def)

text \<open>Refilling an empty cache.\<close>

lemma cache_update_rule:
  assumes ok: "ic_ok s" and empty: "ic_begin s = ic_end s"
    and Q: "\<And>s'. ic_same s s' \<Longrightarrow> ic_new s' = ic_new s \<Longrightarrow> ic_begin s' = 0 \<Longrightarrow>
      ic_rest s' = (case ic_rest s of None \<Rightarrow> None | Some r \<Rightarrow> if r = [] then None else Some r) \<Longrightarrow>
      Q (ic_end s' \<noteq> 0, s')"
  shows "hoare S (cache_update s) Q"
proof -
  let ?l = "ic_listener s" and ?n = "ic_end s"
  obtain x st where r: "li_read_diff ?l (li_state ?l) ?n = (x, st)" by fastforce
  let ?l' = "?l\<lparr>li_state := st\<rparr>" and ?d = "take ?n (ldiff (ic_listener s))"
  have law: "x = Some ?d" "lok ?l'" "ldiff ?l' = drop ?n (ldiff ?l)" "lold ?l' = lold ?l" "lnew ?l' = lnew ?l" "lcap ?l' = lcap ?l"
    using read_diff_law [of ?l ?n] ok r by (simp_all add: ic_ok_def Let_def)
  have le: "length ?d \<le> ?n" "?n \<le> length (ic_buf s)" using ok by (auto simp: ic_ok_def)
  let ?s' = "(lite_set_state s st)\<lparr>ic_buf := ?d @ drop (length ?d) (ic_buf s), ic_begin := 0, ic_end := length ?d\<rparr>"
  have run: "cache_update s = Ok (length ?d \<noteq> 0, ?s')"
    using empty r law(1) le by (simp add: cache_update_def Let_def mem_write_def)
  have "Q (ic_end ?s' \<noteq> 0, ?s')"
  proof (rule Q)
    show "ic_same s ?s'" using ok law le by (auto simp: ic_same_def ic_ok_def lite_set_state_def)
    show "ic_rest ?s' = (case ic_rest s of None \<Rightarrow> None | Some r \<Rightarrow> if r = [] then None else Some r)"
      using law(3) empty by (cases "?n = 0"; cases "ldiff ?l = []") (auto simp: ic_rest_def lite_set_state_def min_def)
  qed (use law in \<open>auto simp: ic_new_def lite_set_state_def\<close>)
  then show ?thesis unfolding run by simp
qed

text \<open>The next byte; past the end it is zero.\<close>

lemma read_1byte_rule:
  assumes ok: "ic_ok s"
    and Q: "\<And>b s'. ic_same s s' \<Longrightarrow> ic_new s' = ic_new s \<Longrightarrow>
      (case ic_rest s of Some (x # r) \<Rightarrow> b = x \<and> ic_rest s' = Some r | _ \<Rightarrow> b = 0 \<and> ic_rest s' = None) \<Longrightarrow> Q (b, s')"
  shows "hoare S (cache_read_1byte s) Q"
proof -
  have take_byte: "hoare S (cache_take_byte s') Q"
    if s': "ic_same s s'" "ic_new s' = ic_new s" "ic_begin s' < ic_end s'" "ic_rest s' = ic_rest s" for s'
  proof -
    have l: "ic_begin s' < length (ic_buf s')" using s' by (auto simp: ic_same_def ic_ok_def)
    let ?t = "s'\<lparr>ic_begin := ic_begin s' + 1\<rparr>"
    have "Q (ic_buf s' ! ic_begin s', ?t)"
    proof (rule Q)
      show "ic_same s ?t" using s' by (auto simp: ic_same_def ic_ok_def)
      have "take (ic_end s' - ic_begin s') (drop (ic_begin s') (ic_buf s'))
          = ic_buf s' ! ic_begin s' # take (ic_end s' - Suc (ic_begin s')) (drop (Suc (ic_begin s')) (ic_buf s'))"
        using s'(3) l by (metis Cons_nth_drop_Suc Suc_diff_Suc take_Suc_Cons)
      then show "case ic_rest s of Some (x # r) \<Rightarrow> ic_buf s' ! ic_begin s' = x \<and> ic_rest ?t = Some r | _ \<Rightarrow> ic_buf s' ! ic_begin s' = 0 \<and> ic_rest ?t = None"
        using s'(3) unfolding s'(4) [symmetric] by (simp add: ic_rest_def)
    qed (use s' in \<open>simp add: ic_new_def\<close>)
    then show ?thesis using l by (simp add: cache_take_byte_def)
  qed
  show ?thesis
  proof (cases "ic_begin s = ic_end s")
    case False
    then show ?thesis using take_byte [of s] ok by (auto simp: cache_read_1byte_def ic_ok_def)
  next
    case True
    have unf: "cache_read_1byte s = rbind (cache_update s) (\<lambda>(more, s). if more then cache_take_byte s else Ok (0, s))"
      using True by (simp add: cache_read_1byte_def)
    show ?thesis unfolding unf
    proof (rule hoare_bindI, rule cache_update_rule [OF ok True], goal_cases)
      case (1 s')
      show ?case
      proof (cases "ic_end s' = 0")
        case True
        then have "ic_rest s' = None" by (simp add: ic_rest_def)
        then show ?thesis using 1 True by (auto intro!: Q split: option.splits list.splits if_splits)
      next
        case False
        then have "ic_rest s' = ic_rest s" using 1(4) by (auto simp: ic_rest_def split: option.splits if_splits)
        then show ?thesis using 1 False take_byte [of s'] by simp
      qed
    qed
  qed
qed

lemma unpackUInt_rule:
  assumes ok: "ic_ok s" and fuel: "isNext \<Longrightarrow> length (case ic_rest s of None \<Rightarrow> [] | Some r \<Rightarrow> r) < fuel"
    and Q: "\<And>v' s'. ic_same s s' \<Longrightarrow> ic_new s' = ic_new s \<Longrightarrow>
      (case Option.bind (ic_rest s) (lite_unpack v isNext) of
         Some (w, r) \<Rightarrow> v' = w \<and> ic_rest s' = Some r | None \<Rightarrow> ic_rest s' = None) \<Longrightarrow> Q (v', s')"
  shows "hoare S (cache_unpackUInt fuel s v isNext) Q"
proof -
  have stop: "case Option.bind (ic_rest s) (lite_unpack v False) of
      Some (w, r) \<Rightarrow> v = w \<and> ic_rest s = Some r | None \<Rightarrow> ic_rest s = None" for v s
    by (cases "ic_rest s"; cases "the (ic_rest s)") auto
  show ?thesis using assms
proof (induction fuel arbitrary: s v isNext Q)
  case 0
  then have "\<not> isNext" by auto
  then show ?case using stop [of s v] 0 by auto
next
  case (Suc fuel)
  show ?case
  proof (cases isNext)
    case False
    then have "Q (v, s)" using Suc.prems stop [of s v] by auto
    then show ?thesis using False by simp
  next
    case True
    show ?thesis unfolding cache_unpackUInt.simps if_P [OF True]
    proof (rule hoare_bindI, rule read_1byte_rule [OF Suc.prems(1)], goal_cases)
      case (1 b s1)
      show ?case unfolding prod.case
      proof (rule Suc.IH)
        show "length (case ic_rest s1 of None \<Rightarrow> [] | Some r \<Rightarrow> r) < fuel" if "drop_bit 7 (unat b) \<noteq> 0"
          using 1(3) Suc.prems(2) True that by (auto split: option.splits list.splits)
        fix v' s'
        assume a: "ic_same s1 s'" "ic_new s' = ic_new s1"
          "case Option.bind (ic_rest s1) (lite_unpack (lite_shift v b) (drop_bit 7 (unat b) \<noteq> 0)) of
             Some (w, r) \<Rightarrow> v' = w \<and> ic_rest s' = Some r | None \<Rightarrow> ic_rest s' = None"
        show "Q (v', s')"
        proof (rule Suc.prems(3))
          show "ic_same s s'" by (rule ic_same_trans [OF 1(1) a(1)])
          show "case Option.bind (ic_rest s) (lite_unpack v isNext) of
             Some (w, r) \<Rightarrow> v' = w \<and> ic_rest s' = Some r | None \<Rightarrow> ic_rest s' = None"
            using 1(3) a(3) True by (auto split: option.splits list.splits)
        qed (use 1 a in simp)
      qed (use 1 in \<open>auto dest: ic_sameD\<close>)
    qed
  qed
qed
qed

text \<open>The listener's calls through a cache.\<close>

lemma lite_write_rule:
  assumes ok: "ic_ok s" and S: "S \<Longrightarrow> length (ic_new s) + length d \<le> lcap (ic_listener s)"
    and Q: "\<And>s'. ic_same s s' \<Longrightarrow> ic_new s' = ic_new s @ d \<Longrightarrow> ic_begin s' = ic_begin s \<Longrightarrow> ic_end s' = ic_end s \<Longrightarrow>
      ic_buf s' = ic_buf s \<Longrightarrow> ldiff (ic_listener s') = ldiff (ic_listener s) \<Longrightarrow> Q s'"
  shows "hoare S (lite_write s d) Q"
proof -
  have l: "lok (ic_listener s)" using ok by (simp add: ic_ok_def)
  show ?thesis unfolding lite_write_def Let_def
    by (rule hoare_bindI, rule hoare_weaken [OF write_law [OF l]])
      (use ok S in \<open>auto simp: Let_def ic_new_def ic_same_def ic_ok_def lite_set_state_def intro!: Q\<close>)
qed

lemma lite_read_old_rule:
  assumes ok: "ic_ok s" and p: "p < 2 ^ 32" and G: "lguard (length (ic_new s)) p"
    and S: "S \<Longrightarrow> p + n \<le> length (lold (ic_listener s))"
    and Q: "\<And>s'. p + n \<le> length (lold (ic_listener s)) \<Longrightarrow> ic_same s s' \<Longrightarrow> ic_new s' = ic_new s \<Longrightarrow> ic_begin s' = ic_begin s \<Longrightarrow>
      ic_end s' = ic_end s \<Longrightarrow> ic_buf s' = ic_buf s \<Longrightarrow> ldiff (ic_listener s') = ldiff (ic_listener s) \<Longrightarrow>
      Q (take n (drop p (lold (ic_listener s))), s')"
  shows "hoare S (lite_read_old s p n) Q"
proof -
  have l: "lok (ic_listener s)" "lguard (length (lnew (ic_listener s))) p" using ok G by (simp_all add: ic_ok_def ic_new_def)
  show ?thesis unfolding lite_read_old_def Let_def
    by (rule hoare_bindI, rule hoare_weaken [OF read_old_law [OF l(1) p l(2)]])
      (use ok S in \<open>auto simp: Let_def ic_new_def ic_same_def ic_ok_def lite_set_state_def intro!: Q\<close>)
qed

lemma ic_rest_cong:
  "ic_begin s' = ic_begin s \<Longrightarrow> ic_end s' = ic_end s \<Longrightarrow> ic_buf s' = ic_buf s \<Longrightarrow>
   ldiff (ic_listener s') = ldiff (ic_listener s) \<Longrightarrow> ic_rest s' = ic_rest s"
  by (simp add: ic_rest_def)

text \<open>Taking bytes that are in the cache.\<close>

lemma ic_rest_take:
  assumes ok: "ic_ok s" and n: "n \<le> ic_end s - ic_begin s" "0 < ic_end s - ic_begin s" and r: "ic_rest s = Some r"
  shows "take n (drop (ic_begin s) (ic_buf s)) = take n r" "n \<le> length r"
    "ic_rest (s\<lparr>ic_begin := ic_begin s + n\<rparr>) = Some (drop n r)"
    "mem_read (ic_buf s) (ic_begin s) n = Ok (take n r)"
proof -
  let ?k = "ic_end s - ic_begin s" and ?b = "drop (ic_begin s) (ic_buf s)"
  have h: "?k \<le> length ?b" using ok by (auto simp: ic_ok_def)
  have r': "r = take ?k ?b @ ldiff (ic_listener s)" using r by (simp add: ic_rest_def split: if_splits)
  show 1: "take n ?b = take n r" using n h by (simp add: r' min_absorb1)
  show "n \<le> length r" using n h by (simp add: r')
  have "drop n r = take (?k - n) (drop n ?b) @ ldiff (ic_listener s)" using n h by (simp add: r' drop_take)
  then show "ic_rest (s\<lparr>ic_begin := ic_begin s + n\<rparr>) = Some (drop n r)"
    using n by (simp add: ic_rest_def add.commute)
  show "mem_read (ic_buf s) (ic_begin s) n = Ok (take n r)"
    using 1 n ok by (auto simp: mem_read_def ic_ok_def)
qed

lemma cache_ready_rule:
  assumes ok: "ic_ok s" and S: "S \<Longrightarrow> ic_rest s \<noteq> None \<and> ic_rest s \<noteq> Some []"
    and Q: "\<And>s' r. ic_same s s' \<Longrightarrow> ic_new s' = ic_new s \<Longrightarrow> ic_rest s = Some r \<Longrightarrow> ic_rest s' = Some r \<Longrightarrow>
      0 < ic_end s' - ic_begin s' \<Longrightarrow> Q s'"
  shows "hoare S (cache_ready s) Q"
proof (cases "ic_end s - ic_begin s = 0")
  case False
  then have "ic_rest s \<noteq> None" by (auto simp: ic_rest_def)
  then show ?thesis using False Q [of s] ok by (auto simp: cache_ready_def)
next
  case True
  then have e: "ic_begin s = ic_end s" using ok by (auto simp: ic_ok_def)
  show ?thesis unfolding cache_ready_def if_P [OF True]
  proof (rule hoare_bindI, rule cache_update_rule [OF ok e], goal_cases)
    case (1 s')
    show ?case
    proof (cases "ic_end s' = 0")
      case True
      then have "\<not> S" using 1(4) S by (auto simp: ic_rest_def split: option.splits if_splits)
      then show ?thesis using True by (simp add: check_def)
    next
      case False
      then obtain r where "ic_rest s = Some r" "ic_rest s' = Some r"
        using 1(4) by (auto simp: ic_rest_def split: option.splits if_splits)
      then show ?thesis using False 1 Q by simp
    qed
  qed
qed

lemma copy_diff_rule:
  assumes ok: "ic_ok s"
    and S: "S \<Longrightarrow> \<exists>r. ic_rest s = Some r \<and> n \<le> length r \<and> length (ic_new s) + n \<le> lcap (ic_listener s)"
    and Q: "\<And>s'. ic_same s s' \<Longrightarrow> (n = 0 \<and> s' = s) \<or> (\<exists>r. ic_rest s = Some r \<and> n \<le> length r \<and>
        ic_rest s' = Some (drop n r) \<and> ic_new s' = ic_new s @ take n r) \<Longrightarrow> Q s'"
  shows "hoare S (lite_copy_diff s n) Q"
  using assms
proof (induction n arbitrary: s Q rule: less_induct)
  case (less n)
  note [simp] = lite_copy_diff.simps [of s]
  show ?case
  proof (cases "n = 0")
    case True
    then show ?thesis using less.prems(1) less.prems(3) [of s] by simp
  next
    case False
    have unf: "lite_copy_diff s n = rbind (cache_ready s) (\<lambda>s.
        let decodeStep = min (ic_end s - ic_begin s) n in
        rbind (mem_read (ic_buf s) (ic_begin s) decodeStep) (\<lambda>d.
        rbind (lite_write s d) (\<lambda>s.
        lite_copy_diff (s\<lparr>ic_begin := ic_begin s + decodeStep\<rparr>) (n - decodeStep))))"
      using False by simp
    show ?thesis unfolding unf Let_def
    proof (rule hoare_bindI, rule cache_ready_rule [OF less.prems(1)], goal_cases)
      case 1
      then show ?case using less.prems(2) False by auto
    next
      case (2 s1 r)
      let ?k = "min (ic_end s1 - ic_begin s1) n"
      have ok1: "ic_ok s1" using 2 by (simp add: ic_same_def)
      have k: "?k \<le> ic_end s1 - ic_begin s1" "0 < ?k" "?k \<le> n" using 2(5) False by auto
      note tk = ic_rest_take [OF ok1 k(1) 2(5) 2(4)]
      show ?case unfolding tk(4) rbind.simps
      proof (rule hoare_bindI, rule lite_write_rule [OF ok1], goal_cases)
        case 1
        then show ?case using less.prems(2) 2 tk(2) by (auto simp: ic_same_def)
      next
        case (2 s2)
        let ?s3 = "s2\<lparr>ic_begin := ic_begin s2 + ?k\<rparr>"
        have s3: "ic_rest ?s3 = Some (drop ?k r)" "ic_new ?s3 = ic_new s @ take ?k r" "ic_ok ?s3" "ic_same s ?s3"
          using 2 tk(3) \<open>ic_same s s1\<close> \<open>ic_new s1 = ic_new s\<close> k
          by (auto simp: ic_rest_def ic_new_def ic_same_def ic_ok_def split: if_splits)
        have r: "ic_rest s = Some r" by fact
        show ?case
        proof (rule less.IH)
          show "n - ?k < n" using k False by simp
          show "\<exists>r. ic_rest ?s3 = Some r \<and> n - ?k \<le> length r \<and> length (ic_new ?s3) + (n - ?k) \<le> lcap (ic_listener ?s3)" if S
            using less.prems(2) [OF that] s3 r k tk(2) by (auto simp: ic_same_def)
          fix s'
          assume a: "ic_same ?s3 s'" "(n - ?k = 0 \<and> s' = ?s3) \<or> (\<exists>r. ic_rest ?s3 = Some r \<and> n - ?k \<le> length r \<and>
              ic_rest s' = Some (drop (n - ?k) r) \<and> ic_new s' = ic_new ?s3 @ take (n - ?k) r)"
          have sum: "take n r = take ?k r @ take (n - ?k) (drop ?k r)" using k take_add [of ?k "n - ?k" r] by simp
          show "Q s'"
          proof (rule less.prems(3))
            show "ic_same s s'" by (rule ic_same_trans [OF s3(4) a(1)])
            have "n \<le> length r \<and> ic_rest s' = Some (drop n r) \<and> ic_new s' = ic_new s @ take n r"
              using a(2) s3 tk(2) k(3) unfolding sum by (auto simp: min_def split: if_splits)
            then show "(n = 0 \<and> s' = s) \<or> (\<exists>r. ic_rest s = Some r \<and> n \<le> length r \<and>
              ic_rest s' = Some (drop n r) \<and> ic_new s' = ic_new s @ take n r)" using r by blast
          qed
        qed (rule s3(3))
      qed
    qed
  qed
qed

lemma add_spec_step:
  assumes "0 < k" "k \<le> n" "p + k \<le> length old"
  shows "add_spec old noSub p n r =
    Option.bind (add_spec old noSub p k r) (\<lambda>(d, r). map_option (\<lambda>(e, r). (d @ e, r)) (add_spec old noSub (p + k) (n - k) r))"
proof -
  have "take n (drop p old) = take k (drop p old) @ take (n - k) (drop (p + k) old)"
    using take_add [of k "n - k" "drop p old"] assms(2) by (simp add: add.commute)
  moreover have "take n r = take k r @ take (n - k) (drop k r)" using take_add [of k "n - k" r] assms(2) by simp
  moreover have "p + k + (n - k) = p + n" using assms(2) by simp
  ultimately show ?thesis using assms by (auto simp: add_spec_def bytes_add_append)
qed

lemma add_old_rule:
  assumes ok: "ic_ok s" and p: "p < 2 ^ 32" and t: "length (ic_buf s) \<le> temp_size"
    and S: "S \<Longrightarrow> \<exists>r. ic_rest s = Some r \<and> add_spec (lold (ic_listener s)) noSub p n r \<noteq> None \<and>
      length (ic_new s) + n \<le> lcap (ic_listener s)"
    and Q: "\<And>s'. ic_same s s' \<Longrightarrow> (n = 0 \<and> s' = s) \<or> (\<exists>r d r'. ic_rest s = Some r \<and>
        add_spec (lold (ic_listener s)) noSub p n r = Some (d, r') \<and> ic_rest s' = Some r' \<and> ic_new s' = ic_new s @ d) \<Longrightarrow> Q s'"
    and G: "\<And>r. ic_rest s = Some r \<Longrightarrow> 0 < n \<Longrightarrow> lguard (length (ic_new s)) p"
  shows "hoare S (lite_add_old temp_size s noSub p n) Q"
  using assms
proof (induction n arbitrary: s p Q rule: less_induct)
  case (less n)
  show ?case
  proof (cases "n = 0")
    case True
    then show ?thesis using less.prems(1) less.prems(5) [of s] by (simp add: lite_add_old.simps [of _ s])
  next
    case False
    let ?old = "lold (ic_listener s)"
    define body where "body = (\<lambda>(decodeStep, s :: 'l TInputCache).
        rbind (check (decodeStep > 0)) (\<lambda>_.
        let decodeStep = min decodeStep n in
        rbind (require (decodeStep \<le> temp_size)) (\<lambda>_.
        rbind (lite_read_old s p decodeStep) (\<lambda>(temp, s).
        rbind (if noSub then Ok (temp, s)
               else rbind (mem_read (ic_buf s) (ic_begin s) decodeStep) (\<lambda>d.
                    Ok (bytes_add temp d, s\<lparr>ic_begin := ic_begin s + decodeStep\<rparr>))) (\<lambda>(temp, s).
        rbind (lite_write s temp) (\<lambda>s.
        lite_add_old temp_size s noSub (add32 p decodeStep) (n - decodeStep)))))))"
    have unf: "lite_add_old temp_size s noSub p n =
        rbind (if noSub then Ok (ic_end s, s)
               else if ic_end s - ic_begin s = 0 then
                 rbind (cache_update s) (\<lambda>(_, s). Ok (ic_end s - ic_begin s, s))
               else Ok (ic_end s - ic_begin s, s)) body"
      using False by (simp add: lite_add_old.simps [of _ s] body_def)
    have step: "hoare S (body (k, s1)) Q" if s1: "ic_same s s1" "ic_new s1 = ic_new s" "ic_rest s1 = ic_rest s"
      "k > 0" "k \<le> ic_end s1" "\<not> noSub \<Longrightarrow> k \<le> ic_end s1 - ic_begin s1" for k s1
    proof -
      have ok1: "ic_ok s1" using s1 by (simp add: ic_same_def)
      obtain r where r: "ic_rest s = Some r" "ic_rest s1 = Some r" using s1(3,4,5) by (auto simp: ic_rest_def split: if_splits)
      let ?k = "min k n"
      have k: "0 < ?k" "?k \<le> n" "?k \<le> temp_size" using s1 ok1 less.prems(3) False by (auto simp: ic_ok_def ic_same_def)
      have old1: "lold (ic_listener s1) = ?old" using s1 by (simp add: ic_same_def)
      have G1: "lguard (length (ic_new s1)) p" using less.prems(6) r(1) False s1(2) by simp
      have Sp: "p + n \<le> length ?old" if S using less.prems(4) [OF that] r False by (auto simp: add_spec_def split: if_splits)
      have "hoare S (rbind (lite_read_old s1 p ?k) (\<lambda>(temp, s).
        rbind (if noSub then Ok (temp, s)
               else rbind (mem_read (ic_buf s) (ic_begin s) ?k) (\<lambda>d.
                    Ok (bytes_add temp d, s\<lparr>ic_begin := ic_begin s + ?k\<rparr>))) (\<lambda>(temp, s).
        rbind (lite_write s temp) (\<lambda>s.
        lite_add_old temp_size s noSub (add32 p ?k) (n - ?k))))) Q"
      proof (rule hoare_bindI, rule lite_read_old_rule [OF ok1 less.prems(2) G1], goal_cases)
        case 1
        then show ?case using Sp k old1 by simp
      next
        case (2 s2)
        note s2 = 2
        have ok2: "ic_ok s2" using s2 by (simp add: ic_same_def)
        have r2: "ic_rest s2 = Some r" using r(2) ic_rest_cong [OF s2(4-7)] by simp
        have kk: "\<not> noSub \<Longrightarrow> ?k \<le> ic_end s2 - ic_begin s2 \<and> 0 < ic_end s2 - ic_begin s2" using s1 s2 k(1) by auto
        have len: "length ?old < 2 ^ 32" using old_size less.prems(1) by (simp add: ic_ok_def)
        have e: "add32 p ?k = p + ?k" using s2(1) old1 len by (simp add: add32_def)
        define s3 where "s3 = (if noSub then s2 else s2\<lparr>ic_begin := ic_begin s2 + ?k\<rparr>)"
        obtain d r' where dr: "add_spec ?old noSub p ?k r = Some (d, r')"
          and run: "(if noSub then Ok (take ?k (drop p ?old), s2)
               else rbind (mem_read (ic_buf s2) (ic_begin s2) ?k) (\<lambda>x.
                    Ok (bytes_add (take ?k (drop p ?old)) x, s2\<lparr>ic_begin := ic_begin s2 + ?k\<rparr>))) = Ok (d, s3)"
          and r3: "ic_rest s3 = Some r'" and d: "length d = ?k"
        proof (cases noSub)
          case True
          then show ?thesis using that s2(1) old1 r2 k(1) by (simp add: add_spec_def s3_def split: if_splits)
        next
          case sub: False
          note tk = ic_rest_take [OF ok2 kk [OF sub, THEN conjunct1] kk [OF sub, THEN conjunct2] r2]
          show ?thesis using that sub s2(1) old1 tk(2-4) k(1) by (simp add: add_spec_def s3_def split: if_splits)
        qed
        have ok3: "ic_ok s3" "ic_same s2 s3" "ic_new s3 = ic_new s2"
          using ok2 kk by (auto simp: s3_def ic_ok_def ic_same_def ic_new_def)
        show ?case unfolding old1 prod.case run rbind.simps
        proof (rule hoare_bindI, rule lite_write_rule [OF ok3(1)], goal_cases)
          case 1
          then show ?case using less.prems(4) s1 s2 ok3 d by (auto simp: ic_same_def)
        next
          case (2 s4)
          have s4: "ic_same s s4" "ic_new s4 = ic_new s @ d" "ic_rest s4 = Some r'"
            using 2 s1 s2 ok3 r3 ic_rest_cong [OF 2(3-6)] by (auto simp: ic_same_def)
          have all: "add_spec ?old noSub p n r = map_option (\<lambda>(e, r). (d @ e, r)) (add_spec ?old noSub (p + ?k) (n - ?k) r')"
            using add_spec_step [OF k(1,2), of p ?old noSub r] s2(1) old1 dr by simp
          have old4: "lold (ic_listener s4) = ?old" "lcap (ic_listener s4) = lcap (ic_listener s)" using s4 by (simp_all add: ic_same_def)
          show ?case unfolding e
          proof (rule less.IH)
            show "n - ?k < n" using k by simp
            show "p + ?k < 2 ^ 32" using s2(1) old1 len by simp
            show "lguard (length (ic_new s4)) (p + ?k)"
              using guard_shift [OF less.prems(6) [OF r(1)], of ?k] False s4(2) d by simp
            show "length (ic_buf s4) \<le> temp_size" using s4(1) less.prems(3) by (simp add: ic_same_def)
            show "\<exists>r. ic_rest s4 = Some r \<and> add_spec (lold (ic_listener s4)) noSub (p + ?k) (n - ?k) r \<noteq> None \<and>
              length (ic_new s4) + (n - ?k) \<le> lcap (ic_listener s4)" if S
              using less.prems(4) [OF that] r(1) all s4 old4 d k(2) by auto
            fix s'
            assume a: "ic_same s4 s'" "(n - ?k = 0 \<and> s' = s4) \<or> (\<exists>r d r'. ic_rest s4 = Some r \<and>
              add_spec (lold (ic_listener s4)) noSub (p + ?k) (n - ?k) r = Some (d, r') \<and> ic_rest s' = Some r' \<and> ic_new s' = ic_new s4 @ d)"
            show "Q s'"
            proof (rule less.prems(5))
              show "ic_same s s'" by (rule ic_same_trans [OF s4(1) a(1)])
              have zero: "add_spec ?old noSub (p + ?k) 0 r' = Some ([], r')"
                using s2(1) old1 by (simp add: add_spec_def)
              show "(n = 0 \<and> s' = s) \<or> (\<exists>r d r'. ic_rest s = Some r \<and> add_spec ?old noSub p n r = Some (d, r') \<and>
                 ic_rest s' = Some r' \<and> ic_new s' = ic_new s @ d)"
                using a(2) r(1) all s4(2,3) old4(1) zero by auto
            qed
          qed (use s4 in \<open>simp add: ic_same_def\<close>)
        qed
      qed
      then show ?thesis using s1(4) k(3) by (simp add: body_def Let_def)
    qed
    have empty: "hoare S (body (0, s1)) Q" if "\<not> S" for s1 using that by (simp add: body_def)
    show ?thesis
    proof (cases "noSub \<or> ic_end s - ic_begin s \<noteq> 0")
      case True
      have "hoare S (body (if noSub then ic_end s else ic_end s - ic_begin s, s)) Q"
      proof (cases "ic_end s = 0")
        case True
        then have "\<not> S" using less.prems(4) by (auto simp: ic_rest_def)
        then show ?thesis using empty True by simp
      next
        case False
        then show ?thesis using True less.prems(1) by (intro step) (auto simp: ic_ok_def)
      qed
      then show ?thesis unfolding unf using True by (cases noSub) auto
    next
      case no: False
      then have em: "ic_begin s = ic_end s" using less.prems(1) by (auto simp: ic_ok_def)
      have unf2: "lite_add_old temp_size s noSub p n = rbind (cache_update s) (\<lambda>(_, s). body (ic_end s - ic_begin s, s))"
        unfolding unf using no by (simp add: rbind_assoc split_def)
      show ?thesis unfolding unf2
      proof (rule hoare_bindI, rule cache_update_rule [OF less.prems(1) em], goal_cases)
        case (1 s1)
        show ?case
        proof (cases "ic_end s1 = 0")
          case True
          then have "\<not> S" using less.prems(4) 1(4) no False
            by (auto simp: ic_rest_def add_spec_def split: option.splits if_splits)
          then show ?thesis using empty True by simp
        next
          case False
          then have "ic_rest s1 = ic_rest s" using 1(4) by (auto simp: ic_rest_def split: option.splits if_splits)
          then show ?thesis using 1 False step [of s1] by simp
        qed
      qed
    qed
  qed
qed

lemma read_cover_rule:
  assumes ok: "ic_ok s" and fuel: "length (case ic_rest s of None \<Rightarrow> [] | Some r \<Rightarrow> r) < fuel"
    and Q: "\<And>len op np noSub s'. ic_same s s' \<Longrightarrow> ic_new s' = ic_new s \<Longrightarrow> op < 2 ^ 32 \<Longrightarrow> np < 2 ^ 32 \<Longrightarrow>
      (case Option.bind (ic_rest s) (lite_head newBack oldBack) of
         Some (y, r) \<Rightarrow> (len, op, np, noSub) = y \<and> ic_rest s' = Some r | None \<Rightarrow> ic_rest s' = None) \<Longrightarrow>
      length (case ic_rest s' of None \<Rightarrow> [] | Some r \<Rightarrow> r) < fuel \<Longrightarrow> Q ((len, op, np, noSub), s')"
  shows "hoare S (lite_read_cover fuel newBack oldBack s) Q"
proof -
  have e32: "add32 a b < 2 ^ 32" "sub32 a b < 2 ^ 32" for a b by (simp_all add: add32_def sub32_def)
  show ?thesis unfolding lite_read_cover_def
  proof (rule hoare_bindI, rule unpackUInt_rule [OF ok fuel], goal_cases)
    case (1 len s1)
    have f1: "length (case ic_rest s1 of None \<Rightarrow> [] | Some r \<Rightarrow> r) < fuel"
      using 1(3) fuel by (auto split: option.splits dest!: lite_unpack_shorter)
    note r1 = 1
    show ?case unfolding prod.case
    proof (rule hoare_bindI, rule read_1byte_rule [OF ic_sameD(1) [OF 1(1)]], goal_cases)
      case (1 tag s2)
      have f2: "length (case ic_rest s2 of None \<Rightarrow> [] | Some r \<Rightarrow> r) < fuel"
        using 1(3) f1 by (auto split: option.splits list.splits)
      note r2 = 1
      show ?case unfolding prod.case
      proof (rule hoare_bindI, rule unpackUInt_rule [OF ic_sameD(1) [OF 1(1)] f2], goal_cases)
        case (1 inc s3)
        have f3: "length (case ic_rest s3 of None \<Rightarrow> [] | Some r \<Rightarrow> r) < fuel"
          using 1(3) f2 by (auto split: option.splits dest!: lite_unpack_shorter)
        note r3 = 1
        show ?case unfolding prod.case Let_def
        proof (rule hoare_bindI, rule unpackUInt_rule [OF ic_sameD(1) [OF 1(1)] f3], goal_cases)
          case (1 gap s4)
          note r4 = 1
          have f4: "length (case ic_rest s4 of None \<Rightarrow> [] | Some r \<Rightarrow> r) < fuel"
            using 1(3) f3 by (auto split: option.splits dest!: lite_unpack_shorter)
          let ?op = "if bit tag 6 then sub32 oldBack inc else add32 inc oldBack"
          have same: "ic_same s s4" using r1(1) r2(1) r3(1) r4(1) ic_same_trans by blast
          have "Q ((len, ?op, add32 gap newBack, drop_bit 7 (unat tag) \<noteq> 0), s4)"
          proof (rule Q [OF same])
            show "case Option.bind (ic_rest s) (lite_head newBack oldBack) of
               Some (y, r) \<Rightarrow> (len, ?op, add32 gap newBack, drop_bit 7 (unat tag) \<noteq> 0) = y \<and> ic_rest s4 = Some r
             | None \<Rightarrow> ic_rest s4 = None"
              using r1(3) r2(3) r3(3) r4(3)
              by (cases "ic_rest s") (auto simp: lite_head_def Let_def split: option.splits list.splits)
          qed (use r1 r2 r3 r4 f4 e32 in auto)
          then show ?case by simp
        qed
      qed
    qed
  qed
qed

definition lite_fits :: "nat \<Rightarrow> 'l TInputCache \<Rightarrow> bool" where
  "lite_fits fuel s \<longleftrightarrow> length (case ic_rest s of None \<Rightarrow> [] | Some r \<Rightarrow> r) < fuel"

text \<open>A cover; past the end of the diff anything may have been written, and the end will refuse it.\<close>

lemma lite_cover_rule:
  assumes ok: "ic_ok (ls_diff st)" "lite_fits fuel (ls_diff st)" "length (ic_buf (ls_diff st)) \<le> temp_size"
    and S: "S \<Longrightarrow> \<exists>r d r' x. ic_rest (ls_diff st) = Some r \<and>
      lite_cover_spec (lold (ic_listener (ls_diff st))) left (ls_newPosBack st) (ls_oldPosBack st) r = Some (d, r', x) \<and>
      length (ic_new (ls_diff st)) + length d \<le> lcap (ic_listener (ls_diff st))"
    and Q: "\<And>st'. ic_same (ls_diff st) (ls_diff st') \<Longrightarrow> lite_fits fuel (ls_diff st') \<Longrightarrow>
      (ic_rest (ls_diff st') = None \<and> \<not> S) \<or>
      (\<exists>r d r'. ic_rest (ls_diff st) = Some r \<and>
        lite_cover_spec (lold (ic_listener (ls_diff st))) left (ls_newPosBack st) (ls_oldPosBack st) r
          = Some (d, r', ls_newPosBack st', ls_oldPosBack st') \<and>
        ic_rest (ls_diff st') = Some r' \<and> ic_new (ls_diff st') = ic_new (ls_diff st) @ d) \<Longrightarrow> Q st'"
    and G: "\<And>r. ic_rest (ls_diff st) = Some r \<Longrightarrow>
      lite_safe1 lguard (length (ic_new (ls_diff st))) (ls_newPosBack st) (ls_oldPosBack st) r"
  shows "hoare S (lite_cover fuel temp_size left st) Q"
proof -
  let ?old = "lold (ic_listener (ls_diff st))" and ?nb = "ls_newPosBack st" and ?ob = "ls_oldPosBack st"
  let ?spec = "\<lambda>r. lite_cover_spec ?old left ?nb ?ob r"
  show ?thesis unfolding lite_cover_def
  proof (rule hoare_bindI, rule read_cover_rule [OF ok(1) ok(2) [unfolded lite_fits_def]], goal_cases)
    case (1 len op np noSub s1)
    note h = 1
    have old1: "lold (ic_listener s1) = ?old" "lcap (ic_listener s1) = lcap (ic_listener (ls_diff st))"
      "length (ic_buf s1) = length (ic_buf (ls_diff st))" using h(1) by (simp_all add: ic_same_def)
    text \<open>Either the diff is used up or the head was read.\<close>
    have head: "ic_rest s1 = None \<and> \<not> S \<or> (\<exists>r r1. ic_rest (ls_diff st) = Some r \<and> ic_rest s1 = Some r1 \<and>
        lite_head ?nb ?ob r = Some ((len, op, np, noSub), r1))"
      using h(5) S by (auto simp: lite_cover_spec_def split: option.splits bind_splits)
    have S1: "\<exists>r1 d r'. ic_rest s1 = Some r1 \<and> ?nb \<le> np \<and> np - ?nb \<le> length r1 \<and> (len > 0 \<or> left = 0) \<and>
        add_spec ?old noSub op len (drop (np - ?nb) r1) = Some (d, r') \<and>
        length (ic_new s1) + (np - ?nb) + length d \<le> lcap (ic_listener s1)" if S
      using S [OF that] head that h(2) old1(2) by (fastforce simp: lite_cover_spec_def Let_def split: if_splits)
    show ?case unfolding prod.case
    proof (rule hoare_bindI, rule hoare_weaken [where S = S, OF hoare_check], goal_cases)
      case 1
      then show ?case using S1 by auto
    next
      case (3 _)
      have gap: "(if ?nb < np then lite_copy_diff s1 (np - ?nb) else Ok s1) = lite_copy_diff s1 (np - ?nb)"
        using 3 by (simp add: lite_copy_diff.simps)
      show ?case unfolding gap
      proof (rule hoare_bindI, rule copy_diff_rule [OF ic_sameD(1) [OF h(1)]], goal_cases)
        case 1
        then show ?case using S1 by fastforce
      next
        case (2 s2)
        note c = 2
        have old2: "lold (ic_listener s2) = ?old" "lcap (ic_listener s2) = lcap (ic_listener s1)"
          "length (ic_buf s2) = length (ic_buf (ls_diff st))" using c(1) old1 by (simp_all add: ic_same_def)
        have r2: "ic_rest s1 = None \<and> ic_rest s2 = None \<or> (\<exists>r1. ic_rest s1 = Some r1 \<and> np - ?nb \<le> length r1 \<and>
            ic_rest s2 = Some (drop (np - ?nb) r1) \<and> ic_new s2 = ic_new s1 @ take (np - ?nb) r1)"
          using c(2) by (cases "ic_rest s1") auto
        show ?case
        proof (rule hoare_bindI, rule add_old_rule [OF ic_sameD(1) [OF c(1)] h(3)], goal_cases)
          case 1
          then show ?case using old2 ok(3) by simp
        next
          case 2
          then obtain r1 d r' where x: "ic_rest s1 = Some r1" "np - ?nb \<le> length r1"
            "add_spec ?old noSub op len (drop (np - ?nb) r1) = Some (d, r')"
            "length (ic_new s1) + (np - ?nb) + length d \<le> lcap (ic_listener s1)" using S1 by blast
          moreover have "len \<le> length d" using x(3) by (auto simp: add_spec_def split: if_splits)
          ultimately show ?case using r2 old2 by auto
        next
          case (4 r)
          then obtain r0 r1 where x: "ic_rest (ls_diff st) = Some r0" "ic_rest s1 = Some r1"
            "lite_head ?nb ?ob r0 = Some ((len, op, np, noSub), r1)" using r2 head by auto
          show ?case using G [OF x(1)] r2 x 4 h(2) \<open>?nb \<le> np\<close> by (auto simp: lite_safe1_def)
        next
          case (3 s3)
          note a = 3
          show ?case
          proof (rule hoare_bindI, rule hoare_weaken [where S = S, OF hoare_check], goal_cases)
            case 1
            then show ?case using S1 by auto
          next
            case (3 _)
            let ?st = "\<lparr>ls_diff = s3, ls_newPosBack = add32 np len, ls_oldPosBack = add32 op len\<rparr>"
            have same: "ic_same (ls_diff st) s3" using ic_same_trans [OF ic_same_trans [OF h(1) c(1)] a(1)] .
            have zero: "add_spec ?old noSub op 0 r = Some ([], r)" for r by (simp add: add_spec_def)
            have r3: "(ic_rest s3 = None \<and> \<not> S) \<or> (\<exists>r1 d r'. ic_rest s1 = Some r1 \<and> np - ?nb \<le> length r1 \<and>
                add_spec ?old noSub op len (drop (np - ?nb) r1) = Some (d, r') \<and> ic_rest s3 = Some r' \<and>
                ic_new s3 = ic_new s1 @ take (np - ?nb) r1 @ d)"
              using a(2)
            proof (elim disjE, goal_cases)
              case 1
              then show ?thesis using r2 zero head by auto
            next
              case 2
              then show ?thesis using r2 old2(1) by auto
            qed
            have fits: "lite_fits fuel s3"
              using r3 h(6) by (auto simp: lite_fits_def add_spec_def split: if_splits)
            have "Q ?st"
            proof (rule Q)
              show "(ic_rest (ls_diff ?st) = None \<and> \<not> S) \<or> (\<exists>r d r'. ic_rest (ls_diff st) = Some r \<and>
                  ?spec r = Some (d, r', ls_newPosBack ?st, ls_oldPosBack ?st) \<and>
                  ic_rest (ls_diff ?st) = Some r' \<and> ic_new (ls_diff ?st) = ic_new (ls_diff st) @ d)"
                using r3 head h(2) 3 \<open>?nb \<le> np\<close> by (auto simp: lite_cover_spec_def Let_def)
            qed (use same fits in simp_all)
            then show ?case by simp
          qed auto
        qed
      qed
    qed auto
  qed
qed

lemma lite_covers_rule:
  assumes "ic_ok (ls_diff st)" "lite_fits fuel (ls_diff st)" "length (ic_buf (ls_diff st)) \<le> temp_size"
    and "S \<Longrightarrow> \<exists>r d x. ic_rest (ls_diff st) = Some r \<and>
      lite_covers_spec (lold (ic_listener (ls_diff st))) n (ls_newPosBack st) (ls_oldPosBack st) r = Some (d, x) \<and>
      length (ic_new (ls_diff st)) + length d \<le> lcap (ic_listener (ls_diff st))"
    and "\<And>st'. ic_same (ls_diff st) (ls_diff st') \<Longrightarrow> (ic_rest (ls_diff st') = None \<and> \<not> S) \<or>
      (\<exists>r d r'. ic_rest (ls_diff st) = Some r \<and>
        lite_covers_spec (lold (ic_listener (ls_diff st))) n (ls_newPosBack st) (ls_oldPosBack st) r
          = Some (d, r', ls_newPosBack st') \<and>
        ic_rest (ls_diff st') = Some r' \<and> ic_new (ls_diff st') = ic_new (ls_diff st) @ d) \<Longrightarrow> Q st'"
    and "\<And>r. ic_rest (ls_diff st) = Some r \<Longrightarrow>
      lite_safe lguard (lold (ic_listener (ls_diff st))) n (length (ic_new (ls_diff st))) (ls_newPosBack st) (ls_oldPosBack st) r"
  shows "hoare S (lite_covers fuel temp_size n st) Q"
  using assms
proof (induction n arbitrary: st Q)
  case 0
  have "Q st" by (rule 0(5)) (use 0(1,4) in \<open>cases "ic_rest (ls_diff st)", auto\<close>)
  then show ?case by simp
next
  case (Suc n)
  let ?old = "lold (ic_listener (ls_diff st))"
  show ?case unfolding lite_covers.simps
  proof (rule hoare_bindI, rule lite_cover_rule [OF Suc.prems(1-3)], goal_cases)
    case 1
    then show ?case using Suc.prems(4) by (fastforce simp: bind_eq_Some_conv)
  next
    case (3 r)
    then show ?case using Suc.prems(6) by simp
  next
    case (2 st1)
    have same: "lold (ic_listener (ls_diff st1)) = ?old" "lcap (ic_listener (ls_diff st1)) = lcap (ic_listener (ls_diff st))"
      "length (ic_buf (ls_diff st1)) = length (ic_buf (ls_diff st))" "ic_ok (ls_diff st1)"
      using 2(1) by (simp_all add: ic_same_def)
    show ?case
    proof (rule Suc.IH)
      show "\<exists>r d x. ic_rest (ls_diff st1) = Some r \<and>
        lite_covers_spec (lold (ic_listener (ls_diff st1))) n (ls_newPosBack st1) (ls_oldPosBack st1) r = Some (d, x) \<and>
        length (ic_new (ls_diff st1)) + length d \<le> lcap (ic_listener (ls_diff st1))" if S
        using Suc.prems(4) [OF that] 2(3) same(1,2) that by (auto simp: bind_eq_Some_conv)
      show "lite_safe lguard (lold (ic_listener (ls_diff st1))) n (length (ic_new (ls_diff st1))) (ls_newPosBack st1)
          (ls_oldPosBack st1) r" if "ic_rest (ls_diff st1) = Some r" for r
        using 2(3) Suc.prems(6) that same(1) by auto
      fix st' :: "'l lite_state"
      assume a: "ic_same (ls_diff st1) (ls_diff st')" "(ic_rest (ls_diff st') = None \<and> \<not> S) \<or> (\<exists>r d r'. ic_rest (ls_diff st1) = Some r \<and>
        lite_covers_spec (lold (ic_listener (ls_diff st1))) n (ls_newPosBack st1) (ls_oldPosBack st1) r
          = Some (d, r', ls_newPosBack st') \<and>
        ic_rest (ls_diff st') = Some r' \<and> ic_new (ls_diff st') = ic_new (ls_diff st1) @ d)"
      show "Q st'"
        by (rule Suc.prems(5) [OF ic_same_trans [OF 2(1) a(1)]]) (use a(2) 2(3) same(1) in auto)
    qed (use same 2(2) Suc.prems(3) in auto)
  qed
qed

text \<open>The whole.\<close>

lemma hpatch_lite_rule:
  assumes l: "lok l" "lnew l = []" and fuel: "length (ldiff l) < fuel" and t: "t < 2 ^ 32"
    and S: "S \<Longrightarrow> t \<ge> 2 \<and> (\<exists>new. lite_spec (lold l) newSize (ldiff l) = Some new \<and> length new \<le> lcap l)"
    and Q: "\<And>l'. lok l' \<Longrightarrow> lold l' = lold l \<Longrightarrow> lcap l' = lcap l \<Longrightarrow> lite_spec (lold l) newSize (ldiff l) = Some (lnew l') \<Longrightarrow> Q l'"
    and G: "lite_safe_diff lguard (lold l) (ldiff l)"
  shows "hoare S (hpatch_lite_patch fuel l newSize t) Q"
proof -
  define s where "s = \<lparr>ic_begin = drop_bit 1 t, ic_end = drop_bit 1 t, ic_buf = replicate (drop_bit 1 t) 0, ic_listener = l\<rparr>"
  have half: "drop_bit 1 t = t div 2" "drop_bit (Suc 0) t = t div 2" by (simp_all add: drop_bit_eq_div)
  show ?thesis unfolding hpatch_lite_patch_def Let_def s_def [symmetric]
  proof (rule hoare_bindI, rule hoare_weaken [where S = S, OF hoare_check], goal_cases)
    case 1
    then show ?case using S by (simp add: hpi_kMinCacheSize_def)
  next
    case (3 _)
    then have t2: "1 \<le> t div 2" by (simp add: hpi_kMinCacheSize_def)
    have s: "ic_ok s" "ic_rest s = Some (ldiff l)" "ic_new s = []" "lold (ic_listener s) = lold l" "lcap (ic_listener s) = lcap l"
      "length (ic_buf s) = t div 2"
      using l t t2 by (auto simp: s_def ic_ok_def ic_rest_def ic_new_def half)
    show ?case
    proof (rule hoare_bindI, rule unpackUInt_rule [OF s(1)], goal_cases)
      case 1
      then show ?case using fuel s by simp
    next
      case (2 n s1)
      note u = 2
      have same: "lold (ic_listener s1) = lold l" "lcap (ic_listener s1) = lcap l" "length (ic_buf s1) = t div 2" "ic_ok s1"
        using u(1) s by (simp_all add: ic_same_def)
      have fits: "lite_fits fuel s1" using u(3) s(2) fuel
        by (auto simp: lite_fits_def split: option.splits dest!: lite_unpack_shorter)
      show ?case unfolding prod.case half
      proof (rule hoare_bindI, rule lite_covers_rule, goal_cases)
        case 4
        then show ?case using S [OF 4] u(2,3) s(2,3) same by (auto simp: lite_spec_def bind_eq_Some_conv split: option.splits if_splits)
      next
        case (6 r)
        then show ?case using G u(2,3) s(2,3) same by (auto simp: lite_safe_diff_def split: option.splits)
      next
        case (5 st)
        show ?case
        proof (rule hoare_bindI, rule hoare_weaken [where S = S, OF hoare_check], goal_cases)
          case 1
          have "newSize = ls_newPosBack st \<and> ic_rest (ls_diff st) \<noteq> None"
            using S [OF 1] 1 5(2) u(3) s(2) same by (auto simp: lite_spec_def bind_eq_Some_conv split: option.splits if_splits)
          then show ?case by (auto simp: cache_success_finish_def ic_rest_def split: if_splits)
        next
          case (3 _)
          then have "ic_rest (ls_diff st) \<noteq> None" by (simp add: ic_rest_def cache_success_finish_def)
          then have "Q (ic_listener (ls_diff st))"
            using 5 u s(2,3) same 3 by (intro Q) (auto simp: ic_same_def ic_ok_def ic_new_def lite_spec_def split: option.splits)
          then show ?case by simp
        qed auto
      qed (use same fits in simp_all)
    qed
  qed auto
qed

end

section \<open>A listener in memory\<close>

record mem_lite =
  ml_diff :: "byte list"
  ml_old :: "byte list"
  ml_new :: "byte list"
  ml_cap :: nat

definition mem_listener :: "mem_lite \<Rightarrow> mem_lite hpatchi_listener" where
  "mem_listener m =
     \<lparr>li_state = m,
      li_read_diff = (\<lambda>m n. (Some (take n (ml_diff m)), m\<lparr>ml_diff := drop n (ml_diff m)\<rparr>)),
      li_read_old = (\<lambda>m p n. if p + n \<le> length (ml_old m) then Ok (take n (drop p (ml_old m)), m) else Fail),
      li_write_new = (\<lambda>m d. if length (ml_new m) + length d \<le> ml_cap m
                             then Ok (m\<lparr>ml_new := ml_new m @ d\<rparr>) else Fail)\<rparr>"

definition mem_lite_ok :: "mem_lite hpatchi_listener \<Rightarrow> bool" where
  "mem_lite_ok l \<longleftrightarrow> l = mem_listener (li_state l) \<and> length (ml_old (li_state l)) < 2 ^ 32"

interpretation mem_lite: lite_io mem_lite_ok "\<lambda>l. ml_diff (li_state l)" "\<lambda>l. ml_old (li_state l)"
  "\<lambda>l. ml_new (li_state l)" "\<lambda>l. ml_cap (li_state l)" always_safe
proof
  have up: "mem_lite_ok l \<Longrightarrow> l\<lparr>li_state := m\<rparr> = mem_listener m" for l m
    unfolding mem_lite_ok_def by (metis (no_types, lifting) mem_listener_def hpatchi_listener.update_convs(1))
  have f: "mem_lite_ok l \<Longrightarrow> li_read_diff l = li_read_diff (mem_listener m) \<and> li_read_old l = li_read_old (mem_listener m) \<and>
      li_write_new l = li_write_new (mem_listener m)" for l m
    unfolding mem_lite_ok_def by (metis (no_types, lifting) mem_listener_def hpatchi_listener.select_convs(2-4))
  fix l :: "mem_lite hpatchi_listener" and n pos :: nat and d :: "byte list"
  assume ok: "mem_lite_ok l"
  note l = f [OF ok, of "li_state l"] up [OF ok]
  have old: "length (ml_old (li_state l)) < 2 ^ 32" using ok by (simp add: mem_lite_ok_def)
  have st: "li_state (mem_listener m) = m" for m by (simp add: mem_listener_def)
  have mk: "mem_lite_ok (mem_listener m)" if "ml_old m = ml_old (li_state l)" for m
    using old that by (simp add: mem_lite_ok_def st)
  show "case li_read_diff l (li_state l) n of
         (x, st) \<Rightarrow> let l' = l\<lparr>li_state := st\<rparr> in
           x = Some (take n (ml_diff (li_state l))) \<and> mem_lite_ok l' \<and> ml_diff (li_state l') = drop n (ml_diff (li_state l)) \<and>
           ml_old (li_state l') = ml_old (li_state l) \<and> ml_new (li_state l') = ml_new (li_state l) \<and> ml_cap (li_state l') = ml_cap (li_state l)"
    using l mk by (simp add: Let_def st) (simp add: mem_listener_def)
  show "hoare (pos + n \<le> length (ml_old (li_state l))) (li_read_old l (li_state l) pos n) (\<lambda>(d, st). let l' = l\<lparr>li_state := st\<rparr> in
        pos + n \<le> length (ml_old (li_state l)) \<and> d = take n (drop pos (ml_old (li_state l))) \<and> mem_lite_ok l' \<and>
        ml_diff (li_state l') = ml_diff (li_state l) \<and> ml_old (li_state l') = ml_old (li_state l) \<and>
        ml_new (li_state l') = ml_new (li_state l) \<and> ml_cap (li_state l') = ml_cap (li_state l))"
    using l mk by (simp add: Let_def st) (simp add: mem_listener_def)
  show "hoare (length (ml_new (li_state l)) + length d \<le> ml_cap (li_state l)) (li_write_new l (li_state l) d) (\<lambda>st. let l' = l\<lparr>li_state := st\<rparr> in
        mem_lite_ok l' \<and> ml_diff (li_state l') = ml_diff (li_state l) \<and> ml_old (li_state l') = ml_old (li_state l) \<and>
        ml_new (li_state l') = ml_new (li_state l) @ d \<and> ml_cap (li_state l') = ml_cap (li_state l))"
    using l mk by (simp add: Let_def st) (simp add: mem_listener_def)
  show "length (ml_old (li_state l)) < 2 ^ 32" by (rule old)
qed (simp_all add: always_safe_def)

section \<open>Properties\<close>

text \<open>C18: the small patcher, with a cache of any size from the least documented two bytes on,
  returns for every (also malformed or cut off) diff; it never leaves its buffers or breaks an
  assertion; it writes exactly the new data that the diff means, and fails exactly when the diff
  means nothing, a read is out of the old data, or the room for the new data is too small.\<close>

theorem hpatch_lite_refines_spec:
  assumes "length diff < fuel" "length old < 2 ^ 32" "2 \<le> t" "t < 2 ^ 32"
    and "\<And>new. lite_spec old newSize diff = Some new \<Longrightarrow> length new \<le> cap"
  shows "(case hpatch_lite_patch fuel (mem_listener \<lparr>ml_diff = diff, ml_old = old, ml_new = [], ml_cap = cap\<rparr>) newSize t of
            Ok l \<Rightarrow> lite_spec old newSize diff = Some (ml_new (li_state l)) | Fail \<Rightarrow> lite_spec old newSize diff = None
          | Fault \<Rightarrow> False)"
proof -
  let ?l = "mem_listener \<lparr>ml_diff = diff, ml_old = old, ml_new = [], ml_cap = cap\<rparr>"
  have l: "li_state ?l = \<lparr>ml_diff = diff, ml_old = old, ml_new = [], ml_cap = cap\<rparr>" "mem_lite_ok ?l"
    using assms(2) by (simp_all add: mem_lite_ok_def mem_listener_def)
  have "hoare (lite_spec old newSize diff \<noteq> None) (hpatch_lite_patch fuel ?l newSize t)
      (\<lambda>l. lite_spec old newSize diff = Some (ml_new (li_state l)))"
    by (rule mem_lite.hpatch_lite_rule [OF l(2)]) (use assms l in auto)
  then show ?thesis by (cases "hpatch_lite_patch fuel ?l newSize t") auto
qed

text \<open>A diff of one cover: two literal bytes, then two old bytes with the diff's bytes added.\<close>

theorem hpatch_lite_refines_spec_witness:
  "\<exists>l. hpatch_lite_patch 10 (mem_listener \<lparr>ml_diff = [1, 2, 1, 2, 7, 8, 1, 1], ml_old = [5, 6, 9], ml_new = [], ml_cap = 4\<rparr>) 4 2 = Ok l \<and>
     ml_new (li_state l) = [7, 8, 7, 10]"
proof -
  have spec: "lite_spec [5, 6, 9] 4 [1, 2, 1, 2, 7, 8, 1, 1] = Some [7, 8, 7, 10]"
    by (simp add: lite_spec_def lite_unpack_small lite_unpack_stop lite_head_def lite_cover_spec_def add_spec_def add32_def bytes_add_def
        del: lite_unpack.simps)
  then show ?thesis
    using hpatch_lite_refines_spec [of "[1, 2, 1, 2, 7, 8, 1, 1]" 10 "[5, 6, 9]" 2 4 4]
    by (auto split: res.splits)
qed

end
