(* ===== verification/LiteSave.thy ===== *)
theory LiteSave
  imports SearchDiff HPatchLite
begin

text \<open>
  Creating diffs for \<open>hpatch_lite.c\<close>: \<open>serialize_lite_diff\<close> and \<open>create_lite_diff\<close> of
  \<open>diff.cpp\<close>, and \<open>do_compress\<close> of \<open>stream_serialize.cpp\<close>.  What \<open>getInplacePatchExtraSafeSize\<close> of a
  listener gives is an argument; else there is no listener.
\<close>

section \<open>The code\<close>

text \<open>\<open>vector::resize\<close>.\<close>

definition vec_resize :: "byte list \<Rightarrow> nat \<Rightarrow> byte list" where
  "vec_resize v n = take n (v @ replicate n 0)"

definition do_compress :: "byte list \<Rightarrow> hdiff_TCompress option \<Rightarrow> bool \<Rightarrow> byte list res" where
  "do_compress data compressPlugin isMustCompress =
     (case compressPlugin of
        None \<Rightarrow> Ok []
      | Some P \<Rightarrow>
          if length data = 0 then Ok []
          else
            let maxCodeSize = cp_maxCompressedSize P (length data) in
            if maxCodeSize \<le> length data then Ok []
            else
              rbind (hdiff_compress P (mem_as_hStreamOutput (replicate maxCodeSize 0)) (mem_as_hStreamInput data))
                (\<lambda>(codeSize, codeStream, _).
              Ok (if 0 < codeSize \<and> (isMustCompress \<or> codeSize < length data)
                  then vec_resize (ostreamImport codeStream) codeSize else [])))"

text \<open>Numbers of 32 bits.\<close>

definition hpi_packUIntWithTag :: "byte list \<Rightarrow> nat \<Rightarrow> nat \<Rightarrow> nat \<Rightarrow> byte list res" where
  "hpi_packUIntWithTag buf v tag nbit = rbind (check (v = v mod 2 ^ 32)) (\<lambda>_. packUIntWithTag buf v tag nbit)"

definition hpi_packUInt :: "byte list \<Rightarrow> nat \<Rightarrow> byte list res" where
  "hpi_packUInt buf v = rbind (check (v = v mod 2 ^ 32)) (\<lambda>_. packUInt buf v)"

function saved_size_loop :: "nat \<Rightarrow> nat \<Rightarrow> nat" where
  "saved_size_loop bytes sz = (if sz > 0 then saved_size_loop (bytes + 1) (drop_bit 8 sz) else bytes)"
  by pat_completeness auto
termination
  by (relation "measure snd") (auto simp: drop_bit_eq_div)

definition hpi_getSavedSizeBytes :: "nat \<Rightarrow> nat res" where
  "hpi_getSavedSizeBytes sz = rbind (check (sz = sz mod 2 ^ 32)) (\<lambda>_. Ok (saved_size_loop 0 sz))"

function save_size_loop :: "byte list \<Rightarrow> nat \<Rightarrow> byte list" where
  "save_size_loop buf sz = (if sz > 0 then save_size_loop (buf @ [of_nat sz]) (drop_bit 8 sz) else buf)"
  by pat_completeness auto
termination
  by (relation "measure snd") (auto simp: drop_bit_eq_div)

declare saved_size_loop.simps [simp del] save_size_loop.simps [simp del]

definition hpi_saveSize :: "byte list \<Rightarrow> nat \<Rightarrow> byte list res" where
  "hpi_saveSize buf sz = rbind (check (sz = sz mod 2 ^ 32)) (\<lambda>_. Ok (save_size_loop buf sz))"

fun getIs0 :: "byte list \<Rightarrow> bool" where
  "getIs0 [] = True"
| "getIs0 (b # data) = (if b = 0 then getIs0 data else False)"

definition getSubDiff :: "byte list \<Rightarrow> byte list \<Rightarrow> hpatch_TCover \<Rightarrow> byte list res" where
  "getSubDiff newData oldData cover =
     rbind (mem_read newData (newPos cover) (coverLength cover)) (\<lambda>pnew.
     rbind (mem_read oldData (oldPos cover) (coverLength cover)) (\<lambda>pold.
     Ok (bytes_sub pnew pold)))"

text \<open>The covers: the vector and the end of the last cover in the new data.\<close>

fun serialize_lite_covers ::
  "byte list \<Rightarrow> byte list \<Rightarrow> hpatch_TCover list \<Rightarrow> nat \<Rightarrow> nat \<Rightarrow> byte list \<Rightarrow> (byte list \<times> nat) res" where
  "serialize_lite_covers newData oldData [] oldEnd newEnd buf = Ok (buf, newEnd)"
| "serialize_lite_covers newData oldData (cover # covers) oldEnd newEnd buf =
     rbind (hpi_packUInt buf (coverLength cover)) (\<lambda>buf.
     rbind (getSubDiff newData oldData cover) (\<lambda>subDiff.
     let isNullSubDiff = (if getIs0 subDiff then 1 else 0) in
     rbind (if oldPos cover \<ge> oldEnd
            then hpi_packUIntWithTag buf (oldPos cover - oldEnd) (0 + isNullSubDiff * 2) 2
            else hpi_packUIntWithTag buf (oldEnd - oldPos cover) (1 + isNullSubDiff * 2) 2) (\<lambda>buf.
     let backNewLen = sub64 (newPos cover) newEnd in
     rbind (hpi_packUInt buf backNewLen) (\<lambda>buf.
     rbind (if backNewLen > 0
            then rbind (mem_read newData newEnd backNewLen) (\<lambda>newDataDiff. Ok (pushBack buf newDataDiff))
            else Ok buf) (\<lambda>buf.
     let buf = (if isNullSubDiff = 0 then pushBack buf subDiff else buf) in
     serialize_lite_covers newData oldData covers (add64 (oldPos cover) (coverLength cover))
       (add64 (newPos cover) (coverLength cover)) buf)))))"

definition serialize_lite_steps :: "byte list \<Rightarrow> byte list \<Rightarrow> hpatch_TCover list \<Rightarrow> byte list res" where
  "serialize_lite_steps newData oldData covers =
     rbind (hpi_packUInt [] (length covers)) (\<lambda>buf.
     rbind (serialize_lite_covers newData oldData covers 0 0 buf) (\<lambda>(buf, newEnd).
     let backNewLen = sub64 (length newData) newEnd in
     rbind (check (backNewLen = 0)) (\<lambda>_. Ok buf)))"

record hdiffi_TCompress =
  hi_compress :: "hdiff_TCompress option"
  hi_compress_type :: byte

definition hpi_compressType_no :: byte where
  "hpi_compressType_no = 0"

text \<open>\<open>extraSafeSize\<close> is \<open>None\<close> unless the patch is in place.\<close>

definition write_lite_head ::
  "byte list \<Rightarrow> byte \<Rightarrow> nat \<Rightarrow> nat \<Rightarrow> nat option \<Rightarrow> byte list res" where
  "write_lite_head out_diff compress_type newSize savedUncompressSize extraSafeSize =
     (let out_diff = out_diff @ [0x68, 0x49, compress_type];
          savedVersionCode = (if extraSafeSize \<noteq> None then kHPatchLite_inplaceCode else kHPatchLite_versionCode) in
      rbind (hpi_getSavedSizeBytes newSize) (\<lambda>newBytes.
      rbind (hpi_getSavedSizeBytes savedUncompressSize) (\<lambda>uncompressBytes.
      let out_diff = out_diff @ [of_nat (push_bit 6 savedVersionCode OR newBytes OR push_bit 3 uncompressBytes)] in
      rbind (case extraSafeSize of None \<Rightarrow> Ok out_diff
             | Some e \<Rightarrow> rbind (hpi_getSavedSizeBytes e) (\<lambda>n. Ok (out_diff @ [of_nat n]))) (\<lambda>out_diff.
      rbind (hpi_saveSize out_diff newSize) (\<lambda>out_diff.
      rbind (hpi_saveSize out_diff savedUncompressSize) (\<lambda>out_diff.
      case extraSafeSize of None \<Rightarrow> Ok out_diff | Some e \<Rightarrow> hpi_saveSize out_diff e))))))"

definition serialize_lite_diff ::
  "byte list \<Rightarrow> byte list \<Rightarrow> hpatch_TCover list \<Rightarrow> byte list \<Rightarrow> hdiffi_TCompress \<Rightarrow> nat option \<Rightarrow> byte list res" where
  "serialize_lite_diff newData oldData covers out_diff compressPlugin extraSafeSize =
     rbind (serialize_lite_steps newData oldData covers) (\<lambda>buf.
     rbind (do_compress buf (hi_compress compressPlugin) False) (\<lambda>compress_buf.
     rbind (write_lite_head out_diff (if compress_buf = [] then hpi_compressType_no else hi_compress_type compressPlugin)
              (length newData) (if compress_buf = [] then 0 else length buf) extraSafeSize) (\<lambda>out_diff.
     Ok (pushBack out_diff (if compress_buf = [] then buf else compress_buf)))))"

text \<open>The new data behind the last cover is covered by one of length 0.\<close>

definition lite_last_cover :: "nat \<Rightarrow> hpatch_TCover list \<Rightarrow> hpatch_TCover list" where
  "lite_last_cover newSize covers =
     (let (oldPosEnd, newPosEnd) =
            (if covers \<noteq> [] then let c = last covers in (add64 (oldPos c) (coverLength c), add64 (newPos c) (coverLength c)) else (0, 0))
      in if newPosEnd < newSize then covers @ [\<lparr>oldPos = oldPosEnd, newPos = newSize, coverLength = 0\<rparr>] else covers)"

definition create_lite_diff ::
  "(byte list \<Rightarrow> nat list option) \<Rightarrow> int \<Rightarrow> byte list \<Rightarrow> byte list \<Rightarrow> byte list \<Rightarrow> hdiffi_TCompress \<Rightarrow> nat option \<Rightarrow> byte list res" where
  "create_lite_diff divsufsort kMinSingleMatchScore newData oldData out_lite_diff compressPlugin extraSafeSize =
     rbind (get_diff divsufsort (kMinSingleMatchScore - 6) newData oldData) (\<lambda>covers.
     serialize_lite_diff newData oldData (lite_last_cover (length newData) covers) out_lite_diff compressPlugin extraSafeSize)"

section \<open>Numbers are read back\<close>

lemma or_nat_ge: "(a :: nat) \<le> a OR b"
proof -
  have "int a \<le> int a OR int b" by (rule or_greater_eq) simp
  then show ?thesis by (simp flip: of_nat_or_eq)
qed

lemma unpack_groups_mono: "unpack_groups v p = Ok (r, q) \<Longrightarrow> v \<le> r"
proof (induction v p rule: unpack_groups.induct)
  case (1 v p)
  from "1.prems" obtain c p' where p: "p = c # p'" and top: "drop_bit 57 v = 0"
    by (cases p; cases "drop_bit 57 v = 0") (auto simp: unpack_groups.simps)
  let ?v = "take_bit 64 (push_bit 7 v) OR (unat c AND (2 ^ 7 - 1))"
  have "v < 2 ^ 57" using top by (simp add: drop_bit_eq_div div_eq_0_iff)
  then have "take_bit 64 (push_bit 7 v) = v * 128" by (simp add: push_bit_eq_mult take_bit_nat_eq_self)
  then have le: "v \<le> ?v" using or_nat_ge [of "v * 128" "unat c AND (2 ^ 7 - 1)"] by simp
  show ?case
  proof (cases "unat c AND 2 ^ 7 \<noteq> 0")
    case True
    have "unpack_groups ?v p' = Ok (r, q)" using "1.prems" p top True by (simp add: unpack_groups.simps [of v] Let_def)
    from "1.IH" [OF _ p refl True this] top le show ?thesis by simp
  next
    case False
    then show ?thesis using "1.prems" p top le by (simp add: unpack_groups.simps [of v] Let_def)
  qed
qed

lemma and_128_drop: "unat (c :: byte) AND 2 ^ 7 \<noteq> 0 \<longleftrightarrow> drop_bit 7 (unat c) \<noteq> 0"
proof -
  have "unat c AND 2 ^ 7 \<noteq> 0 \<longleftrightarrow> bit (unat c) 7" by (simp only: and_exp_eq_0_iff_not_bit not_not)
  moreover have "bit (unat c) 7 \<longleftrightarrow> drop_bit 7 (unat c) \<noteq> 0"
  proof -
    have "unat c < 128 * 2" by simp
    then have "unat c div 128 < 2" by (simp add: less_mult_imp_div_less mult.commute)
    then consider "unat c div 128 = 0" | "unat c div 128 = 1" by linarith
    then show ?thesis by cases (simp_all add: bit_iff_odd drop_bit_eq_div)
  qed
  ultimately show ?thesis by simp
qed

text \<open>A number below \<open>2 ^ 32\<close> is the same to both decoders.\<close>

lemma unpack_groups_lite: "unpack_groups v p = Ok (r, q) \<Longrightarrow> r < 2 ^ 32 \<Longrightarrow> lite_unpack v True p = Some (r, q)"
proof (induction v p rule: unpack_groups.induct)
  case (1 v p)
  from "1.prems" obtain c p' where p: "p = c # p'" and top: "drop_bit 57 v = 0"
    by (cases p; cases "drop_bit 57 v = 0") (auto simp: unpack_groups.simps)
  let ?v = "take_bit 64 (push_bit 7 v) OR (unat c AND (2 ^ 7 - 1))"
  have v: "v < 2 ^ 57" using top by (simp add: drop_bit_eq_div div_eq_0_iff)
  then have t: "take_bit 64 (push_bit 7 v) = v * 128" by (simp add: push_bit_eq_mult take_bit_nat_eq_self)
  have "?v \<le> r"
  proof (cases "unat c AND 2 ^ 7 \<noteq> 0")
    case True
    have "unpack_groups ?v p' = Ok (r, q)" using "1.prems"(1) p top True by (simp add: unpack_groups.simps [of v] Let_def)
    then show ?thesis by (rule unpack_groups_mono)
  next
    case False
    then show ?thesis using "1.prems"(1) p top by (simp add: unpack_groups.simps [of v] Let_def)
  qed
  then have "v * 128 \<le> r" unfolding t using or_nat_ge [of "v * 128" "unat c AND (2 ^ 7 - 1)"] by simp
  then have "take_bit 32 (push_bit 7 v) = v * 128" using "1.prems"(2) by (simp add: push_bit_eq_mult take_bit_nat_eq_self)
  then have s: "lite_shift v c = ?v" using t by (simp add: lite_shift_def)
  show ?case
  proof (cases "unat c AND 2 ^ 7 \<noteq> 0")
    case True
    have "unpack_groups ?v p' = Ok (r, q)" using "1.prems"(1) p top True by (simp add: unpack_groups.simps [of v] Let_def)
    from "1.IH" [OF _ p refl True this "1.prems"(2)] top show ?thesis using p s True and_128_drop [of c] by simp
  next
    case False
    then show ?thesis using "1.prems"(1) p top s and_128_drop [of c]
      by (auto simp: unpack_groups.simps [of v] Let_def lite_unpack_stop)
  qed
qed

lemma lite_unpack_code:
  assumes "v < 2 ^ 32"
  shows "lite_unpack 0 True (pack_code v 0 0 @ r) = Some (v, r)"
proof -
  have v: "v < 2 ^ 64" using assms by simp
  have u: "hpatch_unpackUIntWithTag (pack_code v 0 0 @ r) 0 = Ok (v, r)" using unpack_pack_code [of v 0 0 Memory r] v by simp
  obtain b p where bp: "pack_code v 0 0 @ r = b # p" using pack_code_not_Nil [of v 0 0] v by (cases "pack_code v 0 0") auto
  have s: "lite_shift 0 b = unat b AND 127" by (simp add: lite_shift_def)
  show ?thesis
  proof (cases "unat b AND 2 ^ 7 \<noteq> 0")
    case True
    then have "unpack_groups (unat b AND 127) p = Ok (v, r)" using u by (simp add: bp hpatch_unpackUIntWithTag_def Let_def)
    from unpack_groups_lite [OF this assms] show ?thesis using True and_128_drop [of b] by (simp add: bp s)
  next
    case False
    then show ?thesis using u and_128_drop [of b] by (auto simp: bp s hpatch_unpackUIntWithTag_def Let_def lite_unpack_stop)
  qed
qed

lemma lite_unpack_tagged:
  assumes "v < 2 ^ 32" "tag < 4"
  shows "\<exists>b p. pack_code v tag 2 @ r = b # p \<and> lite_unpack (unat b AND 31) (bit b 5) p = Some (v, r) \<and>
    (drop_bit 7 (unat b) \<noteq> 0 \<longleftrightarrow> 2 \<le> tag) \<and> (bit b 6 \<longleftrightarrow> odd tag)"
proof -
  have v: "v < 2 ^ 64" and t: "tag < 2 ^ 2" using assms by simp_all
  have u: "hpatch_unpackUIntWithTag (pack_code v tag 2 @ r) 2 = Ok (v, r)" using unpack_pack_code [of v tag 2 Memory r] v t by simp
  obtain b p where bp: "pack_code v tag 2 @ r = b # p" using pack_code_not_Nil [of v tag 2] v t by (cases "pack_code v tag 2") auto
  have tag: "drop_bit 6 (unat b) = tag" using hd_pack_code [of v tag 2 r] v t by (simp add: bp)
  have b5: "unat b AND 2 ^ 5 \<noteq> 0 \<longleftrightarrow> bit b 5" by (simp only: and_exp_eq_0_iff_not_bit not_not) (simp add: bit_unsigned_iff)
  have "lite_unpack (unat b AND 31) (bit b 5) p = Some (v, r)"
  proof (cases "bit b 5")
    case True
    then have "unpack_groups (unat b AND 31) p = Ok (v, r)" using u b5 by (simp add: bp hpatch_unpackUIntWithTag_def Let_def)
    from unpack_groups_lite [OF this assms(1)] show ?thesis using True by simp
  next
    case False
    then show ?thesis using u b5 by (auto simp: bp hpatch_unpackUIntWithTag_def Let_def lite_unpack_stop)
  qed
  moreover have "drop_bit 7 (unat b) = tag div 2" unfolding tag [symmetric] by (simp add: drop_bit_eq_div flip: div_mult2_eq)
  moreover have "bit b 6 \<longleftrightarrow> odd tag" unfolding tag [symmetric] by (simp add: bit_iff_odd_drop_bit [symmetric] bit_unsigned_iff)
  ultimately show ?thesis using bp by auto
qed

section \<open>What is written means the new data\<close>

lemma getIs0_zeros: "getIs0 d \<Longrightarrow> d = replicate (length d) 0"
  by (induction d) (auto split: if_splits)

definition lite_sub :: "byte list \<Rightarrow> byte list \<Rightarrow> hpatch_TCover \<Rightarrow> byte list" where
  "lite_sub new old c = bytes_sub (take (coverLength c) (drop (newPos c) new)) (take (coverLength c) (drop (oldPos c) old))"

definition lite_code1 :: "byte list \<Rightarrow> byte list \<Rightarrow> hpatch_TCover \<Rightarrow> nat \<Rightarrow> nat \<Rightarrow> byte list" where
  "lite_code1 new old c oe ne =
     pack_code (coverLength c) 0 0 @
     pack_code (if oe \<le> oldPos c then oldPos c - oe else oe - oldPos c)
       ((if oe \<le> oldPos c then 0 else 1) + (if getIs0 (lite_sub new old c) then 2 else 0)) 2 @
     pack_code (newPos c - ne) 0 0 @ take (newPos c - ne) (drop ne new) @
     (if getIs0 (lite_sub new old c) then [] else lite_sub new old c)"

fun lite_code :: "byte list \<Rightarrow> byte list \<Rightarrow> hpatch_TCover list \<Rightarrow> nat \<Rightarrow> nat \<Rightarrow> byte list" where
  "lite_code new old [] oe ne = []"
| "lite_code new old (c # cs) oe ne =
     lite_code1 new old c oe ne @ lite_code new old cs (oldPos c + coverLength c) (newPos c + coverLength c)"

fun lite_end :: "hpatch_TCover list \<Rightarrow> nat \<Rightarrow> nat" where
  "lite_end [] ne = ne"
| "lite_end (c # cs) ne = lite_end cs (newPos c + coverLength c)"

lemma serialize_lite_covers_result:
  "covers_fit cs ne (length new) (length old) \<Longrightarrow> oe \<le> length old \<Longrightarrow> length new < 2 ^ 32 \<Longrightarrow> length old < 2 ^ 32 \<Longrightarrow>
   serialize_lite_covers new old cs oe ne buf = Ok (buf @ lite_code new old cs oe ne, lite_end cs ne)"
proof (induction cs arbitrary: oe ne buf)
  case (Cons c cs)
  have f: "ne \<le> newPos c" "newPos c + coverLength c \<le> length new" "oldPos c + coverLength c \<le> length old"
    "covers_fit cs (newPos c + coverLength c) (length new) (length old)" using Cons.prems(1) by simp_all
  have a: "add64 (oldPos c) (coverLength c) = oldPos c + coverLength c" "add64 (newPos c) (coverLength c) = newPos c + coverLength c"
    "sub64 (newPos c) ne = newPos c - ne" using f Cons.prems(3,4) by (simp_all add: add64_eq sub64_eq)
  have s: "getSubDiff new old c = Ok (lite_sub new old c)" using f by (simp add: getSubDiff_def mem_read_def lite_sub_def)
  have p: "hpi_packUInt b v = Ok (b @ pack_code v 0 0)" "tag < 4 \<Longrightarrow> hpi_packUIntWithTag b v tag 2 = Ok (b @ pack_code v tag 2)"
    if "v < 2 ^ 32" for b v tag using that by (simp_all add: hpi_packUInt_def hpi_packUIntWithTag_def packUInt_eq packUIntWithTag_eq)
  have l: "coverLength c < 2 ^ 32" "oldPos c - oe < 2 ^ 32" "oe - oldPos c < 2 ^ 32" "newPos c - ne < 2 ^ 32"
    using f Cons.prems by simp_all
  have g: "mem_read new ne (newPos c - ne) = Ok (take (newPos c - ne) (drop ne new))" using f by (simp add: mem_read_def)
  have "serialize_lite_covers new old (c # cs) oe ne buf =
      serialize_lite_covers new old cs (oldPos c + coverLength c) (newPos c + coverLength c) (buf @ lite_code1 new old c oe ne)"
    using p(1) [OF l(1)] p(1) [OF l(4)] p(2) [OF l(2)] p(2) [OF l(3)] s a g
    by (simp add: lite_code1_def pushBack_def Let_def)
  then show ?case using Cons.IH [OF f(4) f(3) Cons.prems(3,4)] by simp
qed simp

lemma lite_head_code1:
  assumes f: "ne \<le> newPos c" "newPos c + coverLength c \<le> length new" "oldPos c + coverLength c \<le> length old" "oe \<le> length old"
    and small: "length new < 2 ^ 32" "length old < 2 ^ 32"
  shows "lite_head ne oe (lite_code1 new old c oe ne @ r) =
    Some ((coverLength c, oldPos c, newPos c, getIs0 (lite_sub new old c)),
      take (newPos c - ne) (drop ne new) @ (if getIs0 (lite_sub new old c) then [] else lite_sub new old c) @ r)"
proof -
  define null where "null = getIs0 (lite_sub new old c)"
  define inc where "inc = (if oe \<le> oldPos c then oldPos c - oe else oe - oldPos c)"
  define tag where "tag = (if oe \<le> oldPos c then 0 else 1) + (if null then 2 else 0 :: nat)"
  define rest where "rest = take (newPos c - ne) (drop ne new) @ (if null then [] else lite_sub new old c) @ r"
  have l: "coverLength c < 2 ^ 32" "inc < 2 ^ 32" "newPos c - ne < 2 ^ 32" "tag < 4" using f small by (auto simp: inc_def tag_def)
  obtain b p where b: "pack_code inc tag 2 @ pack_code (newPos c - ne) 0 0 @ rest = b # p"
    "lite_unpack (unat b AND 31) (bit b 5) p = Some (inc, pack_code (newPos c - ne) 0 0 @ rest)"
    "drop_bit 7 (unat b) \<noteq> 0 \<longleftrightarrow> 2 \<le> tag" "bit b 6 \<longleftrightarrow> odd tag" using lite_unpack_tagged [OF l(2,4)] by blast
  have code: "lite_code1 new old c oe ne @ r = pack_code (coverLength c) 0 0 @ b # p"
    unfolding b(1) [symmetric] by (simp add: lite_code1_def null_def inc_def tag_def rest_def)
  have op: "(if bit b 6 then sub32 oe inc else add32 inc oe) = oldPos c"
    using f small by (auto simp: b(4) tag_def inc_def sub32_def add32_def)
  have ns: "drop_bit 7 (unat b) \<noteq> 0 \<longleftrightarrow> null" unfolding b(3) by (simp add: tag_def)
  have np: "add32 (newPos c - ne) ne = newPos c" using f small by (simp add: add32_def)
  show ?thesis unfolding null_def [symmetric] rest_def [symmetric]
    unfolding code lite_head_def using lite_unpack_code [OF l(1)] lite_unpack_code [OF l(3)] b(2) op ns np by (simp add: Let_def)
qed

lemma lite_cover_means:
  assumes f: "ne \<le> newPos c" "newPos c + coverLength c \<le> length new" "oldPos c + coverLength c \<le> length old" "oe \<le> length old"
    and small: "length new < 2 ^ 32" "length old < 2 ^ 32" and pos: "0 < coverLength c \<or> left = 0"
  shows "lite_cover_spec old left ne oe (lite_code1 new old c oe ne @ r) =
    Some (take (newPos c + coverLength c - ne) (drop ne new), r, newPos c + coverLength c, oldPos c + coverLength c)"
proof -
  define null where "null = getIs0 (lite_sub new old c)"
  define rest where "rest = take (newPos c - ne) (drop ne new) @ (if null then [] else lite_sub new old c) @ r"
  have head: "lite_head ne oe (lite_code1 new old c oe ne @ r) = Some ((coverLength c, oldPos c, newPos c, null), rest)"
    using lite_head_code1 [OF f small] by (simp add: null_def rest_def)
  let ?o = "take (coverLength c) (drop (oldPos c) old)" and ?n = "take (coverLength c) (drop (newPos c) new)"
  have len: "length ?o = coverLength c" "length ?n = coverLength c" "length (lite_sub new old c) = coverLength c" using f by (simp_all add: lite_sub_def)
  have add: "bytes_add ?o (lite_sub new old c) = ?n"
    by (rule nth_equalityI) (use len in \<open>simp_all add: lite_sub_def bytes_sub_def\<close>)
  have "null \<Longrightarrow> ?o = ?n" using add getIs0_zeros [of "lite_sub new old c"] len by (auto simp: null_def)
  then have spec: "add_spec old null (oldPos c) (coverLength c) ((if null then [] else lite_sub new old c) @ r) = Some (?n, r)"
    using add len f by (auto simp: add_spec_def)
  have "drop (newPos c - ne) rest = (if null then [] else lite_sub new old c) @ r" "newPos c - ne \<le> length rest"
    "take (newPos c - ne) rest = take (newPos c - ne) (drop ne new)" using f by (simp_all add: rest_def)
  moreover have "take (newPos c - ne) (drop ne new) @ ?n = take (newPos c + coverLength c - ne) (drop ne new)"
    using take_take_drop [of "newPos c - ne" "drop ne new" "coverLength c"] f(1) by simp
  moreover have "add32 (newPos c) (coverLength c) = newPos c + coverLength c" "add32 (oldPos c) (coverLength c) = oldPos c + coverLength c"
    using f small by (simp_all add: add32_def)
  ultimately show ?thesis using head spec f(1) pos by (simp add: lite_cover_spec_def Let_def)
qed

lemma lite_covers_means:
  "covers_fit cs ne (length new) (length old) \<Longrightarrow> oe \<le> length old \<Longrightarrow> length new < 2 ^ 32 \<Longrightarrow> length old < 2 ^ 32 \<Longrightarrow>
   \<forall>c \<in> set (butlast cs). 0 < coverLength c \<Longrightarrow>
   lite_covers_spec old (length cs) ne oe (lite_code new old cs oe ne @ r) = Some (take (lite_end cs ne - ne) (drop ne new), r, lite_end cs ne) \<and>
   ne \<le> lite_end cs ne"
proof (induction cs arbitrary: oe ne)
  case (Cons c cs)
  have f: "ne \<le> newPos c" "newPos c + coverLength c \<le> length new" "oldPos c + coverLength c \<le> length old"
    "covers_fit cs (newPos c + coverLength c) (length new) (length old)" using Cons.prems(1) by simp_all
  have pos: "0 < coverLength c \<or> length cs = 0" "\<forall>c \<in> set (butlast cs). 0 < coverLength c" using Cons.prems(5) by (auto split: if_splits)
  let ?e = "newPos c + coverLength c"
  from Cons.IH [OF f(4,3) Cons.prems(3,4) pos(2)] have ih:
    "lite_covers_spec old (length cs) ?e (oldPos c + coverLength c) (lite_code new old cs (oldPos c + coverLength c) ?e @ r)
      = Some (take (lite_end cs ?e - ?e) (drop ?e new), r, lite_end cs ?e)" "?e \<le> lite_end cs ?e" by simp_all
  have "take (?e - ne) (drop ne new) @ take (lite_end cs ?e - ?e) (drop ?e new) = take (lite_end cs ?e - ne) (drop ne new)"
    using take_take_drop [of "?e - ne" "drop ne new" "lite_end cs ?e - ?e"] f(1) ih(2) by simp
  then show ?case using lite_cover_means [OF f(1-3) Cons.prems(2-4) pos(1)] ih f(1) by simp
qed simp

text \<open>Covers that read near to what has been written give a diff that is safe in place.\<close>

lemma lite_code_safe:
  "covers_fit cs ne (length new) (length old) \<Longrightarrow> oe \<le> length old \<Longrightarrow> length new < 2 ^ 32 \<Longrightarrow> length old < 2 ^ 32 \<Longrightarrow>
   \<forall>c \<in> set (butlast cs). 0 < coverLength c \<Longrightarrow> \<forall>c \<in> set cs. 0 < coverLength c \<longrightarrow> newPos c \<le> oldPos c + extra \<Longrightarrow>
   lite_safe (reads_near extra) old (length cs) ne ne oe (lite_code new old cs oe ne @ r)"
proof (induction cs arbitrary: oe ne)
  case (Cons c cs)
  have f: "ne \<le> newPos c" "newPos c + coverLength c \<le> length new" "oldPos c + coverLength c \<le> length old"
    "covers_fit cs (newPos c + coverLength c) (length new) (length old)" using Cons.prems(1) by simp_all
  have pos: "0 < coverLength c \<or> length cs = 0" "\<forall>c \<in> set (butlast cs). 0 < coverLength c" using Cons.prems(5) by (auto split: if_splits)
  let ?e = "newPos c + coverLength c" and ?r = "lite_code new old cs (oldPos c + coverLength c) (newPos c + coverLength c) @ r"
  have "lite_safe (reads_near extra) old (length cs) ?e ?e (oldPos c + coverLength c) ?r"
    by (rule Cons.IH [OF f(4,3) Cons.prems(3,4) pos(2)]) (use Cons.prems(6) in simp)
  moreover have "ne + length (take (?e - ne) (drop ne new)) = ?e" using f(1,2) by simp
  moreover have "lite_safe1 (reads_near extra) ne ne oe (lite_code1 new old c oe ne @ ?r)"
    using lite_head_code1 [OF f(1-3) Cons.prems(2-4), of ?r] f(1) Cons.prems(6) by (simp add: lite_safe1_def reads_near_def)
  ultimately show ?case using lite_cover_means [OF f(1-3) Cons.prems(2-4) pos(1), of ?r] by simp
qed simp

section \<open>The head\<close>

fun le_value :: "byte list \<Rightarrow> nat" where
  "le_value [] = 0"
| "le_value (b # bs) = unat b + 256 * le_value bs"

lemma le_value_snoc: "le_value (bs @ [b]) = le_value bs + 256 ^ length bs * unat b"
  by (induction bs) (simp_all add: algebra_simps)

lemma le_value_less: "le_value bs < 256 ^ length bs"
proof (induction bs)
  case (Cons b bs)
  have "unat b < 256" by simp
  then have "unat b + 256 * le_value bs < 256 * (le_value bs + 1)" unfolding distrib_left by simp
  also have "\<dots> \<le> 256 * 256 ^ length bs" using Cons by simp
  finally show ?case by simp
qed simp

function size_bytes :: "nat \<Rightarrow> byte list" where
  "size_bytes sz = (if sz > 0 then of_nat sz # size_bytes (sz div 256) else [])"
  by pat_completeness auto
termination
  by (relation "measure id") auto

declare size_bytes.simps [simp del]

lemma save_size_loop_eq: "save_size_loop buf sz = buf @ size_bytes sz"
proof (induction buf sz rule: save_size_loop.induct)
  case (1 buf sz)
  then show ?case by (simp add: save_size_loop.simps [of buf sz] size_bytes.simps [of sz] drop_bit_eq_div)
qed

lemma saved_size_loop_eq: "saved_size_loop n sz = n + length (size_bytes sz)"
proof (induction n sz rule: saved_size_loop.induct)
  case (1 n sz)
  then show ?case by (simp add: saved_size_loop.simps [of n sz] size_bytes.simps [of sz] drop_bit_eq_div)
qed

lemma size_bytes_value: "le_value (size_bytes sz) = sz"
proof (induction sz rule: size_bytes.induct)
  case (1 sz)
  show ?case
  proof (cases "0 < sz")
    case True
    then show ?thesis using "1.IH" by (simp add: size_bytes.simps [of sz] unsigned_of_nat take_bit_eq_mod)
  next
    case False
    then show ?thesis by (simp add: size_bytes.simps [of 0])
  qed
qed

lemma size_bytes_length: "sz < 256 ^ n \<Longrightarrow> length (size_bytes sz) \<le> n"
proof (induction n arbitrary: sz)
  case 0
  then show ?case by (simp add: size_bytes.simps)
next
  case (Suc n)
  have "sz div 256 < 256 ^ n" using Suc.prems by (simp add: less_mult_imp_div_less mult.commute)
  then show ?case using Suc.IH by (simp add: size_bytes.simps [of sz])
qed

lemma readSize_loop_value:
  "n \<le> length buf \<Longrightarrow> v * 256 ^ n + le_value (take n buf) < 2 ^ 32 \<Longrightarrow>
   hpi_readSize_loop buf n v = v * 256 ^ n + le_value (take n buf)"
proof (induction n arbitrary: v)
  case (Suc n)
  have s: "le_value (take (Suc n) buf) = le_value (take n buf) + 256 ^ n * unat (buf ! n)"
    using Suc.prems(1) by (simp add: take_Suc_conv_app_nth le_value_snoc)
  have b: "unat (buf ! n) < 2 ^ 8" using unat_byte_less [of "buf ! n"] by simp
  have "v * 256 * 1 \<le> v * 256 * 256 ^ n" by (rule mult_le_mono2) simp
  also have "\<dots> < 2 ^ 32" using Suc.prems(2) by (simp add: mult.assoc)
  finally have "v * 256 < 2 ^ 32" by simp
  then have "take_bit 32 (push_bit 8 v) OR unat (buf ! n) = push_bit 8 v + unat (buf ! n)"
    using or_shifted' [OF b, of v] by (simp add: take_bit_nat_eq_self push_bit_eq_mult)
  then have "hpi_readSize_loop buf (Suc n) v = hpi_readSize_loop buf n (v * 256 + unat (buf ! n))" by (simp add: push_bit_eq_mult)
  also have "\<dots> = (v * 256 + unat (buf ! n)) * 256 ^ n + le_value (take n buf)"
    by (rule Suc.IH) (use Suc.prems s in \<open>simp_all add: algebra_simps\<close>)
  finally show ?case using s by (simp add: algebra_simps)
qed simp

lemma readSize_value: "sz < 2 ^ 32 \<Longrightarrow> hpi_readSize (size_bytes sz @ x) (length (size_bytes sz)) = sz"
  using readSize_loop_value [of "length (size_bytes sz)" "size_bytes sz @ x" 0] by (simp add: hpi_readSize_def size_bytes_value)

text \<open>Reading a diff in memory.\<close>

definition list_read :: "byte list \<Rightarrow> nat \<Rightarrow> byte list option \<times> byte list" where
  "list_read d n = (Some (take n d), drop n d)"

lemma hpi_read_list: "n \<le> length buf \<Longrightarrow> n = length a \<Longrightarrow> hpi_read list_read (a @ r) buf n = Ok (n, a @ drop n buf, r)"
  by (simp add: hpi_read_def list_read_def mem_write_def)

lemma head_byte:
  assumes "n \<le> 4" "u \<le> 4" "v < 4"
  defines "b \<equiv> of_nat (push_bit 6 v OR n OR push_bit 3 u) :: byte"
  shows "drop_bit 6 (unat b) = v" and "unat b AND 7 = n" and "drop_bit 3 (unat b) AND 7 = u"
proof -
  have "n \<in> {0, 1, 2, 3, 4}" "u \<in> {0, 1, 2, 3, 4}" "v \<in> {0, 1, 2, 3}" using assms(1-3) by auto
  then show "drop_bit 6 (unat b) = v" and "unat b AND 7 = n" and "drop_bit 3 (unat b) AND 7 = u"
    unfolding b_def by auto
qed

lemma write_lite_head_opens:
  assumes "n < 2 ^ 32" "u < 2 ^ 32"
  shows "\<exists>h. write_lite_head out ty n u None = Ok (out @ h) \<and> (\<forall>r. hpatch_lite_open list_read (h @ r) = Ok (ty, n, u, r))"
proof -
  let ?n = "size_bytes n" and ?u = "size_bytes u"
  let ?k = "of_nat (push_bit 6 kHPatchLite_versionCode OR length ?n OR push_bit 3 (length ?u)) :: byte"
  have l: "length ?n \<le> 4" "length ?u \<le> 4" using assms size_bytes_length [of _ 4] by simp_all
  note hb = head_byte [OF l, of kHPatchLite_versionCode, unfolded kHPatchLite_versionCode_def, simplified]
  let ?h = "[0x68, 0x49, ty, ?k] @ ?n @ ?u"
  have w: "write_lite_head out ty n u None = Ok (out @ ?h)"
    using assms by (simp add: write_lite_head_def hpi_getSavedSizeBytes_def hpi_saveSize_def save_size_loop_eq saved_size_loop_eq Let_def)
  have o: "hpatch_lite_open list_read (?h @ r) = Ok (ty, n, u, r)" for r
  proof -
    have r1: "hpi_read list_read (?h @ r) (replicate (max hpi_kHeadSize 4) 0) hpi_kHeadSize = Ok (4, [0x68, 0x49, ty, ?k], ?n @ ?u @ r)"
      using hpi_read_list [of 4 "replicate 4 0" "[0x68, 0x49, ty, ?k]" "?n @ ?u @ r"] by (simp add: hpi_kHeadSize_def)
    let ?b = "?n @ drop (length ?n) [0x68, 0x49, ty, ?k]"
    have r2: "hpi_read list_read (?n @ ?u @ r) [0x68, 0x49, ty, ?k] (length ?n) = Ok (length ?n, ?b, ?u @ r)"
      by (rule hpi_read_list) (use l in simp_all)
    have r3: "hpi_read list_read (?u @ r) ?b (length ?u) = Ok (length ?u, ?u @ drop (length ?u) ?b, r)"
      by (rule hpi_read_list) (use l in simp_all)
    show ?thesis unfolding hpatch_lite_open_def r1
      using l hb r2 r3 readSize_value [OF assms(1)] readSize_value [OF assms(2)]
      by (simp add: Let_def hpi_kHeadSize_def kHPatchLite_versionCode_def)
  qed
  from w o show ?thesis by blast
qed

text \<open>The head of a diff for patching in place.\<close>

lemma write_lite_head_opens_inplace:
  assumes "n < 2 ^ 32" "u < 2 ^ 32" "e < 2 ^ 32"
  shows "\<exists>h. write_lite_head out ty n u (Some e) = Ok (out @ h) \<and> (\<forall>r. hpatchi_inplace_open list_read (h @ r) = Ok (ty, n, u, e, r))"
proof -
  let ?n = "size_bytes n" and ?u = "size_bytes u" and ?e = "size_bytes e"
  let ?k = "of_nat (push_bit 6 kHPatchLite_inplaceCode OR length ?n OR push_bit 3 (length ?u)) :: byte"
  have l: "length ?n \<le> 4" "length ?u \<le> 4" "length ?e \<le> 4" using assms size_bytes_length [of _ 4] by simp_all
  note hb = head_byte [OF l(1,2), of kHPatchLite_inplaceCode, unfolded kHPatchLite_inplaceCode_def, simplified]
  define b where "b = (of_nat (length ?e) :: byte)"
  have b: "unat b = length ?e" using l(3) by (simp add: b_def unsigned_of_nat take_bit_nat_eq_self)
  let ?h = "[0x68, 0x49, ty, ?k, b] @ ?n @ ?u @ ?e"
  have w: "write_lite_head out ty n u (Some e) = Ok (out @ ?h)"
    using assms by (simp add: write_lite_head_def hpi_getSavedSizeBytes_def hpi_saveSize_def save_size_loop_eq saved_size_loop_eq Let_def b_def)
  have o: "hpatchi_inplace_open list_read (?h @ r) = Ok (ty, n, u, e, r)" for r
  proof -
    let ?b0 = "[0x68, 0x49, ty, ?k, b]"
    have r1: "hpi_read list_read (?h @ r) (replicate (max hpi_kInplaceHeadSize 4) 0) hpi_kInplaceHeadSize = Ok (5, ?b0, ?n @ ?u @ ?e @ r)"
      using hpi_read_list [of 5 "replicate 5 0" ?b0 "?n @ ?u @ ?e @ r"] by (simp add: hpi_kInplaceHeadSize_def hpi_kHeadSize_def)
    let ?b1 = "?n @ drop (length ?n) ?b0"
    have r2: "hpi_read list_read (?n @ ?u @ ?e @ r) ?b0 (length ?n) = Ok (length ?n, ?b1, ?u @ ?e @ r)"
      by (rule hpi_read_list) (use l in simp_all)
    let ?b2 = "?u @ drop (length ?u) ?b1"
    have r3: "hpi_read list_read (?u @ ?e @ r) ?b1 (length ?u) = Ok (length ?u, ?b2, ?e @ r)"
      by (rule hpi_read_list) (use l in simp_all)
    have r4: "hpi_read list_read (?e @ r) ?b2 (length ?e) = Ok (length ?e, ?e @ drop (length ?e) ?b2, r)"
      by (rule hpi_read_list) (use l in simp_all)
    show ?thesis unfolding hpatchi_inplace_open_def r1
      using l hb b r2 r3 r4 readSize_value [OF assms(1)] readSize_value [OF assms(2)] readSize_value [OF assms(3)]
      by (simp add: Let_def hpi_kHeadSize_def hpi_kInplaceHeadSize_def kHPatchLite_inplaceCode_def)
  qed
  from w o show ?thesis by blast
qed

section \<open>Compressing in memory\<close>

text \<open>What is asked of a compressor besides: it never writes more than it announces.\<close>

definition compress_fits :: "hdiff_TCompress \<Rightarrow> bool" where
  "compress_fits P \<longleftrightarrow> (\<forall>data. length data < 2 ^ 62 \<longrightarrow> length (concat (fst (cp_code P data))) \<le> cp_maxCompressedSize P (length data) \<and>
     cp_maxCompressedSize P (length data) < 2 ^ 63)"

lemma plugin_write_mem:
  "pos + length (concat ds) \<le> length buf \<Longrightarrow> length buf < 2 ^ 64 \<Longrightarrow>
   plugin_write (mem_as_hStreamOutput buf) pos ds =
     Ok (mem_as_hStreamOutput (take pos buf @ concat ds @ drop (pos + length (concat ds)) buf))"
proof (induction ds arbitrary: pos buf)
  case (Cons d ds)
  let ?b = "take pos buf @ d @ drop (pos + length d) buf"
  have s: "swrite (mem_as_hStreamOutput buf) pos d = Ok (mem_as_hStreamOutput ?b)"
    using Cons.prems write_mem_stream_eq [of buf pos d] by (simp add: swrite_def mem_as_hStreamOutput_def)
  have "plugin_write (mem_as_hStreamOutput ?b) (pos + length d) ds =
      Ok (mem_as_hStreamOutput (take (pos + length d) ?b @ concat ds @ drop (pos + length d + length (concat ds)) ?b))"
    by (rule Cons.IH) (use Cons.prems in simp_all)
  then show ?case using s Cons.prems by (simp add: ac_simps)
qed simp

lemma do_compress_result:
  assumes P: "pred_option (\<lambda>P. compress_ok P unz \<and> compress_fits P) compress" and d: "length data < 2 ^ 62"
  shows "\<exists>code. do_compress data compress False = Ok code \<and> (code \<noteq> [] \<longrightarrow> compress \<noteq> None \<and> data \<noteq> [] \<and> unz (length data) code = Some data)"
proof (cases compress)
  case None
  then show ?thesis by (simp add: do_compress_def)
next
  case (Some p)
  let ?m = "cp_maxCompressedSize p (length data)"
  obtain pieces n where c: "cp_code p data = (pieces, n)" by fastforce
  have p: "0 < cp_bufSize p" "\<forall>d \<in> set pieces. d \<noteq> []" "0 < n \<longrightarrow> n = length (concat pieces) \<and> unz (length data) (concat pieces) = Some data"
    "length (concat pieces) \<le> ?m" "?m < 2 ^ 63"
    using P Some d c by (auto simp: compress_ok_def compress_fits_def dest!: spec [of _ data])
  show ?thesis
  proof (cases "data = [] \<or> ?m \<le> length data")
    case True
    then show ?thesis using Some by (auto simp: do_compress_def Let_def)
  next
    case False
    have i: "mem_in_ok (mem_as_hStreamInput data)" using d by simp
    have i2: "length (streamImport (mem_as_hStreamInput data)) < 2 ^ 63" using d by (simp add: mem_as_hStreamInput_def)
    have "\<exists>st'. plugin_read (cp_bufSize p) [] (mem_as_hStreamInput data) (streamSize (mem_as_hStreamInput data)) 0 = Ok (data, st')"
      using mem_in.again.plugin_read_result [of "mem_as_hStreamInput data" 0 "cp_bufSize p" "[]"] i i2 p(1)
      by (auto simp: mem_as_hStreamInput_def)
    moreover have "plugin_write (mem_as_hStreamOutput (replicate ?m 0)) 0 pieces =
        Ok (mem_as_hStreamOutput (concat pieces @ drop (length (concat pieces)) (replicate ?m 0)))"
      using plugin_write_mem [of 0 pieces "replicate ?m 0"] p(4,5) by simp
    ultimately obtain st' where r: "hdiff_compress p (mem_as_hStreamOutput (replicate ?m 0)) (mem_as_hStreamInput data) =
        Ok (n, mem_as_hStreamOutput (concat pieces @ drop (length (concat pieces)) (replicate ?m 0)), st')"
      by (auto simp: hdiff_compress_def c)
    have m: "ostreamImport (mem_as_hStreamOutput x) = x" for x by (simp add: mem_as_hStreamOutput_def)
    have z: "0 < n \<longrightarrow> vec_resize (concat pieces @ drop (length (concat pieces)) (replicate ?m 0)) n = concat pieces"
      using p(3) by (simp add: vec_resize_def)
    have "do_compress data compress False = Ok (if 0 < n \<and> n < length data then concat pieces else [])"
      using Some False r z by (simp add: do_compress_def Let_def m)
    then show ?thesis using p(3) Some False by (cases "0 < n \<and> n < length data") simp_all
  qed
qed

section \<open>Lite diffs\<close>

lemma lite_end_eq: "lite_end cs ne = (if cs = [] then ne else newPos (last cs) + coverLength (last cs))"
  by (induction cs arbitrary: ne) auto

lemma covers_fit_shrink: "covers_fit cs e n m \<Longrightarrow> covers_fit cs e (lite_end cs e) m \<and> e \<le> lite_end cs e \<and> lite_end cs e \<le> n"
  by (induction cs arbitrary: e) (fastforce dest: covers_fit_end)+

lemma covers_fit_snoc:
  "covers_fit cs e n m \<Longrightarrow> c_new \<le> n \<Longrightarrow> lite_end cs e \<le> c_new \<Longrightarrow> c_old \<le> m \<Longrightarrow>
   covers_fit (cs @ [\<lparr>oldPos = c_old, newPos = c_new, coverLength = 0\<rparr>]) e n m"
  by (induction cs arbitrary: e) auto

lemma covers_fit_last_in: "covers_fit cs e n m \<Longrightarrow> cs \<noteq> [] \<Longrightarrow> oldPos (last cs) + coverLength (last cs) \<le> m \<and> newPos (last cs) + coverLength (last cs) \<le> n"
  by (induction cs arbitrary: e) (auto dest: covers_fit_end)

lemma lite_last_cover_result:
  assumes fit: "covers_fit cs 0 n m" "\<forall>c \<in> set cs. 0 < coverLength c" and s: "n < 2 ^ 64" "m < 2 ^ 64"
  shows "covers_fit (lite_last_cover n cs) 0 n m" "lite_end (lite_last_cover n cs) 0 = n"
    "\<forall>c \<in> set (butlast (lite_last_cover n cs)). 0 < coverLength c" "length (lite_last_cover n cs) \<le> n"
proof -
  let ?o = "if cs = [] then 0 else oldPos (last cs) + coverLength (last cs)"
  have sh: "covers_fit cs 0 (lite_end cs 0) m" "lite_end cs 0 \<le> n" using covers_fit_shrink [OF fit(1)] by simp_all
  have li: "cs \<noteq> [] \<Longrightarrow> oldPos (last cs) + coverLength (last cs) \<le> m \<and> newPos (last cs) + coverLength (last cs) \<le> n"
    using covers_fit_last_in [OF fit(1)] by simp
  have eq: "lite_last_cover n cs = (if lite_end cs 0 < n then cs @ [\<lparr>oldPos = ?o, newPos = n, coverLength = 0\<rparr>] else cs)"
    using li s by (cases "cs = []") (simp_all add: lite_last_cover_def lite_end_eq add64_eq Let_def)
  have cnt: "length cs \<le> lite_end cs 0" using covers_fit_count [OF sh(1) fit(2)] by simp
  show "covers_fit (lite_last_cover n cs) 0 n m" using covers_fit_snoc [OF fit(1), of n ?o] fit(1) li by (auto simp: eq)
  show "lite_end (lite_last_cover n cs) 0 = n" using sh(2) by (auto simp: eq lite_end_eq)
  show "\<forall>c \<in> set (butlast (lite_last_cover n cs)). 0 < coverLength c" using fit(2) by (auto simp: eq dest: in_set_butlastD)
  show "length (lite_last_cover n cs) \<le> n" using cnt sh(2) by (auto simp: eq)
qed

lemma lite_code_length:
  "covers_fit cs ne (length new) (length old) \<Longrightarrow> oe \<le> length old \<Longrightarrow> length new < 2 ^ 32 \<Longrightarrow> length old < 2 ^ 32 \<Longrightarrow>
   length (lite_code new old cs oe ne) \<le> 33 * length cs + (lite_end cs ne - ne)"
proof (induction cs arbitrary: oe ne)
  case (Cons c cs)
  have f: "ne \<le> newPos c" "newPos c + coverLength c \<le> length new" "oldPos c + coverLength c \<le> length old"
    "covers_fit cs (newPos c + coverLength c) (length new) (length old)" using Cons.prems(1) by simp_all
  have e: "newPos c + coverLength c \<le> lite_end cs (newPos c + coverLength c)" using covers_fit_shrink [OF f(4)] by simp
  have p: "length (pack_code v tag t) \<le> 11" if "v < 2 ^ 32" "tag < 2 ^ t" "t \<le> 7" for v tag t using pack_code(3) [of v tag t] that by simp
  have l: "coverLength c < 2 ^ 32" "(if oe \<le> oldPos c then oldPos c - oe else oe - oldPos c) < 2 ^ 32" "newPos c - ne < 2 ^ 32"
    using f Cons.prems by auto
  have t: "(if oe \<le> oldPos c then 0 else 1) + (if getIs0 (lite_sub new old c) then 2 else 0) < (2 :: nat) ^ 2" by simp
  have "length (lite_sub new old c) \<le> coverLength c" by (simp add: lite_sub_def)
  then have "length (lite_code1 new old c oe ne) \<le> 33 + (newPos c - ne) + coverLength c"
    using p [OF l(1), of 0 0] p [OF l(3), of 0 0] p [OF l(2) t]
    by (cases "getIs0 (lite_sub new old c)"; cases "oe \<le> oldPos c") (simp_all add: lite_code1_def)
  moreover have "length (lite_code new old cs (oldPos c + coverLength c) (newPos c + coverLength c)) \<le>
      33 * length cs + (lite_end cs (newPos c + coverLength c) - (newPos c + coverLength c))"
    by (rule Cons.IH [OF f(4,3) Cons.prems(3,4)])
  ultimately show ?case using e f(1) by simp
qed simp

lemma serialize_lite_steps_result:
  assumes fit: "covers_fit cs 0 (length new) (length old)" "lite_end cs 0 = length new" "\<forall>c \<in> set (butlast cs). 0 < coverLength c"
    "length cs \<le> length new" and s: "34 * length new + 11 < 2 ^ 32" "length old < 2 ^ 32"
  shows "\<exists>code. serialize_lite_steps new old cs = Ok code \<and> lite_spec old (length new) code = Some new \<and> length code < 2 ^ 32 \<and>
    (\<forall>extra. (\<forall>c \<in> set cs. 0 < coverLength c \<longrightarrow> newPos c \<le> oldPos c + extra) \<longrightarrow> lite_safe_diff (reads_near extra) old code)"
proof -
  let ?c = "pack_code (length cs) 0 0 @ lite_code new old cs 0 0"
  have n: "length new < 2 ^ 32" "length cs < 2 ^ 32" using s(1) fit(4) by linarith+
  have "serialize_lite_steps new old cs = Ok ?c"
    using n serialize_lite_covers_result [OF fit(1) _ n(1) s(2), of 0] fit(2)
    by (simp add: serialize_lite_steps_def hpi_packUInt_def packUInt_eq sub64_def Let_def)
  moreover have "lite_covers_spec old (length cs) 0 0 (lite_code new old cs 0 0) = Some (new, [], length new)"
    using lite_covers_means [OF fit(1) _ n(1) s(2) fit(3), of 0 "[]"] fit(2) by simp
  then have "lite_spec old (length new) ?c = Some new"
    using lite_unpack_code [OF n(2), of "lite_code new old cs 0 0"] by (simp add: lite_spec_def)
  moreover have "lite_safe_diff (reads_near extra) old ?c" if "\<forall>c \<in> set cs. 0 < coverLength c \<longrightarrow> newPos c \<le> oldPos c + extra" for extra
    using lite_code_safe [OF fit(1) _ n(1) s(2) fit(3) that, of 0 "[]"] lite_unpack_code [OF n(2), of "lite_code new old cs 0 0"]
    by (simp add: lite_safe_diff_def)
  moreover have "length ?c < 2 ^ 32"
    using lite_code_length [OF fit(1) _ n(1) s(2), of 0] pack_code(3) [of "length cs" 0 0] n fit(2,4) s(1) by simp
  ultimately show ?thesis by blast
qed

text \<open>
  A lite diff, with \<open>extraSafeSize\<close> in its head when it is for patching in place: the head that the code
  for it opens, and the steps behind it, compressed or not.
\<close>

definition lite_open :: "nat option \<Rightarrow> byte list \<Rightarrow> (byte \<times> nat \<times> nat \<times> nat option \<times> byte list) res" where
  "lite_open extra d =
     (case extra of
        None \<Rightarrow> rbind (hpatch_lite_open list_read d) (\<lambda>(ty, n, u, r). Ok (ty, n, u, None, r))
      | Some _ \<Rightarrow> rbind (hpatchi_inplace_open list_read d) (\<lambda>(ty, n, u, e, r). Ok (ty, n, u, Some e, r)))"

definition lite_diff_holds ::
  "(nat \<Rightarrow> byte list \<Rightarrow> byte list option) \<Rightarrow> hdiffi_TCompress \<Rightarrow> nat option \<Rightarrow> nat \<Rightarrow> byte list \<Rightarrow> byte list \<Rightarrow> bool" where
  "lite_diff_holds unz plugin extra newSize d code \<longleftrightarrow>
     (\<exists>ty n payload. lite_open extra d = Ok (ty, newSize, n, extra, payload) \<and>
       (if n = 0 then ty = hpi_compressType_no \<and> payload = code
        else ty = hi_compress_type plugin \<and> n = length code \<and> unz n payload = Some code))"

lemma serialize_lite_diff_result:
  assumes fit: "covers_fit cs 0 (length new) (length old)" "lite_end cs 0 = length new" "\<forall>c \<in> set (butlast cs). 0 < coverLength c"
    "length cs \<le> length new" and s: "34 * length new + 11 < 2 ^ 32" "length old < 2 ^ 32"
    and P: "pred_option (\<lambda>P. compress_ok P unz \<and> compress_fits P) (hi_compress plugin)" and e: "pred_option (\<lambda>e. e < 2 ^ 32) extra"
  shows "\<exists>d code. serialize_lite_diff new old cs out plugin extra = Ok (out @ d) \<and> lite_diff_holds unz plugin extra (length new) d code \<and>
    lite_spec old (length new) code = Some new \<and>
    (\<forall>extra. (\<forall>c \<in> set cs. 0 < coverLength c \<longrightarrow> newPos c \<le> oldPos c + extra) \<longrightarrow> lite_safe_diff (reads_near extra) old code)"
proof -
  obtain code where code: "serialize_lite_steps new old cs = Ok code" "lite_spec old (length new) code = Some new" "length code < 2 ^ 32"
    "\<forall>extra. (\<forall>c \<in> set cs. 0 < coverLength c \<longrightarrow> newPos c \<le> oldPos c + extra) \<longrightarrow> lite_safe_diff (reads_near extra) old code"
    using serialize_lite_steps_result [OF fit s] by blast
  have "length code < 2 ^ 62" using code(3) by simp
  from do_compress_result [OF P this] obtain c where
    c: "do_compress code (hi_compress plugin) False = Ok c" "c \<noteq> [] \<longrightarrow> code \<noteq> [] \<and> unz (length code) c = Some code" by blast
  define ty where "ty = (if c = [] then hpi_compressType_no else hi_compress_type plugin)"
  define n where "n = (if c = [] then 0 else length code)"
  have "length new < 2 ^ 32" "n < 2 ^ 32" using s(1) code(3) by (simp_all add: n_def)
  then obtain h where
    h: "write_lite_head out ty (length new) n extra = Ok (out @ h)" "\<forall>r. lite_open extra (h @ r) = Ok (ty, length new, n, extra, r)"
    using write_lite_head_opens [of "length new" n out ty] write_lite_head_opens_inplace [of "length new" n "the extra" out ty] e
    by (cases extra) (auto simp: lite_open_def)
  let ?d = "h @ (if c = [] then code else c)"
  have "serialize_lite_diff new old cs out plugin extra = Ok (out @ ?d)"
    using code(1) c(1) h(1) by (simp add: serialize_lite_diff_def ty_def n_def pushBack_def)
  moreover have "lite_diff_holds unz plugin extra (length new) ?d code"
    using h(2) c(2) by (auto simp: lite_diff_holds_def ty_def n_def)
  ultimately show ?thesis using code(2,4) by blast
qed

lemma lite_patch_mem:
  assumes "lite_spec old (length new) code = Some new" "length old < 2 ^ 32" "2 \<le> t" "t < 2 ^ 32"
  shows "\<exists>l. hpatch_lite_patch (length code + 1) (mem_listener \<lparr>ml_diff = code, ml_old = old, ml_new = [], ml_cap = length new\<rparr>)
    (length new) t = Ok l \<and> ml_new (li_state l) = new"
proof -
  let ?l = "mem_listener \<lparr>ml_diff = code, ml_old = old, ml_new = [], ml_cap = length new\<rparr>"
  have l: "li_state ?l = \<lparr>ml_diff = code, ml_old = old, ml_new = [], ml_cap = length new\<rparr>" "mem_lite_ok ?l"
    using assms(2) by (simp_all add: mem_lite_ok_def mem_listener_def)
  have "hoare True (hpatch_lite_patch (length code + 1) ?l (length new) t) (\<lambda>l. ml_new (li_state l) = new)"
    by (rule mem_lite.hpatch_lite_rule [OF l(2)]) (use assms l in auto)
  then show ?thesis by (rule hoare_success) simp
qed

section \<open>Properties\<close>

text \<open>C39: A lite diff round-trips: for old data of at most 2 MiB whose suffixes the library sorts and new data
  with \<open>34 * length new + 11 < 2 ^ 32\<close>, without a compressor or with one that keeps its contract, \<open>create_lite_diff\<close>, with the search, writes a diff whose head
  \<open>hpatch_lite_open\<close>, or \<open>hpatchi_inplace_open\<close> when it holds \<open>extraSafeSize\<close>, reads back, and from whose steps, decompressed where they are
  compressed, \<open>hpatch_lite_patch\<close> writes the new data through a cache of any size from two bytes on.\<close>

theorem create_lite_diff_roundtrip:
  assumes "divsufsort old = Some SA" "suffix_array old SA" "length old \<le> 2 * 2 ^ 20" "34 * length new + 11 < 2 ^ 32"
    and "pred_option (\<lambda>P. compress_ok P unz \<and> compress_fits P) (hi_compress plugin)" "pred_option (\<lambda>e. e < 2 ^ 32) extra"
    and "2 \<le> t" "t < 2 ^ 32"
  shows "\<exists>d code l. create_lite_diff divsufsort k new old out plugin extra = Ok (out @ d) \<and>
    lite_diff_holds unz plugin extra (length new) d code \<and>
    hpatch_lite_patch (length code + 1) (mem_listener \<lparr>ml_diff = code, ml_old = old, ml_new = [], ml_cap = length new\<rparr>) (length new) t = Ok l \<and>
    ml_new (li_state l) = new"
proof -
  have s: "length new < 2 ^ 64" "length old < 2 ^ 64" "length old < 2 ^ 32" using assms(3,4) by simp_all
  obtain found where f: "search_covers divsufsort (k - 6) new old = Ok found" "covers_fit found 0 (length new) (length old)"
    "\<forall>c \<in> set found. 0 < coverLength c" using search_covers_fit [where divsufsort = divsufsort, OF assms(1-3)] by blast
  from get_diff_default_result [OF f(2,3) s(1,2)] obtain cs where cs: "get_diff_default new old found = Ok cs"
    "covers_fit cs 0 (length new) (length old)" "\<forall>c \<in> set cs. 0 < coverLength c" by blast
  note l = lite_last_cover_result [OF cs(2,3) s(1,2)]
  obtain d code where d: "serialize_lite_diff new old (lite_last_cover (length new) cs) out plugin extra = Ok (out @ d)"
    "lite_diff_holds unz plugin extra (length new) d code" "lite_spec old (length new) code = Some new"
    using serialize_lite_diff_result [OF l assms(4) s(3) assms(5,6)] by blast
  have "create_lite_diff divsufsort k new old out plugin extra = Ok (out @ d)"
    using f(1) cs(1) d(1) by (simp add: create_lite_diff_def get_diff_def)
  moreover obtain l where "hpatch_lite_patch (length code + 1) (mem_listener \<lparr>ml_diff = code, ml_old = old, ml_new = [], ml_cap = length new\<rparr>)
      (length new) t = Ok l" "ml_new (li_state l) = new"
    using lite_patch_mem [OF d(3) s(3) assms(7,8)] by blast
  ultimately show ?thesis using d(2) by blast
qed

definition roomy_compress :: hdiff_TCompress where
  "roomy_compress = zeros_compress\<lparr>cp_maxCompressedSize := (\<lambda>n. n + 1)\<rparr>"

lemma roomy_compress_ok: "compress_ok roomy_compress zeros_unz \<and> compress_fits roomy_compress"
proof -
  have "compress_ok roomy_compress zeros_unz" using zeros_compress_ok by (simp add: roomy_compress_def compress_ok_def)
  moreover have "compress_fits roomy_compress" by (auto simp: compress_fits_def roomy_compress_def zeros_compress_def)
  ultimately show ?thesis by blast
qed

theorem create_lite_diff_roundtrip_witness:
  "\<exists>d code l. create_lite_diff (\<lambda>_. Some [1, 0]) 6 [1, 7, 5, 7, 5, 7] [7, 5] [] \<lparr>hi_compress = Some roomy_compress, hi_compress_type = 9\<rparr> (Some 300)
      = Ok ([] @ d) \<and>
    lite_diff_holds zeros_unz \<lparr>hi_compress = Some roomy_compress, hi_compress_type = 9\<rparr> (Some 300) (length [1, 7, 5, 7, 5, 7 :: byte]) d code \<and>
    hpatch_lite_patch (length code + 1) (mem_listener \<lparr>ml_diff = code, ml_old = [7, 5], ml_new = [], ml_cap = length [1, 7, 5, 7, 5, 7 :: byte]\<rparr>)
      (length [1, 7, 5, 7, 5, 7 :: byte]) 2 = Ok l \<and>
    ml_new (li_state l) = [1, 7, 5, 7, 5, 7]"
  by (rule create_lite_diff_roundtrip [OF refl]) (use roomy_compress_ok in \<open>simp_all add: suffix_array_def\<close>)

end
