(* ===== verification/LiteInplace.thy ===== *)
theory LiteInplace
  imports HPatchLite
begin

text \<open>
  The in-place mode of \<open>hpatch_lite.c\<close>: \<open>hpatchi_listener_extra_t\<close>, a ring buffer that holds
  the new data back so that old data under it can still be read, with or without writing by
  whole pages (\<open>_IS_WTITE_NEW_BY_PAGE\<close>, a switch of the build that is a field here), and
  \<open>hpatchi_inplaceB\<close>, \<open>hpatchi_inplaceB_by_page\<close>.
\<close>

section \<open>The ring\<close>

record 'l listener_extra =
  ex_wrap :: "'l hpatchi_listener"
  ex_buf :: "byte list"
  ex_size :: nat
  ex_pos :: nat
  ex_len :: nat
  ex_by_page :: bool
  ex_page :: "byte list"
  ex_pageSize :: nat
  ex_page_len :: nat

definition wrap_write :: "'l listener_extra \<Rightarrow> byte list \<Rightarrow> 'l listener_extra res" where
  "wrap_write e d =
     (let l = ex_wrap e in
      rbind (li_write_new l (li_state l) d) (\<lambda>st. Ok (e\<lparr>ex_wrap := l\<lparr>li_state := st\<rparr>\<rparr>)))"

definition listener_page_out :: "'l listener_extra \<Rightarrow> 'l listener_extra res" where
  "listener_page_out e =
     rbind (mem_read (ex_page e) 0 (ex_page_len e)) (\<lambda>d.
     rbind (wrap_write e d) (\<lambda>e. Ok (e\<lparr>ex_page_len := 0\<rparr>)))"

text \<open>The size of a page is asserted to be positive when the listener is made; with a page of no
  bytes this loop would not end.\<close>

function listener_write_page :: "'l listener_extra \<Rightarrow> byte list \<Rightarrow> 'l listener_extra res" where
  "listener_write_page e d =
     (if d = [] then Ok e
      else rbind (require (ex_pageSize e > 0)) (\<lambda>_.
      rbind (if ex_pageSize e - ex_page_len e = 0 then listener_page_out e else Ok e) (\<lambda>e'.
      let cur_len = min (if ex_pageSize e - ex_page_len e = 0 then ex_pageSize e else ex_pageSize e - ex_page_len e) (length d) in
      rbind (mem_write (ex_page e') (ex_page_len e') (take cur_len d)) (\<lambda>page.
      listener_write_page (e'\<lparr>ex_page := page, ex_page_len := ex_page_len e' + cur_len\<rparr>) (drop cur_len d)))))"
  by pat_completeness auto
termination
  by (relation "measure (\<lambda>(e, d). length d)") (auto simp: require_def split: if_splits)

declare listener_write_page.simps [simp del]

text \<open>\<open>_hpatchi_listener_extra_out\<close>; the position is always in the ring, so a step is never empty.\<close>

function extra_out_loop :: "'l listener_extra \<Rightarrow> nat \<Rightarrow> 'l listener_extra res" where
  "extra_out_loop e out_size =
     (if out_size = 0 then Ok e
      else let cur_len = min (ex_size e - ex_pos e) out_size in
      rbind (require (cur_len > 0)) (\<lambda>_.
      rbind (mem_read (ex_buf e) (ex_pos e) cur_len) (\<lambda>d.
      rbind (if ex_by_page e then listener_write_page e d else wrap_write e d) (\<lambda>e.
      let pos = ex_pos e + cur_len in
      extra_out_loop (e\<lparr>ex_pos := pos - (if pos < ex_size e then 0 else ex_size e),
                        ex_len := ex_len e - cur_len\<rparr>) (out_size - cur_len)))))"
  by pat_completeness auto
termination
  by (relation "measure snd") (auto simp: require_def split: if_splits)

declare extra_out_loop.simps [simp del]

definition listener_extra_out :: "'l listener_extra \<Rightarrow> nat \<Rightarrow> 'l listener_extra res" where
  "listener_extra_out e out_size = rbind (require (out_size \<le> ex_len e)) (\<lambda>_. extra_out_loop e out_size)"

definition listener_extra_flush :: "'l listener_extra \<Rightarrow> 'l listener_extra res" where
  "listener_extra_flush e =
     rbind (listener_extra_out e (ex_len e)) (\<lambda>e.
     if ex_by_page e \<and> ex_page_len e \<noteq> 0 then listener_page_out e else Ok e)"

text \<open>Bytes saved in the ring from \<open>posi\<close> on.\<close>

fun ring_put :: "byte list \<Rightarrow> nat \<Rightarrow> nat \<Rightarrow> byte list \<Rightarrow> byte list res" where
  "ring_put buf k posi [] = Ok buf"
| "ring_put buf k posi (b # d) =
     (let p = posi - (if posi < k then 0 else k) in
      rbind (require (p < length buf)) (\<lambda>_. ring_put (buf[p := b]) k (p + 1) d))"

function listener_extra_write_new :: "'l listener_extra \<Rightarrow> byte list \<Rightarrow> 'l listener_extra res" where
  "listener_extra_write_new e d =
     (if d = [] then Ok e
      else
        rbind (if length d + ex_len e > ex_size e
               then listener_extra_out e (min (length d + ex_len e - ex_size e) (ex_len e)) else Ok e) (\<lambda>e.
        rbind (require (ex_len e < ex_size e)) (\<lambda>_.
        let cur_len = min (ex_size e - ex_len e) (length d) in
        rbind (ring_put (ex_buf e) (ex_size e) (ex_pos e + ex_len e) (take cur_len d)) (\<lambda>buf.
        listener_extra_write_new (e\<lparr>ex_buf := buf, ex_len := ex_len e + cur_len\<rparr>) (drop cur_len d)))))"
  by pat_completeness auto
termination
  by (relation "measure (\<lambda>(e, d). length d)") (auto simp: require_def split: if_splits)

declare listener_extra_write_new.simps [simp del]

text \<open>The listener that the patch is given: reads go to the one it wraps.\<close>

definition extra_read_diff :: "'l listener_extra \<Rightarrow> nat \<Rightarrow> byte list option \<times> 'l listener_extra" where
  "extra_read_diff e n =
     (let l = ex_wrap e in
      case li_read_diff l (li_state l) n of (x, st) \<Rightarrow> (x, e\<lparr>ex_wrap := l\<lparr>li_state := st\<rparr>\<rparr>))"

definition listener_extra_read_old :: "'l listener_extra \<Rightarrow> nat \<Rightarrow> nat \<Rightarrow> (byte list \<times> 'l listener_extra) res" where
  "listener_extra_read_old e p n =
     (let l = ex_wrap e in
      rbind (li_read_old l (li_state l) p n) (\<lambda>(d, st). Ok (d, e\<lparr>ex_wrap := l\<lparr>li_state := st\<rparr>\<rparr>)))"

definition listener_extra_init :: "'l hpatchi_listener \<Rightarrow> nat \<Rightarrow> bool \<Rightarrow> nat \<Rightarrow> 'l listener_extra hpatchi_listener" where
  "listener_extra_init wrap kWriteExtraSize by_page pageSize =
     \<lparr>li_state = \<lparr>ex_wrap = wrap, ex_buf = replicate kWriteExtraSize 0, ex_size = kWriteExtraSize, ex_pos = 0, ex_len = 0,
        ex_by_page = by_page, ex_page = replicate pageSize 0, ex_pageSize = pageSize, ex_page_len = 0\<rparr>,
      li_read_diff = extra_read_diff, li_read_old = listener_extra_read_old, li_write_new = listener_extra_write_new\<rparr>"

section \<open>The in-place patch\<close>

definition hpi_kMinInplaceCacheSize :: nat where "hpi_kMinInplaceCacheSize = 1 * 3"

definition hpatchi_inplaceA :: "nat \<Rightarrow> 'l hpatchi_listener \<Rightarrow> nat \<Rightarrow> nat \<Rightarrow> 'l hpatchi_listener res" where
  "hpatchi_inplaceA fuel listener newSize temp_cache_size = hpatch_lite_patch fuel listener newSize temp_cache_size"

text \<open>\<open>hpatchi_inplaceB\<close> and \<open>hpatchi_inplaceB_by_page\<close>, two builds of one body.\<close>

definition hpatchi_inplaceB ::
  "bool \<Rightarrow> nat \<Rightarrow> 'l hpatchi_listener \<Rightarrow> nat \<Rightarrow> nat \<Rightarrow> nat \<Rightarrow> nat \<Rightarrow> 'l hpatchi_listener res" where
  "hpatchi_inplaceB by_page fuel listener newSize extraSafeSize pageSize0 temp_cache_size =
     (let pageSize = (if by_page then pageSize0 else 0);
          needExtra = add32 extraSafeSize pageSize in
      rbind (require (temp_cache_size \<ge> add32 (add32 hpi_kMinInplaceCacheSize extraSafeSize) pageSize)) (\<lambda>_.
      rbind (require (by_page \<longrightarrow> pageSize > 0)) (\<lambda>_.
      let extraSafeSize =
            (if needExtra \<noteq> 0 then
               (let cache_size = drop_bit 1 (sub32 temp_cache_size needExtra) in
                if extraSafeSize \<ge> cache_size then extraSafeSize else cache_size)
             else extraSafeSize);
          reserved = add32 extraSafeSize pageSize in
      if needExtra \<noteq> 0 then
        rbind (hpatch_lite_patch fuel (listener_extra_init listener extraSafeSize by_page pageSize) newSize
                 (sub32 temp_cache_size reserved)) (\<lambda>l.
        rbind (listener_extra_flush (li_state l)) (\<lambda>e. Ok (ex_wrap e)))
      else hpatch_lite_patch fuel listener newSize (sub32 temp_cache_size reserved))))"

section \<open>What the ring holds\<close>

definition ring_bytes :: "byte list \<Rightarrow> nat \<Rightarrow> nat \<Rightarrow> nat \<Rightarrow> byte list" where
  "ring_bytes buf k pos n = map (\<lambda>i. buf ! ((pos + i) mod k)) [0..<n]"

lemma length_ring_bytes [simp]: "length (ring_bytes buf k pos n) = n"
  by (simp add: ring_bytes_def)

lemma ring_bytes_split:
  assumes "m \<le> n"
  shows "ring_bytes buf k pos n = ring_bytes buf k pos m @ ring_bytes buf k ((pos + m) mod k) (n - m)"
proof (rule nth_equalityI)
  fix i assume i: "i < length (ring_bytes buf k pos n)"
  show "ring_bytes buf k pos n ! i = (ring_bytes buf k pos m @ ring_bytes buf k ((pos + m) mod k) (n - m)) ! i"
    using i assms by (cases "i < m") (auto simp: ring_bytes_def nth_append mod_add_left_eq add.assoc)
qed (use assms in simp)

lemma ring_bytes_front: "pos + n \<le> k \<Longrightarrow> k \<le> length buf \<Longrightarrow> pos < k \<Longrightarrow> ring_bytes buf k pos n = take n (drop pos buf)"
  by (rule nth_equalityI) (auto simp: ring_bytes_def)

text \<open>Saving bytes behind those in the ring, as far as there is room.\<close>

lemma ring_put_rule:
  assumes "length buf = k" "0 < k" "pos < k" "n + length d \<le> k" "q mod k = (pos + n) mod k" "q \<le> k + k - 1"
  shows "\<exists>buf'. ring_put buf k q d = Ok buf' \<and> length buf' = k \<and>
    ring_bytes buf' k pos (n + length d) = ring_bytes buf k pos n @ d"
  using assms
proof (induction d arbitrary: buf n q)
  case (Cons b d)
  let ?p = "q - (if q < k then 0 else k)"
  have p: "?p < k" "?p = (pos + n) mod k"
    using Cons.prems by (auto simp: mod_if split: if_splits)
  let ?buf = "buf[?p := b]"
  have "\<exists>buf'. ring_put ?buf k (?p + 1) d = Ok buf' \<and> length buf' = k \<and>
    ring_bytes buf' k pos (n + 1 + length d) = ring_bytes ?buf k pos (n + 1) @ d"
  proof (rule Cons.IH)
    show "(?p + 1) mod k = (pos + (n + 1)) mod k" unfolding p(2) by (simp add: mod_Suc_eq)
  qed (use Cons.prems p(1) in auto)
  moreover have "ring_bytes ?buf k pos (n + 1) = ring_bytes buf k pos n @ [b]"
  proof -
    have "(pos + n) mod k \<noteq> (pos + i) mod k" if "i < n" for i
    proof
      assume "(pos + n) mod k = (pos + i) mod k"
      then have "k dvd (pos + n) - (pos + i)" using mod_eq_dvd_iff_nat [of "pos + i" "pos + n" k] that by simp
      then show False using that Cons.prems(4) by (auto dest!: dvd_imp_le)
    qed
    then have "map (\<lambda>i. ?buf ! ((pos + i) mod k)) [0..<n] = map (\<lambda>i. buf ! ((pos + i) mod k)) [0..<n]"
      using p by (intro map_cong) (auto simp: nth_list_update_neq)
    moreover have "?buf ! ((pos + n) mod k) = b" using p Cons.prems(1) by simp
    ultimately show ?thesis by (simp add: ring_bytes_def)
  qed
  ultimately show ?case using p(1) Cons.prems(1) by (auto simp: Let_def)
qed simp

section \<open>The ring as a listener\<close>

context lite_io begin

definition ex_ok :: "'l listener_extra \<Rightarrow> bool" where
  "ex_ok e \<longleftrightarrow>
     lok (ex_wrap e) \<and> 0 < ex_size e \<and> length (ex_buf e) = ex_size e \<and> ex_pos e < ex_size e \<and> ex_len e \<le> ex_size e \<and>
     length (ex_page e) = ex_pageSize e \<and> ex_page_len e \<le> ex_pageSize e \<and>
     (if ex_by_page e then 0 < ex_pageSize e else ex_page_len e = 0)"

definition ex_ring :: "'l listener_extra \<Rightarrow> byte list" where
  "ex_ring e = ring_bytes (ex_buf e) (ex_size e) (ex_pos e) (ex_len e)"

definition ex_paged :: "'l listener_extra \<Rightarrow> byte list" where
  "ex_paged e = take (ex_page_len e) (ex_page e)"

definition ex_written :: "'l listener_extra \<Rightarrow> byte list" where
  "ex_written e = lnew (ex_wrap e) @ ex_paged e @ ex_ring e"

text \<open>What does not change.\<close>

definition ex_same :: "'l listener_extra \<Rightarrow> 'l listener_extra \<Rightarrow> bool" where
  "ex_same e e' \<longleftrightarrow>
     ex_ok e' \<and> ex_size e' = ex_size e \<and> ex_by_page e' = ex_by_page e \<and> ex_pageSize e' = ex_pageSize e \<and>
     ldiff (ex_wrap e') = ldiff (ex_wrap e) \<and> lold (ex_wrap e') = lold (ex_wrap e) \<and> lcap (ex_wrap e') = lcap (ex_wrap e)"

lemma ex_same_refl [simp]: "ex_ok e \<Longrightarrow> ex_same e e"
  by (simp add: ex_same_def)

lemma ex_same_trans: "ex_same e e' \<Longrightarrow> ex_same e' e'' \<Longrightarrow> ex_same e e''"
  by (simp add: ex_same_def)

text \<open>Everything but the wrapped listener.\<close>

lemma wrap_write_rule:
  assumes ok: "ex_ok e" and S: "S \<Longrightarrow> length (lnew (ex_wrap e)) + length d \<le> lcap (ex_wrap e)"
    and Q: "\<And>l. lok l \<Longrightarrow> ldiff l = ldiff (ex_wrap e) \<Longrightarrow> lold l = lold (ex_wrap e) \<Longrightarrow> lcap l = lcap (ex_wrap e) \<Longrightarrow>
      lnew l = lnew (ex_wrap e) @ d \<Longrightarrow> Q (e\<lparr>ex_wrap := l\<rparr>)"
  shows "hoare S (wrap_write e d) Q"
proof -
  have l: "lok (ex_wrap e)" using ok by (simp add: ex_ok_def)
  show ?thesis unfolding wrap_write_def Let_def
    by (rule hoare_bindI, rule hoare_weaken [OF write_law [OF l]]) (use S in \<open>auto simp: Let_def intro!: Q\<close>)
qed

text \<open>A page that is full, and bytes put in pages.\<close>

lemma page_out_rule:
  assumes ok: "ex_ok e" and S: "S \<Longrightarrow> length (lnew (ex_wrap e)) + ex_page_len e \<le> lcap (ex_wrap e)"
    and Q: "\<And>e'. ex_same e e' \<Longrightarrow> ex_page_len e' = 0 \<Longrightarrow> ex_buf e' = ex_buf e \<Longrightarrow> ex_pos e' = ex_pos e \<Longrightarrow> ex_len e' = ex_len e \<Longrightarrow>
      ex_page e' = ex_page e \<Longrightarrow> lnew (ex_wrap e') = lnew (ex_wrap e) @ ex_paged e \<Longrightarrow> Q e'"
  shows "hoare S (listener_page_out e) Q"
proof -
  have r: "mem_read (ex_page e) 0 (ex_page_len e) = Ok (ex_paged e)" "length (ex_paged e) = ex_page_len e"
    using ok by (simp_all add: ex_ok_def mem_read_def ex_paged_def)
  show ?thesis unfolding listener_page_out_def r rbind.simps
    by (rule hoare_bindI, rule wrap_write_rule [OF ok])
      (use S r(2) ok in \<open>auto simp: ex_same_def ex_ok_def split: if_splits intro!: Q\<close>)
qed

lemma write_page_rule:
  assumes ok: "ex_ok e" "ex_by_page e"
    and S: "S \<Longrightarrow> length (lnew (ex_wrap e)) + ex_page_len e + length d \<le> lcap (ex_wrap e)"
    and Q: "\<And>e'. ex_same e e' \<Longrightarrow> ex_buf e' = ex_buf e \<Longrightarrow> ex_pos e' = ex_pos e \<Longrightarrow> ex_len e' = ex_len e \<Longrightarrow>
      lnew (ex_wrap e') @ ex_paged e' = lnew (ex_wrap e) @ ex_paged e @ d \<Longrightarrow> Q e'"
  shows "hoare S (listener_write_page e d) Q"
  using assms
proof (induction d arbitrary: e Q rule: length_induct)
  case (1 d)
  note IH = 1(1) and ok = 1(2,3) and S = 1(4) and Q = 1(5)
  show ?case
  proof (cases "d = []")
    case True
    then show ?thesis using Q [of e] ok by (simp add: listener_write_page.simps [of e])
  next
    case False
    have page: "0 < ex_pageSize e" "length (ex_page e) = ex_pageSize e" "ex_page_len e \<le> ex_pageSize e"
      using ok by (auto simp: ex_ok_def)
    define n where "n = min (if ex_pageSize e - ex_page_len e = 0 then ex_pageSize e else ex_pageSize e - ex_page_len e) (length d)"
    have n: "0 < n" "n \<le> length d" using page False by (auto simp: n_def)
    have unf: "listener_write_page e d =
      rbind (if ex_pageSize e - ex_page_len e = 0 then listener_page_out e else Ok e) (\<lambda>e'.
      rbind (mem_write (ex_page e') (ex_page_len e') (take n d)) (\<lambda>page.
      listener_write_page (e'\<lparr>ex_page := page, ex_page_len := ex_page_len e' + n\<rparr>) (drop n d)))"
      using False page(1) by (subst listener_write_page.simps) (simp add: n_def Let_def)
    have step: "hoare S (rbind (mem_write (ex_page e') (ex_page_len e') (take n d)) (\<lambda>page.
      listener_write_page (e'\<lparr>ex_page := page, ex_page_len := ex_page_len e' + n\<rparr>) (drop n d))) Q"
      if e': "ex_same e e'" "ex_buf e' = ex_buf e" "ex_pos e' = ex_pos e" "ex_len e' = ex_len e" "ex_page_len e' + n \<le> ex_pageSize e"
        "lnew (ex_wrap e') @ ex_paged e' = lnew (ex_wrap e) @ ex_paged e" for e'
    proof -
      let ?page = "take (ex_page_len e') (ex_page e') @ take n d @ drop (ex_page_len e' + n) (ex_page e')"
      let ?e = "e'\<lparr>ex_page := ?page, ex_page_len := ex_page_len e' + n\<rparr>"
      have lp: "length (ex_page e') = ex_pageSize e" using e'(1) by (simp add: ex_same_def ex_ok_def)
      have w: "mem_write (ex_page e') (ex_page_len e') (take n d) = Ok ?page"
        using e'(5) lp n by (simp add: mem_write_def min_absorb2)
      have pg: "ex_paged ?e = ex_paged e' @ take n d" using lp e'(5) n by (simp add: ex_paged_def min_absorb2)
      have ok': "ex_ok e'" "ex_pageSize e' = ex_pageSize e" "ex_by_page e'" using e'(1) ok(2) by (simp_all add: ex_same_def)
      have "length ?page = ex_pageSize e" using lp e'(5) n by simp
      then have ok1: "ex_ok ?e" using ok' e'(5) page(1) unfolding ex_ok_def by (simp del: length_append)
      have "hoare S (listener_write_page ?e (drop n d)) Q"
      proof (rule IH [rule_format])
        show "length (lnew (ex_wrap ?e)) + ex_page_len ?e + length (drop n d) \<le> lcap (ex_wrap ?e)" if S
        proof -
          have "length (lnew (ex_wrap e')) + ex_page_len e' = length (lnew (ex_wrap e)) + ex_page_len e"
            using arg_cong [OF e'(6), of length] e'(5) lp page by (simp add: ex_paged_def)
          then show ?thesis using S [OF that] n e'(1) by (simp add: ex_same_def)
        qed
        fix e'' assume a: "ex_same ?e e''" "ex_buf e'' = ex_buf ?e" "ex_pos e'' = ex_pos ?e" "ex_len e'' = ex_len ?e"
          "lnew (ex_wrap e'') @ ex_paged e'' = lnew (ex_wrap ?e) @ ex_paged ?e @ drop n d"
        show "Q e''"
        proof (rule Q)
          show "ex_same e e''" using e'(1) a(1) by (simp add: ex_same_def)
          have "lnew (ex_wrap e'') @ ex_paged e'' = (lnew (ex_wrap e') @ ex_paged e') @ take n d @ drop n d"
            unfolding a(5) pg by simp
          then show "lnew (ex_wrap e'') @ ex_paged e'' = lnew (ex_wrap e) @ ex_paged e @ d" unfolding e'(6) by simp
        qed (use a e' in simp_all)
      qed (use n ok1 e'(1) ok(2) in \<open>auto simp: ex_same_def\<close>)
      then show ?thesis unfolding w by simp
    qed
    show ?thesis
    proof (cases "ex_pageSize e - ex_page_len e = 0")
      case True
      then have full: "ex_page_len e = ex_pageSize e" using page by simp
      have n1: "n \<le> ex_pageSize e" using True by (simp add: n_def)
      show ?thesis unfolding unf if_P [OF True]
      proof (rule hoare_bindI, rule page_out_rule [OF ok(1)], goal_cases)
        case 1
        then show ?case using S by fastforce
      next
        case (2 e')
        show ?case by (rule step) (use 2 n1 in \<open>auto simp: ex_paged_def\<close>)
      qed
    next
      case not: False
      then show ?thesis unfolding unf if_not_P [OF not] rbind.simps
        by (intro step) (use ok page in \<open>auto simp: n_def\<close>)
    qed
  qed
qed

text \<open>Bytes that leave the ring.\<close>

lemma extra_out_rule:
  assumes ok: "ex_ok e" and n: "n \<le> ex_len e"
    and S: "S \<Longrightarrow> length (lnew (ex_wrap e)) + ex_page_len e + n \<le> lcap (ex_wrap e)"
    and Q: "\<And>e'. ex_same e e' \<Longrightarrow> ex_len e' = ex_len e - n \<Longrightarrow> ex_written e' = ex_written e \<Longrightarrow>
      length (lnew (ex_wrap e')) + ex_page_len e' = length (lnew (ex_wrap e)) + ex_page_len e + n \<Longrightarrow> Q e'"
  shows "hoare S (extra_out_loop e n) Q"
  using assms
proof (induction n arbitrary: e Q rule: less_induct)
  case (less n)
  show ?case
  proof (cases "n = 0")
    case True
    then show ?thesis using less.prems(4) [of e] less.prems(1) by (simp add: extra_out_loop.simps [of e])
  next
    case False
    have h: "0 < ex_size e" "length (ex_buf e) = ex_size e" "ex_pos e < ex_size e" "ex_len e \<le> ex_size e"
      using less.prems(1) by (auto simp: ex_ok_def)
    let ?m = "min (ex_size e - ex_pos e) n"
    let ?d = "take ?m (drop (ex_pos e) (ex_buf e))"
    have m: "0 < ?m" "?m \<le> n" "ex_pos e + ?m \<le> ex_size e" using h False by auto
    have rd: "mem_read (ex_buf e) (ex_pos e) ?m = Ok ?d" "length ?d = ?m" using h by (simp_all add: mem_read_def)
    define pos' where "pos' = ex_pos e + ?m - (if ex_pos e + ?m < ex_size e then 0 else ex_size e)"
    have pos': "pos' = (ex_pos e + ?m) mod ex_size e" "pos' < ex_size e"
      using m(3) h by (auto simp: pos'_def mod_if)
    have ring: "ex_ring e = ?d @ ring_bytes (ex_buf e) (ex_size e) pos' (ex_len e - ?m)"
    proof -
      have "ring_bytes (ex_buf e) (ex_size e) (ex_pos e) ?m = ?d"
        using m(3) h by (intro ring_bytes_front) auto
      then show ?thesis unfolding ex_ring_def using ring_bytes_split [of ?m "ex_len e"] m(2) less.prems(2)
        by (simp add: pos'(1))
    qed
    have unf: "extra_out_loop e n = rbind (if ex_by_page e then listener_write_page e ?d else wrap_write e ?d) (\<lambda>e.
      extra_out_loop (e\<lparr>ex_pos := ex_pos e + ?m - (if ex_pos e + ?m < ex_size e then 0 else ex_size e),
                        ex_len := ex_len e - ?m\<rparr>) (n - ?m))"
      using False m(1) rd(1) by (subst extra_out_loop.simps) (simp add: Let_def)
    have step: "hoare S (extra_out_loop (e'\<lparr>ex_pos := ex_pos e' + ?m - (if ex_pos e' + ?m < ex_size e' then 0 else ex_size e'),
                        ex_len := ex_len e' - ?m\<rparr>) (n - ?m)) Q"
      if e': "ex_same e e'" "ex_buf e' = ex_buf e" "ex_pos e' = ex_pos e" "ex_len e' = ex_len e"
        "lnew (ex_wrap e') @ ex_paged e' = lnew (ex_wrap e) @ ex_paged e @ ?d" for e'
    proof -
      let ?e = "e'\<lparr>ex_pos := pos', ex_len := ex_len e - ?m\<rparr>"
      have sz: "ex_size e' = ex_size e" using e'(1) by (simp add: ex_same_def)
      have ok1: "ex_ok ?e" using e'(1) pos'(2) h(4) sz by (auto simp: ex_same_def ex_ok_def)
      have page_le: "length (ex_paged x) = ex_page_len x" if "ex_ok x" for x using that by (simp add: ex_ok_def ex_paged_def)
      have lens: "length (lnew (ex_wrap e')) + ex_page_len e' = length (lnew (ex_wrap e)) + ex_page_len e + ?m"
        using arg_cong [OF e'(5), of length] rd(2) page_le [of e'] page_le [of e] less.prems(1) e'(1) by (simp add: ex_same_def)
      have wr: "ex_written ?e = ex_written e"
        unfolding ex_written_def ring using e'(5) e'(2) sz by (simp add: ex_ring_def ex_paged_def)
      have "hoare S (extra_out_loop ?e (n - ?m)) Q"
      proof (rule less.IH)
        show "n - ?m < n" using m(1) False by simp
        show "length (lnew (ex_wrap ?e)) + ex_page_len ?e + (n - ?m) \<le> lcap (ex_wrap ?e)" if S
          using less.prems(3) [OF that] lens m(2) e'(1) by (simp add: ex_same_def)
        show "n - ?m \<le> ex_len ?e" using less.prems(2) m(2) by simp
        fix e'' assume a: "ex_same ?e e''" "ex_len e'' = ex_len ?e - (n - ?m)" "ex_written e'' = ex_written ?e"
          "length (lnew (ex_wrap e'')) + ex_page_len e'' = length (lnew (ex_wrap ?e)) + ex_page_len ?e + (n - ?m)"
        show "Q e''"
        proof (rule less.prems(4))
          show "ex_same e e''" using a(1) e'(1) by (simp add: ex_same_def)
          show "ex_len e'' = ex_len e - n" using a(2) m(2) by simp
          show "ex_written e'' = ex_written e" using a(3) wr by simp
          show "length (lnew (ex_wrap e'')) + ex_page_len e'' = length (lnew (ex_wrap e)) + ex_page_len e + n"
            using a(4) lens m(2) by simp
        qed
      qed (rule ok1)
      then show ?thesis unfolding e'(3,4) sz pos'_def [symmetric] .
    qed
    have S1: "length (lnew (ex_wrap e)) + ex_page_len e + length ?d \<le> lcap (ex_wrap e)" if S
      using less.prems(3) [OF that] rd(2) m(2) by linarith
    show ?thesis unfolding unf
    proof (cases "ex_by_page e")
      case True
      show "hoare S (rbind (if ex_by_page e then listener_write_page e ?d else wrap_write e ?d) (\<lambda>e.
      extra_out_loop (e\<lparr>ex_pos := ex_pos e + ?m - (if ex_pos e + ?m < ex_size e then 0 else ex_size e),
                        ex_len := ex_len e - ?m\<rparr>) (n - ?m))) Q"
        unfolding if_P [OF True]
        by (rule hoare_bindI, rule write_page_rule [OF less.prems(1) True S1], assumption, rule step)
    next
      case False
      then have p0: "ex_page_len e = 0" using less.prems(1) by (simp add: ex_ok_def)
      show "hoare S (rbind (if ex_by_page e then listener_write_page e ?d else wrap_write e ?d) (\<lambda>e.
      extra_out_loop (e\<lparr>ex_pos := ex_pos e + ?m - (if ex_pos e + ?m < ex_size e then 0 else ex_size e),
                        ex_len := ex_len e - ?m\<rparr>) (n - ?m))) Q"
        unfolding if_not_P [OF False]
      proof (rule hoare_bindI, rule wrap_write_rule [OF less.prems(1)], goal_cases)
        case 1
        then show ?case using S1 p0 by simp
      next
        case (2 l)
        show ?case by (rule step) (use 2 less.prems(1) p0 in \<open>auto simp: ex_same_def ex_ok_def ex_paged_def\<close>)
      qed
    qed
  qed
qed

lemma ex_page_length: "ex_ok e \<Longrightarrow> length (ex_paged e) = ex_page_len e"
  by (simp add: ex_ok_def ex_paged_def)

text \<open>
  Writing new data: it goes to the ring, and only what does not fit leaves it, so the ring holds
  the latest bytes, as many as it can.
\<close>

lemma extra_write_rule:
  assumes ok: "ex_ok e" and S: "S \<Longrightarrow> length (ex_written e) + length d \<le> lcap (ex_wrap e)"
    and Q: "\<And>e'. ex_same e e' \<Longrightarrow> ex_written e' = ex_written e @ d \<Longrightarrow>
      ex_len e' = min (ex_size e) (ex_len e + length d) \<Longrightarrow> Q e'"
  shows "hoare S (listener_extra_write_new e d) Q"
  using assms
proof (induction d arbitrary: e Q rule: length_induct)
  case (1 d)
  note IH = 1(1) and ok = 1(2) and S = 1(3) and Q = 1(4)
  show ?case
  proof (cases "d = []")
    case True
    then show ?thesis using Q [of e] ok by (simp add: listener_extra_write_new.simps [of e] ex_ok_def)
  next
    case False
    let ?over = "length d + ex_len e - ex_size e"
    have h: "0 < ex_size e" "ex_len e \<le> ex_size e" using ok by (simp_all add: ex_ok_def)
    have step: "hoare S (rbind (require (ex_len e' < ex_size e')) (\<lambda>_.
        let cur_len = min (ex_size e' - ex_len e') (length d) in
        rbind (ring_put (ex_buf e') (ex_size e') (ex_pos e' + ex_len e') (take cur_len d)) (\<lambda>buf.
        listener_extra_write_new (e'\<lparr>ex_buf := buf, ex_len := ex_len e' + cur_len\<rparr>) (drop cur_len d)))) Q"
      if e': "ex_same e e'" "ex_written e' = ex_written e" "ex_len e' = ex_len e - min ?over (ex_len e)" for e'
    proof -
      let ?n = "min (ex_size e - ex_len e') (length d)"
      have ok': "ex_ok e'" "ex_size e' = ex_size e" "ex_by_page e' = ex_by_page e" "ex_pageSize e' = ex_pageSize e"
        using e'(1) by (simp_all add: ex_same_def)
      have r: "length (ex_buf e') = ex_size e" "ex_pos e' < ex_size e" "ex_len e' \<le> ex_size e"
        using ok'(1,2) by (auto simp: ex_ok_def)
      have room: "ex_len e' < ex_size e'" using e'(3) h False ok'(2) by (cases d) auto
      have req: "require (ex_len e' < ex_size e) = Ok ()" using room ok'(2) by simp
      have n: "0 < ?n" "?n \<le> length d" "ex_len e' + ?n \<le> ex_size e" using room False ok'(2) by auto
      have take_n: "length (take ?n d) = ?n" by simp
      have bound: "ex_pos e' + ex_len e' \<le> ex_size e + ex_size e - 1" using r room ok'(2) by arith
      obtain buf where buf: "ring_put (ex_buf e') (ex_size e) (ex_pos e' + ex_len e') (take ?n d) = Ok buf"
          "length buf = ex_size e"
          "ring_bytes buf (ex_size e) (ex_pos e') (ex_len e' + length (take ?n d))
            = ring_bytes (ex_buf e') (ex_size e) (ex_pos e') (ex_len e') @ take ?n d"
        using ring_put_rule [OF r(1) h(1) r(2), of "ex_len e'" "take ?n d" "ex_pos e' + ex_len e'"] n(2,3) bound take_n by metis
      let ?e = "e'\<lparr>ex_buf := buf, ex_len := ex_len e' + ?n\<rparr>"
      have ok1: "ex_ok ?e" using ok' buf(2) n(3) unfolding ex_ok_def by (simp split: if_splits)
      have wr: "ex_written ?e = ex_written e @ take ?n d"
        unfolding e'(2) [symmetric] using buf(3) n(2) ok'(2) by (simp add: ex_written_def ex_ring_def ex_paged_def)
      have "hoare S (listener_extra_write_new ?e (drop ?n d)) Q"
      proof (rule IH [rule_format])
        show "length (drop ?n d) < length d" using n by simp
        show "length (ex_written ?e) + length (drop ?n d) \<le> lcap (ex_wrap ?e)" if S
          using S [OF that] wr n(2) e'(1) by (simp add: ex_same_def)
        fix e'' assume a: "ex_same ?e e''" "ex_written e'' = ex_written ?e @ drop ?n d"
          "ex_len e'' = min (ex_size ?e) (ex_len ?e + length (drop ?n d))"
        show "Q e''"
        proof (rule Q)
          show "ex_same e e''" using e'(1) a(1) by (simp add: ex_same_def)
          show "ex_written e'' = ex_written e @ d" using a(2) wr by simp
          show "ex_len e'' = min (ex_size e) (ex_len e + length d)"
          proof -
            have "ex_len e'' = min (ex_size e) (ex_len e' + length d)" using a(3) n(2) ok'(2) by simp
            then show ?thesis unfolding e'(3) using h(2) by linarith
          qed
        qed
      qed (rule ok1)
      then show ?thesis unfolding Let_def ok'(2) req buf(1) rbind.simps .
    qed
    have unf: "listener_extra_write_new e d = rbind (if length d + ex_len e > ex_size e
               then listener_extra_out e (min ?over (ex_len e)) else Ok e) (\<lambda>e.
        rbind (require (ex_len e < ex_size e)) (\<lambda>_.
        let cur_len = min (ex_size e - ex_len e) (length d) in
        rbind (ring_put (ex_buf e) (ex_size e) (ex_pos e + ex_len e) (take cur_len d)) (\<lambda>buf.
        listener_extra_write_new (e\<lparr>ex_buf := buf, ex_len := ex_len e + cur_len\<rparr>) (drop cur_len d))))"
      using False by (subst listener_extra_write_new.simps) simp
    show ?thesis
    proof (cases "length d + ex_len e > ex_size e")
      case True
      have req: "listener_extra_out e (min ?over (ex_len e)) = extra_out_loop e (min ?over (ex_len e))"
        by (simp add: listener_extra_out_def)
      have w: "length (ex_written e) = length (lnew (ex_wrap e)) + ex_page_len e + ex_len e"
        using ex_page_length [OF ok] by (simp add: ex_written_def ex_ring_def)
      show ?thesis unfolding unf if_P [OF True] req
      proof (rule hoare_bindI, rule extra_out_rule [OF ok], goal_cases)
        case 2
        then show ?case using S w by fastforce
      next
        case (3 e')
        show ?case by (rule step) (use 3 in auto)
      qed simp
    next
      case fits: False
      show ?thesis unfolding unf if_not_P [OF fits] rbind.simps
        by (rule step) (use ok fits in auto)
    qed
  qed
qed

text \<open>All that is held back goes out at the end.\<close>

lemma extra_flush_rule:
  assumes ok: "ex_ok e" and S: "S \<Longrightarrow> length (ex_written e) \<le> lcap (ex_wrap e)"
    and Q: "\<And>e'. ex_same e e' \<Longrightarrow> lnew (ex_wrap e') = ex_written e \<Longrightarrow> Q e'"
  shows "hoare S (listener_extra_flush e) Q"
proof -
  have req: "listener_extra_out e (ex_len e) = extra_out_loop e (ex_len e)" by (simp add: listener_extra_out_def)
  have w: "length (ex_written e) = length (lnew (ex_wrap e)) + ex_page_len e + ex_len e"
    using ex_page_length [OF ok] by (simp add: ex_written_def ex_ring_def)
  show ?thesis unfolding listener_extra_flush_def req
  proof (rule hoare_bindI, rule extra_out_rule [OF ok], goal_cases)
    case 2
    then show ?case using S w by simp
  next
    case (3 e1)
    have ok1: "ex_ok e1" using 3(1) by (simp add: ex_same_def)
    have ring: "ex_ring e1 = []" using 3(2) by (simp add: ex_ring_def ring_bytes_def)
    show ?case
    proof (cases "ex_by_page e1 \<and> ex_page_len e1 \<noteq> 0")
      case True
      show ?thesis unfolding if_P [OF True]
      proof (rule page_out_rule [OF ok1])
        show "length (lnew (ex_wrap e1)) + ex_page_len e1 \<le> lcap (ex_wrap e1)" if S
          using S [OF that] w 3(1,4) by (simp add: ex_same_def)
        fix e' assume "ex_same e1 e'" "lnew (ex_wrap e') = lnew (ex_wrap e1) @ ex_paged e1"
        then show "Q e'" using 3(1,3) ring by (intro Q) (auto simp: ex_written_def intro: ex_same_trans)
      qed
    next
      case False
      then have "ex_paged e1 = []" using ok1 by (auto simp: ex_ok_def ex_paged_def split: if_splits)
      then have "Q e1" using 3(1,3) ring by (intro Q) (auto simp: ex_written_def)
      then show ?thesis unfolding if_not_P [OF False] by simp
    qed
  qed simp
qed

text \<open>The listener that holds back keeps the contract of a listener.\<close>

definition extra_lok :: "nat \<Rightarrow> 'l listener_extra hpatchi_listener \<Rightarrow> bool" where
  "extra_lok k l \<longleftrightarrow>
     ex_ok (li_state l) \<and> ex_size (li_state l) = k \<and> ex_len (li_state l) = min k (length (ex_written (li_state l))) \<and> li_read_diff l = extra_read_diff \<and> li_read_old l = listener_extra_read_old \<and>
     li_write_new l = listener_extra_write_new"

text \<open>The ring holds the latest bytes back, so those are not in the way of a read.\<close>

definition held_guard :: "nat \<Rightarrow> nat \<Rightarrow> nat \<Rightarrow> bool" where
  "held_guard k w p = lguard (w - k) p"

lemma extra_lite_io:
  "lite_io (extra_lok k) (\<lambda>l. ldiff (ex_wrap (li_state l))) (\<lambda>l. lold (ex_wrap (li_state l)))
     (\<lambda>l. ex_written (li_state l)) (\<lambda>l. lcap (ex_wrap (li_state l))) (held_guard k)"
proof
  fix l :: "'l listener_extra hpatchi_listener" and n pos :: nat and d :: "byte list"
  assume ok: "extra_lok k l"
  let ?e = "li_state l" and ?w = "ex_wrap (li_state l)"
  have e: "ex_ok ?e" "lok ?w" using ok by (simp_all add: extra_lok_def ex_ok_def)
  have f: "li_read_diff l = extra_read_diff" "li_read_old l = listener_extra_read_old" "li_write_new l = listener_extra_write_new"
    using ok by (simp_all add: extra_lok_def)
  have sz: "ex_size ?e = k" "ex_len ?e = min k (length (ex_written ?e))" using ok by (simp_all add: extra_lok_def)
  have wrap: "ex_ok (?e\<lparr>ex_wrap := w\<rparr>) \<and> ex_written (?e\<lparr>ex_wrap := w\<rparr>) = ex_written ?e"
    if "lok w" "lnew w = lnew ?w" for w
    using that e(1) unfolding ex_ok_def by (simp add: ex_written_def ex_paged_def ex_ring_def)
  have w: "length (lnew ?w) \<le> length (ex_written ?e) - k"
    using ok ex_page_length [OF e(1)] by (auto simp: extra_lok_def ex_written_def ex_ring_def)
  obtain x st where r: "li_read_diff ?w (li_state ?w) n = (x, st)" by fastforce
  show "case li_read_diff l ?e n of
         (x, st) \<Rightarrow> let l' = l\<lparr>li_state := st\<rparr> in
           x = Some (take n (ldiff ?w)) \<and> extra_lok k l' \<and> ldiff (ex_wrap (li_state l')) = drop n (ldiff ?w) \<and>
           lold (ex_wrap (li_state l')) = lold ?w \<and> ex_written (li_state l') = ex_written ?e \<and>
           lcap (ex_wrap (li_state l')) = lcap ?w"
    using read_diff_law [OF e(2), of n] r wrap f sz by (simp add: extra_read_diff_def Let_def extra_lok_def)
  show "hoare (pos + n \<le> length (lold ?w)) (li_read_old l ?e pos n) (\<lambda>(d, st). let l' = l\<lparr>li_state := st\<rparr> in
        pos + n \<le> length (lold ?w) \<and> d = take n (drop pos (lold ?w)) \<and> extra_lok k l' \<and> ldiff (ex_wrap (li_state l')) = ldiff ?w \<and>
        lold (ex_wrap (li_state l')) = lold ?w \<and> ex_written (li_state l') = ex_written ?e \<and>
        lcap (ex_wrap (li_state l')) = lcap ?w)" if "pos < 2 ^ 32" "held_guard k (length (ex_written ?e)) pos"
    using read_old_law [OF e(2) that(1) guard_less [OF that(2) [unfolded held_guard_def] w], of n] wrap f sz
    by (cases "li_read_old ?w (li_state ?w) pos n") (auto simp: listener_extra_read_old_def Let_def extra_lok_def)
  show "hoare (length (ex_written ?e) + length d \<le> lcap ?w) (li_write_new l ?e d) (\<lambda>st. let l' = l\<lparr>li_state := st\<rparr> in
        extra_lok k l' \<and> ldiff (ex_wrap (li_state l')) = ldiff ?w \<and> lold (ex_wrap (li_state l')) = lold ?w \<and>
        ex_written (li_state l') = ex_written ?e @ d \<and> lcap (ex_wrap (li_state l')) = lcap ?w)"
    unfolding f(3) by (rule extra_write_rule [OF e(1)]) (use f sz in \<open>auto simp: Let_def extra_lok_def ex_same_def\<close>)
  show "length (lold ?w) < 2 ^ 32" by (rule old_size [OF e(2)])
next
  show "held_guard k (w + n) (p + n)" if "held_guard k w p" for w p n
    using guard_less [OF guard_shift [OF that [unfolded held_guard_def], of n], of "w + n - k"] by (simp add: held_guard_def)
  show "held_guard k w' p" if "held_guard k w p" "w' \<le> w" for w w' p
    using guard_less [of "w - k" p "w' - k"] that by (simp add: held_guard_def)
qed

lemma inplaceB_rule:
  assumes l: "lok l" "lnew l = []" and fuel: "length (ldiff l) < fuel" and t: "t < 2 ^ 31" "3 + extra + page \<le> t"
    and page: "by_page \<Longrightarrow> 0 < page"
    and S: "S \<Longrightarrow> \<exists>new. lite_spec (lold l) newSize (ldiff l) = Some new \<and> length new \<le> lcap l"
    and Q: "\<And>l'. lok l' \<Longrightarrow> lold l' = lold l \<Longrightarrow> lcap l' = lcap l \<Longrightarrow> lite_spec (lold l) newSize (ldiff l) = Some (lnew l') \<Longrightarrow> Q l'"
    and G: "lite_safe_diff (held_guard extra) (lold l) (ldiff l)"
  shows "hoare S (hpatchi_inplaceB by_page fuel l newSize extra page t) Q"
proof -
  define p where "p = (if by_page then page else 0)"
  have p: "p \<le> page" "by_page \<Longrightarrow> 0 < p" using page by (auto simp: p_def)
  define k where "k = (if extra \<ge> (t - (extra + p)) div 2 then extra else (t - (extra + p)) div 2)"
  have k: "0 < k" "extra \<le> k" "k + p + 2 \<le> t" using t(2) p by (auto simp: k_def)
  have a: "add32 extra p = extra + p" "add32 (add32 hpi_kMinInplaceCacheSize extra) p = 3 + extra + p"
    "add32 k p = k + p" "add32 extra 0 = extra" "sub32 t (extra + p) = t - (extra + p)" "sub32 t (k + p) = t - (k + p)"
    using t p k by (simp_all add: add32_def sub32_def hpi_kMinInplaceCacheSize_def mod_if)
  have half: "drop_bit 1 n = n div 2" for n :: nat by (simp add: drop_bit_eq_div)
  have k_if: "(if extra \<ge> (t - (extra + p)) div 2 then extra else (t - (extra + p)) div 2) = k" by (simp add: k_def)
  have reqs: "require (t \<ge> 3 + extra + p) = Ok ()" "require (by_page \<longrightarrow> p > 0) = Ok ()" using t(2) p by auto
  show ?thesis unfolding hpatchi_inplaceB_def Let_def p_def [symmetric] a reqs rbind.simps half k_if
  proof (cases "extra + p = 0")
    case True
    have e0: "extra = 0" "p = 0" using True by auto
    show "hoare S (if extra + p \<noteq> 0 then
        rbind (hpatch_lite_patch fuel (listener_extra_init l (if extra + p \<noteq> 0 then k else extra) by_page p) newSize
           (sub32 t (add32 (if extra + p \<noteq> 0 then k else extra) p))) (\<lambda>l.
        rbind (listener_extra_flush (li_state l)) (\<lambda>e. Ok (ex_wrap e)))
      else hpatch_lite_patch fuel l newSize (sub32 t (add32 (if extra + p \<noteq> 0 then k else extra) p))) Q"
    proof (simp only: True if_False simp_thms refl, rule hpatch_lite_rule [OF l fuel])
      have "sub32 t (add32 extra p) = t" using e0 t by (simp add: add32_def sub32_def mod_if)
      then show "sub32 t (add32 extra p) < 2 ^ 32"
        "S \<Longrightarrow> 2 \<le> sub32 t (add32 extra p) \<and> (\<exists>new. lite_spec (lold l) newSize (ldiff l) = Some new \<and> length new \<le> lcap l)"
        using t S by auto
      have "held_guard extra = lguard" using e0 by (simp add: held_guard_def fun_eq_iff)
      then show "lite_safe_diff lguard (lold l) (ldiff l)" using G by simp
    qed (use Q in auto)
  next
    case False
    let ?l = "listener_extra_init l k by_page p"
    have gk: "lite_safe_diff (held_guard k) (lold l) (ldiff l)"
      by (rule lite_safe_diff_mono [OF G]) (use guard_less k(2) in \<open>auto simp: held_guard_def\<close>)
    have ex: "ex_ok (li_state ?l)" using l(1) k p(2) by (simp add: listener_extra_init_def ex_ok_def p_def)
    have "hoare S (rbind (hpatch_lite_patch fuel ?l newSize (t - (k + p))) (\<lambda>l.
        rbind (listener_extra_flush (li_state l)) (\<lambda>e. Ok (ex_wrap e)))) Q"
    proof (rule hoare_bindI, rule lite_io.hpatch_lite_rule [OF extra_lite_io [of k]], goal_cases)
      case 1
      then show ?case using ex l(2) by (simp add: extra_lok_def listener_extra_init_def ex_written_def ex_paged_def ex_ring_def ring_bytes_def)
    next
      case 2
      then show ?case using l by (simp add: listener_extra_init_def ex_written_def ex_paged_def ex_ring_def ring_bytes_def)
    next
      case 5
      then show ?case using S k by (simp add: listener_extra_init_def)
    next
      case (6 l')
      then have e: "ex_ok (li_state l')" "lite_spec (lold l) newSize (ldiff l) = Some (ex_written (li_state l'))"
        by (simp_all add: extra_lok_def listener_extra_init_def)
      show ?case
      proof (rule hoare_bindI, rule extra_flush_rule [OF e(1)], goal_cases)
        case 1
        then show ?case using S e(2) 6(3) by (simp add: listener_extra_init_def)
      next
        case (2 e')
        then show ?case using Q [of "ex_wrap e'"] e(2) 6 by (simp add: ex_same_def ex_ok_def listener_extra_init_def)
      qed
    qed (use fuel t gk in \<open>simp_all add: listener_extra_init_def\<close>)
    then show "hoare S (if extra + p \<noteq> 0 then
        rbind (hpatch_lite_patch fuel (listener_extra_init l (if extra + p \<noteq> 0 then k else extra) by_page p) newSize
           (sub32 t (add32 (if extra + p \<noteq> 0 then k else extra) p))) (\<lambda>l.
        rbind (listener_extra_flush (li_state l)) (\<lambda>e. Ok (ex_wrap e)))
      else hpatch_lite_patch fuel l newSize (sub32 t (add32 (if extra + p \<noteq> 0 then k else extra) p))) Q"
      using False a(3,6) by simp
  qed
qed

end


section \<open>Over a listener in memory\<close>

lemma mem_held_guard [simp]: "mem_lite.held_guard k = always_safe"
  by (simp add: mem_lite.held_guard_def always_safe_def fun_eq_iff)

interpretation mem_extra: lite_io "mem_lite.extra_lok k" "\<lambda>l. ml_diff (li_state (ex_wrap (li_state l)))"
  "\<lambda>l. ml_old (li_state (ex_wrap (li_state l)))" "\<lambda>l. mem_lite.ex_written (li_state l)"
  "\<lambda>l. ml_cap (li_state (ex_wrap (li_state l)))" "mem_lite.held_guard k" for k
  by (rule mem_lite.extra_lite_io)

fun extra_writes :: "'l listener_extra \<Rightarrow> byte list list \<Rightarrow> 'l listener_extra res" where
  "extra_writes e [] = Ok e"
| "extra_writes e (d # ds) = rbind (listener_extra_write_new e d) (\<lambda>e. extra_writes e ds)"

lemma extra_writes_rule:
  assumes "mem_lite.ex_ok e" "length (mem_lite.ex_written e) + length (concat ds) \<le> ml_cap (li_state (ex_wrap e))"
  shows "\<exists>e'. extra_writes e ds = Ok e' \<and> mem_lite.ex_same e e' \<and> mem_lite.ex_written e' = mem_lite.ex_written e @ concat ds \<and>
    ex_len e' = min (ex_size e) (ex_len e + length (concat ds))"
  using assms
proof (induction ds arbitrary: e)
  case Nil
  then show ?case by (simp add: mem_lite.ex_ok_def)
next
  case (Cons d ds)
  have "hoare True (listener_extra_write_new e d) (\<lambda>e'. mem_lite.ex_same e e' \<and> mem_lite.ex_written e' = mem_lite.ex_written e @ d \<and>
      ex_len e' = min (ex_size e) (ex_len e + length d))"
    by (rule mem_lite.extra_write_rule [OF Cons.prems(1)]) (use Cons.prems(2) in simp_all)
  then obtain e1 where e1: "listener_extra_write_new e d = Ok e1" "mem_lite.ex_same e e1"
      "mem_lite.ex_written e1 = mem_lite.ex_written e @ d" "ex_len e1 = min (ex_size e) (ex_len e + length d)"
    by (cases "listener_extra_write_new e d") auto
  have s1: "mem_lite.ex_ok e1" "ex_size e1 = ex_size e" "ml_cap (li_state (ex_wrap e1)) = ml_cap (li_state (ex_wrap e))"
    using e1(2) by (simp_all add: mem_lite.ex_same_def)
  obtain e2 where e2: "extra_writes e1 ds = Ok e2" "mem_lite.ex_same e1 e2"
      "mem_lite.ex_written e2 = mem_lite.ex_written e1 @ concat ds" "ex_len e2 = min (ex_size e1) (ex_len e1 + length (concat ds))"
    using Cons.IH [OF s1(1)] Cons.prems(2) e1(3) s1(3) by auto
  have "ex_len e2 = min (ex_size e) (ex_len e + (length d + length (concat ds)))"
    unfolding e2(4) s1(2) e1(4) by linarith
  then show ?case using e1 e2 by (auto intro: mem_lite.ex_same_trans)
qed

section \<open>Properties\<close>

text \<open>C19: patching in place through the ring of held back data, with or without whole pages, writes
  exactly the new data that the diff means and fails exactly where it means nothing; no index leaves
  the ring, the page or the cache, for every size of the extra room, of the page and of the cache
  that the header of the function documents.\<close>

theorem hpatchi_inplaceB_refines_spec:
  assumes "length diff < fuel" "length old < 2 ^ 32" "3 + extra + page \<le> t" "t < 2 ^ 31" "by_page \<Longrightarrow> 0 < page"
    and "\<And>new. lite_spec old newSize diff = Some new \<Longrightarrow> length new \<le> cap"
  shows "(case hpatchi_inplaceB by_page fuel (mem_listener \<lparr>ml_diff = diff, ml_old = old, ml_new = [], ml_cap = cap\<rparr>)
              newSize extra page t of
            Ok l \<Rightarrow> lite_spec old newSize diff = Some (ml_new (li_state l)) | Fail \<Rightarrow> lite_spec old newSize diff = None
          | Fault \<Rightarrow> False)"
proof -
  let ?l = "mem_listener \<lparr>ml_diff = diff, ml_old = old, ml_new = [], ml_cap = cap\<rparr>"
  have l: "li_state ?l = \<lparr>ml_diff = diff, ml_old = old, ml_new = [], ml_cap = cap\<rparr>" "mem_lite_ok ?l"
    using assms(2) by (simp_all add: mem_lite_ok_def mem_listener_def)
  have "hoare (lite_spec old newSize diff \<noteq> None) (hpatchi_inplaceB by_page fuel ?l newSize extra page t)
      (\<lambda>l. lite_spec old newSize diff = Some (ml_new (li_state l)))"
    by (rule mem_lite.inplaceB_rule [OF l(2)]) (use assms l in auto)
  then show ?thesis by (cases "hpatchi_inplaceB by_page fuel ?l newSize extra page t") auto
qed

text \<open>One extra byte, pages of two bytes and a cache of two.\<close>

theorem hpatchi_inplaceB_refines_spec_witness:
  "\<exists>l. hpatchi_inplaceB True 10 (mem_listener \<lparr>ml_diff = [1, 2, 1, 2, 7, 8, 1, 1], ml_old = [5, 6, 9], ml_new = [], ml_cap = 4\<rparr>) 4 1 2 6 = Ok l \<and>
     ml_new (li_state l) = [7, 8, 7, 10]"
proof -
  have spec: "lite_spec [5, 6, 9] 4 [1, 2, 1, 2, 7, 8, 1, 1] = Some [7, 8, 7, 10]"
    by (simp add: lite_spec_def lite_unpack_small lite_unpack_stop lite_head_def lite_cover_spec_def add_spec_def add32_def bytes_add_def
        del: lite_unpack.simps)
  then show ?thesis
    using hpatchi_inplaceB_refines_spec [of "[1, 2, 1, 2, 7, 8, 1, 1]" 10 "[5, 6, 9]" 1 2 6 True 4 4]
    by (auto split: res.splits)
qed

text \<open>C20: the ring always holds back the latest bytes, as many as its size, whatever the sizes of the
  writes: what has reached the wrapped listener is all but the last \<open>k\<close> bytes.\<close>

theorem extra_holds_back_latest:
  assumes "0 < k" "length (concat ds) \<le> cap" "length old < 2 ^ 32"
  shows "\<exists>e. extra_writes (li_state (listener_extra_init
               (mem_listener \<lparr>ml_diff = diff, ml_old = old, ml_new = [], ml_cap = cap\<rparr>) k False 0)) ds = Ok e \<and>
    ml_new (li_state (ex_wrap e)) = take (length (concat ds) - k) (concat ds) \<and>
    ring_bytes (ex_buf e) k (ex_pos e) (ex_len e) = drop (length (concat ds) - k) (concat ds)"
proof -
  let ?l = "mem_listener \<lparr>ml_diff = diff, ml_old = old, ml_new = [], ml_cap = cap\<rparr>"
  let ?e = "li_state (listener_extra_init ?l k False 0)"
  have l: "li_state ?l = \<lparr>ml_diff = diff, ml_old = old, ml_new = [], ml_cap = cap\<rparr>" "mem_lite_ok ?l"
    using assms(3) by (simp_all add: mem_lite_ok_def mem_listener_def)
  have e: "mem_lite.ex_ok ?e" "mem_lite.ex_written ?e = []" "ex_size ?e = k" "ex_len ?e = 0" "ex_wrap ?e = ?l" "\<not> ex_by_page ?e"
    using assms(1) l by (simp_all add: listener_extra_init_def mem_lite.ex_ok_def mem_lite.ex_written_def mem_lite.ex_paged_def
        mem_lite.ex_ring_def ring_bytes_def)
  obtain e' where e': "extra_writes ?e ds = Ok e'" "mem_lite.ex_same ?e e'" "mem_lite.ex_written e' = concat ds"
      "ex_len e' = min k (length (concat ds))"
    using extra_writes_rule [OF e(1), of ds] assms(2) e l(1) by auto
  have s: "mem_lite.ex_ok e'" "ex_size e' = k" "\<not> ex_by_page e'" using e'(2) e(3,6) by (simp_all add: mem_lite.ex_same_def)
  then have "mem_lite.ex_paged e' = []" by (simp add: mem_lite.ex_ok_def mem_lite.ex_paged_def)
  then have "ml_new (li_state (ex_wrap e')) @ ring_bytes (ex_buf e') k (ex_pos e') (ex_len e') = concat ds"
    using e'(3) s(2) by (simp add: mem_lite.ex_written_def mem_lite.ex_ring_def)
  moreover from arg_cong [OF this, of length] have "length (ml_new (li_state (ex_wrap e'))) = length (concat ds) - k"
    unfolding length_append length_ring_bytes e'(4) by linarith
  ultimately show ?thesis using e'(1) by (metis append_eq_conv_conj)
qed

text \<open>Two writes of three bytes each through a ring of four.\<close>

theorem extra_holds_back_latest_witness:
  "\<exists>e. extra_writes (li_state (listener_extra_init
               (mem_listener \<lparr>ml_diff = [], ml_old = [], ml_new = [], ml_cap = 9\<rparr>) 4 False 0)) [[1, 2, 3], [4, 5, 6]] = Ok e \<and>
    ml_new (li_state (ex_wrap e)) = [1, 2] \<and> ring_bytes (ex_buf e) 4 (ex_pos e) (ex_len e) = [3, 4, 5, 6]"
  using extra_holds_back_latest [of 4 "[[1, 2, 3], [4, 5, 6]]" 9 "[]" "[]"] by simp

end
