(* ===== verification/SharedMem.thy ===== *)
theory SharedMem
  imports LiteInplace
begin

text \<open>
  What \<open>hpatchi_inplaceB\<close> is for: a device that has one memory, where the new data overwrite the old
  ones as they are written.  The listener reads old data and writes new data there; a diff whose covers
  read no more than \<open>extraSafeSize\<close> bytes behind what has been written is patched as if the old data
  were kept.
\<close>

section \<open>A device with one memory\<close>

record shared_mem =
  sh_diff :: "byte list"
  sh_mem :: "byte list"
  sh_oldSize :: nat
  sh_pos :: nat

definition shared_listener :: "shared_mem \<Rightarrow> shared_mem hpatchi_listener" where
  "shared_listener m =
     \<lparr>li_state = m,
      li_read_diff = (\<lambda>m n. (Some (take n (sh_diff m)), m\<lparr>sh_diff := drop n (sh_diff m)\<rparr>)),
      li_read_old = (\<lambda>m p n. if p + n \<le> sh_oldSize m then rbind (mem_read (sh_mem m) p n) (\<lambda>d. Ok (d, m)) else Fail),
      li_write_new = (\<lambda>m d. if sh_pos m + length d \<le> length (sh_mem m)
                             then rbind (mem_write (sh_mem m) (sh_pos m) d) (\<lambda>mem. Ok (m\<lparr>sh_mem := mem, sh_pos := sh_pos m + length d\<rparr>))
                             else Fail)\<rparr>"

definition sh_written :: "shared_mem \<Rightarrow> byte list" where
  "sh_written m = take (sh_pos m) (sh_mem m)"

text \<open>The old data are still there from the end of what was written on.\<close>

definition shared_ok :: "byte list \<Rightarrow> shared_mem hpatchi_listener \<Rightarrow> bool" where
  "shared_ok old l \<longleftrightarrow>
     (let m = li_state l in
      l = shared_listener m \<and> sh_oldSize m = length old \<and> length old \<le> length (sh_mem m) \<and> length old < 2 ^ 32 \<and>
      sh_pos m \<le> length (sh_mem m) \<and> drop (sh_pos m) (take (length old) (sh_mem m)) = drop (sh_pos m) old)"

definition in_front :: "nat \<Rightarrow> nat \<Rightarrow> bool" where
  "in_front w p \<longleftrightarrow> w \<le> p"

lemma shared_old_bytes:
  assumes "drop w (take (length old) mem) = drop w old" "w \<le> p" "p + n \<le> length old" "length old \<le> length mem"
  shows "take n (drop p mem) = take n (drop p old)"
proof -
  have "drop p (take (length old) mem) = drop p old"
    using arg_cong [OF assms(1), of "drop (p - w)"] assms(2) by simp
  then have e: "take (length old - p) (drop p mem) = drop p old" by (simp add: drop_take)
  have "take n (drop p mem) = take n (take (length old - p) (drop p mem))" using assms(3) by (simp add: min_absorb1)
  then show ?thesis unfolding e .
qed

lemma shared_lite_io:
  "lite_io (shared_ok old) (\<lambda>l. sh_diff (li_state l)) (\<lambda>_. old) (\<lambda>l. sh_written (li_state l))
     (\<lambda>l. length (sh_mem (li_state l))) in_front"
proof
  fix l :: "shared_mem hpatchi_listener" and n pos :: nat and d :: "byte list"
  assume ok: "shared_ok old l"
  define m where "m = li_state l"
  have l: "l = shared_listener m" using ok by (simp add: shared_ok_def Let_def m_def)
  have st: "li_state (shared_listener m') = m'" for m' by (simp add: shared_listener_def)
  have up: "l\<lparr>li_state := m'\<rparr> = shared_listener m'" for m' unfolding l by (simp add: shared_listener_def)
  have f: "li_read_diff l = li_read_diff (shared_listener m)" "li_read_old l = li_read_old (shared_listener m)"
    "li_write_new l = li_write_new (shared_listener m)" "li_state l = m" unfolding l st by simp_all
  have m: "sh_oldSize m = length old" "length old \<le> length (sh_mem m)" "length old < 2 ^ 32" "sh_pos m \<le> length (sh_mem m)"
    "drop (sh_pos m) (take (length old) (sh_mem m)) = drop (sh_pos m) old" using ok by (simp_all add: shared_ok_def Let_def m_def)
  have mk: "shared_ok old (shared_listener m')" if "sh_mem m' = sh_mem m" "sh_pos m' = sh_pos m" "sh_oldSize m' = sh_oldSize m" for m'
    using m that by (simp add: shared_ok_def Let_def st)
  show "case li_read_diff l (li_state l) n of
         (x, st) \<Rightarrow> let l' = l\<lparr>li_state := st\<rparr> in
           x = Some (take n (sh_diff (li_state l))) \<and> shared_ok old l' \<and> sh_diff (li_state l') = drop n (sh_diff (li_state l)) \<and>
           old = old \<and> sh_written (li_state l') = sh_written (li_state l) \<and> length (sh_mem (li_state l')) = length (sh_mem (li_state l))"
    using mk unfolding f by (simp add: Let_def up st sh_written_def) (simp add: shared_listener_def)
  show "hoare (pos + n \<le> length old) (li_read_old l (li_state l) pos n) (\<lambda>(d, st). let l' = l\<lparr>li_state := st\<rparr> in
        pos + n \<le> length old \<and> d = take n (drop pos old) \<and> shared_ok old l' \<and>
        sh_diff (li_state l') = sh_diff (li_state l) \<and> old = old \<and>
        sh_written (li_state l') = sh_written (li_state l) \<and> length (sh_mem (li_state l')) = length (sh_mem (li_state l)))"
    if "in_front (length (sh_written (li_state l))) pos"
  proof -
    have "sh_pos m \<le> pos" using that m(4) by (simp add: in_front_def sh_written_def f(4))
    from shared_old_bytes [OF m(5) this _ m(2)] have d: "pos + n \<le> length old \<Longrightarrow> take n (drop pos (sh_mem m)) = take n (drop pos old)" .
    have "li_read_old (shared_listener m) m pos n = (if pos + n \<le> length old then Ok (take n (drop pos old), m) else Fail)"
      using m d by (simp add: shared_listener_def mem_read_def)
    then show ?thesis using mk [of m] unfolding f by (simp add: Let_def up st)
  qed
  show "hoare (length (sh_written (li_state l)) + length d \<le> length (sh_mem (li_state l))) (li_write_new l (li_state l) d) (\<lambda>st. let l' = l\<lparr>li_state := st\<rparr> in
        shared_ok old l' \<and> sh_diff (li_state l') = sh_diff (li_state l) \<and> old = old \<and>
        sh_written (li_state l') = sh_written (li_state l) @ d \<and> length (sh_mem (li_state l')) = length (sh_mem (li_state l)))"
  proof (cases "sh_pos m + length d \<le> length (sh_mem m)")
    case True
    let ?mem = "take (sh_pos m) (sh_mem m) @ d @ drop (sh_pos m + length d) (sh_mem m)"
    let ?m = "m\<lparr>sh_mem := ?mem, sh_pos := sh_pos m + length d\<rparr>"
    have w: "li_write_new (shared_listener m) m d = Ok ?m" using True by (simp add: shared_listener_def mem_write_def)
    have "drop (sh_pos m + length d) ?mem = drop (sh_pos m + length d) (sh_mem m)" using True by simp
    then have "drop (sh_pos m + length d) (take (length old) ?mem) = take (length old - (sh_pos m + length d)) (drop (sh_pos m + length d) (sh_mem m))"
      unfolding drop_take by (simp only:)
    also have "\<dots> = drop (sh_pos m + length d) old"
      using arg_cong [OF m(5), of "drop (length d)"] m(2) by (simp add: drop_take add.commute)
    finally have "shared_ok old (shared_listener ?m)" using m True unfolding shared_ok_def Let_def st by simp
    then show ?thesis using w True unfolding f by (simp add: Let_def up st sh_written_def)
  next
    case False
    then have "li_write_new (shared_listener m) m d = Fail" by (simp add: shared_listener_def)
    then show ?thesis using False m(4) unfolding f by (simp add: sh_written_def)
  qed
  show "length old < 2 ^ 32" by (rule m(3))
qed (simp_all add: in_front_def)

interpretation shared: lite_io "shared_ok old" "\<lambda>l. sh_diff (li_state l)" "\<lambda>_. old" "\<lambda>l. sh_written (li_state l)"
  "\<lambda>l. length (sh_mem (li_state l))" in_front for old
  by (rule shared_lite_io)

lemma shared_held_guard: "shared.held_guard extra = reads_near extra"
  unfolding shared.held_guard_def by (auto simp: in_front_def reads_near_def fun_eq_iff)

lemma inplace_shared:
  assumes "lite_spec old newSize diff = Some new" "lite_safe_diff (reads_near extra) old diff"
    and "length diff < fuel" "length old < 2 ^ 32" "3 + extra + page \<le> t" "t < 2 ^ 31" "by_page \<Longrightarrow> 0 < page"
    and "length new \<le> length mem" "length old \<le> length mem" "take (length old) mem = old"
  shows "\<exists>l. hpatchi_inplaceB by_page fuel (shared_listener \<lparr>sh_diff = diff, sh_mem = mem, sh_oldSize = length old, sh_pos = 0\<rparr>)
      newSize extra page t = Ok l \<and> sh_pos (li_state l) = length new \<and> take (length new) (sh_mem (li_state l)) = new"
proof -
  let ?l = "shared_listener \<lparr>sh_diff = diff, sh_mem = mem, sh_oldSize = length old, sh_pos = 0\<rparr>"
  have l: "li_state ?l = \<lparr>sh_diff = diff, sh_mem = mem, sh_oldSize = length old, sh_pos = 0\<rparr>" "shared_ok old ?l"
    using assms by (simp_all add: shared_ok_def shared_listener_def)
  have "hoare True (hpatchi_inplaceB by_page fuel ?l newSize extra page t)
      (\<lambda>l. sh_pos (li_state l) = length new \<and> take (length new) (sh_mem (li_state l)) = new)"
  proof (rule shared.inplaceB_rule [OF l(2)], goal_cases)
    case (7 l')
    then have n: "sh_written (li_state l') = new" using assms(1) l(1) by simp
    have "sh_pos (li_state l') \<le> length (sh_mem (li_state l'))" using 7(1) by (simp add: shared_ok_def Let_def)
    then show ?case using n by (auto simp: sh_written_def)
  qed (use assms l in \<open>auto simp: sh_written_def shared_held_guard\<close>)
  then show ?thesis by (cases "hpatchi_inplaceB by_page fuel ?l newSize extra page t") auto
qed

end
