(* ===== verification/MatchInplace.thy ===== *)
theory MatchInplace
  imports ResearchCover LiteSave SharedMem
begin

text \<open>
  \<open>match_inplace.cpp\<close>: the listener \<open>TMatchInplace\<close>, which allows only covers that a patch in place can
  read, and \<open>create_inplace_lite_diff\<close>, which makes a lite diff with it.
\<close>

section \<open>The code\<close>

definition kMinCoverLen :: int where
  "kMinCoverLen = 24"

definition kMaxMatchDeepForResearch :: int where
  "kMaxMatchDeepForResearch = kDefaultMaxMatchDeepForLimit * 2"

record TInplaceSets =
  is_extraSafeSize :: nat
  is_isCompatibleLiteDiff :: bool
  is_isCanExtendCover :: bool

record TMatchInplace =
  mi_oldSize :: nat
  mi_newSize :: nat
  mi_inplaceSets :: TInplaceSets
  mi_researchIndexList :: "nat list"
  mi_researchCount :: nat
  mi_researchLength :: int
  mi_inExtraSafeLength :: int
  mi_curExtraSafeSize :: nat

definition coverInExtraSafeSize :: "TOldCover \<Rightarrow> nat \<Rightarrow> bool" where
  "coverInExtraSafeSize cover kExtraSafeSize \<longleftrightarrow> c_oldPos cover + int kExtraSafeSize \<ge> c_newPos cover"

definition limitSets :: "nat \<Rightarrow> nat \<Rightarrow> TInplaceSets \<Rightarrow> TInplaceSets" where
  "limitSets oldSize newSize inplaceSets = inplaceSets\<lparr>is_extraSafeSize := min (is_extraSafeSize inplaceSets) newSize\<rparr>"

text \<open>What the loop of \<open>_search_cover_limit\<close> counts, and the covers to search again.\<close>

fun search_cover_limit_loop :: "nat \<Rightarrow> TOldCover list \<Rightarrow> nat \<Rightarrow> int \<Rightarrow> int \<Rightarrow> nat list \<Rightarrow> int \<times> int \<times> nat list" where
  "search_cover_limit_loop kExtraSafeSize [] i inExtraSafeLength researchLength researchIndexList =
     (inExtraSafeLength, researchLength, researchIndexList)"
| "search_cover_limit_loop kExtraSafeSize (cover # covers) i inExtraSafeLength researchLength researchIndexList =
     (if coverInExtraSafeSize cover kExtraSafeSize
      then search_cover_limit_loop kExtraSafeSize covers (i + 1) (inExtraSafeLength + c_length cover) researchLength researchIndexList
      else search_cover_limit_loop kExtraSafeSize covers (i + 1) inExtraSafeLength (researchLength + c_length cover) (researchIndexList @ [i]))"

definition mi_search_cover_limit :: "TMatchInplace \<Rightarrow> TOldCover list \<Rightarrow> bool \<times> TMatchInplace" where
  "mi_search_cover_limit self covers =
     (let (inExtraSafeLength, researchLength, researchIndexList) =
            search_cover_limit_loop (is_extraSafeSize (mi_inplaceSets self)) covers 0 0 0 []
      in (researchIndexList \<noteq> [],
          self\<lparr>mi_inExtraSafeLength := inExtraSafeLength, mi_researchLength := researchLength,
               mi_researchCount := length researchIndexList, mi_researchIndexList := researchIndexList\<rparr>))"

text \<open>\<open>TDiffSearchCoverListener\<close>.\<close>

definition mi_limitCover :: "nat \<Rightarrow> TOldCover \<Rightarrow> bool \<times> int" where
  "mi_limitCover kExtraSafeSize cover =
     (let isOk = (c_length cover \<ge> kMinCoverLen \<and> coverInExtraSafeSize cover kExtraSafeSize)
      in (isOk, if isOk then c_length cover else 0))"

definition mi_limitCover_front :: "nat \<Rightarrow> TOldCover \<Rightarrow> int res" where
  "mi_limitCover_front kExtraSafeSize front_cover =
     rbind (require (coverInExtraSafeSize front_cover kExtraSafeSize)) (\<lambda>_. Ok (c_length front_cover))"

definition TDiffSearchCoverListener :: "nat \<Rightarrow> IDiffSearchCoverListener" where
  "TDiffSearchCoverListener extraMemSize =
     \<lparr>lc_limitCover = mi_limitCover extraMemSize, lc_limitCover_front = mi_limitCover_front extraMemSize\<rparr>"

fun research_cover_loop ::
  "IDiffSearchCoverListener \<Rightarrow> researchCover \<Rightarrow> nat list \<Rightarrow> TDiffResearchCover \<Rightarrow> TDiffResearchCover res" where
  "research_cover_loop listener researchCover [] rc = Ok rc"
| "research_cover_loop listener researchCover (limitCoverIndex # indexes) rc =
     rbind (require (limitCoverIndex < length (rc_covers rc))) (\<lambda>_.
     rbind (researchCover rc listener limitCoverIndex 0 0 (c_length (rc_covers rc ! limitCoverIndex)))
       (research_cover_loop listener researchCover indexes))"

definition mi_research_cover :: "TMatchInplace \<Rightarrow> researchCover \<Rightarrow> TDiffResearchCover \<Rightarrow> (TDiffResearchCover \<times> TMatchInplace) res" where
  "mi_research_cover self researchCover rc =
     rbind (research_cover_loop (TDiffSearchCoverListener (is_extraSafeSize (mi_inplaceSets self))) researchCover (mi_researchIndexList self) rc) (\<lambda>rc.
     Ok (rc, self\<lparr>mi_researchIndexList := []\<rparr>))"

definition mi_get_max_match_deep :: "TMatchInplace \<Rightarrow> int" where
  "mi_get_max_match_deep self = kMaxMatchDeepForResearch"

fun search_cover_finish_loop :: "nat \<Rightarrow> TOldCover list \<Rightarrow> nat \<Rightarrow> nat res" where
  "search_cover_finish_loop kExtraSafeSize [] minExtraSafeSize = Ok minExtraSafeSize"
| "search_cover_finish_loop kExtraSafeSize (cover # covers) minExtraSafeSize =
     rbind (check (coverInExtraSafeSize cover kExtraSafeSize)) (\<lambda>_.
     search_cover_finish_loop kExtraSafeSize covers
       (if c_oldPos cover < c_newPos cover then max minExtraSafeSize (nat (c_newPos cover - c_oldPos cover)) else minExtraSafeSize))"

definition mi_search_cover_finish ::
  "TMatchInplace \<Rightarrow> TOldCover list \<Rightarrow> nat \<Rightarrow> nat \<Rightarrow> (TOldCover list \<times> nat \<times> nat \<times> TMatchInplace) res" where
  "mi_search_cover_finish self covers newSize oldSize =
     (let kExtraSafeSize = is_extraSafeSize (mi_inplaceSets self) in
      rbind (search_cover_finish_loop kExtraSafeSize covers 0) (\<lambda>minExtraSafeSize.
      rbind (check (minExtraSafeSize \<le> kExtraSafeSize)) (\<lambda>_.
      Ok (covers, newSize, oldSize, self\<lparr>mi_curExtraSafeSize := minExtraSafeSize\<rparr>))))"

definition mi_getInplacePatchExtraSafeSize :: "TMatchInplace \<Rightarrow> nat option" where
  "mi_getInplacePatchExtraSafeSize self =
     (if is_isCompatibleLiteDiff (mi_inplaceSets self) then None else Some (mi_curExtraSafeSize self mod 2 ^ 32))"

definition TMatchInplace_make :: "nat \<Rightarrow> nat \<Rightarrow> TInplaceSets \<Rightarrow> TMatchInplace" where
  "TMatchInplace_make oldSize newSize inplaceSets =
     (let sets = limitSets oldSize newSize inplaceSets in
      \<lparr>mi_oldSize = oldSize, mi_newSize = newSize, mi_inplaceSets = sets, mi_researchIndexList = [], mi_researchCount = 0,
       mi_researchLength = 0, mi_inExtraSafeLength = 0, mi_curExtraSafeSize = is_extraSafeSize sets\<rparr>)"

definition match_inplace_listener :: "TMatchInplace ICoverLinesListener" where
  "match_inplace_listener =
     \<lparr>cl_search_cover_limit = Some mi_search_cover_limit, cl_research_cover = mi_research_cover, cl_insert_cover = None,
      cl_search_cover_finish = Some mi_search_cover_finish, cl_get_max_match_deep = Some mi_get_max_match_deep,
      cl_get_limit_cover_length = None\<rparr>"

text \<open>\<open>create_lite_diff\<close> with a listener.\<close>

definition create_lite_diff_with ::
  "(byte list \<Rightarrow> nat list option) \<Rightarrow> int \<Rightarrow> byte list \<Rightarrow> byte list \<Rightarrow> byte list \<Rightarrow> hdiffi_TCompress \<Rightarrow>
   'l ICoverLinesListener \<Rightarrow> ('l \<Rightarrow> nat option) \<Rightarrow> 'l \<Rightarrow> byte list res" where
  "create_lite_diff_with divsufsort kMinSingleMatchScore newData oldData out_lite_diff compressPlugin cl getInplacePatchExtraSafeSize l =
     rbind (get_diff_with divsufsort (kMinSingleMatchScore - 6) \<lparr>d_newData = newData, d_oldData = oldData\<rparr> cl l) (\<lambda>(diff, covers, l).
     serialize_lite_diff (d_newData diff) (d_oldData diff) (lite_last_cover (length newData) (map to_TCover covers))
       out_lite_diff compressPlugin (getInplacePatchExtraSafeSize l))"

definition create_inplace_lite_diff ::
  "(byte list \<Rightarrow> nat list option) \<Rightarrow> int \<Rightarrow> byte list \<Rightarrow> byte list \<Rightarrow> byte list \<Rightarrow> TInplaceSets \<Rightarrow> hdiffi_TCompress \<Rightarrow> byte list res" where
  "create_inplace_lite_diff divsufsort kMinSingleMatchScore newData oldData out_inplace_lite_diff inplaceSets compressPlugin =
     create_lite_diff_with divsufsort kMinSingleMatchScore newData oldData out_inplace_lite_diff compressPlugin
       match_inplace_listener mi_getInplacePatchExtraSafeSize (TMatchInplace_make (length oldData) (length newData) inplaceSets)"

section \<open>Covers between the two forms\<close>

lemma of_TCover_simps [simp]:
  "c_oldPos (of_TCover c) = int (oldPos c)" "c_newPos (of_TCover c) = int (newPos c)" "c_length (of_TCover c) = int (coverLength c)"
  by (simp_all add: of_TCover_def)

lemma to_of_TCover [simp]: "to_TCover (of_TCover c) = c"
  by (simp add: to_TCover_def of_TCover_def)

lemma covers_fit_lines:
  "covers_fit cs e (length (d_newData diff)) (length (d_oldData diff)) \<Longrightarrow> lines_fit (map of_TCover cs) (int e) diff"
  by (induction cs arbitrary: e) (auto simp: new_size_def old_size_def simp flip: of_nat_add)

lemma split_cover_lead: "p \<in> set (split_cover k c) \<Longrightarrow> int (newPos p) - int (oldPos p) = int (newPos c) - int (oldPos c)"
proof (induction k c rule: split_cover.induct)
  case (1 k c)
  then show ?case
    by (auto simp: split_cover.simps [of k c] Let_def split: if_splits)
qed

lemma limit_and_check_result:
  assumes fit: "lines_fit covers 0 diff" "positive covers" "all_good good covers"
    and s: "length (d_newData diff) < 2 ^ 64" "length (d_oldData diff) < 2 ^ 64"
  shows "\<exists>cs. limit_and_check diff kDefaultLimitCoverLen covers = Ok cs \<and> lines_fit cs 0 diff \<and> positive cs \<and> all_good good cs \<and>
    covers_fit (map to_TCover cs) 0 (length (d_newData diff)) (length (d_oldData diff)) \<and> (\<forall>c \<in> set (map to_TCover cs). 0 < coverLength c)"
proof -
  let ?n = "map to_TCover covers" and ?k = kDefaultLimitCoverLen
  let ?cs = "concat (map (split_cover ?k) ?n)"
  have k: "?k = 2 ^ 30" by (simp add: kDefaultLimitCoverLen_def push_bit_eq_mult)
  have f: "covers_fit ?n 0 (length (d_newData diff)) (length (d_oldData diff))" using lines_fit_covers [OF fit(1)] by simp
  have p: "\<forall>c \<in> set ?n. 0 < coverLength c" using fit(2) by (simp add: positive_def)
  have f2: "covers_fit ?cs 0 (length (d_newData diff)) (length (d_oldData diff))" by (rule split_covers_fit [OF f])
  have p2: "\<forall>c \<in> set ?cs. 0 < coverLength c" using split_cover_limit [of ?k] p by (fastforce simp: k)
  have "length ?cs \<le> length (d_newData diff)" using covers_fit_count [OF f2 p2] by simp
  then have "length ?cs < 2 ^ 64" using s(1) by linarith
  then have "limitCoverLenth ?n ?k = Ok ?cs" by (intro limitCoverLenth_result) (simp_all add: k)
  moreover have "assert_covers_safe ?cs (length (d_newData diff)) (length (d_oldData diff)) = Ok ()"
    unfolding assert_covers_safe_def by (rule assert_covers_safe_fit [OF f2 p2 s])
  ultimately have "limit_and_check diff ?k covers = Ok (map of_TCover ?cs)" by (simp add: limit_and_check_def)
  moreover have "lines_fit (map of_TCover ?cs) 0 diff" using covers_fit_lines [OF f2] by simp
  moreover have "positive (map of_TCover ?cs)" using p2 by (auto simp: positive_def)
  moreover have "all_good good (map of_TCover ?cs)"
  proof -
    have "good (lead (of_TCover x))" if "x \<in> set (split_cover ?k (to_TCover c))" "c \<in> set covers" for x c
    proof -
      have "line_in diff c" using lines_fit_in [OF fit(1)] that(2) by simp
      then have "lead (of_TCover x) = lead c" using split_cover_lead [OF that(1)] by (simp add: lead_def line_in_def)
      then show ?thesis using fit(3) that(2) by (simp add: all_good_def)
    qed
    then show ?thesis by (auto simp: all_good_def)
  qed
  moreover have "map to_TCover (map of_TCover ?cs) = ?cs" by (simp add: comp_def)
  ultimately show ?thesis using f2 p2 by (metis (no_types, lifting))
qed

section \<open>The listener\<close>

text \<open>A cover is no more than \<open>extraSafeSize\<close> in front of its old data.\<close>

definition lead_le :: "nat \<Rightarrow> int \<Rightarrow> bool" where
  "lead_le k d \<longleftrightarrow> d \<le> int k"

lemma coverInExtraSafeSize_lead: "coverInExtraSafeSize c k \<longleftrightarrow> lead_le k (lead c)"
  by (auto simp: coverInExtraSafeSize_def lead_le_def lead_def)

lemma inplace_listener_keeps: "listener_keeps (lead_le k) (TDiffSearchCoverListener k)"
  by (auto simp: listener_keeps_def TDiffSearchCoverListener_def mi_limitCover_def mi_limitCover_front_def Let_def coverInExtraSafeSize_lead)

definition too_far :: "nat \<Rightarrow> TOldCover list \<Rightarrow> nat set" where
  "too_far k covers = {m. m < length covers \<and> \<not> coverInExtraSafeSize (covers ! m) k}"

lemma too_far_Cons: "too_far k (c # covers) = (if coverInExtraSafeSize c k then {} else {0}) \<union> Suc ` too_far k covers"
proof (rule set_eqI)
  fix m
  show "m \<in> too_far k (c # covers) \<longleftrightarrow> m \<in> (if coverInExtraSafeSize c k then {} else {0}) \<union> Suc ` too_far k covers"
    by (cases m) (auto simp: too_far_def)
qed

lemma search_cover_limit_loop_result:
  "search_cover_limit_loop k covers i a b xs = (a', b', xs') \<Longrightarrow>
   \<exists>ys. xs' = xs @ ys \<and> sorted_wrt (<) ys \<and> set ys = (+) i ` too_far k covers"
proof (induction covers arbitrary: i a b xs)
  case Nil
  then show ?case by (simp add: too_far_def)
next
  case (Cons c covers)
  have sh: "(+) (i + 1) ` A = (+) i ` Suc ` A" for A :: "nat set" by (simp add: image_image)
  show ?case
  proof (cases "coverInExtraSafeSize c k")
    case True
    then show ?thesis using Cons.IH [of "i + 1" "a + c_length c" b xs] Cons.prems unfolding too_far_Cons sh by simp
  next
    case False
    then obtain ys where "xs' = (xs @ [i]) @ ys" "sorted_wrt (<) ys" "set ys = (+) i ` Suc ` too_far k covers"
      using Cons.IH [of "i + 1" a "b + c_length c" "xs @ [i]"] Cons.prems unfolding sh by auto
    then show ?thesis using False unfolding too_far_Cons by (intro exI [of _ "i # ys"]) auto
  qed
qed

lemma search_cover_finish_loop_result:
  "all_good (lead_le k) covers \<Longrightarrow> m \<le> k \<Longrightarrow>
   \<exists>e. search_cover_finish_loop k covers m = Ok e \<and> m \<le> e \<and> e \<le> k \<and> all_good (lead_le e) covers"
proof (induction covers arbitrary: m)
  case (Cons c covers)
  let ?m = "if c_oldPos c < c_newPos c then max m (nat (c_newPos c - c_oldPos c)) else m"
  have m: "?m \<le> k" "m \<le> ?m" "lead_le ?m (lead c)" using Cons.prems by (auto simp: lead_le_def lead_def)
  then obtain e where e: "search_cover_finish_loop k covers ?m = Ok e" "?m \<le> e" "e \<le> k" "all_good (lead_le e) covers"
    using Cons.IH [of ?m] Cons.prems(1) by auto
  have "lead_le e (lead c)" using m(3) e(2) by (auto simp: lead_le_def)
  then show ?case using e m(2) Cons.prems(1) by (auto simp: coverInExtraSafeSize_lead)
qed simp

text \<open>All covers of the list are searched again.\<close>

lemma research_cover_loop_result:
  assumes ss: "sstring_of diff ss" and fit: "lines_fit covers 0 diff"
  shows "research_inv (lead_le k) diff covers done rc \<Longrightarrow> sorted_wrt (<) (done @ is) \<Longrightarrow> \<forall>i \<in> set is. i < length covers \<Longrightarrow>
    \<exists>rc'. research_cover_loop (TDiffSearchCoverListener k) (doResearchCover diff ss score deep True) is rc = Ok rc' \<and>
      research_inv (lead_le k) diff covers (done @ is) rc'"
proof (induction "is" arbitrary: "done" rc)
  case Nil
  then show ?case by simp
next
  case (Cons i is')
  have d: "sorted_wrt (<) (done @ [i])" "sorted_wrt (<) ((done @ [i]) @ is')" using Cons.prems(2) by (auto simp: sorted_wrt_append)
  have i: "i < length covers" using Cons.prems(3) by simp
  have "i \<notin> set (butlast done)" using d(1) by (auto simp: sorted_wrt_append dest: in_set_butlastD)
  then have c: "rc_covers rc ! i = covers ! i" "length (rc_covers rc) = length covers" using Cons.prems(1) i by (simp_all add: research_inv_def)
  obtain rc1 where rc1: "doResearchCover diff ss score deep True rc (TDiffSearchCoverListener k) i 0 0 (c_length (covers ! i)) = Ok rc1"
    "research_inv (lead_le k) diff covers (done @ [i]) rc1"
    using doResearchCover_result [OF ss inplace_listener_keeps fit Cons.prems(1) d(1) i] by blast
  then show ?case using Cons.IH [OF rc1(2) d(2)] Cons.prems(3) c i by simp
qed

section \<open>The covers that are written\<close>

lemma get_diff_research_result:
  assumes ss: "sstring_of diff ss" and fit: "lines_fit covers 0 diff" "positive covers"
    and s: "length (d_newData diff) < 2 ^ 64" "length (d_oldData diff) < 2 ^ 64"
    and cf: "covers_fit (map to_TCover covers) 0 (length (d_newData diff)) (length (d_oldData diff))"
  shows "\<exists>cs self'. get_diff_research diff ss score kDefaultLimitCoverLen match_inplace_listener self covers = Ok (cs, self') \<and>
    lines_fit cs 0 diff \<and> positive cs \<and> all_good (lead_le (is_extraSafeSize (mi_inplaceSets self))) cs \<and>
    covers_fit (map to_TCover cs) 0 (length (d_newData diff)) (length (d_oldData diff)) \<and> mi_inplaceSets self' = mi_inplaceSets self"
proof -
  define k where "k = is_extraSafeSize (mi_inplaceSets self)"
  obtain a b xs where loop: "search_cover_limit_loop k covers 0 0 0 [] = (a, b, xs)" by (metis prod_cases3)
  have xs: "sorted_wrt (<) xs" "set xs = too_far k covers" using search_cover_limit_loop_result [OF loop] by auto
  define self1 where "self1 = self\<lparr>mi_inExtraSafeLength := a, mi_researchLength := b, mi_researchCount := length xs, mi_researchIndexList := xs\<rparr>"
  have lim: "mi_search_cover_limit self covers = (xs \<noteq> [], self1)" using loop by (simp add: mi_search_cover_limit_def k_def self1_def)
  have s1: "mi_inplaceSets self1 = mi_inplaceSets self" "mi_researchIndexList self1 = xs" by (simp_all add: self1_def)
  have other: "lead_le k (lead (covers ! i))" if "i < length covers" "i \<notin> set xs" for i
    using that xs(2) by (simp add: too_far_def coverInExtraSafeSize_lead)
  show ?thesis
  proof (cases "xs = []")
    case True
    have "all_good (lead_le k) covers" using other True by (auto simp: all_good_def in_set_conv_nth)
    then show ?thesis using True lim fit cf s1 by (auto simp: get_diff_research_def match_inplace_listener_def k_def)
  next
    case False
    have "research_inv (lead_le k) diff covers [] (TDiffResearchCover_init covers)"
      by (simp add: research_inv_def TDiffResearchCover_init_def positive_def)
    moreover have "\<forall>i \<in> set xs. i < length covers" using xs(2) by (simp add: too_far_def)
    ultimately obtain rc where rc: "research_cover_loop (TDiffSearchCoverListener k) (doResearchCover diff ss score kMaxMatchDeepForResearch True) xs
        (TDiffResearchCover_init covers) = Ok rc" "research_inv (lead_le k) diff covers xs rc"
      using research_cover_loop_result [OF ss fit(1), of k "[]" _ xs score kMaxMatchDeepForResearch] xs(1) by auto
    obtain found where f: "researchFinish rc = Ok found" "lines_fit found 0 diff" "positive found" "all_good (lead_le k) found"
      using researchFinish_result [OF rc(2) xs(1) _ fit(1)] other xs(2) by (auto simp: too_far_def)
    obtain cs where cs: "limit_and_check diff kDefaultLimitCoverLen found = Ok cs" "lines_fit cs 0 diff" "positive cs" "all_good (lead_le k) cs"
      "covers_fit (map to_TCover cs) 0 (length (d_newData diff)) (length (d_oldData diff))"
      using limit_and_check_result [OF f(2-4) s] by blast
    have "mi_research_cover self1 (doResearchCover diff ss score kMaxMatchDeepForResearch True) (TDiffResearchCover_init covers)
        = Ok (rc, self1\<lparr>mi_researchIndexList := []\<rparr>)"
      using rc(1) s1 by (simp add: mi_research_cover_def k_def)
    then have "get_diff_research diff ss score kDefaultLimitCoverLen match_inplace_listener self covers
        = Ok (cs, self1\<lparr>mi_researchIndexList := []\<rparr>)"
      using False lim f(1) cs(1) by (simp add: get_diff_research_def match_inplace_listener_def mi_get_max_match_deep_def)
    then show ?thesis using cs(2-5) s1 by (simp add: k_def)
  qed
qed

lemma get_diff_inplace_result:
  assumes "divsufsort old = Some SA" "suffix_array old SA" "length old \<le> 2 * 2 ^ 20" "length new < 2 ^ 64"
  shows "\<exists>cs self'. get_diff_with divsufsort score \<lparr>d_newData = new, d_oldData = old\<rparr> match_inplace_listener self
      = Ok (\<lparr>d_newData = new, d_oldData = old\<rparr>, cs, self') \<and>
    covers_fit (map to_TCover cs) 0 (length new) (length old) \<and> (\<forall>c \<in> set (map to_TCover cs). 0 < coverLength c) \<and>
    mi_inplaceSets self' = mi_inplaceSets self \<and> mi_curExtraSafeSize self' \<le> is_extraSafeSize (mi_inplaceSets self) \<and>
    (\<forall>c \<in> set (map to_TCover cs). newPos c \<le> oldPos c + mi_curExtraSafeSize self')"
proof -
  let ?d = "\<lparr>d_newData = new, d_oldData = old\<rparr>" and ?k = "is_extraSafeSize (mi_inplaceSets self)"
  have s: "length (d_newData ?d) < 2 ^ 64" "length (d_oldData ?d) < 2 ^ 64" using assms(3,4) by simp_all
  obtain ss where ss: "build_cache old SA = Ok ss" "sstring_ok old ss" using build_cache_ok [OF assms(2)] by blast
  have sd: "sstring_of ?d ss" using ss(2) assms(3) by (simp add: sstring_of_def kUsedCacheMinSASize_def)
  obtain c0 where c0: "first_search_and_dispose_cover ?d ss score True = Ok c0" "lines_fit c0 0 ?d" "positive c0"
    using first_search_result [OF sd] by blast
  have "all_good (\<lambda>_. True) c0" by (simp add: all_good_def)
  from limit_and_check_result [OF c0(2,3) this s] obtain c1 where c1: "limit_and_check ?d kDefaultLimitCoverLen c0 = Ok c1"
    "lines_fit c1 0 ?d" "positive c1" "covers_fit (map to_TCover c1) 0 (length (d_newData ?d)) (length (d_oldData ?d))" by blast
  obtain c2 self2 where c2: "get_diff_research ?d ss score kDefaultLimitCoverLen match_inplace_listener self c1 = Ok (c2, self2)"
    "lines_fit c2 0 ?d" "positive c2" "all_good (lead_le ?k) c2" "mi_inplaceSets self2 = mi_inplaceSets self"
    using get_diff_research_result [OF sd c1(2,3) s c1(4)] by blast
  obtain e where e: "search_cover_finish_loop ?k c2 0 = Ok e" "e \<le> ?k" "all_good (lead_le e) c2"
    using search_cover_finish_loop_result [OF c2(4), of 0] by auto
  let ?self = "self2\<lparr>mi_curExtraSafeSize := e\<rparr>"
  have fin: "mi_search_cover_finish self2 c2 n m = Ok (c2, n, m, ?self)" for n m
    using e(1,2) c2(5) by (simp add: mi_search_cover_finish_def)
  obtain cs where cs: "limit_and_check ?d kDefaultLimitCoverLen c2 = Ok cs" "all_good (lead_le e) cs" "lines_fit cs 0 ?d"
    "covers_fit (map to_TCover cs) 0 (length (d_newData ?d)) (length (d_oldData ?d))" "\<forall>c \<in> set (map to_TCover cs). 0 < coverLength c"
    using limit_and_check_result [OF c2(2,3) e(3) s] by blast
  have near: "newPos c \<le> oldPos c + e" if c: "c \<in> set (map to_TCover cs)" for c
  proof -
    obtain x where x: "c = to_TCover x" "x \<in> set cs" using c by auto
    have "line_in ?d x" using lines_fit_in [OF cs(3)] x(2) by simp
    moreover have "lead_le e (lead x)" using cs(2) x(2) by (simp add: all_good_def)
    ultimately show ?thesis using x(1) by (auto simp: lead_le_def lead_def line_in_def)
  qed
  have "get_diff_with divsufsort score ?d match_inplace_listener self = Ok (?d, cs, ?self)"
    unfolding get_diff_with_def Let_def
    using resetSuffixString_eq [where divsufsort = divsufsort, OF assms(1,2)] ss(1) c0(1) c1(1) c2(1) fin cs(1)
    by (simp add: match_inplace_listener_def get_diff_hook_def)
  moreover have "\<forall>c \<in> set (map to_TCover cs). newPos c \<le> oldPos c + e" using near by blast
  ultimately show ?thesis using cs(4,5) e(2) c2(5) by (intro exI [of _ cs] exI [of _ ?self]) simp
qed

section \<open>Properties\<close>

text \<open>C40: Patching in place works: for old data of at most 2 MiB whose suffixes the library sorts and new data with
  \<open>34 * length new + 11 < 2 ^ 32\<close>, without a compressor or with one that keeps its contract, \<open>create_inplace_lite_diff\<close> returns a diff whose covers
  need no more than the room it was given, the head holds the room they need, and on a device where the new data
  overwrite the old ones in one memory, \<open>hpatchi_inplaceB\<close> with that room (and the one by pages) turns the old data into the new, given a cache of the
  room asked for, a page and 3 bytes, and a memory that both files fit.\<close>

theorem create_inplace_lite_diff_patches_in_place:
  assumes "divsufsort old = Some SA" "suffix_array old SA" "length old \<le> 2 * 2 ^ 20" "34 * length new + 11 < 2 ^ 32"
    and "pred_option (\<lambda>P. compress_ok P unz \<and> compress_fits P) (hi_compress plugin)"
    and "3 + is_extraSafeSize sets + page \<le> t" "t < 2 ^ 31" "by_page \<Longrightarrow> 0 < page"
    and "length new \<le> length mem" "length old \<le> length mem" "take (length old) mem = old"
  shows "\<exists>d code extra l. create_inplace_lite_diff divsufsort k new old out sets plugin = Ok (out @ d) \<and>
    extra \<le> min (is_extraSafeSize sets) (length new) \<and>
    lite_diff_holds unz plugin (if is_isCompatibleLiteDiff sets then None else Some extra) (length new) d code \<and>
    hpatchi_inplaceB by_page (length code + 1) (shared_listener \<lparr>sh_diff = code, sh_mem = mem, sh_oldSize = length old, sh_pos = 0\<rparr>)
      (length new) extra page t = Ok l \<and>
    sh_pos (li_state l) = length new \<and> take (length new) (sh_mem (li_state l)) = new"
proof -
  let ?m = "TMatchInplace_make (length old) (length new) sets"
  have s: "length new < 2 ^ 64" "length old < 2 ^ 64" "length old < 2 ^ 32" using assms(3,4) by simp_all
  have k: "is_extraSafeSize (mi_inplaceSets ?m) = min (is_extraSafeSize sets) (length new)"
    "is_isCompatibleLiteDiff (mi_inplaceSets ?m) = is_isCompatibleLiteDiff sets"
    by (simp_all add: TMatchInplace_make_def limitSets_def)
  obtain cs m where g: "get_diff_with divsufsort (k - 6) \<lparr>d_newData = new, d_oldData = old\<rparr> match_inplace_listener ?m
      = Ok (\<lparr>d_newData = new, d_oldData = old\<rparr>, cs, m)"
    "covers_fit (map to_TCover cs) 0 (length new) (length old)" "\<forall>c \<in> set (map to_TCover cs). 0 < coverLength c"
    "mi_inplaceSets m = mi_inplaceSets ?m" "mi_curExtraSafeSize m \<le> min (is_extraSafeSize sets) (length new)"
    "\<forall>c \<in> set (map to_TCover cs). newPos c \<le> oldPos c + mi_curExtraSafeSize m"
    using get_diff_inplace_result [where divsufsort = divsufsort, OF assms(1-3) s(1), of "k - 6" ?m] unfolding k by blast
  define extra where "extra = mi_curExtraSafeSize m"
  define cl where "cl = lite_last_cover (length new) (map to_TCover cs)"
  have e: "extra \<le> is_extraSafeSize sets" "extra \<le> length new" "extra < 2 ^ 31" using g(5) assms(6,7) by (simp_all add: extra_def)
  define head where "head = (if is_isCompatibleLiteDiff sets then None else Some extra)"
  have head: "mi_getInplacePatchExtraSafeSize m = head" "pred_option (\<lambda>e. e < 2 ^ 32) head"
    using g(4) k(2) e(3) by (simp_all add: mi_getInplacePatchExtraSafeSize_def head_def extra_def)
  obtain d code where d: "serialize_lite_diff new old cl out plugin head = Ok (out @ d)" "lite_diff_holds unz plugin head (length new) d code"
    "lite_spec old (length new) code = Some new"
    "\<forall>extra. (\<forall>c \<in> set cl. 0 < coverLength c \<longrightarrow> newPos c \<le> oldPos c + extra) \<longrightarrow> lite_safe_diff (reads_near extra) old code"
    using serialize_lite_diff_result [OF lite_last_cover_result [OF g(2,3) s(1,2)] assms(4) s(3) assms(5) head(2)] unfolding cl_def by blast
  have "\<forall>c \<in> set cl. 0 < coverLength c \<longrightarrow> newPos c \<le> oldPos c + extra"
    using g(6) by (auto simp: cl_def lite_last_cover_def Let_def extra_def split: if_splits prod.splits)
  then have safe: "lite_safe_diff (reads_near extra) old code" using d(4) by blast
  have "create_inplace_lite_diff divsufsort k new old out sets plugin = Ok (out @ d)"
    using g(1) d(1) head(1) by (simp add: create_inplace_lite_diff_def create_lite_diff_with_def cl_def)
  moreover have t: "3 + extra + page \<le> t" using assms(6) e(1) by linarith
  obtain l where "hpatchi_inplaceB by_page (length code + 1) (shared_listener \<lparr>sh_diff = code, sh_mem = mem, sh_oldSize = length old, sh_pos = 0\<rparr>)
      (length new) extra page t = Ok l" "sh_pos (li_state l) = length new" "take (length new) (sh_mem (li_state l)) = new"
    using inplace_shared [OF d(3) safe _ s(3) t assms(7,8,9,10,11), of "length code + 1"] by auto
  ultimately show ?thesis using d(2) e(1,2) unfolding head_def by (metis min.boundedI)
qed

text \<open>One byte is in front of its old data, and the memory is as large as the new data.\<close>

theorem create_inplace_lite_diff_patches_in_place_witness:
  "\<exists>d code extra l. create_inplace_lite_diff (\<lambda>_. Some [1, 0]) 6 [1, 7, 5, 7, 5, 7] [7, 5] []
      \<lparr>is_extraSafeSize = 1, is_isCompatibleLiteDiff = False, is_isCanExtendCover = True\<rparr>
      \<lparr>hi_compress = Some roomy_compress, hi_compress_type = 9\<rparr> = Ok ([] @ d) \<and>
    extra \<le> min (is_extraSafeSize \<lparr>is_extraSafeSize = 1, is_isCompatibleLiteDiff = False, is_isCanExtendCover = True\<rparr>)
      (length [1, 7, 5, 7, 5, 7 :: byte]) \<and>
    lite_diff_holds zeros_unz \<lparr>hi_compress = Some roomy_compress, hi_compress_type = 9\<rparr>
      (if is_isCompatibleLiteDiff \<lparr>is_extraSafeSize = 1, is_isCompatibleLiteDiff = False, is_isCanExtendCover = True\<rparr> then None else Some extra)
      (length [1, 7, 5, 7, 5, 7 :: byte]) d code \<and>
    hpatchi_inplaceB True (length code + 1)
      (shared_listener \<lparr>sh_diff = code, sh_mem = [7, 5, 0, 0, 0, 0], sh_oldSize = length [7, 5 :: byte], sh_pos = 0\<rparr>)
      (length [1, 7, 5, 7, 5, 7 :: byte]) extra 2 6 = Ok l \<and>
    sh_pos (li_state l) = length [1, 7, 5, 7, 5, 7 :: byte] \<and> take (length [1, 7, 5, 7, 5, 7 :: byte]) (sh_mem (li_state l)) = [1, 7, 5, 7, 5, 7]"
  by (rule create_inplace_lite_diff_patches_in_place [OF refl]) (use roomy_compress_ok in \<open>simp_all add: suffix_array_def\<close>)

end
