(* ===== verification/Spec2Isabelle.thy ===== *)
theory Spec2Isabelle
  imports SingleDiff BytesRle0 MatchInplace
begin

text \<open>
HDiffPatch makes a diff of two versions of some data and patches the old version with it into the
new one. A diff is a list of \<^emph>\<open>covers\<close>, each of which says that a range of the new data resembles a
range of the old data, the bytes of the new data that no cover covers, and under the covers the
differences of the bytes, which are mostly zero and are stored as run-length code. There are four
formats: the serialized diff of \<^verbatim>\<open>serialize_diff\<close>, the compressed diff of
\<^verbatim>\<open>create_compressed_diff\<close> (a head and four sections, each compressed or not), the single-stream
diff (covers, differences and bytes in steps, for patching in one forward read) and the lite diff of
HPatchLite for small devices. This library models the engines that patch, the code that writes
diffs, and the streams, caches and codes below both, and shows that they agree on one meaning of a
diff.

\<^bold>\<open>How the code is modelled.\<close> A function of the C or C++ code is a function on values. What it
changes through pointers is returned. A struct is a record with the fields of the source. Every
failure of the source (a false return, a thrown exception) is the value \<open>Fail\<close> of the result type
of theory Prelude; a read or write outside a buffer, an unmet \<open>assert\<close> or a use of something that is
not there is the other value, \<open>Fault\<close>, so that a theorem that says \<open>Fault\<close> does not come out is a
theorem of memory safety. Sizes and positions are natural numbers, and where the source adds or
subtracts 64-bit or 32-bit numbers without having checked them the model wraps
(\<open>add64\<close>, \<open>sub64\<close>, \<open>add32\<close>). A stream is a record of functions over a state, as the struct of
callbacks is in the source. Loops are recursive functions that are shown to terminate by a measure
(the input left, the room left); only the reading of integers by HPatchLite takes fuel, and its
theorem asks for more fuel than there are bytes in the diff, which is enough because every step of
the loop takes one. The build that is modelled has the checks of memory safety on
(\<^verbatim>\<open>__RUN_MEM_SAFE_CHECK\<close>, \<^verbatim>\<open>_IS_RUN_MEM_SAFE_CHECK\<close>), has no threads and does not cache old data by
covers.

\<^bold>\<open>The theories\<close>, with the files under \<^verbatim>\<open>src/\<close> they model:

\<^item> Prelude: results and the rule for each way to combine them (collection \<open>hoare\<close>), bytes, machine
  integers, buffers. PackUInt: packed integers (\<^verbatim>\<open>libHDiffPatch/HPatch/patch.c\<close>,
  \<^verbatim>\<open>hpatch_packUIntWithTag\<close> and its relatives).

\<^item> DiffSpec: the meaning of a serialized diff, written without buffers, caches or positions in
  files; the engines read integers through one of two decoders, which the meaning takes as an
  argument.

\<^item> MemPatch: \<^verbatim>\<open>patch\<close> and \<^verbatim>\<open>_bytesRle_load\<close> over memory.

\<^item> Streams, CacheClip, OutCache, RleStream, Rle0, Covers: the parts of the streaming engines of
  \<^verbatim>\<open>patch.c\<close>. Streams has the interfaces of streams as locales (\<open>input_stream\<close>, \<open>random_stream\<close>,
  \<open>output_stream\<close>, \<open>rw_stream\<close>), memory and clips of streams as interpretations. CacheClip is
  \<^verbatim>\<open>TStreamCacheClip\<close>, OutCache \<^verbatim>\<open>_TOutStreamCache\<close>, RleStream \<^verbatim>\<open>_TBytesRle_load_stream\<close>, Rle0
  \<^verbatim>\<open>rle0_decoder_t\<close>, Covers \<^verbatim>\<open>_TCovers\<close> and the interface of all sources of covers (\<open>covers_source\<close>).

\<^item> PatchClip and PatchStream: \<^verbatim>\<open>patchByClip\<close>, \<^verbatim>\<open>_patch_stream_with_cache\<close>, \<^verbatim>\<open>patch_stream\<close>.
  SingleStream: \<^verbatim>\<open>patch_single_stream_diff\<close> with its steps and listener. Decompress: the interface of
  decompressors and the streams of compressed sections. Diffz: \<^verbatim>\<open>read_diffz_head\<close>,
  \<^verbatim>\<open>patch_decompress\<close> and the covers of a compressed diff. SingleDiff: the head of single-stream
  diffs, \<^verbatim>\<open>TDiffToSingleStream\<close> and the functions around the engine.

\<^item> HPatchLite and LiteInplace: \<^verbatim>\<open>libHDiffPatch/HPatchLite/hpatch_lite.c\<close>, the patch through a
  listener (locale \<open>lite_io\<close>, whose laws of reading old data hold under a guard, such as that the
  position is not yet overwritten) and the ring that makes it work in place. SharedMem: a listener
  whose old data and new data share one memory, as on the device; it is no part of the repository but
  the environment that patching in place is made for.

\<^item> PackVec (\<^verbatim>\<open>HDiff/private_diff/pack_uint.h\<close>), BytesRle and BytesRle0 (\<^verbatim>\<open>bytes_rle.cpp\<close>): writing
  integers and run-length code. NewData, SubDiff and DiffStream
  (\<^verbatim>\<open>limit_mem_diff/stream_serialize.cpp\<close>): the uncovered bytes and the differences as streams,
  and \<^verbatim>\<open>TDiffStream\<close> with its placeholders and sections. Serialize and DiffzSave
  (\<^verbatim>\<open>HDiff/diff.cpp\<close>): \<^verbatim>\<open>create_diff\<close> and \<^verbatim>\<open>create_compressed_diff\<close>.

\<^item> StepStream, Rle0Size, StepLaws, StepPlan, StepSave and StepRead: \<^verbatim>\<open>TStepStream\<close> of
  \<^verbatim>\<open>limit_mem_diff/stream_serialize.cpp\<close>, which writes the steps of a single-stream diff. StepStream
  has the operations, with the coder that only counts; Rle0Size and StepLaws show that what is
  counted is what is written; StepPlan is the plan of the steps and the memory they need, StepSave
  the sizes, StepRead the reading of the stream. SingleSave (\<^verbatim>\<open>HDiff/diff.cpp\<close>):
  \<^verbatim>\<open>create_single_compressed_diff\<close>. The theorems are for a diff with differences under all its covers
  (\<^verbatim>\<open>isZeroSubDiff\<close> false), new data below \<open>2^54\<close> bytes and memory for a step below \<open>2^62\<close>.

\<^item> SuffixString (\<^verbatim>\<open>HDiff/private_diff/suffix_string.cpp\<close>): the search in the suffix
  array with its tables of first bytes; CompressDetect (\<^verbatim>\<open>HDiff/private_diff/compress_detect.cpp\<close>): the
  estimates of cost that choose covers; SearchCover (\<^verbatim>\<open>HDiff/diff.cpp\<close>): the search, linking,
  selection and extension of covers, each with and without the limits of a \<^verbatim>\<open>TDiffLimit\<close>;
  SearchSafe: that these are safe, with a listener of limits whose answers keep what \<^verbatim>\<open>limitCover\<close>
  promises, and give covers that pass the check of the source; SearchDiff: \<^verbatim>\<open>get_diff\<close>
  without a listener, and the creating functions with this search in place. The theorems of the search are for old data of at most 2 MiB;
  above that the table of the first two bytes is used, which SuffixString shows can read outside of
  the data it is given.

\<^item> LiteSave: \<^verbatim>\<open>create_lite_diff\<close>, \<^verbatim>\<open>serialize_lite_diff\<close> and \<^verbatim>\<open>do_compress\<close>, for new data whose
  uncompressed diff surely fits 32 bits (34 times its length and 11 below \<open>2^32\<close>).

\<^item> ResearchCover: \<^verbatim>\<open>TDiffResearchCover\<close>, which searches parts of covers again within limits and
  merges what it finds, and \<^verbatim>\<open>get_diff\<close> with a listener of covers. MatchInplace
  (\<^verbatim>\<open>HDiff/private_diff/match_inplace.cpp\<close>): the listener that keeps only covers whose old data is still
  there when a patch in place needs it, and \<^verbatim>\<open>create_inplace_lite_diff\<close>. Its theorem joins the search
  of covers, the writer of lite diffs, the patcher with its ring and the shared memory.

\<^bold>\<open>What the lemmas show.\<close> Each theory that models an engine has a contract of it, stated with
\<open>hoare\<close>: from a state that stands for some value (an \<open>abs\<close>-like predicate of the theory, such as what
is left of a clip or what a cache has put out) every operation gives a state that stands for the
value the meaning says, or fails only where the meaning has none, and never faults. The theorems of
patching say that the result is the meaning of the diff (\<open>diff_spec\<close>, \<open>ss_spec\<close>, \<open>lite_spec\<close>,
\<open>diffz_spec\<close>) and that the patch fails exactly where the meaning is undefined, for every diff,
damaged ones too. The theorems of writing say that what is written means the new data, so that
patching with it gives the new data back; they hold for every list of covers that passes the
check of the source, whatever search found it. The theorems of the search say that it returns without
a fault and that its covers pass that check, so that the functions that search and write together
give a diff that patches the old data to the new. The hypotheses bound sizes to what fits the
machine integers, and ask for the memory the source asks its callers for.

\<^bold>\<open>Parameters.\<close> Compressors and decompressors are code outside the modelled part; they are arguments,
with what the interface in \<^verbatim>\<open>patch_types.h\<close> and \<^verbatim>\<open>diff_types.h\<close> documents as hypotheses
(\<open>decompress_ok\<close>, \<open>compress_ok\<close>), each with a concrete pair that keeps them in the witnesses. The
listeners of single-stream diffs and of HPatchLite are arguments too, and so is the vendored sorting
of suffixes, of which the search asks that it gives the sorted suffixes (\<open>suffix_array\<close>). The search of covers
is an argument of the writers in Serialize, DiffzSave and SingleSave, and the one of the source in
SearchDiff, LiteSave and MatchInplace.

\<^bold>\<open>Not modelled.\<close> The build that caches old data by covers and the threads of \<^verbatim>\<open>hpatch_mt\<close> (they
change where bytes are read from, not which); the search with several threads and the filter of fast
matches, both in \<^verbatim>\<open>diff.cpp\<close>; the search by digests of blocks in \<^verbatim>\<open>digest_matcher.cpp\<close> and
\<^verbatim>\<open>match_block.cpp\<close>; the functions that check a diff or
save it again with another compressor; the formats of directories, BSDIFF and VCDIFF; libhsync, a
program of its own; files, command lines, plugins and bindings, which are glue to systems outside
the repository; vendored suffix sorting; tests.
\<close>

end
